(* ===== verification/Js_Prelude.thy ===== *)
theory Js_Prelude
  imports Complex_Main "HOL-Library.Word" "HOL-Library.Monad_Syntax"
begin

text \<open>
  The part of the language and of its standard library that every component
  of the model shares: numbers and their safe-integer range, insertion-ordered
  maps (the ECMAScript \<open>Map\<close>), byte strings with their hexadecimal rendering
  and the branch-free byte comparison, and scans that return the first
  matching index or \<open>-1\<close>.

  Integers of the source are validated to be safe integers before they reach
  the code modelled here, so they are \<open>int\<close> (or \<open>nat\<close> for lengths); a value that
  has not been validated yet is a \<open>js_number\<close>. A \<open>Set\<close> is a HOL set, since no
  modelled code depends on the iteration order of one.
\<close>

named_theorems js_map_simps "laws of insertion-ordered maps"
named_theorems js_defs "definitions unfolded together by the component proofs"


section \<open>Numbers\<close>

datatype js_number = NaN | PosInf | NegInf | Fin rat

definition js_int :: "int \<Rightarrow> js_number" where
  "js_int i = Fin (of_int i)"

abbreviation MAX_SAFE_INTEGER :: int where
  "MAX_SAFE_INTEGER \<equiv> 9007199254740991"

definition isFinite :: "js_number \<Rightarrow> bool" where
  "isFinite n = (case n of Fin _ \<Rightarrow> True | _ \<Rightarrow> False)"

text \<open>\<open>Number.isInteger\<close>: the integer value when there is one.\<close>

definition asInteger :: "js_number \<Rightarrow> int option" where
  "asInteger n = (case n of Fin r \<Rightarrow> if of_int \<lfloor>r\<rfloor> = r then Some \<lfloor>r\<rfloor> else None | _ \<Rightarrow> None)"

text \<open>\<open>Number.isSafeInteger\<close>: the integer value when it is exactly representable.\<close>

definition asSafeInteger :: "js_number \<Rightarrow> int option" where
  "asSafeInteger n = (case asInteger n of
     Some i \<Rightarrow> if \<bar>i\<bar> \<le> MAX_SAFE_INTEGER then Some i else None
   | None \<Rightarrow> None)"

definition safe_nat :: "int \<Rightarrow> bool" where
  "safe_nat i \<longleftrightarrow> 0 \<le> i \<and> i \<le> MAX_SAFE_INTEGER"

lemma asInteger_js_int [simp]: "asInteger (js_int i) = Some i"
  by (simp add: asInteger_def js_int_def)

lemma asInteger_Some [dest]: "asInteger n = Some i \<Longrightarrow> n = js_int i"
  by (auto simp: asInteger_def js_int_def split: js_number.splits if_splits)

lemma asSafeInteger_js_int [simp]:
  "asSafeInteger (js_int i) = (if \<bar>i\<bar> \<le> MAX_SAFE_INTEGER then Some i else None)"
  by (simp add: asSafeInteger_def)

lemma asSafeInteger_Some [dest]:
  "asSafeInteger n = Some i \<Longrightarrow> n = js_int i \<and> \<bar>i\<bar> \<le> MAX_SAFE_INTEGER"
  by (auto simp: asSafeInteger_def split: option.splits if_splits)

lemma isFinite_js_int [simp]: "isFinite (js_int i)"
  by (simp add: isFinite_def js_int_def)

lemma js_int_inject [simp]: "js_int i = js_int j \<longleftrightarrow> i = j"
  by (simp add: js_int_def)


section \<open>Insertion-ordered maps\<close>

type_synonym ('k, 'v) jsmap = "('k \<times> 'v) list"

definition jget :: "('k, 'v) jsmap \<Rightarrow> 'k \<Rightarrow> 'v option" where
  "jget m k = map_of m k"

definition jhas :: "('k, 'v) jsmap \<Rightarrow> 'k \<Rightarrow> bool" where
  "jhas m k \<longleftrightarrow> jget m k \<noteq> None"

text \<open>\<open>Map.set\<close> keeps the position of a known key and appends a new one.\<close>

fun jset :: "('k, 'v) jsmap \<Rightarrow> 'k \<Rightarrow> 'v \<Rightarrow> ('k, 'v) jsmap" where
  "jset [] k v = [(k, v)]"
| "jset ((k', v') # m) k v = (if k' = k then (k, v) # m else (k', v') # jset m k v)"

definition jdel :: "('k, 'v) jsmap \<Rightarrow> 'k \<Rightarrow> ('k, 'v) jsmap" where
  "jdel m k = filter (\<lambda>e. fst e \<noteq> k) m"

definition jkeys :: "('k, 'v) jsmap \<Rightarrow> 'k list" where
  "jkeys m = map fst m"

definition jvals :: "('k, 'v) jsmap \<Rightarrow> 'v list" where
  "jvals m = map snd m"

definition jsize :: "('k, 'v) jsmap \<Rightarrow> nat" where
  "jsize m = length m"

definition jwf :: "('k, 'v) jsmap \<Rightarrow> bool" where
  "jwf m \<longleftrightarrow> distinct (jkeys m)"

text \<open>
  The contract of a map that remembers insertion order. The laws are the ones
  the source relies on: lookup after an update, and where an update leaves a
  key in the iteration order.
\<close>

locale ordered_map =
  fixes empty_map :: "'m"
    and look :: "'m \<Rightarrow> 'k \<Rightarrow> 'v option"
    and store :: "'m \<Rightarrow> 'k \<Rightarrow> 'v \<Rightarrow> 'm"
    and remove :: "'m \<Rightarrow> 'k \<Rightarrow> 'm"
    and ks :: "'m \<Rightarrow> 'k list"
    and wf :: "'m \<Rightarrow> bool"
  assumes wf_empty: "wf empty_map"
    and wf_store: "wf m \<Longrightarrow> wf (store m k v)"
    and wf_remove: "wf m \<Longrightarrow> wf (remove m k)"
    and wf_ks: "wf m \<Longrightarrow> distinct (ks m)"
    and ks_empty: "ks empty_map = []"
    and ks_look: "k \<in> set (ks m) \<longleftrightarrow> look m k \<noteq> None"
    and look_store: "look (store m k v) k' = (if k' = k then Some v else look m k')"
    and look_remove: "look (remove m k) k' = (if k' = k then None else look m k')"
    and ks_store_known: "look m k \<noteq> None \<Longrightarrow> ks (store m k v) = ks m"
    and ks_store_new: "look m k = None \<Longrightarrow> ks (store m k v) = ks m @ [k]"
    and ks_remove: "ks (remove m k) = filter (\<lambda>x. x \<noteq> k) (ks m)"
begin

text \<open>Deleting and re-inserting a key makes it the most recent one.\<close>

lemma ks_refresh: "ks (store (remove m k) k v) = filter (\<lambda>x. x \<noteq> k) (ks m) @ [k]"
proof -
  have "look (remove m k) k = None" by (simp add: look_remove)
  then show ?thesis by (simp add: ks_store_new ks_remove)
qed

lemma look_refresh: "look m k = Some v \<Longrightarrow> look (store (remove m k) k v) = look m"
  by (auto simp: fun_eq_iff look_store look_remove)

lemma count_store_new: "look m k = None \<Longrightarrow> length (ks (store m k v)) = Suc (length (ks m))"
  by (simp add: ks_store_new)

lemma count_store_known: "look m k \<noteq> None \<Longrightarrow> length (ks (store m k v)) = length (ks m)"
  by (simp add: ks_store_known)

lemma count_remove_known:
  assumes "wf m" and "look m k \<noteq> None"
  shows "Suc (length (ks (remove m k))) = length (ks m)"
proof -
  have d: "distinct (ks m)" using assms(1) by (rule wf_ks)
  have k: "k \<in> set (ks m)" using assms(2) by (simp add: ks_look)
  have "set (ks (remove m k)) = set (ks m) - {k}" by (auto simp: ks_remove)
  moreover have "distinct (ks (remove m k))" using d by (simp add: ks_remove)
  ultimately have "length (ks (remove m k)) = card (set (ks m) - {k})"
    by (metis distinct_card)
  also have "\<dots> = length (ks m) - 1"
    using d k by (simp add: distinct_card)
  finally show ?thesis using k by (cases "ks m") auto
qed

lemma count_remove_le: "length (ks (remove m k)) \<le> length (ks m)"
  by (simp add: ks_remove)

end

lemma jget_Nil [simp]: "jget [] k = None"
  by (simp add: jget_def)

lemma jget_Cons: "jget ((k', v) # m) k = (if k = k' then Some v else jget m k)"
  by (auto simp: jget_def)

lemma jget_jset: "jget (jset m k v) k' = (if k' = k then Some v else jget m k')"
  by (induction m k v rule: jset.induct) (auto simp: jget_Cons)

lemma jget_jdel: "jget (jdel m k) k' = (if k' = k then None else jget m k')"
  by (induction m) (auto simp: jdel_def jget_Cons)

lemma jkeys_jget: "k \<in> set (jkeys m) \<longleftrightarrow> jget m k \<noteq> None"
  by (simp add: jkeys_def jget_def map_of_eq_None_iff)

lemma jkeys_jset_known: "jget m k \<noteq> None \<Longrightarrow> jkeys (jset m k v) = jkeys m"
  by (induction m k v rule: jset.induct) (auto simp: jget_Cons jkeys_def)

lemma jkeys_jset_new: "jget m k = None \<Longrightarrow> jkeys (jset m k v) = jkeys m @ [k]"
  by (induction m k v rule: jset.induct) (auto simp: jget_Cons jkeys_def split: if_splits)

lemma jkeys_jdel: "jkeys (jdel m k) = filter (\<lambda>x. x \<noteq> k) (jkeys m)"
  by (induction m) (auto simp: jkeys_def jdel_def)

lemma jwf_jset: "jwf m \<Longrightarrow> jwf (jset m k v)"
  by (cases "jget m k") (auto simp: jwf_def jkeys_jset_new jkeys_jset_known jkeys_jget)

interpretation es_map: ordered_map "[]" jget jset jdel jkeys jwf
  by unfold_locales
    (auto simp: jwf_jset jget_jset jget_jdel jkeys_jset_known jkeys_jset_new jkeys_jdel jkeys_jget,
      auto simp: jwf_def jkeys_def jdel_def jkeys_jget intro: distinct_map_filter)

lemma jsize_jkeys: "jsize m = length (jkeys m)"
  by (simp add: jsize_def jkeys_def)

lemma jset_fresh: "jget m k = None \<Longrightarrow> jset m k v = m @ [(k, v)]"
  by (induction m k v rule: jset.induct) (auto simp: jget_Cons split: if_splits)

lemma jget_in_set: "jget m k = Some v \<Longrightarrow> (k, v) \<in> set m"
  by (simp add: jget_def map_of_SomeD)

lemma jget_jvals: "jget m k = Some v \<Longrightarrow> v \<in> set (jvals m)"
  by (force simp: jvals_def dest: jget_in_set)

lemma jget_eq_Some_iff: "jwf m \<Longrightarrow> jget m k = Some v \<longleftrightarrow> (k, v) \<in> set m"
  by (simp add: jwf_def jkeys_def jget_def)

lemma jget_None_iff: "jget m k = None \<longleftrightarrow> k \<notin> fst ` set m"
  by (simp add: jget_def map_of_eq_None_iff)

lemma jwf_Nil [simp]: "jwf []"
  by (simp add: jwf_def jkeys_def)

lemma jsize_Nil [simp]: "jsize [] = 0"
  by (simp add: jsize_def)

lemma jsize_jset:
  "jsize (jset m k v) = (if jget m k = None then Suc (jsize m) else jsize m)"
  by (simp add: jsize_jkeys es_map.count_store_new es_map.count_store_known)

lemma jsize_jdel_le: "jsize (jdel m k) \<le> jsize m"
  by (simp add: jsize_jkeys es_map.count_remove_le)

lemma jget_append: "jget (m @ n) k = (case jget m k of None \<Rightarrow> jget n k | Some v \<Rightarrow> Some v)"
  by (simp add: jget_def map_add_def split: option.splits)

lemma jget_filter:
  "jwf m \<Longrightarrow> jget (filter P m) k =
     (case jget m k of None \<Rightarrow> None | Some v \<Rightarrow> if P (k, v) then Some v else None)"
proof (induction m)
  case (Cons e m)
  have "jwf m" using Cons.prems by (simp add: jwf_def jkeys_def)
  moreover have "jget m (fst e) = None" using Cons.prems by (simp add: jwf_def jkeys_def jget_None_iff)
  ultimately show ?case using Cons.IH by (cases e) (auto simp: jget_Cons)
qed simp

lemma set_jdel: "set (jdel m k) = {e \<in> set m. fst e \<noteq> k}"
  by (auto simp: jdel_def)

lemmas [js_map_simps] =
  jget_jset jget_jdel jwf_jset es_map.wf_remove jsize_jset jhas_def jkeys_jget


section \<open>Bytes\<close>

type_synonym byte = "8 word"
type_synonym bytes = "byte list"

text \<open>A string is its list of UTF-16 code units.\<close>

type_synonym js_string = "16 word list"

text \<open>\<open>n.toString(16).padStart(2, '0')\<close> for a byte, and the loop over a byte array.\<close>

definition hex_digit :: "nat \<Rightarrow> char" where
  "hex_digit n = (''0123456789abcdef'') ! n"

definition hex_byte :: "byte \<Rightarrow> string" where
  "hex_byte b = [hex_digit (unat b div 16), hex_digit (unat b mod 16)]"

fun hex_bytes :: "bytes \<Rightarrow> string" where
  "hex_bytes [] = []"
| "hex_bytes (b # bs) = hex_byte b @ hex_bytes bs"

lemma hex_digit_inj: "a < 16 \<Longrightarrow> b < 16 \<Longrightarrow> hex_digit a = hex_digit b \<longleftrightarrow> a = b"
proof -
  have "distinct ''0123456789abcdef''" by simp
  moreover have "length ''0123456789abcdef'' = 16" by simp
  ultimately show "a < 16 \<Longrightarrow> b < 16 \<Longrightarrow> hex_digit a = hex_digit b \<longleftrightarrow> a = b"
    unfolding hex_digit_def by (metis nth_eq_iff_index_eq)
qed

lemma hex_byte_inj: "hex_byte a = hex_byte b \<longleftrightarrow> a = b"
proof
  assume eq: "hex_byte a = hex_byte b"
  have lt: "unat a < 256" "unat b < 256"
    using unsigned_less [of a] unsigned_less [of b] by simp_all
  then have "unat a div 16 = unat b div 16" "unat a mod 16 = unat b mod 16"
    using eq by (auto simp: hex_byte_def hex_digit_inj)
  then have "unat a = unat b" by (metis mult_div_mod_eq)
  then show "a = b" by (simp add: word_unat_eq_iff)
qed simp

lemma hex_bytes_inj [simp]: "hex_bytes xs = hex_bytes ys \<longleftrightarrow> xs = ys"
proof (induction xs arbitrary: ys)
  case Nil
  show ?case by (cases ys) (auto simp: hex_byte_def)
next
  case (Cons x xs)
  show ?case
  proof (cases ys)
    case Nil
    then show ?thesis by (simp add: hex_byte_def)
  next
    case (Cons y ys')
    have "hex_byte x @ hex_bytes xs = hex_byte y @ hex_bytes ys' \<longleftrightarrow>
        hex_byte x = hex_byte y \<and> hex_bytes xs = hex_bytes ys'"
      by (rule append_eq_append_conv) (simp add: hex_byte_def)
    then show ?thesis using Cons Cons.IH by (simp add: hex_byte_inj)
  qed
qed

lemma length_hex_bytes [simp]: "length (hex_bytes bs) = 2 * length bs"
  by (induction bs) (auto simp: hex_byte_def)

unbundle bit_operations_syntax

text \<open>
  The accumulate-then-test comparison: \<open>difference |= a[i] ^ b[i]\<close> over two
  arrays of equal length.
\<close>

fun or_differences :: "byte \<Rightarrow> bytes \<Rightarrow> bytes \<Rightarrow> byte" where
  "or_differences d (x # xs) (y # ys) = or_differences (d OR (x XOR y)) xs ys"
| "or_differences d xs ys = d"

definition equalBytes :: "bytes \<Rightarrow> bytes \<Rightarrow> bool" where
  "equalBytes a b =
     (if length a \<noteq> length b then False else or_differences 0 a b = 0)"

lemma word_or_zero: "(a :: 'a::len word) OR b = 0 \<longleftrightarrow> a = 0 \<and> b = 0"
  by (auto simp: bit_eq_iff bit_or_iff)

lemma word_xor_zero: "(a :: 'a::len word) XOR b = 0 \<longleftrightarrow> a = b"
  by (metis xor_self_eq bit.xor_left_self xor.right_neutral)

lemma or_differences_zero:
  "length a = length b \<Longrightarrow> or_differences d a b = 0 \<longleftrightarrow> d = 0 \<and> a = b"
  by (induction d a b rule: or_differences.induct) (auto simp: word_or_zero word_xor_zero)

lemma equalBytes_iff [simp]: "equalBytes a b \<longleftrightarrow> a = b"
  by (auto simp: equalBytes_def or_differences_zero)


section \<open>First-index scans\<close>

text \<open>
  Loops of the form \<open>for (index ...) if (hit(xs[index])) return index; return -1\<close>.
\<close>

locale first_index =
  fixes scan :: "nat \<Rightarrow> 'a list \<Rightarrow> int"
    and hit :: "'a \<Rightarrow> bool"
  assumes scan_Nil: "scan i [] = -1"
    and scan_Cons: "scan i (x # xs) = (if hit x then int i else scan (Suc i) xs)"
begin

lemma scan_none: "scan i xs = -1 \<longleftrightarrow> (\<forall>x \<in> set xs. \<not> hit x)"
  by (induction xs arbitrary: i) (auto simp: scan_Nil scan_Cons)

lemma scan_found:
  "scan i xs = int j \<longleftrightarrow>
     i \<le> j \<and> j - i < length xs \<and> hit (xs ! (j - i)) \<and> (\<forall>n < j - i. \<not> hit (xs ! n))"
proof (induction xs arbitrary: i)
  case Nil
  show ?case by (simp add: scan_Nil)
next
  case (Cons x xs)
  show ?case
  proof (cases "hit x")
    case True
    have "(\<forall>n < j - i. \<not> hit ((x # xs) ! n)) \<Longrightarrow> i \<le> j \<Longrightarrow> i = j"
      using True by (metis diff_is_0_eq le_antisym nth_Cons_0 zero_less_iff_neq_zero)
    then show ?thesis using True by (auto simp: scan_Cons)
  next
    case False
    have "(i \<le> j \<and> j - i < length (x # xs) \<and> hit ((x # xs) ! (j - i)) \<and>
            (\<forall>n < j - i. \<not> hit ((x # xs) ! n))) \<longleftrightarrow>
          (Suc i \<le> j \<and> j - Suc i < length xs \<and> hit (xs ! (j - Suc i)) \<and>
            (\<forall>n < j - Suc i. \<not> hit (xs ! n)))"
    proof (cases "i < j")
      case True
      then have "j - i = Suc (j - Suc i)" by simp
      then show ?thesis using True False by (auto simp: All_less_Suc2)
    next
      case False
      then have "j - i = 0" by simp
      then show ?thesis using False \<open>\<not> hit x\<close> by auto
    qed
    then show ?thesis using False Cons.IH [of "Suc i"] by (simp add: scan_Cons)
  qed
qed

lemma scan_range: "-1 \<le> scan i xs \<and> scan i xs < int (i + length xs)"
proof (induction xs arbitrary: i)
  case (Cons x xs)
  have "-1 \<le> scan (Suc i) xs \<and> scan (Suc i) xs < int (Suc i + length xs)"
    by (rule Cons.IH)
  then show ?case by (simp add: scan_Cons)
qed (simp add: scan_Nil)

end



section \<open>Checks that throw\<close>

text \<open>
  Sequencing of code that may throw, and a single check. A function that only
  asserts returns \<open>Inr ()\<close>.
\<close>

definition sbind :: "'e + 'a \<Rightarrow> ('a \<Rightarrow> 'e + 'b) \<Rightarrow> 'e + 'b" where
  "sbind r f = (case r of Inl e \<Rightarrow> Inl e | Inr v \<Rightarrow> f v)"

definition require :: "bool \<Rightarrow> 'e \<Rightarrow> 'e + unit" where
  "require c e = (if c then Inr () else Inl e)"

definition succeeds :: "'e + 'a \<Rightarrow> bool" where
  "succeeds r = (case r of Inl _ \<Rightarrow> False | Inr _ \<Rightarrow> True)"

lemma sbind_simps [simp]: "sbind (Inl e) f = Inl e" "sbind (Inr v) f = f v"
  by (simp_all add: sbind_def)

lemma sbind_Inr_iff: "sbind r f = Inr w \<longleftrightarrow> (\<exists>v. r = Inr v \<and> f v = Inr w)"
  by (cases r) auto

lemma require_Inr_iff [simp]: "require c e = Inr u \<longleftrightarrow> c"
  by (simp add: require_def)

lemma require_Inl_iff [simp]: "require c e = Inl e' \<longleftrightarrow> \<not> c \<and> e' = e"
  by (auto simp: require_def)

lemma succeeds_simps [simp]: "\<not> succeeds (Inl e)" "succeeds (Inr v)"
  by (simp_all add: succeeds_def)

lemma succeeds_iff: "succeeds r \<longleftrightarrow> (\<exists>v. r = Inr v)"
  by (cases r) auto

lemma succeeds_sbind: "succeeds (sbind r f) \<longleftrightarrow> (\<exists>v. r = Inr v \<and> succeeds (f v))"
  by (cases r) auto

lemma succeeds_require [simp]: "succeeds (require c e) \<longleftrightarrow> c"
  by (simp add: require_def)


section \<open>Runs\<close>

text \<open>
  A run of a component is a list of its operations folded over its state; what every
  operation preserves holds after every run.
\<close>

locale step_invariant =
  fixes step :: "'op \<Rightarrow> 'st \<Rightarrow> 'st" and inv :: "'st \<Rightarrow> bool"
  assumes step_inv: "inv s \<Longrightarrow> inv (step op s)"
begin

lemma run_inv: "inv s \<Longrightarrow> inv (fold step ops s)"
  by (induction ops arbitrary: s) (auto intro: step_inv)

end


section \<open>At most once\<close>

text \<open>
  The contract of a replay ledger: \<open>admits s e\<close> says that event \<open>e\<close> is admitted
  in state \<open>s\<close>, \<open>spent s k\<close> that key \<open>k\<close> can no longer be admitted. A ledger
  that keeps these laws admits every key at most once, in any sequence of
  events.
\<close>

fun admissions ::
    "('st \<Rightarrow> 'ev \<Rightarrow> 'st) \<Rightarrow> ('st \<Rightarrow> 'ev \<Rightarrow> bool) \<Rightarrow> ('ev \<Rightarrow> 'k) \<Rightarrow> 'st \<Rightarrow> 'ev list \<Rightarrow> 'k list" where
  "admissions step admits key s [] = []"
| "admissions step admits key s (e # es) =
     (if admits s e then [key e] else []) @ admissions step admits key (step s e) es"

locale replay_ledger =
  fixes step :: "'st \<Rightarrow> 'ev \<Rightarrow> 'st"
    and admits :: "'st \<Rightarrow> 'ev \<Rightarrow> bool"
    and key :: "'ev \<Rightarrow> 'k"
    and good :: "'st \<Rightarrow> bool"
    and legal :: "'ev \<Rightarrow> bool"
    and spent :: "'st \<Rightarrow> 'k \<Rightarrow> bool"
  assumes good_step: "good s \<Longrightarrow> legal e \<Longrightarrow> good (step s e)"
    and spent_admitted: "good s \<Longrightarrow> legal e \<Longrightarrow> admits s e \<Longrightarrow> spent (step s e) (key e)"
    and spent_kept: "good s \<Longrightarrow> legal e \<Longrightarrow> spent s k \<Longrightarrow> spent (step s e) k"
    and spent_refused: "good s \<Longrightarrow> legal e \<Longrightarrow> spent s (key e) \<Longrightarrow> \<not> admits s e"
begin

lemma never_again:
  "good s \<Longrightarrow> \<forall>e \<in> set es. legal e \<Longrightarrow> spent s k \<Longrightarrow> k \<notin> set (admissions step admits key s es)"
proof (induction es arbitrary: s)
  case (Cons e es)
  have "k \<notin> set (admissions step admits key (step s e) es)"
    using Cons.prems by (intro Cons.IH) (auto intro: good_step spent_kept)
  moreover have "\<not> admits s e \<or> key e \<noteq> k" using Cons.prems spent_refused [of s e] by auto
  ultimately show ?case by auto
qed simp

lemma once: "good s \<Longrightarrow> \<forall>e \<in> set es. legal e \<Longrightarrow> distinct (admissions step admits key s es)"
proof (induction es arbitrary: s)
  case (Cons e es)
  have "distinct (admissions step admits key (step s e) es)"
    using Cons.prems by (intro Cons.IH) (auto intro: good_step)
  moreover have "admits s e \<Longrightarrow> key e \<notin> set (admissions step admits key (step s e) es)"
    using Cons.prems by (intro never_again) (auto intro: good_step spent_admitted)
  ultimately show ?case by auto
qed simp

end

end
