(* ===== verification/Quorum_Policy.thy ===== *)
theory Quorum_Policy
  imports Js_Prelude
begin

text \<open>
  \<open>packages/core/src/policy/quorum.ts\<close> and \<open>policy/authority-votes.ts\<close>: the pure
  decisions of the initial-load quorum. Every loop of the source is a recursion
  over the array it reads, with the loop's local variables as accumulators.
\<close>


section \<open>Definitions\<close>

subsection \<open>Buckets and thresholds\<close>

fun selectQuorumBucket_loop :: "int \<Rightarrow> int \<Rightarrow> int \<Rightarrow> int list \<Rightarrow> int" where
  "selectQuorumBucket_loop threshold winner index [] = winner"
| "selectQuorumBucket_loop threshold winner index (c # counts) =
     (if c \<ge> threshold then
        (if winner \<noteq> -1 then -2
         else selectQuorumBucket_loop threshold index (index + 1) counts)
      else selectQuorumBucket_loop threshold winner (index + 1) counts)"

definition selectQuorumBucket :: "int list \<Rightarrow> int \<Rightarrow> int" where
  "selectQuorumBucket counts threshold = selectQuorumBucket_loop threshold (-1) 0 counts"

definition defaultQuorumQ :: "int \<Rightarrow> int" where
  "defaultQuorumQ k = (if k \<le> 0 then 0 else k div 2 + 1)"

definition requiredQuorumQ :: "int \<Rightarrow> int \<Rightarrow> int" where
  "requiredQuorumQ k configuredFloor =
     (if configuredFloor > 0 then configuredFloor else defaultQuorumQ k)"

subsection \<open>Peers and digests\<close>

text \<open>Reading past the end of \<open>eligible\<close> gives \<open>undefined\<close>, which is not eligible.\<close>

fun firstEligiblePeerIndices_loop ::
    "nat \<Rightarrow> 'p set \<Rightarrow> 'p list \<Rightarrow> bool list \<Rightarrow> nat list" where
  "firstEligiblePeerIndices_loop index seen [] es = []"
| "firstEligiblePeerIndices_loop index seen (p # ps) [] = []"
| "firstEligiblePeerIndices_loop index seen (p # ps) (e # es) =
     (if e \<and> p \<notin> seen
      then index # firstEligiblePeerIndices_loop (Suc index) (insert p seen) ps es
      else firstEligiblePeerIndices_loop (Suc index) seen ps es)"

definition firstEligiblePeerIndices :: "'p list \<Rightarrow> bool list \<Rightarrow> nat list" where
  "firstEligiblePeerIndices peerIds eligible = firstEligiblePeerIndices_loop 0 {} peerIds eligible"

definition countQuorumDigest :: "('d, int) jsmap \<Rightarrow> 'd \<Rightarrow> ('d, int) jsmap" where
  "countQuorumDigest counts digest =
     (let count = (case jget counts digest of None \<Rightarrow> 0 | Some previous \<Rightarrow> previous)
      in jset counts digest (count + 1))"

definition countQuorumDigests :: "'d list \<Rightarrow> ('d, int) jsmap" where
  "countQuorumDigests digests = foldl countQuorumDigest [] digests"

fun quorumCohortIndices_loop :: "nat \<Rightarrow> 'p set \<Rightarrow> 'p list \<Rightarrow> nat list" where
  "quorumCohortIndices_loop index agreeing [] = []"
| "quorumCohortIndices_loop index agreeing (p # ps) =
     (if p \<in> agreeing then index # quorumCohortIndices_loop (Suc index) agreeing ps
      else quorumCohortIndices_loop (Suc index) agreeing ps)"

definition quorumCohortIndices :: "'p list \<Rightarrow> 'p set \<Rightarrow> nat list" where
  "quorumCohortIndices peerIds agreeing = quorumCohortIndices_loop 0 agreeing peerIds"

datatype quorum_failure =
  NoPeersQueried | ConflictingQuorum | InsufficientResponses | NoAgreement

definition quorumFailureReason :: "int \<Rightarrow> int \<Rightarrow> int \<Rightarrow> bool \<Rightarrow> quorum_failure" where
  "quorumFailureReason queried responding threshold conflicting =
     (if queried = 0 then NoPeersQueried
      else if conflicting then ConflictingQuorum
      else if responding < threshold then InsufficientResponses else NoAgreement)"

subsection \<open>Authority votes\<close>

datatype vote_disposition = New | Duplicate | Equivocation

definition classifyAuthorityVote :: "'d option \<Rightarrow> 'd \<Rightarrow> vote_disposition" where
  "classifyAuthorityVote previous incoming =
     (case previous of None \<Rightarrow> New
      | Some d \<Rightarrow> if d = incoming then Duplicate else Equivocation)"

record ('a, 'd) authority_vote =
  authority :: 'a
  digest :: 'd

record vote_classification =
  firstVotes :: "bool list"
  equivocating :: bool

fun classifyAuthorityVotes_loop ::
    "('a, 'd) jsmap \<Rightarrow> bool list \<Rightarrow> bool \<Rightarrow> ('a, 'd) authority_vote list \<Rightarrow> vote_classification" where
  "classifyAuthorityVotes_loop seen acc eq [] = \<lparr>firstVotes = acc, equivocating = eq\<rparr>"
| "classifyAuthorityVotes_loop seen acc eq (v # vs) =
     (case classifyAuthorityVote (jget seen (authority v)) (digest v) of
        New \<Rightarrow> classifyAuthorityVotes_loop (jset seen (authority v) (digest v)) (acc @ [True]) eq vs
      | Duplicate \<Rightarrow> classifyAuthorityVotes_loop seen (acc @ [False]) eq vs
      | Equivocation \<Rightarrow> classifyAuthorityVotes_loop seen (acc @ [False]) True vs)"

definition classifyAuthorityVotes :: "('a, 'd) authority_vote list \<Rightarrow> vote_classification" where
  "classifyAuthorityVotes votes = classifyAuthorityVotes_loop [] [] False votes"


section \<open>Lemmas\<close>

subsection \<open>Bucket selection\<close>

text \<open>The loop's postcondition, for any winner found so far.\<close>

lemma select_loop_winner:
  assumes "0 \<le> w"
  shows "selectQuorumBucket_loop t w i cs = (if \<exists>c \<in> set cs. t \<le> c then -2 else w)"
  using assms by (induction t w i cs rule: selectQuorumBucket_loop.induct) auto

lemma select_loop_none:
  "\<forall>c \<in> set cs. c < t \<Longrightarrow> selectQuorumBucket_loop t w i (cs @ ds) =
     selectQuorumBucket_loop t w (i + int (length cs)) ds"
  by (induction cs arbitrary: i) (auto simp: algebra_simps)

lemma selectQuorumBucket_none:
  "\<forall>c \<in> set cs. c < t \<Longrightarrow> selectQuorumBucket cs t = -1"
  using select_loop_none [of cs t "-1" 0 "[]"] by (simp add: selectQuorumBucket_def)

lemma selectQuorumBucket_split:
  assumes "\<forall>c \<in> set xs. c < t" and "t \<le> c"
  shows "selectQuorumBucket (xs @ c # ys) t =
    (if \<exists>d \<in> set ys. t \<le> d then -2 else int (length xs))"
  using assms by (simp add: selectQuorumBucket_def select_loop_none select_loop_winner)

text \<open>Every array falls in one of the three cases; the results tell them apart.\<close>

lemma selectQuorumBucket_shape:
  obtains (none) "\<forall>c \<in> set cs. c < t" and "selectQuorumBucket cs t = -1"
  | (winner) xs c ys where "cs = xs @ c # ys" and "\<forall>d \<in> set xs. d < t" and "t \<le> c"
      and "\<forall>d \<in> set ys. d < t" and "selectQuorumBucket cs t = int (length xs)"
  | (conflict) xs c ys d where "cs = xs @ c # ys" and "t \<le> c" and "d \<in> set ys" and "t \<le> d"
      and "selectQuorumBucket cs t = -2"
proof (cases "\<forall>c \<in> set cs. c < t")
  case True
  then show ?thesis using that(1) selectQuorumBucket_none by blast
next
  case False
  then have "\<exists>c \<in> set cs. t \<le> c" by (auto simp: not_less)
  then obtain xs c ys where cs: "cs = xs @ c # ys" "t \<le> c" "\<forall>d \<in> set xs. \<not> t \<le> d"
    using split_list_first_prop [of cs "\<lambda>c. t \<le> c"] by auto
  then have xs: "\<forall>d \<in> set xs. d < t" by auto
  show ?thesis
  proof (cases "\<exists>d \<in> set ys. t \<le> d")
    case True
    then obtain d where "d \<in> set ys" "t \<le> d" by blast
    with cs xs True show ?thesis using that(3) selectQuorumBucket_split [OF xs cs(2), of ys] by auto
  next
    case False
    then have ys: "\<forall>d \<in> set ys. d < t" by (simp add: not_le)
    have "selectQuorumBucket cs t = int (length xs)"
      using selectQuorumBucket_split [OF xs cs(2), of ys] False cs(1) by simp
    then show ?thesis by (rule that(2) [OF cs(1) xs cs(2) ys])
  qed
qed

lemma nth_middle_only:
  assumes "\<forall>d \<in> set xs. \<not> P d" and "\<forall>d \<in> set ys. \<not> P d" and "P c"
    and "k < length (xs @ c # ys)"
  shows "P ((xs @ c # ys) ! k) \<longleftrightarrow> k = length xs"
proof (cases k "length xs" rule: linorder_cases)
  case less
  then show ?thesis using assms(1) by (simp add: nth_append)
next
  case equal
  then show ?thesis using assms(3) by simp
next
  case greater
  then have "(xs @ c # ys) ! k = ys ! (k - Suc (length xs))" by (simp add: nth_append nth_Cons')
  moreover have "ys ! (k - Suc (length xs)) \<in> set ys"
    using greater assms(4) by (intro nth_mem) auto
  ultimately show ?thesis using assms(2) greater by auto
qed

lemma selectQuorumBucket_unique:
  "selectQuorumBucket cs t = int n \<longleftrightarrow>
     n < length cs \<and> t \<le> cs ! n \<and> (\<forall>k < length cs. t \<le> cs ! k \<longrightarrow> k = n)"
  (is "_ \<longleftrightarrow> ?R n")
proof (cases rule: selectQuorumBucket_shape [of cs t])
  case none
  then have "\<not> t \<le> cs ! k" if "k < length cs" for k using that by (simp add: not_le)
  then show ?thesis using none(2) by (auto dest: order.strict_trans)
next
  case (winner xs c ys)
  have "t \<le> cs ! k \<longleftrightarrow> k = length xs" if k: "k < length cs" for k
    using nth_middle_only [of xs "\<lambda>d. t \<le> d" ys c k] winner k by (simp add: not_le)
  then have "?R (length xs)" and "?R n \<Longrightarrow> n = length xs" using winner(1,3) by auto
  then show ?thesis using winner(5) by auto
next
  case (conflict xs c ys d)
  obtain m where m: "m < length ys" "ys ! m = d" using conflict(3) by (auto simp: in_set_conv_nth)
  have "t \<le> cs ! length xs" "t \<le> cs ! (length xs + Suc m)"
    "length xs + Suc m < length cs" using conflict m by (auto simp: nth_append)
  then have "\<not> ?R n" by (metis add_cancel_right_right le_add1 nat.simps(3) order_le_less_trans)
  then show ?thesis using conflict(5) by simp
qed

lemma selectQuorumBucket_cases:
  "selectQuorumBucket cs t = -1 \<or> selectQuorumBucket cs t = -2 \<or>
     (\<exists>n. selectQuorumBucket cs t = int n)"
  by (cases rule: selectQuorumBucket_shape [of cs t]) auto

lemma selectQuorumBucket_conflict:
  "selectQuorumBucket cs t = -2 \<longleftrightarrow>
     (\<exists>a b. a < b \<and> b < length cs \<and> t \<le> cs ! a \<and> t \<le> cs ! b)"
proof (cases rule: selectQuorumBucket_shape [of cs t])
  case none
  then have "\<not> t \<le> cs ! k" if "k < length cs" for k using that by (simp add: not_le)
  then show ?thesis using none(2) by (auto dest: order.strict_trans)
next
  case (winner xs c ys)
  from winner(5) have "\<forall>k < length cs. t \<le> cs ! k \<longrightarrow> k = length xs"
    by (simp add: selectQuorumBucket_unique)
  then show ?thesis using winner(5) by (auto dest: order.strict_trans)
next
  case (conflict xs c ys d)
  obtain m where m: "m < length ys" "ys ! m = d" using conflict(3) by (auto simp: in_set_conv_nth)
  then have "length xs < length xs + Suc m \<and> length xs + Suc m < length cs \<and>
      t \<le> cs ! length xs \<and> t \<le> cs ! (length xs + Suc m)"
    using conflict by (auto simp: nth_append)
  then show ?thesis using conflict(5) by blast
qed

subsection \<open>First eligible occurrences\<close>

text \<open>The elements selected, without the detour through their indices.\<close>

fun first_by :: "('x \<Rightarrow> 'p) \<Rightarrow> ('x \<Rightarrow> bool) \<Rightarrow> 'p set \<Rightarrow> 'x list \<Rightarrow> 'x list" where
  "first_by f g seen [] = []"
| "first_by f g seen (x # xs) =
     (if g x \<and> f x \<notin> seen then x # first_by f g (insert (f x) seen) xs
      else first_by f g seen xs)"

lemma firstEligible_loop_first_by:
  "map (\<lambda>i. (pre @ xs) ! i)
     (firstEligiblePeerIndices_loop (length pre) seen (map f xs) (map g xs)) = first_by f g seen xs"
proof (induction xs arbitrary: pre seen)
  case (Cons x xs)
  have "map (\<lambda>i. (pre @ x # xs) ! i)
      (firstEligiblePeerIndices_loop (Suc (length pre)) s (map f xs) (map g xs)) =
        first_by f g s xs" for s
    using Cons.IH [of "pre @ [x]" s] by simp
  then show ?case by simp
qed simp

lemma firstEligible_first_by:
  "map ((!) xs) (firstEligiblePeerIndices (map f xs) (map g xs)) = first_by f g {} xs"
  using firstEligible_loop_first_by [of "[]" xs "{}" f g] by (simp add: firstEligiblePeerIndices_def)

lemma first_by_set: "set (first_by f g seen xs) \<subseteq> {x \<in> set xs. g x}"
  by (induction xs arbitrary: seen) auto

lemma first_by_image: "f ` set (first_by f g seen xs) = f ` {x \<in> set xs. g x} - seen"
  by (induction xs arbitrary: seen) auto

lemma first_by_distinct: "distinct (map f (first_by f g seen xs))"
proof (induction xs arbitrary: seen)
  case (Cons x xs)
  have "f x \<notin> f ` set (first_by f g (insert (f x) seen) xs)"
    by (simp add: first_by_image)
  then show ?case using Cons.IH by auto
qed simp

lemma first_by_all:
  "distinct (map f xs) \<Longrightarrow> f ` set xs \<inter> seen = {} \<Longrightarrow> first_by f g seen xs = filter g xs"
  by (induction xs arbitrary: seen) (auto simp: image_iff)

lemma first_by_length: "length (first_by f g seen xs) \<le> length xs"
  by (induction xs arbitrary: seen) (auto simp: le_SucI)

text \<open>The index-level contract of the selection.\<close>

lemma firstEligible_loop_set:
  assumes "length es = length ps"
  shows "set (firstEligiblePeerIndices_loop i seen ps es) =
    (\<lambda>n. i + n) ` {n. n < length ps \<and> es ! n \<and> ps ! n \<notin> seen \<and> (\<forall>m < n. es ! m \<longrightarrow> ps ! m \<noteq> ps ! n)}"
  using assms
proof (induction i seen ps es rule: firstEligiblePeerIndices_loop.induct)
  case (3 i seen p ps e es)
  let ?S = "\<lambda>s. {n. n < length ps \<and> es ! n \<and> ps ! n \<notin> s \<and> (\<forall>m < n. es ! m \<longrightarrow> ps ! m \<noteq> ps ! n)}"
  let ?T = "{n. n < length (p # ps) \<and> (e # es) ! n \<and> (p # ps) ! n \<notin> seen \<and>
    (\<forall>m < n. (e # es) ! m \<longrightarrow> (p # ps) ! m \<noteq> (p # ps) ! n)}"
  have split: "?T = (if e \<and> p \<notin> seen then {0} else {}) \<union> Suc ` (if e then ?S (insert p seen) else ?S seen)"
  proof (rule set_eqI)
    fix n
    show "n \<in> ?T \<longleftrightarrow> n \<in> (if e \<and> p \<notin> seen then {0} else {}) \<union>
        Suc ` (if e then ?S (insert p seen) else ?S seen)"
      by (cases n) (auto simp: All_less_Suc2 image_iff)
  qed
  have eS: "e \<Longrightarrow> p \<in> seen \<Longrightarrow> ?S (insert p seen) = ?S seen" by (simp add: insert_absorb)
  have shift: "(\<lambda>n. i + n) ` Suc ` S = (\<lambda>n. Suc (i + n)) ` S" for S by (auto simp: image_iff)
  show ?case
  proof (cases "e \<and> p \<notin> seen")
    case True
    then show ?thesis
      unfolding split using 3 shift by (simp add: image_Un)
  next
    case False
    then have S: "(if e then ?S (insert p seen) else ?S seen) = ?S seen" using eS by auto
    have "set (firstEligiblePeerIndices_loop i seen (p # ps) (e # es)) =
        (\<lambda>n. Suc i + n) ` ?S seen" using 3(2) 3(3) False by (simp add: if_not_P [OF False])
    also have "\<dots> = (\<lambda>n. i + n) ` ?T" unfolding split S if_not_P [OF False] by (simp add: shift)
    finally show ?thesis .
  qed
qed simp_all

lemma firstEligible_loop_ge:
  "n \<in> set (firstEligiblePeerIndices_loop i seen ps es) \<Longrightarrow> i \<le> n"
  by (induction i seen ps es rule: firstEligiblePeerIndices_loop.induct)
    (auto split: if_splits dest: Suc_leD)

lemma firstEligible_loop_sorted: "sorted_wrt (<) (firstEligiblePeerIndices_loop i seen ps es)"
  by (induction i seen ps es rule: firstEligiblePeerIndices_loop.induct)
    (auto dest!: firstEligible_loop_ge simp: Suc_le_eq)

subsection \<open>Digest counts\<close>

lemma jget_countQuorumDigest:
  "jget (countQuorumDigest m d) d' =
     (if d' = d then Some (case jget m d of None \<Rightarrow> 1 | Some c \<Rightarrow> c + 1) else jget m d')"
  by (auto simp: countQuorumDigest_def Let_def jget_jset split: option.splits)

lemma jget_foldl_count:
  "jget (foldl countQuorumDigest m ds) d =
     (if d \<in> set ds \<or> jhas m d
      then Some ((case jget m d of None \<Rightarrow> 0 | Some c \<Rightarrow> c) + int (count_list ds d)) else None)"
proof (induction ds arbitrary: m)
  case Nil
  show ?case by (simp add: jhas_def split: option.splits)
next
  case (Cons x ds)
  show ?case
    unfolding foldl_Cons Cons.IH
    by (cases "jget m d") (auto simp: jget_countQuorumDigest jhas_def)
qed

lemma jget_countQuorumDigests:
  "jget (countQuorumDigests ds) d = (if d \<in> set ds then Some (int (count_list ds d)) else None)"
  by (simp add: countQuorumDigests_def jget_foldl_count jhas_def)

lemma jwf_foldl_count: "jwf m \<Longrightarrow> jwf (foldl countQuorumDigest m ds)"
  by (induction ds arbitrary: m) (auto simp: countQuorumDigest_def Let_def jwf_jset)

lemma jwf_countQuorumDigests: "jwf (countQuorumDigests ds)"
  by (simp add: countQuorumDigests_def jwf_foldl_count)

lemma countQuorumDigests_entry:
  "(d, c) \<in> set (countQuorumDigests ds) \<longleftrightarrow> d \<in> set ds \<and> c = int (count_list ds d)"
  using jget_eq_Some_iff [OF jwf_countQuorumDigests, of ds d c]
  by (auto simp: jget_countQuorumDigests split: if_splits)

subsection \<open>Cohorts\<close>

lemma quorumCohort_loop_filter:
  "map (\<lambda>i. (pre @ xs) ! i) (quorumCohortIndices_loop (length pre) A (map f xs)) =
     filter (\<lambda>x. f x \<in> A) xs"
proof (induction xs arbitrary: pre)
  case (Cons x xs)
  have "map (\<lambda>i. (pre @ x # xs) ! i) (quorumCohortIndices_loop (Suc (length pre)) A (map f xs)) =
      filter (\<lambda>x. f x \<in> A) xs"
    using Cons.IH [of "pre @ [x]"] by simp
  then show ?case by simp
qed simp

lemma quorumCohort_filter:
  "map ((!) xs) (quorumCohortIndices (map f xs) A) = filter (\<lambda>x. f x \<in> A) xs"
  using quorumCohort_loop_filter [of "[]" xs A f] by (simp add: quorumCohortIndices_def)

subsection \<open>Authority votes\<close>

fun first_vote_flags :: "'a set \<Rightarrow> ('a, 'd) authority_vote list \<Rightarrow> bool list" where
  "first_vote_flags S [] = []"
| "first_vote_flags S (v # vs) = (authority v \<notin> S) # first_vote_flags (insert (authority v) S) vs"

lemma classify_loop_firstVotes:
  "firstVotes (classifyAuthorityVotes_loop seen acc eq vs) =
     acc @ first_vote_flags (dom (jget seen)) vs"
proof (induction seen acc eq vs rule: classifyAuthorityVotes_loop.induct)
  case (2 seen acc eq v vs)
  have dom_new: "dom (jget (jset seen (authority v) d)) = insert (authority v) (dom (jget seen))" for d
    by (auto simp: dom_def jget_jset)
  have known: "jget seen (authority v) = Some d \<Longrightarrow>
      insert (authority v) (dom (jget seen)) = dom (jget seen)" for d by auto
  show ?case
    using 2 by (cases "jget seen (authority v)")
      (auto simp: classifyAuthorityVote_def dom_new known domI)
qed simp

text \<open>
  No authority equivocates when the recorded and the remaining votes together
  relate each authority to one digest.
\<close>

definition vote_pairs :: "('a, 'd) authority_vote list \<Rightarrow> ('a \<times> 'd) set" where
  "vote_pairs vs = (\<lambda>v. (authority v, digest v)) ` set vs"

definition votes_agree :: "('a, 'd) jsmap \<Rightarrow> ('a, 'd) authority_vote list \<Rightarrow> bool" where
  "votes_agree seen vs \<longleftrightarrow> single_valued ({(a, d). jget seen a = Some d} \<union> vote_pairs vs)"

lemma votes_agree_New:
  assumes "jget seen (authority v) = None"
  shows "votes_agree (jset seen (authority v) (digest v)) vs \<longleftrightarrow> votes_agree seen (v # vs)"
proof -
  have "{(a, d). jget (jset seen (authority v) (digest v)) a = Some d} =
      insert (authority v, digest v) {(a, d). jget seen a = Some d}"
    using assms by (auto simp: jget_jset split: if_splits)
  then show ?thesis by (simp add: votes_agree_def vote_pairs_def)
qed

lemma votes_agree_Duplicate:
  assumes "jget seen (authority v) = Some (digest v)"
  shows "votes_agree seen (v # vs) \<longleftrightarrow> votes_agree seen vs"
proof -
  have "{(a, d). jget seen a = Some d} \<union> vote_pairs (v # vs) =
      {(a, d). jget seen a = Some d} \<union> vote_pairs vs"
    using assms by (auto simp: vote_pairs_def)
  then show ?thesis by (simp add: votes_agree_def)
qed

lemma votes_agree_Equivocation:
  "jget seen (authority v) = Some d \<Longrightarrow> d \<noteq> digest v \<Longrightarrow> \<not> votes_agree seen (v # vs)"
  unfolding votes_agree_def vote_pairs_def single_valued_def by auto

lemma classify_loop_equivocating:
  "equivocating (classifyAuthorityVotes_loop seen acc eq vs) \<longleftrightarrow> eq \<or> \<not> votes_agree seen vs"
proof (induction seen acc eq vs rule: classifyAuthorityVotes_loop.induct)
  case (1 seen acc eq)
  show ?case by (simp add: votes_agree_def vote_pairs_def single_valued_def)
next
  case (2 seen acc eq v vs)
  show ?case
  proof (cases "jget seen (authority v)")
    case None
    then have c: "classifyAuthorityVote (jget seen (authority v)) (digest v) = New"
      by (simp add: classifyAuthorityVote_def)
    show ?thesis by (simp add: c 2(1) [OF c] votes_agree_New [OF None] del: split_paired_All)
  next
    case (Some d)
    show ?thesis
    proof (cases "d = digest v")
      case True
      then have c: "classifyAuthorityVote (jget seen (authority v)) (digest v) = Duplicate"
        and k: "jget seen (authority v) = Some (digest v)"
        using Some by (simp_all add: classifyAuthorityVote_def)
      show ?thesis by (simp add: c 2(2) [OF c] votes_agree_Duplicate [OF k])
    next
      case False
      then have c: "classifyAuthorityVote (jget seen (authority v)) (digest v) = Equivocation"
        using Some by (simp add: classifyAuthorityVote_def)
      show ?thesis by (simp add: c 2(3) [OF c] votes_agree_Equivocation [OF Some False])
    qed
  qed
qed

lemma classify_equivocating:
  "equivocating (classifyAuthorityVotes vs) \<longleftrightarrow>
     (\<exists>v \<in> set vs. \<exists>w \<in> set vs. authority v = authority w \<and> digest v \<noteq> digest w)"
  unfolding classifyAuthorityVotes_def classify_loop_equivocating votes_agree_def vote_pairs_def
    single_valued_def by auto

lemma classify_firstVotes:
  "firstVotes (classifyAuthorityVotes vs) = first_vote_flags {} vs"
  by (simp add: classifyAuthorityVotes_def classify_loop_firstVotes dom_def)

lemma first_vote_flags_length [simp]: "length (first_vote_flags S vs) = length vs"
  by (induction S vs rule: first_vote_flags.induct) auto

lemma first_vote_flags_nth:
  "j < length vs \<Longrightarrow> first_vote_flags S vs ! j \<longleftrightarrow>
     authority (vs ! j) \<notin> S \<and> (\<forall>k < j. authority (vs ! k) \<noteq> authority (vs ! j))"
proof (induction S vs arbitrary: j rule: first_vote_flags.induct)
  case (2 S v vs)
  then show ?case by (cases j) (auto simp: All_less_Suc2)
qed simp

end
