(* ===== verification/Load_Quorum.thy ===== *)
theory Load_Quorum
  imports Quorum_Policy
begin

text \<open>
  \<open>packages/core/src/load-quorum.ts\<close>, \<open>tips-hash.ts\<close> and
  \<open>load-quorum-orchestrator.ts\<close>: the tally of authenticated state digests, the
  validation of the quorum settings, and the round that picks the cohort a
  document is loaded from. Peers are values of a type parameter; \<open>peerIdOf\<close> and
  \<open>probeFn\<close> are the callbacks of the source. Console output and the wording of
  error messages are left out; every throw is an \<open>Inl\<close>.
\<close>


section \<open>Definitions\<close>

subsection \<open>Votes and their tally\<close>

definition TIPS_HASH_LENGTH :: nat where
  "TIPS_HASH_LENGTH = 32"

definition tipsHashToHex :: "bytes \<Rightarrow> string" where
  "tipsHashToHex hash = hex_bytes hash"

text \<open>
  \<open>copyUnsharedUint8Array\<close>: \<open>None\<close> stands for every throw, \<open>Some\<close> for the copy. A
  value that is no genuine, unshared \<open>Uint8Array\<close> (\<open>null\<close> included) is \<open>None\<close>.
\<close>

definition copyUnsharedUint8Array :: "bytes option \<Rightarrow> nat \<Rightarrow> nat \<Rightarrow> bytes option" where
  "copyUnsharedUint8Array v minimumLength maximumLength =
     (case v of None \<Rightarrow> None
      | Some b \<Rightarrow> if length b < minimumLength \<or> length b > maximumLength then None else Some b)"

record 'id load_vote =
  votePeerId :: 'id
  voteHash :: "bytes option"

record 'id captured_vote =
  capturedId :: 'id
  capturedDigest :: "string option"

datatype 'id load_decision =
    LoadAgreed (winningHashHex: string) (agreeingPeerIds: "'id list")
      (agreedResponding: nat) (agreedQ: int)
  | LoadRefused (refusedReason: quorum_failure) (refusedResponding: nat) (refusedQ: int)
      (refusedAgreement: "(string, int) jsmap")

definition captureVote :: "'id load_vote \<Rightarrow> 'id captured_vote" where
  "captureVote advertisement =
     \<lparr>capturedId = votePeerId advertisement,
      capturedDigest = map_option tipsHashToHex
        (copyUnsharedUint8Array (voteHash advertisement) 32 32)\<rparr>"

definition selectVotes :: "'id captured_vote list \<Rightarrow> 'id captured_vote list" where
  "selectVotes captured =
     map ((!) captured)
       (firstEligiblePeerIndices (map capturedId captured)
          (map (\<lambda>c. capturedDigest c \<noteq> None) captured))"

datatype quorum_q_error = InvalidQ

definition decideLoadQuorum ::
    "'id load_vote list \<Rightarrow> js_number \<Rightarrow> quorum_q_error + 'id load_decision" where
  "decideLoadQuorum advertisements qn =
     (case asSafeInteger qn of
        None \<Rightarrow> Inl InvalidQ
      | Some q \<Rightarrow>
          if q < 1 then Inl InvalidQ
          else
            (let captured = map captureVote advertisements;
                 selected = selectVotes captured;
                 respondingCount = length selected;
                 agreement = countQuorumDigests (map (the \<circ> capturedDigest) selected);
                 winner = selectQuorumBucket (map snd agreement) q
             in if winner \<ge> 0 then
                  (let hex = fst (agreement ! nat winner)
                   in Inr (LoadAgreed hex
                        (map capturedId (filter (\<lambda>c. capturedDigest c = Some hex) selected))
                        respondingCount q))
                else Inr (LoadRefused
                       (quorumFailureReason (int (length captured)) (int respondingCount) q (winner = -2))
                       respondingCount q agreement)))"

definition dedupePeersByPeerId :: "'p list \<Rightarrow> ('p \<Rightarrow> 'id) \<Rightarrow> 'p list" where
  "dedupePeersByPeerId peers peerIdOf =
     (let captured = map (\<lambda>p. (p, peerIdOf p)) peers
      in map (\<lambda>i. fst (captured ! i))
           (firstEligiblePeerIndices (map snd captured) (map (\<lambda>_. True) captured)))"

text \<open>Strings are their UTF-16 code units; \<open>^\<close> and \<open>|\<close> work on 32-bit values.\<close>

fun constantTimeHexEquals_loop ::
    "32 word \<Rightarrow> 16 word list \<Rightarrow> 16 word list \<Rightarrow> 32 word" where
  "constantTimeHexEquals_loop diff [] [] = diff"
| "constantTimeHexEquals_loop diff (a # as) [] =
     constantTimeHexEquals_loop (diff OR (ucast a XOR 0)) as []"
| "constantTimeHexEquals_loop diff [] (b # bs) =
     constantTimeHexEquals_loop (diff OR (0 XOR ucast b)) [] bs"
| "constantTimeHexEquals_loop diff (a # as) (b # bs) =
     constantTimeHexEquals_loop (diff OR (ucast a XOR ucast b)) as bs"

definition constantTimeHexEquals :: "16 word list \<Rightarrow> 16 word list \<Rightarrow> bool" where
  "constantTimeHexEquals a b \<longleftrightarrow>
     constantTimeHexEquals_loop (of_nat (length a) XOR of_nat (length b)) a b = 0"

subsection \<open>Settings\<close>

definition effectiveK :: "js_number \<Rightarrow> nat \<Rightarrow> int" where
  "effectiveK configuredK knownPeersCount =
     (case configuredK of
        Fin r \<Rightarrow>
          if r \<le> 0 then 0
          else if knownPeersCount \<le> 0 then 0
          else \<lfloor>min r (of_nat knownPeersCount)\<rfloor>
      | _ \<Rightarrow> 0)"

definition LOAD_QUORUM_TIMEOUT_MS_MAX :: int where
  "LOAD_QUORUM_TIMEOUT_MS_MAX = 5 * 60 * 1000"

definition DEFAULT_LOAD_QUORUM_K :: int where
  "DEFAULT_LOAD_QUORUM_K = 3"

text \<open>A setting as it arrives: any value of the language; \<open>None\<close> is \<open>undefined\<close>.\<close>

datatype js_value = JsBool bool | JsNum js_number | JsOther

record quorum_config =
  cfgEnabled :: "js_value option"
  cfgK :: "js_value option"
  cfgQ :: "js_value option"
  cfgTimeoutMs :: "js_value option"
  cfgAllowSinglePeer :: "js_value option"

datatype quorum_setting =
  SettingEnabled | SettingAllowSinglePeer | SettingTimeoutMs | SettingK | SettingQ | SettingQAboveK

definition checkOptionalBoolean :: "js_value option \<Rightarrow> bool" where
  "checkOptionalBoolean v = (case v of None \<Rightarrow> True | Some (JsBool _) \<Rightarrow> True | _ \<Rightarrow> False)"

definition checkPositiveInt :: "js_value option \<Rightarrow> bool" where
  "checkPositiveInt v = (case v of
     None \<Rightarrow> True
   | Some (JsNum n) \<Rightarrow> (case asInteger n of None \<Rightarrow> False | Some i \<Rightarrow> \<not> i < 1)
   | _ \<Rightarrow> False)"

definition checkBoundedPositiveInt :: "js_value option \<Rightarrow> int \<Rightarrow> bool" where
  "checkBoundedPositiveInt v limit = (case v of
     None \<Rightarrow> True
   | Some (JsNum n) \<Rightarrow> (case asInteger n of None \<Rightarrow> False | Some i \<Rightarrow> \<not> (i < 1 \<or> i > limit))
   | _ \<Rightarrow> False)"

text \<open>The integer of a setting that has passed \<open>checkPositiveInt\<close>.\<close>

definition settingInt :: "js_value option \<Rightarrow> int option" where
  "settingInt v = (case v of Some (JsNum n) \<Rightarrow> asInteger n | _ \<Rightarrow> None)"

definition validateLoadQuorumConfig :: "quorum_config \<Rightarrow> quorum_setting + unit" where
  "validateLoadQuorumConfig config =
     (if \<not> checkOptionalBoolean (cfgEnabled config) then Inl SettingEnabled
      else if \<not> checkOptionalBoolean (cfgAllowSinglePeer config) then Inl SettingAllowSinglePeer
      else if \<not> checkBoundedPositiveInt (cfgTimeoutMs config) LOAD_QUORUM_TIMEOUT_MS_MAX
        then Inl SettingTimeoutMs
      else if cfgEnabled config = Some (JsBool False) then Inr ()
      else if \<not> checkPositiveInt (cfgK config) then Inl SettingK
      else if \<not> checkPositiveInt (cfgQ config) then Inl SettingQ
      else
        (let k = (case settingInt (cfgK config) of None \<Rightarrow> DEFAULT_LOAD_QUORUM_K | Some k \<Rightarrow> k)
         in case settingInt (cfgQ config) of
              None \<Rightarrow> Inr ()
            | Some q \<Rightarrow> if q > k then Inl SettingQAboveK else Inr ()))"

subsection \<open>Probe results\<close>

text \<open>
  What \<open>probeFn\<close> produced: it threw, or returned a value that is no object, or
  an object seen through its prototype and its own properties.
\<close>

datatype 'a own_property = Absent | Accessor | DataProperty 'a

datatype raw_probe =
    ProbeThrew
  | ProbeNonObject
  | ProbeObject (plainPrototype: bool) (hashProperty: "bytes option own_property")
      (signerProperty: "string option own_property")

datatype normalized_probe = Vote (voteBytes: bytes) (voteSigner: string) | NonVote

definition snapshotVoteHash :: "bytes option \<Rightarrow> bytes option" where
  "snapshotVoteHash v = copyUnsharedUint8Array v TIPS_HASH_LENGTH TIPS_HASH_LENGTH"

definition normalizeLoadQuorumProbeResult :: "raw_probe \<Rightarrow> normalized_probe" where
  "normalizeLoadQuorumProbeResult result =
     (case result of
        ProbeThrew \<Rightarrow> NonVote
      | ProbeNonObject \<Rightarrow> NonVote
      | ProbeObject plain hashProp signerProp \<Rightarrow>
          if \<not> plain then NonVote
          else (case hashProp of
            DataProperty v \<Rightarrow>
              (let hash = snapshotVoteHash v
               in case signerProp of
                    DataProperty signer \<Rightarrow>
                      (case (hash, signer) of
                         (Some h, Some s) \<Rightarrow> if length s \<noteq> 0 then Vote h s else NonVote
                       | _ \<Rightarrow> NonVote)
                  | _ \<Rightarrow> NonVote)
          | _ \<Rightarrow> NonVote))"

subsection \<open>The round\<close>

datatype quorum_failed_reason =
    FailedInvalidConfig quorum_setting
  | FailedEquivocatingAuthority
  | FailedTally quorum_failure
  | FailedInvalidQ

record quorum_error =
  errPath :: string
  errReason :: quorum_failed_reason
  errResponding :: nat
  errRequiredQ :: int
  errAgreement :: "(string, int) jsmap"

datatype 'p quorum_result =
  QuorumSkipped | QuorumNarrowed (narrowedPeers: "'p list") (boundHashHex: string)

datatype quorum_plan = PlanSkip | PlanSingle | PlanTally (planK: nat) (planQ: int)

text \<open>The part of \<open>runLoadQuorum\<close> before any probe: settings, K, and the Q floor.\<close>

definition planLoadQuorum ::
    "string \<Rightarrow> quorum_config \<Rightarrow> nat \<Rightarrow> quorum_error + quorum_plan" where
  "planLoadQuorum documentPath config peerCount =
     (case validateLoadQuorumConfig config of
        Inl setting \<Rightarrow>
          Inl \<lparr>errPath = documentPath, errReason = FailedInvalidConfig setting,
               errResponding = 0, errRequiredQ = 0, errAgreement = []\<rparr>
      | Inr _ \<Rightarrow>
          if cfgEnabled config = Some (JsBool False) then Inr PlanSkip
          else
            (let configuredK = (case settingInt (cfgK config) of None \<Rightarrow> DEFAULT_LOAD_QUORUM_K | Some k \<Rightarrow> k);
                 allowSinglePeer = (cfgAllowSinglePeer config = Some (JsBool True));
                 k = effectiveK (js_int configuredK) peerCount;
                 explicitQ = settingInt (cfgQ config)
             in if k = 0 then Inr PlanSkip
                else
                  (case explicitQ of
                     Some q \<Rightarrow>
                       if q > k then
                         Inl \<lparr>errPath = documentPath, errReason = FailedTally InsufficientResponses,
                              errResponding = 0, errRequiredQ = q, errAgreement = []\<rparr>
                       else if k = 1 \<and> \<not> allowSinglePeer then
                         Inl \<lparr>errPath = documentPath, errReason = FailedTally InsufficientResponses,
                              errResponding = 0, errRequiredQ = 2, errAgreement = []\<rparr>
                       else if k = 1 then Inr PlanSingle
                       else Inr (PlanTally (nat k) (requiredQuorumQ k q))
                   | None \<Rightarrow>
                       if k = 1 \<and> \<not> allowSinglePeer then
                         Inl \<lparr>errPath = documentPath, errReason = FailedTally InsufficientResponses,
                              errResponding = 0, errRequiredQ = 2, errAgreement = []\<rparr>
                       else if k = 1 then Inr PlanSingle
                       else Inr (PlanTally (nat k) (requiredQuorumQ k 0)))))"

text \<open>The single-peer pass-through.\<close>

definition runSinglePeer ::
    "string \<Rightarrow> 'p list \<Rightarrow> ('p \<Rightarrow> raw_probe) \<Rightarrow> quorum_error + 'p quorum_result" where
  "runSinglePeer documentPath peers probeFn =
     (case normalizeLoadQuorumProbeResult (probeFn (hd peers)) of
        NonVote \<Rightarrow>
          Inl \<lparr>errPath = documentPath, errReason = FailedTally InsufficientResponses,
               errResponding = 0, errRequiredQ = 1, errAgreement = []\<rparr>
      | Vote hash signer \<Rightarrow> Inr (QuorumNarrowed [hd peers] (tipsHashToHex hash)))"

text \<open>One probed peer: the peer, the identity captured before probing, its vote.\<close>

record ('p, 'id) probe_row =
  rowPeer :: 'p
  rowId :: 'id
  rowResult :: normalized_probe

fun signedVotesOf :: "('p, 'id) probe_row list \<Rightarrow> (string, string) authority_vote list" where
  "signedVotesOf [] = []"
| "signedVotesOf (r # rs) =
     (case rowResult r of
        Vote hash signer \<Rightarrow> \<lparr>authority = signer, digest = tipsHashToHex hash\<rparr> # signedVotesOf rs
      | NonVote \<Rightarrow> signedVotesOf rs)"

text \<open>\<open>voteIndex\<close> walks \<open>firstVotes\<close> alongside the rows that carry a vote.\<close>

fun advertisementsOf :: "bool list \<Rightarrow> ('p, 'id) probe_row list \<Rightarrow> 'id load_vote list" where
  "advertisementsOf flags [] = []"
| "advertisementsOf flags (r # rs) =
     (case rowResult r of
        NonVote \<Rightarrow> \<lparr>votePeerId = rowId r, voteHash = None\<rparr> # advertisementsOf flags rs
      | Vote hash signer \<Rightarrow>
          \<lparr>votePeerId = rowId r,
           voteHash = (case flags of f # _ \<Rightarrow> if f then Some hash else None | [] \<Rightarrow> None)\<rparr>
            # advertisementsOf (tl flags) rs)"

definition probeRows ::
    "'p list \<Rightarrow> ('p \<Rightarrow> 'id) \<Rightarrow> ('p \<Rightarrow> raw_probe) \<Rightarrow> ('p, 'id) probe_row list" where
  "probeRows probed peerIdOf probeFn =
     map (\<lambda>p. \<lparr>rowPeer = p, rowId = peerIdOf p,
               rowResult = normalizeLoadQuorumProbeResult (probeFn p)\<rparr>) probed"

definition tallyLoadQuorum ::
    "string \<Rightarrow> ('p, 'id) probe_row list \<Rightarrow> int \<Rightarrow> quorum_error + 'p quorum_result" where
  "tallyLoadQuorum documentPath rows q =
     (let classification = classifyAuthorityVotes (signedVotesOf rows);
          advertisements = advertisementsOf (firstVotes classification) rows
      in if equivocating classification then
           Inl \<lparr>errPath = documentPath, errReason = FailedEquivocatingAuthority,
                errResponding = length (filter (\<lambda>r. rowResult r \<noteq> NonVote) rows),
                errRequiredQ = q, errAgreement = []\<rparr>
         else
           (case decideLoadQuorum advertisements (js_int q) of
              Inl _ \<Rightarrow>
                Inl \<lparr>errPath = documentPath, errReason = FailedInvalidQ,
                     errResponding = 0, errRequiredQ = q, errAgreement = []\<rparr>
            | Inr (LoadRefused reason responding eq agreement) \<Rightarrow>
                Inl \<lparr>errPath = documentPath, errReason = FailedTally reason,
                     errResponding = responding, errRequiredQ = eq, errAgreement = agreement\<rparr>
            | Inr (LoadAgreed hex agreeing responding eq) \<Rightarrow>
                (let narrowed = map (\<lambda>i. rowPeer (rows ! i))
                       (quorumCohortIndices (map rowId rows) (set agreeing))
                 in if narrowed = [] then
                      Inl \<lparr>errPath = documentPath, errReason = FailedTally NoAgreement,
                           errResponding = responding, errRequiredQ = eq,
                           errAgreement = [(hex, int (length agreeing))]\<rparr>
                    else Inr (QuorumNarrowed narrowed hex))))"

definition runLoadQuorum ::
    "'p list \<Rightarrow> ('p \<Rightarrow> 'id) \<Rightarrow> ('p \<Rightarrow> raw_probe) \<Rightarrow> string \<Rightarrow> quorum_config
      \<Rightarrow> quorum_error + 'p quorum_result" where
  "runLoadQuorum peers peerIdOf probeFn documentPath config =
     (case planLoadQuorum documentPath config (length peers) of
        Inl e \<Rightarrow> Inl e
      | Inr PlanSkip \<Rightarrow> Inr QuorumSkipped
      | Inr PlanSingle \<Rightarrow> runSinglePeer documentPath peers probeFn
      | Inr (PlanTally k q) \<Rightarrow>
          tallyLoadQuorum documentPath (probeRows (take k peers) peerIdOf probeFn) q)"


section \<open>Lemmas\<close>

subsection \<open>The digest each peer voted for\<close>

text \<open>
  The specification of the tally: a peer's digest is the one in its first
  advertisement that carries a 32-byte hash, and the voters of a digest are
  the peers it belongs to.
\<close>

definition usable_vote :: "'id load_vote \<Rightarrow> bool" where
  "usable_vote v \<longleftrightarrow> (case voteHash v of None \<Rightarrow> False | Some b \<Rightarrow> length b = 32)"

definition voted_digest :: "'id load_vote list \<Rightarrow> 'id \<Rightarrow> string option" where
  "voted_digest ads i =
     (case find (\<lambda>v. usable_vote v \<and> votePeerId v = i) ads of
        None \<Rightarrow> None
      | Some v \<Rightarrow> map_option hex_bytes (voteHash v))"

definition voters :: "'id load_vote list \<Rightarrow> string \<Rightarrow> 'id set" where
  "voters ads h = {i. voted_digest ads i = Some h}"

lemma copyUnshared_Some [simp]:
  "copyUnsharedUint8Array v m n = Some b \<longleftrightarrow> v = Some b \<and> m \<le> length b \<and> length b \<le> n"
  by (auto simp: copyUnsharedUint8Array_def split: option.splits)

lemma capturedId_captureVote [simp]: "capturedId (captureVote v) = votePeerId v"
  by (simp add: captureVote_def)

lemma capturedDigest_captureVote:
  "capturedDigest (captureVote v) = (if usable_vote v then map_option hex_bytes (voteHash v) else None)"
  by (auto simp: captureVote_def usable_vote_def copyUnsharedUint8Array_def tipsHashToHex_def
      split: option.splits)

lemma capturedDigest_None [simp]:
  "capturedDigest (captureVote v) = None \<longleftrightarrow> \<not> usable_vote v"
  by (auto simp: capturedDigest_captureVote usable_vote_def split: option.splits)

lemma find_mem: "find P xs = Some x \<Longrightarrow> x \<in> set xs \<and> P x"
  by (induction xs) (auto split: if_splits)

lemma first_by_find:
  "x \<in> set (first_by f g seen xs) \<longleftrightarrow>
     f x \<notin> seen \<and> find (\<lambda>y. g y \<and> f y = f x) xs = Some x"
  by (induction xs arbitrary: seen) auto

lemma first_by_map: "first_by f g seen (map h xs) = map h (first_by (f \<circ> h) (g \<circ> h) seen xs)"
  by (induction xs arbitrary: seen) auto

lemma selectVotes_captureVote:
  "selectVotes (map captureVote ads) = map captureVote (first_by votePeerId usable_vote {} ads)"
  unfolding selectVotes_def firstEligible_first_by first_by_map
  by (simp add: comp_def del: not_None_eq)

definition first_votes :: "'id load_vote list \<Rightarrow> 'id load_vote list" where
  "first_votes ads = first_by votePeerId usable_vote {} ads"

lemma first_votes_usable: "v \<in> set (first_votes ads) \<Longrightarrow> usable_vote v"
  using first_by_set [of votePeerId usable_vote "{}" ads] by (auto simp: first_votes_def)

lemma first_votes_digest:
  "v \<in> set (first_votes ads) \<Longrightarrow> voted_digest ads (votePeerId v) = map_option hex_bytes (voteHash v)"
  by (simp add: first_votes_def first_by_find voted_digest_def)

lemma voted_digest_first:
  assumes "voted_digest ads i = Some h"
  obtains v where "v \<in> set (first_votes ads)" "votePeerId v = i" "map_option hex_bytes (voteHash v) = Some h"
proof -
  obtain v where v: "find (\<lambda>v. usable_vote v \<and> votePeerId v = i) ads = Some v"
    "map_option hex_bytes (voteHash v) = Some h"
    using assms by (auto simp: voted_digest_def split: option.splits)
  from v(1) have "votePeerId v = i" by (auto simp: find_Some_iff)
  then show ?thesis using v that by (auto simp: first_votes_def first_by_find)
qed

text \<open>The peers the decision reports are exactly the voters of the digest.\<close>

definition agreeing :: "'id load_vote list \<Rightarrow> string \<Rightarrow> 'id list" where
  "agreeing ads h =
     map votePeerId (filter (\<lambda>v. map_option hex_bytes (voteHash v) = Some h) (first_votes ads))"

lemma distinct_agreeing: "distinct (agreeing ads h)"
  unfolding agreeing_def first_votes_def by (intro distinct_map_filter first_by_distinct)

lemma set_agreeing: "set (agreeing ads h) = voters ads h"
proof
  show "set (agreeing ads h) \<subseteq> voters ads h"
    by (auto simp: agreeing_def voters_def first_votes_digest)
  show "voters ads h \<subseteq> set (agreeing ads h)"
  proof
    fix i assume "i \<in> voters ads h"
    then have "voted_digest ads i = Some h" by (simp add: voters_def)
    then show "i \<in> set (agreeing ads h)"
      by (rule voted_digest_first) (force simp: agreeing_def)
  qed
qed

lemma length_agreeing: "length (agreeing ads h) = card (voters ads h)"
  using distinct_card [OF distinct_agreeing, of ads h] by (simp add: set_agreeing)

lemma finite_voters [simp]: "finite (voters ads h)"
  by (metis List.finite_set set_agreeing)

definition agreement_of :: "'id load_vote list \<Rightarrow> (string, int) jsmap" where
  "agreement_of ads = countQuorumDigests (map (the \<circ> capturedDigest) (selectVotes (map captureVote ads)))"

lemma count_digests:
  "count_list (map (the \<circ> capturedDigest) (selectVotes (map captureVote ads))) h = card (voters ads h)"
proof -
  have "count_list (map (the \<circ> capturedDigest \<circ> captureVote) vs) h =
      length (filter (\<lambda>v. map_option hex_bytes (voteHash v) = Some h) vs)"
    if "\<forall>v \<in> set vs. usable_vote v" for vs :: "'a load_vote list"
    using that by (induction vs) (auto simp: capturedDigest_captureVote usable_vote_def split: option.splits)
  from this [of "first_votes ads"] show ?thesis
    by (simp add: selectVotes_captureVote first_votes_usable agreeing_def flip: first_votes_def length_agreeing)
qed

lemma agreement_entry:
  "(h, c) \<in> set (agreement_of ads) \<longleftrightarrow> voters ads h \<noteq> {} \<and> c = int (card (voters ads h))"
proof -
  have "h \<in> set (map (the \<circ> capturedDigest) (selectVotes (map captureVote ads))) \<longleftrightarrow> voters ads h \<noteq> {}"
    using count_digests [of ads h] finite_voters [of ads h]
    by (metis card_0_eq count_list_0_iff)
  then show ?thesis by (simp only: agreement_of_def countQuorumDigests_entry count_digests)
qed

lemma jwf_agreement_of: "jwf (agreement_of ads)"
  by (simp add: agreement_of_def jwf_countQuorumDigests)

lemma agreement_nth:
  "k < length (agreement_of ads) \<Longrightarrow>
     snd (agreement_of ads ! k) = int (card (voters ads (fst (agreement_of ads ! k))))"
  using nth_mem [of k "agreement_of ads"] agreement_entry by (metis prod.collapse)

lemma agreement_index:
  assumes "voters ads h \<noteq> {}"
  obtains k where "k < length (agreement_of ads)" "fst (agreement_of ads ! k) = h"
  using agreement_entry [of h "int (card (voters ads h))" ads] assms
  by (auto simp: in_set_conv_nth) (metis fst_conv)

lemma agreement_inj:
  "j < length (agreement_of ads) \<Longrightarrow> k < length (agreement_of ads) \<Longrightarrow>
     fst (agreement_of ads ! j) = fst (agreement_of ads ! k) \<Longrightarrow> j = k"
  using jwf_agreement_of [of ads] by (auto simp: jwf_def jkeys_def distinct_conv_nth)

lemma decide_unfold:
  assumes "1 \<le> q" and "q \<le> MAX_SAFE_INTEGER"
  shows "decideLoadQuorum ads (js_int q) =
    (let winner = selectQuorumBucket (map snd (agreement_of ads)) q
     in if winner \<ge> 0 then
          (let h = fst (agreement_of ads ! nat winner)
           in Inr (LoadAgreed h (agreeing ads h) (length (first_votes ads)) q))
        else Inr (LoadRefused
          (quorumFailureReason (int (length ads)) (int (length (first_votes ads))) q (winner = -2))
          (length (first_votes ads)) q (agreement_of ads)))"
proof -
  have "map capturedId (filter (\<lambda>c. capturedDigest c = Some h) (selectVotes (map captureVote ads))) =
      agreeing ads h" for h
    unfolding selectVotes_captureVote agreeing_def filter_map map_map first_votes_def [symmetric]
    using first_votes_usable [of _ ads]
    by (auto simp: comp_def capturedDigest_captureVote cong: filter_cong)
  moreover have "length (selectVotes (map captureVote ads)) = length (first_votes ads)"
    by (simp add: selectVotes_captureVote first_votes_def)
  ultimately show ?thesis using assms
    by (simp add: decideLoadQuorum_def Let_def agreement_of_def)
qed


lemma decide_agreed_iff:
  assumes q: "1 \<le> q" "q \<le> MAX_SAFE_INTEGER"
  shows "decideLoadQuorum ads (js_int q) = Inr (LoadAgreed h ids r q') \<longleftrightarrow>
    q \<le> int (card (voters ads h)) \<and> (\<forall>h'. h' \<noteq> h \<longrightarrow> int (card (voters ads h')) < q) \<and>
    ids = agreeing ads h \<and> r = length (first_votes ads) \<and> q' = q"
  (is "?L \<longleftrightarrow> ?R")
proof -
  let ?A = "agreement_of ads" and ?w = "selectQuorumBucket (map snd (agreement_of ads)) q"
  have win: "?w = int n \<longleftrightarrow> n < length ?A \<and> q \<le> int (card (voters ads (fst (?A ! n)))) \<and>
      (\<forall>k < length ?A. q \<le> int (card (voters ads (fst (?A ! k)))) \<longrightarrow> k = n)" for n
    by (simp add: selectQuorumBucket_unique agreement_nth cong: conj_cong)
  have idx: "\<exists>k. k < length ?A \<and> fst (?A ! k) = g" if "q \<le> int (card (voters ads g))" for g
  proof -
    have "voters ads g \<noteq> {}" using that q(1) by auto
    then show ?thesis by (rule agreement_index) blast
  qed
  show ?thesis
  proof
    assume L: ?L
    then have "0 \<le> ?w" by (auto simp: decide_unfold [OF q] Let_def split: if_splits)
    then obtain n where n: "?w = int n" by (metis nonneg_int_cases)
    have eqs: "h = fst (?A ! n)" "ids = agreeing ads h" "r = length (first_votes ads)" "q' = q"
      using L by (auto simp: decide_unfold [OF q] Let_def n)
    have "int (card (voters ads h')) < q" if "h' \<noteq> h" for h'
      using that n idx [of h'] win [of n] eqs(1) by (metis not_le)
    moreover have "q \<le> int (card (voters ads h))" using n win [of n] eqs(1) by blast
    ultimately show ?R using eqs(2-4) by blast
  next
    assume R: ?R
    then obtain n where n: "n < length ?A" "fst (?A ! n) = h" using idx by blast
    have "k = n" if "k < length ?A" "q \<le> int (card (voters ads (fst (?A ! k))))" for k
      using that R n agreement_inj [of k ads n] by (metis not_le)
    then have "?w = int n" using R n win [of n] by blast
    then show ?L using R n by (simp add: decide_unfold [OF q] Let_def)
  qed
qed

lemma decide_total:
  "1 \<le> q \<Longrightarrow> q \<le> MAX_SAFE_INTEGER \<Longrightarrow> \<exists>d. decideLoadQuorum ads (js_int q) = Inr d"
  by (simp add: decide_unfold Let_def)

lemma voters_disjoint: "h \<noteq> h' \<Longrightarrow> voters ads h \<inter> voters ads h' = {}"
  by (auto simp: voters_def)

lemma voters_subset: "voters ads h \<subseteq> votePeerId ` set ads"
  by (auto simp: voters_def voted_digest_def find_Some_iff split: option.splits)

lemma card_voters_sum:
  assumes "h \<noteq> h'"
  shows "card (voters ads h) + card (voters ads h') \<le> length ads"
proof -
  have "card (voters ads h) + card (voters ads h') = card (voters ads h \<union> voters ads h')"
    using voters_disjoint [OF assms, of ads] by (simp add: card_Un_disjoint)
  also have "\<dots> \<le> card (votePeerId ` set ads)"
    by (intro card_mono) (auto dest: subsetD [OF voters_subset])
  also have "\<dots> \<le> length ads"
    by (meson card_image_le card_length finite_set le_trans)
  finally show ?thesis .
qed

subsection \<open>Authorities of a round\<close>

text \<open>The authorities that signed a digest among the probed rows.\<close>

definition signers :: "('p, 'id) probe_row list \<Rightarrow> string \<Rightarrow> string set" where
  "signers rows h = {a. \<exists>r \<in> set rows. \<exists>b. rowResult r = Vote b a \<and> hex_bytes b = h}"

text \<open>The votes that survive the authority tally, with the row identity they came from.\<close>

fun first_signed :: "string set \<Rightarrow> ('p, 'id) probe_row list \<Rightarrow> ('id \<times> string \<times> bytes) list" where
  "first_signed S [] = []"
| "first_signed S (r # rs) =
     (case rowResult r of
        NonVote \<Rightarrow> first_signed S rs
      | Vote b a \<Rightarrow>
          if a \<in> S then first_signed S rs else (rowId r, a, b) # first_signed (insert a S) rs)"

lemma advertisements_first_signed:
  "filter (\<lambda>v. voteHash v \<noteq> None) (advertisementsOf (first_vote_flags S (signedVotesOf rows)) rows) =
     map (\<lambda>(i, a, b). \<lparr>votePeerId = i, voteHash = Some b\<rparr>) (first_signed S rows)"
proof (induction rows arbitrary: S)
  case (Cons r rs)
  show ?case
  proof (cases "rowResult r")
    case (Vote b a)
    show ?thesis
    proof (cases "a \<in> S")
      case True
      then show ?thesis using Vote Cons.IH [of S] by (simp add: insert_absorb)
    next
      case False
      then show ?thesis using Vote Cons.IH [of "insert a S"] by simp
    qed
  next
    case NonVote
    then show ?thesis using Cons.IH [of S] by simp
  qed
qed simp

lemma first_signed_rows:
  "(i, a, b) \<in> set (first_signed S rows) \<Longrightarrow> \<exists>r \<in> set rows. rowId r = i \<and> rowResult r = Vote b a"
  by (induction S rows rule: first_signed.induct) (auto split: normalized_probe.splits if_splits)

lemma first_signed_fresh: "(i, a, b) \<in> set (first_signed S rows) \<Longrightarrow> a \<notin> S"
  by (induction S rows rule: first_signed.induct) (auto split: normalized_probe.splits if_splits)

lemma distinct_first_signed: "distinct (map (fst \<circ> snd) (first_signed S rows))"
proof (induction S rows rule: first_signed.induct)
  case (2 S r rs)
  have "a \<notin> (fst \<circ> snd) ` set (first_signed (insert a S) rs)" for a
    by (auto dest: first_signed_fresh)
  then show ?case using 2 by (auto split: normalized_probe.splits)
qed simp

lemma first_signed_covers:
  "r \<in> set rows \<Longrightarrow> rowResult r = Vote b a \<Longrightarrow> a \<notin> S \<Longrightarrow>
     \<exists>i b'. (i, a, b') \<in> set (first_signed S rows)"
  by (induction S rows rule: first_signed.induct)
    (auto split: normalized_probe.splits if_splits, blast+)

text \<open>The advertisements a round tallies.\<close>

definition round_ads :: "('p, 'id) probe_row list \<Rightarrow> 'id load_vote list" where
  "round_ads rows = advertisementsOf (firstVotes (classifyAuthorityVotes (signedVotesOf rows))) rows"

lemma round_ads_vote:
  "v \<in> set (round_ads rows) \<and> voteHash v = Some b \<longleftrightarrow>
     (\<exists>a. (votePeerId v, a, b) \<in> set (first_signed {} rows) \<and> v = \<lparr>votePeerId = votePeerId v, voteHash = Some b\<rparr>)"
proof -
  have "{v \<in> set (round_ads rows). voteHash v \<noteq> None} =
      (\<lambda>(i, a, b). \<lparr>votePeerId = i, voteHash = Some b\<rparr>) ` set (first_signed {} rows)"
    using arg_cong [OF advertisements_first_signed [of "{}" rows], of set]
    by (simp add: round_ads_def classify_firstVotes)
  then have "v \<in> set (round_ads rows) \<and> voteHash v \<noteq> None \<longleftrightarrow>
      (\<exists>i a b. (i, a, b) \<in> set (first_signed {} rows) \<and> v = \<lparr>votePeerId = i, voteHash = Some b\<rparr>)"
    by (force simp: set_eq_iff)
  then show ?thesis by (cases v) auto
qed

lemma length_advertisementsOf [simp]: "length (advertisementsOf fs rows) = length rows"
  by (induction fs rows rule: advertisementsOf.induct) (auto split: normalized_probe.splits)

lemma length_round_ads [simp]: "length (round_ads rows) = length rows"
  by (simp add: round_ads_def)

lemma voter_first_signed:
  assumes "i \<in> voters (round_ads rows) h"
  shows "\<exists>a b. (i, a, b) \<in> set (first_signed {} rows) \<and> hex_bytes b = h"
proof -
  obtain v b where "v \<in> set (round_ads rows)" "voteHash v = Some b" "votePeerId v = i" "hex_bytes b = h"
    using assms by (auto simp: voters_def voted_digest_def split: option.splits dest!: find_mem)
  then show ?thesis using round_ads_vote [of v rows b] by auto
qed

lemma card_voters_signers: "card (voters (round_ads rows) h) \<le> card (signers rows h)"
proof -
  let ?E = "{e \<in> set (first_signed {} rows). hex_bytes (snd (snd e)) = h}"
  have "inj_on (fst \<circ> snd) (set (first_signed {} rows))"
    using distinct_first_signed [of "{}" rows] by (simp add: distinct_map)
  then have inj: "inj_on (fst \<circ> snd) ?E" by (rule inj_on_subset) auto
  have fin: "finite (signers rows h)"
  proof (rule finite_subset)
    show "signers rows h \<subseteq> voteSigner ` rowResult ` set rows"
      by (auto simp: signers_def image_iff) (metis normalized_probe.sel(2))
  qed simp
  have "voters (round_ads rows) h \<subseteq> fst ` ?E"
    using voter_first_signed [of _ rows h] by force
  then have "card (voters (round_ads rows) h) \<le> card (fst ` ?E)" by (intro card_mono) auto
  also have "\<dots> \<le> card ?E" by (rule card_image_le) simp
  also have "\<dots> = card ((fst \<circ> snd) ` ?E)" by (rule card_image [OF inj, symmetric])
  also have "\<dots> \<le> card (signers rows h)"
    by (rule card_mono [OF fin]) (auto simp: signers_def dest!: first_signed_rows)
  finally show ?thesis .
qed

lemma finite_signers [simp]: "finite (signers rows h)"
proof (rule finite_subset)
  show "signers rows h \<subseteq> voteSigner ` rowResult ` set rows"
    by (auto simp: signers_def image_iff) (metis normalized_probe.sel(2))
qed simp

text \<open>
  Conversely every signer's vote is counted, when the probed peers have
  distinct identities and no authority signed two digests.
\<close>

definition equivocates :: "('p, 'id) probe_row list \<Rightarrow> bool" where
  "equivocates rows \<longleftrightarrow> (\<exists>r \<in> set rows. \<exists>r' \<in> set rows. \<exists>a b b'.
     rowResult r = Vote b a \<and> rowResult r' = Vote b' a \<and> b \<noteq> b')"

lemma set_signedVotesOf:
  "set (signedVotesOf rows) =
     {v. \<exists>r \<in> set rows. \<exists>b a. rowResult r = Vote b a \<and> v = \<lparr>authority = a, digest = hex_bytes b\<rparr>}"
  by (induction rows) (auto simp: tipsHashToHex_def split: normalized_probe.splits)

lemma equivocating_round:
  "equivocating (classifyAuthorityVotes (signedVotesOf rows)) \<longleftrightarrow> equivocates rows"
proof
  assume "equivocates rows"
  then obtain r r' a b b' where "r \<in> set rows" "rowResult r = Vote b a"
    "r' \<in> set rows" "rowResult r' = Vote b' a" "b \<noteq> b'" by (auto simp: equivocates_def)
  then have "\<lparr>authority = a, digest = hex_bytes b\<rparr> \<in> set (signedVotesOf rows)"
    "\<lparr>authority = a, digest = hex_bytes b'\<rparr> \<in> set (signedVotesOf rows)" "b \<noteq> b'"
    by (auto simp: set_signedVotesOf)
  then show "equivocating (classifyAuthorityVotes (signedVotesOf rows))"
    unfolding classify_equivocating
    by (intro bexI [of _ "\<lparr>authority = a, digest = hex_bytes b\<rparr>"]
        bexI [of _ "\<lparr>authority = a, digest = hex_bytes b'\<rparr>"]) auto
qed (auto simp: classify_equivocating set_signedVotesOf equivocates_def, metis)

lemma ids_round_ads: "map votePeerId (round_ads rows) = map rowId rows"
proof -
  have "map votePeerId (advertisementsOf fs rows) = map rowId rows" for fs
    by (induction fs rows rule: advertisementsOf.induct) (auto split: normalized_probe.splits)
  then show ?thesis by (simp add: round_ads_def)
qed

lemma voted_digest_distinct:
  assumes "distinct (map votePeerId ads)" "v \<in> set ads" "usable_vote v"
  shows "voted_digest ads (votePeerId v) = map_option hex_bytes (voteHash v)"
proof -
  have "find (\<lambda>w. usable_vote w \<and> votePeerId w = votePeerId v) ads = Some v"
    using assms by (induction ads) auto
  then show ?thesis by (simp add: voted_digest_def)
qed

definition full_votes :: "('p, 'id) probe_row list \<Rightarrow> bool" where
  "full_votes rows \<longleftrightarrow> (\<forall>r \<in> set rows. \<forall>b a. rowResult r = Vote b a \<longrightarrow> length b = 32)"

lemma first_signed_voter:
  assumes "distinct (map rowId rows)" "full_votes rows" "(i, a, b) \<in> set (first_signed {} rows)"
  shows "i \<in> voters (round_ads rows) (hex_bytes b)"
proof -
  let ?v = "\<lparr>votePeerId = i, voteHash = Some b\<rparr>"
  have v: "?v \<in> set (round_ads rows)" using round_ads_vote [of ?v rows b] assms(3) by auto
  have "length b = 32"
    using assms(2) first_signed_rows [OF assms(3)] by (auto simp: full_votes_def)
  then show ?thesis
    using voted_digest_distinct [OF _ v] assms(1)
    by (simp add: ids_round_ads usable_vote_def voters_def)
qed

lemma first_signed_same_row:
  assumes "distinct (map rowId rows)" "(i, a, b) \<in> set (first_signed {} rows)"
    "(i, a', b') \<in> set (first_signed {} rows)"
  shows "a = a' \<and> b = b'"
proof -
  obtain r r' where "r \<in> set rows" "rowId r = i" "rowResult r = Vote b a"
    "r' \<in> set rows" "rowId r' = i" "rowResult r' = Vote b' a'"
    using assms(2,3) by (blast dest: first_signed_rows)
  moreover from this have "r = r'" using assms(1) by (simp add: distinct_map inj_on_def)
  ultimately show ?thesis by simp
qed

lemma card_signers_voters:
  assumes "distinct (map rowId rows)" "full_votes rows" "\<not> equivocates rows"
  shows "card (voters (round_ads rows) h) = card (signers rows h)"
proof (rule antisym [OF card_voters_signers])
  let ?E = "{e \<in> set (first_signed {} rows). hex_bytes (snd (snd e)) = h}"
  have "signers rows h \<subseteq> (fst \<circ> snd) ` ?E"
  proof
    fix a assume "a \<in> signers rows h"
    then obtain r b where r: "r \<in> set rows" "rowResult r = Vote b a" "hex_bytes b = h"
      by (auto simp: signers_def)
    obtain i b' where i: "(i, a, b') \<in> set (first_signed {} rows)"
      using first_signed_covers [OF r(1,2), of "{}"] by auto
    then have "b' = b"
      using first_signed_rows [OF i] r(1,2) assms(3) by (auto simp: equivocates_def)
    then show "a \<in> (fst \<circ> snd) ` ?E" using i r(3) by force
  qed
  then have "card (signers rows h) \<le> card ?E" by (rule surj_card_le [rotated]) simp
  also have "\<dots> = card (fst ` ?E)"
    by (rule card_image [symmetric]) (auto simp: inj_on_def dest: first_signed_same_row [OF assms(1)])
  also have "\<dots> \<le> card (voters (round_ads rows) h)"
    by (rule card_mono) (auto dest: first_signed_voter [OF assms(1,2)])
  finally show "card (signers rows h) \<le> card (voters (round_ads rows) h)" .
qed


lemma tally_success_iff:
  assumes "1 \<le> q" "q \<le> MAX_SAFE_INTEGER"
  shows "tallyLoadQuorum path rows q = Inr (QuorumNarrowed ps h) \<longleftrightarrow>
    \<not> equivocates rows \<and> q \<le> int (card (voters (round_ads rows) h)) \<and>
    (\<forall>h'. h' \<noteq> h \<longrightarrow> int (card (voters (round_ads rows) h')) < q) \<and>
    ps = map rowPeer (filter (\<lambda>r. rowId r \<in> voters (round_ads rows) h) rows)"
  (is "?L \<longleftrightarrow> ?R")
proof -
  have cohort: "map (\<lambda>i. rowPeer (rows ! i)) (quorumCohortIndices (map rowId rows) A) =
      map rowPeer (filter (\<lambda>r. rowId r \<in> A) rows)" for A
    using arg_cong [OF quorumCohort_filter [of rows rowId A], of "map rowPeer"]
    by (simp add: comp_def)
  have nonempty: "filter (\<lambda>r. rowId r \<in> voters (round_ads rows) h) rows \<noteq> []"
    if "q \<le> int (card (voters (round_ads rows) h))"
  proof -
    have "voters (round_ads rows) h \<noteq> {}" using that assms(1) by auto
    moreover have "voters (round_ads rows) h \<subseteq> rowId ` set rows"
      using voters_subset [of "round_ads rows" h] ids_round_ads [of rows] by (metis list.set_map)
    ultimately show ?thesis by (auto simp: filter_empty_conv)
  qed
  obtain d where d: "decideLoadQuorum (round_ads rows) (js_int q) = Inr d"
    using decide_total [OF assms] by blast
  show ?thesis
  proof (cases d)
    case (LoadAgreed h' ids r q')
    then have a: "decideLoadQuorum (round_ads rows) (js_int q) = Inr (LoadAgreed h' ids r q')"
      using d by simp
    note facts = a [unfolded decide_agreed_iff [OF assms]]
    have "?L \<longleftrightarrow> \<not> equivocates rows \<and> h = h' \<and>
        ps = map rowPeer (filter (\<lambda>r. rowId r \<in> voters (round_ads rows) h) rows)"
      using facts nonempty
      by (auto simp: tallyLoadQuorum_def equivocating_round a cohort set_agreeing Let_def
          simp flip: round_ads_def)
    then show ?thesis using facts by (metis not_le)
  next
    case (LoadRefused reason r q' m)
    have "\<not> ?R"
      using decide_agreed_iff [OF assms, of "round_ads rows" h] d LoadRefused by auto
    moreover have "\<not> ?L" using d LoadRefused
      by (auto simp: tallyLoadQuorum_def Let_def simp flip: round_ads_def)
    ultimately show ?thesis by blast
  qed
qed


subsection \<open>The plan of a round\<close>

lemma settingInt_valid: "checkPositiveInt v \<Longrightarrow> settingInt v = Some i \<Longrightarrow> 1 \<le> i"
  by (auto simp: checkPositiveInt_def settingInt_def split: option.splits js_value.splits)

lemma validate_ok_positive:
  assumes "validateLoadQuorumConfig c = Inr u" "cfgEnabled c \<noteq> Some (JsBool False)"
  shows "settingInt (cfgQ c) = Some i \<Longrightarrow> 1 \<le> i" "settingInt (cfgK c) = Some i \<Longrightarrow> 1 \<le> i"
  using assms settingInt_valid
  by (auto simp: validateLoadQuorumConfig_def Let_def split: if_splits)

lemma effectiveK_int: "effectiveK (js_int k) n = (if k \<le> 0 \<or> n = 0 then 0 else min k (int n))"
proof -
  have "min (of_int k) (of_nat n) = (of_int (min k (int n)) :: rat)"
    by (simp add: min_def)
  then show ?thesis by (simp add: effectiveK_def js_int_def)
qed

lemma defaultQuorumQ_majority: "0 < k \<Longrightarrow> k < 2 * defaultQuorumQ k \<and> defaultQuorumQ k \<le> k"
  by (auto simp: defaultQuorumQ_def)

lemma plan_tally_cases:
  assumes "planLoadQuorum path c n = Inr (PlanTally k q)"
  shows "2 \<le> k \<and> k \<le> n \<and> 1 \<le> q \<and> q \<le> int k \<and>
    (case settingInt (cfgQ c) of Some e \<Rightarrow> q = e | None \<Rightarrow> int k < 2 * q)"
proof -
  let ?cK = "case settingInt (cfgK c) of None \<Rightarrow> DEFAULT_LOAD_QUORUM_K | Some k \<Rightarrow> k"
  let ?k = "effectiveK (js_int ?cK) n"
  have v: "validateLoadQuorumConfig c = Inr ()" "cfgEnabled c \<noteq> Some (JsBool False)"
    using assms by (auto simp: planLoadQuorum_def split: sum.splits if_splits)
  have k: "?k \<noteq> 0" "?k \<noteq> 1" "k = nat ?k"
    and q: "case settingInt (cfgQ c) of Some e \<Rightarrow> e \<le> ?k \<and> q = requiredQuorumQ ?k e
      | None \<Rightarrow> q = requiredQuorumQ ?k 0"
    using assms v by (auto simp: planLoadQuorum_def Let_def split: option.splits if_splits)
  have "0 \<le> ?k" "?k \<le> int n" by (auto simp: effectiveK_int)
  then have k2: "2 \<le> ?k" "int k = ?k" "k \<le> n" using k by auto
  show ?thesis
  proof (cases "settingInt (cfgQ c)")
    case None
    then have "q = defaultQuorumQ ?k" using q by (simp add: requiredQuorumQ_def)
    then show ?thesis using None k2 defaultQuorumQ_majority [of ?k] by auto
  next
    case (Some e)
    then have "1 \<le> e" using validate_ok_positive(1) [OF v] by blast
    then show ?thesis using Some q k2 by (simp add: requiredQuorumQ_def)
  qed
qed

lemma probeRows_simps [simp]:
  "map rowPeer (probeRows ps f g) = ps" "map rowId (probeRows ps f g) = map f ps"
  "length (probeRows ps f g) = length ps"
  by (auto simp: probeRows_def comp_def)

lemma normalize_full: "normalizeLoadQuorumProbeResult r = Vote b a \<Longrightarrow> length b = 32 \<and> a \<noteq> []"
  by (auto simp: normalizeLoadQuorumProbeResult_def snapshotVoteHash_def TIPS_HASH_LENGTH_def Let_def
      split: raw_probe.splits if_splits own_property.splits option.splits)

lemma full_votes_probeRows [simp]: "full_votes (probeRows ps f g)"
  by (auto simp: full_votes_def probeRows_def dest: normalize_full)

lemma run_tally:
  "planLoadQuorum path c (length peers) = Inr (PlanTally k q) \<Longrightarrow>
     runLoadQuorum peers peerIdOf probeFn path c =
       tallyLoadQuorum path (probeRows (take k peers) peerIdOf probeFn) q"
  by (simp add: runLoadQuorum_def)

lemma signers_probeRows:
  "signers (probeRows ps f g) h =
     {a. \<exists>p \<in> set ps. \<exists>b. normalizeLoadQuorumProbeResult (g p) = Vote b a \<and> tipsHashToHex b = h}"
  by (auto simp: signers_def probeRows_def tipsHashToHex_def)

lemma card_filter_ids: "card (A \<inter> f ` set xs) \<le> length (filter (\<lambda>x. f x \<in> A) xs)"
proof -
  have "A \<inter> f ` set xs = f ` set (filter (\<lambda>x. f x \<in> A) xs)" by auto
  then show ?thesis by (metis card_image_le card_length finite_set le_trans)
qed


section \<open>Properties\<close>

text \<open>
  C1: A round that passes is backed by its threshold. When more than one peer
  is probed and the round returns a cohort and a digest, at least \<open>Q\<close>
  different signing authorities voted for exactly that digest, and the cohort
  holds at least \<open>Q\<close> of the probed peers; one authority behind many peers
  counts once.
\<close>

theorem runLoadQuorum_backed:
  assumes "planLoadQuorum path config (length peers) = Inr (PlanTally k q)"
    and "int (length peers) \<le> MAX_SAFE_INTEGER"
    and "runLoadQuorum peers peerIdOf probeFn path config = Inr (QuorumNarrowed cohort h)"
  shows "q \<le> int (card {a. \<exists>p \<in> set (take k peers). \<exists>b.
           normalizeLoadQuorumProbeResult (probeFn p) = Vote b a \<and> tipsHashToHex b = h})
    \<and> q \<le> int (length cohort) \<and> set cohort \<subseteq> set (take k peers)"
proof -
  let ?rows = "probeRows (take k peers) peerIdOf probeFn"
  have q: "1 \<le> q" "q \<le> MAX_SAFE_INTEGER"
    using plan_tally_cases [OF assms(1)] assms(2) by auto
  have win: "q \<le> int (card (voters (round_ads ?rows) h))"
    and cohort: "cohort = map rowPeer (filter (\<lambda>r. rowId r \<in> voters (round_ads ?rows) h) ?rows)"
    using assms(3) by (auto simp: run_tally [OF assms(1)] tally_success_iff [OF q])
  have "q \<le> int (card (signers ?rows h))" using win card_voters_signers [of ?rows h] by linarith
  moreover have "voters (round_ads ?rows) h \<inter> rowId ` set ?rows = voters (round_ads ?rows) h"
    using voters_subset [of "round_ads ?rows" h] ids_round_ads [of ?rows]
    by (metis inf.absorb1 list.set_map)
  then have "q \<le> int (length cohort)"
    using win card_filter_ids [of "voters (round_ads ?rows) h" rowId ?rows] by (simp add: cohort)
  moreover have "set cohort \<subseteq> rowPeer ` set ?rows" by (auto simp: cohort)
  then have "set cohort \<subseteq> set (take k peers)" by (metis list.set_map probeRows_simps(1))
  ultimately show ?thesis by (simp add: signers_probeRows)
qed

definition sample_probe :: "nat \<Rightarrow> raw_probe" where
  "sample_probe p = ProbeObject True (DataProperty (Some (replicate 32 (if p = 2 then 9 else 7))))
     (DataProperty (Some (if p = 0 then ''A'' else if p = 1 then ''B'' else ''C'')))"

definition sample_config :: quorum_config where
  "sample_config = \<lparr>cfgEnabled = None, cfgK = None, cfgQ = None, cfgTimeoutMs = None,
     cfgAllowSinglePeer = None\<rparr>"

lemma sample_plan:
  "planLoadQuorum ''/doc'' sample_config (length [0, 1, 2 :: nat]) = Inr (PlanTally 3 2)"
  by code_simp

lemma sample_run:
  "runLoadQuorum [0, 1, 2] (\<lambda>p. p) sample_probe ''/doc'' sample_config =
     Inr (QuorumNarrowed [0, 1] (hex_bytes (replicate 32 7)))"
  by code_simp

theorem runLoadQuorum_backed_witness:
  "2 \<le> int (card {a. \<exists>p \<in> set (take 3 [0, 1, 2 :: nat]). \<exists>b.
     normalizeLoadQuorumProbeResult (sample_probe p) = Vote b a \<and>
     tipsHashToHex b = hex_bytes (replicate 32 7)})"
  using runLoadQuorum_backed [OF sample_plan _ sample_run] by simp

text \<open>
  C2: Fewer than \<open>Q\<close> faulty authorities cannot move a round. If every authority
  outside a set of fewer than \<open>Q\<close> votes for one digest, the only digest a round
  can return is that one, whatever the others send, whichever peers relay it.
\<close>

theorem runLoadQuorum_byzantine:
  assumes "planLoadQuorum path config (length peers) = Inr (PlanTally k q)"
    and "int (length peers) \<le> MAX_SAFE_INTEGER"
    and "finite faulty" "int (card faulty) < q"
    and "\<forall>p \<in> set (take k peers). \<forall>b a.
      normalizeLoadQuorumProbeResult (probeFn p) = Vote b a \<longrightarrow> a \<notin> faulty \<longrightarrow> tipsHashToHex b = honest"
    and "runLoadQuorum peers peerIdOf probeFn path config = Inr (QuorumNarrowed cohort h)"
  shows "h = honest"
proof (rule ccontr)
  assume "h \<noteq> honest"
  let ?rows = "probeRows (take k peers) peerIdOf probeFn"
  have q: "1 \<le> q" "q \<le> MAX_SAFE_INTEGER"
    using plan_tally_cases [OF assms(1)] assms(2) by auto
  have "q \<le> int (card (voters (round_ads ?rows) h))"
    using assms(6) by (auto simp: run_tally [OF assms(1)] tally_success_iff [OF q])
  moreover have "signers ?rows h \<subseteq> faulty"
    using assms(5) \<open>h \<noteq> honest\<close> by (auto simp: signers_probeRows)
  then have "card (signers ?rows h) \<le> card faulty" using assms(3) by (rule card_mono [rotated])
  ultimately show False using card_voters_signers [of ?rows h] assms(4) by linarith
qed

theorem runLoadQuorum_byzantine_witness:
  "hex_bytes (replicate 32 7) = tipsHashToHex (replicate 32 7)"
  by (rule runLoadQuorum_byzantine [OF sample_plan _ _ _ _ sample_run, of "{''C''}"])
    (auto simp: sample_probe_def normalizeLoadQuorumProbeResult_def snapshotVoteHash_def
      TIPS_HASH_LENGTH_def copyUnsharedUint8Array_def)

text \<open>
  C3: What a round decides. When the probed peers have distinct identities, a
  round returns a digest exactly if no authority signed two digests, at least
  \<open>Q\<close> authorities signed this one, and fewer than \<open>Q\<close> signed any other; in
  particular it does return it whenever that is so.
\<close>

theorem runLoadQuorum_decides:
  assumes "planLoadQuorum path config (length peers) = Inr (PlanTally k q)"
    and "int (length peers) \<le> MAX_SAFE_INTEGER"
    and "distinct (map peerIdOf (take k peers))"
  shows "(\<exists>cohort. runLoadQuorum peers peerIdOf probeFn path config = Inr (QuorumNarrowed cohort h))
    \<longleftrightarrow> (let rows = probeRows (take k peers) peerIdOf probeFn in
      \<not> equivocates rows \<and> q \<le> int (card (signers rows h)) \<and>
      (\<forall>h'. h' \<noteq> h \<longrightarrow> int (card (signers rows h')) < q))"
proof -
  let ?rows = "probeRows (take k peers) peerIdOf probeFn"
  have q: "1 \<le> q" "q \<le> MAX_SAFE_INTEGER"
    using plan_tally_cases [OF assms(1)] assms(2) by auto
  have "card (voters (round_ads ?rows) g) = card (signers ?rows g)" if "\<not> equivocates ?rows" for g
    using that assms(3) by (intro card_signers_voters) auto
  then show ?thesis
    by (auto simp: run_tally [OF assms(1)] tally_success_iff [OF q] Let_def)
qed

theorem runLoadQuorum_decides_witness:
  "2 \<le> int (card (signers (probeRows (take 3 [0, 1, 2]) (\<lambda>p :: nat. p) sample_probe)
     (hex_bytes (replicate 32 7))))"
  using runLoadQuorum_decides [OF sample_plan, of "\<lambda>p. p" sample_probe "hex_bytes (replicate 32 7)"]
    sample_run by (simp add: Let_def)

text \<open>
  C4: The threshold of a round. A configured \<open>Q\<close> is kept as it is, never lowered
  to the peers that happen to be reachable; without one the threshold is a
  strict majority of the probed peers. Two peers at least are probed.
\<close>

theorem planLoadQuorum_threshold:
  assumes "planLoadQuorum path config n = Inr (PlanTally k q)"
  shows "2 \<le> k \<and> k \<le> n \<and> 1 \<le> q \<and> q \<le> int k \<and>
    (case settingInt (cfgQ config) of Some e \<Rightarrow> q = e | None \<Rightarrow> int k < 2 * q)"
  using assms by (rule plan_tally_cases)

theorem planLoadQuorum_threshold_witness: "int 3 < 2 * 2"
  using planLoadQuorum_threshold [OF sample_plan] by (simp add: sample_config_def settingInt_def)

lemma conflict_needs_minority:
  assumes q: "1 \<le> q" "q \<le> MAX_SAFE_INTEGER" and "int (length ads) < 2 * q"
  shows "selectQuorumBucket (map snd (agreement_of ads)) q \<noteq> -2"
proof
  assume "selectQuorumBucket (map snd (agreement_of ads)) q = -2"
  then obtain a b where ab: "a < b" "b < length (agreement_of ads)"
    "q \<le> snd (agreement_of ads ! a)" "q \<le> snd (agreement_of ads ! b)"
    by (auto simp: selectQuorumBucket_conflict)
  then have "fst (agreement_of ads ! a) \<noteq> fst (agreement_of ads ! b)"
    using agreement_inj [of a ads b] by auto
  from card_voters_sum [OF this, of ads] show False
    using ab assms(3) by (simp add: agreement_nth)
qed

lemma failure_conflict: "quorumFailureReason n r q c = ConflictingQuorum \<Longrightarrow> c"
  by (auto simp: quorumFailureReason_def split: if_splits)

text \<open>
  With the default threshold a round never ends in a conflict of two
  digests that both reached it: a strict majority admits one winner.
\<close>

theorem runLoadQuorum_no_conflict:
  assumes "settingInt (cfgQ config) = None"
    and "int (length peers) \<le> MAX_SAFE_INTEGER"
    and "runLoadQuorum peers peerIdOf probeFn path config = Inl e"
  shows "errReason e \<noteq> FailedTally ConflictingQuorum"
proof (cases "planLoadQuorum path config (length peers)")
  case (Inl e')
  then show ?thesis using assms(3)
    by (auto simp: runLoadQuorum_def planLoadQuorum_def Let_def split: sum.splits if_splits option.splits)
next
  case (Inr plan)
  show ?thesis
  proof (cases plan)
    case (PlanTally k q)
    let ?rows = "probeRows (take k peers) peerIdOf probeFn"
    note p = Inr [unfolded PlanTally]
    have q: "1 \<le> q" "q \<le> MAX_SAFE_INTEGER" and maj: "int (length (round_ads ?rows)) < 2 * q"
      using plan_tally_cases [OF p] assms(1,2) by auto
    show ?thesis using assms(3) conflict_needs_minority [OF q maj]
      by (auto simp: run_tally [OF p] tallyLoadQuorum_def Let_def decide_unfold [OF q] equivocating_round
          simp flip: round_ads_def split: if_splits dest: failure_conflict)
  qed (use Inr assms(3) in \<open>auto simp: runLoadQuorum_def runSinglePeer_def split: normalized_probe.splits\<close>)
qed

theorem runLoadQuorum_no_conflict_witness:
  "\<exists>e. runLoadQuorum [0, 2 :: nat] (\<lambda>p. p) sample_probe ''/doc'' sample_config = Inl e \<and>
     errReason e \<noteq> FailedTally ConflictingQuorum"
proof -
  have "\<exists>e. runLoadQuorum [0, 2 :: nat] (\<lambda>p. p) sample_probe ''/doc'' sample_config = Inl e"
    by (rule exI) code_simp
  then obtain e where e: "runLoadQuorum [0, 2 :: nat] (\<lambda>p. p) sample_probe ''/doc'' sample_config = Inl e" ..
  have "settingInt (cfgQ sample_config) = None" by (simp add: sample_config_def settingInt_def)
  from runLoadQuorum_no_conflict [OF this _ e] e show ?thesis by simp
qed

lemma hexEquals_loop_zero:
  "constantTimeHexEquals_loop d a b = 0 \<Longrightarrow> d = 0"
  by (induction d a b rule: constantTimeHexEquals_loop.induct) (auto simp: word_or_zero)

lemma hexEquals_loop_iff:
  "length a = length b \<Longrightarrow> constantTimeHexEquals_loop d a b = 0 \<longleftrightarrow> d = 0 \<and> a = b"
proof (induction d a b rule: constantTimeHexEquals_loop.induct)
  case (4 d a as b bs)
  have "unat x < 65536" for x :: "16 word" using unsigned_less [of x] by simp
  then have "take_bit 32 (unat x) = unat x" for x :: "16 word"
    by (rule take_bit_nat_eq_self [OF less_trans]) simp
  then have "(ucast a :: 32 word) = ucast b \<longleftrightarrow> a = b"
    by (simp add: word_unat_eq_iff unsigned_ucast_eq)
  then show ?case using 4 by (auto simp: word_or_zero word_xor_zero)
qed simp_all

text \<open>
  The branch-free comparison that binds a loaded state to the agreed digest
  is string equality: the length difference and every pair of code units enter
  the accumulator, and nothing is lost at the 32-bit width.
\<close>

theorem constantTimeHexEquals_iff:
  assumes "length a < 2 ^ 32" and "length b < 2 ^ 32"
  shows "constantTimeHexEquals a b \<longleftrightarrow> a = b"
proof (cases "length a = length b")
  case True
  then show ?thesis by (simp add: constantTimeHexEquals_def hexEquals_loop_iff)
next
  case False
  have "(of_nat (length a) :: 32 word) \<noteq> of_nat (length b)"
    using False assms by (simp add: word_unat_eq_iff unsigned_of_nat take_bit_nat_eq_self)
  then have "\<not> constantTimeHexEquals a b"
    unfolding constantTimeHexEquals_def by (metis hexEquals_loop_zero word_xor_zero)
  then show ?thesis using False by auto
qed

theorem constantTimeHexEquals_iff_witness:
  "constantTimeHexEquals [48, 102] [48, 102] \<and> \<not> constantTimeHexEquals [48, 102] [48, 102, 48]"
  using constantTimeHexEquals_iff [of "[48, 102]" "[48, 102]"]
    constantTimeHexEquals_iff [of "[48, 102]" "[48, 102, 48]"] by simp

end
