(* ===== verification/Tree_Index.thy ===== *)
theory Tree_Index
  imports Js_Prelude
begin

text \<open>
  \<open>packages/core/src/policy/tree-index.ts\<close> and \<open>beekem/tree-math.ts\<close>: the index
  arithmetic of the left-balanced binary tree that holds a group's keys. Nodes
  are numbered in order, leaves at the even indices. Indices are \<open>nat\<close>: the
  guards of \<open>tree-math.ts\<close> refuse negative values before any of this code runs,
  and no subtraction below goes under zero on a node of a tree. Reading the
  table of powers out of range gives \<open>undefined\<close>, which is \<open>None\<close> here and
  propagates; the recursions that are not bounded by their argument are
  \<open>partial_function\<close>s, so that not returning is \<open>None\<close> as well.
\<close>


section \<open>Definitions\<close>

subsection \<open>The kernel\<close>

definition POWERS_OF_TWO :: "nat list" where
  "POWERS_OF_TWO =
     [1, 2, 4, 8, 16, 32, 64, 128, 256, 512, 1024, 2048, 4096, 8192, 16384, 32768,
      65536, 131072, 262144, 524288, 1048576, 2097152, 4194304, 8388608, 16777216,
      33554432, 67108864, 134217728, 268435456, 536870912, 1073741824, 2147483648]"

definition powerOfTwo :: "int \<Rightarrow> nat option" where
  "powerOfTwo e =
     (if 0 \<le> e \<and> e < int (length POWERS_OF_TWO) then Some (POWERS_OF_TWO ! nat e) else None)"

fun nodeLevel :: "nat \<Rightarrow> nat" where
  "nodeLevel index = (if index mod 2 = 0 then 0 else nodeLevel ((index - 1) div 2) + 1)"

declare nodeLevel.simps [simp del]

fun floorLog2 :: "nat \<Rightarrow> nat" where
  "floorLog2 v = (if v < 2 then 0 else floorLog2 (v div 2) + 1)"

declare floorLog2.simps [simp del]

definition treeWidth :: "nat \<Rightarrow> nat" where
  "treeWidth leaves = 2 * leaves - 1"

definition treeRoot :: "nat \<Rightarrow> nat option" where
  "treeRoot leaves = do { p \<leftarrow> powerOfTwo (int (floorLog2 (treeWidth leaves))); Some (p - 1) }"

definition leafNodeIndex :: "nat \<Rightarrow> nat" where
  "leafNodeIndex position = position * 2"

definition leafPosition :: "nat \<Rightarrow> nat" where
  "leafPosition index = index div 2"

definition leftChild :: "nat \<Rightarrow> nat option" where
  "leftChild index = do { p \<leftarrow> powerOfTwo (int (nodeLevel index) - 1); Some (index - p) }"

definition rightChild :: "nat \<Rightarrow> nat option" where
  "rightChild index = do { p \<leftarrow> powerOfTwo (int (nodeLevel index) - 1); Some (index + p) }"

partial_function (option) clampRightChild :: "nat \<Rightarrow> nat \<Rightarrow> nat option" where
  "clampRightChild index width =
     (if index < width then Some index
      else do { l \<leftarrow> leftChild index; clampRightChild l width })"

definition parentStep :: "nat \<Rightarrow> nat option" where
  "parentStep index = do {
     step \<leftarrow> powerOfTwo (int (nodeLevel index));
     let higherBit = index div (2 * step) mod 2;
     Some (if higherBit = 0 then index + step else index - step) }"

partial_function (option) parentInWidth :: "nat \<Rightarrow> nat \<Rightarrow> nat \<Rightarrow> nat option" where
  "parentInWidth index width rootLevel = do {
     next \<leftarrow> parentStep index;
     if next < width then Some next else parentInWidth next width rootLevel }"

definition treeParent :: "nat \<Rightarrow> nat \<Rightarrow> nat option" where
  "treeParent index leaves =
     parentInWidth index (treeWidth leaves) (floorLog2 (treeWidth leaves))"

definition treeRight :: "nat \<Rightarrow> nat \<Rightarrow> nat option" where
  "treeRight index leaves = do { r \<leftarrow> rightChild index; clampRightChild r (treeWidth leaves) }"

definition treeSibling :: "nat \<Rightarrow> nat \<Rightarrow> nat option" where
  "treeSibling index leaves = do {
     parent \<leftarrow> treeParent index leaves;
     l \<leftarrow> leftChild parent;
     if l = index then treeRight parent leaves else leftChild parent }"

partial_function (option) treeDirectPath :: "nat \<Rightarrow> nat \<Rightarrow> nat list option" where
  "treeDirectPath index leaves = do {
     root \<leftarrow> treeRoot leaves;
     if index = root then Some []
     else do {
       parent \<leftarrow> treeParent index leaves;
       rest \<leftarrow> treeDirectPath parent leaves;
       Some (parent # rest) } }"

partial_function (option) treeCopath :: "nat \<Rightarrow> nat \<Rightarrow> nat list option" where
  "treeCopath index leaves = do {
     root \<leftarrow> treeRoot leaves;
     if index = root then Some []
     else do {
       s \<leftarrow> treeSibling index leaves;
       parent \<leftarrow> treeParent index leaves;
       rest \<leftarrow> treeCopath parent leaves;
       Some (s # rest) } }"

declare clampRightChild.simps [code] parentInWidth.simps [code] treeDirectPath.simps [code]
  treeCopath.simps [code]

subsection \<open>The guarded interface\<close>

text \<open>
  \<open>tree-math.ts\<close> validates its arguments, any numbers, before it calls the
  kernel. \<open>KernelUndefined\<close> would be a kernel result of \<open>undefined\<close>.
\<close>

datatype tree_error =
    NotNonNegativeSafeInt | NodeRangeExceeded | BadLeafCount | LeavesHaveNoChildren
  | OutsideTree | RootHasNoParent | NotATreeLeaf | TreeEmpty | LeafRangeExceeded | NotALeafNode
  | KernelUndefined

definition MAX_TREE_MATH_LEAVES :: int where
  "MAX_TREE_MATH_LEAVES = 2 ^ 30"

definition MAX_TREE_NODE_INDEX :: int where
  "MAX_TREE_NODE_INDEX = 2 * MAX_TREE_MATH_LEAVES - 2"

definition kernel :: "'a option \<Rightarrow> tree_error + 'a" where
  "kernel r = (case r of None \<Rightarrow> Inl KernelUndefined | Some v \<Rightarrow> Inr v)"

definition assertNonNegativeSafeInt :: "js_number \<Rightarrow> tree_error + nat" where
  "assertNonNegativeSafeInt v =
     (case asSafeInteger v of
        None \<Rightarrow> Inl NotNonNegativeSafeInt
      | Some i \<Rightarrow> if i < 0 then Inl NotNonNegativeSafeInt else Inr (nat i))"

definition assertSupportedNodeIndex :: "js_number \<Rightarrow> tree_error + nat" where
  "assertSupportedNodeIndex v =
     (case assertNonNegativeSafeInt v of
        Inl e \<Rightarrow> Inl e
      | Inr i \<Rightarrow> if int i > MAX_TREE_NODE_INDEX then Inl NodeRangeExceeded else Inr i)"

definition assertLeafCount :: "js_number \<Rightarrow> tree_error + nat" where
  "assertLeafCount v =
     (case asSafeInteger v of
        None \<Rightarrow> Inl BadLeafCount
      | Some n \<Rightarrow> if n < 1 \<or> n > MAX_TREE_MATH_LEAVES then Inl BadLeafCount else Inr (nat n))"

definition isLeaf :: "js_number \<Rightarrow> bool" where
  "isLeaf v = (case asSafeInteger v of
     None \<Rightarrow> False
   | Some i \<Rightarrow> i \<ge> 0 \<and> i \<le> MAX_TREE_NODE_INDEX \<and> i mod 2 = 0)"

definition isInternal :: "js_number \<Rightarrow> bool" where
  "isInternal v = (case asSafeInteger v of
     None \<Rightarrow> False
   | Some i \<Rightarrow> i \<ge> 0 \<and> i \<le> MAX_TREE_NODE_INDEX \<and> i mod 2 = 1)"

definition level :: "js_number \<Rightarrow> tree_error + nat" where
  "level v = (case assertSupportedNodeIndex v of Inl e \<Rightarrow> Inl e | Inr i \<Rightarrow> Inr (nodeLevel i))"

definition left :: "js_number \<Rightarrow> tree_error + nat" where
  "left v = (case assertSupportedNodeIndex v of
     Inl e \<Rightarrow> Inl e
   | Inr i \<Rightarrow> if nodeLevel i = 0 then Inl LeavesHaveNoChildren else kernel (leftChild i))"

definition root :: "js_number \<Rightarrow> tree_error + nat" where
  "root numLeaves =
     (if asInteger numLeaves = Some 0 then Inl TreeEmpty
      else case assertLeafCount numLeaves of
        Inl e \<Rightarrow> Inl e
      | Inr n \<Rightarrow> if n = 1 then Inr 0 else kernel (treeRoot n))"

definition assertTreeNode :: "js_number \<Rightarrow> js_number \<Rightarrow> tree_error + (nat \<times> nat)" where
  "assertTreeNode v numLeaves =
     (case assertLeafCount numLeaves of
        Inl e \<Rightarrow> Inl e
      | Inr n \<Rightarrow>
          (case assertSupportedNodeIndex v of
             Inl e \<Rightarrow> Inl e
           | Inr i \<Rightarrow> if i \<ge> treeWidth n then Inl OutsideTree else Inr (i, n)))"

definition right :: "js_number \<Rightarrow> js_number option \<Rightarrow> tree_error + nat" where
  "right v numLeaves =
     (case assertSupportedNodeIndex v of
        Inl e \<Rightarrow> Inl e
      | Inr i \<Rightarrow>
          if nodeLevel i = 0 then Inl LeavesHaveNoChildren
          else (case numLeaves of
            None \<Rightarrow> kernel (rightChild i)
          | Some m \<Rightarrow>
              (case assertTreeNode v m of
                 Inl e \<Rightarrow> Inl e
               | Inr (i, n) \<Rightarrow> kernel (treeRight i n))))"

definition assertNonRootNode :: "js_number \<Rightarrow> js_number \<Rightarrow> tree_error + (nat \<times> nat)" where
  "assertNonRootNode v numLeaves =
     (case assertTreeNode v numLeaves of
        Inl e \<Rightarrow> Inl e
      | Inr (i, n) \<Rightarrow>
          (case root numLeaves of
             Inl e \<Rightarrow> Inl e
           | Inr r \<Rightarrow> if i = r then Inl RootHasNoParent else Inr (i, n)))"

definition parent :: "js_number \<Rightarrow> js_number \<Rightarrow> tree_error + nat" where
  "parent v numLeaves =
     (case assertNonRootNode v numLeaves of Inl e \<Rightarrow> Inl e | Inr (i, n) \<Rightarrow> kernel (treeParent i n))"

definition sibling :: "js_number \<Rightarrow> js_number \<Rightarrow> tree_error + nat" where
  "sibling v numLeaves =
     (case assertNonRootNode v numLeaves of Inl e \<Rightarrow> Inl e | Inr (i, n) \<Rightarrow> kernel (treeSibling i n))"

definition assertTreeLeaf :: "js_number \<Rightarrow> js_number \<Rightarrow> tree_error + (nat \<times> nat)" where
  "assertTreeLeaf v numLeaves =
     (case assertLeafCount numLeaves of
        Inl e \<Rightarrow> Inl e
      | Inr n \<Rightarrow>
          (case assertSupportedNodeIndex v of
             Inl e \<Rightarrow> Inl e
           | Inr i \<Rightarrow> if \<not> isLeaf v \<or> i \<ge> treeWidth n then Inl NotATreeLeaf else Inr (i, n)))"

definition directPath :: "js_number \<Rightarrow> js_number \<Rightarrow> tree_error + nat list" where
  "directPath v numLeaves =
     (case assertTreeLeaf v numLeaves of Inl e \<Rightarrow> Inl e | Inr (i, n) \<Rightarrow> kernel (treeDirectPath i n))"

definition copath :: "js_number \<Rightarrow> js_number \<Rightarrow> tree_error + nat list" where
  "copath v numLeaves =
     (case assertTreeLeaf v numLeaves of Inl e \<Rightarrow> Inl e | Inr (i, n) \<Rightarrow> kernel (treeCopath i n))"

definition leafToNodeIndex :: "js_number \<Rightarrow> tree_error + nat" where
  "leafToNodeIndex v =
     (case assertNonNegativeSafeInt v of
        Inl e \<Rightarrow> Inl e
      | Inr p \<Rightarrow> if int p \<ge> MAX_TREE_MATH_LEAVES then Inl LeafRangeExceeded else Inr (leafNodeIndex p))"

definition nodeToLeafIndex :: "js_number \<Rightarrow> tree_error + nat" where
  "nodeToLeafIndex v =
     (case assertSupportedNodeIndex v of
        Inl e \<Rightarrow> Inl e
      | Inr i \<Rightarrow> if \<not> isLeaf v then Inl NotALeafNode else Inr (leafPosition i))"


section \<open>Lemmas\<close>

subsection \<open>Nodes by level and position\<close>

text \<open>
  The node at height \<open>l\<close> and position \<open>m\<close> from the left has index
  \<open>2^l * (2 * m + 1) - 1\<close>; it stands above the leaf positions
  \<open>m * 2^l ..< (m + 1) * 2^l\<close>.
\<close>

definition node :: "nat \<Rightarrow> nat \<Rightarrow> nat" where
  "node l m = 2 ^ l * (2 * m + 1) - 1"

lemma Suc_node [simp]: "Suc (node l m) = 2 ^ l * (2 * m + 1)"
  by (simp add: node_def)

lemma node_less: "node l m < w \<longleftrightarrow> 2 ^ l * (2 * m + 1) \<le> w"
  using Suc_node [of l m] by linarith

lemma node_Suc: "node (Suc l) m = 2 * node l m + 1"
proof -
  have "Suc (node (Suc l) m) = 2 * Suc (node l m)" by (simp only: Suc_node power_Suc mult.assoc)
  then show ?thesis by (simp del: Suc_node)
qed

lemma nodeLevel_node [simp]: "nodeLevel (node l m) = l"
proof (induction l)
  case 0
  show ?case by (subst nodeLevel.simps) (simp add: node_def)
next
  case (Suc l)
  then show ?case by (subst nodeLevel.simps) (simp add: node_Suc)
qed

lemma node_exhaust: obtains m where "x = node (nodeLevel x) m"
proof -
  have "\<exists>m. x = node (nodeLevel x) m"
  proof (induction x rule: nodeLevel.induct)
    case (1 x)
    show ?case
    proof (cases "x mod 2 = 0")
      case True
      then have "x = node 0 (x div 2)" by (auto simp: node_def)
      then show ?thesis by (metis nodeLevel_node)
    next
      case False
      then obtain m where "(x - 1) div 2 = node (nodeLevel ((x - 1) div 2)) m" using 1 by blast
      moreover have "x = 2 * ((x - 1) div 2) + 1" using False by presburger
      ultimately have "x = node (Suc (nodeLevel ((x - 1) div 2))) m" by (metis node_Suc)
      then show ?thesis by (metis nodeLevel_node)
    qed
  qed
  then show ?thesis using that by blast
qed

lemma node_inject [simp]: "node l m = node l' m' \<longleftrightarrow> l = l' \<and> m = m'"
proof
  assume eq: "node l m = node l' m'"
  then have "l = l'" by (metis nodeLevel_node)
  moreover from this have "2 ^ l * (2 * m + 1) = (2 ^ l * (2 * m' + 1) :: nat)"
    using eq by (metis Suc_node)
  ultimately show "l = l' \<and> m = m'" by simp
qed simp

lemma POWERS_nth:
  assumes "e < 32"
  shows "POWERS_OF_TWO ! e = 2 ^ e"
proof -
  have "POWERS_OF_TWO = map (\<lambda>e. 2 ^ e) [0..<32]"
    unfolding POWERS_OF_TWO_def by (simp add: upt_rec)
  then have "POWERS_OF_TWO ! e = map (\<lambda>e. 2 ^ e) [0..<32] ! e" by (rule arg_cong)
  also have "\<dots> = 2 ^ e" using assms by (subst nth_map) (simp_all only: length_upt nth_upt, simp_all)
  finally show ?thesis .
qed

lemma powerOfTwo_nat [simp]: "e < 32 \<Longrightarrow> powerOfTwo (int e) = Some (2 ^ e)"
  by (simp add: powerOfTwo_def POWERS_nth) (simp add: POWERS_OF_TWO_def)

lemma floorLog2_bounds: "1 \<le> v \<Longrightarrow> 2 ^ floorLog2 v \<le> v \<and> v < 2 ^ Suc (floorLog2 v)"
proof (induction v rule: floorLog2.induct)
  case (1 v)
  show ?case
  proof (cases "v < 2")
    case True
    then show ?thesis using 1 by (simp add: floorLog2.simps)
  next
    case False
    then have "2 ^ floorLog2 (v div 2) \<le> v div 2 \<and> v div 2 < 2 ^ Suc (floorLog2 (v div 2))"
      using 1 by simp
    then show ?thesis using False by (subst (1 2) floorLog2.simps) (auto simp: less_mult_imp_div_less)
  qed
qed

lemma node_left: "node (Suc l) m = node l (2 * m) + 2 ^ l"
proof -
  have "Suc (node (Suc l) m) = Suc (node l (2 * m)) + 2 ^ l"
    unfolding Suc_node by (simp add: algebra_simps)
  then show ?thesis by (simp del: Suc_node)
qed

lemma node_right: "node l (2 * m + 1) = node (Suc l) m + 2 ^ l"
proof -
  have "Suc (node l (2 * m + 1)) = Suc (node (Suc l) m) + 2 ^ l"
    unfolding Suc_node by (simp add: algebra_simps)
  then show ?thesis by (simp del: Suc_node)
qed

lemma leftChild_node: "l < 32 \<Longrightarrow> leftChild (node (Suc l) m) = Some (node l (2 * m))"
  by (simp add: leftChild_def) (simp add: node_left)

lemma rightChild_node: "l < 32 \<Longrightarrow> rightChild (node (Suc l) m) = Some (node l (2 * m + 1))"
  using node_right [of l m] by (simp add: rightChild_def)

lemma node_div: "node l m div (2 * 2 ^ l) = m"
proof (rule div_nat_eqI)
  have "2 * 2 ^ l * m < Suc (node l m)" unfolding Suc_node by (simp add: algebra_simps)
  then show "2 * 2 ^ l * m \<le> node l m" by (simp del: Suc_node)
  show "node l m < 2 * 2 ^ l * Suc m"
    by (simp add: node_less algebra_simps)
qed

lemma parentStep_node:
  assumes "l < 32"
  shows "parentStep (node l m) = Some (node (Suc l) (m div 2))"
proof (cases "even m")
  case True
  then have "m mod 2 = 0" "m = 2 * (m div 2)" by auto
  then have "node (Suc l) (m div 2) = node l m + 2 ^ l" by (metis node_left)
  then show ?thesis using assms \<open>m mod 2 = 0\<close> by (simp add: parentStep_def node_div Let_def)
next
  case False
  then have "m mod 2 = 1" "m = 2 * (m div 2) + 1" by (auto simp: odd_iff_mod_2_eq_one)
  then have "node l m = node (Suc l) (m div 2) + 2 ^ l" by (metis node_right)
  then have "node l m - 2 ^ l = node (Suc l) (m div 2)" by simp
  then show ?thesis using assms \<open>m mod 2 = 1\<close> by (simp add: parentStep_def node_div Let_def)
qed


subsection \<open>The leaves below a node\<close>

text \<open>
  The leaf positions of an \<open>n\<close>-leaf tree that stand below a node: those whose
  leaf index is within \<open>2^level - 1\<close> of the node's index.
\<close>

definition covered :: "nat \<Rightarrow> nat \<Rightarrow> nat set" where
  "covered x n = {p. p < n \<and> x < leafNodeIndex p + 2 ^ nodeLevel x \<and> leafNodeIndex p < x + 2 ^ nodeLevel x}"

lemma covered_node: "covered (node l m) n = {p. p < n \<and> m * 2 ^ l \<le> p \<and> p < Suc m * 2 ^ l}"
proof -
  have "node l m < 2 * p + 2 ^ l \<longleftrightarrow> m * 2 ^ l \<le> p" for p
    by (simp add: node_less algebra_simps)
  moreover have "2 * p < node l m + 2 ^ l \<longleftrightarrow> p < Suc m * 2 ^ l" for p
  proof -
    have "2 * p < node l m + 2 ^ l \<longleftrightarrow> 2 * p + 1 < Suc (node l m) + 2 ^ l" by (simp del: Suc_node)
    also have "\<dots> \<longleftrightarrow> 2 * p + 1 < 2 * (Suc m * 2 ^ l)" unfolding Suc_node by (simp add: algebra_simps)
    also have "\<dots> \<longleftrightarrow> p < Suc m * 2 ^ l" by linarith
    finally show ?thesis .
  qed
  ultimately show ?thesis by (simp add: covered_def leafNodeIndex_def mult.commute)
qed

lemma covered_nonempty: "covered (node l m) n \<noteq> {} \<longleftrightarrow> m * 2 ^ l < n"
  unfolding covered_node by (auto intro!: exI [of _ "m * 2 ^ l"])

lemma covered_split:
  "covered (node (Suc l) m) n = covered (node l (2 * m)) n \<union> covered (node l (2 * m + 1)) n"
  "covered (node l (2 * m)) n \<inter> covered (node l (2 * m + 1)) n = {}"
  unfolding covered_node by (auto simp: algebra_simps)

lemma node_in_width:
  assumes "1 \<le> n"
  shows "node (Suc l) m < treeWidth n \<longleftrightarrow> (2 * m + 1) * 2 ^ l < n"
proof -
  have "2 ^ Suc l * (2 * m + 1) = 2 * ((2 * m + 1) * 2 ^ l)" by simp
  then show ?thesis using assms unfolding node_less treeWidth_def by linarith
qed

lemma leaf_in_width: "1 \<le> n \<Longrightarrow> node 0 m < treeWidth n \<longleftrightarrow> m < n"
  unfolding node_less treeWidth_def by auto

text \<open>A node is in the tree exactly if it is a leaf of it or its right half is not empty.\<close>

lemma in_width_covered:
  assumes "1 \<le> n"
  shows "node (Suc l) m < treeWidth n \<longleftrightarrow> covered (node l (2 * m + 1)) n \<noteq> {}"
  by (simp only: node_in_width [OF assms] covered_nonempty)

lemma width_nonempty:
  assumes "1 \<le> n" "x < treeWidth n"
  shows "covered x n \<noteq> {}"
proof -
  obtain m where x: "x = node (nodeLevel x) m" by (rule node_exhaust)
  show ?thesis
  proof (cases "nodeLevel x")
    case 0
    then have "m < n" using assms x by (metis leaf_in_width)
    then show ?thesis using x 0 covered_nonempty [of 0 m n] by simp
  next
    case (Suc l)
    then have "covered (node l (2 * m + 1)) n \<noteq> {}" using assms x by (metis in_width_covered)
    then show ?thesis using x Suc covered_split(1) [of l m n] by auto
  qed
qed

text \<open>Outside the width a node covers what its left child covers.\<close>

lemma covered_outside:
  "1 \<le> n \<Longrightarrow> \<not> node (Suc l) m < treeWidth n \<Longrightarrow> covered (node (Suc l) m) n = covered (node l (2 * m)) n"
  using in_width_covered [of n l m] covered_split(1) [of l m n] by auto


subsection \<open>Moves inside the width\<close>

text \<open>Descending to the left keeps the leaves below and ends inside the tree.\<close>

lemma clampRightChild_node:
  assumes "1 \<le> n" "l < 32" "m * 2 ^ l < n"
  shows "\<exists>l' m'. clampRightChild (node l m) (treeWidth n) = Some (node l' m') \<and> l' \<le> l \<and>
    node l' m' < treeWidth n \<and> covered (node l' m') n = covered (node l m) n"
  using assms(2,3)
proof (induction l arbitrary: m)
  case 0
  then show ?case using assms(1) leaf_in_width [of n m]
    by (subst clampRightChild.simps) auto
next
  case (Suc l)
  show ?case
  proof (cases "node (Suc l) m < treeWidth n")
    case True
    then show ?thesis by (subst clampRightChild.simps) (auto intro: exI [of _ "Suc l"])
  next
    case False
    have "2 * m * 2 ^ l < n" using Suc.prems(2) by (simp add: algebra_simps)
    from Suc.IH [OF _ this] Suc.prems(1) obtain l' m' where
      "clampRightChild (node l (2 * m)) (treeWidth n) = Some (node l' m')" "l' \<le> l"
      "node l' m' < treeWidth n" "covered (node l' m') n = covered (node l (2 * m)) n" by auto
    then show ?thesis
      using False Suc.prems(1) covered_outside [OF assms(1) False]
      by (subst clampRightChild.simps) (auto simp: leftChild_node intro!: exI [of _ l'] exI [of _ m'])
  qed
qed

text \<open>
  Climbing stops at a node of the tree whose left child is where the climb
  started, or whose clamped right child is.
\<close>

definition climbs :: "nat \<Rightarrow> nat \<Rightarrow> nat \<Rightarrow> bool" where
  "climbs n x y \<longleftrightarrow> y < treeWidth n \<and> nodeLevel x < nodeLevel y \<and>
     (leftChild y = Some x \<or>
      clampRightChild (the (rightChild y)) (treeWidth n) = clampRightChild x (treeWidth n))"

lemma climbs_direct:
  assumes "l < 31" "node (Suc l) (m div 2) < treeWidth n"
  shows "climbs n (node l m) (node (Suc l) (m div 2))"
proof (cases "even m")
  case True
  then show ?thesis using assms leftChild_node [of l "m div 2"] by (simp add: climbs_def)
next
  case False
  then have "2 * (m div 2) + 1 = m" by simp
  then have "rightChild (node (Suc l) (m div 2)) = Some (node l m)"
    using rightChild_node [of l "m div 2"] assms(1) by simp
  then show ?thesis using assms by (simp add: climbs_def)
qed

lemma leftChild_less:
  assumes "leftChild y = Some x" "0 < nodeLevel y" "nodeLevel y \<le> 32"
  shows "x < y"
proof -
  obtain k where k: "y = node (nodeLevel y) k" by (rule node_exhaust)
  obtain j where j: "nodeLevel y = Suc j" using assms(2) by (cases "nodeLevel y") auto
  then have y: "y = node (Suc j) k" using k by simp
  then have "x = node j (2 * k)" using assms(1,3) j leftChild_node [of j k] by simp
  then show ?thesis using node_left [of j k] y by simp
qed

lemma climbs_skip:
  assumes n: "1 \<le> n" and l: "l < 31" and ne: "m * 2 ^ l < n"
    and out: "\<not> node (Suc l) (m div 2) < treeWidth n"
    and up: "climbs n (node (Suc l) (m div 2)) y" and y: "nodeLevel y \<le> 31"
  shows "climbs n (node l m) y"
proof -
  have "even m"
  proof (rule ccontr)
    assume "odd m"
    then have "2 * (m div 2) + 1 = m" by simp
    then show False using out ne node_in_width [OF n, of l "m div 2"] by simp
  qed
  then have "clampRightChild (node (Suc l) (m div 2)) (treeWidth n) =
      clampRightChild (node l m) (treeWidth n)"
    using out l by (subst clampRightChild.simps) (simp add: leftChild_node)
  moreover have "leftChild y \<noteq> Some (node (Suc l) (m div 2))"
  proof
    assume a: "leftChild y = Some (node (Suc l) (m div 2))"
    then have "node (Suc l) (m div 2) < y" using up y by (auto simp: climbs_def intro: leftChild_less)
    then show False using up out by (simp add: climbs_def)
  qed
  ultimately show ?thesis using up by (simp add: climbs_def)
qed


text \<open>The level of the root of an \<open>n\<close>-leaf tree.\<close>

definition rootLevel :: "nat \<Rightarrow> nat" where
  "rootLevel n = floorLog2 (treeWidth n)"

definition tree_size_ok :: "nat \<Rightarrow> bool" where
  "tree_size_ok n \<longleftrightarrow> 1 \<le> n \<and> n \<le> 2 ^ 30"

lemma tree_size_pos [simp]: "tree_size_ok n \<Longrightarrow> Suc 0 \<le> n"
  by (simp add: tree_size_ok_def)

lemma rootLevel_bounds:
  assumes "tree_size_ok n"
  shows "2 ^ rootLevel n \<le> treeWidth n" "treeWidth n < 2 ^ Suc (rootLevel n)" "n \<le> 2 ^ rootLevel n"
    "rootLevel n \<le> 30"
proof -
  have w: "1 \<le> treeWidth n" "treeWidth n < 2 ^ 31" "treeWidth n = 2 * n - 1" "1 \<le> n"
    using assms by (auto simp: treeWidth_def tree_size_ok_def)
  show b: "2 ^ rootLevel n \<le> treeWidth n" "treeWidth n < 2 ^ Suc (rootLevel n)"
    using floorLog2_bounds [OF w(1)] by (simp_all add: rootLevel_def)
  then show "n \<le> 2 ^ rootLevel n" using w(3,4) by simp
  have "(2 :: nat) ^ rootLevel n < 2 ^ 31" using b(1) w(2) by simp
  then have "rootLevel n < 31" by (rule power_less_imp_less_exp [rotated]) simp
  then show "rootLevel n \<le> 30" by simp
qed

lemma treeRoot_node: "tree_size_ok n \<Longrightarrow> treeRoot n = Some (node (rootLevel n) 0)"
  using rootLevel_bounds(4) [of n] by (simp add: treeRoot_def node_def flip: rootLevel_def)

lemma level_le_root:
  assumes "tree_size_ok n" "node l m < treeWidth n"
  shows "l \<le> rootLevel n" and "l = rootLevel n \<Longrightarrow> m = 0"
proof -
  have "2 ^ l * (2 * m + 1) < 2 ^ Suc (rootLevel n)"
    using assms(2) rootLevel_bounds(2) [OF assms(1)] unfolding node_less by linarith
  moreover have "(2 :: nat) ^ l \<le> 2 ^ l * (2 * m + 1)" by simp
  ultimately have lt: "2 ^ l * (2 * m + 1) < 2 ^ Suc (rootLevel n)" "(2 :: nat) ^ l < 2 ^ Suc (rootLevel n)"
    by linarith+
  then have "l < Suc (rootLevel n)" by (metis one_less_numeral_iff power_less_imp_less_exp semiring_norm(76))
  then show "l \<le> rootLevel n" by simp
  show "m = 0" if "l = rootLevel n" using lt(1) that by simp
qed

lemma parentInWidth_climbs:
  assumes n: "tree_size_ok n"
  shows "l < rootLevel n \<Longrightarrow> m * 2 ^ l < n \<Longrightarrow>
    \<exists>y. parentInWidth (node l m) (treeWidth n) R = Some y \<and> climbs n (node l m) y"
proof (induction "rootLevel n - l" arbitrary: l m rule: less_induct)
  case less
  have l: "l < 31" using less.prems(1) rootLevel_bounds(4) [OF n] by simp
  note step = parentStep_node [of l m]
  show ?case
  proof (cases "node (Suc l) (m div 2) < treeWidth n")
    case True
    then show ?thesis using climbs_direct [OF l True] l step
      by (subst parentInWidth.simps) simp
  next
    case False
    have ne: "m div 2 * 2 ^ Suc l < n"
    proof -
      have "m div 2 * 2 * 2 ^ l \<le> m * 2 ^ l" by (intro mult_le_mono1) simp
      moreover have "m div 2 * 2 ^ Suc l = m div 2 * 2 * 2 ^ l" by simp
      ultimately show ?thesis using less.prems(2) by linarith
    qed
    have "Suc l < rootLevel n"
    proof (rule ccontr)
      assume "\<not> Suc l < rootLevel n"
      then have "Suc l = rootLevel n" using less.prems(1) by simp
      then have "m div 2 = 0" using ne rootLevel_bounds(3) [OF n] by (metis less_le_trans mult_less_cancel2 nat_mult_1 less_one)
      then show False using False \<open>Suc l = rootLevel n\<close> rootLevel_bounds(1) [OF n] by (simp add: node_less)
    qed
    moreover have "rootLevel n - Suc l < rootLevel n - l" using less.prems(1) by simp
    ultimately obtain y where y: "parentInWidth (node (Suc l) (m div 2)) (treeWidth n) R = Some y"
      "climbs n (node (Suc l) (m div 2)) y"
      using less.hyps [OF _ _ ne] by blast
    have "y < treeWidth n" using y(2) by (simp add: climbs_def)
    moreover obtain k where "y = node (nodeLevel y) k" by (rule node_exhaust)
    ultimately have "nodeLevel y \<le> rootLevel n" using level_le_root(1) [OF n, of "nodeLevel y" k] by simp
    then have "nodeLevel y \<le> 31" using rootLevel_bounds(4) [OF n] by simp
    then have "climbs n (node l m) y" using climbs_skip [OF _ l less.prems(2) False y(2)] n by simp
    then show ?thesis using y(1) False l step by (subst parentInWidth.simps) auto
  qed
qed


subsection \<open>Parents, children and siblings\<close>

lemma covered_div: "covered (node l m) n = {p. p < n \<and> p div 2 ^ l = m}"
proof -
  have "m * 2 ^ l \<le> p \<and> p < Suc m * 2 ^ l \<longleftrightarrow> p div 2 ^ l = m" for p
  proof
    assume "m * 2 ^ l \<le> p \<and> p < Suc m * 2 ^ l"
    then show "p div 2 ^ l = m" by (intro div_nat_eqI) (simp_all only: mult.commute)
  next
    assume m: "p div 2 ^ l = m"
    have "p div 2 ^ l * 2 ^ l \<le> p" "p < 2 ^ l + p div 2 ^ l * 2 ^ l"
      by (simp_all add: dividend_less_div_times)
    then show "m * 2 ^ l \<le> p \<and> p < Suc m * 2 ^ l" unfolding m by simp
  qed
  then show ?thesis unfolding covered_node by blast
qed

lemma covered_laminar:
  assumes "l \<le> l'" "covered (node l m) n \<inter> covered (node l' m') n \<noteq> {}"
  shows "covered (node l m) n \<subseteq> covered (node l' m') n"
proof -
  have "q div 2 ^ l' = q div 2 ^ l div 2 ^ (l' - l)" for q :: nat
    using assms(1) by (simp add: div_mult2_eq [symmetric] power_add [symmetric])
  then show ?thesis using assms(2) by (auto simp: covered_div)
qed

lemma covered_bound: "covered x n \<subseteq> {..<n}"
  by (auto simp: covered_def)

lemma covered_same_level:
  assumes "covered (node l k) n = covered (node l m) n" "covered (node l m) n \<noteq> {}"
  shows "k = m"
proof -
  obtain p where "p \<in> covered (node l m) n" using assms(2) by blast
  moreover from this have "p \<in> covered (node l k) n" using assms(1) by blast
  ultimately show ?thesis unfolding covered_div by blast
qed

lemma covered_strict:
  assumes n: "tree_size_ok n" and x: "x < treeWidth n" and y: "y < treeWidth n"
    and lt: "nodeLevel x < nodeLevel y"
  shows "covered x n \<noteq> covered y n"
proof
  assume eq: "covered x n = covered y n"
  obtain m where m: "x = node (nodeLevel x) m" by (rule node_exhaust)
  obtain k where k: "y = node (nodeLevel y) k" by (rule node_exhaust)
  obtain j where j: "nodeLevel y = Suc j" using lt by (cases "nodeLevel y") auto
  let ?L = "covered (node j (2 * k)) n" and ?R = "covered (node j (2 * k + 1)) n"
  have yn: "y = node (Suc j) k" using k j by simp
  have R: "?R \<noteq> {}" using y yn n in_width_covered [of n j k] by simp
  then have L: "?L \<noteq> {}" unfolding covered_nonempty by (simp add: algebra_simps)
  have sub: "covered x n \<subseteq> C" if "covered x n \<inter> C \<noteq> {}" "C = ?L \<or> C = ?R" for C
    using that lt j covered_laminar [of "nodeLevel x" j m n] m by (metis less_Suc_eq_le)
  have "covered x n = ?L \<union> ?R" using eq yn covered_split(1) by simp
  then show False using sub [of ?L] sub [of ?R] L R covered_split(2) [of j k n] by auto
qed

lemma clamp_inside [simp]: "x < w \<Longrightarrow> clampRightChild x w = Some x"
  by (subst clampRightChild.simps) simp

lemma treeRoot_in: "tree_size_ok n \<Longrightarrow> node (rootLevel n) 0 < treeWidth n"
  using rootLevel_bounds(1) [of n] by (simp add: node_less)

lemma level_below_root:
  assumes "tree_size_ok n" "x < treeWidth n" "treeRoot n \<noteq> Some x"
  shows "nodeLevel x < rootLevel n"
proof -
  obtain m where m: "x = node (nodeLevel x) m" by (rule node_exhaust)
  then have "nodeLevel x \<le> rootLevel n" "nodeLevel x = rootLevel n \<Longrightarrow> m = 0"
    using level_le_root [OF assms(1), of "nodeLevel x" m] assms(2) by auto
  then show ?thesis using assms(3) m by (auto simp: treeRoot_node [OF assms(1)] le_less)
qed

lemma treeParent_climbs:
  assumes "tree_size_ok n" "x < treeWidth n" "treeRoot n \<noteq> Some x"
  obtains y where "treeParent x n = Some y" "climbs n x y"
proof -
  obtain m where m: "x = node (nodeLevel x) m" by (rule node_exhaust)
  have "m * 2 ^ nodeLevel x < n"
    using width_nonempty [OF _ assms(2)] assms(1) m by (metis covered_nonempty One_nat_def tree_size_pos)
  then have "\<exists>y. treeParent x n = Some y \<and> climbs n x y"
    using parentInWidth_climbs [OF assms(1) level_below_root [OF assms], of m] m
    by (simp add: treeParent_def)
  then show ?thesis using that by blast
qed

text \<open>Both children of an internal node: where they are and what they cover.\<close>

lemma children:
  assumes n: "tree_size_ok n" and y: "y < treeWidth n" "0 < nodeLevel y"
  obtains l r where "leftChild y = Some l" "treeRight y n = Some r"
    "l < treeWidth n" "r < treeWidth n" "nodeLevel l < nodeLevel y" "nodeLevel r < nodeLevel y"
    "covered y n = covered l n \<union> covered r n" "covered l n \<inter> covered r n = {}"
    "Suc (nodeLevel l) = nodeLevel y"
    "\<exists>c. rightChild y = Some c \<and> Suc (nodeLevel c) = nodeLevel y \<and> covered r n = covered c n"
proof -
  obtain k where k: "y = node (nodeLevel y) k" by (rule node_exhaust)
  obtain j where j: "nodeLevel y = Suc j" using y(2) by (cases "nodeLevel y") auto
  have yn: "y = node (Suc j) k" using k j by simp
  have j31: "j < 31" using level_le_root(1) [OF n, of "Suc j" k] y(1) yn rootLevel_bounds(4) [OF n] by simp
  have "(2 * k + 1) * 2 ^ j < n" using y(1) yn n node_in_width [of n j k] by simp
  then obtain l' m' where r: "clampRightChild (node j (2 * k + 1)) (treeWidth n) = Some (node l' m')"
    "l' \<le> j" "node l' m' < treeWidth n" "covered (node l' m') n = covered (node j (2 * k + 1)) n"
    using clampRightChild_node [of n j "2 * k + 1"] n j31 by auto
  have right: "rightChild y = Some (node j (2 * k + 1))" using yn j31 rightChild_node [of j k] by simp
  show ?thesis
  proof (rule that [of "node j (2 * k)" "node l' m'"])
    show "leftChild y = Some (node j (2 * k))" using yn j31 leftChild_node [of j k] by simp
    show "treeRight y n = Some (node l' m')" using right r(1) by (simp add: treeRight_def)
    show "node j (2 * k) < treeWidth n" using node_left [of j k] y(1) yn by simp
    show "covered y n = covered (node j (2 * k)) n \<union> covered (node l' m') n"
      "covered (node j (2 * k)) n \<inter> covered (node l' m') n = {}"
      using r(4) covered_split [of j k n] yn by simp_all
  qed (use r j right in auto)
qed

lemma climbs_child:
  assumes n: "tree_size_ok n" and x: "x < treeWidth n" and up: "climbs n x y"
  shows "leftChild y = Some x \<or> treeRight y n = Some x"
proof -
  have y: "y < treeWidth n" "0 < nodeLevel y" using up by (auto simp: climbs_def)
  obtain r where "rightChild y = Some r" using children [OF n y] by metis
  then show ?thesis using up x by (auto simp: climbs_def treeRight_def)
qed


lemma treeSibling_spec:
  assumes n: "tree_size_ok n" and x: "x < treeWidth n" and r: "treeRoot n \<noteq> Some x"
  obtains y s where "treeParent x n = Some y" "climbs n x y" "treeSibling x n = Some s"
    "s < treeWidth n" "covered y n = covered x n \<union> covered s n" "covered x n \<inter> covered s n = {}"
proof -
  obtain y where y: "treeParent x n = Some y" "climbs n x y" using treeParent_climbs [OF assms] .
  then have yw: "y < treeWidth n" "0 < nodeLevel y" by (auto simp: climbs_def)
  obtain a b where ab: "leftChild y = Some a" "treeRight y n = Some b" "a < treeWidth n" "b < treeWidth n"
    "covered y n = covered a n \<union> covered b n" "covered a n \<inter> covered b n = {}"
    using children [OF n yw] by metis
  have "x = a \<or> x = b" using climbs_child [OF n x y(2)] ab by auto
  then show ?thesis
  proof
    assume "x = a"
    then show ?thesis using that [of y b] y ab by (simp add: treeSibling_def)
  next
    assume b: "x = b"
    then have "a \<noteq> x" using ab(5,6) width_nonempty [OF _ x] n by auto
    then show ?thesis using that [of y a] y ab b by (auto simp: treeSibling_def)
  qed
qed

lemma climbs_covered:
  assumes "tree_size_ok n" "x < treeWidth n" "climbs n x y"
  shows "covered x n \<subseteq> covered y n"
proof -
  have "y < treeWidth n" "0 < nodeLevel y" using assms(3) by (auto simp: climbs_def)
  from children [OF assms(1) this] obtain l r where "leftChild y = Some l" "treeRight y n = Some r"
    "covered y n = covered l n \<union> covered r n" by metis
  then show ?thesis using climbs_child [OF assms] by auto
qed

text \<open>No node of the tree lies strictly between a node and its parent.\<close>

lemma climbs_next:
  assumes n: "tree_size_ok n" and x: "x < treeWidth n" and up: "climbs n x p"
    and z: "z < treeWidth n" "z \<noteq> x" "covered x n \<subseteq> covered z n"
  shows "covered p n \<subseteq> covered z n"
proof -
  have p: "p < treeWidth n" "0 < nodeLevel p" using up by (auto simp: climbs_def)
  have ne: "covered x n \<noteq> {}" using width_nonempty [OF _ x] n by simp
  obtain m where m: "x = node (nodeLevel x) m" by (rule node_exhaust)
  obtain k where k: "z = node (nodeLevel z) k" by (rule node_exhaust)
  obtain j where j: "p = node (nodeLevel p) j" by (rule node_exhaust)
  have lt: "nodeLevel x < nodeLevel z"
  proof (rule ccontr)
    assume ge: "\<not> nodeLevel x < nodeLevel z"
    then have "covered z n \<subseteq> covered x n"
    proof -
      have "covered (node (nodeLevel z) k) n \<inter> covered (node (nodeLevel x) m) n \<noteq> {}"
        using z(3) ne unfolding m [symmetric] k [symmetric] by auto
      from covered_laminar [OF _ this] ge show ?thesis unfolding m [symmetric] k [symmetric] by simp
    qed
    then have eq: "covered z n = covered x n" using z(3) by auto
    show False
    proof (cases "nodeLevel z = nodeLevel x")
      case True
      then have "covered (node (nodeLevel x) k) n = covered (node (nodeLevel x) m) n"
        using eq m k by metis
      then have "k = m" using ne m covered_same_level by metis
      then show False using True z(2) m k by metis
    next
      case False
      then show False using covered_strict [OF n z(1) x] eq ge by simp
    qed
  qed
  have meets: "covered p n \<inter> covered z n \<noteq> {}"
    using climbs_covered [OF n x up] z(3) ne by auto
  show ?thesis
  proof (cases "nodeLevel p \<le> nodeLevel z")
    case True
    then show ?thesis using covered_laminar [OF True, of j n k] meets j k by simp
  next
    case False
    obtain a b where ab: "leftChild p = Some a" "treeRight p n = Some b"
      "Suc (nodeLevel a) = nodeLevel p"
      "\<exists>c. rightChild p = Some c \<and> Suc (nodeLevel c) = nodeLevel p \<and> covered b n = covered c n"
      using children [OF n p] by metis
    then obtain c where c: "Suc (nodeLevel c) = nodeLevel p" "covered b n = covered c n" by blast
    have "x = b" using climbs_child [OF n x up] ab(1-3) lt False by auto
    then have "covered c n \<inter> covered z n \<noteq> {}" using c(2) z(3) ne by auto
    moreover obtain i where "c = node (nodeLevel c) i" by (rule node_exhaust)
    moreover have "nodeLevel z \<le> nodeLevel c" using c(1) False by simp
    ultimately have "covered z n \<subseteq> covered c n"
      using covered_laminar [of "nodeLevel z" "nodeLevel c" k n i] k by (simp add: Int_commute)
    then have "covered x n = covered z n" using z(3) c(2) \<open>x = b\<close> by auto
    then show ?thesis using covered_strict [OF n x z(1) lt] by simp
  qed
qed


lemma climbs_up: "climbs n x y \<Longrightarrow> y < treeWidth n \<and> nodeLevel x < nodeLevel y"
  by (simp add: climbs_def)

lemma root_covers: "tree_size_ok n \<Longrightarrow> covered (node (rootLevel n) 0) n = {..<n}"
  using rootLevel_bounds(3) [of n] by (auto simp: covered_node)

lemma root_only:
  assumes "tree_size_ok n" "z < treeWidth n" "covered (node (rootLevel n) 0) n \<subseteq> covered z n"
  shows "z = node (rootLevel n) 0"
proof (rule ccontr)
  assume "z \<noteq> node (rootLevel n) 0"
  then have "nodeLevel z < rootLevel n"
    using level_below_root [OF assms(1,2)] treeRoot_node [OF assms(1)] by auto
  then have "covered z n \<noteq> covered (node (rootLevel n) 0) n"
    using covered_strict [OF assms(1,2) treeRoot_in [OF assms(1)]] by simp
  then show False using assms(3) covered_bound [of z n] by (auto simp: root_covers [OF assms(1)])
qed

text \<open>The direct path: it ends, within the height of the tree, and holds the ancestors.\<close>

lemma treeDirectPath_ancestors:
  assumes n: "tree_size_ok n"
  shows "x < treeWidth n \<Longrightarrow> \<exists>ps. treeDirectPath x n = Some ps \<and>
    set ps = {y. y < treeWidth n \<and> y \<noteq> x \<and> covered x n \<subseteq> covered y n} \<and>
    sorted_wrt (\<lambda>a b. nodeLevel a < nodeLevel b) (x # ps) \<and>
    length ps \<le> rootLevel n - nodeLevel x \<and> last (x # ps) = node (rootLevel n) 0"
proof (induction "rootLevel n - nodeLevel x" arbitrary: x rule: less_induct)
  case less
  show ?case
  proof (cases "treeRoot n = Some x")
    case True
    then have "x = node (rootLevel n) 0" using treeRoot_node [OF n] by simp
    moreover from this have "treeDirectPath x n = Some []"
      using True by (subst treeDirectPath.simps) simp
    ultimately show ?thesis using root_only [OF n] by auto
  next
    case False
    obtain y where y: "treeParent x n = Some y" "climbs n x y"
      using treeParent_climbs [OF n less.prems False] .
    have lev: "nodeLevel x < rootLevel n" using level_below_root [OF n less.prems False] .
    have up: "y < treeWidth n" "nodeLevel x < nodeLevel y" using climbs_up [OF y(2)] by auto
    obtain ps where ps: "treeDirectPath y n = Some ps"
      "set ps = {z. z < treeWidth n \<and> z \<noteq> y \<and> covered y n \<subseteq> covered z n}"
      "sorted_wrt (\<lambda>a b. nodeLevel a < nodeLevel b) (y # ps)"
      "length ps \<le> rootLevel n - nodeLevel y" "last (y # ps) = node (rootLevel n) 0"
      using less.hyps [OF _ up(1)] lev up(2) by (meson diff_less_mono2)
    have path: "treeDirectPath x n = Some (y # ps)"
      using False y(1) ps(1) treeRoot_node [OF n] by (subst treeDirectPath.simps) auto
    have "set (y # ps) = {z. z < treeWidth n \<and> z \<noteq> x \<and> covered x n \<subseteq> covered z n}"
      using ps(2) up climbs_covered [OF n less.prems y(2)] climbs_next [OF n less.prems y(2)] ps(3)
      by auto
    moreover have "length (y # ps) \<le> rootLevel n - nodeLevel x" using ps(4) lev up(2)
      by (cases "nodeLevel y < rootLevel n") auto
    ultimately show ?thesis using path ps(3,5) up(2) by (auto intro: less_trans)
  qed
qed


lemma treeCopath_partition_aux:
  assumes n: "tree_size_ok n"
  shows "x < treeWidth n \<Longrightarrow> \<exists>cs. treeCopath x n = Some cs \<and>
    (\<Union>c \<in> set cs. covered c n) = {..<n} - covered x n \<and>
    sorted_wrt (\<lambda>a b. covered a n \<inter> covered b n = {}) cs \<and>
    (\<forall>c \<in> set cs. c < treeWidth n) \<and> length cs \<le> rootLevel n - nodeLevel x"
proof (induction "rootLevel n - nodeLevel x" arbitrary: x rule: less_induct)
  case less
  show ?case
  proof (cases "treeRoot n = Some x")
    case True
    then have "x = node (rootLevel n) 0" using treeRoot_node [OF n] by simp
    moreover from this have "treeCopath x n = Some []"
      using True by (subst treeCopath.simps) simp
    ultimately show ?thesis using root_covers [OF n] by auto
  next
    case False
    obtain y s where y: "treeParent x n = Some y" "climbs n x y" "treeSibling x n = Some s"
      "s < treeWidth n" "covered y n = covered x n \<union> covered s n" "covered x n \<inter> covered s n = {}"
      using treeSibling_spec [OF n less.prems False] .
    have lev: "nodeLevel x < rootLevel n" using level_below_root [OF n less.prems False] .
    have up: "y < treeWidth n" "nodeLevel x < nodeLevel y" using climbs_up [OF y(2)] by auto
    obtain cs where cs: "treeCopath y n = Some cs"
      "(\<Union>c \<in> set cs. covered c n) = {..<n} - covered y n"
      "sorted_wrt (\<lambda>a b. covered a n \<inter> covered b n = {}) cs"
      "\<forall>c \<in> set cs. c < treeWidth n" "length cs \<le> rootLevel n - nodeLevel y"
      using less.hyps [OF _ up(1)] lev up(2) by (meson diff_less_mono2)
    have path: "treeCopath x n = Some (s # cs)"
      using False y(1,3) cs(1) treeRoot_node [OF n] by (subst treeCopath.simps) auto
    have "(\<Union>c \<in> set (s # cs). covered c n) = {..<n} - covered x n"
      using cs(2) y(5,6) covered_bound [of s n] by auto
    moreover have "\<forall>c \<in> set cs. covered s n \<inter> covered c n = {}" using cs(2) y(5) by blast
    moreover have "length (s # cs) \<le> rootLevel n - nodeLevel x" using cs(5) lev up(2)
      by (cases "nodeLevel y < rootLevel n") auto
    ultimately show ?thesis using path cs(3,4) y(4) by auto
  qed
qed

section \<open>Properties\<close>

text \<open>
  C33: The copath of a node reaches everyone else, once. For every node of a tree
  of up to \<open>2^30\<close> leaves the copath is computed, has at most 30 nodes of the
  tree, and the leaves below its nodes are pairwise disjoint and together are
  exactly the leaves that are not below the node itself: encrypting to the copath
  addresses every other member exactly once.
\<close>

theorem treeCopath_partition:
  assumes "1 \<le> n" "n \<le> 2 ^ 30" "x < treeWidth n"
  shows "\<exists>cs. treeCopath x n = Some cs \<and> length cs \<le> 30 \<and> (\<forall>c \<in> set cs. c < treeWidth n) \<and>
    (\<Union>c \<in> set cs. covered c n) = {..<n} - covered x n \<and>
    sorted_wrt (\<lambda>a b. covered a n \<inter> covered b n = {}) cs"
proof -
  have n: "tree_size_ok n" using assms by (simp add: tree_size_ok_def)
  have "rootLevel n - nodeLevel x \<le> 30" using rootLevel_bounds(4) [OF n] by simp
  then show ?thesis using treeCopath_partition_aux [OF n assms(3)] by (meson le_trans)
qed

theorem treeCopath_partition_witness:
  "\<exists>cs. treeCopath 4 5 = Some cs \<and> (\<Union>c \<in> set cs. covered c 5) = {..<5} - covered 4 5"
  using treeCopath_partition [of 5 4] by (auto simp: treeWidth_def)

text \<open>
  C34: The direct path of a node is the list of its ancestors, from its parent to
  the root: it is computed, its levels increase strictly, it holds exactly the
  nodes of the tree with every leaf of the node below them, and it ends with
  the root.
\<close>

theorem treeDirectPath_exact:
  assumes "1 \<le> n" "n \<le> 2 ^ 30" "x < treeWidth n"
  shows "\<exists>ps r. treeDirectPath x n = Some ps \<and> treeRoot n = Some r \<and> last (x # ps) = r \<and>
    length ps \<le> 30 \<and> sorted_wrt (\<lambda>a b. nodeLevel a < nodeLevel b) (x # ps) \<and>
    set ps = {y. y < treeWidth n \<and> y \<noteq> x \<and> covered x n \<subseteq> covered y n}"
proof -
  have n: "tree_size_ok n" using assms by (simp add: tree_size_ok_def)
  have "rootLevel n - nodeLevel x \<le> 30" using rootLevel_bounds(4) [OF n] by simp
  moreover obtain ps where ps: "treeDirectPath x n = Some ps"
    "set ps = {y. y < treeWidth n \<and> y \<noteq> x \<and> covered x n \<subseteq> covered y n}"
    "sorted_wrt (\<lambda>a b. nodeLevel a < nodeLevel b) (x # ps)"
    "length ps \<le> rootLevel n - nodeLevel x" "last (x # ps) = node (rootLevel n) 0"
    using treeDirectPath_ancestors [OF n assms(3)] by blast
  ultimately show ?thesis using treeRoot_node [OF n]
    by (intro exI [of _ ps] exI [of _ "node (rootLevel n) 0"] conjI) (assumption | linarith)+
qed

theorem treeDirectPath_exact_witness:
  "\<exists>ps. treeDirectPath 4 5 = Some ps \<and> set ps = {y. y < 9 \<and> y \<noteq> 4 \<and> covered 4 5 \<subseteq> covered y 5}"
  using treeDirectPath_exact [of 5 4] by (auto simp: treeWidth_def)

text \<open>
  Parent and children are inverse. The parent of a node other than the root
  exists in the tree, and the node is its left child or its (clamped) right
  child; the sibling is the other one, and taking siblings twice gives the node
  back.
\<close>

theorem treeParent_child:
  assumes "1 \<le> n" "n \<le> 2 ^ 30" "x < treeWidth n" "treeRoot n \<noteq> Some x"
  shows "\<exists>y s. treeParent x n = Some y \<and> y < treeWidth n \<and> treeSibling x n = Some s \<and> s < treeWidth n \<and>
    (leftChild y = Some x \<and> treeRight y n = Some s \<or> treeRight y n = Some x \<and> leftChild y = Some s)"
proof -
  have n: "tree_size_ok n" using assms by (simp add: tree_size_ok_def)
  obtain y s where y: "treeParent x n = Some y" "climbs n x y" "treeSibling x n = Some s"
    "s < treeWidth n" using treeSibling_spec [OF n assms(3,4)] by metis
  have yw: "y < treeWidth n" "0 < nodeLevel y" using y(2) by (auto simp: climbs_def)
  obtain a b where ab: "leftChild y = Some a" "treeRight y n = Some b" using children [OF n yw] by metis
  have "x = a \<or> x = b" using climbs_child [OF n assms(3) y(2)] ab by auto
  moreover have "s = (if a = x then b else a)" using y(1,3) ab by (auto simp: treeSibling_def split: if_splits)
  ultimately show ?thesis using y(1,3,4) yw(1) ab by (auto split: if_splits)
qed

theorem treeParent_child_witness:
  "\<exists>y s. treeParent 8 5 = Some y \<and> treeSibling 8 5 = Some s \<and>
     (leftChild y = Some 8 \<and> treeRight y 5 = Some s \<or> treeRight y 5 = Some 8 \<and> leftChild y = Some s)"
proof -
  have w: "8 < treeWidth 5" by (simp add: treeWidth_def)
  have r: "treeRoot 5 \<noteq> Some 8"
    by (simp add: treeRoot_def treeWidth_def floorLog2.simps powerOfTwo_def POWERS_OF_TWO_def)
  have "1 \<le> (5 :: nat)" "(5 :: nat) \<le> 2 ^ 30" by simp_all
  from treeParent_child [OF this w r] show ?thesis by blast
qed

lemma kernel_defined [simp]: "kernel r \<noteq> Inl KernelUndefined \<longleftrightarrow> r \<noteq> None"
  by (auto simp: kernel_def split: option.splits)

lemma supported_level:
  assumes "assertSupportedNodeIndex v = Inr i"
  shows "nodeLevel i < 31"
proof -
  have "i < 2 ^ 31 - 1"
    using assms by (auto simp: assertSupportedNodeIndex_def MAX_TREE_NODE_INDEX_def MAX_TREE_MATH_LEAVES_def
        split: sum.splits if_splits)
  moreover obtain m where "i = node (nodeLevel i) m" by (rule node_exhaust)
  ultimately have "2 ^ nodeLevel i * (2 * m + 1) < (2 :: nat) ^ 31" using Suc_node [of "nodeLevel i" m] by simp
  moreover have "(2 :: nat) ^ nodeLevel i \<le> 2 ^ nodeLevel i * (2 * m + 1)" by simp
  ultimately have "(2 :: nat) ^ nodeLevel i < 2 ^ 31" by (rule order.strict_trans1 [rotated])
  then show ?thesis by (rule power_less_imp_less_exp [rotated]) simp
qed

lemma internal_children:
  assumes "nodeLevel i < 31" "0 < nodeLevel i"
  shows "leftChild i \<noteq> None" "rightChild i \<noteq> None"
proof -
  obtain m where "i = node (nodeLevel i) m" by (rule node_exhaust)
  moreover obtain l where "nodeLevel i = Suc l" using assms(2) by (cases "nodeLevel i") auto
  ultimately have "i = node (Suc l) m" "l < 32" using assms(1) by auto
  then show "leftChild i \<noteq> None" "rightChild i \<noteq> None"
    using leftChild_node [of l m] rightChild_node [of l m] by auto
qed

lemma leafCount_ok: "assertLeafCount v = Inr n \<Longrightarrow> tree_size_ok n"
  by (auto simp: assertLeafCount_def tree_size_ok_def MAX_TREE_MATH_LEAVES_def split: option.splits if_splits)

lemma assertTreeNode_ok: "assertTreeNode v m = Inr (i, n) \<Longrightarrow> tree_size_ok n \<and> i < treeWidth n"
  by (auto simp: assertTreeNode_def split: sum.splits if_splits dest: leafCount_ok)

lemma assertTreeLeaf_ok: "assertTreeLeaf v m = Inr (i, n) \<Longrightarrow> tree_size_ok n \<and> i < treeWidth n"
  by (auto simp: assertTreeLeaf_def split: sum.splits if_splits dest: leafCount_ok)

lemma treeRoot_1: "treeRoot (Suc 0) = Some 0"
  by (simp add: treeRoot_def treeWidth_def floorLog2.simps powerOfTwo_def POWERS_OF_TWO_def)

lemma root_ok:
  assumes "assertLeafCount v = Inr n" "root v = Inr r"
  shows "treeRoot n = Some r"
proof (cases "n = 1")
  case True
  then show ?thesis using assms treeRoot_1 by (simp add: root_def split: if_splits)
next
  case False
  then show ?thesis using assms by (simp add: root_def kernel_def split: if_splits option.splits)
qed

lemma assertNonRoot_ok:
  assumes "assertNonRootNode v m = Inr (i, n)"
  shows "tree_size_ok n \<and> i < treeWidth n \<and> treeRoot n \<noteq> Some i"
proof -
  have t: "assertTreeNode v m = Inr (i, n)" and r: "root m \<noteq> Inr i" "\<exists>r. root m = Inr r"
    using assms by (auto simp: assertNonRootNode_def split: sum.splits if_splits)
  have "assertLeafCount m = Inr n" using t by (auto simp: assertTreeNode_def split: sum.splits if_splits)
  then have "treeRoot n \<noteq> Some i" using r root_ok by fastforce
  then show ?thesis using assertTreeNode_ok [OF t] by simp
qed

lemma guards_not_kernel:
  "assertLeafCount m \<noteq> Inl KernelUndefined" "assertSupportedNodeIndex v \<noteq> Inl KernelUndefined"
  by (simp_all add: assertLeafCount_def assertSupportedNodeIndex_def assertNonNegativeSafeInt_def
      split: option.splits)

lemma root_not_kernel: "root m \<noteq> Inl KernelUndefined"
  using guards_not_kernel(1) [of m] treeRoot_node leafCount_ok [of m]
  by (auto simp: root_def kernel_def split: sum.split)

lemma assertNonRoot_not_kernel:
  "assertNonRootNode v m \<noteq> Inl KernelUndefined" "assertTreeNode v m \<noteq> Inl KernelUndefined"
  "assertTreeLeaf v m \<noteq> Inl KernelUndefined"
  using guards_not_kernel(1) [of m] guards_not_kernel(2) [of v] root_not_kernel [of m]
  by (auto simp: assertNonRootNode_def assertTreeNode_def assertTreeLeaf_def split: sum.split)

lemma kernel_results:
  assumes "tree_size_ok n" "i < treeWidth n"
  shows "treeDirectPath i n \<noteq> None" "treeCopath i n \<noteq> None"
    "treeRoot n \<noteq> Some i \<Longrightarrow> treeParent i n \<noteq> None"
    "treeRoot n \<noteq> Some i \<Longrightarrow> treeSibling i n \<noteq> None"
    "0 < nodeLevel i \<Longrightarrow> treeRight i n \<noteq> None"
proof -
  show "treeDirectPath i n \<noteq> None" using treeDirectPath_ancestors [OF assms] by auto
  show "treeCopath i n \<noteq> None" using treeCopath_partition_aux [OF assms] by auto
  show "treeParent i n \<noteq> None" if "treeRoot n \<noteq> Some i"
    by (rule treeParent_climbs [OF assms that]) simp
  show "treeSibling i n \<noteq> None" if "treeRoot n \<noteq> Some i"
    by (rule treeSibling_spec [OF assms that]) simp
  show "treeRight i n \<noteq> None" if "0 < nodeLevel i" by (rule children [OF assms that]) simp
qed

text \<open>
  C35: The guarded interface never lets a table miss through. For any two numbers,
  in range or not, integers or not, every operation of \<open>tree-math.ts\<close> either
  reports one of its own argument errors or returns a node index (or a path of
  them); none ever yields \<open>undefined\<close> or runs on without an answer.
\<close>

theorem tree_math_total:
  "left v \<noteq> Inl KernelUndefined \<and> right v m \<noteq> Inl KernelUndefined \<and> root n \<noteq> Inl KernelUndefined \<and>
   parent v n \<noteq> Inl KernelUndefined \<and> sibling v n \<noteq> Inl KernelUndefined \<and>
   directPath v n \<noteq> Inl KernelUndefined \<and> copath v n \<noteq> Inl KernelUndefined"
proof (intro conjI)
  show "left v \<noteq> Inl KernelUndefined"
    using guards_not_kernel(2) [of v] internal_children(1) supported_level [of v]
    by (auto simp: left_def simp del: not_None_eq split: sum.split)
  show "right v m \<noteq> Inl KernelUndefined"
  proof (cases "assertSupportedNodeIndex v")
    case (Inr i)
    show ?thesis
    proof (cases m)
      case None
      then show ?thesis using Inr internal_children(2) [OF supported_level [OF Inr]]
        by (simp add: right_def del: not_None_eq)
    next
      case (Some k)
      have "assertTreeNode v k = Inr (j, l) \<Longrightarrow> j = i" for j l
        using Inr by (auto simp: assertTreeNode_def split: sum.splits if_splits)
      then show ?thesis
        using Some Inr assertNonRoot_not_kernel(2) [of v k] assertTreeNode_ok [of v k] kernel_results(5)
        by (auto simp: right_def simp del: not_None_eq split: sum.split)
    qed
  qed (use guards_not_kernel(2) [of v] in \<open>simp add: right_def\<close>)
  show "parent v n \<noteq> Inl KernelUndefined" "sibling v n \<noteq> Inl KernelUndefined"
    using assertNonRoot_not_kernel(1) [of v n] assertNonRoot_ok [of v n] kernel_results(3,4)
    by (auto simp: parent_def sibling_def simp del: not_None_eq split: sum.split)
  show "directPath v n \<noteq> Inl KernelUndefined" "copath v n \<noteq> Inl KernelUndefined"
    using assertNonRoot_not_kernel(3) [of v n] assertTreeLeaf_ok [of v n] kernel_results(1,2)
    by (auto simp: directPath_def copath_def simp del: not_None_eq split: sum.split)
qed (rule root_not_kernel)

end
