(* ===== verification/Text_Encoding.thy ===== *)
theory Text_Encoding
  imports Js_Prelude
begin

text \<open>
  \<open>packages/core/src/internal/canonical-encoding.ts\<close> and the text codecs of the
  platform it relies on. \<open>TextEncoder\<close> turns UTF-16 into UTF-8 and replaces an
  unpaired surrogate by U+FFFD; \<open>TextDecoder\<close> in its fatal mode accepts exactly
  the well-formed UTF-8 sequences (shortest form, no surrogates, at most
  U+10FFFF). Code points are \<open>nat\<close>.
\<close>


section \<open>Definitions\<close>

subsection \<open>The platform\<close>

definition isHighSurrogate :: "16 word \<Rightarrow> bool" where
  "isHighSurrogate code \<longleftrightarrow> 55296 \<le> unat code \<and> unat code \<le> 56319"

definition isLowSurrogate :: "16 word \<Rightarrow> bool" where
  "isLowSurrogate code \<longleftrightarrow> 56320 \<le> unat code \<and> unat code \<le> 57343"

fun codePoints :: "js_string \<Rightarrow> nat list" where
  "codePoints [] = []"
| "codePoints [c] = [if isHighSurrogate c \<or> isLowSurrogate c then 65533 else unat c]"
| "codePoints (c # d # s) =
     (if isHighSurrogate c then
        (if isLowSurrogate d
         then (65536 + (unat c - 55296) * 1024 + (unat d - 56320)) # codePoints s
         else 65533 # codePoints (d # s))
      else (if isLowSurrogate c then 65533 else unat c) # codePoints (d # s))"

definition unitsOf :: "nat \<Rightarrow> js_string" where
  "unitsOf p =
     (if p < 65536 then [of_nat p]
      else [of_nat (55296 + (p - 65536) div 1024), of_nat (56320 + (p - 65536) mod 1024)])"

definition utf8Point :: "nat \<Rightarrow> bytes" where
  "utf8Point p =
     (if p < 128 then [of_nat p]
      else if p < 2048 then [of_nat (192 + p div 64), of_nat (128 + p mod 64)]
      else if p < 65536 then
        [of_nat (224 + p div 4096), of_nat (128 + p div 64 mod 64), of_nat (128 + p mod 64)]
      else
        [of_nat (240 + p div 262144), of_nat (128 + p div 4096 mod 64),
         of_nat (128 + p div 64 mod 64), of_nat (128 + p mod 64)])"

definition isContinuation :: "byte \<Rightarrow> bool" where
  "isContinuation b \<longleftrightarrow> 128 \<le> unat b \<and> unat b < 192"

definition scalarValue :: "nat \<Rightarrow> bool" where
  "scalarValue p \<longleftrightarrow> p < 55296 \<or> (57344 \<le> p \<and> p < 1114112)"

text \<open>One code point off the front, or \<open>None\<close> where the decoder throws.\<close>

fun takePoint :: "bytes \<Rightarrow> (nat \<times> bytes) option" where
  "takePoint [] = None"
| "takePoint (a # rest) =
     (if unat a < 128 then Some (unat a, rest)
      else if unat a < 192 then None
      else if unat a < 224 then
        (case rest of
           b # s \<Rightarrow>
             (let p = (unat a - 192) * 64 + (unat b - 128)
              in if isContinuation b \<and> 128 \<le> p then Some (p, s) else None)
         | _ \<Rightarrow> None)
      else if unat a < 240 then
        (case rest of
           b # c # s \<Rightarrow>
             (let p = (unat a - 224) * 4096 + (unat b - 128) * 64 + (unat c - 128)
              in if isContinuation b \<and> isContinuation c \<and> 2048 \<le> p \<and> scalarValue p then Some (p, s) else None)
         | _ \<Rightarrow> None)
      else
        (case rest of
           b # c # d # s \<Rightarrow>
             (let p = (unat a - 240) * 262144 + (unat b - 128) * 4096 + (unat c - 128) * 64 + (unat d - 128)
              in if isContinuation b \<and> isContinuation c \<and> isContinuation d \<and> 65536 \<le> p \<and> p < 1114112
                 then Some (p, s) else None)
         | _ \<Rightarrow> None))"

lemma takePoint_shorter: "takePoint bs = Some (p, rest) \<Longrightarrow> length rest < length bs"
  by (cases bs) (auto simp: Let_def split: if_splits list.splits)

function utf8Decode :: "bytes \<Rightarrow> js_string option" where
  "utf8Decode bs =
     (if bs = [] then Some []
      else case takePoint bs of
        None \<Rightarrow> None
      | Some (p, rest) \<Rightarrow> map_option ((@) (unitsOf p)) (utf8Decode rest))"
  by pat_completeness auto

termination
  by (relation "measure length") (auto dest: takePoint_shorter)

declare utf8Decode.simps [simp del]

text \<open>A \<open>TextDecoder\<close> without \<open>ignoreBOM\<close> drops one leading byte order mark.\<close>

definition BOM :: bytes where
  "BOM = [0xEF, 0xBB, 0xBF]"

definition decodeUtf8Bom :: "bytes \<Rightarrow> js_string option" where
  "decodeUtf8Bom b = utf8Decode (if take 3 b = BOM then drop 3 b else b)"

subsection \<open>The module\<close>

definition encodeUtf8 :: "js_string \<Rightarrow> bytes" where
  "encodeUtf8 s = concat (map utf8Point (codePoints s))"

definition isPairedUtf16Unit :: "js_string \<Rightarrow> nat \<Rightarrow> bool" where
  "isPairedUtf16Unit s index =
     (if isHighSurrogate (s ! index) then
        index + 1 < length s \<and> isLowSurrogate (s ! (index + 1))
      else if isLowSurrogate (s ! index) then index > 0 \<and> isHighSurrogate (s ! (index - 1))
      else True)"

function isWellFormedUtf16_loop :: "js_string \<Rightarrow> nat \<Rightarrow> bool" where
  "isWellFormedUtf16_loop s index =
     (if index < length s then
        (if \<not> isPairedUtf16Unit s index then False else isWellFormedUtf16_loop s (index + 1))
      else True)"
  by pat_completeness auto

termination
  by (relation "measure (\<lambda>(s, index). length s - index)") auto

declare isWellFormedUtf16_loop.simps [simp del]

definition isWellFormedUtf16 :: "js_string \<Rightarrow> bool" where
  "isWellFormedUtf16 s = isWellFormedUtf16_loop s 0"

definition utf8UnitByteLength :: "16 word \<Rightarrow> int" where
  "utf8UnitByteLength code =
     (if unat code < 128 then 1
      else if unat code < 2048 then 2
      else if 55296 \<le> unat code \<and> unat code \<le> 57343 then 2
      else 3)"

function boundedUtf8ByteLength_loop :: "js_string \<Rightarrow> int \<Rightarrow> int \<Rightarrow> nat \<Rightarrow> int" where
  "boundedUtf8ByteLength_loop s maximum n index =
     (if index < length s then
        (if \<not> isPairedUtf16Unit s index then -2
         else if utf8UnitByteLength (s ! index) > maximum - n then -1
         else boundedUtf8ByteLength_loop s maximum (n + utf8UnitByteLength (s ! index)) (index + 1))
      else n)"
  by pat_completeness auto

termination
  by (relation "measure (\<lambda>(s, m, n, index). length s - index)") auto

declare boundedUtf8ByteLength_loop.simps [simp del]

definition boundedUtf8ByteLength :: "js_string \<Rightarrow> int \<Rightarrow> int" where
  "boundedUtf8ByteLength s maximum =
     (if int (length s) > maximum then -1 else boundedUtf8ByteLength_loop s maximum 0 0)"

definition uint32 :: "nat \<Rightarrow> bytes" where
  "uint32 n = [of_nat (n div 16777216), of_nat (n div 65536 mod 256), of_nat (n div 256 mod 256),
     of_nat (n mod 256)]"


section \<open>UTF-8 and UTF-16\<close>

lemma unat_byte: "n < 256 \<Longrightarrow> unat (of_nat n :: byte) = n"
  by (simp add: unsigned_of_nat take_bit_nat_eq_self)

lemma unat_unit: "n < 65536 \<Longrightarrow> unat (of_nat n :: 16 word) = n"
  by (simp add: unsigned_of_nat take_bit_nat_eq_self)

lemma unit_unat: "(of_nat (unat c) :: 16 word) = c"
  by simp

lemma point_digits3: "p = (p div 4096) * 4096 + (p div 64 mod 64) * 64 + p mod 64" for p :: nat
proof -
  have "p div 4096 = p div 64 div 64" by (simp flip: div_mult2_eq)
  moreover have "p = p div 64 * 64 + p mod 64" "p div 64 = p div 64 div 64 * 64 + p div 64 mod 64" by simp_all
  ultimately show ?thesis by linarith
qed

lemma point_digits4:
  "p = (p div 262144) * 262144 + (p div 4096 mod 64) * 4096 + (p div 64 mod 64) * 64 + p mod 64" for p :: nat
proof -
  have "p div 262144 = p div 4096 div 64" by (simp flip: div_mult2_eq)
  moreover have "p div 4096 = p div 4096 div 64 * 64 + p div 4096 mod 64" by simp
  ultimately show ?thesis using point_digits3 [of p] by linarith
qed

lemma takePoint_utf8Point:
  assumes "scalarValue p"
  shows "takePoint (utf8Point p @ rest) = Some (p, rest)"
proof -
  have small: "p < 1114112" using assms by (auto simp: scalarValue_def)
  consider "p < 128" | "128 \<le> p" "p < 2048" | "2048 \<le> p" "p < 65536" | "65536 \<le> p" by linarith
  then show ?thesis
  proof cases
    case 1
    then show ?thesis by (simp add: utf8Point_def unat_byte)
  next
    case 2
    have d: "p div 64 < 32" using 2 by linarith
    have m: "p mod 64 < 64" by simp
    show ?thesis using 2 d m by (simp add: utf8Point_def unat_byte isContinuation_def Let_def del: of_nat_add)
  next
    case 3
    have d: "p div 4096 < 16" using 3 by linarith
    have m: "p div 64 mod 64 < 64" "p mod 64 < 64" by simp_all
    show ?thesis using 3 d m point_digits3 [of p, symmetric] assms
      by (simp add: utf8Point_def unat_byte isContinuation_def Let_def del: of_nat_add)
  next
    case 4
    have d: "p div 262144 < 5" using small by linarith
    have m: "p div 4096 mod 64 < 64" "p div 64 mod 64 < 64" "p mod 64 < 64" by simp_all
    show ?thesis using 4 d m small point_digits4 [of p, symmetric]
      by (simp add: utf8Point_def unat_byte isContinuation_def Let_def del: of_nat_add)
  qed
qed

lemma utf8Point_nonempty [simp]: "utf8Point p \<noteq> []"
  by (simp add: utf8Point_def)

lemma utf8Decode_points:
  "\<forall>p \<in> set ps. scalarValue p \<Longrightarrow> utf8Decode (concat (map utf8Point ps)) = Some (concat (map unitsOf ps))"
proof (induction ps)
  case Nil
  show ?case by (simp add: utf8Decode.simps)
next
  case (Cons p ps)
  then show ?case
    by (subst utf8Decode.simps) (simp add: takePoint_utf8Point)
qed

text \<open>Well-formedness by recursion over the units.\<close>

fun paired_units :: "js_string \<Rightarrow> bool" where
  "paired_units [] = True"
| "paired_units [c] \<longleftrightarrow> \<not> isHighSurrogate c \<and> \<not> isLowSurrogate c"
| "paired_units (c # d # s) \<longleftrightarrow>
     (if isHighSurrogate c then isLowSurrogate d \<and> paired_units s
      else \<not> isLowSurrogate c \<and> paired_units (d # s))"

lemma surrogates_differ: "isHighSurrogate c \<Longrightarrow> \<not> isLowSurrogate c"
  by (simp add: isHighSurrogate_def isLowSurrogate_def)

lemma isPaired_Suc:
  "isPairedUtf16Unit (c # s) (Suc i) =
     (if isHighSurrogate (s ! i) then i + 1 < length s \<and> isLowSurrogate (s ! (i + 1))
      else if isLowSurrogate (s ! i) then isHighSurrogate ((c # s) ! i) else True)"
  by (simp add: isPairedUtf16Unit_def)

lemma isPaired_shift:
  "i > 0 \<Longrightarrow> isPairedUtf16Unit (c # s) (Suc i) = isPairedUtf16Unit s i"
  by (cases i) (simp_all add: isPairedUtf16Unit_def)

lemma All_less_shift: "(\<forall>i < Suc n. P i) \<longleftrightarrow> P 0 \<and> (\<forall>i < n. P (Suc i))"
  using All_less_Suc2 by blast

lemma paired_after:
  "\<not> isHighSurrogate c \<Longrightarrow>
   (\<forall>i < length s. isPairedUtf16Unit (c # s) (Suc i)) \<longleftrightarrow> (\<forall>i < length s. isPairedUtf16Unit s i)"
proof -
  assume c: "\<not> isHighSurrogate c"
  have "isPairedUtf16Unit (c # s) (Suc i) = isPairedUtf16Unit s i" if "i < length s" for i
    using c by (cases i) (simp_all add: isPairedUtf16Unit_def)
  then show ?thesis by blast
qed

lemma paired_units_index: "(\<forall>i < length s. isPairedUtf16Unit s i) \<longleftrightarrow> paired_units s"
proof (induction s rule: paired_units.induct)
  case 1
  show ?case by simp
next
  case (2 c)
  show ?case by (simp add: isPairedUtf16Unit_def)
next
  case (3 c d s)
  show ?case
  proof (cases "isHighSurrogate c")
    case False
    have "(\<forall>i < length (c # d # s). isPairedUtf16Unit (c # d # s) i) \<longleftrightarrow>
        isPairedUtf16Unit (c # d # s) 0 \<and> (\<forall>i < length (d # s). isPairedUtf16Unit (c # d # s) (Suc i))"
      by (simp add: All_less_shift)
    also have "\<dots> \<longleftrightarrow> \<not> isLowSurrogate c \<and> paired_units (d # s)"
      using False 3(2) paired_after [OF False, of "d # s"] by (simp add: isPairedUtf16Unit_def)
    finally show ?thesis using False by simp
  next
    case True
    have "(\<forall>i < length (c # d # s). isPairedUtf16Unit (c # d # s) i) \<longleftrightarrow>
        isPairedUtf16Unit (c # d # s) 0 \<and> isPairedUtf16Unit (c # d # s) (Suc 0) \<and>
        (\<forall>i < length s. isPairedUtf16Unit (c # d # s) (Suc (Suc i)))"
      by (simp add: All_less_shift)
    moreover have "isPairedUtf16Unit (c # d # s) 0 \<longleftrightarrow> isLowSurrogate d"
      using True by (simp add: isPairedUtf16Unit_def)
    moreover have "isLowSurrogate d \<Longrightarrow> isPairedUtf16Unit (c # d # s) (Suc 0)"
      using True surrogates_differ by (auto simp: isPairedUtf16Unit_def)
    moreover have "isPairedUtf16Unit (c # d # s) (Suc (Suc i)) = isPairedUtf16Unit (d # s) (Suc i)" for i
      by (rule isPaired_shift) simp
    moreover have "isLowSurrogate d \<Longrightarrow>
        (\<forall>i < length s. isPairedUtf16Unit (d # s) (Suc i)) \<longleftrightarrow> paired_units s"
      using 3(1) [OF True] paired_after [of d s] surrogates_differ by blast
    ultimately show ?thesis using True by auto
  qed
qed

lemma All_from:
  "i < n \<Longrightarrow> (\<forall>j. i \<le> j \<and> j < n \<longrightarrow> P j) \<longleftrightarrow> P i \<and> (\<forall>j. i + 1 \<le> j \<and> j < n \<longrightarrow> P j)"
  for i n :: nat
  by (metis Suc_eq_plus1 Suc_le_eq le_eq_less_or_eq)

lemma wellFormed_loop:
  "isWellFormedUtf16_loop s i \<longleftrightarrow> (\<forall>j. i \<le> j \<and> j < length s \<longrightarrow> isPairedUtf16Unit s j)"
proof (induction s i rule: isWellFormedUtf16_loop.induct)
  case (1 s i)
  show ?case
  proof (cases "i < length s")
    case True
    then show ?thesis using 1 [OF True] All_from [OF True, of "isPairedUtf16Unit s"]
      by (subst isWellFormedUtf16_loop.simps) simp
  next
    case False
    then show ?thesis by (subst isWellFormedUtf16_loop.simps) auto
  qed
qed

lemma isWellFormedUtf16_iff: "isWellFormedUtf16 s \<longleftrightarrow> paired_units s"
  by (simp add: isWellFormedUtf16_def wellFormed_loop flip: paired_units_index)

lemma codePoints_paired:
  "paired_units s \<Longrightarrow> (\<forall>p \<in> set (codePoints s). scalarValue p) \<and> concat (map unitsOf (codePoints s)) = s"
proof (induction s rule: codePoints.induct)
  case (2 c)
  have "unat c < 65536" using unsigned_less [of c] by simp
  then show ?case using 2
    by (auto simp: scalarValue_def unitsOf_def isHighSurrogate_def isLowSurrogate_def)
next
  case (3 c d s)
  have lt: "unat c < 65536" "unat d < 65536" using unsigned_less [of c] unsigned_less [of d] by simp_all
  show ?case
  proof (cases "isHighSurrogate c")
    case True
    then have low: "isLowSurrogate d" and s: "paired_units s" using 3(4) by simp_all
    define h l where "h = unat c - 55296" and "l = unat d - 56320"
    have hl: "h < 1024" "l < 1024" "unat c = 55296 + h" "unat d = 56320 + l"
      using True low by (auto simp: h_def l_def isHighSurrogate_def isLowSurrogate_def)
    have "(h * 1024 + l) div 1024 = h" "(h * 1024 + l) mod 1024 = l" using hl by simp_all
    moreover have "c = of_nat (55296 + h)" "d = of_nat (56320 + l)" using hl(3,4) by (metis unit_unat)+
    ultimately have "unitsOf (65536 + h * 1024 + l) = [c, d]" by (simp add: unitsOf_def add.assoc del: of_nat_add)
    moreover have "scalarValue (65536 + h * 1024 + l)" using hl by (simp add: scalarValue_def)
    ultimately show ?thesis using True low 3(1) [OF True low s] by (simp add: h_def l_def)
  next
    case False
    then have c: "\<not> isLowSurrogate c" and s: "paired_units (d # s)" using 3(4) by simp_all
    have "unitsOf (unat c) = [c]" using lt by (simp add: unitsOf_def)
    moreover have "scalarValue (unat c)" using False c lt
      by (auto simp: scalarValue_def isHighSurrogate_def isLowSurrogate_def)
    ultimately show ?thesis using False c 3(3) [OF False s] by simp
  qed
qed simp

lemma utf8_roundtrip: "isWellFormedUtf16 s \<Longrightarrow> utf8Decode (encodeUtf8 s) = Some s"
  using codePoints_paired [of s] utf8Decode_points [of "codePoints s"]
  by (simp add: isWellFormedUtf16_iff encodeUtf8_def)

lemma length_utf8Point:
  "length (utf8Point p) = (if p < 128 then 1 else if p < 2048 then 2 else if p < 65536 then 3 else 4)"
  by (simp add: utf8Point_def)

definition units_size :: "js_string \<Rightarrow> int" where
  "units_size s = sum_list (map utf8UnitByteLength s)"

lemma utf8UnitByteLength_bounds: "1 \<le> utf8UnitByteLength c" "utf8UnitByteLength c \<le> 3"
  by (simp_all add: utf8UnitByteLength_def)

lemma units_size_nonneg: "0 \<le> units_size s"
  by (induction s) (simp_all add: units_size_def utf8UnitByteLength_def)

lemma length_encodeUtf8: "paired_units s \<Longrightarrow> int (length (encodeUtf8 s)) = units_size s"
proof (induction s rule: codePoints.induct)
  case 1
  show ?case by (simp add: encodeUtf8_def units_size_def)
next
  case (2 c)
  then show ?case using unsigned_less [of c]
    by (auto simp: encodeUtf8_def units_size_def length_utf8Point utf8UnitByteLength_def isHighSurrogate_def
        isLowSurrogate_def)
next
  case (3 c d s)
  have lt: "unat c < 65536" using unsigned_less [of c] by simp
  show ?case
  proof (cases "isHighSurrogate c")
    case True
    then have low: "isLowSurrogate d" and s: "paired_units s" using 3(4) by simp_all
    have "utf8UnitByteLength c = 2" "utf8UnitByteLength d = 2" using True low
      by (auto simp: utf8UnitByteLength_def isHighSurrogate_def isLowSurrogate_def)
    then show ?thesis using True low 3(1) [OF True low s]
      by (simp add: encodeUtf8_def units_size_def length_utf8Point)
  next
    case False
    then have c: "\<not> isLowSurrogate c" and s: "paired_units (d # s)" using 3(4) by simp_all
    have "int (length (utf8Point (unat c))) = utf8UnitByteLength c" using False c lt
      by (auto simp: length_utf8Point utf8UnitByteLength_def isHighSurrogate_def isLowSurrogate_def)
    then show ?thesis using False c 3(3) [OF False s] by (simp add: encodeUtf8_def units_size_def)
  qed
qed

lemma bounded_loop:
  "i \<le> length s \<Longrightarrow> n \<le> m \<Longrightarrow> 0 \<le> n \<Longrightarrow>
   (0 \<le> boundedUtf8ByteLength_loop s m n i \<longleftrightarrow>
      (\<forall>j. i \<le> j \<and> j < length s \<longrightarrow> isPairedUtf16Unit s j) \<and> n + units_size (drop i s) \<le> m) \<and>
   (0 \<le> boundedUtf8ByteLength_loop s m n i \<longrightarrow>
      boundedUtf8ByteLength_loop s m n i = n + units_size (drop i s))"
proof (induction s m n i rule: boundedUtf8ByteLength_loop.induct)
  case (1 s m n i)
  show ?case
  proof (cases "i < length s")
    case False
    then show ?thesis using 1(2-4) by (subst (1 2 3) boundedUtf8ByteLength_loop.simps) (auto simp: units_size_def)
  next
    case True
    let ?w = "utf8UnitByteLength (s ! i)"
    have size: "units_size (drop i s) = ?w + units_size (drop (Suc i) s)"
      using True by (simp add: units_size_def flip: Cons_nth_drop_Suc)
    have w: "1 \<le> ?w" by (rule utf8UnitByteLength_bounds)
    consider "\<not> isPairedUtf16Unit s i" | "isPairedUtf16Unit s i" "?w > m - n"
      | "isPairedUtf16Unit s i" "\<not> ?w > m - n" by blast
    then show ?thesis
    proof cases
      case 1
      then show ?thesis using True by (subst (1 2 3) boundedUtf8ByteLength_loop.simps) auto
    next
      case 2
      then show ?thesis using True size units_size_nonneg [of "drop (Suc i) s"]
        by (subst (1 2 3) boundedUtf8ByteLength_loop.simps) auto
    next
      case 3
      have eq: "boundedUtf8ByteLength_loop s m n i = boundedUtf8ByteLength_loop s m (n + ?w) (i + 1)"
        using True 3 by (subst boundedUtf8ByteLength_loop.simps) simp
      have all: "(\<forall>j. i \<le> j \<and> j < length s \<longrightarrow> isPairedUtf16Unit s j) \<longleftrightarrow>
          (\<forall>j. i + 1 \<le> j \<and> j < length s \<longrightarrow> isPairedUtf16Unit s j)"
        using All_from [OF True, of "isPairedUtf16Unit s"] 3(1) by simp
      show ?thesis using 1(1) [OF True] 1(4) True 3 w size unfolding eq all by (simp add: add.assoc)
    qed
  qed
qed

text \<open>
  The first unpaired unit decides the refusal: everything before it is well formed.
\<close>

lemma paired_take:
  assumes "i < length s" "\<not> isPairedUtf16Unit s i" "\<forall>j < i. isPairedUtf16Unit s j"
  shows "paired_units (take i s)"
proof -
  have "isPairedUtf16Unit (take i s) j" if j: "j < i" for j
  proof -
    have s: "isPairedUtf16Unit s j" using assms(3) j by blast
    have "Suc j < i" if "isHighSurrogate (s ! j)"
    proof (rule ccontr)
      assume "\<not> Suc j < i"
      then have "i = Suc j" using j by simp
      then have "isLowSurrogate (s ! i)" using s that by (simp add: isPairedUtf16Unit_def)
      moreover from this have "\<not> isHighSurrogate (s ! i)" using surrogates_differ by blast
      ultimately show False using assms(2) that \<open>i = Suc j\<close> by (simp add: isPairedUtf16Unit_def)
    qed
    then show ?thesis using s j assms(1) by (auto simp: isPairedUtf16Unit_def)
  qed
  then show ?thesis using assms(1) by (simp flip: paired_units_index)
qed

lemma unpaired_prefix:
  assumes "i < length s" "paired_units (take i s)" "j < i"
  shows "isPairedUtf16Unit s j"
proof -
  have "isPairedUtf16Unit (take i s) j" using assms paired_units_index [of "take i s"] by auto
  then show ?thesis using assms by (auto simp: isPairedUtf16Unit_def split: if_splits)
qed

lemma units_size_take_mono: "i \<le> k \<Longrightarrow> units_size (take i s) \<le> units_size (take k s)"
proof -
  assume "i \<le> k"
  then have "take k s = take i s @ take (k - i) (drop i s)" by (metis le_add_diff_inverse take_add)
  then show ?thesis using units_size_nonneg [of "take (k - i) (drop i s)"] by (simp add: units_size_def)
qed

lemma units_size_take_Suc:
  "i < length s \<Longrightarrow> units_size (take (Suc i) s) = units_size (take i s) + utf8UnitByteLength (s ! i)"
  by (simp add: units_size_def take_Suc_conv_app_nth)

definition refused_at :: "js_string \<Rightarrow> int \<Rightarrow> nat \<Rightarrow> bool" where
  "refused_at s m k \<longleftrightarrow> k < length s \<and> \<not> isPairedUtf16Unit s k \<and>
     (\<forall>j < k. isPairedUtf16Unit s j) \<and> units_size (take k s) \<le> m"

lemma bounded_loop_refusal:
  "i \<le> length s \<Longrightarrow> \<forall>j < i. isPairedUtf16Unit s j \<Longrightarrow> units_size (take i s) \<le> m \<Longrightarrow>
   n = units_size (take i s) \<Longrightarrow>
   (boundedUtf8ByteLength_loop s m n i = -2 \<longleftrightarrow> (\<exists>k. refused_at s m k)) \<and>
   boundedUtf8ByteLength_loop s m n i \<ge> -2"
proof (induction s m n i rule: boundedUtf8ByteLength_loop.induct)
  case (1 s m n i)
  show ?case
  proof (cases "i < length s")
    case False
    then have "\<not> refused_at s m k" for k using 1(2,3) by (auto simp: refused_at_def)
    moreover have "boundedUtf8ByteLength_loop s m n i = n"
      using False by (subst boundedUtf8ByteLength_loop.simps) simp
    ultimately show ?thesis using 1(5) units_size_nonneg [of "take i s"] by simp
  next
    case True
    let ?w = "utf8UnitByteLength (s ! i)"
    have size: "units_size (take (Suc i) s) = n + ?w" using True 1(5) by (simp add: units_size_take_Suc)
    consider "\<not> isPairedUtf16Unit s i" | "isPairedUtf16Unit s i" "?w > m - n"
      | "isPairedUtf16Unit s i" "\<not> ?w > m - n" by blast
    then show ?thesis
    proof cases
      case 1
      then have "refused_at s m i" using True "1.prems" by (simp add: refused_at_def)
      moreover have "boundedUtf8ByteLength_loop s m n i = -2"
        using True 1 by (subst boundedUtf8ByteLength_loop.simps) simp
      ultimately show ?thesis by auto
    next
      case 2
      have "\<not> refused_at s m k" for k
      proof
        assume k: "refused_at s m k"
        then have "i < k" using 1(3) 2(1) by (metis linorder_neqE_nat refused_at_def)
        then have "units_size (take (Suc i) s) \<le> m"
          using k units_size_take_mono [of "Suc i" k s] by (simp add: refused_at_def)
        then show False using size 2(2) by simp
      qed
      moreover have "boundedUtf8ByteLength_loop s m n i = -1"
        using True 2 by (subst boundedUtf8ByteLength_loop.simps) simp
      ultimately show ?thesis by simp
    next
      case 3
      have eq: "boundedUtf8ByteLength_loop s m n i = boundedUtf8ByteLength_loop s m (n + ?w) (i + 1)"
        using True 3 by (subst boundedUtf8ByteLength_loop.simps) simp
      have "\<forall>j < i + 1. isPairedUtf16Unit s j" using 1(3) 3(1) by (simp add: less_Suc_eq)
      moreover have "units_size (take (i + 1) s) \<le> m" "n + ?w = units_size (take (i + 1) s)"
        using 3(2) size by simp_all
      ultimately show ?thesis unfolding eq using 1(1) [OF True] 3 True by (metis Suc_eq_plus1 Suc_leI)
    qed
  qed
qed

lemma refused_prefix:
  "refused_at s m k \<longleftrightarrow> k < length s \<and> \<not> isPairedUtf16Unit s k \<and>
     isWellFormedUtf16 (take k s) \<and> int (length (encodeUtf8 (take k s))) \<le> m"
proof (cases "paired_units (take k s)")
  case True
  then show ?thesis using unpaired_prefix [of k s] length_encodeUtf8 [OF True]
    by (auto simp: refused_at_def isWellFormedUtf16_iff)
next
  case False
  then show ?thesis using paired_take [of k s] by (auto simp: refused_at_def isWellFormedUtf16_iff)
qed

text \<open>
  C39: The allocation-free length check measures the real encoding and names the
  reason of a refusal. It returns a length exactly when the text is well-formed
  UTF-16 and its UTF-8 encoding fits the bound; the length it returns is the
  number of encoded bytes, and decoding those bytes in the fatal mode gives the
  text back. It returns -2 (ill-formed) exactly when the text has no more
  units than the bound and the part before an unpaired surrogate is well formed
  and its encoding fits; in every other case it returns -1 (too long).
\<close>

theorem boundedUtf8ByteLength_exact:
  assumes "0 \<le> maximum"
  shows "(0 \<le> boundedUtf8ByteLength s maximum \<longleftrightarrow>
      isWellFormedUtf16 s \<and> int (length (encodeUtf8 s)) \<le> maximum) \<and>
    (0 \<le> boundedUtf8ByteLength s maximum \<longrightarrow>
      boundedUtf8ByteLength s maximum = int (length (encodeUtf8 s)) \<and>
      utf8Decode (encodeUtf8 s) = Some s) \<and>
    (boundedUtf8ByteLength s maximum = -2 \<longleftrightarrow>
      int (length s) \<le> maximum \<and>
      (\<exists>k < length s. \<not> isPairedUtf16Unit s k \<and> isWellFormedUtf16 (take k s) \<and>
         int (length (encodeUtf8 (take k s))) \<le> maximum)) \<and>
    (\<not> 0 \<le> boundedUtf8ByteLength s maximum \<longrightarrow>
      boundedUtf8ByteLength s maximum = -1 \<or> boundedUtf8ByteLength s maximum = -2)"
proof -
  have all: "(\<forall>j. 0 \<le> j \<and> j < length s \<longrightarrow> isPairedUtf16Unit s j) \<longleftrightarrow> paired_units s"
    using paired_units_index [of s] by simp
  have "int (length s) \<le> units_size s"
    unfolding units_size_def using utf8UnitByteLength_bounds(1) by (induction s) (auto simp: add_mono)
  then have len: "(0 \<le> boundedUtf8ByteLength s maximum \<longleftrightarrow>
      isWellFormedUtf16 s \<and> int (length (encodeUtf8 s)) \<le> maximum) \<and>
    (0 \<le> boundedUtf8ByteLength s maximum \<longrightarrow>
      boundedUtf8ByteLength s maximum = int (length (encodeUtf8 s)) \<and>
      utf8Decode (encodeUtf8 s) = Some s)"
    using bounded_loop [of 0 s 0 maximum] assms length_encodeUtf8 [of s] utf8_roundtrip [of s] all
    by (auto simp: boundedUtf8ByteLength_def isWellFormedUtf16_iff)
  have "(boundedUtf8ByteLength_loop s maximum 0 0 = -2 \<longleftrightarrow> (\<exists>k. refused_at s maximum k)) \<and>
      boundedUtf8ByteLength_loop s maximum 0 0 \<ge> -2"
    by (rule bounded_loop_refusal) (simp_all add: units_size_def assms)
  then have "(boundedUtf8ByteLength s maximum = -2 \<longleftrightarrow>
      int (length s) \<le> maximum \<and> (\<exists>k. refused_at s maximum k)) \<and> boundedUtf8ByteLength s maximum \<ge> -2"
    by (simp add: boundedUtf8ByteLength_def)
  then show ?thesis using len unfolding refused_prefix by auto
qed

theorem boundedUtf8ByteLength_exact_witness:
  "boundedUtf8ByteLength [65, 233, 55357, 56832] 100 = 7 \<and>
   utf8Decode (encodeUtf8 [65, 233, 55357, 56832]) = Some [65, 233, 55357, 56832] \<and>
   boundedUtf8ByteLength [65, 55357, 65] 100 = -2"
proof (intro conjI)
  show b: "boundedUtf8ByteLength [65, 233, 55357, 56832] 100 = 7"
    by (simp add: boundedUtf8ByteLength_def boundedUtf8ByteLength_loop.simps isPairedUtf16Unit_def
        isHighSurrogate_def isLowSurrogate_def utf8UnitByteLength_def)
  show "utf8Decode (encodeUtf8 [65, 233, 55357, 56832]) = Some [65, 233, 55357, 56832]"
    using boundedUtf8ByteLength_exact [of 100 "[65, 233, 55357, 56832]"] b by simp
  have "isWellFormedUtf16 [65]" "length (encodeUtf8 [65]) = 1" "\<not> isPairedUtf16Unit [65, 55357, 65] 1"
    by (simp_all add: isWellFormedUtf16_iff isPairedUtf16Unit_def isHighSurrogate_def isLowSurrogate_def
        encodeUtf8_def utf8Point_def)
  then show "boundedUtf8ByteLength [65, 55357, 65] 100 = -2"
    using boundedUtf8ByteLength_exact [of 100 "[65, 55357, 65]"] by (auto intro!: exI [of _ 1])
qed

end
