(* ===== verification/Json_Text.thy ===== *)
theory Json_Text
  imports Text_Encoding
begin

text \<open>
  \<open>JSON.stringify\<close> and \<open>JSON.parse\<close> of the language, as far as
  \<open>packages/core/src/invitation-wire.ts\<close> uses them. The writer is exact on what
  that module puts into a tuple: strings, integers and arrays of strings. The
  reader accepts every JSON text: a lexer yields tokens, and a machine with an explicit
  stack of open arrays and objects reads them one at a time. A number is rounded to
  the nearest double. The members of an object are kept as written, since no modelled
  code looks into one.
\<close>


section \<open>Definitions\<close>

datatype json_value =
    JNull | JBool bool | JNumber js_number | JNegZero | JString js_string
  | JArray "json_value list" | JObject "(js_string \<times> json_value) list"

definition asciiUnits :: "string \<Rightarrow> js_string" where
  "asciiUnits s = map of_char s"

subsection \<open>Writing\<close>

definition hexUnit :: "nat \<Rightarrow> 16 word" where
  "hexUnit n = (if n < 10 then of_nat (48 + n) else of_nat (87 + n))"

definition unicodeEscape :: "16 word \<Rightarrow> js_string" where
  "unicodeEscape c = [92, 117, hexUnit (unat c div 4096), hexUnit (unat c div 256 mod 16),
     hexUnit (unat c div 16 mod 16), hexUnit (unat c mod 16)]"

text \<open>One unit of a string that is not half of a surrogate pair.\<close>

definition quoteUnit :: "16 word \<Rightarrow> js_string" where
  "quoteUnit c =
     (if c = 34 then [92, 34] else if c = 92 then [92, 92]
      else if c = 8 then [92, 98] else if c = 9 then [92, 116] else if c = 10 then [92, 110]
      else if c = 12 then [92, 102] else if c = 13 then [92, 114]
      else if c < 32 \<or> isHighSurrogate c \<or> isLowSurrogate c then unicodeEscape c
      else [c])"

fun quoteUnits :: "js_string \<Rightarrow> js_string" where
  "quoteUnits [] = []"
| "quoteUnits [c] = quoteUnit c"
| "quoteUnits (c # d # s) =
     (if isHighSurrogate c \<and> isLowSurrogate d then c # d # quoteUnits s
      else quoteUnit c @ quoteUnits (d # s))"

definition quoteJson :: "js_string \<Rightarrow> js_string" where
  "quoteJson s = 34 # quoteUnits s @ [34]"

fun decimalText :: "nat \<Rightarrow> js_string" where
  "decimalText n = (if n < 10 then [of_nat (48 + n)] else decimalText (n div 10) @ [of_nat (48 + n mod 10)])"

declare decimalText.simps [simp del]

definition integerText :: "int \<Rightarrow> js_string" where
  "integerText i = (if i < 0 then 45 # decimalText (nat (- i)) else decimalText (nat i))"

fun commaSeparated :: "js_string list \<Rightarrow> js_string" where
  "commaSeparated [] = []"
| "commaSeparated [s] = s"
| "commaSeparated (s # t # ss) = s @ 44 # commaSeparated (t # ss)"

datatype tuple_item = TextItem js_string | IntItem int | TextsItem "js_string list"

fun stringifyItem :: "tuple_item \<Rightarrow> js_string" where
  "stringifyItem (TextItem s) = quoteJson s"
| "stringifyItem (IntItem i) = integerText i"
| "stringifyItem (TextsItem ss) = 91 # commaSeparated (map quoteJson ss) @ [93]"

definition jsonStringify :: "tuple_item list \<Rightarrow> js_string" where
  "jsonStringify items = 91 # commaSeparated (map stringifyItem items) @ [93]"

subsection \<open>Numbers\<close>

fun bitLength :: "nat \<Rightarrow> nat" where
  "bitLength n = (if n = 0 then 0 else Suc (bitLength (n div 2)))"

declare bitLength.simps [simp del]

definition binaryPower :: "int \<Rightarrow> rat" where
  "binaryPower e = (if 0 \<le> e then 2 ^ nat e else 1 / 2 ^ nat (- e))"

text \<open>The exponent of the last place of the double nearest to a positive number.\<close>

definition lastPlace :: "rat \<Rightarrow> int" where
  "lastPlace q =
     (let k = int (bitLength (nat (fst (quotient_of q)))) - int (bitLength (nat (snd (quotient_of q))))
      in max ((if binaryPower k \<le> q then k else k - 1) - 52) (-1074))"

definition roundHalfEven :: "rat \<Rightarrow> int" where
  "roundHalfEven x =
     (let f = \<lfloor>x\<rfloor>; d = x - of_int f
      in if d < 1 / 2 then f else if 1 / 2 < d then f + 1 else if even f then f else f + 1)"

definition roundToDouble :: "rat \<Rightarrow> rat" where
  "roundToDouble q = of_int (roundHalfEven (q / binaryPower (lastPlace q))) * binaryPower (lastPlace q)"

definition numberValue :: "bool \<Rightarrow> rat \<Rightarrow> json_value" where
  "numberValue negative q =
     (let r = (if q = 0 then 0 else roundToDouble q)
      in if r \<ge> 2 ^ 1024 then JNumber (if negative then NegInf else PosInf)
         else if negative then (if r = 0 then JNegZero else JNumber (Fin (- r)))
         else JNumber (Fin r))"

subsection \<open>Reading: the lexer\<close>

definition isDigitUnit :: "16 word \<Rightarrow> bool" where
  "isDigitUnit c \<longleftrightarrow> 48 \<le> c \<and> c \<le> 57"

definition digitsValue :: "js_string \<Rightarrow> nat" where
  "digitsValue ds = foldl (\<lambda>a d. 10 * a + (unat d - 48)) 0 ds"

definition hexUnitValue :: "16 word \<Rightarrow> nat option" where
  "hexUnitValue c =
     (if 48 \<le> c \<and> c \<le> 57 then Some (unat c - 48)
      else if 97 \<le> c \<and> c \<le> 102 then Some (unat c - 87)
      else if 65 \<le> c \<and> c \<le> 70 then Some (unat c - 55)
      else None)"

definition hexQuad :: "16 word \<Rightarrow> 16 word \<Rightarrow> 16 word \<Rightarrow> 16 word \<Rightarrow> (16 word) option" where
  "hexQuad a b c d =
     (case (hexUnitValue a, hexUnitValue b, hexUnitValue c, hexUnitValue d) of
        (Some i, Some j, Some k, Some l) \<Rightarrow> Some (of_nat (i * 4096 + j * 256 + k * 16 + l))
      | _ \<Rightarrow> None)"

definition simpleEscape :: "16 word \<Rightarrow> (16 word) option" where
  "simpleEscape c =
     (if c = 34 \<or> c = 92 \<or> c = 47 then Some c
      else if c = 98 then Some 8 else if c = 102 then Some 12 else if c = 110 then Some 10
      else if c = 114 then Some 13 else if c = 116 then Some 9 else None)"

text \<open>The rest of a string literal after its opening quote, and the text behind it.\<close>

fun lexString :: "js_string \<Rightarrow> (js_string \<times> js_string) option" where
  "lexString [] = None"
| "lexString (c # s) =
     (if c = 34 then Some ([], s)
      else if c < 32 then None
      else if c \<noteq> 92 then map_option (apfst ((#) c)) (lexString s)
      else (case s of
          [] \<Rightarrow> None
        | e # t \<Rightarrow>
            (if e = 117 then
               (case t of
                  h1 # h2 # h3 # h4 # r \<Rightarrow>
                    (case hexQuad h1 h2 h3 h4 of
                       None \<Rightarrow> None
                     | Some u \<Rightarrow> map_option (apfst ((#) u)) (lexString r))
                | _ \<Rightarrow> None)
             else (case simpleEscape e of
                 None \<Rightarrow> None
               | Some u \<Rightarrow> map_option (apfst ((#) u)) (lexString t)))))"

definition lexFraction :: "js_string \<Rightarrow> (js_string \<times> js_string) option" where
  "lexFraction s =
     (if s \<noteq> [] \<and> hd s = 46 then
        (let ds = takeWhile isDigitUnit (tl s)
         in if ds = [] then None else Some (ds, dropWhile isDigitUnit (tl s)))
      else Some ([], s))"

definition lexExponent :: "js_string \<Rightarrow> (int \<times> js_string) option" where
  "lexExponent s =
     (if s \<noteq> [] \<and> (hd s = 101 \<or> hd s = 69) then
        (let negative = (tl s \<noteq> [] \<and> hd (tl s) = 45);
             r = (if tl s \<noteq> [] \<and> (hd (tl s) = 45 \<or> hd (tl s) = 43) then tl (tl s) else tl s);
             ds = takeWhile isDigitUnit r
         in if ds = [] then None
            else Some (if negative then - int (digitsValue ds) else int (digitsValue ds),
                       dropWhile isDigitUnit r))
      else Some (0, s))"

definition decimalScale :: "nat \<Rightarrow> int \<Rightarrow> rat" where
  "decimalScale m e = (if 0 \<le> e then of_nat m * 10 ^ nat e else of_nat m / 10 ^ nat (- e))"

definition lexNumber :: "js_string \<Rightarrow> (json_value \<times> js_string) option" where
  "lexNumber s =
     (let negative = (s \<noteq> [] \<and> hd s = 45);
          s1 = (if negative then tl s else s);
          ds = takeWhile isDigitUnit s1
      in if ds = [] \<or> (hd ds = 48 \<and> tl ds \<noteq> []) then None
         else case lexFraction (dropWhile isDigitUnit s1) of
            None \<Rightarrow> None
          | Some (fs, s2) \<Rightarrow>
              (case lexExponent s2 of
                 None \<Rightarrow> None
               | Some (e, s3) \<Rightarrow>
                   Some (numberValue negative (decimalScale (digitsValue (ds @ fs)) (e - int (length fs))), s3)))"

datatype json_token =
    OpenArray | CloseArray | OpenObject | CloseObject | Comma | Colon | Scalar json_value

definition punctuation :: "16 word \<Rightarrow> json_token option" where
  "punctuation c =
     (if c = 91 then Some OpenArray else if c = 93 then Some CloseArray
      else if c = 123 then Some OpenObject else if c = 125 then Some CloseObject
      else if c = 44 then Some Comma else if c = 58 then Some Colon else None)"

definition lexWord :: "js_string \<Rightarrow> (json_value \<times> js_string) option" where
  "lexWord s =
     (if take 4 s = asciiUnits ''null'' then Some (JNull, drop 4 s)
      else if take 4 s = asciiUnits ''true'' then Some (JBool True, drop 4 s)
      else if take 5 s = asciiUnits ''false'' then Some (JBool False, drop 5 s)
      else None)"

definition lexScalar :: "js_string \<Rightarrow> (json_value \<times> js_string) option" where
  "lexScalar s =
     (if hd s = 34 then map_option (apfst JString) (lexString (tl s))
      else if hd s = 45 \<or> isDigitUnit (hd s) then lexNumber s
      else lexWord s)"

lemma lexString_shorter: "lexString s = Some (u, r) \<Longrightarrow> length r < length s"
proof (induction s arbitrary: u rule: lexString.induct)
  case (2 c s)
  then show ?case
    by (fastforce split: if_splits list.splits option.splits)
qed simp

lemma length_dropWhile: "length (dropWhile P s) \<le> length s"
  by (induction s) auto

lemma lexNumber_shorter: "lexNumber s = Some (v, r) \<Longrightarrow> length r < length s"
proof -
  assume a: "lexNumber s = Some (v, r)"
  define s1 where "s1 = (if s \<noteq> [] \<and> hd s = 45 then tl s else s)"
  have ne: "takeWhile isDigitUnit s1 \<noteq> []" using a by (auto simp: lexNumber_def s1_def Let_def split: if_splits)
  obtain fs s2 e where f: "lexFraction (dropWhile isDigitUnit s1) = Some (fs, s2)" and e: "lexExponent s2 = Some (e, r)"
    using a by (auto simp: lexNumber_def s1_def Let_def split: if_splits option.splits)
  have "length r \<le> length s2"
    using e length_dropWhile [of isDigitUnit "tl (tl s2)"] length_dropWhile [of isDigitUnit "tl s2"]
    by (auto simp: lexExponent_def Let_def split: if_splits)
  moreover have "length s2 \<le> length (dropWhile isDigitUnit s1)"
    using f length_dropWhile [of isDigitUnit "tl (dropWhile isDigitUnit s1)"]
    by (auto simp: lexFraction_def Let_def split: if_splits)
  moreover have "length (dropWhile isDigitUnit s1) < length s1"
    using ne by (metis length_append length_greater_0_conv less_add_same_cancel2 takeWhile_dropWhile_id)
  moreover have "length s1 \<le> length s" by (simp add: s1_def)
  ultimately show ?thesis by linarith
qed

lemma lexScalar_shorter: "lexScalar s = Some (v, r) \<Longrightarrow> s \<noteq> [] \<Longrightarrow> length r < length s"
  by (cases s) (auto simp: lexScalar_def lexWord_def dest: lexNumber_shorter lexString_shorter split: if_splits)

function lexJson :: "js_string \<Rightarrow> json_token list option" where
  "lexJson s =
     (if s = [] then Some []
      else if hd s = 32 \<or> hd s = 9 \<or> hd s = 10 \<or> hd s = 13 then lexJson (tl s)
      else case punctuation (hd s) of
        Some t \<Rightarrow> map_option ((#) t) (lexJson (tl s))
      | None \<Rightarrow>
          (case lexScalar s of
             None \<Rightarrow> None
           | Some (v, r) \<Rightarrow> map_option ((#) (Scalar v)) (lexJson r)))"
  by pat_completeness auto

termination
  by (relation "measure length") (auto dest: lexScalar_shorter)

declare lexJson.simps [simp del]

subsection \<open>Reading: the stack machine\<close>

datatype parse_frame =
    ArrayFrame "json_value list"
  | ObjectFrame "(js_string \<times> json_value) list" js_string

datatype parse_mode =
    WantValue | WantElement | WantMember | WantKey "(js_string \<times> json_value) list"
  | WantColon "(js_string \<times> json_value) list" js_string | HaveValue json_value

definition startValue :: "parse_frame list \<Rightarrow> json_token \<Rightarrow> (parse_mode \<times> parse_frame list) option" where
  "startValue st t =
     (case t of
        Scalar v \<Rightarrow> Some (HaveValue v, st)
      | OpenArray \<Rightarrow> Some (WantElement, ArrayFrame [] # st)
      | OpenObject \<Rightarrow> Some (WantMember, st)
      | _ \<Rightarrow> None)"

definition readKey ::
    "(js_string \<times> json_value) list \<Rightarrow> parse_frame list \<Rightarrow> json_token \<Rightarrow> (parse_mode \<times> parse_frame list) option" where
  "readKey ms st t = (case t of Scalar (JString k) \<Rightarrow> Some (WantColon ms k, st) | _ \<Rightarrow> None)"

definition endValue :: "json_value \<Rightarrow> parse_frame list \<Rightarrow> json_token \<Rightarrow> (parse_mode \<times> parse_frame list) option" where
  "endValue v st t =
     (case st of
        [] \<Rightarrow> None
      | ArrayFrame vs # st' \<Rightarrow>
          (case t of
             Comma \<Rightarrow> Some (WantValue, ArrayFrame (vs @ [v]) # st')
           | CloseArray \<Rightarrow> Some (HaveValue (JArray (vs @ [v])), st')
           | _ \<Rightarrow> None)
      | ObjectFrame ms k # st' \<Rightarrow>
          (case t of
             Comma \<Rightarrow> Some (WantKey (ms @ [(k, v)]), st')
           | CloseObject \<Rightarrow> Some (HaveValue (JObject (ms @ [(k, v)])), st')
           | _ \<Rightarrow> None))"

definition parseStep :: "parse_mode \<Rightarrow> parse_frame list \<Rightarrow> json_token \<Rightarrow> (parse_mode \<times> parse_frame list) option" where
  "parseStep mode st t =
     (case mode of
        WantValue \<Rightarrow> startValue st t
      | WantElement \<Rightarrow> (if t = CloseArray then Some (HaveValue (JArray []), tl st) else startValue st t)
      | WantMember \<Rightarrow> (if t = CloseObject then Some (HaveValue (JObject []), st) else readKey [] st t)
      | WantKey ms \<Rightarrow> readKey ms st t
      | WantColon ms k \<Rightarrow> (if t = Colon then Some (WantValue, ObjectFrame ms k # st) else None)
      | HaveValue v \<Rightarrow> endValue v st t)"

fun parseTokens :: "parse_mode \<Rightarrow> parse_frame list \<Rightarrow> json_token list \<Rightarrow> json_value option" where
  "parseTokens mode st [] = (case mode of HaveValue v \<Rightarrow> if st = [] then Some v else None | _ \<Rightarrow> None)"
| "parseTokens mode st (t # ts) =
     (case parseStep mode st t of
        None \<Rightarrow> None
      | Some (mode', st') \<Rightarrow> parseTokens mode' st' ts)"

definition jsonParse :: "js_string \<Rightarrow> json_value option" where
  "jsonParse text = (case lexJson text of None \<Rightarrow> None | Some ts \<Rightarrow> parseTokens WantValue [] ts)"


section \<open>What was written is read back\<close>

subsection \<open>Numbers round trip\<close>

lemma nat_less_bitLength: "n < 2 ^ bitLength n"
proof (induction n rule: bitLength.induct)
  case (1 n)
  show ?case
  proof (cases "n = 0")
    case True
    then show ?thesis by (simp add: bitLength.simps)
  next
    case False
    then have "n div 2 < 2 ^ bitLength (n div 2)" using 1 by simp
    then show ?thesis using False by (subst bitLength.simps) simp
  qed
qed

lemma bitLength_le: "n < 2 ^ k \<Longrightarrow> bitLength n \<le> k"
proof (induction n arbitrary: k rule: bitLength.induct)
  case (1 n)
  show ?case
  proof (cases "n = 0")
    case True
    then show ?thesis by (simp add: bitLength.simps)
  next
    case False
    then obtain j where k: "k = Suc j" using 1(2) by (cases k) auto
    then have "n div 2 < 2 ^ j" using 1(2) by auto
    then show ?thesis using 1(1) [OF False, of j] False k by (subst bitLength.simps) simp
  qed
qed

lemma lastPlace_safe:
  assumes "n < 2 ^ 53"
  shows "lastPlace (of_nat n) \<le> 0"
proof -
  have "quotient_of (of_nat n) = (int n, 1)" 
    by (simp add: of_nat_rat quotient_of_Fract)
  moreover have "bitLength 1 = 1" by (simp add: bitLength.simps)
  ultimately show ?thesis using bitLength_le [OF assms] by (simp add: lastPlace_def Let_def)
qed

lemma roundHalfEven_int [simp]: "roundHalfEven (of_int i) = i"
  by (simp add: roundHalfEven_def)

lemma roundToDouble_safe:
  assumes "n < 2 ^ 53"
  shows "roundToDouble (of_nat n) = of_nat n"
proof -
  define e where "e = lastPlace (of_nat n)"
  define p :: int where "p = 2 ^ nat (- e)"
  have "e \<le> 0" using lastPlace_safe [OF assms] by (simp add: e_def)
  then have w: "binaryPower e = 1 / of_int p" by (cases "e = 0") (simp_all add: binaryPower_def p_def)
  have "p \<noteq> 0" by (simp add: p_def)
  moreover have "of_nat n / binaryPower e = of_int (int n * p)" by (simp add: w)
  ultimately show ?thesis unfolding roundToDouble_def e_def [symmetric] by (simp add: w del: of_int_mult) simp
qed

lemma numberValue_safe:
  assumes "int n \<le> MAX_SAFE_INTEGER" "negative \<Longrightarrow> 0 < n"
  shows "numberValue negative (of_nat n) = JNumber (js_int (if negative then - int n else int n))"
proof -
  have n: "n < 2 ^ 53" using assms(1) by simp
  have "(of_nat n :: rat) < of_nat (2 ^ 53)" using n of_nat_less_iff by blast
  moreover have "(of_nat (2 ^ 53) :: rat) < 2 ^ 1024" by simp
  ultimately have "\<not> (2 ^ 1024 :: rat) \<le> of_nat n" by linarith
  moreover have "(if of_nat n = (0 :: rat) then 0 else roundToDouble (of_nat n)) = of_nat n"
    using roundToDouble_safe [OF n] by simp
  ultimately show ?thesis using assms(2) by (auto simp: numberValue_def js_int_def Let_def)
qed

subsection \<open>Digits\<close>

lemma digit_unit: "d < 10 \<Longrightarrow> unat (of_nat (48 + d) :: 16 word) = 48 + d"
  by (rule unat_unit) simp

lemma isDigit_digit [simp]: "d < 10 \<Longrightarrow> isDigitUnit (of_nat (48 + d))"
  by (simp add: isDigitUnit_def word_le_nat_alt digit_unit del: of_nat_add)

lemma decimalText_digits: "\<forall>c \<in> set (decimalText n). isDigitUnit c"
proof (induction n rule: decimalText.induct)
  case (1 n)
  then show ?case by (subst decimalText.simps) (auto simp del: of_nat_add)
qed

lemma digitsValue_decimal: "digitsValue (decimalText n) = n"
proof (induction n rule: decimalText.induct)
  case (1 n)
  then show ?case by (subst decimalText.simps) (auto simp: digitsValue_def digit_unit simp del: of_nat_add)
qed

lemma decimalText_nonempty [simp]: "decimalText n \<noteq> []"
  by (subst decimalText.simps) simp

lemma decimalText_zero_head: "hd (decimalText n) = 48 \<Longrightarrow> n = 0 \<and> decimalText n = [48]"
proof (induction n rule: decimalText.induct)
  case (1 n)
  show ?case
  proof (cases "n < 10")
    case True
    have "n = 0" if "of_nat (48 + n) = (48 :: 16 word)"
    proof -
      have "48 + n = unat (48 :: 16 word)" using digit_unit [OF True] that by metis
      then show ?thesis by simp
    qed
    moreover have "decimalText n = [of_nat (48 + n)]" using True by (subst decimalText.simps) simp
    ultimately show ?thesis using 1(2) by auto
  next
    case False
    then have "hd (decimalText n) = hd (decimalText (n div 10))" by (subst decimalText.simps) simp
    then show ?thesis using 1 False by auto
  qed
qed

definition ends_number :: "js_string \<Rightarrow> bool" where
  "ends_number s \<longleftrightarrow> s \<noteq> [] \<and> (hd s = 44 \<or> hd s = 93)"

lemma lexNumber_integer:
  assumes "\<bar>i\<bar> \<le> MAX_SAFE_INTEGER" "ends_number rest"
  shows "lexNumber (integerText i @ rest) = Some (JNumber (js_int i), rest)"
proof -
  define n where "n = nat \<bar>i\<bar>"
  have hd45: "hd (decimalText n @ rest) \<noteq> 45"
    using decimalText_digits [of n] by (cases "decimalText n") (auto simp: isDigitUnit_def)
  have it: "integerText i = (if i < 0 then 45 # decimalText n else decimalText n)"
    by (simp add: integerText_def n_def)
  have "\<not> isDigitUnit (hd rest)" using assms(2) by (auto simp: ends_number_def isDigitUnit_def)
  then have take: "takeWhile isDigitUnit (decimalText n @ rest) = decimalText n"
    and drop: "dropWhile isDigitUnit (decimalText n @ rest) = rest"
    using decimalText_digits [of n] assms(2)
    by (cases rest; auto simp: ends_number_def takeWhile_append dropWhile_append3)+
  have "lexFraction rest = Some ([], rest)" "lexExponent rest = Some (0, rest)"
    using assms(2) by (auto simp: lexFraction_def lexExponent_def ends_number_def)
  moreover have "\<not> (hd (decimalText n) = 48 \<and> tl (decimalText n) \<noteq> [])"
    using decimalText_zero_head [of n] by auto
  moreover have "numberValue (i < 0) (of_nat n) = JNumber (js_int i)"
    using numberValue_safe [of n "i < 0"] assms(1) by (simp add: n_def)
  ultimately show ?thesis
    using hd45 take drop by (auto simp: lexNumber_def it Let_def digitsValue_decimal decimalScale_def)
qed

subsection \<open>Strings round trip\<close>

lemma hexUnitValue_hexUnit: "n < 16 \<Longrightarrow> hexUnitValue (hexUnit n) = Some n"
proof -
  assume n: "n < 16"
  then have "unat (of_nat (48 + n) :: 16 word) = 48 + n" "unat (of_nat (87 + n) :: 16 word) = 87 + n"
    by (simp_all add: unat_unit del: of_nat_add)
  then show ?thesis using n by (simp add: hexUnitValue_def hexUnit_def word_le_nat_alt del: of_nat_add)
qed

lemma hexQuad_escape:
  "hexQuad (hexUnit (unat c div 4096)) (hexUnit (unat c div 256 mod 16)) (hexUnit (unat c div 16 mod 16))
     (hexUnit (unat c mod 16)) = Some c"
proof -
  have lt: "unat c < 65536" using unsigned_less [of c] by simp
  have "unat c div 4096 < 16" using lt by linarith
  then have h: "hexUnitValue (hexUnit (unat c div 4096)) = Some (unat c div 4096)"
    by (rule hexUnitValue_hexUnit)
  have "unat c div 256 = unat c div 16 div 16" "unat c div 4096 = unat c div 256 div 16"
    by (simp_all flip: div_mult2_eq)
  moreover have "unat c = unat c div 16 * 16 + unat c mod 16"
    "unat c div 16 = unat c div 16 div 16 * 16 + unat c div 16 mod 16"
    "unat c div 256 = unat c div 256 div 16 * 16 + unat c div 256 mod 16" by simp_all
  ultimately have "unat c div 4096 * 4096 + unat c div 256 mod 16 * 256 + unat c div 16 mod 16 * 16 + unat c mod 16 = unat c"
    by linarith
  then show ?thesis by (simp add: hexQuad_def h hexUnitValue_hexUnit del: of_nat_add of_nat_mult)
qed

lemma lexString_unit:
  "lexString (quoteUnit c @ s) = map_option (apfst ((#) c)) (lexString s)"
proof -
  have "\<not> c < 32" if "isHighSurrogate c \<or> isLowSurrogate c"
    using that by (auto simp: isHighSurrogate_def isLowSurrogate_def word_less_nat_alt)
  then show ?thesis by (simp add: quoteUnit_def unicodeEscape_def simpleEscape_def hexQuad_escape)
qed

lemma lexString_surrogate:
  "isHighSurrogate c \<or> isLowSurrogate c \<Longrightarrow> lexString (c # s) = map_option (apfst ((#) c)) (lexString s)"
proof -
  assume c: "isHighSurrogate c \<or> isLowSurrogate c"
  then have "c \<noteq> 34" "\<not> c < 32" "c \<noteq> 92"
    by (auto simp: isHighSurrogate_def isLowSurrogate_def word_less_nat_alt)
  then show ?thesis by simp
qed

lemma lexString_quote: "lexString (quoteUnits s @ 34 # rest) = Some (s, rest)"
proof (induction s rule: quoteUnits.induct)
  case (2 c)
  then show ?case by (simp add: lexString_unit)
next
  case (3 c d s)
  show ?case
  proof (cases "isHighSurrogate c \<and> isLowSurrogate d")
    case True
    then show ?thesis using 3(1) by (simp add: lexString_surrogate del: lexString.simps(2))
  next
    case False
    then have "quoteUnits (c # d # s) = quoteUnit c @ quoteUnits (d # s)" by auto
    then show ?thesis using 3(2) [OF False] by (simp add: lexString_unit del: quoteUnits.simps lexString.simps)
  qed
qed simp

subsection \<open>The text is well-formed UTF-16\<close>

definition plain_unit :: "16 word \<Rightarrow> bool" where
  "plain_unit c \<longleftrightarrow> \<not> isHighSurrogate c \<and> \<not> isLowSurrogate c"

lemma paired_plain: "\<forall>c \<in> set s. plain_unit c \<Longrightarrow> paired_units (s @ t) = paired_units t"
proof (induction s)
  case (Cons c s)
  then show ?case by (cases "s @ t") (auto simp: plain_unit_def)
qed simp

lemma small_plain: "unat c < 55296 \<Longrightarrow> plain_unit c"
  by (simp add: plain_unit_def isHighSurrogate_def isLowSurrogate_def)

lemma hexUnit_plain: "n < 16 \<Longrightarrow> plain_unit (hexUnit n)"
  by (rule small_plain) (simp add: hexUnit_def unat_unit del: of_nat_add)

lemma plain_numerals [simp]: "plain_unit 34" "plain_unit 44" "plain_unit 91" "plain_unit 92" "plain_unit 93"
  "plain_unit 98" "plain_unit 102" "plain_unit 110" "plain_unit 114" "plain_unit 116" "plain_unit 117"
  by (simp_all add: plain_unit_def isHighSurrogate_def isLowSurrogate_def)

lemma unicodeEscape_plain: "\<forall>d \<in> set (unicodeEscape c). plain_unit d"
proof -
  have lt: "unat c < 65536" using unsigned_less [of c] by simp
  have "unat c div 4096 < 16" using lt by linarith
  then show ?thesis by (simp add: unicodeEscape_def hexUnit_plain)
qed

lemma quoteUnit_plain: "\<forall>d \<in> set (quoteUnit c). plain_unit d"
proof (cases "c < 32 \<or> isHighSurrogate c \<or> isLowSurrogate c")
  case True
  then show ?thesis using unicodeEscape_plain [of c] by (simp add: quoteUnit_def)
next
  case False
  then have "plain_unit c" by (simp add: plain_unit_def)
  then show ?thesis using False by (simp add: quoteUnit_def)
qed

lemma paired_quoteUnits: "paired_units (quoteUnits s @ t) = paired_units t"
proof (induction s rule: quoteUnits.induct)
  case (2 c)
  then show ?case using paired_plain [OF quoteUnit_plain] by simp
next
  case (3 c d s)
  then show ?case using paired_plain [OF quoteUnit_plain] by simp
qed simp

subsection \<open>Tokens of what was written\<close>

fun itemValue :: "tuple_item \<Rightarrow> json_value" where
  "itemValue (TextItem s) = JString s"
| "itemValue (IntItem i) = JNumber (js_int i)"
| "itemValue (TextsItem ss) = JArray (map JString ss)"

fun safe_item :: "tuple_item \<Rightarrow> bool" where
  "safe_item (IntItem i) \<longleftrightarrow> \<bar>i\<bar> \<le> MAX_SAFE_INTEGER"
| "safe_item _ \<longleftrightarrow> True"

fun separated :: "json_token list list \<Rightarrow> json_token list" where
  "separated [] = []"
| "separated [ts] = ts"
| "separated (ts # us # uss) = ts @ Comma # separated (us # uss)"

fun itemTokens :: "tuple_item \<Rightarrow> json_token list" where
  "itemTokens (TextItem s) = [Scalar (JString s)]"
| "itemTokens (IntItem i) = [Scalar (JNumber (js_int i))]"
| "itemTokens (TextsItem ss) = OpenArray # separated (map (\<lambda>s. [Scalar (JString s)]) ss) @ [CloseArray]"

lemma lexJson_Nil [simp]: "lexJson [] = Some []"
  by (simp add: lexJson.simps)

lemma lexJson_punctuation [simp]:
  "lexJson (91 # s) = map_option ((#) OpenArray) (lexJson s)"
  "lexJson (93 # s) = map_option ((#) CloseArray) (lexJson s)"
  "lexJson (44 # s) = map_option ((#) Comma) (lexJson s)"
  by (simp_all add: lexJson.simps [of "_ # _"] punctuation_def)

lemma lexJson_string: "lexJson (quoteJson s @ rest) = map_option ((#) (Scalar (JString s))) (lexJson rest)"
  by (simp add: quoteJson_def lexJson.simps [of "34 # _"] punctuation_def lexScalar_def lexString_quote)

lemma lexJson_integer:
  assumes "\<bar>i\<bar> \<le> MAX_SAFE_INTEGER" "ends_number rest"
  shows "lexJson (integerText i @ rest) = map_option ((#) (Scalar (JNumber (js_int i)))) (lexJson rest)"
proof -
  let ?s = "integerText i @ rest"
  have "hd ?s = 45 \<or> isDigitUnit (hd ?s)"
    using decimalText_digits [of "nat i"] decimalText_nonempty [of "nat i"] hd_in_set [of "decimalText (nat i)"]
    by (auto simp: integerText_def hd_append)
  moreover from this have "hd ?s \<noteq> 34" "hd ?s \<notin> {32, 9, 10, 13}" "punctuation (hd ?s) = None"
    by (auto simp: isDigitUnit_def punctuation_def)
  moreover have "?s \<noteq> []" using assms(2) by (simp add: ends_number_def)
  ultimately show ?thesis
    by (subst lexJson.simps) (simp add: lexScalar_def lexNumber_integer [OF assms])
qed

lemma lexJson_separated:
  assumes "\<And>x rest. x \<in> set xs \<Longrightarrow> ends_number rest \<Longrightarrow> lexJson (f x @ rest) = map_option ((@) (g x)) (lexJson rest)"
    and "ends_number rest"
  shows "lexJson (commaSeparated (map f xs) @ rest) = map_option ((@) (separated (map g xs))) (lexJson rest)"
  using assms(1)
proof (induction xs rule: induct_list012)
  case 1
  then show ?case by (cases "lexJson rest") simp_all
next
  case (2 x)
  then show ?case using assms(2) by simp
next
  case (3 x y zs)
  have "ends_number (44 # commaSeparated (map f (y # zs)) @ rest)" by (simp add: ends_number_def)
  then have "lexJson (f x @ 44 # commaSeparated (map f (y # zs)) @ rest) =
      map_option ((@) (g x)) (lexJson (44 # commaSeparated (map f (y # zs)) @ rest))" by - (rule 3(3), simp_all)
  then show ?case using 3(2,3) by (cases "lexJson rest") simp_all
qed

lemma lexJson_item:
  assumes "safe_item x" "ends_number rest"
  shows "lexJson (stringifyItem x @ rest) = map_option ((@) (itemTokens x)) (lexJson rest)"
proof (cases x)
  case (TextItem s)
  then show ?thesis by (cases "lexJson rest") (simp_all add: lexJson_string)
next
  case (IntItem i)
  then show ?thesis using assms by (cases "lexJson rest") (simp_all add: lexJson_integer)
next
  case (TextsItem ss)
  have e: "ends_number (93 # rest)" by (simp add: ends_number_def)
  have "lexJson (quoteJson s @ r) = map_option ((@) [Scalar (JString s)]) (lexJson r)" for s r
    by (cases "lexJson r") (simp_all add: lexJson_string)
  then have "lexJson (commaSeparated (map quoteJson ss) @ 93 # rest) =
      map_option ((@) (separated (map (\<lambda>s. [Scalar (JString s)]) ss))) (lexJson (93 # rest))"
    by (intro lexJson_separated e)
  then show ?thesis using TextsItem by (cases "lexJson rest") simp_all
qed

subsection \<open>The stack machine reads them back\<close>

definition reads_as :: "json_token list \<Rightarrow> json_value \<Rightarrow> bool" where
  "reads_as ts v \<longleftrightarrow> (\<forall>mode st rest. mode = WantValue \<or> mode = WantElement \<longrightarrow>
     parseTokens mode st (ts @ rest) = parseTokens (HaveValue v) st rest)"

lemma reads_scalar [simp]: "reads_as [Scalar v] v"
  by (auto simp: reads_as_def parseStep_def startValue_def)

lemma reads_separated:
  assumes "\<forall>(ts, v) \<in> set tvs. reads_as ts v"
  shows "tvs \<noteq> [] \<Longrightarrow> mode = WantValue \<or> mode = WantElement \<Longrightarrow>
    parseTokens mode (ArrayFrame vs # st) (separated (map fst tvs) @ CloseArray # rest) =
    parseTokens (HaveValue (JArray (vs @ map snd tvs))) st rest"
  using assms
proof (induction tvs arbitrary: vs mode rule: induct_list012)
  case (2 x)
  then have r: "reads_as (fst x) (snd x)" by (simp add: case_prod_beta)
  have "parseTokens mode (ArrayFrame vs # st) (fst x @ CloseArray # rest) =
      parseTokens (HaveValue (snd x)) (ArrayFrame vs # st) (CloseArray # rest)"
    using r 2(2) unfolding reads_as_def by blast
  then show ?case by (simp add: parseStep_def endValue_def)
next
  case (3 x y zs)
  then have r: "reads_as (fst x) (snd x)" by (simp add: case_prod_beta)
  have "parseTokens mode (ArrayFrame vs # st) (fst x @ Comma # separated (map fst (y # zs)) @ CloseArray # rest) =
      parseTokens (HaveValue (snd x)) (ArrayFrame vs # st) (Comma # separated (map fst (y # zs)) @ CloseArray # rest)"
    using r 3(4) unfolding reads_as_def by blast
  also have "\<dots> = parseTokens WantValue (ArrayFrame (vs @ [snd x]) # st) (separated (map fst (y # zs)) @ CloseArray # rest)"
    by (simp add: parseStep_def endValue_def)
  also have "\<dots> = parseTokens (HaveValue (JArray ((vs @ [snd x]) @ map snd (y # zs)))) st rest"
    using 3(5) by (intro 3(2)) auto
  finally show ?case by simp
qed simp

lemma reads_array:
  assumes "\<forall>(ts, v) \<in> set tvs. reads_as ts v"
  shows "reads_as (OpenArray # separated (map fst tvs) @ [CloseArray]) (JArray (map snd tvs))"
proof (cases "tvs = []")
  case True
  then show ?thesis by (auto simp: reads_as_def parseStep_def startValue_def)
next
  case False
  then show ?thesis using reads_separated [OF assms False, of WantElement "[]"]
    by (auto simp: reads_as_def parseStep_def startValue_def)
qed

lemma reads_item: "reads_as (itemTokens x) (itemValue x)"
proof (cases x)
  case (TextsItem ss)
  then show ?thesis using reads_array [of "map (\<lambda>s. ([Scalar (JString s)], JString s)) ss"]
    by (simp add: comp_def)
qed simp_all

theorem jsonParse_stringify:
  assumes "\<forall>x \<in> set items. safe_item x"
  shows "jsonParse (jsonStringify items) = Some (JArray (map itemValue items))"
proof -
  have "lexJson (commaSeparated (map stringifyItem items) @ [93]) =
      map_option ((@) (separated (map itemTokens items))) (lexJson [93])"
    using assms lexJson_item by (intro lexJson_separated) (auto simp: ends_number_def)
  then have l: "lexJson (jsonStringify items) = Some (OpenArray # separated (map itemTokens items) @ [CloseArray])"
    by (simp add: jsonStringify_def)
  have "reads_as (OpenArray # separated (map itemTokens items) @ [CloseArray]) (JArray (map itemValue items))"
    using reads_array [of "map (\<lambda>x. (itemTokens x, itemValue x)) items"] reads_item by (simp add: comp_def)
  then have "parseTokens WantValue [] ((OpenArray # separated (map itemTokens items) @ [CloseArray]) @ []) =
      parseTokens (HaveValue (JArray (map itemValue items))) [] []" unfolding reads_as_def by blast
  then show ?thesis by (simp add: jsonParse_def l)
qed

subsection \<open>UTF-8\<close>

lemma digit_plain: "isDigitUnit c \<Longrightarrow> plain_unit c"
  by (rule small_plain) (simp add: isDigitUnit_def word_le_nat_alt)

lemma paired_quoteJson: "paired_units (quoteJson s @ t) = paired_units t"
  using paired_plain [of "[34]" "quoteUnits s @ 34 # t"] paired_plain [of "[34]" t]
  by (simp add: quoteJson_def paired_quoteUnits)

lemma paired_integerText: "paired_units (integerText i @ t) = paired_units t"
proof -
  have "\<forall>c \<in> set (integerText i). plain_unit c"
    using decimalText_digits digit_plain by (auto simp: integerText_def small_plain)
  then show ?thesis by (rule paired_plain)
qed

lemma paired_separated:
  assumes "\<And>x t. x \<in> set xs \<Longrightarrow> paired_units (f x @ t) = paired_units t"
  shows "paired_units (commaSeparated (map f xs) @ t) = paired_units t"
  using assms
proof (induction xs rule: induct_list012)
  case (3 x y zs)
  have "paired_units (44 # s) = paired_units s" for s using paired_plain [of "[44]" s] by simp
  then show ?case using 3 by simp
qed simp_all

lemma paired_item: "paired_units (stringifyItem x @ t) = paired_units t"
proof (cases x)
  case (TextsItem ss)
  then show ?thesis
    using paired_plain [of "[91]" "commaSeparated (map quoteJson ss) @ 93 # t"] paired_plain [of "[93]" t]
    by (simp add: paired_separated paired_quoteJson)
qed (simp_all add: paired_quoteJson paired_integerText)

lemma jsonStringify_wellFormed: "isWellFormedUtf16 (jsonStringify items)"
proof -
  have "paired_units (jsonStringify items @ []) = paired_units ([] :: js_string)"
    using paired_plain [of "[91]" "commaSeparated (map stringifyItem items) @ [93]"] paired_plain [of "[93]" "[]"]
    by (simp add: jsonStringify_def paired_separated paired_item)
  then show ?thesis by (simp add: isWellFormedUtf16_iff)
qed

lemma jsonStringify_bytes: "decodeUtf8Bom (encodeUtf8 (jsonStringify items)) = Some (jsonStringify items)"
proof -
  have "jsonStringify items = 91 # tl (jsonStringify items)" by (simp add: jsonStringify_def)
  moreover have "take 3 (encodeUtf8 (91 # s)) \<noteq> BOM" for s
    by (cases s) (auto simp: encodeUtf8_def utf8Point_def isHighSurrogate_def isLowSurrogate_def BOM_def)
  ultimately have "take 3 (encodeUtf8 (jsonStringify items)) \<noteq> BOM" by metis
  then show ?thesis using utf8_roundtrip [OF jsonStringify_wellFormed] by (simp add: decodeUtf8Bom_def)
qed

end
