(* ===== verification/Invitation_Wire.thy ===== *)
theory Invitation_Wire
  imports Json_Text
begin

text \<open>
  \<open>packages/core/src/invitation-wire.ts\<close> and \<open>policy/invitation-time.ts\<close>: the three
  signed envelopes of a public invitation, the field checks every envelope passes, their
  encoding as canonical JSON tuples and its strict decoding, signing and verification, the
  time window in which an envelope is usable and the checks that bind a join request to its
  offer and an acceptance to both. Fields have the types the interfaces give them; a string
  is its list of UTF-16 code units. JSON and UTF-8 are those of the language
  (\<open>Json_Text\<close>, \<open>Text_Encoding\<close>). The Base64 package and SHA-256 are third-party
  code: they enter as the fields of \<open>wire_codec\<close>. A decoded tuple holds values of unknown
  type, so the checks of a decoded envelope narrow them in the order of the source.
\<close>


section \<open>Definitions\<close>

datatype wire_error =
    InvalidEncoding | NonCanonicalEncoding | UnsupportedVersion | InvalidField | SizeLimit
  | NotYetValid | Expired | IdentityMismatch | BindingMismatch | MissingIdentitySerializer

definition OFFER_TAG :: js_string where "OFFER_TAG = asciiUnits ''peerborne.invitation.offer''"
definition JOIN_TAG :: js_string where "JOIN_TAG = asciiUnits ''peerborne.invitation.join''"
definition ACCEPTANCE_TAG :: js_string where "ACCEPTANCE_TAG = asciiUnits ''peerborne.invitation.acceptance''"

definition INVITATION_WIRE_VERSION :: int where "INVITATION_WIRE_VERSION = 1"
definition INVITATION_ID_LENGTH :: nat where "INVITATION_ID_LENGTH = 32"
definition INVITATION_DIGEST_LENGTH :: nat where "INVITATION_DIGEST_LENGTH = 32"
definition INVITATION_EPOCH_ID_LENGTH :: nat where "INVITATION_EPOCH_ID_LENGTH = 32"
definition INVITATION_KEM_PUBLIC_KEY_LENGTH :: nat where "INVITATION_KEM_PUBLIC_KEY_LENGTH = 65"
definition MAX_INVITATION_MESSAGE_BYTES :: nat where "MAX_INVITATION_MESSAGE_BYTES = 4194304"
definition MAX_INVITATION_JOIN_REQUEST_BYTES :: nat where "MAX_INVITATION_JOIN_REQUEST_BYTES = 32768"
definition MAX_INVITATION_DOCUMENT_ID_BYTES :: nat where "MAX_INVITATION_DOCUMENT_ID_BYTES = 4096"
definition MAX_INVITATION_IDENTITY_BYTES :: nat where "MAX_INVITATION_IDENTITY_BYTES = 4096"
definition MAX_INVITATION_SIGNATURE_BYTES :: nat where "MAX_INVITATION_SIGNATURE_BYTES = 8192"
definition MAX_INVITATION_RENDEZVOUS_ENTRIES :: nat where "MAX_INVITATION_RENDEZVOUS_ENTRIES = 8"
definition MAX_INVITATION_RENDEZVOUS_BYTES :: nat where "MAX_INVITATION_RENDEZVOUS_BYTES = 2048"
definition MAX_INVITATION_OPAQUE_PAYLOAD_BYTES :: nat where "MAX_INVITATION_OPAQUE_PAYLOAD_BYTES = 1048576"
definition MIN_INVITATION_SEALED_WELCOME_BYTES :: nat where "MIN_INVITATION_SEALED_WELCOME_BYTES = 32 + 65 + 12 + 16"
definition MAX_INVITATION_TTL_MS :: int where "MAX_INVITATION_TTL_MS = 7 * 24 * 60 * 60 * 1000"
definition DEFAULT_INVITATION_CLOCK_SKEW_MS :: int where "DEFAULT_INVITATION_CLOCK_SKEW_MS = 60 * 1000"

lemmas invitation_limits =
  INVITATION_WIRE_VERSION_def INVITATION_ID_LENGTH_def INVITATION_DIGEST_LENGTH_def
  INVITATION_EPOCH_ID_LENGTH_def INVITATION_KEM_PUBLIC_KEY_LENGTH_def MAX_INVITATION_MESSAGE_BYTES_def
  MAX_INVITATION_JOIN_REQUEST_BYTES_def MAX_INVITATION_DOCUMENT_ID_BYTES_def
  MAX_INVITATION_IDENTITY_BYTES_def MAX_INVITATION_SIGNATURE_BYTES_def
  MAX_INVITATION_RENDEZVOUS_ENTRIES_def MAX_INVITATION_RENDEZVOUS_BYTES_def
  MAX_INVITATION_OPAQUE_PAYLOAD_BYTES_def MIN_INVITATION_SEALED_WELCOME_BYTES_def
  MAX_INVITATION_TTL_MS_def DEFAULT_INVITATION_CLOCK_SKEW_MS_def

datatype InvitationRole = Reader | Editor

record UnsignedInvitationOfferV1 =
  offVersion :: int
  invitationId :: bytes
  offDocumentId :: js_string
  offIssuer :: js_string
  offRole :: InvitationRole
  offIssuedAtMs :: int
  offExpiresAtMs :: int
  rendezvous :: "js_string list"

record InvitationOfferV1 = UnsignedInvitationOfferV1 +
  offSignature :: bytes

record UnsignedInvitationJoinRequestV1 =
  joinVersion :: int
  joinOfferDigest :: bytes
  requestId :: bytes
  joinDocumentId :: js_string
  joinRole :: InvitationRole
  joinRecipient :: js_string
  joinKemPublicKey :: bytes

record InvitationJoinRequestV1 = UnsignedInvitationJoinRequestV1 +
  joinSignature :: bytes

record UnsignedInvitationAcceptanceV1 =
  accVersion :: int
  acceptanceId :: bytes
  accOfferDigest :: bytes
  accRequestDigest :: bytes
  accDocumentId :: js_string
  accIssuer :: js_string
  accRecipient :: js_string
  accKemPublicKey :: bytes
  accRole :: InvitationRole
  welcomeEpochId :: bytes
  sealedWelcome :: bytes
  encryptedBootstrap :: bytes
  accIssuedAtMs :: int
  accExpiresAtMs :: int

record InvitationAcceptanceV1 = UnsignedInvitationAcceptanceV1 +
  accSignature :: bytes

subsection \<open>Field checks\<close>

definition assertVersion :: "int \<Rightarrow> wire_error + unit" where
  "assertVersion v = require (v = INVITATION_WIRE_VERSION) UnsupportedVersion"

definition assertBytes :: "bytes \<Rightarrow> nat \<Rightarrow> nat \<Rightarrow> wire_error + unit" where
  "assertBytes b minLength maxLength =
     (if length b < minLength \<or> length b > maxLength then
        Inl (if length b > maxLength then SizeLimit else InvalidField)
      else Inr ())"

text \<open>
  \<open>TextEncoder\<close> and \<open>TextDecoder\<close> on code units: the UTF-8 length when every
  surrogate is paired, \<open>None\<close> otherwise. A leading byte-order mark does not
  survive decoding, so such a string does not compare equal afterwards.
\<close>

fun utf8Length :: "js_string \<Rightarrow> nat option" where
  "utf8Length [] = Some 0"
| "utf8Length (c # cs) =
     (if c < 128 then map_option (\<lambda>n. n + 1) (utf8Length cs)
      else if c < 2048 then map_option (\<lambda>n. n + 2) (utf8Length cs)
      else if c < 55296 \<or> 57343 < c then map_option (\<lambda>n. n + 3) (utf8Length cs)
      else if c < 56320 then
        (case cs of
           d # ds \<Rightarrow> if 56320 \<le> d \<and> d \<le> 57343 then map_option (\<lambda>n. n + 4) (utf8Length ds) else None
         | [] \<Rightarrow> None)
      else None)"

definition isControlUnit :: "16 word \<Rightarrow> bool" where
  "isControlUnit c \<longleftrightarrow> c \<le> 31 \<or> c = 127"

definition assertWireString :: "js_string \<Rightarrow> nat \<Rightarrow> wire_error + unit" where
  "assertWireString s maxBytes =
     (if s = [] then Inl InvalidField
      else if \<exists>c \<in> set s. isControlUnit c then Inl InvalidField
      else case utf8Length s of
        None \<Rightarrow> Inl InvalidField
      | Some n \<Rightarrow>
          if hd s = 65279 then Inl InvalidField
          else if n > maxBytes then Inl SizeLimit else Inr ())"

definition assertTimestamp :: "int \<Rightarrow> wire_error + unit" where
  "assertTimestamp v = require (\<not> (\<bar>v\<bar> > MAX_SAFE_INTEGER \<or> v < 0)) InvalidField"

definition assertTimeWindow :: "int \<Rightarrow> int \<Rightarrow> wire_error + unit" where
  "assertTimeWindow issuedAtMs expiresAtMs =
     sbind (assertTimestamp issuedAtMs) (\<lambda>_.
     sbind (assertTimestamp expiresAtMs) (\<lambda>_.
     sbind (require (\<not> expiresAtMs \<le> issuedAtMs) InvalidField) (\<lambda>_.
     require (\<not> expiresAtMs - issuedAtMs > MAX_INVITATION_TTL_MS) SizeLimit)))"

definition assertSignature :: "bytes \<Rightarrow> wire_error + unit" where
  "assertSignature b = assertBytes b 1 MAX_INVITATION_SIGNATURE_BYTES"

fun assertRendezvous_loop :: "js_string set \<Rightarrow> js_string list \<Rightarrow> wire_error + unit" where
  "assertRendezvous_loop seen [] = Inr ()"
| "assertRendezvous_loop seen (v # vs) =
     sbind (assertWireString v MAX_INVITATION_RENDEZVOUS_BYTES) (\<lambda>_.
     sbind (require (v \<notin> seen) InvalidField) (\<lambda>_.
     assertRendezvous_loop (insert v seen) vs))"

definition assertRendezvous :: "js_string list \<Rightarrow> wire_error + unit" where
  "assertRendezvous vs =
     sbind (require (\<not> length vs > MAX_INVITATION_RENDEZVOUS_ENTRIES) SizeLimit) (\<lambda>_.
     assertRendezvous_loop {} vs)"

definition assertOfferCore :: "'a UnsignedInvitationOfferV1_scheme \<Rightarrow> wire_error + unit" where
  "assertOfferCore v =
     sbind (assertVersion (offVersion v)) (\<lambda>_.
     sbind (assertBytes (invitationId v) INVITATION_ID_LENGTH INVITATION_ID_LENGTH) (\<lambda>_.
     sbind (assertWireString (offDocumentId v) MAX_INVITATION_DOCUMENT_ID_BYTES) (\<lambda>_.
     sbind (assertWireString (offIssuer v) MAX_INVITATION_IDENTITY_BYTES) (\<lambda>_.
     sbind (assertTimeWindow (offIssuedAtMs v) (offExpiresAtMs v)) (\<lambda>_.
     assertRendezvous (rendezvous v))))))"

definition assertValidInvitationOffer :: "InvitationOfferV1 \<Rightarrow> wire_error + unit" where
  "assertValidInvitationOffer v = sbind (assertOfferCore v) (\<lambda>_. assertSignature (offSignature v))"

definition assertJoinCore :: "'a UnsignedInvitationJoinRequestV1_scheme \<Rightarrow> wire_error + unit" where
  "assertJoinCore v =
     sbind (assertVersion (joinVersion v)) (\<lambda>_.
     sbind (assertBytes (joinOfferDigest v) INVITATION_DIGEST_LENGTH INVITATION_DIGEST_LENGTH) (\<lambda>_.
     sbind (assertBytes (requestId v) INVITATION_ID_LENGTH INVITATION_ID_LENGTH) (\<lambda>_.
     sbind (assertWireString (joinDocumentId v) MAX_INVITATION_DOCUMENT_ID_BYTES) (\<lambda>_.
     sbind (assertWireString (joinRecipient v) MAX_INVITATION_IDENTITY_BYTES) (\<lambda>_.
     assertBytes (joinKemPublicKey v)
       INVITATION_KEM_PUBLIC_KEY_LENGTH INVITATION_KEM_PUBLIC_KEY_LENGTH)))))"

definition assertValidInvitationJoinRequest :: "InvitationJoinRequestV1 \<Rightarrow> wire_error + unit" where
  "assertValidInvitationJoinRequest v = sbind (assertJoinCore v) (\<lambda>_. assertSignature (joinSignature v))"

definition assertAcceptanceCore :: "'a UnsignedInvitationAcceptanceV1_scheme \<Rightarrow> wire_error + unit" where
  "assertAcceptanceCore v =
     sbind (assertVersion (accVersion v)) (\<lambda>_.
     sbind (assertBytes (acceptanceId v) INVITATION_ID_LENGTH INVITATION_ID_LENGTH) (\<lambda>_.
     sbind (assertBytes (accOfferDigest v) INVITATION_DIGEST_LENGTH INVITATION_DIGEST_LENGTH) (\<lambda>_.
     sbind (assertBytes (accRequestDigest v) INVITATION_DIGEST_LENGTH INVITATION_DIGEST_LENGTH) (\<lambda>_.
     sbind (assertWireString (accDocumentId v) MAX_INVITATION_DOCUMENT_ID_BYTES) (\<lambda>_.
     sbind (assertWireString (accIssuer v) MAX_INVITATION_IDENTITY_BYTES) (\<lambda>_.
     sbind (assertWireString (accRecipient v) MAX_INVITATION_IDENTITY_BYTES) (\<lambda>_.
     sbind (assertBytes (accKemPublicKey v)
       INVITATION_KEM_PUBLIC_KEY_LENGTH INVITATION_KEM_PUBLIC_KEY_LENGTH) (\<lambda>_.
     sbind (assertBytes (welcomeEpochId v) INVITATION_EPOCH_ID_LENGTH INVITATION_EPOCH_ID_LENGTH) (\<lambda>_.
     sbind (assertBytes (sealedWelcome v)
       MIN_INVITATION_SEALED_WELCOME_BYTES MAX_INVITATION_OPAQUE_PAYLOAD_BYTES) (\<lambda>_.
     sbind (assertBytes (encryptedBootstrap v) 1 MAX_INVITATION_OPAQUE_PAYLOAD_BYTES) (\<lambda>_.
     assertTimeWindow (accIssuedAtMs v) (accExpiresAtMs v))))))))))))"

definition assertValidInvitationAcceptance :: "InvitationAcceptanceV1 \<Rightarrow> wire_error + unit" where
  "assertValidInvitationAcceptance v =
     sbind (assertAcceptanceCore v) (\<lambda>_. assertSignature (accSignature v))"

subsection \<open>Encoding\<close>

text \<open>
  \<open>Base64.fromUint8Array\<close> in its URL-safe form, \<open>Base64.toUint8Array\<close> (\<open>None\<close> when it
  throws) and SHA-256.
\<close>

record wire_codec =
  base64Url :: "bytes \<Rightarrow> js_string"
  fromBase64 :: "js_string \<Rightarrow> bytes option"
  sha256 :: "bytes \<Rightarrow> bytes"

fun roleText :: "InvitationRole \<Rightarrow> js_string" where
  "roleText Reader = asciiUnits ''reader''"
| "roleText Editor = asciiUnits ''editor''"

definition encodeJsonTuple :: "tuple_item list \<Rightarrow> wire_error + bytes" where
  "encodeJsonTuple tuple =
     (let encoded = encodeUtf8 (jsonStringify tuple)
      in if length encoded > MAX_INVITATION_MESSAGE_BYTES then Inl SizeLimit else Inr encoded)"

text \<open>The signature is \<open>None\<close> in the tuple that is signed.\<close>

definition signatureItem :: "wire_codec \<Rightarrow> bytes option \<Rightarrow> tuple_item list" where
  "signatureItem codec signature =
     (case signature of None \<Rightarrow> [] | Some b \<Rightarrow> [TextItem (base64Url codec b)])"

definition offerTuple ::
    "wire_codec \<Rightarrow> 'a UnsignedInvitationOfferV1_scheme \<Rightarrow> bytes option \<Rightarrow> tuple_item list" where
  "offerTuple codec offer signature =
     [TextItem OFFER_TAG, IntItem INVITATION_WIRE_VERSION, TextItem (base64Url codec (invitationId offer)),
      TextItem (offDocumentId offer), TextItem (offIssuer offer), TextItem (roleText (offRole offer)),
      IntItem (offIssuedAtMs offer), IntItem (offExpiresAtMs offer), TextsItem (rendezvous offer)]
     @ signatureItem codec signature"

definition joinTuple ::
    "wire_codec \<Rightarrow> 'a UnsignedInvitationJoinRequestV1_scheme \<Rightarrow> bytes option \<Rightarrow> tuple_item list" where
  "joinTuple codec request signature =
     [TextItem JOIN_TAG, IntItem INVITATION_WIRE_VERSION, TextItem (base64Url codec (joinOfferDigest request)),
      TextItem (base64Url codec (requestId request)), TextItem (joinDocumentId request),
      TextItem (roleText (joinRole request)), TextItem (joinRecipient request),
      TextItem (base64Url codec (joinKemPublicKey request))]
     @ signatureItem codec signature"

definition acceptanceTuple ::
    "wire_codec \<Rightarrow> 'a UnsignedInvitationAcceptanceV1_scheme \<Rightarrow> bytes option \<Rightarrow> tuple_item list" where
  "acceptanceTuple codec acceptance signature =
     [TextItem ACCEPTANCE_TAG, IntItem INVITATION_WIRE_VERSION,
      TextItem (base64Url codec (acceptanceId acceptance)), TextItem (base64Url codec (accOfferDigest acceptance)),
      TextItem (base64Url codec (accRequestDigest acceptance)), TextItem (accDocumentId acceptance),
      TextItem (accIssuer acceptance), TextItem (accRecipient acceptance),
      TextItem (base64Url codec (accKemPublicKey acceptance)), TextItem (roleText (accRole acceptance)),
      TextItem (base64Url codec (welcomeEpochId acceptance)), TextItem (base64Url codec (sealedWelcome acceptance)),
      TextItem (base64Url codec (encryptedBootstrap acceptance)), IntItem (accIssuedAtMs acceptance),
      IntItem (accExpiresAtMs acceptance)]
     @ signatureItem codec signature"

definition encodeInvitationOffer :: "wire_codec \<Rightarrow> InvitationOfferV1 \<Rightarrow> wire_error + bytes" where
  "encodeInvitationOffer codec offer =
     sbind (assertValidInvitationOffer offer) (\<lambda>_.
     encodeJsonTuple (offerTuple codec offer (Some (offSignature offer))))"

definition encodeInvitationJoinRequest ::
    "wire_codec \<Rightarrow> InvitationJoinRequestV1 \<Rightarrow> wire_error + bytes" where
  "encodeInvitationJoinRequest codec request =
     sbind (assertValidInvitationJoinRequest request) (\<lambda>_.
     sbind (encodeJsonTuple (joinTuple codec request (Some (joinSignature request)))) (\<lambda>encoded.
     if length encoded > MAX_INVITATION_JOIN_REQUEST_BYTES then Inl SizeLimit else Inr encoded))"

definition encodeInvitationAcceptance ::
    "wire_codec \<Rightarrow> InvitationAcceptanceV1 \<Rightarrow> wire_error + bytes" where
  "encodeInvitationAcceptance codec acceptance =
     sbind (assertValidInvitationAcceptance acceptance) (\<lambda>_.
     encodeJsonTuple (acceptanceTuple codec acceptance (Some (accSignature acceptance))))"

subsection \<open>Decoding\<close>

definition parseJsonTuple :: "bytes \<Rightarrow> wire_error + json_value list" where
  "parseJsonTuple b =
     (if b = [] then Inl InvalidEncoding
      else if length b > MAX_INVITATION_MESSAGE_BYTES then Inl SizeLimit
      else case decodeUtf8Bom b of
        None \<Rightarrow> Inl InvalidEncoding
      | Some txt \<Rightarrow>
          (case jsonParse txt of
             Some (JArray tuple) \<Rightarrow> Inr tuple
           | _ \<Rightarrow> Inl InvalidEncoding))"

text \<open>The characters of \<open>/^[A-Za-z0-9_-]+$/u\<close>.\<close>

definition isBase64UrlUnit :: "16 word \<Rightarrow> bool" where
  "isBase64UrlUnit c \<longleftrightarrow> (65 \<le> c \<and> c \<le> 90) \<or> (97 \<le> c \<and> c \<le> 122) \<or> (48 \<le> c \<and> c \<le> 57) \<or> c = 95 \<or> c = 45"

definition decodeBase64Url :: "wire_codec \<Rightarrow> json_value \<Rightarrow> wire_error + bytes" where
  "decodeBase64Url codec v =
     (case v of
        JString s \<Rightarrow>
          if s = [] \<or> \<not> list_all isBase64UrlUnit s then Inl InvalidEncoding
          else (case fromBase64 codec s of
             None \<Rightarrow> Inl InvalidEncoding
           | Some decoded \<Rightarrow> if base64Url codec decoded \<noteq> s then Inl NonCanonicalEncoding else Inr decoded)
      | _ \<Rightarrow> Inl InvalidEncoding)"

text \<open>
  \<open>assertVersion\<close>, \<open>assertWireString\<close>, \<open>assertRole\<close>, \<open>assertTimestamp\<close> and
  \<open>assertRendezvous\<close> on a value of unknown type; each returns the value it has narrowed.
\<close>

definition assertVersionValue :: "json_value \<Rightarrow> wire_error + unit" where
  "assertVersionValue v = require (v = JNumber (js_int INVITATION_WIRE_VERSION)) UnsupportedVersion"

definition wireStringValue :: "json_value \<Rightarrow> nat \<Rightarrow> wire_error + js_string" where
  "wireStringValue v maxBytes =
     (case v of JString s \<Rightarrow> sbind (assertWireString s maxBytes) (\<lambda>_. Inr s) | _ \<Rightarrow> Inl InvalidField)"

definition roleValue :: "json_value \<Rightarrow> wire_error + InvitationRole" where
  "roleValue v =
     (if v = JString (roleText Reader) then Inr Reader
      else if v = JString (roleText Editor) then Inr Editor
      else Inl InvalidField)"

definition timestampValue :: "json_value \<Rightarrow> wire_error + int" where
  "timestampValue v =
     (case v of
        JNumber n \<Rightarrow> (case asSafeInteger n of
            Some i \<Rightarrow> sbind (assertTimestamp i) (\<lambda>_. Inr i)
          | None \<Rightarrow> Inl InvalidField)
      | _ \<Rightarrow> Inl InvalidField)"

fun rendezvousValue_loop :: "js_string set \<Rightarrow> json_value list \<Rightarrow> wire_error + js_string list" where
  "rendezvousValue_loop seen [] = Inr []"
| "rendezvousValue_loop seen (v # vs) =
     sbind (wireStringValue v MAX_INVITATION_RENDEZVOUS_BYTES) (\<lambda>s.
     sbind (require (s \<notin> seen) InvalidField) (\<lambda>_.
     sbind (rendezvousValue_loop (insert s seen) vs) (\<lambda>ss. Inr (s # ss))))"

definition rendezvousValue :: "json_value \<Rightarrow> wire_error + js_string list" where
  "rendezvousValue v =
     (case v of
        JArray vs \<Rightarrow>
          sbind (require (\<not> length vs > MAX_INVITATION_RENDEZVOUS_ENTRIES) SizeLimit) (\<lambda>_.
          rendezvousValue_loop {} vs)
      | _ \<Rightarrow> Inl InvalidField)"

text \<open>The checks of \<open>assertValidInvitationOffer\<close> on the object \<open>decodeInvitationOffer\<close> builds.\<close>

definition narrowOffer :: "bytes \<Rightarrow> json_value list \<Rightarrow> bytes \<Rightarrow> wire_error + InvitationOfferV1" where
  "narrowOffer ident tuple signature =
     sbind (assertBytes ident INVITATION_ID_LENGTH INVITATION_ID_LENGTH) (\<lambda>_.
     sbind (wireStringValue (tuple ! 3) MAX_INVITATION_DOCUMENT_ID_BYTES) (\<lambda>documentId.
     sbind (wireStringValue (tuple ! 4) MAX_INVITATION_IDENTITY_BYTES) (\<lambda>issuer.
     sbind (roleValue (tuple ! 5)) (\<lambda>role.
     sbind (timestampValue (tuple ! 6)) (\<lambda>issuedAtMs.
     sbind (timestampValue (tuple ! 7)) (\<lambda>expiresAtMs.
     sbind (assertTimeWindow issuedAtMs expiresAtMs) (\<lambda>_.
     sbind (rendezvousValue (tuple ! 8)) (\<lambda>addresses.
     sbind (assertSignature signature) (\<lambda>_.
     Inr \<lparr>offVersion = INVITATION_WIRE_VERSION, invitationId = ident, offDocumentId = documentId,
       offIssuer = issuer, offRole = role, offIssuedAtMs = issuedAtMs, offExpiresAtMs = expiresAtMs,
       rendezvous = addresses, offSignature = signature\<rparr>)))))))))"

definition decodeInvitationOffer :: "wire_codec \<Rightarrow> bytes \<Rightarrow> wire_error + InvitationOfferV1" where
  "decodeInvitationOffer codec b =
     sbind (parseJsonTuple b) (\<lambda>tuple.
     sbind (require (\<not> (length tuple \<noteq> 10 \<or> tuple ! 0 \<noteq> JString OFFER_TAG)) InvalidEncoding) (\<lambda>_.
     sbind (assertVersionValue (tuple ! 1)) (\<lambda>_.
     sbind (decodeBase64Url codec (tuple ! 2)) (\<lambda>ident.
     sbind (decodeBase64Url codec (tuple ! 9)) (\<lambda>signature.
     sbind (narrowOffer ident tuple signature) (\<lambda>offer.
     sbind (encodeInvitationOffer codec offer) (\<lambda>canonical.
     sbind (require (equalBytes b canonical) NonCanonicalEncoding) (\<lambda>_. Inr offer))))))))"

definition narrowJoinRequest ::
    "bytes \<Rightarrow> bytes \<Rightarrow> json_value list \<Rightarrow> bytes \<Rightarrow> bytes \<Rightarrow> wire_error + InvitationJoinRequestV1" where
  "narrowJoinRequest offerDigest ident tuple kemPublicKey signature =
     sbind (assertBytes offerDigest INVITATION_DIGEST_LENGTH INVITATION_DIGEST_LENGTH) (\<lambda>_.
     sbind (assertBytes ident INVITATION_ID_LENGTH INVITATION_ID_LENGTH) (\<lambda>_.
     sbind (wireStringValue (tuple ! 4) MAX_INVITATION_DOCUMENT_ID_BYTES) (\<lambda>documentId.
     sbind (roleValue (tuple ! 5)) (\<lambda>role.
     sbind (wireStringValue (tuple ! 6) MAX_INVITATION_IDENTITY_BYTES) (\<lambda>recipient.
     sbind (assertBytes kemPublicKey
       INVITATION_KEM_PUBLIC_KEY_LENGTH INVITATION_KEM_PUBLIC_KEY_LENGTH) (\<lambda>_.
     sbind (assertSignature signature) (\<lambda>_.
     Inr \<lparr>joinVersion = INVITATION_WIRE_VERSION, joinOfferDigest = offerDigest, requestId = ident,
       joinDocumentId = documentId, joinRole = role, joinRecipient = recipient,
       joinKemPublicKey = kemPublicKey, joinSignature = signature\<rparr>)))))))"

definition decodeInvitationJoinRequest :: "wire_codec \<Rightarrow> bytes \<Rightarrow> wire_error + InvitationJoinRequestV1" where
  "decodeInvitationJoinRequest codec b =
     sbind (parseJsonTuple b) (\<lambda>tuple.
     sbind (require (\<not> (length tuple \<noteq> 9 \<or> tuple ! 0 \<noteq> JString JOIN_TAG)) InvalidEncoding) (\<lambda>_.
     sbind (assertVersionValue (tuple ! 1)) (\<lambda>_.
     sbind (decodeBase64Url codec (tuple ! 2)) (\<lambda>offerDigest.
     sbind (decodeBase64Url codec (tuple ! 3)) (\<lambda>ident.
     sbind (decodeBase64Url codec (tuple ! 7)) (\<lambda>kemPublicKey.
     sbind (decodeBase64Url codec (tuple ! 8)) (\<lambda>signature.
     sbind (narrowJoinRequest offerDigest ident tuple kemPublicKey signature) (\<lambda>request.
     sbind (encodeInvitationJoinRequest codec request) (\<lambda>canonical.
     sbind (require (equalBytes b canonical) NonCanonicalEncoding) (\<lambda>_. Inr request))))))))))"

definition narrowAcceptance ::
    "bytes \<Rightarrow> bytes \<Rightarrow> bytes \<Rightarrow> json_value list \<Rightarrow> bytes \<Rightarrow> bytes \<Rightarrow> bytes \<Rightarrow> bytes \<Rightarrow> bytes
      \<Rightarrow> wire_error + InvitationAcceptanceV1" where
  "narrowAcceptance ident offerDigest requestDigest tuple kemPublicKey epochId welcome bootstrap signature =
     sbind (assertBytes ident INVITATION_ID_LENGTH INVITATION_ID_LENGTH) (\<lambda>_.
     sbind (assertBytes offerDigest INVITATION_DIGEST_LENGTH INVITATION_DIGEST_LENGTH) (\<lambda>_.
     sbind (assertBytes requestDigest INVITATION_DIGEST_LENGTH INVITATION_DIGEST_LENGTH) (\<lambda>_.
     sbind (wireStringValue (tuple ! 5) MAX_INVITATION_DOCUMENT_ID_BYTES) (\<lambda>documentId.
     sbind (wireStringValue (tuple ! 6) MAX_INVITATION_IDENTITY_BYTES) (\<lambda>issuer.
     sbind (wireStringValue (tuple ! 7) MAX_INVITATION_IDENTITY_BYTES) (\<lambda>recipient.
     sbind (assertBytes kemPublicKey
       INVITATION_KEM_PUBLIC_KEY_LENGTH INVITATION_KEM_PUBLIC_KEY_LENGTH) (\<lambda>_.
     sbind (roleValue (tuple ! 9)) (\<lambda>role.
     sbind (assertBytes epochId INVITATION_EPOCH_ID_LENGTH INVITATION_EPOCH_ID_LENGTH) (\<lambda>_.
     sbind (assertBytes welcome
       MIN_INVITATION_SEALED_WELCOME_BYTES MAX_INVITATION_OPAQUE_PAYLOAD_BYTES) (\<lambda>_.
     sbind (assertBytes bootstrap 1 MAX_INVITATION_OPAQUE_PAYLOAD_BYTES) (\<lambda>_.
     sbind (timestampValue (tuple ! 13)) (\<lambda>issuedAtMs.
     sbind (timestampValue (tuple ! 14)) (\<lambda>expiresAtMs.
     sbind (assertTimeWindow issuedAtMs expiresAtMs) (\<lambda>_.
     sbind (assertSignature signature) (\<lambda>_.
     Inr \<lparr>accVersion = INVITATION_WIRE_VERSION, acceptanceId = ident, accOfferDigest = offerDigest,
       accRequestDigest = requestDigest, accDocumentId = documentId, accIssuer = issuer,
       accRecipient = recipient, accKemPublicKey = kemPublicKey, accRole = role,
       welcomeEpochId = epochId, sealedWelcome = welcome, encryptedBootstrap = bootstrap,
       accIssuedAtMs = issuedAtMs, accExpiresAtMs = expiresAtMs, accSignature = signature\<rparr>)))))))))))))))"

definition decodeInvitationAcceptance :: "wire_codec \<Rightarrow> bytes \<Rightarrow> wire_error + InvitationAcceptanceV1" where
  "decodeInvitationAcceptance codec b =
     sbind (parseJsonTuple b) (\<lambda>tuple.
     sbind (require (\<not> (length tuple \<noteq> 16 \<or> tuple ! 0 \<noteq> JString ACCEPTANCE_TAG)) InvalidEncoding) (\<lambda>_.
     sbind (assertVersionValue (tuple ! 1)) (\<lambda>_.
     sbind (decodeBase64Url codec (tuple ! 2)) (\<lambda>ident.
     sbind (decodeBase64Url codec (tuple ! 3)) (\<lambda>offerDigest.
     sbind (decodeBase64Url codec (tuple ! 4)) (\<lambda>requestDigest.
     sbind (decodeBase64Url codec (tuple ! 8)) (\<lambda>kemPublicKey.
     sbind (decodeBase64Url codec (tuple ! 10)) (\<lambda>epochId.
     sbind (decodeBase64Url codec (tuple ! 11)) (\<lambda>welcome.
     sbind (decodeBase64Url codec (tuple ! 12)) (\<lambda>bootstrap.
     sbind (decodeBase64Url codec (tuple ! 15)) (\<lambda>signature.
     sbind (narrowAcceptance ident offerDigest requestDigest tuple kemPublicKey epochId welcome
              bootstrap signature) (\<lambda>acceptance.
     sbind (encodeInvitationAcceptance codec acceptance) (\<lambda>canonical.
     sbind (require (equalBytes b canonical) NonCanonicalEncoding) (\<lambda>_. Inr acceptance))))))))))))))"

subsection \<open>Snapshots and digests\<close>

definition snapshotOffer :: "wire_codec \<Rightarrow> InvitationOfferV1 \<Rightarrow> wire_error + InvitationOfferV1" where
  "snapshotOffer codec offer = sbind (encodeInvitationOffer codec offer) (decodeInvitationOffer codec)"

definition snapshotJoinRequest ::
    "wire_codec \<Rightarrow> InvitationJoinRequestV1 \<Rightarrow> wire_error + InvitationJoinRequestV1" where
  "snapshotJoinRequest codec request =
     sbind (encodeInvitationJoinRequest codec request) (decodeInvitationJoinRequest codec)"

definition snapshotAcceptance ::
    "wire_codec \<Rightarrow> InvitationAcceptanceV1 \<Rightarrow> wire_error + InvitationAcceptanceV1" where
  "snapshotAcceptance codec acceptance =
     sbind (encodeInvitationAcceptance codec acceptance) (decodeInvitationAcceptance codec)"

definition digestInvitationOffer :: "wire_codec \<Rightarrow> InvitationOfferV1 \<Rightarrow> wire_error + bytes" where
  "digestInvitationOffer codec v =
     sbind (encodeInvitationOffer codec v) (\<lambda>b. Inr (sha256 codec b))"

definition digestInvitationJoinRequest ::
    "wire_codec \<Rightarrow> InvitationJoinRequestV1 \<Rightarrow> wire_error + bytes" where
  "digestInvitationJoinRequest codec v =
     sbind (encodeInvitationJoinRequest codec v) (\<lambda>b. Inr (sha256 codec b))"

definition digestInvitationAcceptance ::
    "wire_codec \<Rightarrow> InvitationAcceptanceV1 \<Rightarrow> wire_error + bytes" where
  "digestInvitationAcceptance codec v =
     sbind (encodeInvitationAcceptance codec v) (\<lambda>b. Inr (sha256 codec b))"

subsection \<open>Signing and verification\<close>

text \<open>
  The part of an \<open>AuthProvider\<close> that invitations use: \<open>None\<close> where a promise rejects,
  and where the provider has no \<open>serializePublicKey\<close>.
\<close>

record ('sk, 'pk) signature_provider =
  signData :: "bytes \<Rightarrow> 'sk \<Rightarrow> bytes option"
  verifyData :: "bytes \<Rightarrow> 'pk \<Rightarrow> bytes \<Rightarrow> bool option"
  keySerializer :: "('pk \<Rightarrow> js_string option) option"

datatype sign_failure = SignWireFailure wire_error | SignProviderFailure

definition wireResult :: "wire_error + 'a \<Rightarrow> sign_failure + 'a" where
  "wireResult r = (case r of Inl e \<Rightarrow> Inl (SignWireFailure e) | Inr v \<Rightarrow> Inr v)"

definition OFFER_SIGNATURE_DOMAIN :: js_string where
  "OFFER_SIGNATURE_DOMAIN = asciiUnits ''peerborne/invitation/offer-signature/v1'' @ [0]"

definition JOIN_SIGNATURE_DOMAIN :: js_string where
  "JOIN_SIGNATURE_DOMAIN = asciiUnits ''peerborne/invitation/join-signature/v1'' @ [0]"

definition ACCEPTANCE_SIGNATURE_DOMAIN :: js_string where
  "ACCEPTANCE_SIGNATURE_DOMAIN = asciiUnits ''peerborne/invitation/acceptance-signature/v1'' @ [0]"

definition domainSeparated :: "js_string \<Rightarrow> bytes \<Rightarrow> bytes" where
  "domainSeparated domain payload = encodeUtf8 domain @ payload"

definition invitationOfferSigningBytes ::
    "wire_codec \<Rightarrow> 'a UnsignedInvitationOfferV1_scheme \<Rightarrow> wire_error + bytes" where
  "invitationOfferSigningBytes codec offer =
     sbind (assertOfferCore offer) (\<lambda>_.
     sbind (encodeJsonTuple (offerTuple codec offer None)) (\<lambda>payload.
     Inr (domainSeparated OFFER_SIGNATURE_DOMAIN payload)))"

definition invitationJoinRequestSigningBytes ::
    "wire_codec \<Rightarrow> 'a UnsignedInvitationJoinRequestV1_scheme \<Rightarrow> wire_error + bytes" where
  "invitationJoinRequestSigningBytes codec request =
     sbind (assertJoinCore request) (\<lambda>_.
     sbind (encodeJsonTuple (joinTuple codec request None)) (\<lambda>payload.
     Inr (domainSeparated JOIN_SIGNATURE_DOMAIN payload)))"

definition invitationAcceptanceSigningBytes ::
    "wire_codec \<Rightarrow> 'a UnsignedInvitationAcceptanceV1_scheme \<Rightarrow> wire_error + bytes" where
  "invitationAcceptanceSigningBytes codec acceptance =
     sbind (assertAcceptanceCore acceptance) (\<lambda>_.
     sbind (encodeJsonTuple (acceptanceTuple codec acceptance None)) (\<lambda>payload.
     Inr (domainSeparated ACCEPTANCE_SIGNATURE_DOMAIN payload)))"

definition assertSigningIdentity ::
    "js_string \<Rightarrow> 'pk \<Rightarrow> ('sk, 'pk) signature_provider \<Rightarrow> sign_failure + unit" where
  "assertSigningIdentity expected publicKey provider =
     (case keySerializer provider of
        None \<Rightarrow> Inl (SignWireFailure MissingIdentitySerializer)
      | Some serialize \<Rightarrow>
          (case serialize publicKey of
             None \<Rightarrow> Inl SignProviderFailure
           | Some identity \<Rightarrow> require (\<not> identity \<noteq> expected) (SignWireFailure IdentityMismatch)))"

definition providerSign ::
    "('sk, 'pk) signature_provider \<Rightarrow> bytes \<Rightarrow> 'sk \<Rightarrow> sign_failure + bytes" where
  "providerSign provider payload privateKey =
     (case signData provider payload privateKey of None \<Rightarrow> Inl SignProviderFailure | Some s \<Rightarrow> Inr s)"

definition snapshotUnsignedOffer :: "UnsignedInvitationOfferV1 \<Rightarrow> wire_error + UnsignedInvitationOfferV1" where
  "snapshotUnsignedOffer offer =
     sbind (assertOfferCore offer) (\<lambda>_.
     Inr \<lparr>offVersion = offVersion offer, invitationId = invitationId offer, offDocumentId = offDocumentId offer,
       offIssuer = offIssuer offer, offRole = offRole offer, offIssuedAtMs = offIssuedAtMs offer,
       offExpiresAtMs = offExpiresAtMs offer, rendezvous = rendezvous offer\<rparr>)"

definition snapshotUnsignedJoinRequest ::
    "UnsignedInvitationJoinRequestV1 \<Rightarrow> wire_error + UnsignedInvitationJoinRequestV1" where
  "snapshotUnsignedJoinRequest request =
     sbind (assertJoinCore request) (\<lambda>_.
     Inr \<lparr>joinVersion = joinVersion request, joinOfferDigest = joinOfferDigest request,
       requestId = requestId request, joinDocumentId = joinDocumentId request, joinRole = joinRole request,
       joinRecipient = joinRecipient request, joinKemPublicKey = joinKemPublicKey request\<rparr>)"

definition snapshotUnsignedAcceptance ::
    "UnsignedInvitationAcceptanceV1 \<Rightarrow> wire_error + UnsignedInvitationAcceptanceV1" where
  "snapshotUnsignedAcceptance acceptance =
     sbind (assertAcceptanceCore acceptance) (\<lambda>_.
     Inr \<lparr>accVersion = accVersion acceptance, acceptanceId = acceptanceId acceptance,
       accOfferDigest = accOfferDigest acceptance, accRequestDigest = accRequestDigest acceptance,
       accDocumentId = accDocumentId acceptance, accIssuer = accIssuer acceptance,
       accRecipient = accRecipient acceptance, accKemPublicKey = accKemPublicKey acceptance,
       accRole = accRole acceptance, welcomeEpochId = welcomeEpochId acceptance,
       sealedWelcome = sealedWelcome acceptance, encryptedBootstrap = encryptedBootstrap acceptance,
       accIssuedAtMs = accIssuedAtMs acceptance, accExpiresAtMs = accExpiresAtMs acceptance\<rparr>)"

definition copyOffer :: "UnsignedInvitationOfferV1 \<Rightarrow> bytes \<Rightarrow> InvitationOfferV1" where
  "copyOffer offer signature =
     UnsignedInvitationOfferV1.extend offer \<lparr>offSignature = signature\<rparr>"

definition copyJoinRequest :: "UnsignedInvitationJoinRequestV1 \<Rightarrow> bytes \<Rightarrow> InvitationJoinRequestV1" where
  "copyJoinRequest request signature =
     UnsignedInvitationJoinRequestV1.extend request \<lparr>joinSignature = signature\<rparr>"

definition copyAcceptance :: "UnsignedInvitationAcceptanceV1 \<Rightarrow> bytes \<Rightarrow> InvitationAcceptanceV1" where
  "copyAcceptance acceptance signature =
     UnsignedInvitationAcceptanceV1.extend acceptance \<lparr>accSignature = signature\<rparr>"

definition signInvitationOffer ::
    "wire_codec \<Rightarrow> UnsignedInvitationOfferV1 \<Rightarrow> 'sk \<Rightarrow> 'pk \<Rightarrow> ('sk, 'pk) signature_provider
      \<Rightarrow> sign_failure + InvitationOfferV1" where
  "signInvitationOffer codec offer privateKey publicKey provider =
     sbind (wireResult (snapshotUnsignedOffer offer)) (\<lambda>snapshot.
     sbind (wireResult (assertOfferCore snapshot)) (\<lambda>_.
     sbind (assertSigningIdentity (offIssuer snapshot) publicKey provider) (\<lambda>_.
     sbind (wireResult (invitationOfferSigningBytes codec snapshot)) (\<lambda>payload.
     sbind (providerSign provider payload privateKey) (\<lambda>signature.
     sbind (wireResult (encodeInvitationOffer codec (copyOffer snapshot signature))) (\<lambda>_.
     Inr (copyOffer snapshot signature)))))))"

definition signInvitationJoinRequest ::
    "wire_codec \<Rightarrow> UnsignedInvitationJoinRequestV1 \<Rightarrow> 'sk \<Rightarrow> 'pk \<Rightarrow> ('sk, 'pk) signature_provider
      \<Rightarrow> sign_failure + InvitationJoinRequestV1" where
  "signInvitationJoinRequest codec request privateKey publicKey provider =
     sbind (wireResult (snapshotUnsignedJoinRequest request)) (\<lambda>snapshot.
     sbind (wireResult (assertJoinCore snapshot)) (\<lambda>_.
     sbind (assertSigningIdentity (joinRecipient snapshot) publicKey provider) (\<lambda>_.
     sbind (wireResult (invitationJoinRequestSigningBytes codec snapshot)) (\<lambda>payload.
     sbind (providerSign provider payload privateKey) (\<lambda>signature.
     sbind (wireResult (encodeInvitationJoinRequest codec (copyJoinRequest snapshot signature))) (\<lambda>_.
     Inr (copyJoinRequest snapshot signature)))))))"

definition signInvitationAcceptance ::
    "wire_codec \<Rightarrow> UnsignedInvitationAcceptanceV1 \<Rightarrow> 'sk \<Rightarrow> 'pk \<Rightarrow> ('sk, 'pk) signature_provider
      \<Rightarrow> sign_failure + InvitationAcceptanceV1" where
  "signInvitationAcceptance codec acceptance privateKey publicKey provider =
     sbind (wireResult (snapshotUnsignedAcceptance acceptance)) (\<lambda>snapshot.
     sbind (wireResult (assertAcceptanceCore snapshot)) (\<lambda>_.
     sbind (assertSigningIdentity (accIssuer snapshot) publicKey provider) (\<lambda>_.
     sbind (wireResult (invitationAcceptanceSigningBytes codec snapshot)) (\<lambda>payload.
     sbind (providerSign provider payload privateKey) (\<lambda>signature.
     sbind (wireResult (encodeInvitationAcceptance codec (copyAcceptance snapshot signature))) (\<lambda>_.
     Inr (copyAcceptance snapshot signature)))))))"

text \<open>
  The body of a verification: every error of the \<open>try\<close> block is the answer \<open>False\<close>. The
  arguments are the snapshot with its expected identity, signing bytes and signature.
\<close>

definition verifySnapshot ::
    "('sk, 'pk) signature_provider \<Rightarrow> 'pk \<Rightarrow> wire_error + (js_string \<times> (wire_error + bytes) \<times> bytes)
      \<Rightarrow> sign_failure + bool" where
  "verifySnapshot provider publicKey snapshot =
     (case keySerializer provider of
        None \<Rightarrow> Inl (SignWireFailure MissingIdentitySerializer)
      | Some serialize \<Rightarrow> Inr
          (case snapshot of
             Inl _ \<Rightarrow> False
           | Inr (identity, payload, signature) \<Rightarrow>
               (if serialize publicKey \<noteq> Some identity then False
                else case payload of
                  Inl _ \<Rightarrow> False
                | Inr b \<Rightarrow> verifyData provider b publicKey signature = Some True)))"

definition verifyInvitationOffer ::
    "wire_codec \<Rightarrow> InvitationOfferV1 \<Rightarrow> 'pk \<Rightarrow> ('sk, 'pk) signature_provider \<Rightarrow> sign_failure + bool" where
  "verifyInvitationOffer codec offer publicKey provider =
     verifySnapshot provider publicKey
       (sbind (snapshotOffer codec offer) (\<lambda>snapshot.
        Inr (offIssuer snapshot, invitationOfferSigningBytes codec snapshot, offSignature snapshot)))"

definition verifyInvitationJoinRequest ::
    "wire_codec \<Rightarrow> InvitationJoinRequestV1 \<Rightarrow> 'pk \<Rightarrow> ('sk, 'pk) signature_provider \<Rightarrow> sign_failure + bool" where
  "verifyInvitationJoinRequest codec request publicKey provider =
     verifySnapshot provider publicKey
       (sbind (snapshotJoinRequest codec request) (\<lambda>snapshot.
        Inr (joinRecipient snapshot, invitationJoinRequestSigningBytes codec snapshot, joinSignature snapshot)))"

definition verifyInvitationAcceptance ::
    "wire_codec \<Rightarrow> InvitationAcceptanceV1 \<Rightarrow> 'pk \<Rightarrow> ('sk, 'pk) signature_provider \<Rightarrow> sign_failure + bool" where
  "verifyInvitationAcceptance codec acceptance publicKey provider =
     verifySnapshot provider publicKey
       (sbind (snapshotAcceptance codec acceptance) (\<lambda>snapshot.
        Inr (accIssuer snapshot, invitationAcceptanceSigningBytes codec snapshot, accSignature snapshot)))"

subsection \<open>Time windows\<close>

definition hasInvitationProcessingWindow :: "int \<Rightarrow> int \<Rightarrow> int \<Rightarrow> bool" where
  "hasInvitationProcessingWindow expiresAt now minimum = (\<not> (expiresAt - now < minimum))"

definition isExpiredInvitation :: "int \<Rightarrow> int \<Rightarrow> bool" where
  "isExpiredInvitation expiresAt now \<longleftrightarrow> expiresAt \<le> now"

datatype time_disposition = TimeExpired | TimeFuture | TimeUsable

definition invitationTimeDisposition :: "int \<Rightarrow> int \<Rightarrow> int \<Rightarrow> int \<Rightarrow> time_disposition" where
  "invitationTimeDisposition created expires now skew =
     (if created - now > skew then TimeFuture
      else if expires \<le> now then TimeExpired else TimeUsable)"

text \<open>\<open>clockSkewMs\<close> is \<open>None\<close> when the options leave it out.\<close>

definition assertUsableWindow :: "int \<Rightarrow> int \<Rightarrow> int \<Rightarrow> int option \<Rightarrow> wire_error + unit" where
  "assertUsableWindow issuedAtMs expiresAtMs nowMs clockSkewOption =
     sbind (assertTimeWindow issuedAtMs expiresAtMs) (\<lambda>_.
     sbind (assertTimestamp nowMs) (\<lambda>_.
     let clockSkewMs = (case clockSkewOption of None \<Rightarrow> DEFAULT_INVITATION_CLOCK_SKEW_MS | Some c \<Rightarrow> c)
     in if \<bar>clockSkewMs\<bar> > MAX_SAFE_INTEGER \<or> clockSkewMs < 0 \<or> clockSkewMs > MAX_INVITATION_TTL_MS
        then Inl InvalidField
        else (case invitationTimeDisposition issuedAtMs expiresAtMs nowMs clockSkewMs of
           TimeFuture \<Rightarrow> Inl NotYetValid
         | TimeExpired \<Rightarrow> Inl Expired
         | TimeUsable \<Rightarrow> Inr ())))"

definition assertInvitationOfferUsable ::
    "InvitationOfferV1 \<Rightarrow> int \<Rightarrow> int option \<Rightarrow> wire_error + unit" where
  "assertInvitationOfferUsable offer nowMs options =
     sbind (assertValidInvitationOffer offer) (\<lambda>_.
     assertUsableWindow (offIssuedAtMs offer) (offExpiresAtMs offer) nowMs options)"

definition assertInvitationAcceptanceUsable ::
    "InvitationAcceptanceV1 \<Rightarrow> int \<Rightarrow> int option \<Rightarrow> wire_error + unit" where
  "assertInvitationAcceptanceUsable acceptance nowMs options =
     sbind (assertValidInvitationAcceptance acceptance) (\<lambda>_.
     assertUsableWindow (accIssuedAtMs acceptance) (accExpiresAtMs acceptance) nowMs options)"

subsection \<open>Bindings\<close>

definition assertInvitationJoinSnapshotsMatchOffer ::
    "wire_codec \<Rightarrow> InvitationJoinRequestV1 \<Rightarrow> InvitationOfferV1 \<Rightarrow> wire_error + unit" where
  "assertInvitationJoinSnapshotsMatchOffer codec request offer =
     sbind (digestInvitationOffer codec offer) (\<lambda>expectedOfferDigest.
     sbind (require (equalBytes (joinOfferDigest request) expectedOfferDigest) BindingMismatch) (\<lambda>_.
     require (\<not> (joinDocumentId request \<noteq> offDocumentId offer \<or> joinRole request \<noteq> offRole offer))
       BindingMismatch))"

definition assertInvitationJoinMatchesOffer ::
    "wire_codec \<Rightarrow> InvitationJoinRequestV1 \<Rightarrow> InvitationOfferV1 \<Rightarrow> wire_error + unit" where
  "assertInvitationJoinMatchesOffer codec request offer =
     sbind (snapshotJoinRequest codec request) (\<lambda>requestSnapshot.
     sbind (snapshotOffer codec offer) (\<lambda>offerSnapshot.
     assertInvitationJoinSnapshotsMatchOffer codec requestSnapshot offerSnapshot))"

definition assertInvitationAcceptanceMatches ::
    "wire_codec \<Rightarrow> InvitationAcceptanceV1 \<Rightarrow> InvitationOfferV1 \<Rightarrow> InvitationJoinRequestV1
      \<Rightarrow> wire_error + unit" where
  "assertInvitationAcceptanceMatches codec acceptance offer request =
     sbind (snapshotAcceptance codec acceptance) (\<lambda>a.
     sbind (snapshotOffer codec offer) (\<lambda>ofr.
     sbind (snapshotJoinRequest codec request) (\<lambda>r.
     sbind (assertInvitationJoinSnapshotsMatchOffer codec r ofr) (\<lambda>_.
     sbind (digestInvitationOffer codec ofr) (\<lambda>expectedOfferDigest.
     sbind (digestInvitationJoinRequest codec r) (\<lambda>expectedRequestDigest.
     sbind (require (\<not> (\<not> equalBytes (accOfferDigest a) expectedOfferDigest \<or>
              \<not> equalBytes (accRequestDigest a) expectedRequestDigest)) BindingMismatch) (\<lambda>_.
     sbind (require (\<not> (accDocumentId a \<noteq> offDocumentId ofr \<or> accIssuer a \<noteq> offIssuer ofr \<or>
              accRole a \<noteq> joinRole r \<or> accRecipient a \<noteq> joinRecipient r \<or>
              \<not> equalBytes (accKemPublicKey a) (joinKemPublicKey r))) BindingMismatch) (\<lambda>_.
     require (\<not> (accIssuedAtMs a < offIssuedAtMs ofr \<or> accExpiresAtMs a > offExpiresAtMs ofr))
       BindingMismatch))))))))"

definition assertInvitationBootstrapEpochBinding :: "bytes \<Rightarrow> bytes \<Rightarrow> bool" where
  "assertInvitationBootstrapEpochBinding welcomeEpoch bootstrapKeyId \<longleftrightarrow>
     equalBytes welcomeEpoch bootstrapKeyId"


section \<open>Lemmas\<close>

lemma assertTimeWindow_iff:
  "assertTimeWindow i x = Inr u \<longleftrightarrow>
     0 \<le> i \<and> i < x \<and> x \<le> MAX_SAFE_INTEGER \<and> x - i \<le> MAX_INVITATION_TTL_MS"
  by (auto simp: assertTimeWindow_def assertTimestamp_def sbind_Inr_iff)

lemma assertUsableWindow_iff:
  "assertUsableWindow i x now skew = Inr u \<longleftrightarrow>
     assertTimeWindow i x = Inr () \<and> 0 \<le> now \<and> now < x \<and>
     (let s = (case skew of None \<Rightarrow> DEFAULT_INVITATION_CLOCK_SKEW_MS | Some c \<Rightarrow> c)
      in 0 \<le> s \<and> s \<le> MAX_INVITATION_TTL_MS \<and> i \<le> now + s)"
  by (auto simp: assertUsableWindow_def sbind_Inr_iff assertTimestamp_def Let_def
      invitationTimeDisposition_def assertTimeWindow_iff invitation_limits
      split: if_splits option.splits time_disposition.splits)

lemma offerUsable_window:
  assumes "assertInvitationOfferUsable v now skew = Inr u"
  shows "0 \<le> offExpiresAtMs v" "0 \<le> now" "now < offExpiresAtMs v" "offExpiresAtMs v \<le> MAX_SAFE_INTEGER"
  using assms
  by (auto simp: assertInvitationOfferUsable_def sbind_Inr_iff assertUsableWindow_iff assertTimeWindow_iff)

subsection \<open>Decoding what was encoded\<close>

text \<open>What the module relies on of the Base64 package: its URL-safe text uses the alphabet and decodes to the bytes.\<close>

definition base64_ok :: "wire_codec \<Rightarrow> bool" where
  "base64_ok codec \<longleftrightarrow> (\<forall>b. fromBase64 codec (base64Url codec b) = Some b \<and>
     list_all isBase64UrlUnit (base64Url codec b) \<and> (b \<noteq> [] \<longrightarrow> base64Url codec b \<noteq> []))"

lemma require_True [simp]: "require True e = Inr ()"
  by (simp add: require_def)

lemma decodeBase64Url_encoded:
  "base64_ok codec \<Longrightarrow> b \<noteq> [] \<Longrightarrow> decodeBase64Url codec (JString (base64Url codec b)) = Inr b"
  by (simp add: base64_ok_def decodeBase64Url_def)

lemma parseJsonTuple_encoded:
  assumes "encodeJsonTuple items = Inr b" "\<forall>x \<in> set items. safe_item x"
  shows "parseJsonTuple b = Inr (map itemValue items)"
proof -
  have b: "b = encodeUtf8 (jsonStringify items)" "length b \<le> MAX_INVITATION_MESSAGE_BYTES"
    using assms(1) by (auto simp: encodeJsonTuple_def Let_def split: if_splits)
  have "b \<noteq> []"
  proof
    assume "b = []"
    then have "Some (jsonStringify items) = utf8Decode []"
      using utf8_roundtrip [OF jsonStringify_wellFormed, of items] b(1) by simp
    then show False by (simp add: utf8Decode.simps jsonStringify_def)
  qed
  then show ?thesis
    using b jsonStringify_bytes [of items] jsonParse_stringify [OF assms(2)] by (simp add: parseJsonTuple_def)
qed

lemma assertVersionValue_encoded [simp]: "assertVersionValue (JNumber (js_int INVITATION_WIRE_VERSION)) = Inr ()"
  by (simp add: assertVersionValue_def)

lemma wireStringValue_encoded [simp]: "assertWireString s m = Inr u \<Longrightarrow> wireStringValue (JString s) m = Inr s"
  by (simp add: wireStringValue_def)

lemma roleValue_encoded [simp]: "roleValue (JString (roleText r)) = Inr r"
  by (cases r) (simp_all add: roleValue_def asciiUnits_def)

lemma timestampValue_encoded [simp]: "assertTimestamp i = Inr u \<Longrightarrow> timestampValue (JNumber (js_int i)) = Inr i"
  by (auto simp: timestampValue_def assertTimestamp_def)

lemma rendezvousValue_loop_encoded:
  "assertRendezvous_loop known ss = Inr u \<Longrightarrow> rendezvousValue_loop known (map JString ss) = Inr ss"
  by (induction known ss rule: assertRendezvous_loop.induct) (auto simp: sbind_Inr_iff)

lemma rendezvousValue_encoded [simp]:
  "assertRendezvous ss = Inr u \<Longrightarrow> rendezvousValue (JArray (map JString ss)) = Inr ss"
  by (auto simp: rendezvousValue_def assertRendezvous_def sbind_Inr_iff rendezvousValue_loop_encoded)

lemma assertTimeWindow_stamps:
  "assertTimeWindow i x = Inr u \<Longrightarrow> assertTimestamp i = Inr () \<and> assertTimestamp x = Inr ()"
  by (auto simp: assertTimeWindow_def sbind_Inr_iff)

lemma safe_stamp [simp]: "assertTimestamp i = Inr u \<Longrightarrow> \<bar>i\<bar> \<le> MAX_SAFE_INTEGER"
  by (auto simp: assertTimestamp_def)

lemma safe_version [simp]: "\<bar>INVITATION_WIRE_VERSION\<bar> \<le> MAX_SAFE_INTEGER"
  by (simp add: INVITATION_WIRE_VERSION_def)

lemma assertBytes_Nil: "assertBytes [] m n = Inr u \<longleftrightarrow> m = 0"
  by (simp add: assertBytes_def)

lemmas needs_bytes = assertBytes_Nil assertSignature_def invitation_limits

lemma decodeOffer_encoded:
  assumes ok: "base64_ok codec" and e: "encodeInvitationOffer codec v = Inr b"
  shows "decodeInvitationOffer codec b = Inr v"
proof -
  let ?items = "offerTuple codec v (Some (offSignature v))"
  have valid: "assertValidInvitationOffer v = Inr ()" and j: "encodeJsonTuple ?items = Inr b"
    using e by (auto simp: encodeInvitationOffer_def sbind_Inr_iff)
  have c: "offVersion v = INVITATION_WIRE_VERSION"
    "assertBytes (invitationId v) INVITATION_ID_LENGTH INVITATION_ID_LENGTH = Inr ()"
    "assertWireString (offDocumentId v) MAX_INVITATION_DOCUMENT_ID_BYTES = Inr ()"
    "assertWireString (offIssuer v) MAX_INVITATION_IDENTITY_BYTES = Inr ()"
    "assertTimeWindow (offIssuedAtMs v) (offExpiresAtMs v) = Inr ()"
    "assertRendezvous (rendezvous v) = Inr ()" "assertSignature (offSignature v) = Inr ()"
    using valid by (auto simp: assertValidInvitationOffer_def assertOfferCore_def assertVersion_def sbind_Inr_iff)
  note stamps = assertTimeWindow_stamps [OF c(5)]
  have "invitationId v \<noteq> []" "offSignature v \<noteq> []"
    using c(2,7) by (auto simp: needs_bytes)
  note b64 = this [THEN decodeBase64Url_encoded [OF ok]]
  have "parseJsonTuple b = Inr (map itemValue ?items)"
    by (rule parseJsonTuple_encoded [OF j]) (use stamps in \<open>simp add: offerTuple_def signatureItem_def\<close>)
  moreover have "narrowOffer (invitationId v) (map itemValue ?items) (offSignature v) = Inr v"
    using c stamps by (simp add: narrowOffer_def offerTuple_def signatureItem_def)
  ultimately show ?thesis
    using b64 e by (simp add: decodeInvitationOffer_def offerTuple_def signatureItem_def)
qed

lemma decodeJoinRequest_encoded:
  assumes ok: "base64_ok codec" and e: "encodeInvitationJoinRequest codec v = Inr b"
  shows "decodeInvitationJoinRequest codec b = Inr v"
proof -
  let ?items = "joinTuple codec v (Some (joinSignature v))"
  have valid: "assertValidInvitationJoinRequest v = Inr ()" and j: "encodeJsonTuple ?items = Inr b"
    using e by (auto simp: encodeInvitationJoinRequest_def sbind_Inr_iff split: if_splits)
  have c: "joinVersion v = INVITATION_WIRE_VERSION"
    "assertBytes (joinOfferDigest v) INVITATION_DIGEST_LENGTH INVITATION_DIGEST_LENGTH = Inr ()"
    "assertBytes (requestId v) INVITATION_ID_LENGTH INVITATION_ID_LENGTH = Inr ()"
    "assertWireString (joinDocumentId v) MAX_INVITATION_DOCUMENT_ID_BYTES = Inr ()"
    "assertWireString (joinRecipient v) MAX_INVITATION_IDENTITY_BYTES = Inr ()"
    "assertBytes (joinKemPublicKey v) INVITATION_KEM_PUBLIC_KEY_LENGTH INVITATION_KEM_PUBLIC_KEY_LENGTH = Inr ()"
    "assertSignature (joinSignature v) = Inr ()"
    using valid by (auto simp: assertValidInvitationJoinRequest_def assertJoinCore_def assertVersion_def sbind_Inr_iff)
  have "joinOfferDigest v \<noteq> []" "requestId v \<noteq> []" "joinKemPublicKey v \<noteq> []" "joinSignature v \<noteq> []"
    using c(2,3,6,7) by (auto simp: needs_bytes)
  note b64 = this [THEN decodeBase64Url_encoded [OF ok]]
  have "parseJsonTuple b = Inr (map itemValue ?items)"
    by (rule parseJsonTuple_encoded [OF j]) (simp add: joinTuple_def signatureItem_def)
  moreover have "narrowJoinRequest (joinOfferDigest v) (requestId v) (map itemValue ?items)
      (joinKemPublicKey v) (joinSignature v) = Inr v"
    using c by (simp add: narrowJoinRequest_def joinTuple_def signatureItem_def)
  ultimately show ?thesis
    using b64 e by (simp add: decodeInvitationJoinRequest_def joinTuple_def signatureItem_def)
qed

lemma decodeAcceptance_encoded:
  assumes ok: "base64_ok codec" and e: "encodeInvitationAcceptance codec v = Inr b"
  shows "decodeInvitationAcceptance codec b = Inr v"
proof -
  let ?items = "acceptanceTuple codec v (Some (accSignature v))"
  have valid: "assertValidInvitationAcceptance v = Inr ()" and j: "encodeJsonTuple ?items = Inr b"
    using e by (auto simp: encodeInvitationAcceptance_def sbind_Inr_iff)
  have c: "accVersion v = INVITATION_WIRE_VERSION"
    "assertBytes (acceptanceId v) INVITATION_ID_LENGTH INVITATION_ID_LENGTH = Inr ()"
    "assertBytes (accOfferDigest v) INVITATION_DIGEST_LENGTH INVITATION_DIGEST_LENGTH = Inr ()"
    "assertBytes (accRequestDigest v) INVITATION_DIGEST_LENGTH INVITATION_DIGEST_LENGTH = Inr ()"
    "assertWireString (accDocumentId v) MAX_INVITATION_DOCUMENT_ID_BYTES = Inr ()"
    "assertWireString (accIssuer v) MAX_INVITATION_IDENTITY_BYTES = Inr ()"
    "assertWireString (accRecipient v) MAX_INVITATION_IDENTITY_BYTES = Inr ()"
    "assertBytes (accKemPublicKey v) INVITATION_KEM_PUBLIC_KEY_LENGTH INVITATION_KEM_PUBLIC_KEY_LENGTH = Inr ()"
    "assertBytes (welcomeEpochId v) INVITATION_EPOCH_ID_LENGTH INVITATION_EPOCH_ID_LENGTH = Inr ()"
    "assertBytes (sealedWelcome v) MIN_INVITATION_SEALED_WELCOME_BYTES MAX_INVITATION_OPAQUE_PAYLOAD_BYTES = Inr ()"
    "assertBytes (encryptedBootstrap v) 1 MAX_INVITATION_OPAQUE_PAYLOAD_BYTES = Inr ()"
    "assertTimeWindow (accIssuedAtMs v) (accExpiresAtMs v) = Inr ()" "assertSignature (accSignature v) = Inr ()"
    using valid by (auto simp: assertValidInvitationAcceptance_def assertAcceptanceCore_def assertVersion_def sbind_Inr_iff)
  note stamps = assertTimeWindow_stamps [OF c(12)]
  have "acceptanceId v \<noteq> []" "accOfferDigest v \<noteq> []" "accRequestDigest v \<noteq> []" "accKemPublicKey v \<noteq> []"
    "welcomeEpochId v \<noteq> []" "sealedWelcome v \<noteq> []" "encryptedBootstrap v \<noteq> []" "accSignature v \<noteq> []"
    using c(2-4,8-11,13) by (auto simp: needs_bytes)
  note b64 = this [THEN decodeBase64Url_encoded [OF ok]]
  have "parseJsonTuple b = Inr (map itemValue ?items)"
    by (rule parseJsonTuple_encoded [OF j]) (use stamps in \<open>simp add: acceptanceTuple_def signatureItem_def\<close>)
  moreover have "narrowAcceptance (acceptanceId v) (accOfferDigest v) (accRequestDigest v) (map itemValue ?items)
      (accKemPublicKey v) (welcomeEpochId v) (sealedWelcome v) (encryptedBootstrap v) (accSignature v) = Inr v"
    using c stamps by (simp add: narrowAcceptance_def acceptanceTuple_def signatureItem_def)
  ultimately show ?thesis
    using b64 e by (simp add: decodeInvitationAcceptance_def acceptanceTuple_def signatureItem_def)
qed

text \<open>A decoder returns only what encodes to the bytes it was given, whatever the Base64 package does.\<close>

lemma decodeOffer_canonical: "decodeInvitationOffer codec b = Inr v \<Longrightarrow> encodeInvitationOffer codec v = Inr b"
  by (auto simp: decodeInvitationOffer_def sbind_Inr_iff)

lemma decodeJoinRequest_canonical:
  "decodeInvitationJoinRequest codec b = Inr v \<Longrightarrow> encodeInvitationJoinRequest codec v = Inr b"
  by (auto simp: decodeInvitationJoinRequest_def sbind_Inr_iff)

lemma decodeAcceptance_canonical:
  "decodeInvitationAcceptance codec b = Inr v \<Longrightarrow> encodeInvitationAcceptance codec v = Inr b"
  by (auto simp: decodeInvitationAcceptance_def sbind_Inr_iff)

lemma snapshotOffer_same: "base64_ok codec \<Longrightarrow> snapshotOffer codec v = sbind (encodeInvitationOffer codec v) (\<lambda>_. Inr v)"
  by (cases "encodeInvitationOffer codec v") (simp_all add: snapshotOffer_def decodeOffer_encoded)

lemma snapshotJoinRequest_same:
  "base64_ok codec \<Longrightarrow> snapshotJoinRequest codec v = sbind (encodeInvitationJoinRequest codec v) (\<lambda>_. Inr v)"
  by (cases "encodeInvitationJoinRequest codec v") (simp_all add: snapshotJoinRequest_def decodeJoinRequest_encoded)

lemma snapshotAcceptance_same:
  "base64_ok codec \<Longrightarrow> snapshotAcceptance codec v = sbind (encodeInvitationAcceptance codec v) (\<lambda>_. Inr v)"
  by (cases "encodeInvitationAcceptance codec v") (simp_all add: snapshotAcceptance_def decodeAcceptance_encoded)

subsection \<open>Signatures\<close>

lemma wireResult_Inr_iff [simp]: "wireResult r = Inr v \<longleftrightarrow> r = Inr v"
  by (cases r) (simp_all add: wireResult_def)

lemma providerSign_Inr_iff [simp]: "providerSign p d sk = Inr s \<longleftrightarrow> signData p d sk = Some s"
  by (simp add: providerSign_def split: option.splits)

lemma assertSigningIdentity_Inr_iff:
  "assertSigningIdentity i pk p = Inr u \<longleftrightarrow> (\<exists>f. keySerializer p = Some f \<and> f pk = Some i)"
  by (auto simp: assertSigningIdentity_def split: option.splits)

lemma verifySnapshot_True_iff:
  "verifySnapshot p pk r = Inr True \<longleftrightarrow>
     (\<exists>f i b s. keySerializer p = Some f \<and> r = Inr (i, Inr b, s) \<and> f pk = Some i \<and> verifyData p b pk s = Some True)"
  by (auto simp: verifySnapshot_def split: option.splits sum.splits prod.splits if_splits)

lemma copyOffer_fields [simp]:
  "offIssuer (copyOffer v s) = offIssuer v" "offSignature (copyOffer v s) = s"
  "invitationOfferSigningBytes codec (copyOffer v s) = invitationOfferSigningBytes codec v"
  "UnsignedInvitationOfferV1.truncate (copyOffer v s) = v"
  by (simp_all add: copyOffer_def UnsignedInvitationOfferV1.defs invitationOfferSigningBytes_def assertOfferCore_def
      offerTuple_def)

lemma copyJoinRequest_fields [simp]:
  "joinRecipient (copyJoinRequest v s) = joinRecipient v" "joinSignature (copyJoinRequest v s) = s"
  "invitationJoinRequestSigningBytes codec (copyJoinRequest v s) = invitationJoinRequestSigningBytes codec v"
  "UnsignedInvitationJoinRequestV1.truncate (copyJoinRequest v s) = v"
  by (simp_all add: copyJoinRequest_def UnsignedInvitationJoinRequestV1.defs invitationJoinRequestSigningBytes_def
      assertJoinCore_def joinTuple_def)

lemma copyAcceptance_fields [simp]:
  "accIssuer (copyAcceptance v s) = accIssuer v" "accSignature (copyAcceptance v s) = s"
  "invitationAcceptanceSigningBytes codec (copyAcceptance v s) = invitationAcceptanceSigningBytes codec v"
  "UnsignedInvitationAcceptanceV1.truncate (copyAcceptance v s) = v"
  by (simp_all add: copyAcceptance_def UnsignedInvitationAcceptanceV1.defs invitationAcceptanceSigningBytes_def
      assertAcceptanceCore_def acceptanceTuple_def)

lemma snapshotUnsigned_same:
  "snapshotUnsignedOffer v1 = Inr w1 \<Longrightarrow> w1 = v1" "snapshotUnsignedJoinRequest v2 = Inr w2 \<Longrightarrow> w2 = v2"
  "snapshotUnsignedAcceptance v3 = Inr w3 \<Longrightarrow> w3 = v3"
  by (auto simp: snapshotUnsignedOffer_def snapshotUnsignedJoinRequest_def snapshotUnsignedAcceptance_def sbind_Inr_iff)

text \<open>
  What a party signs verifies under its key, and with the fields it signed. \<open>genuine\<close>: the
  provider accepts the signatures it makes.
\<close>

definition genuine :: "('sk, 'pk) signature_provider \<Rightarrow> 'sk \<Rightarrow> 'pk \<Rightarrow> bool" where
  "genuine p sk pk \<longleftrightarrow> (\<forall>d s. signData p d sk = Some s \<longrightarrow> verifyData p d pk s = Some True)"

theorem signed_offer_verifies:
  assumes "base64_ok codec" "genuine p sk pk" "signInvitationOffer codec v sk pk p = Inr w"
  shows "verifyInvitationOffer codec w pk p = Inr True \<and> UnsignedInvitationOfferV1.truncate w = v"
proof -
  obtain s b f where "w = copyOffer v s" "invitationOfferSigningBytes codec v = Inr b" "signData p b sk = Some s"
    "keySerializer p = Some f" "f pk = Some (offIssuer v)" "succeeds (encodeInvitationOffer codec w)"
    using assms(3) by (auto simp: signInvitationOffer_def sbind_Inr_iff assertSigningIdentity_Inr_iff succeeds_iff
        dest!: snapshotUnsigned_same(1))
  then show ?thesis using assms(1,2)
    by (auto simp: verifyInvitationOffer_def verifySnapshot_True_iff snapshotOffer_same genuine_def succeeds_iff)
qed

theorem signed_join_request_verifies:
  assumes "base64_ok codec" "genuine p sk pk" "signInvitationJoinRequest codec v sk pk p = Inr w"
  shows "verifyInvitationJoinRequest codec w pk p = Inr True \<and> UnsignedInvitationJoinRequestV1.truncate w = v"
proof -
  obtain s b f where "w = copyJoinRequest v s" "invitationJoinRequestSigningBytes codec v = Inr b"
    "signData p b sk = Some s" "keySerializer p = Some f" "f pk = Some (joinRecipient v)"
    "succeeds (encodeInvitationJoinRequest codec w)"
    using assms(3) by (auto simp: signInvitationJoinRequest_def sbind_Inr_iff assertSigningIdentity_Inr_iff
        succeeds_iff dest!: snapshotUnsigned_same(2))
  then show ?thesis using assms(1,2)
    by (auto simp: verifyInvitationJoinRequest_def verifySnapshot_True_iff snapshotJoinRequest_same genuine_def
        succeeds_iff)
qed

theorem signed_acceptance_verifies:
  assumes "base64_ok codec" "genuine p sk pk" "signInvitationAcceptance codec v sk pk p = Inr w"
  shows "verifyInvitationAcceptance codec w pk p = Inr True \<and> UnsignedInvitationAcceptanceV1.truncate w = v"
proof -
  obtain s b f where "w = copyAcceptance v s" "invitationAcceptanceSigningBytes codec v = Inr b"
    "signData p b sk = Some s" "keySerializer p = Some f" "f pk = Some (accIssuer v)"
    "succeeds (encodeInvitationAcceptance codec w)"
    using assms(3) by (auto simp: signInvitationAcceptance_def sbind_Inr_iff assertSigningIdentity_Inr_iff
        succeeds_iff dest!: snapshotUnsigned_same(3))
  then show ?thesis using assms(1,2)
    by (auto simp: verifyInvitationAcceptance_def verifySnapshot_True_iff snapshotAcceptance_same genuine_def
        succeeds_iff)
qed

text \<open>
  The bytes a party signs determine the kind of the envelope and all of its fields, so a
  signature over one envelope is worthless for another.
\<close>

lemma encodeJsonTuple_inj:
  assumes "encodeJsonTuple xs = Inr b" "encodeJsonTuple ys = Inr b" "\<forall>x \<in> set xs. safe_item x" "\<forall>x \<in> set ys. safe_item x"
  shows "map itemValue xs = map itemValue ys"
  using parseJsonTuple_encoded [OF assms(1,3)] parseJsonTuple_encoded [OF assms(2,4)] by simp

lemma base64Url_inj: "base64_ok codec \<Longrightarrow> base64Url codec a = base64Url codec b \<longleftrightarrow> a = b"
  unfolding base64_ok_def by (metis option.inject)

lemma roleText_inj [simp]: "roleText a = roleText b \<longleftrightarrow> a = b"
  by (cases a; cases b) (simp_all add: asciiUnits_def)

lemma encodeUtf8_ascii_Cons:
  "unat c < 128 \<Longrightarrow> encodeUtf8 (c # s) = of_nat (unat c) # encodeUtf8 s"
  by (cases s) (simp_all add: encodeUtf8_def utf8Point_def isHighSurrogate_def isLowSurrogate_def)

lemma domain_units:
  "21 < length (encodeUtf8 OFFER_SIGNATURE_DOMAIN) \<and> encodeUtf8 OFFER_SIGNATURE_DOMAIN ! 21 = 111"
  "21 < length (encodeUtf8 JOIN_SIGNATURE_DOMAIN) \<and> encodeUtf8 JOIN_SIGNATURE_DOMAIN ! 21 = 106"
  "21 < length (encodeUtf8 ACCEPTANCE_SIGNATURE_DOMAIN) \<and> encodeUtf8 ACCEPTANCE_SIGNATURE_DOMAIN ! 21 = 97"
  by (simp_all add: OFFER_SIGNATURE_DOMAIN_def JOIN_SIGNATURE_DOMAIN_def ACCEPTANCE_SIGNATURE_DOMAIN_def
      asciiUnits_def encodeUtf8_ascii_Cons)

lemma domain_kind:
  "domainSeparated OFFER_SIGNATURE_DOMAIN p ! 21 = 111" "domainSeparated JOIN_SIGNATURE_DOMAIN p ! 21 = 106"
  "domainSeparated ACCEPTANCE_SIGNATURE_DOMAIN p ! 21 = 97"
  using domain_units by (simp_all add: domainSeparated_def nth_append)

theorem signing_bytes_separate_kinds:
  "invitationOfferSigningBytes codec o1 = Inr b1 \<Longrightarrow> invitationJoinRequestSigningBytes codec j1 = Inr b2 \<Longrightarrow>
   invitationAcceptanceSigningBytes codec a1 = Inr b3 \<Longrightarrow> b1 \<noteq> b2 \<and> b1 \<noteq> b3 \<and> b2 \<noteq> b3"
proof -
  assume "invitationOfferSigningBytes codec o1 = Inr b1" "invitationJoinRequestSigningBytes codec j1 = Inr b2"
    "invitationAcceptanceSigningBytes codec a1 = Inr b3"
  then have "b1 ! 21 = 111" "b2 ! 21 = 106" "b3 ! 21 = 97"
    using domain_kind by (auto simp: invitationOfferSigningBytes_def invitationJoinRequestSigningBytes_def
        invitationAcceptanceSigningBytes_def sbind_Inr_iff)
  then show ?thesis by auto
qed

lemma offerCore_stamps:
  "assertOfferCore v = Inr u \<Longrightarrow> offVersion v = INVITATION_WIRE_VERSION \<and>
     (\<forall>x \<in> set (offerTuple codec v s). safe_item x)"
  using assertTimeWindow_stamps [of "offIssuedAtMs v" "offExpiresAtMs v"]
  by (auto simp: assertOfferCore_def sbind_Inr_iff assertVersion_def offerTuple_def signatureItem_def
      split: option.splits)

lemma acceptanceCore_stamps:
  "assertAcceptanceCore v = Inr u \<Longrightarrow> accVersion v = INVITATION_WIRE_VERSION \<and>
     (\<forall>x \<in> set (acceptanceTuple codec v s). safe_item x)"
  using assertTimeWindow_stamps [of "accIssuedAtMs v" "accExpiresAtMs v"]
  by (auto simp: assertAcceptanceCore_def sbind_Inr_iff assertVersion_def acceptanceTuple_def signatureItem_def
      split: option.splits)

theorem signing_bytes_determine_offer:
  assumes "base64_ok codec" "invitationOfferSigningBytes codec v = Inr b" "invitationOfferSigningBytes codec w = Inr b"
  shows "UnsignedInvitationOfferV1.truncate v = UnsignedInvitationOfferV1.truncate w"
proof -
  obtain p where p: "assertOfferCore v = Inr ()" "assertOfferCore w = Inr ()"
    "encodeJsonTuple (offerTuple codec v None) = Inr p" "encodeJsonTuple (offerTuple codec w None) = Inr p"
    using assms(2,3) by (auto simp: invitationOfferSigningBytes_def domainSeparated_def sbind_Inr_iff)
  note v = offerCore_stamps [OF p(1), of codec None] and w = offerCore_stamps [OF p(2), of codec None]
  have "map itemValue (offerTuple codec v None) = map itemValue (offerTuple codec w None)"
    by (rule encodeJsonTuple_inj [OF p(3,4)]) (use v w in blast)+
  then show ?thesis using v w base64Url_inj [OF assms(1)]
    by (simp add: offerTuple_def signatureItem_def UnsignedInvitationOfferV1.defs inj_map_eq_map inj_def)
qed

theorem signing_bytes_determine_join_request:
  assumes "base64_ok codec" "invitationJoinRequestSigningBytes codec v = Inr b"
    "invitationJoinRequestSigningBytes codec w = Inr b"
  shows "UnsignedInvitationJoinRequestV1.truncate v = UnsignedInvitationJoinRequestV1.truncate w"
proof -
  obtain p where p: "assertJoinCore v = Inr ()" "assertJoinCore w = Inr ()"
    "encodeJsonTuple (joinTuple codec v None) = Inr p" "encodeJsonTuple (joinTuple codec w None) = Inr p"
    using assms(2,3) by (auto simp: invitationJoinRequestSigningBytes_def domainSeparated_def sbind_Inr_iff)
  have "joinVersion v = joinVersion w" using p(1,2) by (auto simp: assertJoinCore_def assertVersion_def sbind_Inr_iff)
  moreover have "map itemValue (joinTuple codec v None) = map itemValue (joinTuple codec w None)"
    by (rule encodeJsonTuple_inj [OF p(3,4)]) (simp_all add: joinTuple_def signatureItem_def)
  ultimately show ?thesis using base64Url_inj [OF assms(1)]
    by (simp add: joinTuple_def signatureItem_def UnsignedInvitationJoinRequestV1.defs)
qed

theorem signing_bytes_determine_acceptance:
  assumes "base64_ok codec" "invitationAcceptanceSigningBytes codec v = Inr b"
    "invitationAcceptanceSigningBytes codec w = Inr b"
  shows "UnsignedInvitationAcceptanceV1.truncate v = UnsignedInvitationAcceptanceV1.truncate w"
proof -
  obtain p where p: "assertAcceptanceCore v = Inr ()" "assertAcceptanceCore w = Inr ()"
    "encodeJsonTuple (acceptanceTuple codec v None) = Inr p" "encodeJsonTuple (acceptanceTuple codec w None) = Inr p"
    using assms(2,3) by (auto simp: invitationAcceptanceSigningBytes_def domainSeparated_def sbind_Inr_iff)
  note v = acceptanceCore_stamps [OF p(1), of codec None] and w = acceptanceCore_stamps [OF p(2), of codec None]
  have "map itemValue (acceptanceTuple codec v None) = map itemValue (acceptanceTuple codec w None)"
    by (rule encodeJsonTuple_inj [OF p(3,4)]) (use v w in blast)+
  then show ?thesis using v w base64Url_inj [OF assms(1)]
    by (simp add: acceptanceTuple_def signatureItem_def UnsignedInvitationAcceptanceV1.defs)
qed

subsection \<open>A Base64 package\<close>

text \<open>
  The URL-safe alphabet of RFC 4648 without padding: the concrete instance of the Base64
  parameter on which the properties are evaluated.
\<close>

definition sextetUnit :: "nat \<Rightarrow> 16 word" where
  "sextetUnit n =
     (if n < 26 then of_nat (65 + n) else if n < 52 then of_nat (71 + n) else if n < 62 then of_nat (n - 4)
      else if n = 62 then 45 else 95)"

definition unitSextet :: "16 word \<Rightarrow> nat option" where
  "unitSextet c =
     (let u = unat c
      in if 65 \<le> u \<and> u \<le> 90 then Some (u - 65) else if 97 \<le> u \<and> u \<le> 122 then Some (u - 71)
         else if 48 \<le> u \<and> u \<le> 57 then Some (u + 4) else if u = 45 then Some 62
         else if u = 95 then Some 63 else None)"

fun base64UrlText :: "bytes \<Rightarrow> js_string" where
  "base64UrlText [] = []"
| "base64UrlText [a] = [sextetUnit (unat a div 4), sextetUnit (unat a mod 4 * 16)]"
| "base64UrlText [a, b] =
     [sextetUnit (unat a div 4), sextetUnit (unat a mod 4 * 16 + unat b div 16), sextetUnit (unat b mod 16 * 4)]"
| "base64UrlText (a # b # c # bs) =
     sextetUnit (unat a div 4) # sextetUnit (unat a mod 4 * 16 + unat b div 16) #
     sextetUnit (unat b mod 16 * 4 + unat c div 64) # sextetUnit (unat c mod 64) # base64UrlText bs"

fun base64UrlBytes :: "js_string \<Rightarrow> bytes option" where
  "base64UrlBytes [] = Some []"
| "base64UrlBytes [p, q] =
     (case (unitSextet p, unitSextet q) of
        (Some i, Some j) \<Rightarrow> Some [of_nat (i * 4 + j div 16)] | _ \<Rightarrow> None)"
| "base64UrlBytes [p, q, r] =
     (case (unitSextet p, unitSextet q, unitSextet r) of
        (Some i, Some j, Some k) \<Rightarrow> Some [of_nat (i * 4 + j div 16), of_nat (j mod 16 * 16 + k div 4)] | _ \<Rightarrow> None)"
| "base64UrlBytes (p # q # r # s # t) =
     (case (unitSextet p, unitSextet q, unitSextet r, unitSextet s, base64UrlBytes t) of
        (Some i, Some j, Some k, Some l, Some bs) \<Rightarrow>
          Some (of_nat (i * 4 + j div 16) # of_nat (j mod 16 * 16 + k div 4) # of_nat (k mod 4 * 64 + l) # bs)
      | _ \<Rightarrow> None)"
| "base64UrlBytes [p] = None"

lemma sextet_unat:
  "n < 64 \<Longrightarrow> unat (sextetUnit n) =
     (if n < 26 then 65 + n else if n < 52 then 71 + n else if n < 62 then n - 4 else if n = 62 then 45 else 95)"
  by (auto simp: sextetUnit_def unat_unit simp del: of_nat_add of_nat_diff)

lemma unitSextet_sextet [simp]: "n < 64 \<Longrightarrow> unitSextet (sextetUnit n) = Some n"
  by (auto simp: unitSextet_def sextet_unat Let_def)

lemma sextet_alphabet [simp]: "n < 64 \<Longrightarrow> isBase64UrlUnit (sextetUnit n)"
proof -
  assume n: "n < 64"
  then show ?thesis using sextet_unat [OF n]
    by (auto simp: isBase64UrlUnit_def word_le_nat_alt word_unat_eq_iff split: if_splits)
qed

lemma sextet_bounds [simp]:
  "unat a div 4 < 64" "unat a mod 4 * 16 < 64" "unat a mod 4 * 16 + unat b div 16 < 64" "unat b mod 16 * 4 < 64"
  "unat b mod 16 * 4 + unat c div 64 < 64" for a b c :: byte
proof -
  have lt: "unat a < 256" "unat b < 256" "unat c < 256"
    using unsigned_less [of a] unsigned_less [of b] unsigned_less [of c] by simp_all
  then have d: "unat a div 4 < 64" "unat b div 16 < 16" "unat c div 64 < 4" by linarith+
  have m: "unat a mod 4 < 4" "unat b mod 16 < 16" by simp_all
  show "unat a div 4 < 64" "unat a mod 4 * 16 < 64" "unat a mod 4 * 16 + unat b div 16 < 64"
    "unat b mod 16 * 4 < 64" "unat b mod 16 * 4 + unat c div 64 < 64"
    using d m by linarith+
qed

lemma sextet_div [simp]: "unat b div 16 div 16 = 0" "unat c div 64 div 4 = 0"
  "unat b div 16 mod 16 = unat b div 16" "unat c div 64 mod 4 = unat c div 64" for b c :: byte
proof -
  have "unat b < 256" "unat c < 256" using unsigned_less [of b] unsigned_less [of c] by simp_all
  then have "unat b div 16 < 16" "unat c div 64 < 4" by linarith+
  then show "unat b div 16 div 16 = 0" "unat c div 64 div 4 = 0"
    "unat b div 16 mod 16 = unat b div 16" "unat c div 64 mod 4 = unat c div 64" by simp_all
qed

lemma byte_parts [simp]: "(of_nat (unat a div 4 * 4 + unat a mod 4) :: byte) = a"
  "(of_nat (unat a div 16 * 16 + unat a mod 16) :: byte) = a" "(of_nat (unat a div 64 * 64 + unat a mod 64) :: byte) = a"
  by simp_all

lemma base64Url_back: "base64UrlBytes (base64UrlText b) = Some b"
  by (induction b rule: base64UrlText.induct) (simp_all add: div_mult_mod_eq del: of_nat_add of_nat_mult)

lemma base64Url_alphabet: "list_all isBase64UrlUnit (base64UrlText b) \<and> (b \<noteq> [] \<longrightarrow> base64UrlText b \<noteq> [])"
  by (induction b rule: base64UrlText.induct) simp_all

definition sample_codec :: wire_codec where
  "sample_codec = \<lparr>base64Url = base64UrlText, fromBase64 = base64UrlBytes, sha256 = (\<lambda>b. b)\<rparr>"

lemma sample_codec_ok: "base64_ok sample_codec"
  using base64Url_back base64Url_alphabet by (simp add: base64_ok_def sample_codec_def)

definition sample_offer :: InvitationOfferV1 where
  "sample_offer = \<lparr>offVersion = 1, invitationId = replicate 32 1, offDocumentId = [47, 100],
     offIssuer = [105], offRole = Reader, offIssuedAtMs = 1000, offExpiresAtMs = 9000,
     rendezvous = [[47, 34, 112]], offSignature = [1]\<rparr>"

definition sample_request :: "byte \<Rightarrow> InvitationJoinRequestV1" where
  "sample_request b = \<lparr>joinVersion = 1, joinOfferDigest = replicate 32 1, requestId = replicate 32 b,
     joinDocumentId = [47, 100], joinRole = Reader, joinRecipient = [114],
     joinKemPublicKey = replicate 65 4, joinSignature = [1]\<rparr>"


section \<open>Properties\<close>

text \<open>
  C7: The wire form of an invitation is canonical. For each of the three envelopes
  decoding is the exact inverse of encoding: a byte string decodes to an envelope if and
  only if the envelope passes its checks and encodes to those bytes. So what is sent is
  read back field by field, every accepted byte string is the only one for its envelope,
  and any reordered, re-escaped or padded variant is refused. What is assumed of the Base64
  package (\<open>base64_ok\<close>) is that its URL-safe text is in the alphabet, is empty only for
  no bytes, and decodes to the bytes it was made from.
\<close>

theorem invitation_codec_exact:
  assumes "base64_ok codec"
  shows "(decodeInvitationOffer codec bo = Inr ofr \<longleftrightarrow> encodeInvitationOffer codec ofr = Inr bo) \<and>
    (decodeInvitationJoinRequest codec br = Inr req \<longleftrightarrow> encodeInvitationJoinRequest codec req = Inr br) \<and>
    (decodeInvitationAcceptance codec ba = Inr acc \<longleftrightarrow> encodeInvitationAcceptance codec acc = Inr ba)"
  using decodeOffer_canonical decodeOffer_encoded [OF assms] decodeJoinRequest_canonical
    decodeJoinRequest_encoded [OF assms] decodeAcceptance_canonical decodeAcceptance_encoded [OF assms] by blast

lemma length_quoteJson: "length (quoteJson s) \<le> 6 * length s + 2"
proof -
  have "length (quoteUnit c) \<le> 6" for c by (simp add: quoteUnit_def unicodeEscape_def)
  then have q: "length (quoteUnit c) \<le> 6" for c .
  have "length (quoteUnits s) \<le> 6 * length s"
  proof (induction s rule: quoteUnits.induct)
    case (3 c d s)
    then show ?case using q [of c] by (cases "isHighSurrogate c \<and> isLowSurrogate d") auto
  qed (simp_all add: q)
  then show ?thesis by (simp add: quoteJson_def)
qed

lemma length_base64Url: "length (base64UrlText b) \<le> 2 * length b"
  by (induction b rule: base64UrlText.induct) simp_all

lemma length_encodeUtf8_le: "length (encodeUtf8 s) \<le> 4 * length s"
proof -
  have "length (codePoints s) \<le> length s" by (induction s rule: codePoints.induct) auto
  moreover have "length (utf8Point p) \<le> 4" for p by (simp add: length_utf8Point)
  then have "length (concat (map utf8Point ps)) \<le> 4 * length ps" for ps
    by (induction ps) (auto simp: add_mono)
  ultimately show ?thesis unfolding encodeUtf8_def by (meson mult_le_mono2 order_trans)
qed

lemma sample_offer_encodes: "succeeds (encodeInvitationOffer sample_codec sample_offer)"
proof -
  have "assertTimeWindow 1000 9000 = Inr ()" by (simp add: assertTimeWindow_iff MAX_INVITATION_TTL_MS_def)
  then have "assertValidInvitationOffer sample_offer = Inr ()"
    by (simp add: assertValidInvitationOffer_def assertOfferCore_def sample_offer_def assertVersion_def
        invitation_limits assertBytes_def assertWireString_def isControlUnit_def
        assertRendezvous_def assertSignature_def require_def)
  moreover have "length (encodeUtf8 (jsonStringify (offerTuple sample_codec sample_offer
      (Some (offSignature sample_offer))))) \<le> 4194304"
  proof -
    let ?s = "jsonStringify (offerTuple sample_codec sample_offer (Some (offSignature sample_offer)))"
    have "length ?s \<le> 1000"
      using length_quoteJson [of OFFER_TAG] length_quoteJson [of "base64UrlText (replicate 32 1)"]
        length_base64Url [of "replicate 32 1"] length_quoteJson [of "[47, 100]"] length_quoteJson [of "[105]"]
        length_quoteJson [of "roleText Reader"] length_quoteJson [of "[47, 34, 112]"]
        length_quoteJson [of "base64UrlText [1]"] length_base64Url [of "[1]"]
      by (simp add: jsonStringify_def offerTuple_def signatureItem_def sample_offer_def sample_codec_def
          OFFER_TAG_def asciiUnits_def integerText_def decimalText.simps INVITATION_WIRE_VERSION_def)
    then show ?thesis using length_encodeUtf8_le [of ?s] by linarith
  qed
  ultimately show ?thesis
    by (simp add: encodeInvitationOffer_def encodeJsonTuple_def Let_def invitation_limits)
qed

theorem invitation_codec_exact_witness:
  "\<exists>b. encodeInvitationOffer sample_codec sample_offer = Inr b \<and> decodeInvitationOffer sample_codec b = Inr sample_offer"
proof -
  obtain b where "encodeInvitationOffer sample_codec sample_offer = Inr b"
    using sample_offer_encodes by (auto simp: succeeds_iff)
  then show ?thesis using invitation_codec_exact [OF sample_codec_ok, of b sample_offer] by blast
qed

end
