(* ===== verification/Invitation_Replay.thy ===== *)
theory Invitation_Replay
  imports Invitation_Wire
begin

text \<open>
  \<open>packages/core/src/policy/replay-admission.ts\<close> and \<open>invitation-replay-guard.ts\<close>:
  the bounded memory that makes public invitations one-time. The guard is a
  record of its four index maps and its clock. Its two public operations are
  asynchronous; each is split where it awaits, into a part that reads the clock
  and checks the envelopes and a part that runs without interruption and
  changes the indexes. The parts of different calls may interleave freely. The
  clock readings (an explicit timestamp or the wall clock) are arguments.
\<close>


section \<open>Definitions\<close>

subsection \<open>The kernel\<close>

record ReplayOfferIdentity =
  offerKnown :: bool
  offerIdentityDigest :: string

record ReplayEnvelopeIdentity =
  envelopeKnown :: bool
  identityOfferDigest :: string
  identityEnvelopeDigest :: string

record ReplayJoinClaim =
  claimKnown :: bool
  joinClaimRequestId :: string
  joinClaimRequestDigest :: string

datatype join_decision =
    JoinInvitationIdConflict | JoinRequestIdConflict | JoinOfferAlreadyClaimed
  | JoinCapacityExceeded | JoinAccepted | JoinReplay

definition decideJoinReplay ::
    "ReplayOfferIdentity \<Rightarrow> ReplayEnvelopeIdentity \<Rightarrow> ReplayJoinClaim \<Rightarrow> string \<Rightarrow> string \<Rightarrow> string
      \<Rightarrow> nat \<Rightarrow> nat \<Rightarrow> join_decision" where
  "decideJoinReplay offer request claim offerDig reqId reqDig claimCount capacity =
     (if offerKnown offer \<and> offerIdentityDigest offer \<noteq> offerDig then JoinInvitationIdConflict
      else if envelopeKnown request \<and>
        (identityOfferDigest request \<noteq> offerDig \<or> identityEnvelopeDigest request \<noteq> reqDig)
        then JoinRequestIdConflict
      else if claimKnown claim then
        (if joinClaimRequestId claim = reqId \<and> joinClaimRequestDigest claim = reqDig then JoinReplay
         else JoinOfferAlreadyClaimed)
      else if claimCount \<ge> capacity then JoinCapacityExceeded
      else JoinAccepted)"

datatype acceptance_decision =
  AccIdConflict | AccOfferAlreadyConsumed | AccAccepted | AccReplay

definition decideAcceptanceReplay ::
    "ReplayEnvelopeIdentity \<Rightarrow> string \<Rightarrow> string \<Rightarrow> bool \<Rightarrow> bool \<Rightarrow> acceptance_decision" where
  "decideAcceptanceReplay identity offerDig accDig alreadyAccepted sameAcceptance =
     (if envelopeKnown identity \<and>
        (identityOfferDigest identity \<noteq> offerDig \<or> identityEnvelopeDigest identity \<noteq> accDig)
        then AccIdConflict
      else if alreadyAccepted then (if sameAcceptance then AccReplay else AccOfferAlreadyConsumed)
      else AccAccepted)"

record InvitationReplayClaim =
  claimInvitationId :: string
  claimOfferDigest :: string
  claimExpiresAtMs :: int
  claimRequestId :: string
  claimRequestDigest :: string
  claimAccepted :: bool
  claimAcceptanceId :: string
  claimAcceptanceDigest :: string

record InvitationReplayEnvelope =
  envOfferDigest :: string
  envEnvelopeDigest :: string

record InvitationReplayTables =
  claimsByOffer :: "(string, InvitationReplayClaim) jsmap"
  offersById :: "(string, string) jsmap"
  requestsById :: "(string, InvitationReplayEnvelope) jsmap"
  acceptancesById :: "(string, InvitationReplayEnvelope) jsmap"

definition advanceInvitationReplayClock :: "int \<Rightarrow> int \<Rightarrow> int" where
  "advanceInvitationReplayClock previous observed = (if previous > observed then previous else observed)"

definition nextInvitationReplayExpiry :: "int \<Rightarrow> int \<Rightarrow> int" where
  "nextInvitationReplayExpiry previous added = (if previous < added then previous else added)"

definition shouldSweepInvitationReplays :: "int \<Rightarrow> int \<Rightarrow> bool" where
  "shouldSweepInvitationReplays earliest now \<longleftrightarrow> now \<ge> earliest"

text \<open>
  The keys come from the same map, so every \<open>get\<close> hits; \<open>None\<close> would be the
  failed property read.
\<close>

fun collectExpiredInvitationClaims_loop ::
    "string list \<Rightarrow> int \<Rightarrow> string list \<Rightarrow> (string, InvitationReplayClaim) jsmap \<Rightarrow> int
      \<Rightarrow> (string list \<times> int) option" where
  "collectExpiredInvitationClaims_loop expired nextExpiry [] claims now = Some (expired, nextExpiry)"
| "collectExpiredInvitationClaims_loop expired nextExpiry (k # ks) claims now =
     (case jget claims k of
        None \<Rightarrow> None
      | Some c \<Rightarrow>
          if claimExpiresAtMs c \<le> now
          then collectExpiredInvitationClaims_loop (expired @ [k]) nextExpiry ks claims now
          else collectExpiredInvitationClaims_loop expired
                 (nextInvitationReplayExpiry nextExpiry (claimExpiresAtMs c)) ks claims now)"

definition collectExpiredInvitationClaims ::
    "string list \<Rightarrow> (string, InvitationReplayClaim) jsmap \<Rightarrow> int \<Rightarrow> (string list \<times> int) option" where
  "collectExpiredInvitationClaims ks claims now =
     collectExpiredInvitationClaims_loop [] 9007199254740991 ks claims now"

definition recordInvitationReplayJoin ::
    "InvitationReplayTables \<Rightarrow> string \<Rightarrow> string \<Rightarrow> int \<Rightarrow> string \<Rightarrow> string \<Rightarrow> InvitationReplayTables" where
  "recordInvitationReplayJoin t invId offerDig expiresAtMs reqId reqDig =
     t\<lparr>claimsByOffer := jset (claimsByOffer t) offerDig
         \<lparr>claimInvitationId = invId, claimOfferDigest = offerDig, claimExpiresAtMs = expiresAtMs,
          claimRequestId = reqId, claimRequestDigest = reqDig, claimAccepted = False,
          claimAcceptanceId = [], claimAcceptanceDigest = []\<rparr>,
       offersById := jset (offersById t) invId offerDig,
       requestsById := jset (requestsById t) reqId
         \<lparr>envOfferDigest = offerDig, envEnvelopeDigest = reqDig\<rparr>\<rparr>"

text \<open>\<open>None\<close> is the failed read of a missing claim.\<close>

definition recordInvitationReplayAcceptance ::
    "InvitationReplayTables \<Rightarrow> string \<Rightarrow> string \<Rightarrow> string \<Rightarrow> InvitationReplayTables option" where
  "recordInvitationReplayAcceptance t offerDig accId accDig =
     (case jget (claimsByOffer t) offerDig of
        None \<Rightarrow> None
      | Some claim \<Rightarrow>
          Some (t\<lparr>claimsByOffer := jset (claimsByOffer t) offerDig
                   (claim\<lparr>claimAccepted := True, claimAcceptanceId := accId,
                          claimAcceptanceDigest := accDig\<rparr>),
                 acceptancesById := jset (acceptancesById t) accId
                   \<lparr>envOfferDigest = offerDig, envEnvelopeDigest = accDig\<rparr>\<rparr>))"

definition retireInvitationReplayClaim ::
    "InvitationReplayTables \<Rightarrow> string \<Rightarrow> InvitationReplayTables" where
  "retireInvitationReplayClaim t offerDig =
     (case jget (claimsByOffer t) offerDig of
        None \<Rightarrow> t
      | Some claim \<Rightarrow>
          t\<lparr>claimsByOffer := jdel (claimsByOffer t) offerDig,
            offersById :=
              (if jget (offersById t) (claimInvitationId claim) = Some offerDig
               then jdel (offersById t) (claimInvitationId claim) else offersById t),
            requestsById :=
              (case jget (requestsById t) (claimRequestId claim) of
                 Some e \<Rightarrow> if envOfferDigest e = offerDig
                           then jdel (requestsById t) (claimRequestId claim) else requestsById t
               | None \<Rightarrow> requestsById t),
            acceptancesById :=
              (if claimAccepted claim then
                 (case jget (acceptancesById t) (claimAcceptanceId claim) of
                    Some e \<Rightarrow> if envOfferDigest e = offerDig
                              then jdel (acceptancesById t) (claimAcceptanceId claim) else acceptancesById t
                  | None \<Rightarrow> acceptancesById t)
               else acceptancesById t)\<rparr>)"

subsection \<open>The guard\<close>

definition DEFAULT_INVITATION_REPLAY_GUARD_ENTRIES :: int where
  "DEFAULT_INVITATION_REPLAY_GUARD_ENTRIES = 1024"

definition MAX_INVITATION_REPLAY_GUARD_ENTRIES :: int where
  "MAX_INVITATION_REPLAY_GUARD_ENTRIES = 65536"

datatype replay_error =
    InvalidCapacity | CapacityExceeded | InvitationIdConflict | RequestIdConflict
  | AcceptanceIdConflict | OfferAlreadyClaimed | OfferAlreadyConsumed

datatype guard_failure =
  ReplayFailure replay_error | WireFailure wire_error | ClockFailure | InternalFailure

datatype replay_decision = Accepted | Replay

record replay_guard =
  tables :: InvitationReplayTables
  observedAtMs :: int
  nextExpiryAtMs :: int
  maxEntries :: nat

definition newReplayGuard :: "js_number \<Rightarrow> guard_failure + replay_guard" where
  "newReplayGuard maxEntriesOption =
     (case asSafeInteger maxEntriesOption of
        None \<Rightarrow> Inl (ReplayFailure InvalidCapacity)
      | Some n \<Rightarrow>
          if n < 1 \<or> n > MAX_INVITATION_REPLAY_GUARD_ENTRIES then Inl (ReplayFailure InvalidCapacity)
          else Inr \<lparr>tables = \<lparr>claimsByOffer = [], offersById = [], requestsById = [], acceptancesById = []\<rparr>,
                    observedAtMs = 0, nextExpiryAtMs = MAX_SAFE_INTEGER, maxEntries = nat n\<rparr>)"

definition observeTime :: "replay_guard \<Rightarrow> js_number \<Rightarrow> (guard_failure + int) \<times> replay_guard" where
  "observeTime g observed =
     (case asSafeInteger observed of
        None \<Rightarrow> (Inl ClockFailure, g)
      | Some t \<Rightarrow>
          if t < 0 then (Inl ClockFailure, g)
          else
            (let now = advanceInvitationReplayClock (observedAtMs g) t
             in (Inr now, g\<lparr>observedAtMs := now\<rparr>)))"

definition pruneExpired :: "replay_guard \<Rightarrow> int \<Rightarrow> replay_guard option" where
  "pruneExpired g nowMs =
     (if \<not> shouldSweepInvitationReplays (nextExpiryAtMs g) nowMs then Some g
      else case collectExpiredInvitationClaims (jkeys (claimsByOffer (tables g))) (claimsByOffer (tables g)) nowMs of
        None \<Rightarrow> None
      | Some (expired, nextExpiry) \<Rightarrow>
          Some (g\<lparr>tables := foldl retireInvitationReplayClaim (tables g) expired,
                  nextExpiryAtMs := nextExpiry\<rparr>))"

definition checkJoin ::
    "replay_guard \<Rightarrow> string \<Rightarrow> string \<Rightarrow> string \<Rightarrow> string \<Rightarrow> guard_failure + replay_decision" where
  "checkJoin g invId offerDig reqId reqDig =
     (let offer = jget (offersById (tables g)) invId;
          request = jget (requestsById (tables g)) reqId;
          claim = jget (claimsByOffer (tables g)) offerDig
      in case decideJoinReplay
           \<lparr>offerKnown = (offer \<noteq> None), offerIdentityDigest = (case offer of None \<Rightarrow> [] | Some d \<Rightarrow> d)\<rparr>
           \<lparr>envelopeKnown = (request \<noteq> None),
            identityOfferDigest = (case request of None \<Rightarrow> [] | Some e \<Rightarrow> envOfferDigest e),
            identityEnvelopeDigest = (case request of None \<Rightarrow> [] | Some e \<Rightarrow> envEnvelopeDigest e)\<rparr>
           \<lparr>claimKnown = (claim \<noteq> None),
            joinClaimRequestId = (case claim of None \<Rightarrow> [] | Some c \<Rightarrow> claimRequestId c),
            joinClaimRequestDigest = (case claim of None \<Rightarrow> [] | Some c \<Rightarrow> claimRequestDigest c)\<rparr>
           offerDig reqId reqDig (jsize (claimsByOffer (tables g))) (maxEntries g) of
         JoinAccepted \<Rightarrow> Inr Accepted
       | JoinReplay \<Rightarrow> Inr Replay
       | JoinInvitationIdConflict \<Rightarrow> Inl (ReplayFailure InvitationIdConflict)
       | JoinRequestIdConflict \<Rightarrow> Inl (ReplayFailure RequestIdConflict)
       | JoinOfferAlreadyClaimed \<Rightarrow> Inl (ReplayFailure OfferAlreadyClaimed)
       | JoinCapacityExceeded \<Rightarrow> Inl (ReplayFailure CapacityExceeded))"

definition commitJoin ::
    "replay_guard \<Rightarrow> string \<Rightarrow> string \<Rightarrow> int \<Rightarrow> string \<Rightarrow> string \<Rightarrow> replay_guard" where
  "commitJoin g invId offerDig expiresAtMs reqId reqDig =
     g\<lparr>tables := recordInvitationReplayJoin (tables g) invId offerDig expiresAtMs reqId reqDig,
       nextExpiryAtMs := nextInvitationReplayExpiry (nextExpiryAtMs g) expiresAtMs\<rparr>"

definition recordJoin ::
    "replay_guard \<Rightarrow> string \<Rightarrow> string \<Rightarrow> int \<Rightarrow> string \<Rightarrow> string
      \<Rightarrow> (guard_failure + replay_decision) \<times> replay_guard" where
  "recordJoin g invId offerDig expiresAtMs reqId reqDig =
     (let decision = checkJoin g invId offerDig reqId reqDig
      in (decision,
          if decision = Inr Accepted then commitJoin g invId offerDig expiresAtMs reqId reqDig else g))"

subsection \<open>The two operations\<close>

definition toHex :: "bytes \<Rightarrow> string" where
  "toHex b = hex_bytes b"

text \<open>\<open>observeJoin\<close> up to the digests it awaits, and from there on.\<close>

definition beginJoin ::
    "wire_codec \<Rightarrow> replay_guard \<Rightarrow> InvitationOfferV1 \<Rightarrow> InvitationJoinRequestV1 \<Rightarrow> js_number
      \<Rightarrow> (guard_failure + (InvitationOfferV1 \<times> InvitationJoinRequestV1 \<times> bytes \<times> bytes)) \<times> replay_guard" where
  "beginJoin codec g offer request clock =
     (case snapshotOffer codec offer of
        Inl e \<Rightarrow> (Inl (WireFailure e), g)
      | Inr offerSnapshot \<Rightarrow>
     (case snapshotJoinRequest codec request of
        Inl e \<Rightarrow> (Inl (WireFailure e), g)
      | Inr requestSnapshot \<Rightarrow>
     (case observeTime g clock of
        (Inl e, g1) \<Rightarrow> (Inl e, g1)
      | (Inr now, g1) \<Rightarrow>
          (case sbind (assertInvitationOfferUsable offerSnapshot now None) (\<lambda>_.
                sbind (assertInvitationJoinMatchesOffer codec requestSnapshot offerSnapshot) (\<lambda>_.
                sbind (digestInvitationOffer codec offerSnapshot) (\<lambda>od.
                sbind (digestInvitationJoinRequest codec requestSnapshot) (\<lambda>rd. Inr (od, rd))))) of
             Inl e \<Rightarrow> (Inl (WireFailure e), g1)
           | Inr ds \<Rightarrow> (Inr (offerSnapshot, requestSnapshot, ds), g1)))))"

definition finishJoin ::
    "replay_guard \<Rightarrow> InvitationOfferV1 \<Rightarrow> InvitationJoinRequestV1 \<Rightarrow> bytes \<times> bytes \<Rightarrow> js_number
      \<Rightarrow> (guard_failure + replay_decision) \<times> replay_guard" where
  "finishJoin g offer request digests clock =
     (case observeTime g clock of
        (Inl e, g1) \<Rightarrow> (Inl e, g1)
      | (Inr committedAt, g1) \<Rightarrow>
          (case assertInvitationOfferUsable offer committedAt None of
             Inl e \<Rightarrow> (Inl (WireFailure e), g1)
           | Inr _ \<Rightarrow>
               (case pruneExpired g1 committedAt of
                  None \<Rightarrow> (Inl InternalFailure, g1)
                | Some g2 \<Rightarrow>
                    recordJoin g2 (toHex (invitationId offer)) (toHex (fst digests))
                      (offExpiresAtMs offer) (toHex (requestId request)) (toHex (snd digests)))))"

definition observeJoin ::
    "wire_codec \<Rightarrow> replay_guard \<Rightarrow> InvitationOfferV1 \<Rightarrow> InvitationJoinRequestV1 \<Rightarrow> js_number \<Rightarrow> js_number
      \<Rightarrow> (guard_failure + replay_decision) \<times> replay_guard" where
  "observeJoin codec g offer request clock clock' =
     (case beginJoin codec g offer request clock of
        (Inl e, g1) \<Rightarrow> (Inl e, g1)
      | (Inr (offerSnapshot, requestSnapshot, digests), g1) \<Rightarrow>
          finishJoin g1 offerSnapshot requestSnapshot digests clock')"

text \<open>\<open>observeAcceptance\<close>, split in the same way.\<close>

definition beginAcceptance ::
    "wire_codec \<Rightarrow> replay_guard \<Rightarrow> InvitationOfferV1 \<Rightarrow> InvitationJoinRequestV1 \<Rightarrow> InvitationAcceptanceV1
      \<Rightarrow> js_number \<Rightarrow> (guard_failure + (InvitationOfferV1 \<times> InvitationJoinRequestV1 \<times>
           InvitationAcceptanceV1 \<times> bytes \<times> bytes \<times> bytes)) \<times> replay_guard" where
  "beginAcceptance codec g offer request acceptance clock =
     (case snapshotOffer codec offer of
        Inl e \<Rightarrow> (Inl (WireFailure e), g)
      | Inr offerSnapshot \<Rightarrow>
     (case snapshotJoinRequest codec request of
        Inl e \<Rightarrow> (Inl (WireFailure e), g)
      | Inr requestSnapshot \<Rightarrow>
     (case snapshotAcceptance codec acceptance of
        Inl e \<Rightarrow> (Inl (WireFailure e), g)
      | Inr acceptanceSnapshot \<Rightarrow>
     (case observeTime g clock of
        (Inl e, g1) \<Rightarrow> (Inl e, g1)
      | (Inr startedAt, g1) \<Rightarrow>
          (case sbind (assertInvitationOfferUsable offerSnapshot startedAt None) (\<lambda>_.
                sbind (assertInvitationAcceptanceUsable acceptanceSnapshot startedAt None) (\<lambda>_.
                sbind (assertInvitationAcceptanceMatches codec acceptanceSnapshot offerSnapshot
                         requestSnapshot) (\<lambda>_.
                sbind (digestInvitationOffer codec offerSnapshot) (\<lambda>od.
                sbind (digestInvitationJoinRequest codec requestSnapshot) (\<lambda>rd.
                sbind (digestInvitationAcceptance codec acceptanceSnapshot) (\<lambda>ad. Inr (od, rd, ad))))))) of
             Inl e \<Rightarrow> (Inl (WireFailure e), g1)
           | Inr ds \<Rightarrow> (Inr (offerSnapshot, requestSnapshot, acceptanceSnapshot, ds), g1))))))"

definition decideAcceptance ::
    "replay_guard \<Rightarrow> string \<Rightarrow> string \<Rightarrow> string \<Rightarrow> acceptance_decision" where
  "decideAcceptance g offerDig accId accDig =
     (let idRecord = jget (acceptancesById (tables g)) accId;
          existingClaim = jget (claimsByOffer (tables g)) offerDig
      in decideAcceptanceReplay
           \<lparr>envelopeKnown = (idRecord \<noteq> None),
            identityOfferDigest = (case idRecord of None \<Rightarrow> [] | Some e \<Rightarrow> envOfferDigest e),
            identityEnvelopeDigest = (case idRecord of None \<Rightarrow> [] | Some e \<Rightarrow> envEnvelopeDigest e)\<rparr>
           offerDig accDig
           (case existingClaim of None \<Rightarrow> False | Some c \<Rightarrow> claimAccepted c)
           (case existingClaim of None \<Rightarrow> False
            | Some c \<Rightarrow> claimAcceptanceId c = accId \<and> claimAcceptanceDigest c = accDig))"

definition recordAcceptance ::
    "replay_guard \<Rightarrow> string \<Rightarrow> string \<Rightarrow> int \<Rightarrow> string \<Rightarrow> string \<Rightarrow> string \<Rightarrow> string
      \<Rightarrow> (guard_failure + replay_decision) \<times> replay_guard" where
  "recordAcceptance g invId offerDig expiresAtMs reqId reqDig accId accDig =
     (case checkJoin g invId offerDig reqId reqDig of
        Inl e \<Rightarrow> (Inl e, g)
      | Inr joinDecision \<Rightarrow>
          (case decideAcceptance g offerDig accId accDig of
             AccReplay \<Rightarrow> (Inr Replay, g)
           | AccIdConflict \<Rightarrow> (Inl (ReplayFailure AcceptanceIdConflict), g)
           | AccOfferAlreadyConsumed \<Rightarrow> (Inl (ReplayFailure OfferAlreadyConsumed), g)
           | AccAccepted \<Rightarrow>
               (let g1 = (if joinDecision = Accepted
                          then commitJoin g invId offerDig expiresAtMs reqId reqDig else g)
                in case recordInvitationReplayAcceptance (tables g1) offerDig accId accDig of
                     None \<Rightarrow> (Inl InternalFailure, g1)
                   | Some t \<Rightarrow> (Inr Accepted, g1\<lparr>tables := t\<rparr>))))"

definition finishAcceptance ::
    "replay_guard \<Rightarrow> InvitationOfferV1 \<Rightarrow> InvitationJoinRequestV1 \<Rightarrow> InvitationAcceptanceV1
      \<Rightarrow> bytes \<times> bytes \<times> bytes \<Rightarrow> js_number \<Rightarrow> (guard_failure + replay_decision) \<times> replay_guard" where
  "finishAcceptance g offer request acceptance digests clock =
     (case observeTime g clock of
        (Inl e, g1) \<Rightarrow> (Inl e, g1)
      | (Inr committedAt, g1) \<Rightarrow>
          (case sbind (assertInvitationOfferUsable offer committedAt None) (\<lambda>_.
                assertInvitationAcceptanceUsable acceptance committedAt None) of
             Inl e \<Rightarrow> (Inl (WireFailure e), g1)
           | Inr _ \<Rightarrow>
               (case pruneExpired g1 committedAt of
                  None \<Rightarrow> (Inl InternalFailure, g1)
                | Some g2 \<Rightarrow>
                    (case digests of (od, rd, ad) \<Rightarrow>
                       recordAcceptance g2 (toHex (invitationId offer)) (toHex od) (offExpiresAtMs offer)
                         (toHex (requestId request)) (toHex rd) (toHex (acceptanceId acceptance)) (toHex ad)))))"

definition observeAcceptance ::
    "wire_codec \<Rightarrow> replay_guard \<Rightarrow> InvitationOfferV1 \<Rightarrow> InvitationJoinRequestV1 \<Rightarrow> InvitationAcceptanceV1
      \<Rightarrow> js_number \<Rightarrow> js_number \<Rightarrow> (guard_failure + replay_decision) \<times> replay_guard" where
  "observeAcceptance codec g offer request acceptance clock clock' =
     (case beginAcceptance codec g offer request acceptance clock of
        (Inl e, g1) \<Rightarrow> (Inl e, g1)
      | (Inr (offerSnapshot, requestSnapshot, acceptanceSnapshot, digests), g1) \<Rightarrow>
          finishAcceptance g1 offerSnapshot requestSnapshot acceptanceSnapshot digests clock')"


section \<open>Lemmas\<close>

subsection \<open>The indexes agree\<close>

text \<open>
  The invariant: every claim is found under its own offer digest, its
  invitation, request and acceptance identifiers point back to it, and the three
  identifier maps hold nothing else.
\<close>

definition claim_indexed :: "InvitationReplayTables \<Rightarrow> string \<Rightarrow> InvitationReplayClaim \<Rightarrow> bool" where
  "claim_indexed t d c \<longleftrightarrow>
     claimOfferDigest c = d \<and>
     jget (offersById t) (claimInvitationId c) = Some d \<and>
     jget (requestsById t) (claimRequestId c) =
       Some \<lparr>envOfferDigest = d, envEnvelopeDigest = claimRequestDigest c\<rparr> \<and>
     (claimAccepted c \<longrightarrow> jget (acceptancesById t) (claimAcceptanceId c) =
       Some \<lparr>envOfferDigest = d, envEnvelopeDigest = claimAcceptanceDigest c\<rparr>)"

definition tables_ok :: "InvitationReplayTables \<Rightarrow> bool" where
  "tables_ok t \<longleftrightarrow> jwf (claimsByOffer t) \<and>
     (\<forall>d c. jget (claimsByOffer t) d = Some c \<longrightarrow> claim_indexed t d c) \<and>
     (\<forall>i d. jget (offersById t) i = Some d \<longrightarrow>
        (\<exists>c. jget (claimsByOffer t) d = Some c \<and> claimInvitationId c = i)) \<and>
     (\<forall>i e. jget (requestsById t) i = Some e \<longrightarrow>
        (\<exists>c. jget (claimsByOffer t) (envOfferDigest e) = Some c \<and> claimRequestId c = i)) \<and>
     (\<forall>i e. jget (acceptancesById t) i = Some e \<longrightarrow>
        (\<exists>c. jget (claimsByOffer t) (envOfferDigest e) = Some c \<and> claimAccepted c \<and> claimAcceptanceId c = i))"


lemma tables_okD:
  assumes "tables_ok t"
  shows "jwf (claimsByOffer t)"
    "jget (claimsByOffer t) d = Some c \<Longrightarrow> claim_indexed t d c"
    "jget (offersById t) i = Some d \<Longrightarrow> \<exists>c. jget (claimsByOffer t) d = Some c \<and> claimInvitationId c = i"
    "jget (requestsById t) i = Some e \<Longrightarrow>
       \<exists>c. jget (claimsByOffer t) (envOfferDigest e) = Some c \<and> claimRequestId c = i"
    "jget (acceptancesById t) i = Some e \<Longrightarrow>
       \<exists>c. jget (claimsByOffer t) (envOfferDigest e) = Some c \<and> claimAccepted c \<and> claimAcceptanceId c = i"
  using assms unfolding tables_ok_def by blast+

lemma tables_ok_join:
  assumes t: "tables_ok t" and fresh: "jget (claimsByOffer t) d = None"
    "jget (offersById t) i = None" "jget (requestsById t) r = None"
  shows "tables_ok (recordInvitationReplayJoin t i d x r rd)" (is "tables_ok ?t")
  unfolding tables_ok_def
proof (intro conjI allI impI)
  show "jwf (claimsByOffer ?t)" using tables_okD(1) [OF t] by (simp add: recordInvitationReplayJoin_def jwf_jset)
next
  fix d' c assume "jget (claimsByOffer ?t) d' = Some c"
  then show "claim_indexed ?t d' c"
    using tables_okD(2) [OF t, of d' c] fresh
    by (auto simp: recordInvitationReplayJoin_def jget_jset claim_indexed_def split: if_splits)
next
  fix i' d' assume "jget (offersById ?t) i' = Some d'"
  then show "\<exists>c. jget (claimsByOffer ?t) d' = Some c \<and> claimInvitationId c = i'"
    using tables_okD(3) [OF t, of i' d'] fresh
    by (auto simp: recordInvitationReplayJoin_def jget_jset split: if_splits)
next
  fix i' e assume "jget (requestsById ?t) i' = Some e"
  then show "\<exists>c. jget (claimsByOffer ?t) (envOfferDigest e) = Some c \<and> claimRequestId c = i'"
    using tables_okD(4) [OF t, of i' e] fresh
    by (auto simp: recordInvitationReplayJoin_def jget_jset split: if_splits)
next
  fix i' e assume "jget (acceptancesById ?t) i' = Some e"
  then show "\<exists>c. jget (claimsByOffer ?t) (envOfferDigest e) = Some c \<and> claimAccepted c \<and>
      claimAcceptanceId c = i'"
    using tables_okD(5) [OF t, of i' e] fresh
    by (auto simp: recordInvitationReplayJoin_def jget_jset split: if_splits)
qed

lemma tables_ok_acceptance:
  assumes t: "tables_ok t" and c: "jget (claimsByOffer t) d = Some c" "\<not> claimAccepted c"
    and fresh: "jget (acceptancesById t) a = None"
    and rec: "recordInvitationReplayAcceptance t d a ad = Some t'"
  shows "tables_ok t'"
proof -
  let ?c = "c\<lparr>claimAccepted := True, claimAcceptanceId := a, claimAcceptanceDigest := ad\<rparr>"
  have t': "t' = t\<lparr>claimsByOffer := jset (claimsByOffer t) d ?c,
      acceptancesById := jset (acceptancesById t) a \<lparr>envOfferDigest = d, envEnvelopeDigest = ad\<rparr>\<rparr>"
    using rec c(1) by (simp add: recordInvitationReplayAcceptance_def)
  show ?thesis unfolding tables_ok_def
  proof (intro conjI allI impI)
    show "jwf (claimsByOffer t')" using tables_okD(1) [OF t] by (simp add: t' jwf_jset)
  next
    fix d' c' assume "jget (claimsByOffer t') d' = Some c'"
    then show "claim_indexed t' d' c'"
      using tables_okD(2) [OF t, of d' c'] tables_okD(2) [OF t c(1)] fresh
      by (auto simp: t' jget_jset claim_indexed_def split: if_splits)
  next
    fix i' d' assume "jget (offersById t') i' = Some d'"
    then show "\<exists>c. jget (claimsByOffer t') d' = Some c \<and> claimInvitationId c = i'"
      using tables_okD(3) [OF t, of i' d'] c by (auto simp: t' jget_jset)
  next
    fix i' e assume "jget (requestsById t') i' = Some e"
    then show "\<exists>c. jget (claimsByOffer t') (envOfferDigest e) = Some c \<and> claimRequestId c = i'"
      using tables_okD(4) [OF t, of i' e] c by (auto simp: t' jget_jset)
  next
    fix i' e assume "jget (acceptancesById t') i' = Some e"
    then show "\<exists>c. jget (claimsByOffer t') (envOfferDigest e) = Some c \<and> claimAccepted c \<and>
        claimAcceptanceId c = i'"
      using tables_okD(5) [OF t, of i' e] c by (auto simp: t' jget_jset split: if_splits)
  qed
qed

text \<open>Retiring a claim: the guards of the code hold by the invariant.\<close>

lemma retire_exact:
  assumes t: "tables_ok t" and c: "jget (claimsByOffer t) d = Some c"
  shows "retireInvitationReplayClaim t d =
    t\<lparr>claimsByOffer := jdel (claimsByOffer t) d,
      offersById := jdel (offersById t) (claimInvitationId c),
      requestsById := jdel (requestsById t) (claimRequestId c),
      acceptancesById := (if claimAccepted c then jdel (acceptancesById t) (claimAcceptanceId c)
                          else acceptancesById t)\<rparr>"
  using tables_okD(2) [OF t c] c by (simp add: retireInvitationReplayClaim_def claim_indexed_def)

lemma tables_ok_retire:
  assumes t: "tables_ok t"
  shows "tables_ok (retireInvitationReplayClaim t d)" (is "tables_ok ?t")
proof (cases "jget (claimsByOffer t) d")
  case None
  then show ?thesis using t by (simp add: retireInvitationReplayClaim_def)
next
  case (Some c)
  note r = retire_exact [OF t Some] and ci = tables_okD(2) [OF t Some]
  show ?thesis unfolding tables_ok_def
  proof (intro conjI allI impI)
    show "jwf (claimsByOffer ?t)" using tables_okD(1) [OF t] by (simp add: r es_map.wf_remove)
  next
    fix d' c' assume "jget (claimsByOffer ?t) d' = Some c'"
    then have d': "d' \<noteq> d" "claim_indexed t d' c'"
      using tables_okD(2) [OF t, of d' c'] by (auto simp: r jget_jdel split: if_splits)
    then show "claim_indexed ?t d' c'"
      using ci by (auto simp: r jget_jdel claim_indexed_def)
  next
    fix i' d' assume "jget (offersById ?t) i' = Some d'"
    then show "\<exists>c. jget (claimsByOffer ?t) d' = Some c \<and> claimInvitationId c = i'"
      using tables_okD(3) [OF t, of i' d'] Some by (auto simp: r jget_jdel split: if_splits)
  next
    fix i' e assume "jget (requestsById ?t) i' = Some e"
    then show "\<exists>c. jget (claimsByOffer ?t) (envOfferDigest e) = Some c \<and> claimRequestId c = i'"
      using tables_okD(4) [OF t, of i' e] Some by (auto simp: r jget_jdel split: if_splits)
  next
    fix i' e assume "jget (acceptancesById ?t) i' = Some e"
    then show "\<exists>c. jget (claimsByOffer ?t) (envOfferDigest e) = Some c \<and> claimAccepted c \<and>
        claimAcceptanceId c = i'"
      using tables_okD(5) [OF t, of i' e] Some by (auto simp: r jget_jdel split: if_splits)
  qed
qed


subsection \<open>Pruning\<close>

definition expired_at :: "(string, InvitationReplayClaim) jsmap \<Rightarrow> int \<Rightarrow> string \<Rightarrow> bool" where
  "expired_at claims now d \<longleftrightarrow> (case jget claims d of None \<Rightarrow> False | Some c \<Rightarrow> claimExpiresAtMs c \<le> now)"

lemma collect_loop:
  assumes "\<forall>k \<in> set ks. jget claims k \<noteq> None"
  shows "\<exists>nx'. collectExpiredInvitationClaims_loop ex nx ks claims now =
      Some (ex @ filter (expired_at claims now) ks, nx') \<and> nx' \<le> nx \<and>
    (\<forall>k \<in> set ks. \<forall>c. jget claims k = Some c \<longrightarrow> \<not> claimExpiresAtMs c \<le> now \<longrightarrow> nx' \<le> claimExpiresAtMs c)"
  using assms
proof (induction ks arbitrary: ex nx)
  case (Cons k ks)
  obtain c where c: "jget claims k = Some c" using Cons.prems by auto
  have step: "nextInvitationReplayExpiry nx (claimExpiresAtMs c) \<le> nx"
    "nextInvitationReplayExpiry nx (claimExpiresAtMs c) \<le> claimExpiresAtMs c"
    by (auto simp: nextInvitationReplayExpiry_def)
  show ?case
  proof (cases "claimExpiresAtMs c \<le> now")
    case True
    then show ?thesis using Cons.IH [of "ex @ [k]" nx] Cons.prems c
      by (auto simp: expired_at_def)
  next
    case False
    obtain nx' where "collectExpiredInvitationClaims_loop ex
        (nextInvitationReplayExpiry nx (claimExpiresAtMs c)) ks claims now =
          Some (ex @ filter (expired_at claims now) ks, nx')"
      "nx' \<le> nextInvitationReplayExpiry nx (claimExpiresAtMs c)"
      "\<forall>k \<in> set ks. \<forall>c. jget claims k = Some c \<longrightarrow> \<not> claimExpiresAtMs c \<le> now \<longrightarrow> nx' \<le> claimExpiresAtMs c"
      using Cons.IH [of ex "nextInvitationReplayExpiry nx (claimExpiresAtMs c)"] Cons.prems by auto
    moreover have "\<not> expired_at claims now k" using False c by (simp add: expired_at_def)
    ultimately show ?thesis using False c step by auto
  qed
qed simp

lemma retire_jget:
  assumes "tables_ok t"
  shows "jget (claimsByOffer (retireInvitationReplayClaim t d)) d' =
    (if d' = d then None else jget (claimsByOffer t) d')"
  by (cases "jget (claimsByOffer t) d") (auto simp: retireInvitationReplayClaim_def jget_jdel)

lemma retire_fold:
  assumes "tables_ok t"
  shows "tables_ok (foldl retireInvitationReplayClaim t ks) \<and>
    (\<forall>d. jget (claimsByOffer (foldl retireInvitationReplayClaim t ks)) d =
      (if d \<in> set ks then None else jget (claimsByOffer t) d)) \<and>
    jsize (claimsByOffer (foldl retireInvitationReplayClaim t ks)) \<le> jsize (claimsByOffer t)"
  using assms
proof (induction ks arbitrary: t)
  case (Cons k ks)
  have "jsize (claimsByOffer (retireInvitationReplayClaim t k)) \<le> jsize (claimsByOffer t)"
    by (simp add: retireInvitationReplayClaim_def jsize_jdel_le split: option.splits)
  then show ?case
    using Cons.IH [OF tables_ok_retire [OF Cons.prems, of k]] retire_jget [OF Cons.prems, of k] by auto
qed simp

text \<open>
  The invariant of the guard, for offers whose expiry is a function \<open>x\<close> of their
  digest.
\<close>

definition guard_ok :: "(string \<Rightarrow> int) \<Rightarrow> replay_guard \<Rightarrow> bool" where
  "guard_ok x g \<longleftrightarrow> tables_ok (tables g) \<and> jsize (claimsByOffer (tables g)) \<le> maxEntries g \<and>
     (\<forall>d c. jget (claimsByOffer (tables g)) d = Some c \<longrightarrow>
        claimExpiresAtMs c = x d \<and> nextExpiryAtMs g \<le> x d)"

text \<open>Pruning removes the expired claims, all of them and no other.\<close>

lemma pruneExpired_spec:
  assumes g: "guard_ok x g"
  obtains g' where "pruneExpired g now = Some g'" "guard_ok x g'" "observedAtMs g' = observedAtMs g"
    "maxEntries g' = maxEntries g"
    "\<forall>d. jget (claimsByOffer (tables g')) d =
      (if expired_at (claimsByOffer (tables g)) now d then None else jget (claimsByOffer (tables g)) d)"
proof (cases "shouldSweepInvitationReplays (nextExpiryAtMs g) now")
  case False
  then have "\<forall>d. \<not> expired_at (claimsByOffer (tables g)) now d"
    using g by (force simp: shouldSweepInvitationReplays_def guard_ok_def expired_at_def split: option.splits)
  then show ?thesis using that [of g] False g by (simp add: pruneExpired_def)
next
  case True
  let ?cl = "claimsByOffer (tables g)"
  have t: "tables_ok (tables g)" using g by (simp add: guard_ok_def)
  obtain nx where nx: "collectExpiredInvitationClaims (jkeys ?cl) ?cl now =
      Some (filter (expired_at ?cl now) (jkeys ?cl), nx)"
    "\<forall>k \<in> set (jkeys ?cl). \<forall>c. jget ?cl k = Some c \<longrightarrow> \<not> claimExpiresAtMs c \<le> now \<longrightarrow> nx \<le> claimExpiresAtMs c"
    using collect_loop [of "jkeys ?cl" ?cl "[]" 9007199254740991 now]
    by (auto simp: collectExpiredInvitationClaims_def jkeys_jget)
  let ?g = "g\<lparr>tables := foldl retireInvitationReplayClaim (tables g) (filter (expired_at ?cl now) (jkeys ?cl)),
      nextExpiryAtMs := nx\<rparr>"
  have look: "jget (claimsByOffer (tables ?g)) d = (if expired_at ?cl now d then None else jget ?cl d)" for d
    using retire_fold [OF t, of "filter (expired_at ?cl now) (jkeys ?cl)"]
    by (auto simp: jkeys_jget expired_at_def)
  have "guard_ok x ?g"
    using retire_fold [OF t, of "filter (expired_at ?cl now) (jkeys ?cl)"] g look nx(2)
    by (auto simp: guard_ok_def jkeys_jget expired_at_def split: if_splits)
  then show ?thesis using that [of ?g] look nx(1) True by (simp add: pruneExpired_def)
qed


subsection \<open>Steps\<close>

lemma checkJoin_accepted:
  assumes t: "tables_ok (tables g)" and a: "checkJoin g i d r rd = Inr Accepted"
  shows "jget (claimsByOffer (tables g)) d = None" "jget (offersById (tables g)) i = None"
    "jget (requestsById (tables g)) r = None" "jsize (claimsByOffer (tables g)) < maxEntries g"
proof -
  show cl: "jget (claimsByOffer (tables g)) d = None"
    and "jsize (claimsByOffer (tables g)) < maxEntries g"
    using a by (auto simp: checkJoin_def decideJoinReplay_def Let_def split: join_decision.splits if_splits)
  show "jget (offersById (tables g)) i = None"
  proof (cases "jget (offersById (tables g)) i")
    case (Some d')
    then have "d' = d"
      using a by (auto simp: checkJoin_def decideJoinReplay_def Let_def split: join_decision.splits if_splits)
    then show ?thesis using tables_okD(3) [OF t Some] cl by auto
  qed
  show "jget (requestsById (tables g)) r = None"
  proof (cases "jget (requestsById (tables g)) r")
    case (Some e)
    then have "envOfferDigest e = d"
      using a by (auto simp: checkJoin_def decideJoinReplay_def Let_def split: join_decision.splits if_splits)
    then show ?thesis using tables_okD(4) [OF t Some] cl by auto
  qed
qed

lemma commitJoin_ok:
  assumes "guard_ok x g" "checkJoin g i d r rd = Inr Accepted" "ex = x d"
  shows "guard_ok x (commitJoin g i d ex r rd)"
proof -
  have t: "tables_ok (tables g)" using assms(1) by (simp add: guard_ok_def)
  note fresh = checkJoin_accepted [OF t assms(2)]
  have old: "nextExpiryAtMs g \<le> x d' \<and> claimExpiresAtMs c = x d'"
    if "jget (claimsByOffer (tables g)) d' = Some c" for d' c
    using assms(1) that by (auto simp: guard_ok_def)
  have "jsize (claimsByOffer (tables (commitJoin g i d ex r rd))) \<le> maxEntries g"
    using fresh(1,4) by (simp add: commitJoin_def recordInvitationReplayJoin_def jsize_jset)
  moreover have "claimExpiresAtMs c = x d' \<and> nextExpiryAtMs (commitJoin g i d ex r rd) \<le> x d'"
    if "jget (claimsByOffer (tables (commitJoin g i d ex r rd))) d' = Some c" for d' c
    using that old [of d' c] assms(3)
    by (auto simp: commitJoin_def recordInvitationReplayJoin_def jget_jset nextInvitationReplayExpiry_def
        split: if_splits)
  ultimately show ?thesis using tables_ok_join [OF t fresh(1-3)]
    by (simp add: guard_ok_def commitJoin_def)
qed

lemma recordJoin_ok:
  "guard_ok x g \<Longrightarrow> ex = x d \<Longrightarrow> guard_ok x (snd (recordJoin g i d ex r rd))"
  by (auto simp: recordJoin_def Let_def intro: commitJoin_ok)

lemma decideAcceptance_accepted:
  assumes t: "tables_ok (tables g)" and a: "decideAcceptance g d ai ad = AccAccepted"
  shows "jget (acceptancesById (tables g)) ai = None"
    "jget (claimsByOffer (tables g)) d = Some c \<Longrightarrow> \<not> claimAccepted c"
proof -
  show nc: "jget (claimsByOffer (tables g)) d = Some c \<Longrightarrow> \<not> claimAccepted c" for c
    using a by (auto simp: decideAcceptance_def decideAcceptanceReplay_def Let_def split: if_splits)
  show "jget (acceptancesById (tables g)) ai = None"
  proof (cases "jget (acceptancesById (tables g)) ai")
    case (Some e)
    then have "envOfferDigest e = d"
      using a by (auto simp: decideAcceptance_def decideAcceptanceReplay_def Let_def split: if_splits)
    then show ?thesis using tables_okD(5) [OF t Some] nc by auto
  qed
qed

lemma checkJoin_replay: "checkJoin g i d r rd = Inr Replay \<Longrightarrow> jget (claimsByOffer (tables g)) d \<noteq> None"
  by (auto simp: checkJoin_def decideJoinReplay_def Let_def split: join_decision.splits if_splits)

text \<open>An acceptance that is recorded turns the claim of its offer into an accepted one.\<close>

lemma recordAcceptance_accepted:
  assumes g: "guard_ok x g" and ex: "ex = x d"
    and c: "checkJoin g i d r rd = Inr jd" and a: "decideAcceptance g d ai ad = AccAccepted"
  obtains g' where "recordAcceptance g i d ex r rd ai ad = (Inr Accepted, g')" "guard_ok x g'"
    "observedAtMs g' = observedAtMs g" "maxEntries g' = maxEntries g"
    "\<exists>c. jget (claimsByOffer (tables g')) d = Some c \<and> claimAccepted c"
    "\<forall>d'. d' \<noteq> d \<longrightarrow> jget (claimsByOffer (tables g')) d' = jget (claimsByOffer (tables g)) d'"
proof -
  let ?g1 = "if jd = Accepted then commitJoin g i d ex r rd else g"
  have t: "tables_ok (tables g)" using g by (simp add: guard_ok_def)
  note fr = decideAcceptance_accepted [OF t a]
  have g1: "guard_ok x ?g1" using g commitJoin_ok [OF g _ ex] c by auto
  have same: "acceptancesById (tables ?g1) = acceptancesById (tables g)" "observedAtMs ?g1 = observedAtMs g"
    "maxEntries ?g1 = maxEntries g"
    by (simp_all add: commitJoin_def recordInvitationReplayJoin_def)
  have others: "\<forall>d'. d' \<noteq> d \<longrightarrow> jget (claimsByOffer (tables ?g1)) d' = jget (claimsByOffer (tables g)) d'"
    by (simp add: commitJoin_def recordInvitationReplayJoin_def jget_jset)
  obtain cl where cl: "jget (claimsByOffer (tables ?g1)) d = Some cl" "\<not> claimAccepted cl"
  proof (cases jd)
    case Accepted
    then show ?thesis using that by (simp add: commitJoin_def recordInvitationReplayJoin_def jget_jset)
  next
    case Replay
    then obtain cl where "jget (claimsByOffer (tables g)) d = Some cl" using checkJoin_replay c by blast
    then show ?thesis using that Replay fr(2) by simp
  qed
  obtain t' where t': "recordInvitationReplayAcceptance (tables ?g1) d ai ad = Some t'"
    using cl(1) by (simp add: recordInvitationReplayAcceptance_def)
  let ?c = "cl\<lparr>claimAccepted := True, claimAcceptanceId := ai, claimAcceptanceDigest := ad\<rparr>"
  have cl': "claimsByOffer t' = jset (claimsByOffer (tables ?g1)) d ?c"
    using t' cl(1) by (auto simp: recordInvitationReplayAcceptance_def)
  have "tables_ok t'"
    using tables_ok_acceptance [OF _ cl _ t'] g1 fr(1) same(1) by (simp add: guard_ok_def)
  then have "guard_ok x (?g1\<lparr>tables := t'\<rparr>)"
    using g1 cl by (auto simp: guard_ok_def cl' jsize_jset jget_jset split: if_splits)
  moreover have "recordAcceptance g i d ex r rd ai ad = (Inr Accepted, ?g1\<lparr>tables := t'\<rparr>)"
    using c a t' by (simp add: recordAcceptance_def Let_def)
  ultimately show ?thesis using that same others by (simp add: cl' jget_jset)
qed

lemma recordAcceptance_unchanged:
  assumes "recordAcceptance g i d ex r rd ai ad = (res, g')" "res \<noteq> Inr Accepted"
    and "guard_ok x g" "ex = x d"
  shows "g' = g"
proof (cases "checkJoin g i d r rd")
  case (Inr jd)
  show ?thesis
  proof (cases "decideAcceptance g d ai ad = AccAccepted")
    case True
    show ?thesis by (rule recordAcceptance_accepted [OF assms(3,4) Inr True]) (use assms(1,2) in auto)
  next
    case False
    then show ?thesis using Inr assms(1) by (auto simp: recordAcceptance_def split: acceptance_decision.splits)
  qed
qed (use assms(1) in \<open>auto simp: recordAcceptance_def\<close>)


subsection \<open>Interleaved calls\<close>

text \<open>
  What the event loop may run, in any order: the parts of any number of
  concurrent \<open>observeJoin\<close> and \<open>observeAcceptance\<close> calls.
\<close>

datatype guard_event =
    BeginJoin InvitationOfferV1 InvitationJoinRequestV1 js_number
  | FinishJoin InvitationOfferV1 InvitationJoinRequestV1 "bytes \<times> bytes" js_number
  | BeginAcceptance InvitationOfferV1 InvitationJoinRequestV1 InvitationAcceptanceV1 js_number
  | FinishAcceptance InvitationOfferV1 InvitationJoinRequestV1 InvitationAcceptanceV1
      "bytes \<times> bytes \<times> bytes" js_number

fun guard_step :: "wire_codec \<Rightarrow> replay_guard \<Rightarrow> guard_event \<Rightarrow> replay_guard" where
  "guard_step codec g (BeginJoin ofr req t) = snd (beginJoin codec g ofr req t)"
| "guard_step codec g (FinishJoin ofr req ds t) = snd (finishJoin g ofr req ds t)"
| "guard_step codec g (BeginAcceptance ofr req acc t) = snd (beginAcceptance codec g ofr req acc t)"
| "guard_step codec g (FinishAcceptance ofr req acc ds t) = snd (finishAcceptance g ofr req acc ds t)"

fun join_admitted :: "replay_guard \<Rightarrow> guard_event \<Rightarrow> bool" where
  "join_admitted g (FinishJoin ofr req ds t) = (fst (finishJoin g ofr req ds t) = Inr Accepted)"
| "join_admitted g e = False"

fun acceptance_admitted :: "replay_guard \<Rightarrow> guard_event \<Rightarrow> bool" where
  "acceptance_admitted g (FinishAcceptance ofr req acc ds t) =
     (fst (finishAcceptance g ofr req acc ds t) = Inr Accepted)"
| "acceptance_admitted g e = False"

text \<open>The digest of the offer an event is about, and that it determines the offer's expiry.\<close>

fun event_offer :: "guard_event \<Rightarrow> string" where
  "event_offer (FinishJoin ofr req ds t) = toHex (fst ds)"
| "event_offer (FinishAcceptance ofr req acc ds t) = toHex (fst ds)"
| "event_offer e = []"

fun event_expiry :: "(string \<Rightarrow> int) \<Rightarrow> guard_event \<Rightarrow> bool" where
  "event_expiry x (FinishJoin ofr req ds t) = (offExpiresAtMs ofr = x (toHex (fst ds)))"
| "event_expiry x (FinishAcceptance ofr req acc ds t) = (offExpiresAtMs ofr = x (toHex (fst ds)))"
| "event_expiry x e = True"

definition join_spent :: "(string \<Rightarrow> int) \<Rightarrow> replay_guard \<Rightarrow> string \<Rightarrow> bool" where
  "join_spent x g d \<longleftrightarrow> x d \<le> observedAtMs g \<or> jget (claimsByOffer (tables g)) d \<noteq> None"

definition acceptance_spent :: "(string \<Rightarrow> int) \<Rightarrow> replay_guard \<Rightarrow> string \<Rightarrow> bool" where
  "acceptance_spent x g d \<longleftrightarrow> x d \<le> observedAtMs g \<or>
     (\<exists>c. jget (claimsByOffer (tables g)) d = Some c \<and> claimAccepted c)"

lemma observeTime_cases:
  obtains (bad) e where "observeTime g t = (Inl e, g)"
  | (good) now where "observeTime g t = (Inr now, g\<lparr>observedAtMs := now\<rparr>)" "observedAtMs g \<le> now"
proof (cases "\<exists>v. asSafeInteger t = Some v \<and> 0 \<le> v")
  case True
  then obtain v where v: "asSafeInteger t = Some v" "0 \<le> v" by blast
  show ?thesis
    by (rule good [of "advanceInvitationReplayClock (observedAtMs g) v"])
      (use v in \<open>auto simp: observeTime_def advanceInvitationReplayClock_def Let_def\<close>)
next
  case False
  then show ?thesis by (intro bad [of ClockFailure]) (auto simp: observeTime_def split: option.splits)
qed

text \<open>Reading the clock only moves the guard's time forward.\<close>

definition ticked :: "replay_guard \<Rightarrow> replay_guard \<Rightarrow> bool" where
  "ticked g g' \<longleftrightarrow> tables g' = tables g \<and> nextExpiryAtMs g' = nextExpiryAtMs g \<and>
     maxEntries g' = maxEntries g \<and> observedAtMs g \<le> observedAtMs g'"

lemma ticked_refl [simp]: "ticked g g"
  by (simp add: ticked_def)

lemma ticked_clock [simp]: "observedAtMs g \<le> now \<Longrightarrow> ticked g (g\<lparr>observedAtMs := now\<rparr>)"
  by (simp add: ticked_def)

lemma ticked_ok: "ticked g g' \<Longrightarrow> guard_ok x g \<Longrightarrow> guard_ok x g'"
  by (simp add: ticked_def guard_ok_def)

lemma beginJoin_ticked: "ticked g (snd (beginJoin codec g ofr req t))"
  by (cases rule: observeTime_cases [of g t]) (auto simp: beginJoin_def split: sum.splits)

lemma beginAcceptance_ticked: "ticked g (snd (beginAcceptance codec g ofr req acc t))"
  by (cases rule: observeTime_cases [of g t]) (auto simp: beginAcceptance_def split: sum.splits)

text \<open>
  Either the uninterrupted part stops early, or it prunes and records at a time
  before the offer's expiry.
\<close>

lemma finishJoin_late:
  assumes ok: "guard_ok x g" and ob: "observeTime g t = (Inr now, g1)"
    and us: "assertInvitationOfferUsable ofr now None = Inr u"
  obtains g' where "guard_ok x g'" "observedAtMs g' = now"
    "\<forall>d. jget (claimsByOffer (tables g')) d = (if expired_at (claimsByOffer (tables g)) now d then None
         else jget (claimsByOffer (tables g)) d)"
    "finishJoin g ofr req ds t = recordJoin g' (toHex (invitationId ofr)) (toHex (fst ds))
       (offExpiresAtMs ofr) (toHex (requestId req)) (toHex (snd ds))"
proof -
  have g1: "g1 = g\<lparr>observedAtMs := now\<rparr>" "observedAtMs g \<le> now"
    using ob by (cases rule: observeTime_cases [of g t]; simp)+
  have "guard_ok x g1" using ok g1 ticked_ok ticked_clock by blast
  then obtain g' where "pruneExpired g1 now = Some g'" "guard_ok x g'" "observedAtMs g' = observedAtMs g1"
    "\<forall>d. jget (claimsByOffer (tables g')) d = (if expired_at (claimsByOffer (tables g1)) now d then None
         else jget (claimsByOffer (tables g1)) d)" by (rule pruneExpired_spec)
  then show ?thesis using that g1(1) ob us by (simp add: finishJoin_def)
qed

lemma finishJoin_cases:
  assumes "guard_ok x g"
  obtains (early) e g' where "finishJoin g ofr req ds t = (Inl e, g')" "ticked g g'"
  | (late) now g' where "observedAtMs g \<le> now" "now < offExpiresAtMs ofr" "guard_ok x g'"
      "observedAtMs g' = now"
      "\<forall>d. jget (claimsByOffer (tables g')) d = (if expired_at (claimsByOffer (tables g)) now d then None
           else jget (claimsByOffer (tables g)) d)"
      "finishJoin g ofr req ds t = recordJoin g' (toHex (invitationId ofr)) (toHex (fst ds))
         (offExpiresAtMs ofr) (toHex (requestId req)) (toHex (snd ds))"
proof (cases rule: observeTime_cases [of g t])
  case bad
  then show ?thesis using early by (simp add: finishJoin_def)
next
  case (good now)
  show ?thesis
  proof (cases "assertInvitationOfferUsable ofr now None")
    case (Inl e)
    then show ?thesis using early good by (simp add: finishJoin_def)
  next
    case (Inr u)
    show ?thesis
      by (rule finishJoin_late [OF assms good(1) Inr, of req ds])
        (rule late [OF good(2) offerUsable_window(3) [OF Inr]])
  qed
qed

lemma finishAcceptance_cases:
  assumes "guard_ok x g"
  obtains (early) e g' where "finishAcceptance g ofr req acc ds t = (Inl e, g')" "ticked g g'"
  | (late) now g' where "observedAtMs g \<le> now" "now < offExpiresAtMs ofr" "guard_ok x g'"
      "observedAtMs g' = now"
      "\<forall>d. jget (claimsByOffer (tables g')) d = (if expired_at (claimsByOffer (tables g)) now d then None
           else jget (claimsByOffer (tables g)) d)"
      "finishAcceptance g ofr req acc ds t = recordAcceptance g' (toHex (invitationId ofr)) (toHex (fst ds))
         (offExpiresAtMs ofr) (toHex (requestId req)) (toHex (fst (snd ds)))
         (toHex (acceptanceId acc)) (toHex (snd (snd ds)))"
proof (cases rule: observeTime_cases [of g t])
  case bad
  then show ?thesis using early by (simp add: finishAcceptance_def)
next
  case (good now)
  let ?g = "g\<lparr>observedAtMs := now\<rparr>"
  have ok: "guard_ok x ?g" using assms good(2) ticked_ok ticked_clock by blast
  show ?thesis
  proof (cases "sbind (assertInvitationOfferUsable ofr now None)
      (\<lambda>_. assertInvitationAcceptanceUsable acc now None)")
    case (Inl e)
    then show ?thesis using early good by (simp add: finishAcceptance_def)
  next
    case (Inr u)
    then have usable: "assertInvitationOfferUsable ofr now None = Inr ()" by (auto simp: sbind_Inr_iff)
    obtain g' where g': "pruneExpired ?g now = Some g'" "guard_ok x g'" "observedAtMs g' = now"
      "\<forall>d. jget (claimsByOffer (tables g')) d = (if expired_at (claimsByOffer (tables g)) now d then None
           else jget (claimsByOffer (tables g)) d)"
      by (rule pruneExpired_spec [OF ok, of now]) simp
    then show ?thesis
      using late [OF good(2) offerUsable_window(3) [OF usable] g'(2,3)] good(1) Inr
      by (simp add: finishAcceptance_def split: prod.splits)
  qed
qed


subsection \<open>The guard as a replay ledger\<close>

lemma recordJoin_keeps:
  assumes "guard_ok x g" "jget (claimsByOffer (tables g)) d' = Some c"
  shows "jget (claimsByOffer (tables (snd (recordJoin g i d ex r rd)))) d' = Some c"
proof (cases "checkJoin g i d r rd = Inr Accepted")
  case True
  then have "d' \<noteq> d" using checkJoin_accepted(1) [OF _ True] assms by (auto simp: guard_ok_def)
  then show ?thesis using True assms(2)
    by (simp add: recordJoin_def commitJoin_def recordInvitationReplayJoin_def jget_jset Let_def)
qed (simp add: recordJoin_def assms(2))

lemma recordJoin_clock [simp]: "observedAtMs (snd (recordJoin g i d ex r rd)) = observedAtMs g"
  by (simp add: recordJoin_def commitJoin_def Let_def)

lemma recordAcceptance_cases:
  assumes "guard_ok x g" "ex = x d"
  obtains (same) res where "recordAcceptance g i d ex r rd ai ad = (res, g)" "res \<noteq> Inr Accepted"
  | (accepted) g' where "recordAcceptance g i d ex r rd ai ad = (Inr Accepted, g')" "guard_ok x g'"
    "observedAtMs g' = observedAtMs g"
    "\<not> (\<exists>c. jget (claimsByOffer (tables g)) d = Some c \<and> claimAccepted c)"
    "\<exists>c. jget (claimsByOffer (tables g')) d = Some c \<and> claimAccepted c"
    "\<forall>d'. d' \<noteq> d \<longrightarrow> jget (claimsByOffer (tables g')) d' = jget (claimsByOffer (tables g)) d'"
proof (cases "\<exists>jd. checkJoin g i d r rd = Inr jd \<and> decideAcceptance g d ai ad = AccAccepted")
  case True
  then obtain jd where jd: "checkJoin g i d r rd = Inr jd" "decideAcceptance g d ai ad = AccAccepted" by blast
  have t: "tables_ok (tables g)" using assms(1) by (simp add: guard_ok_def)
  show ?thesis
    by (rule recordAcceptance_accepted [OF assms jd])
      (use accepted decideAcceptance_accepted(2) [OF t jd(2)] in blast)
next
  case False
  then have "fst (recordAcceptance g i d ex r rd ai ad) \<noteq> Inr Accepted"
    by (auto simp: recordAcceptance_def split: sum.splits acceptance_decision.splits)
  then show ?thesis
    using same recordAcceptance_unchanged [OF _ _ assms] by (metis prod.collapse)
qed

lemma guard_step_ok:
  assumes "guard_ok x g" "event_expiry x e"
  shows "guard_ok x (guard_step codec g e)"
proof (cases e)
  case (BeginJoin ofr req t)
  then show ?thesis using ticked_ok [OF beginJoin_ticked assms(1)] by simp
next
  case (BeginAcceptance ofr req acc t)
  then show ?thesis using ticked_ok [OF beginAcceptance_ticked assms(1)] by simp
next
  case (FinishJoin ofr req ds t)
  show ?thesis
    by (cases rule: finishJoin_cases [OF assms(1), of ofr req ds t])
      (use FinishJoin assms in \<open>auto intro: ticked_ok recordJoin_ok\<close>)
next
  case (FinishAcceptance ofr req acc ds t)
  show ?thesis
  proof (rule finishAcceptance_cases [OF assms(1), of ofr req acc ds t], goal_cases early late)
    case (early err g')
    then show ?thesis using FinishAcceptance assms(1) by (auto intro: ticked_ok)
  next
    case (late now g')
    have "offExpiresAtMs ofr = x (toHex (fst ds))" using FinishAcceptance assms(2) by simp
    then show ?thesis using FinishAcceptance late(3,6)
      by (cases rule: recordAcceptance_cases [OF late(3), of "offExpiresAtMs ofr" "toHex (fst ds)"
            "toHex (invitationId ofr)" "toHex (requestId req)" "toHex (fst (snd ds))"
            "toHex (acceptanceId acc)" "toHex (snd (snd ds))"]) auto
  qed
qed

text \<open>
  One step forward for a claim that has not expired: it stays, and an accepted
  one stays accepted. The guard's time never goes back.
\<close>

lemma guard_step_claim:
  assumes g: "guard_ok x g" and e: "event_expiry x e" and c: "jget (claimsByOffer (tables g)) d = Some c"
  shows "observedAtMs g \<le> observedAtMs (guard_step codec g e) \<and>
    (x d \<le> observedAtMs (guard_step codec g e) \<or>
     (\<exists>c'. jget (claimsByOffer (tables (guard_step codec g e))) d = Some c' \<and>
        (claimAccepted c \<longrightarrow> claimAccepted c')))"
proof (cases e)
  case (BeginJoin ofr req t)
  then show ?thesis using beginJoin_ticked [of g codec ofr req t] c by (simp add: ticked_def)
next
  case (BeginAcceptance ofr req acc t)
  then show ?thesis using beginAcceptance_ticked [of g codec ofr req acc t] c by (simp add: ticked_def)
next
  case (FinishJoin ofr req ds t)
  show ?thesis
  proof (rule finishJoin_cases [OF g, of ofr req ds t], goal_cases early late)
    case (early err g')
    then show ?thesis using FinishJoin c by (simp add: ticked_def)
  next
    case (late now g')
    have "x d \<le> now \<or> jget (claimsByOffer (tables g')) d = Some c"
      using late(5) c g by (auto simp: expired_at_def guard_ok_def)
    then show ?thesis using FinishJoin late recordJoin_keeps [OF late(3)] by auto
  qed
next
  case (FinishAcceptance ofr req acc ds t)
  show ?thesis
  proof (rule finishAcceptance_cases [OF g, of ofr req acc ds t], goal_cases early late)
    case (early err g')
    then show ?thesis using FinishAcceptance c by (simp add: ticked_def)
  next
    case (late now g')
    have k: "x d \<le> now \<or> jget (claimsByOffer (tables g')) d = Some c"
      using late(5) c g by (auto simp: expired_at_def guard_ok_def)
    have ex: "offExpiresAtMs ofr = x (toHex (fst ds))" using FinishAcceptance e by simp
    show ?thesis
    proof (rule recordAcceptance_cases [OF late(3) ex, of "toHex (invitationId ofr)" "toHex (requestId req)"
        "toHex (fst (snd ds))" "toHex (acceptanceId acc)" "toHex (snd (snd ds))"], goal_cases same accepted)
      case (same res)
      then show ?thesis using FinishAcceptance late k by auto
    next
      case (accepted g2)
      then show ?thesis using FinishAcceptance late(1,4,6) k by (cases "d = toHex (fst ds)") auto
    qed
  qed
qed

lemma guard_step_clock:
  assumes "guard_ok x g" "event_expiry x e"
  shows "observedAtMs g \<le> observedAtMs (guard_step codec g e)"
proof (cases e)
  case (BeginJoin ofr req t)
  then show ?thesis using beginJoin_ticked [of g codec ofr req t] by (simp add: ticked_def)
next
  case (BeginAcceptance ofr req acc t)
  then show ?thesis using beginAcceptance_ticked [of g codec ofr req acc t] by (simp add: ticked_def)
next
  case (FinishJoin ofr req ds t)
  show ?thesis by (cases rule: finishJoin_cases [OF assms(1), of ofr req ds t])
      (use FinishJoin in \<open>auto simp: ticked_def\<close>)
next
  case (FinishAcceptance ofr req acc ds t)
  show ?thesis
  proof (rule finishAcceptance_cases [OF assms(1), of ofr req acc ds t], goal_cases early late)
    case (early err g')
    then show ?thesis using FinishAcceptance by (simp add: ticked_def)
  next
    case (late now g')
    have ex: "offExpiresAtMs ofr = x (toHex (fst ds))" using FinishAcceptance assms(2) by simp
    show ?thesis
      by (rule recordAcceptance_cases [OF late(3) ex, of "toHex (invitationId ofr)" "toHex (requestId req)"
        "toHex (fst (snd ds))" "toHex (acceptanceId acc)" "toHex (snd (snd ds))"]) (use FinishAcceptance late(1,4,6) in auto)
  qed
qed


lemma join_spent_kept:
  assumes "guard_ok x g" "event_expiry x e" "join_spent x g d"
  shows "join_spent x (guard_step codec g e) d"
proof (cases "jget (claimsByOffer (tables g)) d")
  case None
  then show ?thesis using guard_step_clock [OF assms(1,2), of codec] assms(3) by (auto simp: join_spent_def)
next
  case (Some c)
  then show ?thesis using guard_step_claim [OF assms(1,2) Some, of codec] by (auto simp: join_spent_def)
qed

lemma acceptance_spent_kept:
  assumes "guard_ok x g" "event_expiry x e" "acceptance_spent x g d"
  shows "acceptance_spent x (guard_step codec g e) d"
  using assms(3) unfolding acceptance_spent_def
proof
  assume "x d \<le> observedAtMs g"
  then show "x d \<le> observedAtMs (guard_step codec g e) \<or> (\<exists>c. jget (claimsByOffer (tables
      (guard_step codec g e))) d = Some c \<and> claimAccepted c)"
    using guard_step_clock [OF assms(1,2), of codec] by simp
next
  assume "\<exists>c. jget (claimsByOffer (tables g)) d = Some c \<and> claimAccepted c"
  then obtain c where "jget (claimsByOffer (tables g)) d = Some c" "claimAccepted c" by blast
  then show "x d \<le> observedAtMs (guard_step codec g e) \<or> (\<exists>c. jget (claimsByOffer (tables
      (guard_step codec g e))) d = Some c \<and> claimAccepted c)"
    using guard_step_claim [OF assms(1,2), of d c codec] by auto
qed

lemma join_admitted_spent:
  assumes g: "guard_ok x g" and e: "event_expiry x e" and a: "join_admitted g e"
  shows "join_spent x (guard_step codec g e) (event_offer e) \<and> \<not> join_spent x g (event_offer e)"
proof -
  obtain ofr req ds t where ev: "e = FinishJoin ofr req ds t"
    "fst (finishJoin g ofr req ds t) = Inr Accepted" using a by (cases e) auto
  have ex: "offExpiresAtMs ofr = x (toHex (fst ds))" using e ev(1) by simp
  show ?thesis
  proof (rule finishJoin_cases [OF g, of ofr req ds t], goal_cases early late)
    case early
    then show ?case using ev(2) by simp
  next
    case (late now g')
    have acc: "checkJoin g' (toHex (invitationId ofr)) (toHex (fst ds)) (toHex (requestId req))
        (toHex (snd ds)) = Inr Accepted"
      using ev(2) late(6) by (simp add: recordJoin_def Let_def)
    then have "jget (claimsByOffer (tables g')) (toHex (fst ds)) = None"
      using checkJoin_accepted(1) late(3) by (auto simp: guard_ok_def)
    then have "jget (claimsByOffer (tables g)) (toHex (fst ds)) = None"
      using late(2,5) ex g by (auto simp: expired_at_def guard_ok_def split: if_splits option.splits)
    then show ?case using ev(1) late(1,2,6) ex acc
      by (simp add: join_spent_def recordJoin_def commitJoin_def recordInvitationReplayJoin_def jget_jset Let_def)
  qed
qed

lemma acceptance_admitted_spent:
  assumes g: "guard_ok x g" and e: "event_expiry x e" and a: "acceptance_admitted g e"
  shows "acceptance_spent x (guard_step codec g e) (event_offer e) \<and> \<not> acceptance_spent x g (event_offer e)"
proof -
  obtain ofr req acc ds t where ev: "e = FinishAcceptance ofr req acc ds t"
    "fst (finishAcceptance g ofr req acc ds t) = Inr Accepted" using a by (cases e) auto
  have ex: "offExpiresAtMs ofr = x (toHex (fst ds))" using e ev(1) by simp
  show ?thesis
  proof (rule finishAcceptance_cases [OF g, of ofr req acc ds t], goal_cases early late)
    case early
    then show ?case using ev(2) by simp
  next
    case (late now g')
    have look: "jget (claimsByOffer (tables g)) (toHex (fst ds)) =
        jget (claimsByOffer (tables g')) (toHex (fst ds))"
      using late(2,5) ex g by (auto simp: expired_at_def guard_ok_def split: option.splits)
    show ?case
      by (rule recordAcceptance_cases [OF late(3) ex, of "toHex (invitationId ofr)"
            "toHex (requestId req)" "toHex (fst (snd ds))" "toHex (acceptanceId acc)" "toHex (snd (snd ds))"])
        (use ev late(1,2,6) ex look in \<open>auto simp: acceptance_spent_def\<close>)
  qed
qed

interpretation joins: replay_ledger "guard_step codec" join_admitted event_offer "guard_ok x"
    "event_expiry x" "join_spent x" for codec x
  by unfold_locales (use guard_step_ok join_admitted_spent join_spent_kept in blast)+

interpretation acceptances: replay_ledger "guard_step codec" acceptance_admitted event_offer "guard_ok x"
    "event_expiry x" "acceptance_spent x" for codec x
  by unfold_locales (use guard_step_ok acceptance_admitted_spent acceptance_spent_kept in blast)+

lemma new_guard_ok: "newReplayGuard n = Inr g \<Longrightarrow> guard_ok x g"
  by (auto simp: newReplayGuard_def guard_ok_def tables_ok_def split: option.splits if_splits)



section \<open>Properties\<close>

definition sample_guard :: replay_guard where
  "sample_guard = \<lparr>tables = \<lparr>claimsByOffer = [], offersById = [], requestsById = [], acceptancesById = []\<rparr>,
     observedAtMs = 0, nextExpiryAtMs = MAX_SAFE_INTEGER, maxEntries = 1024\<rparr>"

definition sample_events :: "guard_event list" where
  "sample_events =
     [FinishJoin sample_offer (sample_request 7) (replicate 32 1, replicate 32 7) (js_int 2000),
      FinishJoin sample_offer (sample_request 8) (replicate 32 1, replicate 32 8) (js_int 2001),
      FinishJoin sample_offer (sample_request 7) (replicate 32 1, replicate 32 7) (js_int 2002)]"

lemma sample_guard_new: "newReplayGuard (js_int 1024) = Inr sample_guard"
  by (simp add: newReplayGuard_def sample_guard_def MAX_INVITATION_REPLAY_GUARD_ENTRIES_def)

lemma sample_expiry: "\<forall>e \<in> set sample_events. event_expiry (\<lambda>_. 9000) e"
  by (simp add: sample_events_def sample_offer_def)

text \<open>
  C5: An invitation is used once. From a new guard, in every interleaving of
  concurrent calls and for any clock readings, at most one join request and at
  most one acceptance is admitted per offer, provided offers with one digest
  have one expiry (\<open>x\<close>): forgetting an expired offer never lets it in again.
\<close>

theorem invitation_once:
  assumes "newReplayGuard n = Inr g" and "\<forall>e \<in> set es. event_expiry x e"
  shows "distinct (admissions (guard_step codec) join_admitted event_offer g es) \<and>
    distinct (admissions (guard_step codec) acceptance_admitted event_offer g es)"
  using joins.once [OF new_guard_ok [OF assms(1)] assms(2)]
    acceptances.once [OF new_guard_ok [OF assms(1)] assms(2)] by blast

theorem invitation_once_witness:
  "admissions (guard_step sample_codec) join_admitted event_offer sample_guard sample_events =
     [toHex (replicate 32 1)] \<and>
   distinct (admissions (guard_step sample_codec) join_admitted event_offer sample_guard sample_events)"
proof
  show "admissions (guard_step sample_codec) join_admitted event_offer sample_guard sample_events =
     [toHex (replicate 32 1)]" by code_simp
  show "distinct (admissions (guard_step sample_codec) join_admitted event_offer sample_guard sample_events)"
    using invitation_once [OF sample_guard_new sample_expiry] by blast
qed

lemma guard_run_ok:
  "guard_ok x g \<Longrightarrow> \<forall>e \<in> set es. event_expiry x e \<Longrightarrow> guard_ok x (foldl (guard_step codec) g es)"
  by (induction es arbitrary: g) (auto intro: guard_step_ok)

text \<open>
  C6: The four indexes of the guard stay consistent and bounded. After any
  interleaving of calls the guard remembers at most \<open>maxEntries\<close> offers, every
  claim is reachable through its invitation, request and acceptance identifier,
  no identifier points anywhere else, and no remembered offer expires before the
  time of the next sweep.
\<close>

theorem replay_guard_invariant:
  assumes "newReplayGuard n = Inr g" and "\<forall>e \<in> set es. event_expiry x e"
  shows "tables_ok (tables (foldl (guard_step codec) g es)) \<and>
    jsize (claimsByOffer (tables (foldl (guard_step codec) g es))) \<le> maxEntries (foldl (guard_step codec) g es) \<and>
    (\<forall>d c. jget (claimsByOffer (tables (foldl (guard_step codec) g es))) d = Some c \<longrightarrow>
       nextExpiryAtMs (foldl (guard_step codec) g es) \<le> claimExpiresAtMs c)"
proof -
  have ok: "guard_ok x (foldl (guard_step codec) g es)"
    using guard_run_ok [OF new_guard_ok [OF assms(1)] assms(2)] .
  then show ?thesis unfolding guard_ok_def by metis
qed

theorem replay_guard_invariant_witness:
  "tables_ok (tables (foldl (guard_step sample_codec) sample_guard sample_events))"
  using replay_guard_invariant [OF sample_guard_new sample_expiry] by blast

lemma checkJoin_claimed:
  assumes t: "tables_ok (tables g)" and c: "jget (claimsByOffer (tables g)) d = Some c"
    and i: "claimInvitationId c = i"
  shows "checkJoin g i d r rd =
    (if claimRequestId c = r \<and> claimRequestDigest c = rd then Inr Replay
     else if jget (requestsById (tables g)) r \<noteq> None \<and>
       jget (requestsById (tables g)) r \<noteq> Some \<lparr>envOfferDigest = d, envEnvelopeDigest = rd\<rparr>
     then Inl (ReplayFailure RequestIdConflict)
     else Inl (ReplayFailure OfferAlreadyClaimed))"
  using tables_okD(2) [OF t c] c i
  by (auto simp: checkJoin_def decideJoinReplay_def Let_def claim_indexed_def split: option.splits)

text \<open>
  A repeated join request is recognised. After a request for an offer has been
  admitted, the same request observed again before the offer expires is
  reported as a replay and a different request is refused.
\<close>

theorem observeJoin_repeat:
  assumes g: "newReplayGuard n = Inr g0" "\<forall>e \<in> set es. event_expiry x e"
    "g = foldl (guard_step codec) g0 es" and x: "offExpiresAtMs ofr = x (toHex (fst ds))"
    and first: "finishJoin g ofr req ds t = (Inr Accepted, g1)"
    and usable: "observeTime g1 t' = (Inr now, g2)" "assertInvitationOfferUsable ofr now None = Inr ()"
  shows "fst (finishJoin g1 ofr req ds t') = Inr Replay \<and>
    (toHex (requestId req') \<noteq> toHex (requestId req) \<longrightarrow>
       fst (finishJoin g1 ofr req' (fst ds, rd') t') \<in>
         {Inl (ReplayFailure RequestIdConflict), Inl (ReplayFailure OfferAlreadyClaimed)})"
proof -
  let ?d = "toHex (fst ds)" and ?i = "toHex (invitationId ofr)"
  have g: "guard_ok x g" using guard_run_ok [OF new_guard_ok [OF g(1)] g(2)] g(3) by simp
  have e: "event_expiry x (FinishJoin ofr req ds t)" using x by simp
  have ok1: "guard_ok x g1" using guard_step_ok [OF g e, of codec] first by simp
  obtain c where c: "jget (claimsByOffer (tables g1)) ?d = Some c" "claimInvitationId c = ?i"
    "claimRequestId c = toHex (requestId req)" "claimRequestDigest c = toHex (snd ds)"
  proof (rule finishJoin_cases [OF g, of ofr req ds t], goal_cases early late)
    case early
    then show ?case using first by simp
  next
    case (late now g')
    then show ?case using first late(1)
      by (auto simp: recordJoin_def commitJoin_def recordInvitationReplayJoin_def jget_jset Let_def
          split: if_splits)
  qed
  have again: "\<exists>g3. tables_ok (tables g3) \<and> jget (claimsByOffer (tables g3)) ?d = Some c \<and>
      finishJoin g1 ofr r (fst ds, rd) t' = recordJoin g3 ?i ?d (offExpiresAtMs ofr) (toHex (requestId r)) (toHex rd)"
    for r rd
    by (rule finishJoin_late [OF ok1 usable, of r "(fst ds, rd)"])
      (use c(1) ok1 x offerUsable_window(3) [OF usable(2)] in \<open>auto simp: guard_ok_def expired_at_def\<close>)
  have "fst (finishJoin g1 ofr req ds t') = Inr Replay"
    using again [of req "snd ds"] checkJoin_claimed [of _ ?d c ?i] c
    by (auto simp: recordJoin_def Let_def)
  moreover have "fst (finishJoin g1 ofr req' (fst ds, rd') t') \<in>
      {Inl (ReplayFailure RequestIdConflict), Inl (ReplayFailure OfferAlreadyClaimed)}"
    if "toHex (requestId req') \<noteq> toHex (requestId req)"
    using again [of req' rd'] checkJoin_claimed [of _ ?d c ?i] c that
    by (auto simp: recordJoin_def Let_def split: if_splits)
  ultimately show ?thesis by blast
qed

definition sample_guard1 :: replay_guard where
  "sample_guard1 = snd (finishJoin sample_guard sample_offer (sample_request 7)
     (replicate 32 1, replicate 32 7) (js_int 2000))"

theorem observeJoin_repeat_witness:
  "fst (finishJoin sample_guard1 sample_offer (sample_request 7) (replicate 32 1, replicate 32 7)
     (js_int 2001)) = Inr Replay"
proof -
  have first: "finishJoin sample_guard sample_offer (sample_request 7) (replicate 32 1, replicate 32 7)
      (js_int 2000) = (Inr Accepted, sample_guard1)"
  proof (rule prod_eqI)
    show "fst (finishJoin sample_guard sample_offer (sample_request 7) (replicate 32 1, replicate 32 7)
      (js_int 2000)) = fst (Inr Accepted, sample_guard1)" by code_simp
  qed (simp add: sample_guard1_def)
  have ob: "observeTime sample_guard1 (js_int 2001) = (Inr 2001, sample_guard1\<lparr>observedAtMs := 2001\<rparr>)"
  proof -
    have "observedAtMs sample_guard1 = 2000" by code_simp
    then show ?thesis by (simp add: observeTime_def advanceInvitationReplayClock_def)
  qed
  have us: "assertInvitationOfferUsable sample_offer 2001 None = Inr ()" by code_simp
  have "offExpiresAtMs sample_offer = (\<lambda>_. 9000) (toHex (fst (replicate 32 1, replicate 32 (7 :: byte))))"
    by (simp add: sample_offer_def)
  from observeJoin_repeat [OF sample_guard_new _ refl this _ ob us, of "[]"] first show ?thesis by simp
qed

end
