(* ===== verification/Welcome_Buffer.thy ===== *)
theory Welcome_Buffer
  imports Js_Prelude
begin

text \<open>
  \<open>packages/core/src/policy/welcome-admission.ts\<close>, \<open>policy/maintenance.ts\<close> and
  \<open>pending-welcome-buffer.ts\<close>: the byte-bounded buffer of key-tree Welcomes that
  arrived before the readers' list that makes them acceptable. The kernel plans
  on metadata, the buffer holds the bodies; both are modelled, and the buffer's
  operations call the kernel as the source does.
\<close>


section \<open>Definitions\<close>

subsection \<open>The kernel\<close>

record PendingWelcomeMetadata =
  metaKey :: string
  metaBytes :: int
  metaAuthenticated :: bool

record PendingWelcomeBudget =
  total :: int
  protectedBytes :: int
  protectedCount :: nat
  previousBytes :: int

record PendingWelcomePlan =
  admitted :: bool
  replaced :: bool
  planKept :: "PendingWelcomeMetadata list"
  planEvictedKeys :: "string list"
  planRetainedBytes :: int

record PendingWelcomeRemoval =
  removalKept :: "PendingWelcomeMetadata list"
  removalRetainedBytes :: int
  removed :: bool

record PendingWelcomePressure =
  pressureKept :: "PendingWelcomeMetadata list"
  pressureEvictedKeys :: "string list"
  pressureRetainedBytes :: int

record PendingWelcomeExpiry =
  expiryKept :: "PendingWelcomeMetadata list"
  expiredKeys :: "string list"
  expiryRetainedBytes :: int

definition budgetStep :: "string \<Rightarrow> PendingWelcomeBudget \<Rightarrow> PendingWelcomeMetadata \<Rightarrow> PendingWelcomeBudget" where
  "budgetStep key b entry =
     \<lparr>total = total b + metaBytes entry,
      protectedBytes = (if metaAuthenticated entry then protectedBytes b + metaBytes entry else protectedBytes b),
      protectedCount = (if metaAuthenticated entry then protectedCount b + 1 else protectedCount b),
      previousBytes = (if metaKey entry = key then metaBytes entry else previousBytes b)\<rparr>"

definition pendingWelcomeBudget :: "PendingWelcomeMetadata list \<Rightarrow> string \<Rightarrow> PendingWelcomeBudget" where
  "pendingWelcomeBudget entries key =
     foldl (budgetStep key) \<lparr>total = 0, protectedBytes = 0, protectedCount = 0, previousBytes = 0\<rparr> entries"

definition canAdmitPendingWelcome ::
    "bool \<Rightarrow> bool \<Rightarrow> nat \<Rightarrow> int \<Rightarrow> int \<Rightarrow> nat \<Rightarrow> int \<Rightarrow> bool" where
  "canAdmitPendingWelcome existing authenticated protCount protBytes incomingBytes maximumEntries maximumBytes \<longleftrightarrow>
     (\<not> existing \<or> authenticated) \<and>
     (authenticated \<or> (protCount < maximumEntries \<and> protBytes \<le> maximumBytes - incomingBytes))"

fun planPendingWelcomeRemoval_loop ::
    "string \<Rightarrow> PendingWelcomeRemoval \<Rightarrow> PendingWelcomeMetadata list \<Rightarrow> PendingWelcomeRemoval" where
  "planPendingWelcomeRemoval_loop key acc [] = acc"
| "planPendingWelcomeRemoval_loop key acc (entry # entries) =
     planPendingWelcomeRemoval_loop key
       (if metaKey entry = key then acc\<lparr>removed := True\<rparr>
        else acc\<lparr>removalKept := removalKept acc @ [entry],
                 removalRetainedBytes := removalRetainedBytes acc + metaBytes entry\<rparr>) entries"

definition planPendingWelcomeRemoval ::
    "PendingWelcomeMetadata list \<Rightarrow> string \<Rightarrow> PendingWelcomeRemoval" where
  "planPendingWelcomeRemoval entries key =
     planPendingWelcomeRemoval_loop key \<lparr>removalKept = [], removalRetainedBytes = 0, removed = False\<rparr> entries"

text \<open>The loop variables of \<open>trimPendingWelcomes\<close>: what remains, what is kept, what is evicted.\<close>

fun trimPendingWelcomes_loop ::
    "int \<Rightarrow> bool \<Rightarrow> nat \<Rightarrow> int \<Rightarrow> nat \<Rightarrow> int \<Rightarrow> PendingWelcomeMetadata list \<Rightarrow> string list
      \<Rightarrow> PendingWelcomeMetadata list \<Rightarrow> PendingWelcomePressure" where
  "trimPendingWelcomes_loop incomingBytes allowAuthenticated maximumEntries maximumBytes
     remainingCount remainingBytes kept evictedKeys [] =
     \<lparr>pressureKept = kept, pressureEvictedKeys = evictedKeys, pressureRetainedBytes = remainingBytes\<rparr>"
| "trimPendingWelcomes_loop incomingBytes allowAuthenticated maximumEntries maximumBytes
     remainingCount remainingBytes kept evictedKeys (entry # entries) =
     (if (allowAuthenticated \<or> \<not> metaAuthenticated entry) \<and>
         (remainingCount \<ge> maximumEntries \<or> remainingBytes > maximumBytes - incomingBytes)
      then trimPendingWelcomes_loop incomingBytes allowAuthenticated maximumEntries maximumBytes
             (remainingCount - 1) (remainingBytes - metaBytes entry) kept (evictedKeys @ [metaKey entry]) entries
      else trimPendingWelcomes_loop incomingBytes allowAuthenticated maximumEntries maximumBytes
             remainingCount remainingBytes (kept @ [entry]) evictedKeys entries)"

definition trimPendingWelcomes ::
    "PendingWelcomeMetadata list \<Rightarrow> int \<Rightarrow> bool \<Rightarrow> nat \<Rightarrow> int \<Rightarrow> PendingWelcomePressure" where
  "trimPendingWelcomes entries incomingBytes allowAuthenticated maximumEntries maximumBytes =
     trimPendingWelcomes_loop incomingBytes allowAuthenticated maximumEntries maximumBytes
       (length entries) (total (pendingWelcomeBudget entries [])) [] [] entries"

definition planPendingWelcomeAdmission ::
    "PendingWelcomeMetadata list \<Rightarrow> string \<Rightarrow> int \<Rightarrow> bool \<Rightarrow> nat \<Rightarrow> int \<Rightarrow> PendingWelcomePlan" where
  "planPendingWelcomeAdmission entries key incomingBytes authenticated maximumEntries maximumBytes =
     (let budget = pendingWelcomeBudget entries key
      in if \<not> canAdmitPendingWelcome (previousBytes budget > 0) authenticated (protectedCount budget)
              (protectedBytes budget) incomingBytes maximumEntries maximumBytes
         then \<lparr>admitted = False, replaced = False, planKept = entries, planEvictedKeys = [],
               planRetainedBytes = total budget\<rparr>
         else
           (let removal = planPendingWelcomeRemoval entries key
            in if length (removalKept removal) < maximumEntries \<and>
                  removalRetainedBytes removal \<le> maximumBytes - incomingBytes
               then \<lparr>admitted = True, replaced = removed removal, planKept = removalKept removal,
                     planEvictedKeys = [], planRetainedBytes = removalRetainedBytes removal + incomingBytes\<rparr>
               else
                 (let unverified = trimPendingWelcomes (removalKept removal) incomingBytes False
                        maximumEntries maximumBytes
                  in if authenticated \<and>
                        (length (pressureKept unverified) \<ge> maximumEntries \<or>
                         pressureRetainedBytes unverified > maximumBytes - incomingBytes)
                     then
                       (let trusted = trimPendingWelcomes (pressureKept unverified) incomingBytes True
                              maximumEntries maximumBytes
                        in \<lparr>admitted = True, replaced = removed removal, planKept = pressureKept trusted,
                            planEvictedKeys = pressureEvictedKeys unverified @ pressureEvictedKeys trusted,
                            planRetainedBytes = pressureRetainedBytes trusted + incomingBytes\<rparr>)
                     else \<lparr>admitted = True, replaced = removed removal, planKept = pressureKept unverified,
                           planEvictedKeys = pressureEvictedKeys unverified,
                           planRetainedBytes = pressureRetainedBytes unverified + incomingBytes\<rparr>)))"

text \<open>A key that is kept is in the map; \<open>None\<close> would be an \<open>undefined\<close> value in the result.\<close>

definition retainPendingWelcomeValues ::
    "(string, 'v) jsmap \<Rightarrow> PendingWelcomeMetadata list \<Rightarrow> (string, 'v) jsmap option" where
  "retainPendingWelcomeValues values kept =
     foldl (\<lambda>result entry. do {
        m \<leftarrow> result; v \<leftarrow> jget values (metaKey entry); Some (jset m (metaKey entry) v) }) (Some []) kept"

definition insertPendingWelcomeValue ::
    "(string, 'v) jsmap \<Rightarrow> string \<Rightarrow> 'v \<Rightarrow> (string, 'v) jsmap" where
  "insertPendingWelcomeValue values key v = jset values key v"

definition advancePendingWelcomeClock :: "int \<Rightarrow> int \<Rightarrow> int" where
  "advancePendingWelcomeClock previous now = (if previous \<ge> now then previous else now)"

definition isPendingWelcomeExpired :: "int \<Rightarrow> int \<Rightarrow> int \<Rightarrow> bool" where
  "isPendingWelcomeExpired bufferedAtMs now ttl \<longleftrightarrow> now - bufferedAtMs > ttl"

text \<open>The two arrays are read at the same index; the second is never the shorter one.\<close>

fun planPendingWelcomeExpiry_loop ::
    "int \<Rightarrow> int \<Rightarrow> PendingWelcomeExpiry \<Rightarrow> PendingWelcomeMetadata list \<Rightarrow> int list \<Rightarrow> PendingWelcomeExpiry" where
  "planPendingWelcomeExpiry_loop now ttl acc (entry # entries) (t # ts) =
     planPendingWelcomeExpiry_loop now ttl
       (if isPendingWelcomeExpired t now ttl
        then acc\<lparr>expiredKeys := expiredKeys acc @ [metaKey entry]\<rparr>
        else acc\<lparr>expiryKept := expiryKept acc @ [entry],
                 expiryRetainedBytes := expiryRetainedBytes acc + metaBytes entry\<rparr>) entries ts"
| "planPendingWelcomeExpiry_loop now ttl acc entries ts = acc"

definition planPendingWelcomeExpiry ::
    "PendingWelcomeMetadata list \<Rightarrow> int list \<Rightarrow> int \<Rightarrow> int \<Rightarrow> PendingWelcomeExpiry" where
  "planPendingWelcomeExpiry entries bufferedAtMs now ttl =
     planPendingWelcomeExpiry_loop now ttl \<lparr>expiryKept = [], expiredKeys = [], expiryRetainedBytes = 0\<rparr>
       entries bufferedAtMs"

subsection \<open>Maintenance decisions\<close>

definition shouldCompact :: "bool \<Rightarrow> bool \<Rightarrow> bool \<Rightarrow> int \<Rightarrow> int \<Rightarrow> int \<Rightarrow> int \<Rightarrow> bool" where
  "shouldCompact enabled unsupported inProgress totalChanges sinceSnapshot minimumChanges interval \<longleftrightarrow>
     enabled \<and> \<not> unsupported \<and> \<not> inProgress \<and> \<not> totalChanges < minimumChanges \<and> \<not> sinceSnapshot < interval"

definition canReplacePendingWelcome :: "bool \<Rightarrow> bool \<Rightarrow> bool" where
  "canReplacePendingWelcome existing authenticated \<longleftrightarrow> \<not> existing \<or> authenticated"

fun firstUnauthenticatedEntry_loop :: "nat \<Rightarrow> bool list \<Rightarrow> int" where
  "firstUnauthenticatedEntry_loop index [] = -1"
| "firstUnauthenticatedEntry_loop index (a # as) =
     (if \<not> a then int index else firstUnauthenticatedEntry_loop (Suc index) as)"

definition firstUnauthenticatedEntry :: "bool list \<Rightarrow> int" where
  "firstUnauthenticatedEntry authenticated = firstUnauthenticatedEntry_loop 0 authenticated"

subsection \<open>The buffer\<close>

definition PENDING_WELCOME_MAX_BODY_BYTES :: int where
  "PENDING_WELCOME_MAX_BODY_BYTES = 10485760"

definition PENDING_WELCOMES_MAX_RETAINED_BYTES :: int where
  "PENDING_WELCOMES_MAX_RETAINED_BYTES = 2 * PENDING_WELCOME_MAX_BODY_BYTES"

definition PENDING_WELCOMES_MAX_ENTRIES :: nat where
  "PENDING_WELCOMES_MAX_ENTRIES = 16"

definition PENDING_WELCOMES_TTL_MS :: int where
  "PENDING_WELCOMES_TTL_MS = 5 * 60 * 1000"

record PendingWelcomeEntry =
  body :: bytes
  authenticated :: bool
  bufferedAtMs :: int

record PendingWelcomeBuffer =
  entries :: "(string, PendingWelcomeEntry) jsmap"
  retainedBytes :: int
  observedAtMs :: int

record PendingWelcomeStoreResult =
  stored :: bool
  resReplaced :: bool
  evictedKeys :: "string list"

datatype welcome_error =
  InvalidKey | InvalidTimestamp | BodyNotBytes | BodyLimit | BodyEmpty | InvalidClock | MissingValue

definition emptyBuffer :: PendingWelcomeBuffer where
  "emptyBuffer = \<lparr>entries = [], retainedBytes = 0, observedAtMs = 0\<rparr>"

definition bufferSize :: "PendingWelcomeBuffer \<Rightarrow> nat" where
  "bufferSize b = jsize (entries b)"

definition bufferHas :: "PendingWelcomeBuffer \<Rightarrow> string \<Rightarrow> bool" where
  "bufferHas b key = jhas (entries b) key"

definition bufferGet :: "PendingWelcomeBuffer \<Rightarrow> string \<Rightarrow> PendingWelcomeEntry option" where
  "bufferGet b key = jget (entries b) key"

definition keysSnapshot :: "PendingWelcomeBuffer \<Rightarrow> string list" where
  "keysSnapshot b = jkeys (entries b)"

definition metadata :: "PendingWelcomeBuffer \<Rightarrow> PendingWelcomeMetadata list" where
  "metadata b = map (\<lambda>(k, e). \<lparr>metaKey = k, metaBytes = int (length (body e)),
     metaAuthenticated = authenticated e\<rparr>) (entries b)"

definition notStored :: PendingWelcomeStoreResult where
  "notStored = \<lparr>stored = False, resReplaced = False, evictedKeys = []\<rparr>"

definition validateAdmissionInput :: "string \<Rightarrow> js_number \<Rightarrow> welcome_error + int" where
  "validateAdmissionInput key atMs =
     (if key = [] then Inl InvalidKey
      else case asSafeInteger atMs of
        None \<Rightarrow> Inl InvalidTimestamp
      | Some t \<Rightarrow> if t < 0 then Inl InvalidTimestamp else Inr t)"

text \<open>The body argument is any value; \<open>None\<close> is one that is no unshared \<open>Uint8Array\<close>.\<close>

definition store ::
    "PendingWelcomeBuffer \<Rightarrow> string \<Rightarrow> bytes option \<Rightarrow> js_number \<Rightarrow> bool
      \<Rightarrow> welcome_error + (PendingWelcomeStoreResult \<times> PendingWelcomeBuffer)" where
  "store b key bodyArg atMs auth =
     sbind (validateAdmissionInput key atMs) (\<lambda>t.
     case bodyArg of
       None \<Rightarrow> Inl BodyNotBytes
     | Some bd \<Rightarrow>
         if int (length bd) > PENDING_WELCOME_MAX_BODY_BYTES then Inl BodyLimit
         else if length bd < 1 then Inl BodyEmpty
         else if \<not> canReplacePendingWelcome (bufferHas b key) auth then Inr (notStored, b)
         else
           (let plan = planPendingWelcomeAdmission (metadata b) key (int (length bd)) auth
                  PENDING_WELCOMES_MAX_ENTRIES PENDING_WELCOMES_MAX_RETAINED_BYTES
            in if \<not> admitted plan then Inr (notStored, b)
               else
                 (let atTime = advancePendingWelcomeClock (observedAtMs b) t
                  in case retainPendingWelcomeValues (entries b) (planKept plan) of
                       None \<Rightarrow> Inl MissingValue
                     | Some retained \<Rightarrow>
                         Inr (\<lparr>stored = True, resReplaced = replaced plan, evictedKeys = planEvictedKeys plan\<rparr>,
                              b\<lparr>entries := insertPendingWelcomeValue retained key
                                  \<lparr>body = bd, authenticated = auth, bufferedAtMs = atTime\<rparr>,
                                retainedBytes := planRetainedBytes plan,
                                observedAtMs := atTime\<rparr>))))"

text \<open>
  \<open>storeMessage\<close>: \<open>serialize\<close> stands for the detached snapshot and its
  serialization, which run only when the early checks pass.
\<close>

definition storeMessage ::
    "PendingWelcomeBuffer \<Rightarrow> string \<Rightarrow> (unit \<Rightarrow> bytes option) \<Rightarrow> js_number \<Rightarrow> bool
      \<Rightarrow> welcome_error + (PendingWelcomeStoreResult \<times> PendingWelcomeBuffer)" where
  "storeMessage b key serialize atMs auth =
     sbind (validateAdmissionInput key atMs) (\<lambda>_.
     if \<not> canReplacePendingWelcome (bufferHas b key) auth then Inr (notStored, b)
     else if \<not> auth \<and> bufferSize b \<ge> PENDING_WELCOMES_MAX_ENTRIES \<and>
        firstUnauthenticatedEntry (map authenticated (jvals (entries b))) = -1
       then Inr (notStored, b)
     else if \<not> auth \<and>
        (let budget = pendingWelcomeBudget (metadata b) key
         in \<not> canAdmitPendingWelcome False False (protectedCount budget) (protectedBytes budget) 1
              PENDING_WELCOMES_MAX_ENTRIES PENDING_WELCOMES_MAX_RETAINED_BYTES)
       then Inr (notStored, b)
     else store b key (serialize ()) atMs auth)"

definition pruneExpiredWelcomes ::
    "PendingWelcomeBuffer \<Rightarrow> js_number \<Rightarrow> welcome_error + (string list \<times> PendingWelcomeBuffer)" where
  "pruneExpiredWelcomes b nowArg =
     (case asSafeInteger nowArg of
        None \<Rightarrow> Inl InvalidClock
      | Some now \<Rightarrow>
          if now < 0 then Inl InvalidClock
          else
            (let atTime = advancePendingWelcomeClock (observedAtMs b) now
             in if jsize (entries b) = 0 then Inr ([], b\<lparr>observedAtMs := atTime\<rparr>)
                else
                  (let plan = planPendingWelcomeExpiry (metadata b)
                         (map bufferedAtMs (jvals (entries b))) atTime PENDING_WELCOMES_TTL_MS
                   in if length (expiredKeys plan) \<noteq> 0 then
                        (case retainPendingWelcomeValues (entries b) (expiryKept plan) of
                           None \<Rightarrow> Inl MissingValue
                         | Some retained \<Rightarrow>
                             Inr (expiredKeys plan, b\<lparr>entries := retained,
                               retainedBytes := expiryRetainedBytes plan, observedAtMs := atTime\<rparr>))
                      else Inr (expiredKeys plan, b\<lparr>observedAtMs := atTime\<rparr>))))"

definition delete ::
    "PendingWelcomeBuffer \<Rightarrow> string \<Rightarrow> welcome_error + (bool \<times> PendingWelcomeBuffer)" where
  "delete b key =
     (if \<not> bufferHas b key then Inr (False, b)
      else
        (let plan = planPendingWelcomeRemoval (metadata b) key
         in case retainPendingWelcomeValues (entries b) (removalKept plan) of
              None \<Rightarrow> Inl MissingValue
            | Some retained \<Rightarrow>
                Inr (removed plan, b\<lparr>entries := retained, retainedBytes := removalRetainedBytes plan\<rparr>)))"


section \<open>Lemmas\<close>

interpretation unauthenticated: first_index firstUnauthenticatedEntry_loop "\<lambda>a. \<not> a"
  by unfold_locales simp_all

subsection \<open>Budgets, removal and trimming\<close>

abbreviation meta_sum :: "PendingWelcomeMetadata list \<Rightarrow> int" where
  "meta_sum es \<equiv> sum_list (map metaBytes es)"

lemma budget_fold:
  "foldl (budgetStep k) b es =
     \<lparr>total = total b + meta_sum es,
      protectedBytes = protectedBytes b + meta_sum (filter metaAuthenticated es),
      protectedCount = protectedCount b + length (filter metaAuthenticated es),
      previousBytes = (case filter (\<lambda>e. metaKey e = k) (rev es) of [] \<Rightarrow> previousBytes b | e # _ \<Rightarrow> metaBytes e)\<rparr>"
  by (induction es arbitrary: b) (auto simp: budgetStep_def split: list.splits)

lemma budget_simps [simp]:
  "total (pendingWelcomeBudget es k) = meta_sum es"
  "protectedBytes (pendingWelcomeBudget es k) = meta_sum (filter metaAuthenticated es)"
  "protectedCount (pendingWelcomeBudget es k) = length (filter metaAuthenticated es)"
  by (simp_all add: pendingWelcomeBudget_def budget_fold)

lemma budget_previous:
  assumes "\<forall>e \<in> set es. 0 < metaBytes e"
  shows "0 < previousBytes (pendingWelcomeBudget es k) \<longleftrightarrow> (\<exists>e \<in> set es. metaKey e = k)"
proof (cases "filter (\<lambda>e. metaKey e = k) (rev es)")
  case Nil
  then show ?thesis by (auto simp: pendingWelcomeBudget_def budget_fold filter_empty_conv)
next
  case (Cons e es')
  then have "e \<in> set (filter (\<lambda>e. metaKey e = k) (rev es))" by simp
  then have "e \<in> set es" "metaKey e = k" by auto
  then show ?thesis using assms Cons by (auto simp: pendingWelcomeBudget_def budget_fold)
qed

lemma removal_loop:
  "planPendingWelcomeRemoval_loop k acc es =
     \<lparr>removalKept = removalKept acc @ filter (\<lambda>e. metaKey e \<noteq> k) es,
      removalRetainedBytes = removalRetainedBytes acc + meta_sum (filter (\<lambda>e. metaKey e \<noteq> k) es),
      removed = (removed acc \<or> (\<exists>e \<in> set es. metaKey e = k))\<rparr>"
  by (induction k acc es rule: planPendingWelcomeRemoval_loop.induct) auto

lemma removal_spec:
  "planPendingWelcomeRemoval es k =
     \<lparr>removalKept = filter (\<lambda>e. metaKey e \<noteq> k) es,
      removalRetainedBytes = meta_sum (filter (\<lambda>e. metaKey e \<noteq> k) es),
      removed = (\<exists>e \<in> set es. metaKey e = k)\<rparr>"
  by (simp add: planPendingWelcomeRemoval_def removal_loop)

abbreviation pressured :: "nat \<Rightarrow> int \<Rightarrow> int \<Rightarrow> nat \<Rightarrow> int \<Rightarrow> bool" where
  "pressured mE mB inc rc rb \<equiv> rc \<ge> mE \<or> rb > mB - inc"

abbreviation evictable :: "bool \<Rightarrow> PendingWelcomeMetadata \<Rightarrow> bool" where
  "evictable allow e \<equiv> allow \<or> \<not> metaAuthenticated e"

lemma trim_loop_free:
  "\<not> pressured mE mB inc rc rb \<Longrightarrow> trimPendingWelcomes_loop inc al mE mB rc rb kept ev es =
     \<lparr>pressureKept = kept @ es, pressureEvictedKeys = ev, pressureRetainedBytes = rb\<rparr>"
  by (induction es arbitrary: kept) auto

text \<open>
  Trimming evicts the oldest evictable entries, as few as needed: it stops as
  soon as the incoming body fits, or when nothing evictable is left.
\<close>

lemma trim_loop_spec:
  assumes "distinct es" "length es \<le> rc"
  shows "\<exists>n. n \<le> length (filter (evictable al) es) \<and>
    (let E = take n (filter (evictable al) es) in
     trimPendingWelcomes_loop inc al mE mB rc rb kept ev es =
       \<lparr>pressureKept = kept @ filter (\<lambda>e. e \<notin> set E) es, pressureEvictedKeys = ev @ map metaKey E,
        pressureRetainedBytes = rb - meta_sum E\<rparr> \<and>
     (n = length (filter (evictable al) es) \<or> \<not> pressured mE mB inc (rc - n) (rb - meta_sum E)))"
  using assms
proof (induction es arbitrary: rc rb kept ev)
  case (Cons e es)
  show ?case
  proof (cases "evictable al e")
    case False
    then have ne: "e \<notin> set (take n (filter (evictable al) es))" for n using Cons.prems(1)
      by (auto dest: in_set_takeD)
    obtain n where "n \<le> length (filter (evictable al) es)"
      "let E = take n (filter (evictable al) es) in
       trimPendingWelcomes_loop inc al mE mB rc rb (kept @ [e]) ev es =
         \<lparr>pressureKept = (kept @ [e]) @ filter (\<lambda>e. e \<notin> set E) es, pressureEvictedKeys = ev @ map metaKey E,
          pressureRetainedBytes = rb - meta_sum E\<rparr> \<and>
       (n = length (filter (evictable al) es) \<or> \<not> pressured mE mB inc (rc - n) (rb - meta_sum E))"
      using Cons.IH [of rc rb "kept @ [e]" ev] Cons.prems by auto
    then show ?thesis using False ne [of n] by (intro exI [of _ n]) (simp add: Let_def)
  next
    case True
    show ?thesis
    proof (cases "pressured mE mB inc rc rb")
      case False
      then show ?thesis using trim_loop_free [OF False, of al kept ev "e # es"]
        by (intro exI [of _ 0]) (simp add: Let_def)
    next
      case pr: True
      obtain n where n: "n \<le> length (filter (evictable al) es)"
        "let E = take n (filter (evictable al) es) in
         trimPendingWelcomes_loop inc al mE mB (rc - 1) (rb - metaBytes e) kept (ev @ [metaKey e]) es =
           \<lparr>pressureKept = kept @ filter (\<lambda>e. e \<notin> set E) es,
            pressureEvictedKeys = (ev @ [metaKey e]) @ map metaKey E,
            pressureRetainedBytes = rb - metaBytes e - meta_sum E\<rparr> \<and>
         (n = length (filter (evictable al) es) \<or>
          \<not> pressured mE mB inc (rc - 1 - n) (rb - metaBytes e - meta_sum E))"
        using Cons.IH [of "rc - 1" "rb - metaBytes e" kept "ev @ [metaKey e]"] Cons.prems by fastforce
      have "filter (\<lambda>x. x \<noteq> e \<and> x \<notin> A) es = filter (\<lambda>x. x \<notin> A) es" for A
        using Cons.prems(1) by (auto intro: filter_cong)
      then show ?thesis using True pr n by (intro exI [of _ "Suc n"]) (auto simp: Let_def algebra_simps)
    qed
  qed
qed (simp add: Let_def)

lemma meta_sum_split:
  assumes "distinct es" "set E \<subseteq> set es" "distinct E"
  shows "meta_sum es = meta_sum (filter (\<lambda>e. e \<notin> set E) es) + meta_sum E"
proof -
  have sum: "meta_sum xs = (\<Sum>e \<in> set xs. metaBytes e)" if "distinct xs" for xs
    using that by (simp add: sum_list_distinct_conv_sum_set)
  have "(\<Sum>e \<in> set es. metaBytes e) = (\<Sum>e \<in> set es - set E. metaBytes e) + (\<Sum>e \<in> set E. metaBytes e)"
    using assms(2) by (intro sum.subset_diff) auto
  moreover have "set (filter (\<lambda>e. e \<notin> set E) es) = set es - set E" by auto
  ultimately show ?thesis using assms sum [of es] sum [of E] sum [of "filter (\<lambda>e. e \<notin> set E) es"]
    by (simp only: distinct_filter)
qed

lemma length_split:
  assumes "distinct es" "set E \<subseteq> set es" "distinct E"
  shows "length (filter (\<lambda>e. e \<notin> set E) es) = length es - length E"
proof -
  have "length (filter (\<lambda>e. e \<notin> set E) es) = card (set es - set E)"
    using distinct_card [of "filter (\<lambda>e. e \<notin> set E) es"] assms(1) by (simp add: set_diff_eq)
  then show ?thesis using assms by (simp add: card_Diff_subset distinct_card)
qed


lemma trim_spec:
  assumes d: "distinct es"
  obtains E where "trimPendingWelcomes es inc al mE mB =
      \<lparr>pressureKept = filter (\<lambda>e. e \<notin> set E) es, pressureEvictedKeys = map metaKey E,
       pressureRetainedBytes = meta_sum (filter (\<lambda>e. e \<notin> set E) es)\<rparr>"
    "set E \<subseteq> {e \<in> set es. evictable al e}"
    "(\<forall>e \<in> set (filter (\<lambda>e. e \<notin> set E) es). \<not> evictable al e) \<or>
     \<not> pressured mE mB inc (length (filter (\<lambda>e. e \<notin> set E) es)) (meta_sum (filter (\<lambda>e. e \<notin> set E) es))"
proof -
  obtain n where n: "n \<le> length (filter (evictable al) es)"
    "let E = take n (filter (evictable al) es) in
     trimPendingWelcomes_loop inc al mE mB (length es) (meta_sum es) [] [] es =
       \<lparr>pressureKept = filter (\<lambda>e. e \<notin> set E) es, pressureEvictedKeys = map metaKey E,
        pressureRetainedBytes = meta_sum es - meta_sum E\<rparr> \<and>
     (n = length (filter (evictable al) es) \<or> \<not> pressured mE mB inc (length es - n) (meta_sum es - meta_sum E))"
    using trim_loop_spec [OF d order.refl, of al inc mE mB "meta_sum es" "[]" "[]"] by auto
  define E where "E = take n (filter (evictable al) es)"
  have E: "set E \<subseteq> {e \<in> set es. evictable al e}" "distinct E" "length E = n"
    using d n(1) by (auto simp: E_def dest: in_set_takeD)
  then have sub: "set E \<subseteq> set es" by auto
  note split = meta_sum_split [OF d sub E(2)] length_split [OF d sub E(2)]
  have "n = length (filter (evictable al) es) \<Longrightarrow> set E = set (filter (evictable al) es)" by (simp add: E_def)
  then show ?thesis using that [of E] n(2) E split
    by (auto simp: trimPendingWelcomes_def Let_def simp flip: E_def)
qed

text \<open>What an admitted plan guarantees.\<close>

definition plan_good :: "PendingWelcomeMetadata list \<Rightarrow> string \<Rightarrow> int \<Rightarrow> bool \<Rightarrow> nat \<Rightarrow> int
    \<Rightarrow> PendingWelcomePlan \<Rightarrow> PendingWelcomeMetadata list \<Rightarrow> bool" where
  "plan_good es k inc auth mE mB p E \<longleftrightarrow>
     planKept p = filter (\<lambda>e. metaKey e \<noteq> k \<and> e \<notin> set E) es \<and> planEvictedKeys p = map metaKey E \<and>
     set E \<subseteq> set es \<and> (\<forall>e \<in> set E. metaKey e \<noteq> k) \<and>
     planRetainedBytes p = meta_sum (planKept p) + inc \<and>
     length (planKept p) < mE \<and> meta_sum (planKept p) + inc \<le> mB \<and>
     (\<not> auth \<longrightarrow> (\<forall>e \<in> set E. \<not> metaAuthenticated e)) \<and>
     ((\<exists>e \<in> set E. metaAuthenticated e) \<longrightarrow> (\<forall>e \<in> set (planKept p). metaAuthenticated e)) \<and>
     (replaced p \<longleftrightarrow> (\<exists>e \<in> set es. metaKey e = k))"

lemma meta_sum_filter_le:
  "\<forall>e \<in> set es. 0 < metaBytes e \<Longrightarrow> meta_sum (filter P es) \<le> meta_sum es"
  by (induction es) auto

text \<open>Protected entries alone fit, when an unauthenticated arrival is admissible.\<close>

lemma protected_fits:
  assumes pos: "\<forall>e \<in> set es. 0 < metaBytes e" and K: "\<forall>e \<in> set (filter P es). metaAuthenticated e"
    and cap: "length (filter metaAuthenticated es) < mE" "meta_sum (filter metaAuthenticated es) \<le> mB - inc"
  shows "\<not> pressured mE mB inc (length (filter P es)) (meta_sum (filter P es))"
proof -
  have "filter P es = filter P (filter metaAuthenticated es)" using K by (auto intro: filter_cong)
  moreover have "length (filter P (filter metaAuthenticated es)) \<le> length (filter metaAuthenticated es)"
    by (rule length_filter_le)
  moreover have "meta_sum (filter P (filter metaAuthenticated es)) \<le> meta_sum (filter metaAuthenticated es)"
    using pos by (intro meta_sum_filter_le) simp
  ultimately show ?thesis using cap by (simp only:) linarith
qed

lemma plan_goodI:
  assumes "p = \<lparr>admitted = True, replaced = (\<exists>e \<in> set es. metaKey e = k),
      planKept = filter (\<lambda>e. metaKey e \<noteq> k \<and> e \<notin> set E) es, planEvictedKeys = map metaKey E,
      planRetainedBytes = meta_sum (filter (\<lambda>e. metaKey e \<noteq> k \<and> e \<notin> set E) es) + inc\<rparr>"
    and "set E \<subseteq> {e \<in> set es. metaKey e \<noteq> k}"
    and "\<not> pressured mE mB inc (length (filter (\<lambda>e. metaKey e \<noteq> k \<and> e \<notin> set E) es)) (meta_sum (filter (\<lambda>e. metaKey e \<noteq> k \<and> e \<notin> set E) es))"
    and "\<not> auth \<Longrightarrow> \<forall>e \<in> set E. \<not> metaAuthenticated e"
    and "\<exists>e \<in> set E. metaAuthenticated e \<Longrightarrow>
      \<forall>e \<in> set es. metaKey e \<noteq> k \<longrightarrow> e \<notin> set E \<longrightarrow> metaAuthenticated e"
  shows "plan_good es k inc auth mE mB p E"
  using assms unfolding plan_good_def by auto

lemma plan_spec:
  assumes d: "distinct es" and pos: "\<forall>e \<in> set es. 0 < metaBytes e" and mE: "1 \<le> mE" and inc: "inc \<le> mB"
    and adm: "admitted (planPendingWelcomeAdmission es k inc auth mE mB)"
  shows "\<exists>E. plan_good es k inc auth mE mB (planPendingWelcomeAdmission es k inc auth mE mB) E"
proof -
  let ?p = "planPendingWelcomeAdmission es k inc auth mE mB" and ?R = "filter (\<lambda>e. metaKey e \<noteq> k) es"
  have can: "canAdmitPendingWelcome (0 < previousBytes (pendingWelcomeBudget es k)) auth
      (length (filter metaAuthenticated es)) (meta_sum (filter metaAuthenticated es)) inc mE mB"
    using adm by (auto simp: planPendingWelcomeAdmission_def Let_def split: if_splits)
  have merge: "filter (\<lambda>e. e \<notin> A) ?R = filter (\<lambda>e. metaKey e \<noteq> k \<and> e \<notin> A) es" for A
    by (auto intro: filter_cong)
  obtain U where U: "trimPendingWelcomes ?R inc False mE mB =
      \<lparr>pressureKept = filter (\<lambda>e. e \<notin> set U) ?R, pressureEvictedKeys = map metaKey U,
       pressureRetainedBytes = meta_sum (filter (\<lambda>e. e \<notin> set U) ?R)\<rparr>"
    "set U \<subseteq> {e \<in> set ?R. evictable False e}"
    "(\<forall>e \<in> set (filter (\<lambda>e. e \<notin> set U) ?R). \<not> evictable False e) \<or>
     \<not> pressured mE mB inc (length (filter (\<lambda>e. e \<notin> set U) ?R)) (meta_sum (filter (\<lambda>e. e \<notin> set U) ?R))"
    using trim_spec [OF distinct_filter [OF d]] .
  let ?K = "filter (\<lambda>e. e \<notin> set U) ?R"
  consider (fits) "length ?R < mE \<and> meta_sum ?R \<le> mB - inc"
    | (trusted) "\<not> (length ?R < mE \<and> meta_sum ?R \<le> mB - inc)" "auth" "pressured mE mB inc (length ?K) (meta_sum ?K)"
    | (plain) "\<not> (length ?R < mE \<and> meta_sum ?R \<le> mB - inc)"
        "\<not> (auth \<and> pressured mE mB inc (length ?K) (meta_sum ?K))" by blast
  then show ?thesis
  proof cases
    case fits
    then show ?thesis using can mE
      by (intro exI [of _ "[]"] plan_goodI) (simp_all add: planPendingWelcomeAdmission_def Let_def removal_spec)
  next
    case trusted
    obtain T where T: "trimPendingWelcomes ?K inc True mE mB =
        \<lparr>pressureKept = filter (\<lambda>e. e \<notin> set T) ?K, pressureEvictedKeys = map metaKey T,
         pressureRetainedBytes = meta_sum (filter (\<lambda>e. e \<notin> set T) ?K)\<rparr>"
      "set T \<subseteq> {e \<in> set ?K. evictable True e}"
      "(\<forall>e \<in> set (filter (\<lambda>e. e \<notin> set T) ?K). \<not> evictable True e) \<or>
       \<not> pressured mE mB inc (length (filter (\<lambda>e. e \<notin> set T) ?K)) (meta_sum (filter (\<lambda>e. e \<notin> set T) ?K))"
      using trim_spec [OF distinct_filter [OF distinct_filter [OF d]]] .
    have both: "filter (\<lambda>e. e \<notin> set T) ?K = filter (\<lambda>e. metaKey e \<noteq> k \<and> e \<notin> set (U @ T)) es"
      by (auto intro: filter_cong)
    have p: "?p = \<lparr>admitted = True, replaced = (\<exists>e \<in> set es. metaKey e = k),
        planKept = filter (\<lambda>e. metaKey e \<noteq> k \<and> e \<notin> set (U @ T)) es, planEvictedKeys = map metaKey (U @ T),
        planRetainedBytes = meta_sum (filter (\<lambda>e. metaKey e \<noteq> k \<and> e \<notin> set (U @ T)) es) + inc\<rparr>"
      using can trusted U(1) T(1)
      by (auto simp: planPendingWelcomeAdmission_def Let_def removal_spec simp flip: both)
    have "\<forall>e \<in> set ?K. metaAuthenticated e" using U(3) trusted by auto
    moreover have "\<not> pressured mE mB inc (length (filter (\<lambda>e. e \<notin> set T) ?K)) (meta_sum (filter (\<lambda>e. e \<notin> set T) ?K))"
      using T(3)
    proof
      assume "\<forall>e \<in> set (filter (\<lambda>e. e \<notin> set T) ?K). \<not> evictable True e"
      then have "filter (\<lambda>e. e \<notin> set T) ?K = []" by (simp add: filter_empty_conv)
      then have "length (filter (\<lambda>e. e \<notin> set T) ?K) = 0" "meta_sum (filter (\<lambda>e. e \<notin> set T) ?K) = 0"
        by simp_all
      then show ?thesis using mE inc by linarith
    qed
    moreover have "set (U @ T) \<subseteq> {e \<in> set es. metaKey e \<noteq> k}" using U(2) T(2) by auto
    ultimately have "plan_good es k inc auth mE mB ?p (U @ T)"
      using trusted(2) unfolding both by (intro plan_goodI [OF p]) auto
    then show ?thesis by blast
  next
    case plain
    have p: "?p = \<lparr>admitted = True, replaced = (\<exists>e \<in> set es. metaKey e = k),
        planKept = filter (\<lambda>e. metaKey e \<noteq> k \<and> e \<notin> set U) es, planEvictedKeys = map metaKey U,
        planRetainedBytes = meta_sum (filter (\<lambda>e. metaKey e \<noteq> k \<and> e \<notin> set U) es) + inc\<rparr>"
      using can plain U(1) unfolding merge by (auto simp: planPendingWelcomeAdmission_def Let_def removal_spec)
    have "\<not> pressured mE mB inc (length ?K) (meta_sum ?K)"
    proof (cases "auth \<or> \<not> (\<forall>e \<in> set ?K. metaAuthenticated e)")
      case True
      then show ?thesis using plain(2) U(3) by auto
    next
      case False
      then show ?thesis using protected_fits [OF pos, of "\<lambda>e. metaKey e \<noteq> k \<and> e \<notin> set U" mE mB inc] can
        unfolding merge by (auto simp: canAdmitPendingWelcome_def)
    qed
    then show ?thesis using U(2) unfolding merge
      by (intro exI [of _ U] plan_goodI [OF p]) auto
  qed
qed


subsection \<open>The buffer\<close>

lemma retain_fold:
  assumes "distinct (map metaKey ms)" "jwf acc" "set (map metaKey ms) \<inter> fst ` set acc = {}"
    and "\<forall>m \<in> set ms. jget vals (metaKey m) \<noteq> None"
  shows "foldl (\<lambda>result entry. do {
        m \<leftarrow> result; v \<leftarrow> jget vals (metaKey entry); Some (jset m (metaKey entry) v) }) (Some acc) ms =
    Some (acc @ map (\<lambda>m. (metaKey m, the (jget vals (metaKey m)))) ms)"
  using assms
proof (induction ms arbitrary: acc)
  case (Cons m ms)
  obtain v where v: "jget vals (metaKey m) = Some v" using Cons.prems(4) by auto
  have fresh: "jget acc (metaKey m) = None" using Cons.prems(3) by (auto simp: jget_None_iff)
  then have "jset acc (metaKey m) v = acc @ [(metaKey m, v)]" by (rule jset_fresh)
  moreover have "jwf (acc @ [(metaKey m, v)])"
    using jwf_jset [OF Cons.prems(2), of "metaKey m" v] jset_fresh [OF fresh, of v] by simp
  ultimately show ?case using v Cons.prems Cons.IH [of "acc @ [(metaKey m, v)]"] by auto
qed simp

definition meta_of :: "string \<times> PendingWelcomeEntry \<Rightarrow> PendingWelcomeMetadata" where
  "meta_of ke = \<lparr>metaKey = fst ke, metaBytes = int (length (body (snd ke))),
     metaAuthenticated = authenticated (snd ke)\<rparr>"

lemma metadata_meta_of: "metadata b = map meta_of (entries b)"
  by (simp add: metadata_def meta_of_def case_prod_beta)

lemma meta_of_simps [simp]:
  "metaKey (meta_of ke) = fst ke" "metaBytes (meta_of ke) = int (length (body (snd ke)))"
  "metaAuthenticated (meta_of ke) = authenticated (snd ke)"
  by (simp_all add: meta_of_def)

lemma retain_filter:
  assumes w: "jwf m"
  shows "retainPendingWelcomeValues m (filter P (map meta_of m)) = Some (filter (P \<circ> meta_of) m)"
proof -
  have d: "distinct (map fst m)" using w by (simp add: jwf_def jkeys_def)
  have keys: "map metaKey (filter P (map meta_of m)) = map fst (filter (P \<circ> meta_of) m)"
    by (induction m) auto
  have look: "jget m (fst ke) = Some (snd ke)" if "ke \<in> set m" for ke
    using jget_eq_Some_iff [OF w, of "fst ke" "snd ke"] that by simp
  have "retainPendingWelcomeValues m (filter P (map meta_of m)) =
      Some (map (\<lambda>x. (metaKey x, the (jget m (metaKey x)))) (filter P (map meta_of m)))"
    unfolding retainPendingWelcomeValues_def
    by (subst retain_fold) (use d look in \<open>auto simp: keys distinct_map_filter\<close>)
  also have "map (\<lambda>x. (metaKey x, the (jget m (metaKey x)))) (filter P (map meta_of m)) =
      map (\<lambda>ke. (fst ke, the (jget m (fst ke)))) (filter (P \<circ> meta_of) m)"
    by (simp add: filter_map comp_def)
  also have "\<dots> = map (\<lambda>ke. ke) (filter (P \<circ> meta_of) m)"
    by (rule map_cong) (auto simp: look)
  finally show ?thesis by simp
qed

definition buffer_ok :: "PendingWelcomeBuffer \<Rightarrow> bool" where
  "buffer_ok b \<longleftrightarrow> jwf (entries b) \<and> length (entries b) \<le> PENDING_WELCOMES_MAX_ENTRIES \<and>
     retainedBytes b = (\<Sum>ke \<leftarrow> entries b. int (length (body (snd ke)))) \<and>
     retainedBytes b \<le> PENDING_WELCOMES_MAX_RETAINED_BYTES \<and>
     (\<forall>ke \<in> set (entries b). body (snd ke) \<noteq> [] \<and>
        int (length (body (snd ke))) \<le> PENDING_WELCOME_MAX_BODY_BYTES \<and>
        bufferedAtMs (snd ke) \<le> observedAtMs b)"

lemma buffer_ok_empty: "buffer_ok emptyBuffer"
  by (simp add: buffer_ok_def emptyBuffer_def PENDING_WELCOMES_MAX_RETAINED_BYTES_def
      PENDING_WELCOME_MAX_BODY_BYTES_def)

lemma sum_filter_le:
  "(\<Sum>ke \<leftarrow> filter P xs. int (length (f ke))) \<le> (\<Sum>ke \<leftarrow> xs. int (length (f ke)))"
  by (induction xs) auto

text \<open>Dropping entries keeps the invariant.\<close>

lemma buffer_ok_drop:
  assumes "buffer_ok b" "observedAtMs b \<le> t"
  shows "buffer_ok (b\<lparr>entries := filter P (entries b),
    retainedBytes := (\<Sum>ke \<leftarrow> filter P (entries b). int (length (body (snd ke)))), observedAtMs := t\<rparr>)"
proof -
  have "jwf (filter P (entries b))"
    using assms(1) by (simp add: buffer_ok_def jwf_def jkeys_def distinct_map_filter)
  moreover have "length (filter P (entries b)) \<le> PENDING_WELCOMES_MAX_ENTRIES"
    by (rule le_trans [OF length_filter_le]) (use assms(1) in \<open>simp add: buffer_ok_def\<close>)
  moreover have "(\<Sum>ke \<leftarrow> filter P (entries b). int (length (body (snd ke)))) \<le>
      PENDING_WELCOMES_MAX_RETAINED_BYTES"
    using assms(1) sum_filter_le [of "\<lambda>ke. body (snd ke)" P "entries b"] by (simp add: buffer_ok_def)
  ultimately show ?thesis using assms by (auto simp: buffer_ok_def)
qed

lemma metadata_facts:
  assumes "buffer_ok b"
  shows "distinct (metadata b)" "\<forall>m \<in> set (metadata b). 0 < metaBytes m"
    "(\<exists>m \<in> set (metadata b). metaKey m = k) \<longleftrightarrow> bufferHas b k"
proof -
  have "distinct (map metaKey (metadata b))"
    using assms by (simp add: metadata_meta_of buffer_ok_def jwf_def jkeys_def comp_def)
  then show "distinct (metadata b)" by (simp add: distinct_map)
  show "\<forall>m \<in> set (metadata b). 0 < metaBytes m"
    using assms by (auto simp: metadata_meta_of buffer_ok_def)
  show "(\<exists>m \<in> set (metadata b). metaKey m = k) \<longleftrightarrow> bufferHas b k"
    using jkeys_jget [of k "entries b"] by (auto simp: metadata_meta_of bufferHas_def jhas_def jkeys_def image_iff)
qed


text \<open>
  What a successful store does: nothing, or it drops the entry of the key and the
  evicted ones and appends the new entry.
\<close>

definition welcome_limits_ok :: "bytes \<Rightarrow> bool" where
  "welcome_limits_ok bd \<longleftrightarrow> bd \<noteq> [] \<and> int (length bd) \<le> PENDING_WELCOME_MAX_BODY_BYTES"

definition added :: "PendingWelcomeBuffer \<Rightarrow> string \<Rightarrow> bytes \<Rightarrow> int \<Rightarrow> bool \<Rightarrow> PendingWelcomeMetadata list
    \<Rightarrow> PendingWelcomeBuffer" where
  "added b key bd t auth E =
     (let kept = filter (\<lambda>ke. fst ke \<noteq> key \<and> meta_of ke \<notin> set E) (entries b)
      in \<lparr>entries = kept @ [(key, \<lparr>body = bd, authenticated = auth, bufferedAtMs = t\<rparr>)],
          retainedBytes = (\<Sum>ke \<leftarrow> kept. int (length (body (snd ke)))) + int (length bd),
          observedAtMs = t\<rparr>)"

lemma store_valid:
  assumes "store b key (Some bd) atMs auth = Inr res"
  shows "\<exists>t. validateAdmissionInput key atMs = Inr t" "welcome_limits_ok bd" "key \<noteq> []"
  using assms
  by (auto simp: store_def sbind_Inr_iff welcome_limits_ok_def validateAdmissionInput_def not_less split: if_splits)

lemma store_unfold:
  assumes "validateAdmissionInput key atMs = Inr t" "welcome_limits_ok bd"
  shows "store b key (Some bd) atMs auth =
    (let plan = planPendingWelcomeAdmission (metadata b) key (int (length bd)) auth
           PENDING_WELCOMES_MAX_ENTRIES PENDING_WELCOMES_MAX_RETAINED_BYTES;
         t' = advancePendingWelcomeClock (observedAtMs b) t
     in if \<not> canReplacePendingWelcome (bufferHas b key) auth \<or> \<not> admitted plan then Inr (notStored, b)
        else case retainPendingWelcomeValues (entries b) (planKept plan) of
          None \<Rightarrow> Inl MissingValue
        | Some retained \<Rightarrow>
            Inr (\<lparr>stored = True, resReplaced = replaced plan, evictedKeys = planEvictedKeys plan\<rparr>,
                 b\<lparr>entries := insertPendingWelcomeValue retained key
                     \<lparr>body = bd, authenticated = auth, bufferedAtMs = t'\<rparr>,
                   retainedBytes := planRetainedBytes plan, observedAtMs := t'\<rparr>))"
  using assms by (simp add: store_def welcome_limits_ok_def not_less Let_def)

lemma admitted_authenticated: "admitted (planPendingWelcomeAdmission es k inc True mE mB)"
  by (simp add: planPendingWelcomeAdmission_def canAdmitPendingWelcome_def Let_def)

lemma retain_plan:
  assumes "jwf (entries b)" "plan_good (metadata b) key inc auth mE mB p E"
  shows "retainPendingWelcomeValues (entries b) (planKept p) =
      Some (filter (\<lambda>ke. fst ke \<noteq> key \<and> meta_of ke \<notin> set E) (entries b))"
    "meta_sum (planKept p) = (\<Sum>ke \<leftarrow> filter (\<lambda>ke. fst ke \<noteq> key \<and> meta_of ke \<notin> set E) (entries b).
      int (length (body (snd ke))))"
proof -
  have kept: "planKept p = filter (\<lambda>m. metaKey m \<noteq> key \<and> m \<notin> set E) (map meta_of (entries b))"
    using assms(2) by (simp add: plan_good_def metadata_meta_of)
  show "retainPendingWelcomeValues (entries b) (planKept p) =
      Some (filter (\<lambda>ke. fst ke \<noteq> key \<and> meta_of ke \<notin> set E) (entries b))"
    using retain_filter [OF assms(1), of "\<lambda>m. metaKey m \<noteq> key \<and> m \<notin> set E"] by (simp add: kept comp_def)
  show "meta_sum (planKept p) = (\<Sum>ke \<leftarrow> filter (\<lambda>ke. fst ke \<noteq> key \<and> meta_of ke \<notin> set E) (entries b).
      int (length (body (snd ke))))"
    by (simp add: kept filter_map comp_def)
qed

lemma store_cases:
  assumes ok: "buffer_ok b" and st: "store b key (Some bd) atMs auth = Inr (r, b')"
  obtains (refused) "r = notStored" "b' = b" "\<not> auth"
  | (stored) t E p where "stored r" "evictedKeys r = map metaKey E" "resReplaced r = bufferHas b key"
      "b' = added b key bd t auth E" "observedAtMs b \<le> t" "welcome_limits_ok bd" "key \<noteq> []"
      "\<not> auth \<Longrightarrow> \<not> bufferHas b key"
      "plan_good (metadata b) key (int (length bd)) auth PENDING_WELCOMES_MAX_ENTRIES
         PENDING_WELCOMES_MAX_RETAINED_BYTES p E"
proof -
  define p where "p = planPendingWelcomeAdmission (metadata b) key (int (length bd)) auth
    PENDING_WELCOMES_MAX_ENTRIES PENDING_WELCOMES_MAX_RETAINED_BYTES"
  obtain t where t: "validateAdmissionInput key atMs = Inr t" using store_valid(1) [OF st] by blast
  note lim = store_valid(2) [OF st] and key = store_valid(3) [OF st]
  note un = st [unfolded store_unfold [OF t lim] Let_def, folded p_def]
  note facts = metadata_facts [OF ok]
  show ?thesis
  proof (cases "canReplacePendingWelcome (bufferHas b key) auth \<and> admitted p")
    case False
    then have "r = notStored" "b' = b" using un by auto
    moreover have "\<not> auth" using False
      by (auto simp: canReplacePendingWelcome_def p_def admitted_authenticated)
    ultimately show ?thesis by (rule refused)
  next
    case True
    obtain E where E: "plan_good (metadata b) key (int (length bd)) auth PENDING_WELCOMES_MAX_ENTRIES
        PENDING_WELCOMES_MAX_RETAINED_BYTES p E"
      using plan_spec [OF facts(1,2) _ _ conjunct2 [OF True [unfolded p_def]]] lim unfolding p_def
      by (auto simp: welcome_limits_ok_def PENDING_WELCOMES_MAX_RETAINED_BYTES_def
          PENDING_WELCOMES_MAX_ENTRIES_def)
    let ?at = "advancePendingWelcomeClock (observedAtMs b) t"
    note ret = retain_plan [OF _ E]
    have w: "jwf (entries b)" using ok by (simp add: buffer_ok_def)
    have "jget (filter (\<lambda>ke. fst ke \<noteq> key \<and> meta_of ke \<notin> set E) (entries b)) key = None"
      by (auto simp: jget_None_iff)
    then have eq: "b' = added b key bd ?at auth E" "stored r" "evictedKeys r = map metaKey E"
        "resReplaced r = bufferHas b key"
      using un True E facts(3) [of key] ret [OF w]
      by (auto simp: added_def insertPendingWelcomeValue_def jset_fresh plan_good_def Let_def)
    have "observedAtMs b \<le> ?at" by (simp add: advancePendingWelcomeClock_def)
    then show ?thesis using stored [OF eq(2-4) eq(1) _ lim key _ E] True
      by (auto simp: canReplacePendingWelcome_def)
  qed
qed

lemma buffer_ok_added:
  assumes ok: "buffer_ok b" and t: "observedAtMs b \<le> t" and lim: "welcome_limits_ok bd"
    and E: "plan_good (metadata b) key (int (length bd)) auth PENDING_WELCOMES_MAX_ENTRIES
         PENDING_WELCOMES_MAX_RETAINED_BYTES p E"
  shows "buffer_ok (added b key bd t auth E)"
proof -
  let ?P = "\<lambda>ke. fst ke \<noteq> key \<and> meta_of ke \<notin> set E"
  have kept: "planKept p = map meta_of (filter ?P (entries b))"
    using E by (simp add: plan_good_def metadata_meta_of filter_map comp_def)
  have fit: "length (filter ?P (entries b)) < PENDING_WELCOMES_MAX_ENTRIES"
    "(\<Sum>ke \<leftarrow> filter ?P (entries b). int (length (body (snd ke)))) + int (length bd) \<le>
       PENDING_WELCOMES_MAX_RETAINED_BYTES"
    using E by (simp_all add: plan_good_def kept comp_def)
  have "jwf (filter ?P (entries b) @ [(key, e)])" for e
    using ok by (auto simp: buffer_ok_def jwf_def jkeys_def distinct_map_filter)
  then show ?thesis using ok t lim fit
    by (auto simp: buffer_ok_def added_def Let_def welcome_limits_ok_def)
qed

lemma expiry_loop:
  "planPendingWelcomeExpiry_loop now ttl acc (map meta_of m) (map (bufferedAtMs \<circ> snd) m) =
     (let P = \<lambda>ke. \<not> isPendingWelcomeExpired (bufferedAtMs (snd ke)) now ttl
      in \<lparr>expiryKept = expiryKept acc @ map meta_of (filter P m),
          expiredKeys = expiredKeys acc @ map fst (filter (\<lambda>ke. \<not> P ke) m),
          expiryRetainedBytes = expiryRetainedBytes acc + (\<Sum>ke \<leftarrow> filter P m. int (length (body (snd ke))))\<rparr>)"
  by (induction m arbitrary: acc) (auto simp: Let_def)

lemma prune_cases:
  assumes ok: "buffer_ok b" and pr: "pruneExpiredWelcomes b nowArg = Inr (ks, b')"
  obtains t where "observedAtMs b \<le> t" "\<exists>now. asSafeInteger nowArg = Some now \<and> now \<le> t"
    "ks = map fst (filter (\<lambda>ke. t - bufferedAtMs (snd ke) > PENDING_WELCOMES_TTL_MS) (entries b))"
    "b' = b\<lparr>entries := filter (\<lambda>ke. t - bufferedAtMs (snd ke) \<le> PENDING_WELCOMES_TTL_MS) (entries b),
      retainedBytes := (\<Sum>ke \<leftarrow> filter (\<lambda>ke. t - bufferedAtMs (snd ke) \<le> PENDING_WELCOMES_TTL_MS) (entries b).
        int (length (body (snd ke)))), observedAtMs := t\<rparr>"
proof -
  obtain now where now: "asSafeInteger nowArg = Some now" "0 \<le> now"
    using pr by (auto simp: pruneExpiredWelcomes_def split: option.splits if_splits)
  define t where "t = advancePendingWelcomeClock (observedAtMs b) now"
  have t: "observedAtMs b \<le> t" "now \<le> t" by (auto simp: t_def advancePendingWelcomeClock_def)
  let ?P = "\<lambda>ke. t - bufferedAtMs (snd ke) \<le> PENDING_WELCOMES_TTL_MS"
  have plan: "planPendingWelcomeExpiry (metadata b) (map bufferedAtMs (jvals (entries b))) t PENDING_WELCOMES_TTL_MS =
      \<lparr>expiryKept = map meta_of (filter ?P (entries b)), expiredKeys = map fst (filter (\<lambda>ke. \<not> ?P ke) (entries b)),
       expiryRetainedBytes = (\<Sum>ke \<leftarrow> filter ?P (entries b). int (length (body (snd ke))))\<rparr>"
    using expiry_loop [of t PENDING_WELCOMES_TTL_MS _ "entries b"]
    by (simp add: planPendingWelcomeExpiry_def metadata_meta_of jvals_def Let_def isPendingWelcomeExpired_def not_less)
  have ret: "retainPendingWelcomeValues (entries b) (map meta_of (filter ?P (entries b))) =
      Some (filter ?P (entries b))"
  proof -
    have w: "jwf (entries b)" using ok by (simp add: buffer_ok_def)
    let ?S = "meta_of ` set (filter ?P (entries b))"
    have "inj_on fst (set (entries b))" using w by (simp add: jwf_def jkeys_def distinct_map)
    then have "inj_on meta_of (set (entries b))"
      by (intro inj_onI) (metis inj_onD meta_of_simps(1))
    then have "meta_of ke \<in> ?S \<longleftrightarrow> ?P ke" if "ke \<in> set (entries b)" for ke
      using that inj_on_image_mem_iff [of meta_of "set (entries b)" ke "set (filter ?P (entries b))"] by auto
    then have "filter (\<lambda>ke. meta_of ke \<in> ?S) (entries b) = filter ?P (entries b)" by (intro filter_cong) auto
    then show ?thesis using retain_filter [OF w, of "\<lambda>m. m \<in> ?S"] by (simp add: filter_map comp_def)
  qed
  have "ks = map fst (filter (\<lambda>ke. \<not> ?P ke) (entries b)) \<and>
      b' = b\<lparr>entries := filter ?P (entries b), retainedBytes := (\<Sum>ke \<leftarrow> filter ?P (entries b).
        int (length (body (snd ke)))), observedAtMs := t\<rparr>"
  proof (cases "filter (\<lambda>ke. \<not> ?P ke) (entries b) = []")
    case True
    then have all: "filter ?P (entries b) = entries b" by (simp add: filter_id_conv filter_empty_conv)
    have "ks = [] \<and> b' = b\<lparr>observedAtMs := t\<rparr>"
      using pr now plan True
      by (cases "entries b = []") (simp_all add: pruneExpiredWelcomes_def jsize_def Let_def flip: t_def)
    moreover have "retainedBytes b = (\<Sum>ke \<leftarrow> entries b. int (length (body (snd ke))))"
      using ok by (simp add: buffer_ok_def)
    ultimately show ?thesis unfolding True all by simp
  next
    case False
    then have "entries b \<noteq> []" by auto
    then show ?thesis using pr now plan False ret
      by (simp add: pruneExpiredWelcomes_def jsize_def Let_def flip: t_def)
  qed
  then show ?thesis using that [OF t(1)] now t(2) by (simp add: not_le)
qed


lemma delete_cases:
  assumes ok: "buffer_ok b" and de: "delete b key = Inr (r, b')"
  shows "r = bufferHas b key \<and> b' = b\<lparr>entries := jdel (entries b) key,
    retainedBytes := (\<Sum>ke \<leftarrow> jdel (entries b) key. int (length (body (snd ke))))\<rparr>"
proof -
  have w: "jwf (entries b)" and sum: "retainedBytes b = (\<Sum>ke \<leftarrow> entries b. int (length (body (snd ke))))"
    using ok by (auto simp: buffer_ok_def)
  have ret: "retainPendingWelcomeValues (entries b) (filter (\<lambda>m. metaKey m \<noteq> key) (map meta_of (entries b))) =
      Some (jdel (entries b) key)"
    using retain_filter [OF w, of "\<lambda>m. metaKey m \<noteq> key"] by (simp add: comp_def jdel_def)
  show ?thesis
  proof (cases "bufferHas b key")
    case True
    then show ?thesis using de ret metadata_facts(3) [OF ok, of key]
      by (auto simp: delete_def Let_def removal_spec metadata_meta_of filter_map comp_def jdel_def)
  next
    case False
    then have "jdel (entries b) key = entries b"
      by (auto simp: bufferHas_def jhas_def jdel_def filter_id_conv jget_None_iff)
    then show ?thesis using de False sum by (simp add: delete_def)
  qed
qed

text \<open>The buffers that can arise: any sequence of the public operations.\<close>

inductive welcome_reachable :: "PendingWelcomeBuffer \<Rightarrow> bool" where
  fresh: "welcome_reachable emptyBuffer"
| stores: "welcome_reachable b \<Longrightarrow> store b key bd t auth = Inr (r, b') \<Longrightarrow> welcome_reachable b'"
| stores_message: "welcome_reachable b \<Longrightarrow> storeMessage b key ser t auth = Inr (r, b') \<Longrightarrow> welcome_reachable b'"
| prunes: "welcome_reachable b \<Longrightarrow> pruneExpiredWelcomes b t = Inr (ks, b') \<Longrightarrow> welcome_reachable b'"
| deletes: "welcome_reachable b \<Longrightarrow> delete b key = Inr (d, b') \<Longrightarrow> welcome_reachable b'"

lemma store_body: "store b key None t auth \<noteq> Inr res"
  by (auto simp: store_def sbind_def split: sum.splits)

lemma store_keeps_ok:
  assumes "buffer_ok b" "store b key bd t auth = Inr (r, b')"
  shows "buffer_ok b'"
proof (cases bd)
  case None
  then show ?thesis using assms(2) store_body by metis
next
  case (Some x)
  show ?thesis
    by (rule store_cases [OF assms(1) assms(2) [unfolded Some]])
      (use assms(1) buffer_ok_added in auto)
qed

lemma storeMessage_store:
  "storeMessage b key ser t auth = Inr (r, b') \<Longrightarrow>
     (r = notStored \<and> b' = b) \<or> store b key (ser ()) t auth = Inr (r, b')"
  by (auto simp: storeMessage_def sbind_Inr_iff split: if_splits)

lemma reachable_ok: "welcome_reachable b \<Longrightarrow> buffer_ok b"
proof (induction rule: welcome_reachable.induct)
  case (stores b key bd t auth r b')
  then show ?case by (blast intro: store_keeps_ok)
next
  case (stores_message b key ser t auth r b')
  then show ?case using storeMessage_store store_keeps_ok by blast
next
  case (prunes b t ks b')
  show ?case
    by (rule prune_cases [OF prunes(3,2)]) (simp add: buffer_ok_drop [OF prunes(3)])
next
  case (deletes b key d b')
  have "b\<lparr>observedAtMs := observedAtMs b\<rparr> = b" by simp
  then show ?case
    using delete_cases [OF deletes(3,2)] buffer_ok_drop [OF deletes(3) order.refl, of "\<lambda>ke. fst ke \<noteq> key"]
    by (simp add: jdel_def)
qed (rule buffer_ok_empty)


section \<open>Properties\<close>

text \<open>
  C32: The buffer is bounded and its accounting is exact. After any sequence of
  stores, prunings and deletions it holds at most 16 Welcomes under distinct
  keys, each of 1 to 10485760 bytes, \<open>retainedBytes\<close> is the sum of their sizes
  and at most 20971520, and no receipt time lies ahead of the observed clock.
\<close>

theorem welcome_buffer_bounded:
  assumes "welcome_reachable b"
  shows "distinct (jkeys (entries b)) \<and> length (entries b) \<le> 16 \<and>
    retainedBytes b = (\<Sum>ke \<leftarrow> entries b. int (length (body (snd ke)))) \<and> retainedBytes b \<le> 20971520 \<and>
    (\<forall>ke \<in> set (entries b). 1 \<le> length (body (snd ke)) \<and> length (body (snd ke)) \<le> 10485760 \<and>
       bufferedAtMs (snd ke) \<le> observedAtMs b)"
proof -
  have "1 \<le> length (body (snd ke)) \<longleftrightarrow> body (snd ke) \<noteq> []" for ke :: "string \<times> PendingWelcomeEntry"
    by (cases "body (snd ke)") auto
  then show ?thesis using reachable_ok [OF assms]
    by (auto simp: buffer_ok_def jwf_def PENDING_WELCOMES_MAX_ENTRIES_def
        PENDING_WELCOMES_MAX_RETAINED_BYTES_def PENDING_WELCOME_MAX_BODY_BYTES_def)
qed


definition sample_buffer :: PendingWelcomeBuffer where
  "sample_buffer = \<lparr>entries = [(''doc'', \<lparr>body = [1, 2, 3], authenticated = True, bufferedAtMs = 1000\<rparr>)],
     retainedBytes = 3, observedAtMs = 1000\<rparr>"

lemma sample_store:
  "store emptyBuffer ''doc'' (Some [1, 2, 3]) (js_int 1000) True =
     Inr (\<lparr>stored = True, resReplaced = False, evictedKeys = []\<rparr>, sample_buffer)"
  by code_simp

lemma sample_reachable: "welcome_reachable sample_buffer"
  using fresh sample_store by (rule stores)

theorem welcome_buffer_bounded_witness: "retainedBytes sample_buffer \<le> 20971520"
  using welcome_buffer_bounded [OF sample_reachable] by blast

lemma added_get:
  "jwf (entries b) \<Longrightarrow> jget (entries (added b key bd t auth E)) k =
     (if k = key then Some \<lparr>body = bd, authenticated = auth, bufferedAtMs = t\<rparr>
      else case jget (entries b) k of
        None \<Rightarrow> None
      | Some e \<Rightarrow> if meta_of (k, e) \<in> set E then None else Some e)"
  by (auto simp: added_def Let_def jget_append jget_filter jget_Cons split: option.splits)

text \<open>
  C31: An unauthenticated Welcome cannot displace an authenticated one. Whatever an
  unauthenticated arrival carries, every authenticated Welcome in the buffer
  is still there, unchanged, after it was stored or refused.
\<close>

theorem unauthenticated_store_protects:
  assumes "welcome_reachable b" and "bufferGet b k = Some e" and "authenticated e"
    and "store b key bd t False = Inr (r, b')"
  shows "bufferGet b' k = Some e"
proof -
  obtain bd' where bd: "bd = Some bd'" using assms(4) store_body by (cases bd) auto
  have ok: "buffer_ok b" by (rule reachable_ok [OF assms(1)])
  show ?thesis
  proof (rule store_cases [OF ok assms(4) [unfolded bd]], goal_cases refused stored)
    case refused
    then show ?case using assms(2) by simp
  next
    case (stored t E p)
    then have "meta_of (k, e) \<notin> set E" "k \<noteq> key"
      using assms(2,3) by (auto simp: plan_good_def bufferHas_def bufferGet_def jhas_def)
    then show ?case using stored(4) assms(2) ok by (simp add: bufferGet_def added_get buffer_ok_def)
  qed
qed

theorem unauthenticated_store_protects_witness:
  "\<exists>r b'. store sample_buffer ''doc'' (Some [9]) (js_int 2000) False = Inr (r, b') \<and>
     bufferGet b' ''doc'' = Some \<lparr>body = [1, 2, 3], authenticated = True, bufferedAtMs = 1000\<rparr>"
proof -
  have s: "store sample_buffer ''doc'' (Some [9]) (js_int 2000) False = Inr (notStored, sample_buffer)"
    by code_simp
  have g: "bufferGet sample_buffer ''doc'' = Some \<lparr>body = [1, 2, 3], authenticated = True, bufferedAtMs = 1000\<rparr>"
    by code_simp
  from unauthenticated_store_protects [OF sample_reachable g _ s] s show ?thesis by simp
qed

text \<open>
  An authenticated Welcome is always stored. For a non-empty key, a valid
  receipt time and a body of legal size the store succeeds, the buffer holds
  exactly that body under the key, and an authenticated entry is evicted only
  if every entry that stays is authenticated too.
\<close>

theorem authenticated_store_succeeds:
  assumes "welcome_reachable b" and "key \<noteq> []" and "asSafeInteger t = Some now" "0 \<le> now"
    and "1 \<le> length bd" "int (length bd) \<le> PENDING_WELCOME_MAX_BODY_BYTES"
  shows "\<exists>r b' e. store b key (Some bd) t True = Inr (r, b') \<and> stored r \<and>
    bufferGet b' key = Some e \<and> body e = bd \<and> authenticated e \<and>
    ((\<exists>k e. bufferGet b k = Some e \<and> authenticated e \<and> k \<in> set (evictedKeys r)) \<longrightarrow>
       (\<forall>k e. bufferGet b' k = Some e \<longrightarrow> authenticated e))"
proof -
  have ok: "buffer_ok b" by (rule reachable_ok [OF assms(1)])
  have v: "validateAdmissionInput key t = Inr now" "welcome_limits_ok bd"
    using assms(2-6) by (auto simp: validateAdmissionInput_def welcome_limits_ok_def)
  note facts = metadata_facts [OF ok]
  obtain E where E: "plan_good (metadata b) key (int (length bd)) True PENDING_WELCOMES_MAX_ENTRIES
      PENDING_WELCOMES_MAX_RETAINED_BYTES (planPendingWelcomeAdmission (metadata b) key (int (length bd)) True
        PENDING_WELCOMES_MAX_ENTRIES PENDING_WELCOMES_MAX_RETAINED_BYTES) E"
  proof -
    have "1 \<le> PENDING_WELCOMES_MAX_ENTRIES" "int (length bd) \<le> PENDING_WELCOMES_MAX_RETAINED_BYTES"
      using assms(6) by (auto simp: PENDING_WELCOMES_MAX_RETAINED_BYTES_def PENDING_WELCOMES_MAX_ENTRIES_def)
    then show ?thesis using that plan_spec [OF facts(1,2) _ _ admitted_authenticated] by blast
  qed
  have "\<exists>r b'. store b key (Some bd) t True = Inr (r, b')"
    using retain_plan(1) [OF _ E] ok
    by (simp add: store_unfold [OF v] Let_def admitted_authenticated buffer_ok_def)
  then obtain r b' where st: "store b key (Some bd) t True = Inr (r, b')" by blast
  have w: "jwf (entries b)" using ok by (simp add: buffer_ok_def)
  show ?thesis
  proof (rule store_cases [OF ok st], goal_cases refused stored)
    case (stored t1 E p)
    have "authenticated e'"
      if k: "bufferGet b k = Some e" "authenticated e" "k \<in> set (evictedKeys r)" and k': "bufferGet b' k' = Some e'"
      for k e k' e'
    proof -
      obtain m where m: "m \<in> set E" "metaKey m = k" using k(3) stored(2) by auto
      then obtain e2 where "m = meta_of (k, e2)" "(k, e2) \<in> set (entries b)"
        using stored(9) by (force simp: plan_good_def metadata_meta_of)
      then have "metaAuthenticated m" using k(1,2) jget_eq_Some_iff [OF w, of k e2] by (simp add: bufferGet_def)
      then have all: "\<forall>m \<in> set (planKept p). metaAuthenticated m" using stored(9) m by (auto simp: plan_good_def)
      show "authenticated e'"
      proof (cases "k' = key")
        case False
        then have "jget (entries b) k' = Some e'" "meta_of (k', e') \<notin> set E"
          using k' by (auto simp: stored(4) bufferGet_def added_get [OF w] split: option.splits if_splits)
        then have "meta_of (k', e') \<in> set (planKept p)"
          using False stored(9) by (auto simp: plan_good_def metadata_meta_of dest: jget_in_set)
        then show ?thesis using all by force
      qed (use k' in \<open>auto simp: stored(4) bufferGet_def added_get [OF w]\<close>)
    qed
    then have "(\<exists>k e. bufferGet b k = Some e \<and> authenticated e \<and> k \<in> set (evictedKeys r)) \<longrightarrow>
       (\<forall>k e. bufferGet b' k = Some e \<longrightarrow> authenticated e)" by blast
    moreover have "bufferGet b' key = Some \<lparr>body = bd, authenticated = True, bufferedAtMs = t1\<rparr>"
      by (simp add: stored(4) bufferGet_def added_get [OF w])
    ultimately show ?case using st stored(1) by fastforce
  qed simp
qed

theorem authenticated_store_succeeds_witness:
  "\<exists>r b'. store sample_buffer ''doc'' (Some [9]) (js_int 2000) True = Inr (r, b') \<and> stored r"
proof -
  have "int (length [9 :: byte]) \<le> PENDING_WELCOME_MAX_BODY_BYTES" by (simp add: PENDING_WELCOME_MAX_BODY_BYTES_def)
  then show ?thesis
    using authenticated_store_succeeds [OF sample_reachable, of "''doc''" "js_int 2000" 2000 "[9]"] by auto
qed

text \<open>
  Pruning removes exactly the Welcomes older than five minutes by the observed
  clock, reports their keys in order, and leaves the others untouched.
\<close>

theorem pruneExpiredWelcomes_exact:
  assumes "welcome_reachable b" and "pruneExpiredWelcomes b t = Inr (ks, b')"
  shows "entries b' = filter (\<lambda>ke. observedAtMs b' - bufferedAtMs (snd ke) \<le> 300000) (entries b) \<and>
    ks = map fst (filter (\<lambda>ke. observedAtMs b' - bufferedAtMs (snd ke) > 300000) (entries b)) \<and>
    observedAtMs b \<le> observedAtMs b'"
  by (rule prune_cases [OF reachable_ok [OF assms(1)] assms(2)])
    (simp add: PENDING_WELCOMES_TTL_MS_def)

theorem pruneExpiredWelcomes_exact_witness:
  "\<exists>ks b'. pruneExpiredWelcomes sample_buffer (js_int 301001) = Inr (ks, b') \<and>
     ks = map fst (filter (\<lambda>ke. observedAtMs b' - bufferedAtMs (snd ke) > 300000) (entries sample_buffer)) \<and>
     ks = [''doc'']"
proof -
  have p: "pruneExpiredWelcomes sample_buffer (js_int 301001) =
      Inr ([''doc''], \<lparr>entries = [], retainedBytes = 0, observedAtMs = 301001\<rparr>)" by code_simp
  from pruneExpiredWelcomes_exact [OF sample_reachable p] p show ?thesis by auto
qed

end
