(* ===== verification/Sync_Request.thy ===== *)
theory Sync_Request
  imports Js_Prelude
begin

text \<open>
  \<open>packages/core/src/policy/sync-request.ts\<close> and the part of
  \<open>peerborne-document.ts\<close> that answers signed sync requests: the monotone clock,
  the replay ledger, the verification of a request, the handler and the topic
  validator. Handlers run one at a time in the mutation queue of the document,
  but the document may be closed and time passes wherever one of them awaits;
  a \<open>moment\<close> is what such a suspension brings: a reading of \<open>Date.now()\<close> and
  whether the document was closed meanwhile.

  \<open>JSON.stringify\<close> of a pair of strings is injective, so the ledger is keyed by
  the pair itself.
\<close>


section \<open>Definitions\<close>

subsection \<open>The kernel\<close>

definition syncRequestTimeAllowed :: "int \<Rightarrow> int \<Rightarrow> bool" where
  "syncRequestTimeAllowed issuedAt now \<longleftrightarrow> issuedAt - now \<ge> -60000 \<and> issuedAt - now \<le> 30000"

definition advanceSyncRequestClock :: "int \<Rightarrow> int \<Rightarrow> int" where
  "advanceSyncRequestClock previous observed = (if previous > observed then previous else observed)"

definition syncRequestReplayExpired :: "int \<Rightarrow> int \<Rightarrow> bool" where
  "syncRequestReplayExpired issuedAt now \<longleftrightarrow> now - issuedAt > 60000"

type_synonym sync_id = "string \<times> string"
type_synonym sync_ledger = "(sync_id, int) jsmap"

text \<open>\<open>None\<close> is a key the ledger does not have.\<close>

fun pruneSyncRequestReplays_loop ::
    "sync_ledger \<Rightarrow> sync_id list \<Rightarrow> sync_ledger \<Rightarrow> int \<Rightarrow> sync_ledger option" where
  "pruneSyncRequestReplays_loop result [] ledger now = Some result"
| "pruneSyncRequestReplays_loop result (key # keys) ledger now =
     (case jget ledger key of
        None \<Rightarrow> None
      | Some t \<Rightarrow>
          pruneSyncRequestReplays_loop
            (if \<not> syncRequestReplayExpired t now then jset result key t else result) keys ledger now)"

definition pruneSyncRequestReplays :: "sync_id list \<Rightarrow> sync_ledger \<Rightarrow> int \<Rightarrow> sync_ledger option" where
  "pruneSyncRequestReplays keys ledger now = pruneSyncRequestReplays_loop [] keys ledger now"

datatype replay_class = StaleRequest | ReplayedRequest | CapacityReached | FreshRequest

definition classifySyncRequestReplay :: "int \<Rightarrow> int \<Rightarrow> bool \<Rightarrow> nat \<Rightarrow> nat \<Rightarrow> replay_class" where
  "classifySyncRequestReplay issuedAt now known count capacity =
     (if \<not> syncRequestTimeAllowed issuedAt now then StaleRequest
      else if known then ReplayedRequest
      else if count < capacity then FreshRequest else CapacityReached)"

definition rememberSyncRequest :: "sync_ledger \<Rightarrow> sync_id \<Rightarrow> int \<Rightarrow> sync_ledger" where
  "rememberSyncRequest ledger key issuedAt = jset ledger key issuedAt"

definition syncResponseAllowed :: "int \<Rightarrow> int \<Rightarrow> bool \<Rightarrow> bool \<Rightarrow> bool \<Rightarrow> bool \<Rightarrow> bool" where
  "syncResponseAllowed now lastResponse hasChange changeKnown hasSnapshot snapshotKnown \<longleftrightarrow>
     now - lastResponse \<ge> 2000 \<and> hasChange \<and> (\<not> changeKnown \<or> (hasSnapshot \<and> \<not> snapshotKnown))"

subsection \<open>Requests\<close>

definition MAX_SYNC_REQUEST_BYTES :: int where
  "MAX_SYNC_REQUEST_BYTES = 32 * 1024"

definition MAX_SHARED_PROTOCOL_REQUEST_BYTES :: int where
  "MAX_SHARED_PROTOCOL_REQUEST_BYTES = 10 * 1024 * 1024"

record SyncRequest =
  syncDocumentId :: string
  requester :: string
  syncRequestId :: string
  issuedAtMs :: js_number
  knownTips :: "string list"
  knownSnapshots :: "string list"
  syncSignature :: string

definition isSyncRequestFresh :: "SyncRequest \<Rightarrow> int \<Rightarrow> bool" where
  "isSyncRequestFresh request nowMs =
     (if safe_nat nowMs then
        (case asSafeInteger (issuedAtMs request) of
           None \<Rightarrow> False
         | Some t \<Rightarrow> t \<ge> 0 \<and> syncRequestTimeAllowed t nowMs)
      else False)"

subsection \<open>The document\<close>

text \<open>
  What the handler reads of the document and of its providers. \<open>unsignedBytes\<close>
  is the UTF-8 rendering of the six signed fields, \<open>verifies\<close>, \<open>snapshotHint\<close>,
  \<open>signReply\<close> and \<open>sealFrame\<close> are the authentication provider and the
  serializer; \<open>None\<close> is an exception or a missing key or nonce. \<open>lastChange\<close> is
  the identifier and the changes of the last sync message.
\<close>

record 'pk sync_env =
  documentPath :: string
  signingEnabled :: bool
  writerUsers :: "'pk list"
  readerUsers :: "'pk list"
  serializePublicKey :: "'pk \<Rightarrow> string"
  unsignedBytes :: "SyncRequest \<Rightarrow> bytes"
  verifies :: "bytes \<Rightarrow> 'pk \<Rightarrow> string \<Rightarrow> bool"
  selfIsWriter :: bool
  lastChange :: "(string option \<times> bytes option) option"
  latestSnapshot :: "bytes option"
  snapshotHint :: "bytes \<Rightarrow> string"
  signReply :: "string \<Rightarrow> bytes \<Rightarrow> bytes option \<Rightarrow> bytes option"
  sealFrame :: "bytes \<Rightarrow> bytes option"

record sync_state =
  subscribed :: bool
  lastSyncResponseAt :: int
  syncRequestsSeen :: sync_ledger
  syncRequestClock :: int

record moment =
  dateNow :: js_number
  closedMeanwhile :: bool

definition initialSyncState :: sync_state where
  "initialSyncState = \<lparr>subscribed = False, lastSyncResponseAt = 0, syncRequestsSeen = [],
     syncRequestClock = 0\<rparr>"

definition suspend :: "sync_state \<Rightarrow> moment \<Rightarrow> sync_state" where
  "suspend st m = st\<lparr>subscribed := subscribed st \<and> \<not> closedMeanwhile m\<rparr>"

definition observeSyncRequestClock :: "sync_state \<Rightarrow> js_number \<Rightarrow> int option \<times> sync_state" where
  "observeSyncRequestClock st reading =
     (case asSafeInteger reading of
        None \<Rightarrow> (None, st)
      | Some t \<Rightarrow>
          if t < 0 then (None, st)
          else (let now = advanceSyncRequestClock (syncRequestClock st) t
                in (Some now, st\<lparr>syncRequestClock := now\<rparr>)))"

definition sync_id_of :: "SyncRequest \<Rightarrow> sync_id" where
  "sync_id_of request = (requester request, syncRequestId request)"

definition syncRequestCanBeAdmitted :: "sync_state \<Rightarrow> SyncRequest \<Rightarrow> int \<Rightarrow> (bool \<times> sync_state) option" where
  "syncRequestCanBeAdmitted st request now =
     (case asSafeInteger (issuedAtMs request) of
        None \<Rightarrow> Some (False, st)
      | Some t \<Rightarrow>
          if t < 0 then Some (False, st)
          else case pruneSyncRequestReplays (jkeys (syncRequestsSeen st)) (syncRequestsSeen st) now of
            None \<Rightarrow> None
          | Some seen \<Rightarrow>
              Some (classifySyncRequestReplay t now (jhas seen (sync_id_of request)) (jsize seen) 128
                      = FreshRequest,
                    st\<lparr>syncRequestsSeen := seen\<rparr>))"

text \<open>The first member whose serialized key is the requester decides.\<close>

fun verifySyncRequest_scan :: "('pk \<Rightarrow> string) \<Rightarrow> string \<Rightarrow> 'pk list \<Rightarrow> 'pk option" where
  "verifySyncRequest_scan serialize who [] = None"
| "verifySyncRequest_scan serialize who (key # keys) =
     (if serialize key \<noteq> who then verifySyncRequest_scan serialize who keys else Some key)"

text \<open>\<open>None\<close>: the signing payload exceeds its limit and the verification throws.\<close>

definition verifySyncRequest :: "'pk sync_env \<Rightarrow> SyncRequest \<Rightarrow> bool option" where
  "verifySyncRequest env request =
     (if syncDocumentId request \<noteq> documentPath env \<or> \<not> signingEnabled env then Some False
      else case verifySyncRequest_scan (serializePublicKey env) (requester request)
                  (writerUsers env @ readerUsers env) of
        None \<Rightarrow> Some False
      | Some key \<Rightarrow>
          if int (length (unsignedBytes env request)) > MAX_SYNC_REQUEST_BYTES then None
          else Some (verifies env (unsignedBytes env request) key (syncSignature request)))"

subsection \<open>The handler\<close>

datatype sync_outcome =
    SyncIgnored
  | SyncFailed
  | SyncAborted
  | SyncWithheld
  | SyncPublished bytes

definition hasChangeOf :: "'pk sync_env \<Rightarrow> bool" where
  "hasChangeOf env =
     (case lastChange env of
        Some (Some changeId, Some changes) \<Rightarrow> changeId \<noteq> []
      | _ \<Rightarrow> False)"

definition changeKnownOf :: "'pk sync_env \<Rightarrow> SyncRequest \<Rightarrow> bool" where
  "changeKnownOf env request =
     (case lastChange env of
        Some (Some changeId, _) \<Rightarrow> changeId \<in> set (knownTips request)
      | _ \<Rightarrow> False)"

definition snapshotKnownOf :: "'pk sync_env \<Rightarrow> SyncRequest \<Rightarrow> bool" where
  "snapshotKnownOf env request =
     (case latestSnapshot env of
        None \<Rightarrow> True
      | Some signature \<Rightarrow> snapshotHint env signature \<in> set (knownSnapshots request))"

definition isCurrent :: "sync_state \<Rightarrow> SyncRequest \<Rightarrow> js_number \<Rightarrow> bool \<times> sync_state" where
  "isCurrent st request reading =
     (case observeSyncRequestClock st reading of
        (None, st') \<Rightarrow> (False, st')
      | (Some dispatch, st') \<Rightarrow> (subscribed st \<and> isSyncRequestFresh request dispatch, st'))"

text \<open>\<open>_publishSyncBytes\<close>: the guard is evaluated before and after the encryption.\<close>

definition publishSyncBytes ::
    "'pk sync_env \<Rightarrow> sync_state \<Rightarrow> bytes \<Rightarrow> SyncRequest \<Rightarrow> moment \<Rightarrow> moment \<Rightarrow> sync_outcome \<times> sync_state" where
  "publishSyncBytes env st payload request m1 m2 =
     (if int (length payload) > MAX_SHARED_PROTOCOL_REQUEST_BYTES then (SyncAborted, st)
      else
        (let (current, st1) = isCurrent st request (dateNow m1)
         in if \<not> current then (SyncWithheld, st1)
            else case sealFrame env payload of
              None \<Rightarrow> (SyncAborted, suspend st1 m2)
            | Some frame \<Rightarrow>
                (let (current', st2) = isCurrent (suspend st1 m2) request (dateNow m2)
                 in (if current' then SyncPublished frame else SyncWithheld, st2))))"

text \<open>The \<open>try\<close> block and its \<open>finally\<close>.\<close>

definition dispatchReply ::
    "'pk sync_env \<Rightarrow> sync_state \<Rightarrow> SyncRequest \<Rightarrow> bool \<Rightarrow> moment \<Rightarrow> moment \<Rightarrow> moment
      \<Rightarrow> sync_outcome \<times> sync_state" where
  "dispatchReply env st request snapshotKnown m1 m2 m3 =
     (let (outcome, st1) =
        (case lastChange env of
           Some (Some changeId, Some changes) \<Rightarrow>
             (case signReply env changeId changes (if snapshotKnown then None else latestSnapshot env) of
                None \<Rightarrow> (SyncAborted, suspend st m1)
              | Some payload \<Rightarrow> publishSyncBytes env (suspend st m1) payload request m1 m2)
         | _ \<Rightarrow> (SyncAborted, suspend st m1));
          (settled, st2) = observeSyncRequestClock (suspend st1 m3) (dateNow m3)
      in (outcome,
          case settled of None \<Rightarrow> st2 | Some t \<Rightarrow> st2\<lparr>lastSyncResponseAt := t\<rparr>))"

text \<open>
  The handler is split where it decides: \<open>admitSyncRequest\<close> is everything before
  the request is remembered and yields the time of the answer.
\<close>

record sync_call =
  arrival :: moment
  verification :: moment
  signing :: moment
  sealing :: moment
  settling :: moment

definition admitSyncRequest ::
    "'pk sync_env \<Rightarrow> sync_state \<Rightarrow> SyncRequest \<Rightarrow> sync_call \<Rightarrow> (sync_outcome + int) \<times> sync_state" where
  "admitSyncRequest env st request call =
     (if \<not> subscribed st then (Inl SyncIgnored, st)
      else case observeSyncRequestClock st (dateNow (arrival call)) of
        (None, st1) \<Rightarrow> (Inl SyncIgnored, st1)
      | (Some now, st1) \<Rightarrow>
     (if \<not> syncResponseAllowed now (lastSyncResponseAt st1) (hasChangeOf env) (changeKnownOf env request)
             (latestSnapshot env \<noteq> None) False
      then (Inl SyncIgnored, st1)
      else case syncRequestCanBeAdmitted st1 request now of
        None \<Rightarrow> (Inl SyncFailed, st1)
      | Some (False, st2) \<Rightarrow> (Inl SyncIgnored, st2)
      | Some (True, st2) \<Rightarrow>
     (case verifySyncRequest env request of
        None \<Rightarrow> (Inl SyncFailed, suspend st2 (verification call))
      | Some ok \<Rightarrow>
     (if \<not> ok \<or> \<not> selfIsWriter env then (Inl SyncIgnored, suspend st2 (verification call))
      else case observeSyncRequestClock (suspend st2 (verification call)) (dateNow (verification call)) of
        (None, st3) \<Rightarrow> (Inl SyncIgnored, st3)
      | (Some now', st3) \<Rightarrow>
     (case syncRequestCanBeAdmitted st3 request now' of
        None \<Rightarrow> (Inl SyncFailed, st3)
      | Some (False, st4) \<Rightarrow> (Inl SyncIgnored, st4)
      | Some (True, st4) \<Rightarrow>
          if \<not> syncResponseAllowed now' (lastSyncResponseAt st4) (hasChangeOf env)
                 (changeKnownOf env request) (latestSnapshot env \<noteq> None) (snapshotKnownOf env request)
          then (Inl SyncIgnored, st4) else (Inr now', st4))))))"

definition handleSyncRequest ::
    "'pk sync_env \<Rightarrow> sync_state \<Rightarrow> SyncRequest \<Rightarrow> sync_call \<Rightarrow> sync_outcome \<times> sync_state" where
  "handleSyncRequest env st request call =
     (case admitSyncRequest env st request call of
        (Inl outcome, st') \<Rightarrow> (outcome, st')
      | (Inr now, st') \<Rightarrow>
          (case asSafeInteger (issuedAtMs request) of
             None \<Rightarrow> (SyncFailed, st')
           | Some t \<Rightarrow>
               dispatchReply env
                 (st'\<lparr>syncRequestsSeen := rememberSyncRequest (syncRequestsSeen st') (sync_id_of request) t,
                      lastSyncResponseAt := now\<rparr>)
                 request (snapshotKnownOf env request) (signing call) (sealing call) (settling call)))"

subsection \<open>The topic validator\<close>

datatype TopicValidatorResult = ValidatorAccept | ValidatorIgnore | ValidatorReject

text \<open>The decision on a packet that decodes to a sync request, in its queue slot.\<close>

definition validateSyncRequest ::
    "'pk sync_env \<Rightarrow> sync_state \<Rightarrow> SyncRequest \<Rightarrow> js_number \<Rightarrow> moment \<Rightarrow> TopicValidatorResult \<times> sync_state" where
  "validateSyncRequest env st request reading m =
     (case observeSyncRequestClock st reading of
        (None, st1) \<Rightarrow> (ValidatorIgnore, st1)
      | (Some now, st1) \<Rightarrow>
          if \<not> isSyncRequestFresh request now then (ValidatorIgnore, st1)
          else case verifySyncRequest env request of
            None \<Rightarrow> (ValidatorIgnore, suspend st1 m)
          | Some False \<Rightarrow> (ValidatorReject, suspend st1 m)
          | Some True \<Rightarrow>
              (case observeSyncRequestClock (suspend st1 m) (dateNow m) of
                 (Some verified, st2) \<Rightarrow>
                   (if isSyncRequestFresh request verified then ValidatorAccept else ValidatorIgnore, st2)
               | (None, st2) \<Rightarrow> (ValidatorIgnore, st2)))"

datatype 'pk sync_event =
    HandleRequest "'pk sync_env" SyncRequest sync_call
  | ValidateRequest "'pk sync_env" SyncRequest js_number moment
  | SetSubscribed bool

fun sync_step :: "sync_state \<Rightarrow> 'pk sync_event \<Rightarrow> sync_state" where
  "sync_step st (HandleRequest env request call) = snd (handleSyncRequest env st request call)"
| "sync_step st (ValidateRequest env request reading m) = snd (validateSyncRequest env st request reading m)"
| "sync_step st (SetSubscribed b) = st\<lparr>subscribed := b\<rparr>"

text \<open>The time at which an event answers a request, and the request it answers.\<close>

fun answered_at :: "sync_state \<Rightarrow> 'pk sync_event \<Rightarrow> int option" where
  "answered_at st (HandleRequest env request call) =
     (case fst (admitSyncRequest env st request call) of Inr now \<Rightarrow> Some now | Inl _ \<Rightarrow> None)"
| "answered_at st _ = None"

definition answers :: "sync_state \<Rightarrow> 'pk sync_event \<Rightarrow> bool" where
  "answers st e \<longleftrightarrow> answered_at st e \<noteq> None"

fun request_key :: "'pk sync_event \<Rightarrow> (sync_id \<times> int) option" where
  "request_key (HandleRequest env request call) =
     map_option (\<lambda>t. (sync_id_of request, t)) (asSafeInteger (issuedAtMs request))"
| "request_key _ = None"

fun answer_times :: "sync_state \<Rightarrow> 'pk sync_event list \<Rightarrow> int list" where
  "answer_times st [] = []"
| "answer_times st (e # es) =
     (case answered_at st e of None \<Rightarrow> [] | Some t \<Rightarrow> [t]) @ answer_times (sync_step st e) es"


section \<open>The ledger\<close>

lemma prune_loop:
  assumes "jwf m" and "\<forall>e \<in> set m. jget ledger (fst e) = Some (snd e)"
    and "\<forall>e \<in> set m. jget r (fst e) = None"
  shows "pruneSyncRequestReplays_loop r (jkeys m) ledger now =
    Some (r @ filter (\<lambda>e. \<not> syncRequestReplayExpired (snd e) now) m)"
  using assms
proof (induction m arbitrary: r)
  case (Cons e m)
  have wf: "jwf m" "fst e \<notin> fst ` set m" using Cons.prems(1) by (auto simp: jwf_def jkeys_def)
  have none: "\<forall>e' \<in> set m. jget (r @ [(fst e, snd e)]) (fst e') = None"
    using Cons.prems(3) wf(2) by (auto simp: jget_append jget_def image_iff)
  show ?case
    using Cons.IH [of r] Cons.IH [of "r @ [(fst e, snd e)]"] Cons.prems wf none
    by (auto simp: jkeys_def jset_fresh)
qed (simp add: jkeys_def)

lemma prune_eq:
  assumes "jwf ledger"
  shows "pruneSyncRequestReplays (jkeys ledger) ledger now =
    Some (filter (\<lambda>e. \<not> syncRequestReplayExpired (snd e) now) ledger)"
  using prune_loop [OF assms, of ledger "[]" now] assms jget_eq_Some_iff [OF assms]
  by (simp add: pruneSyncRequestReplays_def)

definition live_requests :: "sync_ledger \<Rightarrow> int \<Rightarrow> sync_ledger" where
  "live_requests ledger now = filter (\<lambda>e. \<not> syncRequestReplayExpired (snd e) now) ledger"

lemma live_requests_wf: "jwf m \<Longrightarrow> jwf (live_requests m now)"
  by (simp add: jwf_def jkeys_def live_requests_def distinct_map_filter)

lemma live_requests_size: "jsize (live_requests m now) \<le> jsize m"
  by (simp add: jsize_def live_requests_def)

lemma live_requests_get:
  "jwf m \<Longrightarrow> jget (live_requests m now) k =
     (case jget m k of None \<Rightarrow> None | Some t \<Rightarrow> if now - t > 60000 then None else Some t)"
  by (auto simp: live_requests_def jget_filter syncRequestReplayExpired_def split: option.splits)

lemma canBeAdmitted_eq:
  assumes "jwf (syncRequestsSeen st)"
  shows "syncRequestCanBeAdmitted st request now =
    (case asSafeInteger (issuedAtMs request) of
       None \<Rightarrow> Some (False, st)
     | Some t \<Rightarrow> if t < 0 then Some (False, st) else
         Some (syncRequestTimeAllowed t now \<and>
               jget (live_requests (syncRequestsSeen st) now) (sync_id_of request) = None \<and>
               jsize (live_requests (syncRequestsSeen st) now) < 128,
               st\<lparr>syncRequestsSeen := live_requests (syncRequestsSeen st) now\<rparr>))"
  using assms
  by (auto simp: syncRequestCanBeAdmitted_def prune_eq live_requests_def classifySyncRequestReplay_def
      jhas_def split: option.splits)


section \<open>The invariant\<close>

definition sync_ok :: "sync_state \<Rightarrow> bool" where
  "sync_ok st \<longleftrightarrow> jwf (syncRequestsSeen st) \<and> jsize (syncRequestsSeen st) \<le> 128 \<and>
     0 \<le> lastSyncResponseAt st \<and> lastSyncResponseAt st \<le> syncRequestClock st \<and>
     (\<forall>k t. jget (syncRequestsSeen st) k = Some t \<longrightarrow> 0 \<le> t \<and> t \<le> syncRequestClock st + 30000)"

fun request_spent :: "sync_state \<Rightarrow> (sync_id \<times> int) option \<Rightarrow> bool" where
  "request_spent st None = True"
| "request_spent st (Some (i, t)) \<longleftrightarrow>
     syncRequestClock st - t > 60000 \<or> jget (syncRequestsSeen st) i = Some t"

text \<open>What every part of a handler but the admission does to the state.\<close>

definition sync_tick :: "sync_state \<Rightarrow> sync_state \<Rightarrow> bool" where
  "sync_tick st st' \<longleftrightarrow> sync_ok st' \<and> syncRequestClock st \<le> syncRequestClock st' \<and>
     lastSyncResponseAt st \<le> lastSyncResponseAt st' \<and> (\<forall>k. request_spent st k \<longrightarrow> request_spent st' k)"

lemma sync_tick_refl: "sync_ok st \<Longrightarrow> sync_tick st st"
  by (simp add: sync_tick_def)

lemma sync_tick_trans: "sync_tick st st' \<Longrightarrow> sync_tick st' st'' \<Longrightarrow> sync_tick st st''"
  by (auto simp: sync_tick_def)

lemma sync_tick_ok: "sync_tick st st' \<Longrightarrow> sync_ok st'"
  by (simp add: sync_tick_def)

lemma sync_tick_spent: "sync_tick st st' \<Longrightarrow> request_spent st k \<Longrightarrow> request_spent st' k"
  by (simp add: sync_tick_def)

lemma request_spent_clock:
  "request_spent st k \<Longrightarrow> syncRequestClock st \<le> syncRequestClock st' \<Longrightarrow>
   syncRequestsSeen st' = syncRequestsSeen st \<Longrightarrow> request_spent st' k"
  by (cases k) (auto split: prod.splits)

lemma suspend_tick: "sync_ok st \<Longrightarrow> sync_tick st (suspend st m)"
  by (auto simp: sync_tick_def sync_ok_def suspend_def intro: request_spent_clock)

lemma suspend_simps [simp]:
  "lastSyncResponseAt (suspend st m) = lastSyncResponseAt st"
  "syncRequestsSeen (suspend st m) = syncRequestsSeen st"
  "syncRequestClock (suspend st m) = syncRequestClock st"
  by (simp_all add: suspend_def)

lemma observe_eq:
  "observeSyncRequestClock st reading =
     (case asSafeInteger reading of
        None \<Rightarrow> (None, st)
      | Some t \<Rightarrow> if t < 0 then (None, st) else
          (Some (max (syncRequestClock st) t), st\<lparr>syncRequestClock := max (syncRequestClock st) t\<rparr>))"
  by (auto simp: observeSyncRequestClock_def advanceSyncRequestClock_def Let_def max_def split: option.splits)

lemma clock_tick:
  assumes "sync_ok st" and "syncRequestClock st \<le> c"
  shows "sync_tick st (st\<lparr>syncRequestClock := c\<rparr>)"
  unfolding sync_tick_def sync_ok_def
  using assms by (auto simp: sync_ok_def intro: request_spent_clock) fastforce+

lemma observe_tick:
  "sync_ok st \<Longrightarrow> observeSyncRequestClock st reading = (r, st') \<Longrightarrow>
   sync_tick st st' \<and> lastSyncResponseAt st' = lastSyncResponseAt st \<and>
   syncRequestsSeen st' = syncRequestsSeen st \<and> (\<forall>now. r = Some now \<longrightarrow> now = syncRequestClock st')"
  by (auto simp: observe_eq sync_tick_refl clock_tick split: option.splits if_splits)

lemma prune_tick:
  assumes "sync_ok st"
  shows "sync_tick st (st\<lparr>syncRequestsSeen := live_requests (syncRequestsSeen st) (syncRequestClock st)\<rparr>)"
proof -
  have "request_spent (st\<lparr>syncRequestsSeen := live_requests (syncRequestsSeen st) (syncRequestClock st)\<rparr>) k"
    if "request_spent st k" for k
    using that assms by (cases k) (auto simp: sync_ok_def live_requests_get split: prod.splits if_splits)
  then show ?thesis using assms live_requests_size [of "syncRequestsSeen st" "syncRequestClock st"]
    by (auto simp: sync_tick_def sync_ok_def live_requests_wf live_requests_get split: option.splits if_splits)
qed

lemma canBeAdmitted_tick:
  assumes "sync_ok st"
  shows "\<exists>b st'. syncRequestCanBeAdmitted st request (syncRequestClock st) = Some (b, st') \<and>
    sync_tick st st' \<and> lastSyncResponseAt st' = lastSyncResponseAt st \<and>
    syncRequestClock st' = syncRequestClock st \<and>
    (b \<longrightarrow> (\<exists>t. asSafeInteger (issuedAtMs request) = Some t \<and> 0 \<le> t \<and>
       syncRequestTimeAllowed t (syncRequestClock st) \<and>
       jget (syncRequestsSeen st') (sync_id_of request) = None \<and> jsize (syncRequestsSeen st') < 128))"
proof -
  have wf: "jwf (syncRequestsSeen st)" using assms by (simp add: sync_ok_def)
  show ?thesis
    using prune_tick [OF assms] sync_tick_refl [OF assms]
    by (auto simp: canBeAdmitted_eq [OF wf] split: option.splits)
qed


section \<open>Operations keep the invariant\<close>

definition admissible :: "'pk sync_env \<Rightarrow> sync_state \<Rightarrow> SyncRequest \<Rightarrow> int \<Rightarrow> bool" where
  "admissible env st request now \<longleftrightarrow>
     now = syncRequestClock st \<and> now - lastSyncResponseAt st \<ge> 2000 \<and>
     verifySyncRequest env request = Some True \<and> selfIsWriter env \<and> hasChangeOf env \<and>
     (\<not> changeKnownOf env request \<or> (latestSnapshot env \<noteq> None \<and> \<not> snapshotKnownOf env request)) \<and>
     (\<exists>t. asSafeInteger (issuedAtMs request) = Some t \<and> 0 \<le> t \<and> syncRequestTimeAllowed t now \<and>
        jget (syncRequestsSeen st) (sync_id_of request) = None \<and> jsize (syncRequestsSeen st) < 128)"

lemma admit_tick:
  assumes ok: "sync_ok st" and admit: "admitSyncRequest env st request call = (r, st')"
  shows "sync_tick st st' \<and> lastSyncResponseAt st' = lastSyncResponseAt st \<and>
    (\<forall>now. r = Inr now \<longrightarrow> admissible env st' request now)"
proof (cases "subscribed st")
  case False
  then show ?thesis using ok admit by (auto simp: admitSyncRequest_def sync_tick_refl)
next
  case sub: True
  let ?m = "verification call"
  obtain r1 st1 where o1: "observeSyncRequestClock st (dateNow (arrival call)) = (r1, st1)" by fastforce
  note t1 = observe_tick [OF ok o1]
  show ?thesis
  proof (cases r1)
    case None
    then show ?thesis using admit sub o1 t1 by (auto simp: admitSyncRequest_def)
  next
    case (Some now)
    have now: "now = syncRequestClock st1" using t1 Some by simp
    have ok1: "sync_ok st1" using t1 sync_tick_ok by blast
    obtain b st2 where c1: "syncRequestCanBeAdmitted st1 request now = Some (b, st2)" "sync_tick st1 st2"
      "lastSyncResponseAt st2 = lastSyncResponseAt st1" using canBeAdmitted_tick [OF ok1] now by blast
    have ok2: "sync_ok (suspend st2 ?m)" and t2: "sync_tick st2 (suspend st2 ?m)"
      using suspend_tick c1(2) sync_tick_ok by blast+
    have s2: "sync_tick st st2" "sync_tick st (suspend st2 ?m)"
      using t1 c1(2) t2 sync_tick_trans by blast+
    obtain r3 st3 where o3: "observeSyncRequestClock (suspend st2 ?m) (dateNow ?m) = (r3, st3)" by fastforce
    note t3 = observe_tick [OF ok2 o3]
    have ok3: "sync_ok st3" and s3: "sync_tick st st3" using t3 s2 sync_tick_ok sync_tick_trans by blast+
    obtain b4 st4 where c3: "syncRequestCanBeAdmitted st3 request (syncRequestClock st3) = Some (b4, st4)"
      "sync_tick st3 st4" "lastSyncResponseAt st4 = lastSyncResponseAt st3"
      "syncRequestClock st4 = syncRequestClock st3"
      "b4 \<longrightarrow> (\<exists>t. asSafeInteger (issuedAtMs request) = Some t \<and> 0 \<le> t \<and>
         syncRequestTimeAllowed t (syncRequestClock st3) \<and>
         jget (syncRequestsSeen st4) (sync_id_of request) = None \<and> jsize (syncRequestsSeen st4) < 128)"
      using canBeAdmitted_tick [OF ok3] by blast
    have s4: "sync_tick st st4" using s3 c3(2) sync_tick_trans by blast
    have last: "lastSyncResponseAt st1 = lastSyncResponseAt st" "lastSyncResponseAt st2 = lastSyncResponseAt st"
      "lastSyncResponseAt st3 = lastSyncResponseAt st" "lastSyncResponseAt st4 = lastSyncResponseAt st"
      using t1 c1(3) t3 c3(3) by simp_all
    have late: "r3 = Some x \<Longrightarrow> x = syncRequestClock st3" for x using t3 by simp
    show ?thesis
      using admit sub o1 Some c1(1) o3 late c3(1,4,5) last t1 s2 s3 s4
      by (auto simp: admitSyncRequest_def admissible_def syncResponseAllowed_def
          split: if_splits bool.splits option.splits)
  qed
qed

lemma isCurrent_tick:
  "sync_ok st \<Longrightarrow> isCurrent st request reading = (b, st') \<Longrightarrow> sync_tick st st'"
  by (auto simp: isCurrent_def dest: observe_tick split: prod.splits option.splits)

lemma publish_tick:
  assumes ok: "sync_ok st" and p: "publishSyncBytes env st payload request m1 m2 = (r, st')"
  shows "sync_tick st st'"
proof -
  obtain b st1 where i1: "isCurrent st request (dateNow m1) = (b, st1)" by fastforce
  have t1: "sync_tick st st1" using isCurrent_tick [OF ok i1] .
  have t2: "sync_tick st (suspend st1 m2)" using t1 suspend_tick sync_tick_ok sync_tick_trans by blast
  obtain b' st2 where i2: "isCurrent (suspend st1 m2) request (dateNow m2) = (b', st2)" by fastforce
  have t3: "sync_tick st st2" using isCurrent_tick [OF sync_tick_ok [OF t2] i2] t2 sync_tick_trans by blast
  show ?thesis using p i1 i2 t1 t2 t3 sync_tick_refl [OF ok]
    by (auto simp: publishSyncBytes_def split: if_splits option.splits)
qed

lemma settle_tick:
  assumes ok: "sync_ok st" and o: "observeSyncRequestClock st reading = (Some t, st')"
  shows "sync_tick st (st'\<lparr>lastSyncResponseAt := t\<rparr>)"
proof -
  have k: "sync_tick st st'" "lastSyncResponseAt st' = lastSyncResponseAt st" "t = syncRequestClock st'"
    using observe_tick [OF ok o] by auto
  have "request_spent (st'\<lparr>lastSyncResponseAt := t\<rparr>) x = request_spent st' x" for x
    by (cases x) (auto split: prod.splits)
  then show ?thesis using k by (auto simp: sync_tick_def sync_ok_def)
qed

lemma dispatch_tick:
  assumes ok: "sync_ok st" and d: "dispatchReply env st request known m1 m2 m3 = (r, st')"
  shows "sync_tick st st'"
proof -
  have t1: "sync_tick st (suspend st m1)" using suspend_tick [OF ok] .
  obtain p st1 where p: "(case lastChange env of
           Some (Some changeId, Some changes) \<Rightarrow>
             (case signReply env changeId changes (if known then None else latestSnapshot env) of
                None \<Rightarrow> (SyncAborted, suspend st m1)
              | Some payload \<Rightarrow> publishSyncBytes env (suspend st m1) payload request m1 m2)
         | _ \<Rightarrow> (SyncAborted, suspend st m1)) = (p, st1)" by fastforce
  have "sync_tick (suspend st m1) st1"
    using p publish_tick [OF sync_tick_ok [OF t1]] sync_tick_refl [OF sync_tick_ok [OF t1]]
    by (auto split: option.splits prod.splits)
  then have u: "sync_tick st st1" by (rule sync_tick_trans [OF t1])
  have t2: "sync_tick st (suspend st1 m3)" by (rule sync_tick_trans [OF u suspend_tick [OF sync_tick_ok [OF u]]])
  obtain s st2 where s: "observeSyncRequestClock (suspend st1 m3) (dateNow m3) = (s, st2)" by fastforce
  have "sync_tick (suspend st1 m3) (case s of None \<Rightarrow> st2 | Some t \<Rightarrow> st2\<lparr>lastSyncResponseAt := t\<rparr>)"
  proof (cases s)
    case None
    then show ?thesis using observe_tick [OF sync_tick_ok [OF t2] s] by simp
  next
    case (Some t)
    then show ?thesis using settle_tick [OF sync_tick_ok [OF t2]] s by simp
  qed
  then have "sync_tick st (case s of None \<Rightarrow> st2 | Some t \<Rightarrow> st2\<lparr>lastSyncResponseAt := t\<rparr>)"
    by (rule sync_tick_trans [OF t2])
  then show ?thesis using d p s by (simp add: dispatchReply_def)
qed

lemma remember_tick:
  assumes ok: "sync_ok st" and a: "admissible env st request now"
    and t: "asSafeInteger (issuedAtMs request) = Some t"
  shows "sync_tick st (st\<lparr>syncRequestsSeen := rememberSyncRequest (syncRequestsSeen st) (sync_id_of request) t,
      lastSyncResponseAt := now\<rparr>) \<and>
    request_spent (st\<lparr>syncRequestsSeen := rememberSyncRequest (syncRequestsSeen st) (sync_id_of request) t,
      lastSyncResponseAt := now\<rparr>) (Some (sync_id_of request, t))"
proof -
  let ?s = "st\<lparr>syncRequestsSeen := jset (syncRequestsSeen st) (sync_id_of request) t, lastSyncResponseAt := now\<rparr>"
  have n: "jget (syncRequestsSeen st) (sync_id_of request) = None" "jsize (syncRequestsSeen st) < 128"
    "0 \<le> t" "syncRequestTimeAllowed t (syncRequestClock st)" "now = syncRequestClock st"
    "now - lastSyncResponseAt st \<ge> 2000"
    using a t by (auto simp: admissible_def)
  have "sync_ok ?s" using ok n by (auto simp: sync_ok_def js_map_simps syncRequestTimeAllowed_def)
  moreover have "request_spent ?s k" if "request_spent st k" for k
    using that n(1) by (cases k) (auto simp: jget_jset split: prod.splits)
  ultimately show ?thesis using n by (auto simp: sync_tick_def rememberSyncRequest_def jget_jset)
qed

lemma handle_tick:
  assumes ok: "sync_ok st" and h: "handleSyncRequest env st request call = (r, st')"
  shows "sync_tick st st' \<and>
    (\<forall>now. fst (admitSyncRequest env st request call) = Inr now \<longrightarrow>
       lastSyncResponseAt st + 2000 \<le> now \<and> now \<le> lastSyncResponseAt st' \<and>
       request_spent st' (map_option (Pair (sync_id_of request)) (asSafeInteger (issuedAtMs request))))"
proof -
  obtain a st1 where a: "admitSyncRequest env st request call = (a, st1)" by fastforce
  note t1 = admit_tick [OF ok a]
  show ?thesis
  proof (cases a)
    case (Inl out)
    then show ?thesis using h a t1 by (simp add: handleSyncRequest_def)
  next
    case (Inr now)
    have ad: "admissible env st1 request now" using t1 Inr by simp
    obtain t where t: "asSafeInteger (issuedAtMs request) = Some t" using ad by (auto simp: admissible_def)
    let ?s = "st1\<lparr>syncRequestsSeen := rememberSyncRequest (syncRequestsSeen st1) (sync_id_of request) t,
      lastSyncResponseAt := now\<rparr>"
    have ok1: "sync_ok st1" using t1 sync_tick_ok by blast
    note r = remember_tick [OF ok1 ad t]
    have d: "sync_tick ?s st'"
      by (rule dispatch_tick [of ?s env request "snapshotKnownOf env request" "signing call" "sealing call"
            "settling call" r])
        (use r sync_tick_ok h a Inr t in \<open>auto simp: handleSyncRequest_def\<close>)
    have "sync_tick st st'" using t1 r d sync_tick_trans by blast
    moreover have "lastSyncResponseAt st + 2000 \<le> now" using ad t1 by (simp add: admissible_def)
    moreover have "now \<le> lastSyncResponseAt st'" using d by (simp add: sync_tick_def)
    moreover have "request_spent st' (Some (sync_id_of request, t))" using sync_tick_spent [OF d] r by blast
    ultimately show ?thesis using a Inr t by simp
  qed
qed

lemma validate_tick:
  assumes ok: "sync_ok st" and v: "validateSyncRequest env st request reading m = (r, st')"
  shows "sync_tick st st'"
proof -
  obtain r1 st1 where o1: "observeSyncRequestClock st reading = (r1, st1)" by fastforce
  have t1: "sync_tick st st1" using observe_tick [OF ok o1] by simp
  have t2: "sync_tick st (suspend st1 m)" by (rule sync_tick_trans [OF t1 suspend_tick [OF sync_tick_ok [OF t1]]])
  obtain r2 st2 where o2: "observeSyncRequestClock (suspend st1 m) (dateNow m) = (r2, st2)" by fastforce
  have "sync_tick (suspend st1 m) st2" using observe_tick [OF sync_tick_ok [OF t2] o2] by simp
  then have t3: "sync_tick st st2" by (rule sync_tick_trans [OF t2])
  show ?thesis using v o1 o2 t1 t2 t3
    by (auto simp: validateSyncRequest_def split: option.splits bool.splits if_splits)
qed

lemma sync_step_tick: "sync_ok st \<Longrightarrow> sync_tick st (sync_step st e)"
proof (cases e)
  case (HandleRequest env request call)
  then show "sync_ok st \<Longrightarrow> ?thesis" using handle_tick [of st env request call] by (metis prod.collapse sync_step.simps(1))
next
  case (ValidateRequest env request reading m)
  then show "sync_ok st \<Longrightarrow> ?thesis" using validate_tick [of st env request reading m]
    by (metis prod.collapse sync_step.simps(2))
next
  case (SetSubscribed b)
  then show "sync_ok st \<Longrightarrow> ?thesis"
    by (auto simp: sync_tick_def sync_ok_def intro: request_spent_clock)
qed

lemma answered_request:
  assumes ok: "sync_ok st" and a: "answered_at st e = Some now"
  shows "request_spent (sync_step st e) (request_key e) \<and> lastSyncResponseAt st + 2000 \<le> now \<and>
    now \<le> lastSyncResponseAt (sync_step st e)"
proof -
  obtain env request call where e: "e = HandleRequest env request call"
    "fst (admitSyncRequest env st request call) = Inr now"
    using a by (cases e) (auto split: sum.splits)
  have "request_key e = map_option (Pair (sync_id_of request)) (asSafeInteger (issuedAtMs request))"
    using e(1) by (cases "asSafeInteger (issuedAtMs request)") auto
  then show ?thesis
    using handle_tick [OF ok, of env request call "fst (handleSyncRequest env st request call)"
        "snd (handleSyncRequest env st request call)"] e by simp
qed

lemma spent_not_answered:
  assumes ok: "sync_ok st" and s: "request_spent st (request_key e)"
  shows "\<not> answers st e"
proof
  assume "answers st e"
  then obtain env request call now where e: "e = HandleRequest env request call"
    "fst (admitSyncRequest env st request call) = Inr now"
    by (cases e) (auto simp: answers_def split: sum.splits)
  obtain st1 where a: "admitSyncRequest env st request call = (Inr now, st1)"
    using e(2) by (metis prod.collapse)
  have ad: "admissible env st1 request now" and t1: "sync_tick st st1" using admit_tick [OF ok a] by auto
  then obtain t where t: "asSafeInteger (issuedAtMs request) = Some t"
    "syncRequestTimeAllowed t (syncRequestClock st1)" "jget (syncRequestsSeen st1) (sync_id_of request) = None"
    by (auto simp: admissible_def)
  have "request_spent st1 (Some (sync_id_of request, t))"
    using sync_tick_spent [OF t1 s] e(1) t(1) by simp
  then show False using t(2,3) by (simp add: syncRequestTimeAllowed_def)
qed

interpretation requests: replay_ledger sync_step answers request_key sync_ok "\<lambda>_. True" request_spent
proof unfold_locales
  fix s e k
  show "sync_ok s \<Longrightarrow> sync_ok (sync_step s e)" using sync_step_tick sync_tick_ok by blast
  show "sync_ok s \<Longrightarrow> answers s e \<Longrightarrow> request_spent (sync_step s e) (request_key e)"
    using answered_request by (auto simp: answers_def)
  show "sync_ok s \<Longrightarrow> request_spent s k \<Longrightarrow> request_spent (sync_step s e) k"
    using sync_step_tick sync_tick_spent by blast
  show "sync_ok s \<Longrightarrow> request_spent s (request_key e) \<Longrightarrow> \<not> answers s e" by (rule spent_not_answered)
qed


section \<open>Properties\<close>

lemma initial_sync_ok: "sync_ok initialSyncState"
  by (simp add: sync_ok_def initialSyncState_def)

lemma sync_run_ok: "sync_ok st \<Longrightarrow> sync_ok (foldl sync_step st es)"
  by (induction es arbitrary: st) (auto intro: requests.good_step)

text \<open>
  C8: A signed sync request is answered at most once. In every sequence of
  handled requests, validated packets, openings and closings, with any clock
  readings, no two answers are for the same requester, identifier and issue
  time; forgetting an expired request never lets it be answered again.
\<close>

theorem sync_request_once:
  "distinct (admissions sync_step answers request_key initialSyncState es)"
  using requests.once [OF initial_sync_ok] by simp

lemma answer_times_late:
  "sync_ok st \<Longrightarrow> t \<in> set (answer_times st es) \<Longrightarrow> lastSyncResponseAt st + 2000 \<le> t"
proof (induction es arbitrary: st)
  case (Cons e es)
  have k: "sync_tick st (sync_step st e)" using Cons.prems(1) by (rule sync_step_tick)
  have "t \<in> set (answer_times (sync_step st e) es) \<Longrightarrow> ?case"
    using Cons.IH [OF sync_tick_ok [OF k]] k by (simp add: sync_tick_def)
  moreover have "answered_at st e = Some t \<Longrightarrow> ?case" using answered_request [OF Cons.prems(1)] by blast
  ultimately show ?case using Cons.prems(2) by (auto split: option.splits)
qed simp

lemma answer_times_spaced:
  "sync_ok st \<Longrightarrow> sorted_wrt (\<lambda>a b. a + 2000 \<le> b) (answer_times st es)"
proof (induction es arbitrary: st)
  case (Cons e es)
  have k: "sync_ok (sync_step st e)" using Cons.prems by (rule requests.good_step) simp
  have "a + 2000 \<le> b" if "answered_at st e = Some a" "b \<in> set (answer_times (sync_step st e) es)" for a b
    using answered_request [OF Cons.prems that(1)] answer_times_late [OF k that(2)] by simp
  then show ?case using Cons.IH [OF k] by (auto split: option.splits)
qed simp

text \<open>
  C10: Answers are rate limited. In every sequence of events the times of the
  document clock at which sync requests are answered lie at least 2000
  milliseconds apart, whatever the wall clock does.
\<close>

theorem sync_answers_rate_limited:
  "sorted_wrt (\<lambda>a b. a + 2000 \<le> b) (answer_times initialSyncState es)"
  using answer_times_spaced [OF initial_sync_ok] .

text \<open>
  C11: The replay memory is bounded. After any sequence of events the ledger has
  at most 128 entries, one per request identifier, none of them issued more than
  30 seconds ahead of the document clock, and the clock is never behind the last
  answer.
\<close>

theorem sync_ledger_bounded:
  "jsize (syncRequestsSeen (foldl sync_step initialSyncState es)) \<le> 128 \<and>
   distinct (jkeys (syncRequestsSeen (foldl sync_step initialSyncState es))) \<and>
   (\<forall>t \<in> set (jvals (syncRequestsSeen (foldl sync_step initialSyncState es))).
      0 \<le> t \<and> t \<le> syncRequestClock (foldl sync_step initialSyncState es) + 30000) \<and>
   lastSyncResponseAt (foldl sync_step initialSyncState es) \<le>
     syncRequestClock (foldl sync_step initialSyncState es)"
proof -
  have ok: "sync_ok (foldl sync_step initialSyncState es)" by (rule sync_run_ok [OF initial_sync_ok])
  then have "jwf (syncRequestsSeen (foldl sync_step initialSyncState es))" by (simp add: sync_ok_def)
  from jget_eq_Some_iff [OF this] ok show ?thesis
    by (auto simp: sync_ok_def jvals_def jwf_def)
qed

definition sample_moment :: "int \<Rightarrow> moment" where
  "sample_moment t = \<lparr>dateNow = js_int t, closedMeanwhile = False\<rparr>"

definition sample_sync_call :: "int \<Rightarrow> sync_call" where
  "sample_sync_call t = \<lparr>arrival = sample_moment t, verification = sample_moment t,
     signing = sample_moment t, sealing = sample_moment t, settling = sample_moment t\<rparr>"

definition sample_sync_request :: SyncRequest where
  "sample_sync_request = \<lparr>syncDocumentId = ''/d'', requester = ''r'', syncRequestId = ''1'',
     issuedAtMs = js_int 5000, knownTips = [''a''], knownSnapshots = [], syncSignature = ''s''\<rparr>"

definition sample_sync_env :: "nat sync_env" where
  "sample_sync_env = \<lparr>documentPath = ''/d'', signingEnabled = True, writerUsers = [1], readerUsers = [2],
     serializePublicKey = (\<lambda>k. if k = 2 then ''r'' else ''w''), unsignedBytes = (\<lambda>_. [0]),
     verifies = (\<lambda>b k s. s = ''s''), selfIsWriter = True, lastChange = Some (Some ''b'', Some [7]),
     latestSnapshot = None, snapshotHint = (\<lambda>_. ''h''), signReply = (\<lambda>i c s. Some c),
     sealFrame = Some\<rparr>"

definition sample_sync_events :: "nat sync_event list" where
  "sample_sync_events = [SetSubscribed True,
     HandleRequest sample_sync_env sample_sync_request (sample_sync_call 6000),
     HandleRequest sample_sync_env sample_sync_request (sample_sync_call 9000)]"

theorem sync_ledger_bounded_witness:
  "jsize (syncRequestsSeen (foldl sync_step initialSyncState sample_sync_events)) \<le> 128 \<and>
   admissions sync_step answers request_key initialSyncState sample_sync_events =
     [Some ((''r'', ''1''), 5000)]"
proof
  show "jsize (syncRequestsSeen (foldl sync_step initialSyncState sample_sync_events)) \<le> 128"
    using sync_ledger_bounded [of sample_sync_events] by blast
  show "admissions sync_step answers request_key initialSyncState sample_sync_events =
     [Some ((''r'', ''1''), 5000)]" by code_simp
qed

lemma scan_member:
  "verifySyncRequest_scan ser who ks = Some k \<Longrightarrow> k \<in> set ks \<and> ser k = who"
  by (induction ser who ks rule: verifySyncRequest_scan.induct) (auto split: if_splits)

lemma isCurrent_fresh:
  "isCurrent st request reading = (True, st') \<Longrightarrow>
   subscribed st \<and> isSyncRequestFresh request (syncRequestClock st')"
  by (auto simp: isCurrent_def observe_eq split: option.splits if_splits)

lemma publish_fresh:
  assumes ok: "sync_ok st" and p: "publishSyncBytes env st payload request m1 m2 = (SyncPublished frame, st')"
  shows "subscribed st \<and> isSyncRequestFresh request (syncRequestClock st')"
proof -
  obtain b st1 where i1: "isCurrent st request (dateNow m1) = (b, st1)" by fastforce
  obtain b' st2 where i2: "isCurrent (suspend st1 m2) request (dateNow m2) = (b', st2)" by fastforce
  have b: "b = True" "b' = True" "st2 = st'"
    using p i1 i2 by (auto simp: publishSyncBytes_def split: if_splits option.splits)
  show ?thesis using isCurrent_fresh i1 i2 b by blast
qed

lemma dispatch_fresh:
  assumes ok: "sync_ok st" and d: "dispatchReply env st request known m1 m2 m3 = (SyncPublished frame, st')"
  shows "\<exists>now. isSyncRequestFresh request now \<and> syncRequestClock st \<le> now \<and> now \<le> syncRequestClock st'"
proof -
  have t1: "sync_tick st (suspend st m1)" using suspend_tick [OF ok] .
  obtain payload st1 where p: "publishSyncBytes env (suspend st m1) payload request m1 m2 = (SyncPublished frame, st1)"
    "syncRequestClock st1 \<le> syncRequestClock st'"
  proof (cases "lastChange env")
    case (Some lc)
    then show ?thesis using d that
      by (cases lc) (auto simp: dispatchReply_def observe_eq Let_def split: option.splits prod.splits if_splits)
  qed (use d in \<open>simp add: dispatchReply_def split: prod.splits option.splits\<close>)
  have "isSyncRequestFresh request (syncRequestClock st1)" using publish_fresh [OF sync_tick_ok [OF t1] p(1)] by simp
  moreover have "sync_tick (suspend st m1) st1" using publish_tick [OF sync_tick_ok [OF t1] p(1)] .
  ultimately show ?thesis using p(2) by (auto simp: sync_tick_def)
qed

lemma verify_member:
  "verifySyncRequest env request = Some True \<Longrightarrow>
   syncDocumentId request = documentPath env \<and> signingEnabled env \<and>
   (\<exists>k \<in> set (writerUsers env @ readerUsers env). serializePublicKey env k = requester request \<and>
      verifies env (unsignedBytes env request) k (syncSignature request))"
  by (auto simp: verifySyncRequest_def split: if_splits option.splits dest!: scan_member)

text \<open>
  C9: What is published answers a legitimate request. When the handler
  publishes a frame, the request names this document, its requester is a current
  reader or writer whose signature over the request verifies, the local user is
  a writer, the requester lacks the last change or the latest snapshot, and at
  the document time of the dispatch the request is at most a minute old and at
  most thirty seconds in the future.
\<close>

theorem sync_answer_authorized:
  assumes "handleSyncRequest env (foldl sync_step initialSyncState es) request call = (SyncPublished frame, st')"
  shows "syncDocumentId request = documentPath env \<and> signingEnabled env \<and>
    (\<exists>k \<in> set (writerUsers env @ readerUsers env). serializePublicKey env k = requester request \<and>
       verifies env (unsignedBytes env request) k (syncSignature request)) \<and>
    selfIsWriter env \<and>
    (\<not> changeKnownOf env request \<or> (latestSnapshot env \<noteq> None \<and> \<not> snapshotKnownOf env request)) \<and>
    (\<exists>now. isSyncRequestFresh request now \<and>
       syncRequestClock (foldl sync_step initialSyncState es) \<le> now \<and> now \<le> syncRequestClock st')"
proof -
  let ?st = "foldl sync_step initialSyncState es"
  have ok: "sync_ok ?st" by (rule sync_run_ok [OF initial_sync_ok])
  obtain a st1 where a: "admitSyncRequest env ?st request call = (a, st1)" by fastforce
  note t1 = admit_tick [OF ok a]
  have ok1: "sync_ok st1" using t1 sync_tick_ok by blast
  have not_published: "a \<noteq> Inl (SyncPublished frame)"
    using a by (auto simp: admitSyncRequest_def split: if_splits option.splits prod.splits bool.splits)
  then obtain now where Inr: "a = Inr now"
    using assms a by (cases a) (auto simp: handleSyncRequest_def)
  have ad: "admissible env st1 request now" using t1 Inr by simp
  then obtain t where t: "asSafeInteger (issuedAtMs request) = Some t" by (auto simp: admissible_def)
  note r = remember_tick [OF ok1 ad t]
  have "\<exists>now. isSyncRequestFresh request now \<and> syncRequestClock st1 \<le> now \<and> now \<le> syncRequestClock st'"
    using dispatch_fresh [OF sync_tick_ok [OF conjunct1 [OF r]]] assms a Inr t
    by (simp add: handleSyncRequest_def)
  then have "\<exists>now. isSyncRequestFresh request now \<and> syncRequestClock ?st \<le> now \<and> now \<le> syncRequestClock st'"
    using t1 by (fastforce simp: sync_tick_def)
  then show ?thesis using verify_member ad unfolding admissible_def by blast
qed

theorem sync_answer_authorized_witness:
  "fst (handleSyncRequest sample_sync_env (foldl sync_step initialSyncState [SetSubscribed True])
     sample_sync_request (sample_sync_call 6000)) = SyncPublished [7] \<and>
   syncDocumentId sample_sync_request = documentPath sample_sync_env"
proof
  show p: "fst (handleSyncRequest sample_sync_env (foldl sync_step initialSyncState [SetSubscribed True])
     sample_sync_request (sample_sync_call 6000)) = SyncPublished [7]" by code_simp
  show "syncDocumentId sample_sync_request = documentPath sample_sync_env"
    by (rule conjunct1 [OF sync_answer_authorized [OF prod_eqI [OF trans [OF p fst_conv [symmetric]] snd_conv [symmetric]]]])
qed

end
