(* ===== verification/Lru_Cache.thy ===== *)
theory Lru_Cache
  imports Js_Prelude
begin

text \<open>
  \<open>packages/core/src/lru-cache.ts\<close>: a bounded map in insertion order whose writes
  can be staged. A staged batch is a map object of its own; the finalizer that
  \<open>prepareSetMany\<close> returns puts it over the backing map, and the next operation
  that needs the backing map merges it. The objects are numbered: \<open>preparedMaps\<close>
  is the store of the staged maps, \<open>finalizedFlags\<close> the flag each finalizer
  closes over. The weak reference \<open>_pendingEntries\<close> reads as \<open>None\<close> once its
  target is collected, which can only happen to a map whose finalizer has been
  dropped.

  The specification is the textbook cache, one list from least to most recently
  used with a bound on its length; the last section shows that the class cannot
  be told from it.
\<close>


section \<open>Definitions\<close>

record ('k, 'v) lru =
  lruMap :: "('k, 'v) jsmap"
  maxSize :: nat
  finalizedEntries :: "nat option"
  pendingEntries :: "nat option"
  finalizedSize :: "nat option"
  preparedMaps :: "('k, 'v) jsmap list"
  finalizedFlags :: "bool list"

datatype lru_error = LruRangeError

definition newLRUCache :: "js_number \<Rightarrow> lru_error + ('k, 'v) lru" where
  "newLRUCache n =
     (case n of
        Fin r \<Rightarrow>
          if r < 1 then Inl LruRangeError
          else Inr \<lparr>lruMap = [], maxSize = nat \<lfloor>r\<rfloor>, finalizedEntries = None, pendingEntries = None,
                    finalizedSize = None, preparedMaps = [], finalizedFlags = []\<rparr>
      | _ \<Rightarrow> Inl LruRangeError)"

text \<open>\<open>map.keys().next().value\<close> of a full map; a full map is not empty.\<close>

definition setMapEntry :: "nat \<Rightarrow> ('k, 'v) jsmap \<Rightarrow> 'k \<times> 'v \<Rightarrow> ('k, 'v) jsmap" where
  "setMapEntry limit m e =
     (if jhas m (fst e) then jset (jdel m (fst e)) (fst e) (snd e)
      else if jsize m \<ge> limit then
        (case m of [] \<Rightarrow> jset m (fst e) (snd e) | first # _ \<Rightarrow> jset (jdel m (fst first)) (fst e) (snd e))
      else jset m (fst e) (snd e))"

definition materializeFinalizedEntries :: "('k, 'v) lru \<Rightarrow> ('k, 'v) lru" where
  "materializeFinalizedEntries c =
     (case finalizedEntries c of
        None \<Rightarrow> c
      | Some i \<Rightarrow>
          c\<lparr>lruMap := foldl (setMapEntry (maxSize c)) (lruMap c) (preparedMaps c ! i),
            finalizedEntries := None,
            pendingEntries := (if pendingEntries c = Some i then None else pendingEntries c)\<rparr>)"

definition lruGet :: "('k, 'v) lru \<Rightarrow> 'k \<Rightarrow> 'v option \<times> ('k, 'v) lru" where
  "lruGet c key =
     (case finalizedEntries c of
        Some i \<Rightarrow>
          (case jget (preparedMaps c ! i) key of
             Some v \<Rightarrow>
               (Some v, c\<lparr>preparedMaps := (preparedMaps c)[i := jset (jdel (preparedMaps c ! i) key) key v]\<rparr>)
           | None \<Rightarrow>
               (let c1 = materializeFinalizedEntries c
                in case jget (lruMap c1) key of
                     Some v \<Rightarrow> (Some v, c1\<lparr>lruMap := jset (jdel (lruMap c1) key) key v\<rparr>)
                   | None \<Rightarrow> (None, c1)))
      | None \<Rightarrow>
          (case jget (lruMap c) key of
             Some v \<Rightarrow> (Some v, c\<lparr>lruMap := jset (jdel (lruMap c) key) key v\<rparr>)
           | None \<Rightarrow> (None, c)))"

definition lruSet :: "('k, 'v) lru \<Rightarrow> 'k \<Rightarrow> 'v \<Rightarrow> ('k, 'v) lru" where
  "lruSet c key v =
     (let c1 = materializeFinalizedEntries c;
          c2 = (case pendingEntries c1 of
                  None \<Rightarrow> c1
                | Some i \<Rightarrow> c1\<lparr>preparedMaps := (preparedMaps c1)[i := jdel (preparedMaps c1 ! i) key]\<rparr>)
      in c2\<lparr>lruMap := setMapEntry (maxSize c2) (lruMap c2) (key, v)\<rparr>)"

text \<open>The number of the staged map stands for the finalizer that is returned.\<close>

definition prepareSetMany :: "('k, 'v) lru \<Rightarrow> ('k, 'v) jsmap \<Rightarrow> nat \<times> ('k, 'v) lru" where
  "prepareSetMany c entries =
     (let c1 = materializeFinalizedEntries c;
          prepared = foldl (setMapEntry (maxSize c1)) [] entries;
          i = length (preparedMaps c1)
      in (i, c1\<lparr>preparedMaps := preparedMaps c1 @ [prepared],
               finalizedFlags := finalizedFlags c1 @ [False],
               pendingEntries := Some i\<rparr>))"

definition prepareSet :: "('k, 'v) lru \<Rightarrow> 'k \<Rightarrow> 'v \<Rightarrow> nat \<times> ('k, 'v) lru" where
  "prepareSet c key v = prepareSetMany c [(key, v)]"

definition finalizePrepared :: "('k, 'v) lru \<Rightarrow> nat \<Rightarrow> ('k, 'v) lru" where
  "finalizePrepared c i =
     (if finalizedFlags c ! i then c
      else c\<lparr>finalizedEntries := Some i, finalizedSize := None,
             finalizedFlags := (finalizedFlags c)[i := True]\<rparr>)"

definition lruHas :: "('k, 'v) lru \<Rightarrow> 'k \<Rightarrow> bool \<times> ('k, 'v) lru" where
  "lruHas c key =
     (case finalizedEntries c of
        Some i \<Rightarrow>
          if jhas (preparedMaps c ! i) key then (True, c)
          else (let c1 = materializeFinalizedEntries c in (jhas (lruMap c1) key, c1))
      | None \<Rightarrow> (jhas (lruMap c) key, c))"

fun countAdditions :: "('k, 'v) jsmap \<Rightarrow> 'k list \<Rightarrow> nat" where
  "countAdditions m [] = 0"
| "countAdditions m (k # ks) = (if \<not> jhas m k then 1 else 0) + countAdditions m ks"

definition lruSize :: "('k, 'v) lru \<Rightarrow> nat \<times> ('k, 'v) lru" where
  "lruSize c =
     (case finalizedEntries c of
        None \<Rightarrow> (jsize (lruMap c), c)
      | Some i \<Rightarrow>
          (case finalizedSize c of
             Some n \<Rightarrow> (n, c)
           | None \<Rightarrow>
               (let n = min (maxSize c) (jsize (lruMap c) + countAdditions (lruMap c) (jkeys (preparedMaps c ! i)))
                in (n, c\<lparr>finalizedSize := Some n\<rparr>))))"

text \<open>
  The operations as events. Dropping a finalizer lets its staged map be
  collected.
\<close>

datatype ('k, 'v) lru_event =
    LGet 'k | LSet 'k 'v | LHas 'k | LSize | LPrepare "('k, 'v) jsmap" | LFinalize nat | LAbandon

datatype 'v lru_output = OValue "'v option" | OBool bool | OSize nat | OFinalizer nat | OVoid

fun lru_step :: "('k, 'v) lru \<Rightarrow> ('k, 'v) lru_event \<Rightarrow> 'v lru_output \<times> ('k, 'v) lru" where
  "lru_step c (LGet k) = (OValue (fst (lruGet c k)), snd (lruGet c k))"
| "lru_step c (LSet k v) = (OVoid, lruSet c k v)"
| "lru_step c (LHas k) = (OBool (fst (lruHas c k)), snd (lruHas c k))"
| "lru_step c LSize = (OSize (fst (lruSize c)), snd (lruSize c))"
| "lru_step c (LPrepare es) = (OFinalizer (fst (prepareSetMany c es)), snd (prepareSetMany c es))"
| "lru_step c (LFinalize i) = (OVoid, finalizePrepared c i)"
| "lru_step c LAbandon = (OVoid, c\<lparr>pendingEntries := None\<rparr>)"

text \<open>
  The discipline the class documents: a staged batch is finalized only while it
  is the last one prepared and its finalizer has not been dropped; calling a
  finalizer again is allowed. A batch is a \<open>Map\<close>, so its keys are distinct.
\<close>

fun lru_legal :: "('k, 'v) lru \<Rightarrow> ('k, 'v) lru_event \<Rightarrow> bool" where
  "lru_legal c (LPrepare es) = jwf es"
| "lru_legal c (LFinalize i) \<longleftrightarrow> i < length (finalizedFlags c) \<and> (finalizedFlags c ! i \<or> pendingEntries c = Some i)"
| "lru_legal c LAbandon \<longleftrightarrow> (case pendingEntries c of None \<Rightarrow> True | Some i \<Rightarrow> \<not> finalizedFlags c ! i)"
| "lru_legal c _ = True"

fun lru_outputs :: "('k, 'v) lru \<Rightarrow> ('k, 'v) lru_event list \<Rightarrow> 'v lru_output list" where
  "lru_outputs c [] = []"
| "lru_outputs c (e # es) = fst (lru_step c e) # lru_outputs (snd (lru_step c e)) es"

fun lru_legal_run :: "('k, 'v) lru \<Rightarrow> ('k, 'v) lru_event list \<Rightarrow> bool" where
  "lru_legal_run c [] = True"
| "lru_legal_run c (e # es) \<longleftrightarrow> lru_legal c e \<and> lru_legal_run (snd (lru_step c e)) es"


section \<open>The specification\<close>

definition lastn :: "nat \<Rightarrow> 'a list \<Rightarrow> 'a list" where
  "lastn n xs = drop (length xs - n) xs"

record ('k, 'v) lru_spec =
  specEntries :: "('k, 'v) jsmap"
  specLimit :: nat
  specStaged :: "(nat \<times> ('k, 'v) jsmap) option"
  specPrepared :: nat

definition without :: "('k, 'v) jsmap \<Rightarrow> 'k set \<Rightarrow> ('k, 'v) jsmap" where
  "without m ks = filter (\<lambda>e. fst e \<notin> ks) m"

definition put_all :: "nat \<Rightarrow> ('k, 'v) jsmap \<Rightarrow> ('k, 'v) jsmap \<Rightarrow> ('k, 'v) jsmap" where
  "put_all limit m es = lastn limit (without m (fst ` set es) @ es)"

fun lru_spec_step :: "('k, 'v) lru_spec \<Rightarrow> ('k, 'v) lru_event \<Rightarrow> 'v lru_output \<times> ('k, 'v) lru_spec" where
  "lru_spec_step s (LGet k) =
     (OValue (jget (specEntries s) k),
      case jget (specEntries s) k of
        None \<Rightarrow> s
      | Some v \<Rightarrow> s\<lparr>specEntries := without (specEntries s) {k} @ [(k, v)]\<rparr>)"
| "lru_spec_step s (LSet k v) =
     (OVoid, s\<lparr>specEntries := put_all (specLimit s) (specEntries s) [(k, v)],
               specStaged := map_option (\<lambda>(i, es). (i, without es {k})) (specStaged s)\<rparr>)"
| "lru_spec_step s (LHas k) = (OBool (jget (specEntries s) k \<noteq> None), s)"
| "lru_spec_step s LSize = (OSize (length (specEntries s)), s)"
| "lru_spec_step s (LPrepare es) =
     (OFinalizer (specPrepared s),
      s\<lparr>specStaged := Some (specPrepared s, lastn (specLimit s) es), specPrepared := Suc (specPrepared s)\<rparr>)"
| "lru_spec_step s (LFinalize i) =
     (OVoid,
      case specStaged s of
        None \<Rightarrow> s
      | Some (j, es) \<Rightarrow>
          if i = j then s\<lparr>specEntries := put_all (specLimit s) (specEntries s) es, specStaged := None\<rparr> else s)"
| "lru_spec_step s LAbandon = (OVoid, s\<lparr>specStaged := None\<rparr>)"

fun lru_spec_outputs :: "('k, 'v) lru_spec \<Rightarrow> ('k, 'v) lru_event list \<Rightarrow> 'v lru_output list" where
  "lru_spec_outputs s [] = []"
| "lru_spec_outputs s (e # es) = fst (lru_spec_step s e) # lru_spec_outputs (snd (lru_spec_step s e)) es"

definition emptySpec :: "nat \<Rightarrow> ('k, 'v) lru_spec" where
  "emptySpec n = \<lparr>specEntries = [], specLimit = n, specStaged = None, specPrepared = 0\<rparr>"


section \<open>Suffixes and merged maps\<close>

lemma lastn_short: "length xs \<le> n \<Longrightarrow> lastn n xs = xs"
  by (simp add: lastn_def)

lemma length_lastn [simp]: "length (lastn n xs) = min n (length xs)"
  by (auto simp: lastn_def)

lemma lastn_append_short: "n \<le> length ys \<Longrightarrow> lastn n (xs @ ys) = lastn n ys"
  by (simp add: lastn_def)

lemma set_lastn: "set (lastn n xs) \<subseteq> set xs"
  by (simp add: lastn_def set_drop_subset)

lemma lastn_cut: "n \<le> length xs \<Longrightarrow> xs = take (length xs - n) xs @ lastn n xs"
  by (simp add: lastn_def)

lemma without_simps [simp]:
  "without [] ks = []" "without (m @ n) ks = without m ks @ without n ks"
  by (simp_all add: without_def)

lemma without_without: "without (without m a) b = without m (a \<union> b)"
  by (simp add: without_def conj_commute)

lemma jwf_without: "jwf m \<Longrightarrow> jwf (without m ks)"
  by (simp add: jwf_def jkeys_def without_def distinct_map_filter)

lemma jwf_append:
  "jwf (m @ n) \<longleftrightarrow> jwf m \<and> jwf n \<and> fst ` set m \<inter> fst ` set n = {}"
  by (auto simp: jwf_def jkeys_def)

lemma jwf_drop: "jwf m \<Longrightarrow> jwf (drop i m)"
  by (metis append_take_drop_id jwf_append)

lemma jwf_lastn: "jwf m \<Longrightarrow> jwf (lastn n m)"
  by (simp add: lastn_def jwf_drop)

lemma jwf_put_all:
  assumes "jwf m" and "jwf es"
  shows "jwf (put_all limit m es)"
proof -
  have "jwf (without m (fst ` set es) @ es)"
    using assms by (auto simp: jwf_append jwf_without) (force simp: without_def)
  then show ?thesis by (simp add: put_all_def jwf_lastn)
qed

lemma length_put_all: "length (put_all limit m es) \<le> limit"
  by (simp add: put_all_def)

lemma jdel_without: "jdel m k = without m {k}"
  by (simp add: jdel_def without_def)

lemma without_absent: "k \<notin> fst ` set m \<Longrightarrow> without m {k} = m"
  by (induction m) (auto simp: without_def)

lemma refresh_eq: "jset (jdel m k) k v = without m {k} @ [(k, v)]"
  by (simp add: jdel_without) (rule jset_fresh, auto simp: jget_None_iff without_def)

lemma length_without_present:
  "jwf m \<Longrightarrow> k \<in> fst ` set m \<Longrightarrow> Suc (length (without m {k})) = length m"
  using es_map.count_remove_known [of m k]
  by (simp add: jdel_without jkeys_def jget_None_iff)

text \<open>One insertion is the textbook update.\<close>

lemma setMapEntry_put:
  assumes wf: "jwf m" and len: "length m \<le> limit" and pos: "1 \<le> limit"
  shows "setMapEntry limit m e = put_all limit m [e]"
proof (cases "fst e \<in> fst ` set m")
  case True
  have "Suc (length (without m {fst e})) = length m" by (rule length_without_present [OF wf True])
  then have "put_all limit m [e] = without m {fst e} @ [e]"
    using len by (simp add: put_all_def lastn_short)
  then show ?thesis using True by (simp add: setMapEntry_def jhas_def jget_None_iff refresh_eq)
next
  case False
  have w: "without m {fst e} = m" by (rule without_absent [OF False])
  have none: "jget m (fst e) = None" using False by (simp add: jget_None_iff)
  show ?thesis
  proof (cases "length m < limit")
    case True
    then show ?thesis using none w
      by (simp add: setMapEntry_def jhas_def jsize_def put_all_def lastn_short jset_fresh)
  next
    case full: False
    then obtain a m' where m: "m = a # m'" using len pos by (cases m) auto
    have "fst a \<notin> fst ` set m'" using wf m by (simp add: jwf_def jkeys_def)
    then have "without (a # m') {fst a} = m'" using without_absent [of "fst a" m'] by (simp add: without_def)
    moreover have "jget m' (fst e) = None" using none m by (simp add: jget_None_iff)
    ultimately show ?thesis using none w m full len
      by (simp add: setMapEntry_def jhas_def jsize_def put_all_def jset_fresh jdel_without lastn_def)
  qed
qed

lemma lastn_merge:
  assumes "length (filter (\<lambda>x. \<not> P x) (lastn n xs)) \<le> length ys"
  shows "lastn n (filter P (lastn n xs) @ ys) = lastn n (filter P xs @ ys)"
proof (cases "n \<le> length xs")
  case True
  let ?a = "take (length xs - n) xs" and ?b = "lastn n xs"
  have "xs = ?a @ ?b" using True by (rule lastn_cut)
  then have "filter P xs = filter P ?a @ filter P ?b" by (metis filter_append)
  moreover have "n \<le> length (filter P ?b @ ys)"
    using assms sum_length_filter_compl [of P ?b] True by simp
  ultimately show ?thesis by (simp add: lastn_append_short)
next
  case False
  then show ?thesis by (simp add: lastn_short)
qed

lemma put_all_Cons:
  assumes wf: "jwf m" and ok: "jwf (e # es)"
  shows "put_all limit (put_all limit m [e]) es = put_all limit m (e # es)"
proof -
  let ?K = "fst ` set es" and ?xs = "without m {fst e} @ [e]"
  have e: "fst e \<notin> ?K" and es: "jwf es" using ok by (auto simp: jwf_def jkeys_def)
  have wfx: "jwf ?xs" using jwf_without [OF wf] by (auto simp: jwf_append) (auto simp: jwf_def jkeys_def without_def)
  let ?hit = "filter (\<lambda>x. \<not> fst x \<notin> ?K) (lastn limit ?xs)"
  have "distinct (map fst ?hit)" using jwf_lastn [OF wfx] by (simp add: jwf_def jkeys_def distinct_map_filter)
  moreover have "set (map fst ?hit) \<subseteq> ?K" by auto
  ultimately have "length ?hit \<le> card ?K"
    by (metis List.finite_set card_mono distinct_card finite_imageI length_map)
  then have "length ?hit \<le> length es"
    using card_image_le [of "set es" fst] card_length [of es] by (meson List.finite_set le_trans)
  then have "lastn limit (without (lastn limit ?xs) ?K @ es) = lastn limit (without ?xs ?K @ es)"
    unfolding without_def by (rule lastn_merge)
  moreover have "without ?xs ?K = without m (insert (fst e) ?K) @ [e]"
    using e by (simp add: without_without) (simp add: without_def)
  ultimately have "lastn limit (without (lastn limit ?xs) ?K @ es) =
      lastn limit (without m (insert (fst e) ?K) @ e # es)" by (simp only: append_assoc append_Cons append_Nil)
  then show ?thesis by (simp add: put_all_def)
qed

lemma foldl_setMapEntry:
  assumes "jwf m" "length m \<le> limit" "1 \<le> limit" "jwf es"
  shows "foldl (setMapEntry limit) m es = put_all limit m es"
  using assms
proof (induction es arbitrary: m)
  case Nil
  then show ?case by (simp add: put_all_def lastn_short without_def)
next
  case (Cons e es)
  have es: "jwf es" using Cons.prems(4) by (simp add: jwf_def jkeys_def)
  have one: "jwf (put_all limit m [e])"
    by (rule jwf_put_all [OF Cons.prems(1)]) (simp add: jwf_def jkeys_def)
  show ?case
    using Cons.IH [OF one length_put_all Cons.prems(3) es] put_all_Cons [OF Cons.prems(1,4)]
      setMapEntry_put [OF Cons.prems(1-3)] by simp
qed


section \<open>The simulation\<close>

definition lru_view :: "('k, 'v) lru \<Rightarrow> ('k, 'v) jsmap" where
  "lru_view c =
     (case finalizedEntries c of
        None \<Rightarrow> lruMap c
      | Some i \<Rightarrow> put_all (maxSize c) (lruMap c) (preparedMaps c ! i))"

definition lru_staged :: "('k, 'v) lru \<Rightarrow> (nat \<times> ('k, 'v) jsmap) option" where
  "lru_staged c =
     (case pendingEntries c of
        None \<Rightarrow> None
      | Some i \<Rightarrow> if finalizedFlags c ! i then None else Some (i, preparedMaps c ! i))"

definition lru_ok :: "('k, 'v) lru \<Rightarrow> bool" where
  "lru_ok c \<longleftrightarrow> 1 \<le> maxSize c \<and> jwf (lruMap c) \<and> length (lruMap c) \<le> maxSize c \<and>
     length (preparedMaps c) = length (finalizedFlags c) \<and>
     (\<forall>i < length (preparedMaps c). jwf (preparedMaps c ! i) \<and> length (preparedMaps c ! i) \<le> maxSize c) \<and>
     (\<forall>i. pendingEntries c = Some i \<longrightarrow>
        i < length (finalizedFlags c) \<and> (finalizedFlags c ! i \<longleftrightarrow> finalizedEntries c = Some i)) \<and>
     (\<forall>i. finalizedEntries c = Some i \<longrightarrow> pendingEntries c = Some i) \<and>
     (\<forall>i n. finalizedEntries c = Some i \<longrightarrow> finalizedSize c = Some n \<longrightarrow> n = length (lru_view c))"

definition lru_sim :: "('k, 'v) lru \<Rightarrow> ('k, 'v) lru_spec \<Rightarrow> bool" where
  "lru_sim c s \<longleftrightarrow> lru_ok c \<and> specEntries s = lru_view c \<and> specLimit s = maxSize c \<and>
     specStaged s = lru_staged c \<and> specPrepared s = length (finalizedFlags c)"

lemma lru_ok_overlay:
  assumes "lru_ok c" and "finalizedEntries c = Some i"
  shows "jwf (preparedMaps c ! i)" "length (preparedMaps c ! i) \<le> maxSize c" "pendingEntries c = Some i"
    "i < length (preparedMaps c)" "finalizedFlags c ! i"
  using assms by (auto simp: lru_ok_def)

lemma lru_ok_map: "lru_ok c \<Longrightarrow> 1 \<le> maxSize c" "lru_ok c \<Longrightarrow> jwf (lruMap c)"
  "lru_ok c \<Longrightarrow> length (lruMap c) \<le> maxSize c"
  by (simp_all add: lru_ok_def)

lemma materialize_sim:
  assumes "lru_ok c"
  shows "lru_ok (materializeFinalizedEntries c)"
    and "finalizedEntries (materializeFinalizedEntries c) = None"
    and "lruMap (materializeFinalizedEntries c) = lru_view c"
    and "lru_staged (materializeFinalizedEntries c) = lru_staged c"
    and "maxSize (materializeFinalizedEntries c) = maxSize c"
    and "finalizedFlags (materializeFinalizedEntries c) = finalizedFlags c"
proof -
  have "lru_ok (materializeFinalizedEntries c) \<and> finalizedEntries (materializeFinalizedEntries c) = None \<and>
    lruMap (materializeFinalizedEntries c) = lru_view c \<and>
    lru_staged (materializeFinalizedEntries c) = lru_staged c \<and>
    maxSize (materializeFinalizedEntries c) = maxSize c \<and>
    finalizedFlags (materializeFinalizedEntries c) = finalizedFlags c"
  proof (cases "finalizedEntries c")
    case None
    then show ?thesis using assms by (simp add: materializeFinalizedEntries_def lru_view_def)
  next
    case (Some i)
    note o = lru_ok_overlay [OF assms Some]
    have m: "foldl (setMapEntry (maxSize c)) (lruMap c) (preparedMaps c ! i) =
        put_all (maxSize c) (lruMap c) (preparedMaps c ! i)"
      by (rule foldl_setMapEntry [OF lru_ok_map(2,3,1) [OF assms] o(1)])
    have "jwf (put_all (maxSize c) (lruMap c) (preparedMaps c ! i))"
      by (rule jwf_put_all [OF lru_ok_map(2) [OF assms] o(1)])
    then have "jwf (lru_view c)" "length (lru_view c) \<le> maxSize c"
      using Some length_put_all by (auto simp: lru_view_def)
    moreover have eq: "materializeFinalizedEntries c =
        c\<lparr>lruMap := lru_view c, finalizedEntries := None, pendingEntries := None\<rparr>"
      using Some o(3) m by (simp add: materializeFinalizedEntries_def lru_view_def)
    ultimately have "lru_ok (materializeFinalizedEntries c)" using assms by (simp add: lru_ok_def)
    moreover have "lru_staged c = None" using o(3,5) by (simp add: lru_staged_def)
    ultimately show ?thesis unfolding eq by (simp add: lru_staged_def)
  qed
  then show "lru_ok (materializeFinalizedEntries c)"
    and "finalizedEntries (materializeFinalizedEntries c) = None"
    and "lruMap (materializeFinalizedEntries c) = lru_view c"
    and "lru_staged (materializeFinalizedEntries c) = lru_staged c"
    and "maxSize (materializeFinalizedEntries c) = maxSize c"
    and "finalizedFlags (materializeFinalizedEntries c) = finalizedFlags c" by blast+
qed

lemma lastn_overlay: "length ys \<le> n \<Longrightarrow> lastn n (xs @ ys) = drop (length xs + length ys - n) xs @ ys"
  by (simp add: lastn_def)

lemma put_all_touch:
  assumes ov: "jwf ov" "length ov \<le> limit" and k: "jget ov k = Some v"
  shows "put_all limit m (without ov {k} @ [(k, v)]) = without (put_all limit m ov) {k} @ [(k, v)]"
    and "jget (put_all limit m ov) k = Some v"
    and "length (without ov {k} @ [(k, v)]) = length ov"
    and "fst ` set (without ov {k} @ [(k, v)]) = fst ` set ov"
proof -
  let ?ov = "without ov {k} @ [(k, v)]" and ?K = "fst ` set ov"
  have kin: "k \<in> ?K" using jget_in_set [OF k] by force
  show len: "length ?ov = length ov" using length_without_present [OF ov(1) kin] by simp
  show keys: "fst ` set ?ov = ?K" using kin by (auto simp: without_def image_iff)
  let ?A = "without m ?K" and ?B = "drop (length (without m ?K) + length ov - limit) (without m ?K)"
  have B: "k \<notin> fst ` set ?B" 
    using kin by (auto simp: without_def dest!: in_set_dropD) (simp add: rev_image_eqI)
  have view: "put_all limit m ov = ?B @ ov" using ov(2) by (simp add: put_all_def lastn_overlay)
  have "lastn limit (?A @ ?ov) = drop (length ?A + length ?ov - limit) ?A @ ?ov"
    using ov(2) len by (intro lastn_overlay) simp
  then have "put_all limit m ?ov = ?B @ ?ov" unfolding put_all_def keys len by simp
  then show "put_all limit m ?ov = without (put_all limit m ov) {k} @ [(k, v)]"
    using view without_absent [OF B] by simp
  show "jget (put_all limit m ov) k = Some v"
    using view B k by (simp add: jget_append jget_None_iff [symmetric])
qed

lemma jwf_length: "jwf n \<Longrightarrow> length n = card (fst ` set n)"
  by (metis distinct_card jkeys_def jwf_def length_map set_map)

lemma additions_count:
  assumes "jwf m" and "jwf ov"
  shows "length m + countAdditions m (jkeys ov) = length (without m (fst ` set ov)) + length ov"
proof -
  let ?D = "fst ` set m" and ?K = "fst ` set ov"
  have "countAdditions m ks = length (filter (\<lambda>k. k \<notin> ?D) ks)" for ks
    by (induction ks) (auto simp: jhas_def jget_None_iff)
  moreover have "length (filter (\<lambda>k. k \<notin> ?D) (jkeys ov)) = card (set (filter (\<lambda>k. k \<notin> ?D) (jkeys ov)))"
    using assms(2) by (simp only: distinct_card distinct_filter jwf_def)
  moreover have "set (filter (\<lambda>k. k \<notin> ?D) (jkeys ov)) = ?K - ?D" by (auto simp: jkeys_def)
  ultimately have "countAdditions m (jkeys ov) = card (?K - ?D)" by simp
  moreover have "fst ` set (without m ?K) = ?D - ?K" by (auto simp: without_def)
  then have "length (without m ?K) = card (?D - ?K)" using jwf_length [OF jwf_without [OF assms(1)]] by simp
  moreover have "card ?D + card (?K - ?D) = card (?D - ?K) + card ?K"
    by (metis List.finite_set Un_Diff_cancel card_Un_disjoint Diff_disjoint add.commute finite_Diff finite_imageI sup_commute)
  ultimately show ?thesis using jwf_length [OF assms(1)] jwf_length [OF assms(2)] by simp
qed

lemma plain_map_ok:
  assumes "lru_ok c" "finalizedEntries c = None" "jwf m" "length m \<le> maxSize c"
  shows "lru_ok (c\<lparr>lruMap := m\<rparr>)" "lru_view (c\<lparr>lruMap := m\<rparr>) = m"
    "lru_staged (c\<lparr>lruMap := m\<rparr>) = lru_staged c"
  using assms by (simp_all add: lru_ok_def lru_view_def lru_staged_def split: option.splits)

lemma get_sim:
  assumes sim: "lru_sim c s"
  shows "OValue (fst (lruGet c k)) = fst (lru_spec_step s (LGet k)) \<and>
    lru_sim (snd (lruGet c k)) (snd (lru_spec_step s (LGet k)))"
proof -
  have ok: "lru_ok c" and view: "specEntries s = lru_view c" using sim by (auto simp: lru_sim_def)
  have plain: "lru_sim (c1\<lparr>lruMap := jset (jdel (lruMap c1) k) k v\<rparr>)
      (s\<lparr>specEntries := without (specEntries s) {k} @ [(k, v)]\<rparr>)"
    if c1: "lru_ok c1" "finalizedEntries c1 = None" "lruMap c1 = lru_view c" "lru_staged c1 = lru_staged c"
      "maxSize c1 = maxSize c" "finalizedFlags c1 = finalizedFlags c" and v: "jget (lruMap c1) k = Some v"
    for c1 v
  proof -
    have k: "k \<in> fst ` set (lruMap c1)" using jget_in_set [OF v] by force
    have wf: "jwf (lruMap c1)" using c1(1) by (rule lru_ok_map)
    have "jwf (jset (jdel (lruMap c1) k) k v)" by (intro jwf_jset es_map.wf_remove wf)
    moreover have "length (jset (jdel (lruMap c1) k) k v) = length (lruMap c1)"
      using length_without_present [OF wf k] by (simp add: refresh_eq)
    ultimately show ?thesis
      using plain_map_ok [OF c1(1,2), of "jset (jdel (lruMap c1) k) k v"] lru_ok_map(3) [OF c1(1)] c1(3-6) sim
      by (simp add: lru_sim_def refresh_eq)
  qed
  show ?thesis
  proof (cases "finalizedEntries c")
    case None
    then show ?thesis using plain [of c] ok sim
      by (auto simp: lruGet_def lru_sim_def lru_view_def split: option.splits)
  next
    case (Some i)
    note o = lru_ok_overlay [OF ok Some]
    note m = materialize_sim [OF ok]
    let ?c1 = "materializeFinalizedEntries c"
    show ?thesis
    proof (cases "jget (preparedMaps c ! i) k")
      case None
      have g: "lruGet c k = (case jget (lruMap ?c1) k of
          Some v \<Rightarrow> (Some v, ?c1\<lparr>lruMap := jset (jdel (lruMap ?c1) k) k v\<rparr>) | None \<Rightarrow> (None, ?c1))"
        using Some None by (simp add: lruGet_def Let_def)
      have "lru_sim ?c1 s" using m sim by (simp add: lru_sim_def) (simp add: lru_view_def)
      then show ?thesis using g view m(3) plain [OF m] by (cases "jget (lru_view c) k") simp_all
    next
      case hit: (Some v)
      let ?ov = "jset (jdel (preparedMaps c ! i) k) k v"
      let ?c = "c\<lparr>preparedMaps := (preparedMaps c)[i := ?ov]\<rparr>"
      note t = put_all_touch [OF o(1,2) hit, folded refresh_eq]
      have wf: "jwf ?ov" by (intro jwf_jset es_map.wf_remove o(1))
      have v': "lru_view ?c = without (lru_view c) {k} @ [(k, v)]"
        using Some o(4) t(1) by (simp add: lru_view_def refresh_eq)
      have "length (lru_view ?c) = length (lru_view c)"
      proof -
        have "lru_view ?c = put_all (maxSize c) (lruMap c) ?ov" using Some o(4) by (simp add: lru_view_def)
        moreover have "lru_view c = put_all (maxSize c) (lruMap c) (preparedMaps c ! i)"
          using Some by (simp add: lru_view_def)
        ultimately show ?thesis by (simp only: put_all_def t(3,4) length_lastn length_append)
      qed
      moreover have all: "\<forall>j < length (preparedMaps ?c). jwf (preparedMaps ?c ! j) \<and>
          length (preparedMaps ?c ! j) \<le> maxSize c"
      proof (intro allI impI)
        fix j assume "j < length (preparedMaps ?c)"
        then show "jwf (preparedMaps ?c ! j) \<and> length (preparedMaps ?c ! j) \<le> maxSize c"
          using ok wf t(3) o(2,4) by (cases "j = i") (simp_all add: lru_ok_def)
      qed
      ultimately have "lru_ok ?c" using ok unfolding lru_ok_def by simp
      moreover have "jget (lru_view c) k = Some v" using t(2) Some by (simp add: lru_view_def)
      moreover have "lru_staged ?c = lru_staged c" using o(3,5) by (simp add: lru_staged_def)
      ultimately show ?thesis using sim v' Some hit by (simp add: lruGet_def lru_sim_def)
    qed
  qed
qed

lemma has_sim:
  assumes sim: "lru_sim c s"
  shows "OBool (fst (lruHas c k)) = fst (lru_spec_step s (LHas k)) \<and> lru_sim (snd (lruHas c k)) s"
proof -
  have ok: "lru_ok c" and view: "specEntries s = lru_view c" using sim by (auto simp: lru_sim_def)
  note m = materialize_sim [OF ok]
  have s1: "lru_sim (materializeFinalizedEntries c) s" using m sim by (simp add: lru_sim_def) (simp add: lru_view_def)
  show ?thesis
  proof (cases "finalizedEntries c")
    case None
    then show ?thesis using sim by (simp add: lruHas_def lru_sim_def lru_view_def jhas_def)
  next
    case (Some i)
    note o = lru_ok_overlay [OF ok Some]
    have "jget (lru_view c) k \<noteq> None" if "jget (preparedMaps c ! i) k = Some v" for v
      using put_all_touch(2) [OF o(1,2) that] Some by (simp add: lru_view_def)
    then show ?thesis using Some sim s1 m(3) view by (auto simp: lruHas_def jhas_def Let_def)
  qed
qed

lemma size_sim:
  assumes sim: "lru_sim c s"
  shows "fst (lruSize c) = length (specEntries s) \<and> lru_sim (snd (lruSize c)) s"
proof -
  have ok: "lru_ok c" and view: "specEntries s = lru_view c" using sim by (auto simp: lru_sim_def)
  show ?thesis
  proof (cases "finalizedEntries c")
    case None
    then show ?thesis using sim view by (simp add: lruSize_def lru_view_def jsize_def)
  next
    case (Some i)
    note o = lru_ok_overlay [OF ok Some]
    have n: "min (maxSize c) (jsize (lruMap c) + countAdditions (lruMap c) (jkeys (preparedMaps c ! i))) =
        length (lru_view c)"
      using additions_count [OF lru_ok_map(2) [OF ok] o(1)] Some
      by (simp add: jsize_def lru_view_def put_all_def)
    have "lru_sim (c\<lparr>finalizedSize := Some (length (lru_view c))\<rparr>) s"
      using sim Some by (simp add: lru_sim_def lru_ok_def lru_staged_def) (simp add: lru_view_def)
    then show ?thesis using Some n ok view sim
      by (cases "finalizedSize c") (simp_all add: lruSize_def Let_def, simp add: lru_ok_def)
  qed
qed

lemma set_sim:
  assumes sim: "lru_sim c s"
  shows "lru_sim (lruSet c k v) (snd (lru_spec_step s (LSet k v)))"
proof -
  have ok: "lru_ok c" using sim by (simp add: lru_sim_def)
  let ?c1 = "materializeFinalizedEntries c"
  note m = materialize_sim [OF ok]
  define c2 where "c2 = (case pendingEntries ?c1 of None \<Rightarrow> ?c1
    | Some i \<Rightarrow> ?c1\<lparr>preparedMaps := (preparedMaps ?c1)[i := jdel (preparedMaps ?c1 ! i) k]\<rparr>)"
  have f2: "finalizedEntries c2 = None" "lruMap c2 = lru_view c" "maxSize c2 = maxSize c"
    "finalizedFlags c2 = finalizedFlags c"
    using m by (simp_all add: c2_def split: option.splits)
  have st2: "lru_staged c2 = map_option (\<lambda>(i, es). (i, without es {k})) (lru_staged c)"
    using m(1,2) unfolding m(4) [symmetric]
    by (auto simp: c2_def lru_staged_def lru_ok_def jdel_without split: option.splits)
  have len: "length (jdel n k) \<le> length n" for n :: "('a, 'b) jsmap"
    using jsize_jdel_le [of n k] by (simp add: jsize_def)
  have ok2: "lru_ok c2"
    using m(1,2) by (auto simp: c2_def lru_ok_def nth_list_update es_map.wf_remove
        intro: le_trans [OF len] split: option.splits)
  have one: "jwf [(k, v)]" by (simp add: jwf_def jkeys_def)
  have put: "setMapEntry (maxSize c2) (lruMap c2) (k, v) = put_all (maxSize c2) (lruMap c2) [(k, v)]"
    by (rule setMapEntry_put [OF lru_ok_map(2,3,1) [OF ok2]])
  have "lru_sim (c2\<lparr>lruMap := put_all (maxSize c2) (lruMap c2) [(k, v)]\<rparr>) (snd (lru_spec_step s (LSet k v)))"
    using plain_map_ok [OF ok2 f2(1) jwf_put_all [OF lru_ok_map(2) [OF ok2] one] length_put_all] sim f2 st2
    by (simp add: lru_sim_def)
  then show ?thesis using put by (simp add: lruSet_def Let_def c2_def)
qed

lemma prepare_sim:
  assumes sim: "lru_sim c s" and es: "jwf es"
  shows "fst (prepareSetMany c es) = specPrepared s \<and>
    lru_sim (snd (prepareSetMany c es)) (snd (lru_spec_step s (LPrepare es)))"
proof -
  have ok: "lru_ok c" using sim by (simp add: lru_sim_def)
  let ?c1 = "materializeFinalizedEntries c"
  note m = materialize_sim [OF ok]
  have p: "foldl (setMapEntry (maxSize ?c1)) [] es = lastn (maxSize c) es"
    using foldl_setMapEntry [of "[]" "maxSize c" es] es lru_ok_map(1) [OF ok] m(5) by (simp add: put_all_def)
  have len: "length (preparedMaps ?c1) = length (finalizedFlags c)" using m(1,6) by (simp add: lru_ok_def)
  let ?c = "?c1\<lparr>preparedMaps := preparedMaps ?c1 @ [lastn (maxSize c) es],
    finalizedFlags := finalizedFlags ?c1 @ [False], pendingEntries := Some (length (preparedMaps ?c1))\<rparr>"
  have "lru_ok ?c" using m(1,2,5,6) len jwf_lastn [OF es, of "maxSize c"]
    by (auto simp: lru_ok_def nth_append)
  moreover have "lru_view ?c = lru_view c" using m(2,3) by (simp add: lru_view_def)
  moreover have "lru_staged ?c = Some (length (finalizedFlags c), lastn (maxSize c) es)"
    using len m(6) by (simp add: lru_staged_def nth_append)
  ultimately show ?thesis using sim p m(5,6) len by (simp add: prepareSetMany_def Let_def lru_sim_def)
qed

lemma finalize_sim:
  assumes sim: "lru_sim c s" and legal: "lru_legal c (LFinalize i)"
  shows "lru_sim (finalizePrepared c i) (snd (lru_spec_step s (LFinalize i)))"
proof (cases "finalizedFlags c ! i")
  case True
  then have "\<forall>es. specStaged s \<noteq> Some (i, es)"
    using sim by (auto simp: lru_sim_def lru_staged_def split: option.splits if_splits)
  then have "snd (lru_spec_step s (LFinalize i)) = s" by (auto split: option.splits)
  then show ?thesis using sim True by (simp add: finalizePrepared_def)
next
  case False
  have ok: "lru_ok c" using sim by (simp add: lru_sim_def)
  have p: "pendingEntries c = Some i" "i < length (finalizedFlags c)" using legal False by auto
  have f: "finalizedEntries c = None" using ok p False by (cases "finalizedEntries c") (auto simp: lru_ok_def)
  let ?c = "c\<lparr>finalizedEntries := Some i, finalizedSize := None, finalizedFlags := (finalizedFlags c)[i := True]\<rparr>"
  have "lru_ok ?c" using ok p f by (simp add: lru_ok_def)
  moreover have "lru_view ?c = put_all (maxSize c) (lru_view c) (preparedMaps c ! i)" using f by (simp add: lru_view_def)
  moreover have "lru_staged c = Some (i, preparedMaps c ! i)" "lru_staged ?c = None"
    using p False by (simp_all add: lru_staged_def)
  ultimately show ?thesis using sim False by (simp add: finalizePrepared_def lru_sim_def)
qed

lemma abandon_sim:
  assumes sim: "lru_sim c s" and legal: "lru_legal c LAbandon"
  shows "lru_sim (c\<lparr>pendingEntries := None\<rparr>) (s\<lparr>specStaged := None\<rparr>)"
proof -
  have ok: "lru_ok c" using sim by (simp add: lru_sim_def)
  have f: "finalizedEntries c = None"
    using ok legal by (cases "finalizedEntries c") (auto simp: lru_ok_def)
  then show ?thesis using sim ok
    by (simp add: lru_sim_def lru_ok_def lru_staged_def lru_view_def)
qed

lemma lru_step_sim:
  assumes "lru_sim c s" and "lru_legal c e"
  shows "fst (lru_step c e) = fst (lru_spec_step s e) \<and> lru_sim (snd (lru_step c e)) (snd (lru_spec_step s e))"
proof (cases e)
  case (LGet k)
  then show ?thesis using get_sim [OF assms(1), of k] by (simp del: lru_spec_step.simps)
next
  case (LSet k v)
  then show ?thesis using set_sim [OF assms(1), of k v] by simp
next
  case (LHas k)
  then show ?thesis using has_sim [OF assms(1), of k] by simp
next
  case LSize
  then show ?thesis using size_sim [OF assms(1)] by simp
next
  case (LPrepare es)
  then show ?thesis using prepare_sim [OF assms(1), of es] assms(2) by simp
next
  case (LFinalize i)
  then show ?thesis using finalize_sim [OF assms(1), of i] assms(2) by (simp del: lru_legal.simps)
next
  case LAbandon
  then show ?thesis using abandon_sim [OF assms(1)] assms(2) by simp
qed

lemma lru_outputs_sim:
  "lru_sim c s \<Longrightarrow> lru_legal_run c es \<Longrightarrow> lru_outputs c es = lru_spec_outputs s es"
  by (induction es arbitrary: c s) (simp, metis lru_legal_run.simps(2) lru_outputs.simps(2) lru_spec_outputs.simps(2) lru_step_sim)

lemma new_lru_sim: "newLRUCache n = Inr c \<Longrightarrow> lru_sim c (emptySpec (maxSize c))"
  by (auto simp: newLRUCache_def lru_sim_def lru_ok_def lru_view_def lru_staged_def emptySpec_def le_nat_iff
      le_floor_iff split: js_number.splits if_splits)


section \<open>Properties\<close>

text \<open>
  C38: The cache refines the textbook least-recently-used cache. For every
  sequence of operations, staged and abandoned batches included, that respects
  the documented discipline, every result (looked-up value, membership, size and
  finalizer) is the one of a bounded list from least to most recently used
  entry, in which a finalized batch is inserted at the moment of finalization.
\<close>

theorem lru_refines_spec:
  assumes "newLRUCache n = Inr c" and "lru_legal_run c es"
  shows "lru_outputs c es = lru_spec_outputs (emptySpec (maxSize c)) es"
  using lru_outputs_sim [OF new_lru_sim [OF assms(1)] assms(2)] .

definition sample_lru_events :: "(nat, nat) lru_event list" where
  "sample_lru_events = [LSet 1 10, LSet 2 20, LPrepare [(3, 30), (1, 11)], LSet 1 12, LFinalize 0, LSize,
     LGet 3, LHas 2, LGet 1, LFinalize 0, LSize]"

definition sample_lru :: "(nat, nat) lru" where
  "sample_lru = \<lparr>lruMap = [], maxSize = 2, finalizedEntries = None, pendingEntries = None,
     finalizedSize = None, preparedMaps = [], finalizedFlags = []\<rparr>"

theorem lru_refines_spec_witness:
  "lru_outputs sample_lru sample_lru_events = lru_spec_outputs (emptySpec 2) sample_lru_events \<and>
   lru_outputs sample_lru sample_lru_events =
     [OVoid, OVoid, OFinalizer 0, OVoid, OVoid, OSize 2, OValue (Some 30), OBool False, OValue (Some 12),
      OVoid, OSize 2]"
proof
  have new: "newLRUCache (Fin 2) = Inr sample_lru" by (simp add: newLRUCache_def sample_lru_def)
  have legal: "lru_legal_run sample_lru sample_lru_events" by code_simp
  show "lru_outputs sample_lru sample_lru_events = lru_spec_outputs (emptySpec 2) sample_lru_events"
    using lru_refines_spec [OF new legal] by (simp add: sample_lru_def)
  show "lru_outputs sample_lru sample_lru_events =
     [OVoid, OVoid, OFinalizer 0, OVoid, OVoid, OSize 2, OValue (Some 30), OBool False, OValue (Some 12),
      OVoid, OSize 2]" by code_simp
qed

end
