(* ===== verification/Document_Binary.thy ===== *)
theory Document_Binary
  imports Text_Encoding
begin

text \<open>
  \<open>packages/core/src/policy/frame-layout.ts\<close>, \<open>internal/document-binary.ts\<close> and
  \<open>document-security-wire.ts\<close>: the bounded binary writer and reader, and the
  frames of document content built with them. A writer is its list of parts, the
  number of bytes written and its capacity; a reader is its data and an offset.
  Every throw is a \<open>binary_error\<close>. Byte arrays are genuine and unshared, so the
  only way copying one fails is its length.
\<close>


section \<open>Definitions\<close>

subsection \<open>Frame layout\<close>

definition boundedFieldEnd :: "int \<Rightarrow> int \<Rightarrow> int \<Rightarrow> int \<Rightarrow> int \<Rightarrow> int \<Rightarrow> int" where
  "boundedFieldEnd size_total off len minimum maximum trailer =
     (if len < minimum \<or> len > maximum \<or> trailer > size_total - off \<or> len > size_total - off - trailer then -1
      else off + len)"

record DocumentFieldWritePlan =
  planValid :: bool
  planEnd :: int
  planCopyBytes :: int
  planParts :: int

definition planDocumentFieldWrite :: "int \<Rightarrow> int \<Rightarrow> int \<Rightarrow> int \<Rightarrow> bool \<Rightarrow> DocumentFieldWritePlan" where
  "planDocumentFieldWrite capacity used len maximum framed =
     (let prefix = (if framed then 4 else 0);
          payloadEnd = boundedFieldEnd capacity used len 0 maximum prefix;
          valid = (payloadEnd \<ge> 0)
      in \<lparr>planValid = valid,
          planEnd = (if valid then payloadEnd + prefix else used),
          planCopyBytes = (if valid then len else 0),
          planParts = (if valid then (if framed then 1 else 0) + (if len > 0 then 1 else 0) else 0)\<rparr>)"

definition frameCopyLength :: "int \<Rightarrow> int \<Rightarrow> int \<Rightarrow> int" where
  "frameCopyLength received expected available =
     (let remaining = expected - received in if remaining < available then remaining else available)"

subsection \<open>The writer\<close>

datatype binary_error = BinaryTypeError | BinaryRangeError | PlainError | CapacityError

record DocumentBinaryWriter =
  writerParts :: "bytes list"
  writerLength :: int
  writerMaximum :: int

definition newWriter :: "int \<Rightarrow> binary_error + DocumentBinaryWriter" where
  "newWriter maximum =
     (if maximum < 0 \<or> maximum > 4294967295 then Inl BinaryTypeError
      else Inr \<lparr>writerParts = [], writerLength = 0, writerMaximum = maximum\<rparr>)"

definition writerAppend ::
    "DocumentBinaryWriter \<Rightarrow> bytes \<Rightarrow> int \<Rightarrow> bool \<Rightarrow> binary_error + DocumentBinaryWriter" where
  "writerAppend w value maximum framed =
     (if maximum < 0 \<or> maximum > 4294967295 then Inl BinaryTypeError
      else if int (length value) > maximum then Inl BinaryRangeError
      else
        (let plan = planDocumentFieldWrite (writerMaximum w) (writerLength w) (int (length value)) maximum framed
         in if \<not> planValid plan then Inl BinaryRangeError
            else Inr (w\<lparr>writerParts := writerParts w @ (if framed then [uint32 (length value)] else []) @
                            (if planCopyBytes plan > 0 then [value] else []),
                        writerLength := planEnd plan\<rparr>)))"

definition writerFixed :: "DocumentBinaryWriter \<Rightarrow> bytes \<Rightarrow> binary_error + DocumentBinaryWriter" where
  "writerFixed w value = writerAppend w value (writerMaximum w) False"

fun bigEndian :: "nat \<Rightarrow> int \<Rightarrow> bytes" where
  "bigEndian 0 n = []"
| "bigEndian (Suc width) n = bigEndian width (n div 256) @ [of_int (n mod 256)]"

definition writerInteger :: "DocumentBinaryWriter \<Rightarrow> int \<Rightarrow> nat \<Rightarrow> binary_error + DocumentBinaryWriter" where
  "writerInteger w value width =
     (if value < 0 \<or> value \<ge> 2 ^ (width * 8) then Inl BinaryTypeError
      else writerFixed w (bigEndian width value))"

definition writerBytes :: "DocumentBinaryWriter \<Rightarrow> bytes \<Rightarrow> int \<Rightarrow> binary_error + DocumentBinaryWriter" where
  "writerBytes w value maximum = writerAppend w value maximum True"

definition writerText :: "DocumentBinaryWriter \<Rightarrow> js_string \<Rightarrow> int \<Rightarrow> binary_error + DocumentBinaryWriter" where
  "writerText w value maximum =
     (if int (length value) > maximum \<or> \<not> isWellFormedUtf16 value then Inl BinaryTypeError
      else writerBytes w (encodeUtf8 value) maximum)"

definition writerFinish :: "DocumentBinaryWriter \<Rightarrow> bytes" where
  "writerFinish w = concat (writerParts w)"

subsection \<open>The reader\<close>

record DocumentBinaryReader =
  readerData :: bytes
  readerOffset :: nat

definition newReader :: "bytes \<Rightarrow> int \<Rightarrow> binary_error + DocumentBinaryReader" where
  "newReader value maximum =
     (if int (length value) > maximum then Inl BinaryRangeError
      else Inr \<lparr>readerData = value, readerOffset = 0\<rparr>)"

definition readerFixed ::
    "DocumentBinaryReader \<Rightarrow> int \<Rightarrow> binary_error + bytes \<times> DocumentBinaryReader" where
  "readerFixed r len =
     (if len < 0 \<or> len > 4294967295 then Inl BinaryTypeError
      else
        (let fieldEnd = boundedFieldEnd (int (length (readerData r))) (int (readerOffset r)) len len len 0
         in if fieldEnd < 0 then Inl BinaryTypeError
            else Inr (take (nat len) (drop (readerOffset r) (readerData r)),
                      r\<lparr>readerOffset := nat fieldEnd\<rparr>)))"

definition readerInteger ::
    "DocumentBinaryReader \<Rightarrow> nat \<Rightarrow> binary_error + int \<times> DocumentBinaryReader" where
  "readerInteger r width =
     sbind (readerFixed r (int width)) (\<lambda>(field, r'). Inr (foldl (\<lambda>n b. n * 256 + uint b) 0 field, r'))"

definition readerNumber ::
    "DocumentBinaryReader \<Rightarrow> nat \<Rightarrow> binary_error + int \<times> DocumentBinaryReader" where
  "readerNumber r width =
     sbind (readerInteger r width) (\<lambda>(n, r'). if n > MAX_SAFE_INTEGER then Inl BinaryTypeError else Inr (n, r'))"

definition readerBytes ::
    "DocumentBinaryReader \<Rightarrow> int \<Rightarrow> binary_error + bytes \<times> DocumentBinaryReader" where
  "readerBytes r maximum =
     sbind (readerNumber r 4) (\<lambda>(len, r'). if len > maximum then Inl BinaryTypeError else readerFixed r' len)"

definition readerText ::
    "DocumentBinaryReader \<Rightarrow> int \<Rightarrow> binary_error + js_string \<times> DocumentBinaryReader" where
  "readerText r maximum =
     sbind (readerBytes r maximum) (\<lambda>(field, r').
       case utf8Decode field of None \<Rightarrow> Inl BinaryTypeError | Some s \<Rightarrow> Inr (s, r'))"

definition readerEnd :: "DocumentBinaryReader \<Rightarrow> binary_error + unit" where
  "readerEnd r = require (readerOffset r = length (readerData r)) BinaryTypeError"

definition documentBytesEqual :: "bytes \<Rightarrow> bytes \<Rightarrow> bool" where
  "documentBytesEqual a b = equalBytes a b"

definition documentBytesId :: "bytes \<Rightarrow> string" where
  "documentBytesId b = hex_bytes b"

subsection \<open>Document frames\<close>

definition copyExactly :: "bytes \<Rightarrow> nat \<Rightarrow> binary_error + bytes" where
  "copyExactly b n = (if length b = n then Inr b else Inl BinaryRangeError)"

definition MAX_DOCUMENT_CONTENT_BYTES :: int where
  "MAX_DOCUMENT_CONTENT_BYTES = 512 * 1024"

definition MAX_DOCUMENT_SECURITY_FRAME_BYTES :: int where
  "MAX_DOCUMENT_SECURITY_FRAME_BYTES = 1024 * 1024"

text \<open>The code units of an ASCII literal, as bytes.\<close>

definition ascii_bytes :: "string \<Rightarrow> bytes" where
  "ascii_bytes s = map of_char s"

definition MAGIC :: bytes where
  "MAGIC = ascii_bytes ''peerborne/document-content/v1'' @ [0]"

definition ENCRYPTED_MAGIC :: bytes where
  "ENCRYPTED_MAGIC = [80, 66, 68, 1]"

record GroupSecurityDocumentContext =
  protocolId :: js_string
  protocolVersion :: int
  groupId :: bytes
  epoch :: int
  treeHash :: bytes
  confirmedTranscriptHash :: bytes
  controlHead :: bytes

datatype content_kind = ChangeContent | SnapshotContent

record DocumentContentFrame =
  contentDocumentId :: js_string
  contentGenesisId :: bytes
  contentAuthorityHead :: bytes
  contentContext :: GroupSecurityDocumentContext
  contentMemberId :: bytes
  contentSequence :: int
  contentParent :: bytes
  contentKind :: content_kind
  contentChanges :: bytes

definition writeDocumentContext ::
    "DocumentBinaryWriter \<Rightarrow> GroupSecurityDocumentContext \<Rightarrow> binary_error + DocumentBinaryWriter" where
  "writeDocumentContext w context =
     sbind (writerText w (protocolId context) 128) (\<lambda>w.
     sbind (writerInteger w (protocolVersion context) 2) (\<lambda>w.
     sbind (writerBytes w (groupId context) 512) (\<lambda>w.
     sbind (writerInteger w (epoch context) 8) (\<lambda>w.
     sbind (writerBytes w (treeHash context) 128) (\<lambda>w.
     sbind (writerBytes w (confirmedTranscriptHash context) 128) (\<lambda>w.
     sbind (copyExactly (controlHead context) 32) (\<lambda>head.
       writerFixed w head)))))))"

definition readDocumentContext ::
    "DocumentBinaryReader \<Rightarrow> binary_error + GroupSecurityDocumentContext \<times> DocumentBinaryReader" where
  "readDocumentContext r =
     sbind (readerText r 128) (\<lambda>(pid, r).
     sbind (readerNumber r 2) (\<lambda>(version, r).
     sbind (readerBytes r 512) (\<lambda>(gid, r).
     sbind (readerInteger r 8) (\<lambda>(ep, r).
     sbind (readerBytes r 128) (\<lambda>(tree, r).
     sbind (readerBytes r 128) (\<lambda>(transcript, r).
     sbind (readerFixed r 32) (\<lambda>(head, r).
       Inr (\<lparr>protocolId = pid, protocolVersion = version, groupId = gid, epoch = ep, treeHash = tree,
             confirmedTranscriptHash = transcript, controlHead = head\<rparr>, r))))))))"

definition documentContextsMatch ::
    "GroupSecurityDocumentContext \<Rightarrow> GroupSecurityDocumentContext \<Rightarrow> binary_error + bool" where
  "documentContextsMatch a b =
     sbind (sbind (newWriter (1024 * 1024)) (\<lambda>x. writeDocumentContext x a)) (\<lambda>x.
     sbind (sbind (newWriter (1024 * 1024)) (\<lambda>y. writeDocumentContext y b)) (\<lambda>y.
       Inr (documentBytesEqual (writerFinish x) (writerFinish y))))"

definition documentContentAAD ::
    "js_string \<Rightarrow> GroupSecurityDocumentContext \<Rightarrow> bytes \<Rightarrow> binary_error + bytes" where
  "documentContentAAD documentId context authorityHead =
     sbind (newWriter (1024 * 1024)) (\<lambda>w.
     sbind (writerFixed w MAGIC) (\<lambda>w.
     sbind (writerText w documentId (16 * 1024)) (\<lambda>w.
     sbind (writeDocumentContext w context) (\<lambda>w.
     sbind (copyExactly authorityHead 32) (\<lambda>head.
     sbind (writerFixed w head) (\<lambda>w. Inr (writerFinish w)))))))"

definition encodeDocumentContent :: "DocumentContentFrame \<Rightarrow> binary_error + bytes" where
  "encodeDocumentContent frame =
     (if \<bar>contentSequence frame\<bar> > MAX_SAFE_INTEGER \<or> contentSequence frame < 1 then Inl BinaryTypeError
      else
        sbind (newWriter (1024 * 1024)) (\<lambda>w.
        sbind (writerFixed w MAGIC) (\<lambda>w.
        sbind (writerText w (contentDocumentId frame) (16 * 1024)) (\<lambda>w.
        sbind (copyExactly (contentGenesisId frame) 32) (\<lambda>genesis.
        sbind (writerFixed w genesis) (\<lambda>w.
        sbind (copyExactly (contentAuthorityHead frame) 32) (\<lambda>head.
        sbind (writerFixed w head) (\<lambda>w.
        sbind (writeDocumentContext w (contentContext frame)) (\<lambda>w.
        sbind (copyExactly (contentMemberId frame) 32) (\<lambda>member.
        sbind (writerFixed w member) (\<lambda>w.
        sbind (writerInteger w (contentSequence frame) 8) (\<lambda>w.
        sbind (copyExactly (contentParent frame) 32) (\<lambda>parent.
        sbind (writerFixed w parent) (\<lambda>w.
        sbind (writerInteger w (if contentKind frame = ChangeContent then 0 else 1) 1) (\<lambda>w.
        sbind (writerBytes w (contentChanges frame) MAX_DOCUMENT_CONTENT_BYTES) (\<lambda>w.
          Inr (writerFinish w)))))))))))))))))"

definition decodeDocumentContent :: "bytes \<Rightarrow> binary_error + DocumentContentFrame" where
  "decodeDocumentContent value =
     sbind (newReader value (1024 * 1024)) (\<lambda>r.
     sbind (readerFixed r (int (length MAGIC))) (\<lambda>(magic, r).
     if \<not> documentBytesEqual magic MAGIC then Inl BinaryTypeError
     else
       sbind (readerText r (16 * 1024)) (\<lambda>(documentId, r).
       sbind (readerFixed r 32) (\<lambda>(genesis, r).
       sbind (readerFixed r 32) (\<lambda>(head, r).
       sbind (readDocumentContext r) (\<lambda>(context, r).
       sbind (readerFixed r 32) (\<lambda>(member, r).
       sbind (readerNumber r 8) (\<lambda>(seqno, r).
       sbind (readerFixed r 32) (\<lambda>(parent, r).
       sbind (readerNumber r 1) (\<lambda>(kind, r).
       if seqno = 0 \<or> kind > 1 then Inl BinaryTypeError
       else
         sbind (readerBytes r MAX_DOCUMENT_CONTENT_BYTES) (\<lambda>(changes, r).
         sbind (readerEnd r) (\<lambda>_.
           Inr \<lparr>contentDocumentId = documentId, contentGenesisId = genesis, contentAuthorityHead = head,
                contentContext = context, contentMemberId = member, contentSequence = seqno,
                contentParent = parent, contentKind = (if kind = 0 then ChangeContent else SnapshotContent),
                contentChanges = changes\<rparr>))))))))))))"

definition encodeSignedDocumentContent :: "bytes \<Rightarrow> bytes \<Rightarrow> binary_error + bytes" where
  "encodeSignedDocumentContent content signature =
     sbind (newWriter (1024 * 1024)) (\<lambda>w.
     sbind (writerBytes w content (MAX_DOCUMENT_SECURITY_FRAME_BYTES - 2048)) (\<lambda>w.
     sbind (writerBytes w signature 1024) (\<lambda>w. Inr (writerFinish w))))"

definition decodeSignedDocumentContent :: "bytes \<Rightarrow> binary_error + bytes \<times> bytes" where
  "decodeSignedDocumentContent value =
     sbind (newReader value (1024 * 1024)) (\<lambda>r.
     sbind (readerBytes r (MAX_DOCUMENT_SECURITY_FRAME_BYTES - 2048)) (\<lambda>(content, r).
     sbind (readerBytes r 1024) (\<lambda>(signature, r).
     sbind (readerEnd r) (\<lambda>_.
       if signature = [] then Inl BinaryTypeError else Inr (content, signature)))))"

definition encodeEncryptedDocumentContent :: "bytes \<Rightarrow> bytes \<Rightarrow> bytes \<Rightarrow> binary_error + bytes" where
  "encodeEncryptedDocumentContent epochTag nonce ciphertext =
     sbind (newWriter (1024 * 1024)) (\<lambda>w.
     sbind (writerFixed w ENCRYPTED_MAGIC) (\<lambda>w.
     sbind (copyExactly epochTag 16) (\<lambda>tag.
     sbind (writerFixed w tag) (\<lambda>w.
     sbind (copyExactly nonce 12) (\<lambda>non.
     sbind (writerFixed w non) (\<lambda>w.
     sbind (writerBytes w ciphertext (MAX_DOCUMENT_SECURITY_FRAME_BYTES - 64)) (\<lambda>w.
       Inr (writerFinish w))))))))"

definition decodeEncryptedDocumentContent :: "bytes \<Rightarrow> binary_error + bytes \<times> bytes \<times> bytes" where
  "decodeEncryptedDocumentContent value =
     sbind (newReader value (1024 * 1024)) (\<lambda>r.
     sbind (readerFixed r 4) (\<lambda>(magic, r).
     if \<not> documentBytesEqual magic ENCRYPTED_MAGIC then Inl BinaryTypeError
     else
       sbind (readerFixed r 16) (\<lambda>(tag, r).
       sbind (readerFixed r 12) (\<lambda>(nonce, r).
       sbind (readerBytes r (MAX_DOCUMENT_SECURITY_FRAME_BYTES - 64)) (\<lambda>(ciphertext, r).
       sbind (readerEnd r) (\<lambda>_.
         if length ciphertext < 16 then Inl BinaryTypeError else Inr (tag, nonce, ciphertext)))))))"


section \<open>What is written is what is read\<close>

definition writer_ok :: "DocumentBinaryWriter \<Rightarrow> bool" where
  "writer_ok w \<longleftrightarrow> writerLength w = int (length (writerFinish w)) \<and> writerLength w \<le> writerMaximum w \<and>
     writerMaximum w \<le> 4294967295"

definition wrote :: "DocumentBinaryWriter \<Rightarrow> DocumentBinaryWriter \<Rightarrow> bytes \<Rightarrow> bool" where
  "wrote w w' bs \<longleftrightarrow> writer_ok w' \<and> writerMaximum w' = writerMaximum w \<and>
     writerFinish w' = writerFinish w @ bs"

definition reads :: "(DocumentBinaryReader \<Rightarrow> binary_error + 'a \<times> DocumentBinaryReader) \<Rightarrow> bytes \<Rightarrow> 'a \<Rightarrow> bool" where
  "reads get bs x \<longleftrightarrow> (\<forall>r rest. drop (readerOffset r) (readerData r) = bs @ rest \<longrightarrow>
     readerOffset r \<le> length (readerData r) \<longrightarrow> int (length (readerData r)) \<le> 4294967295 \<longrightarrow>
     get r = Inr (x, r\<lparr>readerOffset := readerOffset r + length bs\<rparr>))"

text \<open>
  The contract between a function that writes a value and the one that reads it
  back: whatever was written, in front of anything else, is read as the same
  value and consumed exactly.
\<close>

locale document_codec =
  fixes put :: "DocumentBinaryWriter \<Rightarrow> 'a \<Rightarrow> binary_error + DocumentBinaryWriter"
    and get :: "DocumentBinaryReader \<Rightarrow> binary_error + 'a \<times> DocumentBinaryReader"
  assumes faithful: "writer_ok w \<Longrightarrow> put w x = Inr w' \<Longrightarrow> \<exists>bs. wrote w w' bs \<and> reads get bs x"
begin

lemma whole_frame:
  assumes new: "newWriter maximum = Inr w" and put: "put w x = Inr w'"
  shows "sbind (newReader (writerFinish w') maximum) (\<lambda>r. sbind (get r) (\<lambda>(y, r'). sbind (readerEnd r') (\<lambda>_. Inr y)))
    = Inr x"
proof -
  have w: "writer_ok w" "writerFinish w = []" "writerMaximum w = maximum"
    using new by (auto simp: newWriter_def writer_ok_def writerFinish_def split: if_splits)
  obtain bs where bs: "wrote w w' bs" "reads get bs x" using faithful [OF w(1) put] by blast
  have len: "writerFinish w' = bs" "int (length bs) \<le> maximum" "maximum \<le> 4294967295"
    using bs(1) w by (auto simp: wrote_def writer_ok_def)
  let ?r = "\<lparr>readerData = bs, readerOffset = 0\<rparr>"
  have "get ?r = Inr (x, ?r\<lparr>readerOffset := length bs\<rparr>)"
    using bs(2) len unfolding reads_def by (elim allE [of _ ?r] allE [of _ "[]"]) simp
  then show ?thesis using len by (simp add: newReader_def readerEnd_def require_def)
qed

lemma injective:
  assumes "newWriter maximum = Inr w" "put w x = Inr u" "put w y = Inr v"
    and "writerFinish u = writerFinish v"
  shows "x = y"
  using whole_frame [OF assms(1,2)] whole_frame [OF assms(1,3)] assms(4) by simp

end

lemma wrote_trans: "wrote w w' bs \<Longrightarrow> wrote w' w'' cs \<Longrightarrow> wrote w w'' (bs @ cs)"
  by (simp add: wrote_def)

lemma wrote_ok: "wrote w w' bs \<Longrightarrow> writer_ok w'"
  by (simp add: wrote_def)

lemma reads_return: "reads (\<lambda>r. Inr (x, r)) [] x"
  by (simp add: reads_def)

lemma reads_bind:
  assumes g: "reads g bs x" and h: "reads (h x) cs y"
  shows "reads (\<lambda>r. sbind (g r) (\<lambda>(a, r'). h a r')) (bs @ cs) y"
  unfolding reads_def
proof (intro allI impI)
  fix r :: DocumentBinaryReader and rest
  assume d: "drop (readerOffset r) (readerData r) = (bs @ cs) @ rest" "readerOffset r \<le> length (readerData r)"
    "int (length (readerData r)) \<le> 4294967295"
  let ?r = "r\<lparr>readerOffset := readerOffset r + length bs\<rparr>"
  have "g r = Inr (x, ?r)" using g d by (simp add: reads_def)
  moreover have "drop (length bs) (drop (readerOffset r) (readerData r)) = cs @ rest" using d(1) by simp
  then have "drop (readerOffset ?r) (readerData ?r) = cs @ rest" by (simp add: add.commute)
  moreover have "length (readerData r) - readerOffset r = length bs + length cs + length rest"
    using arg_cong [OF d(1), of length] by (simp only: length_drop length_append)
  then have "readerOffset ?r \<le> length (readerData ?r)" using d(2) by simp
  then have "h x ?r = Inr (y, ?r\<lparr>readerOffset := readerOffset ?r + length cs\<rparr>)"
    using h calculation(2) d(3) unfolding reads_def by simp
  ultimately show "sbind (g r) (\<lambda>(a, r'). h a r') =
      Inr (y, r\<lparr>readerOffset := readerOffset r + length (bs @ cs)\<rparr>)" by (simp add: add.assoc)
qed

lemma reads_cong: "reads g bs x \<Longrightarrow> bs = cs \<Longrightarrow> reads g cs x"
  by simp

subsection \<open>Fields\<close>

lemma append_wrote:
  assumes ok: "writer_ok w" and a: "writerAppend w v m framed = Inr w'"
  shows "wrote w w' ((if framed then uint32 (length v) else []) @ v)" and "int (length v) \<le> m"
    and "m \<le> 4294967295"
proof -
  let ?p = "planDocumentFieldWrite (writerMaximum w) (writerLength w) (int (length v)) m framed"
  have p: "planValid ?p" "int (length v) \<le> m" "m \<le> 4294967295"
    "w' = w\<lparr>writerParts := writerParts w @ (if framed then [uint32 (length v)] else []) @
       (if planCopyBytes ?p > 0 then [v] else []), writerLength := planEnd ?p\<rparr>"
    using a by (auto simp: writerAppend_def Let_def split: if_splits)
  have fits: "planEnd ?p = writerLength w + int (length v) + (if framed then 4 else 0)"
    "planEnd ?p \<le> writerMaximum w" "planCopyBytes ?p = int (length v)"
    using p(1) ok by (auto simp: planDocumentFieldWrite_def boundedFieldEnd_def Let_def writer_ok_def split: if_splits)
  have "writerFinish w' = writerFinish w @ (if framed then uint32 (length v) else []) @ v"
    using p(4) fits(3) by (cases v) (simp_all add: writerFinish_def)
  moreover have "length (uint32 (length v)) = 4" by (simp add: uint32_def)
  ultimately show "wrote w w' ((if framed then uint32 (length v) else []) @ v)"
    using ok fits p(4) by (simp add: wrote_def writer_ok_def)
  show "int (length v) \<le> m" "m \<le> 4294967295" using p by simp_all
qed

lemma reads_fixed:
  assumes "int (length bs) = n"
  shows "reads (\<lambda>r. readerFixed r n) bs bs"
  unfolding reads_def
proof (intro allI impI)
  fix r :: DocumentBinaryReader and rest
  assume d: "drop (readerOffset r) (readerData r) = bs @ rest" "readerOffset r \<le> length (readerData r)"
    "int (length (readerData r)) \<le> 4294967295"
  have "length (readerData r) - readerOffset r = length bs + length rest"
    using arg_cong [OF d(1), of length] by (simp only: length_drop length_append)
  then have "length (readerData r) = readerOffset r + length bs + length rest" using d(2) by linarith
  then show "readerFixed r n = Inr (bs, r\<lparr>readerOffset := readerOffset r + length bs\<rparr>)"
    using d(1,3) assms by (auto simp: readerFixed_def boundedFieldEnd_def Let_def nat_add_distrib simp flip: of_nat_add)
qed

lemma bigEndian_length [simp]: "length (bigEndian width n) = width"
  by (induction width arbitrary: n) simp_all

lemma uint_byte: "0 \<le> n \<Longrightarrow> n < 256 \<Longrightarrow> uint (of_int n :: byte) = n"
  by (simp add: unsigned_of_int take_bit_int_eq_self)

lemma bigEndian_value:
  "0 \<le> n \<Longrightarrow> n < 2 ^ (width * 8) \<Longrightarrow> foldl (\<lambda>a b. a * 256 + uint b) 0 (bigEndian width n) = n"
proof (induction width arbitrary: n)
  case (Suc width)
  have "n div 256 < 2 ^ (width * 8)"
    using Suc.prems by (simp add: power_add div_less_iff_less_mult mult.commute [of _ "256"] add.commute)
  then show ?case using Suc.IH [of "n div 256"] Suc.prems(1) by (simp add: uint_byte)
qed simp

lemma bigEndian_inj:
  assumes "bigEndian w m = bigEndian w n" "0 \<le> m" "m < 2 ^ (w * 8)" "0 \<le> n" "n < 2 ^ (w * 8)"
  shows "m = n"
  using bigEndian_value [OF assms(2,3)] bigEndian_value [OF assms(4,5)] unfolding assms(1) by (rule trans [OF sym])

lemma bigEndian_append:
  assumes "bigEndian w m @ r = bigEndian w n @ s" "0 \<le> m" "m < 2 ^ (w * 8)" "0 \<le> n" "n < 2 ^ (w * 8)"
  shows "m = n \<and> r = s"
proof -
  have "length (bigEndian w m) = length (bigEndian w n)" by (simp only: bigEndian_length)
  then have "bigEndian w m = bigEndian w n \<and> r = s" using assms(1) by (blast dest: append_eq_append_conv [THEN iffD1, rotated])
  then show ?thesis using bigEndian_inj [OF _ assms(2-)] by blast
qed

lemma reads_integer:
  assumes "0 \<le> n" "n < 2 ^ (width * 8)" "width \<le> 8"
  shows "reads (\<lambda>r. readerInteger r width) (bigEndian width n) n"
proof -
  have "reads (\<lambda>r. readerInteger r width) (bigEndian width n @ [])
      (foldl (\<lambda>a b. a * 256 + uint b) 0 (bigEndian width n))"
    unfolding readerInteger_def by (rule reads_bind [OF reads_fixed reads_return]) simp
  then show ?thesis using bigEndian_value [OF assms(1,2)] by simp
qed

lemma reads_number:
  assumes "0 \<le> n" "n < 2 ^ (width * 8)" "width \<le> 8" "n \<le> MAX_SAFE_INTEGER"
  shows "reads (\<lambda>r. readerNumber r width) (bigEndian width n) n"
proof -
  have "reads (\<lambda>r. readerNumber r width) (bigEndian width n @ []) n"
    unfolding readerNumber_def
    by (rule reads_bind [OF reads_integer [OF assms(1-3)]]) (use assms(4) reads_return in simp)
  then show ?thesis by simp
qed

lemma uint32_bigEndian: "uint32 n = bigEndian 4 (int n)"
proof -
  have "(of_int (int n mod 256) :: byte) = of_nat (n mod 256)"
    by (metis of_int_of_nat_eq of_nat_mod of_nat_numeral)
  moreover have "(of_int (int n div 256 mod 256) :: byte) = of_nat (n div 256 mod 256)"
    by (metis of_int_of_nat_eq of_nat_mod of_nat_numeral of_nat_div)
  moreover have "(of_int (int n div 65536 mod 256) :: byte) = of_nat (n div 65536 mod 256)"
    by (metis of_int_of_nat_eq of_nat_mod of_nat_numeral of_nat_div)
  moreover have "(of_int (int n div 16777216 mod 256) :: byte) = of_nat (n div 16777216)"
  proof -
    have "(of_int (int n div 16777216 mod 256) :: byte) = of_nat (n div 16777216 mod 256)"
      by (metis of_int_of_nat_eq of_nat_mod of_nat_numeral of_nat_div)
    also have "\<dots> = of_nat (n div 16777216)"
      by (simp add: word_of_nat_eq_iff take_bit_eq_mod)
    finally show ?thesis .
  qed
  moreover have four: "(4 :: nat) = Suc (Suc (Suc (Suc 0)))" by simp
  moreover have d2: "m div 256 div 256 = m div 65536" for m :: int using zdiv_zmult2_eq [of 256 m 256] by simp
  moreover have d3: "m div 65536 div 256 = m div 16777216" for m :: int using zdiv_zmult2_eq [of 256 m 65536] by simp
  ultimately show ?thesis unfolding uint32_def four bigEndian.simps d2 d3 by simp
qed

lemma reads_bytes:
  assumes "int (length v) \<le> m" "m \<le> 4294967295"
  shows "reads (\<lambda>r. readerBytes r m) (uint32 (length v) @ v) v"
proof -
  have n: "reads (\<lambda>r. readerNumber r 4) (uint32 (length v)) (int (length v))"
    unfolding uint32_bigEndian by (rule reads_number) (use assms in simp_all)
  show ?thesis unfolding readerBytes_def
    by (rule reads_bind [OF n]) (use assms(1) reads_fixed [of v "int (length v)"] in simp)
qed

lemma reads_text:
  assumes "isWellFormedUtf16 s" "int (length (encodeUtf8 s)) \<le> m" "m \<le> 4294967295"
  shows "reads (\<lambda>r. readerText r m) (uint32 (length (encodeUtf8 s)) @ encodeUtf8 s) s"
proof -
  have "reads (\<lambda>r. readerText r m) ((uint32 (length (encodeUtf8 s)) @ encodeUtf8 s) @ []) s"
    unfolding readerText_def
    by (rule reads_bind [OF reads_bytes [OF assms(2,3)]]) (simp add: utf8_roundtrip [OF assms(1)] reads_return)
  then show ?thesis by simp
qed

text \<open>Every field kind honours the contract.\<close>

definition putFixed :: "nat \<Rightarrow> DocumentBinaryWriter \<Rightarrow> bytes \<Rightarrow> binary_error + DocumentBinaryWriter" where
  "putFixed n w v = sbind (copyExactly v n) (writerFixed w)"

definition putNumber :: "nat \<Rightarrow> DocumentBinaryWriter \<Rightarrow> int \<Rightarrow> binary_error + DocumentBinaryWriter" where
  "putNumber width w n = (if n > MAX_SAFE_INTEGER then Inl BinaryTypeError else writerInteger w n width)"

lemma fixed_faithful:
  assumes "writer_ok w" "writerFixed w v = Inr w'"
  shows "\<exists>bs. wrote w w' bs \<and> reads (\<lambda>r. readerFixed r (int (length v))) bs v"
proof -
  have "wrote w w' v" using append_wrote(1) [OF assms(1) assms(2) [unfolded writerFixed_def]] by simp
  then show ?thesis using reads_fixed [of v "int (length v)"] by blast
qed

interpretation fixed_field: document_codec "putFixed n" "\<lambda>r. readerFixed r (int n)" for n
proof unfold_locales
  fix w x w'
  assume w: "writer_ok w" and "putFixed n w x = Inr w'"
  then have "length x = n" "writerFixed w x = Inr w'"
    by (auto simp: putFixed_def copyExactly_def split: if_splits)
  then show "\<exists>bs. wrote w w' bs \<and> reads (\<lambda>r. readerFixed r (int n)) bs x" using fixed_faithful [OF w] by blast
qed

lemma integer_wrote:
  assumes "writer_ok w" "writerInteger w n width = Inr w'"
  shows "wrote w w' (bigEndian width n)" "0 \<le> n" "n < 2 ^ (width * 8)"
proof -
  have n: "0 \<le> n" "n < 2 ^ (width * 8)" "writerAppend w (bigEndian width n) (writerMaximum w) False = Inr w'"
    using assms(2) by (auto simp: writerInteger_def writerFixed_def split: if_splits)
  show "wrote w w' (bigEndian width n)" using append_wrote(1) [OF assms(1) n(3)] by simp
  show "0 \<le> n" "n < 2 ^ (width * 8)" using n by simp_all
qed

interpretation integer8: document_codec "\<lambda>w n. writerInteger w n 8" "\<lambda>r. readerInteger r 8"
  by unfold_locales (use integer_wrote reads_integer in \<open>metis le_refl\<close>)

interpretation number8: document_codec "putNumber 8" "\<lambda>r. readerNumber r 8"
proof unfold_locales
  fix w x w'
  assume w: "writer_ok w" and p: "putNumber 8 w x = Inr w'"
  then have x: "x \<le> MAX_SAFE_INTEGER" "writerInteger w x 8 = Inr w'" by (auto simp: putNumber_def split: if_splits)
  note i = integer_wrote [OF w x(2)]
  show "\<exists>bs. wrote w w' bs \<and> reads (\<lambda>r. readerNumber r 8) bs x"
    using i(1) reads_number [OF i(2,3) _ x(1)] by auto
qed

lemma number_faithful:
  assumes "writer_ok w" "writerInteger w n width = Inr w'" "width \<le> 4"
  shows "\<exists>bs. wrote w w' bs \<and> reads (\<lambda>r. readerNumber r width) bs n"
proof -
  note i = integer_wrote [OF assms(1,2)]
  have "(2 :: int) ^ (width * 8) \<le> 2 ^ 32" using assms(3) by (intro power_increasing) simp_all
  then have "n \<le> MAX_SAFE_INTEGER" using i(3) by simp
  then show ?thesis using i(1) reads_number [OF i(2,3)] assms(3) by auto
qed

interpretation bytes_field: document_codec "\<lambda>w v. writerBytes w v m" "\<lambda>r. readerBytes r m" for m
proof unfold_locales
  fix w x w'
  assume w: "writer_ok w" and p: "writerBytes w x m = Inr w'"
  note a = append_wrote [OF w p [unfolded writerBytes_def]]
  show "\<exists>bs. wrote w w' bs \<and> reads (\<lambda>r. readerBytes r m) bs x"
    using a(1) reads_bytes [OF a(2,3)] by auto
qed

interpretation text_field: document_codec "\<lambda>w s. writerText w s m" "\<lambda>r. readerText r m" for m
proof unfold_locales
  fix w x w'
  assume w: "writer_ok w" and p: "writerText w x m = Inr w'"
  then have x: "isWellFormedUtf16 x" "writerAppend w (encodeUtf8 x) m True = Inr w'"
    by (auto simp: writerText_def writerBytes_def split: if_splits)
  note a = append_wrote [OF w x(2)]
  show "\<exists>bs. wrote w w' bs \<and> reads (\<lambda>r. readerText r m) bs x"
    using a(1) reads_text [OF x(1) a(2,3)] by auto
qed

interpretation context_field: document_codec writeDocumentContext readDocumentContext
proof unfold_locales
  fix w x w'
  assume w: "writer_ok w" and p: "writeDocumentContext w x = Inr w'"
  obtain w1 w2 w3 w4 w5 w6 where c: "writerText w (protocolId x) 128 = Inr w1"
    "writerInteger w1 (protocolVersion x) 2 = Inr w2" "writerBytes w2 (groupId x) 512 = Inr w3"
    "writerInteger w3 (epoch x) 8 = Inr w4" "writerBytes w4 (treeHash x) 128 = Inr w5"
    "writerBytes w5 (confirmedTranscriptHash x) 128 = Inr w6" "putFixed 32 w6 (controlHead x) = Inr w'"
    using p by (auto simp: writeDocumentContext_def sbind_Inr_iff putFixed_def)
  obtain b1 where 1: "wrote w w1 b1" "reads (\<lambda>r. readerText r 128) b1 (protocolId x)"
    using text_field.faithful [OF w c(1)] by blast
  obtain b2 where 2: "wrote w1 w2 b2" "reads (\<lambda>r. readerNumber r 2) b2 (protocolVersion x)"
    using number_faithful [OF wrote_ok [OF 1(1)] c(2)] by auto
  obtain b3 where 3: "wrote w2 w3 b3" "reads (\<lambda>r. readerBytes r 512) b3 (groupId x)"
    using bytes_field.faithful [OF wrote_ok [OF 2(1)] c(3)] by blast
  obtain b4 where 4: "wrote w3 w4 b4" "reads (\<lambda>r. readerInteger r 8) b4 (epoch x)"
    using integer8.faithful [OF wrote_ok [OF 3(1)] c(4)] by blast
  obtain b5 where 5: "wrote w4 w5 b5" "reads (\<lambda>r. readerBytes r 128) b5 (treeHash x)"
    using bytes_field.faithful [OF wrote_ok [OF 4(1)] c(5)] by blast
  obtain b6 where 6: "wrote w5 w6 b6" "reads (\<lambda>r. readerBytes r 128) b6 (confirmedTranscriptHash x)"
    using bytes_field.faithful [OF wrote_ok [OF 5(1)] c(6)] by blast
  obtain b7 where 7: "wrote w6 w' b7" "reads (\<lambda>r. readerFixed r 32) b7 (controlHead x)"
    using fixed_field.faithful [OF wrote_ok [OF 6(1)] c(7)] by auto
  have "wrote w w' (((((((b1 @ b2) @ b3) @ b4) @ b5) @ b6) @ b7))"
    by (rule wrote_trans wrote_trans 1(1) 2(1) 3(1) 4(1) 5(1) 6(1) 7(1))+
  moreover have "reads readDocumentContext (b1 @ b2 @ b3 @ b4 @ b5 @ b6 @ b7 @ []) x"
    unfolding readDocumentContext_def
    by (rule reads_bind [OF 1(2)], rule reads_bind [OF 2(2)], rule reads_bind [OF 3(2)],
        rule reads_bind [OF 4(2)], rule reads_bind [OF 5(2)], rule reads_bind [OF 6(2)],
        rule reads_bind [OF 7(2)]) (cases x, simp add: reads_return)
  ultimately show "\<exists>bs. wrote w w' bs \<and> reads readDocumentContext bs x" by auto
qed


section \<open>Whole frames\<close>

definition before :: "DocumentBinaryReader \<Rightarrow> bytes \<Rightarrow> bool" where
  "before r rest \<longleftrightarrow> drop (readerOffset r) (readerData r) = rest \<and> readerOffset r \<le> length (readerData r) \<and>
     int (length (readerData r)) \<le> 4294967295"

lemma read_step:
  assumes "reads g bs x" and "before r (bs @ rest)" and "\<And>r'. before r' rest \<Longrightarrow> k (x, r') = y"
  shows "sbind (g r) k = y"
proof -
  have g: "g r = Inr (x, r\<lparr>readerOffset := readerOffset r + length bs\<rparr>)"
    using assms(1,2) by (auto simp: reads_def before_def)
  have d: "drop (readerOffset r) (readerData r) = bs @ rest" "readerOffset r \<le> length (readerData r)"
    "int (length (readerData r)) \<le> 4294967295" using assms(2) by (auto simp: before_def)
  have "length (readerData r) - readerOffset r = length bs + length rest"
    using arg_cong [OF d(1), of length] by (simp only: length_drop length_append)
  moreover have "drop (length bs) (drop (readerOffset r) (readerData r)) = rest" using d(1) by simp
  ultimately have "before (r\<lparr>readerOffset := readerOffset r + length bs\<rparr>) rest"
    using d(2,3) by (simp add: before_def add.commute)
  then show ?thesis using g assms(3) by simp
qed

lemma read_end: "before r [] \<Longrightarrow> readerEnd r = Inr ()"
  by (simp add: before_def readerEnd_def)

lemma read_begin:
  assumes "newWriter maximum = Inr w" "wrote w w' bs"
  shows "newReader (writerFinish w') maximum = Inr \<lparr>readerData = bs, readerOffset = 0\<rparr>"
    and "before \<lparr>readerData = bs, readerOffset = 0\<rparr> bs"
  using assms by (auto simp: newWriter_def wrote_def writer_ok_def newReader_def before_def writerFinish_def
      split: if_splits)

lemma new_writer_ok: "newWriter m = Inr w \<Longrightarrow> writer_ok w"
  by (auto simp: newWriter_def writer_ok_def writerFinish_def split: if_splits)

text \<open>
  C36: Document content frames survive the wire. Whatever frame is encoded, with
  any text, sequence number, context and payload within the bounds the encoder
  enforces, decoding the bytes returns the same frame.
\<close>

theorem documentContent_roundtrip:
  assumes "encodeDocumentContent frame = Inr wire"
  shows "decodeDocumentContent wire = Inr frame"
proof -
  define k where "k = (if contentKind frame = ChangeContent then 0 else 1 :: int)"
  obtain w0 w1 w2 w3 w4 w5 w6 w7 w8 w9 w10 where n: "newWriter (1024 * 1024) = Inr w0"
    and c: "writerFixed w0 MAGIC = Inr w1" "writerText w1 (contentDocumentId frame) (16 * 1024) = Inr w2"
    "putFixed 32 w2 (contentGenesisId frame) = Inr w3" "putFixed 32 w3 (contentAuthorityHead frame) = Inr w4"
    "writeDocumentContext w4 (contentContext frame) = Inr w5" "putFixed 32 w5 (contentMemberId frame) = Inr w6"
    "putNumber 8 w6 (contentSequence frame) = Inr w7" "putFixed 32 w7 (contentParent frame) = Inr w8"
    "writerInteger w8 k 1 = Inr w9" "writerBytes w9 (contentChanges frame) MAX_DOCUMENT_CONTENT_BYTES = Inr w10"
    "wire = writerFinish w10" and sq: "1 \<le> contentSequence frame"
    using assms unfolding k_def
    by (auto simp: encodeDocumentContent_def sbind_Inr_iff putFixed_def putNumber_def split: if_splits)
  obtain b1 where 1: "wrote w0 w1 b1" "reads (\<lambda>r. readerFixed r (int (length MAGIC))) b1 MAGIC"
    using fixed_faithful [OF new_writer_ok [OF n] c(1)] by blast
  obtain b2 where 2: "wrote w1 w2 b2" "reads (\<lambda>r. readerText r (16 * 1024)) b2 (contentDocumentId frame)"
    using text_field.faithful [OF wrote_ok [OF 1(1)] c(2)] by blast
  obtain b3 where 3: "wrote w2 w3 b3" "reads (\<lambda>r. readerFixed r 32) b3 (contentGenesisId frame)"
    using fixed_field.faithful [OF wrote_ok [OF 2(1)] c(3)] by auto
  obtain b4 where 4: "wrote w3 w4 b4" "reads (\<lambda>r. readerFixed r 32) b4 (contentAuthorityHead frame)"
    using fixed_field.faithful [OF wrote_ok [OF 3(1)] c(4)] by auto
  obtain b5 where 5: "wrote w4 w5 b5" "reads readDocumentContext b5 (contentContext frame)"
    using context_field.faithful [OF wrote_ok [OF 4(1)] c(5)] by blast
  obtain b6 where 6: "wrote w5 w6 b6" "reads (\<lambda>r. readerFixed r 32) b6 (contentMemberId frame)"
    using fixed_field.faithful [OF wrote_ok [OF 5(1)] c(6)] by auto
  obtain b7 where 7: "wrote w6 w7 b7" "reads (\<lambda>r. readerNumber r 8) b7 (contentSequence frame)"
    using number8.faithful [OF wrote_ok [OF 6(1)] c(7)] by blast
  obtain b8 where 8: "wrote w7 w8 b8" "reads (\<lambda>r. readerFixed r 32) b8 (contentParent frame)"
    using fixed_field.faithful [OF wrote_ok [OF 7(1)] c(8)] by auto
  obtain b9 where 9: "wrote w8 w9 b9" "reads (\<lambda>r. readerNumber r 1) b9 k"
    using number_faithful [OF wrote_ok [OF 8(1)] c(9)] by auto
  obtain b10 where 10: "wrote w9 w10 b10"
    "reads (\<lambda>r. readerBytes r MAX_DOCUMENT_CONTENT_BYTES) b10 (contentChanges frame)"
    using bytes_field.faithful [OF wrote_ok [OF 9(1)] c(10)] by blast
  have "wrote w0 w10 (((((((((b1 @ b2) @ b3) @ b4) @ b5) @ b6) @ b7) @ b8) @ b9) @ b10)"
    by (rule wrote_trans 1(1) 2(1) 3(1) 4(1) 5(1) 6(1) 7(1) 8(1) 9(1) 10(1))+
  then have all: "wrote w0 w10 (b1 @ b2 @ b3 @ b4 @ b5 @ b6 @ b7 @ b8 @ b9 @ b10 @ [])" by simp
  note start = read_begin [OF n all]
  have nc: "(contentSequence frame = 0 \<or> k > 1) = False" using sq by (simp add: k_def)
  have kind: "(if k = 0 then ChangeContent else SnapshotContent) = contentKind frame"
    by (cases "contentKind frame") (simp_all add: k_def)
  show ?thesis
    unfolding decodeDocumentContent_def c(11) start(1) sbind_simps
    apply (rule read_step [OF 1(2) start(2)], simp only: prod.case documentBytesEqual_def equalBytes_iff simp_thms if_False)
    apply (rule read_step [OF 2(2)], assumption, simp only: prod.case)
    apply (rule read_step [OF 3(2)], assumption, simp only: prod.case)
    apply (rule read_step [OF 4(2)], assumption, simp only: prod.case)
    apply (rule read_step [OF 5(2)], assumption, simp only: prod.case)
    apply (rule read_step [OF 6(2)], assumption, simp only: prod.case)
    apply (rule read_step [OF 7(2)], assumption, simp only: prod.case)
    apply (rule read_step [OF 8(2)], assumption, simp only: prod.case)
    apply (rule read_step [OF 9(2)], assumption)
    apply (simp only: prod.case nc if_False)
    apply (rule read_step [OF 10(2)], assumption, simp only: prod.case read_end sbind_simps kind)
    apply (cases frame, simp)
    done
qed

definition sample_context :: GroupSecurityDocumentContext where
  "sample_context = \<lparr>protocolId = [109, 108, 115], protocolVersion = 1, groupId = [1, 2], epoch = 7,
     treeHash = [3], confirmedTranscriptHash = [4], controlHead = replicate 32 5\<rparr>"

definition sample_frame :: DocumentContentFrame where
  "sample_frame = \<lparr>contentDocumentId = [100], contentGenesisId = replicate 32 1,
     contentAuthorityHead = replicate 32 2, contentContext = sample_context, contentMemberId = replicate 32 3,
     contentSequence = 9, contentParent = replicate 32 4, contentKind = SnapshotContent, contentChanges = [8, 8]\<rparr>"

lemma sample_frame_encodes: "\<exists>wire. encodeDocumentContent sample_frame = Inr wire"
proof -
  have "isWellFormedUtf16 [100]" "isWellFormedUtf16 [109, 108, 115]"
    by (simp_all add: isWellFormedUtf16_iff isHighSurrogate_def isLowSurrogate_def)
  moreover have "length (encodeUtf8 [100]) = 1" "length (encodeUtf8 [109, 108, 115]) = 3"
    by (simp_all add: encodeUtf8_def isHighSurrogate_def isLowSurrogate_def length_utf8Point)
  moreover have "length MAGIC = 30" by (simp add: MAGIC_def ascii_bytes_def)
  ultimately show ?thesis
    by (simp add: encodeDocumentContent_def sample_frame_def sample_context_def newWriter_def writerFixed_def
        writerAppend_def writerText_def writerBytes_def writerInteger_def writeDocumentContext_def copyExactly_def
        planDocumentFieldWrite_def boundedFieldEnd_def Let_def MAX_DOCUMENT_CONTENT_BYTES_def)
qed

theorem documentContent_roundtrip_witness:
  "\<exists>wire. encodeDocumentContent sample_frame = Inr wire \<and> decodeDocumentContent wire = Inr sample_frame"
proof -
  obtain wire where w: "encodeDocumentContent sample_frame = Inr wire" using sample_frame_encodes by blast
  then show ?thesis using documentContent_roundtrip [OF w] by blast
qed

lemma signedContent_roundtrip:
  assumes e: "encodeSignedDocumentContent content signature = Inr wire" and s: "signature \<noteq> []"
  shows "decodeSignedDocumentContent wire = Inr (content, signature)"
proof -
  obtain w0 w1 w2 where n: "newWriter (1024 * 1024) = Inr w0"
    and c: "writerBytes w0 content (MAX_DOCUMENT_SECURITY_FRAME_BYTES - 2048) = Inr w1"
    "writerBytes w1 signature 1024 = Inr w2" "wire = writerFinish w2"
    using e by (auto simp: encodeSignedDocumentContent_def sbind_Inr_iff)
  obtain b1 where 1: "wrote w0 w1 b1"
    "reads (\<lambda>r. readerBytes r (MAX_DOCUMENT_SECURITY_FRAME_BYTES - 2048)) b1 content"
    using bytes_field.faithful [OF new_writer_ok [OF n] c(1)] by blast
  obtain b2 where 2: "wrote w1 w2 b2" "reads (\<lambda>r. readerBytes r 1024) b2 signature"
    using bytes_field.faithful [OF wrote_ok [OF 1(1)] c(2)] by blast
  have all: "wrote w0 w2 (b1 @ b2 @ [])" using wrote_trans [OF 1(1) 2(1)] by simp
  note start = read_begin [OF n all]
  show ?thesis
    unfolding decodeSignedDocumentContent_def c(3) start(1) sbind_simps
    by (rule read_step [OF 1(2) start(2)], simp only: prod.case, rule read_step [OF 2(2)], assumption)
      (simp add: read_end s)
qed

lemma encryptedContent_roundtrip:
  assumes e: "encodeEncryptedDocumentContent tag nonce ciphertext = Inr wire" and s: "16 \<le> length ciphertext"
  shows "decodeEncryptedDocumentContent wire = Inr (tag, nonce, ciphertext)"
proof -
  obtain w0 w1 w2 w3 w4 where n: "newWriter (1024 * 1024) = Inr w0"
    and c: "writerFixed w0 ENCRYPTED_MAGIC = Inr w1" "putFixed 16 w1 tag = Inr w2" "putFixed 12 w2 nonce = Inr w3"
    "writerBytes w3 ciphertext (MAX_DOCUMENT_SECURITY_FRAME_BYTES - 64) = Inr w4" "wire = writerFinish w4"
    using e by (auto simp: encodeEncryptedDocumentContent_def sbind_Inr_iff putFixed_def)
  have four: "int (length ENCRYPTED_MAGIC) = 4" by (simp add: ENCRYPTED_MAGIC_def)
  obtain b1 where 1: "wrote w0 w1 b1" "reads (\<lambda>r. readerFixed r 4) b1 ENCRYPTED_MAGIC"
    using fixed_faithful [OF new_writer_ok [OF n] c(1)] unfolding four by blast
  obtain b2 where 2: "wrote w1 w2 b2" "reads (\<lambda>r. readerFixed r 16) b2 tag"
    using fixed_field.faithful [OF wrote_ok [OF 1(1)] c(2)] by auto
  obtain b3 where 3: "wrote w2 w3 b3" "reads (\<lambda>r. readerFixed r 12) b3 nonce"
    using fixed_field.faithful [OF wrote_ok [OF 2(1)] c(3)] by auto
  obtain b4 where 4: "wrote w3 w4 b4"
    "reads (\<lambda>r. readerBytes r (MAX_DOCUMENT_SECURITY_FRAME_BYTES - 64)) b4 ciphertext"
    using bytes_field.faithful [OF wrote_ok [OF 3(1)] c(4)] by blast
  have all: "wrote w0 w4 (b1 @ b2 @ b3 @ b4 @ [])"
    using wrote_trans [OF wrote_trans [OF wrote_trans [OF 1(1) 2(1)] 3(1)] 4(1)] by simp
  note start = read_begin [OF n all]
  show ?thesis
    unfolding decodeEncryptedDocumentContent_def c(5) start(1) sbind_simps
    by (rule read_step [OF 1(2) start(2)],
        simp only: prod.case documentBytesEqual_def equalBytes_iff simp_thms if_False,
        rule read_step [OF 2(2)], assumption, simp only: prod.case, rule read_step [OF 3(2)], assumption,
        simp only: prod.case, rule read_step [OF 4(2)], assumption)
      (use s in \<open>simp add: read_end\<close>)
qed

text \<open>
  C37: Sealed frames survive the wire. The signed and the encrypted envelope are
  read back with the same parts whenever the signature is not empty and the
  ciphertext has room for its tag, the two things their decoders insist on.
\<close>

theorem documentEnvelope_roundtrip:
  assumes "encodeSignedDocumentContent content signature = Inr sig_wire" and "signature \<noteq> []"
    and "encodeEncryptedDocumentContent tag nonce ciphertext = Inr sealed" and "16 \<le> length ciphertext"
  shows "decodeSignedDocumentContent sig_wire = Inr (content, signature) \<and>
    decodeEncryptedDocumentContent sealed = Inr (tag, nonce, ciphertext)"
  using signedContent_roundtrip [OF assms(1,2)] encryptedContent_roundtrip [OF assms(3,4)] by blast

theorem documentEnvelope_roundtrip_witness:
  "\<exists>sig_wire sealed. encodeSignedDocumentContent [1, 2] [3] = Inr sig_wire \<and>
     encodeEncryptedDocumentContent (replicate 16 0) (replicate 12 1) (replicate 20 2) = Inr sealed \<and>
     decodeSignedDocumentContent sig_wire = Inr ([1, 2], [3]) \<and>
     decodeEncryptedDocumentContent sealed = Inr (replicate 16 0, replicate 12 1, replicate 20 2)"
proof -
  obtain sig_wire where a: "encodeSignedDocumentContent [1, 2] [3] = Inr sig_wire"
    by (simp add: encodeSignedDocumentContent_def newWriter_def writerBytes_def writerAppend_def
        planDocumentFieldWrite_def boundedFieldEnd_def Let_def MAX_DOCUMENT_SECURITY_FRAME_BYTES_def)
  obtain sealed where b: "encodeEncryptedDocumentContent (replicate 16 0) (replicate 12 1) (replicate 20 2) = Inr sealed"
    by (simp add: encodeEncryptedDocumentContent_def newWriter_def writerBytes_def writerFixed_def writerAppend_def
        planDocumentFieldWrite_def boundedFieldEnd_def Let_def MAX_DOCUMENT_SECURITY_FRAME_BYTES_def copyExactly_def
        ENCRYPTED_MAGIC_def)
  show ?thesis using documentEnvelope_roundtrip [OF a _ b] a b by simp
qed

text \<open>
  Contexts are compared exactly. The comparison of two contexts through
  their encodings, when both can be encoded, is equality of every component:
  protocol, version, group, epoch, tree hash, transcript and control head.
\<close>

theorem documentContextsMatch_exact:
  assumes "documentContextsMatch a b = Inr same"
  shows "same \<longleftrightarrow> a = b"
proof -
  obtain w x y where n: "newWriter (1024 * 1024) = Inr w" and c: "writeDocumentContext w a = Inr x"
    "writeDocumentContext w b = Inr y" "same = documentBytesEqual (writerFinish x) (writerFinish y)"
    using assms by (auto simp: documentContextsMatch_def sbind_Inr_iff)
  then show ?thesis using context_field.injective [OF n c(1,2)] by (auto simp: documentBytesEqual_def)
qed

theorem documentContextsMatch_exact_witness:
  "documentContextsMatch sample_context (sample_context\<lparr>epoch := 8\<rparr>) = Inr False"
proof -
  have m: "\<exists>w. writeDocumentContext \<lparr>writerParts = [], writerLength = 0, writerMaximum = 1048576\<rparr>
      (sample_context\<lparr>epoch := e\<rparr>) = Inr w" if "0 \<le> e" "e < 100" for e
  proof -
    have "isWellFormedUtf16 [109, 108, 115]"
      by (simp add: isWellFormedUtf16_iff isHighSurrogate_def isLowSurrogate_def)
    moreover have "length (encodeUtf8 [109, 108, 115]) = 3"
      by (simp add: encodeUtf8_def isHighSurrogate_def isLowSurrogate_def length_utf8Point)
    ultimately show ?thesis using that
      by (simp add: sample_context_def writerFixed_def writerAppend_def writerText_def writerBytes_def
          writerInteger_def writeDocumentContext_def copyExactly_def planDocumentFieldWrite_def
          boundedFieldEnd_def Let_def)
  qed
  obtain same where s: "documentContextsMatch sample_context (sample_context\<lparr>epoch := 8\<rparr>) = Inr same"
    using m [of 7] m [of 8] by (auto simp: documentContextsMatch_def newWriter_def sample_context_def)
  moreover have "sample_context \<noteq> sample_context\<lparr>epoch := 8\<rparr>" by (simp add: sample_context_def)
  ultimately show ?thesis using documentContextsMatch_exact [OF s] by simp
qed

end
