(* ===== verification/Journal_Store.thy ===== *)
theory Journal_Store
  imports Document_Binary
begin

text \<open>
  \<open>packages/core/src/policy/journal-store.ts\<close>, \<open>journal-index.ts\<close>, the read plan of
  \<open>document-journal.ts\<close>, and \<open>document-journal-store.ts\<close>: the write-ahead log of a
  document in its two implementations, the in-memory reference store and the
  IndexedDB store. A store operation returns the new store or the error it
  throws; an IndexedDB transaction that aborts leaves its object stores as they
  were, so an error means an unchanged store in both. The four object stores are
  maps; IndexedDB delivers the results of a transaction's requests in the order
  in which they were made.
\<close>


section \<open>Definitions\<close>

subsection \<open>The kernel\<close>

record JournalPublicationIndex =
  indexId :: string
  indexBytes :: int

datatype publication_decision = PublicationAccept | PublicationDuplicate | PublicationCapacity

record JournalPublicationPlan =
  planDecision :: publication_decision
  planPublications :: "JournalPublicationIndex list"
  planRetained :: "nat list"
  planBytes :: int

fun planJournalPublication_loop ::
    "JournalPublicationIndex list \<Rightarrow> nat list \<Rightarrow> int \<Rightarrow> nat \<Rightarrow> JournalPublicationIndex list \<Rightarrow> string \<Rightarrow> bool
      \<Rightarrow> (JournalPublicationIndex list \<times> nat list \<times> int) option" where
  "planJournalPublication_loop next_pubs retained tot index [] pid adding = Some (next_pubs, retained, tot)"
| "planJournalPublication_loop next_pubs retained tot index (p # ps) pid adding =
     (if adding \<and> indexId p = pid then None
      else if adding \<or> indexId p \<noteq> pid then
        planJournalPublication_loop (next_pubs @ [p]) (retained @ [index]) (tot + indexBytes p) (index + 1) ps pid adding
      else planJournalPublication_loop next_pubs retained tot (index + 1) ps pid adding)"

definition refusedPlan :: "publication_decision \<Rightarrow> JournalPublicationPlan" where
  "refusedPlan d = \<lparr>planDecision = d, planPublications = [], planRetained = [], planBytes = 0\<rparr>"

definition planJournalPublication ::
    "JournalPublicationIndex list \<Rightarrow> string \<Rightarrow> int \<Rightarrow> bool \<Rightarrow> JournalPublicationPlan" where
  "planJournalPublication publications pid nbytes adding =
     (case planJournalPublication_loop [] [] 0 0 publications pid adding of
        None \<Rightarrow> refusedPlan PublicationDuplicate
      | Some (next_pubs, retained, tot) \<Rightarrow>
          if tot > 16777216 \<or> (adding \<and> (length publications \<ge> 16 \<or> nbytes > 16777216 - tot))
          then refusedPlan PublicationCapacity
          else \<lparr>planDecision = PublicationAccept,
                planPublications = (if adding then next_pubs @ [\<lparr>indexId = pid, indexBytes = nbytes\<rparr>] else next_pubs),
                planRetained = retained,
                planBytes = (if adding then tot + nbytes else tot)\<rparr>)"

datatype stage_decision = StageAccept | StageConflict | StageCapacity

definition classifyJournalStage :: "int \<Rightarrow> int \<Rightarrow> bool \<Rightarrow> bool \<Rightarrow> int \<Rightarrow> int \<Rightarrow> int \<Rightarrow> stage_decision" where
  "classifyJournalStage revision expected hasPending checkpoint entries retainedBytes entryBytes =
     (if revision \<noteq> expected \<or> revision = 9007199254740991 \<or> hasPending then StageConflict
      else if entryBytes > 134217728 - 32 \<or>
        (\<not> checkpoint \<and> (entries \<ge> 128 \<or> entryBytes + 32 > 134217728 - retainedBytes)) then StageCapacity
      else StageAccept)"

definition isJournalCommitCurrent :: "int \<Rightarrow> int \<Rightarrow> bool \<Rightarrow> bool \<Rightarrow> bool \<Rightarrow> bool" where
  "isJournalCommitCurrent revision expected hasPending sameToken sameCheckpoint \<longleftrightarrow>
     revision = expected \<and> revision < 9007199254740991 \<and> hasPending \<and> sameToken \<and> sameCheckpoint"

fun isDocumentJournalIndexValid_loop :: "int \<Rightarrow> int \<Rightarrow> nat \<Rightarrow> int list \<Rightarrow> int option" where
  "isDocumentJournalIndexValid_loop revision previous index [] = Some previous"
| "isDocumentJournalIndexValid_loop revision previous index (current # rest) =
     (if current < 1 \<or> current > revision \<or> (index > 0 \<and> current - previous \<noteq> 1) then None
      else isDocumentJournalIndexValid_loop revision current (index + 1) rest)"

definition isDocumentJournalIndexValid :: "int \<Rightarrow> int list \<Rightarrow> int \<Rightarrow> bool" where
  "isDocumentJournalIndexValid revision revisions nbytes =
     (if length revisions > 128 \<or> nbytes < int (length revisions) then False
      else if revisions = [] then revision = 0 \<and> nbytes = 0
      else isDocumentJournalIndexValid_loop revision 0 0 revisions = Some revision)"

record DocumentJournalReadPlan =
  readEntries :: nat
  readPublicationRows :: nat
  readPending :: bool
  readPendingToken :: bool
  readRows :: nat

definition planDocumentJournalRead :: "nat \<Rightarrow> nat \<Rightarrow> bool \<Rightarrow> bool \<Rightarrow> DocumentJournalReadPlan" where
  "planDocumentJournalRead entries publications hasPending recovery =
     (let publicationReads = (if recovery then 0 else publications);
          pending = (hasPending \<and> \<not> recovery)
      in \<lparr>readEntries = entries, readPublicationRows = publicationReads, readPending = pending,
          readPendingToken = (hasPending \<and> recovery),
          readRows = 1 + entries + publicationReads + (if pending then 1 else 0)\<rparr>)"

subsection \<open>Values and checks\<close>

definition MAX_DOCUMENT_JOURNAL_ENTRIES :: nat where
  "MAX_DOCUMENT_JOURNAL_ENTRIES = 128"

definition MAX_DOCUMENT_JOURNAL_BYTES :: int where
  "MAX_DOCUMENT_JOURNAL_BYTES = 128 * 1024 * 1024"

definition DOCUMENT_JOURNAL_ACCEPTED_OVERHEAD :: int where
  "DOCUMENT_JOURNAL_ACCEPTED_OVERHEAD = 32"

definition MAX_DOCUMENT_STORED_PUBLICATION_BYTES :: int where
  "MAX_DOCUMENT_STORED_PUBLICATION_BYTES = 1024 * 1024 + 72"

datatype journal_error =
    JournalInput | JournalConflict | JournalCapacity | JournalDuplicate | JournalCorrupt

record DocumentJournalPublication =
  pubId :: bytes
  pubFrame :: bytes

record DocumentJournalStagedPublication =
  stagedId :: bytes
  stagedBytes :: int

record journal_pending =
  pendingToken :: bytes
  pendingEntry :: bytes
  pendingPublication :: "DocumentJournalStagedPublication option"

record DocumentJournalSnapshot =
  journalRevision :: int
  journalEntries :: "bytes list"
  journalPublications :: "DocumentJournalPublication list option"
  journalPending :: "journal_pending option"

definition copyBytes :: "bytes \<Rightarrow> int \<Rightarrow> int \<Rightarrow> journal_error + bytes" where
  "copyBytes b minimum maximum =
     (if int (length b) < minimum \<or> int (length b) > maximum then Inl JournalInput else Inr b)"

definition publicationId :: "bytes \<Rightarrow> string" where
  "publicationId b = hex_bytes b"

definition assertJournalMutationInputs :: "int \<Rightarrow> journal_error + unit" where
  "assertJournalMutationInputs revision = require (safe_nat revision) JournalInput"

definition publicationIndex :: "DocumentJournalPublication list \<Rightarrow> JournalPublicationIndex list" where
  "publicationIndex ps = map (\<lambda>p. \<lparr>indexId = publicationId (pubId p), indexBytes = int (length (pubFrame p))\<rparr>) ps"

definition requirePublicationPlan :: "JournalPublicationPlan \<Rightarrow> journal_error + JournalPublicationPlan" where
  "requirePublicationPlan plan =
     (case planDecision plan of
        PublicationDuplicate \<Rightarrow> Inl JournalDuplicate
      | PublicationCapacity \<Rightarrow> Inl JournalCapacity
      | PublicationAccept \<Rightarrow> Inr plan)"

definition copyIndexedJournalBytes ::
    "bytes option \<Rightarrow> int \<Rightarrow> int \<Rightarrow> bool \<Rightarrow> journal_error + bytes \<times> int" where
  "copyIndexedJournalBytes value declared copied exact =
     (case value of
        None \<Rightarrow> Inl JournalInput
      | Some b \<Rightarrow>
          if int (length b) < 1 \<or> int (length b) > MAX_DOCUMENT_JOURNAL_BYTES then Inl JournalInput
          else
            (let fieldEnd = boundedFieldEnd declared copied (int (length b)) (if exact then declared else 1)
                   (if exact then declared else MAX_DOCUMENT_JOURNAL_BYTES) 0
             in if fieldEnd < 0 then Inl JournalCorrupt else Inr (b, fieldEnd)))"

definition ownPublication :: "DocumentJournalPublication \<Rightarrow> journal_error + DocumentJournalPublication" where
  "ownPublication p =
     sbind (copyBytes (pubId p) 32 32) (\<lambda>i.
     sbind (copyBytes (pubFrame p) 1 MAX_DOCUMENT_STORED_PUBLICATION_BYTES) (\<lambda>f.
       Inr \<lparr>pubId = i, pubFrame = f\<rparr>))"

definition ownStagedPublication ::
    "DocumentJournalStagedPublication \<Rightarrow> journal_error + DocumentJournalStagedPublication" where
  "ownStagedPublication p =
     (if stagedBytes p < 1 \<or> stagedBytes p > MAX_DOCUMENT_STORED_PUBLICATION_BYTES then Inl JournalInput
      else sbind (copyBytes (stagedId p) 32 32) (\<lambda>i. Inr \<lparr>stagedId = i, stagedBytes = stagedBytes p\<rparr>))"

fun mapCheck :: "('a \<Rightarrow> 'e + 'b) \<Rightarrow> 'a list \<Rightarrow> 'e + 'b list" where
  "mapCheck f [] = Inr []"
| "mapCheck f (x # xs) = sbind (f x) (\<lambda>y. sbind (mapCheck f xs) (\<lambda>ys. Inr (y # ys)))"

definition optCheck :: "('a \<Rightarrow> 'e + 'b) \<Rightarrow> 'a option \<Rightarrow> 'e + 'b option" where
  "optCheck f x = (case x of None \<Rightarrow> Inr None | Some a \<Rightarrow> sbind (f a) (\<lambda>b. Inr (Some b)))"

definition totalBytes :: "bytes list \<Rightarrow> int" where
  "totalBytes es = sum_list (map (\<lambda>e. int (length e)) es)"

definition publicationsOf :: "DocumentJournalSnapshot \<Rightarrow> DocumentJournalPublication list" where
  "publicationsOf s = (case journalPublications s of None \<Rightarrow> [] | Some ps \<Rightarrow> ps)"

subsection \<open>The in-memory store\<close>

text \<open>The stored snapshots also remember the checkpoint flag of the pending entry.\<close>

record mem_document =
  memSnapshot :: DocumentJournalSnapshot
  memCheckpoint :: bool

type_synonym mem_store = "(string, mem_document) jsmap"

fun cloneEntries :: "int \<Rightarrow> bytes list \<Rightarrow> journal_error + bytes list" where
  "cloneEntries n [] = Inr []"
| "cloneEntries n (e # es) =
     sbind (copyBytes e 1 (MAX_DOCUMENT_JOURNAL_BYTES - n)) (\<lambda>o1.
     sbind (cloneEntries (n + int (length o1)) es) (\<lambda>os. Inr (o1 # os)))"

definition clonePending :: "journal_pending \<Rightarrow> journal_error + journal_pending" where
  "clonePending p =
     sbind (copyBytes (pendingToken p) 32 32) (\<lambda>t.
     sbind (copyBytes (pendingEntry p) 1 MAX_DOCUMENT_JOURNAL_BYTES) (\<lambda>e.
     sbind (optCheck ownStagedPublication (pendingPublication p)) (\<lambda>r.
       Inr \<lparr>pendingToken = t, pendingEntry = e, pendingPublication = r\<rparr>)))"

definition emptySnapshot :: DocumentJournalSnapshot where
  "emptySnapshot = \<lparr>journalRevision = 0, journalEntries = [], journalPublications = None, journalPending = None\<rparr>"

definition clone :: "DocumentJournalSnapshot option \<Rightarrow> journal_error + DocumentJournalSnapshot" where
  "clone value =
     (case value of
        None \<Rightarrow> Inr emptySnapshot
      | Some s \<Rightarrow>
          if \<not> safe_nat (journalRevision s) \<or> length (journalEntries s) > MAX_DOCUMENT_JOURNAL_ENTRIES
          then Inl JournalCorrupt
          else
            sbind (cloneEntries 0 (journalEntries s)) (\<lambda>es.
            if (case journalPublications s of None \<Rightarrow> False | Some ps \<Rightarrow> length ps > 16) then Inl JournalCorrupt
            else
              sbind (mapCheck ownPublication (publicationsOf s)) (\<lambda>ps.
              if length ps > 16 \<or> totalBytes (map pubFrame ps) > 16 * 1024 * 1024 then Inl JournalCorrupt
              else
                sbind (optCheck clonePending (journalPending s)) (\<lambda>pending.
                  Inr \<lparr>journalRevision = journalRevision s, journalEntries = es,
                       journalPublications = Some ps, journalPending = pending\<rparr>))))"

definition cloneInMemory :: "mem_document option \<Rightarrow> journal_error + mem_document" where
  "cloneInMemory value =
     sbind (clone (map_option memSnapshot value)) (\<lambda>s.
       Inr \<lparr>memSnapshot = s, memCheckpoint = (case value of None \<Rightarrow> False | Some d \<Rightarrow> memCheckpoint d)\<rparr>)"

definition staged ::
    "mem_document \<Rightarrow> int \<Rightarrow> bytes \<Rightarrow> bytes \<Rightarrow> DocumentJournalStagedPublication option \<Rightarrow> bool
      \<Rightarrow> journal_error + mem_document" where
  "staged current revision token entry publication checkpoint =
     (let s = memSnapshot current in
      case classifyJournalStage (journalRevision s) revision (journalPending s \<noteq> None) checkpoint
             (int (length (journalEntries s))) (totalBytes (journalEntries s)) (int (length entry)) of
        StageConflict \<Rightarrow> Inl JournalConflict
      | StageCapacity \<Rightarrow> Inl JournalCapacity
      | StageAccept \<Rightarrow>
          sbind (optCheck (\<lambda>p. requirePublicationPlan (planJournalPublication (publicationIndex (publicationsOf s))
                    (publicationId (stagedId p)) (stagedBytes p) True)) publication) (\<lambda>_.
            Inr \<lparr>memSnapshot = s\<lparr>journalPending := Some \<lparr>pendingToken = token, pendingEntry = entry,
                                   pendingPublication = publication\<rparr>\<rparr>,
                 memCheckpoint = checkpoint\<rparr>))"

definition committed ::
    "mem_document \<Rightarrow> int \<Rightarrow> bytes \<Rightarrow> bool \<Rightarrow> bytes \<Rightarrow> DocumentJournalPublication option
      \<Rightarrow> journal_error + mem_document" where
  "committed current revision token checkpoint acceptedEntry acceptedPublication =
     (let s = memSnapshot current in
      case journalPending s of
        None \<Rightarrow> Inl JournalConflict
      | Some pending \<Rightarrow>
     (if \<not> isJournalCommitCurrent (journalRevision s) revision True
             (documentBytesEqual (pendingToken pending) token) (memCheckpoint current = checkpoint)
      then Inl JournalConflict
      else if int (length acceptedEntry) \<noteq> int (length (pendingEntry pending)) + DOCUMENT_JOURNAL_ACCEPTED_OVERHEAD
      then Inl JournalConflict
      else if (pendingPublication pending \<noteq> None) \<noteq> (acceptedPublication \<noteq> None) \<or>
        (case (acceptedPublication, pendingPublication pending) of
           (Some a, Some r) \<Rightarrow> \<not> documentBytesEqual (pubId a) (stagedId r) \<or> int (length (pubFrame a)) \<noteq> stagedBytes r
         | _ \<Rightarrow> False)
      then Inl JournalConflict
      else
        (let entries = (if checkpoint then [acceptedEntry] else journalEntries s @ [acceptedEntry])
         in if length entries > MAX_DOCUMENT_JOURNAL_ENTRIES \<or> totalBytes entries > MAX_DOCUMENT_JOURNAL_BYTES
            then Inl JournalCorrupt
            else
              sbind (case acceptedPublication of
                       None \<Rightarrow> Inr (publicationsOf s)
                     | Some a \<Rightarrow>
                         sbind (requirePublicationPlan (planJournalPublication (publicationIndex (publicationsOf s))
                                  (publicationId (pubId a)) (int (length (pubFrame a))) True)) (\<lambda>plan.
                           Inr (map ((!) (publicationsOf s)) (planRetained plan) @ [a]))) (\<lambda>publications.
                Inr \<lparr>memSnapshot = \<lparr>journalRevision = revision + 1, journalEntries = entries,
                       journalPublications = Some publications, journalPending = None\<rparr>,
                     memCheckpoint = False\<rparr>))))"

definition discarded :: "mem_document \<Rightarrow> bytes \<Rightarrow> mem_document" where
  "discarded current token =
     (case journalPending (memSnapshot current) of
        None \<Rightarrow> current
      | Some p \<Rightarrow>
          if \<not> documentBytesEqual (pendingToken p) token then current
          else \<lparr>memSnapshot = (memSnapshot current)\<lparr>journalPending := None\<rparr>, memCheckpoint = False\<rparr>)"

definition memLoad :: "mem_store \<Rightarrow> string \<Rightarrow> journal_error + DocumentJournalSnapshot" where
  "memLoad M key = clone (map_option memSnapshot (jget M key))"

definition memLoadAcceptedHead :: "mem_store \<Rightarrow> string \<Rightarrow> int \<times> bytes option" where
  "memLoadAcceptedHead M key =
     (case jget M key of
        None \<Rightarrow> (0, None)
      | Some d \<Rightarrow> (journalRevision (memSnapshot d),
          if journalEntries (memSnapshot d) = [] then None else Some (last (journalEntries (memSnapshot d)))))"

definition memLoadPublications :: "mem_store \<Rightarrow> string \<Rightarrow> journal_error + DocumentJournalPublication list" where
  "memLoadPublications M key =
     mapCheck ownPublication (case jget M key of None \<Rightarrow> [] | Some d \<Rightarrow> publicationsOf (memSnapshot d))"

definition memStage ::
    "mem_store \<Rightarrow> string \<Rightarrow> int \<Rightarrow> bytes \<Rightarrow> bytes \<Rightarrow> DocumentJournalStagedPublication option \<Rightarrow> bool
      \<Rightarrow> journal_error + mem_store" where
  "memStage M key revision token entry publication checkpoint =
     sbind (assertJournalMutationInputs revision) (\<lambda>_.
     sbind (copyBytes token 32 32) (\<lambda>ownToken.
     sbind (copyBytes entry 1 MAX_DOCUMENT_JOURNAL_BYTES) (\<lambda>ownEntry.
     sbind (cloneInMemory (jget M key)) (\<lambda>current.
     sbind (optCheck ownStagedPublication publication) (\<lambda>ownPub.
     sbind (staged current revision ownToken ownEntry ownPub checkpoint) (\<lambda>d.
       Inr (jset M key d)))))))"

definition memCommit ::
    "mem_store \<Rightarrow> string \<Rightarrow> int \<Rightarrow> bytes \<Rightarrow> bool \<Rightarrow> bytes \<Rightarrow> DocumentJournalPublication option
      \<Rightarrow> journal_error + mem_store" where
  "memCommit M key revision token checkpoint acceptedEntry acceptedPublication =
     sbind (assertJournalMutationInputs revision) (\<lambda>_.
     sbind (copyBytes token 32 32) (\<lambda>owned.
     sbind (copyBytes acceptedEntry 1 MAX_DOCUMENT_JOURNAL_BYTES) (\<lambda>accepted.
     sbind (optCheck ownPublication acceptedPublication) (\<lambda>publication.
     sbind (cloneInMemory (jget M key)) (\<lambda>current.
     sbind (committed current revision owned checkpoint accepted publication) (\<lambda>d.
       Inr (jset M key d)))))))"

definition memPublicationSent :: "mem_store \<Rightarrow> string \<Rightarrow> bytes \<Rightarrow> journal_error + mem_store" where
  "memPublicationSent M key i =
     sbind (copyBytes i 32 32) (\<lambda>ownId.
     sbind (cloneInMemory (jget M key)) (\<lambda>current.
     sbind (requirePublicationPlan (planJournalPublication (publicationIndex (publicationsOf (memSnapshot current)))
              (publicationId ownId) 0 False)) (\<lambda>plan.
       Inr (jset M key (current\<lparr>memSnapshot := (memSnapshot current)\<lparr>journalPublications :=
              Some (map ((!) (publicationsOf (memSnapshot current))) (planRetained plan))\<rparr>\<rparr>)))))"

definition memDiscard :: "mem_store \<Rightarrow> string \<Rightarrow> bytes \<Rightarrow> journal_error + mem_store" where
  "memDiscard M key token =
     sbind (copyBytes token 32 32) (\<lambda>owned.
     sbind (cloneInMemory (jget M key)) (\<lambda>current. Inr (jset M key (discarded current owned))))"

subsection \<open>The IndexedDB store\<close>

record head_pending =
  hpToken :: bytes
  hpBytes :: int
  hpCheckpoint :: bool
  hpPublicationBytes :: int

record JournalHead =
  headRevision :: int
  headRevisions :: "int list"
  headBytes :: int
  headPublications :: "JournalPublicationIndex list"
  headPending :: "head_pending option"

record idb =
  idbHeads :: "(string, JournalHead) jsmap"
  idbEntries :: "(string \<times> int, bytes) jsmap"
  idbPending :: "(string, journal_pending) jsmap"
  idbPublications :: "(string \<times> string, DocumentJournalPublication) jsmap"

definition emptyIdb :: idb where
  "emptyIdb = \<lparr>idbHeads = [], idbEntries = [], idbPending = [], idbPublications = []\<rparr>"

definition isHexId :: "string \<Rightarrow> bool" where
  "isHexId s \<longleftrightarrow> length s = 64 \<and> set s \<subseteq> set ''0123456789abcdef''"

fun readHead_publications :: "string list \<Rightarrow> int \<Rightarrow> JournalPublicationIndex list \<Rightarrow> int option" where
  "readHead_publications seen tot [] = Some tot"
| "readHead_publications seen tot (p # ps) =
     (if \<not> isHexId (indexId p) \<or> indexId p \<in> set seen \<or> indexBytes p < 1 \<or>
        indexBytes p > MAX_DOCUMENT_STORED_PUBLICATION_BYTES then None
      else readHead_publications (seen @ [indexId p]) (tot + indexBytes p) ps)"

definition emptyHead :: JournalHead where
  "emptyHead = \<lparr>headRevision = 0, headRevisions = [], headBytes = 0, headPublications = [], headPending = None\<rparr>"

definition readHead :: "JournalHead option \<Rightarrow> journal_error + JournalHead" where
  "readHead value =
     (case value of
        None \<Rightarrow> Inr emptyHead
      | Some h \<Rightarrow>
          if \<not> safe_nat (headRevision h) \<or> headBytes h < 0 \<or> headBytes h > MAX_DOCUMENT_JOURNAL_BYTES \<or>
             length (headRevisions h) > MAX_DOCUMENT_JOURNAL_ENTRIES \<or> length (headPublications h) > 16 \<or>
             \<not> list_all (\<lambda>r. \<bar>r\<bar> \<le> MAX_SAFE_INTEGER) (headRevisions h) \<or>
             \<not> isDocumentJournalIndexValid (headRevision h) (headRevisions h) (headBytes h)
          then Inl JournalCorrupt
          else
            (case readHead_publications [] 0 (headPublications h) of
               None \<Rightarrow> Inl JournalCorrupt
             | Some n \<Rightarrow>
                 if n > 16 * 1024 * 1024 then Inl JournalCorrupt
                 else
                   (case headPending h of
                      None \<Rightarrow> Inr h
                    | Some p \<Rightarrow>
                        sbind (copyBytes (hpToken p) 32 32) (\<lambda>_.
                        if hpBytes p < 1 \<or> hpBytes p > MAX_DOCUMENT_JOURNAL_BYTES \<or>
                           hpPublicationBytes p < 0 \<or> hpPublicationBytes p > MAX_DOCUMENT_STORED_PUBLICATION_BYTES
                        then Inl JournalCorrupt else Inr h))))"

definition readIndexedPublication ::
    "DocumentJournalPublication option \<Rightarrow> JournalPublicationIndex \<Rightarrow> journal_error + DocumentJournalPublication" where
  "readIndexedPublication value index =
     (case value of
        None \<Rightarrow> Inl JournalInput
      | Some p \<Rightarrow>
          sbind (copyBytes (pubId p) 32 32) (\<lambda>i.
          if publicationId i \<noteq> indexId index then Inl JournalCorrupt
          else sbind (copyIndexedJournalBytes (Some (pubFrame p)) (indexBytes index) 0 True) (\<lambda>(f, _).
            Inr \<lparr>pubId = i, pubFrame = f\<rparr>)))"

fun readRowsInOrder ::
    "idb \<Rightarrow> string \<Rightarrow> int \<Rightarrow> int \<Rightarrow> int list \<Rightarrow> journal_error + bytes list \<times> int" where
  "readRowsInOrder D key declared copied [] = Inr ([], copied)"
| "readRowsInOrder D key declared copied (r # rs) =
     sbind (copyIndexedJournalBytes (jget (idbEntries D) (key, r)) declared copied False) (\<lambda>(b, copied').
     sbind (readRowsInOrder D key declared copied' rs) (\<lambda>(bs, n). Inr (b # bs, n)))"

definition readPendingRow :: "idb \<Rightarrow> string \<Rightarrow> head_pending \<Rightarrow> journal_error + journal_pending" where
  "readPendingRow D key hp =
     (case jget (idbPending D) key of
        None \<Rightarrow> Inl JournalCorrupt
      | Some row \<Rightarrow>
          if \<not> documentBytesEqual (pendingToken row) (hpToken hp) then Inl JournalCorrupt
          else
            sbind (copyBytes (pendingToken row) 32 32) (\<lambda>t.
            sbind (copyIndexedJournalBytes (Some (pendingEntry row)) (hpBytes hp) 0 True) (\<lambda>(e, _).
            sbind (optCheck ownStagedPublication (pendingPublication row)) (\<lambda>r.
              Inr \<lparr>pendingToken = t, pendingEntry = e, pendingPublication = r\<rparr>))))"

text \<open>
  \<open>readSnapshot\<close>: the full read, and the recovery read that returns the accepted
  entries and at most the token of the pending entry.
\<close>

definition idbLoad :: "idb \<Rightarrow> string \<Rightarrow> journal_error + DocumentJournalSnapshot" where
  "idbLoad D key =
     sbind (readHead (jget (idbHeads D) key)) (\<lambda>head.
       let plan = planDocumentJournalRead (length (headRevisions head)) (length (headPublications head))
             (headPending head \<noteq> None) False
       in sbind (readRowsInOrder D key (headBytes head) 0 (take (readEntries plan) (headRevisions head))) (\<lambda>(entries, copied).
          sbind (mapCheck (\<lambda>p. readIndexedPublication (jget (idbPublications D) (key, indexId p)) p)
                   (take (readPublicationRows plan) (headPublications head))) (\<lambda>publications.
          sbind (if readPending plan then optCheck (readPendingRow D key) (headPending head) else Inr None) (\<lambda>pending.
          if copied \<noteq> headBytes head then Inl JournalCorrupt
          else Inr \<lparr>journalRevision = headRevision head, journalEntries = entries,
                    journalPublications = Some publications, journalPending = pending\<rparr>))))"

definition idbLoadRecoverySnapshot ::
    "idb \<Rightarrow> string \<Rightarrow> journal_error + int \<times> bytes list \<times> bytes option" where
  "idbLoadRecoverySnapshot D key =
     sbind (readHead (jget (idbHeads D) key)) (\<lambda>head.
       let plan = planDocumentJournalRead (length (headRevisions head)) (length (headPublications head))
             (headPending head \<noteq> None) True
       in sbind (readRowsInOrder D key (headBytes head) 0 (take (readEntries plan) (headRevisions head))) (\<lambda>(entries, copied).
          sbind (if readPendingToken plan then optCheck (\<lambda>p. copyBytes (hpToken p) 32 32) (headPending head)
                 else Inr None) (\<lambda>token.
          if copied \<noteq> headBytes head then Inl JournalCorrupt
          else Inr (headRevision head, entries, token))))"

definition idbLoadAcceptedHead :: "idb \<Rightarrow> string \<Rightarrow> journal_error + int \<times> bytes option" where
  "idbLoadAcceptedHead D key =
     sbind (readHead (jget (idbHeads D) key)) (\<lambda>head.
       if headRevision head = 0 then Inr (0, None)
       else sbind (copyIndexedJournalBytes (jget (idbEntries D) (key, headRevision head)) (headBytes head) 0 False)
              (\<lambda>(e, _). Inr (headRevision head, Some e)))"

definition idbLoadPublications :: "idb \<Rightarrow> string \<Rightarrow> journal_error + DocumentJournalPublication list" where
  "idbLoadPublications D key =
     sbind (readHead (jget (idbHeads D) key)) (\<lambda>head.
       let plan = planDocumentJournalRead 0 (length (headPublications head)) False False
       in mapCheck (\<lambda>p. readIndexedPublication (jget (idbPublications D) (key, indexId p)) p)
            (take (readPublicationRows plan) (headPublications head)))"

text \<open>\<open>update\<close>: the head is read and checked, then changed in the same transaction.\<close>

definition idbUpdate :: "idb \<Rightarrow> string \<Rightarrow> (JournalHead \<Rightarrow> journal_error + idb) \<Rightarrow> journal_error + idb" where
  "idbUpdate D key mutate = sbind (readHead (jget (idbHeads D) key)) mutate"

definition idbStage ::
    "idb \<Rightarrow> string \<Rightarrow> int \<Rightarrow> bytes \<Rightarrow> bytes \<Rightarrow> DocumentJournalStagedPublication option \<Rightarrow> bool
      \<Rightarrow> journal_error + idb" where
  "idbStage D key revision token entry publication checkpoint =
     sbind (assertJournalMutationInputs revision) (\<lambda>_.
     sbind (copyBytes token 32 32) (\<lambda>ownedToken.
     sbind (copyBytes entry 1 MAX_DOCUMENT_JOURNAL_BYTES) (\<lambda>ownedEntry.
     sbind (optCheck ownStagedPublication publication) (\<lambda>ownedPublication.
     idbUpdate D key (\<lambda>head.
       case classifyJournalStage (headRevision head) revision (headPending head \<noteq> None) checkpoint
              (int (length (headRevisions head))) (headBytes head) (int (length ownedEntry)) of
         StageConflict \<Rightarrow> Inl JournalConflict
       | StageCapacity \<Rightarrow> Inl JournalCapacity
       | StageAccept \<Rightarrow>
           sbind (optCheck (\<lambda>p. requirePublicationPlan (planJournalPublication (headPublications head)
                     (publicationId (stagedId p)) (stagedBytes p) True)) ownedPublication) (\<lambda>_.
             Inr (D\<lparr>idbPending := jset (idbPending D) key \<lparr>pendingToken = ownedToken, pendingEntry = ownedEntry,
                        pendingPublication = ownedPublication\<rparr>,
                    idbHeads := jset (idbHeads D) key (head\<lparr>headPending := Some
                        \<lparr>hpToken = ownedToken, hpBytes = int (length ownedEntry), hpCheckpoint = checkpoint,
                         hpPublicationBytes =
                           (case ownedPublication of None \<Rightarrow> 0 | Some p \<Rightarrow> stagedBytes p)\<rparr>\<rparr>)\<rparr>)))))))"

definition idbCommit ::
    "idb \<Rightarrow> string \<Rightarrow> int \<Rightarrow> bytes \<Rightarrow> bool \<Rightarrow> bytes \<Rightarrow> DocumentJournalPublication option
      \<Rightarrow> journal_error + idb" where
  "idbCommit D key revision token checkpoint acceptedEntry acceptedPublication =
     sbind (assertJournalMutationInputs revision) (\<lambda>_.
     sbind (copyBytes token 32 32) (\<lambda>owned.
     sbind (copyBytes acceptedEntry 1 MAX_DOCUMENT_JOURNAL_BYTES) (\<lambda>accepted.
     sbind (optCheck ownPublication acceptedPublication) (\<lambda>publication.
     idbUpdate D key (\<lambda>head.
       case headPending head of
         None \<Rightarrow> Inl JournalConflict
       | Some hp \<Rightarrow>
      (if \<not> isJournalCommitCurrent (headRevision head) revision True
              (documentBytesEqual (hpToken hp) owned) (hpCheckpoint hp = checkpoint) \<or>
          int (length accepted) \<noteq> hpBytes hp + DOCUMENT_JOURNAL_ACCEPTED_OVERHEAD
       then Inl JournalConflict
       else case jget (idbPending D) key of
         None \<Rightarrow> Inl JournalCorrupt
       | Some row \<Rightarrow>
           if \<not> documentBytesEqual (pendingToken row) owned \<or> int (length (pendingEntry row)) \<noteq> hpBytes hp
           then Inl JournalCorrupt
           else sbind (optCheck ownStagedPublication (pendingPublication row)) (\<lambda>reservation.
             if (reservation \<noteq> None) \<noteq> (publication \<noteq> None) \<or>
                (case publication of None \<Rightarrow> 0 | Some a \<Rightarrow> int (length (pubFrame a))) \<noteq> hpPublicationBytes hp \<or>
                (case reservation of
                   None \<Rightarrow> False
                 | Some r \<Rightarrow> (case publication of
                     None \<Rightarrow> True
                   | Some a \<Rightarrow> stagedBytes r \<noteq> int (length (pubFrame a)) \<or> \<not> documentBytesEqual (stagedId r) (pubId a)))
             then Inl JournalCorrupt
             else
               sbind (case publication of
                        None \<Rightarrow> Inr (headPublications head)
                      | Some a \<Rightarrow>
                          sbind (requirePublicationPlan (planJournalPublication (headPublications head)
                                   (publicationId (pubId a)) (int (length (pubFrame a))) True)) (\<lambda>plan.
                            Inr (planPublications plan))) (\<lambda>publications.
                 let next_rev = revision + 1;
                     rows = jset (idbEntries D) (key, next_rev) accepted;
                     rows' = (if checkpoint then foldl (\<lambda>m old. jdel m (key, old)) rows (headRevisions head) else rows)
                 in Inr (D\<lparr>idbEntries := rows',
                         idbPublications :=
                           (case publication of
                              None \<Rightarrow> idbPublications D
                            | Some a \<Rightarrow> jset (idbPublications D) (key, publicationId (pubId a)) a),
                         idbPending := jdel (idbPending D) key,
                         idbHeads := jset (idbHeads D) key
                           \<lparr>headRevision = next_rev,
                            headRevisions = (if checkpoint then [next_rev] else headRevisions head @ [next_rev]),
                            headBytes = (if checkpoint then int (length accepted)
                                         else headBytes head + int (length accepted)),
                            headPublications = publications, headPending = None\<rparr>\<rparr>)))))))))"

definition idbDiscard :: "idb \<Rightarrow> string \<Rightarrow> bytes \<Rightarrow> journal_error + idb" where
  "idbDiscard D key token =
     sbind (copyBytes token 32 32) (\<lambda>owned.
     idbUpdate D key (\<lambda>head.
       case headPending head of
         None \<Rightarrow> Inr D
       | Some hp \<Rightarrow>
           if \<not> documentBytesEqual (hpToken hp) owned then Inr D
           else Inr (D\<lparr>idbPending := jdel (idbPending D) key,
                       idbHeads := jset (idbHeads D) key (head\<lparr>headPending := None\<rparr>)\<rparr>)))"

definition idbPublicationSent :: "idb \<Rightarrow> string \<Rightarrow> bytes \<Rightarrow> journal_error + idb" where
  "idbPublicationSent D key i =
     sbind (copyBytes i 32 32) (\<lambda>ownId.
     idbUpdate D key (\<lambda>head.
       sbind (requirePublicationPlan (planJournalPublication (headPublications head) (publicationId ownId) 0 False))
         (\<lambda>plan.
           Inr (D\<lparr>idbPublications := jdel (idbPublications D) (key, publicationId ownId),
                  idbHeads := jset (idbHeads D) key (head\<lparr>headPublications := planPublications plan\<rparr>)\<rparr>))))"

subsection \<open>Operations as events\<close>

datatype journal_op =
    OpStage string int bytes bytes "DocumentJournalStagedPublication option" bool
  | OpCommit string int bytes bool bytes "DocumentJournalPublication option"
  | OpDiscard string bytes
  | OpSent string bytes
  | OpLoad string
  | OpHead string
  | OpPublications string

text \<open>
  A missing publication queue reads as an empty one, as its callers do with
  \<open>publications ?? []\<close>.
\<close>

datatype journal_out =
    OutDone
  | OutRefused
  | OutSnapshot int "bytes list" "DocumentJournalPublication list" "journal_pending option"
  | OutHead int "bytes option"
  | OutPublications "DocumentJournalPublication list"

definition snapshot_out :: "journal_error + DocumentJournalSnapshot \<Rightarrow> journal_out" where
  "snapshot_out r = (case r of Inl _ \<Rightarrow> OutRefused
     | Inr s \<Rightarrow> OutSnapshot (journalRevision s) (journalEntries s) (publicationsOf s) (journalPending s))"

definition publications_out :: "journal_error + DocumentJournalPublication list \<Rightarrow> journal_out" where
  "publications_out r = (case r of Inl _ \<Rightarrow> OutRefused | Inr ps \<Rightarrow> OutPublications ps)"

definition update_out :: "'s \<Rightarrow> journal_error + 's \<Rightarrow> journal_out \<times> 's" where
  "update_out s r = (case r of Inl _ \<Rightarrow> (OutRefused, s) | Inr s' \<Rightarrow> (OutDone, s'))"

fun mem_step :: "mem_store \<Rightarrow> journal_op \<Rightarrow> journal_out \<times> mem_store" where
  "mem_step M (OpStage k r t e p c) = update_out M (memStage M k r t e p c)"
| "mem_step M (OpCommit k r t c e p) = update_out M (memCommit M k r t c e p)"
| "mem_step M (OpDiscard k t) = update_out M (memDiscard M k t)"
| "mem_step M (OpSent k i) = update_out M (memPublicationSent M k i)"
| "mem_step M (OpLoad k) = (snapshot_out (memLoad M k), M)"
| "mem_step M (OpHead k) = (case memLoadAcceptedHead M k of (r, e) \<Rightarrow> (OutHead r e, M))"
| "mem_step M (OpPublications k) = (publications_out (memLoadPublications M k), M)"

fun idb_step :: "idb \<Rightarrow> journal_op \<Rightarrow> journal_out \<times> idb" where
  "idb_step D (OpStage k r t e p c) = update_out D (idbStage D k r t e p c)"
| "idb_step D (OpCommit k r t c e p) = update_out D (idbCommit D k r t c e p)"
| "idb_step D (OpDiscard k t) = update_out D (idbDiscard D k t)"
| "idb_step D (OpSent k i) = update_out D (idbPublicationSent D k i)"
| "idb_step D (OpLoad k) = (snapshot_out (idbLoad D k), D)"
| "idb_step D (OpHead k) =
     ((case idbLoadAcceptedHead D k of Inl _ \<Rightarrow> OutRefused | Inr (r, e) \<Rightarrow> OutHead r e), D)"
| "idb_step D (OpPublications k) = (publications_out (idbLoadPublications D k), D)"

fun outputs :: "('s \<Rightarrow> 'ev \<Rightarrow> 'out \<times> 's) \<Rightarrow> 's \<Rightarrow> 'ev list \<Rightarrow> 'out list" where
  "outputs step s [] = []"
| "outputs step s (e # es) = fst (step s e) # outputs step (snd (step s e)) es"

fun final :: "('s \<Rightarrow> 'ev \<Rightarrow> 'out \<times> 's) \<Rightarrow> 's \<Rightarrow> 'ev list \<Rightarrow> 's" where
  "final step s [] = s"
| "final step s (e # es) = final step (snd (step s e)) es"


section \<open>The specification\<close>

record journal_view =
  vRevision :: int
  vEntries :: "bytes list"
  vPublications :: "DocumentJournalPublication list"
  vPending :: "(journal_pending \<times> bool) option"

definition emptyView :: journal_view where
  "emptyView = \<lparr>vRevision = 0, vEntries = [], vPublications = [], vPending = None\<rparr>"

definition pub_ok :: "DocumentJournalPublication \<Rightarrow> bool" where
  "pub_ok p \<longleftrightarrow> length (pubId p) = 32 \<and> 1 \<le> length (pubFrame p) \<and>
     int (length (pubFrame p)) \<le> MAX_DOCUMENT_STORED_PUBLICATION_BYTES"

definition staged_ok :: "DocumentJournalStagedPublication \<Rightarrow> bool" where
  "staged_ok p \<longleftrightarrow> length (stagedId p) = 32 \<and> 1 \<le> stagedBytes p \<and>
     stagedBytes p \<le> MAX_DOCUMENT_STORED_PUBLICATION_BYTES"

definition queue_room :: "DocumentJournalPublication list \<Rightarrow> bytes \<Rightarrow> int \<Rightarrow> bool" where
  "queue_room ps i n \<longleftrightarrow> i \<notin> pubId ` set ps \<and> length ps < 16 \<and> totalBytes (map pubFrame ps) + n \<le> 16777216"

definition spec_stage ::
    "journal_view \<Rightarrow> int \<Rightarrow> bytes \<Rightarrow> bytes \<Rightarrow> DocumentJournalStagedPublication option \<Rightarrow> bool
      \<Rightarrow> journal_view option" where
  "spec_stage v r t e p c =
     (if r = vRevision v \<and> r < MAX_SAFE_INTEGER \<and> vPending v = None \<and> length t = 32 \<and> 1 \<le> length e \<and>
         int (length e) + 32 \<le> MAX_DOCUMENT_JOURNAL_BYTES \<and>
         (c \<or> (length (vEntries v) < 128 \<and> totalBytes (vEntries v) + int (length e) + 32 \<le> MAX_DOCUMENT_JOURNAL_BYTES)) \<and>
         (case p of None \<Rightarrow> True | Some q \<Rightarrow> staged_ok q \<and> queue_room (vPublications v) (stagedId q) (stagedBytes q))
      then Some (v\<lparr>vPending := Some (\<lparr>pendingToken = t, pendingEntry = e, pendingPublication = p\<rparr>, c)\<rparr>)
      else None)"

definition spec_commit ::
    "journal_view \<Rightarrow> int \<Rightarrow> bytes \<Rightarrow> bool \<Rightarrow> bytes \<Rightarrow> DocumentJournalPublication option \<Rightarrow> journal_view option" where
  "spec_commit v r t c a p =
     (case vPending v of
        None \<Rightarrow> None
      | Some (q, c') \<Rightarrow>
          if r = vRevision v \<and> t = pendingToken q \<and> c = c' \<and> length a = length (pendingEntry q) + 32 \<and>
             (case (p, pendingPublication q) of
                (None, None) \<Rightarrow> True
              | (Some b, Some z) \<Rightarrow> pub_ok b \<and> pubId b = stagedId z \<and> int (length (pubFrame b)) = stagedBytes z
              | _ \<Rightarrow> False)
          then Some \<lparr>vRevision = r + 1, vEntries = (if c then [a] else vEntries v @ [a]),
                     vPublications = vPublications v @ (case p of None \<Rightarrow> [] | Some b \<Rightarrow> [b]), vPending = None\<rparr>
          else None)"

definition spec_discard :: "journal_view \<Rightarrow> bytes \<Rightarrow> journal_view option" where
  "spec_discard v t =
     (if length t = 32
      then Some (if (case vPending v of None \<Rightarrow> False | Some (q, _) \<Rightarrow> pendingToken q = t)
                 then v\<lparr>vPending := None\<rparr> else v)
      else None)"

definition spec_sent :: "journal_view \<Rightarrow> bytes \<Rightarrow> journal_view option" where
  "spec_sent v i =
     (if length i = 32 then Some (v\<lparr>vPublications := filter (\<lambda>p. pubId p \<noteq> i) (vPublications v)\<rparr>) else None)"

definition spec_update ::
    "(string \<Rightarrow> journal_view) \<Rightarrow> string \<Rightarrow> journal_view option \<Rightarrow> journal_out \<times> (string \<Rightarrow> journal_view)" where
  "spec_update V k r = (case r of None \<Rightarrow> (OutRefused, V) | Some v \<Rightarrow> (OutDone, V(k := v)))"

fun spec_step :: "(string \<Rightarrow> journal_view) \<Rightarrow> journal_op \<Rightarrow> journal_out \<times> (string \<Rightarrow> journal_view)" where
  "spec_step V (OpStage k r t e p c) = spec_update V k (spec_stage (V k) r t e p c)"
| "spec_step V (OpCommit k r t c e p) = spec_update V k (spec_commit (V k) r t c e p)"
| "spec_step V (OpDiscard k t) = spec_update V k (spec_discard (V k) t)"
| "spec_step V (OpSent k i) = spec_update V k (spec_sent (V k) i)"
| "spec_step V (OpLoad k) =
     (OutSnapshot (vRevision (V k)) (vEntries (V k)) (vPublications (V k)) (map_option fst (vPending (V k))), V)"
| "spec_step V (OpHead k) =
     (OutHead (vRevision (V k)) (if vEntries (V k) = [] then None else Some (last (vEntries (V k)))), V)"
| "spec_step V (OpPublications k) = (OutPublications (vPublications (V k)), V)"

text \<open>
  The contract of a journal store: it cannot be told from the specification.
\<close>

locale journal_store =
  fixes step :: "'s \<Rightarrow> journal_op \<Rightarrow> journal_out \<times> 's"
    and represents :: "'s \<Rightarrow> (string \<Rightarrow> journal_view) \<Rightarrow> bool"
  assumes simulates: "represents s V \<Longrightarrow>
    fst (step s e) = fst (spec_step V e) \<and> represents (snd (step s e)) (snd (spec_step V e))"
begin

lemma outputs_spec: "represents s V \<Longrightarrow> outputs step s es = outputs spec_step V es"
  by (induction es arbitrary: s V) (use simulates in auto)

lemma final_spec: "represents s V \<Longrightarrow> represents (final step s es) (final spec_step V es)"
  by (induction es arbitrary: s V) (use simulates in auto)

end

text \<open>What a view satisfies in every reachable state.\<close>

definition view_ok :: "journal_view \<Rightarrow> bool" where
  "view_ok v \<longleftrightarrow> int (length (vEntries v)) \<le> vRevision v \<and> vRevision v \<le> MAX_SAFE_INTEGER \<and>
     (vEntries v = [] \<longrightarrow> vRevision v = 0) \<and> length (vEntries v) \<le> 128 \<and>
     (\<forall>e \<in> set (vEntries v). 1 \<le> length e) \<and> totalBytes (vEntries v) \<le> MAX_DOCUMENT_JOURNAL_BYTES \<and>
     length (vPublications v) \<le> 16 \<and> (\<forall>p \<in> set (vPublications v). pub_ok p) \<and>
     distinct (map pubId (vPublications v)) \<and> totalBytes (map pubFrame (vPublications v)) \<le> 16777216 \<and>
     (\<forall>q c. vPending v = Some (q, c) \<longrightarrow> vRevision v < MAX_SAFE_INTEGER \<and> length (pendingToken q) = 32 \<and>
        1 \<le> length (pendingEntry q) \<and> int (length (pendingEntry q)) + 32 \<le> MAX_DOCUMENT_JOURNAL_BYTES \<and>
        (c \<or> (length (vEntries v) < 128 \<and>
              totalBytes (vEntries v) + int (length (pendingEntry q)) + 32 \<le> MAX_DOCUMENT_JOURNAL_BYTES)) \<and>
        (\<forall>z. pendingPublication q = Some z \<longrightarrow>
           staged_ok z \<and> queue_room (vPublications v) (stagedId z) (stagedBytes z)))"


section \<open>Plans and checks\<close>

lemma totalBytes_simps [simp]:
  "totalBytes [] = 0" "totalBytes (e # es) = int (length e) + totalBytes es"
  "totalBytes (es @ fs) = totalBytes es + totalBytes fs"
  by (simp_all add: totalBytes_def)

lemma totalBytes_nonneg: "0 \<le> totalBytes es"
  by (induction es) simp_all

lemma copyBytes_Inr:
  "copyBytes b lo hi = Inr c \<longleftrightarrow> c = b \<and> lo \<le> int (length b) \<and> int (length b) \<le> hi"
  by (auto simp: copyBytes_def)

lemma copyBytes_ok: "lo \<le> int (length b) \<Longrightarrow> int (length b) \<le> hi \<Longrightarrow> copyBytes b lo hi = Inr b"
  by (simp add: copyBytes_def)

lemma publicationId_inj [simp]: "publicationId a = publicationId b \<longleftrightarrow> a = b"
  by (simp add: publicationId_def)

lemma ownPublication_Inr: "ownPublication p = Inr q \<longleftrightarrow> q = p \<and> pub_ok p"
  by (cases p) (auto simp: ownPublication_def sbind_Inr_iff pub_ok_def copyBytes_Inr)

lemma ownStaged_Inr: "ownStagedPublication p = Inr q \<longleftrightarrow> q = p \<and> staged_ok p"
  by (cases p) (auto simp: ownStagedPublication_def sbind_Inr_iff staged_ok_def copyBytes_Inr)

lemma optCheck_Inr:
  "optCheck f x = Inr y \<longleftrightarrow>
     (case x of None \<Rightarrow> y = None | Some a \<Rightarrow> (\<exists>b. f a = Inr b \<and> y = Some b))"
  by (auto simp: optCheck_def sbind_Inr_iff split: option.splits)

lemma mapCheck_same: "(\<forall>x \<in> set xs. f x = Inr x) \<Longrightarrow> mapCheck f xs = Inr xs"
  by (induction xs) simp_all

lemma plan_loop_adding:
  "planJournalPublication_loop nx rt tot i ps pid True =
     (if pid \<in> indexId ` set ps then None
      else Some (nx @ ps, rt @ [i..<i + length ps], tot + sum_list (map indexBytes ps)))"
  by (induction nx rt tot i ps pid True rule: planJournalPublication_loop.induct)
    (auto simp: upt_conv_Cons simp del: upt_Suc)

lemma plan_loop_removing:
  "planJournalPublication_loop nx rt tot i ps pid False =
     Some (nx @ filter (\<lambda>p. indexId p \<noteq> pid) ps,
       rt @ filter (\<lambda>j. indexId (ps ! (j - i)) \<noteq> pid) [i..<i + length ps],
       tot + sum_list (map indexBytes (filter (\<lambda>p. indexId p \<noteq> pid) ps)))"
proof (induction ps arbitrary: nx rt tot i)
  case (Cons p ps)
  have "filter (\<lambda>j. indexId ((p # ps) ! (j - i)) \<noteq> pid) [Suc i..<Suc (i + length ps)] =
      filter (\<lambda>j. indexId (ps ! (j - Suc i)) \<noteq> pid) [Suc i..<Suc (i + length ps)]"
  proof (rule filter_cong [OF refl])
    fix j assume "j \<in> set [Suc i..<Suc (i + length ps)]"
    then have "j - i = Suc (j - Suc i)" by auto
    then show "(indexId ((p # ps) ! (j - i)) \<noteq> pid) = (indexId (ps ! (j - Suc i)) \<noteq> pid)" by simp
  qed
  then show ?case using Cons.IH [of _ _ _ "Suc i"] by (simp add: upt_conv_Cons del: upt_Suc)
qed simp

lemma map_nth_filter: "map ((!) xs) (filter (\<lambda>j. P (xs ! j)) [0..<length xs]) = filter P xs"
  using filter_map [of P "(!) xs" "[0..<length xs]"] by (simp add: map_nth comp_def)

lemma publicationIndex_simps:
  "indexId ` set (publicationIndex ps) = publicationId ` pubId ` set ps"
  "sum_list (map indexBytes (publicationIndex ps)) = totalBytes (map pubFrame ps)"
  "length (publicationIndex ps) = length ps"
  by (auto simp: publicationIndex_def totalBytes_def image_image comp_def)

lemma totalBytes_filter: "totalBytes (map f (filter P ps)) \<le> totalBytes (map f ps)"
  by (induction ps) auto

lemma plan_adding:
  assumes "totalBytes (map pubFrame ps) \<le> 16777216" "0 \<le> n"
  shows "requirePublicationPlan (planJournalPublication (publicationIndex ps) (publicationId i) n True) = Inr plan \<longleftrightarrow>
    queue_room ps i n \<and>
    plan = \<lparr>planDecision = PublicationAccept,
      planPublications = publicationIndex ps @ [\<lparr>indexId = publicationId i, indexBytes = n\<rparr>],
      planRetained = [0..<length ps], planBytes = totalBytes (map pubFrame ps) + n\<rparr>"
proof -
  have "publicationId i \<in> publicationId ` pubId ` set ps \<longleftrightarrow> i \<in> pubId ` set ps" by auto
  then show ?thesis using assms
    by (auto simp: planJournalPublication_def plan_loop_adding publicationIndex_simps requirePublicationPlan_def
        refusedPlan_def queue_room_def)
qed

lemma plan_removing:
  assumes "totalBytes (map pubFrame ps) \<le> 16777216"
  shows "\<exists>plan. requirePublicationPlan (planJournalPublication (publicationIndex ps) (publicationId i) 0 False) = Inr plan \<and>
    planPublications plan = publicationIndex (filter (\<lambda>p. pubId p \<noteq> i) ps) \<and>
    map ((!) ps) (planRetained plan) = filter (\<lambda>p. pubId p \<noteq> i) ps"
proof -
  let ?P = "\<lambda>p. pubId p \<noteq> i"
  have f: "filter (\<lambda>p. indexId p \<noteq> publicationId i) (publicationIndex ps) = publicationIndex (filter ?P ps)"
    by (simp add: publicationIndex_def filter_map comp_def)
  have t: "sum_list (map indexBytes (publicationIndex (filter ?P ps))) \<le> 16777216"
    using totalBytes_filter [of pubFrame ?P ps] assms by (simp add: publicationIndex_simps)
  have "filter (\<lambda>j. indexId (publicationIndex ps ! j) \<noteq> publicationId i) [0..<length ps] =
      filter (\<lambda>j. ?P (ps ! j)) [0..<length ps]"
    by (rule filter_cong) (auto simp: publicationIndex_def)
  then have r: "map ((!) ps) (filter (\<lambda>j. indexId (publicationIndex ps ! j) \<noteq> publicationId i) [0..<length ps]) =
      filter ?P ps" using map_nth_filter [of ps ?P] by simp
  show ?thesis using f t r
    by (simp add: planJournalPublication_def plan_loop_removing requirePublicationPlan_def publicationIndex_simps)
qed

lemma stage_classified:
  "classifyJournalStage r r' pend c n tot m = StageAccept \<longleftrightarrow>
     r' = r \<and> r \<noteq> MAX_SAFE_INTEGER \<and> \<not> pend \<and> m + 32 \<le> MAX_DOCUMENT_JOURNAL_BYTES \<and>
     (c \<or> (n < 128 \<and> tot + m + 32 \<le> MAX_DOCUMENT_JOURNAL_BYTES))"
  by (auto simp: classifyJournalStage_def MAX_DOCUMENT_JOURNAL_BYTES_def)

text \<open>The specification keeps its invariant.\<close>

lemma queue_room_filter: "queue_room ps i n \<Longrightarrow> queue_room (filter P ps) i n"
  using totalBytes_filter [of pubFrame P ps] le_less_trans [OF length_filter_le [of P ps], of 16]
  by (auto simp: queue_room_def)

lemma spec_stage_ok: "view_ok v \<Longrightarrow> spec_stage v r t e p c = Some v' \<Longrightarrow> view_ok v'"
  by (auto simp: view_ok_def spec_stage_def split: if_splits option.splits)

lemma spec_commit_ok:
  assumes v: "view_ok v" and s: "spec_commit v r t c a p = Some v'"
  shows "view_ok v'"
proof -
  obtain q c' where q: "vPending v = Some (q, c')" using s by (auto simp: spec_commit_def split: option.splits)
  have pend: "vRevision v < MAX_SAFE_INTEGER" "int (length (pendingEntry q)) + 32 \<le> MAX_DOCUMENT_JOURNAL_BYTES"
    "c' \<or> (length (vEntries v) < 128 \<and>
       totalBytes (vEntries v) + int (length (pendingEntry q)) + 32 \<le> MAX_DOCUMENT_JOURNAL_BYTES)"
    "\<And>z. pendingPublication q = Some z \<Longrightarrow> queue_room (vPublications v) (stagedId z) (stagedBytes z)"
    using v q by (auto simp: view_ok_def)
  have e: "int (length (vEntries v)) \<le> vRevision v" "\<forall>e \<in> set (vEntries v). 1 \<le> length e"
    "length (vPublications v) \<le> 16" "\<forall>p \<in> set (vPublications v). pub_ok p"
    "distinct (map pubId (vPublications v))" "totalBytes (map pubFrame (vPublications v)) \<le> 16777216"
    using v by (auto simp: view_ok_def)
  show ?thesis
    using s q pend e
    by (auto simp: spec_commit_def view_ok_def queue_room_def split: if_splits option.splits)
qed

lemma spec_discard_ok: "view_ok v \<Longrightarrow> spec_discard v t = Some v' \<Longrightarrow> view_ok v'"
  by (auto simp: view_ok_def spec_discard_def split: if_splits)

lemma spec_sent_ok:
  assumes "view_ok v" and "spec_sent v i = Some v'"
  shows "view_ok v'"
proof -
  have v': "v' = v\<lparr>vPublications := filter (\<lambda>p. pubId p \<noteq> i) (vPublications v)\<rparr>"
    using assms(2) by (auto simp: spec_sent_def split: if_splits)
  have l: "length (vPublications v) \<le> 16" "totalBytes (map pubFrame (vPublications v)) \<le> 16777216"
    using assms(1) by (simp_all add: view_ok_def)
  have "length (filter (\<lambda>p. pubId p \<noteq> i) (vPublications v)) \<le> 16" by (rule le_trans [OF length_filter_le l(1)])
  moreover have "totalBytes (map pubFrame (filter (\<lambda>p. pubId p \<noteq> i) (vPublications v))) \<le> 16777216"
    by (rule order_trans [OF totalBytes_filter l(2)])
  ultimately show ?thesis using assms(1) queue_room_filter unfolding v' view_ok_def
    by (simp add: distinct_map_filter)
qed

lemmas spec_ok = spec_stage_ok spec_commit_ok spec_discard_ok spec_sent_ok

end
