(* ===== verification/Journal_Refinement.thy ===== *)
theory Journal_Refinement
  imports Journal_Store
begin

text \<open>
  Both implementations of the journal store meet its specification: the in-memory
  store and the IndexedDB store cannot be told apart by any sequence of operations.
\<close>


section \<open>The in-memory store meets the specification\<close>

definition doc_view :: "mem_document option \<Rightarrow> journal_view" where
  "doc_view x =
     (case x of
        None \<Rightarrow> emptyView
      | Some d \<Rightarrow>
          \<lparr>vRevision = journalRevision (memSnapshot d), vEntries = journalEntries (memSnapshot d),
           vPublications = publicationsOf (memSnapshot d),
           vPending = map_option (\<lambda>q. (q, memCheckpoint d)) (journalPending (memSnapshot d))\<rparr>)"

definition mem_represents :: "mem_store \<Rightarrow> (string \<Rightarrow> journal_view) \<Rightarrow> bool" where
  "mem_represents M V \<longleftrightarrow> (\<forall>k. view_ok (V k) \<and> doc_view (jget M k) = V k)"

lemma cloneEntries_same:
  "\<forall>e \<in> set es. 1 \<le> length e \<Longrightarrow> n + totalBytes es \<le> MAX_DOCUMENT_JOURNAL_BYTES \<Longrightarrow> cloneEntries n es = Inr es"
proof (induction es arbitrary: n)
  case (Cons e es)
  have "int (length e) \<le> MAX_DOCUMENT_JOURNAL_BYTES - n" using Cons.prems(2) totalBytes_nonneg [of es] by simp
  then have "copyBytes e 1 (MAX_DOCUMENT_JOURNAL_BYTES - n) = Inr e"
    using Cons.prems(1) by (intro copyBytes_ok) auto
  moreover have "cloneEntries (n + int (length e)) es = Inr es"
    using Cons.prems by (intro Cons.IH) auto
  ultimately show ?case by simp
qed simp

lemma clonePending_same:
  assumes "length (pendingToken q) = 32" "1 \<le> length (pendingEntry q)"
    "int (length (pendingEntry q)) + 32 \<le> MAX_DOCUMENT_JOURNAL_BYTES"
    "\<forall>z. pendingPublication q = Some z \<longrightarrow> staged_ok z"
  shows "clonePending q = Inr q"
proof -
  have "copyBytes (pendingToken q) 32 32 = Inr (pendingToken q)" using assms(1) by (intro copyBytes_ok) simp_all
  moreover have "copyBytes (pendingEntry q) 1 MAX_DOCUMENT_JOURNAL_BYTES = Inr (pendingEntry q)"
    using assms(2,3) by (intro copyBytes_ok) simp_all
  moreover have "optCheck ownStagedPublication (pendingPublication q) = Inr (pendingPublication q)"
    using assms(4) by (auto simp: optCheck_Inr ownStaged_Inr split: option.splits)
  ultimately show ?thesis by (simp add: clonePending_def)
qed

lemma clone_view:
  assumes ok: "view_ok (doc_view x)"
  shows "\<exists>s. clone (map_option memSnapshot x) = Inr s \<and> journalRevision s = vRevision (doc_view x) \<and>
    journalEntries s = vEntries (doc_view x) \<and> publicationsOf s = vPublications (doc_view x) \<and>
    journalPending s = map_option fst (vPending (doc_view x))"
proof (cases x)
  case None
  then show ?thesis by (simp add: clone_def doc_view_def emptySnapshot_def emptyView_def publicationsOf_def)
next
  case (Some d)
  let ?s = "memSnapshot d" and ?v = "doc_view x"
  have v: "vRevision ?v = journalRevision ?s" "vEntries ?v = journalEntries ?s" "vPublications ?v = publicationsOf ?s"
    "vPending ?v = map_option (\<lambda>q. (q, memCheckpoint d)) (journalPending ?s)"
    using Some by (simp_all add: doc_view_def)
  have r: "safe_nat (journalRevision ?s)" "\<not> length (journalEntries ?s) > MAX_DOCUMENT_JOURNAL_ENTRIES"
    using ok by (auto simp: view_ok_def v safe_nat_def MAX_DOCUMENT_JOURNAL_ENTRIES_def)
  have e: "cloneEntries 0 (journalEntries ?s) = Inr (journalEntries ?s)"
    using ok by (intro cloneEntries_same) (auto simp: view_ok_def v)
  have p: "mapCheck ownPublication (publicationsOf ?s) = Inr (publicationsOf ?s)"
    using ok by (intro mapCheck_same) (auto simp: view_ok_def v ownPublication_Inr)
  have n: "\<not> (case journalPublications ?s of None \<Rightarrow> False | Some ps \<Rightarrow> length ps > 16)"
    "\<not> (length (publicationsOf ?s) > 16 \<or> totalBytes (map pubFrame (publicationsOf ?s)) > 16 * 1024 * 1024)"
    using ok by (auto simp: view_ok_def v publicationsOf_def split: option.splits)
  have q: "optCheck clonePending (journalPending ?s) = Inr (journalPending ?s)"
  proof (cases "journalPending ?s")
    case (Some q)
    have "clonePending q = Inr q" by (rule clonePending_same) (use ok Some in \<open>auto simp: view_ok_def v\<close>)
    then show ?thesis using Some by (simp add: optCheck_def)
  qed (simp add: optCheck_def)
  have "clone (Some ?s) = Inr \<lparr>journalRevision = journalRevision ?s, journalEntries = journalEntries ?s,
      journalPublications = Some (publicationsOf ?s), journalPending = journalPending ?s\<rparr>"
    unfolding clone_def option.case using r e p n q by simp
  then show ?thesis using Some
    by (simp add: doc_view_def publicationsOf_def option.map_comp comp_def option.map_ident)
qed

lemma cloneInMemory_view:
  assumes "view_ok (doc_view x)"
  shows "\<exists>d. cloneInMemory x = Inr d \<and> doc_view (Some d) = doc_view x"
proof -
  obtain s where s: "clone (map_option memSnapshot x) = Inr s" "journalRevision s = vRevision (doc_view x)"
    "journalEntries s = vEntries (doc_view x)" "publicationsOf s = vPublications (doc_view x)"
    "journalPending s = map_option fst (vPending (doc_view x))"
    using clone_view [OF assms] by blast
  have "doc_view (Some \<lparr>memSnapshot = s, memCheckpoint = (case x of None \<Rightarrow> False | Some d \<Rightarrow> memCheckpoint d)\<rparr>)
      = doc_view x"
    using s(2-5) by (cases x) (auto simp: doc_view_def emptyView_def option.map_comp comp_def)
  then show ?thesis using s(1) by (simp add: cloneInMemory_def)
qed


lemma mem_represents_update:
  "mem_represents M V \<Longrightarrow> view_ok v \<Longrightarrow> doc_view (Some d) = v \<Longrightarrow> mem_represents (jset M k d) (V(k := v))"
  by (simp add: mem_represents_def jget_jset)

text \<open>A store update agrees with the specification when it succeeds in the same cases.\<close>

lemma update_agrees:
  assumes "\<And>s'. r = Inr s' \<longleftrightarrow> s' = new \<and> spec \<noteq> None"
    and "represents s V" and "\<And>v'. spec = Some v' \<Longrightarrow> represents new (V(k := v'))"
  shows "fst (update_out s r) = fst (spec_update V k spec) \<and>
    represents (snd (update_out s r)) (snd (spec_update V k spec))"
proof (cases spec)
  case None
  then have "\<exists>e. r = Inl e" using assms(1) by (cases r) auto
  then show ?thesis using assms(2) None by (auto simp: update_out_def spec_update_def)
next
  case (Some v')
  then have "r = Inr new" using assms(1) by simp
  then show ?thesis using assms(3) Some by (simp add: update_out_def spec_update_def)
qed

lemma doc_view_fields:
  "vRevision (doc_view (Some d)) = journalRevision (memSnapshot d)"
  "vEntries (doc_view (Some d)) = journalEntries (memSnapshot d)"
  "vPublications (doc_view (Some d)) = publicationsOf (memSnapshot d)"
  "vPending (doc_view (Some d)) = map_option (\<lambda>q. (q, memCheckpoint d)) (journalPending (memSnapshot d))"
  by (simp_all add: doc_view_def)

lemma view_ok_fields:
  assumes "view_ok v"
  shows "0 \<le> vRevision v" "vRevision v \<le> MAX_SAFE_INTEGER" "totalBytes (map pubFrame (vPublications v)) \<le> 16777216"
    "length (vEntries v) \<le> 128" "totalBytes (vEntries v) \<le> MAX_DOCUMENT_JOURNAL_BYTES"
  using assms by (auto simp: view_ok_def)

text \<open>Reserving a place in the publication queue.\<close>

lemma reserve_Inr:
  assumes "totalBytes (map pubFrame ps) \<le> 16777216"
  shows "(\<exists>x. optCheck ownStagedPublication p = Inr y \<and>
      optCheck (\<lambda>z. requirePublicationPlan (planJournalPublication (publicationIndex ps)
        (publicationId (stagedId z)) (stagedBytes z) True)) y = Inr x) \<longleftrightarrow>
    y = p \<and> (case p of None \<Rightarrow> True | Some q \<Rightarrow> staged_ok q \<and> queue_room ps (stagedId q) (stagedBytes q))"
proof (cases p)
  case (Some q)
  have "0 \<le> stagedBytes q" if "staged_ok q" using that by (simp add: staged_ok_def)
  then show ?thesis using Some
    by (auto simp: optCheck_Inr ownStaged_Inr plan_adding [OF assms])
qed (auto simp: optCheck_Inr)

lemma stage_case_Inr:
  "(case x of StageAccept \<Rightarrow> f | StageConflict \<Rightarrow> Inl a | StageCapacity \<Rightarrow> Inl b) = Inr y \<longleftrightarrow>
     x = StageAccept \<and> f = Inr y"
  by (cases x) simp_all

lemma mem_stage:
  assumes d: "cloneInMemory (jget M k) = Inr d" and ok: "view_ok (doc_view (Some d))"
  shows "memStage M k r t e p c = Inr M' \<longleftrightarrow>
    M' = jset M k \<lparr>memSnapshot = (memSnapshot d)\<lparr>journalPending := Some \<lparr>pendingToken = t, pendingEntry = e,
        pendingPublication = p\<rparr>\<rparr>, memCheckpoint = c\<rparr> \<and>
    spec_stage (doc_view (Some d)) r t e p c \<noteq> None"
proof -
  let ?s = "memSnapshot d"
  let ?c = "classifyJournalStage (journalRevision ?s) r (journalPending ?s \<noteq> None) c
             (int (length (journalEntries ?s))) (totalBytes (journalEntries ?s)) (int (length e))"
  have f: "0 \<le> journalRevision ?s" "journalRevision ?s \<le> MAX_SAFE_INTEGER" "totalBytes (map pubFrame (publicationsOf ?s)) \<le> 16777216"
    using view_ok_fields [OF ok] by (simp_all add: doc_view_fields)
  have "memStage M k r t e p c = Inr M' \<longleftrightarrow> safe_nat r \<and> length t = 32 \<and> 1 \<le> length e \<and>
      int (length e) \<le> MAX_DOCUMENT_JOURNAL_BYTES \<and> ?c = StageAccept \<and>
      (\<exists>y. (\<exists>x. optCheck ownStagedPublication p = Inr y \<and>
         optCheck (\<lambda>z. requirePublicationPlan (planJournalPublication (publicationIndex (publicationsOf ?s))
        (publicationId (stagedId z)) (stagedBytes z) True)) y = Inr x) \<and> 
       M' = jset M k \<lparr>memSnapshot = ?s\<lparr>journalPending := Some \<lparr>pendingToken = t, pendingEntry = e,
        pendingPublication = y\<rparr>\<rparr>, memCheckpoint = c\<rparr>)"
    by (auto simp: memStage_def staged_def Let_def sbind_Inr_iff copyBytes_Inr d assertJournalMutationInputs_def
        stage_case_Inr)
  also have "\<dots> \<longleftrightarrow> (safe_nat r \<and> length t = 32 \<and> 1 \<le> length e \<and>
      int (length e) \<le> MAX_DOCUMENT_JOURNAL_BYTES \<and> ?c = StageAccept \<and>
      (case p of None \<Rightarrow> True | Some q \<Rightarrow> staged_ok q \<and> queue_room (publicationsOf ?s) (stagedId q) (stagedBytes q))) \<and>
      M' = jset M k \<lparr>memSnapshot = ?s\<lparr>journalPending := Some \<lparr>pendingToken = t, pendingEntry = e,
        pendingPublication = p\<rparr>\<rparr>, memCheckpoint = c\<rparr>"
    unfolding reserve_Inr [OF f(3)] by blast
  also have "(safe_nat r \<and> length t = 32 \<and> 1 \<le> length e \<and>
      int (length e) \<le> MAX_DOCUMENT_JOURNAL_BYTES \<and> ?c = StageAccept \<and>
      (case p of None \<Rightarrow> True | Some q \<Rightarrow> staged_ok q \<and> queue_room (publicationsOf ?s) (stagedId q) (stagedBytes q))) \<longleftrightarrow>
      spec_stage (doc_view (Some d)) r t e p c \<noteq> None"
    using f(1,2) unfolding stage_classified spec_stage_def doc_view_fields safe_nat_def by auto
  finally show ?thesis by blast
qed


lemma spec_commit_iff:
  "spec_commit v r t c a p \<noteq> None \<longleftrightarrow>
     (\<exists>q. vPending v = Some (q, c) \<and> r = vRevision v \<and> t = pendingToken q \<and> length a = length (pendingEntry q) + 32 \<and>
        (case p of
           None \<Rightarrow> pendingPublication q = None
         | Some b \<Rightarrow> \<exists>z. pendingPublication q = Some z \<and> pub_ok b \<and> pubId b = stagedId z \<and>
             int (length (pubFrame b)) = stagedBytes z))"
  by (auto simp: spec_commit_def split: option.splits)

lemma pending_ok:
  assumes "view_ok v" "vPending v = Some (q, c)"
  shows "vRevision v < MAX_SAFE_INTEGER" "length (pendingToken q) = 32" "1 \<le> length (pendingEntry q)"
    "int (length (pendingEntry q)) + 32 \<le> MAX_DOCUMENT_JOURNAL_BYTES"
    "\<not> c \<Longrightarrow> length (vEntries v) < 128"
    "\<not> c \<Longrightarrow> totalBytes (vEntries v) + int (length (pendingEntry q)) + 32 \<le> MAX_DOCUMENT_JOURNAL_BYTES"
    "pendingPublication q = Some z \<Longrightarrow> staged_ok z"
    "pendingPublication q = Some z \<Longrightarrow> queue_room (vPublications v) (stagedId z) (stagedBytes z)"
  using assms by (auto simp: view_ok_def)

lemma append_publication:
  assumes "totalBytes (map pubFrame ps) \<le> 16777216"
  shows "sbind (requirePublicationPlan (planJournalPublication (publicationIndex ps) (publicationId i) (int n) True))
      (\<lambda>plan. Inr (f plan)) = Inr y \<longleftrightarrow>
    queue_room ps i (int n) \<and> y = f \<lparr>planDecision = PublicationAccept,
      planPublications = publicationIndex ps @ [\<lparr>indexId = publicationId i, indexBytes = int n\<rparr>],
      planRetained = [0..<length ps], planBytes = totalBytes (map pubFrame ps) + int n\<rparr>"
  by (auto simp: sbind_Inr_iff plan_adding [OF assms])

lemma committed_Inr:
  assumes ok: "view_ok (doc_view (Some d))" and a: "1 \<le> length a" and p: "\<forall>b. p = Some b \<longrightarrow> pub_ok b"
  shows "committed d r t c a p = Inr d' \<longleftrightarrow>
    d' = \<lparr>memSnapshot = \<lparr>journalRevision = r + 1,
        journalEntries = (if c then [a] else journalEntries (memSnapshot d) @ [a]),
        journalPublications = Some (publicationsOf (memSnapshot d) @ (case p of None \<Rightarrow> [] | Some b \<Rightarrow> [b])),
        journalPending = None\<rparr>, memCheckpoint = False\<rparr> \<and>
    spec_commit (doc_view (Some d)) r t c a p \<noteq> None"
proof (cases "journalPending (memSnapshot d)")
  case None
  then show ?thesis by (simp add: committed_def Let_def spec_commit_def doc_view_fields)
next
  case (Some q)
  let ?s = "memSnapshot d" and ?v = "doc_view (Some d)"
  have vp: "vPending ?v = Some (q, memCheckpoint d)" using Some by (simp add: doc_view_fields)
  note q = pending_ok [OF ok vp] and f = view_ok_fields [OF ok]
  have pubs: "totalBytes (map pubFrame (publicationsOf ?s)) \<le> 16777216" using f(3) by (simp add: doc_view_fields)
  have retained: "map ((!) (publicationsOf ?s)) [0..<length (publicationsOf ?s)] = publicationsOf ?s" by (rule map_nth)
  have room: "length (if c then [a] else journalEntries ?s @ [a]) \<le> MAX_DOCUMENT_JOURNAL_ENTRIES"
    "totalBytes (if c then [a] else journalEntries ?s @ [a]) \<le> MAX_DOCUMENT_JOURNAL_BYTES"
    if "c = memCheckpoint d" "length a = length (pendingEntry q) + 32"
    using that q(4,5,6) by (auto simp: MAX_DOCUMENT_JOURNAL_ENTRIES_def doc_view_fields)
  show ?thesis
  proof (cases "r = journalRevision ?s \<and> t = pendingToken q \<and> c = memCheckpoint d \<and> length a = length (pendingEntry q) + 32")
    case False
    then have "spec_commit ?v r t c a p = None" using Some spec_commit_iff [of ?v r t c a p] by (auto simp: vp doc_view_fields)
    moreover have "\<not> (isJournalCommitCurrent (journalRevision ?s) r True (documentBytesEqual (pendingToken q) t) (memCheckpoint d = c)
        \<and> int (length a) = int (length (pendingEntry q)) + DOCUMENT_JOURNAL_ACCEPTED_OVERHEAD)"
      using False by (auto simp: isJournalCommitCurrent_def documentBytesEqual_def DOCUMENT_JOURNAL_ACCEPTED_OVERHEAD_def)
    ultimately show ?thesis using Some by (auto simp: committed_def Let_def)
  next
    case True
    have cur: "isJournalCommitCurrent (journalRevision ?s) r True (documentBytesEqual (pendingToken q) t) (memCheckpoint d = c)"
      using True q(1) by (simp add: isJournalCommitCurrent_def documentBytesEqual_def doc_view_fields)
    have len: "int (length a) = int (length (pendingEntry q)) + DOCUMENT_JOURNAL_ACCEPTED_OVERHEAD"
      using True by (simp add: DOCUMENT_JOURNAL_ACCEPTED_OVERHEAD_def)
    have room': "\<not> (MAX_DOCUMENT_JOURNAL_ENTRIES < length (if c then [a] else journalEntries ?s @ [a]) \<or>
        MAX_DOCUMENT_JOURNAL_BYTES < totalBytes (if c then [a] else journalEntries ?s @ [a]))"
      using room True by (simp only: not_less de_Morgan_disj)
    have spec: "spec_commit ?v r t c a p \<noteq> None \<longleftrightarrow>
        (case p of
           None \<Rightarrow> pendingPublication q = None
         | Some b \<Rightarrow> \<exists>z. pendingPublication q = Some z \<and> pub_ok b \<and> pubId b = stagedId z \<and>
             int (length (pubFrame b)) = stagedBytes z)"
      unfolding spec_commit_iff vp using True by (simp add: doc_view_fields)
    have plan: "\<exists>plan. requirePublicationPlan (planJournalPublication (publicationIndex (publicationsOf ?s))
        (publicationId (stagedId z)) (stagedBytes z) True) = Inr plan \<and> planRetained plan = [0..<length (publicationsOf ?s)]"
      if "pendingPublication q = Some z" for z
      using q(7,8) [OF that] by (simp add: plan_adding [OF pubs] doc_view_fields staged_ok_def)
    show ?thesis
      unfolding spec unfolding committed_def Let_def Some option.case if_False if_not_P [OF room'] 
      using cur len p plan retained
      by (cases p; cases "pendingPublication q") (auto simp: documentBytesEqual_def)
  qed
qed


lemma committed_view:
  "spec_commit (doc_view (Some d)) r t c a p = Some v' \<Longrightarrow>
    v' = doc_view (Some \<lparr>memSnapshot = \<lparr>journalRevision = r + 1,
        journalEntries = (if c then [a] else journalEntries (memSnapshot d) @ [a]),
        journalPublications = Some (publicationsOf (memSnapshot d) @ (case p of None \<Rightarrow> [] | Some b \<Rightarrow> [b])),
        journalPending = None\<rparr>, memCheckpoint = False\<rparr>)"
  by (auto simp: spec_commit_def doc_view_def publicationsOf_def split: option.splits if_splits)

lemma mem_commit:
  assumes d: "cloneInMemory (jget M k) = Inr d" and ok: "view_ok (doc_view (Some d))"
  shows "memCommit M k r t c a p = Inr M' \<longleftrightarrow>
    M' = jset M k \<lparr>memSnapshot = \<lparr>journalRevision = r + 1,
        journalEntries = (if c then [a] else journalEntries (memSnapshot d) @ [a]),
        journalPublications = Some (publicationsOf (memSnapshot d) @ (case p of None \<Rightarrow> [] | Some b \<Rightarrow> [b])),
        journalPending = None\<rparr>, memCheckpoint = False\<rparr> \<and>
    spec_commit (doc_view (Some d)) r t c a p \<noteq> None"
    (is "?L \<longleftrightarrow> M' = jset M k ?d \<and> ?S")
proof -
  let ?in = "safe_nat r \<and> length t = 32 \<and> 1 \<le> length a \<and> int (length a) \<le> MAX_DOCUMENT_JOURNAL_BYTES \<and>
      (\<forall>b. p = Some b \<longrightarrow> pub_ok b)"
  have "?L \<longleftrightarrow> ?in \<and> (\<exists>d'. committed d r t c a p = Inr d' \<and> M' = jset M k d')"
    by (cases p) (auto simp: memCommit_def sbind_Inr_iff copyBytes_Inr d assertJournalMutationInputs_def optCheck_Inr
        ownPublication_Inr)
  also have "\<dots> \<longleftrightarrow> ?in \<and> M' = jset M k ?d \<and> ?S"
  proof (rule conj_cong [OF refl])
    assume ?in
    then have "committed d r t c a p = Inr d' \<longleftrightarrow> d' = ?d \<and> ?S" for d' by (intro committed_Inr [OF ok]) simp_all
    then show "(\<exists>d'. committed d r t c a p = Inr d' \<and> M' = jset M k d') \<longleftrightarrow> M' = jset M k ?d \<and> ?S"
      by (simp only:) blast
  qed
  also have "\<dots> \<longleftrightarrow> M' = jset M k ?d \<and> ?S"
  proof -
    have ?in if S: ?S
    proof -
      obtain q where q: "vPending (doc_view (Some d)) = Some (q, c)" "r = vRevision (doc_view (Some d))" "t = pendingToken q"
        "length a = length (pendingEntry q) + 32" "\<forall>b. p = Some b \<longrightarrow> pub_ok b"
        using S unfolding spec_commit_iff by (auto split: option.splits)
      then show ?thesis using pending_ok(1-4) [OF ok q(1)] view_ok_fields(1) [OF ok] by (simp add: safe_nat_def)
    qed
    then show ?thesis by blast
  qed
  finally show ?thesis .
qed

lemma mem_discard:
  assumes d: "cloneInMemory (jget M k) = Inr d"
  shows "memDiscard M k t = Inr M' \<longleftrightarrow> M' = jset M k (discarded d t) \<and> spec_discard (doc_view (Some d)) t \<noteq> None"
  by (auto simp: memDiscard_def sbind_Inr_iff copyBytes_Inr d spec_discard_def)

lemma discarded_view:
  "spec_discard (doc_view (Some d)) t = Some v' \<Longrightarrow> v' = doc_view (Some (discarded d t))"
  by (auto simp: spec_discard_def discarded_def doc_view_def documentBytesEqual_def publicationsOf_def
      split: option.splits if_splits)

lemma mem_sent:
  assumes d: "cloneInMemory (jget M k) = Inr d" and ok: "view_ok (doc_view (Some d))"
  shows "memPublicationSent M k i = Inr M' \<longleftrightarrow>
    M' = jset M k (d\<lparr>memSnapshot := (memSnapshot d)\<lparr>journalPublications :=
        Some (filter (\<lambda>p. pubId p \<noteq> i) (publicationsOf (memSnapshot d)))\<rparr>\<rparr>) \<and>
    spec_sent (doc_view (Some d)) i \<noteq> None"
proof -
  have "totalBytes (map pubFrame (publicationsOf (memSnapshot d))) \<le> 16777216"
    using view_ok_fields(3) [OF ok] by (simp add: doc_view_fields)
  from plan_removing [OF this, of i] show ?thesis
    by (auto simp: memPublicationSent_def sbind_Inr_iff copyBytes_Inr d spec_sent_def)
qed

lemma mem_load:
  assumes "view_ok (doc_view (jget M k))"
  shows "snapshot_out (memLoad M k) = fst (spec_step (\<lambda>_. doc_view (jget M k)) (OpLoad k))"
  using clone_view [OF assms] by (auto simp: snapshot_out_def memLoad_def)

lemma mem_publications:
  assumes "view_ok (doc_view (jget M k))"
  shows "memLoadPublications M k = Inr (vPublications (doc_view (jget M k)))"
proof -
  have "(case jget M k of None \<Rightarrow> [] | Some d \<Rightarrow> publicationsOf (memSnapshot d)) = vPublications (doc_view (jget M k))"
    by (simp add: doc_view_def emptyView_def split: option.splits)
  then show ?thesis unfolding memLoadPublications_def
    using assms by (simp add: mapCheck_same view_ok_def ownPublication_Inr)
qed

lemma mem_simulates:
  assumes rep: "mem_represents M V"
  shows "fst (mem_step M e) = fst (spec_step V e) \<and> mem_represents (snd (mem_step M e)) (snd (spec_step V e))"
proof -
  have V: "view_ok (V k)" "doc_view (jget M k) = V k" for k using rep by (simp_all add: mem_represents_def)
  have clone: "\<exists>d. cloneInMemory (jget M k) = Inr d \<and> doc_view (Some d) = V k" for k
    using cloneInMemory_view [of "jget M k"] V [of k] by simp
  show ?thesis
  proof (cases e)
    case (OpStage k r t en p c)
    obtain d where d: "cloneInMemory (jget M k) = Inr d" "doc_view (Some d) = V k" using clone by blast
    note st = mem_stage [OF d(1), unfolded d(2), OF V(1)]
    show ?thesis unfolding OpStage mem_step.simps spec_step.simps
    proof (rule update_agrees [where represents = mem_represents, OF st rep], rule mem_represents_update [OF rep])
      fix v' assume v': "spec_stage (V k) r t en p c = Some v'"
      show "view_ok v'" by (rule spec_stage_ok [OF V(1) v'])
      show "doc_view (Some \<lparr>memSnapshot = (memSnapshot d)\<lparr>journalPending := Some \<lparr>pendingToken = t, pendingEntry = en,
          pendingPublication = p\<rparr>\<rparr>, memCheckpoint = c\<rparr>) = v'"
        using v' unfolding d(2) [symmetric] by (auto simp: spec_stage_def doc_view_def publicationsOf_def split: if_splits)
    qed
  next
    case (OpCommit k r t c a p)
    obtain d where d: "cloneInMemory (jget M k) = Inr d" "doc_view (Some d) = V k" using clone by blast
    note st = mem_commit [OF d(1), unfolded d(2), OF V(1)]
    show ?thesis unfolding OpCommit mem_step.simps spec_step.simps
      by (rule update_agrees [where represents = mem_represents, OF st rep], rule mem_represents_update [OF rep])
        (use spec_commit_ok [OF V(1)] committed_view [of d, unfolded d(2)] in \<open>auto simp only:\<close>)
  next
    case (OpDiscard k t)
    obtain d where d: "cloneInMemory (jget M k) = Inr d" "doc_view (Some d) = V k" using clone by blast
    note st = mem_discard [OF d(1), unfolded d(2)]
    show ?thesis unfolding OpDiscard mem_step.simps spec_step.simps
      by (rule update_agrees [where represents = mem_represents, OF st rep], rule mem_represents_update [OF rep])
        (use spec_discard_ok [OF V(1)] discarded_view [of d, unfolded d(2)] in \<open>auto simp only:\<close>)
  next
    case (OpSent k i)
    obtain d where d: "cloneInMemory (jget M k) = Inr d" "doc_view (Some d) = V k" using clone by blast
    note st = mem_sent [OF d(1), unfolded d(2), OF V(1)]
    show ?thesis unfolding OpSent mem_step.simps spec_step.simps
    proof (rule update_agrees [where represents = mem_represents, OF st rep], rule mem_represents_update [OF rep])
      fix v' assume v': "spec_sent (V k) i = Some v'"
      show "view_ok v'" by (rule spec_sent_ok [OF V(1) v'])
      show "doc_view (Some (d\<lparr>memSnapshot := (memSnapshot d)\<lparr>journalPublications :=
          Some (filter (\<lambda>p. pubId p \<noteq> i) (publicationsOf (memSnapshot d)))\<rparr>\<rparr>)) = v'"
        using v' unfolding d(2) [symmetric] by (auto simp: spec_sent_def doc_view_def publicationsOf_def split: if_splits)
    qed
  next
    case (OpLoad k)
    then show ?thesis using rep mem_load [of M k] V by simp
  next
    case (OpHead k)
    have "memLoadAcceptedHead M k = (vRevision (V k), if vEntries (V k) = [] then None else Some (last (vEntries (V k))))"
      unfolding V(2) [symmetric] by (simp add: memLoadAcceptedHead_def doc_view_def emptyView_def split: option.splits)
    then show ?thesis using rep OpHead by simp
  next
    case (OpPublications k)
    then show ?thesis using rep mem_publications [of M k] V by (simp add: publications_out_def)
  qed
qed

interpretation mem_journal: journal_store mem_step mem_represents
  by unfold_locales (rule mem_simulates)



section \<open>The IndexedDB store meets the specification\<close>

definition hp_of :: "journal_pending \<times> bool \<Rightarrow> head_pending" where
  "hp_of x = \<lparr>hpToken = pendingToken (fst x), hpBytes = int (length (pendingEntry (fst x))), hpCheckpoint = snd x,
     hpPublicationBytes = (case pendingPublication (fst x) of None \<Rightarrow> 0 | Some z \<Rightarrow> stagedBytes z)\<rparr>"

definition head_of :: "journal_view \<Rightarrow> JournalHead" where
  "head_of v = \<lparr>headRevision = vRevision v, headRevisions = [vRevision v - int (length (vEntries v)) + 1..vRevision v],
     headBytes = totalBytes (vEntries v), headPublications = publicationIndex (vPublications v),
     headPending = map_option hp_of (vPending v)\<rparr>"

definition idb_doc :: "idb \<Rightarrow> string \<Rightarrow> journal_view \<Rightarrow> bool" where
  "idb_doc D k v \<longleftrightarrow>
     (case jget (idbHeads D) k of None \<Rightarrow> emptyHead | Some h \<Rightarrow> h) = head_of v \<and>
     (\<forall>i < length (vEntries v).
        jget (idbEntries D) (k, vRevision v - int (length (vEntries v)) + 1 + int i) = Some (vEntries v ! i)) \<and>
     (\<forall>p \<in> set (vPublications v). jget (idbPublications D) (k, publicationId (pubId p)) = Some p) \<and>
     jget (idbPending D) k = map_option fst (vPending v)"

definition idb_represents :: "idb \<Rightarrow> (string \<Rightarrow> journal_view) \<Rightarrow> bool" where
  "idb_represents D V \<longleftrightarrow> (\<forall>k. view_ok (V k) \<and> idb_doc D k (V k))"

lemma journalIndex_loop:
  assumes "1 \<le> a" "b \<le> newest" "idx = 0 \<or> a = prev + 1"
  shows "isDocumentJournalIndexValid_loop newest prev idx [a..b] = Some (if a \<le> b then b else prev)"
  using assms
proof (induction a b arbitrary: prev idx rule: upto.induct)
  case (1 a b)
  show ?case
  proof (cases "a \<le> b")
    case True
    have "isDocumentJournalIndexValid_loop newest a (idx + 1) [a + 1..b] = Some (if a + 1 \<le> b then b else a)"
      using "1.prems" by (intro "1.IH" [OF True]) auto
    moreover have "(if a + 1 \<le> b then b else a) = b" using True by auto
    ultimately show ?thesis using True "1.prems" by (auto simp: upto_rec1)
  qed simp
qed

lemma totalBytes_length: "\<forall>e \<in> set es. 1 \<le> length e \<Longrightarrow> int (length es) \<le> totalBytes es"
  by (induction es) auto

lemma journalIndex_valid:
  assumes "view_ok v"
  shows "isDocumentJournalIndexValid (vRevision v) [vRevision v - int (length (vEntries v)) + 1..vRevision v]
    (totalBytes (vEntries v))"
proof -
  have v: "int (length (vEntries v)) \<le> vRevision v" "vEntries v = [] \<Longrightarrow> vRevision v = 0"
    "length (vEntries v) \<le> 128" "\<forall>e \<in> set (vEntries v). 1 \<le> length e"
    using assms by (auto simp: view_ok_def)
  have "isDocumentJournalIndexValid_loop (vRevision v) 0 0 [vRevision v - int (length (vEntries v)) + 1..vRevision v]
      = Some (vRevision v)" if "vEntries v \<noteq> []"
    using v(1) that by (subst journalIndex_loop) (auto simp: Suc_le_eq)
  then show ?thesis using v totalBytes_length [OF v(4)]
    by (cases "vEntries v = []") (simp_all add: isDocumentJournalIndexValid_def)
qed

lemma hex_digit_chars: "n < 16 \<Longrightarrow> hex_digit n \<in> set ''0123456789abcdef''"
  unfolding hex_digit_def by (rule nth_mem) simp

lemma hex_byte_chars: "set (hex_byte b) \<subseteq> set ''0123456789abcdef''"
proof -
  have "unat b < 256" using unsigned_less [of b] by simp
  then have "unat b div 16 < 16" "unat b mod 16 < 16" by simp_all
  then show ?thesis unfolding hex_byte_def using hex_digit_chars by (simp only: list.set) blast
qed

lemma hex_bytes_chars: "set (hex_bytes bs) \<subseteq> set ''0123456789abcdef''"
proof (induction bs)
  case (Cons b bs)
  then show ?case using hex_byte_chars [of b] by (simp only: hex_bytes.simps set_append Un_subset_iff)
qed simp

lemma isHexId_publicationId: "length i = 32 \<Longrightarrow> isHexId (publicationId i)"
  unfolding isHexId_def publicationId_def by (rule conjI [OF _ hex_bytes_chars]) simp

lemma readHead_index:
  assumes "\<forall>p \<in> set ps. pub_ok p" "distinct (map pubId ps)" "set seen \<inter> indexId ` set (publicationIndex ps) = {}"
  shows "readHead_publications seen tot (publicationIndex ps) = Some (tot + totalBytes (map pubFrame ps))"
  using assms
proof (induction ps arbitrary: seen tot)
  case (Cons p ps)
  have "isHexId (publicationId (pubId p))" "1 \<le> int (length (pubFrame p))"
    "int (length (pubFrame p)) \<le> MAX_DOCUMENT_STORED_PUBLICATION_BYTES"
    using Cons.prems(1) by (auto simp: pub_ok_def isHexId_publicationId)
  moreover have "readHead_publications (seen @ [publicationId (pubId p)]) (tot + int (length (pubFrame p))) (publicationIndex ps) =
      Some (tot + int (length (pubFrame p)) + totalBytes (map pubFrame ps))"
    using Cons.prems by (intro Cons.IH) (auto simp: publicationIndex_def)
  ultimately show ?case using Cons.prems(3) by (auto simp: publicationIndex_def)
qed (simp add: publicationIndex_def)

lemma readHead_view:
  assumes ok: "view_ok v"
  shows "readHead (Some (head_of v)) = Inr (head_of v)"
proof -
  have v: "0 \<le> vRevision v" "vRevision v \<le> MAX_SAFE_INTEGER" "totalBytes (vEntries v) \<le> MAX_DOCUMENT_JOURNAL_BYTES"
    "length (vEntries v) \<le> 128" "int (length (vEntries v)) \<le> vRevision v" "length (vPublications v) \<le> 16"
    "\<forall>p \<in> set (vPublications v). pub_ok p" "distinct (map pubId (vPublications v))"
    "totalBytes (map pubFrame (vPublications v)) \<le> 16777216"
    using ok by (auto simp: view_ok_def)
  have pubs: "readHead_publications [] 0 (publicationIndex (vPublications v)) = Some (totalBytes (map pubFrame (vPublications v)))"
    using readHead_index [OF v(7,8), of "[]" 0] by simp
  have pend: "hpBytes (hp_of x) \<ge> 1 \<and> hpBytes (hp_of x) \<le> MAX_DOCUMENT_JOURNAL_BYTES \<and>
      0 \<le> hpPublicationBytes (hp_of x) \<and> hpPublicationBytes (hp_of x) \<le> MAX_DOCUMENT_STORED_PUBLICATION_BYTES \<and>
      length (hpToken (hp_of x)) = 32" if "vPending v = Some x" for x
  proof -
    have x: "vPending v = Some (fst x, snd x)" using that by simp
    show ?thesis using pending_ok(2-4) [OF ok x] pending_ok(7) [OF ok x]
      by (auto simp: hp_of_def staged_ok_def MAX_DOCUMENT_STORED_PUBLICATION_BYTES_def split: option.splits)
  qed
  have guard: "\<not> (\<not> safe_nat (vRevision v) \<or> totalBytes (vEntries v) < 0 \<or> totalBytes (vEntries v) > MAX_DOCUMENT_JOURNAL_BYTES \<or>
     length [vRevision v - int (length (vEntries v)) + 1..vRevision v] > MAX_DOCUMENT_JOURNAL_ENTRIES \<or>
     length (publicationIndex (vPublications v)) > 16 \<or>
     \<not> list_all (\<lambda>r. \<bar>r\<bar> \<le> MAX_SAFE_INTEGER) [vRevision v - int (length (vEntries v)) + 1..vRevision v] \<or>
     \<not> isDocumentJournalIndexValid (vRevision v) [vRevision v - int (length (vEntries v)) + 1..vRevision v] (totalBytes (vEntries v)))"
    using v(1-6) totalBytes_nonneg [of "vEntries v"] journalIndex_valid [OF ok]
    by (auto simp: safe_nat_def MAX_DOCUMENT_JOURNAL_ENTRIES_def publicationIndex_simps list_all_iff)
  show ?thesis
    unfolding readHead_def option.case head_of_def JournalHead.simps if_not_P [OF guard] pubs
    using v(9) pend by (auto simp: copyBytes_ok split: option.splits)
qed


lemma head_of_empty: "head_of emptyView = emptyHead"
  by (simp add: head_of_def emptyView_def emptyHead_def publicationIndex_def)

lemma view_ok_empty: "view_ok emptyView"
  by (simp add: view_ok_def emptyView_def MAX_DOCUMENT_JOURNAL_BYTES_def)

lemma idb_head:
  assumes "view_ok v" "idb_doc D k v"
  shows "readHead (jget (idbHeads D) k) = Inr (head_of v)"
proof (cases "jget (idbHeads D) k")
  case None
  then have "head_of v = emptyHead" using assms(2) by (simp add: idb_doc_def)
  then show ?thesis using None by (simp add: readHead_def)
next
  case (Some h)
  then show ?thesis using assms readHead_view by (simp add: idb_doc_def)
qed

lemma copyIndexed_Inr:
  assumes "1 \<le> length b" "int (length b) \<le> MAX_DOCUMENT_JOURNAL_BYTES" "0 \<le> copied"
    "copied + int (length b) \<le> declared" "exact \<Longrightarrow> copied = 0 \<and> declared = int (length b)"
  shows "copyIndexedJournalBytes (Some b) declared copied exact = Inr (b, copied + int (length b))"
  using assms by (cases exact) (auto simp: copyIndexedJournalBytes_def boundedFieldEnd_def Let_def)

lemma readRows:
  assumes "\<forall>i < length es. jget (idbEntries D) (k, lo + int i) = Some (es ! i)" "\<forall>e \<in> set es. 1 \<le> length e"
    "0 \<le> copied" "copied + totalBytes es \<le> declared" "declared \<le> MAX_DOCUMENT_JOURNAL_BYTES"
  shows "readRowsInOrder D k declared copied [lo..lo + int (length es) - 1] = Inr (es, copied + totalBytes es)"
  using assms
proof (induction es arbitrary: lo copied)
  case (Cons e es)
  have e: "jget (idbEntries D) (k, lo) = Some e" using Cons.prems(1) [rule_format, of 0] by simp
  have c: "copyIndexedJournalBytes (Some e) declared copied False = Inr (e, copied + int (length e))"
    using Cons.prems totalBytes_nonneg [of es] by (intro copyIndexed_Inr) auto
  have "jget (idbEntries D) (k, lo + 1 + int i) = Some (es ! i)" if "i < length es" for i
    using Cons.prems(1) [rule_format, of "Suc i"] that by (simp add: algebra_simps)
  then have "readRowsInOrder D k declared (copied + int (length e)) [lo + 1..lo + 1 + int (length es) - 1] =
      Inr (es, copied + int (length e) + totalBytes es)"
    using Cons.prems by (intro Cons.IH) auto
  moreover have "[lo..lo + int (length (e # es)) - 1] = lo # [lo + 1..lo + 1 + int (length es) - 1]"
    by (subst upto_rec1) simp_all
  ultimately show ?case by (simp add: e c)
qed simp

lemma view_rows:
  assumes "view_ok v" "idb_doc D k v"
  shows "readRowsInOrder D k (headBytes (head_of v)) 0 (headRevisions (head_of v)) =
    Inr (vEntries v, headBytes (head_of v))"
proof -
  let ?lo = "vRevision v - int (length (vEntries v)) + 1"
  have "\<forall>i < length (vEntries v). jget (idbEntries D) (k, ?lo + int i) = Some (vEntries v ! i)"
    using assms(2) unfolding idb_doc_def by blast
  moreover have "\<forall>e \<in> set (vEntries v). 1 \<le> length e" using assms(1) by (simp add: view_ok_def)
  ultimately have "readRowsInOrder D k (totalBytes (vEntries v)) 0 [?lo..?lo + int (length (vEntries v)) - 1] =
      Inr (vEntries v, 0 + totalBytes (vEntries v))"
    using view_ok_fields(5) [OF assms(1)] by (intro readRows) auto
  then show ?thesis by (simp add: head_of_def)
qed

lemma publication_bytes_bound: "MAX_DOCUMENT_STORED_PUBLICATION_BYTES \<le> MAX_DOCUMENT_JOURNAL_BYTES"
  by (simp add: MAX_DOCUMENT_STORED_PUBLICATION_BYTES_def MAX_DOCUMENT_JOURNAL_BYTES_def)

lemma readIndexed_publications:
  assumes "\<forall>p \<in> set ps. pub_ok p \<and> jget (idbPublications D) (k, publicationId (pubId p)) = Some p"
  shows "mapCheck (\<lambda>p. readIndexedPublication (jget (idbPublications D) (k, indexId p)) p) (publicationIndex ps) = Inr ps"
  using assms
proof (induction ps)
  case (Cons p ps)
  have "copyIndexedJournalBytes (Some (pubFrame p)) (int (length (pubFrame p))) 0 True =
      Inr (pubFrame p, 0 + int (length (pubFrame p)))"
    using Cons.prems publication_bytes_bound by (intro copyIndexed_Inr) (auto simp: pub_ok_def)
  then have "readIndexedPublication (Some p) \<lparr>indexId = publicationId (pubId p), indexBytes = int (length (pubFrame p))\<rparr> = Inr p"
    using Cons.prems by (simp add: readIndexedPublication_def copyBytes_ok pub_ok_def)
  then show ?case using Cons by (simp add: publicationIndex_def)
qed (simp add: publicationIndex_def)

lemma view_publications:
  assumes "view_ok v" "idb_doc D k v"
  shows "mapCheck (\<lambda>p. readIndexedPublication (jget (idbPublications D) (k, indexId p)) p) (headPublications (head_of v)) =
    Inr (vPublications v)"
  using assms by (simp add: head_of_def readIndexed_publications idb_doc_def view_ok_def)

lemma view_pending:
  assumes ok: "view_ok v" and doc: "idb_doc D k v"
  shows "optCheck (readPendingRow D k) (headPending (head_of v)) = Inr (map_option fst (vPending v))"
proof (cases "vPending v")
  case None
  then show ?thesis by (simp add: head_of_def optCheck_def)
next
  case (Some x)
  then have x: "vPending v = Some (fst x, snd x)" by simp
  note q = pending_ok [OF ok x]
  have "copyIndexedJournalBytes (Some (pendingEntry (fst x))) (int (length (pendingEntry (fst x)))) 0 True =
      Inr (pendingEntry (fst x), 0 + int (length (pendingEntry (fst x))))"
    using q(3,4) by (intro copyIndexed_Inr) auto
  moreover have "optCheck ownStagedPublication (pendingPublication (fst x)) = Inr (pendingPublication (fst x))"
    using q(7) by (auto simp: optCheck_Inr ownStaged_Inr split: option.splits)
  moreover have "jget (idbPending D) k = Some (fst x)" using doc Some by (simp add: idb_doc_def)
  ultimately have "readPendingRow D k (hp_of x) = Inr (fst x)"
    using q(2) by (simp add: readPendingRow_def hp_of_def documentBytesEqual_def copyBytes_ok)
  then show ?thesis using Some by (simp add: head_of_def optCheck_def)
qed

lemma idb_load:
  assumes ok: "view_ok v" and doc: "idb_doc D k v"
  shows "idbLoad D k = Inr \<lparr>journalRevision = vRevision v, journalEntries = vEntries v,
    journalPublications = Some (vPublications v), journalPending = map_option fst (vPending v)\<rparr>"
proof -
  have p: "(if headPending (head_of v) \<noteq> None then optCheck (readPendingRow D k) (headPending (head_of v)) else Inr None)
      = Inr (map_option fst (vPending v))"
    using view_pending [OF ok doc] by (cases "vPending v") (simp_all add: head_of_def)
  show ?thesis
    unfolding idbLoad_def idb_head [OF ok doc] sbind_simps planDocumentJournalRead_def Let_def if_False
      DocumentJournalReadPlan.simps take_all [OF order_refl] view_rows [OF ok doc] view_publications [OF ok doc] prod.case
      simp_thms p
    by (simp add: head_of_def)
qed

lemma idb_accepted_head:
  assumes ok: "view_ok v" and doc: "idb_doc D k v"
  shows "idbLoadAcceptedHead D k = Inr (vRevision v, if vEntries v = [] then None else Some (last (vEntries v)))"
proof (cases "vEntries v = []")
  case True
  then have "vRevision v = 0" using ok by (simp add: view_ok_def)
  then show ?thesis using True by (simp add: idbLoadAcceptedHead_def idb_head [OF ok doc] head_of_def)
next
  case False
  let ?n = "length (vEntries v)"
  have row: "jget (idbEntries D) (k, vRevision v - int ?n + 1 + int (?n - 1)) = Some (vEntries v ! (?n - 1))"
    using doc False unfolding idb_doc_def by simp
  moreover have "vRevision v - int ?n + 1 + int (?n - 1) = vRevision v" using False by (cases "vEntries v") simp_all
  ultimately have row: "jget (idbEntries D) (k, vRevision v) = Some (last (vEntries v))" using False by (simp add: last_conv_nth)
  have l: "last (vEntries v) \<in> set (vEntries v)" using False by simp
  have es: "butlast (vEntries v) @ [last (vEntries v)] = vEntries v" using False by simp
  have "totalBytes (butlast (vEntries v) @ [last (vEntries v)]) = totalBytes (butlast (vEntries v)) + int (length (last (vEntries v)))"
    by simp
  then have b: "int (length (last (vEntries v))) \<le> totalBytes (vEntries v)"
    using totalBytes_nonneg [of "butlast (vEntries v)"] unfolding es by simp
  have "copyIndexedJournalBytes (Some (last (vEntries v))) (totalBytes (vEntries v)) 0 False =
      Inr (last (vEntries v), 0 + int (length (last (vEntries v))))"
    using ok l b by (intro copyIndexed_Inr) (auto simp: view_ok_def)
  moreover have "vRevision v \<noteq> 0" using ok False by (cases "vEntries v") (auto simp: view_ok_def)
  ultimately show ?thesis using False row by (simp add: idbLoadAcceptedHead_def idb_head [OF ok doc] head_of_def)
qed


text \<open>The updates.\<close>

lemma idb_represents_update:
  assumes "idb_represents D V" "view_ok v" "idb_doc D' k v"
    and "\<And>k'. k' \<noteq> k \<Longrightarrow> jget (idbHeads D') k' = jget (idbHeads D) k' \<and> jget (idbPending D') k' = jget (idbPending D) k' \<and>
      (\<forall>r. jget (idbEntries D') (k', r) = jget (idbEntries D) (k', r)) \<and>
      (\<forall>i. jget (idbPublications D') (k', i) = jget (idbPublications D) (k', i))"
  shows "idb_represents D' (V(k := v))"
  using assms by (auto simp: idb_represents_def idb_doc_def)

lemma idb_stage:
  assumes ok: "view_ok v" and doc: "idb_doc D k v"
  shows "idbStage D k r t e p c = Inr D' \<longleftrightarrow>
    D' = D\<lparr>idbPending := jset (idbPending D) k \<lparr>pendingToken = t, pendingEntry = e, pendingPublication = p\<rparr>,
           idbHeads := jset (idbHeads D) k ((head_of v)\<lparr>headPending := Some
             \<lparr>hpToken = t, hpBytes = int (length e), hpCheckpoint = c,
              hpPublicationBytes = (case p of None \<Rightarrow> 0 | Some z \<Rightarrow> stagedBytes z)\<rparr>\<rparr>)\<rparr> \<and>
    spec_stage v r t e p c \<noteq> None"
    (is "_ \<longleftrightarrow> D' = ?D p \<and> _")
proof -
  let ?c = "classifyJournalStage (headRevision (head_of v)) r (headPending (head_of v) \<noteq> None) c
             (int (length (headRevisions (head_of v)))) (headBytes (head_of v)) (int (length e))"
  let ?q = "case p of None \<Rightarrow> True | Some q \<Rightarrow> staged_ok q \<and> queue_room (vPublications v) (stagedId q) (stagedBytes q)"
  note f = view_ok_fields [OF ok]
  have h: "headPublications (head_of v) = publicationIndex (vPublications v)" by (simp add: head_of_def)
  have "idbStage D k r t e p c = Inr D' \<longleftrightarrow> safe_nat r \<and> length t = 32 \<and> 1 \<le> length e \<and>
      int (length e) \<le> MAX_DOCUMENT_JOURNAL_BYTES \<and> ?c = StageAccept \<and>
      (\<exists>y. (\<exists>x. optCheck ownStagedPublication p = Inr y \<and>
         optCheck (\<lambda>z. requirePublicationPlan (planJournalPublication (publicationIndex (vPublications v))
           (publicationId (stagedId z)) (stagedBytes z) True)) y = Inr x) \<and> D' = ?D y)"
    by (auto simp: idbStage_def idbUpdate_def Let_def sbind_Inr_iff copyBytes_Inr idb_head [OF ok doc]
        assertJournalMutationInputs_def stage_case_Inr h)
  also have "\<dots> \<longleftrightarrow> (safe_nat r \<and> length t = 32 \<and> 1 \<le> length e \<and>
      int (length e) \<le> MAX_DOCUMENT_JOURNAL_BYTES \<and> ?c = StageAccept \<and> ?q) \<and> D' = ?D p"
    unfolding reserve_Inr [OF f(3)] by blast
  also have "(safe_nat r \<and> length t = 32 \<and> 1 \<le> length e \<and>
      int (length e) \<le> MAX_DOCUMENT_JOURNAL_BYTES \<and> ?c = StageAccept \<and> ?q) \<longleftrightarrow> spec_stage v r t e p c \<noteq> None"
    using f(1,2) unfolding stage_classified spec_stage_def safe_nat_def by (auto simp: head_of_def)
  finally show ?thesis by blast
qed

lemma stage_doc:
  assumes "idb_doc D k v" "spec_stage v r t e p c = Some v'"
  shows "idb_doc (D\<lparr>idbPending := jset (idbPending D) k \<lparr>pendingToken = t, pendingEntry = e, pendingPublication = p\<rparr>,
           idbHeads := jset (idbHeads D) k ((head_of v)\<lparr>headPending := Some
             \<lparr>hpToken = t, hpBytes = int (length e), hpCheckpoint = c,
              hpPublicationBytes = (case p of None \<Rightarrow> 0 | Some z \<Rightarrow> stagedBytes z)\<rparr>\<rparr>)\<rparr>) k v'"
proof -
  have "v' = v\<lparr>vPending := Some (\<lparr>pendingToken = t, pendingEntry = e, pendingPublication = p\<rparr>, c)\<rparr>"
    using assms(2) by (auto simp: spec_stage_def split: if_splits)
  then show ?thesis using assms(1) by (simp add: idb_doc_def jget_jset head_of_def hp_of_def)
qed

lemma idb_discard:
  assumes ok: "view_ok v" and doc: "idb_doc D k v"
  shows "idbDiscard D k t = Inr D' \<longleftrightarrow>
    D' = (if (case vPending v of None \<Rightarrow> False | Some (q, _) \<Rightarrow> pendingToken q = t)
          then D\<lparr>idbPending := jdel (idbPending D) k, idbHeads := jset (idbHeads D) k ((head_of v)\<lparr>headPending := None\<rparr>)\<rparr>
          else D) \<and> spec_discard v t \<noteq> None"
  by (cases "vPending v")
    (auto simp: idbDiscard_def idbUpdate_def sbind_Inr_iff copyBytes_Inr idb_head [OF ok doc] spec_discard_def
      head_of_def hp_of_def documentBytesEqual_def)

lemma discard_doc:
  assumes "idb_doc D k v" "spec_discard v t = Some v'"
  shows "idb_doc (if (case vPending v of None \<Rightarrow> False | Some (q, _) \<Rightarrow> pendingToken q = t)
          then D\<lparr>idbPending := jdel (idbPending D) k, idbHeads := jset (idbHeads D) k ((head_of v)\<lparr>headPending := None\<rparr>)\<rparr>
          else D) k v'"
proof -
  have "v' = (if (case vPending v of None \<Rightarrow> False | Some (q, _) \<Rightarrow> pendingToken q = t) then v\<lparr>vPending := None\<rparr> else v)"
    using assms(2) by (auto simp: spec_discard_def split: if_splits)
  then show ?thesis using assms(1) by (simp add: idb_doc_def jget_jset jget_jdel head_of_def)
qed

lemma idb_sent:
  assumes ok: "view_ok v" and doc: "idb_doc D k v"
  shows "idbPublicationSent D k i = Inr D' \<longleftrightarrow>
    D' = D\<lparr>idbPublications := jdel (idbPublications D) (k, publicationId i),
           idbHeads := jset (idbHeads D) k ((head_of v)\<lparr>headPublications :=
             publicationIndex (filter (\<lambda>p. pubId p \<noteq> i) (vPublications v))\<rparr>)\<rparr> \<and> spec_sent v i \<noteq> None"
proof -
  have h: "headPublications (head_of v) = publicationIndex (vPublications v)" by (simp add: head_of_def)
  from plan_removing [OF view_ok_fields(3) [OF ok], of i] show ?thesis
    by (auto simp: idbPublicationSent_def idbUpdate_def sbind_Inr_iff copyBytes_Inr idb_head [OF ok doc] spec_sent_def h)
qed

lemma sent_doc:
  assumes "idb_doc D k v" "spec_sent v i = Some v'"
  shows "idb_doc (D\<lparr>idbPublications := jdel (idbPublications D) (k, publicationId i),
           idbHeads := jset (idbHeads D) k ((head_of v)\<lparr>headPublications :=
             publicationIndex (filter (\<lambda>p. pubId p \<noteq> i) (vPublications v))\<rparr>)\<rparr>) k v'"
proof -
  have "v' = v\<lparr>vPublications := filter (\<lambda>p. pubId p \<noteq> i) (vPublications v)\<rparr>"
    using assms(2) by (auto simp: spec_sent_def split: if_splits)
  then show ?thesis using assms(1) by (simp add: idb_doc_def jget_jset jget_jdel head_of_def)
qed


definition commitRows :: "idb \<Rightarrow> string \<Rightarrow> journal_view \<Rightarrow> bool \<Rightarrow> bytes \<Rightarrow> (string \<times> int, bytes) jsmap" where
  "commitRows D k v c a =
     (let rows = jset (idbEntries D) (k, vRevision v + 1) a
      in if c then foldl (\<lambda>m old. jdel m (k, old)) rows (headRevisions (head_of v)) else rows)"

definition committedIdb ::
    "idb \<Rightarrow> string \<Rightarrow> journal_view \<Rightarrow> bool \<Rightarrow> bytes \<Rightarrow> DocumentJournalPublication option \<Rightarrow> idb" where
  "committedIdb D k v c a p =
     D\<lparr>idbEntries := commitRows D k v c a,
       idbPublications := (case p of None \<Rightarrow> idbPublications D
         | Some b \<Rightarrow> jset (idbPublications D) (k, publicationId (pubId b)) b),
       idbPending := jdel (idbPending D) k,
       idbHeads := jset (idbHeads D) k
         \<lparr>headRevision = vRevision v + 1,
          headRevisions = (if c then [vRevision v + 1] else headRevisions (head_of v) @ [vRevision v + 1]),
          headBytes = (if c then int (length a) else totalBytes (vEntries v) + int (length a)),
          headPublications = publicationIndex (vPublications v @ (case p of None \<Rightarrow> [] | Some b \<Rightarrow> [b])),
          headPending = None\<rparr>\<rparr>"

lemma idb_commit:
  assumes ok: "view_ok v" and doc: "idb_doc D k v"
  shows "idbCommit D k r t c a p = Inr D' \<longleftrightarrow> D' = committedIdb D k v c a p \<and> spec_commit v r t c a p \<noteq> None"
proof (cases "vPending v")
  case None
  then have "spec_commit v r t c a p = None" "headPending (head_of v) = None"
    by (simp_all add: spec_commit_def head_of_def)
  then show ?thesis by (simp add: idbCommit_def idbUpdate_def sbind_Inr_iff idb_head [OF ok doc])
next
  case (Some x)
  obtain q c' where x: "x = (q, c')" by (cases x)
  note vp = Some [unfolded x]
  note q = pending_ok [OF ok vp] and f = view_ok_fields [OF ok]
  have row: "jget (idbPending D) k = Some q" using doc vp by (simp add: idb_doc_def)
  have hp: "headPending (head_of v) = Some (hp_of (q, c'))" "headRevision (head_of v) = vRevision v"
    "headPublications (head_of v) = publicationIndex (vPublications v)" "headBytes (head_of v) = totalBytes (vEntries v)"
    using vp by (simp_all add: head_of_def)
  have own: "optCheck ownStagedPublication (pendingPublication q) = Inr (pendingPublication q)"
    using q(7) by (auto simp: optCheck_Inr ownStaged_Inr split: option.splits)
  let ?ok = "r = vRevision v \<and> t = pendingToken q \<and> c = c' \<and> length a = length (pendingEntry q) + 32 \<and>
      optCheck ownPublication p = Inr p \<and> (case p of
           None \<Rightarrow> pendingPublication q = None
         | Some b \<Rightarrow> \<exists>z. pendingPublication q = Some z \<and> pubId b = stagedId z \<and> int (length (pubFrame b)) = stagedBytes z)"
  have spec: "spec_commit v r t c a p \<noteq> None \<longleftrightarrow> ?ok"
    unfolding spec_commit_iff vp by (cases p) (auto simp: optCheck_Inr ownPublication_Inr)
  show ?thesis
  proof (cases ?ok)
    case True
    have inputs: "assertJournalMutationInputs r = Inr ()" "copyBytes t 32 32 = Inr t"
      "copyBytes a 1 MAX_DOCUMENT_JOURNAL_BYTES = Inr a" "optCheck ownPublication p = Inr p"
      using True q(1,2,4) f(1) by (simp_all add: assertJournalMutationInputs_def safe_nat_def copyBytes_Inr)
    have cur: "isJournalCommitCurrent (vRevision v) r True (documentBytesEqual (hpToken (hp_of (q, c'))) t)
        (hpCheckpoint (hp_of (q, c')) = c)" "int (length a) = hpBytes (hp_of (q, c')) + DOCUMENT_JOURNAL_ACCEPTED_OVERHEAD"
      using True q(1) by (simp_all add: isJournalCommitCurrent_def documentBytesEqual_def hp_of_def
          DOCUMENT_JOURNAL_ACCEPTED_OVERHEAD_def)
    have plan: "\<exists>plan. requirePublicationPlan (planJournalPublication (publicationIndex (vPublications v))
        (publicationId (stagedId z)) (stagedBytes z) True) = Inr plan \<and>
        planPublications plan = publicationIndex (vPublications v) @ [\<lparr>indexId = publicationId (stagedId z), indexBytes = stagedBytes z\<rparr>]"
      if "pendingPublication q = Some z" for z
      using q(7,8) [OF that] by (simp add: plan_adding [OF f(3)] staged_ok_def)
    have "idbCommit D k r t c a p = Inr (committedIdb D k v c a p)"
      unfolding idbCommit_def idbUpdate_def idb_head [OF ok doc] inputs sbind_simps hp option.case row
      using cur own True plan
      by (cases p; cases "pendingPublication q")
        (auto simp: documentBytesEqual_def hp_of_def committedIdb_def commitRows_def Let_def publicationIndex_def)
    then show ?thesis using spec True by auto
  next
    case False
    have "idbCommit D k r t c a p \<noteq> Inr D'"
    proof
      assume "idbCommit D k r t c a p = Inr D'"
      then have "?ok"
        by (cases p; cases "pendingPublication q")
          (auto simp: idbCommit_def idbUpdate_def idb_head [OF ok doc] sbind_Inr_iff hp row own copyBytes_Inr hp_of_def
            isJournalCommitCurrent_def documentBytesEqual_def DOCUMENT_JOURNAL_ACCEPTED_OVERHEAD_def optCheck_Inr ownPublication_Inr
            ownStaged_Inr split: if_splits)
      then show False using False by contradiction
    qed
    then show ?thesis using spec False by blast
  qed
qed

lemma jget_foldl_jdel: "jget (foldl (\<lambda>m old. jdel m (k, old)) m rs) x = (if x \<in> Pair k ` set rs then None else jget m x)"
  by (induction rs arbitrary: m) (auto simp: jget_jdel)

lemma commit_doc:
  assumes ok: "view_ok v" and doc: "idb_doc D k v" and s: "spec_commit v r t c a p = Some v'"
  shows "idb_doc (committedIdb D k v c a p) k v'"
proof -
  have v': "v' = \<lparr>vRevision = vRevision v + 1, vEntries = (if c then [a] else vEntries v @ [a]),
      vPublications = vPublications v @ (case p of None \<Rightarrow> [] | Some b \<Rightarrow> [b]), vPending = None\<rparr>"
    using s by (auto simp: spec_commit_def split: option.splits if_splits)
  have "vPublications v' = vPublications v @ (case p of None \<Rightarrow> [] | Some b \<Rightarrow> [b])" "view_ok v'"
    using v' spec_commit_ok [OF ok s] by simp_all
  then have "distinct (map pubId (vPublications v @ (case p of None \<Rightarrow> [] | Some b \<Rightarrow> [b])))" by (simp add: view_ok_def)
  then have fresh: "\<forall>y \<in> set (vPublications v). pubId y \<noteq> pubId b" if "p = Some b" for b
    using that by (auto simp: image_iff)
  let ?n = "int (length (vEntries v))" and ?rev = "vRevision v"
  have head: "[?rev - ?n + 1..?rev + 1] = [?rev - ?n + 1..?rev] @ [?rev + 1]"
    using upto_rec2 [of "?rev - ?n + 1" "?rev + 1"] by simp
  have rows: "jget (commitRows D k v c a) (k, ?rev + 1 - int (length (vEntries v')) + 1 + int i) = Some (vEntries v' ! i)"
    if "i < length (vEntries v')" for i
  proof (cases c)
    case True
    then show ?thesis using that v' by (auto simp: commitRows_def jget_foldl_jdel jget_jset head_of_def)
  next
    case False
    have "jget (idbEntries D) (k, ?rev - ?n + 1 + int i) = Some (vEntries v ! i)" if "i < length (vEntries v)"
      using doc that unfolding idb_doc_def by blast
    then show ?thesis using that False v'
      by (auto simp: commitRows_def jget_jset nth_append)
  qed
  have pubs: "\<forall>y \<in> set (vPublications v'). jget (idbPublications (committedIdb D k v c a p)) (k, publicationId (pubId y)) = Some y"
    using doc fresh v' by (auto simp: idb_doc_def committedIdb_def jget_jset split: option.splits)
  show ?thesis
    unfolding idb_doc_def using rows pubs head v'
    by (simp add: committedIdb_def jget_jset jget_jdel head_of_def publicationIndex_def algebra_simps)
qed


lemma idb_simulates:
  assumes rep: "idb_represents D V"
  shows "fst (idb_step D e) = fst (spec_step V e) \<and> idb_represents (snd (idb_step D e)) (snd (spec_step V e))"
proof -
  have V: "view_ok (V k)" "idb_doc D k (V k)" for k using rep by (simp_all add: idb_represents_def)
  note agrees = update_agrees [where represents = idb_represents, OF _ rep]
  note updates = idb_represents_update [OF rep]
  show ?thesis
  proof (cases e)
    case (OpStage k r t en p c)
    show ?thesis unfolding OpStage idb_step.simps spec_step.simps
      by (rule agrees [OF idb_stage [OF V]], rule updates)
        (use spec_stage_ok [OF V(1)] stage_doc [OF V(2)] in \<open>auto simp: jget_jset\<close>)
  next
    case (OpCommit k r t c a p)
    show ?thesis unfolding OpCommit idb_step.simps spec_step.simps
      by (rule agrees [OF idb_commit [OF V]], rule updates)
        (use spec_commit_ok [OF V(1)] commit_doc [OF V] in
          \<open>auto simp: committedIdb_def commitRows_def jget_jset jget_jdel jget_foldl_jdel Let_def split: option.splits\<close>)
  next
    case (OpDiscard k t)
    show ?thesis unfolding OpDiscard idb_step.simps spec_step.simps
      by (rule agrees [OF idb_discard [OF V]], rule updates)
        (use spec_discard_ok [OF V(1)] discard_doc [OF V(2)] in \<open>auto simp: jget_jset jget_jdel\<close>)
  next
    case (OpSent k i)
    show ?thesis unfolding OpSent idb_step.simps spec_step.simps
      by (rule agrees [OF idb_sent [OF V]], rule updates)
        (use spec_sent_ok [OF V(1)] sent_doc [OF V(2)] in \<open>auto simp: jget_jset jget_jdel\<close>)
  next
    case (OpLoad k)
    then show ?thesis using rep idb_load [OF V, of k] by (simp add: snapshot_out_def publicationsOf_def)
  next
    case (OpHead k)
    then show ?thesis using rep idb_accepted_head [OF V, of k] by simp
  next
    case (OpPublications k)
    have "idbLoadPublications D k = Inr (vPublications (V k))"
      using view_publications [OF V, of k]
      by (simp add: idbLoadPublications_def idb_head [OF V] planDocumentJournalRead_def Let_def)
    then show ?thesis using rep OpPublications by (simp add: publications_out_def)
  qed
qed

interpretation idb_journal: journal_store idb_step idb_represents
  by unfold_locales (rule idb_simulates)

lemma mem_empty: "mem_represents [] (\<lambda>_. emptyView)"
  by (simp add: mem_represents_def view_ok_empty doc_view_def)

lemma idb_empty: "idb_represents emptyIdb (\<lambda>_. emptyView)"
  by (simp add: idb_represents_def idb_doc_def view_ok_empty emptyIdb_def head_of_empty) (simp add: emptyView_def)



section \<open>Properties\<close>

lemma view_reachable: "view_ok (final spec_step (\<lambda>_. emptyView) es k)"
  using mem_journal.final_spec [OF mem_empty, of es] by (simp add: mem_represents_def)

lemma idb_reachable: "idb_doc (final idb_step emptyIdb es) k (final spec_step (\<lambda>_. emptyView) es k)"
  using idb_journal.final_spec [OF idb_empty, of es] by (simp add: idb_represents_def)

lemma outputs_append: "outputs f s (xs @ ys) = outputs f s xs @ outputs f (final f s xs) ys"
  by (induction xs arbitrary: s) simp_all

lemma length_outputs [simp]: "length (outputs f s es) = length es"
  by (induction es arbitrary: s) simp_all

text \<open>
  C25: The two journal stores are interchangeable. Every sequence of operations
  on any documents, refused ones included, produces on the IndexedDB store exactly
  the outputs it produces on the in-memory store, and these are the outputs of the
  abstract journal: a revision, the accepted entries, the queued publications and
  at most one staged entry per document.
\<close>

theorem journal_stores_agree:
  "outputs idb_step emptyIdb es = outputs mem_step [] es \<and>
   outputs idb_step emptyIdb es = outputs spec_step (\<lambda>_. emptyView) es"
  using mem_journal.outputs_spec [OF mem_empty] idb_journal.outputs_spec [OF idb_empty] by simp

lemma idb_recovery:
  assumes ok: "view_ok v" and doc: "idb_doc D k v"
  shows "idbLoadRecoverySnapshot D k = Inr (vRevision v, vEntries v, map_option (pendingToken \<circ> fst) (vPending v))"
proof -
  have p: "(if headPending (head_of v) \<noteq> None \<and> True then optCheck (\<lambda>p. copyBytes (hpToken p) 32 32) (headPending (head_of v))
      else Inr None) = Inr (map_option (pendingToken \<circ> fst) (vPending v))"
  proof (cases "vPending v")
    case (Some x)
    then have "vPending v = Some (fst x, snd x)" by simp
    from pending_ok(2) [OF ok this] show ?thesis using Some
      by (simp add: head_of_def hp_of_def optCheck_def copyBytes_ok)
  qed (simp add: head_of_def)
  show ?thesis
    unfolding idbLoadRecoverySnapshot_def idb_head [OF ok doc] sbind_simps planDocumentJournalRead_def Let_def
      DocumentJournalReadPlan.simps take_all [OF order_refl] view_rows [OF ok doc] prod.case p
    by (simp add: head_of_def)
qed

text \<open>
  A journal is always readable and within its limits. After every sequence
  of operations the IndexedDB rows of a document load without error: at most 128
  nonempty entries of together at most 128 MiB, at most 16 queued publications of
  at most 16 MiB with distinct identifiers. The head lists consecutive revisions
  that end with the current one, and the recovery read, which skips the
  publications and the staged payload, gives the same revision and entries and the
  token of the staged entry.
\<close>

theorem journal_readable_bounded:
  "\<exists>s h. idbLoad (final idb_step emptyIdb es) k = Inr s \<and>
     length (journalEntries s) \<le> MAX_DOCUMENT_JOURNAL_ENTRIES \<and> totalBytes (journalEntries s) \<le> MAX_DOCUMENT_JOURNAL_BYTES \<and>
     [] \<notin> set (journalEntries s) \<and> (journalEntries s = [] \<longleftrightarrow> journalRevision s = 0) \<and>
     length (publicationsOf s) \<le> 16 \<and> totalBytes (map pubFrame (publicationsOf s)) \<le> 16777216 \<and>
     distinct (map pubId (publicationsOf s)) \<and>
     readHead (jget (idbHeads (final idb_step emptyIdb es)) k) = Inr h \<and>
     headRevisions h = [journalRevision s - int (length (journalEntries s)) + 1..journalRevision s] \<and>
     idbLoadRecoverySnapshot (final idb_step emptyIdb es) k =
       Inr (journalRevision s, journalEntries s, map_option pendingToken (journalPending s))"
proof -
  let ?D = "final idb_step emptyIdb es" and ?v = "final spec_step (\<lambda>_. emptyView) es k"
  note ok = view_reachable [of es k] and doc = idb_reachable [of es k]
  have v: "length (vEntries ?v) \<le> 128" "totalBytes (vEntries ?v) \<le> MAX_DOCUMENT_JOURNAL_BYTES" "[] \<notin> set (vEntries ?v)"
    "vEntries ?v = [] \<longleftrightarrow> vRevision ?v = 0" "length (vPublications ?v) \<le> 16"
    "totalBytes (map pubFrame (vPublications ?v)) \<le> 16777216" "distinct (map pubId (vPublications ?v))"
    using ok by (auto simp: view_ok_def)
  have h: "headRevisions (head_of ?v) = [vRevision ?v - int (length (vEntries ?v)) + 1..vRevision ?v]"
    by (simp add: head_of_def)
  show ?thesis
    by (intro exI conjI, rule idb_load [OF ok doc])
      (use v h idb_head [OF ok doc] idb_recovery [OF ok doc] in
        \<open>simp_all add: publicationsOf_def MAX_DOCUMENT_JOURNAL_ENTRIES_def option.map_comp\<close>)
qed

fun commits :: "string \<Rightarrow> int \<Rightarrow> journal_op \<Rightarrow> bool" where
  "commits k r (OpCommit k' r' t c a p) \<longleftrightarrow> k' = k \<and> r' = r"
| "commits k r _ \<longleftrightarrow> False"

lemma spec_commits:
  assumes "commits k r e"
  shows "fst (spec_step V e) = OutDone \<Longrightarrow> vRevision (V k) = r \<and> vRevision (snd (spec_step V e) k) = r + 1"
    and "fst (spec_step V e) \<noteq> OutDone \<Longrightarrow> fst (spec_step V e) = OutRefused"
  using assms by (cases e; auto simp: spec_update_def spec_commit_def split: option.splits if_splits)+

lemma spec_revision_mono: "vRevision (V k) \<le> vRevision (snd (spec_step V e) k)"
  by (cases e) (auto simp: spec_update_def spec_stage_def spec_commit_def spec_discard_def spec_sent_def
      split: option.splits if_splits)

lemma final_revision_mono: "vRevision (V k) \<le> vRevision (final spec_step V es k)"
proof (induction es arbitrary: V)
  case (Cons e es)
  show ?case using spec_revision_mono [of V k e] Cons.IH [of "snd (spec_step V e)"] by simp
qed simp

lemma spec_commit_once:
  assumes "commits k r e1" "commits k r e2" "fst (spec_step V e1) = OutDone"
  shows "fst (spec_step (final spec_step (snd (spec_step V e1)) mid) e2) = OutRefused"
proof -
  let ?W = "final spec_step (snd (spec_step V e1)) mid"
  have "r + 1 \<le> vRevision (?W k)"
    using final_revision_mono [of "snd (spec_step V e1)" k mid] spec_commits(1) [OF assms(1,3)] by simp
  then have "vRevision (?W k) \<noteq> r" by simp
  then show ?thesis using spec_commits [OF assms(2), of ?W] by blast
qed

text \<open>
  C30: A revision is committed once. Of all the commits of a document that
  expect the same revision, in any sequence of operations and whatever their
  tokens, at most one is accepted; each later one is refused.
\<close>

theorem journal_commit_once:
  assumes "commits k r e1" "commits k r e2" "outputs idb_step emptyIdb (pre @ e1 # mid @ [e2]) ! length pre = OutDone"
  shows "outputs idb_step emptyIdb (pre @ e1 # mid @ [e2]) ! (length pre + 1 + length mid) = OutRefused"
proof -
  let ?V = "final spec_step (\<lambda>_. emptyView) pre"
  have o: "outputs idb_step emptyIdb (pre @ e1 # mid @ [e2]) =
      outputs spec_step (\<lambda>_. emptyView) pre @ fst (spec_step ?V e1) # outputs spec_step (snd (spec_step ?V e1)) mid @
        [fst (spec_step (final spec_step (snd (spec_step ?V e1)) mid) e2)]"
    unfolding idb_journal.outputs_spec [OF idb_empty] by (simp add: outputs_append)
  have "fst (spec_step ?V e1) = OutDone" using assms(3) unfolding o by (simp add: nth_append)
  from spec_commit_once [OF assms(1,2) this, of mid] show ?thesis unfolding o by (simp add: nth_append)
qed

theorem journal_commit_once_witness:
  "outputs idb_step emptyIdb ([OpStage ''d'' 0 (replicate 32 1) [7] None False] @
     OpCommit ''d'' 0 (replicate 32 1) False (replicate 33 9) None # [] @
     [OpCommit ''d'' 0 (replicate 32 1) False (replicate 33 9) None]) ! (1 + 1 + 0) = OutRefused"
proof -
  let ?c = "OpCommit ''d'' 0 (replicate 32 1) False (replicate 33 9) None"
  let ?s = "OpStage ''d'' 0 (replicate 32 1) [7] None False"
  have "outputs idb_step emptyIdb ([?s] @ ?c # [] @ [?c]) ! length [?s] = OutDone"
    unfolding idb_journal.outputs_spec [OF idb_empty]
    by (simp add: spec_update_def spec_stage_def spec_commit_def emptyView_def MAX_DOCUMENT_JOURNAL_BYTES_def)
  from journal_commit_once [OF _ _ this, of "''d''" 0] show ?thesis by simp
qed

text \<open>Operations between a stage and its commit that do not touch the staged entry.\<close>

fun keeps_staged :: "string \<Rightarrow> bytes \<Rightarrow> journal_op \<Rightarrow> bool" where
  "keeps_staged k t (OpCommit k' r t' c a p) \<longleftrightarrow> k' \<noteq> k"
| "keeps_staged k t (OpDiscard k' t') \<longleftrightarrow> k' \<noteq> k \<or> t' \<noteq> t"
| "keeps_staged k t _ \<longleftrightarrow> True"

lemma spec_keeps_staged:
  assumes "keeps_staged k t e" "vPending (V k) = Some (q, c)" "pendingToken q = t"
  shows "vPending (snd (spec_step V e) k) = Some (q, c) \<and> vRevision (snd (spec_step V e) k) = vRevision (V k)"
  using assms by (cases e) (auto simp: spec_update_def spec_stage_def spec_discard_def spec_sent_def split: option.splits if_splits)

lemma final_keeps_staged:
  assumes "list_all (keeps_staged k t) es" "vPending (V k) = Some (q, c)" "pendingToken q = t"
  shows "vPending (final spec_step V es k) = Some (q, c) \<and> vRevision (final spec_step V es k) = vRevision (V k)"
  using assms
proof (induction es arbitrary: V)
  case (Cons e es)
  then show ?case using spec_keeps_staged [of k t e V q c] Cons.IH [of "snd (spec_step V e)"] by auto
qed simp

text \<open>
  C29: Staging reserves the commit. Once an entry has been staged, the commit
  with its token is accepted after any operations that neither attempt another commit
  on the document nor discard this entry: the accepted entry, 32 bytes longer, still
  fits, and so does a publication with the identifier and the byte count announced
  when it was staged.
\<close>

theorem journal_staged_commits:
  assumes "outputs idb_step emptyIdb (pre @ [OpStage k r t e p c]) ! length pre = OutDone"
    and "list_all (keeps_staged k t) mid" and "length a = length e + 32"
    and "case p of None \<Rightarrow> b = None
      | Some z \<Rightarrow> \<exists>f. b = Some \<lparr>pubId = stagedId z, pubFrame = f\<rparr> \<and> int (length f) = stagedBytes z"
  shows "last (outputs idb_step emptyIdb (pre @ [OpStage k r t e p c] @ mid @ [OpCommit k r t c a b])) = OutDone"
proof -
  let ?V = "final spec_step (\<lambda>_. emptyView) pre"
  have "fst (spec_step ?V (OpStage k r t e p c)) = OutDone"
    using assms(1) unfolding idb_journal.outputs_spec [OF idb_empty] by (simp add: outputs_append nth_append)
  then obtain v where v: "spec_stage (?V k) r t e p c = Some v"
    by (auto simp: spec_update_def split: option.splits)
  let ?W = "final spec_step (?V(k := v)) mid"
  have q: "vPending v = Some (\<lparr>pendingToken = t, pendingEntry = e, pendingPublication = p\<rparr>, c)" "vRevision v = r"
    "\<And>z. p = Some z \<Longrightarrow> staged_ok z"
    using v by (auto simp: spec_stage_def split: if_splits option.splits)
  have w: "vPending (?W k) = Some (\<lparr>pendingToken = t, pendingEntry = e, pendingPublication = p\<rparr>, c)" "vRevision (?W k) = r"
    using final_keeps_staged [OF assms(2), of "?V(k := v)"] q by auto
  have "spec_commit (?W k) r t c a b \<noteq> None"
    unfolding spec_commit_iff using w assms(3,4) q(3)
    by (cases p) (auto simp: pub_ok_def staged_ok_def)
  then show ?thesis using v unfolding idb_journal.outputs_spec [OF idb_empty]
    by (auto simp: outputs_append spec_update_def split: option.splits)
qed

theorem journal_staged_commits_witness:
  "last (outputs idb_step emptyIdb ([OpStage ''x'' 0 (replicate 32 2) [1] None True] @
      [OpStage ''d'' 0 (replicate 32 1) [7] (Some \<lparr>stagedId = replicate 32 3, stagedBytes = 2\<rparr>) False] @
      [OpCommit ''x'' 0 (replicate 32 2) True (replicate 33 5) None, OpDiscard ''d'' (replicate 32 2)] @
      [OpCommit ''d'' 0 (replicate 32 1) False (replicate 33 9) (Some \<lparr>pubId = replicate 32 3, pubFrame = [4, 4]\<rparr>)])) = OutDone"
proof (rule journal_staged_commits)
  show "outputs idb_step emptyIdb ([OpStage ''x'' 0 (replicate 32 2) [1] None True] @
      [OpStage ''d'' 0 (replicate 32 1) [7] (Some \<lparr>stagedId = replicate 32 3, stagedBytes = 2\<rparr>) False]) !
      length [OpStage ''x'' 0 (replicate 32 2) [1] None True] = OutDone"
    unfolding idb_journal.outputs_spec [OF idb_empty]
    by (simp add: spec_update_def spec_stage_def emptyView_def staged_ok_def queue_room_def MAX_DOCUMENT_JOURNAL_BYTES_def
        MAX_DOCUMENT_STORED_PUBLICATION_BYTES_def)
qed simp_all

end
