(* ===== verification/Journal_Item.thy ===== *)
theory Journal_Item
  imports Journal_Refinement
begin

text \<open>
  The formats of \<open>packages/core/src/document-replay-journal.ts\<close> and the binding
  ledger of \<open>policy/document-journal.ts\<close>: journal items, the encrypted entry with
  its causal parent, the accepted entry with its authenticated marker, and the
  sealed publication. Every format is read back as it was written.
\<close>


section \<open>Definitions\<close>

subsection \<open>The publication ledger\<close>

type_synonym binding_ledger = "(string, int) jsmap"

definition canRecordDocumentPublicationBinding ::
    "binding_ledger \<Rightarrow> string \<Rightarrow> int \<Rightarrow> int \<Rightarrow> bool \<Rightarrow> int \<Rightarrow> bool" where
  "canRecordDocumentPublicationBinding ledger token bindingRev entryRev checkpoint limit \<longleftrightarrow>
     \<not> jhas ledger token \<and> int (jsize ledger) < limit \<and> 1 \<le> bindingRev \<and> bindingRev \<le> entryRev \<and>
     (checkpoint \<or> bindingRev = entryRev)"

definition recordDocumentPublicationBinding :: "binding_ledger \<Rightarrow> string \<Rightarrow> int \<Rightarrow> binding_ledger" where
  "recordDocumentPublicationBinding ledger token revision = jset ledger token revision"

fun canRetainDocumentPublicationBindings_loop :: "binding_ledger \<Rightarrow> string list \<Rightarrow> string list \<Rightarrow> bool" where
  "canRetainDocumentPublicationBindings_loop ledger seen [] = True"
| "canRetainDocumentPublicationBindings_loop ledger seen (p # ps) =
     (if \<not> jhas ledger p \<or> p \<in> set seen then False
      else canRetainDocumentPublicationBindings_loop ledger (seen @ [p]) ps)"

definition canRetainDocumentPublicationBindings :: "binding_ledger \<Rightarrow> string list \<Rightarrow> int \<Rightarrow> bool" where
  "canRetainDocumentPublicationBindings ledger pending limit =
     (if int (length pending) > limit then False else canRetainDocumentPublicationBindings_loop ledger [] pending)"

text \<open>A missing token would be stored as \<open>undefined\<close>; callers check first that all are present.\<close>

fun retainDocumentPublicationBindings_loop :: "binding_ledger \<Rightarrow> binding_ledger \<Rightarrow> string list \<Rightarrow> binding_ledger option" where
  "retainDocumentPublicationBindings_loop ledger result [] = Some result"
| "retainDocumentPublicationBindings_loop ledger result (p # ps) =
     (case jget ledger p of
        None \<Rightarrow> None
      | Some r \<Rightarrow> retainDocumentPublicationBindings_loop ledger (jset result p r) ps)"

definition retainDocumentPublicationBindings :: "binding_ledger \<Rightarrow> string list \<Rightarrow> binding_ledger option" where
  "retainDocumentPublicationBindings ledger pending = retainDocumentPublicationBindings_loop ledger [] pending"

definition selectDocumentPublicationBindings :: "binding_ledger \<Rightarrow> binding_ledger \<Rightarrow> bool \<Rightarrow> binding_ledger" where
  "selectDocumentPublicationBindings prior candidate anchored = (if anchored then candidate else prior)"

definition isAcceptedDocumentPublication :: "int \<Rightarrow> int \<Rightarrow> int \<Rightarrow> bool" where
  "isAcceptedDocumentPublication revision currentRevision bindingRev \<longleftrightarrow>
     1 \<le> revision \<and> revision \<le> currentRevision \<and> bindingRev = revision"

definition isAcceptedDocumentPublicationToken :: "binding_ledger \<Rightarrow> string \<Rightarrow> int \<Rightarrow> int \<Rightarrow> bool" where
  "isAcceptedDocumentPublicationToken ledger token revision currentRevision =
     (case jget ledger token of
        None \<Rightarrow> False
      | Some r \<Rightarrow> isAcceptedDocumentPublication revision currentRevision r)"

datatype DocumentJournalRecovery = RecoveryCurrent | RecoveryFinishAnchor | RecoveryReject

definition classifyDocumentJournalRecovery :: "int \<Rightarrow> int \<Rightarrow> bool \<Rightarrow> bool \<Rightarrow> bool \<Rightarrow> DocumentJournalRecovery" where
  "classifyDocumentJournalRecovery stored anchored commitmentMatches parentMatches markerAuthenticated =
     (if \<not> markerAuthenticated then RecoveryReject
      else if stored = anchored \<and> commitmentMatches then RecoveryCurrent
      else if stored > anchored \<and> stored - anchored = 1 \<and> parentMatches then RecoveryFinishAnchor
      else RecoveryReject)"

subsection \<open>Items\<close>

definition MAX_SNAPSHOT :: int where
  "MAX_SNAPSHOT = 64 * 1024 * 1024"

definition MAX_ENTRY :: int where
  "MAX_ENTRY = MAX_SNAPSHOT + 17 * 1024 * 1024"

definition ZERO :: bytes where
  "ZERO = replicate 32 0"

record DocumentReplayReceipt =
  receiptMember :: bytes
  receiptSequence :: int
  receiptHash :: bytes

record PublicationBinding =
  bindingToken :: bytes
  bindingRevision :: int

record DocumentJournalItem =
  outboundFrame :: "bytes option"
  itemCheckpoint :: bool
  itemContext :: GroupSecurityDocumentContext
  itemChanges :: bytes
  itemReceipts :: "DocumentReplayReceipt list"
  itemAuthorityHead :: bytes
  itemAuthorityRecords :: "bytes list"

record StoredDocumentJournalItem =
  storedItem :: DocumentJournalItem
  publicationBindings :: "PublicationBinding list"

fun encodeReceipts ::
    "DocumentBinaryWriter \<Rightarrow> string list \<Rightarrow> DocumentReplayReceipt list \<Rightarrow> binary_error + DocumentBinaryWriter" where
  "encodeReceipts w seen [] = Inr w"
| "encodeReceipts w seen (r # rs) =
     sbind (copyExactly (receiptMember r) 32) (\<lambda>member.
     if documentBytesId member \<in> set seen \<or> \<bar>receiptSequence r\<bar> > MAX_SAFE_INTEGER \<or> receiptSequence r < 1
     then Inl PlainError
     else
       sbind (writerFixed w member) (\<lambda>w.
       sbind (writerInteger w (receiptSequence r) 8) (\<lambda>w.
       sbind (copyExactly (receiptHash r) 32) (\<lambda>hash.
       sbind (writerFixed w hash) (\<lambda>w. encodeReceipts w (documentBytesId member # seen) rs)))))"

fun encodeRecords :: "DocumentBinaryWriter \<Rightarrow> int \<Rightarrow> bytes list \<Rightarrow> binary_error + DocumentBinaryWriter" where
  "encodeRecords w tot [] = Inr w"
| "encodeRecords w tot (r # rs) =
     (if tot + int (length r) > 16 * 1024 * 1024 then Inl PlainError
      else sbind (writerBytes w r (1024 * 1024)) (\<lambda>w. encodeRecords w (tot + int (length r)) rs))"

fun encodeBindings :: "DocumentBinaryWriter \<Rightarrow> PublicationBinding list \<Rightarrow> binary_error + DocumentBinaryWriter" where
  "encodeBindings w [] = Inr w"
| "encodeBindings w (b # bs) =
     (if \<bar>bindingRevision b\<bar> > MAX_SAFE_INTEGER \<or> bindingRevision b < 1 then Inl PlainError
      else
        sbind (copyExactly (bindingToken b) 32) (\<lambda>token.
        sbind (writerFixed w token) (\<lambda>w.
        sbind (writerInteger w (bindingRevision b) 8) (\<lambda>w. encodeBindings w bs))))"

definition changesLimit :: "bool \<Rightarrow> int" where
  "changesLimit checkpoint = (if checkpoint then MAX_SNAPSHOT else 512 * 1024)"

definition encodeItem :: "DocumentJournalItem \<Rightarrow> PublicationBinding list \<Rightarrow> binary_error + bytes" where
  "encodeItem item bindings =
     sbind (newWriter MAX_ENTRY) (\<lambda>w.
     sbind (writeDocumentContext w (itemContext item)) (\<lambda>w.
     sbind (copyExactly (itemAuthorityHead item) 32) (\<lambda>head.
     sbind (writerFixed w head) (\<lambda>w.
     sbind (writerBytes w (itemChanges item) (changesLimit (itemCheckpoint item))) (\<lambda>w.
     sbind (writerInteger w (int (length (itemReceipts item))) 2) (\<lambda>w.
     if length (itemReceipts item) > 256 \<or> (\<not> itemCheckpoint item \<and> length (itemReceipts item) \<noteq> 1)
     then Inl PlainError
     else
       sbind (encodeReceipts w [] (itemReceipts item)) (\<lambda>w.
       if length (itemAuthorityRecords item) > 1024 then Inl PlainError
       else
         sbind (writerInteger w (int (length (itemAuthorityRecords item))) 2) (\<lambda>w.
         sbind (encodeRecords w 0 (itemAuthorityRecords item)) (\<lambda>w.
         if length bindings > 16 then Inl CapacityError
         else
           sbind (writerInteger w (int (length bindings)) 1) (\<lambda>w.
           sbind (encodeBindings w bindings) (\<lambda>w. Inr (writerFinish w))))))))))))"

fun decodeReceipts ::
    "nat \<Rightarrow> string list \<Rightarrow> DocumentBinaryReader \<Rightarrow> binary_error + DocumentReplayReceipt list \<times> DocumentBinaryReader" where
  "decodeReceipts 0 seen r = Inr ([], r)"
| "decodeReceipts (Suc n) seen r =
     sbind (readerFixed r 32) (\<lambda>(member, r).
     sbind (readerNumber r 8) (\<lambda>(sequence, r).
     sbind (readerFixed r 32) (\<lambda>(hash, r).
     if sequence = 0 \<or> documentBytesId member \<in> set seen then Inl PlainError
     else sbind (decodeReceipts n (documentBytesId member # seen) r) (\<lambda>(rest, r).
       Inr (\<lparr>receiptMember = member, receiptSequence = sequence, receiptHash = hash\<rparr> # rest, r)))))"

fun decodeRecords :: "nat \<Rightarrow> int \<Rightarrow> DocumentBinaryReader \<Rightarrow> binary_error + bytes list \<times> DocumentBinaryReader" where
  "decodeRecords 0 tot r = Inr ([], r)"
| "decodeRecords (Suc n) tot r =
     sbind (readerBytes r (1024 * 1024)) (\<lambda>(record, r).
     if tot + int (length record) > 16 * 1024 * 1024 then Inl PlainError
     else sbind (decodeRecords n (tot + int (length record)) r) (\<lambda>(rest, r). Inr (record # rest, r)))"

fun decodeBindings :: "nat \<Rightarrow> DocumentBinaryReader \<Rightarrow> binary_error + PublicationBinding list \<times> DocumentBinaryReader" where
  "decodeBindings 0 r = Inr ([], r)"
| "decodeBindings (Suc n) r =
     sbind (readerFixed r 32) (\<lambda>(token, r).
     sbind (readerNumber r 8) (\<lambda>(revision, r).
     sbind (decodeBindings n r) (\<lambda>(rest, r).
       Inr (\<lparr>bindingToken = token, bindingRevision = revision\<rparr> # rest, r))))"

definition decodeItem :: "bytes \<Rightarrow> bool \<Rightarrow> binary_error + StoredDocumentJournalItem" where
  "decodeItem bs checkpoint =
     sbind (newReader bs MAX_ENTRY) (\<lambda>r.
     sbind (readDocumentContext r) (\<lambda>(context, r).
     sbind (readerFixed r 32) (\<lambda>(authorityHead, r).
     sbind (readerBytes r (changesLimit checkpoint)) (\<lambda>(changes, r).
     sbind (readerNumber r 2) (\<lambda>(count, r).
     if count > 256 \<or> (\<not> checkpoint \<and> count \<noteq> 1) then Inl PlainError
     else
       sbind (decodeReceipts (nat count) [] r) (\<lambda>(receipts, r).
       sbind (readerNumber r 2) (\<lambda>(authorityCount, r).
       if authorityCount > 1024 then Inl PlainError
       else
         sbind (decodeRecords (nat authorityCount) 0 r) (\<lambda>(authorityRecords, r).
         sbind (readerNumber r 1) (\<lambda>(bindingCount, r).
         if bindingCount > 16 \<or> (\<not> checkpoint \<and> bindingCount > 1) then Inl PlainError
         else
           sbind (decodeBindings (nat bindingCount) r) (\<lambda>(bindings, r).
           sbind (readerEnd r) (\<lambda>_.
             Inr \<lparr>storedItem = \<lparr>outboundFrame = None, itemCheckpoint = checkpoint, itemContext = context,
                    itemChanges = changes, itemReceipts = receipts, itemAuthorityHead = authorityHead,
                    itemAuthorityRecords = authorityRecords\<rparr>,
                  publicationBindings = bindings\<rparr>)))))))))))"

subsection \<open>Entries\<close>

definition encodeEntry :: "int \<Rightarrow> bool \<Rightarrow> bytes \<Rightarrow> bytes \<Rightarrow> bytes \<Rightarrow> binary_error + bytes" where
  "encodeEntry revision checkpoint parent nonce ciphertext =
     sbind (newWriter (MAX_ENTRY + 128)) (\<lambda>w.
     sbind (writerInteger w revision 8) (\<lambda>w.
     sbind (writerInteger w (if checkpoint then 1 else 0) 1) (\<lambda>w.
     sbind (writerFixed w parent) (\<lambda>w.
     sbind (writerFixed w nonce) (\<lambda>w.
     sbind (writerBytes w ciphertext (MAX_ENTRY + 16)) (\<lambda>w. Inr (writerFinish w)))))))"

definition decodeEntry :: "bytes \<Rightarrow> binary_error + int \<times> int \<times> bytes \<times> bytes \<times> bytes" where
  "decodeEntry payload =
     sbind (newReader payload (MAX_ENTRY + 128)) (\<lambda>r.
     sbind (readerNumber r 8) (\<lambda>(revision, r).
     sbind (readerNumber r 1) (\<lambda>(marker, r).
     sbind (readerFixed r 32) (\<lambda>(parent, r).
     sbind (readerFixed r 12) (\<lambda>(nonce, r).
     sbind (readerBytes r (MAX_ENTRY + 16)) (\<lambda>(ciphertext, r).
     sbind (readerEnd r) (\<lambda>_. Inr (revision, marker, parent, nonce, ciphertext))))))))"

definition encodeAccepted :: "bytes \<Rightarrow> bytes \<Rightarrow> bytes \<Rightarrow> binary_error + bytes" where
  "encodeAccepted entry nonce tag =
     sbind (newWriter (MAX_ENTRY + 128)) (\<lambda>w.
     sbind (writerBytes w entry (MAX_ENTRY + 96)) (\<lambda>w.
     sbind (writerFixed w nonce) (\<lambda>w.
     sbind (writerFixed w tag) (\<lambda>w. Inr (writerFinish w)))))"

definition decodeAccepted :: "bytes \<Rightarrow> binary_error + bytes \<times> bytes" where
  "decodeAccepted owned =
     sbind (newReader owned (MAX_ENTRY + 128)) (\<lambda>r.
     sbind (readerBytes r (MAX_ENTRY + 96)) (\<lambda>(payload, r).
     sbind (readerFixed r 28) (\<lambda>(acceptance, r).
     sbind (readerEnd r) (\<lambda>_. Inr (payload, acceptance)))))"

definition encodePublication :: "int \<Rightarrow> bytes \<Rightarrow> bytes \<Rightarrow> bytes \<Rightarrow> binary_error + bytes" where
  "encodePublication revision token nonce ciphertext =
     sbind (newWriter MAX_DOCUMENT_STORED_PUBLICATION_BYTES) (\<lambda>w.
     sbind (writerInteger w revision 8) (\<lambda>w.
     sbind (writerFixed w token) (\<lambda>w.
     sbind (writerFixed w nonce) (\<lambda>w.
     sbind (writerBytes w ciphertext (1024 * 1024 + 16)) (\<lambda>w. Inr (writerFinish w))))))"

definition decodePublication :: "bytes \<Rightarrow> binary_error + int \<times> bytes \<times> bytes \<times> bytes" where
  "decodePublication frame =
     sbind (newReader frame MAX_DOCUMENT_STORED_PUBLICATION_BYTES) (\<lambda>r.
     sbind (readerNumber r 8) (\<lambda>(revision, r).
     sbind (readerFixed r 32) (\<lambda>(token, r).
     sbind (readerFixed r 12) (\<lambda>(nonce, r).
     sbind (readerBytes r (1024 * 1024 + 16)) (\<lambda>(ciphertext, r).
     sbind (readerEnd r) (\<lambda>_. Inr (revision, token, nonce, ciphertext)))))))"



section \<open>What is written is what is read\<close>

text \<open>A frame that is written and then read to its end.\<close>

lemma frame_read:
  assumes n: "newWriter m = Inr w" and wr: "wrote w w' bs" and rd: "reads g bs x"
  shows "sbind (newReader (writerFinish w') m) (\<lambda>r. sbind (g r) (\<lambda>(y, r). sbind (readerEnd r) (\<lambda>_. f y))) = f x"
proof -
  note start = read_begin [OF n wr]
  have "before \<lparr>readerData = bs, readerOffset = 0\<rparr> (bs @ [])" using start(2) by simp
  from read_step [OF rd this, of "\<lambda>(y, r). sbind (readerEnd r) (\<lambda>_. f y)" "f x"] show ?thesis
    using start(1) read_end by simp
qed

lemma reads_last:
  assumes "reads g bs x" "f x = y"
  shows "reads (\<lambda>r. sbind (g r) (\<lambda>(a, r). Inr (f a, r))) (bs @ []) y"
  by (rule reads_bind [OF assms(1)]) (simp add: assms(2) reads_return)

lemma number8_wrote:
  assumes "writer_ok w" "writerInteger w n 8 = Inr w'" "n \<le> MAX_SAFE_INTEGER"
  shows "\<exists>bs. wrote w w' bs \<and> reads (\<lambda>r. readerNumber r 8) bs n"
  using number8.faithful [OF assms(1), of n w'] assms(2,3) by (simp add: putNumber_def)

lemma fixed_wrote:
  assumes "writer_ok w" "writerFixed w v = Inr w'" "int (length v) = n"
  shows "\<exists>bs. wrote w w' bs \<and> reads (\<lambda>r. readerFixed r n) bs v"
  using fixed_faithful [OF assms(1,2)] assms(3) by simp

lemma copyExactly_Inr: "copyExactly v n = Inr x \<longleftrightarrow> x = v \<and> length v = n"
  by (auto simp: copyExactly_def)

lemma receipts_faithful:
  assumes "writer_ok w" "encodeReceipts w seen rs = Inr w'"
  shows "\<exists>bs. wrote w w' bs \<and> reads (decodeReceipts (length rs) seen) bs rs"
  using assms
proof (induction rs arbitrary: w seen)
  case Nil
  then show ?case by (auto simp: wrote_def reads_def)
next
  case (Cons r rs)
  let ?i = "documentBytesId (receiptMember r)"
  obtain w1 w2 w3 where c: "length (receiptMember r) = 32" "length (receiptHash r) = 32" "?i \<notin> set seen"
    "receiptSequence r \<le> MAX_SAFE_INTEGER" "1 \<le> receiptSequence r"
    "writerFixed w (receiptMember r) = Inr w1" "writerInteger w1 (receiptSequence r) 8 = Inr w2"
    "writerFixed w2 (receiptHash r) = Inr w3" "encodeReceipts w3 (?i # seen) rs = Inr w'"
    using Cons.prems(2) by (auto simp: sbind_Inr_iff copyExactly_Inr split: if_splits)
  obtain b1 where 1: "wrote w w1 b1" "reads (\<lambda>r. readerFixed r 32) b1 (receiptMember r)"
    using fixed_wrote [OF Cons.prems(1) c(6), of 32] c(1) by auto
  obtain b2 where 2: "wrote w1 w2 b2" "reads (\<lambda>r. readerNumber r 8) b2 (receiptSequence r)"
    using number8_wrote [OF wrote_ok [OF 1(1)] c(7,4)] by blast
  obtain b3 where 3: "wrote w2 w3 b3" "reads (\<lambda>r. readerFixed r 32) b3 (receiptHash r)"
    using fixed_wrote [OF wrote_ok [OF 2(1)] c(8), of 32] c(2) by auto
  obtain b4 where 4: "wrote w3 w' b4" "reads (decodeReceipts (length rs) (?i # seen)) b4 rs"
    using Cons.IH [OF wrote_ok [OF 3(1)] c(9)] by blast
  have "wrote w w' (((b1 @ b2) @ b3) @ b4)" by (rule wrote_trans 1(1) 2(1) 3(1) 4(1))+
  moreover have "reads (decodeReceipts (length (r # rs)) seen) (b1 @ b2 @ b3 @ b4 @ []) (r # rs)"
    unfolding list.size(4) add_0_right add_Suc_right decodeReceipts.simps
    by (rule reads_bind [OF 1(2)], rule reads_bind [OF 2(2)], rule reads_bind [OF 3(2)])
      (use c(3,5) in \<open>auto intro!: reads_last [OF 4(2), simplified]\<close>)
  ultimately show ?case unfolding append_assoc append_Nil2 by blast
qed


lemma records_faithful:
  assumes "writer_ok w" "encodeRecords w tot rs = Inr w'"
  shows "\<exists>bs. wrote w w' bs \<and> reads (decodeRecords (length rs) tot) bs rs"
  using assms
proof (induction rs arbitrary: w tot)
  case Nil
  then show ?case by (auto simp: wrote_def reads_def)
next
  case (Cons r rs)
  obtain w1 where c: "tot + int (length r) \<le> 16 * 1024 * 1024" "writerBytes w r (1024 * 1024) = Inr w1"
    "encodeRecords w1 (tot + int (length r)) rs = Inr w'"
    using Cons.prems(2) by (auto simp: sbind_Inr_iff split: if_splits)
  obtain b1 where 1: "wrote w w1 b1" "reads (\<lambda>r. readerBytes r (1024 * 1024)) b1 r"
    using bytes_field.faithful [OF Cons.prems(1) c(2)] by blast
  obtain b2 where 2: "wrote w1 w' b2" "reads (decodeRecords (length rs) (tot + int (length r))) b2 rs"
    using Cons.IH [OF wrote_ok [OF 1(1)] c(3)] by blast
  have "reads (decodeRecords (length (r # rs)) tot) (b1 @ b2 @ []) (r # rs)"
    unfolding list.size(4) add_0_right add_Suc_right decodeRecords.simps
    by (rule reads_bind [OF 1(2)]) (use c(1) in \<open>auto intro!: reads_last [OF 2(2), simplified]\<close>)
  then show ?case using wrote_trans [OF 1(1) 2(1)] unfolding append_Nil2 by blast
qed

lemma bindings_faithful:
  assumes "writer_ok w" "encodeBindings w rs = Inr w'"
  shows "\<exists>bs. wrote w w' bs \<and> reads (decodeBindings (length rs)) bs rs"
  using assms
proof (induction rs arbitrary: w)
  case Nil
  then show ?case by (auto simp: wrote_def reads_def)
next
  case (Cons r rs)
  obtain w1 w2 where c: "length (bindingToken r) = 32" "bindingRevision r \<le> MAX_SAFE_INTEGER"
    "writerFixed w (bindingToken r) = Inr w1" "writerInteger w1 (bindingRevision r) 8 = Inr w2" "encodeBindings w2 rs = Inr w'"
    using Cons.prems(2) by (auto simp: sbind_Inr_iff copyExactly_Inr split: if_splits)
  obtain b1 where 1: "wrote w w1 b1" "reads (\<lambda>r. readerFixed r 32) b1 (bindingToken r)"
    using fixed_wrote [OF Cons.prems(1) c(3), of 32] c(1) by auto
  obtain b2 where 2: "wrote w1 w2 b2" "reads (\<lambda>r. readerNumber r 8) b2 (bindingRevision r)"
    using number8_wrote [OF wrote_ok [OF 1(1)] c(4,2)] by blast
  obtain b3 where 3: "wrote w2 w' b3" "reads (decodeBindings (length rs)) b3 rs"
    using Cons.IH [OF wrote_ok [OF 2(1)] c(5)] by blast
  have "wrote w w' ((b1 @ b2) @ b3)" by (rule wrote_trans 1(1) 2(1) 3(1))+
  moreover have "reads (decodeBindings (length (r # rs))) (b1 @ b2 @ b3 @ []) (r # rs)"
    unfolding list.size(4) add_0_right add_Suc_right decodeBindings.simps
    by (rule reads_bind [OF 1(2)], rule reads_bind [OF 2(2)], rule reads_last [OF 3(2)]) simp
  ultimately show ?case unfolding append_assoc append_Nil2 by blast
qed

lemma entry_roundtrip:
  assumes e: "encodeEntry revision checkpoint parent nonce ciphertext = Inr entry"
    and len: "length parent = 32" "length nonce = 12" and rev: "revision \<le> MAX_SAFE_INTEGER"
  shows "decodeEntry entry = Inr (revision, if checkpoint then 1 else 0, parent, nonce, ciphertext)"
proof -
  obtain w0 w1 w2 w3 w4 w5 where n: "newWriter (MAX_ENTRY + 128) = Inr w0"
    and c: "writerInteger w0 revision 8 = Inr w1" "writerInteger w1 (if checkpoint then 1 else 0) 1 = Inr w2"
    "writerFixed w2 parent = Inr w3" "writerFixed w3 nonce = Inr w4" "writerBytes w4 ciphertext (MAX_ENTRY + 16) = Inr w5"
    "entry = writerFinish w5"
    using e by (auto simp: encodeEntry_def sbind_Inr_iff)
  obtain b1 where 1: "wrote w0 w1 b1" "reads (\<lambda>r. readerNumber r 8) b1 revision"
    using number8_wrote [OF new_writer_ok [OF n] c(1) rev] by blast
  obtain b2 where 2: "wrote w1 w2 b2" "reads (\<lambda>r. readerNumber r 1) b2 (if checkpoint then 1 else 0)"
    using number_faithful [OF wrote_ok [OF 1(1)] c(2)] by auto
  obtain b3 where 3: "wrote w2 w3 b3" "reads (\<lambda>r. readerFixed r 32) b3 parent"
    using fixed_wrote [OF wrote_ok [OF 2(1)] c(3), of 32] len by auto
  obtain b4 where 4: "wrote w3 w4 b4" "reads (\<lambda>r. readerFixed r 12) b4 nonce"
    using fixed_wrote [OF wrote_ok [OF 3(1)] c(4), of 12] len by auto
  obtain b5 where 5: "wrote w4 w5 b5" "reads (\<lambda>r. readerBytes r (MAX_ENTRY + 16)) b5 ciphertext"
    using bytes_field.faithful [OF wrote_ok [OF 4(1)] c(5)] by blast
  have "wrote w0 w5 ((((b1 @ b2) @ b3) @ b4) @ b5)" by (rule wrote_trans 1(1) 2(1) 3(1) 4(1) 5(1))+
  then have all: "wrote w0 w5 (b1 @ b2 @ b3 @ b4 @ b5 @ [])" by simp
  note start = read_begin [OF n all]
  show ?thesis
    unfolding decodeEntry_def c(6) start(1) sbind_simps
    by (rule read_step [OF 1(2) start(2)], simp only: prod.case, rule read_step [OF 2(2)], assumption, simp only: prod.case,
        rule read_step [OF 3(2)], assumption, simp only: prod.case, rule read_step [OF 4(2)], assumption, simp only: prod.case,
        rule read_step [OF 5(2)], assumption) (simp add: read_end)
qed

lemma accepted_roundtrip:
  assumes e: "encodeAccepted entry nonce tag = Inr accepted" and len: "length nonce = 12" "length tag = 16"
  shows "decodeAccepted accepted = Inr (entry, nonce @ tag)" and "length accepted = length entry + 32"
proof -
  obtain w0 w1 w2 w3 where n: "newWriter (MAX_ENTRY + 128) = Inr w0"
    and c: "writerBytes w0 entry (MAX_ENTRY + 96) = Inr w1" "writerFixed w1 nonce = Inr w2" "writerFixed w2 tag = Inr w3"
    "accepted = writerFinish w3"
    using e by (auto simp: encodeAccepted_def sbind_Inr_iff)
  note a1 = append_wrote [OF new_writer_ok [OF n] c(1) [unfolded writerBytes_def]]
  note a2 = append_wrote [OF wrote_ok [OF a1(1)] c(2) [unfolded writerFixed_def]]
  note a3 = append_wrote [OF wrote_ok [OF a2(1)] c(3) [unfolded writerFixed_def]]
  have "wrote w0 w3 (((uint32 (length entry) @ entry) @ nonce) @ tag)"
    using wrote_trans [OF wrote_trans [OF a1(1) a2(1)] a3(1)] by simp
  then have all: "wrote w0 w3 ((uint32 (length entry) @ entry) @ (nonce @ tag) @ [])" by simp
  note start = read_begin [OF n all]
  have m: "reads (\<lambda>r. readerFixed r 28) (nonce @ tag) (nonce @ tag)" by (rule reads_fixed) (simp add: len)
  show "decodeAccepted accepted = Inr (entry, nonce @ tag)"
    unfolding decodeAccepted_def c(4) start(1) sbind_simps
    by (rule read_step [OF reads_bytes [OF a1(2,3)] start(2)], simp only: prod.case, rule read_step [OF m], assumption)
      (simp add: read_end)
  have "writerFinish w0 = []" using n by (auto simp: newWriter_def writerFinish_def split: if_splits)
  then have "accepted = (uint32 (length entry) @ entry) @ nonce @ tag" using all c(4) by (simp add: wrote_def)
  then show "length accepted = length entry + 32" using len by (simp add: uint32_def)
qed

lemma publication_roundtrip:
  assumes e: "encodePublication revision token nonce ciphertext = Inr frame"
    and len: "length token = 32" "length nonce = 12" and rev: "revision \<le> MAX_SAFE_INTEGER"
  shows "decodePublication frame = Inr (revision, token, nonce, ciphertext)"
proof -
  obtain w0 w1 w2 w3 w4 where n: "newWriter MAX_DOCUMENT_STORED_PUBLICATION_BYTES = Inr w0"
    and c: "writerInteger w0 revision 8 = Inr w1" "writerFixed w1 token = Inr w2" "writerFixed w2 nonce = Inr w3"
    "writerBytes w3 ciphertext (1024 * 1024 + 16) = Inr w4" "frame = writerFinish w4"
    using e by (auto simp: encodePublication_def sbind_Inr_iff)
  obtain b1 where 1: "wrote w0 w1 b1" "reads (\<lambda>r. readerNumber r 8) b1 revision"
    using number8_wrote [OF new_writer_ok [OF n] c(1) rev] by blast
  obtain b2 where 2: "wrote w1 w2 b2" "reads (\<lambda>r. readerFixed r 32) b2 token"
    using fixed_wrote [OF wrote_ok [OF 1(1)] c(2), of 32] len by auto
  obtain b3 where 3: "wrote w2 w3 b3" "reads (\<lambda>r. readerFixed r 12) b3 nonce"
    using fixed_wrote [OF wrote_ok [OF 2(1)] c(3), of 12] len by auto
  obtain b4 where 4: "wrote w3 w4 b4" "reads (\<lambda>r. readerBytes r (1024 * 1024 + 16)) b4 ciphertext"
    using bytes_field.faithful [OF wrote_ok [OF 3(1)] c(4)] by blast
  have "wrote w0 w4 (((b1 @ b2) @ b3) @ b4)" by (rule wrote_trans 1(1) 2(1) 3(1) 4(1))+
  then have all: "wrote w0 w4 (b1 @ b2 @ b3 @ b4 @ [])" by simp
  note start = read_begin [OF n all]
  show ?thesis
    unfolding decodePublication_def c(5) start(1) sbind_simps
    by (rule read_step [OF 1(2) start(2)], simp only: prod.case, rule read_step [OF 2(2)], assumption, simp only: prod.case,
        rule read_step [OF 3(2)], assumption, simp only: prod.case, rule read_step [OF 4(2)], assumption) (simp add: read_end)
qed


definition stored :: "DocumentJournalItem \<Rightarrow> PublicationBinding list \<Rightarrow> StoredDocumentJournalItem" where
  "stored item bindings = \<lparr>storedItem = item\<lparr>outboundFrame := None\<rparr>, publicationBindings = bindings\<rparr>"

lemma item_roundtrip:
  assumes enc: "encodeItem item bindings = Inr wire" and one: "itemCheckpoint item \<or> length bindings \<le> 1"
  shows "decodeItem wire (itemCheckpoint item) = Inr (stored item bindings)"
proof -
  let ?n = "\<lambda>xs. int (length xs)"
  obtain w0 w1 w2 w3 w4 w5 w6 w7 w8 w9 where n: "newWriter MAX_ENTRY = Inr w0"
    and c: "writeDocumentContext w0 (itemContext item) = Inr w1" "putFixed 32 w1 (itemAuthorityHead item) = Inr w2"
    "writerBytes w2 (itemChanges item) (changesLimit (itemCheckpoint item)) = Inr w3"
    "writerInteger w3 (?n (itemReceipts item)) 2 = Inr w4" "encodeReceipts w4 [] (itemReceipts item) = Inr w5"
    "writerInteger w5 (?n (itemAuthorityRecords item)) 2 = Inr w6" "encodeRecords w6 0 (itemAuthorityRecords item) = Inr w7"
    "writerInteger w7 (?n bindings) 1 = Inr w8" "encodeBindings w8 bindings = Inr w9" "wire = writerFinish w9"
    and g: "\<not> (?n (itemReceipts item) > 256 \<or> (\<not> itemCheckpoint item \<and> ?n (itemReceipts item) \<noteq> 1))"
    "\<not> ?n (itemAuthorityRecords item) > 1024" "\<not> (?n bindings > 16 \<or> (\<not> itemCheckpoint item \<and> ?n bindings > 1))"
    using enc one by (auto simp: encodeItem_def sbind_Inr_iff putFixed_def split: if_splits)
  obtain b1 where 1: "wrote w0 w1 b1" "reads readDocumentContext b1 (itemContext item)"
    using context_field.faithful [OF new_writer_ok [OF n] c(1)] by blast
  obtain b2 where 2: "wrote w1 w2 b2" "reads (\<lambda>r. readerFixed r 32) b2 (itemAuthorityHead item)"
    using fixed_field.faithful [OF wrote_ok [OF 1(1)] c(2)] by auto
  obtain b3 where 3: "wrote w2 w3 b3" "reads (\<lambda>r. readerBytes r (changesLimit (itemCheckpoint item))) b3 (itemChanges item)"
    using bytes_field.faithful [OF wrote_ok [OF 2(1)] c(3)] by blast
  obtain b4 where 4: "wrote w3 w4 b4" "reads (\<lambda>r. readerNumber r 2) b4 (?n (itemReceipts item))"
    using number_faithful [OF wrote_ok [OF 3(1)] c(4)] by auto
  obtain b5 where 5: "wrote w4 w5 b5" "reads (decodeReceipts (length (itemReceipts item)) []) b5 (itemReceipts item)"
    using receipts_faithful [OF wrote_ok [OF 4(1)] c(5)] by blast
  obtain b6 where 6: "wrote w5 w6 b6" "reads (\<lambda>r. readerNumber r 2) b6 (?n (itemAuthorityRecords item))"
    using number_faithful [OF wrote_ok [OF 5(1)] c(6)] by auto
  obtain b7 where 7: "wrote w6 w7 b7" "reads (decodeRecords (length (itemAuthorityRecords item)) 0) b7 (itemAuthorityRecords item)"
    using records_faithful [OF wrote_ok [OF 6(1)] c(7)] by blast
  obtain b8 where 8: "wrote w7 w8 b8" "reads (\<lambda>r. readerNumber r 1) b8 (?n bindings)"
    using number_faithful [OF wrote_ok [OF 7(1)] c(8)] by auto
  obtain b9 where 9: "wrote w8 w9 b9" "reads (decodeBindings (length bindings)) b9 bindings"
    using bindings_faithful [OF wrote_ok [OF 8(1)] c(9)] by blast
  have "wrote w0 w9 ((((((((b1 @ b2) @ b3) @ b4) @ b5) @ b6) @ b7) @ b8) @ b9)"
    by (rule wrote_trans 1(1) 2(1) 3(1) 4(1) 5(1) 6(1) 7(1) 8(1) 9(1))+
  then have all: "wrote w0 w9 (b1 @ b2 @ b3 @ b4 @ b5 @ b6 @ b7 @ b8 @ b9 @ [])" by simp
  note start = read_begin [OF n all]
  show ?thesis
    unfolding decodeItem_def c(10) start(1) sbind_simps
    apply (rule read_step [OF 1(2) start(2)], simp only: prod.case)
    apply (rule read_step [OF 2(2)], assumption, simp only: prod.case)
    apply (rule read_step [OF 3(2)], assumption, simp only: prod.case)
    apply (rule read_step [OF 4(2)], assumption, simp only: prod.case g(1) if_False nat_int)
    apply (rule read_step [OF 5(2)], assumption, simp only: prod.case)
    apply (rule read_step [OF 6(2)], assumption, simp only: prod.case g(2) if_False nat_int)
    apply (rule read_step [OF 7(2)], assumption, simp only: prod.case)
    apply (rule read_step [OF 8(2)], assumption, simp only: prod.case g(3) if_False nat_int)
    apply (rule read_step [OF 9(2)], assumption, simp only: prod.case read_end sbind_simps)
    apply (simp add: stored_def)
    done
qed

end
