(* ===== verification/Replay_Journal.thy ===== *)
theory Replay_Journal
  imports Journal_Item
begin

text \<open>
  \<open>DocumentReplayJournal\<close> of \<open>packages/core/src/document-replay-journal.ts\<close> on the
  IndexedDB store, with the in-memory rollback anchor. AES-GCM under the device key
  and SHA-256 are parameters; random values are arguments. The operations are split
  where a crash can fall between two durable effects: the anchor update and the rest
  of \<open>restore\<close>, the store commit and the anchor update of \<open>commit\<close>.
\<close>


section \<open>Definitions\<close>

subsection \<open>Anchors\<close>

record journal_crypto =
  sealWith :: "bytes \<Rightarrow> bytes \<Rightarrow> bytes \<Rightarrow> bytes"
  openWith :: "bytes \<Rightarrow> bytes \<Rightarrow> bytes \<Rightarrow> bytes option"
  digestOf :: "bytes \<Rightarrow> bytes"

text \<open>A capacity error is the only one after which the journal stays usable.\<close>

datatype replay_failure = ReplayFailed | ReplayCapacity

definition binary_failure :: "binary_error + 'a \<Rightarrow> replay_failure + 'a" where
  "binary_failure r = (case r of Inl e \<Rightarrow> Inl (if e = CapacityError then ReplayCapacity else ReplayFailed) | Inr x \<Rightarrow> Inr x)"

definition store_failure :: "journal_error + 'a \<Rightarrow> replay_failure + 'a" where
  "store_failure r = (case r of Inl e \<Rightarrow> Inl (if e = JournalCapacity then ReplayCapacity else ReplayFailed) | Inr x \<Rightarrow> Inr x)"

record DocumentJournalAnchor =
  anchorRevision :: int
  anchorCommitment :: bytes

type_synonym anchor_store = "(string, DocumentJournalAnchor) jsmap"

definition copyAnchor :: "DocumentJournalAnchor option \<Rightarrow> replay_failure + DocumentJournalAnchor option" where
  "copyAnchor value =
     (case value of
        None \<Rightarrow> Inr None
      | Some a \<Rightarrow>
          if \<bar>anchorRevision a\<bar> > MAX_SAFE_INTEGER \<or> anchorRevision a < 1 \<or> length (anchorCommitment a) \<noteq> 32
          then Inl ReplayFailed else Inr (Some a))"

definition documentJournalAnchorsEqual :: "DocumentJournalAnchor option \<Rightarrow> DocumentJournalAnchor option \<Rightarrow> bool" where
  "documentJournalAnchorsEqual a b =
     (case a of
        None \<Rightarrow> b = None
      | Some x \<Rightarrow> (case b of
          None \<Rightarrow> False
        | Some y \<Rightarrow> anchorRevision x = anchorRevision y \<and> documentBytesEqual (anchorCommitment x) (anchorCommitment y)))"

definition anchorLoad :: "anchor_store \<Rightarrow> string \<Rightarrow> replay_failure + DocumentJournalAnchor option" where
  "anchorLoad A key = copyAnchor (jget A key)"

definition anchorCompareAndSwap ::
    "anchor_store \<Rightarrow> string \<Rightarrow> DocumentJournalAnchor option \<Rightarrow> DocumentJournalAnchor \<Rightarrow> replay_failure + bool \<times> anchor_store" where
  "anchorCompareAndSwap A key expected new =
     (if \<not> documentJournalAnchorsEqual (jget A key) expected then Inr (False, A)
      else case copyAnchor (Some new) of
        Inr (Some a) \<Rightarrow> Inr (True, jset A key a)
      | _ \<Rightarrow> Inl ReplayFailed)"

subsection \<open>The journal\<close>

record replay_journal =
  rjDocumentId :: js_string
  rjGenesis :: bytes
  rjHead :: "DocumentJournalAnchor option"
  rjEntryCount :: int
  rjRetainedBytes :: int
  rjOpened :: bool
  rjActive :: bool
  rjFailed :: bool
  rjAccepted :: binding_ledger
  rjPending :: "(string, PublicationBinding) jsmap"

definition newReplayJournal :: "js_string \<Rightarrow> bytes \<Rightarrow> replay_failure + replay_journal" where
  "newReplayJournal documentId genesis =
     (if length genesis \<noteq> 32 then Inl ReplayFailed
      else Inr \<lparr>rjDocumentId = documentId, rjGenesis = genesis, rjHead = None, rjEntryCount = 0, rjRetainedBytes = 0,
                rjOpened = False, rjActive = False, rjFailed = False, rjAccepted = [], rjPending = []\<rparr>)"

definition storageKey :: "replay_journal \<Rightarrow> string" where
  "storageKey j = documentBytesId (rjGenesis j)"

definition assertBinding :: "replay_journal \<Rightarrow> js_string \<Rightarrow> bytes \<Rightarrow> replay_failure + unit" where
  "assertBinding j documentId genesis =
     require (\<not> (rjDocumentId j \<noteq> documentId \<or> \<not> documentBytesEqual genesis (rjGenesis j))) ReplayFailed"

definition needsCheckpoint :: "replay_journal \<Rightarrow> bool" where
  "needsCheckpoint j \<longleftrightarrow>
     rjEntryCount j \<ge> int MAX_DOCUMENT_JOURNAL_ENTRIES - 1 \<or>
     rjRetainedBytes j > MAX_DOCUMENT_JOURNAL_BYTES - 18 * 1024 * 1024"

definition revision_of :: "replay_journal \<Rightarrow> int" where
  "revision_of j = (case rjHead j of None \<Rightarrow> 0 | Some a \<Rightarrow> anchorRevision a)"

subsection \<open>Authenticated data\<close>

definition DOMAIN :: bytes where
  "DOMAIN = ascii_bytes ''peerborne/document-replay-journal/v1'' @ [0]"

definition PUBLICATION_DOMAIN :: bytes where
  "PUBLICATION_DOMAIN = ascii_bytes ''peerborne/document-journal-publication/v1'' @ [0]"

definition ACCEPTED_DOMAIN :: bytes where
  "ACCEPTED_DOMAIN = ascii_bytes ''peerborne/document-journal-accepted/v1'' @ [0]"

definition entryAAD :: "replay_journal \<Rightarrow> int \<Rightarrow> bool \<Rightarrow> bytes \<Rightarrow> binary_error + bytes" where
  "entryAAD j revision checkpoint parent =
     sbind (newWriter (1024 * 1024)) (\<lambda>w.
     sbind (writerFixed w DOMAIN) (\<lambda>w.
     sbind (writerText w (rjDocumentId j) (16 * 1024)) (\<lambda>w.
     sbind (writerFixed w (rjGenesis j)) (\<lambda>w.
     sbind (writerInteger w revision 8) (\<lambda>w.
     sbind (writerInteger w (if checkpoint then 1 else 0) 1) (\<lambda>w.
     sbind (writerFixed w parent) (\<lambda>w. Inr (writerFinish w))))))))"

definition publicationAAD :: "replay_journal \<Rightarrow> int \<Rightarrow> bytes \<Rightarrow> bytes \<Rightarrow> binary_error + bytes" where
  "publicationAAD j revision i token =
     sbind (newWriter (1024 * 1024)) (\<lambda>w.
     sbind (writerFixed w PUBLICATION_DOMAIN) (\<lambda>w.
     sbind (writerText w (rjDocumentId j) (16 * 1024)) (\<lambda>w.
     sbind (writerFixed w (rjGenesis j)) (\<lambda>w.
     sbind (writerInteger w revision 8) (\<lambda>w.
     sbind (writerFixed w i) (\<lambda>w.
     sbind (writerFixed w token) (\<lambda>w. Inr (writerFinish w))))))))"

definition acceptanceAAD :: "replay_journal \<Rightarrow> int \<Rightarrow> bytes \<Rightarrow> binary_error + bytes" where
  "acceptanceAAD j revision commitment =
     sbind (newWriter (1024 * 1024)) (\<lambda>w.
     sbind (writerFixed w ACCEPTED_DOMAIN) (\<lambda>w.
     sbind (writerText w (rjDocumentId j) (16 * 1024)) (\<lambda>w.
     sbind (writerFixed w (rjGenesis j)) (\<lambda>w.
     sbind (writerInteger w revision 8) (\<lambda>w.
     sbind (writerFixed w commitment) (\<lambda>w. Inr (writerFinish w)))))))"

definition createAcceptedEntry ::
    "journal_crypto \<Rightarrow> replay_journal \<Rightarrow> int \<Rightarrow> bytes \<Rightarrow> bytes \<Rightarrow> binary_error + bytes" where
  "createAcceptedEntry c j revision entry nonce =
     sbind (acceptanceAAD j revision (digestOf c entry)) (\<lambda>aad.
       let tag = sealWith c nonce aad []
       in if length tag \<noteq> 16 then Inl PlainError else encodeAccepted entry nonce tag)"

definition verifyAcceptedMarker ::
    "journal_crypto \<Rightarrow> replay_journal \<Rightarrow> int \<Rightarrow> bytes \<Rightarrow> bytes \<Rightarrow> binary_error + bool" where
  "verifyAcceptedMarker c j revision entry marker =
     sbind (acceptanceAAD j revision (digestOf c entry)) (\<lambda>aad.
       Inr (case openWith c (take 12 marker) aad (drop 12 marker) of None \<Rightarrow> False | Some p \<Rightarrow> length p = 0))"

definition sealPublication ::
    "journal_crypto \<Rightarrow> replay_journal \<Rightarrow> int \<Rightarrow> bytes \<Rightarrow> bytes \<Rightarrow> bytes \<Rightarrow> bytes \<Rightarrow> binary_error + bytes" where
  "sealPublication c j revision i token frame nonce =
     sbind (publicationAAD j revision i token) (\<lambda>aad.
       encodePublication revision token nonce (sealWith c nonce aad frame))"

subsection \<open>Restoring\<close>

fun captureEntries :: "int \<Rightarrow> bytes list \<Rightarrow> journal_error + bytes list" where
  "captureEntries n [] = Inr []"
| "captureEntries n (e # es) =
     sbind (copyBytes e 1 (min (MAX_ENTRY + 128) (MAX_DOCUMENT_JOURNAL_BYTES - n))) (\<lambda>entry.
     sbind (captureEntries (n + int (length entry)) es) (\<lambda>rest. Inr (entry # rest)))"

definition captureJournalSnapshot :: "int \<times> bytes list \<times> bytes option \<Rightarrow> replay_failure + int \<times> bytes list \<times> bytes option" where
  "captureJournalSnapshot s =
     (case s of (revision, source, token) \<Rightarrow>
        if \<not> safe_nat revision \<or> length source > MAX_DOCUMENT_JOURNAL_ENTRIES then Inl ReplayFailed
        else
          sbind (store_failure (captureEntries 0 source)) (\<lambda>entries.
          sbind (store_failure (optCheck (\<lambda>t. copyBytes t 32 32) token)) (\<lambda>t.
            Inr (revision, entries, t))))"

record replay_state =
  rsPrevious :: "bytes option"
  rsRevision :: int
  rsItems :: "StoredDocumentJournalItem list"
  rsBindings :: binding_ledger
  rsLast :: "(int \<times> bytes \<times> bytes) option"
  rsBytes :: int

definition initialReplay :: replay_state where
  "initialReplay = \<lparr>rsPrevious = None, rsRevision = 0, rsItems = [], rsBindings = [], rsLast = None, rsBytes = 0\<rparr>"

definition BINDING_LIMIT :: int where
  "BINDING_LIMIT = int MAX_DOCUMENT_JOURNAL_ENTRIES + 16"

fun recordBindings :: "binding_ledger \<Rightarrow> PublicationBinding list \<Rightarrow> int \<Rightarrow> bool \<Rightarrow> replay_failure + binding_ledger" where
  "recordBindings ledger [] revision checkpoint = Inr ledger"
| "recordBindings ledger (b # bs) revision checkpoint =
     (let token = documentBytesId (bindingToken b)
      in if \<not> canRecordDocumentPublicationBinding ledger token (bindingRevision b) revision checkpoint BINDING_LIMIT
         then Inl ReplayFailed
         else recordBindings (recordDocumentPublicationBinding ledger token (bindingRevision b)) bs revision checkpoint)"

text \<open>One round of the loop over the stored entries.\<close>

definition replayEntry :: "journal_crypto \<Rightarrow> replay_journal \<Rightarrow> replay_state \<Rightarrow> bytes \<Rightarrow> replay_failure + replay_state" where
  "replayEntry c j st owned =
     sbind (binary_failure (decodeAccepted owned)) (\<lambda>(payload, acceptance).
     sbind (binary_failure (decodeEntry payload)) (\<lambda>(revision, marker, parent, nonce, ciphertext).
     if revision = 0 \<or> marker > 1 \<or>
        (case rsPrevious st of
           Some previous \<Rightarrow> \<not> documentBytesEqual previous parent \<or> revision \<noteq> rsRevision st + 1
         | None \<Rightarrow> marker = 0 \<and> (revision \<noteq> 1 \<or> \<not> documentBytesEqual parent ZERO))
     then Inl ReplayFailed
     else
       sbind (binary_failure (verifyAcceptedMarker c j revision payload acceptance)) (\<lambda>acceptedMarker.
       if \<not> acceptedMarker then Inl ReplayFailed
       else
         sbind (binary_failure (entryAAD j revision (marker = 1) parent)) (\<lambda>aad.
         case openWith c nonce aad ciphertext of
           None \<Rightarrow> Inl ReplayFailed
         | Some plaintext \<Rightarrow>
             sbind (binary_failure (decodeItem plaintext (marker = 1))) (\<lambda>item.
             if rsPrevious st \<noteq> None \<and> itemCheckpoint (storedItem item) then Inl ReplayFailed
             else
               sbind (recordBindings (rsBindings st) (publicationBindings item) revision
                        (itemCheckpoint (storedItem item))) (\<lambda>ledger.
                 Inr \<lparr>rsPrevious = Some (digestOf c owned), rsRevision = revision, rsItems = rsItems st @ [item],
                      rsBindings = ledger, rsLast = Some (revision, digestOf c owned, parent),
                      rsBytes = rsBytes st + int (length owned)\<rparr>))))))"

fun replayEntries :: "journal_crypto \<Rightarrow> replay_journal \<Rightarrow> replay_state \<Rightarrow> bytes list \<Rightarrow> replay_failure + replay_state" where
  "replayEntries c j st [] = Inr st"
| "replayEntries c j st (e # es) = sbind (replayEntry c j st e) (\<lambda>st. replayEntries c j st es)"

fun ownPublications :: "int \<Rightarrow> DocumentJournalPublication list \<Rightarrow> journal_error + DocumentJournalPublication list" where
  "ownPublications n [] = Inr []"
| "ownPublications n (p # ps) =
     sbind (copyBytes (pubFrame p) 1 (min MAX_DOCUMENT_STORED_PUBLICATION_BYTES (16 * 1024 * 1024 - n))) (\<lambda>frame.
     sbind (copyBytes (pubId p) 32 32) (\<lambda>i.
     sbind (ownPublications (n + int (length frame)) ps) (\<lambda>rest. Inr (\<lparr>pubId = i, pubFrame = frame\<rparr> # rest))))"

fun openPublications ::
    "journal_crypto \<Rightarrow> replay_journal \<Rightarrow> binding_ledger \<Rightarrow> int \<Rightarrow> bytes list \<Rightarrow> (string, PublicationBinding) jsmap \<Rightarrow> string list
      \<Rightarrow> DocumentJournalPublication list \<Rightarrow> replay_failure + bytes list \<times> (string, PublicationBinding) jsmap" where
  "openPublications c j accepted maximum frames bindings seen [] = Inr (frames, bindings)"
| "openPublications c j accepted maximum frames bindings seen (p # ps) =
     sbind (binary_failure (decodePublication (pubFrame p))) (\<lambda>(revision, token, nonce, ciphertext).
     let i = documentBytesId (pubId p); tokenId = documentBytesId token
     in if \<not> isAcceptedDocumentPublicationToken accepted tokenId revision maximum \<or> jhas bindings i \<or> tokenId \<in> set seen
        then Inl ReplayFailed
        else
          sbind (binary_failure (publicationAAD j revision (pubId p) token)) (\<lambda>aad.
          case openWith c nonce aad ciphertext of
            None \<Rightarrow> Inl ReplayFailed
          | Some plaintext \<Rightarrow>
              sbind (store_failure (copyBytes plaintext 1 (1024 * 1024))) (\<lambda>frame.
              if \<not> documentBytesEqual (digestOf c frame) (pubId p) then Inl ReplayFailed
              else openPublications c j accepted maximum (frames @ [frame])
                     (jset bindings i \<lparr>bindingToken = token, bindingRevision = revision\<rparr>) (tokenId # seen) ps)))"

definition readPublications ::
    "journal_crypto \<Rightarrow> replay_journal \<Rightarrow> idb \<Rightarrow> binding_ledger \<Rightarrow> int
      \<Rightarrow> replay_failure + bytes list \<times> (string, PublicationBinding) jsmap" where
  "readPublications c j D accepted maximum =
     sbind (store_failure (idbLoadPublications D (storageKey j))) (\<lambda>publications.
     if length publications > 16 then Inl ReplayFailed
     else
       sbind (store_failure (ownPublications 0 publications)) (\<lambda>owned.
         openPublications c j accepted maximum [] [] [] owned))"

definition anchor_of :: "replay_state \<Rightarrow> DocumentJournalAnchor option" where
  "anchor_of st = map_option (\<lambda>(r, h, _). \<lparr>anchorRevision = r, anchorCommitment = h\<rparr>) (rsLast st)"

text \<open>\<open>restore\<close> up to and including the anchor update.\<close>

definition restoreBegin ::
    "journal_crypto \<Rightarrow> replay_journal \<Rightarrow> idb \<Rightarrow> anchor_store \<Rightarrow> (replay_failure + replay_state \<times> bytes option) \<times> anchor_store" where
  "restoreBegin c j D A =
     (case sbind (store_failure (idbLoadRecoverySnapshot D (storageKey j))) (\<lambda>loaded.
           sbind (captureJournalSnapshot loaded) (\<lambda>(revision, entries, token).
           sbind (anchorLoad A (storageKey j)) (\<lambda>anchored.
           sbind (replayEntries c j initialReplay entries) (\<lambda>st. Inr (revision, token, anchored, st))))) of
        Inl e \<Rightarrow> (Inl e, A)
      | Inr (revision, token, anchored, st) \<Rightarrow>
          if (case rsLast st of None \<Rightarrow> 0 | Some (r, _, _) \<Rightarrow> r) \<noteq> revision \<or> (rsLast st = None \<and> anchored \<noteq> None)
          then (Inl ReplayFailed, A)
          else
            (case classifyDocumentJournalRecovery revision (case anchored of None \<Rightarrow> 0 | Some a \<Rightarrow> anchorRevision a)
                    (documentJournalAnchorsEqual anchored (anchor_of st))
                    (case rsLast st of
                       None \<Rightarrow> False
                     | Some (_, _, parent) \<Rightarrow>
                         documentBytesEqual parent (case anchored of None \<Rightarrow> ZERO | Some a \<Rightarrow> anchorCommitment a))
                    True of
               RecoveryReject \<Rightarrow> (Inl ReplayFailed, A)
             | RecoveryCurrent \<Rightarrow> (Inr (st, token), A)
             | RecoveryFinishAnchor \<Rightarrow>
                 (case (copyAnchor anchored, copyAnchor (anchor_of st)) of
                    (Inr expected, Inr (Some new)) \<Rightarrow>
                      (case anchorCompareAndSwap A (storageKey j) expected new of
                         Inr (True, A') \<Rightarrow>
                           (case anchorLoad A' (storageKey j) of
                              Inr actual \<Rightarrow>
                                if documentJournalAnchorsEqual (anchor_of st) actual then (Inr (st, token), A')
                                else (Inl ReplayFailed, A')
                            | Inl e \<Rightarrow> (Inl e, A'))
                       | Inr (False, A') \<Rightarrow> (Inl ReplayFailed, A')
                       | Inl e \<Rightarrow> (Inl e, A))
                  | _ \<Rightarrow> (Inl ReplayFailed, A))))"

text \<open>The rest of \<open>restore\<close>: the pending entry is discarded, then the publications are read.\<close>

definition restoreEnd ::
    "journal_crypto \<Rightarrow> replay_journal \<Rightarrow> idb \<Rightarrow> replay_state \<Rightarrow> bytes option
      \<Rightarrow> (replay_failure + StoredDocumentJournalItem list) \<times> replay_journal \<times> idb" where
  "restoreEnd c j D st token =
     (case (case token of
              None \<Rightarrow> Inr D
            | Some t \<Rightarrow> sbind (store_failure (copyBytes t 32 32)) (\<lambda>t. store_failure (idbDiscard D (storageKey j) t))) of
        Inl e \<Rightarrow> (Inl e, j\<lparr>rjFailed := True\<rparr>, D)
      | Inr D' \<Rightarrow>
          (case readPublications c j D' (rsBindings st) (case rsLast st of None \<Rightarrow> 0 | Some (r, _, _) \<Rightarrow> r) of
             Inl e \<Rightarrow> (Inl e, j\<lparr>rjFailed := True\<rparr>, D')
           | Inr (frames, bindings) \<Rightarrow>
               (Inr (rsItems st),
                j\<lparr>rjAccepted := rsBindings st, rjPending := bindings, rjHead := anchor_of st,
                  rjEntryCount := int (length (rsItems st)), rjRetainedBytes := rsBytes st, rjOpened := True\<rparr>,
                D')))"

definition restore ::
    "journal_crypto \<Rightarrow> replay_journal \<Rightarrow> idb \<Rightarrow> anchor_store
      \<Rightarrow> (replay_failure + StoredDocumentJournalItem list) \<times> replay_journal \<times> idb \<times> anchor_store" where
  "restore c j D A =
     (if rjFailed j \<or> rjActive j then (Inl ReplayFailed, j, D, A)
      else case restoreBegin c j D A of
        (Inl e, A') \<Rightarrow> (Inl e, j\<lparr>rjFailed := True\<rparr>, D, A')
      | (Inr (st, token), A') \<Rightarrow>
          (case restoreEnd c j D st token of (r, j', D') \<Rightarrow> (r, j', D', A')))"


subsection \<open>Preparing, committing and discarding an item\<close>

record prepare_random =
  rndToken :: bytes
  rndBinding :: bytes
  rndNonce :: bytes

record prepared_journal =
  ppItem :: DocumentJournalItem
  ppBindings :: "PublicationBinding list"
  ppRevision :: int
  ppExpected :: "DocumentJournalAnchor option"
  ppToken :: bytes
  ppEntry :: bytes
  ppCheckpoint :: bool
  ppPublication :: "DocumentJournalStagedPublication option"
  ppFrame :: "bytes option"
  ppBinding :: "PublicationBinding option"
  ppPrior :: binding_ledger
  ppCandidate :: binding_ledger

definition opt_list :: "'a option \<Rightarrow> 'a list" where
  "opt_list x = (case x of None \<Rightarrow> [] | Some a \<Rightarrow> [a])"

text \<open>The bindings an item carries and the ledger that holds once it is accepted.\<close>

definition prepareBindings ::
    "replay_journal \<Rightarrow> bool \<Rightarrow> PublicationBinding option \<Rightarrow> int
      \<Rightarrow> replay_failure + PublicationBinding list \<times> binding_ledger" where
  "prepareBindings j checkpoint binding revision =
     (let pending = map (\<lambda>b. documentBytesId (bindingToken b)) (jvals (rjPending j));
          bindings = (if checkpoint then jvals (rjPending j) @ opt_list binding else opt_list binding)
      in sbind (if checkpoint then
                  (if \<not> canRetainDocumentPublicationBindings (rjAccepted j) pending 16 then Inl ReplayFailed
                   else case retainDocumentPublicationBindings (rjAccepted j) pending of
                     None \<Rightarrow> Inl ReplayFailed
                   | Some ledger \<Rightarrow> Inr ledger)
                else Inr (rjAccepted j)) (\<lambda>candidate.
         case binding of
           None \<Rightarrow> Inr (bindings, candidate)
         | Some b \<Rightarrow>
             (let bindingId = documentBytesId (bindingToken b)
              in if jhas (rjAccepted j) bindingId \<or>
                    \<not> canRecordDocumentPublicationBinding candidate bindingId revision revision False BINDING_LIMIT
                 then Inl ReplayFailed
                 else Inr (bindings, recordDocumentPublicationBinding candidate bindingId revision))))"

definition DOCUMENT_PUBLICATION_OVERHEAD :: int where
  "DOCUMENT_PUBLICATION_OVERHEAD = 72"

definition prepareBody ::
    "journal_crypto \<Rightarrow> replay_journal \<Rightarrow> idb \<Rightarrow> anchor_store \<Rightarrow> DocumentJournalItem \<Rightarrow> prepare_random
      \<Rightarrow> DocumentJournalAnchor option \<Rightarrow> int \<Rightarrow> replay_failure + prepared_journal \<times> idb" where
  "prepareBody c j D A item rnd expected revision =
     (let binding = map_option (\<lambda>_. \<lparr>bindingToken = rndBinding rnd, bindingRevision = revision\<rparr>) (outboundFrame item)
      in sbind (prepareBindings j (itemCheckpoint item) binding revision) (\<lambda>(bindings, candidate).
         sbind (binary_failure (encodeItem item bindings)) (\<lambda>plaintext.
         sbind (anchorLoad A (storageKey j)) (\<lambda>actual.
         if \<not> documentJournalAnchorsEqual expected actual then Inl ReplayFailed
         else
           (let parent = (case expected of None \<Rightarrow> ZERO | Some a \<Rightarrow> anchorCommitment a)
            in sbind (binary_failure (entryAAD j revision (itemCheckpoint item) parent)) (\<lambda>aad.
               sbind (binary_failure (encodeEntry revision (itemCheckpoint item) parent (rndNonce rnd)
                        (sealWith c (rndNonce rnd) aad plaintext))) (\<lambda>entry.
               let publication = map_option (\<lambda>f. \<lparr>stagedId = digestOf c f,
                     stagedBytes = int (length f) + DOCUMENT_PUBLICATION_OVERHEAD\<rparr>) (outboundFrame item)
               in sbind (store_failure (idbStage D (storageKey j) (case expected of None \<Rightarrow> 0 | Some a \<Rightarrow> anchorRevision a)
                          (rndToken rnd) entry publication (itemCheckpoint item))) (\<lambda>D'.
                    Inr (\<lparr>ppItem = item, ppBindings = bindings, ppRevision = revision, ppExpected = expected,
                          ppToken = rndToken rnd, ppEntry = entry, ppCheckpoint = itemCheckpoint item,
                          ppPublication = publication, ppFrame = outboundFrame item, ppBinding = binding,
                          ppPrior = rjAccepted j, ppCandidate = candidate\<rparr>, D')))))))))"

definition prepare ::
    "journal_crypto \<Rightarrow> replay_journal \<Rightarrow> idb \<Rightarrow> anchor_store \<Rightarrow> DocumentJournalItem \<Rightarrow> prepare_random
      \<Rightarrow> (replay_failure + prepared_journal) \<times> replay_journal \<times> idb" where
  "prepare c j D A item rnd =
     (if (case outboundFrame item of None \<Rightarrow> False | Some f \<Rightarrow> length f < 1 \<or> int (length f) > 1024 * 1024)
      then (Inl ReplayFailed, j, D)
      else if \<not> rjOpened j \<or> rjFailed j \<or> rjActive j \<or> revision_of j = MAX_SAFE_INTEGER \<or>
         (needsCheckpoint j \<and> \<not> itemCheckpoint item)
      then (Inl ReplayFailed, j, D)
      else case copyAnchor (rjHead j) of
        Inl e \<Rightarrow> (Inl e, j\<lparr>rjActive := True\<rparr>, D)
      | Inr expected \<Rightarrow>
          (case prepareBody c j D A item rnd expected (revision_of j + 1) of
             Inl e \<Rightarrow> (Inl e, j\<lparr>rjFailed := rjFailed j \<or> e \<noteq> ReplayCapacity, rjActive := False\<rparr>, D)
           | Inr (p, D') \<Rightarrow> (Inr p, j\<lparr>rjActive := True\<rparr>, D')))"

record commit_random =
  rndAccept :: bytes
  rndSeal :: bytes

text \<open>\<open>commit\<close> up to and including the store commit.\<close>

definition commitStore ::
    "journal_crypto \<Rightarrow> replay_journal \<Rightarrow> idb \<Rightarrow> prepared_journal \<Rightarrow> commit_random \<Rightarrow> replay_failure + bytes \<times> bytes \<times> idb" where
  "commitStore c j D p rnd =
     sbind (binary_failure (createAcceptedEntry c j (ppRevision p) (ppEntry p) (rndAccept rnd))) (\<lambda>accepted.
     sbind (case (ppPublication p, ppBinding p, ppFrame p) of
              (Some s, Some b, Some f) \<Rightarrow>
                sbind (binary_failure (sealPublication c j (ppRevision p) (stagedId s) (bindingToken b) f (rndSeal rnd))) (\<lambda>frame.
                  Inr (Some \<lparr>pubId = stagedId s, pubFrame = frame\<rparr>))
            | _ \<Rightarrow> Inr None) (\<lambda>publication.
     sbind (store_failure (idbCommit D (storageKey j) (case ppExpected p of None \<Rightarrow> 0 | Some a \<Rightarrow> anchorRevision a)
              (ppToken p) (ppCheckpoint p) accepted publication)) (\<lambda>D'.
       Inr (accepted, digestOf c accepted, D'))))"

text \<open>The rest of \<open>commit\<close>: the accepted head is read back, then the anchor moves.\<close>

definition commitAnchor ::
    "journal_crypto \<Rightarrow> replay_journal \<Rightarrow> idb \<Rightarrow> anchor_store \<Rightarrow> prepared_journal \<Rightarrow> bytes
      \<Rightarrow> (replay_failure + DocumentJournalAnchor) \<times> anchor_store" where
  "commitAnchor c j D A p commitment =
     (case idbLoadAcceptedHead D (storageKey j) of
        Inr (revision, Some entry) \<Rightarrow>
          if revision \<noteq> ppRevision p \<or> int (length entry) < 1 \<or> int (length entry) > MAX_ENTRY + 128 \<or>
             \<not> documentBytesEqual (digestOf c entry) commitment
          then (Inl ReplayFailed, A)
          else
            (let new = \<lparr>anchorRevision = ppRevision p, anchorCommitment = commitment\<rparr>
             in case (copyAnchor (ppExpected p), copyAnchor (Some new)) of
                  (Inr expected, Inr (Some n)) \<Rightarrow>
                    (case anchorCompareAndSwap A (storageKey j) expected n of
                       Inr (True, A') \<Rightarrow>
                         (case anchorLoad A' (storageKey j) of
                            Inr actual \<Rightarrow> if documentJournalAnchorsEqual (Some new) actual then (Inr new, A') else (Inl ReplayFailed, A')
                          | Inl e \<Rightarrow> (Inl e, A'))
                     | Inr (False, A') \<Rightarrow> (Inl ReplayFailed, A')
                     | Inl e \<Rightarrow> (Inl e, A))
                | _ \<Rightarrow> (Inl ReplayFailed, A))
      | _ \<Rightarrow> (Inl ReplayFailed, A))"

definition commitPrepared ::
    "journal_crypto \<Rightarrow> replay_journal \<Rightarrow> idb \<Rightarrow> anchor_store \<Rightarrow> prepared_journal \<Rightarrow> commit_random
      \<Rightarrow> (replay_failure + unit) \<times> replay_journal \<times> idb \<times> anchor_store" where
  "commitPrepared c j D A p rnd =
     (let rejected = j\<lparr>rjAccepted := selectDocumentPublicationBindings (ppPrior p) (ppCandidate p) False,
            rjFailed := True, rjActive := False\<rparr>
      in case commitStore c j D p rnd of
           Inl e \<Rightarrow> (Inl e, rejected, D, A)
         | Inr (accepted, commitment, D') \<Rightarrow>
             (case commitAnchor c j D' A p commitment of
                (Inl e, A') \<Rightarrow> (Inl e, rejected, D', A')
              | (Inr new, A') \<Rightarrow>
                  (Inr (),
                   j\<lparr>rjAccepted := selectDocumentPublicationBindings (ppPrior p) (ppCandidate p) True,
                     rjPending := (case (ppPublication p, ppBinding p) of
                        (Some s, Some b) \<Rightarrow> jset (rjPending j) (documentBytesId (stagedId s)) b
                      | _ \<Rightarrow> rjPending j),
                     rjHead := Some new,
                     rjEntryCount := (if ppCheckpoint p then 1 else rjEntryCount j + 1),
                     rjRetainedBytes := (if ppCheckpoint p then int (length accepted)
                                         else rjRetainedBytes j + int (length accepted)),
                     rjActive := False\<rparr>,
                   D', A')))"

definition discardPrepared ::
    "replay_journal \<Rightarrow> idb \<Rightarrow> prepared_journal \<Rightarrow> (replay_failure + unit) \<times> replay_journal \<times> idb" where
  "discardPrepared j D p =
     (case idbDiscard D (storageKey j) (ppToken p) of
        Inl _ \<Rightarrow> (Inl ReplayFailed, j\<lparr>rjFailed := True, rjActive := False\<rparr>, D)
      | Inr D' \<Rightarrow>
          (Inr (), j\<lparr>rjAccepted := selectDocumentPublicationBindings (ppPrior p) (ppCandidate p) False, rjActive := False\<rparr>, D'))"

definition pendingPublications ::
    "journal_crypto \<Rightarrow> replay_journal \<Rightarrow> idb \<Rightarrow> anchor_store \<Rightarrow> (replay_failure + bytes list) \<times> replay_journal" where
  "pendingPublications c j D A =
     (if \<not> rjOpened j \<or> rjFailed j \<or> rjActive j then (Inl ReplayFailed, j)
      else case sbind (readPublications c j D (rjAccepted j) (revision_of j)) (\<lambda>result.
                sbind (anchorLoad A (storageKey j)) (\<lambda>actual.
                if \<not> documentJournalAnchorsEqual (rjHead j) actual then Inl ReplayFailed else Inr result)) of
        Inl e \<Rightarrow> (Inl e, j\<lparr>rjFailed := True\<rparr>)
      | Inr (frames, bindings) \<Rightarrow> (Inr frames, j\<lparr>rjPending := bindings\<rparr>))"

definition publicationSent ::
    "journal_crypto \<Rightarrow> replay_journal \<Rightarrow> idb \<Rightarrow> bytes \<Rightarrow> (replay_failure + unit) \<times> replay_journal \<times> idb" where
  "publicationSent c j D frame =
     (case idbPublicationSent D (storageKey j) (digestOf c frame) of
        Inl _ \<Rightarrow> (Inl ReplayFailed, j, D)
      | Inr D' \<Rightarrow> (Inr (), j\<lparr>rjPending := jdel (rjPending j) (documentBytesId (digestOf c frame))\<rparr>, D'))"


section \<open>Runs with crashes\<close>

text \<open>
  The durable world, the running journal, the item it has prepared, and the
  specification's log: the items whose store commit has succeeded, from the last
  checkpoint on. A crash loses the running journal and what it prepared; it can also
  fall inside \<open>restore\<close> after the anchor update and inside \<open>commit\<close> after the store commit.
\<close>

record world =
  wStore :: idb
  wAnchors :: anchor_store
  wJournal :: replay_journal
  wPrepared :: "prepared_journal option"
  wLog :: "StoredDocumentJournalItem list"

datatype replay_event =
    EvRestore
  | EvRestoreCrash
  | EvPrepare DocumentJournalItem prepare_random
  | EvCommit commit_random
  | EvCommitCrash commit_random
  | EvDiscard
  | EvPendingPublications
  | EvPublicationSent bytes
  | EvCrash

definition logged :: "prepared_journal \<Rightarrow> StoredDocumentJournalItem list \<Rightarrow> StoredDocumentJournalItem list" where
  "logged p items =
     (if ppCheckpoint p then [stored (ppItem p) (ppBindings p)] else items @ [stored (ppItem p) (ppBindings p)])"

definition initialWorld :: "replay_journal \<Rightarrow> world" where
  "initialWorld j0 = \<lparr>wStore = emptyIdb, wAnchors = [], wJournal = j0, wPrepared = None, wLog = []\<rparr>"

definition log_after :: "journal_crypto \<Rightarrow> world \<Rightarrow> prepared_journal \<Rightarrow> commit_random \<Rightarrow> StoredDocumentJournalItem list" where
  "log_after c w p rnd =
     (case commitStore c (wJournal w) (wStore w) p rnd of Inl _ \<Rightarrow> wLog w | Inr _ \<Rightarrow> logged p (wLog w))"

fun world_step :: "journal_crypto \<Rightarrow> replay_journal \<Rightarrow> world \<Rightarrow> replay_event \<Rightarrow> world" where
  "world_step c j0 w EvRestore =
     (case restore c (wJournal w) (wStore w) (wAnchors w) of
        (_, j, D, A) \<Rightarrow> w\<lparr>wStore := D, wAnchors := A, wJournal := j\<rparr>)"
| "world_step c j0 w EvRestoreCrash =
     (if rjFailed (wJournal w) \<or> rjActive (wJournal w) then w\<lparr>wJournal := j0, wPrepared := None\<rparr>
      else w\<lparr>wAnchors := snd (restoreBegin c (wJournal w) (wStore w) (wAnchors w)), wJournal := j0, wPrepared := None\<rparr>)"
| "world_step c j0 w (EvPrepare item rnd) =
     (case prepare c (wJournal w) (wStore w) (wAnchors w) item rnd of
        (Inl _, j, D) \<Rightarrow> w\<lparr>wStore := D, wJournal := j\<rparr>
      | (Inr p, j, D) \<Rightarrow> w\<lparr>wStore := D, wJournal := j, wPrepared := Some p\<rparr>)"
| "world_step c j0 w (EvCommit rnd) =
     (case wPrepared w of
        None \<Rightarrow> w
      | Some p \<Rightarrow>
          (case commitPrepared c (wJournal w) (wStore w) (wAnchors w) p rnd of
             (_, j, D, A) \<Rightarrow> w\<lparr>wStore := D, wAnchors := A, wJournal := j, wPrepared := None, wLog := log_after c w p rnd\<rparr>))"
| "world_step c j0 w (EvCommitCrash rnd) =
     (case wPrepared w of
        None \<Rightarrow> w\<lparr>wJournal := j0\<rparr>
      | Some p \<Rightarrow>
          w\<lparr>wStore := (case commitStore c (wJournal w) (wStore w) p rnd of Inl _ \<Rightarrow> wStore w | Inr (_, _, D) \<Rightarrow> D),
            wJournal := j0, wPrepared := None, wLog := log_after c w p rnd\<rparr>)"
| "world_step c j0 w EvDiscard =
     (case wPrepared w of
        None \<Rightarrow> w
      | Some p \<Rightarrow>
          (case discardPrepared (wJournal w) (wStore w) p of
             (_, j, D) \<Rightarrow> w\<lparr>wStore := D, wJournal := j, wPrepared := None\<rparr>))"
| "world_step c j0 w EvPendingPublications =
     w\<lparr>wJournal := snd (pendingPublications c (wJournal w) (wStore w) (wAnchors w))\<rparr>"
| "world_step c j0 w (EvPublicationSent frame) =
     (case publicationSent c (wJournal w) (wStore w) frame of (_, j, D) \<Rightarrow> w\<lparr>wStore := D, wJournal := j\<rparr>)"
| "world_step c j0 w EvCrash = w\<lparr>wJournal := j0, wPrepared := None\<rparr>"

fun legal_event :: "replay_event \<Rightarrow> bool" where
  "legal_event (EvPrepare item rnd) \<longleftrightarrow>
     length (rndToken rnd) = 32 \<and> length (rndBinding rnd) = 32 \<and> length (rndNonce rnd) = 12"
| "legal_event (EvCommit rnd) \<longleftrightarrow> length (rndAccept rnd) = 12 \<and> length (rndSeal rnd) = 12"
| "legal_event (EvCommitCrash rnd) \<longleftrightarrow> length (rndAccept rnd) = 12 \<and> length (rndSeal rnd) = 12"
| "legal_event _ \<longleftrightarrow> True"

fun run_world :: "journal_crypto \<Rightarrow> replay_journal \<Rightarrow> world \<Rightarrow> replay_event list \<Rightarrow> world" where
  "run_world c j0 w [] = w"
| "run_world c j0 w (e # es) = run_world c j0 (world_step c j0 w e) es"

text \<open>What the journal relies on: decryption inverts encryption, tags take 16 bytes, digests 32.\<close>

definition crypto_ok :: "journal_crypto \<Rightarrow> bool" where
  "crypto_ok c \<longleftrightarrow>
     (\<forall>n a p. length n = 12 \<longrightarrow>
        openWith c n a (sealWith c n a p) = Some p \<and> length (sealWith c n a p) = length p + 16) \<and>
     (\<forall>b. length (digestOf c b) = 32)"

end
