(* ===== verification/Replay_Recovery.thy ===== *)
theory Replay_Recovery
  imports Replay_Journal
begin

text \<open>
  Crash recovery of the replay journal: whatever sequence of operations and crashes
  precedes it, \<open>restore\<close> succeeds and returns exactly the items whose store commit
  had succeeded; and it never accepts a store that is behind the rollback anchor.
\<close>


section \<open>Shared lemmas\<close>

lemma failure_Inr [simp]:
  "binary_failure r = Inr x \<longleftrightarrow> r = Inr x" "store_failure q = Inr y \<longleftrightarrow> q = Inr y"
  "binary_failure (Inr a) = Inr a" "store_failure (Inr b) = Inr b"
  by (auto simp: binary_failure_def store_failure_def split: sum.splits)

definition same_doc :: "replay_journal \<Rightarrow> replay_journal \<Rightarrow> bool" where
  "same_doc j j' \<longleftrightarrow> rjDocumentId j = rjDocumentId j' \<and> rjGenesis j = rjGenesis j'"

lemma same_doc_simps:
  assumes "same_doc j j'"
  shows "storageKey j = storageKey j'" "entryAAD j = entryAAD j'" "publicationAAD j = publicationAAD j'"
    "acceptanceAAD j = acceptanceAAD j'"
  using assms by (auto simp: same_doc_def storageKey_def entryAAD_def publicationAAD_def acceptanceAAD_def intro!: ext)

lemma same_doc_replayEntry:
  assumes "same_doc j j'"
  shows "replayEntry c j = replayEntry c j'"
  by (intro ext) (simp only: replayEntry_def verifyAcceptedMarker_def same_doc_simps [OF assms])

lemma same_doc_replay:
  assumes "same_doc j j'"
  shows "replayEntries c j st es = replayEntries c j' st es"
  by (induction es arbitrary: st) (simp_all add: same_doc_replayEntry [OF assms])

lemma same_doc_openPublications:
  assumes "same_doc j j'"
  shows "openPublications c j L m fs bs seen ps = openPublications c j' L m fs bs seen ps"
  by (induction ps arbitrary: fs bs seen) (simp_all only: openPublications.simps same_doc_simps [OF assms])

lemma same_doc_readPublications:
  assumes "same_doc j j'"
  shows "readPublications c j = readPublications c j'"
  by (intro ext) (simp only: readPublications_def same_doc_simps [OF assms] same_doc_openPublications [OF assms])

lemma replayEntries_append:
  "replayEntries c j st (es @ fs) = sbind (replayEntries c j st es) (\<lambda>st. replayEntries c j st fs)"
proof (induction es arbitrary: st)
  case (Cons e es)
  show ?case by (cases "replayEntry c j st e") (simp_all add: Cons.IH)
qed simp

lemma anchorsEqual_iff [simp]: "documentJournalAnchorsEqual a b \<longleftrightarrow> a = b"
  by (auto simp: documentJournalAnchorsEqual_def documentBytesEqual_def split: option.splits)

lemma crypto_facts:
  assumes "crypto_ok c"
  shows "length n = 12 \<Longrightarrow> openWith c n a (sealWith c n a p) = Some p"
    "length n = 12 \<Longrightarrow> length (sealWith c n a p) = length p + 16" "length (digestOf c b) = 32"
  using assms by (auto simp: crypto_ok_def)

text \<open>A prepared and accepted entry is read back by \<open>restore\<close>.\<close>

lemma accepted_entry_replays:
  assumes c: "crypto_ok c" and rev: "1 \<le> revision" "revision \<le> MAX_SAFE_INTEGER"
    and enc: "encodeItem item bindings = Inr plaintext" "itemCheckpoint item \<or> length bindings \<le> 1"
    and parent: "length parent = 32" and nonce: "length nonce = 12" "length accNonce = 12"
    and aad: "entryAAD j revision (itemCheckpoint item) parent = Inr aad"
    and entry: "encodeEntry revision (itemCheckpoint item) parent nonce (sealWith c nonce aad plaintext) = Inr entry"
    and acc: "createAcceptedEntry c j revision entry accNonce = Inr accepted"
    and link: "case rsPrevious st of None \<Rightarrow> itemCheckpoint item \<or> (revision = 1 \<and> parent = ZERO)
      | Some h \<Rightarrow> parent = h \<and> revision = rsRevision st + 1 \<and> \<not> itemCheckpoint item"
    and led: "recordBindings (rsBindings st) bindings revision (itemCheckpoint item) = Inr ledger"
  shows "replayEntry c j st accepted =
    Inr \<lparr>rsPrevious = Some (digestOf c accepted), rsRevision = revision, rsItems = rsItems st @ [stored item bindings],
         rsBindings = ledger, rsLast = Some (revision, digestOf c accepted, parent),
         rsBytes = rsBytes st + int (length accepted)\<rparr>"
    and "length accepted = length entry + 32"
proof -
  obtain tagAad where t: "acceptanceAAD j revision (digestOf c entry) = Inr tagAad"
    and e: "encodeAccepted entry accNonce (sealWith c accNonce tagAad []) = Inr accepted"
    using acc by (auto simp: createAcceptedEntry_def sbind_Inr_iff Let_def split: if_splits)
  have tag: "length (sealWith c accNonce tagAad []) = 16" using crypto_facts(2) [OF c nonce(2)] by simp
  note a = accepted_roundtrip [OF e nonce(2) tag]
  note p = entry_roundtrip [OF entry parent nonce(1) rev(2)]
  have v: "verifyAcceptedMarker c j revision entry (accNonce @ sealWith c accNonce tagAad []) = Inr True"
    using t nonce(2) crypto_facts(1) [OF c nonce(2)] by (simp add: verifyAcceptedMarker_def)
  have i: "decodeItem plaintext (itemCheckpoint item) = Inr (stored item bindings)" by (rule item_roundtrip [OF enc])
  have s: "itemCheckpoint (storedItem (stored item bindings)) = itemCheckpoint item"
    "publicationBindings (stored item bindings) = bindings" by (simp_all add: stored_def)
  have m: "((if itemCheckpoint item then 1 else 0 :: int) = 1) = itemCheckpoint item" by simp
  have ok: "\<not> (revision = 0 \<or> (if itemCheckpoint item then 1 else 0 :: int) > 1 \<or>
        (case rsPrevious st of
           Some previous \<Rightarrow> \<not> documentBytesEqual previous parent \<or> revision \<noteq> rsRevision st + 1
         | None \<Rightarrow> (if itemCheckpoint item then 1 else 0 :: int) = 0 \<and> (revision \<noteq> 1 \<or> \<not> documentBytesEqual parent ZERO)))"
    using rev(1) link by (auto simp: documentBytesEqual_def split: option.splits)
  have later: "\<not> (rsPrevious st \<noteq> None \<and> itemCheckpoint item)" using link by (auto split: option.splits)
  show "replayEntry c j st accepted =
    Inr \<lparr>rsPrevious = Some (digestOf c accepted), rsRevision = revision, rsItems = rsItems st @ [stored item bindings],
         rsBindings = ledger, rsLast = Some (revision, digestOf c accepted, parent),
         rsBytes = rsBytes st + int (length accepted)\<rparr>"
    unfolding replayEntry_def a(1) failure_Inr sbind_simps prod.case p if_not_P [OF ok] v simp_thms if_False m aad
      crypto_facts(1) [OF c nonce(1)] option.case i s if_not_P [OF later] led by simp
  show "length accepted = length entry + 32" by (rule a(2))
qed



section \<open>Queued publications\<close>

definition pub_binding :: "DocumentJournalPublication \<Rightarrow> PublicationBinding" where
  "pub_binding p = (case decodePublication (pubFrame p) of
      Inr (r, t, _) \<Rightarrow> \<lparr>bindingToken = t, bindingRevision = r\<rparr> | _ \<Rightarrow> \<lparr>bindingToken = [], bindingRevision = 0\<rparr>)"

definition token_id :: "PublicationBinding \<Rightarrow> string" where
  "token_id b = documentBytesId (bindingToken b)"

definition sealed_ok :: "journal_crypto \<Rightarrow> replay_journal \<Rightarrow> DocumentJournalPublication \<Rightarrow> bool" where
  "sealed_ok c j p \<longleftrightarrow> (\<exists>r t n x aad f. decodePublication (pubFrame p) = Inr (r, t, n, x) \<and>
     publicationAAD j r (pubId p) t = Inr aad \<and> openWith c n aad x = Some f \<and>
     1 \<le> length f \<and> int (length f) \<le> 1024 * 1024 \<and> digestOf c f = pubId p)"

definition bound_in :: "binding_ledger \<Rightarrow> int \<Rightarrow> PublicationBinding \<Rightarrow> bool" where
  "bound_in L m b \<longleftrightarrow> jget L (token_id b) = Some (bindingRevision b) \<and> 1 \<le> bindingRevision b \<and> bindingRevision b \<le> m"

lemma documentBytesId_inj [simp]: "documentBytesId a = documentBytesId b \<longleftrightarrow> a = b"
  by (simp add: documentBytesId_def)

lemma set_jvals_jset: "set (jvals (jset m k v)) \<subseteq> insert v (set (jvals m))"
  by (induction m k v rule: jset.induct) (auto simp: jvals_def)

lemma set_jvals_jdel: "set (jvals (jdel m k)) \<subseteq> set (jvals m)"
  by (auto simp: jvals_def jdel_def)

lemma openPublications_ok:
  assumes "\<forall>p \<in> set ps. sealed_ok c j p \<and> bound_in L m (pub_binding p)"
    and "distinct (map pubId ps)" "distinct (map (bindingToken \<circ> pub_binding) ps)"
    and "\<forall>p \<in> set ps. jget bs (documentBytesId (pubId p)) = None \<and> token_id (pub_binding p) \<notin> set seen"
  shows "\<exists>fs' bs'. openPublications c j L m fs bs seen ps = Inr (fs', bs') \<and>
    (\<forall>p \<in> set ps. jget bs' (documentBytesId (pubId p)) = Some (pub_binding p)) \<and>
    (\<forall>i. i \<notin> (\<lambda>p. documentBytesId (pubId p)) ` set ps \<longrightarrow> jget bs' i = jget bs i) \<and>
    set (jvals bs') \<subseteq> set (jvals bs) \<union> pub_binding ` set ps"
  using assms
proof (induction ps arbitrary: fs bs seen)
  case (Cons p ps)
  obtain r t n x aad f where d: "decodePublication (pubFrame p) = Inr (r, t, n, x)"
    "publicationAAD j r (pubId p) t = Inr aad" "openWith c n aad x = Some f" "1 \<le> length f" "int (length f) \<le> 1024 * 1024"
    "digestOf c f = pubId p"
    using Cons.prems(1) unfolding sealed_ok_def by fastforce
  have b: "pub_binding p = \<lparr>bindingToken = t, bindingRevision = r\<rparr>" using d(1) by (simp add: pub_binding_def)
  have acc: "isAcceptedDocumentPublicationToken L (documentBytesId t) r m"
    using Cons.prems(1) b
    by (auto simp: bound_in_def token_id_def isAcceptedDocumentPublicationToken_def isAcceptedDocumentPublication_def)
  have fresh: "\<not> jhas bs (documentBytesId (pubId p))" "documentBytesId t \<notin> set seen"
    using Cons.prems(4) b by (auto simp: jhas_def token_id_def)
  let ?bs = "jset bs (documentBytesId (pubId p)) (pub_binding p)"
  have step: "openPublications c j L m fs bs seen (p # ps) = openPublications c j L m (fs @ [f]) ?bs (documentBytesId t # seen) ps"
    using d(2-6) acc fresh by (simp add: d(1) Let_def copyBytes_ok documentBytesEqual_def b)
  have "\<forall>q \<in> set ps. jget ?bs (documentBytesId (pubId q)) = None \<and> token_id (pub_binding q) \<notin> set (documentBytesId t # seen)"
  proof
    fix q assume q: "q \<in> set ps"
    have "pubId p \<notin> pubId ` set ps" "bindingToken (pub_binding p) \<notin> (\<lambda>q. bindingToken (pub_binding q)) ` set ps"
      using Cons.prems(2,3) by (simp_all add: comp_def)
    then have "pubId q \<noteq> pubId p" "bindingToken (pub_binding q) \<noteq> t" using q b by (auto simp: image_iff)
    then show "jget ?bs (documentBytesId (pubId q)) = None \<and> token_id (pub_binding q) \<notin> set (documentBytesId t # seen)"
      using Cons.prems(4) q by (simp add: jget_jset token_id_def)
  qed
  then obtain fs' bs' where ih: "openPublications c j L m (fs @ [f]) ?bs (documentBytesId t # seen) ps = Inr (fs', bs')"
    "\<forall>p \<in> set ps. jget bs' (documentBytesId (pubId p)) = Some (pub_binding p)"
    "\<forall>i. i \<notin> (\<lambda>p. documentBytesId (pubId p)) ` set ps \<longrightarrow> jget bs' i = jget ?bs i"
    "set (jvals bs') \<subseteq> set (jvals ?bs) \<union> pub_binding ` set ps"
    using Cons.IH [of ?bs "documentBytesId t # seen" "fs @ [f]"] Cons.prems(1,2,3) by auto
  have "pubId p \<notin> pubId ` set ps" using Cons.prems(2) by simp
  then have "documentBytesId (pubId p) \<notin> (\<lambda>p. documentBytesId (pubId p)) ` set ps" by auto
  then have "jget bs' (documentBytesId (pubId p)) = Some (pub_binding p)" using ih(3) by (simp add: jget_jset)
  moreover have "set (jvals bs') \<subseteq> set (jvals bs) \<union> pub_binding ` set (p # ps)"
    using ih(4) set_jvals_jset [of bs "documentBytesId (pubId p)" "pub_binding p"] by auto
  ultimately show ?case using step ih(1-3) by (auto simp: jget_jset)
qed simp

lemma ownPublications_same:
  "\<forall>p \<in> set ps. pub_ok p \<Longrightarrow> n + totalBytes (map pubFrame ps) \<le> 16777216 \<Longrightarrow> ownPublications n ps = Inr ps"
proof (induction ps arbitrary: n)
  case (Cons p ps)
  have "int (length (pubFrame p)) \<le> 16777216 - n" using Cons.prems(2) totalBytes_nonneg [of "map pubFrame ps"] by simp
  then have "copyBytes (pubFrame p) 1 (min MAX_DOCUMENT_STORED_PUBLICATION_BYTES (16 * 1024 * 1024 - n)) = Inr (pubFrame p)"
    using Cons.prems(1) by (intro copyBytes_ok) (auto simp: pub_ok_def)
  moreover have "copyBytes (pubId p) 32 32 = Inr (pubId p)" using Cons.prems(1) by (intro copyBytes_ok) (auto simp: pub_ok_def)
  moreover have "ownPublications (n + int (length (pubFrame p))) ps = Inr ps" using Cons.prems by (intro Cons.IH) auto
  ultimately show ?case by simp
qed simp

definition queue_ok :: "journal_crypto \<Rightarrow> replay_journal \<Rightarrow> binding_ledger \<Rightarrow> journal_view \<Rightarrow> bool" where
  "queue_ok c j L v \<longleftrightarrow>
     (\<forall>p \<in> set (vPublications v). sealed_ok c j p \<and> bound_in L (vRevision v) (pub_binding p)) \<and>
     distinct (map (bindingToken \<circ> pub_binding) (vPublications v))"

definition pending_covers :: "(string, PublicationBinding) jsmap \<Rightarrow> binding_ledger \<Rightarrow> journal_view \<Rightarrow> bool" where
  "pending_covers m L v \<longleftrightarrow>
     (\<forall>p \<in> set (vPublications v). jget m (documentBytesId (pubId p)) = Some (pub_binding p)) \<and>
     (\<forall>b \<in> set (jvals m). bound_in L (vRevision v) b)"

lemma readPublications_ok:
  assumes ok: "view_ok v" and doc: "idb_doc D (storageKey j) v" and q: "queue_ok c j L v"
  shows "\<exists>fs bs. readPublications c j D L (vRevision v) = Inr (fs, bs) \<and> pending_covers bs L v"
proof -
  have load: "idbLoadPublications D (storageKey j) = Inr (vPublications v)"
    using view_publications [OF ok doc]
    by (simp add: idbLoadPublications_def idb_head [OF ok doc] planDocumentJournalRead_def Let_def)
  have v: "length (vPublications v) \<le> 16" "\<forall>p \<in> set (vPublications v). pub_ok p" "distinct (map pubId (vPublications v))"
    "0 + totalBytes (map pubFrame (vPublications v)) \<le> 16777216"
    using ok by (auto simp: view_ok_def)
  obtain fs bs where o: "openPublications c j L (vRevision v) [] [] [] (vPublications v) = Inr (fs, bs)"
    "\<forall>p \<in> set (vPublications v). jget bs (documentBytesId (pubId p)) = Some (pub_binding p)"
    "set (jvals bs) \<subseteq> pub_binding ` set (vPublications v)"
    using openPublications_ok [of "vPublications v" c j L "vRevision v" "[]" "[]" "[]"] q v(3)
    by (auto simp: queue_ok_def jvals_def)
  have "pending_covers bs L v"
    using o(2,3) q by (auto simp: pending_covers_def queue_ok_def jvals_def)
  then show ?thesis using load v(1) ownPublications_same [OF v(2,4)] o(1) by (simp add: readPublications_def)
qed



section \<open>Restoring\<close>

definition last_revision :: "replay_state \<Rightarrow> int" where
  "last_revision st = (case rsLast st of None \<Rightarrow> 0 | Some (r, _, _) \<Rightarrow> r)"

lemma replayEntry_shape:
  assumes "replayEntry c j st e = Inr st'"
  shows "\<exists>r p item L. st' = \<lparr>rsPrevious = Some (digestOf c e), rsRevision = r, rsItems = rsItems st @ [item],
      rsBindings = L, rsLast = Some (r, digestOf c e, p), rsBytes = rsBytes st + int (length e)\<rparr> \<and>
    int (length e) \<le> MAX_ENTRY + 128"
proof -
  obtain payload acceptance where d: "decodeAccepted e = Inr (payload, acceptance)"
    using assms by (auto simp: replayEntry_def sbind_Inr_iff)
  have "int (length e) \<le> MAX_ENTRY + 128"
    using d by (auto simp: decodeAccepted_def sbind_Inr_iff newReader_def split: if_splits)
  moreover have "\<exists>r p item L. st' = \<lparr>rsPrevious = Some (digestOf c e), rsRevision = r, rsItems = rsItems st @ [item],
      rsBindings = L, rsLast = Some (r, digestOf c e, p), rsBytes = rsBytes st + int (length e)\<rparr>"
    using assms unfolding replayEntry_def d failure_Inr sbind_simps prod.case
    by (auto simp: sbind_Inr_iff split: if_splits option.splits)
  ultimately show ?thesis by blast
qed

lemma replay_shape:
  assumes "replayEntries c j st0 es = Inr st"
  shows "(\<forall>e \<in> set es. int (length e) \<le> MAX_ENTRY + 128) \<and> length (rsItems st) = length (rsItems st0) + length es \<and>
    rsBytes st = rsBytes st0 + totalBytes es \<and> (es = [] \<longrightarrow> st = st0) \<and>
    (es \<noteq> [] \<longrightarrow> (\<exists>r p. rsLast st = Some (r, digestOf c (last es), p) \<and> rsPrevious st = Some (digestOf c (last es)) \<and>
       rsRevision st = r))"
  using assms
proof (induction es arbitrary: st0)
  case (Cons e es)
  obtain st1 where s: "replayEntry c j st0 e = Inr st1" "replayEntries c j st1 es = Inr st"
    using Cons.prems by (auto simp: sbind_Inr_iff)
  show ?case using replayEntry_shape [OF s(1)] Cons.IH [OF s(2)] by (cases "es = []") auto
qed simp

definition anchor_ok :: "DocumentJournalAnchor option \<Rightarrow> replay_state \<Rightarrow> bool" where
  "anchor_ok a st \<longleftrightarrow> copyAnchor a = Inr a \<and>
     (a = anchor_of st \<or>
      (\<exists>r h p. rsLast st = Some (r, h, p) \<and>
         (case a of None \<Rightarrow> r = 1 \<and> p = ZERO | Some x \<Rightarrow> r = anchorRevision x + 1 \<and> p = anchorCommitment x)))"

text \<open>What the durable state satisfies at any moment.\<close>

definition durable_ok ::
    "journal_crypto \<Rightarrow> replay_journal \<Rightarrow> idb \<Rightarrow> anchor_store \<Rightarrow> (string \<Rightarrow> journal_view) \<Rightarrow> replay_state \<Rightarrow> bool" where
  "durable_ok c j D A V st \<longleftrightarrow> idb_represents D V \<and>
     replayEntries c j initialReplay (vEntries (V (storageKey j))) = Inr st \<and>
     last_revision st = vRevision (V (storageKey j)) \<and>
     anchor_ok (jget A (storageKey j)) st \<and> queue_ok c j (rsBindings st) (V (storageKey j))"

lemma durable_view:
  assumes "durable_ok c j D A V st"
  shows "view_ok (V (storageKey j))" "idb_doc D (storageKey j) (V (storageKey j))"
  using assms by (simp_all add: durable_ok_def idb_represents_def)

lemma captureEntries_same:
  "\<forall>e \<in> set es. 1 \<le> length e \<and> int (length e) \<le> MAX_ENTRY + 128 \<Longrightarrow> n + totalBytes es \<le> MAX_DOCUMENT_JOURNAL_BYTES \<Longrightarrow>
    captureEntries n es = Inr es"
proof (induction es arbitrary: n)
  case (Cons e es)
  have "int (length e) \<le> MAX_DOCUMENT_JOURNAL_BYTES - n" using Cons.prems(2) totalBytes_nonneg [of es] by simp
  then have "copyBytes e 1 (min (MAX_ENTRY + 128) (MAX_DOCUMENT_JOURNAL_BYTES - n)) = Inr e"
    using Cons.prems(1) by (intro copyBytes_ok) auto
  moreover have "captureEntries (n + int (length e)) es = Inr es" using Cons.prems by (intro Cons.IH) auto
  ultimately show ?case by simp
qed simp

lemma capture_view:
  assumes d: "durable_ok c j D A V st"
  shows "sbind (store_failure (idbLoadRecoverySnapshot D (storageKey j))) captureJournalSnapshot =
    Inr (vRevision (V (storageKey j)), vEntries (V (storageKey j)), map_option (pendingToken \<circ> fst) (vPending (V (storageKey j))))"
proof -
  let ?v = "V (storageKey j)"
  note ok = durable_view [OF d]
  have replay: "replayEntries c j initialReplay (vEntries ?v) = Inr st" using d by (simp add: durable_ok_def)
  have v: "safe_nat (vRevision ?v)" "\<not> length (vEntries ?v) > MAX_DOCUMENT_JOURNAL_ENTRIES"
    using ok(1) by (auto simp: view_ok_def safe_nat_def MAX_DOCUMENT_JOURNAL_ENTRIES_def)
  have e: "captureEntries 0 (vEntries ?v) = Inr (vEntries ?v)"
    using ok(1) replay_shape [OF replay] by (intro captureEntries_same) (auto simp: view_ok_def)
  have t: "optCheck (\<lambda>t. copyBytes t 32 32) (map_option (pendingToken \<circ> fst) (vPending ?v)) =
      Inr (map_option (pendingToken \<circ> fst) (vPending ?v))"
  proof (cases "vPending ?v")
    case (Some x)
    then have "vPending ?v = Some (fst x, snd x)" by simp
    from pending_ok(2) [OF ok(1) this] show ?thesis using Some by (simp add: optCheck_def copyBytes_ok)
  qed (simp add: optCheck_def)
  show ?thesis using v by (simp add: idb_recovery [OF ok] captureJournalSnapshot_def e t)
qed

lemma anchor_of_ok:
  assumes c: "crypto_ok c" and d: "durable_ok c j D A V st"
  shows "copyAnchor (anchor_of st) = Inr (anchor_of st)"
proof (cases "vEntries (V (storageKey j)) = []")
  case True
  have "replayEntries c j initialReplay (vEntries (V (storageKey j))) = Inr st" using d by (simp add: durable_ok_def)
  then have "st = initialReplay" using True by simp
  then show ?thesis by (simp add: copyAnchor_def anchor_of_def initialReplay_def)
next
  case False
  have r: "replayEntries c j initialReplay (vEntries (V (storageKey j))) = Inr st" using d by (simp add: durable_ok_def)
  obtain r h p where l: "rsLast st = Some (r, h, p)" "h = digestOf c (last (vEntries (V (storageKey j))))"
    using replay_shape [OF r] False by auto
  have "r = vRevision (V (storageKey j))" using d l by (simp add: durable_ok_def last_revision_def)
  then have "1 \<le> r" "r \<le> MAX_SAFE_INTEGER"
    using durable_view(1) [OF d] False by (cases "vEntries (V (storageKey j))"; auto simp: view_ok_def)+
  then show ?thesis using l crypto_facts(3) [OF c] by (simp add: copyAnchor_def anchor_of_def)
qed

lemma restoreBegin_ok:
  assumes c: "crypto_ok c" and d: "durable_ok c j D A V st"
  shows "\<exists>A'. restoreBegin c j D A = (Inr (st, map_option (pendingToken \<circ> fst) (vPending (V (storageKey j)))), A') \<and>
    jget A' (storageKey j) = anchor_of st"
proof -
  let ?k = "storageKey j"
  let ?v = "V ?k"
  let ?t = "map_option (pendingToken \<circ> fst) (vPending ?v)"
  have f: "replayEntries c j initialReplay (vEntries ?v) = Inr st" "last_revision st = vRevision ?v"
    "anchor_ok (jget A ?k) st" using d by (simp_all add: durable_ok_def)
  have load: "anchorLoad A ?k = Inr (jget A ?k)" using f(3) by (simp add: anchorLoad_def anchor_ok_def)
  have read: "sbind (store_failure (idbLoadRecoverySnapshot D ?k)) (\<lambda>loaded.
           sbind (captureJournalSnapshot loaded) (\<lambda>(revision, entries, token).
           sbind (anchorLoad A ?k) (\<lambda>anchored.
           sbind (replayEntries c j initialReplay entries) (\<lambda>st. Inr (revision, token, anchored, st))))) =
      Inr (vRevision ?v, ?t, jget A ?k, st)"
    using capture_view [OF d] load f(1) by (auto simp: sbind_Inr_iff)
  have cp: "copyAnchor (jget A ?k) = Inr (jget A ?k)" "copyAnchor (anchor_of st) = Inr (anchor_of st)"
    using f(3) anchor_of_ok [OF c d] by (simp_all add: anchor_ok_def)
  show ?thesis
  proof (cases "jget A ?k = anchor_of st")
    case True
    have "restoreBegin c j D A = (Inr (st, ?t), A)"
      unfolding restoreBegin_def read sum.case prod.case
      using True f(2) by (auto simp: classifyDocumentJournalRecovery_def anchor_of_def last_revision_def split: option.splits)
    then show ?thesis using True by blast
  next
    case False
    obtain r h p where l: "rsLast st = Some (r, h, p)"
      "case jget A ?k of None \<Rightarrow> r = 1 \<and> p = ZERO | Some x \<Rightarrow> r = anchorRevision x + 1 \<and> p = anchorCommitment x"
      using f(3) False by (auto simp: anchor_ok_def)
    let ?a = "\<lparr>anchorRevision = r, anchorCommitment = h\<rparr>"
    have a: "anchor_of st = Some ?a" "r = vRevision ?v" using l(1) f(2) by (simp_all add: anchor_of_def last_revision_def)
    have cls: "classifyDocumentJournalRecovery (vRevision ?v) (case jget A ?k of None \<Rightarrow> 0 | Some a \<Rightarrow> anchorRevision a)
        (documentJournalAnchorsEqual (jget A ?k) (anchor_of st))
        (documentBytesEqual p (case jget A ?k of None \<Rightarrow> ZERO | Some a \<Rightarrow> anchorCommitment a)) True = RecoveryFinishAnchor"
      using l(2) a(2) False by (auto simp: classifyDocumentJournalRecovery_def documentBytesEqual_def split: option.splits)
    have swap: "anchorCompareAndSwap A ?k (jget A ?k) ?a = Inr (True, jset A ?k ?a)"
      using cp(2) a(1) by (simp add: anchorCompareAndSwap_def)
    have again: "anchorLoad (jset A ?k ?a) ?k = Inr (Some ?a)" using cp(2) a(1) by (simp add: anchorLoad_def jget_jset)
    have "restoreBegin c j D A = (Inr (st, ?t), jset A ?k ?a)"
      unfolding restoreBegin_def read sum.case prod.case l(1) option.case
      unfolding cls DocumentJournalRecovery.case cp prod.case sum.case
      unfolding a(1) option.case swap sum.case prod.case bool.case again
      using a(2) by simp
    then show ?thesis using a(1) by (simp add: jget_jset)
  qed
qed


lemma bound_in_mono: "bound_in L m b \<Longrightarrow> jget L' (token_id b) = jget L (token_id b) \<Longrightarrow> m \<le> m' \<Longrightarrow> bound_in L' m' b"
  by (simp add: bound_in_def)

text \<open>Changing only the staged entry of the document keeps the durable state.\<close>

lemma durable_staged:
  assumes "durable_ok c j D A V st" "idb_represents D' (V(storageKey j := v'))"
    and "vEntries v' = vEntries (V (storageKey j))" "vRevision v' = vRevision (V (storageKey j))"
    "vPublications v' = vPublications (V (storageKey j))"
  shows "durable_ok c j D' A (V(storageKey j := v')) st"
  using assms by (simp add: durable_ok_def queue_ok_def)

lemma idb_step_represents:
  "idb_represents D V \<Longrightarrow> idb_represents (snd (idb_step D e)) (snd (spec_step V e))"
  using idb_simulates by blast

lemma discard_represents:
  assumes "idb_represents D V" "idbDiscard D k t = Inr D'"
  shows "\<exists>v'. idb_represents D' (V(k := v')) \<and> vEntries v' = vEntries (V k) \<and> vRevision v' = vRevision (V k) \<and>
    vPublications v' = vPublications (V k)"
proof -
  have t: "length t = 32" using assms(2) by (auto simp: idbDiscard_def sbind_Inr_iff copyBytes_Inr)
  obtain v' where v': "spec_discard (V k) t = Some v'" using t by (simp add: spec_discard_def)
  have "idb_represents D' (V(k := v'))"
    using idb_step_represents [OF assms(1), of "OpDiscard k t"] assms(2) v' by (simp add: update_out_def spec_update_def)
  then show ?thesis using v' t by (auto simp: spec_discard_def split: if_splits)
qed

lemma discard_succeeds:
  assumes "idb_represents D V" "length t = 32"
  shows "\<exists>D'. idbDiscard D k t = Inr D'"
proof -
  have "idb_doc D k (V k)" "view_ok (V k)" using assms(1) by (simp_all add: idb_represents_def)
  then show ?thesis using idb_discard [of "V k" D k t] assms(2) by (simp add: spec_discard_def)
qed

lemma restoreEnd_ok:
  assumes c: "crypto_ok c" and d: "durable_ok c j D A V st"
  shows "\<exists>j' D' v'. restoreEnd c j D st (map_option (pendingToken \<circ> fst) (vPending (V (storageKey j)))) = (Inr (rsItems st), j', D') \<and>
    durable_ok c j D' A (V(storageKey j := v')) st \<and> vRevision v' = vRevision (V (storageKey j)) \<and>
    same_doc j' j \<and> rjHead j' = anchor_of st \<and> rjAccepted j' = rsBindings st \<and> rjFailed j' = rjFailed j \<and> rjActive j' = rjActive j \<and>
    pending_covers (rjPending j') (rsBindings st) v'"
proof -
  let ?k = "storageKey j"
  let ?t = "map_option (pendingToken \<circ> fst) (vPending (V ?k))"
  let ?r = "case ?t of None \<Rightarrow> Inr D
            | Some t \<Rightarrow> sbind (store_failure (copyBytes t 32 32)) (\<lambda>t. store_failure (idbDiscard D ?k t))"
  have rep: "idb_represents D V" using d by (simp add: durable_ok_def)
  have "\<exists>D' v'. ?r = Inr D' \<and> idb_represents D' (V(?k := v')) \<and> vEntries v' = vEntries (V ?k) \<and>
      vRevision v' = vRevision (V ?k) \<and> vPublications v' = vPublications (V ?k)"
  proof (cases "vPending (V ?k)")
    case None
    then show ?thesis using rep by (intro exI [of _ D] exI [of _ "V ?k"]) simp
  next
    case (Some x)
    then have "vPending (V ?k) = Some (fst x, snd x)" by simp
    then have len: "length (pendingToken (fst x)) = 32" using pending_ok(2) [OF durable_view(1) [OF d]] by blast
    obtain D' where D': "idbDiscard D ?k (pendingToken (fst x)) = Inr D'" using discard_succeeds [OF rep len] by blast
    then show ?thesis using discard_represents [OF rep D'] Some len by (simp add: copyBytes_ok)
  qed
  then obtain D' v' where D': "?r = Inr D'" "idb_represents D' (V(?k := v'))" "vEntries v' = vEntries (V ?k)"
    "vRevision v' = vRevision (V ?k)" "vPublications v' = vPublications (V ?k)" by blast
  have d': "durable_ok c j D' A (V(?k := v')) st" by (rule durable_staged [OF d D'(2-5)])
  have q: "queue_ok c j (rsBindings st) v'" using d' by (simp add: durable_ok_def)
  obtain fs bs where p: "readPublications c j D' (rsBindings st) (vRevision v') = Inr (fs, bs)" "pending_covers bs (rsBindings st) v'"
    using readPublications_ok [OF _ _ q, of D'] durable_view [OF d'] by auto
  have r: "(case rsLast st of None \<Rightarrow> 0 | Some (r, _, _) \<Rightarrow> r) = vRevision v'"
    using d' by (simp add: durable_ok_def last_revision_def)
  let ?j = "j\<lparr>rjAccepted := rsBindings st, rjPending := bs, rjHead := anchor_of st,
        rjEntryCount := int (length (rsItems st)), rjRetainedBytes := rsBytes st, rjOpened := True\<rparr>"
  have "restoreEnd c j D st ?t = (Inr (rsItems st),
      j\<lparr>rjAccepted := rsBindings st, rjPending := bs, rjHead := anchor_of st,
        rjEntryCount := int (length (rsItems st)), rjRetainedBytes := rsBytes st, rjOpened := True\<rparr>, D')"
    unfolding restoreEnd_def D'(1) sum.case r p(1) prod.case by (rule refl)
  then show ?thesis using d' D'(4) p(2)
    by (intro exI [of _ ?j] exI [of _ D'] exI [of _ v'] conjI) (simp_all add: same_doc_def)
qed

lemma anchor_moved:
  assumes "durable_ok c j D A V st" "crypto_ok c" "jget A' (storageKey j) = anchor_of st"
  shows "durable_ok c j D A' V st"
  using assms anchor_of_ok [OF assms(2,1)] by (simp add: durable_ok_def anchor_ok_def)

lemma restore_ok:
  assumes c: "crypto_ok c" and d: "durable_ok c j D A V st" and idle: "\<not> rjFailed j" "\<not> rjActive j"
  shows "\<exists>j' D' A' v'. restore c j D A = (Inr (rsItems st), j', D', A') \<and>
    durable_ok c j D' A' (V(storageKey j := v')) st \<and> same_doc j' j \<and> \<not> rjActive j' \<and>
    rjHead j' = anchor_of st \<and> jget A' (storageKey j) = anchor_of st \<and> rjAccepted j' = rsBindings st \<and>
    pending_covers (rjPending j') (rsBindings st) v'"
proof -
  obtain A' where b: "restoreBegin c j D A = (Inr (st, map_option (pendingToken \<circ> fst) (vPending (V (storageKey j)))), A')"
    "jget A' (storageKey j) = anchor_of st" using restoreBegin_ok [OF c d] by blast
  from restoreEnd_ok [OF c anchor_moved [OF d c b(2)]] show ?thesis
    using b idle unfolding restore_def by auto
qed



section \<open>Preparing an item\<close>

lemma canRetain_loop_iff:
  "canRetainDocumentPublicationBindings_loop L seen ps \<longleftrightarrow>
     (\<forall>p \<in> set ps. jhas L p) \<and> distinct ps \<and> set seen \<inter> set ps = {}"
  by (induction L seen ps rule: canRetainDocumentPublicationBindings_loop.induct) auto

lemma recordBindings_append:
  "recordBindings L (xs @ ys) r cp = sbind (recordBindings L xs r cp) (\<lambda>L'. recordBindings L' ys r cp)"
  by (induction xs arbitrary: L) (simp_all add: Let_def)

text \<open>Retaining the pending bindings gives the ledger that a checkpoint with them is restored to.\<close>

lemma retain_records:
  assumes "\<forall>b \<in> set bs. bound_in L (r - 1) b" "distinct (map token_id bs)" "\<forall>b \<in> set bs. jget res (token_id b) = None"
    "int (jsize res + length bs) \<le> BINDING_LIMIT"
  shows "\<exists>res'. retainDocumentPublicationBindings_loop L res (map token_id bs) = Some res' \<and>
    recordBindings res bs r True = Inr res' \<and>
    (\<forall>b \<in> set bs. jget res' (token_id b) = Some (bindingRevision b)) \<and>
    (\<forall>t. t \<notin> token_id ` set bs \<longrightarrow> jget res' t = jget res t)"
  using assms
proof (induction bs arbitrary: res)
  case (Cons b bs)
  let ?res = "jset res (token_id b) (bindingRevision b)"
  have b: "jget L (token_id b) = Some (bindingRevision b)" "1 \<le> bindingRevision b" "bindingRevision b \<le> r"
    "jget res (token_id b) = None" using Cons.prems(1,3) by (auto simp: bound_in_def)
  have sz: "jsize ?res = Suc (jsize res)" using b(4) by (simp add: jsize_jset jhas_def)
  have fresh: "token_id b \<notin> token_id ` set bs" using Cons.prems(2) by simp
  have none: "\<forall>q \<in> set bs. jget ?res (token_id q) = None"
    using Cons.prems(3) fresh by (auto simp: jget_jset image_iff)
  obtain res' where ih: "retainDocumentPublicationBindings_loop L ?res (map token_id bs) = Some res'"
    "recordBindings ?res bs r True = Inr res'" "\<forall>b \<in> set bs. jget res' (token_id b) = Some (bindingRevision b)"
    "\<forall>t. t \<notin> token_id ` set bs \<longrightarrow> jget res' t = jget ?res t"
    using Cons.IH [of ?res] Cons.prems none sz by auto
  have "canRecordDocumentPublicationBinding res (token_id b) (bindingRevision b) r True BINDING_LIMIT"
    using b Cons.prems(4) by (simp add: canRecordDocumentPublicationBinding_def jhas_def)
  then have "recordBindings res (b # bs) r True = Inr res'"
    using ih(2) by (simp add: token_id_def recordDocumentPublicationBinding_def Let_def)
  moreover have "jget res' (token_id b) = Some (bindingRevision b)" using ih(4) fresh by (simp add: jget_jset)
  ultimately show ?case using ih b(1) by (auto simp: jget_jset)
qed simp

lemma prepareBindings_facts:
  assumes p: "prepareBindings j cp binding r = Inr (bs, cand)"
    and cov: "\<forall>b \<in> set (jvals (rjPending j)). bound_in (rjAccepted j) (r - 1) b" and r: "1 \<le> r"
    and rev: "\<And>b. binding = Some b \<Longrightarrow> bindingRevision b = r"
  shows "cp \<or> length bs \<le> 1" "recordBindings (if cp then [] else rjAccepted j) bs r cp = Inr cand"
    "\<forall>b \<in> set (jvals (rjPending j)). jget cand (token_id b) = Some (bindingRevision b)"
    "binding = Some b \<Longrightarrow> jget (rjAccepted j) (token_id b) = None \<and> jget cand (token_id b) = Some r"
    "\<not> cp \<Longrightarrow> t \<notin> token_id ` set_option binding \<Longrightarrow> jget cand t = jget (rjAccepted j) t"
proof -
  let ?pend = "jvals (rjPending j)" and ?L = "rjAccepted j"
  have tok: "map (\<lambda>b. documentBytesId (bindingToken b)) ?pend = map token_id ?pend" by (simp add: token_id_def)
  obtain c0 where c0: "if cp then canRetainDocumentPublicationBindings ?L (map token_id ?pend) 16 \<and>
      retainDocumentPublicationBindings ?L (map token_id ?pend) = Some c0 else c0 = ?L"
    and new: "case binding of None \<Rightarrow> cand = c0
      | Some b \<Rightarrow> \<not> jhas ?L (token_id b) \<and> canRecordDocumentPublicationBinding c0 (token_id b) r r False BINDING_LIMIT \<and>
          cand = jset c0 (token_id b) r"
    and bs: "bs = (if cp then ?pend @ opt_list binding else opt_list binding)"
    using p unfolding prepareBindings_def Let_def tok
    by (cases binding; cases cp)
      (auto simp: sbind_Inr_iff token_id_def recordDocumentPublicationBinding_def split: if_splits option.splits)
  have retained: "recordBindings [] ?pend r True = Inr c0 \<and> (\<forall>b \<in> set ?pend. jget c0 (token_id b) = Some (bindingRevision b))"
    if cp
  proof -
    have d: "distinct (map token_id ?pend)" "int (length ?pend) \<le> 16"
      using c0 that by (auto simp: canRetainDocumentPublicationBindings_def canRetain_loop_iff split: if_splits)
    have size: "int (jsize ([] :: binding_ledger) + length ?pend) \<le> BINDING_LIMIT"
      using d(2) by (simp add: jsize_def BINDING_LIMIT_def MAX_DOCUMENT_JOURNAL_ENTRIES_def)
    from retain_records [OF cov d(1) _ size] show ?thesis using c0 that by (auto simp: retainDocumentPublicationBindings_def)
  qed
  have old: "\<forall>b \<in> set ?pend. jget c0 (token_id b) = Some (bindingRevision b)"
    using retained c0 cov by (cases cp) (auto simp: bound_in_def)
  show "cp \<or> length bs \<le> 1" using bs by (auto simp: opt_list_def split: option.splits)
  have last: "recordBindings c0 (opt_list binding) r cp = Inr cand"
  proof (cases binding)
    case (Some b)
    then have "canRecordDocumentPublicationBinding c0 (token_id b) (bindingRevision b) r cp BINDING_LIMIT"
      using new rev by (auto simp: canRecordDocumentPublicationBinding_def)
    then show ?thesis using Some new rev by (simp add: opt_list_def token_id_def recordDocumentPublicationBinding_def Let_def)
  qed (use new in \<open>simp add: opt_list_def\<close>)
  show "recordBindings (if cp then [] else ?L) bs r cp = Inr cand"
  proof (cases cp)
    case True
    have "recordBindings [] (?pend @ opt_list binding) r True = Inr cand"
      unfolding recordBindings_append using retained [OF True] last True by simp
    then show ?thesis using bs True by simp
  qed (use bs last c0 in simp)
  have nb: "\<not> jhas ?L (token_id b)" "jget cand (token_id b) = Some r" if "binding = Some b" for b
    using new that by (auto simp: jget_jset)
  show "\<forall>b \<in> set ?pend. jget cand (token_id b) = Some (bindingRevision b)"
  proof
    fix b assume b: "b \<in> set ?pend"
    have "jhas ?L (token_id b)" using cov b by (auto simp: bound_in_def jhas_def)
    then show "jget cand (token_id b) = Some (bindingRevision b)"
      using new old b by (cases binding) (auto simp: jget_jset)
  qed
  show "binding = Some b \<Longrightarrow> jget ?L (token_id b) = None \<and> jget cand (token_id b) = Some r"
    using nb [of b] by (simp add: jhas_def)
  show "\<not> cp \<Longrightarrow> t \<notin> token_id ` set_option binding \<Longrightarrow> jget cand t = jget ?L t"
    using new c0 by (cases binding) (auto simp: jget_jset)
qed


definition parent_of :: "DocumentJournalAnchor option \<Rightarrow> bytes" where
  "parent_of a = (case a of None \<Rightarrow> ZERO | Some x \<Rightarrow> anchorCommitment x)"

text \<open>What the running journal knows, and what it knows about a prepared item.\<close>

definition live_ok ::
    "replay_journal \<Rightarrow> anchor_store \<Rightarrow> journal_view \<Rightarrow> replay_state \<Rightarrow> bool" where
  "live_ok j A v st \<longleftrightarrow> rjHead j = anchor_of st \<and> jget A (storageKey j) = anchor_of st \<and> rjAccepted j = rsBindings st \<and>
     pending_covers (rjPending j) (rsBindings st) v"

definition publication_ready :: "journal_crypto \<Rightarrow> replay_state \<Rightarrow> prepared_journal \<Rightarrow> bool" where
  "publication_ready c st p \<longleftrightarrow>
     (case ppFrame p of
        None \<Rightarrow> ppPublication p = None \<and> ppBinding p = None
      | Some f \<Rightarrow> 1 \<le> length f \<and> int (length f) \<le> 1024 * 1024 \<and>
          ppPublication p = Some \<lparr>stagedId = digestOf c f, stagedBytes = int (length f) + DOCUMENT_PUBLICATION_OVERHEAD\<rparr> \<and>
          (\<exists>b. ppBinding p = Some b \<and> length (bindingToken b) = 32 \<and> bindingRevision b = ppRevision p \<and>
             jget (rsBindings st) (token_id b) = None \<and> jget (ppCandidate p) (token_id b) = Some (ppRevision p)))"

definition prepared_ok ::
    "journal_crypto \<Rightarrow> replay_journal \<Rightarrow> journal_view \<Rightarrow> replay_state \<Rightarrow> prepared_journal \<Rightarrow> bool" where
  "prepared_ok c j v st p \<longleftrightarrow>
     ppRevision p = vRevision v + 1 \<and> vRevision v < MAX_SAFE_INTEGER \<and> ppExpected p = anchor_of st \<and>
     ppPrior p = rsBindings st \<and> ppCheckpoint p = itemCheckpoint (ppItem p) \<and>
     (ppCheckpoint p \<or> length (ppBindings p) \<le> 1) \<and>
     (\<exists>plaintext nonce aad. encodeItem (ppItem p) (ppBindings p) = Inr plaintext \<and> length nonce = 12 \<and>
        entryAAD j (ppRevision p) (ppCheckpoint p) (parent_of (anchor_of st)) = Inr aad \<and>
        encodeEntry (ppRevision p) (ppCheckpoint p) (parent_of (anchor_of st)) nonce (sealWith c nonce aad plaintext) =
          Inr (ppEntry p)) \<and>
     recordBindings (if ppCheckpoint p then [] else rsBindings st) (ppBindings p) (ppRevision p) (ppCheckpoint p) =
       Inr (ppCandidate p) \<and>
     (\<forall>b \<in> set (jvals (rjPending j)). jget (ppCandidate p) (token_id b) = Some (bindingRevision b)) \<and>
     publication_ready c st p"

lemma stage_represents:
  assumes "idb_represents D V" "idbStage D k r t e p cp = Inr D'"
  shows "\<exists>v'. idb_represents D' (V(k := v')) \<and> vEntries v' = vEntries (V k) \<and> vRevision v' = vRevision (V k) \<and>
    vPublications v' = vPublications (V k)"
proof -
  have "idb_doc D k (V k)" "view_ok (V k)" using assms(1) by (simp_all add: idb_represents_def)
  then obtain v' where v': "spec_stage (V k) r t e p cp = Some v'" using idb_stage [of "V k" D k] assms(2) by auto
  have "idb_represents D' (V(k := v'))"
    using idb_step_represents [OF assms(1), of "OpStage k r t e p cp"] assms(2) v' by (simp add: update_out_def spec_update_def)
  then show ?thesis using v' by (auto simp: spec_stage_def split: if_splits)
qed

lemma pending_covers_cong:
  "pending_covers m L v \<Longrightarrow> vRevision v' = vRevision v \<Longrightarrow> vPublications v' = vPublications v \<Longrightarrow> pending_covers m L v'"
  by (simp add: pending_covers_def)

lemma revision_of_live: "live_ok j A v st \<Longrightarrow> revision_of j = last_revision st"
  by (auto simp: live_ok_def revision_of_def last_revision_def anchor_of_def split: option.splits)

lemma prepare_ok:
  assumes d: "durable_ok c j D A V st" and live: "live_ok j A (V (storageKey j)) st"
    and p: "prepare c j D A item rnd = (Inr p, j', D')"
    and rnd: "length (rndBinding rnd) = 32" "length (rndNonce rnd) = 12"
  shows "\<exists>v'. durable_ok c j D' A (V(storageKey j := v')) st \<and> live_ok j' A v' st \<and> prepared_ok c j' v' st p \<and>
    same_doc j' j \<and> rjActive j' \<and> rjOpened j' \<and> \<not> rjFailed j'"
proof -
  let ?k = "storageKey j" and ?r = "revision_of j + 1"
  let ?v = "V ?k"
  let ?b = "map_option (\<lambda>_. \<lparr>bindingToken = rndBinding rnd, bindingRevision = ?r\<rparr>) (outboundFrame item)"
  let ?exp = "anchor_of st"
  have g: "rjOpened j" "\<not> rjFailed j" "revision_of j \<noteq> MAX_SAFE_INTEGER"
    "\<And>f. outboundFrame item = Some f \<Longrightarrow> 1 \<le> length f \<and> int (length f) \<le> 1024 * 1024"
    and body: "prepareBody c j D A item rnd ?exp ?r = Inr (p, D')" and j': "j' = j\<lparr>rjActive := True\<rparr>"
    using p live unfolding prepare_def live_ok_def
    by (auto split: if_splits sum.splits option.splits prod.splits simp: copyAnchor_def Suc_le_eq)
  have rv: "revision_of j = vRevision ?v" using revision_of_live [OF live] d by (simp add: durable_ok_def)
  have vr: "0 \<le> vRevision ?v" "vRevision ?v < MAX_SAFE_INTEGER"
    using view_ok_fields(1,2) [OF durable_view(1) [OF d]] g(3) rv by simp_all
  obtain bs cand plaintext aad entry where
    pb: "prepareBindings j (itemCheckpoint item) ?b ?r = Inr (bs, cand)" and
    e: "encodeItem item bs = Inr plaintext" "entryAAD j ?r (itemCheckpoint item) (parent_of ?exp) = Inr aad"
      "encodeEntry ?r (itemCheckpoint item) (parent_of ?exp) (rndNonce rnd) (sealWith c (rndNonce rnd) aad plaintext) = Inr entry" and
    stg: "idbStage D ?k (case ?exp of None \<Rightarrow> 0 | Some a \<Rightarrow> anchorRevision a) (rndToken rnd) entry
        (map_option (\<lambda>f. \<lparr>stagedId = digestOf c f, stagedBytes = int (length f) + DOCUMENT_PUBLICATION_OVERHEAD\<rparr>) (outboundFrame item))
        (itemCheckpoint item) = Inr D'" and
    pp: "p = \<lparr>ppItem = item, ppBindings = bs, ppRevision = ?r, ppExpected = ?exp, ppToken = rndToken rnd, ppEntry = entry,
        ppCheckpoint = itemCheckpoint item,
        ppPublication = map_option (\<lambda>f. \<lparr>stagedId = digestOf c f, stagedBytes = int (length f) + DOCUMENT_PUBLICATION_OVERHEAD\<rparr>) (outboundFrame item),
        ppFrame = outboundFrame item, ppBinding = ?b, ppPrior = rjAccepted j, ppCandidate = cand\<rparr>"
    using body unfolding prepareBody_def Let_def parent_of_def
    by (auto simp: sbind_Inr_iff split: if_splits)
  have live': "rjAccepted j = rsBindings st" "pending_covers (rjPending j) (rsBindings st) ?v"
    using live by (simp_all add: live_ok_def)
  have cov: "\<forall>b \<in> set (jvals (rjPending j)). bound_in (rjAccepted j) (?r - 1) b"
    using live' rv by (simp add: pending_covers_def)
  have r1: "1 \<le> ?r" using rv vr by simp
  have br: "\<And>b. ?b = Some b \<Longrightarrow> bindingRevision b = ?r" by auto
  note f = prepareBindings_facts [OF pb cov r1 br]
  obtain v' where v': "idb_represents D' (V(?k := v'))" "vEntries v' = vEntries ?v" "vRevision v' = vRevision ?v"
    "vPublications v' = vPublications ?v"
    using stage_represents [OF _ stg] d by (auto simp: durable_ok_def)
  have d': "durable_ok c j D' A (V(?k := v')) st" by (rule durable_staged [OF d v'])
  have sd: "same_doc j' j" using j' by (simp add: same_doc_def)
  have l': "live_ok j' A v' st"
    using live pending_covers_cong [OF live'(2) v'(3,4)] j' by (simp add: live_ok_def storageKey_def)
  have ready: "publication_ready c st p"
    using g(4) f(4) rnd(1) live'(1) unfolding publication_ready_def pp
    by (cases "outboundFrame item") (auto simp: token_id_def)
  have "prepared_ok c j' v' st p"
    unfolding prepared_ok_def same_doc_simps [OF sd] using e rnd(2) f(1-3) ready rv vr v'(3) live'(1)
    by (auto simp: pp j')
  then show ?thesis using d' l' sd j' g by auto
qed



section \<open>Committing an item\<close>

lemma commit_represents:
  assumes "idb_represents D V" "idbCommit D k r t cp a p = Inr D'"
  shows "r = vRevision (V k)" and "idb_represents D' (V(k := \<lparr>vRevision = r + 1, vEntries = (if cp then [a] else vEntries (V k) @ [a]),
     vPublications = vPublications (V k) @ opt_list p, vPending = None\<rparr>))"
proof -
  have "idb_doc D k (V k)" "view_ok (V k)" using assms(1) by (simp_all add: idb_represents_def)
  then obtain v' where v': "spec_commit (V k) r t cp a p = Some v'" using idb_commit [of "V k" D k] assms(2) by auto
  have rep: "idb_represents D' (V(k := v'))"
    using idb_step_represents [OF assms(1), of "OpCommit k r t cp a p"] assms(2) v' by (simp add: update_out_def spec_update_def)
  have "r = vRevision (V k) \<and> v' = \<lparr>vRevision = r + 1, vEntries = (if cp then [a] else vEntries (V k) @ [a]),
     vPublications = vPublications (V k) @ opt_list p, vPending = None\<rparr>"
    using v' by (auto simp: spec_commit_def opt_list_def split: if_splits option.splits)
  then show "r = vRevision (V k)" "idb_represents D' (V(k := \<lparr>vRevision = r + 1, vEntries = (if cp then [a] else vEntries (V k) @ [a]),
     vPublications = vPublications (V k) @ opt_list p, vPending = None\<rparr>))" using rep by simp_all
qed

definition commit_publication ::
    "journal_crypto \<Rightarrow> replay_journal \<Rightarrow> prepared_journal \<Rightarrow> commit_random \<Rightarrow> replay_failure + DocumentJournalPublication option" where
  "commit_publication c j p rnd =
     (case (ppPublication p, ppBinding p, ppFrame p) of
        (Some s, Some b, Some f) \<Rightarrow>
          sbind (binary_failure (sealPublication c j (ppRevision p) (stagedId s) (bindingToken b) f (rndSeal rnd))) (\<lambda>frame.
            Inr (Some \<lparr>pubId = stagedId s, pubFrame = frame\<rparr>))
      | _ \<Rightarrow> Inr None)"

text \<open>The publication that goes out with a commit can be opened after a restart.\<close>

lemma sealed_publication:
  assumes c: "crypto_ok c" and ready: "publication_ready c st p" and rnd: "length (rndSeal rnd) = 12"
    and r: "ppRevision p \<le> MAX_SAFE_INTEGER" and s: "commit_publication c j p rnd = Inr (Some q)"
  shows "\<exists>b. ppBinding p = Some b \<and> pub_binding q = b \<and> sealed_ok c j q \<and> bindingRevision b = ppRevision p \<and>
    jget (rsBindings st) (token_id b) = None \<and> jget (ppCandidate p) (token_id b) = Some (ppRevision p) \<and>
    (\<exists>x. ppPublication p = Some x \<and> stagedId x = pubId q)"
proof -
  obtain f where f: "ppFrame p = Some f" using s ready
    by (cases "ppFrame p") (auto simp: commit_publication_def publication_ready_def)
  obtain b where b: "1 \<le> length f" "int (length f) \<le> 1024 * 1024"
    "ppPublication p = Some \<lparr>stagedId = digestOf c f, stagedBytes = int (length f) + DOCUMENT_PUBLICATION_OVERHEAD\<rparr>"
    "ppBinding p = Some b" "length (bindingToken b) = 32" "bindingRevision b = ppRevision p"
    "jget (rsBindings st) (token_id b) = None" "jget (ppCandidate p) (token_id b) = Some (ppRevision p)"
    using ready f by (auto simp: publication_ready_def)
  obtain aad frame where a: "publicationAAD j (ppRevision p) (digestOf c f) (bindingToken b) = Inr aad"
    "encodePublication (ppRevision p) (bindingToken b) (rndSeal rnd) (sealWith c (rndSeal rnd) aad f) = Inr frame"
    "q = \<lparr>pubId = digestOf c f, pubFrame = frame\<rparr>"
    using s b f by (auto simp: commit_publication_def sealPublication_def sbind_Inr_iff)
  have d: "decodePublication frame = Inr (ppRevision p, bindingToken b, rndSeal rnd, sealWith c (rndSeal rnd) aad f)"
    by (rule publication_roundtrip [OF a(2) b(5) rnd r])
  have "pub_binding q = b" using d b(6) by (simp add: a(3) pub_binding_def)
  moreover have "sealed_ok c j q" unfolding sealed_ok_def a(3) using d a(1) b(1,2) crypto_facts(1) [OF c rnd] by simp
  ultimately show ?thesis using b a(3) by simp
qed

lemma commitStore_Inr:
  "commitStore c j D p rnd = Inr (accepted, commitment, D') \<longleftrightarrow>
     (\<exists>q. createAcceptedEntry c j (ppRevision p) (ppEntry p) (rndAccept rnd) = Inr accepted \<and>
        commit_publication c j p rnd = Inr q \<and> commitment = digestOf c accepted \<and>
        idbCommit D (storageKey j) (case ppExpected p of None \<Rightarrow> 0 | Some a \<Rightarrow> anchorRevision a) (ppToken p) (ppCheckpoint p)
          accepted q = Inr D')"
  unfolding commitStore_def commit_publication_def [symmetric] by (auto simp: sbind_Inr_iff)

lemma commit_replays:
  assumes c: "crypto_ok c" and d: "durable_ok c j D A V st" and p: "prepared_ok c j (V (storageKey j)) st p"
    and acc: "createAcceptedEntry c j (ppRevision p) (ppEntry p) nonce = Inr accepted" and nonce: "length nonce = 12"
  shows "\<exists>st'. replayEntries c j initialReplay (if ppCheckpoint p then [accepted] else vEntries (V (storageKey j)) @ [accepted]) = Inr st' \<and>
    rsItems st' = logged p (rsItems st) \<and> rsBindings st' = ppCandidate p \<and>
    rsLast st' = Some (ppRevision p, digestOf c accepted, parent_of (anchor_of st))"
proof -
  let ?v = "V (storageKey j)" and ?i = "ppItem p" and ?bs = "ppBindings p"
  obtain plaintext n aad where e: "encodeItem ?i ?bs = Inr plaintext" "length n = 12"
      "entryAAD j (ppRevision p) (itemCheckpoint ?i) (parent_of (anchor_of st)) = Inr aad"
      "encodeEntry (ppRevision p) (itemCheckpoint ?i) (parent_of (anchor_of st)) n (sealWith c n aad plaintext) = Inr (ppEntry p)"
    and cp: "ppCheckpoint p = itemCheckpoint ?i" "itemCheckpoint ?i \<or> length ?bs \<le> 1"
    and rev: "ppRevision p = vRevision ?v + 1" "vRevision ?v < MAX_SAFE_INTEGER"
    and led: "recordBindings (if ppCheckpoint p then [] else rsBindings st) ?bs (ppRevision p) (itemCheckpoint ?i) = Inr (ppCandidate p)"
    using p by (auto simp: prepared_ok_def)
  have replay: "replayEntries c j initialReplay (vEntries ?v) = Inr st" "last_revision st = vRevision ?v"
    using d by (simp_all add: durable_ok_def)
  have r: "1 \<le> ppRevision p" "ppRevision p \<le> MAX_SAFE_INTEGER"
    using rev view_ok_fields(1) [OF durable_view(1) [OF d]] by simp_all
  have len: "length (parent_of (anchor_of st)) = 32"
    using anchor_of_ok [OF c d]
    by (auto simp: parent_of_def ZERO_def copyAnchor_def split: option.splits if_splits)
  let ?st = "if ppCheckpoint p then initialReplay else st"
  have link: "case rsPrevious ?st of None \<Rightarrow> itemCheckpoint ?i \<or> (ppRevision p = 1 \<and> parent_of (anchor_of st) = ZERO)
      | Some h \<Rightarrow> parent_of (anchor_of st) = h \<and> ppRevision p = rsRevision ?st + 1 \<and> \<not> itemCheckpoint ?i"
  proof (cases "ppCheckpoint p")
    case True
    then show ?thesis using cp by (simp add: initialReplay_def)
  next
    case False
    then show ?thesis
      using replay_shape [OF replay(1)] replay(2) rev(1) cp(1)
      by (cases "vEntries ?v = []")
        (auto simp: initialReplay_def anchor_of_def parent_of_def last_revision_def)
  qed
  have led': "recordBindings (rsBindings ?st) ?bs (ppRevision p) (itemCheckpoint ?i) = Inr (ppCandidate p)"
    using led by (cases "ppCheckpoint p") (simp_all add: initialReplay_def)
  have one: "replayEntry c j ?st accepted = Inr \<lparr>rsPrevious = Some (digestOf c accepted), rsRevision = ppRevision p,
      rsItems = rsItems ?st @ [stored ?i ?bs], rsBindings = ppCandidate p,
      rsLast = Some (ppRevision p, digestOf c accepted, parent_of (anchor_of st)),
      rsBytes = rsBytes ?st + int (length accepted)\<rparr>"
    by (rule accepted_entry_replays(1) [OF c r e(1) cp(2) len e(2) nonce e(3,4) acc link led'])
  show ?thesis
  proof (cases "ppCheckpoint p")
    case True
    then show ?thesis using one by (simp add: logged_def initialReplay_def)
  next
    case False
    then show ?thesis using one replay(1) by (simp add: logged_def replayEntries_append)
  qed
qed


definition pending_after :: "replay_journal \<Rightarrow> prepared_journal \<Rightarrow> (string, PublicationBinding) jsmap" where
  "pending_after j p = (case (ppPublication p, ppBinding p) of
      (Some s, Some b) \<Rightarrow> jset (rjPending j) (documentBytesId (stagedId s)) b
    | _ \<Rightarrow> rjPending j)"

lemma commit_queue:
  assumes c: "crypto_ok c" and q: "queue_ok c j (rsBindings st) v" and cov: "pending_covers (rjPending j) (rsBindings st) v"
    and p: "prepared_ok c j v st p" and rnd: "length (rndSeal rnd) = 12"
    and pub: "commit_publication c j p rnd = Inr x"
    and v': "vRevision v' = vRevision v + 1" "vPublications v' = vPublications v @ opt_list x"
    and ids: "distinct (map pubId (vPublications v'))" and nonneg: "0 \<le> vRevision v"
  shows "queue_ok c j (ppCandidate p) v'" and "pending_covers (pending_after j p) (ppCandidate p) v'"
proof -
  have r: "ppRevision p = vRevision v + 1" "ppRevision p \<le> MAX_SAFE_INTEGER" and ready: "publication_ready c st p"
    and keep: "\<forall>b \<in> set (jvals (rjPending j)). jget (ppCandidate p) (token_id b) = Some (bindingRevision b)"
    using p by (auto simp: prepared_ok_def)
  have old: "sealed_ok c j y \<and> bound_in (ppCandidate p) (vRevision v') (pub_binding y) \<and>
      jget (rjPending j) (documentBytesId (pubId y)) = Some (pub_binding y) \<and> jget (rsBindings st) (token_id (pub_binding y)) \<noteq> None"
    if "y \<in> set (vPublications v)" for y
  proof -
    have y: "jget (rjPending j) (documentBytesId (pubId y)) = Some (pub_binding y)" "sealed_ok c j y"
      "bound_in (rsBindings st) (vRevision v) (pub_binding y)"
      using that q cov by (auto simp: queue_ok_def pending_covers_def)
    then show ?thesis using keep jget_jvals [OF y(1)] v'(1) by (auto simp: bound_in_def)
  qed
  have toks: "distinct (map (bindingToken \<circ> pub_binding) (vPublications v))" using q by (simp add: queue_ok_def)
  have vals: "bound_in (ppCandidate p) (vRevision v') b" if "b \<in> set (jvals (rjPending j))" for b
    using that keep cov v'(1) by (auto simp: bound_in_def pending_covers_def)
  show "queue_ok c j (ppCandidate p) v'" "pending_covers (pending_after j p) (ppCandidate p) v'"
  proof (atomize(full), cases x)
    case None
    have "ppPublication p = None \<or> ppBinding p = None"
      using pub None ready by (auto simp: commit_publication_def publication_ready_def sbind_Inr_iff split: option.splits)
    then have "pending_after j p = rjPending j" by (auto simp: pending_after_def split: option.splits)
    moreover have "vPublications v' = vPublications v" using None v'(2) by (simp add: opt_list_def)
    ultimately show "queue_ok c j (ppCandidate p) v' \<and> pending_covers (pending_after j p) (ppCandidate p) v'"
      using old toks vals by (simp add: queue_ok_def pending_covers_def)
  next
    case (Some y)
    obtain b z where b: "ppBinding p = Some b" "pub_binding y = b" "sealed_ok c j y" "bindingRevision b = ppRevision p"
      "jget (rsBindings st) (token_id b) = None" "jget (ppCandidate p) (token_id b) = Some (ppRevision p)"
      "ppPublication p = Some z" "stagedId z = pubId y"
      using sealed_publication [OF c ready rnd r(2) pub [unfolded Some]] by blast
    have pubs: "vPublications v' = vPublications v @ [y]" using Some v'(2) by (simp add: opt_list_def)
    have nb: "bound_in (ppCandidate p) (vRevision v') b"
      using b(4,6) r(1) nonneg v'(1) by (simp add: bound_in_def)
    have new: "bindingToken b \<notin> (\<lambda>w. bindingToken (pub_binding w)) ` set (vPublications v)"
    proof
      assume "bindingToken b \<in> (\<lambda>w. bindingToken (pub_binding w)) ` set (vPublications v)"
      then obtain w where w: "w \<in> set (vPublications v)" "token_id (pub_binding w) = token_id b" by (auto simp: token_id_def)
      then show False using old [OF w(1)] b(5) by simp
    qed
    have "pubId y \<notin> pubId ` set (vPublications v)" using ids pubs by simp
    then have other: "documentBytesId (pubId w) \<noteq> documentBytesId (pubId y)" if "w \<in> set (vPublications v)" for w
      using that by (auto simp: image_iff)
    have after: "pending_after j p = jset (rjPending j) (documentBytesId (pubId y)) b"
      using b by (simp add: pending_after_def)
    have "queue_ok c j (ppCandidate p) v'"
      using old toks new b(2,3) nb by (simp add: queue_ok_def pubs comp_def)
    moreover have "pending_covers (pending_after j p) (ppCandidate p) v'"
      using old other vals nb b(2) set_jvals_jset [of "rjPending j" "documentBytesId (pubId y)" b]
      by (auto simp: pending_covers_def pubs after jget_jset)
    ultimately show "queue_ok c j (ppCandidate p) v' \<and> pending_covers (pending_after j p) (ppCandidate p) v'" by blast
  qed
qed

lemma commitStore_ok:
  assumes c: "crypto_ok c" and d: "durable_ok c j D A V st" and live: "live_ok j A (V (storageKey j)) st"
    and p: "prepared_ok c j (V (storageKey j)) st p"
    and s: "commitStore c j D p rnd = Inr (accepted, commitment, D')" and rnd: "length (rndAccept rnd) = 12" "length (rndSeal rnd) = 12"
  shows "\<exists>v' st'. durable_ok c j D' A (V(storageKey j := v')) st' \<and> rsItems st' = logged p (rsItems st) \<and>
    anchor_of st' = Some \<lparr>anchorRevision = ppRevision p, anchorCommitment = commitment\<rparr> \<and> rsBindings st' = ppCandidate p \<and>
    pending_covers (pending_after j p) (ppCandidate p) v'"
proof -
  let ?k = "storageKey j"
  let ?v = "V ?k"
  obtain x where acc: "createAcceptedEntry c j (ppRevision p) (ppEntry p) (rndAccept rnd) = Inr accepted"
    and pub: "commit_publication c j p rnd = Inr x" and com: "commitment = digestOf c accepted"
    and cm: "idbCommit D ?k (case ppExpected p of None \<Rightarrow> 0 | Some a \<Rightarrow> anchorRevision a) (ppToken p) (ppCheckpoint p) accepted x = Inr D'"
    using s by (auto simp: commitStore_Inr)
  have rep: "idb_represents D V" and q: "queue_ok c j (rsBindings st) ?v" and lr: "last_revision st = vRevision ?v"
    and cov: "pending_covers (rjPending j) (rsBindings st) ?v" and anc: "jget A ?k = anchor_of st"
    using d live by (simp_all add: durable_ok_def live_ok_def)
  have r: "ppRevision p = vRevision ?v + 1" using p by (simp add: prepared_ok_def)
  let ?v' = "\<lparr>vRevision = ppRevision p, vEntries = (if ppCheckpoint p then [accepted] else vEntries ?v @ [accepted]),
     vPublications = vPublications ?v @ opt_list x, vPending = None\<rparr>"
  note cr = commit_represents [OF rep cm]
  have rep': "idb_represents D' (V(?k := ?v'))" using cr r by simp
  obtain st' where st': "replayEntries c j initialReplay (vEntries ?v') = Inr st'" "rsItems st' = logged p (rsItems st)"
    "rsBindings st' = ppCandidate p" "rsLast st' = Some (ppRevision p, commitment, parent_of (anchor_of st))"
    using commit_replays [OF c d p acc rnd(1)] com by auto
  have "view_ok ((V(?k := ?v')) ?k)" using rep' unfolding idb_represents_def by blast
  then have ids: "distinct (map pubId (vPublications ?v'))" by (simp add: view_ok_def)
  have v1: "vRevision ?v' = vRevision ?v + 1" "vPublications ?v' = vPublications ?v @ opt_list x" using r by simp_all
  note queue = commit_queue [OF c q cov p rnd(2) pub v1 ids view_ok_fields(1) [OF durable_view(1) [OF d]]]
  have a': "anchor_of st' = Some \<lparr>anchorRevision = ppRevision p, anchorCommitment = commitment\<rparr>"
    using st'(4) by (simp add: anchor_of_def)
  have "anchor_ok (jget A ?k) st'"
    using anchor_of_ok [OF c d] anc st'(4) r lr
    by (auto simp: anchor_ok_def anchor_of_def last_revision_def parent_of_def split: option.splits)
  moreover have "last_revision st' = ppRevision p" using st'(4) by (simp add: last_revision_def)
  ultimately have "durable_ok c j D' A (V(?k := ?v')) st'"
    using rep' st'(1,3) queue(1) by (simp add: durable_ok_def)
  then show ?thesis using st'(2,3) a' queue(2) by blast
qed

lemma commitAnchor_anchor:
  assumes "commitAnchor c j D A p commitment = (r, A')" and live: "jget A (storageKey j) = ppExpected p"
  shows "A' = A \<or> jget A' (storageKey j) = Some \<lparr>anchorRevision = ppRevision p, anchorCommitment = commitment\<rparr>"
    and "r = Inr new \<Longrightarrow> new = \<lparr>anchorRevision = ppRevision p, anchorCommitment = commitment\<rparr> \<and>
      jget A' (storageKey j) = Some new"
  using assms
  by (auto simp: commitAnchor_def Let_def anchorCompareAndSwap_def copyAnchor_def anchorLoad_def jget_jset
      split: sum.splits prod.splits option.splits if_splits bool.splits)



section \<open>Runs\<close>

definition world_ok :: "journal_crypto \<Rightarrow> replay_journal \<Rightarrow> world \<Rightarrow> bool" where
  "world_ok c j0 w \<longleftrightarrow> same_doc (wJournal w) j0 \<and>
     (\<exists>V st. durable_ok c j0 (wStore w) (wAnchors w) V st \<and> rsItems st = wLog w \<and>
       (rjOpened (wJournal w) \<and> \<not> rjFailed (wJournal w) \<longrightarrow> live_ok (wJournal w) (wAnchors w) (V (storageKey j0)) st) \<and>
       (\<forall>p. wPrepared w = Some p \<longrightarrow> rjOpened (wJournal w) \<and> \<not> rjFailed (wJournal w) \<and> rjActive (wJournal w) \<and>
          prepared_ok c (wJournal w) (V (storageKey j0)) st p))"

lemma world_okI:
  assumes "same_doc (wJournal w) j0" "durable_ok c j0 (wStore w) (wAnchors w) V st" "rsItems st = wLog w"
    "rjOpened (wJournal w) \<Longrightarrow> \<not> rjFailed (wJournal w) \<Longrightarrow> live_ok (wJournal w) (wAnchors w) (V (storageKey j0)) st"
    "\<And>p. wPrepared w = Some p \<Longrightarrow> rjOpened (wJournal w) \<and> \<not> rjFailed (wJournal w) \<and> rjActive (wJournal w) \<and>
          prepared_ok c (wJournal w) (V (storageKey j0)) st p"
  shows "world_ok c j0 w"
  using assms unfolding world_ok_def by blast

lemma world_okE:
  assumes "world_ok c j0 w"
  obtains V st where "same_doc (wJournal w) j0" "durable_ok c j0 (wStore w) (wAnchors w) V st" "rsItems st = wLog w"
    "rjOpened (wJournal w) \<Longrightarrow> \<not> rjFailed (wJournal w) \<Longrightarrow> live_ok (wJournal w) (wAnchors w) (V (storageKey j0)) st"
    "\<And>p. wPrepared w = Some p \<Longrightarrow> rjOpened (wJournal w) \<and> \<not> rjFailed (wJournal w) \<and> rjActive (wJournal w) \<and>
          prepared_ok c (wJournal w) (V (storageKey j0)) st p"
  using assms unfolding world_ok_def by blast

lemma same_doc_durable: "same_doc j j' \<Longrightarrow> durable_ok c j = durable_ok c j'"
proof (intro ext)
  fix D A V st
  assume s: "same_doc j j'"
  have "sealed_ok c j p = sealed_ok c j' p" for p by (simp only: sealed_ok_def same_doc_simps [OF s])
  then show "durable_ok c j D A V st = durable_ok c j' D A V st"
    by (simp only: durable_ok_def queue_ok_def same_doc_simps [OF s] same_doc_replay [OF s])
qed

lemma same_doc_sym: "same_doc a b \<Longrightarrow> same_doc b a"
  by (simp add: same_doc_def)

lemma same_doc_trans: "same_doc a b \<Longrightarrow> same_doc b d \<Longrightarrow> same_doc a d"
  by (simp add: same_doc_def)

lemma live_cong:
  "live_ok j A v st \<Longrightarrow> rjHead j' = rjHead j \<Longrightarrow> rjAccepted j' = rjAccepted j \<Longrightarrow> rjPending j' = rjPending j \<Longrightarrow>
    same_doc j' j \<Longrightarrow> live_ok j' A v st"
  by (simp add: live_ok_def same_doc_simps(1))

lemma step_restore:
  assumes c: "crypto_ok c" and w: "world_ok c j0 w"
  shows "world_ok c j0 (world_step c j0 w EvRestore)"
proof (cases "rjFailed (wJournal w) \<or> rjActive (wJournal w)")
  case True
  then show ?thesis using w by (simp add: restore_def)
next
  case False
  obtain V st where i: "same_doc (wJournal w) j0" "durable_ok c j0 (wStore w) (wAnchors w) V st" "rsItems st = wLog w"
    and none: "wPrepared w = None"
    by (rule world_okE [OF w]) (use False in auto)
  note k = same_doc_simps(1) [OF i(1)]
  have d: "durable_ok c (wJournal w) (wStore w) (wAnchors w) V st" using i(2) same_doc_durable [OF i(1)] by simp
  obtain j' D' A' v' where r: "restore c (wJournal w) (wStore w) (wAnchors w) = (Inr (rsItems st), j', D', A')"
    "durable_ok c (wJournal w) D' A' (V(storageKey j0 := v')) st" "same_doc j' (wJournal w)"
    "rjHead j' = anchor_of st" "jget A' (storageKey j0) = anchor_of st" "rjAccepted j' = rsBindings st"
    "pending_covers (rjPending j') (rsBindings st) v'"
    using restore_ok [OF c d] False k by auto
  have s: "same_doc j' j0" by (rule same_doc_trans [OF r(3) i(1)])
  show ?thesis
    by (rule world_okI [where V = "V(storageKey j0 := v')" and st = st])
      (use r s i none same_doc_durable [OF i(1)] same_doc_simps(1) [OF s] in \<open>simp_all add: live_ok_def\<close>)
qed

lemma step_crash:
  assumes w: "world_ok c j0 w" and j0: "\<not> rjOpened j0"
  shows "world_ok c j0 (w\<lparr>wJournal := j0, wPrepared := None\<rparr>)"
  by (rule world_okE [OF w], rule world_okI) (use j0 in \<open>auto simp: same_doc_def\<close>)

lemma step_restore_crash:
  assumes c: "crypto_ok c" and w: "world_ok c j0 w" and j0: "\<not> rjOpened j0"
  shows "world_ok c j0 (world_step c j0 w EvRestoreCrash)"
proof -
  obtain V st where i: "same_doc (wJournal w) j0" "durable_ok c j0 (wStore w) (wAnchors w) V st" "rsItems st = wLog w"
    by (rule world_okE [OF w])
  have d: "durable_ok c (wJournal w) (wStore w) (wAnchors w) V st" using i(2) same_doc_durable [OF i(1)] by simp
  obtain A' where "snd (restoreBegin c (wJournal w) (wStore w) (wAnchors w)) = A'" "jget A' (storageKey j0) = anchor_of st"
    using restoreBegin_ok [OF c d] same_doc_simps(1) [OF i(1)] by auto
  then have "world_ok c j0 (w\<lparr>wAnchors := snd (restoreBegin c (wJournal w) (wStore w) (wAnchors w)), wJournal := j0, wPrepared := None\<rparr>)"
    using i j0 anchor_moved [OF i(2) c, of A'] by (intro world_okI [where V = V and st = st]) (auto simp: same_doc_def)
  then show ?thesis using step_crash [OF w j0] by simp
qed

lemma step_prepare:
  assumes c: "crypto_ok c" and w: "world_ok c j0 w" and legal: "legal_event (EvPrepare item rnd)"
  shows "world_ok c j0 (world_step c j0 w (EvPrepare item rnd))"
proof -
  obtain V st where i: "same_doc (wJournal w) j0" "durable_ok c j0 (wStore w) (wAnchors w) V st" "rsItems st = wLog w"
    and live: "rjOpened (wJournal w) \<and> \<not> rjFailed (wJournal w) \<longrightarrow> live_ok (wJournal w) (wAnchors w) (V (storageKey j0)) st"
    and prep: "\<forall>p. wPrepared w = Some p \<longrightarrow> rjOpened (wJournal w) \<and> \<not> rjFailed (wJournal w) \<and> rjActive (wJournal w) \<and>
          prepared_ok c (wJournal w) (V (storageKey j0)) st p"
    using w unfolding world_ok_def by blast
  note k = same_doc_simps(1) [OF i(1)]
  obtain r j' D' where p: "prepare c (wJournal w) (wStore w) (wAnchors w) item rnd = (r, j', D')"
    by (cases "prepare c (wJournal w) (wStore w) (wAnchors w) item rnd")
  show ?thesis
  proof (cases r)
    case (Inr q)
    have open': "rjOpened (wJournal w)" "\<not> rjFailed (wJournal w)"
      using p Inr by (auto simp: prepare_def split: if_splits option.splits sum.splits prod.splits)
    have d: "durable_ok c (wJournal w) (wStore w) (wAnchors w) V st" using i(2) same_doc_durable [OF i(1)] by simp
    have l: "live_ok (wJournal w) (wAnchors w) (V (storageKey (wJournal w))) st" using live open' k by simp
    obtain v' where v': "durable_ok c (wJournal w) D' (wAnchors w) (V(storageKey j0 := v')) st" "live_ok j' (wAnchors w) v' st"
      "prepared_ok c j' v' st q" "same_doc j' (wJournal w)" "rjActive j'" "rjOpened j'" "\<not> rjFailed j'"
      using prepare_ok [OF d l p [unfolded Inr]] legal k by auto
    show ?thesis
      by (rule world_okI [where V = "V(storageKey j0 := v')" and st = st])
        (use v' i p Inr same_doc_durable [OF i(1)] same_doc_trans [OF v'(4) i(1)] in simp_all)
  next
    case (Inl e)
    have "D' = wStore w \<and> (j' = wJournal w \<or> (\<not> rjActive (wJournal w) \<and> rjOpened (wJournal w) \<and> \<not> rjFailed (wJournal w) \<and>
        rjHead j' = rjHead (wJournal w) \<and> rjAccepted j' = rjAccepted (wJournal w) \<and> rjPending j' = rjPending (wJournal w) \<and>
        same_doc j' (wJournal w)))"
      using p Inl by (auto simp: prepare_def same_doc_def split: if_splits option.splits sum.splits prod.splits)
    then show ?thesis using p Inl w prep live i
      by (auto intro!: world_okI [where V = V and st = st] intro: live_cong same_doc_trans)
  qed
qed


lemma commit_parts:
  assumes c: "crypto_ok c" and w: "world_ok c j0 w" and p: "wPrepared w = Some p"
    and rnd: "length (rndAccept rnd) = 12" "length (rndSeal rnd) = 12"
    and s: "commitStore c (wJournal w) (wStore w) p rnd = Inr (accepted, commitment, D')"
  shows "\<exists>V st'. durable_ok c j0 D' (wAnchors w) V st' \<and> rsItems st' = log_after c w p rnd \<and>
    anchor_of st' = Some \<lparr>anchorRevision = ppRevision p, anchorCommitment = commitment\<rparr> \<and> rsBindings st' = ppCandidate p \<and>
    pending_covers (pending_after (wJournal w) p) (ppCandidate p) (V (storageKey j0)) \<and> ppExpected p = jget (wAnchors w) (storageKey j0)"
proof -
  obtain V st where i: "same_doc (wJournal w) j0" "durable_ok c j0 (wStore w) (wAnchors w) V st" "rsItems st = wLog w"
    and live: "live_ok (wJournal w) (wAnchors w) (V (storageKey j0)) st" and prep: "prepared_ok c (wJournal w) (V (storageKey j0)) st p"
    using w p unfolding world_ok_def by blast
  note k = same_doc_simps(1) [OF i(1)] and sd = same_doc_durable [OF i(1)]
  have "durable_ok c (wJournal w) (wStore w) (wAnchors w) V st" using i(2) sd by simp
  from commitStore_ok [OF c this _ _ s rnd] obtain v' st' where
    "durable_ok c (wJournal w) D' (wAnchors w) (V(storageKey j0 := v')) st'" "rsItems st' = logged p (rsItems st)"
    "anchor_of st' = Some \<lparr>anchorRevision = ppRevision p, anchorCommitment = commitment\<rparr>" "rsBindings st' = ppCandidate p"
    "pending_covers (pending_after (wJournal w) p) (ppCandidate p) v'"
    using live prep k by auto
  then show ?thesis using sd i(3) s live prep k
    by (intro exI [of _ "V(storageKey j0 := v')"] exI [of _ st']) (simp add: log_after_def live_ok_def prepared_ok_def)
qed

lemma step_commit_crash:
  assumes c: "crypto_ok c" and w: "world_ok c j0 w" and j0: "\<not> rjOpened j0" and legal: "legal_event (EvCommitCrash rnd)"
  shows "world_ok c j0 (world_step c j0 w (EvCommitCrash rnd))"
proof (cases "wPrepared w")
  case None
  have "world_step c j0 w (EvCommitCrash rnd) = w\<lparr>wJournal := j0, wPrepared := None\<rparr>" using None by (cases w) simp
  then show ?thesis using step_crash [OF w j0] by (simp only:)
next
  case (Some p)
  show ?thesis
  proof (cases "commitStore c (wJournal w) (wStore w) p rnd")
    case (Inl e)
    then have "world_step c j0 w (EvCommitCrash rnd) = w\<lparr>wJournal := j0, wPrepared := None\<rparr>"
      using Some by (simp add: log_after_def)
    then show ?thesis using step_crash [OF w j0] by simp
  next
    case (Inr x)
    obtain accepted commitment D' where x: "x = (accepted, commitment, D')" by (cases x)
    obtain V st' where "durable_ok c j0 D' (wAnchors w) V st'" "rsItems st' = log_after c w p rnd"
      using commit_parts [OF c w Some _ _ Inr [unfolded x]] legal by auto
    then show ?thesis using Some Inr x j0 by (intro world_okI [where V = V and st = st']) (auto simp: same_doc_def)
  qed
qed

lemma step_commit:
  assumes c: "crypto_ok c" and w: "world_ok c j0 w" and legal: "legal_event (EvCommit rnd)"
  shows "world_ok c j0 (world_step c j0 w (EvCommit rnd))"
proof (cases "wPrepared w")
  case None
  then show ?thesis using w by simp
next
  case (Some p)
  have doc: "same_doc (wJournal w) j0" using w by (simp add: world_ok_def)
  note k = same_doc_simps(1) [OF doc]
  obtain r j' D' A' where cm: "commitPrepared c (wJournal w) (wStore w) (wAnchors w) p rnd = (r, j', D', A')"
    by (cases "commitPrepared c (wJournal w) (wStore w) (wAnchors w) p rnd")
  have j': "same_doc j' j0"
    using cm doc by (auto simp: commitPrepared_def Let_def same_doc_def split: sum.splits prod.splits)
  have w': "world_step c j0 w (EvCommit rnd) =
      w\<lparr>wStore := D', wAnchors := A', wJournal := j', wPrepared := None, wLog := log_after c w p rnd\<rparr>"
    using Some cm by simp
  show ?thesis
  proof (cases "commitStore c (wJournal w) (wStore w) p rnd")
    case (Inl e)
    obtain V st where i: "durable_ok c j0 (wStore w) (wAnchors w) V st" "rsItems st = wLog w"
      using w unfolding world_ok_def by blast
    have "D' = wStore w" "A' = wAnchors w" "rjFailed j'" "log_after c w p rnd = wLog w"
      using cm Inl by (auto simp: commitPrepared_def Let_def log_after_def)
    then show ?thesis unfolding w' using i j' by (intro world_okI [where V = V and st = st]) simp_all
  next
    case (Inr x)
    obtain accepted commitment D2 where x: "x = (accepted, commitment, D2)" by (cases x)
    obtain V st' where b: "durable_ok c j0 D2 (wAnchors w) V st'" "rsItems st' = log_after c w p rnd"
      "anchor_of st' = Some \<lparr>anchorRevision = ppRevision p, anchorCommitment = commitment\<rparr>" "rsBindings st' = ppCandidate p"
      "pending_covers (pending_after (wJournal w) p) (ppCandidate p) (V (storageKey j0))" "ppExpected p = jget (wAnchors w) (storageKey j0)"
      using commit_parts [OF c w Some _ _ Inr [unfolded x]] legal by auto
    obtain r2 A2 where ca: "commitAnchor c (wJournal w) D2 (wAnchors w) p commitment = (r2, A2)"
      by (cases "commitAnchor c (wJournal w) D2 (wAnchors w) p commitment")
    note an = commitAnchor_anchor [OF ca] 
    have D': "D' = D2" "A' = A2" using cm Inr x ca by (auto simp: commitPrepared_def Let_def split: sum.splits)
    have dur: "durable_ok c j0 D2 A2 V st'"
    proof (cases "A2 = wAnchors w")
      case False
      then have "jget A2 (storageKey j0) = anchor_of st'" using an(1) b(3,6) k by auto
      then show ?thesis by (rule anchor_moved [OF b(1) c])
    qed (use b(1) in simp)
    have live: "live_ok j' A2 (V (storageKey j0)) st'" if "\<not> rjFailed j'"
    proof (cases r2)
      case (Inl e)
      then have "rjFailed j'" using cm Inr x ca by (auto simp: commitPrepared_def Let_def)
      then show ?thesis using that by contradiction
    next
      case (Inr new)
      have n: "Some new = anchor_of st'" "jget A2 (storageKey j0) = Some new" using an(2) [OF _ Inr] b(3,6) k by auto
      have "rjHead j' = Some new" "rjAccepted j' = ppCandidate p" "rjPending j' = pending_after (wJournal w) p"
        using cm \<open>commitStore c (wJournal w) (wStore w) p rnd = Inr x\<close> x ca Inr
        by (auto simp: commitPrepared_def Let_def selectDocumentPublicationBindings_def pending_after_def)
      then show ?thesis using n b(4,5) same_doc_simps(1) [OF j'] by (simp add: live_ok_def)
    qed
    show ?thesis unfolding w' using dur b(2) j' D' live by (intro world_okI [where V = V and st = st']) simp_all
  qed
qed

lemma step_discard:
  assumes w: "world_ok c j0 w"
  shows "world_ok c j0 (world_step c j0 w EvDiscard)"
proof (cases "wPrepared w")
  case (Some p)
  obtain V st where i: "same_doc (wJournal w) j0" "durable_ok c j0 (wStore w) (wAnchors w) V st" "rsItems st = wLog w"
    and live: "live_ok (wJournal w) (wAnchors w) (V (storageKey j0)) st" and prep: "prepared_ok c (wJournal w) (V (storageKey j0)) st p"
    using w Some unfolding world_ok_def by blast
  note k = same_doc_simps(1) [OF i(1)]
  show ?thesis
  proof (cases "idbDiscard (wStore w) (storageKey j0) (ppToken p)")
    case (Inl e)
    then show ?thesis using Some i k
      by (intro world_okI [where V = V and st = st]) (simp_all add: discardPrepared_def same_doc_def)
  next
    case (Inr D')
    obtain v' where v': "idb_represents D' (V(storageKey j0 := v'))" "vEntries v' = vEntries (V (storageKey j0))"
      "vRevision v' = vRevision (V (storageKey j0))" "vPublications v' = vPublications (V (storageKey j0))"
      using discard_represents [OF _ Inr] i(2) by (auto simp: durable_ok_def)
    have cov: "pending_covers (rjPending (wJournal w)) (rsBindings st) v'"
      using live pending_covers_cong [OF _ v'(3,4)] by (auto simp: live_ok_def)
    show ?thesis
      by (rule world_okI [where V = "V(storageKey j0 := v')" and st = st])
        (use Some i k Inr durable_staged [OF i(2) v'] live prep cov in
          \<open>simp_all add: discardPrepared_def same_doc_def live_ok_def storageKey_def selectDocumentPublicationBindings_def prepared_ok_def\<close>)
  qed
qed (use w in simp)


lemma sent_represents:
  assumes "idb_represents D V" "idbPublicationSent D k i = Inr D'"
  shows "idb_represents D' (V(k := (V k)\<lparr>vPublications := filter (\<lambda>p. pubId p \<noteq> i) (vPublications (V k))\<rparr>))"
proof -
  have "idb_doc D k (V k)" "view_ok (V k)" using assms(1) by (simp_all add: idb_represents_def)
  then obtain v' where v': "spec_sent (V k) i = Some v'" using idb_sent [of "V k" D k] assms(2) by auto
  then have "v' = (V k)\<lparr>vPublications := filter (\<lambda>p. pubId p \<noteq> i) (vPublications (V k))\<rparr>"
    by (auto simp: spec_sent_def split: if_splits)
  then show ?thesis
    using idb_step_represents [OF assms(1), of "OpSent k i"] assms(2) v' by (simp add: update_out_def spec_update_def)
qed

lemma distinct_map_filter_comp: "distinct (map f xs) \<Longrightarrow> distinct (map f (filter P xs))"
  by (rule distinct_map_filter)

lemma step_sent:
  assumes w: "world_ok c j0 w"
  shows "world_ok c j0 (world_step c j0 w (EvPublicationSent frame))"
proof -
  let ?i = "digestOf c frame" and ?j = "wJournal w"
  obtain V st where i: "same_doc ?j j0" "durable_ok c j0 (wStore w) (wAnchors w) V st" "rsItems st = wLog w"
    and live: "rjOpened ?j \<and> \<not> rjFailed ?j \<longrightarrow> live_ok ?j (wAnchors w) (V (storageKey j0)) st"
    and prep: "\<forall>p. wPrepared w = Some p \<longrightarrow> rjOpened ?j \<and> \<not> rjFailed ?j \<and> rjActive ?j \<and>
          prepared_ok c ?j (V (storageKey j0)) st p"
    using w unfolding world_ok_def by blast
  note k = same_doc_simps(1) [OF i(1)]
  let ?v = "V (storageKey j0)"
  let ?v' = "?v\<lparr>vPublications := filter (\<lambda>p. pubId p \<noteq> ?i) (vPublications ?v)\<rparr>"
  let ?j' = "?j\<lparr>rjPending := jdel (rjPending ?j) (documentBytesId ?i)\<rparr>"
  show ?thesis
  proof (cases "idbPublicationSent (wStore w) (storageKey j0) ?i")
    case (Inl e)
    then show ?thesis using w k by (simp add: publicationSent_def)
  next
    case (Inr D')
    have rep: "idb_represents D' (V(storageKey j0 := ?v'))"
      by (rule sent_represents [OF _ Inr]) (use i(2) in \<open>simp add: durable_ok_def\<close>)
    have q: "queue_ok c j0 (rsBindings st) ?v" using i(2) by (simp add: durable_ok_def)
    then have "queue_ok c j0 (rsBindings st) ?v'" by (simp add: queue_ok_def distinct_map_filter_comp)
    then have d: "durable_ok c j0 D' (wAnchors w) (V(storageKey j0 := ?v')) st" using i(2) rep by (simp add: durable_ok_def)
    note sub = set_jvals_jdel [of "rjPending ?j" "documentBytesId ?i"]
    have cov: "pending_covers (rjPending ?j') (rsBindings st) ?v'" if "pending_covers (rjPending ?j) (rsBindings st) ?v"
      using that sub by (auto simp: pending_covers_def jget_jdel)
    have "live_ok ?j' (wAnchors w) ?v' st" if "live_ok ?j (wAnchors w) ?v st"
      using that cov by (simp add: live_ok_def storageKey_def)
    moreover have "prepared_ok c ?j' ?v' st p" if "prepared_ok c ?j ?v st p" for p
      using that sub unfolding prepared_ok_def same_doc_simps [of ?j' ?j, unfolded same_doc_def, simplified] by auto
    moreover have "world_step c j0 w (EvPublicationSent frame) = w\<lparr>wStore := D', wJournal := ?j'\<rparr>"
      using Inr k by (simp add: publicationSent_def)
    ultimately show ?thesis using d i live prep
      by (intro world_okI [where V = "V(storageKey j0 := ?v')" and st = st]) (simp_all add: same_doc_def)
  qed
qed

lemma step_pending:
  assumes w: "world_ok c j0 w"
  shows "world_ok c j0 (world_step c j0 w EvPendingPublications)"
proof -
  let ?j = "wJournal w"
  obtain V st where i: "same_doc ?j j0" "durable_ok c j0 (wStore w) (wAnchors w) V st" "rsItems st = wLog w"
    and live: "rjOpened ?j \<and> \<not> rjFailed ?j \<longrightarrow> live_ok ?j (wAnchors w) (V (storageKey j0)) st"
    and prep: "\<forall>p. wPrepared w = Some p \<longrightarrow> rjOpened ?j \<and> \<not> rjFailed ?j \<and> rjActive ?j \<and>
          prepared_ok c ?j (V (storageKey j0)) st p"
    using w unfolding world_ok_def by blast
  note k = same_doc_simps(1) [OF i(1)]
  let ?v = "V (storageKey j0)"
  show ?thesis
  proof (cases "\<not> rjOpened ?j \<or> rjFailed ?j \<or> rjActive ?j")
    case True
    then show ?thesis using w by (simp add: pendingPublications_def)
  next
    case False
    have l: "live_ok ?j (wAnchors w) ?v st" and none: "wPrepared w = None" using False live prep by auto
    have d: "durable_ok c ?j (wStore w) (wAnchors w) V st" using i(2) same_doc_durable [OF i(1)] by simp
    then have "queue_ok c ?j (rsBindings st) (V (storageKey ?j))" by (simp add: durable_ok_def)
    then obtain fs bs where r: "readPublications c ?j (wStore w) (rsBindings st) (vRevision ?v) = Inr (fs, bs)"
      "pending_covers bs (rsBindings st) ?v"
      using readPublications_ok [OF durable_view [OF d], of c "rsBindings st"] k by auto
    have rv: "revision_of ?j = vRevision ?v" using revision_of_live [OF l] i(2) by (simp add: durable_ok_def)
    have "snd (pendingPublications c ?j (wStore w) (wAnchors w)) = ?j\<lparr>rjPending := bs\<rparr> \<or>
        rjFailed (snd (pendingPublications c ?j (wStore w) (wAnchors w))) \<and>
        same_doc (snd (pendingPublications c ?j (wStore w) (wAnchors w))) j0"
      using False l r(1) rv i(1)
      by (auto simp: pendingPublications_def live_ok_def same_doc_def sbind_def split: sum.splits)
    then show ?thesis using i none l r(2)
      by (intro world_okI [where V = V and st = st]) (auto simp: live_ok_def storageKey_def same_doc_def)
  qed
qed

lemma world_step_ok:
  assumes "crypto_ok c" "world_ok c j0 w" "\<not> rjOpened j0" "legal_event e"
  shows "world_ok c j0 (world_step c j0 w e)"
  using assms step_restore step_restore_crash step_prepare step_commit step_commit_crash step_discard step_sent step_pending step_crash
  by (cases e) (blast | simp)+

lemma initial_world_ok: "newReplayJournal documentId genesis = Inr j0 \<Longrightarrow> world_ok c j0 (initialWorld j0)"
  by (rule world_okI [where V = "\<lambda>_. emptyView" and st = initialReplay])
    (auto simp: newReplayJournal_def initialWorld_def same_doc_def durable_ok_def idb_empty [unfolded emptyView_def] anchor_ok_def copyAnchor_def
      queue_ok_def emptyView_def initialReplay_def last_revision_def anchor_of_def split: if_splits)

lemma run_world_ok:
  assumes "crypto_ok c" "\<not> rjOpened j0"
  shows "world_ok c j0 w \<Longrightarrow> list_all legal_event es \<Longrightarrow> world_ok c j0 (run_world c j0 w es)"
  by (induction es arbitrary: w) (use world_step_ok [OF assms(1) _ assms(2)] in auto)

text \<open>
  C12: No crash loses or invents an accepted item. Take any sequence of
  restores, prepared items, commits, discards, publications and crashes, with
  crashes also between the store commit and the anchor update and inside a restore.
  A journal opened afterwards on the same store and anchor restores without error
  and returns exactly the items whose store commit had succeeded, in order, from the
  last checkpoint on, and the anchor then names the last of them.
\<close>

theorem restore_after_crash:
  assumes "crypto_ok c" "newReplayJournal documentId genesis = Inr j0" "list_all legal_event es"
  shows "\<exists>j D A. restore c j0 (wStore (run_world c j0 (initialWorld j0) es)) (wAnchors (run_world c j0 (initialWorld j0) es)) =
      (Inr (wLog (run_world c j0 (initialWorld j0) es)), j, D, A) \<and>
    rjHead j = jget A (storageKey j0) \<and>
    (wLog (run_world c j0 (initialWorld j0) es) = [] \<longleftrightarrow> rjHead j = None)"
proof -
  let ?w = "run_world c j0 (initialWorld j0) es"
  have j0: "\<not> rjOpened j0" "\<not> rjFailed j0" "\<not> rjActive j0"
    using assms(2) by (auto simp: newReplayJournal_def split: if_splits)
  have "world_ok c j0 ?w" by (rule run_world_ok [OF assms(1) j0(1) initial_world_ok [OF assms(2)] assms(3)])
  then obtain V st where d: "durable_ok c j0 (wStore ?w) (wAnchors ?w) V st" "rsItems st = wLog ?w"
    unfolding world_ok_def by blast
  have "replayEntries c j0 initialReplay (vEntries (V (storageKey j0))) = Inr st" using d(1) by (simp add: durable_ok_def)
  from replay_shape [OF this] have "rsItems st = [] \<longleftrightarrow> anchor_of st = None"
    by (cases "vEntries (V (storageKey j0)) = []") (auto simp: initialReplay_def anchor_of_def)
  then show ?thesis using restore_ok [OF assms(1) d(1) j0(2,3)] d(2) by auto
qed

definition sample_crypto :: journal_crypto where
  "sample_crypto = \<lparr>sealWith = (\<lambda>n a p. p @ replicate 16 7), openWith = (\<lambda>n a x. Some (take (length x - 16) x)),
     digestOf = (\<lambda>b. replicate 32 (of_nat (length b)))\<rparr>"

lemma sample_crypto_ok: "crypto_ok sample_crypto"
  by (simp add: crypto_ok_def sample_crypto_def)

definition sample_journal :: replay_journal where
  "sample_journal = \<lparr>rjDocumentId = [100], rjGenesis = replicate 32 1, rjHead = None, rjEntryCount = 0, rjRetainedBytes = 0,
     rjOpened = False, rjActive = False, rjFailed = False, rjAccepted = [], rjPending = []\<rparr>"

lemma sample_journal_new: "newReplayJournal [100] (replicate 32 1) = Inr sample_journal"
  by (simp add: newReplayJournal_def sample_journal_def)

definition sample_item :: DocumentJournalItem where
  "sample_item = \<lparr>outboundFrame = Some [1, 2], itemCheckpoint = False, itemContext = sample_context, itemChanges = [8, 9],
     itemReceipts = [\<lparr>receiptMember = replicate 32 3, receiptSequence = 1, receiptHash = replicate 32 4\<rparr>],
     itemAuthorityHead = replicate 32 5, itemAuthorityRecords = []\<rparr>"

definition sample_events :: "replay_event list" where
  "sample_events = [EvRestore, EvPrepare sample_item \<lparr>rndToken = replicate 32 6, rndBinding = replicate 32 7, rndNonce = replicate 12 8\<rparr>,
     EvCommitCrash \<lparr>rndAccept = replicate 12 9, rndSeal = replicate 12 10\<rparr>]"

theorem restore_after_crash_witness:
  "crypto_ok sample_crypto \<and> newReplayJournal [100] (replicate 32 1) = Inr sample_journal \<and> list_all legal_event sample_events \<and>
   (\<exists>j D A. restore sample_crypto sample_journal
        (wStore (run_world sample_crypto sample_journal (initialWorld sample_journal) sample_events))
        (wAnchors (run_world sample_crypto sample_journal (initialWorld sample_journal) sample_events)) =
      (Inr (wLog (run_world sample_crypto sample_journal (initialWorld sample_journal) sample_events)), j, D, A) \<and>
    rjHead j = jget A (storageKey sample_journal))"
  using restore_after_crash [OF sample_crypto_ok sample_journal_new, of sample_events] sample_crypto_ok sample_journal_new
  by (simp add: sample_events_def) blast


section \<open>Rollback\<close>

lemma captureEntries_Inr: "captureEntries n es = Inr es' \<Longrightarrow> es' = es"
  by (induction es arbitrary: n es') (auto simp: sbind_Inr_iff copyBytes_Inr)

lemma captureJournalSnapshot_Inr:
  "captureJournalSnapshot s = Inr t \<Longrightarrow> t = s"
  by (cases s) (auto simp: captureJournalSnapshot_def sbind_Inr_iff optCheck_def copyBytes_Inr dest!: captureEntries_Inr
      split: if_splits option.splits)

lemma copyAnchor_Inr: "copyAnchor a = Inr b \<Longrightarrow> b = a"
  by (auto simp: copyAnchor_def split: option.splits if_splits)

lemma anchorCompareAndSwap_True:
  "anchorCompareAndSwap A k expected new = Inr (True, A') \<Longrightarrow> jget A k = expected \<and> A' = jset A k new"
  by (auto simp: anchorCompareAndSwap_def dest!: copyAnchor_Inr split: if_splits sum.splits option.splits)

text \<open>The parent that an accepted entry names.\<close>

definition entry_parent :: "bytes \<Rightarrow> bytes option" where
  "entry_parent owned =
     (case sbind (decodeAccepted owned) (\<lambda>(payload, acceptance). decodeEntry payload) of
        Inl _ \<Rightarrow> None
      | Inr (revision, marker, parent, rest) \<Rightarrow> Some parent)"

lemma replayEntry_parent:
  assumes "replayEntry c j st e = Inr st'"
  shows "\<exists>r p. rsLast st' = Some (r, digestOf c e, p) \<and> entry_parent e = Some p"
proof -
  obtain payload acceptance where d: "decodeAccepted e = Inr (payload, acceptance)"
    using assms by (auto simp: replayEntry_def sbind_Inr_iff)
  obtain r m p n x where f: "decodeEntry payload = Inr (r, m, p, n, x)"
    using assms unfolding replayEntry_def d failure_Inr sbind_simps prod.case by (auto simp: sbind_Inr_iff)
  have "entry_parent e = Some p" unfolding entry_parent_def d sbind_simps prod.case f by simp
  moreover have "rsLast st' = Some (r, digestOf c e, p)"
    using assms unfolding replayEntry_def d f failure_Inr sbind_simps prod.case
    by (auto simp: sbind_Inr_iff split: if_splits option.splits)
  ultimately show ?thesis by blast
qed

lemma replay_parent:
  assumes "replayEntries c j st0 es = Inr st" "es \<noteq> []"
  shows "\<exists>r p. rsLast st = Some (r, digestOf c (last es), p) \<and> entry_parent (last es) = Some p"
proof -
  obtain es' e where es: "es = es' @ [e]" using assms(2) by (cases es rule: rev_cases) auto
  then obtain st1 where "replayEntry c j st1 e = Inr st"
    using assms(1) by (auto simp: replayEntries_append sbind_Inr_iff)
  then show ?thesis using replayEntry_parent es by fastforce
qed

lemma classify_cases:
  "classifyDocumentJournalRecovery s a m p True = RecoveryCurrent \<Longrightarrow> s = a \<and> m"
  "classifyDocumentJournalRecovery s a m p True = RecoveryFinishAnchor \<Longrightarrow> s = a + 1 \<and> p"
  by (auto simp: classifyDocumentJournalRecovery_def split: if_splits)

lemma restoreBegin_Inr:
  assumes "restoreBegin c j D A = (Inr (st, token), A')"
  shows "\<exists>revision entries. idbLoadRecoverySnapshot D (storageKey j) = Inr (revision, entries, token) \<and>
    replayEntries c j initialReplay entries = Inr st \<and> last_revision st = revision \<and>
    jget A' (storageKey j) = anchor_of st \<and>
    (jget A (storageKey j) = anchor_of st \<or>
     (\<exists>h p. rsLast st = Some (revision, h, p) \<and>
        (case jget A (storageKey j) of None \<Rightarrow> revision = 1 \<and> p = ZERO
         | Some a \<Rightarrow> revision = anchorRevision a + 1 \<and> p = anchorCommitment a)))"
proof -
  let ?k = "storageKey j"
  let ?read = "sbind (store_failure (idbLoadRecoverySnapshot D ?k)) (\<lambda>loaded.
           sbind (captureJournalSnapshot loaded) (\<lambda>(revision, entries, token).
           sbind (anchorLoad A ?k) (\<lambda>anchored.
           sbind (replayEntries c j initialReplay entries) (\<lambda>st. Inr (revision, token, anchored, st)))))"
  obtain revision t anchored st1 where read: "?read = Inr (revision, t, anchored, st1)"
    using assms unfolding restoreBegin_def by (cases ?read) (auto split: prod.splits)
  then obtain entries where f: "idbLoadRecoverySnapshot D ?k = Inr (revision, entries, t)"
    "anchored = jget A ?k" "replayEntries c j initialReplay entries = Inr st1"
    by (auto simp: sbind_Inr_iff anchorLoad_def dest!: captureJournalSnapshot_Inr copyAnchor_Inr)
  let ?a = "case jget A ?k of None \<Rightarrow> 0 | Some a \<Rightarrow> anchorRevision a"
  let ?p = "case jget A ?k of None \<Rightarrow> ZERO | Some a \<Rightarrow> anchorCommitment a"
  let ?cls = "classifyDocumentJournalRecovery revision ?a (documentJournalAnchorsEqual (jget A ?k) (anchor_of st1))
      (case rsLast st1 of None \<Rightarrow> False | Some (_, _, parent) \<Rightarrow> documentBytesEqual parent ?p) True"
  note step = assms [unfolded restoreBegin_def read sum.case prod.case f(2)]
  have lr: "last_revision st1 = revision" using step by (auto simp: last_revision_def split: if_splits)
  show ?thesis
  proof (cases ?cls)
    case RecoveryCurrent
    then have "jget A ?k = anchor_of st1" using classify_cases(1) by fastforce
    moreover have "st = st1 \<and> token = t \<and> A' = A" using step RecoveryCurrent by (auto split: if_splits)
    ultimately show ?thesis using f(1,3) lr by auto
  next
    case RecoveryFinishAnchor
    have c: "revision = ?a + 1" "case rsLast st1 of None \<Rightarrow> False | Some (_, _, parent) \<Rightarrow> documentBytesEqual parent ?p"
      using classify_cases(2) [OF RecoveryFinishAnchor] by auto
    then obtain h where l: "rsLast st1 = Some (revision, h, ?p)"
      using lr by (auto simp: last_revision_def documentBytesEqual_def split: option.splits)
    have "st = st1 \<and> token = t \<and> jget A' ?k = anchor_of st1"
      using step [unfolded RecoveryFinishAnchor DocumentJournalRecovery.case]
      by (auto simp: jget_jset dest!: copyAnchor_Inr anchorCompareAndSwap_True
          split: if_splits sum.splits option.splits prod.splits bool.splits)
    then show ?thesis using f(1,3) lr l c(1) by (cases "jget A ?k") auto
  qed (use step in \<open>auto split: if_splits\<close>)
qed

lemma restore_Inr:
  assumes "restore c j D A = (Inr items, j', D', A')"
  shows "\<exists>st token. restoreBegin c j D A = (Inr (st, token), A') \<and> items = rsItems st \<and> rjHead j' = anchor_of st \<and> rjOpened j'"
  using assms unfolding restore_def restoreEnd_def
  by (auto split: if_splits prod.splits sum.splits option.splits)

text \<open>
  C13: A rolled back store is never accepted. When a journal is restored from an arbitrary store
  and rollback anchor, the head it adopts is the last stored entry, under the stored
  revision; that head is the anchored one, or it is exactly one revision ahead and names
  the anchored commitment as its parent (the crash between a store commit and its anchor
  update). The anchor then names the adopted head, and one item is returned per stored entry.
\<close>

theorem restore_no_rollback:
  assumes "restore c j D A = (Inr items, j', D', A')"
  shows "\<exists>revision entries token. idbLoadRecoverySnapshot D (storageKey j) = Inr (revision, entries, token) \<and>
    length items = length entries \<and> jget A' (storageKey j) = rjHead j' \<and>
    rjHead j' = (if entries = [] then None
      else Some \<lparr>anchorRevision = revision, anchorCommitment = digestOf c (last entries)\<rparr>) \<and>
    (jget A (storageKey j) = rjHead j' \<or>
     entries \<noteq> [] \<and>
     revision = (case jget A (storageKey j) of None \<Rightarrow> 0 | Some a \<Rightarrow> anchorRevision a) + 1 \<and>
     entry_parent (last entries) = Some (case jget A (storageKey j) of None \<Rightarrow> ZERO | Some a \<Rightarrow> anchorCommitment a))"
proof -
  obtain st token where r: "restoreBegin c j D A = (Inr (st, token), A')" "items = rsItems st" "rjHead j' = anchor_of st"
    using restore_Inr [OF assms] by blast
  obtain revision entries where b: "idbLoadRecoverySnapshot D (storageKey j) = Inr (revision, entries, token)"
    "replayEntries c j initialReplay entries = Inr st" "last_revision st = revision" "jget A' (storageKey j) = anchor_of st"
    "jget A (storageKey j) = anchor_of st \<or> (\<exists>h p. rsLast st = Some (revision, h, p) \<and>
        (case jget A (storageKey j) of None \<Rightarrow> revision = 1 \<and> p = ZERO
         | Some a \<Rightarrow> revision = anchorRevision a + 1 \<and> p = anchorCommitment a))"
    using restoreBegin_Inr [OF r(1)] by blast
  have n: "length items = length entries" using replay_shape [OF b(2)] r(2) by (simp add: initialReplay_def)
  show ?thesis
  proof (cases "entries = []")
    case True
    then have "st = initialReplay" using b(2) by simp
    then show ?thesis using True b r n by (intro exI [of _ revision] exI [of _ entries] exI [of _ token])
      (auto simp: initialReplay_def anchor_of_def)
  next
    case False
    obtain r' p where l: "rsLast st = Some (r', digestOf c (last entries), p)" "entry_parent (last entries) = Some p"
      using replay_parent [OF b(2) False] by blast
    then have "r' = revision" using b(3) by (simp add: last_revision_def)
    then show ?thesis using False b r n l by (intro exI [of _ revision] exI [of _ entries] exI [of _ token])
      (auto simp: anchor_of_def split: option.splits)
  qed
qed

lemma sample_restore:
  "restore sample_crypto sample_journal emptyIdb [] = (Inr [], sample_journal\<lparr>rjOpened := True\<rparr>, emptyIdb, [])"
  by code_simp

theorem restore_no_rollback_witness:
  "restore sample_crypto sample_journal emptyIdb [] = (Inr [], sample_journal\<lparr>rjOpened := True\<rparr>, emptyIdb, []) \<and>
   (\<exists>revision entries token. idbLoadRecoverySnapshot emptyIdb (storageKey sample_journal) = Inr (revision, entries, token) \<and>
     (entries :: bytes list) = [])"
  using restore_no_rollback [OF sample_restore] sample_restore by auto

end
