(* ===== verification/Group_Envelope.thy ===== *)
theory Group_Envelope
  imports Document_Binary
begin

text \<open>
  The envelopes of \<open>packages/core/src/group-security-provider.ts\<close>: the ciphertext-only
  wrappers of private group state and of one-time KeyPackages, their strict
  serialization, and the canonical encoding of an applied membership change. The
  protector (authenticated encryption) is a parameter. Objects are genuine and plain,
  byte arrays are unshared values, so a copy fails only by its length.
\<close>


section \<open>Definitions\<close>

subsection \<open>Identifiers and fields\<close>

text \<open>Every throw of the module is an \<open>Error\<close> whose text is not read by the code.\<close>

datatype envelope_error = EnvelopeError

definition MAX_SHORT_BYTES :: int where
  "MAX_SHORT_BYTES = 65535"

definition MAX_GROUP_ID_BYTES :: int where
  "MAX_GROUP_ID_BYTES = 1024"

definition MAX_HASH_BYTES :: int where
  "MAX_HASH_BYTES = 128"

definition MAX_MEMBER_ID_BYTES :: int where
  "MAX_MEMBER_ID_BYTES = 512"

definition MAX_KEY_PACKAGE_REFERENCE_BYTES :: int where
  "MAX_KEY_PACKAGE_REFERENCE_BYTES = 512"

definition MAX_KEY_PACKAGE_PAYLOAD_BYTES :: int where
  "MAX_KEY_PACKAGE_PAYLOAD_BYTES = 4 * 1024 * 1024"

definition MAX_MEMBERSHIP_CHANGES :: int where
  "MAX_MEMBERSHIP_CHANGES = 4096"

definition MAX_CIPHERTEXT_BYTES :: int where
  "MAX_CIPHERTEXT_BYTES = 64 * 1024 * 1024"

definition MAX_U64 :: int where
  "MAX_U64 = 2 ^ 64 - 1"

definition MAX_ENCRYPTED_KEY_PACKAGE_STATE_SERIALIZED_BYTES :: int where
  "MAX_ENCRYPTED_KEY_PACKAGE_STATE_SERIALIZED_BYTES =
     32 + 128 + MAX_GROUP_ID_BYTES + MAX_KEY_PACKAGE_REFERENCE_BYTES + MAX_KEY_PACKAGE_PAYLOAD_BYTES +
     128 + 256 + MAX_SHORT_BYTES + MAX_CIPHERTEXT_BYTES"

definition MAX_ENCRYPTED_GROUP_STATE_SERIALIZED_BYTES :: int where
  "MAX_ENCRYPTED_GROUP_STATE_SERIALIZED_BYTES =
     38 + 128 + MAX_GROUP_ID_BYTES + MAX_HASH_BYTES * 2 + 128 + 256 + MAX_SHORT_BYTES + MAX_CIPHERTEXT_BYTES"

definition ENCRYPTED_GROUP_STATE_MAGIC :: bytes where
  "ENCRYPTED_GROUP_STATE_MAGIC = [0x53, 0x57, 0x4d, 0x47, 0x53, 0x30, 0x30, 0x31]"

definition ENCRYPTED_KEY_PACKAGE_STATE_MAGIC :: bytes where
  "ENCRYPTED_KEY_PACKAGE_STATE_MAGIC = [0x53, 0x57, 0x4d, 0x4b, 0x50, 0x30, 0x30, 0x31]"

definition APPLIED_MEMBERSHIP_DELTA_DOMAIN :: bytes where
  "APPLIED_MEMBERSHIP_DELTA_DOMAIN = ascii_bytes ''peerborne/group-security-applied-membership-delta/v1'' @ [0]"

definition alnumUnit :: "16 word \<Rightarrow> bool" where
  "alnumUnit c \<longleftrightarrow> (65 \<le> c \<and> c \<le> 90) \<or> (97 \<le> c \<and> c \<le> 122) \<or> (48 \<le> c \<and> c \<le> 57)"

text \<open>\<open>[A-Za-z0-9][A-Za-z0-9._/-]{0,127}\<close>\<close>

definition canonicalIdentifier :: "js_string \<Rightarrow> bool" where
  "canonicalIdentifier s =
     (case s of
        [] \<Rightarrow> False
      | c # cs \<Rightarrow> alnumUnit c \<and> list_all (\<lambda>d. alnumUnit d \<or> d \<in> {46, 95, 47, 45}) cs \<and> int (length cs) \<le> 127)"

text \<open>\<open>[A-Za-z0-9][A-Za-z0-9._/@:-]{0,255}\<close>\<close>

definition protectorKeyId :: "js_string \<Rightarrow> bool" where
  "protectorKeyId s =
     (case s of
        [] \<Rightarrow> False
      | c # cs \<Rightarrow> alnumUnit c \<and> list_all (\<lambda>d. alnumUnit d \<or> d \<in> {46, 95, 47, 64, 58, 45}) cs \<and> int (length cs) \<le> 255)"

record GroupSecurityProtocol =
  protoId :: js_string
  protoVersion :: int

record GroupSecurityPublicState =
  stateProtocol :: GroupSecurityProtocol
  stateGroupId :: bytes
  stateEpoch :: int
  stateTranscript :: bytes
  stateTreeHash :: bytes

record GroupKeyPackage =
  kpProtocol :: GroupSecurityProtocol
  kpGroupId :: bytes
  kpReference :: bytes
  kpPayload :: bytes

definition validateBytes :: "bytes \<Rightarrow> int \<Rightarrow> int \<Rightarrow> envelope_error + unit" where
  "validateBytes value minimum maximum =
     require (\<not> (int (length value) < minimum \<or> int (length value) > maximum)) EnvelopeError"

definition validateU64 :: "int \<Rightarrow> envelope_error + unit" where
  "validateU64 value = require (\<not> (value < 0 \<or> value > MAX_U64)) EnvelopeError"

definition validateProtocol :: "GroupSecurityProtocol \<Rightarrow> envelope_error + unit" where
  "validateProtocol p =
     require (\<not> (\<not> canonicalIdentifier (protoId p) \<or> protoVersion p < 0 \<or> protoVersion p > 65535)) EnvelopeError"

definition validateProtectorIdentity :: "js_string \<Rightarrow> js_string \<Rightarrow> envelope_error + unit" where
  "validateProtectorIdentity algorithm keyId =
     require (\<not> (\<not> canonicalIdentifier algorithm \<or> \<not> protectorKeyId keyId)) EnvelopeError"

definition validatePublicState :: "GroupSecurityPublicState \<Rightarrow> envelope_error + unit" where
  "validatePublicState s =
     sbind (validateProtocol (stateProtocol s)) (\<lambda>_.
     sbind (validateBytes (stateGroupId s) 1 MAX_GROUP_ID_BYTES) (\<lambda>_.
     sbind (validateU64 (stateEpoch s)) (\<lambda>_.
     sbind (validateBytes (stateTranscript s) (if stateEpoch s = 0 then 0 else 1) MAX_HASH_BYTES) (\<lambda>_.
     validateBytes (stateTreeHash s) 1 MAX_HASH_BYTES))))"

definition validateKeyPackage :: "GroupKeyPackage \<Rightarrow> envelope_error + unit" where
  "validateKeyPackage k =
     sbind (validateProtocol (kpProtocol k)) (\<lambda>_.
     sbind (validateBytes (kpGroupId k) 1 MAX_GROUP_ID_BYTES) (\<lambda>_.
     sbind (validateBytes (kpReference k) 1 MAX_KEY_PACKAGE_REFERENCE_BYTES) (\<lambda>_.
     validateBytes (kpPayload k) 1 MAX_KEY_PACKAGE_PAYLOAD_BYTES)))"

definition snapshotBoundedBytes :: "bytes \<Rightarrow> int \<Rightarrow> int \<Rightarrow> envelope_error + bytes" where
  "snapshotBoundedBytes value minimum maximum =
     (if int (length value) < minimum \<or> int (length value) > maximum then Inl EnvelopeError else Inr value)"

definition clonePublicState :: "GroupSecurityPublicState \<Rightarrow> envelope_error + GroupSecurityPublicState" where
  "clonePublicState s =
     sbind (snapshotBoundedBytes (stateGroupId s) 1 MAX_GROUP_ID_BYTES) (\<lambda>gid.
     sbind (snapshotBoundedBytes (stateTranscript s) (if stateEpoch s = 0 then 0 else 1) MAX_HASH_BYTES) (\<lambda>transcript.
     sbind (snapshotBoundedBytes (stateTreeHash s) 1 MAX_HASH_BYTES) (\<lambda>tree.
     let snapshot = \<lparr>stateProtocol = stateProtocol s, stateGroupId = gid, stateEpoch = stateEpoch s,
           stateTranscript = transcript, stateTreeHash = tree\<rparr>
     in sbind (validatePublicState snapshot) (\<lambda>_. Inr snapshot))))"

definition cloneKeyPackage :: "GroupKeyPackage \<Rightarrow> envelope_error + GroupKeyPackage" where
  "cloneKeyPackage k =
     sbind (snapshotBoundedBytes (kpGroupId k) 1 MAX_GROUP_ID_BYTES) (\<lambda>gid.
     sbind (snapshotBoundedBytes (kpReference k) 1 MAX_KEY_PACKAGE_REFERENCE_BYTES) (\<lambda>reference.
     sbind (snapshotBoundedBytes (kpPayload k) 1 MAX_KEY_PACKAGE_PAYLOAD_BYTES) (\<lambda>payload.
     let snapshot = \<lparr>kpProtocol = kpProtocol k, kpGroupId = gid, kpReference = reference, kpPayload = payload\<rparr>
     in sbind (validateKeyPackage snapshot) (\<lambda>_. Inr snapshot))))"

subsection \<open>Writing\<close>

definition u16 :: "int \<Rightarrow> envelope_error + bytes" where
  "u16 value = (if value < 0 \<or> value > 65535 then Inl EnvelopeError else Inr (bigEndian 2 value))"

definition u32 :: "int \<Rightarrow> envelope_error + bytes" where
  "u32 value = (if value < 0 \<or> value > 4294967295 then Inl EnvelopeError else Inr (bigEndian 4 value))"

definition u64 :: "int \<Rightarrow> envelope_error + bytes" where
  "u64 value = sbind (validateU64 value) (\<lambda>_. Inr (bigEndian 8 value))"

definition bytes16 :: "bytes \<Rightarrow> envelope_error + bytes" where
  "bytes16 value =
     (if int (length value) > 65535 then Inl EnvelopeError
      else sbind (u16 (int (length value))) (\<lambda>n. Inr (n @ value)))"

definition bytes32 :: "bytes \<Rightarrow> envelope_error + bytes" where
  "bytes32 value =
     (if int (length value) > 4294967295 then Inl EnvelopeError
      else sbind (u32 (int (length value))) (\<lambda>n. Inr (n @ value)))"

fun concatParts :: "(envelope_error + bytes) list \<Rightarrow> envelope_error + bytes" where
  "concatParts [] = Inr []"
| "concatParts (p # ps) = sbind p (\<lambda>b. sbind (concatParts ps) (\<lambda>rest. Inr (b @ rest)))"

definition encodeAssociatedData :: "GroupSecurityPublicState \<Rightarrow> js_string \<Rightarrow> js_string \<Rightarrow> envelope_error + bytes" where
  "encodeAssociatedData s algorithm keyId =
     sbind (validatePublicState s) (\<lambda>_.
     sbind (validateProtectorIdentity algorithm keyId) (\<lambda>_.
     concatParts [Inr ENCRYPTED_GROUP_STATE_MAGIC, u16 1, bytes16 (encodeUtf8 (protoId (stateProtocol s))),
       u16 (protoVersion (stateProtocol s)), bytes16 (stateGroupId s), u64 (stateEpoch s),
       bytes16 (stateTranscript s), bytes16 (stateTreeHash s), bytes16 (encodeUtf8 algorithm), bytes16 (encodeUtf8 keyId)]))"

definition encodeKeyPackageAssociatedData :: "GroupKeyPackage \<Rightarrow> js_string \<Rightarrow> js_string \<Rightarrow> envelope_error + bytes" where
  "encodeKeyPackageAssociatedData k algorithm keyId =
     sbind (validateKeyPackage k) (\<lambda>_.
     sbind (validateProtectorIdentity algorithm keyId) (\<lambda>_.
     concatParts [Inr ENCRYPTED_KEY_PACKAGE_STATE_MAGIC, u16 1, bytes16 (encodeUtf8 (protoId (kpProtocol k))),
       u16 (protoVersion (kpProtocol k)), bytes16 (kpGroupId k), bytes16 (kpReference k), bytes32 (kpPayload k),
       bytes16 (encodeUtf8 algorithm), bytes16 (encodeUtf8 keyId)]))"

subsection \<open>Reading\<close>

record ByteReader =
  brBytes :: bytes
  brOffset :: nat

definition newByteReader :: "bytes \<Rightarrow> int \<Rightarrow> envelope_error + ByteReader" where
  "newByteReader value maximumLength =
     sbind (snapshotBoundedBytes value 0 maximumLength) (\<lambda>b. Inr \<lparr>brBytes = b, brOffset = 0\<rparr>)"

definition readerTake :: "ByteReader \<Rightarrow> int \<Rightarrow> envelope_error + bytes \<times> ByteReader" where
  "readerTake r len =
     (if len < 0 \<or> int (brOffset r) + len > int (length (brBytes r)) then Inl EnvelopeError
      else Inr (take (nat len) (drop (brOffset r) (brBytes r)), r\<lparr>brOffset := brOffset r + nat len\<rparr>))"

definition readerExpect :: "bytes \<Rightarrow> ByteReader \<Rightarrow> envelope_error + unit \<times> ByteReader" where
  "readerExpect expected r =
     sbind (readerTake r (int (length expected))) (\<lambda>(actual, r).
       if \<not> equalBytes actual expected then Inl EnvelopeError else Inr ((), r))"

definition beValue :: "bytes \<Rightarrow> int" where
  "beValue bs = foldl (\<lambda>n b. n * 256 + uint b) 0 bs"

definition readerUnsigned :: "nat \<Rightarrow> ByteReader \<Rightarrow> envelope_error + int \<times> ByteReader" where
  "readerUnsigned width r = sbind (readerTake r (int width)) (\<lambda>(b, r). Inr (beValue b, r))"

definition validateLength :: "int \<Rightarrow> int \<Rightarrow> int \<Rightarrow> envelope_error + unit" where
  "validateLength len minimum maximum = require (\<not> (len < minimum \<or> len > maximum)) EnvelopeError"

definition readerBytes16 :: "int \<Rightarrow> int \<Rightarrow> ByteReader \<Rightarrow> envelope_error + bytes \<times> ByteReader" where
  "readerBytes16 minimum maximum r =
     sbind (readerUnsigned 2 r) (\<lambda>(len, r).
     sbind (validateLength len minimum maximum) (\<lambda>_. readerTake r len))"

definition readerBytes32 :: "int \<Rightarrow> int \<Rightarrow> ByteReader \<Rightarrow> envelope_error + bytes \<times> ByteReader" where
  "readerBytes32 minimum maximum r =
     sbind (readerUnsigned 4 r) (\<lambda>(len, r).
     sbind (validateLength len minimum maximum) (\<lambda>_. readerTake r len))"

definition readerString16 :: "ByteReader \<Rightarrow> envelope_error + js_string \<times> ByteReader" where
  "readerString16 r =
     sbind (readerBytes16 1 MAX_SHORT_BYTES r) (\<lambda>(b, r).
       case decodeUtf8Bom b of
         None \<Rightarrow> Inl EnvelopeError
       | Some s \<Rightarrow> if s = [] \<or> \<not> list_all (\<lambda>c. 0x20 \<le> c \<and> c \<le> 0x7e) s then Inl EnvelopeError else Inr (s, r))"

definition readerDone :: "ByteReader \<Rightarrow> envelope_error + unit" where
  "readerDone r = require (brOffset r = length (brBytes r)) EnvelopeError"

subsection \<open>The envelopes\<close>

record EncryptedGroupState =
  egsState :: GroupSecurityPublicState
  egsAlgorithm :: js_string
  egsKeyId :: js_string
  egsNonce :: bytes
  egsCiphertext :: bytes

record EncryptedKeyPackageState =
  ekpKeyPackage :: GroupKeyPackage
  ekpAlgorithm :: js_string
  ekpKeyId :: js_string
  ekpNonce :: bytes
  ekpCiphertext :: bytes

text \<open>The protector is supplied by the application; \<open>None\<close> is a rejected promise.\<close>

record GroupStateProtector =
  protectorAlgorithm :: js_string
  protectorKey :: js_string
  protectorSeal :: "bytes \<Rightarrow> bytes \<Rightarrow> (bytes \<times> bytes) option"
  protectorOpen :: "bytes \<times> bytes \<Rightarrow> bytes \<Rightarrow> bytes option"

definition snapshotGroupStateCiphertext :: "bytes \<times> bytes \<Rightarrow> envelope_error + bytes \<times> bytes" where
  "snapshotGroupStateCiphertext c =
     sbind (snapshotBoundedBytes (fst c) 1 MAX_SHORT_BYTES) (\<lambda>nonce.
     sbind (snapshotBoundedBytes (snd c) 1 MAX_CIPHERTEXT_BYTES) (\<lambda>ciphertext. Inr (nonce, ciphertext)))"

definition sealGroupState ::
    "GroupSecurityPublicState \<Rightarrow> bytes \<Rightarrow> GroupStateProtector \<Rightarrow> envelope_error + EncryptedGroupState" where
  "sealGroupState s privateState protector =
     sbind (clonePublicState s) (\<lambda>snapshot.
     sbind (snapshotBoundedBytes privateState 1 MAX_CIPHERTEXT_BYTES) (\<lambda>private.
     sbind (validateProtectorIdentity (protectorAlgorithm protector) (protectorKey protector)) (\<lambda>_.
     sbind (encodeAssociatedData snapshot (protectorAlgorithm protector) (protectorKey protector)) (\<lambda>aad.
     case protectorSeal protector private aad of
       None \<Rightarrow> Inl EnvelopeError
     | Some sealed \<Rightarrow>
         sbind (snapshotGroupStateCiphertext sealed) (\<lambda>(nonce, ciphertext).
           Inr \<lparr>egsState = snapshot, egsAlgorithm = protectorAlgorithm protector, egsKeyId = protectorKey protector,
                egsNonce = nonce, egsCiphertext = ciphertext\<rparr>)))))"

definition openGroupState :: "EncryptedGroupState \<Rightarrow> GroupStateProtector \<Rightarrow> envelope_error + bytes" where
  "openGroupState e protector =
     (if protectorAlgorithm protector \<noteq> egsAlgorithm e \<or> protectorKey protector \<noteq> egsKeyId e then Inl EnvelopeError
      else
        sbind (encodeAssociatedData (egsState e) (egsAlgorithm e) (egsKeyId e)) (\<lambda>aad.
        case protectorOpen protector (egsNonce e, egsCiphertext e) aad of
          None \<Rightarrow> Inl EnvelopeError
        | Some plaintext \<Rightarrow> snapshotBoundedBytes plaintext 1 MAX_CIPHERTEXT_BYTES))"

definition serializeGroupState :: "EncryptedGroupState \<Rightarrow> envelope_error + bytes" where
  "serializeGroupState e =
     sbind (encodeAssociatedData (egsState e) (egsAlgorithm e) (egsKeyId e)) (\<lambda>aad.
     concatParts [Inr aad, u16 (int (length (egsNonce e))), Inr (egsNonce e),
       u32 (int (length (egsCiphertext e))), Inr (egsCiphertext e)])"

definition readGroupState :: "ByteReader \<Rightarrow> envelope_error + EncryptedGroupState \<times> ByteReader" where
  "readGroupState r =
     sbind (readerExpect ENCRYPTED_GROUP_STATE_MAGIC r) (\<lambda>(_, r).
     sbind (readerUnsigned 2 r) (\<lambda>(version, r).
     if version \<noteq> 1 then Inl EnvelopeError
     else
       sbind (readerString16 r) (\<lambda>(pid, r).
       sbind (readerUnsigned 2 r) (\<lambda>(pversion, r).
       sbind (readerBytes16 1 MAX_GROUP_ID_BYTES r) (\<lambda>(gid, r).
       sbind (readerUnsigned 8 r) (\<lambda>(ep, r).
       sbind (readerBytes16 (if ep = 0 then 0 else 1) MAX_HASH_BYTES r) (\<lambda>(transcript, r).
       sbind (readerBytes16 1 MAX_HASH_BYTES r) (\<lambda>(tree, r).
       sbind (readerString16 r) (\<lambda>(algorithm, r).
       sbind (readerString16 r) (\<lambda>(keyId, r).
       sbind (readerBytes16 1 MAX_SHORT_BYTES r) (\<lambda>(nonce, r).
       sbind (readerBytes32 1 MAX_CIPHERTEXT_BYTES r) (\<lambda>(ciphertext, r).
         Inr (\<lparr>egsState = \<lparr>stateProtocol = \<lparr>protoId = pid, protoVersion = pversion\<rparr>, stateGroupId = gid,
                 stateEpoch = ep, stateTranscript = transcript, stateTreeHash = tree\<rparr>,
               egsAlgorithm = algorithm, egsKeyId = keyId, egsNonce = nonce, egsCiphertext = ciphertext\<rparr>, r)))))))))))))"

definition deserializeGroupState :: "bytes \<Rightarrow> envelope_error + EncryptedGroupState" where
  "deserializeGroupState bs =
     sbind (newByteReader bs MAX_ENCRYPTED_GROUP_STATE_SERIALIZED_BYTES) (\<lambda>r.
     sbind (readGroupState r) (\<lambda>(e, r).
     sbind (readerDone r) (\<lambda>_.
     sbind (validatePublicState (egsState e)) (\<lambda>_.
     sbind (validateProtectorIdentity (egsAlgorithm e) (egsKeyId e)) (\<lambda>_. Inr e)))))"

definition sealKeyPackage ::
    "GroupKeyPackage \<Rightarrow> bytes \<Rightarrow> GroupStateProtector \<Rightarrow> envelope_error + EncryptedKeyPackageState" where
  "sealKeyPackage k privateState protector =
     sbind (cloneKeyPackage k) (\<lambda>snapshot.
     sbind (snapshotBoundedBytes privateState 1 MAX_CIPHERTEXT_BYTES) (\<lambda>private.
     sbind (validateProtectorIdentity (protectorAlgorithm protector) (protectorKey protector)) (\<lambda>_.
     sbind (encodeKeyPackageAssociatedData snapshot (protectorAlgorithm protector) (protectorKey protector)) (\<lambda>aad.
     case protectorSeal protector private aad of
       None \<Rightarrow> Inl EnvelopeError
     | Some sealed \<Rightarrow>
         sbind (snapshotGroupStateCiphertext sealed) (\<lambda>(nonce, ciphertext).
           Inr \<lparr>ekpKeyPackage = snapshot, ekpAlgorithm = protectorAlgorithm protector, ekpKeyId = protectorKey protector,
                ekpNonce = nonce, ekpCiphertext = ciphertext\<rparr>)))))"

definition openKeyPackage :: "EncryptedKeyPackageState \<Rightarrow> GroupStateProtector \<Rightarrow> envelope_error + bytes" where
  "openKeyPackage e protector =
     (if protectorAlgorithm protector \<noteq> ekpAlgorithm e \<or> protectorKey protector \<noteq> ekpKeyId e then Inl EnvelopeError
      else
        sbind (encodeKeyPackageAssociatedData (ekpKeyPackage e) (ekpAlgorithm e) (ekpKeyId e)) (\<lambda>aad.
        case protectorOpen protector (ekpNonce e, ekpCiphertext e) aad of
          None \<Rightarrow> Inl EnvelopeError
        | Some plaintext \<Rightarrow> snapshotBoundedBytes plaintext 1 MAX_CIPHERTEXT_BYTES))"

definition serializeKeyPackage :: "EncryptedKeyPackageState \<Rightarrow> envelope_error + bytes" where
  "serializeKeyPackage e =
     sbind (encodeKeyPackageAssociatedData (ekpKeyPackage e) (ekpAlgorithm e) (ekpKeyId e)) (\<lambda>aad.
     concatParts [Inr aad, u16 (int (length (ekpNonce e))), Inr (ekpNonce e),
       u32 (int (length (ekpCiphertext e))), Inr (ekpCiphertext e)])"

definition readKeyPackage :: "ByteReader \<Rightarrow> envelope_error + EncryptedKeyPackageState \<times> ByteReader" where
  "readKeyPackage r =
     sbind (readerExpect ENCRYPTED_KEY_PACKAGE_STATE_MAGIC r) (\<lambda>(_, r).
     sbind (readerUnsigned 2 r) (\<lambda>(version, r).
     if version \<noteq> 1 then Inl EnvelopeError
     else
       sbind (readerString16 r) (\<lambda>(pid, r).
       sbind (readerUnsigned 2 r) (\<lambda>(pversion, r).
       sbind (readerBytes16 1 MAX_GROUP_ID_BYTES r) (\<lambda>(gid, r).
       sbind (readerBytes16 1 MAX_KEY_PACKAGE_REFERENCE_BYTES r) (\<lambda>(reference, r).
       sbind (readerBytes32 1 MAX_KEY_PACKAGE_PAYLOAD_BYTES r) (\<lambda>(payload, r).
       sbind (readerString16 r) (\<lambda>(algorithm, r).
       sbind (readerString16 r) (\<lambda>(keyId, r).
       sbind (readerBytes16 1 MAX_SHORT_BYTES r) (\<lambda>(nonce, r).
       sbind (readerBytes32 1 MAX_CIPHERTEXT_BYTES r) (\<lambda>(ciphertext, r).
         Inr (\<lparr>ekpKeyPackage = \<lparr>kpProtocol = \<lparr>protoId = pid, protoVersion = pversion\<rparr>, kpGroupId = gid,
                 kpReference = reference, kpPayload = payload\<rparr>,
               ekpAlgorithm = algorithm, ekpKeyId = keyId, ekpNonce = nonce, ekpCiphertext = ciphertext\<rparr>, r))))))))))))"

definition deserializeKeyPackage :: "bytes \<Rightarrow> envelope_error + EncryptedKeyPackageState" where
  "deserializeKeyPackage bs =
     sbind (newByteReader bs MAX_ENCRYPTED_KEY_PACKAGE_STATE_SERIALIZED_BYTES) (\<lambda>r.
     sbind (readKeyPackage r) (\<lambda>(e, r).
     sbind (readerDone r) (\<lambda>_.
     sbind (validateKeyPackage (ekpKeyPackage e)) (\<lambda>_.
     sbind (validateProtectorIdentity (ekpAlgorithm e) (ekpKeyId e)) (\<lambda>_. Inr e)))))"

subsection \<open>Applied membership changes\<close>

datatype AppliedGroupMembershipChange =
    AppliedAdd (appliedMember: bytes) bytes
  | AppliedRemove (appliedMember: bytes)
  | AppliedUpdate (appliedMember: bytes) bytes

fun snapshotAppliedMembershipChange :: "AppliedGroupMembershipChange \<Rightarrow> envelope_error + AppliedGroupMembershipChange" where
  "snapshotAppliedMembershipChange (AppliedRemove m) =
     sbind (snapshotBoundedBytes m 1 MAX_MEMBER_ID_BYTES) (\<lambda>m. Inr (AppliedRemove m))"
| "snapshotAppliedMembershipChange (AppliedAdd m k) =
     sbind (snapshotBoundedBytes m 1 MAX_MEMBER_ID_BYTES) (\<lambda>m.
     sbind (snapshotBoundedBytes k 1 MAX_KEY_PACKAGE_REFERENCE_BYTES) (\<lambda>k. Inr (AppliedAdd m k)))"
| "snapshotAppliedMembershipChange (AppliedUpdate m k) =
     sbind (snapshotBoundedBytes m 1 MAX_MEMBER_ID_BYTES) (\<lambda>m.
     sbind (snapshotBoundedBytes k 1 MAX_KEY_PACKAGE_REFERENCE_BYTES) (\<lambda>k. Inr (AppliedUpdate m k)))"

fun snapshotAppliedChanges :: "AppliedGroupMembershipChange list \<Rightarrow> envelope_error + AppliedGroupMembershipChange list" where
  "snapshotAppliedChanges [] = Inr []"
| "snapshotAppliedChanges (c # cs) =
     sbind (snapshotAppliedMembershipChange c) (\<lambda>c. sbind (snapshotAppliedChanges cs) (\<lambda>cs. Inr (c # cs)))"

definition snapshotAppliedGroupMembershipDelta ::
    "AppliedGroupMembershipChange list \<Rightarrow> envelope_error + AppliedGroupMembershipChange list" where
  "snapshotAppliedGroupMembershipDelta changes =
     (if int (length changes) > MAX_MEMBERSHIP_CHANGES then Inl EnvelopeError else snapshotAppliedChanges changes)"

fun encodeAppliedChanges ::
    "string list \<Rightarrow> string list \<Rightarrow> AppliedGroupMembershipChange list \<Rightarrow> envelope_error + bytes" where
  "encodeAppliedChanges members refs [] = Inr []"
| "encodeAppliedChanges members refs (change # rest) =
     (let memberKey = hex_bytes (appliedMember change)
      in if memberKey \<in> set members then Inl EnvelopeError
         else case change of
           AppliedRemove m \<Rightarrow>
             sbind (bytes16 m) (\<lambda>mb.
             sbind (encodeAppliedChanges (memberKey # members) refs rest) (\<lambda>tl. Inr ([2] @ mb @ tl)))
         | AppliedAdd m k \<Rightarrow>
             if hex_bytes k \<in> set refs then Inl EnvelopeError
             else
               sbind (bytes16 m) (\<lambda>mb. sbind (bytes16 k) (\<lambda>kb.
               sbind (encodeAppliedChanges (memberKey # members) (hex_bytes k # refs) rest) (\<lambda>tl. Inr ([1] @ mb @ kb @ tl))))
         | AppliedUpdate m k \<Rightarrow>
             if hex_bytes k \<in> set refs then Inl EnvelopeError
             else
               sbind (bytes16 m) (\<lambda>mb. sbind (bytes16 k) (\<lambda>kb.
               sbind (encodeAppliedChanges (memberKey # members) (hex_bytes k # refs) rest) (\<lambda>tl. Inr ([3] @ mb @ kb @ tl)))))"

definition canonicalAppliedGroupMembershipDelta :: "AppliedGroupMembershipChange list \<Rightarrow> envelope_error + bytes" where
  "canonicalAppliedGroupMembershipDelta changes =
     sbind (snapshotAppliedGroupMembershipDelta changes) (\<lambda>snapshot.
     sbind (u16 (int (length snapshot))) (\<lambda>n.
     sbind (encodeAppliedChanges [] [] snapshot) (\<lambda>body.
       Inr (APPLIED_MEMBERSHIP_DELTA_DOMAIN @ n @ body))))"


section \<open>Parsing laws\<close>

subsection \<open>Fields\<close>

definition reader_ok :: "ByteReader \<Rightarrow> bool" where
  "reader_ok r \<longleftrightarrow> brOffset r \<le> length (brBytes r)"

definition reader_rest :: "ByteReader \<Rightarrow> bytes" where
  "reader_rest r = drop (brOffset r) (brBytes r)"

definition reader_skip :: "ByteReader \<Rightarrow> nat \<Rightarrow> ByteReader" where
  "reader_skip r n = r\<lparr>brOffset := brOffset r + n\<rparr>"

text \<open>
  A field parser reads exactly the encodings that its relation describes: it returns
  \<open>x\<close> iff the unread bytes start with an encoding of \<open>x\<close>, and stops behind it.
\<close>

locale byte_field =
  fixes get :: "ByteReader \<Rightarrow> envelope_error + 'a \<times> ByteReader" and encodes :: "'a \<Rightarrow> bytes \<Rightarrow> bool"
  assumes law: "reader_ok r \<Longrightarrow> get r = Inr (x, r') \<longleftrightarrow>
      (\<exists>bs t. encodes x bs \<and> reader_rest r = bs @ t \<and> r' = reader_skip r (length bs))"
begin

lemma whole: "sbind (newByteReader v m) (\<lambda>r. sbind (get r) (\<lambda>(x, r). sbind (readerDone r) (\<lambda>_. k x))) = Inr y \<longleftrightarrow>
  int (length v) \<le> m \<and> (\<exists>x. encodes x v \<and> k x = Inr y)"
proof (cases "int (length v) \<le> m")
  case True
  let ?r = "\<lparr>brBytes = v, brOffset = 0\<rparr>"
  have r: "reader_ok ?r" "reader_rest ?r = v" by (simp_all add: reader_ok_def reader_rest_def)
  have "newByteReader v m = Inr ?r" using True by (simp add: newByteReader_def snapshotBoundedBytes_def)
  moreover have "get ?r = Inr (x, r') \<and> readerDone r' = Inr u \<longleftrightarrow> encodes x v \<and> r' = reader_skip ?r (length v)" for x r' u
    unfolding law [OF r(1)] r(2) by (auto simp: readerDone_def reader_skip_def)
  ultimately show ?thesis using True by (auto simp: sbind_Inr_iff split_paired_Ex)
qed (simp add: newByteReader_def snapshotBoundedBytes_def)

end

lemma skip_ok: "reader_ok r \<Longrightarrow> reader_rest r = bs @ t \<Longrightarrow> reader_ok (reader_skip r (length bs)) \<and> reader_rest (reader_skip r (length bs)) = t"
proof -
  assume r: "reader_ok r" "reader_rest r = bs @ t"
  then have "length (brBytes r) - brOffset r = length bs + length t" by (metis length_append length_drop reader_rest_def)
  then have "brOffset r + length bs \<le> length (brBytes r)" using r(1) by (simp add: reader_ok_def)
  moreover have "drop (length bs) (drop (brOffset r) (brBytes r)) = t" using r(2) by (simp add: reader_rest_def)
  ultimately show ?thesis by (simp add: reader_ok_def reader_rest_def reader_skip_def add.commute)
qed

lemma skip_skip [simp]: "reader_skip (reader_skip r m) n = reader_skip r (m + n)"
  by (simp add: reader_skip_def)

lemma field_return: "byte_field (\<lambda>r. Inr (x, r)) (\<lambda>y bs. y = x \<and> bs = [])"
  by unfold_locales (auto simp: reader_skip_def)

lemma field_fail: "byte_field (\<lambda>r. Inl e) (\<lambda>y bs. False)"
  by unfold_locales auto

lemma field_if: "byte_field g R \<Longrightarrow> byte_field h S \<Longrightarrow> byte_field (\<lambda>r. if c then g r else h r) (\<lambda>x bs. if c then R x bs else S x bs)"
  by (cases c) auto

lemma field_bind:
  assumes g: "byte_field g R" and h: "\<And>x. byte_field (h x) (S x)"
  shows "byte_field (\<lambda>r. sbind (g r) (\<lambda>(x, r'). h x r')) (\<lambda>y bs. \<exists>x b1 b2. bs = b1 @ b2 \<and> R x b1 \<and> S x y b2)"
proof
  fix r y r''
  assume r: "reader_ok r"
  note gl = byte_field.law [OF g r]
  show "sbind (g r) (\<lambda>(x, r'). h x r') = Inr (y, r'') \<longleftrightarrow>
    (\<exists>bs t. (\<exists>x b1 b2. bs = b1 @ b2 \<and> R x b1 \<and> S x y b2) \<and> reader_rest r = bs @ t \<and> r'' = reader_skip r (length bs))"
    (is "?l \<longleftrightarrow> ?r")
  proof
    assume ?l
    then obtain x r' where "g r = Inr (x, r')" and hx: "h x r' = Inr (y, r'')" by (auto simp: sbind_Inr_iff)
    then obtain b1 t1 where b1: "R x b1" "reader_rest r = b1 @ t1" "r' = reader_skip r (length b1)" using gl by blast
    have r': "reader_ok r'" "reader_rest r' = t1" using skip_ok [OF r b1(2)] b1(3) by auto
    obtain b2 t2 where b2: "S x y b2" "t1 = b2 @ t2" "r'' = reader_skip r' (length b2)"
      using hx byte_field.law [OF h r'(1)] r'(2) by auto
    show ?r using b1 b2 by (intro exI [of _ "b1 @ b2"] exI [of _ t2]) auto
  next
    assume ?r
    then obtain x b1 b2 t where b: "R x b1" "S x y b2" "reader_rest r = b1 @ b2 @ t" "r'' = reader_skip r (length b1 + length b2)"
      by auto
    have "g r = Inr (x, reader_skip r (length b1))" using gl b by blast
    moreover have "h x (reader_skip r (length b1)) = Inr (y, r'')"
      using byte_field.law [OF h] skip_ok [OF r b(3)] b by auto
    ultimately show ?l by simp
  qed
qed

lemma field_take:
  assumes "0 \<le> n"
  shows "byte_field (\<lambda>r. readerTake r n) (\<lambda>x bs. bs = x \<and> int (length x) = n)"
proof
  fix r x r'
  assume r: "reader_ok r"
  show "readerTake r n = Inr (x, r') \<longleftrightarrow>
      (\<exists>bs t. (bs = x \<and> int (length x) = n) \<and> reader_rest r = bs @ t \<and> r' = reader_skip r (length bs))"
  proof (cases "int (brOffset r) + n > int (length (brBytes r))")
    case True
    then have "int (length (reader_rest r)) < n" using r by (simp add: reader_rest_def reader_ok_def)
    then show ?thesis using True by (auto simp: readerTake_def)
  next
    case False
    let ?x = "take (nat n) (reader_rest r)"
    have len: "int (length ?x) = n" using False assms r by (simp add: reader_rest_def reader_ok_def)
    have "(\<exists>t. int (length x) = n \<and> reader_rest r = x @ t) \<longleftrightarrow> x = ?x"
    proof
      assume "x = ?x"
      then show "\<exists>t. int (length x) = n \<and> reader_rest r = x @ t" using len by (metis append_take_drop_id)
    qed auto
    moreover have "readerTake r n = Inr (?x, reader_skip r (nat n))"
      using False assms by (simp add: readerTake_def reader_skip_def reader_rest_def)
    ultimately show ?thesis using len by auto
  qed
qed

lemma beValue_bigEndian: "0 \<le> n \<Longrightarrow> n < 2 ^ (width * 8) \<Longrightarrow> beValue (bigEndian width n) = n"
  by (simp add: beValue_def bigEndian_value)

lemma beValue_snoc: "beValue (bs @ [b]) = beValue bs * 256 + uint b"
  by (simp add: beValue_def)

lemma beValue_range: "0 \<le> beValue bs \<and> beValue bs < 2 ^ (length bs * 8)"
proof (induction bs rule: rev_induct)
  case (snoc b bs)
  have "0 \<le> uint b" "uint b < 256" using uint_lt2p [of b] by simp_all
  moreover have "beValue bs * 256 + 256 \<le> 2 ^ (length bs * 8) * 256" using snoc.IH by simp
  ultimately show ?case using snoc.IH by (simp add: beValue_snoc power_add)
qed (simp add: beValue_def)

lemma bigEndian_beValue: "bigEndian (length bs) (beValue bs) = bs"
proof (induction bs rule: rev_induct)
  case (snoc b bs)
  have "0 \<le> uint b" "uint b < 256" using uint_lt2p [of b] by simp_all
  then show ?case using snoc.IH by (simp add: beValue_snoc)
qed simp

lemma bigEndian_iff: "length bs = width \<and> beValue bs = n \<longleftrightarrow> bs = bigEndian width n \<and> 0 \<le> n \<and> n < 2 ^ (width * 8)"
  using beValue_range [of bs] bigEndian_beValue [of bs] beValue_bigEndian [of n width] by auto

lemma field_unsigned:
  "byte_field (readerUnsigned width) (\<lambda>n bs. bs = bigEndian width n \<and> 0 \<le> n \<and> n < 2 ^ (width * 8))"
proof -
  have "byte_field (readerUnsigned width) (\<lambda>y bs. \<exists>x b1 b2. bs = b1 @ b2 \<and> (b1 = x \<and> int (length x) = int width) \<and> y = beValue x \<and> b2 = [])"
    unfolding readerUnsigned_def by (rule field_bind [OF field_take field_return]) simp
  moreover have "(\<exists>x b1 b2. bs = b1 @ b2 \<and> (b1 = x \<and> int (length x) = int width) \<and> n = beValue x \<and> b2 = []) \<longleftrightarrow>
      bs = bigEndian width n \<and> 0 \<le> n \<and> n < 2 ^ (width * 8)" for n bs
    unfolding bigEndian_iff [symmetric] by auto
  ultimately show ?thesis by simp
qed

lemma field_expect: "byte_field (readerExpect expected) (\<lambda>u bs. bs = expected)"
proof -
  have "byte_field (readerExpect expected) (\<lambda>y bs. \<exists>x b1 b2. bs = b1 @ b2 \<and> (b1 = x \<and> int (length x) = int (length expected)) \<and>
      (if \<not> equalBytes x expected then False else y = () \<and> b2 = []))"
    unfolding readerExpect_def by (intro field_bind [OF field_take field_if [OF field_fail field_return]]) simp
  then show ?thesis by (rule back_subst) (auto intro!: arg_cong2 [where f = byte_field] ext)
qed

lemma field_counted:
  "byte_field (\<lambda>r. sbind (readerUnsigned width r) (\<lambda>(len, r). sbind (validateLength len mn mx) (\<lambda>_. readerTake r len)))
     (\<lambda>x bs. bs = bigEndian width (int (length x)) @ x \<and> int (length x) < 2 ^ (width * 8) \<and> mn \<le> int (length x) \<and> int (length x) \<le> mx)"
proof -
  have inner: "byte_field (\<lambda>r. if 0 \<le> len \<and> mn \<le> len \<and> len \<le> mx then readerTake r len else Inl EnvelopeError)
      (\<lambda>x bs. if 0 \<le> len \<and> mn \<le> len \<and> len \<le> mx then bs = x \<and> int (length x) = len else False)" for len
    using field_if [OF field_take field_fail] field_fail
    by (cases "0 \<le> len \<and> mn \<le> len \<and> len \<le> mx") (auto intro: field_take)
  have "(\<lambda>r. sbind (validateLength len mn mx) (\<lambda>_. readerTake r len)) =
      (\<lambda>r. if 0 \<le> len \<and> mn \<le> len \<and> len \<le> mx then readerTake r len else Inl EnvelopeError)" for len
    by (auto simp: validateLength_def require_def readerTake_def fun_eq_iff)
  then have "byte_field (\<lambda>r. sbind (readerUnsigned width r) (\<lambda>(len, r). sbind (validateLength len mn mx) (\<lambda>_. readerTake r len)))
      (\<lambda>x bs. \<exists>len b1 b2. bs = b1 @ b2 \<and> (b1 = bigEndian width len \<and> 0 \<le> len \<and> len < 2 ^ (width * 8)) \<and>
        (if 0 \<le> len \<and> mn \<le> len \<and> len \<le> mx then b2 = x \<and> int (length x) = len else False))"
    by (intro field_bind [OF field_unsigned]) (simp only: inner)
  then show ?thesis by (rule back_subst) (auto intro!: arg_cong2 [where f = byte_field] ext split: if_splits)
qed

definition counted :: "nat \<Rightarrow> bytes \<Rightarrow> bytes" where
  "counted width x = bigEndian width (int (length x)) @ x"

lemma field_bytes16:
  "byte_field (readerBytes16 mn mx) (\<lambda>x bs. bs = counted 2 x \<and> int (length x) < 65536 \<and> mn \<le> int (length x) \<and> int (length x) \<le> mx)"
  using field_counted [of 2 mn mx] by (simp add: counted_def readerBytes16_def [abs_def])

lemma field_bytes32:
  "byte_field (readerBytes32 mn mx) (\<lambda>x bs. bs = counted 4 x \<and> int (length x) < 4294967296 \<and> mn \<le> int (length x) \<and> int (length x) \<le> mx)"
  using field_counted [of 4 mn mx] by (simp add: counted_def readerBytes32_def [abs_def])

subsection \<open>Printable text\<close>

definition printableUnit :: "16 word \<Rightarrow> bool" where
  "printableUnit c \<longleftrightarrow> 0x20 \<le> c \<and> c \<le> 0x7e"

definition printable :: "js_string \<Rightarrow> bool" where
  "printable s \<longleftrightarrow> list_all printableUnit s"

definition ascii_of :: "js_string \<Rightarrow> bytes" where
  "ascii_of s = map ucast s"

lemma printable_unit: "printableUnit c \<Longrightarrow> unat c < 128"
  by (simp add: printableUnit_def word_le_nat_alt)

lemma printable_surrogate: "printableUnit c \<Longrightarrow> \<not> isHighSurrogate c" "printableUnit c \<Longrightarrow> \<not> isLowSurrogate c"
  using printable_unit [of c] by (simp_all add: isHighSurrogate_def isLowSurrogate_def)

lemma codePoints_printable: "printable s \<Longrightarrow> codePoints s = map unat s"
  by (induction s rule: codePoints.induct) (simp_all add: printable_def printable_surrogate)

lemma encodeUtf8_printable: "printable s \<Longrightarrow> encodeUtf8 s = ascii_of s"
proof -
  assume p: "printable s"
  have "concat (map utf8Point (map unat s)) = ascii_of s" using p
    by (induction s) (simp_all add: printable_def utf8Point_def ascii_of_def printable_unit)
  then show ?thesis using codePoints_printable [OF p] by (simp add: encodeUtf8_def)
qed

lemma printable_well_formed: "printable s \<Longrightarrow> isWellFormedUtf16 s"
  unfolding isWellFormedUtf16_iff
  by (induction s rule: paired_units.induct) (simp_all add: printable_def printable_surrogate)

lemma takePoint_bound: "takePoint bs = Some (p, rest) \<Longrightarrow> p < 1114112"
  by (cases bs) (auto simp: Let_def scalarValue_def isContinuation_def split: if_splits list.splits)

lemma takePoint_low: "takePoint bs = Some (p, rest) \<Longrightarrow> p < 128 \<Longrightarrow> bs = of_nat p # rest"
  by (cases bs) (auto simp: Let_def split: if_splits list.splits)

lemma unitsOf_printable: "p < 1114112 \<Longrightarrow> list_all printableUnit (unitsOf p) \<Longrightarrow> p < 128 \<and> unitsOf p = [of_nat p]"
proof -
  assume p: "p < 1114112" "list_all printableUnit (unitsOf p)"
  show ?thesis
  proof (cases "p < 65536")
    case True
    then have "unat (of_nat p :: 16 word) < 128" using p(2) printable_unit by (simp add: unitsOf_def)
    then show ?thesis using True by (simp add: unitsOf_def unat_unit)
  next
    case False
    have "(p - 65536) div 1024 < 1024" using p(1) by (simp add: div_less_iff_less_mult)
    then have "unat (of_nat (55296 + (p - 65536) div 1024) :: 16 word) = 55296 + (p - 65536) div 1024"
      by (intro unat_unit) simp
    moreover have "printableUnit (of_nat (55296 + (p - 65536) div 1024))" using p(2) False by (simp add: unitsOf_def)
    ultimately show ?thesis using printable_unit [of "of_nat (55296 + (p - 65536) div 1024)"] by simp
  qed
qed

lemma utf8Decode_ascii: "utf8Decode b = Some s \<Longrightarrow> printable s \<Longrightarrow> b = ascii_of s"
proof (induction b arbitrary: s rule: utf8Decode.induct)
  case (1 b)
  show ?case
  proof (cases "b = []")
    case True
    then show ?thesis using "1.prems" by (simp add: utf8Decode.simps ascii_of_def)
  next
    case False
    then obtain p rest s' where t: "takePoint b = Some (p, rest)" "utf8Decode rest = Some s'" "s = unitsOf p @ s'"
      using "1.prems"(1) by (auto simp: utf8Decode.simps [of b] split: option.splits)
    have u: "p < 128" "unitsOf p = [of_nat p]"
      using unitsOf_printable [OF takePoint_bound [OF t(1)]] t(3) "1.prems"(2) by (auto simp: printable_def)
    have "rest = ascii_of s'" using "1.IH" [OF False t(1) refl t(2)] t(3) "1.prems"(2) by (simp add: printable_def)
    moreover have "(ucast (of_nat p :: 16 word) :: byte) = of_nat p"
    proof -
      have "unat (of_nat p :: 16 word) = p" using u(1) by (intro unat_unit) simp
      moreover have "(of_nat (unat (of_nat p :: 16 word)) :: byte) = ucast (of_nat p :: 16 word)" by simp
      ultimately show ?thesis by presburger
    qed
    ultimately show ?thesis using takePoint_low [OF t(1) u(1)] t(3) u(2) by (simp add: ascii_of_def)
  qed
qed

lemma ascii_not_bom: "printable s \<Longrightarrow> take 3 (ascii_of s) \<noteq> BOM"
proof (cases s)
  case (Cons c cs)
  assume "printable s"
  then have "unat c < 128" using Cons by (simp add: printable_def printable_unit)
  then have "unat (ucast c :: byte) < 128" by (simp add: unsigned_ucast_eq) (meson le_less_trans take_bit_nat_less_eq_self)
  then have "(ucast c :: byte) \<noteq> 0xEF" by auto
  then show ?thesis using Cons by (simp add: ascii_of_def BOM_def)
qed (simp add: ascii_of_def BOM_def)

lemma decodeUtf8Bom_printable:
  "printable s \<Longrightarrow> decodeUtf8Bom b = Some s \<longleftrightarrow> b = ascii_of s \<or> b = BOM @ ascii_of s"
proof -
  assume p: "printable s"
  have d: "utf8Decode (ascii_of s) = Some s"
    using utf8_roundtrip [OF printable_well_formed [OF p]] by (simp add: encodeUtf8_printable [OF p])
  have u: "utf8Decode c = Some s \<longleftrightarrow> c = ascii_of s" for c
    by (rule iffI, erule utf8Decode_ascii [OF _ p], simp only: d)
  have bom: "take 3 (BOM @ c) = BOM" "drop 3 (BOM @ c) = c" for c by (simp_all add: BOM_def)
  show ?thesis
  proof (cases "take 3 b = BOM")
    case True
    then obtain c where c: "b = BOM @ c" by (metis append_take_drop_id)
    have "b \<noteq> ascii_of s" using True ascii_not_bom [OF p] by auto
    moreover have "decodeUtf8Bom b = utf8Decode c" unfolding c decodeUtf8Bom_def bom by simp
    ultimately show ?thesis using c u by simp
  next
    case False
    then show ?thesis using u bom(1) by (auto simp: decodeUtf8Bom_def)
  qed
qed

text \<open>The bytes a text field may have been read from.\<close>

definition text_bytes :: "js_string \<Rightarrow> bytes \<Rightarrow> bool" where
  "text_bytes s body \<longleftrightarrow> (body = ascii_of s \<or> body = BOM @ ascii_of s) \<and> length body < 65536"

lemma field_string16:
  "byte_field readerString16 (\<lambda>s bs. \<exists>body. bs = counted 2 body \<and> text_bytes s body \<and> s \<noteq> [] \<and> printable s)"
proof -
  let ?h = "\<lambda>b r. case decodeUtf8Bom b of None \<Rightarrow> Inl EnvelopeError
      | Some s \<Rightarrow> if s = [] \<or> \<not> printable s then Inl EnvelopeError else Inr (s, r)"
  have h: "byte_field (?h b) (\<lambda>s bs. decodeUtf8Bom b = Some s \<and> s \<noteq> [] \<and> printable s \<and> bs = [])" for b
    by unfold_locales (auto simp: reader_skip_def split: option.splits)
  have pr: "printable s = list_all (\<lambda>c. 0x20 \<le> c \<and> c \<le> 0x7e) s" for s
    by (simp add: printable_def printableUnit_def [abs_def])
  have "byte_field readerString16 (\<lambda>s bs. \<exists>x b1 b2. bs = b1 @ b2 \<and>
      (b1 = counted 2 x \<and> int (length x) < 65536 \<and> 1 \<le> int (length x) \<and> int (length x) \<le> MAX_SHORT_BYTES) \<and>
      decodeUtf8Bom x = Some s \<and> s \<noteq> [] \<and> printable s \<and> b2 = [])"
    unfolding readerString16_def [abs_def] pr [symmetric] by (rule field_bind [OF field_bytes16 h])
  moreover have "(\<exists>x b1 b2. bs = b1 @ b2 \<and>
      (b1 = counted 2 x \<and> int (length x) < 65536 \<and> 1 \<le> int (length x) \<and> int (length x) \<le> MAX_SHORT_BYTES) \<and>
      decodeUtf8Bom x = Some s \<and> s \<noteq> [] \<and> printable s \<and> b2 = []) \<longleftrightarrow>
      (\<exists>body. bs = counted 2 body \<and> text_bytes s body \<and> s \<noteq> [] \<and> printable s)" for s bs
    by (cases "s \<noteq> [] \<and> printable s") (auto simp: decodeUtf8Bom_printable text_bytes_def MAX_SHORT_BYTES_def BOM_def ascii_of_def Suc_le_eq)
  ultimately show ?thesis by simp
qed

lemma identifier_printable:
  "canonicalIdentifier s \<Longrightarrow> s \<noteq> [] \<and> printable s \<and> length s \<le> 128"
  "protectorKeyId s \<Longrightarrow> s \<noteq> [] \<and> printable s \<and> length s \<le> 256"
proof -
  have unit: "alnumUnit c \<Longrightarrow> printableUnit c" "c \<in> {46, 95, 47, 64, 58, 45} \<Longrightarrow> printableUnit c" for c
    by (auto simp: alnumUnit_def printableUnit_def word_le_nat_alt)
  show "canonicalIdentifier s \<Longrightarrow> s \<noteq> [] \<and> printable s \<and> length s \<le> 128"
    using unit by (cases s) (auto simp: canonicalIdentifier_def printable_def list_all_iff)
  show "protectorKeyId s \<Longrightarrow> s \<noteq> [] \<and> printable s \<and> length s \<le> 256"
    using unit by (cases s) (auto simp: protectorKeyId_def printable_def list_all_iff)
qed

subsection \<open>Envelopes\<close>

text \<open>The serialized form, given the bytes of the three text fields.\<close>

definition groupStateWire :: "EncryptedGroupState \<Rightarrow> bytes \<Rightarrow> bytes \<Rightarrow> bytes \<Rightarrow> bytes" where
  "groupStateWire e pid alg key =
     ENCRYPTED_GROUP_STATE_MAGIC @ bigEndian 2 1 @ counted 2 pid @ bigEndian 2 (protoVersion (stateProtocol (egsState e))) @
     counted 2 (stateGroupId (egsState e)) @ bigEndian 8 (stateEpoch (egsState e)) @ counted 2 (stateTranscript (egsState e)) @
     counted 2 (stateTreeHash (egsState e)) @ counted 2 alg @ counted 2 key @ counted 2 (egsNonce e) @ counted 4 (egsCiphertext e)"

definition keyPackageWire :: "EncryptedKeyPackageState \<Rightarrow> bytes \<Rightarrow> bytes \<Rightarrow> bytes \<Rightarrow> bytes" where
  "keyPackageWire e pid alg key =
     ENCRYPTED_KEY_PACKAGE_STATE_MAGIC @ bigEndian 2 1 @ counted 2 pid @ bigEndian 2 (protoVersion (kpProtocol (ekpKeyPackage e))) @
     counted 2 (kpGroupId (ekpKeyPackage e)) @ counted 2 (kpReference (ekpKeyPackage e)) @ counted 4 (kpPayload (ekpKeyPackage e)) @
     counted 2 alg @ counted 2 key @ counted 2 (ekpNonce e) @ counted 4 (ekpCiphertext e)"

definition sizes_ok :: "bytes \<Rightarrow> bytes \<Rightarrow> bool" where
  "sizes_ok nonce ciphertext \<longleftrightarrow> nonce \<noteq> [] \<and> int (length nonce) \<le> MAX_SHORT_BYTES \<and>
     ciphertext \<noteq> [] \<and> int (length ciphertext) \<le> MAX_CIPHERTEXT_BYTES"

definition group_state_ok :: "EncryptedGroupState \<Rightarrow> bool" where
  "group_state_ok e \<longleftrightarrow> validatePublicState (egsState e) = Inr () \<and>
     validateProtectorIdentity (egsAlgorithm e) (egsKeyId e) = Inr () \<and> sizes_ok (egsNonce e) (egsCiphertext e)"

definition key_package_ok :: "EncryptedKeyPackageState \<Rightarrow> bool" where
  "key_package_ok e \<longleftrightarrow> validateKeyPackage (ekpKeyPackage e) = Inr () \<and>
     validateProtectorIdentity (ekpAlgorithm e) (ekpKeyId e) = Inr () \<and> sizes_ok (ekpNonce e) (ekpCiphertext e)"

lemmas envelope_limits = MAX_SHORT_BYTES_def MAX_GROUP_ID_BYTES_def MAX_HASH_BYTES_def MAX_KEY_PACKAGE_REFERENCE_BYTES_def
  MAX_KEY_PACKAGE_PAYLOAD_BYTES_def MAX_CIPHERTEXT_BYTES_def MAX_U64_def

lemma validatePublicState_Inr: "validatePublicState s = Inr u \<longleftrightarrow>
    canonicalIdentifier (protoId (stateProtocol s)) \<and> 0 \<le> protoVersion (stateProtocol s) \<and> protoVersion (stateProtocol s) \<le> 65535 \<and>
    (stateGroupId s) \<noteq> [] \<and> int (length (stateGroupId s)) \<le> MAX_GROUP_ID_BYTES \<and> 0 \<le> stateEpoch s \<and> stateEpoch s \<le> MAX_U64 \<and>
    (stateEpoch s = 0 \<or> (stateTranscript s) \<noteq> []) \<and> int (length (stateTranscript s)) \<le> MAX_HASH_BYTES \<and>
    (stateTreeHash s) \<noteq> [] \<and> int (length (stateTreeHash s)) \<le> MAX_HASH_BYTES"
  by (auto simp: validatePublicState_def validateProtocol_def validateBytes_def validateU64_def sbind_Inr_iff)

lemma validateKeyPackage_Inr: "validateKeyPackage k = Inr u \<longleftrightarrow>
    canonicalIdentifier (protoId (kpProtocol k)) \<and> 0 \<le> protoVersion (kpProtocol k) \<and> protoVersion (kpProtocol k) \<le> 65535 \<and>
    (kpGroupId k) \<noteq> [] \<and> int (length (kpGroupId k)) \<le> MAX_GROUP_ID_BYTES \<and>
    (kpReference k) \<noteq> [] \<and> int (length (kpReference k)) \<le> MAX_KEY_PACKAGE_REFERENCE_BYTES \<and>
    (kpPayload k) \<noteq> [] \<and> int (length (kpPayload k)) \<le> MAX_KEY_PACKAGE_PAYLOAD_BYTES"
  by (auto simp: validateKeyPackage_def validateProtocol_def validateBytes_def sbind_Inr_iff)

lemma validateProtectorIdentity_Inr: "validateProtectorIdentity a k = Inr u \<longleftrightarrow> canonicalIdentifier a \<and> protectorKeyId k"
  by (auto simp: validateProtectorIdentity_def)

lemma bytes16_ok: "length b < 65536 \<Longrightarrow> bytes16 b = Inr (counted 2 b)"
  by (simp add: bytes16_def u16_def counted_def)

lemma bytes32_ok: "length b < 4294967296 \<Longrightarrow> bytes32 b = Inr (counted 4 b)"
  by (simp add: bytes32_def u32_def counted_def)

lemma identifier_bytes:
  "canonicalIdentifier s \<Longrightarrow> encodeUtf8 s = ascii_of s \<and> length (ascii_of s) \<le> 128"
  "protectorKeyId s \<Longrightarrow> encodeUtf8 s = ascii_of s \<and> length (ascii_of s) \<le> 256"
  by (auto dest!: identifier_printable simp: encodeUtf8_printable ascii_of_def)

lemma serializeGroupState_ok:
  assumes "group_state_ok e"
  shows "serializeGroupState e =
    Inr (groupStateWire e (ascii_of (protoId (stateProtocol (egsState e)))) (ascii_of (egsAlgorithm e)) (ascii_of (egsKeyId e)))"
proof -
  note v = assms [unfolded group_state_ok_def sizes_ok_def]
  note s = v [THEN conjunct1, unfolded validatePublicState_Inr] and i = v [THEN conjunct2, THEN conjunct1, unfolded validateProtectorIdentity_Inr]
  have t: "bytes16 (encodeUtf8 x) = Inr (counted 2 (ascii_of x))" if "canonicalIdentifier x \<or> protectorKeyId x" for x
    using that identifier_bytes [of x] by (auto intro!: bytes16_ok)
  have b: "bytes16 (stateGroupId (egsState e)) = Inr (counted 2 (stateGroupId (egsState e)))"
    "bytes16 (stateTranscript (egsState e)) = Inr (counted 2 (stateTranscript (egsState e)))"
    "bytes16 (stateTreeHash (egsState e)) = Inr (counted 2 (stateTreeHash (egsState e)))"
    using s by (auto intro!: bytes16_ok simp: envelope_limits)
  show ?thesis using v s i
    by (simp add: serializeGroupState_def encodeAssociatedData_def t b u16_def u32_def u64_def validateU64_def groupStateWire_def
        envelope_limits counted_def require_def)
qed

lemma serializeKeyPackage_ok:
  assumes "key_package_ok e"
  shows "serializeKeyPackage e =
    Inr (keyPackageWire e (ascii_of (protoId (kpProtocol (ekpKeyPackage e)))) (ascii_of (ekpAlgorithm e)) (ascii_of (ekpKeyId e)))"
proof -
  note v = assms [unfolded key_package_ok_def sizes_ok_def]
  note s = v [THEN conjunct1, unfolded validateKeyPackage_Inr] and i = v [THEN conjunct2, THEN conjunct1, unfolded validateProtectorIdentity_Inr]
  have t: "bytes16 (encodeUtf8 x) = Inr (counted 2 (ascii_of x))" if "canonicalIdentifier x \<or> protectorKeyId x" for x
    using that identifier_bytes [of x] by (auto intro!: bytes16_ok)
  have b: "bytes16 (kpGroupId (ekpKeyPackage e)) = Inr (counted 2 (kpGroupId (ekpKeyPackage e)))"
    "bytes16 (kpReference (ekpKeyPackage e)) = Inr (counted 2 (kpReference (ekpKeyPackage e)))"
    "bytes32 (kpPayload (ekpKeyPackage e)) = Inr (counted 4 (kpPayload (ekpKeyPackage e)))"
    using s by (auto intro!: bytes16_ok bytes32_ok simp: envelope_limits)
  show ?thesis using v s i
    by (simp add: serializeKeyPackage_def encodeKeyPackageAssociatedData_def t b u16_def u32_def keyPackageWire_def
        envelope_limits counted_def)
qed

lemma field_cong: "byte_field g R \<Longrightarrow> (\<And>x bs. R x bs \<longleftrightarrow> S x bs) \<Longrightarrow> byte_field g S"
proof -
  assume g: "byte_field g R" and "\<And>x bs. R x bs \<longleftrightarrow> S x bs"
  then have "R = S" by (intro ext) simp
  then show ?thesis using g by simp
qed

definition group_state_reads :: "EncryptedGroupState \<Rightarrow> bytes \<Rightarrow> bool" where
  "group_state_reads e bs \<longleftrightarrow> (\<exists>pid alg key. bs = groupStateWire e pid alg key \<and>
     text_bytes (protoId (stateProtocol (egsState e))) pid \<and> text_bytes (egsAlgorithm e) alg \<and> text_bytes (egsKeyId e) key)"

definition group_state_fits :: "EncryptedGroupState \<Rightarrow> bool" where
  "group_state_fits e \<longleftrightarrow>
     protoId (stateProtocol (egsState e)) \<noteq> [] \<and> printable (protoId (stateProtocol (egsState e))) \<and>
     egsAlgorithm e \<noteq> [] \<and> printable (egsAlgorithm e) \<and> egsKeyId e \<noteq> [] \<and> printable (egsKeyId e) \<and>
     0 \<le> protoVersion (stateProtocol (egsState e)) \<and> protoVersion (stateProtocol (egsState e)) < 65536 \<and>
     0 \<le> stateEpoch (egsState e) \<and> stateEpoch (egsState e) < 2 ^ 64 \<and>
     stateGroupId (egsState e) \<noteq> [] \<and> int (length (stateGroupId (egsState e))) \<le> MAX_GROUP_ID_BYTES \<and>
     (if stateEpoch (egsState e) = 0 then 0 else 1) \<le> int (length (stateTranscript (egsState e))) \<and>
     int (length (stateTranscript (egsState e))) \<le> MAX_HASH_BYTES \<and>
     stateTreeHash (egsState e) \<noteq> [] \<and> int (length (stateTreeHash (egsState e))) \<le> MAX_HASH_BYTES \<and>
     sizes_ok (egsNonce e) (egsCiphertext e)"

lemma field_guard: "byte_field h S \<Longrightarrow> byte_field (\<lambda>r. if c then Inl e else h r) (\<lambda>x bs. \<not> c \<and> S x bs)"
  by (cases c) (simp_all add: field_fail)

lemma field_groupState: "byte_field readGroupState (\<lambda>e bs. group_state_fits e \<and> group_state_reads e bs)"
  apply (rule field_cong)
  apply (unfold readGroupState_def [abs_def]) []
  apply (rule field_bind field_guard field_expect field_unsigned field_string16 field_bytes16 field_bytes32 field_return)+
  apply (rule iffI)
  subgoal for e bs
    apply (elim exE conjE)
    apply (simp add: group_state_fits_def group_state_reads_def groupStateWire_def sizes_ok_def Suc_le_eq split: if_splits)
    apply blast+
    done
  subgoal for e bs
    apply (cases e; cases "egsState e"; cases "stateProtocol (egsState e)")
    apply (simp only: group_state_fits_def group_state_reads_def groupStateWire_def sizes_ok_def EncryptedGroupState.simps GroupSecurityPublicState.simps GroupSecurityProtocol.simps)
    apply (elim exE conjE)
    apply hypsubst
    apply (intro exI conjI)
    apply (rule refl append_Nil2 [symmetric] | assumption | simp add: envelope_limits Suc_le_eq)+
    done
  done
definition key_package_reads :: "EncryptedKeyPackageState \<Rightarrow> bytes \<Rightarrow> bool" where
  "key_package_reads e bs \<longleftrightarrow> (\<exists>pid alg key. bs = keyPackageWire e pid alg key \<and>
     text_bytes (protoId (kpProtocol (ekpKeyPackage e))) pid \<and> text_bytes (ekpAlgorithm e) alg \<and> text_bytes (ekpKeyId e) key)"

definition key_package_fits :: "EncryptedKeyPackageState \<Rightarrow> bool" where
  "key_package_fits e \<longleftrightarrow>
     protoId (kpProtocol (ekpKeyPackage e)) \<noteq> [] \<and> printable (protoId (kpProtocol (ekpKeyPackage e))) \<and>
     ekpAlgorithm e \<noteq> [] \<and> printable (ekpAlgorithm e) \<and> ekpKeyId e \<noteq> [] \<and> printable (ekpKeyId e) \<and>
     0 \<le> protoVersion (kpProtocol (ekpKeyPackage e)) \<and> protoVersion (kpProtocol (ekpKeyPackage e)) < 65536 \<and>
     kpGroupId (ekpKeyPackage e) \<noteq> [] \<and> int (length (kpGroupId (ekpKeyPackage e))) \<le> MAX_GROUP_ID_BYTES \<and>
     kpReference (ekpKeyPackage e) \<noteq> [] \<and> int (length (kpReference (ekpKeyPackage e))) \<le> MAX_KEY_PACKAGE_REFERENCE_BYTES \<and>
     kpPayload (ekpKeyPackage e) \<noteq> [] \<and> int (length (kpPayload (ekpKeyPackage e))) \<le> MAX_KEY_PACKAGE_PAYLOAD_BYTES \<and>
     sizes_ok (ekpNonce e) (ekpCiphertext e)"

lemma field_keyPackage: "byte_field readKeyPackage (\<lambda>e bs. key_package_fits e \<and> key_package_reads e bs)"
  apply (rule field_cong)
  apply (unfold readKeyPackage_def [abs_def]) []
  apply (rule field_bind field_guard field_expect field_unsigned field_string16 field_bytes16 field_bytes32 field_return)+
  apply (rule iffI)
  subgoal for e bs
    apply (elim exE conjE)
    apply (simp add: key_package_fits_def key_package_reads_def keyPackageWire_def sizes_ok_def Suc_le_eq split: if_splits)
    apply blast+
    done
  subgoal for e bs
    apply (cases e; cases "ekpKeyPackage e"; cases "kpProtocol (ekpKeyPackage e)")
    apply (simp only: key_package_fits_def key_package_reads_def keyPackageWire_def sizes_ok_def EncryptedKeyPackageState.simps GroupKeyPackage.simps GroupSecurityProtocol.simps)
    apply (elim exE conjE)
    apply hypsubst
    apply (intro exI conjI)
    apply (rule refl append_Nil2 [symmetric] | assumption | simp add: envelope_limits Suc_le_eq)+
    done
  done

lemma length_counted: "length (counted w x) = w + length x"
  by (simp add: counted_def)

lemma group_state_ok_fits: "group_state_ok e \<Longrightarrow> group_state_fits e"
  by (auto simp: group_state_ok_def group_state_fits_def validatePublicState_Inr validateProtectorIdentity_Inr MAX_U64_def Suc_le_eq
      dest!: identifier_printable)

lemma key_package_ok_fits: "key_package_ok e \<Longrightarrow> key_package_fits e"
  by (auto simp: key_package_ok_def key_package_fits_def validateKeyPackage_Inr validateProtectorIdentity_Inr dest!: identifier_printable)

interpretation group_state_field: byte_field readGroupState "\<lambda>e bs. group_state_fits e \<and> group_state_reads e bs"
  by (rule field_groupState)

interpretation key_package_field: byte_field readKeyPackage "\<lambda>e bs. key_package_fits e \<and> key_package_reads e bs"
  by (rule field_keyPackage)

lemma deserializeGroupState_Inr: "deserializeGroupState bs = Inr e \<longleftrightarrow>
    int (length bs) \<le> MAX_ENCRYPTED_GROUP_STATE_SERIALIZED_BYTES \<and> group_state_ok e \<and> group_state_reads e bs"
proof -
  have "deserializeGroupState bs = Inr e \<longleftrightarrow> int (length bs) \<le> MAX_ENCRYPTED_GROUP_STATE_SERIALIZED_BYTES \<and>
      (group_state_fits e \<and> group_state_reads e bs) \<and> validatePublicState (egsState e) = Inr () \<and>
      validateProtectorIdentity (egsAlgorithm e) (egsKeyId e) = Inr ()"
    unfolding deserializeGroupState_def group_state_field.whole by (auto simp: sbind_Inr_iff)
  then show ?thesis using group_state_ok_fits [of e] by (auto simp: group_state_ok_def group_state_fits_def)
qed

lemma deserializeKeyPackage_Inr: "deserializeKeyPackage bs = Inr e \<longleftrightarrow>
    int (length bs) \<le> MAX_ENCRYPTED_KEY_PACKAGE_STATE_SERIALIZED_BYTES \<and> key_package_ok e \<and> key_package_reads e bs"
proof -
  have "deserializeKeyPackage bs = Inr e \<longleftrightarrow> int (length bs) \<le> MAX_ENCRYPTED_KEY_PACKAGE_STATE_SERIALIZED_BYTES \<and>
      (key_package_fits e \<and> key_package_reads e bs) \<and> validateKeyPackage (ekpKeyPackage e) = Inr () \<and>
      validateProtectorIdentity (ekpAlgorithm e) (ekpKeyId e) = Inr ()"
    unfolding deserializeKeyPackage_def key_package_field.whole by (auto simp: sbind_Inr_iff)
  then show ?thesis using key_package_ok_fits [of e] by (auto simp: key_package_ok_def key_package_fits_def)
qed

lemma text_ascii: "length (ascii_of s) < 65536 \<Longrightarrow> text_bytes s (ascii_of s)"
  by (simp add: text_bytes_def)

lemma groupState_roundtrip:
  assumes "group_state_ok e"
  shows "\<exists>bs. serializeGroupState e = Inr bs \<and> deserializeGroupState bs = Inr e"
proof -
  note v = assms [unfolded group_state_ok_def sizes_ok_def validatePublicState_Inr validateProtectorIdentity_Inr]
  let ?p = "protoId (stateProtocol (egsState e))"
  let ?w = "groupStateWire e (ascii_of ?p) (ascii_of (egsAlgorithm e)) (ascii_of (egsKeyId e))"
  have len: "length (ascii_of ?p) \<le> 128" "length (ascii_of (egsAlgorithm e)) \<le> 128" "length (ascii_of (egsKeyId e)) \<le> 256"
    using v identifier_bytes by blast+
  have "group_state_reads e ?w" unfolding group_state_reads_def
    using len by (intro exI conjI) (auto intro!: text_ascii)
  moreover have "int (length ?w) \<le> MAX_ENCRYPTED_GROUP_STATE_SERIALIZED_BYTES"
    using v len by (simp add: groupStateWire_def length_counted MAX_ENCRYPTED_GROUP_STATE_SERIALIZED_BYTES_def envelope_limits ENCRYPTED_GROUP_STATE_MAGIC_def)
  ultimately show ?thesis using serializeGroupState_ok [OF assms] assms by (simp add: deserializeGroupState_Inr)
qed

lemma keyPackage_roundtrip:
  assumes "key_package_ok e"
  shows "\<exists>bs. serializeKeyPackage e = Inr bs \<and> deserializeKeyPackage bs = Inr e"
proof -
  note v = assms [unfolded key_package_ok_def sizes_ok_def validateKeyPackage_Inr validateProtectorIdentity_Inr]
  let ?p = "protoId (kpProtocol (ekpKeyPackage e))"
  let ?w = "keyPackageWire e (ascii_of ?p) (ascii_of (ekpAlgorithm e)) (ascii_of (ekpKeyId e))"
  have len: "length (ascii_of ?p) \<le> 128" "length (ascii_of (ekpAlgorithm e)) \<le> 128" "length (ascii_of (ekpKeyId e)) \<le> 256"
    using v identifier_bytes by blast+
  have "key_package_reads e ?w" unfolding key_package_reads_def
    using len by (intro exI conjI) (auto intro!: text_ascii)
  moreover have "int (length ?w) \<le> MAX_ENCRYPTED_KEY_PACKAGE_STATE_SERIALIZED_BYTES"
    using v len by (simp add: keyPackageWire_def length_counted MAX_ENCRYPTED_KEY_PACKAGE_STATE_SERIALIZED_BYTES_def envelope_limits ENCRYPTED_KEY_PACKAGE_STATE_MAGIC_def)
  ultimately show ?thesis using serializeKeyPackage_ok [OF assms] assms by (simp add: deserializeKeyPackage_Inr)
qed

lemma sealGroupState_Inr:
  assumes "sealGroupState s p prot = Inr e"
  shows "group_state_ok e \<and> egsState e = s \<and> egsAlgorithm e = protectorAlgorithm prot \<and> egsKeyId e = protectorKey prot \<and>
    1 \<le> length p \<and> int (length p) \<le> MAX_CIPHERTEXT_BYTES \<and>
    (\<exists>aad. encodeAssociatedData s (egsAlgorithm e) (egsKeyId e) = Inr aad \<and> protectorSeal prot p aad = Some (egsNonce e, egsCiphertext e))"
proof -
  obtain x pr aad sealed nonce ciphertext where p: "clonePublicState s = Inr x" "snapshotBoundedBytes p 1 MAX_CIPHERTEXT_BYTES = Inr pr"
    "validateProtectorIdentity (protectorAlgorithm prot) (protectorKey prot) = Inr ()"
    "encodeAssociatedData x (protectorAlgorithm prot) (protectorKey prot) = Inr aad" "protectorSeal prot pr aad = Some sealed"
    "snapshotGroupStateCiphertext sealed = Inr (nonce, ciphertext)"
    "e = \<lparr>egsState = x, egsAlgorithm = protectorAlgorithm prot, egsKeyId = protectorKey prot,
      egsNonce = nonce, egsCiphertext = ciphertext\<rparr>"
    using assms unfolding sealGroupState_def by (auto simp: sbind_Inr_iff split: option.splits)
  have x: "x = s" "validatePublicState s = Inr ()"
    using p(1) by (auto simp: clonePublicState_def snapshotBoundedBytes_def sbind_Inr_iff Let_def validatePublicState_Inr split: if_splits)
  have c: "sealed = (nonce, ciphertext)" "sizes_ok nonce ciphertext"
    using p(6) by (cases sealed, auto simp: snapshotGroupStateCiphertext_def snapshotBoundedBytes_def sbind_Inr_iff sizes_ok_def split: if_splits)+
  have "pr = p" "1 \<le> length p" "int (length p) \<le> MAX_CIPHERTEXT_BYTES"
    using p(2) by (auto simp: snapshotBoundedBytes_def Suc_le_eq split: if_splits)
  then show ?thesis using p(3-5,7) x c by (simp add: group_state_ok_def)
qed

lemma sealKeyPackage_Inr:
  assumes "sealKeyPackage k p prot = Inr e"
  shows "key_package_ok e \<and> ekpKeyPackage e = k \<and> ekpAlgorithm e = protectorAlgorithm prot \<and> ekpKeyId e = protectorKey prot \<and>
    1 \<le> length p \<and> int (length p) \<le> MAX_CIPHERTEXT_BYTES \<and>
    (\<exists>aad. encodeKeyPackageAssociatedData k (ekpAlgorithm e) (ekpKeyId e) = Inr aad \<and> protectorSeal prot p aad = Some (ekpNonce e, ekpCiphertext e))"
proof -
  obtain x pr aad sealed nonce ciphertext where p: "cloneKeyPackage k = Inr x" "snapshotBoundedBytes p 1 MAX_CIPHERTEXT_BYTES = Inr pr"
    "validateProtectorIdentity (protectorAlgorithm prot) (protectorKey prot) = Inr ()"
    "encodeKeyPackageAssociatedData x (protectorAlgorithm prot) (protectorKey prot) = Inr aad" "protectorSeal prot pr aad = Some sealed"
    "snapshotGroupStateCiphertext sealed = Inr (nonce, ciphertext)"
    "e = \<lparr>ekpKeyPackage = x, ekpAlgorithm = protectorAlgorithm prot, ekpKeyId = protectorKey prot,
      ekpNonce = nonce, ekpCiphertext = ciphertext\<rparr>"
    using assms unfolding sealKeyPackage_def by (auto simp: sbind_Inr_iff split: option.splits)
  have x: "x = k" "validateKeyPackage k = Inr ()"
    using p(1) by (auto simp: cloneKeyPackage_def snapshotBoundedBytes_def sbind_Inr_iff Let_def validateKeyPackage_Inr split: if_splits)
  have c: "sealed = (nonce, ciphertext)" "sizes_ok nonce ciphertext"
    using p(6) by (cases sealed, auto simp: snapshotGroupStateCiphertext_def snapshotBoundedBytes_def sbind_Inr_iff sizes_ok_def split: if_splits)+
  have "pr = p" "1 \<le> length p" "int (length p) \<le> MAX_CIPHERTEXT_BYTES"
    using p(2) by (auto simp: snapshotBoundedBytes_def Suc_le_eq split: if_splits)
  then show ?thesis using p(3-5,7) x c by (simp add: key_package_ok_def)
qed

section \<open>Properties\<close>

text \<open>
  C40: Private state survives storage. With a protector whose opening inverts its
  sealing, private group state and private KeyPackage material that was sealed into
  an envelope, serialized, and read back opens to the same bytes, and the envelope read
  back names the same public state, respectively KeyPackage.
\<close>

theorem sealed_envelope_roundtrip:
  assumes "\<forall>p a c. protectorSeal prot p a = Some c \<longrightarrow> protectorOpen prot c a = Some p"
  shows "(\<forall>e. sealGroupState s private_bytes prot = Inr e \<longrightarrow>
      (\<exists>bs e'. serializeGroupState e = Inr bs \<and> deserializeGroupState bs = Inr e' \<and> egsState e' = s \<and>
        openGroupState e' prot = Inr private_bytes)) \<and>
    (\<forall>e. sealKeyPackage k private_bytes prot = Inr e \<longrightarrow>
      (\<exists>bs e'. serializeKeyPackage e = Inr bs \<and> deserializeKeyPackage bs = Inr e' \<and> ekpKeyPackage e' = k \<and>
        openKeyPackage e' prot = Inr private_bytes))"
proof (intro conjI allI impI)
  fix e
  assume "sealGroupState s private_bytes prot = Inr e"
  note f = sealGroupState_Inr [OF this]
  obtain bs where "serializeGroupState e = Inr bs" "deserializeGroupState bs = Inr e" using groupState_roundtrip f by blast
  moreover have "openGroupState e prot = Inr private_bytes"
    using f assms by (auto simp: openGroupState_def snapshotBoundedBytes_def)
  ultimately show "\<exists>bs e'. serializeGroupState e = Inr bs \<and> deserializeGroupState bs = Inr e' \<and> egsState e' = s \<and>
      openGroupState e' prot = Inr private_bytes" using f by blast
next
  fix e
  assume "sealKeyPackage k private_bytes prot = Inr e"
  note f = sealKeyPackage_Inr [OF this]
  obtain bs where "serializeKeyPackage e = Inr bs" "deserializeKeyPackage bs = Inr e" using keyPackage_roundtrip f by blast
  moreover have "openKeyPackage e prot = Inr private_bytes"
    using f assms by (auto simp: openKeyPackage_def snapshotBoundedBytes_def)
  ultimately show "\<exists>bs e'. serializeKeyPackage e = Inr bs \<and> deserializeKeyPackage bs = Inr e' \<and> ekpKeyPackage e' = k \<and>
      openKeyPackage e' prot = Inr private_bytes" using f by blast
qed

definition sample_protector :: GroupStateProtector where
  "sample_protector = \<lparr>protectorAlgorithm = [65], protectorKey = [75], protectorSeal = (\<lambda>p a. Some ([0], p)),
     protectorOpen = (\<lambda>c a. Some (snd c))\<rparr>"

definition sample_state :: GroupSecurityPublicState where
  "sample_state = \<lparr>stateProtocol = \<lparr>protoId = [109], protoVersion = 1\<rparr>, stateGroupId = [1], stateEpoch = 0, stateTranscript = [], stateTreeHash = [2]\<rparr>"

lemma sample_state_seals: "\<exists>e. sealGroupState sample_state [9] sample_protector = Inr e"
  by (simp add: sealGroupState_def clonePublicState_def snapshotBoundedBytes_def snapshotGroupStateCiphertext_def sample_state_def
      sample_protector_def validatePublicState_def validateProtocol_def validateBytes_def validateU64_def validateProtectorIdentity_def
      canonicalIdentifier_def protectorKeyId_def alnumUnit_def encodeAssociatedData_def envelope_limits require_def
      bytes16_ok u16_def u64_def encodeUtf8_def utf8Point_def isHighSurrogate_def isLowSurrogate_def)

theorem sealed_envelope_roundtrip_witness:
  "\<exists>e bs e'. sealGroupState sample_state [9] sample_protector = Inr e \<and> serializeGroupState e = Inr bs \<and>
     deserializeGroupState bs = Inr e' \<and> openGroupState e' sample_protector = Inr [9]"
proof -
  have p: "\<forall>p a c. protectorSeal sample_protector p a = Some c \<longrightarrow> protectorOpen sample_protector c a = Some p"
    by (simp add: sample_protector_def)
  obtain e where "sealGroupState sample_state [9] sample_protector = Inr e" using sample_state_seals by blast
  then show ?thesis using sealed_envelope_roundtrip [OF p, of sample_state "[9]"] p by blast
qed

text \<open>
  What the decoder accepts beyond the encoder's output: a text field may start with a
  byte order mark, which is dropped, so two byte strings decode to one envelope.
\<close>

definition sample_envelope :: EncryptedGroupState where
  "sample_envelope = \<lparr>egsState = sample_state, egsAlgorithm = [65], egsKeyId = [75], egsNonce = [0], egsCiphertext = [9]\<rparr>"

lemma sample_envelope_ok: "group_state_ok sample_envelope"
  by (simp add: group_state_ok_def sizes_ok_def sample_envelope_def sample_state_def validatePublicState_Inr validateProtectorIdentity_Inr
      canonicalIdentifier_def protectorKeyId_def alnumUnit_def envelope_limits)

lemma envelope_not_canonical:
  "\<exists>b1 b2 e. b1 \<noteq> b2 \<and> deserializeGroupState b1 = Inr e \<and> deserializeGroupState b2 = Inr e"
proof -
  let ?w = "\<lambda>k. groupStateWire sample_envelope (ascii_of [109]) (ascii_of [65]) k"
  have "group_state_reads sample_envelope (?w k)" if "k = ascii_of [75] \<or> k = BOM @ ascii_of [75]" for k
    using that unfolding group_state_reads_def text_bytes_def
    by (intro exI conjI) (auto simp: sample_envelope_def sample_state_def BOM_def ascii_of_def)
  moreover have "length (?w (ascii_of [75])) = 45" "length (?w (BOM @ ascii_of [75])) = 48"
    by (simp_all add: groupStateWire_def length_counted BOM_def ascii_of_def sample_envelope_def sample_state_def ENCRYPTED_GROUP_STATE_MAGIC_def)
  ultimately have "deserializeGroupState (?w (ascii_of [75])) = Inr sample_envelope"
    "deserializeGroupState (?w (BOM @ ascii_of [75])) = Inr sample_envelope" "?w (ascii_of [75]) \<noteq> ?w (BOM @ ascii_of [75])"
    using sample_envelope_ok
    by (auto simp: deserializeGroupState_Inr MAX_ENCRYPTED_GROUP_STATE_SERIALIZED_BYTES_def envelope_limits)
  then show ?thesis by blast
qed

lemma bigEndian_inject: "0 \<le> m \<Longrightarrow> m < 2 ^ (w * 8) \<Longrightarrow> 0 \<le> n \<Longrightarrow> n < 2 ^ (w * 8) \<Longrightarrow> bigEndian w m = bigEndian w n \<longleftrightarrow> m = n"
  using beValue_bigEndian by metis

lemma counted_prefix_free:
  assumes "length x < 65536" "length y < 65536" "counted 2 x @ s = counted 2 y @ t"
  shows "x = y \<and> s = t"
proof -
  have "bigEndian 2 (int (length x)) = bigEndian 2 (int (length y))" and r: "x @ s = y @ t"
    using assms(3) by (auto simp: counted_def)
  then have "length x = length y" using assms(1,2) bigEndian_inject [of "int (length x)" 2 "int (length y)"] by simp
  then show ?thesis using r by simp
qed

lemma bytes16_Inr: "bytes16 b = Inr x \<Longrightarrow> x = counted 2 b \<and> length b < 65536"
  by (auto simp: bytes16_def u16_def counted_def split: if_splits)

fun changeBytes :: "AppliedGroupMembershipChange \<Rightarrow> bytes" where
  "changeBytes (AppliedAdd m k) = 1 # counted 2 m @ counted 2 k"
| "changeBytes (AppliedRemove m) = 2 # counted 2 m"
| "changeBytes (AppliedUpdate m k) = 3 # counted 2 m @ counted 2 k"

fun change_fits :: "AppliedGroupMembershipChange \<Rightarrow> bool" where
  "change_fits (AppliedAdd m k) \<longleftrightarrow> length m < 65536 \<and> length k < 65536"
| "change_fits (AppliedRemove m) \<longleftrightarrow> length m < 65536"
| "change_fits (AppliedUpdate m k) \<longleftrightarrow> length m < 65536 \<and> length k < 65536"

lemma changeBytes_prefix_free:
  "change_fits c \<Longrightarrow> change_fits d \<Longrightarrow> changeBytes c @ s = changeBytes d @ t \<Longrightarrow> c = d \<and> s = t"
  by (cases c; cases d) (simp_all, (metis counted_prefix_free)+)

lemma encodeAppliedChanges_Cons:
  assumes "encodeAppliedChanges M R (c # cs) = Inr a"
  shows "\<exists>M' R' tl. a = changeBytes c @ tl \<and> change_fits c \<and> encodeAppliedChanges M' R' cs = Inr tl"
proof (cases c)
  case (AppliedAdd m k)
  with assms obtain mb kb tl where "bytes16 m = Inr mb" "bytes16 k = Inr kb" "a = 1 # mb @ kb @ tl"
    "encodeAppliedChanges (hex_bytes m # M) (hex_bytes k # R) cs = Inr tl"
    by (auto simp: sbind_Inr_iff Let_def split: if_splits)
  then show ?thesis using AppliedAdd bytes16_Inr [of m] bytes16_Inr [of k] by fastforce
next
  case (AppliedRemove m)
  with assms obtain mb tl where "bytes16 m = Inr mb" "a = 2 # mb @ tl" "encodeAppliedChanges (hex_bytes m # M) R cs = Inr tl"
    by (auto simp: sbind_Inr_iff Let_def split: if_splits)
  then show ?thesis using AppliedRemove bytes16_Inr [of m] by fastforce
next
  case (AppliedUpdate m k)
  with assms obtain mb kb tl where "bytes16 m = Inr mb" "bytes16 k = Inr kb" "a = 3 # mb @ kb @ tl"
    "encodeAppliedChanges (hex_bytes m # M) (hex_bytes k # R) cs = Inr tl"
    by (auto simp: sbind_Inr_iff Let_def split: if_splits)
  then show ?thesis using AppliedUpdate bytes16_Inr [of m] bytes16_Inr [of k] by fastforce
qed

lemma encodeAppliedChanges_inj:
  "encodeAppliedChanges M R xs = Inr a \<Longrightarrow> encodeAppliedChanges M' R' ys = Inr b \<Longrightarrow> length xs = length ys \<Longrightarrow> a = b \<Longrightarrow> xs = ys"
proof (induction xs arbitrary: ys M R M' R' a b)
  case (Cons x xs)
  obtain y ys' where ys: "ys = y # ys'" using Cons.prems(3) by (cases ys) auto
  obtain M1 R1 t1 where x: "a = changeBytes x @ t1" "change_fits x" "encodeAppliedChanges M1 R1 xs = Inr t1"
    using encodeAppliedChanges_Cons [OF Cons.prems(1)] by blast
  obtain M2 R2 t2 where y: "b = changeBytes y @ t2" "change_fits y" "encodeAppliedChanges M2 R2 ys' = Inr t2"
    using encodeAppliedChanges_Cons Cons.prems(2) unfolding ys by blast
  have "x = y \<and> t1 = t2" using changeBytes_prefix_free [OF x(2) y(2), of t1 t2] x(1) y(1) Cons.prems(4) by simp
  then show ?case using Cons.IH [OF x(3) y(3)] Cons.prems(3) ys by simp
qed simp

lemma snapshotAppliedMembershipChange_Inr: "snapshotAppliedMembershipChange c = Inr d \<Longrightarrow> d = c"
  by (cases c) (auto simp: sbind_Inr_iff snapshotBoundedBytes_def split: if_splits)

lemma snapshotAppliedChanges_Inr: "snapshotAppliedChanges cs = Inr ds \<Longrightarrow> ds = cs"
  by (induction cs arbitrary: ds) (auto simp: sbind_Inr_iff dest!: snapshotAppliedMembershipChange_Inr)

text \<open>
  The canonical encoding of an applied membership change binds it: two changes
  with the same encoding are the same list of additions, removals and updates.
\<close>

theorem appliedDelta_binding:
  assumes "canonicalAppliedGroupMembershipDelta xs = Inr bs" "canonicalAppliedGroupMembershipDelta ys = Inr bs"
  shows "xs = ys"
proof -
  have parts: "\<exists>b. encodeAppliedChanges [] [] zs = Inr b \<and> bs = APPLIED_MEMBERSHIP_DELTA_DOMAIN @ bigEndian 2 (int (length zs)) @ b \<and> length zs < 65536"
    if "canonicalAppliedGroupMembershipDelta zs = Inr bs" for zs
    using that by (auto simp: canonicalAppliedGroupMembershipDelta_def snapshotAppliedGroupMembershipDelta_def sbind_Inr_iff u16_def
        split: if_splits dest!: snapshotAppliedChanges_Inr)
  obtain a where a: "encodeAppliedChanges [] [] xs = Inr a" "bs = APPLIED_MEMBERSHIP_DELTA_DOMAIN @ bigEndian 2 (int (length xs)) @ a" "length xs < 65536"
    using parts [OF assms(1)] by blast
  obtain b where b: "encodeAppliedChanges [] [] ys = Inr b" "bs = APPLIED_MEMBERSHIP_DELTA_DOMAIN @ bigEndian 2 (int (length ys)) @ b" "length ys < 65536"
    using parts [OF assms(2)] by blast
  have e: "bigEndian 2 (int (length xs)) = bigEndian 2 (int (length ys))" "a = b" using a(2) b(2) by auto
  then have "length xs = length ys" using a(3) b(3) bigEndian_inject [of "int (length xs)" 2 "int (length ys)"] by simp
  then show ?thesis using encodeAppliedChanges_inj [OF a(1) b(1)] e(2) by simp
qed

definition sample_delta :: "AppliedGroupMembershipChange list" where
  "sample_delta = [AppliedAdd [1] [2], AppliedRemove [3]]"

theorem appliedDelta_binding_witness:
  "succeeds (canonicalAppliedGroupMembershipDelta sample_delta) \<and>
   canonicalAppliedGroupMembershipDelta sample_delta \<noteq> canonicalAppliedGroupMembershipDelta [AppliedAdd [1] [2]]"
proof -
  have s: "succeeds (canonicalAppliedGroupMembershipDelta sample_delta)" by code_simp
  then obtain bs where "canonicalAppliedGroupMembershipDelta sample_delta = Inr bs" unfolding succeeds_iff by blast
  moreover have "sample_delta \<noteq> [AppliedAdd [1] [2]]" by (simp add: sample_delta_def)
  ultimately show ?thesis using s appliedDelta_binding by metis
qed

end
