(* ===== verification/Group_State_Store.thy ===== *)
theory Group_State_Store
  imports Group_Envelope
begin

text \<open>
  \<open>packages/core/src/group-state-store.ts\<close>, \<open>policy/store-budget.ts\<close> and
  \<open>policy/package-partition.ts\<close>: the transactional in-memory store of encrypted group
  state, one-time KeyPackages, outbox, replay log and fork evidence. A transaction
  callback is a \<open>script\<close> that sees the result of each call, an error included, before
  it chooses the next one; transactions on one key are serialized by the store's
  queue and those on different keys touch different entries, so a run is a sequence
  of transactions.
\<close>


section \<open>Definitions\<close>

subsection \<open>Budgets and partitions\<close>

definition adjustStoreBytes :: "int \<Rightarrow> int \<Rightarrow> int \<Rightarrow> int \<Rightarrow> int" where
  "adjustStoreBytes used delta minimum maximum =
     (let new = used + delta in if new < minimum \<or> new > maximum then -1 else new)"

definition nextStoreRevision :: "int \<Rightarrow> int" where
  "nextStoreRevision revision = (if revision = 9007199254740991 then -1 else revision + 1)"

datatype commit_baseline = BaselineRevision | BaselineRollback | BaselineReady

definition classifyStoreCommitBaseline :: "int \<Rightarrow> int \<Rightarrow> bool \<Rightarrow> bool \<Rightarrow> int \<Rightarrow> int \<Rightarrow> commit_baseline" where
  "classifyStoreCommitBaseline baseRevision observedRevision hadEpoch hasEpoch baseEpoch nextEpoch =
     (if baseRevision \<noteq> observedRevision then BaselineRevision
      else if hadEpoch \<and> (\<not> hasEpoch \<or> nextEpoch < baseEpoch) then BaselineRollback
      else BaselineReady)"

definition insertPendingPackage ::
    "(string, 'p) jsmap \<Rightarrow> (string, 'm) jsmap \<Rightarrow> string \<Rightarrow> 'p \<Rightarrow> (string, 'p) jsmap" where
  "insertPendingPackage pending consumed reference value = jset pending reference value"

definition removePendingPackage :: "(string, 'p) jsmap \<Rightarrow> string \<Rightarrow> (string, 'p) jsmap" where
  "removePendingPackage pending reference = jdel pending reference"

definition insertConsumptionMarker :: "(string, 'm) jsmap \<Rightarrow> string \<Rightarrow> 'm \<Rightarrow> (string, 'm) jsmap" where
  "insertConsumptionMarker consumed reference marker = jset consumed reference marker"

definition bindOperationToRecord :: "(string, string) jsmap \<Rightarrow> string \<Rightarrow> string \<Rightarrow> (string, string) jsmap" where
  "bindOperationToRecord bindings operation recordId = jset bindings operation recordId"

subsection \<open>Values\<close>

datatype group_store_error =
    InvalidValue
  | InactiveTransaction
  | CommittedBytesLimit
  | StateMismatch
  | StateRollback
  | PackageConsumed
  | PackageDiffers
  | PackageMissing
  | PendingLimit
  | RequestConflict
  | ConsumedLimit
  | OutboxConflict
  | MetadataLimit
  | ReplayConflict
  | ForkConflict
  | BaselineChanged
  | AccountingMismatch
  | KeyMismatch
  | SnapshotInvalid
  | RevisionLimit
  | CallbackRejected

definition GROUP_STATE_STORE_ID_LENGTH :: int where
  "GROUP_STATE_STORE_ID_LENGTH = 32"

definition MAX_CONSUMED_KEY_PACKAGE_MARKERS :: int where
  "MAX_CONSUMED_KEY_PACKAGE_MARKERS = 4096"

definition MAX_PENDING_KEY_PACKAGE_ENTRIES :: int where
  "MAX_PENDING_KEY_PACKAGE_ENTRIES = 32"

definition MAX_PENDING_KEY_PACKAGE_BYTES :: int where
  "MAX_PENDING_KEY_PACKAGE_BYTES = 64 * 1024 * 1024"

definition MAX_GROUP_STATE_STORE_COMMITTED_BYTES :: int where
  "MAX_GROUP_STATE_STORE_COMMITTED_BYTES = 128 * 1024 * 1024"

definition MAX_OUTBOX_PAYLOAD_BYTES :: int where
  "MAX_OUTBOX_PAYLOAD_BYTES = 16 * 1024 * 1024"

definition MAX_CONTROL_RECORD_BYTES :: int where
  "MAX_CONTROL_RECORD_BYTES = 4 * 1024 * 1024"

definition MAX_GROUP_STATE_METADATA_ENTRIES :: int where
  "MAX_GROUP_STATE_METADATA_ENTRIES = 65536"

definition COMMITTED_STATE_FIXED_OVERHEAD :: int where
  "COMMITTED_STATE_FIXED_OVERHEAD = 1024"

record GroupStateStoreKey =
  keyProtocol :: GroupSecurityProtocol
  keyGroupId :: bytes

record GroupStateOutboxEntry =
  outboxId :: bytes
  outboxKind :: js_string
  outboxEpoch :: int
  outboxPayload :: bytes
  outboxCreatedAt :: int

record GroupStateReplayEntry =
  replayRecordId :: bytes
  replayOperationId :: "bytes option"
  replayEpoch :: int
  replayControlRecord :: bytes

record GroupStatePendingKeyPackageRequest =
  requestOperationId :: bytes
  requestCommitment :: bytes
  requestReference :: bytes

record GroupStateForkEvidence =
  forkEpoch :: int
  forkParentRecordId :: bytes
  forkFirstRecordId :: bytes
  forkFirstControlRecord :: bytes
  forkSecondRecordId :: bytes
  forkSecondControlRecord :: bytes

record GroupStateStoreSnapshot =
  snapRevision :: int
  snapEncryptedState :: "EncryptedGroupState option"
  snapPendingKeyPackages :: "EncryptedKeyPackageState list"
  snapPendingKeyPackageRequests :: "GroupStatePendingKeyPackageRequest list"
  snapConsumedKeyPackageRefs :: "bytes list"
  snapOutbox :: "GroupStateOutboxEntry list"
  snapReplay :: "GroupStateReplayEntry list"
  snapForkEvidence :: "GroupStateForkEvidence option"

record MutableState =
  mRevision :: int
  mEncryptedState :: "EncryptedGroupState option"
  mPending :: "(string, EncryptedKeyPackageState) jsmap"
  mRequests :: "(string, GroupStatePendingKeyPackageRequest) jsmap"
  mConsumed :: "(string, bytes) jsmap"
  mOutbox :: "(string, GroupStateOutboxEntry) jsmap"
  mReplay :: "(string, GroupStateReplayEntry) jsmap"
  mOperationToRecord :: "(string, string) jsmap"
  mFork :: "GroupStateForkEvidence option"

subsection \<open>Checked copies\<close>

definition cloneBytes :: "bytes \<Rightarrow> int \<Rightarrow> int \<Rightarrow> group_store_error + bytes" where
  "cloneBytes value minimum maximum =
     (if int (length value) < minimum \<or> int (length value) > maximum then Inl InvalidValue else Inr value)"

definition cloneFixedId :: "bytes \<Rightarrow> group_store_error + bytes" where
  "cloneFixedId value = cloneBytes value GROUP_STATE_STORE_ID_LENGTH GROUP_STATE_STORE_ID_LENGTH"

definition cloneKeyPackageReference :: "bytes \<Rightarrow> group_store_error + bytes" where
  "cloneKeyPackageReference reference = cloneBytes reference 1 MAX_KEY_PACKAGE_REFERENCE_BYTES"

definition checkU64 :: "int \<Rightarrow> group_store_error + unit" where
  "checkU64 value = require (\<not> (value < 0 \<or> value > MAX_U64)) InvalidValue"

definition validateAndCloneProtocol :: "GroupSecurityProtocol \<Rightarrow> group_store_error + GroupSecurityProtocol" where
  "validateAndCloneProtocol p =
     (if \<not> canonicalIdentifier (protoId p) \<or> protoVersion p < 0 \<or> protoVersion p > 65535 then Inl InvalidValue else Inr p)"

definition cloneGroupStateStoreKey :: "GroupStateStoreKey \<Rightarrow> group_store_error + GroupStateStoreKey" where
  "cloneGroupStateStoreKey k =
     sbind (validateAndCloneProtocol (keyProtocol k)) (\<lambda>protocol.
     sbind (cloneBytes (keyGroupId k) 1 1024) (\<lambda>gid. Inr \<lparr>keyProtocol = protocol, keyGroupId = gid\<rparr>))"

definition validateAndCloneOutboxEntry :: "GroupStateOutboxEntry \<Rightarrow> group_store_error + GroupStateOutboxEntry" where
  "validateAndCloneOutboxEntry e =
     (if \<not> canonicalIdentifier (outboxKind e) then Inl InvalidValue
      else
        sbind (checkU64 (outboxEpoch e)) (\<lambda>_.
        if \<not> safe_nat (outboxCreatedAt e) then Inl InvalidValue
        else
          sbind (cloneFixedId (outboxId e)) (\<lambda>i.
          sbind (cloneBytes (outboxPayload e) 1 MAX_OUTBOX_PAYLOAD_BYTES) (\<lambda>payload.
            Inr \<lparr>outboxId = i, outboxKind = outboxKind e, outboxEpoch = outboxEpoch e, outboxPayload = payload,
                 outboxCreatedAt = outboxCreatedAt e\<rparr>))))"

definition cloneOptionalId :: "bytes option \<Rightarrow> group_store_error + bytes option" where
  "cloneOptionalId v = (case v of None \<Rightarrow> Inr None | Some b \<Rightarrow> sbind (cloneFixedId b) (\<lambda>b. Inr (Some b)))"

definition validateAndCloneReplayEntry :: "GroupStateReplayEntry \<Rightarrow> group_store_error + GroupStateReplayEntry" where
  "validateAndCloneReplayEntry e =
     sbind (checkU64 (replayEpoch e)) (\<lambda>_.
     sbind (cloneFixedId (replayRecordId e)) (\<lambda>i.
     sbind (cloneOptionalId (replayOperationId e)) (\<lambda>operation.
     sbind (cloneBytes (replayControlRecord e) 1 MAX_CONTROL_RECORD_BYTES) (\<lambda>control.
       Inr \<lparr>replayRecordId = i, replayOperationId = operation, replayEpoch = replayEpoch e, replayControlRecord = control\<rparr>))))"

definition validateAndClonePendingKeyPackageRequest ::
    "GroupStatePendingKeyPackageRequest \<Rightarrow> group_store_error + GroupStatePendingKeyPackageRequest" where
  "validateAndClonePendingKeyPackageRequest r =
     sbind (cloneFixedId (requestOperationId r)) (\<lambda>operation.
     sbind (cloneFixedId (requestCommitment r)) (\<lambda>commitment.
     sbind (cloneKeyPackageReference (requestReference r)) (\<lambda>reference.
       Inr \<lparr>requestOperationId = operation, requestCommitment = commitment, requestReference = reference\<rparr>)))"

definition samePendingKeyPackageRequest ::
    "GroupStatePendingKeyPackageRequest \<Rightarrow> GroupStatePendingKeyPackageRequest \<Rightarrow> bool" where
  "samePendingKeyPackageRequest a b \<longleftrightarrow>
     equalBytes (requestOperationId a) (requestOperationId b) \<and> equalBytes (requestCommitment a) (requestCommitment b) \<and>
     equalBytes (requestReference a) (requestReference b)"

definition validateAndCloneForkEvidence :: "GroupStateForkEvidence \<Rightarrow> group_store_error + GroupStateForkEvidence" where
  "validateAndCloneForkEvidence f =
     sbind (checkU64 (forkEpoch f)) (\<lambda>_.
     sbind (cloneFixedId (forkParentRecordId f)) (\<lambda>parent.
     sbind (cloneFixedId (forkFirstRecordId f)) (\<lambda>first.
     sbind (cloneBytes (forkFirstControlRecord f) 1 MAX_CONTROL_RECORD_BYTES) (\<lambda>firstRecord.
     sbind (cloneFixedId (forkSecondRecordId f)) (\<lambda>second.
     sbind (cloneBytes (forkSecondControlRecord f) 1 MAX_CONTROL_RECORD_BYTES) (\<lambda>secondRecord.
     if equalBytes first second then Inl InvalidValue
     else Inr \<lparr>forkEpoch = forkEpoch f, forkParentRecordId = parent, forkFirstRecordId = first,
               forkFirstControlRecord = firstRecord, forkSecondRecordId = second, forkSecondControlRecord = secondRecord\<rparr>))))))"

fun compareBytes :: "bytes \<Rightarrow> bytes \<Rightarrow> int" where
  "compareBytes (a # as) (b # bs) = (if a \<noteq> b then uint a - uint b else compareBytes as bs)"
| "compareBytes as bs = int (length as) - int (length bs)"

definition normalizeForkEvidence :: "GroupStateForkEvidence \<Rightarrow> group_store_error + GroupStateForkEvidence" where
  "normalizeForkEvidence f =
     sbind (validateAndCloneForkEvidence f) (\<lambda>c.
       Inr (if compareBytes (forkFirstRecordId c) (forkSecondRecordId c) < 0 then c
            else \<lparr>forkEpoch = forkEpoch c, forkParentRecordId = forkParentRecordId c,
                  forkFirstRecordId = forkSecondRecordId c, forkFirstControlRecord = forkSecondControlRecord c,
                  forkSecondRecordId = forkFirstRecordId c, forkSecondControlRecord = forkFirstControlRecord c\<rparr>))"

definition sameForkEvidence :: "GroupStateForkEvidence \<Rightarrow> GroupStateForkEvidence \<Rightarrow> group_store_error + bool" where
  "sameForkEvidence first second =
     sbind (normalizeForkEvidence first) (\<lambda>a.
     sbind (normalizeForkEvidence second) (\<lambda>b.
       Inr (forkEpoch a = forkEpoch b \<and> equalBytes (forkParentRecordId a) (forkParentRecordId b) \<and>
            equalBytes (forkFirstRecordId a) (forkFirstRecordId b) \<and>
            equalBytes (forkFirstControlRecord a) (forkFirstControlRecord b) \<and>
            equalBytes (forkSecondRecordId a) (forkSecondRecordId b) \<and>
            equalBytes (forkSecondControlRecord a) (forkSecondControlRecord b))))"

definition sameOutboxEntry :: "GroupStateOutboxEntry \<Rightarrow> GroupStateOutboxEntry \<Rightarrow> bool" where
  "sameOutboxEntry a b \<longleftrightarrow>
     outboxKind a = outboxKind b \<and> outboxEpoch a = outboxEpoch b \<and> outboxCreatedAt a = outboxCreatedAt b \<and>
     equalBytes (outboxId a) (outboxId b) \<and> equalBytes (outboxPayload a) (outboxPayload b)"

definition optionalBytesEqual :: "bytes option \<Rightarrow> bytes option \<Rightarrow> bool" where
  "optionalBytesEqual a b = (case (a, b) of (Some x, Some y) \<Rightarrow> equalBytes x y | _ \<Rightarrow> a = b)"

definition sameReplayEntry :: "GroupStateReplayEntry \<Rightarrow> GroupStateReplayEntry \<Rightarrow> bool" where
  "sameReplayEntry a b \<longleftrightarrow>
     replayEpoch a = replayEpoch b \<and> equalBytes (replayRecordId a) (replayRecordId b) \<and>
     optionalBytesEqual (replayOperationId a) (replayOperationId b) \<and>
     equalBytes (replayControlRecord a) (replayControlRecord b)"

definition sameProtocol :: "GroupSecurityProtocol \<Rightarrow> GroupSecurityProtocol \<Rightarrow> bool" where
  "sameProtocol a b \<longleftrightarrow> protoId a = protoId b \<and> protoVersion a = protoVersion b"

definition envelope_value :: "envelope_error + 'a \<Rightarrow> group_store_error + 'a" where
  "envelope_value r = (case r of Inl _ \<Rightarrow> Inl InvalidValue | Inr x \<Rightarrow> Inr x)"

definition serializedEncryptedGroupState :: "EncryptedGroupState \<Rightarrow> group_store_error + bytes" where
  "serializedEncryptedGroupState s =
     sbind (envelope_value (serializeGroupState s)) (\<lambda>b. cloneBytes b 1 MAX_GROUP_STATE_STORE_COMMITTED_BYTES)"

definition serializedEncryptedKeyPackageState :: "EncryptedKeyPackageState \<Rightarrow> group_store_error + bytes" where
  "serializedEncryptedKeyPackageState s =
     sbind (envelope_value (serializeKeyPackage s)) (\<lambda>b. cloneBytes b 1 MAX_GROUP_STATE_STORE_COMMITTED_BYTES)"

definition cloneEncryptedState :: "EncryptedGroupState \<Rightarrow> group_store_error + EncryptedGroupState" where
  "cloneEncryptedState s =
     sbind (serializedEncryptedGroupState s) (\<lambda>b. envelope_value (deserializeGroupState b))"

definition cloneEncryptedKeyPackageState :: "EncryptedKeyPackageState \<Rightarrow> group_store_error + EncryptedKeyPackageState" where
  "cloneEncryptedKeyPackageState s =
     sbind (serializedEncryptedKeyPackageState s) (\<lambda>b. envelope_value (deserializeKeyPackage b))"

definition validateAndCloneEncryptedGroupState ::
    "EncryptedGroupState \<Rightarrow> GroupStateStoreKey \<Rightarrow> group_store_error + EncryptedGroupState" where
  "validateAndCloneEncryptedGroupState s key =
     sbind (cloneEncryptedState s) (\<lambda>snapshot.
     if \<not> sameProtocol (stateProtocol (egsState snapshot)) (keyProtocol key) then Inl StateMismatch
     else if \<not> equalBytes (stateGroupId (egsState snapshot)) (keyGroupId key) then Inl StateMismatch
     else Inr snapshot)"

definition validateAndCloneEncryptedKeyPackageState ::
    "EncryptedKeyPackageState \<Rightarrow> GroupStateStoreKey \<Rightarrow> group_store_error + EncryptedKeyPackageState" where
  "validateAndCloneEncryptedKeyPackageState s key =
     sbind (cloneEncryptedKeyPackageState s) (\<lambda>snapshot.
     if \<not> sameProtocol (kpProtocol (ekpKeyPackage snapshot)) (keyProtocol key) then Inl StateMismatch
     else
       sbind (cloneKeyPackageReference (kpReference (ekpKeyPackage snapshot))) (\<lambda>_.
       if \<not> equalBytes (kpGroupId (ekpKeyPackage snapshot)) (keyGroupId key) then Inl StateMismatch
       else Inr snapshot))"

definition sameEncryptedKeyPackageState ::
    "EncryptedKeyPackageState \<Rightarrow> EncryptedKeyPackageState \<Rightarrow> group_store_error + bool" where
  "sameEncryptedKeyPackageState first second =
     sbind (serializedEncryptedKeyPackageState first) (\<lambda>a.
     sbind (serializedEncryptedKeyPackageState second) (\<lambda>b. Inr (equalBytes a b)))"

definition packageReference :: "EncryptedKeyPackageState \<Rightarrow> bytes" where
  "packageReference s = kpReference (ekpKeyPackage s)"

subsection \<open>Byte accounting\<close>

text \<open>
  A cloned envelope carries the length of its serialization in a cache, so reading it
  cannot fail; the store only measures cloned envelopes.
\<close>

definition serializedLength :: "envelope_error + bytes \<Rightarrow> int" where
  "serializedLength r = (case r of Inl _ \<Rightarrow> 0 | Inr b \<Rightarrow> int (length b))"

definition encryptedKeyPackageSerializedLength :: "EncryptedKeyPackageState \<Rightarrow> int" where
  "encryptedKeyPackageSerializedLength s = serializedLength (serializeKeyPackage s)"

definition encryptedStateCommittedBytes :: "EncryptedGroupState \<Rightarrow> int" where
  "encryptedStateCommittedBytes s = serializedLength (serializeGroupState s) + 4"

definition pendingEntryCommittedBytes :: "EncryptedKeyPackageState \<Rightarrow> int" where
  "pendingEntryCommittedBytes s = encryptedKeyPackageSerializedLength s + int (length (packageReference s)) + 6"

definition pendingRequestCommittedBytes :: "GroupStatePendingKeyPackageRequest \<Rightarrow> int" where
  "pendingRequestCommittedBytes r = 2 * GROUP_STATE_STORE_ID_LENGTH + 2 + int (length (requestReference r))"

definition consumedCommittedBytes :: "bytes \<Rightarrow> int" where
  "consumedCommittedBytes reference = int (length reference) + 2"

definition outboxEntryCommittedBytes :: "GroupStateOutboxEntry \<Rightarrow> int" where
  "outboxEntryCommittedBytes e =
     GROUP_STATE_STORE_ID_LENGTH + 2 + int (length (outboxKind e)) + 8 + 8 + 4 + int (length (outboxPayload e))"

definition replayEntryCommittedBytes :: "GroupStateReplayEntry \<Rightarrow> int" where
  "replayEntryCommittedBytes e =
     GROUP_STATE_STORE_ID_LENGTH + 1 +
     (case replayOperationId e of None \<Rightarrow> 0 | Some i \<Rightarrow> 4 + int (length i)) + 8 + 4 + int (length (replayControlRecord e))"

definition forkEvidenceCommittedBytes :: "GroupStateForkEvidence \<Rightarrow> int" where
  "forkEvidenceCommittedBytes f =
     1 + 4 + 8 + 3 * GROUP_STATE_STORE_ID_LENGTH + 4 + int (length (forkFirstControlRecord f)) + 4 +
     int (length (forkSecondControlRecord f))"

fun pendingKeyPackageBytes_loop :: "int \<Rightarrow> EncryptedKeyPackageState list \<Rightarrow> int" where
  "pendingKeyPackageBytes_loop tot [] = tot"
| "pendingKeyPackageBytes_loop tot (s # ss) =
     (let tot = tot + encryptedKeyPackageSerializedLength s
      in if tot > MAX_PENDING_KEY_PACKAGE_BYTES then tot else pendingKeyPackageBytes_loop tot ss)"

definition pendingKeyPackageBytes :: "EncryptedKeyPackageState list \<Rightarrow> int" where
  "pendingKeyPackageBytes states = pendingKeyPackageBytes_loop 0 states"

definition addCommittedBytes :: "int \<Rightarrow> int \<Rightarrow> int \<Rightarrow> group_store_error + int" where
  "addCommittedBytes tot addition maximum =
     (let new = adjustStoreBytes tot addition 0 maximum in if new = -1 then Inl CommittedBytesLimit else Inr new)"

fun addAllCommittedBytes :: "('a \<Rightarrow> int) \<Rightarrow> int \<Rightarrow> 'a list \<Rightarrow> int \<Rightarrow> group_store_error + int" where
  "addAllCommittedBytes size_of maximum [] tot = Inr tot"
| "addAllCommittedBytes size_of maximum (x # xs) tot =
     sbind (addCommittedBytes tot (size_of x) maximum) (addAllCommittedBytes size_of maximum xs)"

definition opt_to_list :: "'a option \<Rightarrow> 'a list" where
  "opt_to_list v = (case v of None \<Rightarrow> [] | Some x \<Rightarrow> [x])"

definition committedStateBytes :: "MutableState \<Rightarrow> int \<Rightarrow> group_store_error + int" where
  "committedStateBytes m maximum =
     sbind (addAllCommittedBytes encryptedStateCommittedBytes maximum (opt_to_list (mEncryptedState m))
              COMMITTED_STATE_FIXED_OVERHEAD) (\<lambda>tot.
     sbind (addAllCommittedBytes pendingEntryCommittedBytes maximum (jvals (mPending m)) tot) (\<lambda>tot.
     sbind (addAllCommittedBytes pendingRequestCommittedBytes maximum (jvals (mRequests m)) tot) (\<lambda>tot.
     sbind (addAllCommittedBytes consumedCommittedBytes maximum (jvals (mConsumed m)) tot) (\<lambda>tot.
     sbind (addAllCommittedBytes outboxEntryCommittedBytes maximum (jvals (mOutbox m)) tot) (\<lambda>tot.
     sbind (addAllCommittedBytes replayEntryCommittedBytes maximum (jvals (mReplay m)) tot) (\<lambda>tot.
     addAllCommittedBytes forkEvidenceCommittedBytes maximum (opt_to_list (mFork m)) tot))))))"

subsection \<open>States and snapshots\<close>

definition emptyState :: MutableState where
  "emptyState = \<lparr>mRevision = 0, mEncryptedState = None, mPending = [], mRequests = [], mConsumed = [], mOutbox = [],
     mReplay = [], mOperationToRecord = [], mFork = None\<rparr>"

fun cloneList :: "('a \<Rightarrow> group_store_error + 'b) \<Rightarrow> 'a list \<Rightarrow> group_store_error + 'b list" where
  "cloneList f [] = Inr []"
| "cloneList f (x # xs) = sbind (f x) (\<lambda>y. sbind (cloneList f xs) (\<lambda>ys. Inr (y # ys)))"

definition cloneMap :: "('a \<Rightarrow> group_store_error + 'a) \<Rightarrow> (string, 'a) jsmap \<Rightarrow> group_store_error + (string, 'a) jsmap" where
  "cloneMap f m = cloneList (\<lambda>(k, v). sbind (f v) (\<lambda>v. Inr (k, v))) m"

definition cloneOption :: "('a \<Rightarrow> group_store_error + 'a) \<Rightarrow> 'a option \<Rightarrow> group_store_error + 'a option" where
  "cloneOption f v = (case v of None \<Rightarrow> Inr None | Some x \<Rightarrow> sbind (f x) (\<lambda>y. Inr (Some y)))"

definition cloneMutableState :: "MutableState \<Rightarrow> group_store_error + MutableState" where
  "cloneMutableState m =
     sbind (cloneOption cloneEncryptedState (mEncryptedState m)) (\<lambda>encrypted.
     sbind (cloneMap cloneEncryptedKeyPackageState (mPending m)) (\<lambda>pending.
     sbind (cloneMap validateAndClonePendingKeyPackageRequest (mRequests m)) (\<lambda>requests.
     sbind (cloneMap cloneKeyPackageReference (mConsumed m)) (\<lambda>consumed.
     sbind (cloneMap validateAndCloneOutboxEntry (mOutbox m)) (\<lambda>outbox.
     sbind (cloneMap validateAndCloneReplayEntry (mReplay m)) (\<lambda>replay.
     sbind (cloneOption validateAndCloneForkEvidence (mFork m)) (\<lambda>fork.
       Inr \<lparr>mRevision = mRevision m, mEncryptedState = encrypted, mPending = pending, mRequests = requests,
            mConsumed = consumed, mOutbox = outbox, mReplay = replay, mOperationToRecord = mOperationToRecord m,
            mFork = fork\<rparr>)))))))"

definition storeSnapshot :: "MutableState \<Rightarrow> group_store_error + GroupStateStoreSnapshot" where
  "storeSnapshot m =
     sbind (cloneOption cloneEncryptedState (mEncryptedState m)) (\<lambda>encrypted.
     sbind (cloneList cloneEncryptedKeyPackageState (jvals (mPending m))) (\<lambda>pending.
     sbind (cloneList validateAndClonePendingKeyPackageRequest (jvals (mRequests m))) (\<lambda>requests.
     sbind (cloneList cloneKeyPackageReference (jvals (mConsumed m))) (\<lambda>consumed.
     sbind (cloneList validateAndCloneOutboxEntry (jvals (mOutbox m))) (\<lambda>outbox.
     sbind (cloneList validateAndCloneReplayEntry (jvals (mReplay m))) (\<lambda>replay.
     sbind (cloneOption validateAndCloneForkEvidence (mFork m)) (\<lambda>fork.
       Inr \<lparr>snapRevision = mRevision m, snapEncryptedState = encrypted, snapPendingKeyPackages = pending,
            snapPendingKeyPackageRequests = requests, snapConsumedKeyPackageRefs = consumed, snapOutbox = outbox,
            snapReplay = replay, snapForkEvidence = fork\<rparr>)))))))"

fun snapshotPending :: "GroupStateStoreKey \<Rightarrow> string list \<Rightarrow> EncryptedKeyPackageState list \<Rightarrow> group_store_error + string list" where
  "snapshotPending key seen [] = Inr seen"
| "snapshotPending key seen (p # ps) =
     sbind (validateAndCloneEncryptedKeyPackageState p key) (\<lambda>v.
     let r = hex_bytes (packageReference v)
     in if r \<in> set seen then Inl SnapshotInvalid else snapshotPending key (r # seen) ps)"

fun snapshotRequests ::
    "string list \<Rightarrow> string list \<Rightarrow> string list \<Rightarrow> GroupStatePendingKeyPackageRequest list \<Rightarrow> group_store_error + string list" where
  "snapshotRequests pending operations requested [] = Inr requested"
| "snapshotRequests pending operations requested (q # qs) =
     sbind (validateAndClonePendingKeyPackageRequest q) (\<lambda>r.
     let operation = hex_bytes (requestOperationId r); reference = hex_bytes (requestReference r)
     in if operation \<in> set operations then Inl SnapshotInvalid
        else if reference \<notin> set pending then Inl SnapshotInvalid
        else if reference \<in> set requested then Inl SnapshotInvalid
        else snapshotRequests pending (operation # operations) (reference # requested) qs)"

fun snapshotConsumed :: "string list \<Rightarrow> string list \<Rightarrow> bytes list \<Rightarrow> group_store_error + string list" where
  "snapshotConsumed pending seen [] = Inr seen"
| "snapshotConsumed pending seen (b # bs) =
     sbind (cloneKeyPackageReference b) (\<lambda>r.
     let reference = hex_bytes r
     in if reference \<in> set seen then Inl SnapshotInvalid
        else if reference \<in> set pending then Inl SnapshotInvalid
        else snapshotConsumed pending (reference # seen) bs)"

fun snapshotOutbox :: "int option \<Rightarrow> string list \<Rightarrow> GroupStateOutboxEntry list \<Rightarrow> group_store_error + string list" where
  "snapshotOutbox epoch_now seen [] = Inr seen"
| "snapshotOutbox epoch_now seen (e # es) =
     sbind (validateAndCloneOutboxEntry e) (\<lambda>v.
     let i = hex_bytes (outboxId v)
     in if i \<in> set seen then Inl SnapshotInvalid
        else if (case epoch_now of None \<Rightarrow> False | Some n \<Rightarrow> outboxEpoch v > n) then Inl SnapshotInvalid
        else snapshotOutbox epoch_now (i # seen) es)"

fun snapshotReplay :: "int option \<Rightarrow> string list \<Rightarrow> string list \<Rightarrow> GroupStateReplayEntry list \<Rightarrow> group_store_error + string list" where
  "snapshotReplay epoch_now seen operations [] = Inr seen"
| "snapshotReplay epoch_now seen operations (e # es) =
     sbind (validateAndCloneReplayEntry e) (\<lambda>v.
     let i = hex_bytes (replayRecordId v);
         ops = map hex_bytes (opt_to_list (replayOperationId v))
     in if i \<in> set seen then Inl SnapshotInvalid
        else if set ops \<inter> set operations \<noteq> {} then Inl SnapshotInvalid
        else if (case epoch_now of None \<Rightarrow> False | Some n \<Rightarrow> replayEpoch v > n) then Inl SnapshotInvalid
        else snapshotReplay epoch_now (i # seen) (ops @ operations) es)"

definition validateGroupStateStoreSnapshotSemantics ::
    "GroupStateStoreSnapshot \<Rightarrow> GroupStateStoreKey \<Rightarrow> group_store_error + unit" where
  "validateGroupStateStoreSnapshotSemantics s keyValue =
     sbind (cloneGroupStateStoreKey keyValue) (\<lambda>key.
     sbind (cloneOption (\<lambda>e. validateAndCloneEncryptedGroupState e key) (snapEncryptedState s)) (\<lambda>encrypted.
     let epoch_now = map_option (\<lambda>e. stateEpoch (egsState e)) encrypted
     in if int (length (snapPendingKeyPackages s)) > MAX_PENDING_KEY_PACKAGE_ENTRIES \<or>
           int (length (snapPendingKeyPackageRequests s)) > MAX_PENDING_KEY_PACKAGE_ENTRIES \<or>
           int (length (snapConsumedKeyPackageRefs s)) > MAX_CONSUMED_KEY_PACKAGE_MARKERS \<or>
           int (length (snapOutbox s)) > MAX_GROUP_STATE_METADATA_ENTRIES \<or>
           int (length (snapReplay s)) > MAX_GROUP_STATE_METADATA_ENTRIES
        then Inl SnapshotInvalid
        else
          sbind (snapshotPending key [] (snapPendingKeyPackages s)) (\<lambda>pending.
          sbind (snapshotRequests pending [] [] (snapPendingKeyPackageRequests s)) (\<lambda>requested.
          if length requested \<noteq> length pending \<or> (\<exists>r \<in> set pending. r \<notin> set requested) then Inl SnapshotInvalid
          else
            sbind (snapshotConsumed pending [] (snapConsumedKeyPackageRefs s)) (\<lambda>consumed.
            sbind (snapshotOutbox epoch_now [] (snapOutbox s)) (\<lambda>outbox.
            sbind (snapshotReplay epoch_now [] [] (snapReplay s)) (\<lambda>replay.
            sbind (cloneOption validateAndCloneForkEvidence (snapForkEvidence s)) (\<lambda>fork.
            case epoch_now of
              None \<Rightarrow>
                require (\<not> (length consumed > 0 \<or> length outbox > 0 \<or> length replay > 0 \<or> fork \<noteq> None)) SnapshotInvalid
            | Some n \<Rightarrow>
                require (\<not> (case fork of None \<Rightarrow> False | Some f \<Rightarrow> forkEpoch f > n)) SnapshotInvalid))))))))"

subsection \<open>Transactions\<close>

record MemoryTransaction =
  txActive :: bool
  txCommittedBytes :: int
  txKey :: GroupStateStoreKey
  txWorking :: MutableState
  txMaximum :: int
  txBaseRevision :: int
  txBaseEpoch :: "int option"

definition currentEpoch :: "MutableState \<Rightarrow> int option" where
  "currentEpoch m = map_option (\<lambda>e. stateEpoch (egsState e)) (mEncryptedState m)"

definition newMemoryTransaction :: "GroupStateStoreKey \<Rightarrow> MutableState \<Rightarrow> int \<Rightarrow> group_store_error + MemoryTransaction" where
  "newMemoryTransaction key working maximum =
     sbind (committedStateBytes working maximum) (\<lambda>n.
       Inr \<lparr>txActive = True, txCommittedBytes = n, txKey = key, txWorking = working, txMaximum = maximum,
            txBaseRevision = mRevision working, txBaseEpoch = currentEpoch working\<rparr>)"

definition adjustCommittedBytes :: "MemoryTransaction \<Rightarrow> int \<Rightarrow> group_store_error + MemoryTransaction" where
  "adjustCommittedBytes tx delta =
     (let new = adjustStoreBytes (txCommittedBytes tx) delta COMMITTED_STATE_FIXED_OVERHEAD (txMaximum tx)
      in if new = -1 then Inl CommittedBytesLimit else Inr (tx\<lparr>txCommittedBytes := new\<rparr>))"

definition txUpdate :: "MemoryTransaction \<Rightarrow> (MutableState \<Rightarrow> MutableState) \<Rightarrow> MemoryTransaction" where
  "txUpdate tx f = tx\<lparr>txWorking := f (txWorking tx)\<rparr>"

definition setEncryptedState :: "MemoryTransaction \<Rightarrow> EncryptedGroupState \<Rightarrow> group_store_error + MemoryTransaction" where
  "setEncryptedState tx state =
     sbind (validateAndCloneEncryptedGroupState state (txKey tx)) (\<lambda>snapshot.
     if \<not> sameProtocol (stateProtocol (egsState snapshot)) (keyProtocol (txKey tx)) then Inl StateMismatch
     else if \<not> equalBytes (stateGroupId (egsState snapshot)) (keyGroupId (txKey tx)) then Inl StateMismatch
     else if (case currentEpoch (txWorking tx) of None \<Rightarrow> False | Some previous \<Rightarrow> stateEpoch (egsState snapshot) < previous)
     then Inl StateRollback
     else
       sbind (adjustCommittedBytes tx (encryptedStateCommittedBytes snapshot -
                (case mEncryptedState (txWorking tx) of None \<Rightarrow> 0 | Some e \<Rightarrow> encryptedStateCommittedBytes e))) (\<lambda>tx.
         Inr (txUpdate tx (\<lambda>m. m\<lparr>mEncryptedState := Some snapshot\<rparr>))))"

definition getPendingKeyPackage :: "MemoryTransaction \<Rightarrow> bytes \<Rightarrow> group_store_error + EncryptedKeyPackageState option" where
  "getPendingKeyPackage tx reference =
     sbind (cloneKeyPackageReference reference) (\<lambda>r.
       cloneOption cloneEncryptedKeyPackageState (jget (mPending (txWorking tx)) (hex_bytes r)))"

definition putPendingKeyPackage ::
    "MemoryTransaction \<Rightarrow> EncryptedKeyPackageState \<Rightarrow> group_store_error + bool \<times> MemoryTransaction" where
  "putPendingKeyPackage tx state =
     sbind (validateAndCloneEncryptedKeyPackageState state (txKey tx)) (\<lambda>snapshot.
     let reference = hex_bytes (packageReference snapshot); m = txWorking tx
     in if jhas (mConsumed m) reference then Inl PackageConsumed
        else case jget (mPending m) reference of
          Some existing \<Rightarrow>
            sbind (sameEncryptedKeyPackageState existing snapshot) (\<lambda>same.
              if \<not> same then Inl PackageDiffers else Inr (False, tx))
        | None \<Rightarrow>
            if int (jsize (mPending m)) \<ge> MAX_PENDING_KEY_PACKAGE_ENTRIES then Inl PendingLimit
            else if pendingKeyPackageBytes (jvals (mPending m)) + encryptedKeyPackageSerializedLength snapshot >
                    MAX_PENDING_KEY_PACKAGE_BYTES
            then Inl PendingLimit
            else
              sbind (adjustCommittedBytes tx (pendingEntryCommittedBytes snapshot)) (\<lambda>tx.
                Inr (True, txUpdate tx (\<lambda>m. m\<lparr>mPending := insertPendingPackage (mPending m) (mConsumed m) reference snapshot\<rparr>))))"

definition getPendingKeyPackageRequest ::
    "MemoryTransaction \<Rightarrow> bytes \<Rightarrow> group_store_error + GroupStatePendingKeyPackageRequest option" where
  "getPendingKeyPackageRequest tx operationId =
     sbind (cloneFixedId operationId) (\<lambda>i.
       cloneOption validateAndClonePendingKeyPackageRequest (jget (mRequests (txWorking tx)) (hex_bytes i)))"

definition bindPendingKeyPackageRequest ::
    "MemoryTransaction \<Rightarrow> GroupStatePendingKeyPackageRequest \<Rightarrow> group_store_error + bool \<times> MemoryTransaction" where
  "bindPendingKeyPackageRequest tx request =
     sbind (validateAndClonePendingKeyPackageRequest request) (\<lambda>r.
     let operation = hex_bytes (requestOperationId r); m = txWorking tx
     in case jget (mRequests m) operation of
          Some existing \<Rightarrow>
            if \<not> samePendingKeyPackageRequest existing r then Inl RequestConflict else Inr (False, tx)
        | None \<Rightarrow>
            if \<not> jhas (mPending m) (hex_bytes (requestReference r)) then Inl PackageMissing
            else if list_ex (\<lambda>q. equalBytes (requestReference q) (requestReference r)) (jvals (mRequests m))
            then Inl RequestConflict
            else if int (jsize (mRequests m)) \<ge> MAX_PENDING_KEY_PACKAGE_ENTRIES then Inl PendingLimit
            else
              sbind (adjustCommittedBytes tx (pendingRequestCommittedBytes r)) (\<lambda>tx.
                Inr (True, txUpdate tx (\<lambda>m. m\<lparr>mRequests := jset (mRequests m) operation r\<rparr>))))"

definition hasConsumedKeyPackage :: "MemoryTransaction \<Rightarrow> bytes \<Rightarrow> group_store_error + bool" where
  "hasConsumedKeyPackage tx reference =
     sbind (cloneKeyPackageReference reference) (\<lambda>r. Inr (jhas (mConsumed (txWorking tx)) (hex_bytes r)))"

text \<open>The loop that drops the bindings of a consumed package; it can stop half-way.\<close>

fun dropRequests ::
    "bytes \<Rightarrow> (string \<times> GroupStatePendingKeyPackageRequest) list \<Rightarrow> MemoryTransaction
      \<Rightarrow> (group_store_error + unit) \<times> MemoryTransaction" where
  "dropRequests reference [] tx = (Inr (), tx)"
| "dropRequests reference ((operation, q) # qs) tx =
     (if equalBytes (requestReference q) reference then
        (case adjustCommittedBytes tx (- pendingRequestCommittedBytes q) of
           Inl e \<Rightarrow> (Inl e, tx)
         | Inr tx \<Rightarrow> dropRequests reference qs (txUpdate tx (\<lambda>m. m\<lparr>mRequests := jdel (mRequests m) operation\<rparr>)))
      else dropRequests reference qs tx)"

definition consumePendingKeyPackage ::
    "MemoryTransaction \<Rightarrow> bytes \<Rightarrow> (group_store_error + EncryptedKeyPackageState) \<times> MemoryTransaction" where
  "consumePendingKeyPackage tx reference =
     (case cloneKeyPackageReference reference of
        Inl e \<Rightarrow> (Inl e, tx)
      | Inr r \<Rightarrow>
          (let encoded = hex_bytes r; m = txWorking tx
           in if jhas (mConsumed m) encoded then (Inl PackageConsumed, tx)
              else case jget (mPending m) encoded of
                None \<Rightarrow> (Inl PackageMissing, tx)
              | Some pending \<Rightarrow>
                  if int (jsize (mConsumed m)) \<ge> MAX_CONSUMED_KEY_PACKAGE_MARKERS then (Inl ConsumedLimit, tx)
                  else
                    (case adjustCommittedBytes tx (consumedCommittedBytes r - pendingEntryCommittedBytes pending) of
                       Inl e \<Rightarrow> (Inl e, tx)
                     | Inr tx1 \<Rightarrow>
                         (case dropRequests r (mRequests m) tx1 of
                            (Inl e, tx2) \<Rightarrow> (Inl e, tx2)
                          | (Inr _, tx2) \<Rightarrow>
                              (cloneEncryptedKeyPackageState pending,
                               txUpdate tx2 (\<lambda>m. m\<lparr>mPending := removePendingPackage (mPending m) encoded,
                                 mConsumed := insertConsumptionMarker (mConsumed m) encoded r\<rparr>))))))"

definition enqueueOutbox :: "MemoryTransaction \<Rightarrow> GroupStateOutboxEntry \<Rightarrow> group_store_error + bool \<times> MemoryTransaction" where
  "enqueueOutbox tx entry =
     sbind (validateAndCloneOutboxEntry entry) (\<lambda>e.
     let i = hex_bytes (outboxId e); m = txWorking tx
     in case jget (mOutbox m) i of
          Some existing \<Rightarrow> if \<not> sameOutboxEntry existing e then Inl OutboxConflict else Inr (False, tx)
        | None \<Rightarrow>
            if int (jsize (mOutbox m)) \<ge> MAX_GROUP_STATE_METADATA_ENTRIES then Inl MetadataLimit
            else
              sbind (adjustCommittedBytes tx (outboxEntryCommittedBytes e)) (\<lambda>tx.
                Inr (True, txUpdate tx (\<lambda>m. m\<lparr>mOutbox := jset (mOutbox m) i e\<rparr>))))"

definition removeOutbox :: "MemoryTransaction \<Rightarrow> bytes \<Rightarrow> group_store_error + bool \<times> MemoryTransaction" where
  "removeOutbox tx ident =
     sbind (cloneFixedId ident) (\<lambda>b.
     let i = hex_bytes b
     in case jget (mOutbox (txWorking tx)) i of
          None \<Rightarrow> Inr (False, tx)
        | Some existing \<Rightarrow>
            sbind (adjustCommittedBytes tx (- outboxEntryCommittedBytes existing)) (\<lambda>tx.
              Inr (True, txUpdate tx (\<lambda>m. m\<lparr>mOutbox := jdel (mOutbox m) i\<rparr>))))"

definition hasReplayRecord :: "MemoryTransaction \<Rightarrow> bytes \<Rightarrow> group_store_error + bool" where
  "hasReplayRecord tx recordId =
     sbind (cloneFixedId recordId) (\<lambda>b. Inr (jhas (mReplay (txWorking tx)) (hex_bytes b)))"

definition markReplay :: "MemoryTransaction \<Rightarrow> GroupStateReplayEntry \<Rightarrow> group_store_error + bool \<times> MemoryTransaction" where
  "markReplay tx entry =
     sbind (validateAndCloneReplayEntry entry) (\<lambda>e.
     let recordId = hex_bytes (replayRecordId e); m = txWorking tx
     in case jget (mReplay m) recordId of
          Some existing \<Rightarrow> if \<not> sameReplayEntry existing e then Inl ReplayConflict else Inr (False, tx)
        | None \<Rightarrow>
            if int (jsize (mReplay m)) \<ge> MAX_GROUP_STATE_METADATA_ENTRIES then Inl MetadataLimit
            else
              (let operation = map_option hex_bytes (replayOperationId e)
               in if (case operation of
                        None \<Rightarrow> False
                      | Some op \<Rightarrow>
                          (case jget (mOperationToRecord m) op of None \<Rightarrow> False | Some prior \<Rightarrow> prior \<noteq> recordId))
                  then Inl ReplayConflict
                  else
                    sbind (adjustCommittedBytes tx (replayEntryCommittedBytes e)) (\<lambda>tx.
                      Inr (True, txUpdate tx (\<lambda>m. m\<lparr>
                        mOperationToRecord := (case operation of
                            None \<Rightarrow> mOperationToRecord m
                          | Some op \<Rightarrow> bindOperationToRecord (mOperationToRecord m) op recordId),
                        mReplay := jset (mReplay m) recordId e\<rparr>)))))"

definition removeReplay :: "MemoryTransaction \<Rightarrow> bytes \<Rightarrow> group_store_error + bool \<times> MemoryTransaction" where
  "removeReplay tx ident =
     sbind (cloneFixedId ident) (\<lambda>b.
     let recordHex = hex_bytes b
     in case jget (mReplay (txWorking tx)) recordHex of
          None \<Rightarrow> Inr (False, tx)
        | Some existing \<Rightarrow>
            sbind (adjustCommittedBytes tx (- replayEntryCommittedBytes existing)) (\<lambda>tx.
              Inr (True, txUpdate tx (\<lambda>m. m\<lparr>
                mReplay := jdel (mReplay m) recordHex,
                mOperationToRecord := (case replayOperationId existing of
                    None \<Rightarrow> mOperationToRecord m
                  | Some op \<Rightarrow>
                      if jget (mOperationToRecord m) (hex_bytes op) = Some recordHex
                      then jdel (mOperationToRecord m) (hex_bytes op) else mOperationToRecord m)\<rparr>))))"

definition markFork :: "MemoryTransaction \<Rightarrow> GroupStateForkEvidence \<Rightarrow> group_store_error + bool \<times> MemoryTransaction" where
  "markFork tx evidence =
     sbind (normalizeForkEvidence evidence) (\<lambda>normalized.
     case mFork (txWorking tx) of
       Some f \<Rightarrow> sbind (sameForkEvidence f normalized) (\<lambda>same. if \<not> same then Inl ForkConflict else Inr (False, tx))
     | None \<Rightarrow>
         sbind (adjustCommittedBytes tx (forkEvidenceCommittedBytes normalized)) (\<lambda>tx.
           Inr (True, txUpdate tx (\<lambda>m. m\<lparr>mFork := Some normalized\<rparr>))))"

subsection \<open>Callbacks\<close>

datatype tx_call =
    CallBaseRevision
  | CallEncryptedState
  | CallPendingKeyPackages
  | CallPendingKeyPackageRequests
  | CallConsumedKeyPackageRefs
  | CallOutbox
  | CallReplay
  | CallForkEvidence
  | CallSetEncryptedState EncryptedGroupState
  | CallGetPendingKeyPackage bytes
  | CallPutPendingKeyPackage EncryptedKeyPackageState
  | CallGetPendingKeyPackageRequest bytes
  | CallBindPendingKeyPackageRequest GroupStatePendingKeyPackageRequest
  | CallHasConsumedKeyPackage bytes
  | CallConsumePendingKeyPackage bytes
  | CallEnqueueOutbox GroupStateOutboxEntry
  | CallRemoveOutbox bytes
  | CallHasReplayRecord bytes
  | CallMarkReplay GroupStateReplayEntry
  | CallRemoveReplay bytes
  | CallMarkFork GroupStateForkEvidence

datatype tx_value =
    UndefinedValue
  | BoolValue bool
  | RevisionValue int
  | StateValue "EncryptedGroupState option"
  | PackageValue "EncryptedKeyPackageState option"
  | PackagesValue "EncryptedKeyPackageState list"
  | RequestValue "GroupStatePendingKeyPackageRequest option"
  | RequestsValue "GroupStatePendingKeyPackageRequest list"
  | ReferencesValue "bytes list"
  | OutboxValue "GroupStateOutboxEntry list"
  | ReplayValue "GroupStateReplayEntry list"
  | ForkValue "GroupStateForkEvidence option"

definition readCall :: "MemoryTransaction \<Rightarrow> ('a \<Rightarrow> tx_value) \<Rightarrow> group_store_error + 'a \<Rightarrow> (group_store_error + tx_value) \<times> MemoryTransaction" where
  "readCall tx f r = (sbind r (\<lambda>v. Inr (f v)), tx)"

definition writeCall ::
    "MemoryTransaction \<Rightarrow> group_store_error + bool \<times> MemoryTransaction \<Rightarrow> (group_store_error + tx_value) \<times> MemoryTransaction" where
  "writeCall tx r = (case r of Inl e \<Rightarrow> (Inl e, tx) | Inr (b, tx') \<Rightarrow> (Inr (BoolValue b), tx'))"

fun perform :: "MemoryTransaction \<Rightarrow> tx_call \<Rightarrow> (group_store_error + tx_value) \<times> MemoryTransaction" where
  "perform tx CallBaseRevision = readCall tx RevisionValue (Inr (txBaseRevision tx))"
| "perform tx CallEncryptedState = readCall tx StateValue (cloneOption cloneEncryptedState (mEncryptedState (txWorking tx)))"
| "perform tx CallPendingKeyPackages =
     readCall tx PackagesValue (cloneList cloneEncryptedKeyPackageState (jvals (mPending (txWorking tx))))"
| "perform tx CallPendingKeyPackageRequests =
     readCall tx RequestsValue (cloneList validateAndClonePendingKeyPackageRequest (jvals (mRequests (txWorking tx))))"
| "perform tx CallConsumedKeyPackageRefs =
     readCall tx ReferencesValue (cloneList cloneKeyPackageReference (jvals (mConsumed (txWorking tx))))"
| "perform tx CallOutbox = readCall tx OutboxValue (cloneList validateAndCloneOutboxEntry (jvals (mOutbox (txWorking tx))))"
| "perform tx CallReplay = readCall tx ReplayValue (cloneList validateAndCloneReplayEntry (jvals (mReplay (txWorking tx))))"
| "perform tx CallForkEvidence = readCall tx ForkValue (cloneOption validateAndCloneForkEvidence (mFork (txWorking tx)))"
| "perform tx (CallSetEncryptedState s) =
     (case setEncryptedState tx s of Inl e \<Rightarrow> (Inl e, tx) | Inr tx' \<Rightarrow> (Inr UndefinedValue, tx'))"
| "perform tx (CallGetPendingKeyPackage r) = readCall tx PackageValue (getPendingKeyPackage tx r)"
| "perform tx (CallPutPendingKeyPackage s) = writeCall tx (putPendingKeyPackage tx s)"
| "perform tx (CallGetPendingKeyPackageRequest i) = readCall tx RequestValue (getPendingKeyPackageRequest tx i)"
| "perform tx (CallBindPendingKeyPackageRequest q) = writeCall tx (bindPendingKeyPackageRequest tx q)"
| "perform tx (CallHasConsumedKeyPackage r) = readCall tx BoolValue (hasConsumedKeyPackage tx r)"
| "perform tx (CallConsumePendingKeyPackage r) =
     (case consumePendingKeyPackage tx r of (v, tx') \<Rightarrow> (sbind v (\<lambda>s. Inr (PackageValue (Some s))), tx'))"
| "perform tx (CallEnqueueOutbox e) = writeCall tx (enqueueOutbox tx e)"
| "perform tx (CallRemoveOutbox i) = writeCall tx (removeOutbox tx i)"
| "perform tx (CallHasReplayRecord i) = readCall tx BoolValue (hasReplayRecord tx i)"
| "perform tx (CallMarkReplay e) = writeCall tx (markReplay tx e)"
| "perform tx (CallRemoveReplay i) = writeCall tx (removeReplay tx i)"
| "perform tx (CallMarkFork f) = writeCall tx (markFork tx f)"

definition callTransaction :: "MemoryTransaction \<Rightarrow> tx_call \<Rightarrow> (group_store_error + tx_value) \<times> MemoryTransaction" where
  "callTransaction tx c = (if \<not> txActive tx then (Inl InactiveTransaction, tx) else perform tx c)"

datatype 'r script =
    Resolve 'r
  | Reject
  | Await tx_call "group_store_error + tx_value \<Rightarrow> 'r script"

primrec runScript :: "'r script \<Rightarrow> MemoryTransaction \<Rightarrow> (group_store_error + 'r) \<times> MemoryTransaction" where
  "runScript (Resolve r) tx = (Inr r, tx)"
| "runScript Reject tx = (Inl CallbackRejected, tx)"
| "runScript (Await c k) tx = (let (v, tx') = callTransaction tx c in runScript (k v) tx')"

subsection \<open>Committing\<close>

definition checkPendingKeys :: "GroupStateStoreKey \<Rightarrow> (string, EncryptedKeyPackageState) jsmap \<Rightarrow> group_store_error + unit list" where
  "checkPendingKeys key m = cloneList (\<lambda>(encoded, s).
     sbind (validateAndCloneEncryptedKeyPackageState s key) (\<lambda>v.
       require (\<not> hex_bytes (packageReference v) \<noteq> encoded) KeyMismatch)) m"

definition checkRequestKeys :: "(string, GroupStatePendingKeyPackageRequest) jsmap \<Rightarrow> group_store_error + unit list" where
  "checkRequestKeys m = cloneList (\<lambda>(encoded, q).
     sbind (validateAndClonePendingKeyPackageRequest q) (\<lambda>v.
       require (\<not> hex_bytes (requestOperationId v) \<noteq> encoded) KeyMismatch)) m"

definition checkConsumedKeys :: "(string, bytes) jsmap \<Rightarrow> group_store_error + unit list" where
  "checkConsumedKeys m = cloneList (\<lambda>(encoded, r).
     sbind (cloneKeyPackageReference r) (\<lambda>_. require (\<not> hex_bytes r \<noteq> encoded) KeyMismatch)) m"

definition validateBeforeCommit :: "MemoryTransaction \<Rightarrow> group_store_error + unit" where
  "validateBeforeCommit tx =
     (if \<not> txActive tx then Inl InactiveTransaction
      else
        (let m = txWorking tx; finalEpoch = currentEpoch m;
             baseline = classifyStoreCommitBaseline (txBaseRevision tx) (mRevision m) (txBaseEpoch tx \<noteq> None) (finalEpoch \<noteq> None)
               (case txBaseEpoch tx of None \<Rightarrow> 0 | Some n \<Rightarrow> n) (case finalEpoch of None \<Rightarrow> 0 | Some n \<Rightarrow> n)
         in if baseline = BaselineRevision then Inl BaselineChanged
            else if baseline = BaselineRollback then Inl StateRollback
            else
              sbind (committedStateBytes m (txMaximum tx)) (\<lambda>recomputed.
              if recomputed \<noteq> txCommittedBytes tx then Inl AccountingMismatch
              else if int (jsize (mConsumed m)) > MAX_CONSUMED_KEY_PACKAGE_MARKERS then Inl ConsumedLimit
              else if int (jsize (mOutbox m)) > MAX_GROUP_STATE_METADATA_ENTRIES \<or>
                      int (jsize (mReplay m)) > MAX_GROUP_STATE_METADATA_ENTRIES then Inl MetadataLimit
              else if int (jsize (mPending m)) > MAX_PENDING_KEY_PACKAGE_ENTRIES \<or>
                      int (jsize (mRequests m)) > MAX_PENDING_KEY_PACKAGE_ENTRIES \<or>
                      pendingKeyPackageBytes (jvals (mPending m)) > MAX_PENDING_KEY_PACKAGE_BYTES then Inl PendingLimit
              else
                sbind (checkPendingKeys (txKey tx) (mPending m)) (\<lambda>_.
                sbind (checkRequestKeys (mRequests m)) (\<lambda>_.
                sbind (checkConsumedKeys (mConsumed m)) (\<lambda>_.
                sbind (storeSnapshot m) (\<lambda>s. validateGroupStateStoreSnapshotSemantics s (txKey tx))))))))"

text \<open>The version of a protocol is printed in decimal.\<close>

fun decimalUnits :: "nat \<Rightarrow> js_string" where
  "decimalUnits n = (if n < 10 then [of_nat (48 + n)] else decimalUnits (n div 10) @ [of_nat (48 + n mod 10)])"

declare decimalUnits.simps [simp del]

definition encodeStoreKey :: "GroupStateStoreKey \<Rightarrow> js_string" where
  "encodeStoreKey k =
     protoId (keyProtocol k) @ [58] @ decimalUnits (nat (protoVersion (keyProtocol k))) @ [58] @
     map of_char (hex_bytes (keyGroupId k))"

record InMemoryGroupStateStore =
  storeGroups :: "(js_string, MutableState) jsmap"
  storeMaximum :: int

definition newGroupStateStore :: "int \<Rightarrow> group_store_error + InMemoryGroupStateStore" where
  "newGroupStateStore maximum =
     (if maximum < COMMITTED_STATE_FIXED_OVERHEAD \<or> maximum > MAX_GROUP_STATE_STORE_COMMITTED_BYTES then Inl InvalidValue
      else Inr \<lparr>storeGroups = [], storeMaximum = maximum\<rparr>)"

definition groupLoad :: "InMemoryGroupStateStore \<Rightarrow> GroupStateStoreKey \<Rightarrow> group_store_error + GroupStateStoreSnapshot option" where
  "groupLoad st key =
     sbind (cloneGroupStateStoreKey key) (\<lambda>k.
     case jget (storeGroups st) (encodeStoreKey k) of
       None \<Rightarrow> Inr None
     | Some m \<Rightarrow> sbind (storeSnapshot m) (\<lambda>s. Inr (Some s)))"

definition beginTransaction :: "InMemoryGroupStateStore \<Rightarrow> GroupStateStoreKey \<Rightarrow> group_store_error + MemoryTransaction" where
  "beginTransaction st key =
     sbind (cloneGroupStateStoreKey key) (\<lambda>k.
     sbind (cloneMutableState (case jget (storeGroups st) (encodeStoreKey k) of None \<Rightarrow> emptyState | Some m \<Rightarrow> m)) (\<lambda>working.
     newMemoryTransaction k working (storeMaximum st)))"

definition commitTransaction :: "InMemoryGroupStateStore \<Rightarrow> MemoryTransaction \<Rightarrow> int \<Rightarrow> group_store_error + InMemoryGroupStateStore" where
  "commitTransaction st tx currentRevision =
     sbind (validateBeforeCommit tx) (\<lambda>_.
     let revision = nextStoreRevision currentRevision
     in if revision = -1 then Inl RevisionLimit
        else
          sbind (cloneMutableState ((txWorking tx)\<lparr>mRevision := revision\<rparr>)) (\<lambda>m.
            Inr (st\<lparr>storeGroups := jset (storeGroups st) (encodeStoreKey (txKey tx)) m\<rparr>)))"

definition groupTransaction ::
    "InMemoryGroupStateStore \<Rightarrow> GroupStateStoreKey \<Rightarrow> 'r script \<Rightarrow> (group_store_error + 'r) \<times> InMemoryGroupStateStore" where
  "groupTransaction st key operation =
     (case beginTransaction st key of
        Inl e \<Rightarrow> (Inl e, st)
      | Inr tx \<Rightarrow>
          (case runScript operation tx of
             (Inl e, _) \<Rightarrow> (Inl e, st)
           | (Inr result, tx') \<Rightarrow>
               (case commitTransaction st tx' (txBaseRevision tx) of
                  Inl e \<Rightarrow> (Inl e, st)
                | Inr st' \<Rightarrow> (Inr result, st'))))"

end
