(* ===== verification/Group_State_Proofs.thy ===== *)
theory Group_State_Proofs
  imports Group_State_Store
begin

text \<open>
  The invariant of the group-state store: every value held is a fixed point of its
  checked copy, and the running byte count of a transaction is the size of its
  working state. From it: the accounting check of a commit never fires, a reachable
  store can always be read and reopened, and consumed KeyPackages stay consumed.
\<close>


section \<open>Sizes\<close>

definition sum_bytes :: "('a \<Rightarrow> int) \<Rightarrow> 'a list \<Rightarrow> int" where
  "sum_bytes f xs = sum_list (map f xs)"

definition stateBytes :: "MutableState \<Rightarrow> int" where
  "stateBytes m = COMMITTED_STATE_FIXED_OVERHEAD +
     sum_bytes encryptedStateCommittedBytes (opt_to_list (mEncryptedState m)) +
     sum_bytes pendingEntryCommittedBytes (jvals (mPending m)) +
     sum_bytes pendingRequestCommittedBytes (jvals (mRequests m)) +
     sum_bytes consumedCommittedBytes (jvals (mConsumed m)) +
     sum_bytes outboxEntryCommittedBytes (jvals (mOutbox m)) +
     sum_bytes replayEntryCommittedBytes (jvals (mReplay m)) +
     sum_bytes forkEvidenceCommittedBytes (opt_to_list (mFork m))"

lemma sum_bytes_simps [simp]:
  "sum_bytes f [] = 0" "sum_bytes f (x # xs) = f x + sum_bytes f xs" "sum_bytes f (xs @ ys) = sum_bytes f xs + sum_bytes f ys"
  by (simp_all add: sum_bytes_def)

lemma opt_to_list_simps [simp]: "opt_to_list None = []" "opt_to_list (Some x) = [x]"
  by (simp_all add: opt_to_list_def)

lemma sum_bytes_nonneg: "(\<And>x. 0 \<le> f x) \<Longrightarrow> 0 \<le> sum_bytes f xs"
  by (induction xs) auto

lemma serializedLength_nonneg: "0 \<le> serializedLength r"
  by (simp add: serializedLength_def split: sum.splits)

lemma entry_bytes_nonneg [simp]:
  "0 \<le> encryptedStateCommittedBytes a" "0 \<le> pendingEntryCommittedBytes b" "0 \<le> pendingRequestCommittedBytes c"
  "0 \<le> consumedCommittedBytes d" "0 \<le> outboxEntryCommittedBytes e" "0 \<le> replayEntryCommittedBytes g" "0 \<le> forkEvidenceCommittedBytes h"
  using serializedLength_nonneg [of "serializeGroupState a"] serializedLength_nonneg [of "serializeKeyPackage b"]
  by (auto simp: encryptedStateCommittedBytes_def pendingEntryCommittedBytes_def encryptedKeyPackageSerializedLength_def
      pendingRequestCommittedBytes_def consumedCommittedBytes_def outboxEntryCommittedBytes_def replayEntryCommittedBytes_def
      forkEvidenceCommittedBytes_def GROUP_STATE_STORE_ID_LENGTH_def split: option.splits)

lemma part_nonneg [simp]:
  "0 \<le> sum_bytes encryptedStateCommittedBytes a" "0 \<le> sum_bytes pendingEntryCommittedBytes b"
  "0 \<le> sum_bytes pendingRequestCommittedBytes c" "0 \<le> sum_bytes consumedCommittedBytes d"
  "0 \<le> sum_bytes outboxEntryCommittedBytes e" "0 \<le> sum_bytes replayEntryCommittedBytes g"
  "0 \<le> sum_bytes forkEvidenceCommittedBytes h"
  by (rule sum_bytes_nonneg, simp)+

lemma addAllCommittedBytes_exact:
  assumes "\<And>x. 0 \<le> f x"
  shows "0 \<le> tot \<Longrightarrow> tot \<le> m \<Longrightarrow> addAllCommittedBytes f m xs tot =
    (if tot + sum_bytes f xs \<le> m then Inr (tot + sum_bytes f xs) else Inl CommittedBytesLimit)"
proof (induction xs arbitrary: tot)
  case (Cons x xs)
  have "0 \<le> sum_bytes f xs" by (rule sum_bytes_nonneg [OF assms])
  then show ?case using Cons assms [of x] by (auto simp: addCommittedBytes_def adjustStoreBytes_def Let_def algebra_simps)
qed simp

lemma committedStateBytes_exact:
  assumes "COMMITTED_STATE_FIXED_OVERHEAD \<le> maximum"
  shows "committedStateBytes m maximum = (if stateBytes m \<le> maximum then Inr (stateBytes m) else Inl CommittedBytesLimit)"
proof -
  note ex = addAllCommittedBytes_exact [OF entry_bytes_nonneg(1)] addAllCommittedBytes_exact [OF entry_bytes_nonneg(2)]
    addAllCommittedBytes_exact [OF entry_bytes_nonneg(3)] addAllCommittedBytes_exact [OF entry_bytes_nonneg(4)]
    addAllCommittedBytes_exact [OF entry_bytes_nonneg(5)] addAllCommittedBytes_exact [OF entry_bytes_nonneg(6)]
    addAllCommittedBytes_exact [OF entry_bytes_nonneg(7)]
  define a where "a = sum_bytes encryptedStateCommittedBytes (opt_to_list (mEncryptedState m))"
  define b where "b = sum_bytes pendingEntryCommittedBytes (jvals (mPending m))"
  define c where "c = sum_bytes pendingRequestCommittedBytes (jvals (mRequests m))"
  define d where "d = sum_bytes consumedCommittedBytes (jvals (mConsumed m))"
  define e where "e = sum_bytes outboxEntryCommittedBytes (jvals (mOutbox m))"
  define g where "g = sum_bytes replayEntryCommittedBytes (jvals (mReplay m))"
  define h where "h = sum_bytes forkEvidenceCommittedBytes (opt_to_list (mFork m))"
  have nn: "0 \<le> a" "0 \<le> b" "0 \<le> c" "0 \<le> d" "0 \<le> e" "0 \<le> g" "0 \<le> h" by (simp_all add: a_def b_def c_def d_def e_def g_def h_def)
  have o: "0 \<le> COMMITTED_STATE_FIXED_OVERHEAD" by (simp add: COMMITTED_STATE_FIXED_OVERHEAD_def)
  have "stateBytes m = COMMITTED_STATE_FIXED_OVERHEAD + a + b + c + d + e + g + h"
    by (simp add: stateBytes_def a_def b_def c_def d_def e_def g_def h_def)
  then show ?thesis using nn o assms unfolding committedStateBytes_def
    by (simp add: ex sbind_def flip: a_def b_def c_def d_def e_def g_def h_def)
qed

lemma jvals_jset_fresh: "jget m k = None \<Longrightarrow> jvals (jset m k v) = jvals m @ [v]"
  by (simp add: jset_fresh jvals_def)

lemma sum_jdel:
  assumes "jwf m" "jget m k = Some v"
  shows "sum_bytes f (jvals (jdel m k)) = sum_bytes f (jvals m) - f v"
  using assms
proof (induction m)
  case (Cons e m)
  obtain k' v' where e: "e = (k', v')" by (cases e)
  show ?case
  proof (cases "k' = k")
    case True
    have "jget m k = None" using Cons.prems(1) e True by (simp add: jwf_def jkeys_def jget_None_iff)
    then have "jdel m k = m" by (auto simp: jdel_def jget_None_iff filter_id_conv)
    then show ?thesis using Cons.prems(2) e True by (simp add: jdel_def jvals_def jget_Cons)
  next
    case False
    have "jwf m" using Cons.prems(1) e by (simp add: jwf_def jkeys_def)
    then show ?thesis using Cons.IH Cons.prems(2) e False by (simp add: jdel_def jvals_def jget_Cons)
  qed
qed simp

lemma stateBytes_ge: "COMMITTED_STATE_FIXED_OVERHEAD \<le> stateBytes m"
  by (simp add: stateBytes_def add_nonneg_nonneg add_increasing2)


section \<open>Checked copies\<close>

text \<open>A checked copy returns its argument or fails.\<close>

lemma cloneBytes_Inr: "cloneBytes b lo hi = Inr c \<longleftrightarrow> c = b \<and> lo \<le> int (length b) \<and> int (length b) \<le> hi"
  by (auto simp: cloneBytes_def)

lemma clone_values:
  "cloneFixedId b = Inr b' \<Longrightarrow> b' = b"
  "cloneKeyPackageReference b = Inr b' \<Longrightarrow> b' = b"
  "cloneOptionalId v = Inr v' \<Longrightarrow> v' = v"
  "cloneGroupStateStoreKey k = Inr k' \<Longrightarrow> k' = k"
  "validateAndCloneOutboxEntry a = Inr a' \<Longrightarrow> a' = a"
  "validateAndCloneReplayEntry r = Inr r' \<Longrightarrow> r' = r"
  "validateAndClonePendingKeyPackageRequest q = Inr q' \<Longrightarrow> q' = q"
  "validateAndCloneForkEvidence f = Inr f' \<Longrightarrow> f' = f"
  by (auto simp: cloneFixedId_def cloneKeyPackageReference_def cloneBytes_Inr cloneOptionalId_def cloneGroupStateStoreKey_def
      validateAndCloneProtocol_def validateAndCloneOutboxEntry_def validateAndCloneReplayEntry_def
      validateAndClonePendingKeyPackageRequest_def validateAndCloneForkEvidence_def sbind_Inr_iff split: if_splits option.splits)

lemma envelope_value_Inr [simp]: "envelope_value r = Inr x \<longleftrightarrow> r = Inr x" "envelope_value (Inr x) = Inr x"
  by (auto simp: envelope_value_def split: sum.splits)

lemma groupStateWire_length: "group_state_ok e \<Longrightarrow> serializeGroupState e = Inr b \<Longrightarrow> 1 \<le> length b \<and> int (length b) \<le> MAX_GROUP_STATE_STORE_COMMITTED_BYTES"
proof -
  assume e: "group_state_ok e" "serializeGroupState e = Inr b"
  obtain b' where "serializeGroupState e = Inr b'" "deserializeGroupState b' = Inr e" using groupState_roundtrip [OF e(1)] by blast
  then have "deserializeGroupState b = Inr e" using e(2) by simp
  then have "int (length b) \<le> MAX_ENCRYPTED_GROUP_STATE_SERIALIZED_BYTES" by (simp add: deserializeGroupState_Inr)
  moreover have "b \<noteq> []" using e by (auto simp: serializeGroupState_ok groupStateWire_def ENCRYPTED_GROUP_STATE_MAGIC_def)
  ultimately show ?thesis
    by (simp add: Suc_le_eq MAX_ENCRYPTED_GROUP_STATE_SERIALIZED_BYTES_def MAX_GROUP_STATE_STORE_COMMITTED_BYTES_def envelope_limits)
qed

lemma keyPackageWire_length: "key_package_ok e \<Longrightarrow> serializeKeyPackage e = Inr b \<Longrightarrow> 1 \<le> length b \<and> int (length b) \<le> MAX_GROUP_STATE_STORE_COMMITTED_BYTES"
proof -
  assume e: "key_package_ok e" "serializeKeyPackage e = Inr b"
  obtain b' where "serializeKeyPackage e = Inr b'" "deserializeKeyPackage b' = Inr e" using keyPackage_roundtrip [OF e(1)] by blast
  then have "deserializeKeyPackage b = Inr e" using e(2) by simp
  then have "int (length b) \<le> MAX_ENCRYPTED_KEY_PACKAGE_STATE_SERIALIZED_BYTES" by (simp add: deserializeKeyPackage_Inr)
  moreover have "b \<noteq> []" using e by (auto simp: serializeKeyPackage_ok keyPackageWire_def ENCRYPTED_KEY_PACKAGE_STATE_MAGIC_def)
  ultimately show ?thesis
    by (simp add: Suc_le_eq MAX_ENCRYPTED_KEY_PACKAGE_STATE_SERIALIZED_BYTES_def MAX_GROUP_STATE_STORE_COMMITTED_BYTES_def envelope_limits)
qed

lemma cloneEncryptedState_ok: "group_state_ok e \<Longrightarrow> cloneEncryptedState e = Inr e"
  using groupState_roundtrip [of e] groupStateWire_length [of e]
  by (auto simp: cloneEncryptedState_def serializedEncryptedGroupState_def cloneBytes_def)

lemma cloneEncryptedKeyPackageState_ok: "key_package_ok e \<Longrightarrow> cloneEncryptedKeyPackageState e = Inr e"
  using keyPackage_roundtrip [of e] keyPackageWire_length [of e]
  by (auto simp: cloneEncryptedKeyPackageState_def serializedEncryptedKeyPackageState_def cloneBytes_def)

lemma cloneEncryptedState_Inr: "cloneEncryptedState e = Inr e' \<Longrightarrow> group_state_ok e'"
  by (auto simp: cloneEncryptedState_def sbind_Inr_iff deserializeGroupState_Inr)

lemma cloneEncryptedKeyPackageState_Inr: "cloneEncryptedKeyPackageState e = Inr e' \<Longrightarrow> key_package_ok e'"
  by (auto simp: cloneEncryptedKeyPackageState_def sbind_Inr_iff deserializeKeyPackage_Inr)

lemma validateAndCloneEncryptedGroupState_Inr:
  "validateAndCloneEncryptedGroupState e key = Inr e' \<Longrightarrow> group_state_ok e' \<and>
    stateProtocol (egsState e') = keyProtocol key \<and> stateGroupId (egsState e') = keyGroupId key"
  by (auto simp: validateAndCloneEncryptedGroupState_def sbind_Inr_iff sameProtocol_def intro: cloneEncryptedState_Inr
      GroupSecurityProtocol.equality split: if_splits)

lemma validateAndCloneEncryptedKeyPackageState_Inr:
  "validateAndCloneEncryptedKeyPackageState e key = Inr e' \<Longrightarrow> key_package_ok e' \<and>
    kpProtocol (ekpKeyPackage e') = keyProtocol key \<and> kpGroupId (ekpKeyPackage e') = keyGroupId key"
  by (auto simp: validateAndCloneEncryptedKeyPackageState_def sbind_Inr_iff sameProtocol_def intro: cloneEncryptedKeyPackageState_Inr
      GroupSecurityProtocol.equality split: if_splits)

lemma cloneList_same: "\<forall>x \<in> set xs. f x = Inr x \<Longrightarrow> cloneList f xs = Inr xs"
  by (induction xs) auto

lemma cloneMap_same: "\<forall>v \<in> set (jvals m). f v = Inr v \<Longrightarrow> cloneMap f m = Inr m"
  by (auto simp: cloneMap_def jvals_def intro!: cloneList_same)

lemma cloneOption_same: "\<forall>x. v = Some x \<longrightarrow> f x = Inr x \<Longrightarrow> cloneOption f v = Inr v"
  by (cases v) (simp_all add: cloneOption_def)

section \<open>The invariant\<close>

definition m_ok :: "MutableState \<Rightarrow> bool" where
  "m_ok m \<longleftrightarrow> jwf (mPending m) \<and> jwf (mRequests m) \<and> jwf (mConsumed m) \<and> jwf (mOutbox m) \<and> jwf (mReplay m) \<and>
     (\<forall>e. mEncryptedState m = Some e \<longrightarrow> group_state_ok e) \<and>
     (\<forall>v \<in> set (jvals (mPending m)). key_package_ok v) \<and>
     (\<forall>v \<in> set (jvals (mRequests m)). validateAndClonePendingKeyPackageRequest v = Inr v) \<and>
     (\<forall>v \<in> set (jvals (mConsumed m)). cloneKeyPackageReference v = Inr v) \<and>
     (\<forall>v \<in> set (jvals (mOutbox m)). validateAndCloneOutboxEntry v = Inr v) \<and>
     (\<forall>v \<in> set (jvals (mReplay m)). validateAndCloneReplayEntry v = Inr v) \<and>
     (\<forall>f. mFork m = Some f \<longrightarrow> validateAndCloneForkEvidence f = Inr f)"

definition snap_of :: "MutableState \<Rightarrow> GroupStateStoreSnapshot" where
  "snap_of m = \<lparr>snapRevision = mRevision m, snapEncryptedState = mEncryptedState m, snapPendingKeyPackages = jvals (mPending m),
     snapPendingKeyPackageRequests = jvals (mRequests m), snapConsumedKeyPackageRefs = jvals (mConsumed m),
     snapOutbox = jvals (mOutbox m), snapReplay = jvals (mReplay m), snapForkEvidence = mFork m\<rparr>"

lemma storeSnapshot_ok: "m_ok m \<Longrightarrow> storeSnapshot m = Inr (snap_of m)"
  unfolding storeSnapshot_def m_ok_def
  by (simp add: cloneOption_same cloneList_same cloneEncryptedState_ok cloneEncryptedKeyPackageState_ok snap_of_def)

lemma cloneMutableState_ok: "m_ok m \<Longrightarrow> cloneMutableState m = Inr m"
  unfolding cloneMutableState_def m_ok_def
  by (simp add: cloneOption_same cloneMap_same cloneEncryptedState_ok cloneEncryptedKeyPackageState_ok)

lemma empty_ok [simp]: "m_ok emptyState" "stateBytes emptyState = COMMITTED_STATE_FIXED_OVERHEAD"
  by (simp_all add: m_ok_def emptyState_def stateBytes_def jvals_def)

definition epoch_le :: "int option \<Rightarrow> int option \<Rightarrow> bool" where
  "epoch_le a b \<longleftrightarrow> (case a of None \<Rightarrow> True | Some m \<Rightarrow> (case b of None \<Rightarrow> False | Some n \<Rightarrow> m \<le> n))"

definition tx_ok :: "MemoryTransaction \<Rightarrow> bool" where
  "tx_ok tx \<longleftrightarrow> COMMITTED_STATE_FIXED_OVERHEAD \<le> txMaximum tx \<and> m_ok (txWorking tx) \<and>
     txCommittedBytes tx = stateBytes (txWorking tx) \<and> stateBytes (txWorking tx) \<le> txMaximum tx \<and>
     txBaseRevision tx = mRevision (txWorking tx) \<and> epoch_le (txBaseEpoch tx) (currentEpoch (txWorking tx))"

text \<open>What a call may not change, and what it may only extend.\<close>

definition tx_extends :: "MemoryTransaction \<Rightarrow> MemoryTransaction \<Rightarrow> bool" where
  "tx_extends tx tx' \<longleftrightarrow> txActive tx' = txActive tx \<and> txKey tx' = txKey tx \<and> txMaximum tx' = txMaximum tx \<and>
     txBaseRevision tx' = txBaseRevision tx \<and> txBaseEpoch tx' = txBaseEpoch tx \<and>
     (\<forall>k. jhas (mConsumed (txWorking tx)) k \<longrightarrow> jhas (mConsumed (txWorking tx')) k)"

lemma tx_extends_refl [simp]: "tx_extends tx tx"
  by (simp add: tx_extends_def)

lemma tx_extends_trans: "tx_extends a b \<Longrightarrow> tx_extends b c \<Longrightarrow> tx_extends a c"
  by (simp add: tx_extends_def)

lemma adjust_Inr:
  "adjustCommittedBytes tx d = Inr tx' \<longleftrightarrow> tx' = tx\<lparr>txCommittedBytes := txCommittedBytes tx + d\<rparr> \<and>
    COMMITTED_STATE_FIXED_OVERHEAD \<le> txCommittedBytes tx + d \<and> txCommittedBytes tx + d \<le> txMaximum tx"
  by (auto simp: adjustCommittedBytes_def adjustStoreBytes_def Let_def COMMITTED_STATE_FIXED_OVERHEAD_def split: if_splits)


section \<open>Calls keep the invariant\<close>

lemma tx_okI:
  assumes "tx_ok tx" "m_ok m'" "stateBytes m' = txCommittedBytes tx + d"
    and "COMMITTED_STATE_FIXED_OVERHEAD \<le> txCommittedBytes tx + d" "txCommittedBytes tx + d \<le> txMaximum tx"
    and "mRevision m' = mRevision (txWorking tx)" "epoch_le (currentEpoch (txWorking tx)) (currentEpoch m')"
  shows "tx_ok (tx\<lparr>txCommittedBytes := txCommittedBytes tx + d, txWorking := m'\<rparr>)"
  using assms by (auto simp: tx_ok_def epoch_le_def split: option.splits)

lemma epoch_le_refl [simp]: "epoch_le a a"
  by (simp add: epoch_le_def split: option.splits)

lemma epoch_le_trans: "epoch_le a b \<Longrightarrow> epoch_le b c \<Longrightarrow> epoch_le a c"
  by (auto simp: epoch_le_def split: option.splits)

lemma set_jvals_fresh: "jget m k = None \<Longrightarrow> set (jvals (jset m k v)) = insert v (set (jvals m))"
  by (simp add: jvals_jset_fresh)

lemma set_jvals_jdel_subset: "set (jvals (jdel m k)) \<subseteq> set (jvals m)"
  by (auto simp: jvals_def jdel_def)

lemmas call_simps = adjust_Inr sbind_Inr_iff txUpdate_def currentEpoch_def

lemma setEncryptedState_ok:
  assumes "tx_ok tx" "setEncryptedState tx s = Inr tx'"
  shows "tx_ok tx' \<and> tx_extends tx tx'"
proof -
  obtain e where e: "validateAndCloneEncryptedGroupState s (txKey tx) = Inr e"
    using assms(2) by (auto simp: setEncryptedState_def sbind_Inr_iff)
  let ?d = "encryptedStateCommittedBytes e - (case mEncryptedState (txWorking tx) of None \<Rightarrow> 0 | Some e \<Rightarrow> encryptedStateCommittedBytes e)"
  have r: "\<not> (case currentEpoch (txWorking tx) of None \<Rightarrow> False | Some previous \<Rightarrow> stateEpoch (egsState e) < previous)"
    "tx' = tx\<lparr>txCommittedBytes := txCommittedBytes tx + ?d, txWorking := (txWorking tx)\<lparr>mEncryptedState := Some e\<rparr>\<rparr>"
    "COMMITTED_STATE_FIXED_OVERHEAD \<le> txCommittedBytes tx + ?d" "txCommittedBytes tx + ?d \<le> txMaximum tx"
    using assms(2) unfolding setEncryptedState_def e sbind_simps
    by (auto simp: adjust_Inr sbind_Inr_iff txUpdate_def split: if_splits)
  have "tx_ok tx'" unfolding r(2)
  proof (rule tx_okI [OF assms(1)])
    show "m_ok ((txWorking tx)\<lparr>mEncryptedState := Some e\<rparr>)"
      using assms(1) validateAndCloneEncryptedGroupState_Inr [OF e] by (simp add: tx_ok_def m_ok_def)
    show "stateBytes ((txWorking tx)\<lparr>mEncryptedState := Some e\<rparr>) = txCommittedBytes tx + ?d"
      using assms(1) by (cases "mEncryptedState (txWorking tx)") (simp_all add: tx_ok_def stateBytes_def)
    show "epoch_le (currentEpoch (txWorking tx)) (currentEpoch ((txWorking tx)\<lparr>mEncryptedState := Some e\<rparr>))"
      using r(1) by (auto simp: epoch_le_def currentEpoch_def split: option.splits)
  qed (use r(3,4) in simp_all)
  then show ?thesis unfolding r(2) by (simp add: tx_extends_def)
qed

lemma putPendingKeyPackage_ok:
  assumes "tx_ok tx" "putPendingKeyPackage tx s = Inr (b, tx')"
  shows "tx_ok tx' \<and> tx_extends tx tx'"
proof -
  obtain e where e: "validateAndCloneEncryptedKeyPackageState s (txKey tx) = Inr e"
    using assms(2) by (auto simp: putPendingKeyPackage_def sbind_Inr_iff)
  let ?k = "hex_bytes (packageReference e)" and ?m = "txWorking tx" and ?d = "pendingEntryCommittedBytes e"
  show ?thesis
  proof (cases "jget (mPending ?m) ?k")
    case (Some x)
    then have "tx' = tx" using assms(2) unfolding putPendingKeyPackage_def e sbind_simps Let_def
      by (auto simp: sbind_Inr_iff split: if_splits)
    then show ?thesis using assms(1) by simp
  next
    case None
    have r: "tx' = tx\<lparr>txCommittedBytes := txCommittedBytes tx + ?d, txWorking := ?m\<lparr>mPending := jset (mPending ?m) ?k e\<rparr>\<rparr>"
      "COMMITTED_STATE_FIXED_OVERHEAD \<le> txCommittedBytes tx + ?d" "txCommittedBytes tx + ?d \<le> txMaximum tx"
      using assms(2) None unfolding putPendingKeyPackage_def e sbind_simps Let_def
      by (auto simp: adjust_Inr sbind_Inr_iff txUpdate_def insertPendingPackage_def split: if_splits)
    have "tx_ok tx'" unfolding r(1)
    proof (rule tx_okI [OF assms(1)])
      show "m_ok (?m\<lparr>mPending := jset (mPending ?m) ?k e\<rparr>)"
        using assms(1) validateAndCloneEncryptedKeyPackageState_Inr [OF e] None
        by (simp add: tx_ok_def m_ok_def jwf_jset set_jvals_fresh)
      show "stateBytes (?m\<lparr>mPending := jset (mPending ?m) ?k e\<rparr>) = txCommittedBytes tx + ?d"
        using assms(1) None by (simp add: tx_ok_def stateBytes_def jvals_jset_fresh)
    qed (use r(2,3) in \<open>simp_all add: currentEpoch_def\<close>)
    then show ?thesis unfolding r(1) by (simp add: tx_extends_def)
  qed
qed

lemma bindPendingKeyPackageRequest_ok:
  assumes "tx_ok tx" "bindPendingKeyPackageRequest tx q = Inr (b, tx')"
  shows "tx_ok tx' \<and> tx_extends tx tx'"
proof -
  have v: "validateAndClonePendingKeyPackageRequest q = Inr q"
    using assms(2) by (auto simp: bindPendingKeyPackageRequest_def sbind_Inr_iff dest: clone_values)
  let ?k = "hex_bytes (requestOperationId q)" and ?m = "txWorking tx" and ?d = "pendingRequestCommittedBytes q"
  show ?thesis
  proof (cases "jget (mRequests ?m) ?k")
    case (Some x)
    then have "tx' = tx" using assms(2) unfolding bindPendingKeyPackageRequest_def v sbind_simps Let_def by (auto split: if_splits)
    then show ?thesis using assms(1) by simp
  next
    case None
    have r: "tx' = tx\<lparr>txCommittedBytes := txCommittedBytes tx + ?d, txWorking := ?m\<lparr>mRequests := jset (mRequests ?m) ?k q\<rparr>\<rparr>"
      "COMMITTED_STATE_FIXED_OVERHEAD \<le> txCommittedBytes tx + ?d" "txCommittedBytes tx + ?d \<le> txMaximum tx"
      using assms(2) None unfolding bindPendingKeyPackageRequest_def v sbind_simps Let_def
      by (auto simp: adjust_Inr sbind_Inr_iff txUpdate_def split: if_splits)
    have "tx_ok tx'" unfolding r(1)
    proof (rule tx_okI [OF assms(1)])
      show "m_ok (?m\<lparr>mRequests := jset (mRequests ?m) ?k q\<rparr>)"
        using assms(1) v None by (simp add: tx_ok_def m_ok_def jwf_jset set_jvals_fresh)
      show "stateBytes (?m\<lparr>mRequests := jset (mRequests ?m) ?k q\<rparr>) = txCommittedBytes tx + ?d"
        using assms(1) None by (simp add: tx_ok_def stateBytes_def jvals_jset_fresh)
    qed (use r(2,3) in \<open>simp_all add: currentEpoch_def\<close>)
    then show ?thesis unfolding r(1) by (simp add: tx_extends_def)
  qed
qed

lemma enqueueOutbox_ok:
  assumes "tx_ok tx" "enqueueOutbox tx e = Inr (b, tx')"
  shows "tx_ok tx' \<and> tx_extends tx tx'"
proof -
  have v: "validateAndCloneOutboxEntry e = Inr e"
    using assms(2) by (auto simp: enqueueOutbox_def sbind_Inr_iff dest: clone_values)
  let ?k = "hex_bytes (outboxId e)" and ?m = "txWorking tx" and ?d = "outboxEntryCommittedBytes e"
  show ?thesis
  proof (cases "jget (mOutbox ?m) ?k")
    case (Some x)
    then have "tx' = tx" using assms(2) unfolding enqueueOutbox_def v sbind_simps Let_def by (auto split: if_splits)
    then show ?thesis using assms(1) by simp
  next
    case None
    let ?m' = "?m\<lparr>mOutbox := jset (mOutbox ?m) ?k e\<rparr>"
    have r: "tx' = tx\<lparr>txCommittedBytes := txCommittedBytes tx + ?d, txWorking := ?m'\<rparr>"
      "COMMITTED_STATE_FIXED_OVERHEAD \<le> txCommittedBytes tx + ?d" "txCommittedBytes tx + ?d \<le> txMaximum tx"
      using assms(2) None unfolding enqueueOutbox_def v sbind_simps Let_def
      by (auto simp: adjust_Inr sbind_Inr_iff txUpdate_def  split: if_splits)
    have "tx_ok tx'" unfolding r(1)
    proof (rule tx_okI [OF assms(1)])
      show "m_ok ?m'" using assms(1) v None by (simp add: tx_ok_def m_ok_def jwf_jset set_jvals_fresh)
      show "stateBytes ?m' = txCommittedBytes tx + ?d"
        using assms(1) None by (simp add: tx_ok_def stateBytes_def jvals_jset_fresh)
    qed (use r(2,3) in \<open>simp_all add: currentEpoch_def\<close>)
    then show ?thesis unfolding r(1) by (simp add: tx_extends_def)
  qed
qed

lemma markReplay_ok:
  assumes "tx_ok tx" "markReplay tx e = Inr (b, tx')"
  shows "tx_ok tx' \<and> tx_extends tx tx'"
proof -
  have v: "validateAndCloneReplayEntry e = Inr e"
    using assms(2) by (auto simp: markReplay_def sbind_Inr_iff dest: clone_values)
  let ?k = "hex_bytes (replayRecordId e)" and ?m = "txWorking tx" and ?d = "replayEntryCommittedBytes e"
  show ?thesis
  proof (cases "jget (mReplay ?m) ?k")
    case (Some x)
    then have "tx' = tx" using assms(2) unfolding markReplay_def v sbind_simps Let_def by (auto split: if_splits)
    then show ?thesis using assms(1) by simp
  next
    case None
    let ?m' = "?m\<lparr>mOperationToRecord := (case map_option hex_bytes (replayOperationId e) of None \<Rightarrow> mOperationToRecord ?m
        | Some op \<Rightarrow> jset (mOperationToRecord ?m) op ?k), mReplay := jset (mReplay ?m) ?k e\<rparr>"
    have r: "tx' = tx\<lparr>txCommittedBytes := txCommittedBytes tx + ?d, txWorking := ?m'\<rparr>"
      "COMMITTED_STATE_FIXED_OVERHEAD \<le> txCommittedBytes tx + ?d" "txCommittedBytes tx + ?d \<le> txMaximum tx"
      using assms(2) None unfolding markReplay_def v sbind_simps Let_def
      by (auto simp: adjust_Inr sbind_Inr_iff txUpdate_def bindOperationToRecord_def split: if_splits option.splits)
    have "tx_ok tx'" unfolding r(1)
    proof (rule tx_okI [OF assms(1)])
      show "m_ok ?m'" using assms(1) v None by (simp add: tx_ok_def m_ok_def jwf_jset set_jvals_fresh)
      show "stateBytes ?m' = txCommittedBytes tx + ?d"
        using assms(1) None by (simp add: tx_ok_def stateBytes_def jvals_jset_fresh)
    qed (use r(2,3) in \<open>simp_all add: currentEpoch_def\<close>)
    then show ?thesis unfolding r(1) by (simp add: tx_extends_def)
  qed
qed

lemma removeOutbox_ok:
  assumes "tx_ok tx" "removeOutbox tx i = Inr (b, tx')"
  shows "tx_ok tx' \<and> tx_extends tx tx'"
proof -
  have v: "cloneFixedId i = Inr i" using assms(2) by (auto simp: removeOutbox_def sbind_Inr_iff dest: clone_values)
  let ?k = "hex_bytes i" and ?m = "txWorking tx"
  show ?thesis
  proof (cases "jget (mOutbox ?m) ?k")
    case None
    then have "tx' = tx" using assms(2) unfolding removeOutbox_def v sbind_simps Let_def by simp
    then show ?thesis using assms(1) by simp
  next
    case (Some x)
    let ?d = "- outboxEntryCommittedBytes x"
    let ?m' = "?m\<lparr>mOutbox := jdel (mOutbox ?m) ?k\<rparr>"
    have r: "tx' = tx\<lparr>txCommittedBytes := txCommittedBytes tx + ?d, txWorking := ?m'\<rparr>"
      "COMMITTED_STATE_FIXED_OVERHEAD \<le> txCommittedBytes tx + ?d" "txCommittedBytes tx + ?d \<le> txMaximum tx"
      using assms(2) Some unfolding removeOutbox_def v sbind_simps Let_def
      by (auto simp: adjust_Inr sbind_Inr_iff txUpdate_def)
    have m: "m_ok ?m" "jwf (mOutbox ?m)" using assms(1) by (simp_all add: tx_ok_def m_ok_def)
    have "tx_ok tx'" unfolding r(1)
    proof (rule tx_okI [OF assms(1)])
      show "m_ok ?m'" using m(1) set_jvals_jdel_subset [of "mOutbox ?m" ?k] by (auto simp: m_ok_def es_map.wf_remove)
      show "stateBytes ?m' = txCommittedBytes tx + ?d"
        using assms(1) sum_jdel [OF m(2) Some] by (simp add: tx_ok_def stateBytes_def)
    qed (use r(2,3) in \<open>simp_all add: currentEpoch_def\<close>)
    then show ?thesis unfolding r(1) by (simp add: tx_extends_def)
  qed
qed

lemma removeReplay_ok:
  assumes "tx_ok tx" "removeReplay tx i = Inr (b, tx')"
  shows "tx_ok tx' \<and> tx_extends tx tx'"
proof -
  have v: "cloneFixedId i = Inr i" using assms(2) by (auto simp: removeReplay_def sbind_Inr_iff dest: clone_values)
  let ?k = "hex_bytes i" and ?m = "txWorking tx"
  show ?thesis
  proof (cases "jget (mReplay ?m) ?k")
    case None
    then have "tx' = tx" using assms(2) unfolding removeReplay_def v sbind_simps Let_def by simp
    then show ?thesis using assms(1) by simp
  next
    case (Some x)
    let ?d = "- replayEntryCommittedBytes x"
    let ?m' = "?m\<lparr>mReplay := jdel (mReplay ?m) ?k,
      mOperationToRecord := (case replayOperationId x of None \<Rightarrow> mOperationToRecord ?m
        | Some op \<Rightarrow> if jget (mOperationToRecord ?m) (hex_bytes op) = Some ?k
            then jdel (mOperationToRecord ?m) (hex_bytes op) else mOperationToRecord ?m)\<rparr>"
    have r: "tx' = tx\<lparr>txCommittedBytes := txCommittedBytes tx + ?d, txWorking := ?m'\<rparr>"
      "COMMITTED_STATE_FIXED_OVERHEAD \<le> txCommittedBytes tx + ?d" "txCommittedBytes tx + ?d \<le> txMaximum tx"
      using assms(2) Some unfolding removeReplay_def v sbind_simps Let_def
      by (auto simp: adjust_Inr sbind_Inr_iff txUpdate_def split: option.splits)
    have m: "m_ok ?m" "jwf (mReplay ?m)" using assms(1) by (simp_all add: tx_ok_def m_ok_def)
    have "tx_ok tx'" unfolding r(1)
    proof (rule tx_okI [OF assms(1)])
      show "m_ok ?m'" using m(1) set_jvals_jdel_subset [of "mReplay ?m" ?k] by (auto simp: m_ok_def es_map.wf_remove)
      show "stateBytes ?m' = txCommittedBytes tx + ?d"
        using assms(1) sum_jdel [OF m(2) Some] by (simp add: tx_ok_def stateBytes_def)
    qed (use r(2,3) in \<open>simp_all add: currentEpoch_def\<close>)
    then show ?thesis unfolding r(1) by (simp add: tx_extends_def)
  qed
qed

lemma normalizeForkEvidence_Inr:
  assumes "normalizeForkEvidence f = Inr g"
  shows "validateAndCloneForkEvidence g = Inr g"
proof -
  obtain c where "validateAndCloneForkEvidence f = Inr c" using assms by (auto simp: normalizeForkEvidence_def sbind_Inr_iff)
  then have c: "validateAndCloneForkEvidence f = Inr f" using clone_values(8) by blast
  then show ?thesis using assms
    by (auto simp: normalizeForkEvidence_def validateAndCloneForkEvidence_def sbind_Inr_iff cloneFixedId_def cloneBytes_Inr split: if_splits)
qed

lemma markFork_ok:
  assumes "tx_ok tx" "markFork tx f = Inr (b, tx')"
  shows "tx_ok tx' \<and> tx_extends tx tx'"
proof -
  obtain g where g: "normalizeForkEvidence f = Inr g" using assms(2) by (auto simp: markFork_def sbind_Inr_iff)
  let ?m = "txWorking tx" and ?d = "forkEvidenceCommittedBytes g"
  show ?thesis
  proof (cases "mFork ?m")
    case (Some x)
    then have "tx' = tx" using assms(2) unfolding markFork_def g sbind_simps by (auto simp: sbind_Inr_iff split: if_splits)
    then show ?thesis using assms(1) by simp
  next
    case None
    have r: "tx' = tx\<lparr>txCommittedBytes := txCommittedBytes tx + ?d, txWorking := ?m\<lparr>mFork := Some g\<rparr>\<rparr>"
      "COMMITTED_STATE_FIXED_OVERHEAD \<le> txCommittedBytes tx + ?d" "txCommittedBytes tx + ?d \<le> txMaximum tx"
      using assms(2) None unfolding markFork_def g sbind_simps by (auto simp: adjust_Inr sbind_Inr_iff txUpdate_def)
    have "tx_ok tx'" unfolding r(1)
    proof (rule tx_okI [OF assms(1)])
      show "m_ok (?m\<lparr>mFork := Some g\<rparr>)" using assms(1) normalizeForkEvidence_Inr [OF g] by (simp add: tx_ok_def m_ok_def)
      show "stateBytes (?m\<lparr>mFork := Some g\<rparr>) = txCommittedBytes tx + ?d" using assms(1) None by (simp add: tx_ok_def stateBytes_def)
    qed (use r(2,3) in \<open>simp_all add: currentEpoch_def\<close>)
    then show ?thesis unfolding r(1) by (simp add: tx_extends_def)
  qed
qed

lemma dropRequests_ok:
  assumes "distinct (map fst qs)" "\<forall>(k, q) \<in> set qs. jget (mRequests (txWorking tx)) k = Some q" "jwf (mRequests (txWorking tx))"
    and "txCommittedBytes tx = stateBytes (txWorking tx) + d" "txCommittedBytes tx \<le> txMaximum tx"
    and "COMMITTED_STATE_FIXED_OVERHEAD \<le> txCommittedBytes tx - sum_bytes pendingRequestCommittedBytes (jvals (mRequests (txWorking tx)))"
  shows "\<exists>R n. dropRequests r qs tx = (Inr (), tx\<lparr>txCommittedBytes := n, txWorking := (txWorking tx)\<lparr>mRequests := R\<rparr>\<rparr>) \<and>
    jwf R \<and> set R \<subseteq> set (mRequests (txWorking tx)) \<and> n = stateBytes ((txWorking tx)\<lparr>mRequests := R\<rparr>) + d \<and> n \<le> txMaximum tx"
  using assms
proof (induction qs arbitrary: tx)
  case Nil
  then show ?case by (intro exI [of _ "mRequests (txWorking tx)"] exI [of _ "txCommittedBytes tx"]) simp
next
  case (Cons kq qs)
  obtain k q where kq: "kq = (k, q)" by (cases kq)
  let ?m = "txWorking tx"
  have g: "jget (mRequests ?m) k = Some q" using Cons.prems(2) kq by simp
  show ?case
  proof (cases "requestReference q = r")
    case False
    then show ?thesis using Cons.IH [of tx] Cons.prems kq by simp
  next
    case True
    let ?c = "pendingRequestCommittedBytes q" and ?R = "jdel (mRequests ?m) k"
    let ?tx = "tx\<lparr>txCommittedBytes := txCommittedBytes tx - ?c, txWorking := ?m\<lparr>mRequests := ?R\<rparr>\<rparr>"
    have sum: "sum_bytes pendingRequestCommittedBytes (jvals ?R) = sum_bytes pendingRequestCommittedBytes (jvals (mRequests ?m)) - ?c"
      by (rule sum_jdel [OF Cons.prems(3) g])
    have c: "?c \<le> sum_bytes pendingRequestCommittedBytes (jvals (mRequests ?m))"
      using sum part_nonneg(3) [of "jvals ?R"] by linarith
    have "0 \<le> ?c" by simp
    then have le: "COMMITTED_STATE_FIXED_OVERHEAD \<le> txCommittedBytes tx - ?c" "txCommittedBytes tx - ?c \<le> txMaximum tx"
      using Cons.prems(5,6) c by linarith+
    then have "adjustCommittedBytes tx (- ?c) = Inr (tx\<lparr>txCommittedBytes := txCommittedBytes tx - ?c\<rparr>)"
      by (simp add: adjust_Inr)
    then have step: "dropRequests r (kq # qs) tx = dropRequests r qs ?tx"
      using True kq by (simp add: txUpdate_def)
    have keys: "distinct (map fst qs)" "\<forall>(k', q') \<in> set qs. jget (mRequests (txWorking ?tx)) k' = Some q'"
      using Cons.prems(1,2) kq by (force simp: jget_jdel)+
    have "\<exists>R n. dropRequests r qs ?tx = (Inr (), ?tx\<lparr>txCommittedBytes := n, txWorking := (txWorking ?tx)\<lparr>mRequests := R\<rparr>\<rparr>) \<and>
      jwf R \<and> set R \<subseteq> set (mRequests (txWorking ?tx)) \<and> n = stateBytes ((txWorking ?tx)\<lparr>mRequests := R\<rparr>) + d \<and> n \<le> txMaximum ?tx"
    proof (rule Cons.IH)
      show "txCommittedBytes ?tx = stateBytes (txWorking ?tx) + d" using Cons.prems(4) sum by (simp add: stateBytes_def)
      show "COMMITTED_STATE_FIXED_OVERHEAD \<le> txCommittedBytes ?tx - sum_bytes pendingRequestCommittedBytes (jvals (mRequests (txWorking ?tx)))"
        using Cons.prems(6) sum by simp
    qed (use Cons.prems(3) keys le in \<open>simp_all add: es_map.wf_remove\<close>)
    then show ?thesis unfolding step using set_jdel [of "mRequests ?m" k] by fastforce
  qed
qed

lemma consumePendingKeyPackage_ok:
  assumes t: "tx_ok tx" and c: "consumePendingKeyPackage tx r = (v, tx')"
  shows "tx_ok tx' \<and> tx_extends tx tx' \<and>
    (\<forall>s. v = Inr s \<longrightarrow> \<not> jhas (mConsumed (txWorking tx)) (hex_bytes r) \<and> jhas (mConsumed (txWorking tx')) (hex_bytes r))"
proof -
  let ?m = "txWorking tx" and ?k = "hex_bytes r"
  note c' = c [unfolded consumePendingKeyPackage_def Let_def]
  show ?thesis
  proof (cases "cloneKeyPackageReference r = Inr r \<and> \<not> jhas (mConsumed ?m) ?k \<and> jhas (mPending ?m) ?k \<and>
      int (jsize (mConsumed ?m)) < MAX_CONSUMED_KEY_PACKAGE_MARKERS \<and>
      (\<exists>tx1. adjustCommittedBytes tx (consumedCommittedBytes r - pendingEntryCommittedBytes (the (jget (mPending ?m) ?k))) = Inr tx1)")
    case False
    have "tx' = tx \<and> (\<exists>e. v = Inl e)"
    proof (cases "cloneKeyPackageReference r")
      case (Inl e)
      then show ?thesis using c' by auto
    next
      case (Inr x)
      then have "cloneKeyPackageReference r = Inr r" using clone_values(2) by blast
      then show ?thesis using c' False
        by (auto simp: jhas_def split: sum.splits if_splits option.splits)
    qed
    then show ?thesis using t by auto
  next
    case True
    then obtain p where p: "jget (mPending ?m) ?k = Some p" by (auto simp: jhas_def)
    let ?d = "consumedCommittedBytes r - pendingEntryCommittedBytes p"
    let ?tx1 = "tx\<lparr>txCommittedBytes := txCommittedBytes tx + ?d\<rparr>"
    have adj: "adjustCommittedBytes tx ?d = Inr ?tx1" "txCommittedBytes tx + ?d \<le> txMaximum tx" using True p by (auto simp: adjust_Inr)
    have m: "m_ok ?m" "jwf (mPending ?m)" "jwf (mRequests ?m)" "jwf (mConsumed ?m)" "txCommittedBytes tx = stateBytes ?m"
      using t by (simp_all add: tx_ok_def m_ok_def)
    have fresh: "jget (mConsumed ?m) ?k = None" using True by (simp add: jhas_def)
    have sumP: "sum_bytes pendingEntryCommittedBytes (jvals (jdel (mPending ?m) ?k)) =
        sum_bytes pendingEntryCommittedBytes (jvals (mPending ?m)) - pendingEntryCommittedBytes p" by (rule sum_jdel [OF m(2) p])
    have low: "COMMITTED_STATE_FIXED_OVERHEAD \<le> stateBytes ?m + ?d - sum_bytes pendingRequestCommittedBytes (jvals (mRequests ?m))"
      using part_nonneg(1) [of "opt_to_list (mEncryptedState ?m)"] part_nonneg(2) [of "jvals (jdel (mPending ?m) ?k)"]
        part_nonneg(4) [of "jvals (mConsumed ?m)"] part_nonneg(5) [of "jvals (mOutbox ?m)"] part_nonneg(6) [of "jvals (mReplay ?m)"]
        part_nonneg(7) [of "opt_to_list (mFork ?m)"] entry_bytes_nonneg(4) [of r] sumP unfolding stateBytes_def by linarith
    have "\<exists>R n. dropRequests r (mRequests ?m) ?tx1 = (Inr (), ?tx1\<lparr>txCommittedBytes := n, txWorking := (txWorking ?tx1)\<lparr>mRequests := R\<rparr>\<rparr>) \<and>
        jwf R \<and> set R \<subseteq> set (mRequests (txWorking ?tx1)) \<and> n = stateBytes ((txWorking ?tx1)\<lparr>mRequests := R\<rparr>) + ?d \<and> n \<le> txMaximum ?tx1"
    proof (rule dropRequests_ok)
      show "distinct (map fst (mRequests ?m))" using m(3) by (simp add: jwf_def jkeys_def)
      show "\<forall>(k, q) \<in> set (mRequests ?m). jget (mRequests (txWorking ?tx1)) k = Some q" using jget_eq_Some_iff [OF m(3)] by auto
    qed (use m(3,5) adj(2) low in simp_all)
    then obtain R n where R: "dropRequests r (mRequests ?m) ?tx1 = (Inr (), ?tx1\<lparr>txCommittedBytes := n, txWorking := ?m\<lparr>mRequests := R\<rparr>\<rparr>)"
      "jwf R" "set R \<subseteq> set (mRequests ?m)" "n = stateBytes (?m\<lparr>mRequests := R\<rparr>) + ?d" "n \<le> txMaximum tx" by auto
    let ?m' = "?m\<lparr>mRequests := R, mPending := jdel (mPending ?m) ?k, mConsumed := jset (mConsumed ?m) ?k r\<rparr>"
    have tx': "tx' = tx\<lparr>txCommittedBytes := n, txWorking := ?m'\<rparr>"
      using c' True p adj(1) R(1) by (simp add: txUpdate_def removePendingPackage_def insertConsumptionMarker_def split: if_splits)
    have "stateBytes ?m' = n" using R(4) sumP fresh by (simp add: stateBytes_def jvals_jset_fresh)
    moreover have "m_ok ?m'"
      using m(1) R(2,3) True fresh set_jvals_jdel_subset [of "mPending ?m" ?k]
      by (auto simp: m_ok_def es_map.wf_remove jwf_jset set_jvals_fresh) (auto simp: jvals_def)
    ultimately have "tx_ok tx'" using t R(5) unfolding tx' by (auto simp: tx_ok_def currentEpoch_def)
    moreover have "tx_extends tx tx'" unfolding tx' by (simp add: tx_extends_def jhas_def jget_jset)
    ultimately show ?thesis using True unfolding tx' by (simp add: jhas_def jget_jset)
  qed
qed

lemma readCall_ok: "tx_ok tx \<Longrightarrow> readCall tx f r = (v, tx') \<Longrightarrow> tx_ok tx' \<and> tx_extends tx tx'"
  by (simp add: readCall_def)

lemma writeCall_ok:
  assumes "tx_ok tx" "\<And>b tx1. r = Inr (b, tx1) \<Longrightarrow> tx_ok tx1 \<and> tx_extends tx tx1" "writeCall tx r = (v, tx')"
  shows "tx_ok tx' \<and> tx_extends tx tx'"
  using assms by (auto simp: writeCall_def split: sum.splits prod.splits)

lemma perform_ok:
  assumes t: "tx_ok tx" and p: "perform tx c = (v, tx')"
  shows "tx_ok tx' \<and> tx_extends tx tx'"
proof (cases c)
  case (CallSetEncryptedState s)
  then show ?thesis using t p setEncryptedState_ok [OF t, of s] by (auto split: sum.splits)
next
  case (CallConsumePendingKeyPackage r)
  then show ?thesis using t p consumePendingKeyPackage_ok [OF t, of r] by (auto split: prod.splits)
next
  case (CallPutPendingKeyPackage s)
  then show ?thesis using writeCall_ok [OF t putPendingKeyPackage_ok [OF t]] p by simp
next
  case (CallBindPendingKeyPackageRequest q)
  then show ?thesis using writeCall_ok [OF t bindPendingKeyPackageRequest_ok [OF t]] p by simp
next
  case (CallEnqueueOutbox e)
  then show ?thesis using writeCall_ok [OF t enqueueOutbox_ok [OF t]] p by simp
next
  case (CallRemoveOutbox i)
  then show ?thesis using writeCall_ok [OF t removeOutbox_ok [OF t]] p by simp
next
  case (CallMarkReplay e)
  then show ?thesis using writeCall_ok [OF t markReplay_ok [OF t]] p by simp
next
  case (CallRemoveReplay i)
  then show ?thesis using writeCall_ok [OF t removeReplay_ok [OF t]] p by simp
next
  case (CallMarkFork f)
  then show ?thesis using writeCall_ok [OF t markFork_ok [OF t]] p by simp
qed (use p readCall_ok [OF t] in simp_all)

lemma callTransaction_ok: "tx_ok tx \<Longrightarrow> callTransaction tx c = (v, tx') \<Longrightarrow> tx_ok tx' \<and> tx_extends tx tx'"
  by (auto simp: callTransaction_def dest: perform_ok split: if_splits)

lemma runScript_ok: "tx_ok tx \<Longrightarrow> runScript s tx = (v, tx') \<Longrightarrow> tx_ok tx' \<and> tx_extends tx tx'"
proof (induction s arbitrary: tx)
  case (Await c k)
  obtain w tx1 where w: "callTransaction tx c = (w, tx1)" by (cases "callTransaction tx c")
  have 1: "tx_ok tx1" "tx_extends tx tx1" using callTransaction_ok [OF Await.prems(1) w] by auto
  have "runScript (k w) tx1 = (v, tx')" using Await.prems(2) w by simp
  with Await.IH [of "k w" tx1] 1 show ?case using tx_extends_trans by blast
qed auto

end
