(* ===== verification/Group_State_Theorems.thy ===== *)
theory Group_State_Theorems
  imports Group_State_Proofs
begin

text \<open>
  The group-state store over its whole life: a store is reached from the empty one by
  any sequence of transactions on any keys. Distinct valid keys have distinct
  encodings, every committed entry passes the store's semantic validation, and from
  these follow the accounting, availability, atomicity and use-once theorems.
\<close>


section \<open>Keys\<close>

lemma digitUnit: "k < 10 \<Longrightarrow> unat (of_nat (48 + k) :: 16 word) = 48 + k"
  by (simp add: unat_of_nat del: of_nat_add)

lemma decimalUnits_digits: "c \<in> set (decimalUnits n) \<Longrightarrow> \<exists>k < 10. c = of_nat (48 + k)"
proof (induction n rule: decimalUnits.induct)
  case (1 n)
  show ?case
  proof (cases "n < 10")
    case True
    then show ?thesis using 1(2) by (subst (asm) decimalUnits.simps) auto
  next
    case False
    then have "c \<in> set (decimalUnits (n div 10)) \<or> c = of_nat (48 + n mod 10)"
      using 1(2) by (subst (asm) decimalUnits.simps) auto
    then show ?thesis using 1(1) False by (auto intro: exI [of _ "n mod 10"])
  qed
qed

lemma decimalUnits_ne_colon: "58 \<notin> set (decimalUnits n)"
proof
  assume "58 \<in> set (decimalUnits n)"
  then obtain k where k: "k < 10" "(58 :: 16 word) = of_nat (48 + k)" using decimalUnits_digits by blast
  then have "unat (58 :: 16 word) = 48 + k" using digitUnit by metis
  then show False using k(1) by simp
qed

lemma decimalUnits_ne: "decimalUnits n \<noteq> []"
  by (subst decimalUnits.simps) simp

lemma decimalUnits_last: "unat (last (decimalUnits n)) = 48 + n mod 10"
  using digitUnit [of "n mod 10"] by (subst decimalUnits.simps) (auto simp del: of_nat_add)

lemma decimalUnits_butlast: "butlast (decimalUnits n) = (if n < 10 then [] else decimalUnits (n div 10))"
  by (subst decimalUnits.simps) simp

lemma decimalUnits_inj: "decimalUnits m = decimalUnits n \<Longrightarrow> m = n"
proof (induction m arbitrary: n rule: decimalUnits.induct)
  case (1 m)
  have "m mod 10 = n mod 10" using decimalUnits_last [of m] decimalUnits_last [of n] 1(2) by simp
  moreover have "m div 10 = n div 10"
  proof (cases "m < 10")
    case True
    then have "n < 10" using 1(2) decimalUnits_butlast [of m] decimalUnits_butlast [of n] decimalUnits_ne by (metis)
    then show ?thesis using True by simp
  next
    case False
    then have "\<not> n < 10" using 1(2) decimalUnits_butlast [of m] decimalUnits_butlast [of n] decimalUnits_ne by (metis)
    then have "decimalUnits (m div 10) = decimalUnits (n div 10)"
      using False 1(2) decimalUnits_butlast [of m] decimalUnits_butlast [of n] by simp
    then show ?thesis using 1(1) False by blast
  qed
  ultimately show ?case by (metis div_mult_mod_eq)
qed

lemma append_sep_eq: "x \<notin> set a \<Longrightarrow> x \<notin> set b \<Longrightarrow> a @ x # c = b @ x # d \<longleftrightarrow> a = b \<and> c = d"
proof (induction a arbitrary: b)
  case Nil
  then show ?case by (cases b) auto
next
  case (Cons y a)
  then show ?case by (cases b) auto
qed

lemma inj_of_char_unit: "inj (of_char :: char \<Rightarrow> 16 word)"
proof (rule injI)
  fix c d assume "(of_char c :: 16 word) = of_char d"
  then have e: "(of_nat (of_char c) :: 16 word) = of_nat (of_char d)" by (simp add: of_nat_of_char)
  have "(of_char c :: nat) < 256" "(of_char d :: nat) < 256"
    using of_char_mod_256 [of c, where 'a = nat] of_char_mod_256 [of d, where 'a = nat] mod_less_divisor [of 256] by (metis zero_less_numeral)+
  then have "(of_char c :: nat) < 65536" "(of_char d :: nat) < 65536" by linarith+
  then have "(of_char c :: nat) = of_char d" using arg_cong [OF e, of unat] by (simp only: unat_of_nat) simp
  then show "c = d" by simp
qed

lemma identifier_no_colon: "canonicalIdentifier s \<Longrightarrow> 58 \<notin> set s"
  by (cases s) (auto simp: canonicalIdentifier_def alnumUnit_def list_all_iff)

lemma encodeStoreKey_inj:
  assumes "cloneGroupStateStoreKey k = Inr k" "cloneGroupStateStoreKey l = Inr l" "encodeStoreKey k = encodeStoreKey l"
  shows "k = l"
proof -
  have v: "canonicalIdentifier (protoId (keyProtocol k))" "canonicalIdentifier (protoId (keyProtocol l))"
    "0 \<le> protoVersion (keyProtocol k)" "0 \<le> protoVersion (keyProtocol l)"
    using assms(1,2) by (auto simp: cloneGroupStateStoreKey_def sbind_Inr_iff validateAndCloneProtocol_def split: if_splits)
  have "protoId (keyProtocol k) = protoId (keyProtocol l)"
    "nat (protoVersion (keyProtocol k)) = nat (protoVersion (keyProtocol l))"
    "map of_char (hex_bytes (keyGroupId k)) = (map of_char (hex_bytes (keyGroupId l)) :: js_string)"
    using assms(3) append_sep_eq [OF identifier_no_colon [OF v(1)] identifier_no_colon [OF v(2)]]
      append_sep_eq [OF decimalUnits_ne_colon decimalUnits_ne_colon] decimalUnits_inj
    by (auto simp: encodeStoreKey_def)
  then show ?thesis using v(3,4) inj_map_eq_map [OF inj_of_char_unit]
    by (intro GroupStateStoreKey.equality GroupSecurityProtocol.equality) simp_all
qed


section \<open>Snapshots\<close>

lemma snapshotPending_set:
  "\<forall>p \<in> set ps. key_package_ok p \<Longrightarrow> snapshotPending key seen ps = Inr pend \<Longrightarrow>
    set pend = set seen \<union> (\<lambda>p. hex_bytes (packageReference p)) ` set ps"
proof (induction ps arbitrary: seen)
  case (Cons p ps)
  then obtain v where v: "validateAndCloneEncryptedKeyPackageState p key = Inr v" by (auto simp: sbind_Inr_iff)
  then have "v = p" using Cons.prems(1) cloneEncryptedKeyPackageState_ok [of p]
    by (auto simp: validateAndCloneEncryptedKeyPackageState_def sbind_Inr_iff split: if_splits)
  then show ?case using Cons v by (auto simp: Let_def split: if_splits)
qed simp

lemma snapshotConsumed_disjoint:
  "snapshotConsumed pend seen bs = Inr out \<Longrightarrow> b \<in> set bs \<Longrightarrow> hex_bytes b \<notin> set pend"
proof (induction bs arbitrary: seen)
  case (Cons c bs)
  then obtain r where r: "cloneKeyPackageReference c = Inr r" by (auto simp: sbind_Inr_iff)
  then have "r = c" using clone_values(2) by blast
  then show ?case using Cons r by (auto simp: Let_def split: if_splits)
qed simp

lemma semantics_partition:
  assumes "validateGroupStateStoreSnapshotSemantics (snap_of m) key = Inr ()" "m_ok m"
    and "r \<in> set (jvals (mConsumed m))" "p \<in> set (jvals (mPending m))"
  shows "packageReference p \<noteq> r"
proof -
  obtain key' pend out where "snapshotPending key' [] (jvals (mPending m)) = Inr pend"
    "snapshotConsumed pend [] (jvals (mConsumed m)) = Inr out"
    using assms(1) unfolding validateGroupStateStoreSnapshotSemantics_def snap_of_def
    by (auto simp: sbind_Inr_iff Let_def split: if_splits)
  then have "set pend = (\<lambda>p. hex_bytes (packageReference p)) ` set (jvals (mPending m))" "hex_bytes r \<notin> set pend"
    using snapshotPending_set [of "jvals (mPending m)" key' "[]" pend] assms(2)
      snapshotConsumed_disjoint [OF _ assms(3), of pend "[]" out] by (simp_all add: m_ok_def)
  then show ?thesis using assms(4) by auto
qed

lemma semantics_revision: "validateGroupStateStoreSnapshotSemantics (snap_of (m\<lparr>mRevision := n\<rparr>)) key =
    validateGroupStateStoreSnapshotSemantics (snap_of m) key"
proof -
  let ?s = "snap_of (m\<lparr>mRevision := n\<rparr>)" and ?t = "snap_of m"
  have "snapEncryptedState ?s = snapEncryptedState ?t" "snapPendingKeyPackages ?s = snapPendingKeyPackages ?t"
    "snapPendingKeyPackageRequests ?s = snapPendingKeyPackageRequests ?t"
    "snapConsumedKeyPackageRefs ?s = snapConsumedKeyPackageRefs ?t" "snapOutbox ?s = snapOutbox ?t"
    "snapReplay ?s = snapReplay ?t" "snapForkEvidence ?s = snapForkEvidence ?t"
    by (simp_all add: snap_of_def)
  then show ?thesis by (simp only: validateGroupStateStoreSnapshotSemantics_def)
qed

lemma m_ok_revision: "m_ok (m\<lparr>mRevision := n\<rparr>) = m_ok m" "stateBytes (m\<lparr>mRevision := n\<rparr>) = stateBytes m"
  by (simp_all add: m_ok_def stateBytes_def)

lemma cloneList_unit_Inr: "cloneList f xs = Inr ys \<Longrightarrow> x \<in> set xs \<Longrightarrow> \<exists>y. f x = Inr y"
  by (induction xs arbitrary: ys) (auto simp: sbind_Inr_iff)

lemma checkConsumedKeys_Inr: "checkConsumedKeys m = Inr us \<Longrightarrow> (k, r) \<in> set m \<Longrightarrow> hex_bytes r = k"
  using cloneList_unit_Inr [of _ m us "(k, r)"] by (force simp: checkConsumedKeys_def sbind_Inr_iff)


section \<open>Stores\<close>

definition entry_ok :: "int \<Rightarrow> GroupStateStoreKey \<Rightarrow> MutableState \<Rightarrow> bool" where
  "entry_ok maximum key m \<longleftrightarrow> m_ok m \<and> stateBytes m \<le> maximum \<and> 0 < mRevision m \<and> mRevision m \<le> 9007199254740991 \<and>
     (\<forall>(k, r) \<in> set (mConsumed m). hex_bytes r = k) \<and>
     pendingKeyPackageBytes (jvals (mPending m)) \<le> MAX_PENDING_KEY_PACKAGE_BYTES \<and>
     validateGroupStateStoreSnapshotSemantics (snap_of m) key = Inr ()"

definition store_ok :: "InMemoryGroupStateStore \<Rightarrow> bool" where
  "store_ok st \<longleftrightarrow> COMMITTED_STATE_FIXED_OVERHEAD \<le> storeMaximum st \<and>
     (\<forall>key m. cloneGroupStateStoreKey key = Inr key \<longrightarrow> jget (storeGroups st) (encodeStoreKey key) = Some m \<longrightarrow>
        entry_ok (storeMaximum st) key m)"

definition stored :: "InMemoryGroupStateStore \<Rightarrow> GroupStateStoreKey \<Rightarrow> MutableState" where
  "stored st key = (case jget (storeGroups st) (encodeStoreKey key) of None \<Rightarrow> emptyState | Some m \<Rightarrow> m)"

lemma consumed_marker: "entry_ok n key m \<Longrightarrow> r \<in> set (jvals (mConsumed m)) \<Longrightarrow> jhas (mConsumed m) (hex_bytes r)"
proof -
  assume e: "entry_ok n key m" "r \<in> set (jvals (mConsumed m))"
  then obtain k where k: "(k, r) \<in> set (mConsumed m)" by (auto simp: jvals_def)
  then have "hex_bytes r = k" "jwf (mConsumed m)" using e(1) by (auto simp: entry_ok_def m_ok_def)
  then show ?thesis using k jget_eq_Some_iff [of "mConsumed m" k r] by (simp add: jhas_def)
qed

lemma consumed_member: "entry_ok n key m \<Longrightarrow> jhas (mConsumed m) (hex_bytes r) \<Longrightarrow> r \<in> set (jvals (mConsumed m))"
proof -
  assume e: "entry_ok n key m" "jhas (mConsumed m) (hex_bytes r)"
  then obtain x where x: "jget (mConsumed m) (hex_bytes r) = Some x" by (auto simp: jhas_def)
  then have "(hex_bytes r, x) \<in> set (mConsumed m)" by (rule jget_in_set)
  then have "hex_bytes x = hex_bytes r" using e(1) by (auto simp: entry_ok_def)
  then show ?thesis using jget_jvals [OF x] by simp
qed

lemma newGroupStateStore_ok: "newGroupStateStore maximum = Inr st \<Longrightarrow> store_ok st"
  by (auto simp: newGroupStateStore_def store_ok_def split: if_splits)

lemma stored_ok:
  assumes "store_ok st" "cloneGroupStateStoreKey key = Inr key"
  shows "m_ok (stored st key)" "stateBytes (stored st key) \<le> storeMaximum st" "0 \<le> mRevision (stored st key)"
  using assms by (auto simp: store_ok_def stored_def entry_ok_def emptyState_def [THEN arg_cong, of mRevision] split: option.splits)

lemma beginTransaction_ok:
  assumes "store_ok st" "cloneGroupStateStoreKey key = Inr key"
  obtains tx where "beginTransaction st key = Inr tx" "tx_ok tx" "txActive tx" "txKey tx = key" "txMaximum tx = storeMaximum st"
    "txWorking tx = stored st key" "txBaseRevision tx = mRevision (stored st key)"
proof
  let ?m = "stored st key"
  let ?tx = "\<lparr>txActive = True, txCommittedBytes = stateBytes ?m, txKey = key, txWorking = ?m, txMaximum = storeMaximum st,
            txBaseRevision = mRevision ?m, txBaseEpoch = currentEpoch ?m\<rparr>"
  have o: "COMMITTED_STATE_FIXED_OVERHEAD \<le> storeMaximum st" using assms(1) by (simp add: store_ok_def)
  note m = stored_ok [OF assms]
  show "beginTransaction st key = Inr ?tx"
    using m assms(2) cloneMutableState_ok [OF m(1)] committedStateBytes_exact [OF o, of ?m]
    by (simp add: beginTransaction_def newMemoryTransaction_def flip: stored_def)
  show "tx_ok ?tx" using m o by (simp add: tx_ok_def)
qed simp_all

lemma beginTransaction_Inr:
  assumes "store_ok st" "beginTransaction st key = Inr tx"
  shows "cloneGroupStateStoreKey key = Inr key" "tx_ok tx" "txActive tx" "txKey tx = key" "txMaximum tx = storeMaximum st"
    "txWorking tx = stored st key" "txBaseRevision tx = mRevision (stored st key)"
proof -
  show key: "cloneGroupStateStoreKey key = Inr key"
    using assms(2) clone_values(4) by (auto simp: beginTransaction_def sbind_Inr_iff)
  obtain tx' where t: "beginTransaction st key = Inr tx'" "tx_ok tx'" "txActive tx'" "txKey tx' = key" "txMaximum tx' = storeMaximum st"
    "txWorking tx' = stored st key" "txBaseRevision tx' = mRevision (stored st key)"
    by (rule beginTransaction_ok [OF assms(1) key])
  have "tx' = tx" using t(1) assms(2) by simp
  then show "tx_ok tx" "txActive tx" "txKey tx = key" "txMaximum tx = storeMaximum st"
    "txWorking tx = stored st key" "txBaseRevision tx = mRevision (stored st key)" using t(2-7) by simp_all
qed

lemma groupLoad_stored:
  assumes "store_ok st" "cloneGroupStateStoreKey key = Inr key"
  shows "groupLoad st key = Inr (map_option snap_of (jget (storeGroups st) (encodeStoreKey key)))"
  using assms by (auto simp: groupLoad_def store_ok_def entry_ok_def storeSnapshot_ok split: option.splits)

lemma validateBeforeCommit_Inr:
  assumes "validateBeforeCommit tx = Inr ()" "tx_ok tx"
  shows "validateGroupStateStoreSnapshotSemantics (snap_of (txWorking tx)) (txKey tx) = Inr ()"
    and "\<forall>(k, r) \<in> set (mConsumed (txWorking tx)). hex_bytes r = k"
    and "pendingKeyPackageBytes (jvals (mPending (txWorking tx))) \<le> MAX_PENDING_KEY_PACKAGE_BYTES"
proof -
  have m: "storeSnapshot (txWorking tx) = Inr (snap_of (txWorking tx))" using assms(2) by (simp add: tx_ok_def storeSnapshot_ok)
  show "validateGroupStateStoreSnapshotSemantics (snap_of (txWorking tx)) (txKey tx) = Inr ()"
    using assms(1) unfolding validateBeforeCommit_def Let_def m sbind_simps by (auto simp: sbind_Inr_iff split: if_splits)
  show "pendingKeyPackageBytes (jvals (mPending (txWorking tx))) \<le> MAX_PENDING_KEY_PACKAGE_BYTES"
    using assms(1) unfolding validateBeforeCommit_def Let_def m sbind_simps by (auto simp: sbind_Inr_iff split: if_splits)
  have "\<exists>us. checkConsumedKeys (mConsumed (txWorking tx)) = Inr us"
    using assms(1) unfolding validateBeforeCommit_def Let_def m sbind_simps by (auto simp: sbind_Inr_iff split: if_splits)
  then show "\<forall>(k, r) \<in> set (mConsumed (txWorking tx)). hex_bytes r = k" using checkConsumedKeys_Inr by blast
qed

lemma commitTransaction_Inr:
  assumes "commitTransaction st tx n = Inr st'" "tx_ok tx" "0 \<le> n" "n \<le> 9007199254740991"
  defines "m \<equiv> (txWorking tx)\<lparr>mRevision := n + 1\<rparr>"
  shows "st' = st\<lparr>storeGroups := jset (storeGroups st) (encodeStoreKey (txKey tx)) m\<rparr>" "entry_ok (txMaximum tx) (txKey tx) m"
proof -
  have v: "validateBeforeCommit tx = Inr ()" "n \<noteq> 9007199254740991"
    using assms(1) by (auto simp: commitTransaction_def sbind_Inr_iff nextStoreRevision_def Let_def split: if_splits)
  have ok: "m_ok m" using assms(2) by (simp add: m_def m_ok_revision tx_ok_def)
  show "st' = st\<lparr>storeGroups := jset (storeGroups st) (encodeStoreKey (txKey tx)) m\<rparr>"
    using assms(1,3) v cloneMutableState_ok [OF ok] unfolding m_def
    by (simp add: commitTransaction_def nextStoreRevision_def Let_def split: if_splits)
  show "entry_ok (txMaximum tx) (txKey tx) m"
    using ok validateBeforeCommit_Inr [OF v(1) assms(2)] v(2) assms(2-4)
    by (simp add: entry_ok_def m_def m_ok_revision semantics_revision tx_ok_def)
qed

lemma groupTransaction_Inr:
  assumes "store_ok st" "groupTransaction st key operation = (Inr v, st')"
  obtains tx tx' m where "cloneGroupStateStoreKey key = Inr key" "beginTransaction st key = Inr tx" "runScript operation tx = (Inr v, tx')"
    "tx_ok tx" "tx_ok tx'" "tx_extends tx tx'" "txWorking tx = stored st key" "txBaseRevision tx = mRevision (stored st key)"
    "m = (txWorking tx')\<lparr>mRevision := mRevision (stored st key) + 1\<rparr>"
    "st' = st\<lparr>storeGroups := jset (storeGroups st) (encodeStoreKey key) m\<rparr>" "entry_ok (storeMaximum st) key m"
proof -
  obtain tx tx' where b: "beginTransaction st key = Inr tx" "runScript operation tx = (Inr v, tx')"
    "commitTransaction st tx' (txBaseRevision tx) = Inr st'"
    using assms(2) by (auto simp: groupTransaction_def split: sum.splits prod.splits)
  note t = beginTransaction_Inr [OF assms(1) b(1)]
  note key = t(1) and tx = t(2,4-7)
  have tx': "tx_ok tx'" "tx_extends tx tx'" using runScript_ok [OF tx(1) b(2)] by auto
  have "mRevision (stored st key) \<le> 9007199254740991" "0 \<le> mRevision (stored st key)"
    using assms(1) key by (auto simp: stored_def store_ok_def entry_ok_def emptyState_def split: option.splits)
  note c = commitTransaction_Inr [OF b(3) tx'(1), unfolded tx(5), OF this(2,1)]
  have k: "txKey tx' = key" "txMaximum tx' = storeMaximum st" using tx tx'(2) by (simp_all add: tx_extends_def)
  show thesis using that [OF key b(1,2) tx(1) tx' tx(4,5) refl] c k by simp
qed

lemma groupTransaction_Inl: "groupTransaction st key operation = (Inl e, st') \<Longrightarrow> st' = st"
  by (auto simp: groupTransaction_def split: sum.splits prod.splits)

lemma jget_update:
  assumes "cloneGroupStateStoreKey key = Inr key" "cloneGroupStateStoreKey other = Inr other"
  shows "jget (jset G (encodeStoreKey key) m) (encodeStoreKey other) = (if other = key then Some m else jget G (encodeStoreKey other))"
proof (cases "other = key")
  case False
  then have "encodeStoreKey other \<noteq> encodeStoreKey key" using encodeStoreKey_inj [OF assms(2,1)] by blast
  then show ?thesis using False by (simp add: jget_jset)
qed (simp add: jget_jset)

lemma stored_update:
  assumes "cloneGroupStateStoreKey key = Inr key" "cloneGroupStateStoreKey other = Inr other"
  shows "stored (st\<lparr>storeGroups := jset (storeGroups st) (encodeStoreKey key) m\<rparr>) other = (if other = key then m else stored st other)"
  by (simp add: stored_def jget_update [OF assms])

lemma store_ok_commit:
  assumes "store_ok st" "cloneGroupStateStoreKey key = Inr key" "entry_ok (storeMaximum st) key m"
  shows "store_ok (st\<lparr>storeGroups := jset (storeGroups st) (encodeStoreKey key) m\<rparr>)"
  unfolding store_ok_def
proof (intro conjI allI impI)
  fix other n
  assume o: "cloneGroupStateStoreKey other = Inr other"
    "jget (storeGroups (st\<lparr>storeGroups := jset (storeGroups st) (encodeStoreKey key) m\<rparr>)) (encodeStoreKey other) = Some n"
  have "if other = key then n = m else jget (storeGroups st) (encodeStoreKey other) = Some n"
    using o(2) jget_update [OF assms(2) o(1), of "storeGroups st" m] by auto
  then show "entry_ok (storeMaximum (st\<lparr>storeGroups := jset (storeGroups st) (encodeStoreKey key) m\<rparr>)) other n"
    using assms o(1) by (simp add: store_ok_def split: if_splits)
qed (use assms(1) in \<open>simp add: store_ok_def\<close>)

lemma groupTransaction_ok: "store_ok st \<Longrightarrow> store_ok (snd (groupTransaction st key operation))"
proof -
  assume ok: "store_ok st"
  obtain v st' where g: "groupTransaction st key operation = (v, st')" by (cases "groupTransaction st key operation")
  show ?thesis
  proof (cases v)
    case (Inl e)
    then show ?thesis using ok g groupTransaction_Inl by fastforce
  next
    case (Inr r)
    show ?thesis using groupTransaction_Inr [OF ok g [unfolded Inr]] store_ok_commit [OF ok] g by (metis snd_conv)
  qed
qed

fun transactionStep :: "GroupStateStoreKey \<times> 'r script \<Rightarrow> InMemoryGroupStateStore \<Rightarrow> InMemoryGroupStateStore" where
  "transactionStep (key, operation) st = snd (groupTransaction st key operation)"

definition runTransactions :: "InMemoryGroupStateStore \<Rightarrow> (GroupStateStoreKey \<times> 'r script) list \<Rightarrow> InMemoryGroupStateStore" where
  "runTransactions st history = fold transactionStep history st"

interpretation group_store: step_invariant transactionStep store_ok
proof
  fix st and op :: "GroupStateStoreKey \<times> 'r script"
  show "store_ok st \<Longrightarrow> store_ok (transactionStep op st)" by (cases op) (simp add: groupTransaction_ok)
qed

lemma runTransactions_append: "runTransactions st (a @ b) = runTransactions (runTransactions st a) b"
  by (simp add: runTransactions_def)

lemma runTransactions_ok: "store_ok st \<Longrightarrow> store_ok (runTransactions st history)"
  unfolding runTransactions_def by (rule group_store.run_inv)

interpretation group_budget: step_invariant transactionStep "\<lambda>st. storeMaximum st = maximum" for maximum
proof
  fix st and op :: "GroupStateStoreKey \<times> 'r script"
  have "storeMaximum (transactionStep op st) = storeMaximum st"
    by (cases op) (auto simp: groupTransaction_def commitTransaction_def sbind_Inr_iff Let_def split: sum.splits prod.splits if_splits)
  then show "storeMaximum st = maximum \<Longrightarrow> storeMaximum (transactionStep op st) = maximum" by simp
qed

lemma runTransactions_maximum: "storeMaximum (runTransactions st history) = storeMaximum st"
  unfolding runTransactions_def by (rule group_budget.run_inv [OF refl])

text \<open>A marker of consumption is never lost.\<close>

lemma consumed_step:
  assumes "store_ok st" "jhas (mConsumed (stored st key)) k" "cloneGroupStateStoreKey key = Inr key"
  shows "jhas (mConsumed (stored (snd (groupTransaction st other operation)) key)) k"
proof -
  obtain v st' where g: "groupTransaction st other operation = (v, st')" by (cases "groupTransaction st other operation")
  show ?thesis
  proof (cases v)
    case (Inl e)
    then show ?thesis using assms(2) g groupTransaction_Inl by fastforce
  next
    case (Inr r)
    from groupTransaction_Inr [OF assms(1) g [unfolded Inr]] obtain tx tx' m where
      t: "cloneGroupStateStoreKey other = Inr other" "tx_extends tx tx'" "txWorking tx = stored st other"
        "m = (txWorking tx')\<lparr>mRevision := mRevision (stored st other) + 1\<rparr>"
        "st' = st\<lparr>storeGroups := jset (storeGroups st) (encodeStoreKey other) m\<rparr>" by metis
    have "stored st' key = (if key = other then m else stored st key)" unfolding t(5) by (rule stored_update [OF t(1) assms(3)])
    then show ?thesis using t(2-4) assms(2) g by (auto simp: tx_extends_def)
  qed
qed

definition consumed_in :: "GroupStateStoreKey \<Rightarrow> string \<Rightarrow> InMemoryGroupStateStore \<Rightarrow> bool" where
  "consumed_in key k st \<longleftrightarrow> store_ok st \<and> cloneGroupStateStoreKey key = Inr key \<and> jhas (mConsumed (stored st key)) k"

interpretation consumption: step_invariant transactionStep "consumed_in key k" for key k
proof
  fix st and op :: "GroupStateStoreKey \<times> 'r script"
  show "consumed_in key k st \<Longrightarrow> consumed_in key k (transactionStep op st)"
    by (cases op) (simp add: consumed_in_def groupTransaction_ok consumed_step)
qed

lemma consumed_forever:
  assumes "store_ok st" "jhas (mConsumed (stored st key)) k" "cloneGroupStateStoreKey key = Inr key"
  shows "jhas (mConsumed (stored (runTransactions st history) key)) k"
  using consumption.run_inv [of key k st history] assms by (simp add: consumed_in_def runTransactions_def)


section \<open>A sample run\<close>

text \<open>One transaction that stores a state, publishes a KeyPackage and consumes it.\<close>

definition sample_key :: GroupStateStoreKey where
  "sample_key = \<lparr>keyProtocol = stateProtocol sample_state, keyGroupId = stateGroupId sample_state\<rparr>"

definition sample_package :: EncryptedKeyPackageState where
  "sample_package = \<lparr>ekpKeyPackage = \<lparr>kpProtocol = stateProtocol sample_state, kpGroupId = stateGroupId sample_state,
     kpReference = [7], kpPayload = [1]\<rparr>, ekpAlgorithm = [65], ekpKeyId = [75], ekpNonce = [0], ekpCiphertext = [9]\<rparr>"


definition sample_script :: "unit script" where
  "sample_script =
     Await (CallSetEncryptedState sample_envelope) (\<lambda>_.
     Await (CallPutPendingKeyPackage sample_package) (\<lambda>_.
     Await (CallConsumePendingKeyPackage [7]) (\<lambda>_. Resolve ())))"

definition sample_store :: InMemoryGroupStateStore where
  "sample_store = \<lparr>storeGroups = [], storeMaximum = 4096\<rparr>"

lemma sample_package_ok: "key_package_ok sample_package"
  by (simp add: key_package_ok_def sizes_ok_def sample_package_def sample_state_def validateKeyPackage_Inr validateProtectorIdentity_Inr
      canonicalIdentifier_def protectorKeyId_def alnumUnit_def envelope_limits)

lemma sample_clones:
  "cloneEncryptedState sample_envelope = Inr sample_envelope"
  "cloneEncryptedKeyPackageState sample_package = Inr sample_package"
  "cloneGroupStateStoreKey sample_key = Inr sample_key"
  "cloneKeyPackageReference [7] = Inr [7]"
  by (rule cloneEncryptedState_ok [OF sample_envelope_ok], rule cloneEncryptedKeyPackageState_ok [OF sample_package_ok])
    (simp_all add: sample_key_def sample_state_def cloneKeyPackageReference_def cloneBytes_def envelope_limits
      cloneGroupStateStoreKey_def validateAndCloneProtocol_def canonicalIdentifier_def alnumUnit_def)

lemma sample_fields:
  "egsState sample_envelope = sample_state" "stateProtocol sample_state = keyProtocol sample_key"
  "stateGroupId sample_state = keyGroupId sample_key" "stateEpoch sample_state = 0" "kpProtocol (ekpKeyPackage sample_package) = keyProtocol sample_key"
  "kpGroupId (ekpKeyPackage sample_package) = keyGroupId sample_key" "kpReference (ekpKeyPackage sample_package) = [7]"
  by (simp_all add: sample_key_def sample_envelope_def sample_package_def sample_state_def)

lemma sample_validates:
  "validateAndCloneEncryptedGroupState sample_envelope sample_key = Inr sample_envelope"
  "validateAndCloneEncryptedKeyPackageState sample_package sample_key = Inr sample_package"
  by (simp_all add: validateAndCloneEncryptedGroupState_def validateAndCloneEncryptedKeyPackageState_def sample_clones sample_fields
      sameProtocol_def)

lemma sample_lengths:
  "serializedLength (serializeGroupState sample_envelope) \<le> 150" "serializedLength (serializeKeyPackage sample_package) \<le> 150"
  unfolding serializeGroupState_ok [OF sample_envelope_ok] serializeKeyPackage_ok [OF sample_package_ok]
  by (simp_all add: serializedLength_def groupStateWire_def keyPackageWire_def counted_def ascii_of_def sample_envelope_def sample_package_def
      sample_state_def ENCRYPTED_GROUP_STATE_MAGIC_def ENCRYPTED_KEY_PACKAGE_STATE_MAGIC_def)

lemma sample_sizes:
  "encryptedStateCommittedBytes sample_envelope \<le> 200" "pendingEntryCommittedBytes sample_package \<le> 200"
  "encryptedKeyPackageSerializedLength sample_package \<le> 200" "consumedCommittedBytes [7] = 3"
  using sample_lengths by (simp_all add: encryptedStateCommittedBytes_def pendingEntryCommittedBytes_def
      encryptedKeyPackageSerializedLength_def packageReference_def consumedCommittedBytes_def sample_fields)

definition sample_final :: MutableState where
  "sample_final = emptyState\<lparr>mEncryptedState := Some sample_envelope, mPending := [], mConsumed := [(hex_bytes [7], [7])]\<rparr>"

definition sample_tx :: "int \<Rightarrow> MutableState \<Rightarrow> MemoryTransaction" where
  "sample_tx n m = \<lparr>txActive = True, txCommittedBytes = n, txKey = sample_key, txWorking = m, txMaximum = 4096,
            txBaseRevision = 0, txBaseEpoch = None\<rparr>"

lemma sample_tx_sel: "txWorking (sample_tx n m) = m" "txBaseRevision (sample_tx n m) = 0"
  by (simp_all add: sample_tx_def)

lemma sample_begin: "beginTransaction sample_store sample_key = Inr (sample_tx 1024 emptyState)"
  by (simp add: beginTransaction_def sample_clones sample_store_def cloneMutableState_ok newMemoryTransaction_def committedStateBytes_exact
    COMMITTED_STATE_FIXED_OVERHEAD_def sample_tx_def)
   (simp add: emptyState_def currentEpoch_def)

lemma sample_script_run: "runScript sample_script (sample_tx 1024 emptyState) =
    (Inr (), sample_tx (1027 + encryptedStateCommittedBytes sample_envelope) sample_final)"
proof -
  let ?a = "encryptedStateCommittedBytes sample_envelope" and ?b = "pendingEntryCommittedBytes sample_package"
  let ?m1 = "emptyState\<lparr>mEncryptedState := Some sample_envelope\<rparr>"
  let ?m2 = "?m1\<lparr>mPending := [(hex_bytes [7], sample_package)]\<rparr>"
  have adj: "adjustCommittedBytes (sample_tx n m) d = Inr (sample_tx (n + d) m)" if "1024 \<le> n + d" "n + d \<le> 4096" for n d m
    using that by (simp add: adjustCommittedBytes_def adjustStoreBytes_def COMMITTED_STATE_FIXED_OVERHEAD_def Let_def sample_tx_def)
  have sel: "txActive (sample_tx n m)" "txKey (sample_tx n m) = sample_key" "txWorking (sample_tx n m) = m"
    "txUpdate (sample_tx n m) f = sample_tx n (f m)" for n m f by (simp_all add: sample_tx_def txUpdate_def)
  have nn: "0 \<le> ?a" "0 \<le> ?b" by simp_all
  have emp: "mEncryptedState emptyState = None" "mPending emptyState = []" "mConsumed emptyState = []" "mRequests emptyState = []"
    by (simp_all add: emptyState_def)
  have 1: "callTransaction (sample_tx 1024 emptyState) (CallSetEncryptedState sample_envelope) = (Inr UndefinedValue, sample_tx (1024 + ?a) ?m1)"
    using sample_sizes nn by (simp add: callTransaction_def setEncryptedState_def sel sample_validates sample_fields sameProtocol_def currentEpoch_def emp adj)
  have 2: "callTransaction (sample_tx (1024 + ?a) ?m1) (CallPutPendingKeyPackage sample_package) =
      (Inr (BoolValue True), sample_tx (1024 + ?a + ?b) ?m2)"
    using sample_sizes nn by (simp add: callTransaction_def putPendingKeyPackage_def sel sample_validates sample_fields emp adj Let_def
        jhas_def jget_def jsize_def writeCall_def packageReference_def insertPendingPackage_def pendingKeyPackageBytes_def jvals_def
        MAX_PENDING_KEY_PACKAGE_ENTRIES_def MAX_PENDING_KEY_PACKAGE_BYTES_def)
  have 3: "callTransaction (sample_tx (1024 + ?a + ?b) ?m2) (CallConsumePendingKeyPackage [7]) =
      (Inr (PackageValue (Some sample_package)), sample_tx (1027 + ?a) sample_final)"
    using sample_sizes nn by (simp add: callTransaction_def consumePendingKeyPackage_def sel sample_clones emp adj Let_def
        jhas_def jget_def jsize_def jdel_def removePendingPackage_def insertConsumptionMarker_def sample_final_def
        MAX_CONSUMED_KEY_PACKAGE_MARKERS_def)
  show ?thesis using 1 2 3 by (simp add: sample_script_def)
qed

lemma sample_final_ok: "m_ok sample_final" "stateBytes sample_final = 1027 + encryptedStateCommittedBytes sample_envelope"
  using sample_envelope_ok sample_sizes(4) by (simp_all add: m_ok_def sample_final_def emptyState_def stateBytes_def jvals_def jwf_def jkeys_def sample_clones
      COMMITTED_STATE_FIXED_OVERHEAD_def)

lemma sample_semantics: "validateGroupStateStoreSnapshotSemantics (snap_of sample_final) sample_key = Inr ()"
  by (simp add: validateGroupStateStoreSnapshotSemantics_def snap_of_def sample_final_def emptyState_def sample_clones sample_validates cloneOption_def
      jvals_def Let_def MAX_PENDING_KEY_PACKAGE_ENTRIES_def MAX_CONSUMED_KEY_PACKAGE_MARKERS_def MAX_GROUP_STATE_METADATA_ENTRIES_def require_def)

lemma sample_commit: "groupTransaction sample_store sample_key sample_script =
    (Inr (), sample_store\<lparr>storeGroups := [(encodeStoreKey sample_key, sample_final\<lparr>mRevision := 1\<rparr>)]\<rparr>)"
proof -
  let ?tx = "sample_tx (1027 + encryptedStateCommittedBytes sample_envelope) sample_final"
  have "validateBeforeCommit ?tx = Inr ()"
    using sample_sizes(1) sample_final_ok(2) storeSnapshot_ok [OF sample_final_ok(1)] sample_semantics
    by (simp add: validateBeforeCommit_def sample_tx_def Let_def classifyStoreCommitBaseline_def committedStateBytes_exact
        COMMITTED_STATE_FIXED_OVERHEAD_def)
     (simp add: sample_final_def emptyState_def jsize_def jvals_def pendingKeyPackageBytes_def checkPendingKeys_def checkRequestKeys_def
        checkConsumedKeys_def sample_clones require_def MAX_PENDING_KEY_PACKAGE_ENTRIES_def MAX_CONSUMED_KEY_PACKAGE_MARKERS_def
        MAX_GROUP_STATE_METADATA_ENTRIES_def MAX_PENDING_KEY_PACKAGE_BYTES_def)
  moreover have "cloneMutableState (sample_final\<lparr>mRevision := 1\<rparr>) = Inr (sample_final\<lparr>mRevision := 1\<rparr>)"
    by (rule cloneMutableState_ok) (use sample_final_ok(1) in \<open>simp add: m_ok_def\<close>)
  ultimately have "commitTransaction sample_store ?tx 0 = Inr (sample_store\<lparr>storeGroups := [(encodeStoreKey sample_key, sample_final\<lparr>mRevision := 1\<rparr>)]\<rparr>)"
    by (simp add: commitTransaction_def nextStoreRevision_def Let_def) (simp add: sample_tx_def sample_store_def)
  then show ?thesis by (simp add: groupTransaction_def sample_begin sample_script_run) (simp add: sample_tx_def)
qed

lemma sample_new: "newGroupStateStore 4096 = Inr sample_store"
  by (simp add: newGroupStateStore_def sample_store_def COMMITTED_STATE_FIXED_OVERHEAD_def MAX_GROUP_STATE_STORE_COMMITTED_BYTES_def)

lemma sample_history:
  "runTransactions sample_store [(sample_key, sample_script)] =
    sample_store\<lparr>storeGroups := [(encodeStoreKey sample_key, sample_final\<lparr>mRevision := 1\<rparr>)]\<rparr>"
  "runTransactions sample_store [] = sample_store"
  by (simp_all add: runTransactions_def sample_commit)

lemma sample_load: "groupLoad (runTransactions sample_store [(sample_key, sample_script)]) sample_key =
    Inr (Some ((snap_of sample_final)\<lparr>snapRevision := 1\<rparr>))"
  using storeSnapshot_ok [of "sample_final\<lparr>mRevision := 1\<rparr>"] sample_final_ok(1)
  by (simp add: sample_history groupLoad_def sample_clones jget_def m_ok_revision) (simp add: snap_of_def)

section \<open>Properties\<close>

text \<open>C22: The byte count a transaction keeps while its callback runs is, after any sequence of calls
  including failing ones, the size that the full recount at commit computes, and within the store's budget.\<close>

theorem transaction_accounting:
  assumes "newGroupStateStore maximum = Inr st" "beginTransaction (runTransactions st history) key = Inr tx"
    and "runScript operation tx = (v, tx')"
  shows "committedStateBytes (txWorking tx') (txMaximum tx') = Inr (txCommittedBytes tx') \<and> txCommittedBytes tx' \<le> maximum"
proof -
  have ok: "store_ok (runTransactions st history)" by (rule runTransactions_ok [OF newGroupStateStore_ok [OF assms(1)]])
  note tx = beginTransaction_Inr(2,5) [OF ok assms(2)]
  have m: "storeMaximum st = maximum" using assms(1) by (auto simp: newGroupStateStore_def split: if_splits)
  have "tx_ok tx'" "txMaximum tx' = maximum" 
    using runScript_ok [OF tx(1) assms(3)] tx(2) m runTransactions_maximum [of st history] by (simp_all add: tx_extends_def)
  then show ?thesis by (simp add: tx_ok_def committedStateBytes_exact)
qed

theorem transaction_accounting_witness:
  "newGroupStateStore 4096 = Inr sample_store \<and>
   committedStateBytes sample_final 4096 = Inr (1027 + encryptedStateCommittedBytes sample_envelope)"
  using transaction_accounting [of 4096 sample_store "[]" sample_key, unfolded sample_history, OF sample_new sample_begin sample_script_run] sample_new
  by (simp add: sample_tx_def)

text \<open>C16: Whatever transactions ran, every group can be loaded and reopened, what is loaded is what the next
  transaction starts from, and it passes the store's own semantic validation.\<close>

theorem reachable_store_usable:
  assumes "newGroupStateStore maximum = Inr st" "cloneGroupStateStoreKey key = Inr key"
  shows "\<exists>tx s. beginTransaction (runTransactions st history) key = Inr tx \<and> groupLoad (runTransactions st history) key = Inr s \<and>
    (\<forall>x. s = Some x \<longrightarrow> storeSnapshot (txWorking tx) = Inr x \<and> validateGroupStateStoreSnapshotSemantics x key = Inr ())"
proof -
  let ?st = "runTransactions st history"
  have ok: "store_ok ?st" by (rule runTransactions_ok [OF newGroupStateStore_ok [OF assms(1)]])
  obtain tx where tx: "beginTransaction ?st key = Inr tx" "txWorking tx = stored ?st key" by (rule beginTransaction_ok [OF ok assms(2)])
  have "storeSnapshot (txWorking tx) = Inr (snap_of m) \<and> validateGroupStateStoreSnapshotSemantics (snap_of m) key = Inr ()"
    if "jget (storeGroups ?st) (encodeStoreKey key) = Some m" for m
    using that ok assms(2) tx(2) by (simp add: stored_def store_ok_def entry_ok_def storeSnapshot_ok)
  then show ?thesis using tx(1) groupLoad_stored [OF ok assms(2)] by auto
qed

theorem reachable_store_usable_witness:
  "newGroupStateStore 4096 = Inr sample_store \<and> cloneGroupStateStoreKey sample_key = Inr sample_key \<and>
   groupLoad (runTransactions sample_store [(sample_key, sample_script)]) sample_key = Inr (Some ((snap_of sample_final)\<lparr>snapRevision := 1\<rparr>)) \<and>
   validateGroupStateStoreSnapshotSemantics ((snap_of sample_final)\<lparr>snapRevision := 1\<rparr>) sample_key = Inr ()"
  using reachable_store_usable [OF sample_new sample_clones(3), of "[(sample_key, sample_script)]"] sample_new sample_clones(3) sample_load by auto

text \<open>C14: A transaction is all or nothing. When the callback or the commit fails the store is unchanged; when it
  succeeds the group holds exactly the callback's working state at the next revision, its epoch has not
  decreased, and every other group is untouched.\<close>

theorem transaction_atomic:
  assumes "newGroupStateStore maximum = Inr st0" "st = runTransactions st0 history" "groupTransaction st key operation = (v, st')"
  shows "case v of
      Inl _ \<Rightarrow> st' = st
    | Inr r \<Rightarrow> (\<exists>tx tx' x. beginTransaction st key = Inr tx \<and> runScript operation tx = (Inr r, tx') \<and>
        storeSnapshot (txWorking tx') = Inr x \<and>
        groupLoad st' key = Inr (Some (x\<lparr>snapRevision := txBaseRevision tx + 1\<rparr>)) \<and>
        (\<forall>n. txBaseEpoch tx = Some n \<longrightarrow> (\<exists>n'. currentEpoch (txWorking tx') = Some n' \<and> n \<le> n')) \<and>
        (\<forall>other. cloneGroupStateStoreKey other = Inr other \<longrightarrow> other \<noteq> key \<longrightarrow> groupLoad st' other = groupLoad st other))"
proof (cases v)
  case (Inl e)
  then show ?thesis using assms(3) groupTransaction_Inl by fastforce
next
  case (Inr r)
  have ok: "store_ok st" unfolding assms(2) by (rule runTransactions_ok [OF newGroupStateStore_ok [OF assms(1)]])
  from groupTransaction_Inr [OF ok assms(3) [unfolded Inr]] obtain tx tx' m where
    t: "cloneGroupStateStoreKey key = Inr key" "beginTransaction st key = Inr tx" "runScript operation tx = (Inr r, tx')"
      "tx_ok tx'" "tx_extends tx tx'" "txBaseRevision tx = mRevision (stored st key)"
      "m = (txWorking tx')\<lparr>mRevision := mRevision (stored st key) + 1\<rparr>"
      "st' = st\<lparr>storeGroups := jset (storeGroups st) (encodeStoreKey key) m\<rparr>" "entry_ok (storeMaximum st) key m" by metis
  have ok': "store_ok st'" unfolding t(8) by (rule store_ok_commit [OF ok t(1,9)])
  have snap: "storeSnapshot (txWorking tx') = Inr (snap_of (txWorking tx'))" using t(4) by (simp add: storeSnapshot_ok tx_ok_def)
  have load: "groupLoad st' key = Inr (Some ((snap_of (txWorking tx'))\<lparr>snapRevision := txBaseRevision tx + 1\<rparr>))"
    unfolding groupLoad_stored [OF ok' t(1)] using t(6-8) by (simp add: jget_jset snap_of_def)
  have epochs: "\<forall>n. txBaseEpoch tx = Some n \<longrightarrow> (\<exists>n'. currentEpoch (txWorking tx') = Some n' \<and> n \<le> n')"
    using t(4,5) by (auto simp: tx_ok_def tx_extends_def epoch_le_def split: option.splits)
  have others: "groupLoad st' other = groupLoad st other" if o: "cloneGroupStateStoreKey other = Inr other" "other \<noteq> key" for other
    using jget_update [OF t(1) o(1), of "storeGroups st" m] o(2) unfolding t(8)
    by (simp add: groupLoad_def o(1))
  show ?thesis unfolding Inr using t(2,3) snap load epochs others by auto
qed

theorem transaction_atomic_witness:
  "newGroupStateStore 4096 = Inr sample_store \<and>
   groupLoad (runTransactions sample_store [(sample_key, sample_script)]) sample_key = Inr (Some ((snap_of sample_final)\<lparr>snapRevision := 1\<rparr>))"
proof -
  have "\<exists>tx tx' x. beginTransaction sample_store sample_key = Inr tx \<and> runScript sample_script tx = (Inr (), tx') \<and>
      storeSnapshot (txWorking tx') = Inr x \<and>
      groupLoad (runTransactions sample_store [(sample_key, sample_script)]) sample_key =
        Inr (Some (x\<lparr>snapRevision := txBaseRevision tx + 1\<rparr>))"
    using transaction_atomic [OF sample_new sample_history(2) [symmetric] sample_commit] sample_history(1) by auto
  then show ?thesis using sample_new storeSnapshot_ok [OF sample_final_ok(1)]
    by (auto simp: sample_begin sample_script_run sample_tx_sel)
qed

text \<open>C15: A KeyPackage is used once. A reference consumed in a committed state stays consumed and is never pending
  again after any further transactions, and inside any later transaction consuming it or storing a package
  with that reference is refused.\<close>

theorem key_package_once:
  assumes "newGroupStateStore maximum = Inr st" "groupLoad (runTransactions st history) key = Inr (Some s)"
    and "r \<in> set (snapConsumedKeyPackageRefs s)"
    and "later = runTransactions st (history @ afterwards)"
  shows "(\<exists>s'. groupLoad later key = Inr (Some s') \<and> r \<in> set (snapConsumedKeyPackageRefs s') \<and>
      (\<forall>p \<in> set (snapPendingKeyPackages s'). packageReference p \<noteq> r)) \<and>
    (\<forall>tx tx' v. beginTransaction later key = Inr tx \<longrightarrow> runScript operation tx = (v, tx') \<longrightarrow>
      consumePendingKeyPackage tx' r = (Inl PackageConsumed, tx') \<and>
      (\<forall>p. packageReference p = r \<longrightarrow> validateAndCloneEncryptedKeyPackageState p key = Inr p \<longrightarrow>
         putPendingKeyPackage tx' p = Inl PackageConsumed))"
proof -
  let ?now = "runTransactions st history"
  have ok: "store_ok ?now" by (rule runTransactions_ok [OF newGroupStateStore_ok [OF assms(1)]])
  have ok': "store_ok later" unfolding assms(4) by (rule runTransactions_ok [OF newGroupStateStore_ok [OF assms(1)]])
  have key: "cloneGroupStateStoreKey key = Inr key" using assms(2) clone_values(4) by (auto simp: groupLoad_def sbind_Inr_iff)
  obtain m where m: "jget (storeGroups ?now) (encodeStoreKey key) = Some m" "s = snap_of m"
    using assms(2) unfolding groupLoad_stored [OF ok key] by auto
  have e: "entry_ok (storeMaximum ?now) key m" using ok key m(1) by (simp add: store_ok_def)
  have r: "r \<in> set (jvals (mConsumed m))" using assms(3) m(2) by (simp add: snap_of_def)
  have ref: "cloneKeyPackageReference r = Inr r" using e r by (simp add: entry_ok_def m_ok_def)
  have "jhas (mConsumed (stored ?now key)) (hex_bytes r)"
    using consumed_marker [OF e r] m(1) by (simp add: stored_def)
  then have has: "jhas (mConsumed (stored later key)) (hex_bytes r)"
    unfolding assms(4) runTransactions_append by (rule consumed_forever [OF ok _ key])
  obtain m' where m': "jget (storeGroups later) (encodeStoreKey key) = Some m'" "stored later key = m'"
    using has by (cases "jget (storeGroups later) (encodeStoreKey key)") (simp_all add: stored_def emptyState_def jhas_def)
  have e': "entry_ok (storeMaximum later) key m'" using ok' key m'(1) by (simp add: store_ok_def)
  have r': "r \<in> set (jvals (mConsumed m'))" using consumed_member [OF e'] has m'(2) by simp
  have "\<forall>p \<in> set (jvals (mPending m')). packageReference p \<noteq> r"
    using semantics_partition e' r' by (auto simp: entry_ok_def)
  then have "\<exists>s'. groupLoad later key = Inr (Some s') \<and> r \<in> set (snapConsumedKeyPackageRefs s') \<and>
      (\<forall>p \<in> set (snapPendingKeyPackages s'). packageReference p \<noteq> r)"
    using r' groupLoad_stored [OF ok' key] m'(1) by (simp add: snap_of_def)
  moreover have "consumePendingKeyPackage tx' r = (Inl PackageConsumed, tx') \<and>
      (\<forall>p. packageReference p = r \<longrightarrow> validateAndCloneEncryptedKeyPackageState p key = Inr p \<longrightarrow>
         putPendingKeyPackage tx' p = Inl PackageConsumed)"
    if b: "beginTransaction later key = Inr tx" "runScript operation tx = (v, tx')" for tx tx' v
  proof -
    note t = beginTransaction_Inr [OF ok' b(1)]
    have x: "tx_extends tx tx'" using runScript_ok [OF t(2) b(2)] by simp
    then have "jhas (mConsumed (txWorking tx')) (hex_bytes r)" "txKey tx' = key" using has t(4,6) by (auto simp: tx_extends_def)
    then show ?thesis using ref by (simp add: consumePendingKeyPackage_def putPendingKeyPackage_def Let_def)
  qed
  ultimately show ?thesis by blast
qed

theorem key_package_once_witness:
  "newGroupStateStore 4096 = Inr sample_store \<and>
   (\<exists>tx tx'. beginTransaction (runTransactions sample_store [(sample_key, sample_script), (sample_key, Reject)]) sample_key = Inr tx \<and>
      runScript (Resolve ()) tx = (Inr (), tx') \<and>
      consumePendingKeyPackage tx' [7] = (Inl PackageConsumed, tx') \<and>
      putPendingKeyPackage tx' sample_package = Inl PackageConsumed)"
proof -
  let ?later = "runTransactions sample_store [(sample_key, sample_script), (sample_key, Reject)]"
  have "[7] \<in> set (snapConsumedKeyPackageRefs ((snap_of sample_final)\<lparr>snapRevision := 1\<rparr>))"
    by (simp add: snap_of_def sample_final_def jvals_def)
  note t = key_package_once [OF sample_new sample_load this refl, of "[(sample_key, Reject)]" "Resolve ()"]
  have p: "packageReference sample_package = [7]" by (simp add: packageReference_def sample_fields)
  obtain tx where tx: "beginTransaction ?later sample_key = Inr tx"
    by (rule beginTransaction_ok [OF runTransactions_ok [OF newGroupStateStore_ok [OF sample_new]] sample_clones(3)])
  have "runScript (Resolve ()) tx = (Inr (), tx)" by simp
  then show ?thesis using t tx p sample_validates(2) sample_new by auto
qed

end
