(* ===== verification/Store_Commitment.thy ===== *)
theory Store_Commitment
  imports Group_State_Theorems "HOL-Library.Multiset"
begin

text \<open>
  \<open>packages/core/src/group-security-store-commitment.ts\<close>: the canonical encoding of a
  group-state snapshot that the external rollback anchor commits to. Entries are sorted
  by their identities, every byte is claimed from a budget before it is written, and
  the result is validated like a stored state. SHA-256 is a parameter. Values are
  plain data of the declared types; the checks for accessors, sparse arrays and shared
  buffers have no counterpart.
\<close>


section \<open>Definitions\<close>

datatype commitment_error =
    CommitmentInvalid
  | CommitmentBound
  | CommitmentNotCanonical
  | CommitmentAccounting
  | CommitmentSemantics
  | DigestUnavailable

text \<open>The characters \<open>peerborne/group-security-store-snapshot/v2\<close> and a zero byte.\<close>

definition COMMITMENT_DOMAIN :: bytes where
  "COMMITMENT_DOMAIN = map of_char ''peerborne/group-security-store-snapshot/v2'' @ [0]"

definition MAX_ENTRIES :: int where
  "MAX_ENTRIES = 65536"

definition MAX_PENDING_ENTRIES :: int where
  "MAX_PENDING_ENTRIES = 32"

definition MAX_CONSUMED_ENTRIES :: int where
  "MAX_CONSUMED_ENTRIES = 4096"

definition MAX_ENCRYPTED_STATE_BYTES :: int where
  "MAX_ENCRYPTED_STATE_BYTES = 8 + 2 + 2 + 128 + 2 + 2 + MAX_GROUP_ID_BYTES + 8 + 2 + MAX_HASH_BYTES + 2 + MAX_HASH_BYTES + 2 + 128 +
     2 + 256 + 2 + MAX_SHORT_BYTES + 4 + MAX_CIPHERTEXT_BYTES"

definition MAX_ENCRYPTED_KEY_PACKAGE_BYTES :: int where
  "MAX_ENCRYPTED_KEY_PACKAGE_BYTES = 8 + 2 + 2 + 128 + 2 + 2 + MAX_GROUP_ID_BYTES + 2 + MAX_KEY_PACKAGE_REFERENCE_BYTES + 4 +
     MAX_KEY_PACKAGE_PAYLOAD_BYTES + 2 + 128 + 2 + 256 + 2 + MAX_SHORT_BYTES + 4 + MAX_CIPHERTEXT_BYTES"

definition MAX_PENDING_TOTAL_BYTES :: int where
  "MAX_PENDING_TOTAL_BYTES = 64 * 1024 * 1024"

definition MAX_CANONICAL_SNAPSHOT_BYTES :: int where
  "MAX_CANONICAL_SNAPSHOT_BYTES = 128 * 1024 * 1024"

definition FIXED_ID_BYTES :: int where
  "FIXED_ID_BYTES = 32"

subsection \<open>Budgets and checked values\<close>

text \<open>A \<open>ByteBudget\<close> is its number of used bytes.\<close>

definition claim :: "int \<Rightarrow> int \<Rightarrow> int \<Rightarrow> commitment_error + int" where
  "claim maximum used n = (if n < 0 \<or> n > maximum - used then Inl CommitmentBound else Inr (used + n))"

definition claimSnapshot :: "int \<Rightarrow> int \<Rightarrow> commitment_error + int" where
  "claimSnapshot used n = claim MAX_CANONICAL_SNAPSHOT_BYTES used n"

definition byteView :: "bytes \<Rightarrow> int \<Rightarrow> int \<Rightarrow> commitment_error + bytes" where
  "byteView value minimum maximum =
     (if int (length value) < minimum \<or> int (length value) > maximum then Inl CommitmentInvalid else Inr value)"

definition boundedBytes :: "bytes \<Rightarrow> int \<Rightarrow> int \<Rightarrow> int \<Rightarrow> int \<Rightarrow> commitment_error + bytes \<times> int" where
  "boundedBytes value minimum maximum used framing =
     sbind (byteView value minimum maximum) (\<lambda>v.
     sbind (claimSnapshot used (framing + int (length v))) (\<lambda>used. Inr (v, used)))"

definition safeInteger :: "int \<Rightarrow> int \<Rightarrow> commitment_error + int" where
  "safeInteger value minimum =
     (if \<bar>value\<bar> > MAX_SAFE_INTEGER \<or> value < minimum then Inl CommitmentInvalid else Inr value)"

definition u64Value :: "int \<Rightarrow> commitment_error + int" where
  "u64Value value = (if value < 0 \<or> value > MAX_U64 then Inl CommitmentInvalid else Inr value)"

definition strictArray :: "'a list \<Rightarrow> int \<Rightarrow> commitment_error + 'a list" where
  "strictArray xs maximum = (if int (length xs) > maximum then Inl CommitmentInvalid else Inr xs)"

definition commitment_part :: "envelope_error + 'a \<Rightarrow> commitment_error + 'a" where
  "commitment_part r = (case r of Inl _ \<Rightarrow> Inl CommitmentInvalid | Inr x \<Rightarrow> Inr x)"

text \<open>\<open>Array.prototype.sort\<close> is stable.\<close>

fun insertSorted :: "('a \<Rightarrow> bytes) \<Rightarrow> 'a \<Rightarrow> 'a list \<Rightarrow> 'a list" where
  "insertSorted key x [] = [x]"
| "insertSorted key x (y # ys) = (if compareBytes (key x) (key y) \<le> 0 then x # y # ys else y # insertSorted key x ys)"

fun sortByBytes :: "('a \<Rightarrow> bytes) \<Rightarrow> 'a list \<Rightarrow> 'a list" where
  "sortByBytes key [] = []"
| "sortByBytes key (x # xs) = insertSorted key x (sortByBytes key xs)"

subsection \<open>Entries\<close>

text \<open>
  The brand checks of the provider: an instance exists only if its constructor was
  called, which \<open>seal\<close> and \<open>deserialize\<close> do after these checks.
\<close>

definition isEncryptedGroupState :: "EncryptedGroupState \<Rightarrow> bool" where
  "isEncryptedGroupState e = group_state_ok e"

definition isEncryptedKeyPackageState :: "EncryptedKeyPackageState \<Rightarrow> bool" where
  "isEncryptedKeyPackageState e = key_package_ok e"

definition canonicalEncryptedGroupState :: "EncryptedGroupState \<Rightarrow> int \<Rightarrow> commitment_error + bytes \<times> int" where
  "canonicalEncryptedGroupState value used =
     sbind (require (isEncryptedGroupState value) CommitmentInvalid) (\<lambda>_.
     sbind (commitment_part (serializeGroupState value)) (\<lambda>b.
     sbind (byteView b 1 MAX_ENCRYPTED_STATE_BYTES) (\<lambda>serialized.
     sbind (claimSnapshot used (4 + int (length serialized))) (\<lambda>used.
     sbind (commitment_part (deserializeGroupState serialized)) (\<lambda>reconstructed.
     sbind (commitment_part (serializeGroupState reconstructed)) (\<lambda>c.
     sbind (byteView c 1 MAX_ENCRYPTED_STATE_BYTES) (\<lambda>canonical.
     if \<not> equalBytes serialized canonical then Inl CommitmentNotCanonical else Inr (serialized, used))))))))"

definition canonicalEncryptedKeyPackageState ::
    "EncryptedKeyPackageState \<Rightarrow> int \<Rightarrow> int \<Rightarrow> commitment_error + EncryptedKeyPackageState \<times> bytes \<times> int \<times> int" where
  "canonicalEncryptedKeyPackageState value used pendingUsed =
     sbind (require (isEncryptedKeyPackageState value) CommitmentInvalid) (\<lambda>_.
     sbind (commitment_part (serializeKeyPackage value)) (\<lambda>b.
     sbind (byteView b 1 MAX_ENCRYPTED_KEY_PACKAGE_BYTES) (\<lambda>serialized.
     sbind (claim MAX_PENDING_TOTAL_BYTES pendingUsed (int (length serialized))) (\<lambda>pendingUsed.
     sbind (claimSnapshot used (4 + int (length serialized))) (\<lambda>used.
     sbind (commitment_part (deserializeKeyPackage serialized)) (\<lambda>reconstructed.
     sbind (commitment_part (serializeKeyPackage reconstructed)) (\<lambda>c.
     sbind (byteView c 1 MAX_ENCRYPTED_KEY_PACKAGE_BYTES) (\<lambda>canonical.
     if \<not> equalBytes serialized canonical then Inl CommitmentNotCanonical
     else Inr (reconstructed, serialized, used, pendingUsed)))))))))"

record CanonicalPending =
  cpReference :: bytes
  cpSerialized :: bytes

fun canonicalPending_loop ::
    "EncryptedKeyPackageState list \<Rightarrow> int \<Rightarrow> int \<Rightarrow> commitment_error + CanonicalPending list \<times> int" where
  "canonicalPending_loop [] used pendingUsed = Inr ([], used)"
| "canonicalPending_loop (s # ss) used pendingUsed =
     sbind (canonicalEncryptedKeyPackageState s used pendingUsed) (\<lambda>(state, serialized, used, pendingUsed).
     sbind (boundedBytes (packageReference state) 1 MAX_KEY_PACKAGE_REFERENCE_BYTES used 2) (\<lambda>(reference, used).
     sbind (canonicalPending_loop ss used pendingUsed) (\<lambda>(rest, used).
       Inr (\<lparr>cpReference = reference, cpSerialized = serialized\<rparr> # rest, used))))"

definition canonicalPending :: "EncryptedKeyPackageState list \<Rightarrow> int \<Rightarrow> commitment_error + CanonicalPending list \<times> int" where
  "canonicalPending value used =
     sbind (strictArray value MAX_PENDING_ENTRIES) (\<lambda>entries.
     sbind (canonicalPending_loop entries used 0) (\<lambda>(canonical, used).
       Inr (sortByBytes cpReference canonical, used)))"

text \<open>The entries of the other arrays are read in order, each claiming its bytes.\<close>

fun claimEach :: "('a \<Rightarrow> int \<Rightarrow> commitment_error + 'b \<times> int) \<Rightarrow> 'a list \<Rightarrow> int \<Rightarrow> commitment_error + 'b list \<times> int" where
  "claimEach f [] used = Inr ([], used)"
| "claimEach f (x # xs) used =
     sbind (f x used) (\<lambda>(y, used). sbind (claimEach f xs used) (\<lambda>(ys, used). Inr (y # ys, used)))"

definition snapshotRequest ::
    "GroupStatePendingKeyPackageRequest \<Rightarrow> int \<Rightarrow> commitment_error + GroupStatePendingKeyPackageRequest \<times> int" where
  "snapshotRequest r used =
     sbind (boundedBytes (requestOperationId r) FIXED_ID_BYTES FIXED_ID_BYTES used 0) (\<lambda>(operation, used).
     sbind (boundedBytes (requestCommitment r) FIXED_ID_BYTES FIXED_ID_BYTES used 0) (\<lambda>(commitment, used).
     sbind (boundedBytes (requestReference r) 1 MAX_KEY_PACKAGE_REFERENCE_BYTES used 2) (\<lambda>(reference, used).
       Inr (\<lparr>requestOperationId = operation, requestCommitment = commitment, requestReference = reference\<rparr>, used))))"

definition canonicalPendingRequests ::
    "GroupStatePendingKeyPackageRequest list \<Rightarrow> int \<Rightarrow> commitment_error + GroupStatePendingKeyPackageRequest list \<times> int" where
  "canonicalPendingRequests value used =
     sbind (strictArray value MAX_PENDING_ENTRIES) (\<lambda>entries.
     sbind (claimEach snapshotRequest entries used) (\<lambda>(snapshots, used).
       Inr (sortByBytes requestOperationId snapshots, used)))"

definition canonicalConsumed :: "bytes list \<Rightarrow> int \<Rightarrow> commitment_error + bytes list \<times> int" where
  "canonicalConsumed value used =
     sbind (strictArray value MAX_CONSUMED_ENTRIES) (\<lambda>entries.
     sbind (claimEach (\<lambda>b used. boundedBytes b 1 MAX_KEY_PACKAGE_REFERENCE_BYTES used 2) entries used) (\<lambda>(refs, used).
       Inr (sortByBytes (\<lambda>b. b) refs, used)))"

definition snapshotOutboxEntry :: "GroupStateOutboxEntry \<Rightarrow> int \<Rightarrow> commitment_error + GroupStateOutboxEntry \<times> int" where
  "snapshotOutboxEntry e used =
     (if \<not> canonicalIdentifier (outboxKind e) then Inl CommitmentInvalid
      else
        sbind (byteView (outboxId e) FIXED_ID_BYTES FIXED_ID_BYTES) (\<lambda>i.
        sbind (byteView (outboxPayload e) 1 MAX_OUTBOX_PAYLOAD_BYTES) (\<lambda>payload.
        sbind (u64Value (outboxEpoch e)) (\<lambda>ep.
        sbind (safeInteger (outboxCreatedAt e) 0) (\<lambda>created.
        sbind (claimSnapshot used (int (length i) + 2 + int (length (outboxKind e)) + 8 + 8 + 4 + int (length payload))) (\<lambda>used.
          Inr (\<lparr>outboxId = i, outboxKind = outboxKind e, outboxEpoch = ep, outboxPayload = payload, outboxCreatedAt = created\<rparr>,
               used)))))))"

definition canonicalOutbox :: "GroupStateOutboxEntry list \<Rightarrow> int \<Rightarrow> commitment_error + GroupStateOutboxEntry list \<times> int" where
  "canonicalOutbox value used =
     sbind (strictArray value MAX_ENTRIES) (\<lambda>entries.
     sbind (claimEach snapshotOutboxEntry entries used) (\<lambda>(snapshots, used). Inr (sortByBytes outboxId snapshots, used)))"

definition optionalByteView :: "bytes option \<Rightarrow> commitment_error + bytes option" where
  "optionalByteView v =
     (case v of None \<Rightarrow> Inr None | Some b \<Rightarrow> sbind (byteView b FIXED_ID_BYTES FIXED_ID_BYTES) (\<lambda>b. Inr (Some b)))"

definition snapshotReplayEntry :: "GroupStateReplayEntry \<Rightarrow> int \<Rightarrow> commitment_error + GroupStateReplayEntry \<times> int" where
  "snapshotReplayEntry e used =
     sbind (byteView (replayRecordId e) FIXED_ID_BYTES FIXED_ID_BYTES) (\<lambda>i.
     sbind (optionalByteView (replayOperationId e)) (\<lambda>operation.
     sbind (byteView (replayControlRecord e) 1 MAX_CONTROL_RECORD_BYTES) (\<lambda>control.
     sbind (u64Value (replayEpoch e)) (\<lambda>ep.
     sbind (claimSnapshot used (int (length i) + 1 + (case operation of None \<Rightarrow> 0 | Some x \<Rightarrow> 4 + int (length x)) + 8 + 4 +
              int (length control))) (\<lambda>used.
       Inr (\<lparr>replayRecordId = i, replayOperationId = operation, replayEpoch = ep, replayControlRecord = control\<rparr>, used))))))"

definition canonicalReplay :: "GroupStateReplayEntry list \<Rightarrow> int \<Rightarrow> commitment_error + GroupStateReplayEntry list \<times> int" where
  "canonicalReplay value used =
     sbind (strictArray value MAX_ENTRIES) (\<lambda>entries.
     sbind (claimEach snapshotReplayEntry entries used) (\<lambda>(snapshots, used). Inr (sortByBytes replayRecordId snapshots, used)))"

definition orderedFork :: "GroupStateForkEvidence \<Rightarrow> GroupStateForkEvidence" where
  "orderedFork f =
     (if compareBytes (forkFirstRecordId f) (forkSecondRecordId f) \<le> 0 then f
      else f\<lparr>forkFirstRecordId := forkSecondRecordId f, forkFirstControlRecord := forkSecondControlRecord f,
             forkSecondRecordId := forkFirstRecordId f, forkSecondControlRecord := forkFirstControlRecord f\<rparr>)"

definition encodeFork :: "GroupStateForkEvidence \<Rightarrow> envelope_error + bytes" where
  "encodeFork f = concatParts [u64 (forkEpoch f), Inr (forkParentRecordId f), Inr (forkFirstRecordId f),
     bytes32 (forkFirstControlRecord f), Inr (forkSecondRecordId f), bytes32 (forkSecondControlRecord f)]"

definition canonicalFork ::
    "GroupStateForkEvidence option \<Rightarrow> int \<Rightarrow> commitment_error + (GroupStateForkEvidence \<times> bytes) option \<times> int" where
  "canonicalFork value used =
     (case value of
        None \<Rightarrow> Inr (None, used)
      | Some f \<Rightarrow>
          sbind (byteView (forkParentRecordId f) FIXED_ID_BYTES FIXED_ID_BYTES) (\<lambda>parent.
          sbind (byteView (forkFirstRecordId f) FIXED_ID_BYTES FIXED_ID_BYTES) (\<lambda>first.
          sbind (byteView (forkFirstControlRecord f) 1 MAX_CONTROL_RECORD_BYTES) (\<lambda>firstControl.
          sbind (byteView (forkSecondRecordId f) FIXED_ID_BYTES FIXED_ID_BYTES) (\<lambda>second.
          sbind (byteView (forkSecondControlRecord f) 1 MAX_CONTROL_RECORD_BYTES) (\<lambda>secondControl.
          sbind (claimSnapshot used (4 + 8 + int (length parent) + int (length first) + 4 + int (length firstControl) +
                   int (length second) + 4 + int (length secondControl))) (\<lambda>used.
          sbind (u64Value (forkEpoch f)) (\<lambda>ep.
          let cloned = \<lparr>forkEpoch = ep, forkParentRecordId = parent, forkFirstRecordId = first,
                        forkFirstControlRecord = firstControl, forkSecondRecordId = second,
                        forkSecondControlRecord = secondControl\<rparr>
          in if equalBytes first second then Inl CommitmentInvalid
             else sbind (commitment_part (encodeFork (orderedFork cloned))) (\<lambda>encoded.
                    Inr (Some (orderedFork cloned, encoded), used))))))))))"

subsection \<open>The encoding\<close>

definition pendingParts :: "CanonicalPending \<Rightarrow> (envelope_error + bytes) list" where
  "pendingParts p = [u16 (int (length (cpReference p))), Inr (cpReference p), u32 (int (length (cpSerialized p))), Inr (cpSerialized p)]"

definition requestParts :: "GroupStatePendingKeyPackageRequest \<Rightarrow> (envelope_error + bytes) list" where
  "requestParts r = [Inr (requestOperationId r), Inr (requestCommitment r), u16 (int (length (requestReference r))), Inr (requestReference r)]"

definition consumedParts :: "bytes \<Rightarrow> (envelope_error + bytes) list" where
  "consumedParts b = [u16 (int (length b)), Inr b]"

definition outboxParts :: "GroupStateOutboxEntry \<Rightarrow> (envelope_error + bytes) list" where
  "outboxParts e =
     (let kind = encodeUtf8 (outboxKind e)
      in [Inr (outboxId e), u16 (int (length kind)), Inr kind, u64 (outboxEpoch e), u64 (outboxCreatedAt e),
          u32 (int (length (outboxPayload e))), Inr (outboxPayload e)])"

definition replayParts :: "GroupStateReplayEntry \<Rightarrow> (envelope_error + bytes) list" where
  "replayParts e =
     [Inr (replayRecordId e)] @
     (case replayOperationId e of None \<Rightarrow> [Inr [0]] | Some x \<Rightarrow> [Inr [1], u32 (int (length x)), Inr x]) @
     [u64 (replayEpoch e), u32 (int (length (replayControlRecord e))), Inr (replayControlRecord e)]"

definition countedParts :: "('a \<Rightarrow> (envelope_error + bytes) list) \<Rightarrow> 'a list \<Rightarrow> (envelope_error + bytes) list" where
  "countedParts f xs = u32 (int (length xs)) # concat (map f xs)"

definition optionalParts :: "bytes option \<Rightarrow> (envelope_error + bytes) list" where
  "optionalParts v = (case v of None \<Rightarrow> [Inr [0]] | Some b \<Rightarrow> [Inr [1], u32 (int (length b)), Inr b])"

definition snapshotParts ::
    "int \<Rightarrow> bytes option \<Rightarrow> CanonicalPending list \<Rightarrow> GroupStatePendingKeyPackageRequest list \<Rightarrow> bytes list
      \<Rightarrow> GroupStateOutboxEntry list \<Rightarrow> GroupStateReplayEntry list \<Rightarrow> bytes option \<Rightarrow> (envelope_error + bytes) list" where
  "snapshotParts revision state pending requests consumed outbox replay fork =
     [Inr COMMITMENT_DOMAIN, u64 revision] @ optionalParts state @ countedParts pendingParts pending @
     countedParts requestParts requests @ countedParts consumedParts consumed @ countedParts outboxParts outbox @
     countedParts replayParts replay @ optionalParts fork"

definition boundedConcat :: "(envelope_error + bytes) list \<Rightarrow> commitment_error + bytes" where
  "boundedConcat parts =
     sbind (commitment_part (concatParts parts)) (\<lambda>b.
     if int (length b) > MAX_CANONICAL_SNAPSHOT_BYTES then Inl CommitmentBound else Inr b)"

definition canonicalState :: "EncryptedGroupState option \<Rightarrow> int \<Rightarrow> commitment_error + bytes option \<times> int" where
  "canonicalState v used =
     (case v of
        None \<Rightarrow> Inr (None, used)
      | Some e \<Rightarrow> sbind (canonicalEncryptedGroupState e used) (\<lambda>(b, used). Inr (Some b, used)))"

fun deserializeAll :: "CanonicalPending list \<Rightarrow> commitment_error + EncryptedKeyPackageState list" where
  "deserializeAll [] = Inr []"
| "deserializeAll (p # ps) =
     sbind (commitment_part (deserializeKeyPackage (cpSerialized p))) (\<lambda>s.
     sbind (deserializeAll ps) (\<lambda>ss. Inr (s # ss)))"

definition deserializeOptional :: "bytes option \<Rightarrow> commitment_error + EncryptedGroupState option" where
  "deserializeOptional v =
     (case v of
        None \<Rightarrow> Inr None
      | Some b \<Rightarrow> sbind (commitment_part (deserializeGroupState b)) (\<lambda>e. Inr (Some e)))"

text \<open>The first half of \<open>canonicalSnapshot\<close>: the checked and sorted pieces and the bytes claimed for them.\<close>

record CanonicalPieces =
  pcRevision :: int
  pcState :: "bytes option"
  pcPending :: "CanonicalPending list"
  pcRequests :: "GroupStatePendingKeyPackageRequest list"
  pcConsumed :: "bytes list"
  pcOutbox :: "GroupStateOutboxEntry list"
  pcReplay :: "GroupStateReplayEntry list"
  pcFork :: "(GroupStateForkEvidence \<times> bytes) option"
  pcUsed :: int

definition canonicalPieces :: "GroupStateStoreSnapshot \<Rightarrow> commitment_error + CanonicalPieces" where
  "canonicalPieces s =
     sbind (claimSnapshot 0 (int (length COMMITMENT_DOMAIN) + 8)) (\<lambda>used.
     sbind (safeInteger (snapRevision s) 1) (\<lambda>revision.
     sbind (claimSnapshot used 1) (\<lambda>used.
     sbind (canonicalState (snapEncryptedState s) used) (\<lambda>(state, used).
     sbind (claimSnapshot used 4) (\<lambda>used.
     sbind (canonicalPending (snapPendingKeyPackages s) used) (\<lambda>(pending, used).
     sbind (claimSnapshot used 4) (\<lambda>used.
     sbind (canonicalConsumed (snapConsumedKeyPackageRefs s) used) (\<lambda>(consumed, used).
     sbind (claimSnapshot used 4) (\<lambda>used.
     sbind (canonicalPendingRequests (snapPendingKeyPackageRequests s) used) (\<lambda>(requests, used).
     sbind (claimSnapshot used 4) (\<lambda>used.
     sbind (canonicalOutbox (snapOutbox s) used) (\<lambda>(outbox, used).
     sbind (claimSnapshot used 4) (\<lambda>used.
     sbind (canonicalReplay (snapReplay s) used) (\<lambda>(replay, used).
     sbind (claimSnapshot used 1) (\<lambda>used.
     sbind (canonicalFork (snapForkEvidence s) used) (\<lambda>(fork, used).
       Inr \<lparr>pcRevision = revision, pcState = state, pcPending = pending, pcRequests = requests, pcConsumed = consumed,
            pcOutbox = outbox, pcReplay = replay, pcFork = fork, pcUsed = used\<rparr>))))))))))))))))"

definition canonicalSnapshot ::
    "GroupStateStoreSnapshot \<Rightarrow> GroupStateStoreKey \<Rightarrow> commitment_error + bytes \<times> GroupStateStoreSnapshot" where
  "canonicalSnapshot s key =
     (case cloneGroupStateStoreKey key of
        Inl _ \<Rightarrow> Inl CommitmentSemantics
      | Inr stableKey \<Rightarrow>
          sbind (canonicalPieces s) (\<lambda>pc.
          sbind (boundedConcat (snapshotParts (pcRevision pc) (pcState pc) (pcPending pc) (pcRequests pc) (pcConsumed pc)
                   (pcOutbox pc) (pcReplay pc) (map_option snd (pcFork pc)))) (\<lambda>encoded.
          if int (length encoded) \<noteq> pcUsed pc then Inl CommitmentAccounting
          else
            sbind (deserializeOptional (pcState pc)) (\<lambda>encrypted.
            sbind (deserializeAll (pcPending pc)) (\<lambda>packages.
            let snapshot = \<lparr>snapRevision = pcRevision pc, snapEncryptedState = encrypted, snapPendingKeyPackages = packages,
                  snapPendingKeyPackageRequests = pcRequests pc, snapConsumedKeyPackageRefs = pcConsumed pc, snapOutbox = pcOutbox pc,
                  snapReplay = pcReplay pc, snapForkEvidence = map_option fst (pcFork pc)\<rparr>
            in case validateGroupStateStoreSnapshotSemantics snapshot stableKey of
                 Inl _ \<Rightarrow> Inl CommitmentSemantics
               | Inr _ \<Rightarrow> Inr (encoded, snapshot))))))"

definition validateAndCloneGroupStateStoreSnapshot ::
    "GroupStateStoreSnapshot \<Rightarrow> GroupStateStoreKey \<Rightarrow> commitment_error + GroupStateStoreSnapshot" where
  "validateAndCloneGroupStateStoreSnapshot s key = sbind (canonicalSnapshot s key) (\<lambda>(_, snapshot). Inr snapshot)"

definition canonicalGroupSecurityStoreSnapshot ::
    "GroupStateStoreSnapshot \<Rightarrow> GroupStateStoreKey \<Rightarrow> commitment_error + bytes" where
  "canonicalGroupSecurityStoreSnapshot s key = sbind (canonicalSnapshot s key) (\<lambda>(encoded, _). Inr encoded)"

definition groupSecurityStoreSnapshotCommitment ::
    "(bytes \<Rightarrow> bytes option) \<Rightarrow> GroupStateStoreSnapshot \<Rightarrow> GroupStateStoreKey \<Rightarrow> commitment_error + bytes" where
  "groupSecurityStoreSnapshotCommitment digest s key =
     sbind (canonicalGroupSecurityStoreSnapshot s key) (\<lambda>encoded.
     case digest encoded of None \<Rightarrow> Inl DigestUnavailable | Some h \<Rightarrow> Inr h)"

end
