(* ===== verification/Store_Binding.thy ===== *)
theory Store_Binding
  imports Store_Commitment
begin

text \<open>
  What the snapshot commitment binds: the encoding of a snapshot determines its content
  up to the order of its arrays, the byte budget is exactly the length written, and
  every state the group-state store commits can be committed to.
\<close>


section \<open>Entry codes\<close>

lemma concatParts_append:
  "concatParts (ps @ qs) = sbind (concatParts ps) (\<lambda>a. sbind (concatParts qs) (\<lambda>b. Inr (a @ b)))"
proof (induction ps)
  case Nil
  then show ?case by (cases "concatParts qs") simp_all
next
  case (Cons p ps)
  then show ?case by (cases p; cases "concatParts ps"; cases "concatParts qs") simp_all
qed

definition wires_of :: "('a \<Rightarrow> bytes) \<Rightarrow> 'a list \<Rightarrow> bytes" where
  "wires_of wire xs = bigEndian 4 (int (length xs)) @ concat (map wire xs)"

text \<open>
  The contract of an entry of the snapshot: its parts concatenate to a byte string that
  can be told apart from any other one at the head of a longer string.
\<close>

locale entry_code =
  fixes parts :: "'a \<Rightarrow> (envelope_error + bytes) list" and wire :: "'a \<Rightarrow> bytes" and ok :: "'a \<Rightarrow> bool"
  assumes parts_law: "ok x \<Longrightarrow> concatParts (parts x) = Inr (wire x)"
    and prefix_law: "ok x \<Longrightarrow> ok y \<Longrightarrow> wire x @ r = wire y @ s \<Longrightarrow> x = y \<and> r = s"
begin

lemma all_parts: "\<forall>x \<in> set xs. ok x \<Longrightarrow> concatParts (concat (map parts xs)) = Inr (concat (map wire xs))"
  by (induction xs) (simp_all add: parts_law concatParts_append)

lemma counted_parts: "\<forall>x \<in> set xs. ok x \<Longrightarrow> int (length xs) \<le> 65536 \<Longrightarrow> concatParts (countedParts parts xs) = Inr (wires_of wire xs)"
  by (simp add: countedParts_def u32_def wires_of_def all_parts)

lemma wires_prefix:
  assumes "\<forall>x \<in> set xs. ok x" "\<forall>y \<in> set ys. ok y" "int (length xs) \<le> 65536" "int (length ys) \<le> 65536"
    and "wires_of wire xs @ r = wires_of wire ys @ s"
  shows "xs = ys \<and> r = s"
proof -
  have "int (length xs) = int (length ys) \<and> concat (map wire xs) @ r = concat (map wire ys) @ s"
    using assms(3-) by (intro bigEndian_append [of 4]) (simp_all add: wires_of_def)
  then have "length xs = length ys" "concat (map wire xs) @ r = concat (map wire ys) @ s" by simp_all
  then show ?thesis using assms(1,2)
  proof (induction xs ys rule: list_induct2)
    case (Cons x xs y ys)
    have "x = y \<and> concat (map wire xs) @ r = concat (map wire ys) @ s"
      using Cons.prems by (intro prefix_law) simp_all
    then show ?case using Cons.IH Cons.prems(2,3) by simp
  qed simp
qed

end

lemma length_wires: "int (length (wires_of wire xs)) = 4 + sum_bytes (\<lambda>x. int (length (wire x))) xs"
  by (induction xs) (simp_all add: wires_of_def sum_bytes_def)

text \<open>An entry that is read from its array claims exactly the bytes of its code.\<close>

locale snapshot_entry = entry_code +
  fixes get :: "'a \<Rightarrow> int \<Rightarrow> commitment_error + 'a \<times> int"
  assumes get_law: "get x used = Inr (y, used') \<longleftrightarrow>
    ok x \<and> y = x \<and> used' = used + int (length (wire x)) \<and> used' \<le> MAX_CANONICAL_SNAPSHOT_BYTES"
begin

lemma each_law: "claimEach get xs used = Inr (ys, used') \<longleftrightarrow>
    (\<forall>x \<in> set xs. ok x) \<and> ys = xs \<and> used' = used + sum_bytes (\<lambda>x. int (length (wire x))) xs \<and>
    (xs = [] \<or> used' \<le> MAX_CANONICAL_SNAPSHOT_BYTES)"
proof (induction xs arbitrary: used ys)
  case (Cons x xs)
  have nn: "0 \<le> sum_bytes (\<lambda>x. int (length (wire x))) xs" by (rule sum_bytes_nonneg) simp
  have "claimEach get (x # xs) used = Inr (ys, used') \<longleftrightarrow> (\<exists>zs. ok x \<and> used + int (length (wire x)) \<le> MAX_CANONICAL_SNAPSHOT_BYTES \<and>
      claimEach get xs (used + int (length (wire x))) = Inr (zs, used') \<and> ys = x # zs)"
    by (auto simp: sbind_Inr_iff get_law)
  also have "\<dots> \<longleftrightarrow> (\<forall>x \<in> set (x # xs). ok x) \<and> ys = x # xs \<and>
      used' = used + sum_bytes (\<lambda>x. int (length (wire x))) (x # xs) \<and> used' \<le> MAX_CANONICAL_SNAPSHOT_BYTES"
    unfolding Cons.IH using nn by auto
  finally show ?case by simp
qed auto

end

section \<open>The five entries\<close>

definition request_ok :: "GroupStatePendingKeyPackageRequest \<Rightarrow> bool" where
  "request_ok r \<longleftrightarrow> length (requestOperationId r) = 32 \<and> length (requestCommitment r) = 32 \<and>
     1 \<le> length (requestReference r) \<and> length (requestReference r) \<le> 512"

definition consumed_ok :: "bytes \<Rightarrow> bool" where
  "consumed_ok b \<longleftrightarrow> 1 \<le> length b \<and> length b \<le> 512"

definition outbox_ok :: "GroupStateOutboxEntry \<Rightarrow> bool" where
  "outbox_ok e \<longleftrightarrow> canonicalIdentifier (outboxKind e) \<and> length (outboxId e) = 32 \<and> 1 \<le> length (outboxPayload e) \<and>
     int (length (outboxPayload e)) \<le> MAX_OUTBOX_PAYLOAD_BYTES \<and> 0 \<le> outboxEpoch e \<and> outboxEpoch e \<le> MAX_U64 \<and>
     0 \<le> outboxCreatedAt e \<and> outboxCreatedAt e \<le> MAX_SAFE_INTEGER"

definition replay_ok :: "GroupStateReplayEntry \<Rightarrow> bool" where
  "replay_ok e \<longleftrightarrow> length (replayRecordId e) = 32 \<and> (\<forall>b. replayOperationId e = Some b \<longrightarrow> length b = 32) \<and>
     1 \<le> length (replayControlRecord e) \<and> int (length (replayControlRecord e)) \<le> MAX_CONTROL_RECORD_BYTES \<and>
     0 \<le> replayEpoch e \<and> replayEpoch e \<le> MAX_U64"

definition fork_ok :: "GroupStateForkEvidence \<Rightarrow> bool" where
  "fork_ok f \<longleftrightarrow> length (forkParentRecordId f) = 32 \<and> length (forkFirstRecordId f) = 32 \<and> length (forkSecondRecordId f) = 32 \<and>
     1 \<le> length (forkFirstControlRecord f) \<and> int (length (forkFirstControlRecord f)) \<le> MAX_CONTROL_RECORD_BYTES \<and>
     1 \<le> length (forkSecondControlRecord f) \<and> int (length (forkSecondControlRecord f)) \<le> MAX_CONTROL_RECORD_BYTES \<and>
     0 \<le> forkEpoch f \<and> forkEpoch f \<le> MAX_U64 \<and> forkFirstRecordId f \<noteq> forkSecondRecordId f"

definition pending_ok :: "CanonicalPending \<Rightarrow> bool" where
  "pending_ok p \<longleftrightarrow> 1 \<le> length (cpReference p) \<and> length (cpReference p) \<le> 512 \<and> int (length (cpSerialized p)) \<le> MAX_ENCRYPTED_KEY_PACKAGE_BYTES"

lemma store_copies:
  "validateAndClonePendingKeyPackageRequest r = Inr r \<longleftrightarrow> request_ok r"
  "cloneKeyPackageReference b = Inr b \<longleftrightarrow> consumed_ok b"
  "validateAndCloneOutboxEntry e = Inr e \<longleftrightarrow> outbox_ok e"
  "validateAndCloneReplayEntry p = Inr p \<longleftrightarrow> replay_ok p"
  "validateAndCloneForkEvidence f = Inr f \<longleftrightarrow> fork_ok f"
proof -
  have len: "int (length b) \<le> 512 \<longleftrightarrow> length b \<le> 512" "(1::int) \<le> int (length b) \<longleftrightarrow> 1 \<le> length b"
    "int (length b) = 32 \<longleftrightarrow> length b = 32" "32 \<le> int (length b) \<and> int (length b) \<le> 32 \<longleftrightarrow> length b = 32" for b :: bytes by auto
  note d = sbind_Inr_iff cloneFixedId_def cloneKeyPackageReference_def cloneBytes_Inr GROUP_STATE_STORE_ID_LENGTH_def len
    MAX_KEY_PACKAGE_REFERENCE_BYTES_def checkU64_def require_def safe_nat_def
  show "validateAndClonePendingKeyPackageRequest r = Inr r \<longleftrightarrow> request_ok r"
    by (auto simp: validateAndClonePendingKeyPackageRequest_def request_ok_def d)
  show "cloneKeyPackageReference b = Inr b \<longleftrightarrow> consumed_ok b" by (auto simp: consumed_ok_def d)
  show "validateAndCloneOutboxEntry e = Inr e \<longleftrightarrow> outbox_ok e"
    by (auto simp: validateAndCloneOutboxEntry_def outbox_ok_def d split: if_splits)
  show "validateAndCloneReplayEntry p = Inr p \<longleftrightarrow> replay_ok p"
    by (auto simp: validateAndCloneReplayEntry_def cloneOptionalId_def replay_ok_def d split: if_splits option.splits)
  show "validateAndCloneForkEvidence f = Inr f \<longleftrightarrow> fork_ok f"
    by (auto simp: validateAndCloneForkEvidence_def fork_ok_def d split: if_splits)
qed

definition pendingWire :: "CanonicalPending \<Rightarrow> bytes" where
  "pendingWire p = counted 2 (cpReference p) @ counted 4 (cpSerialized p)"

definition requestWire :: "GroupStatePendingKeyPackageRequest \<Rightarrow> bytes" where
  "requestWire r = requestOperationId r @ requestCommitment r @ counted 2 (requestReference r)"

definition outboxWire :: "GroupStateOutboxEntry \<Rightarrow> bytes" where
  "outboxWire e = outboxId e @ counted 2 (ascii_of (outboxKind e)) @ bigEndian 8 (outboxEpoch e) @ bigEndian 8 (outboxCreatedAt e) @
     counted 4 (outboxPayload e)"

definition optionalWire :: "bytes option \<Rightarrow> bytes" where
  "optionalWire v = (case v of None \<Rightarrow> [0] | Some b \<Rightarrow> 1 # counted 4 b)"

definition replayWire :: "GroupStateReplayEntry \<Rightarrow> bytes" where
  "replayWire e = replayRecordId e @ optionalWire (replayOperationId e) @ bigEndian 8 (replayEpoch e) @ counted 4 (replayControlRecord e)"

definition forkWire :: "GroupStateForkEvidence \<Rightarrow> bytes" where
  "forkWire f = bigEndian 8 (forkEpoch f) @ forkParentRecordId f @ forkFirstRecordId f @ counted 4 (forkFirstControlRecord f) @
     forkSecondRecordId f @ counted 4 (forkSecondControlRecord f)"

lemma counted_append:
  assumes "counted w x @ r = counted w y @ s" "int (length x) < 2 ^ (w * 8)" "int (length y) < 2 ^ (w * 8)"
  shows "x = y \<and> r = s"
proof -
  have "int (length x) = int (length y) \<and> x @ r = y @ s" using assms by (intro bigEndian_append [of w]) (simp_all add: counted_def)
  then show ?thesis by auto
qed

lemma fixed_append: "x @ r = y @ s \<Longrightarrow> length x = n \<Longrightarrow> length y = n \<Longrightarrow> x = y \<and> r = s"
  by simp

lemma optional_append:
  assumes "optionalWire x @ r = optionalWire y @ s" "\<forall>b. x = Some b \<longrightarrow> int (length b) < 4294967296" "\<forall>b. y = Some b \<longrightarrow> int (length b) < 4294967296"
  shows "x = y \<and> r = s"
proof (cases x)
  case None
  then show ?thesis using assms(1) by (cases y) (simp_all add: optionalWire_def)
next
  case (Some a)
  then obtain b where b: "y = Some b" using assms(1) by (cases y) (simp_all add: optionalWire_def)
  have "counted 4 a @ r = counted 4 b @ s" using assms(1) Some b by (simp add: optionalWire_def)
  then have "a = b \<and> r = s" using assms(2,3) Some b by (intro counted_append [of 4]) simp_all
  then show ?thesis using Some b by simp
qed

lemma word64_append:
  assumes "bigEndian 8 m @ r = bigEndian 8 n @ s" "0 \<le> m" "m \<le> MAX_U64" "0 \<le> n" "n \<le> MAX_U64"
  shows "m = n \<and> r = s"
  using bigEndian_append [OF assms(1,2) _ assms(4)] assms(3,5) by (simp add: MAX_U64_def)

lemma ascii_of_inj: "canonicalIdentifier s \<Longrightarrow> canonicalIdentifier t \<Longrightarrow> ascii_of s = ascii_of t \<Longrightarrow> s = t"
  using identifier_printable(1) [of s] identifier_printable(1) [of t] decodeUtf8Bom_printable [of s "ascii_of s"] decodeUtf8Bom_printable [of t "ascii_of t"]
  by (metis option.inject)


interpretation pending_code: entry_code pendingParts pendingWire pending_ok
proof
  fix x assume "pending_ok x"
  then show "concatParts (pendingParts x) = Inr (pendingWire x)"
    by (simp add: pending_ok_def pendingParts_def pendingWire_def counted_def u16_def u32_def MAX_ENCRYPTED_KEY_PACKAGE_BYTES_def envelope_limits)
next
  fix x y r s
  assume a: "pending_ok x" "pending_ok y" "pendingWire x @ r = pendingWire y @ s"
  have l: "int (length (cpReference z)) < 2 ^ (2 * 8)" "int (length (cpSerialized z)) < 2 ^ (4 * 8)" if "pending_ok z" for z
    using that by (simp_all add: pending_ok_def MAX_ENCRYPTED_KEY_PACKAGE_BYTES_def envelope_limits)
  have "counted 2 (cpReference x) @ counted 4 (cpSerialized x) @ r = counted 2 (cpReference y) @ counted 4 (cpSerialized y) @ s"
    using a(3) by (simp add: pendingWire_def)
  note 1 = counted_append [OF this l(1) [OF a(1)] l(1) [OF a(2)]]
  note 2 = counted_append [OF conjunct2 [OF 1] l(2) [OF a(1)] l(2) [OF a(2)]]
  show "x = y \<and> r = s" using 1 2 by (auto intro: CanonicalPending.equality)
qed

lemma claim_Inr: "claimSnapshot used n = Inr used' \<longleftrightarrow> 0 \<le> n \<and> used' = used + n \<and> used' \<le> MAX_CANONICAL_SNAPSHOT_BYTES"
  by (auto simp: claimSnapshot_def claim_def)

lemma byteView_Inr: "byteView b lo hi = Inr c \<longleftrightarrow> c = b \<and> lo \<le> int (length b) \<and> int (length b) \<le> hi"
  by (auto simp: byteView_def)

lemmas reading = sbind_Inr_iff claim_Inr byteView_Inr boundedBytes_def FIXED_ID_BYTES_def MAX_KEY_PACKAGE_REFERENCE_BYTES_def

lemma snapshotRequest_law: "snapshotRequest x used = Inr (y, used') \<longleftrightarrow>
    request_ok x \<and> y = x \<and> used' = used + int (length (requestWire x)) \<and> used' \<le> MAX_CANONICAL_SNAPSHOT_BYTES"
  by (auto simp: snapshotRequest_def reading request_ok_def requestWire_def length_counted)

interpretation request_entry: snapshot_entry requestParts requestWire request_ok snapshotRequest
proof
  fix x assume "request_ok x"
  then show "concatParts (requestParts x) = Inr (requestWire x)"
    by (simp add: request_ok_def requestParts_def requestWire_def counted_def u16_def)
next
  fix x y r s
  assume a: "request_ok x" "request_ok y" "requestWire x @ r = requestWire y @ s"
  have "requestOperationId x @ requestCommitment x @ counted 2 (requestReference x) @ r =
      requestOperationId y @ requestCommitment y @ counted 2 (requestReference y) @ s" using a(3) by (simp add: requestWire_def)
  then have "requestOperationId x = requestOperationId y" "requestCommitment x = requestCommitment y"
    and t: "counted 2 (requestReference x) @ r = counted 2 (requestReference y) @ s"
    using a(1,2) by (simp_all add: request_ok_def)
  moreover have "requestReference x = requestReference y \<and> r = s"
    using a(1,2) by (intro counted_append [OF t]) (simp_all add: request_ok_def)
  ultimately show "x = y \<and> r = s" by (auto intro: GroupStatePendingKeyPackageRequest.equality)
next
  show "snapshotRequest x used = Inr (y, used') \<longleftrightarrow>
    request_ok x \<and> y = x \<and> used' = used + int (length (requestWire x)) \<and> used' \<le> MAX_CANONICAL_SNAPSHOT_BYTES" for x used y used'
    by (rule snapshotRequest_law)
qed

interpretation consumed_entry: snapshot_entry consumedParts "counted 2" consumed_ok "\<lambda>b used. boundedBytes b 1 MAX_KEY_PACKAGE_REFERENCE_BYTES used 2"
proof
  fix x assume "consumed_ok x"
  then show "concatParts (consumedParts x) = Inr (counted 2 x)" by (simp add: consumed_ok_def consumedParts_def counted_def u16_def)
next
  fix x y r s
  assume "consumed_ok x" "consumed_ok y" "counted 2 x @ r = counted 2 y @ s"
  then show "x = y \<and> r = s" by (intro counted_append [of 2]) (simp_all add: consumed_ok_def)
next
  show "boundedBytes x 1 MAX_KEY_PACKAGE_REFERENCE_BYTES used 2 = Inr (y, used') \<longleftrightarrow>
    consumed_ok x \<and> y = x \<and> used' = used + int (length (counted 2 x)) \<and> used' \<le> MAX_CANONICAL_SNAPSHOT_BYTES" for x used y used'
    by (auto simp: reading consumed_ok_def length_counted)
qed

lemma length_ascii [simp]: "length (ascii_of s) = length s"
  by (simp add: ascii_of_def)

lemma snapshotOutboxEntry_law: "snapshotOutboxEntry x used = Inr (y, used') \<longleftrightarrow>
    outbox_ok x \<and> y = x \<and> used' = used + int (length (outboxWire x)) \<and> used' \<le> MAX_CANONICAL_SNAPSHOT_BYTES"
  by (auto simp: snapshotOutboxEntry_def reading outbox_ok_def outboxWire_def length_counted u64Value_def safeInteger_def split: if_splits)

interpretation outbox_entry: snapshot_entry outboxParts outboxWire outbox_ok snapshotOutboxEntry
proof
  fix x assume x: "outbox_ok x"
  then have "encodeUtf8 (outboxKind x) = ascii_of (outboxKind x) \<and> length (ascii_of (outboxKind x)) \<le> 128"
    using identifier_bytes(1) [of "outboxKind x"] by (simp add: outbox_ok_def)
  then show "concatParts (outboxParts x) = Inr (outboxWire x)" using x
    by (simp add: outbox_ok_def outboxParts_def outboxWire_def counted_def u16_def u32_def u64_def validateU64_def require_def Let_def
        MAX_OUTBOX_PAYLOAD_BYTES_def envelope_limits)
next
  fix x y r s
  assume a: "outbox_ok x" "outbox_ok y" "outboxWire x @ r = outboxWire y @ s"
  have b: "length (outboxId z) = 32" "int (length (ascii_of (outboxKind z))) < 2 ^ (2 * 8)" "0 \<le> outboxEpoch z" "outboxEpoch z \<le> MAX_U64"
    "0 \<le> outboxCreatedAt z" "outboxCreatedAt z \<le> MAX_U64" "int (length (outboxPayload z)) < 2 ^ (4 * 8)" "canonicalIdentifier (outboxKind z)"
    if "outbox_ok z" for z
    using that identifier_bytes(1) [of "outboxKind z"] by (auto simp: outbox_ok_def MAX_OUTBOX_PAYLOAD_BYTES_def envelope_limits)
  note bx = b [OF a(1)] and b' = b [OF a(2)]
  have "outboxId x @ counted 2 (ascii_of (outboxKind x)) @ bigEndian 8 (outboxEpoch x) @ bigEndian 8 (outboxCreatedAt x) @
      counted 4 (outboxPayload x) @ r =
    outboxId y @ counted 2 (ascii_of (outboxKind y)) @ bigEndian 8 (outboxEpoch y) @ bigEndian 8 (outboxCreatedAt y) @
      counted 4 (outboxPayload y) @ s" using a(3) by (simp add: outboxWire_def)
  note 1 = fixed_append [OF this bx(1) b'(1)]
  note 2 = counted_append [OF conjunct2 [OF 1] bx(2) b'(2)]
  note 3 = word64_append [OF conjunct2 [OF 2] bx(3,4) b'(3,4)]
  note 4 = word64_append [OF conjunct2 [OF 3] bx(5,6) b'(5,6)]
  note 5 = counted_append [OF conjunct2 [OF 4] bx(7) b'(7)]
  have "outboxKind x = outboxKind y" using ascii_of_inj [OF bx(8) b'(8)] 2 by blast
  then show "x = y \<and> r = s" using 1 3 4 5 by (auto intro: GroupStateOutboxEntry.equality)
next
  show "snapshotOutboxEntry x used = Inr (y, used') \<longleftrightarrow>
    outbox_ok x \<and> y = x \<and> used' = used + int (length (outboxWire x)) \<and> used' \<le> MAX_CANONICAL_SNAPSHOT_BYTES" for x used y used'
    by (rule snapshotOutboxEntry_law)
qed

lemma optionalByteView_Inr: "optionalByteView v = Inr w \<longleftrightarrow> w = v \<and> (\<forall>b. v = Some b \<longrightarrow> length b = 32)"
  by (auto simp: optionalByteView_def reading split: option.splits)

lemma snapshotReplayEntry_law: "snapshotReplayEntry x used = Inr (y, used') \<longleftrightarrow>
    replay_ok x \<and> y = x \<and> used' = used + int (length (replayWire x)) \<and> used' \<le> MAX_CANONICAL_SNAPSHOT_BYTES"
  by (cases "replayOperationId x") (auto simp: snapshotReplayEntry_def reading optionalByteView_Inr replay_ok_def replayWire_def optionalWire_def length_counted
      u64Value_def split: if_splits)

interpretation replay_entry: snapshot_entry replayParts replayWire replay_ok snapshotReplayEntry
proof
  fix x assume "replay_ok x"
  then show "concatParts (replayParts x) = Inr (replayWire x)"
    by (auto simp: replay_ok_def replayParts_def replayWire_def optionalWire_def counted_def u32_def u64_def validateU64_def require_def
        MAX_CONTROL_RECORD_BYTES_def envelope_limits split: option.splits)
next
  fix x y r s
  assume a: "replay_ok x" "replay_ok y" "replayWire x @ r = replayWire y @ s"
  have b: "length (replayRecordId z) = 32" "\<forall>b. replayOperationId z = Some b \<longrightarrow> int (length b) < 4294967296" "0 \<le> replayEpoch z"
    "replayEpoch z \<le> MAX_U64" "int (length (replayControlRecord z)) < 2 ^ (4 * 8)" if "replay_ok z" for z
    using that by (auto simp: replay_ok_def MAX_CONTROL_RECORD_BYTES_def)
  note bx = b [OF a(1)] and b' = b [OF a(2)]
  have "replayRecordId x @ optionalWire (replayOperationId x) @ bigEndian 8 (replayEpoch x) @ counted 4 (replayControlRecord x) @ r =
    replayRecordId y @ optionalWire (replayOperationId y) @ bigEndian 8 (replayEpoch y) @ counted 4 (replayControlRecord y) @ s"
    using a(3) by (simp add: replayWire_def)
  note 1 = fixed_append [OF this bx(1) b'(1)]
  note 2 = optional_append [OF conjunct2 [OF 1] bx(2) b'(2)]
  note 3 = word64_append [OF conjunct2 [OF 2] bx(3,4) b'(3,4)]
  note 4 = counted_append [OF conjunct2 [OF 3] bx(5) b'(5)]
  show "x = y \<and> r = s" using 1 2 3 4 by (auto intro: GroupStateReplayEntry.equality)
next
  show "snapshotReplayEntry x used = Inr (y, used') \<longleftrightarrow>
    replay_ok x \<and> y = x \<and> used' = used + int (length (replayWire x)) \<and> used' \<le> MAX_CANONICAL_SNAPSHOT_BYTES" for x used y used'
    by (rule snapshotReplayEntry_law)
qed

section \<open>State, packages and fork evidence\<close>

definition stateWire :: "EncryptedGroupState \<Rightarrow> bytes" where
  "stateWire e = (case serializeGroupState e of Inr b \<Rightarrow> b | Inl _ \<Rightarrow> [])"

definition packageWire :: "EncryptedKeyPackageState \<Rightarrow> bytes" where
  "packageWire e = (case serializeKeyPackage e of Inr b \<Rightarrow> b | Inl _ \<Rightarrow> [])"

lemma stateWire_ok:
  assumes "group_state_ok e"
  shows "serializeGroupState e = Inr (stateWire e)" "deserializeGroupState (stateWire e) = Inr e"
    "1 \<le> length (stateWire e)" "int (length (stateWire e)) \<le> MAX_ENCRYPTED_STATE_BYTES"
proof -
  obtain b where b: "serializeGroupState e = Inr b" "deserializeGroupState b = Inr e" using groupState_roundtrip [OF assms] by blast
  then show s: "serializeGroupState e = Inr (stateWire e)" "deserializeGroupState (stateWire e) = Inr e" by (simp_all add: stateWire_def)
  show "1 \<le> length (stateWire e)" using groupStateWire_length [OF assms s(1)] by simp
  show "int (length (stateWire e)) \<le> MAX_ENCRYPTED_STATE_BYTES" using s(2)
    by (simp add: deserializeGroupState_Inr MAX_ENCRYPTED_STATE_BYTES_def MAX_ENCRYPTED_GROUP_STATE_SERIALIZED_BYTES_def)
qed

lemma packageWire_ok:
  assumes "key_package_ok e"
  shows "serializeKeyPackage e = Inr (packageWire e)" "deserializeKeyPackage (packageWire e) = Inr e"
    "1 \<le> length (packageWire e)" "int (length (packageWire e)) \<le> MAX_ENCRYPTED_KEY_PACKAGE_BYTES"
proof -
  obtain b where b: "serializeKeyPackage e = Inr b" "deserializeKeyPackage b = Inr e" using keyPackage_roundtrip [OF assms] by blast
  then show s: "serializeKeyPackage e = Inr (packageWire e)" "deserializeKeyPackage (packageWire e) = Inr e" by (simp_all add: packageWire_def)
  show "1 \<le> length (packageWire e)" using keyPackageWire_length [OF assms s(1)] by simp
  show "int (length (packageWire e)) \<le> MAX_ENCRYPTED_KEY_PACKAGE_BYTES" using s(2)
    by (simp add: deserializeKeyPackage_Inr MAX_ENCRYPTED_KEY_PACKAGE_BYTES_def MAX_ENCRYPTED_KEY_PACKAGE_STATE_SERIALIZED_BYTES_def)
qed

lemma commitment_part_Inr [simp]: "commitment_part r = Inr x \<longleftrightarrow> r = Inr x"
  by (auto simp: commitment_part_def split: sum.splits)

lemma canonicalEncryptedGroupState_law: "canonicalEncryptedGroupState e used = Inr (b, used') \<longleftrightarrow>
    group_state_ok e \<and> b = stateWire e \<and> used' = used + 4 + int (length (stateWire e)) \<and> used' \<le> MAX_CANONICAL_SNAPSHOT_BYTES"
proof (cases "group_state_ok e")
  case True
  note w = stateWire_ok [OF True]
  show ?thesis using True w(3,4)
    by (auto simp: canonicalEncryptedGroupState_def reading isEncryptedGroupState_def require_def w(1,2))
qed (simp add: canonicalEncryptedGroupState_def isEncryptedGroupState_def require_def)

lemma canonicalEncryptedKeyPackageState_law: "canonicalEncryptedKeyPackageState e used p = Inr (s, b, used', p') \<longleftrightarrow>
    key_package_ok e \<and> s = e \<and> b = packageWire e \<and> used' = used + 4 + int (length (packageWire e)) \<and>
    used' \<le> MAX_CANONICAL_SNAPSHOT_BYTES \<and> p' = p + int (length (packageWire e)) \<and> p' \<le> MAX_PENDING_TOTAL_BYTES"
proof (cases "key_package_ok e")
  case True
  note w = packageWire_ok [OF True]
  show ?thesis using True w(3,4)
    by (auto simp: canonicalEncryptedKeyPackageState_def reading claim_def isEncryptedKeyPackageState_def require_def w(1,2))
qed (simp add: canonicalEncryptedKeyPackageState_def isEncryptedKeyPackageState_def require_def)

definition pend :: "EncryptedKeyPackageState \<Rightarrow> CanonicalPending" where
  "pend e = \<lparr>cpReference = packageReference e, cpSerialized = packageWire e\<rparr>"

lemma package_reference_size:
  "key_package_ok e \<Longrightarrow> 1 \<le> int (length (packageReference e)) \<and> int (length (packageReference e)) \<le> 512"
  by (auto simp: key_package_ok_def packageReference_def validateKeyPackage_Inr envelope_limits Suc_le_eq)

lemma pend_ok: "key_package_ok e \<Longrightarrow> pending_ok (pend e)"
  using package_reference_size [of e] packageWire_ok(4) [of e] by (simp add: pending_ok_def pend_def)

lemma canonicalPending_loop_law: "canonicalPending_loop es used p = Inr (ps, used') \<longleftrightarrow>
    (\<forall>e \<in> set es. key_package_ok e) \<and> ps = map pend es \<and> used' = used + sum_bytes (\<lambda>e. int (length (pendingWire (pend e)))) es \<and>
    (es = [] \<or> used' \<le> MAX_CANONICAL_SNAPSHOT_BYTES \<and> p + sum_bytes (\<lambda>e. int (length (packageWire e))) es \<le> MAX_PENDING_TOTAL_BYTES)"
proof (induction es arbitrary: used p ps)
  case (Cons e es)
  let ?a = "int (length (packageWire e))" and ?b = "int (length (packageReference e))"
  have nn: "0 \<le> sum_bytes (\<lambda>e. int (length (pendingWire (pend e)))) es" "0 \<le> sum_bytes (\<lambda>e. int (length (packageWire e))) es"
    by (rule sum_bytes_nonneg, simp)+
  have len: "int (length (pendingWire (pend e))) = 6 + ?a + ?b" by (simp add: pendingWire_def pend_def length_counted)
  have "canonicalPending_loop (e # es) used p = Inr (ps, used') \<longleftrightarrow>
      key_package_ok e \<and> used + 6 + ?a + ?b \<le> MAX_CANONICAL_SNAPSHOT_BYTES \<and> p + ?a \<le> MAX_PENDING_TOTAL_BYTES \<and>
      (\<exists>qs. canonicalPending_loop es (used + 6 + ?a + ?b) (p + ?a) = Inr (qs, used') \<and> ps = pend e # qs)"
    using package_reference_size [of e]
    by (auto simp: sbind_Inr_iff canonicalEncryptedKeyPackageState_law reading pend_def algebra_simps)
  also have "\<dots> \<longleftrightarrow> (\<forall>x \<in> set (e # es). key_package_ok x) \<and> ps = map pend (e # es) \<and>
      used' = used + sum_bytes (\<lambda>e. int (length (pendingWire (pend e)))) (e # es) \<and>
      used' \<le> MAX_CANONICAL_SNAPSHOT_BYTES \<and> p + sum_bytes (\<lambda>e. int (length (packageWire e))) (e # es) \<le> MAX_PENDING_TOTAL_BYTES"
    unfolding Cons.IH using nn len by (auto simp: algebra_simps)
  finally show ?case by simp
qed auto

lemma canonicalPending_law: "canonicalPending es used = Inr (ps, used') \<longleftrightarrow>
    int (length es) \<le> MAX_PENDING_ENTRIES \<and> (\<forall>e \<in> set es. key_package_ok e) \<and> ps = sortByBytes cpReference (map pend es) \<and>
    used' = used + sum_bytes (\<lambda>e. int (length (pendingWire (pend e)))) es \<and> (es = [] \<or> used' \<le> MAX_CANONICAL_SNAPSHOT_BYTES) \<and>
    sum_bytes (\<lambda>e. int (length (packageWire e))) es \<le> MAX_PENDING_TOTAL_BYTES"
  by (cases "es = []") (auto simp: canonicalPending_def strictArray_def sbind_Inr_iff canonicalPending_loop_law MAX_PENDING_TOTAL_BYTES_def)

lemma canonicalArrays_law:
  "canonicalPendingRequests rs used = Inr (rs', used') \<longleftrightarrow>
      int (length rs) \<le> MAX_PENDING_ENTRIES \<and> (\<forall>r \<in> set rs. request_ok r) \<and> rs' = sortByBytes requestOperationId rs \<and>
      used' = used + sum_bytes (\<lambda>r. int (length (requestWire r))) rs \<and> (rs = [] \<or> used' \<le> MAX_CANONICAL_SNAPSHOT_BYTES)"
  "canonicalConsumed bs used = Inr (bs', used') \<longleftrightarrow>
      int (length bs) \<le> MAX_CONSUMED_ENTRIES \<and> (\<forall>b \<in> set bs. consumed_ok b) \<and> bs' = sortByBytes (\<lambda>b. b) bs \<and>
      used' = used + sum_bytes (\<lambda>b. int (length (counted 2 b))) bs \<and> (bs = [] \<or> used' \<le> MAX_CANONICAL_SNAPSHOT_BYTES)"
  "canonicalOutbox os used = Inr (os', used') \<longleftrightarrow>
      int (length os) \<le> MAX_ENTRIES \<and> (\<forall>x \<in> set os. outbox_ok x) \<and> os' = sortByBytes outboxId os \<and>
      used' = used + sum_bytes (\<lambda>x. int (length (outboxWire x))) os \<and> (os = [] \<or> used' \<le> MAX_CANONICAL_SNAPSHOT_BYTES)"
  "canonicalReplay ps used = Inr (ps', used') \<longleftrightarrow>
      int (length ps) \<le> MAX_ENTRIES \<and> (\<forall>x \<in> set ps. replay_ok x) \<and> ps' = sortByBytes replayRecordId ps \<and>
      used' = used + sum_bytes (\<lambda>x. int (length (replayWire x))) ps \<and> (ps = [] \<or> used' \<le> MAX_CANONICAL_SNAPSHOT_BYTES)"
  by (auto simp: canonicalPendingRequests_def canonicalConsumed_def canonicalOutbox_def canonicalReplay_def strictArray_def sbind_Inr_iff
      request_entry.each_law consumed_entry.each_law outbox_entry.each_law replay_entry.each_law)

lemma forkWire_law: "fork_ok f \<Longrightarrow> encodeFork f = Inr (forkWire f)"
  by (simp add: encodeFork_def forkWire_def fork_ok_def u64_def validateU64_def require_def bytes32_ok MAX_CONTROL_RECORD_BYTES_def)

lemma orderedFork_ok: "fork_ok (orderedFork f) = fork_ok f" "forkEpoch (orderedFork f) = forkEpoch f"
  by (auto simp: orderedFork_def fork_ok_def)

lemma length_forkWire: "fork_ok f \<Longrightarrow> int (length (forkWire (orderedFork f))) =
    8 + 32 + 32 + 4 + int (length (forkFirstControlRecord f)) + 32 + 4 + int (length (forkSecondControlRecord f))"
  by (auto simp: forkWire_def orderedFork_def fork_ok_def length_counted)

lemma canonicalFork_law: "canonicalFork v used = Inr (w, used') \<longleftrightarrow>
    (case v of
       None \<Rightarrow> w = None \<and> used' = used
     | Some f \<Rightarrow> fork_ok f \<and> w = Some (orderedFork f, forkWire (orderedFork f)) \<and>
         used' = used + 4 + int (length (forkWire (orderedFork f))) \<and> used' \<le> MAX_CANONICAL_SNAPSHOT_BYTES)"
proof (cases v)
  case (Some f)
  show ?thesis
  proof (cases "fork_ok f")
    case True
    have e: "encodeFork (orderedFork f) = Inr (forkWire (orderedFork f))" using True by (simp add: forkWire_law orderedFork_ok)
    have c: "\<lparr>forkEpoch = forkEpoch f, forkParentRecordId = forkParentRecordId f, forkFirstRecordId = forkFirstRecordId f,
        forkFirstControlRecord = forkFirstControlRecord f, forkSecondRecordId = forkSecondRecordId f,
        forkSecondControlRecord = forkSecondControlRecord f\<rparr> = f" by simp
    show ?thesis using True Some length_forkWire [OF True] e
      by (auto simp: canonicalFork_def reading Let_def u64Value_def fork_ok_def c)
  next
    case False
    then have "\<not> canonicalFork (Some f) used = Inr (w, used')"
      by (auto simp: canonicalFork_def reading Let_def u64Value_def fork_ok_def split: if_splits)
    then show ?thesis using Some False by simp
  qed
qed (auto simp: canonicalFork_def)


section \<open>Sorting\<close>

lemma compareBytes_refl [simp]: "compareBytes a a = 0"
  by (induction a) simp_all

lemma compareBytes_antisym: "compareBytes a b \<le> 0 \<Longrightarrow> compareBytes b a \<le> 0 \<Longrightarrow> a = b"
proof (induction a b rule: compareBytes.induct)
  case (1 a as b bs)
  then show ?case by (auto simp: word_uint_eq_iff split: if_splits)
qed auto

lemma compareBytes_total: "compareBytes a b \<le> 0 \<or> compareBytes b a \<le> 0"
proof (induction a b rule: compareBytes.induct)
  case (1 a as b bs)
  then show ?case by (auto split: if_splits)
qed auto

lemma compareBytes_Nil: "compareBytes [] c \<le> 0"
  by (cases c) simp_all

lemma compareBytes_trans: "compareBytes a b \<le> 0 \<Longrightarrow> compareBytes b c \<le> 0 \<Longrightarrow> compareBytes a c \<le> 0"
proof (induction a b arbitrary: c rule: compareBytes.induct)
  case (1 a as b bs)
  show ?case
  proof (cases c)
    case Nil
    then show ?thesis using "1.prems"(2) by simp
  next
    case (Cons x xs)
    have le: "uint a \<le> uint b" "uint b \<le> uint x" using "1.prems" Cons by (auto split: if_splits)
    show ?thesis
    proof (cases "a = b \<and> b = x")
      case True
      then show ?thesis using 1 Cons by simp
    next
      case False
      then have "uint a < uint x" using le by (metis order_le_imp_less_or_eq order_le_less_trans order_less_le_trans word_uint_eq_iff)
      then show ?thesis using Cons by auto
    qed
  qed
qed (simp_all add: compareBytes_Nil)

definition by_bytes :: "('a \<Rightarrow> bytes) \<Rightarrow> 'a \<Rightarrow> 'a \<Rightarrow> bool" where
  "by_bytes key x y \<longleftrightarrow> compareBytes (key x) (key y) \<le> 0"

lemma mset_insertSorted: "mset (insertSorted key x xs) = add_mset x (mset xs)"
  by (induction xs) simp_all

lemma mset_sortByBytes [simp]: "mset (sortByBytes key xs) = mset xs"
  by (induction xs) (simp_all add: mset_insertSorted)

lemma set_sortByBytes [simp]: "set (sortByBytes key xs) = set xs"
  by (rule mset_eq_setD) simp

lemma length_sortByBytes [simp]: "length (sortByBytes key xs) = length xs"
  using mset_eq_length [OF mset_sortByBytes] .

lemma set_insertSorted: "set (insertSorted key x xs) = insert x (set xs)"
  by (induction xs) auto

lemma sorted_insert: "sorted_wrt (by_bytes key) xs \<Longrightarrow> sorted_wrt (by_bytes key) (insertSorted key x xs)"
proof (induction xs)
  case (Cons y ys)
  show ?case
  proof (cases "compareBytes (key x) (key y) \<le> 0")
    case True
    then show ?thesis using Cons.prems by (auto simp: by_bytes_def intro: compareBytes_trans)
  next
    case False
    then have "by_bytes key y x" using compareBytes_total [of "key x" "key y"] by (simp add: by_bytes_def)
    then show ?thesis using False Cons by (simp add: set_insertSorted)
  qed
qed simp

lemma sorted_sortByBytes: "sorted_wrt (by_bytes key) (sortByBytes key xs)"
  by (induction xs) (simp_all add: sorted_insert)

lemma sorted_unique:
  assumes "sorted_wrt (by_bytes key) xs" "sorted_wrt (by_bytes key) ys" "mset xs = mset ys" "distinct (map key xs)"
  shows "xs = ys"
  using assms
proof (induction xs arbitrary: ys)
  case (Cons x xs)
  obtain y ys' where ys: "ys = y # ys'" using Cons.prems(3) by (cases ys) auto
  have mem: "y \<in> set (x # xs)" "x \<in> set (y # ys')" using mset_eq_setD [OF Cons.prems(3)] ys by auto
  have "key x = key y"
  proof (cases "x = y")
    case False
    then have "by_bytes key x y" "by_bytes key y x" using mem Cons.prems(1,2) ys by auto
    then show ?thesis by (auto simp: by_bytes_def intro: compareBytes_antisym)
  qed simp
  then have xy: "x = y" using mem(1) Cons.prems(4) by auto
  then have "xs = ys'" using Cons.prems ys by (intro Cons.IH) simp_all
  then show ?case using ys xy by simp
qed simp

lemma sortByBytes_cong: "mset xs = mset ys \<Longrightarrow> distinct (map key xs) \<Longrightarrow> sortByBytes key xs = sortByBytes key ys"
  using sorted_unique [OF sorted_sortByBytes [of key xs] sorted_sortByBytes [of key ys]]
  by (metis mset_eq_imp_distinct_iff mset_map mset_sortByBytes)

section \<open>Validation does not depend on the order\<close>

definition package_fits :: "GroupStateStoreKey \<Rightarrow> EncryptedKeyPackageState \<Rightarrow> bool" where
  "package_fits key p \<longleftrightarrow> validateAndCloneEncryptedKeyPackageState p key = Inr p"

abbreviation package_id :: "EncryptedKeyPackageState \<Rightarrow> string" where
  "package_id p \<equiv> hex_bytes (packageReference p)"

lemma package_validates: "key_package_ok p \<Longrightarrow> validateAndCloneEncryptedKeyPackageState p key = Inr v \<longleftrightarrow> v = p \<and> package_fits key p"
  unfolding package_fits_def using cloneEncryptedKeyPackageState_ok [of p]
  by (auto simp: validateAndCloneEncryptedKeyPackageState_def sbind_Inr_iff split: if_splits)

lemma snapshotPending_iff: "\<forall>p \<in> set ps. key_package_ok p \<Longrightarrow> snapshotPending key seen ps = Inr out \<longleftrightarrow>
    (\<forall>p \<in> set ps. package_fits key p) \<and> distinct (map package_id ps) \<and> set (map package_id ps) \<inter> set seen = {} \<and>
    out = rev (map package_id ps) @ seen"
proof (induction ps arbitrary: seen)
  case (Cons p ps)
  have "snapshotPending key seen (p # ps) = Inr out \<longleftrightarrow>
      package_fits key p \<and> package_id p \<notin> set seen \<and> snapshotPending key (package_id p # seen) ps = Inr out"
    using Cons.prems by (auto simp: sbind_Inr_iff package_validates Let_def)
  also have "\<dots> \<longleftrightarrow> (\<forall>q \<in> set (p # ps). package_fits key q) \<and> distinct (map package_id (p # ps)) \<and>
      set (map package_id (p # ps)) \<inter> set seen = {} \<and> out = rev (map package_id (p # ps)) @ seen"
    using Cons.IH [of "package_id p # seen"] Cons.prems by auto
  finally show ?case .
qed auto

lemma copy_iff:
  "validateAndClonePendingKeyPackageRequest r = Inr r' \<longleftrightarrow> r' = r \<and> request_ok r"
  "cloneKeyPackageReference b = Inr b' \<longleftrightarrow> b' = b \<and> consumed_ok b"
  "validateAndCloneOutboxEntry e = Inr e' \<longleftrightarrow> e' = e \<and> outbox_ok e"
  "validateAndCloneReplayEntry p = Inr p' \<longleftrightarrow> p' = p \<and> replay_ok p"
  "validateAndCloneForkEvidence f = Inr f' \<longleftrightarrow> f' = f \<and> fork_ok f"
  using clone_values store_copies by metis+

lemma distinct_map_Cons: "distinct (map f (x # xs)) \<longleftrightarrow> (\<forall>y \<in> set xs. f y \<noteq> f x) \<and> distinct (map f xs)"
  by (auto simp: image_iff)

lemma snapshotRequests_iff: "snapshotRequests pending ops reqs qs = Inr out \<longleftrightarrow>
    (\<forall>q \<in> set qs. request_ok q \<and> hex_bytes (requestReference q) \<in> set pending) \<and>
    distinct (map requestOperationId qs) \<and> (\<forall>q \<in> set qs. hex_bytes (requestOperationId q) \<notin> set ops) \<and>
    distinct (map requestReference qs) \<and> (\<forall>q \<in> set qs. hex_bytes (requestReference q) \<notin> set reqs) \<and>
    out = rev (map (\<lambda>q. hex_bytes (requestReference q)) qs) @ reqs"
proof (induction qs arbitrary: ops reqs)
  case (Cons q qs)
  have step: "snapshotRequests pending ops reqs (q # qs) = Inr out \<longleftrightarrow>
      request_ok q \<and> hex_bytes (requestOperationId q) \<notin> set ops \<and> hex_bytes (requestReference q) \<in> set pending \<and>
      hex_bytes (requestReference q) \<notin> set reqs \<and>
      snapshotRequests pending (hex_bytes (requestOperationId q) # ops) (hex_bytes (requestReference q) # reqs) qs = Inr out"
    by (auto simp: sbind_Inr_iff copy_iff Let_def)
  show ?case unfolding step Cons.IH distinct_map_Cons by auto
qed auto

lemma snapshotConsumed_iff: "snapshotConsumed pending seen bs = Inr out \<longleftrightarrow>
    (\<forall>b \<in> set bs. consumed_ok b \<and> hex_bytes b \<notin> set pending \<and> hex_bytes b \<notin> set seen) \<and> distinct bs \<and>
    out = rev (map hex_bytes bs) @ seen"
proof (induction bs arbitrary: seen)
  case (Cons b bs)
  have step: "snapshotConsumed pending seen (b # bs) = Inr out \<longleftrightarrow>
      consumed_ok b \<and> hex_bytes b \<notin> set seen \<and> hex_bytes b \<notin> set pending \<and> snapshotConsumed pending (hex_bytes b # seen) bs = Inr out"
    by (auto simp: sbind_Inr_iff copy_iff Let_def)
  show ?case unfolding step Cons.IH distinct_map_Cons by auto
qed auto

definition not_after :: "int option \<Rightarrow> int \<Rightarrow> bool" where
  "not_after ep n \<longleftrightarrow> (case ep of None \<Rightarrow> True | Some m \<Rightarrow> n \<le> m)"

lemma snapshotOutbox_iff: "snapshotOutbox ep seen es = Inr out \<longleftrightarrow>
    (\<forall>e \<in> set es. outbox_ok e \<and> not_after ep (outboxEpoch e) \<and> hex_bytes (outboxId e) \<notin> set seen) \<and> distinct (map outboxId es) \<and>
    out = rev (map (\<lambda>e. hex_bytes (outboxId e)) es) @ seen"
proof (induction es arbitrary: seen)
  case (Cons e es)
  have step: "snapshotOutbox ep seen (e # es) = Inr out \<longleftrightarrow>
      outbox_ok e \<and> hex_bytes (outboxId e) \<notin> set seen \<and> not_after ep (outboxEpoch e) \<and> snapshotOutbox ep (hex_bytes (outboxId e) # seen) es = Inr out"
    by (cases ep) (auto simp: sbind_Inr_iff copy_iff Let_def not_after_def)
  show ?case unfolding step Cons.IH distinct_map_Cons by auto
qed auto

definition replay_ops :: "GroupStateReplayEntry \<Rightarrow> string list" where
  "replay_ops e = map hex_bytes (opt_to_list (replayOperationId e))"

lemma distinct_replay_ops [simp]: "distinct (replay_ops e)"
  by (cases "replayOperationId e") (simp_all add: replay_ops_def)

lemma snapshotReplay_iff: "snapshotReplay ep seen ops es = Inr out \<longleftrightarrow>
    (\<forall>e \<in> set es. replay_ok e \<and> not_after ep (replayEpoch e) \<and> hex_bytes (replayRecordId e) \<notin> set seen) \<and> distinct (map replayRecordId es) \<and>
    distinct (concat (map replay_ops es)) \<and> set (concat (map replay_ops es)) \<inter> set ops = {} \<and>
    out = rev (map (\<lambda>e. hex_bytes (replayRecordId e)) es) @ seen"
proof (induction es arbitrary: seen ops)
  case (Cons e es)
  have step: "snapshotReplay ep seen ops (e # es) = Inr out \<longleftrightarrow>
      replay_ok e \<and> hex_bytes (replayRecordId e) \<notin> set seen \<and> set (replay_ops e) \<inter> set ops = {} \<and> not_after ep (replayEpoch e) \<and>
      snapshotReplay ep (hex_bytes (replayRecordId e) # seen) (replay_ops e @ ops) es = Inr out"
    by (cases ep) (auto simp: sbind_Inr_iff copy_iff Let_def not_after_def replay_ops_def)
  show ?case unfolding step Cons.IH distinct_map_Cons by auto
qed auto

lemma state_validates: "group_state_ok e \<Longrightarrow> validateAndCloneEncryptedGroupState e key = Inr v \<longleftrightarrow>
    v = e \<and> validateAndCloneEncryptedGroupState e key = Inr e"
  using cloneEncryptedState_ok [of e] by (auto simp: validateAndCloneEncryptedGroupState_def sbind_Inr_iff split: if_splits)

definition snapshot_valid :: "GroupStateStoreSnapshot \<Rightarrow> GroupStateStoreKey \<Rightarrow> bool" where
  "snapshot_valid s key \<longleftrightarrow>
     (let ep = map_option (\<lambda>e. stateEpoch (egsState e)) (snapEncryptedState s); pending = snapPendingKeyPackages s;
          requests = snapPendingKeyPackageRequests s; consumed = snapConsumedKeyPackageRefs s; outbox = snapOutbox s; replay = snapReplay s
      in (\<forall>e. snapEncryptedState s = Some e \<longrightarrow> validateAndCloneEncryptedGroupState e key = Inr e) \<and>
         int (length pending) \<le> 32 \<and> int (length requests) \<le> 32 \<and> int (length consumed) \<le> 4096 \<and> int (length outbox) \<le> 65536 \<and>
         int (length replay) \<le> 65536 \<and>
         (\<forall>p \<in> set pending. package_fits key p) \<and> distinct (map packageReference pending) \<and>
         (\<forall>q \<in> set requests. request_ok q) \<and> distinct (map requestOperationId requests) \<and> distinct (map requestReference requests) \<and>
         requestReference ` set requests = packageReference ` set pending \<and>
         (\<forall>b \<in> set consumed. consumed_ok b \<and> b \<notin> packageReference ` set pending) \<and> distinct consumed \<and>
         (\<forall>e \<in> set outbox. outbox_ok e \<and> not_after ep (outboxEpoch e)) \<and> distinct (map outboxId outbox) \<and>
         (\<forall>e \<in> set replay. replay_ok e \<and> not_after ep (replayEpoch e)) \<and> distinct (map replayRecordId replay) \<and>
         distinct (concat (map replay_ops replay)) \<and>
         (\<forall>f. snapForkEvidence s = Some f \<longrightarrow> fork_ok f) \<and>
         (case ep of
            None \<Rightarrow> consumed = [] \<and> outbox = [] \<and> replay = [] \<and> snapForkEvidence s = None
          | Some n \<Rightarrow> \<forall>f. snapForkEvidence s = Some f \<longrightarrow> forkEpoch f \<le> n))"

lemma distinct_same_length:
  assumes "distinct (map f xs)" "distinct (map g ys)" "f ` set xs = g ` set ys"
  shows "length xs = length ys"
proof -
  have "length xs = card (f ` set xs)" using distinct_card [OF assms(1)] by simp
  also have "\<dots> = length ys" using distinct_card [OF assms(2)] assms(3) by simp
  finally show ?thesis .
qed

lemma bindings_iff:
  assumes "distinct (map packageReference ps)" "distinct (map requestReference qs)"
  shows "(\<forall>q \<in> set qs. hex_bytes (requestReference q) \<in> package_id ` set ps) \<and>
      \<not> (length qs \<noteq> length ps \<or> (\<exists>r \<in> package_id ` set ps. r \<notin> (\<lambda>q. hex_bytes (requestReference q)) ` set qs)) \<longleftrightarrow>
    requestReference ` set qs = packageReference ` set ps"
proof -
  have 1: "(\<forall>q \<in> set qs. hex_bytes (requestReference q) \<in> package_id ` set ps) \<longleftrightarrow> requestReference ` set qs \<subseteq> packageReference ` set ps" by auto
  have 2: "(\<exists>r \<in> package_id ` set ps. r \<notin> (\<lambda>q. hex_bytes (requestReference q)) ` set qs) \<longleftrightarrow>
      \<not> packageReference ` set ps \<subseteq> requestReference ` set qs" by (auto simp: image_iff)
  have 3: "requestReference ` set qs = packageReference ` set ps \<Longrightarrow> length qs = length ps"
    using distinct_same_length [OF assms(2,1)] by simp
  show ?thesis unfolding 1 2 using 3 by auto
qed

lemma semantics_iff:
  assumes key: "cloneGroupStateStoreKey key = Inr key"
    and ok: "\<forall>p \<in> set (snapPendingKeyPackages s). key_package_ok p" "\<forall>e. snapEncryptedState s = Some e \<longrightarrow> group_state_ok e"
  shows "validateGroupStateStoreSnapshotSemantics s key = Inr () \<longleftrightarrow> snapshot_valid s key"
proof -
  let ?ps = "snapPendingKeyPackages s" and ?qs = "snapPendingKeyPackageRequests s" and ?bs = "snapConsumedKeyPackageRefs s"
  let ?ep = "map_option (\<lambda>e. stateEpoch (egsState e)) (snapEncryptedState s)"
  let ?fits = "\<forall>e. snapEncryptedState s = Some e \<longrightarrow> validateAndCloneEncryptedGroupState e key = Inr e"
  have st: "cloneOption (\<lambda>e. validateAndCloneEncryptedGroupState e key) (snapEncryptedState s) = Inr v \<longleftrightarrow> v = snapEncryptedState s \<and> ?fits" for v
  proof (cases "snapEncryptedState s")
    case (Some e)
    show ?thesis
    proof (cases "validateAndCloneEncryptedGroupState e key")
      case (Inr w)
      have "group_state_ok e" using ok(2) Some by simp
      then have "w = e" using state_validates Inr by blast
      then show ?thesis using Inr Some by (auto simp: cloneOption_def)
    qed (simp add: cloneOption_def Some)
  qed (auto simp: cloneOption_def)
  have fk: "cloneOption validateAndCloneForkEvidence (snapForkEvidence s) = Inr f \<longleftrightarrow> f = snapForkEvidence s \<and>
      (\<forall>f. snapForkEvidence s = Some f \<longrightarrow> fork_ok f)" for f
    by (cases "snapForkEvidence s") (auto simp: cloneOption_def sbind_Inr_iff copy_iff)
  have dist: "distinct (map package_id ?ps) \<longleftrightarrow> distinct (map packageReference ?ps)"
    by (simp add: distinct_map inj_on_def)
  have lens: "MAX_PENDING_KEY_PACKAGE_ENTRIES = 32" "MAX_CONSUMED_KEY_PACKAGE_MARKERS = 4096" "MAX_GROUP_STATE_METADATA_ENTRIES = 65536"
    by (simp_all add: MAX_PENDING_KEY_PACKAGE_ENTRIES_def MAX_CONSUMED_KEY_PACKAGE_MARKERS_def MAX_GROUP_STATE_METADATA_ENTRIES_def)
  have "validateGroupStateStoreSnapshotSemantics s key = Inr () \<longleftrightarrow> ?fits \<and>
      int (length ?ps) \<le> 32 \<and> int (length ?qs) \<le> 32 \<and> int (length ?bs) \<le> 4096 \<and> int (length (snapOutbox s)) \<le> 65536 \<and>
      int (length (snapReplay s)) \<le> 65536 \<and>
      (\<exists>pending requested consumed outbox replay. snapshotPending key [] ?ps = Inr pending \<and> snapshotRequests pending [] [] ?qs = Inr requested \<and>
        \<not> (length requested \<noteq> length pending \<or> (\<exists>r \<in> set pending. r \<notin> set requested)) \<and>
        snapshotConsumed pending [] ?bs = Inr consumed \<and> snapshotOutbox ?ep [] (snapOutbox s) = Inr outbox \<and>
        snapshotReplay ?ep [] [] (snapReplay s) = Inr replay \<and> (\<forall>f. snapForkEvidence s = Some f \<longrightarrow> fork_ok f) \<and>
        (case ?ep of
           None \<Rightarrow> \<not> (length consumed > 0 \<or> length outbox > 0 \<or> length replay > 0 \<or> snapForkEvidence s \<noteq> None)
         | Some n \<Rightarrow> \<not> (case snapForkEvidence s of None \<Rightarrow> False | Some f \<Rightarrow> forkEpoch f > n)))"
  proof (cases ?fits)
    case True
    then have c: "cloneOption (\<lambda>e. validateAndCloneEncryptedGroupState e key) (snapEncryptedState s) = Inr (snapEncryptedState s)" using st by blast
    show ?thesis unfolding validateGroupStateStoreSnapshotSemantics_def key sbind_simps c lens Let_def
      using True by (cases ?ep) (auto simp: sbind_Inr_iff fk require_def)
  next
    case False
    then have "cloneOption (\<lambda>e. validateAndCloneEncryptedGroupState e key) (snapEncryptedState s) \<noteq> Inr v" for v using st by blast
    then show ?thesis unfolding validateGroupStateStoreSnapshotSemantics_def key sbind_simps using False by (auto simp: sbind_Inr_iff)
  qed
  also have "\<dots> \<longleftrightarrow> snapshot_valid s key"
    unfolding snapshotPending_iff [OF ok(1)] snapshotRequests_iff snapshotConsumed_iff snapshotOutbox_iff snapshotReplay_iff dist
      snapshot_valid_def Let_def
    using bindings_iff [of ?ps ?qs] by (cases ?ep) (auto split: option.splits)
  finally show ?thesis .
qed


section \<open>The pieces of a snapshot\<close>

definition forkPair :: "GroupStateForkEvidence \<Rightarrow> GroupStateForkEvidence \<times> bytes" where
  "forkPair f = (orderedFork f, forkWire (orderedFork f))"

definition optional_size :: "('a \<Rightarrow> bytes) \<Rightarrow> 'a option \<Rightarrow> int" where
  "optional_size f v = (case v of None \<Rightarrow> 0 | Some x \<Rightarrow> 4 + int (length (f x)))"

definition snapshot_size :: "GroupStateStoreSnapshot \<Rightarrow> int" where
  "snapshot_size s = int (length COMMITMENT_DOMAIN) + 30 + optional_size stateWire (snapEncryptedState s) +
     sum_bytes (\<lambda>e. int (length (pendingWire (pend e)))) (snapPendingKeyPackages s) +
     sum_bytes (\<lambda>b. int (length (counted 2 b))) (snapConsumedKeyPackageRefs s) +
     sum_bytes (\<lambda>r. int (length (requestWire r))) (snapPendingKeyPackageRequests s) +
     sum_bytes (\<lambda>x. int (length (outboxWire x))) (snapOutbox s) +
     sum_bytes (\<lambda>x. int (length (replayWire x))) (snapReplay s) +
     optional_size (\<lambda>f. forkWire (orderedFork f)) (snapForkEvidence s)"

definition values_ok :: "GroupStateStoreSnapshot \<Rightarrow> bool" where
  "values_ok s \<longleftrightarrow> 1 \<le> snapRevision s \<and> snapRevision s \<le> MAX_SAFE_INTEGER \<and>
     (\<forall>e. snapEncryptedState s = Some e \<longrightarrow> group_state_ok e) \<and>
     int (length (snapPendingKeyPackages s)) \<le> 32 \<and> (\<forall>e \<in> set (snapPendingKeyPackages s). key_package_ok e) \<and>
     sum_bytes (\<lambda>e. int (length (packageWire e))) (snapPendingKeyPackages s) \<le> MAX_PENDING_TOTAL_BYTES \<and>
     int (length (snapPendingKeyPackageRequests s)) \<le> 32 \<and> (\<forall>e \<in> set (snapPendingKeyPackageRequests s). request_ok e) \<and>
     int (length (snapConsumedKeyPackageRefs s)) \<le> 4096 \<and> (\<forall>e \<in> set (snapConsumedKeyPackageRefs s). consumed_ok e) \<and>
     int (length (snapOutbox s)) \<le> 65536 \<and> (\<forall>e \<in> set (snapOutbox s). outbox_ok e) \<and>
     int (length (snapReplay s)) \<le> 65536 \<and> (\<forall>e \<in> set (snapReplay s). replay_ok e) \<and>
     (\<forall>f. snapForkEvidence s = Some f \<longrightarrow> fork_ok f)"

definition pieces_of :: "GroupStateStoreSnapshot \<Rightarrow> CanonicalPieces" where
  "pieces_of s = \<lparr>pcRevision = snapRevision s, pcState = map_option stateWire (snapEncryptedState s),
     pcPending = sortByBytes cpReference (map pend (snapPendingKeyPackages s)),
     pcRequests = sortByBytes requestOperationId (snapPendingKeyPackageRequests s),
     pcConsumed = sortByBytes (\<lambda>b. b) (snapConsumedKeyPackageRefs s), pcOutbox = sortByBytes outboxId (snapOutbox s),
     pcReplay = sortByBytes replayRecordId (snapReplay s), pcFork = map_option forkPair (snapForkEvidence s), pcUsed = snapshot_size s\<rparr>"

lemma canonicalState_law: "canonicalState v used = Inr (w, used') \<longleftrightarrow>
    (\<forall>e. v = Some e \<longrightarrow> group_state_ok e) \<and> w = map_option stateWire v \<and> used' = used + optional_size stateWire v \<and>
    (v = None \<or> used' \<le> MAX_CANONICAL_SNAPSHOT_BYTES)"
  by (cases v) (auto simp: canonicalState_def sbind_Inr_iff canonicalEncryptedGroupState_law optional_size_def)

lemma canonicalFork_law': "canonicalFork v used = Inr (w, used') \<longleftrightarrow>
    (\<forall>f. v = Some f \<longrightarrow> fork_ok f) \<and> w = map_option forkPair v \<and> used' = used + optional_size (\<lambda>f. forkWire (orderedFork f)) v \<and>
    (v = None \<or> used' \<le> MAX_CANONICAL_SNAPSHOT_BYTES)"
  by (cases v) (auto simp: canonicalFork_law optional_size_def forkPair_def)

lemma optional_size_nonneg: "0 \<le> optional_size f v"
  by (cases v) (simp_all add: optional_size_def)

lemma domain_length: "int (length COMMITMENT_DOMAIN) = 43"
  by (simp add: COMMITMENT_DOMAIN_def)

text \<open>One section of the snapshot: a claim for its count or its tag, then its values, whose bytes are claimed as they are read.\<close>

lemma claimed_section:
  assumes f: "\<And>w u. f (used + k) = Inr (w, u) \<longleftrightarrow> ok \<and> w = v \<and> u = used + k + d \<and> (z \<or> u \<le> MAX_CANONICAL_SNAPSHOT_BYTES)"
    and "z \<Longrightarrow> d = 0" "0 \<le> k" "0 \<le> d"
  shows "sbind (claimSnapshot used k) (\<lambda>u. sbind (f u) (\<lambda>(w, u). rest w u)) = Inr r \<longleftrightarrow>
    ok \<and> used + k + d \<le> MAX_CANONICAL_SNAPSHOT_BYTES \<and> rest v (used + k + d) = Inr r"
proof -
  have "sbind (claimSnapshot used k) (\<lambda>u. sbind (f u) (\<lambda>(w, u). rest w u)) = Inr r \<longleftrightarrow>
      used + k \<le> MAX_CANONICAL_SNAPSHOT_BYTES \<and> (\<exists>w u. f (used + k) = Inr (w, u) \<and> rest w u = Inr r)"
    using assms(3) by (auto simp: sbind_Inr_iff claim_Inr)
  also have "\<dots> \<longleftrightarrow> ok \<and> used + k + d \<le> MAX_CANONICAL_SNAPSHOT_BYTES \<and> rest v (used + k + d) = Inr r"
    unfolding f using assms(2-4) by auto
  finally show ?thesis .
qed

lemma claimed_sections:
  "sbind (claimSnapshot used 1) (\<lambda>u. sbind (canonicalState e u) (\<lambda>(w, u). rest1 w u)) = Inr r \<longleftrightarrow>
     (\<forall>x. e = Some x \<longrightarrow> group_state_ok x) \<and> used + 1 + optional_size stateWire e \<le> MAX_CANONICAL_SNAPSHOT_BYTES \<and>
     rest1 (map_option stateWire e) (used + 1 + optional_size stateWire e) = Inr r"
  "sbind (claimSnapshot used 1) (\<lambda>u. sbind (canonicalFork f u) (\<lambda>(w, u). rest2 w u)) = Inr r \<longleftrightarrow>
     (\<forall>x. f = Some x \<longrightarrow> fork_ok x) \<and> used + 1 + optional_size (\<lambda>f. forkWire (orderedFork f)) f \<le> MAX_CANONICAL_SNAPSHOT_BYTES \<and>
     rest2 (map_option forkPair f) (used + 1 + optional_size (\<lambda>f. forkWire (orderedFork f)) f) = Inr r"
  "sbind (claimSnapshot used 4) (\<lambda>u. sbind (canonicalPending ps u) (\<lambda>(w, u). rest3 w u)) = Inr r \<longleftrightarrow>
     (int (length ps) \<le> MAX_PENDING_ENTRIES \<and> (\<forall>e \<in> set ps. key_package_ok e) \<and>
      sum_bytes (\<lambda>e. int (length (packageWire e))) ps \<le> MAX_PENDING_TOTAL_BYTES) \<and>
     used + 4 + sum_bytes (\<lambda>e. int (length (pendingWire (pend e)))) ps \<le> MAX_CANONICAL_SNAPSHOT_BYTES \<and>
     rest3 (sortByBytes cpReference (map pend ps)) (used + 4 + sum_bytes (\<lambda>e. int (length (pendingWire (pend e)))) ps) = Inr r"
  "sbind (claimSnapshot used 4) (\<lambda>u. sbind (canonicalPendingRequests qs u) (\<lambda>(w, u). rest4 w u)) = Inr r \<longleftrightarrow>
     (int (length qs) \<le> MAX_PENDING_ENTRIES \<and> (\<forall>e \<in> set qs. request_ok e)) \<and>
     used + 4 + sum_bytes (\<lambda>e. int (length (requestWire e))) qs \<le> MAX_CANONICAL_SNAPSHOT_BYTES \<and>
     rest4 (sortByBytes requestOperationId qs) (used + 4 + sum_bytes (\<lambda>e. int (length (requestWire e))) qs) = Inr r"
  "sbind (claimSnapshot used 4) (\<lambda>u. sbind (canonicalConsumed bs u) (\<lambda>(w, u). rest5 w u)) = Inr r \<longleftrightarrow>
     (int (length bs) \<le> MAX_CONSUMED_ENTRIES \<and> (\<forall>e \<in> set bs. consumed_ok e)) \<and>
     used + 4 + sum_bytes (\<lambda>e. int (length (counted 2 e))) bs \<le> MAX_CANONICAL_SNAPSHOT_BYTES \<and>
     rest5 (sortByBytes (\<lambda>b. b) bs) (used + 4 + sum_bytes (\<lambda>e. int (length (counted 2 e))) bs) = Inr r"
  "sbind (claimSnapshot used 4) (\<lambda>u. sbind (canonicalOutbox es u) (\<lambda>(w, u). rest6 w u)) = Inr r \<longleftrightarrow>
     (int (length es) \<le> MAX_ENTRIES \<and> (\<forall>e \<in> set es. outbox_ok e)) \<and>
     used + 4 + sum_bytes (\<lambda>e. int (length (outboxWire e))) es \<le> MAX_CANONICAL_SNAPSHOT_BYTES \<and>
     rest6 (sortByBytes outboxId es) (used + 4 + sum_bytes (\<lambda>e. int (length (outboxWire e))) es) = Inr r"
  "sbind (claimSnapshot used 4) (\<lambda>u. sbind (canonicalReplay ls u) (\<lambda>(w, u). rest7 w u)) = Inr r \<longleftrightarrow>
     (int (length ls) \<le> MAX_ENTRIES \<and> (\<forall>e \<in> set ls. replay_ok e)) \<and>
     used + 4 + sum_bytes (\<lambda>e. int (length (replayWire e))) ls \<le> MAX_CANONICAL_SNAPSHOT_BYTES \<and>
     rest7 (sortByBytes replayRecordId ls) (used + 4 + sum_bytes (\<lambda>e. int (length (replayWire e))) ls) = Inr r"
  subgoal by (rule claimed_section [where z = "e = None"], simp_all add: canonicalState_law optional_size_nonneg, simp add: optional_size_def)
  subgoal by (rule claimed_section [where z = "f = None"], simp_all add: canonicalFork_law' optional_size_nonneg, simp add: optional_size_def)
  subgoal by (rule claimed_section [where z = "ps = []"]) (auto simp: canonicalPending_law intro: sum_bytes_nonneg)
  subgoal by (rule claimed_section [where z = "qs = []"]) (auto simp: canonicalArrays_law intro: sum_bytes_nonneg)
  subgoal by (rule claimed_section [where z = "bs = []"]) (auto simp: canonicalArrays_law intro: sum_bytes_nonneg)
  subgoal by (rule claimed_section [where z = "es = []"]) (auto simp: canonicalArrays_law intro: sum_bytes_nonneg)
  subgoal by (rule claimed_section [where z = "ls = []"]) (auto simp: canonicalArrays_law intro: sum_bytes_nonneg)
  done

lemma canonicalPieces_law:
  "canonicalPieces s = Inr pc \<longleftrightarrow> values_ok s \<and> snapshot_size s \<le> MAX_CANONICAL_SNAPSHOT_BYTES \<and> pc = pieces_of s"
proof -
  define a where "a = optional_size stateWire (snapEncryptedState s)"
  define b where "b = sum_bytes (\<lambda>e. int (length (pendingWire (pend e)))) (snapPendingKeyPackages s)"
  define c where "c = sum_bytes (\<lambda>b. int (length (counted 2 b))) (snapConsumedKeyPackageRefs s)"
  define d where "d = sum_bytes (\<lambda>r. int (length (requestWire r))) (snapPendingKeyPackageRequests s)"
  define e where "e = sum_bytes (\<lambda>x. int (length (outboxWire x))) (snapOutbox s)"
  define g where "g = sum_bytes (\<lambda>x. int (length (replayWire x))) (snapReplay s)"
  define h where "h = optional_size (\<lambda>f. forkWire (orderedFork f)) (snapForkEvidence s)"
  have nn: "0 \<le> a" "0 \<le> b" "0 \<le> c" "0 \<le> d" "0 \<le> e" "0 \<le> g" "0 \<le> h"
    unfolding a_def b_def c_def d_def e_def g_def h_def by (auto intro!: optional_size_nonneg sum_bytes_nonneg)
  have size: "snapshot_size s = 73 + a + b + c + d + e + g + h"
    by (simp add: snapshot_size_def domain_length a_def b_def c_def d_def e_def g_def h_def)
  have start: "sbind (claimSnapshot 0 51) (\<lambda>u. sbind (safeInteger n 1) (\<lambda>m. rest u m)) = Inr r \<longleftrightarrow>
      1 \<le> n \<and> n \<le> MAX_SAFE_INTEGER \<and> rest 51 n = Inr r" for n rest and r :: CanonicalPieces
    by (auto simp: sbind_Inr_iff claim_Inr safeInteger_def MAX_CANONICAL_SNAPSHOT_BYTES_def)
  have "canonicalPieces s = Inr pc \<longleftrightarrow> values_ok s \<and> (51 + 1 + a \<le> MAX_CANONICAL_SNAPSHOT_BYTES \<and> 51 + 1 + a + 4 + b \<le> MAX_CANONICAL_SNAPSHOT_BYTES \<and>
      51 + 1 + a + 4 + b + 4 + c \<le> MAX_CANONICAL_SNAPSHOT_BYTES \<and> 51 + 1 + a + 4 + b + 4 + c + 4 + d \<le> MAX_CANONICAL_SNAPSHOT_BYTES \<and>
      51 + 1 + a + 4 + b + 4 + c + 4 + d + 4 + e \<le> MAX_CANONICAL_SNAPSHOT_BYTES \<and>
      51 + 1 + a + 4 + b + 4 + c + 4 + d + 4 + e + 4 + g \<le> MAX_CANONICAL_SNAPSHOT_BYTES \<and>
      51 + 1 + a + 4 + b + 4 + c + 4 + d + 4 + e + 4 + g + 1 + h \<le> MAX_CANONICAL_SNAPSHOT_BYTES) \<and> pc = pieces_of s"
    unfolding canonicalPieces_def domain_length one_add_one numeral_plus_numeral add_num_simps start claimed_sections
      a_def [symmetric] b_def [symmetric] c_def [symmetric] d_def [symmetric] e_def [symmetric] g_def [symmetric] h_def [symmetric]
      pieces_of_def size values_ok_def MAX_PENDING_ENTRIES_def MAX_CONSUMED_ENTRIES_def MAX_ENTRIES_def sum.inject
    by (simp only: conj_assoc conj_commute conj_left_commute eq_commute [of pc]) (simp add: ac_simps)
  then show ?thesis using nn size by linarith
qed


section \<open>The encoded snapshot\<close>

text \<open>The snapshot with its arrays sorted and its fork evidence ordered, which is what the code hands back and encodes.\<close>

definition canon :: "GroupStateStoreSnapshot \<Rightarrow> GroupStateStoreSnapshot" where
  "canon s = \<lparr>snapRevision = snapRevision s, snapEncryptedState = snapEncryptedState s,
     snapPendingKeyPackages = sortByBytes packageReference (snapPendingKeyPackages s),
     snapPendingKeyPackageRequests = sortByBytes requestOperationId (snapPendingKeyPackageRequests s),
     snapConsumedKeyPackageRefs = sortByBytes (\<lambda>b. b) (snapConsumedKeyPackageRefs s),
     snapOutbox = sortByBytes outboxId (snapOutbox s), snapReplay = sortByBytes replayRecordId (snapReplay s),
     snapForkEvidence = map_option orderedFork (snapForkEvidence s)\<rparr>"

definition snapshotWire :: "GroupStateStoreSnapshot \<Rightarrow> bytes" where
  "snapshotWire s = COMMITMENT_DOMAIN @ bigEndian 8 (snapRevision s) @ optionalWire (map_option stateWire (snapEncryptedState s)) @
     wires_of pendingWire (map pend (snapPendingKeyPackages s)) @ wires_of requestWire (snapPendingKeyPackageRequests s) @
     wires_of (counted 2) (snapConsumedKeyPackageRefs s) @ wires_of outboxWire (snapOutbox s) @ wires_of replayWire (snapReplay s) @
     optionalWire (map_option forkWire (snapForkEvidence s))"

lemma insertSorted_map: "insertSorted key (f x) (map f xs) = map f (insertSorted (\<lambda>x. key (f x)) x xs)"
  by (induction xs) simp_all

lemma sortByBytes_map: "sortByBytes key (map f xs) = map f (sortByBytes (\<lambda>x. key (f x)) xs)"
  by (induction xs) (simp_all add: insertSorted_map)

lemma sorted_pend: "sortByBytes cpReference (map pend ps) = map pend (sortByBytes packageReference ps)"
  unfolding sortByBytes_map by (simp add: pend_def)

lemma orderedFork_idem [simp]: "orderedFork (orderedFork f) = orderedFork f"
  using compareBytes_total [of "forkFirstRecordId f" "forkSecondRecordId f"] compareBytes_antisym [of "forkFirstRecordId f" "forkSecondRecordId f"]
  by (auto simp: orderedFork_def)

lemma sum_bytes_mset: "mset xs = mset ys \<Longrightarrow> sum_bytes f xs = sum_bytes f ys"
  unfolding sum_bytes_def by (metis mset_map sum_mset_sum_list)

lemma sum_bytes_sort [simp]: "sum_bytes f (sortByBytes key xs) = sum_bytes f xs"
  by (rule sum_bytes_mset) simp

lemma canon_values: "values_ok (canon s) = values_ok s" "snapshot_size (canon s) = snapshot_size s"
  by (cases "snapForkEvidence s"; simp add: canon_def values_ok_def orderedFork_ok)
    (cases "snapForkEvidence s"; simp add: canon_def snapshot_size_def optional_size_def)

lemma deserializeAll_pend: "\<forall>e \<in> set ps. key_package_ok e \<Longrightarrow> deserializeAll (map pend ps) = Inr ps"
proof (induction ps)
  case (Cons e ps)
  then show ?case using packageWire_ok(2) [of e] by (simp add: pend_def commitment_part_def)
qed simp

lemma optionalParts_wire: "\<forall>b. v = Some b \<longrightarrow> int (length b) < 4294967296 \<Longrightarrow> concatParts (optionalParts v) = Inr (optionalWire v)"
  by (cases v) (simp_all add: optionalParts_def optionalWire_def u32_def counted_def)

lemma values_ok_sizes:
  assumes "values_ok s"
  shows "\<forall>b. map_option stateWire (snapEncryptedState s) = Some b \<longrightarrow> int (length b) < 4294967296"
    "\<forall>b. map_option forkWire (snapForkEvidence s) = Some b \<longrightarrow> int (length b) < 4294967296"
    "\<forall>p \<in> set (map pend (snapPendingKeyPackages s)). pending_ok p"
    "0 \<le> snapRevision s" "snapRevision s \<le> MAX_U64"
proof -
  have "int (length (stateWire e)) < 4294967296" if "group_state_ok e" for e
    using stateWire_ok(4) [OF that] by (simp add: MAX_ENCRYPTED_STATE_BYTES_def envelope_limits)
  then show "\<forall>b. map_option stateWire (snapEncryptedState s) = Some b \<longrightarrow> int (length b) < 4294967296"
    using assms by (auto simp: values_ok_def)
  have "int (length (forkWire f)) < 4294967296" if "fork_ok f" for f
    using that by (auto simp: forkWire_def fork_ok_def length_counted MAX_CONTROL_RECORD_BYTES_def)
  then show "\<forall>b. map_option forkWire (snapForkEvidence s) = Some b \<longrightarrow> int (length b) < 4294967296"
    using assms by (auto simp: values_ok_def)
  show "\<forall>p \<in> set (map pend (snapPendingKeyPackages s)). pending_ok p" using assms pend_ok by (auto simp: values_ok_def)
  show "0 \<le> snapRevision s" "snapRevision s \<le> MAX_U64" using assms by (auto simp: values_ok_def MAX_U64_def)
qed

lemma snapshotParts_wire:
  assumes "values_ok s"
  shows "concatParts (snapshotParts (snapRevision s) (map_option stateWire (snapEncryptedState s)) (map pend (snapPendingKeyPackages s))
     (snapPendingKeyPackageRequests s) (snapConsumedKeyPackageRefs s) (snapOutbox s) (snapReplay s) (map_option forkWire (snapForkEvidence s))) =
     Inr (snapshotWire s)"
proof -
  note z = values_ok_sizes [OF assms] and v = assms [unfolded values_ok_def]
  have head: "concatParts [Inr COMMITMENT_DOMAIN, u64 (snapRevision s)] = Inr (COMMITMENT_DOMAIN @ bigEndian 8 (snapRevision s))"
    using z(4,5) by (simp add: u64_def validateU64_def require_def)
  have counts: "int (length (map pend (snapPendingKeyPackages s))) \<le> 65536" "int (length (snapPendingKeyPackageRequests s)) \<le> 65536"
    "int (length (snapConsumedKeyPackageRefs s)) \<le> 65536" using v by auto
  show ?thesis unfolding snapshotParts_def concatParts_append head optionalParts_wire [OF z(1)] optionalParts_wire [OF z(2)]
    using v counts
    by (simp add: pending_code.counted_parts [OF z(3)] request_entry.counted_parts consumed_entry.counted_parts outbox_entry.counted_parts
        replay_entry.counted_parts snapshotWire_def)
qed

lemma length_optionalWire: "int (length (optionalWire (map_option f v))) = 1 + optional_size f v"
  by (cases v) (simp_all add: optionalWire_def optional_size_def length_counted)

lemma length_snapshotWire: "int (length (snapshotWire (canon s))) = snapshot_size s"
proof -
  have "map_option forkWire (map_option orderedFork (snapForkEvidence s)) = map_option (\<lambda>f. forkWire (orderedFork f)) (snapForkEvidence s)"
    by (cases "snapForkEvidence s") simp_all
  then show ?thesis
    by (simp add: snapshotWire_def canon_def length_wires length_optionalWire snapshot_size_def sum_bytes_def [of _ "map pend _"] o_def
        sum_bytes_def [symmetric])
qed


lemma distinct_sort [simp]: "distinct (map f (sortByBytes key xs)) = distinct (map f xs)"
  using mset_eq_imp_distinct_iff [of "map f (sortByBytes key xs)" "map f xs"] by simp

lemma distinct_sort_concat [simp]: "distinct (concat (map f (sortByBytes key xs))) = distinct (concat (map f xs))"
proof -
  have "mset (concat (map f ys)) = \<Sum>\<^sub># (image_mset (\<lambda>x. mset (f x)) (mset ys))" for ys by (induction ys) simp_all
  then have "mset (concat (map f (sortByBytes key xs))) = mset (concat (map f xs))" by simp
  then show ?thesis by (rule mset_eq_imp_distinct_iff)
qed

lemma sort_Nil [simp]: "sortByBytes key xs = [] \<longleftrightarrow> xs = []"
  by (metis length_0_conv length_sortByBytes)

lemma canon_valid: "snapshot_valid (canon s) key = snapshot_valid s key"
proof -
  have plain: "distinct (sortByBytes key bs) = distinct bs" for key and bs :: "bytes list"
    using distinct_sort [of "\<lambda>b. b"] by simp
  show ?thesis
    by (cases "snapForkEvidence s"; cases "snapEncryptedState s")
      (simp_all add: snapshot_valid_def Let_def canon_def plain orderedFork_ok)
qed

lemma storeKey_Inr: "cloneGroupStateStoreKey key = Inr k \<Longrightarrow> k = key"
  by (auto simp: cloneGroupStateStoreKey_def sbind_Inr_iff validateAndCloneProtocol_def cloneBytes_Inr split: if_splits)

lemma deserializeOptional_state:
  "\<forall>e. v = Some e \<longrightarrow> group_state_ok e \<Longrightarrow> deserializeOptional (map_option stateWire v) = Inr v"
  using stateWire_ok(2) by (cases v) (auto simp: deserializeOptional_def commitment_part_def)

text \<open>
  The accounting check never fires: the claimed bytes are the length of the encoding,
  and the copies read back from the serialized envelopes are the values encoded.
\<close>

lemma canonicalSnapshot_law:
  "canonicalSnapshot s key = Inr (b, c) \<longleftrightarrow> cloneGroupStateStoreKey key = Inr key \<and> values_ok s \<and>
    snapshot_size s \<le> MAX_CANONICAL_SNAPSHOT_BYTES \<and> snapshot_valid s key \<and> b = snapshotWire (canon s) \<and> c = canon s"
proof (cases "cloneGroupStateStoreKey key = Inr key \<and> values_ok s \<and> snapshot_size s \<le> MAX_CANONICAL_SNAPSHOT_BYTES")
  case True
  then have ok: "cloneGroupStateStoreKey key = Inr key" "values_ok s" "snapshot_size s \<le> MAX_CANONICAL_SNAPSHOT_BYTES" by simp_all
  have cv: "values_ok (canon s)" using ok(2) by (simp add: canon_values)
  have pieces: "canonicalPieces s = Inr (pieces_of s)" using ok canonicalPieces_law by blast
  have fork: "map_option snd (map_option forkPair v) = map_option forkWire (map_option orderedFork v)"
    "map_option fst (map_option forkPair v) = map_option orderedFork v" for v
    by (cases v; simp add: forkPair_def)+
  have parts: "snapshotParts (pcRevision (pieces_of s)) (pcState (pieces_of s)) (pcPending (pieces_of s)) (pcRequests (pieces_of s))
      (pcConsumed (pieces_of s)) (pcOutbox (pieces_of s)) (pcReplay (pieces_of s)) (map_option snd (pcFork (pieces_of s))) =
     snapshotParts (snapRevision (canon s)) (map_option stateWire (snapEncryptedState (canon s))) (map pend (snapPendingKeyPackages (canon s)))
     (snapPendingKeyPackageRequests (canon s)) (snapConsumedKeyPackageRefs (canon s)) (snapOutbox (canon s)) (snapReplay (canon s))
     (map_option forkWire (snapForkEvidence (canon s)))"
    by (simp only: pieces_of_def canon_def fork CanonicalPieces.simps GroupStateStoreSnapshot.simps sorted_pend)
  have enc: "boundedConcat (snapshotParts (pcRevision (pieces_of s)) (pcState (pieces_of s)) (pcPending (pieces_of s)) (pcRequests (pieces_of s))
      (pcConsumed (pieces_of s)) (pcOutbox (pieces_of s)) (pcReplay (pieces_of s)) (map_option snd (pcFork (pieces_of s)))) = Inr (snapshotWire (canon s))"
    unfolding parts boundedConcat_def snapshotParts_wire [OF cv] using ok(3) length_snapshotWire [of s] by (simp add: commitment_part_def)
  have st: "deserializeOptional (pcState (pieces_of s)) = Inr (snapEncryptedState (canon s))"
    using ok(2) by (simp add: pieces_of_def canon_def values_ok_def deserializeOptional_state)
  have pk: "deserializeAll (pcPending (pieces_of s)) = Inr (snapPendingKeyPackages (canon s))"
    using ok(2) deserializeAll_pend [of "snapPendingKeyPackages (canon s)"] by (simp add: pieces_of_def canon_def values_ok_def sorted_pend)
  have snap: "\<lparr>snapRevision = pcRevision (pieces_of s), snapEncryptedState = snapEncryptedState (canon s), snapPendingKeyPackages = snapPendingKeyPackages (canon s),
                  snapPendingKeyPackageRequests = pcRequests (pieces_of s), snapConsumedKeyPackageRefs = pcConsumed (pieces_of s), snapOutbox = pcOutbox (pieces_of s),
                  snapReplay = pcReplay (pieces_of s), snapForkEvidence = map_option fst (pcFork (pieces_of s))\<rparr> = canon s"
    by (simp only: pieces_of_def canon_def fork CanonicalPieces.simps GroupStateStoreSnapshot.simps)
  have sem: "validateGroupStateStoreSnapshotSemantics (canon s) key = Inr () \<longleftrightarrow> snapshot_valid s key"
    using semantics_iff [OF ok(1), of "canon s"] cv canon_valid by (auto simp: values_ok_def)
  have used: "pcUsed (pieces_of s) = int (length (snapshotWire (canon s)))" by (simp add: length_snapshotWire pieces_of_def)
  have "canonicalSnapshot s key = (case validateGroupStateStoreSnapshotSemantics (canon s) key of
      Inl _ \<Rightarrow> Inl CommitmentSemantics | Inr _ \<Rightarrow> Inr (snapshotWire (canon s), canon s))"
    unfolding canonicalSnapshot_def ok(1) sum.case pieces sbind_simps enc used st pk Let_def snap by simp
  then show ?thesis using sem ok by (cases "validateGroupStateStoreSnapshotSemantics (canon s) key") auto
next
  case False
  have "\<not> (\<exists>pc. canonicalPieces s = Inr pc)" if "cloneGroupStateStoreKey key = Inr key"
    using False that canonicalPieces_law by blast
  then have "canonicalSnapshot s key \<noteq> Inr (b, c)"
    using storeKey_Inr [of key] by (cases "cloneGroupStateStoreKey key"; cases "canonicalPieces s") (auto simp: canonicalSnapshot_def)
  then show ?thesis using False by blast
qed

section \<open>Binding\<close>

text \<open>Two snapshots with the same content: the arrays are sets of entries, and the two branches of a fork are not ordered.\<close>

definition same_content :: "GroupStateStoreSnapshot \<Rightarrow> GroupStateStoreSnapshot \<Rightarrow> bool" where
  "same_content s t \<longleftrightarrow> snapRevision s = snapRevision t \<and> snapEncryptedState s = snapEncryptedState t \<and>
     mset (snapPendingKeyPackages s) = mset (snapPendingKeyPackages t) \<and>
     mset (snapPendingKeyPackageRequests s) = mset (snapPendingKeyPackageRequests t) \<and>
     mset (snapConsumedKeyPackageRefs s) = mset (snapConsumedKeyPackageRefs t) \<and>
     mset (snapOutbox s) = mset (snapOutbox t) \<and> mset (snapReplay s) = mset (snapReplay t) \<and>
     map_option orderedFork (snapForkEvidence s) = map_option orderedFork (snapForkEvidence t)"

lemma canon_same:
  assumes "snapshot_valid s key"
  shows "canon s = canon t \<longleftrightarrow> same_content s t"
proof
  assume "canon s = canon t"
  then have "snapRevision s = snapRevision t" "snapEncryptedState s = snapEncryptedState t"
     "sortByBytes packageReference (snapPendingKeyPackages s) = sortByBytes packageReference (snapPendingKeyPackages t)"
     "sortByBytes requestOperationId (snapPendingKeyPackageRequests s) = sortByBytes requestOperationId (snapPendingKeyPackageRequests t)"
     "sortByBytes (\<lambda>b. b) (snapConsumedKeyPackageRefs s) = sortByBytes (\<lambda>b. b) (snapConsumedKeyPackageRefs t)"
     "sortByBytes outboxId (snapOutbox s) = sortByBytes outboxId (snapOutbox t)"
     "sortByBytes replayRecordId (snapReplay s) = sortByBytes replayRecordId (snapReplay t)"
     "map_option orderedFork (snapForkEvidence s) = map_option orderedFork (snapForkEvidence t)"
    by (simp_all add: canon_def)
  then show "same_content s t" unfolding same_content_def by (metis mset_sortByBytes)
next
  assume same: "same_content s t"
  have d: "distinct (map packageReference (snapPendingKeyPackages s))" "distinct (map requestOperationId (snapPendingKeyPackageRequests s))"
    "distinct (map (\<lambda>b. b) (snapConsumedKeyPackageRefs s))" "distinct (map outboxId (snapOutbox s))" "distinct (map replayRecordId (snapReplay s))"
    using assms by (simp_all add: snapshot_valid_def Let_def)
  note same = same [unfolded same_content_def]
  show "canon s = canon t"
    using same sortByBytes_cong [OF _ d(1)] sortByBytes_cong [OF _ d(2)] sortByBytes_cong [OF _ d(3)] sortByBytes_cong [OF _ d(4)]
      sortByBytes_cong [OF _ d(5)]
    by (intro GroupStateStoreSnapshot.equality) (simp_all add: canon_def)
qed

lemma pend_inj: "key_package_ok p \<Longrightarrow> key_package_ok q \<Longrightarrow> pend p = pend q \<Longrightarrow> p = q"
  by (metis CanonicalPending.ext_inject Inr_inject packageWire_ok(2) pend_def)

lemma map_pend_inj: "\<forall>p \<in> set ps. key_package_ok p \<Longrightarrow> \<forall>q \<in> set qs. key_package_ok q \<Longrightarrow> map pend ps = map pend qs \<Longrightarrow> ps = qs"
  by (rule list.inj_map_strong [where fa = pend]) (auto intro: pend_inj)

lemma stateWire_inj:
  assumes "\<forall>e. v = Some e \<longrightarrow> group_state_ok e" "\<forall>e. w = Some e \<longrightarrow> group_state_ok e" "map_option stateWire v = map_option stateWire w"
  shows "v = w"
  by (metis Inr_inject assms deserializeOptional_state)

lemma forkWire_inj:
  assumes "fork_ok f" "fork_ok g" "forkWire f = forkWire g"
  shows "f = g"
proof -
  have l: "int (length (forkFirstControlRecord h)) < 2 ^ (4 * 8)" "int (length (forkSecondControlRecord h)) < 2 ^ (4 * 8)"
    "0 \<le> forkEpoch h" "forkEpoch h \<le> MAX_U64" if "fork_ok h" for h using that by (auto simp: fork_ok_def MAX_CONTROL_RECORD_BYTES_def)
  note 1 = word64_append [OF assms(3) [unfolded forkWire_def] l(3,4) [OF assms(1)] l(3,4) [OF assms(2)]]
  have 2: "forkParentRecordId f = forkParentRecordId g" "forkFirstRecordId f = forkFirstRecordId g"
    "counted 4 (forkFirstControlRecord f) @ forkSecondRecordId f @ counted 4 (forkSecondControlRecord f) =
     counted 4 (forkFirstControlRecord g) @ forkSecondRecordId g @ counted 4 (forkSecondControlRecord g)"
    using 1 assms(1,2) by (auto simp: fork_ok_def)
  note 3 = counted_append [OF 2(3) l(1) [OF assms(1)] l(1) [OF assms(2)]]
  have 4: "forkSecondRecordId f = forkSecondRecordId g" "counted 4 (forkSecondControlRecord f) @ [] = counted 4 (forkSecondControlRecord g) @ []"
    using 3 assms(1,2) by (auto simp: fork_ok_def)
  note 5 = counted_append [OF 4(2) l(2) [OF assms(1)] l(2) [OF assms(2)]]
  show ?thesis using 1 2 3 4 5 by (auto intro: GroupStateForkEvidence.equality)
qed

lemma map_forkWire_inj:
  assumes "\<forall>f. v = Some f \<longrightarrow> fork_ok f" "\<forall>f. w = Some f \<longrightarrow> fork_ok f" "map_option forkWire v = map_option forkWire w"
  shows "v = w"
proof (cases v)
  case None
  then show ?thesis using assms(3) by simp
next
  case (Some f)
  then obtain g where "w = Some g" "forkWire f = forkWire g" using assms(3) by (cases w) auto
  then show ?thesis using assms(1,2) Some forkWire_inj [of f g] by simp
qed

lemma snapshotWire_inj:
  assumes v: "values_ok s" "values_ok t" and eq: "snapshotWire s = snapshotWire t"
  shows "s = t"
proof -
  note zs = values_ok_sizes [OF v(1)] and zt = values_ok_sizes [OF v(2)] and vs = v(1) [unfolded values_ok_def] and vt = v(2) [unfolded values_ok_def]
  note 0 = word64_append [OF eq [unfolded snapshotWire_def append_same_eq same_append_eq] zs(4,5) zt(4,5)]
  note 1 = optional_append [OF conjunct2 [OF 0] zs(1) zt(1)]
  have n: "int (length xs) \<le> 32 \<Longrightarrow> int (length xs) \<le> 65536" "int (length xs) \<le> 4096 \<Longrightarrow> int (length xs) \<le> 65536" for xs :: "'x list" by simp_all
  note 2 = pending_code.wires_prefix [OF zs(3) zt(3) _ _ conjunct2 [OF 1]]
  have "map pend (snapPendingKeyPackages s) = map pend (snapPendingKeyPackages t)" using 2 vs vt by simp
  then have p: "snapPendingKeyPackages s = snapPendingKeyPackages t" using vs vt by (intro map_pend_inj) simp_all
  have r: "wires_of requestWire (snapPendingKeyPackageRequests s) @ wires_of (counted 2) (snapConsumedKeyPackageRefs s) @
     wires_of outboxWire (snapOutbox s) @ wires_of replayWire (snapReplay s) @ optionalWire (map_option forkWire (snapForkEvidence s)) =
     wires_of requestWire (snapPendingKeyPackageRequests t) @ wires_of (counted 2) (snapConsumedKeyPackageRefs t) @
     wires_of outboxWire (snapOutbox t) @ wires_of replayWire (snapReplay t) @ optionalWire (map_option forkWire (snapForkEvidence t))"
    using 2 vs vt by simp
  note 3 = request_entry.wires_prefix [OF _ _ _ _ r]
  then have 3: "snapPendingKeyPackageRequests s = snapPendingKeyPackageRequests t \<and> wires_of (counted 2) (snapConsumedKeyPackageRefs s) @
     wires_of outboxWire (snapOutbox s) @ wires_of replayWire (snapReplay s) @ optionalWire (map_option forkWire (snapForkEvidence s)) =
     wires_of (counted 2) (snapConsumedKeyPackageRefs t) @
     wires_of outboxWire (snapOutbox t) @ wires_of replayWire (snapReplay t) @ optionalWire (map_option forkWire (snapForkEvidence t))"
    using vs vt by simp
  have 4: "snapConsumedKeyPackageRefs s = snapConsumedKeyPackageRefs t \<and>
     wires_of outboxWire (snapOutbox s) @ wires_of replayWire (snapReplay s) @ optionalWire (map_option forkWire (snapForkEvidence s)) =
     wires_of outboxWire (snapOutbox t) @ wires_of replayWire (snapReplay t) @ optionalWire (map_option forkWire (snapForkEvidence t))"
    using consumed_entry.wires_prefix [OF _ _ _ _ conjunct2 [OF 3]] vs vt by simp
  have 5: "snapOutbox s = snapOutbox t \<and>
     wires_of replayWire (snapReplay s) @ optionalWire (map_option forkWire (snapForkEvidence s)) =
     wires_of replayWire (snapReplay t) @ optionalWire (map_option forkWire (snapForkEvidence t))"
    using outbox_entry.wires_prefix [OF _ _ _ _ conjunct2 [OF 4]] vs vt by simp
  have 6: "snapReplay s = snapReplay t \<and> optionalWire (map_option forkWire (snapForkEvidence s)) @ [] = optionalWire (map_option forkWire (snapForkEvidence t)) @ []"
    using replay_entry.wires_prefix [OF _ _ _ _ conjunct2 [OF 5]] vs vt by simp
  have f: "map_option forkWire (snapForkEvidence s) = map_option forkWire (snapForkEvidence t)" using optional_append [OF conjunct2 [OF 6] zs(2) zt(2)] by simp
  have "snapForkEvidence s = snapForkEvidence t" using vs vt by (intro map_forkWire_inj [OF _ _ f]) simp_all
  moreover have "snapEncryptedState s = snapEncryptedState t" using 1 vs vt by (intro stateWire_inj) simp_all
  ultimately show ?thesis using 0 3 4 5 6 p by (intro GroupStateStoreSnapshot.equality) simp_all
qed


definition collision_free :: "('a \<Rightarrow> 'b option) \<Rightarrow> bool" where
  "collision_free digest \<longleftrightarrow> (\<forall>x y h. digest x = Some h \<and> digest y = Some h \<longrightarrow> x = y)"

lemma commitment_law:
  "groupSecurityStoreSnapshotCommitment digest s key = Inr h \<longleftrightarrow> (\<exists>b. canonicalSnapshot s key = Inr (b, canon s) \<and> digest b = Some h)"
  using canonicalSnapshot_law [of s key]
  by (auto simp: groupSecurityStoreSnapshotCommitment_def canonicalGroupSecurityStoreSnapshot_def sbind_Inr_iff split: option.splits) 

section \<open>What the store commits can be committed to\<close>

lemma committed_sizes:
  "group_state_ok e \<Longrightarrow> encryptedStateCommittedBytes e = 4 + int (length (stateWire e))"
  "key_package_ok p \<Longrightarrow> encryptedKeyPackageSerializedLength p = int (length (packageWire p))"
  "key_package_ok p \<Longrightarrow> pendingEntryCommittedBytes p = int (length (pendingWire (pend p)))"
  "request_ok q \<Longrightarrow> pendingRequestCommittedBytes q = int (length (requestWire q))"
  "consumedCommittedBytes b = int (length (counted 2 b))"
  "outbox_ok x \<Longrightarrow> outboxEntryCommittedBytes x = int (length (outboxWire x))"
  "replay_ok y \<Longrightarrow> replayEntryCommittedBytes y = int (length (replayWire y))"
  "fork_ok f \<Longrightarrow> forkEvidenceCommittedBytes f = 5 + int (length (forkWire (orderedFork f)))"
proof -
  show "group_state_ok e \<Longrightarrow> encryptedStateCommittedBytes e = 4 + int (length (stateWire e))"
    using stateWire_ok(1) [of e] by (simp add: encryptedStateCommittedBytes_def serializedLength_def)
  show p: "key_package_ok p \<Longrightarrow> encryptedKeyPackageSerializedLength p = int (length (packageWire p))"
    using packageWire_ok(1) [of p] by (simp add: encryptedKeyPackageSerializedLength_def serializedLength_def)
  show "key_package_ok p \<Longrightarrow> pendingEntryCommittedBytes p = int (length (pendingWire (pend p)))"
    using p by (simp add: pendingEntryCommittedBytes_def pendingWire_def pend_def length_counted)
  show "consumedCommittedBytes b = int (length (counted 2 b))" by (simp add: consumedCommittedBytes_def length_counted)
  show "request_ok q \<Longrightarrow> pendingRequestCommittedBytes q = int (length (requestWire q))"
    by (simp add: pendingRequestCommittedBytes_def requestWire_def request_ok_def length_counted GROUP_STATE_STORE_ID_LENGTH_def)
  show "outbox_ok x \<Longrightarrow> outboxEntryCommittedBytes x = int (length (outboxWire x))"
    by (simp add: outboxEntryCommittedBytes_def outboxWire_def outbox_ok_def length_counted GROUP_STATE_STORE_ID_LENGTH_def)
  show "replay_ok y \<Longrightarrow> replayEntryCommittedBytes y = int (length (replayWire y))"
    by (cases "replayOperationId y")
      (simp_all add: replayEntryCommittedBytes_def replayWire_def replay_ok_def optionalWire_def length_counted GROUP_STATE_STORE_ID_LENGTH_def)
  show "fork_ok f \<Longrightarrow> forkEvidenceCommittedBytes f = 5 + int (length (forkWire (orderedFork f)))"
    using length_forkWire [of f] by (simp add: forkEvidenceCommittedBytes_def GROUP_STATE_STORE_ID_LENGTH_def)
qed

lemma sum_bytes_cong: "\<forall>x \<in> set xs. f x = g x \<Longrightarrow> sum_bytes f xs = sum_bytes g xs"
  by (induction xs) simp_all

lemma pendingKeyPackageBytes_loop_sum:
  "pendingKeyPackageBytes_loop n ps \<le> MAX_PENDING_KEY_PACKAGE_BYTES \<Longrightarrow> n \<le> MAX_PENDING_KEY_PACKAGE_BYTES \<Longrightarrow>
    n + sum_bytes encryptedKeyPackageSerializedLength ps \<le> MAX_PENDING_KEY_PACKAGE_BYTES"
proof (induction ps arbitrary: n)
  case (Cons p ps)
  show ?case using Cons.IH [of "n + encryptedKeyPackageSerializedLength p"] Cons.prems by (simp add: Let_def split: if_splits)
qed simp

lemma pendingKeyPackageBytes_sum:
  "pendingKeyPackageBytes ps \<le> MAX_PENDING_KEY_PACKAGE_BYTES \<Longrightarrow> sum_bytes encryptedKeyPackageSerializedLength ps \<le> MAX_PENDING_KEY_PACKAGE_BYTES"
  using pendingKeyPackageBytes_loop_sum [of 0 ps] by (simp add: pendingKeyPackageBytes_def MAX_PENDING_KEY_PACKAGE_BYTES_def)

lemma entry_values:
  assumes "entry_ok n key m" "cloneGroupStateStoreKey key = Inr key"
  shows "snapshot_valid (snap_of m) key" "values_ok (snap_of m)" "snapshot_size (snap_of m) \<le> stateBytes m"
proof -
  have m: "m_ok m" using assms(1) by (simp add: entry_ok_def)
  have each: "\<forall>e. mEncryptedState m = Some e \<longrightarrow> group_state_ok e" "\<forall>v \<in> set (jvals (mPending m)). key_package_ok v"
    "\<forall>v \<in> set (jvals (mRequests m)). request_ok v" "\<forall>v \<in> set (jvals (mOutbox m)). outbox_ok v"
    "\<forall>v \<in> set (jvals (mReplay m)). replay_ok v" "\<forall>f. mFork m = Some f \<longrightarrow> fork_ok f"
    "\<forall>v \<in> set (jvals (mConsumed m)). consumed_ok v"
    using m store_copies unfolding m_ok_def by blast+
  have sel: "snapRevision (snap_of m) = mRevision m" "snapEncryptedState (snap_of m) = mEncryptedState m"
    "snapPendingKeyPackages (snap_of m) = jvals (mPending m)" "snapPendingKeyPackageRequests (snap_of m) = jvals (mRequests m)"
    "snapConsumedKeyPackageRefs (snap_of m) = jvals (mConsumed m)" "snapOutbox (snap_of m) = jvals (mOutbox m)"
    "snapReplay (snap_of m) = jvals (mReplay m)" "snapForkEvidence (snap_of m) = mFork m"
    by (simp_all add: snap_of_def)
  show valid: "snapshot_valid (snap_of m) key"
    using assms semantics_iff [OF assms(2), of "snap_of m"] each(1,2) unfolding entry_ok_def sel by blast
  have "sum_bytes (\<lambda>e. int (length (packageWire e))) (jvals (mPending m)) = sum_bytes encryptedKeyPackageSerializedLength (jvals (mPending m))"
    using each(2) committed_sizes(2) by (intro sum_bytes_cong) simp
  moreover have "pendingKeyPackageBytes (jvals (mPending m)) \<le> MAX_PENDING_KEY_PACKAGE_BYTES" using assms(1) by (simp add: entry_ok_def)
  ultimately have pend: "sum_bytes (\<lambda>e. int (length (packageWire e))) (jvals (mPending m)) \<le> MAX_PENDING_TOTAL_BYTES"
    using pendingKeyPackageBytes_sum by (simp add: MAX_PENDING_KEY_PACKAGE_BYTES_def MAX_PENDING_TOTAL_BYTES_def)
  have rev: "1 \<le> mRevision m" "mRevision m \<le> MAX_SAFE_INTEGER" using assms(1) by (simp_all add: entry_ok_def)
  have len: "int (length (jvals (mPending m))) \<le> 32" "int (length (jvals (mRequests m))) \<le> 32" "int (length (jvals (mConsumed m))) \<le> 4096"
    "int (length (jvals (mOutbox m))) \<le> 65536" "int (length (jvals (mReplay m))) \<le> 65536"
    using valid unfolding snapshot_valid_def Let_def sel by blast+
  show "values_ok (snap_of m)" unfolding values_ok_def sel using each len pend rev by blast
  have s: "sum_bytes pendingEntryCommittedBytes (jvals (mPending m)) = sum_bytes (\<lambda>e. int (length (pendingWire (pend e)))) (jvals (mPending m))"
    "sum_bytes pendingRequestCommittedBytes (jvals (mRequests m)) = sum_bytes (\<lambda>e. int (length (requestWire e))) (jvals (mRequests m))"
    "sum_bytes consumedCommittedBytes (jvals (mConsumed m)) = sum_bytes (\<lambda>e. int (length (counted 2 e))) (jvals (mConsumed m))"
    "sum_bytes outboxEntryCommittedBytes (jvals (mOutbox m)) = sum_bytes (\<lambda>e. int (length (outboxWire e))) (jvals (mOutbox m))"
    "sum_bytes replayEntryCommittedBytes (jvals (mReplay m)) = sum_bytes (\<lambda>e. int (length (replayWire e))) (jvals (mReplay m))"
    by (intro sum_bytes_cong ballI, use each committed_sizes in blast)+
  have o: "sum_bytes encryptedStateCommittedBytes (opt_to_list (mEncryptedState m)) = optional_size stateWire (mEncryptedState m)"
    using each(1) committed_sizes(1) by (cases "mEncryptedState m") (simp_all add: optional_size_def)
  have f: "optional_size (\<lambda>f. forkWire (orderedFork f)) (mFork m) \<le> sum_bytes forkEvidenceCommittedBytes (opt_to_list (mFork m))"
    using each(6) committed_sizes(8) by (cases "mFork m") (simp_all add: optional_size_def)
  show "snapshot_size (snap_of m) \<le> stateBytes m"
    unfolding snapshot_size_def stateBytes_def sel s o domain_length COMMITTED_STATE_FIXED_OVERHEAD_def using f by linarith
qed

lemma loaded_entry:
  assumes "store_ok st" "groupLoad st key = Inr (Some s)"
  obtains m where "entry_ok (storeMaximum st) key m" "s = snap_of m" "cloneGroupStateStoreKey key = Inr key"
proof -
  have key: "cloneGroupStateStoreKey key = Inr key" using assms(2) storeKey_Inr [of key] by (auto simp: groupLoad_def sbind_Inr_iff)
  then obtain m where "jget (storeGroups st) (encodeStoreKey key) = Some m" "s = snap_of m" using assms groupLoad_stored by fastforce
  then show thesis using that assms(1) key by (auto simp: store_ok_def)
qed

section \<open>Properties\<close>

text \<open>
  C23: with a collision-free digest, the commitment of a group-state snapshot binds its
  content: two committed snapshots have the same commitment exactly when they agree on
  the revision, the encrypted state, the entries of every array in any order, and the
  fork evidence up to the order of its two branches.
\<close>

theorem snapshot_commitment_binding:
  assumes "collision_free digest"
    and "groupSecurityStoreSnapshotCommitment digest s key = Inr h" "groupSecurityStoreSnapshotCommitment digest t key' = Inr h'"
  shows "h = h' \<longleftrightarrow> same_content s t"
proof -
  have law: "values_ok u \<and> snapshot_valid u k \<and> digest (snapshotWire (canon u)) = Some g" if "groupSecurityStoreSnapshotCommitment digest u k = Inr g" for u k g
    using that by (auto simp: commitment_law canonicalSnapshot_law)
  note s = law [OF assms(2)] and t = law [OF assms(3)]
  have "h = h' \<longleftrightarrow> snapshotWire (canon s) = snapshotWire (canon t)"
    using s t assms(1) unfolding collision_free_def by (metis option.inject)
  also have "\<dots> \<longleftrightarrow> canon s = canon t" using s t snapshotWire_inj [of "canon s" "canon t"] canon_values(1) by metis
  also have "\<dots> \<longleftrightarrow> same_content s t" using s by (intro canon_same [of _ key]) simp
  finally show ?thesis .
qed


definition blank_snapshot :: "int \<Rightarrow> GroupStateStoreSnapshot" where
  "blank_snapshot n = \<lparr>snapRevision = n, snapEncryptedState = None, snapPendingKeyPackages = [], snapPendingKeyPackageRequests = [],
     snapConsumedKeyPackageRefs = [], snapOutbox = [], snapReplay = [], snapForkEvidence = None\<rparr>"

lemma blank_commitment:
  "1 \<le> n \<Longrightarrow> n \<le> 100 \<Longrightarrow> groupSecurityStoreSnapshotCommitment Some (blank_snapshot n) sample_key = Inr (snapshotWire (canon (blank_snapshot n)))"
  by (simp add: commitment_law canonicalSnapshot_law sample_clones values_ok_def snapshot_size_def optional_size_def domain_length
      snapshot_valid_def Let_def blank_snapshot_def MAX_PENDING_TOTAL_BYTES_def MAX_CANONICAL_SNAPSHOT_BYTES_def)

theorem snapshot_commitment_binding_witness:
  "collision_free (Some :: bytes \<Rightarrow> bytes option) \<and>
   (\<exists>h h'. groupSecurityStoreSnapshotCommitment Some (blank_snapshot 1) sample_key = Inr h \<and>
     groupSecurityStoreSnapshotCommitment Some (blank_snapshot 2) sample_key = Inr h' \<and> h \<noteq> h')"
proof -
  have c: "collision_free (Some :: bytes \<Rightarrow> bytes option)" by (simp add: collision_free_def)
  have a: "groupSecurityStoreSnapshotCommitment Some (blank_snapshot 1) sample_key = Inr (snapshotWire (canon (blank_snapshot 1)))"
    "groupSecurityStoreSnapshotCommitment Some (blank_snapshot 2) sample_key = Inr (snapshotWire (canon (blank_snapshot 2)))"
    by (simp_all add: blank_commitment)
  have "\<not> same_content (blank_snapshot 1) (blank_snapshot 2)" by (simp add: same_content_def blank_snapshot_def)
  then show ?thesis using snapshot_commitment_binding [OF c a] a c by blast
qed

text \<open>
  C24: whatever snapshot a reachable group-state store loads can be committed to: its
  canonical encoding exists, so none of the checks, limits and accounting of the
  commitment code rejects it, and it is no longer than the store's own byte budget.
\<close>

theorem stored_snapshot_commits:
  assumes "newGroupStateStore maximum = Inr st" "groupLoad (runTransactions st history) key = Inr (Some s)"
  shows "\<exists>encoded. canonicalGroupSecurityStoreSnapshot s key = Inr encoded \<and> int (length encoded) \<le> maximum"
proof -
  have st: "store_ok (runTransactions st history)" using newGroupStateStore_ok [OF assms(1)] by (rule runTransactions_ok)
  have size: "storeMaximum (runTransactions st history) = maximum" "maximum \<le> MAX_CANONICAL_SNAPSHOT_BYTES"
    using assms(1) by (auto simp: runTransactions_maximum newGroupStateStore_def MAX_GROUP_STATE_STORE_COMMITTED_BYTES_def
        MAX_CANONICAL_SNAPSHOT_BYTES_def split: if_splits)
  obtain m where m: "entry_ok maximum key m" "s = snap_of m" "cloneGroupStateStoreKey key = Inr key"
    using loaded_entry [OF st assms(2)] size(1) by metis
  have budget: "snapshot_size s \<le> maximum" using entry_values(3) [OF m(1,3)] m(1,2) by (simp add: entry_ok_def)
  have "canonicalSnapshot s key = Inr (snapshotWire (canon s), canon s)"
    using entry_values(1,2) [OF m(1,3)] m(2,3) budget size(2) by (simp add: canonicalSnapshot_law)
  then show ?thesis using budget by (simp add: canonicalGroupSecurityStoreSnapshot_def length_snapshotWire)
qed


theorem stored_snapshot_commits_witness:
  "\<exists>encoded. canonicalGroupSecurityStoreSnapshot ((snap_of sample_final)\<lparr>snapRevision := 1\<rparr>) sample_key = Inr encoded \<and>
    int (length encoded) \<le> 4096"
  by (rule stored_snapshot_commits [OF sample_new sample_load])

end
