(* ===== verification/Acl_Chain.thy ===== *)
theory Acl_Chain
  imports Document_Binary
begin

text \<open>
  \<open>packages/core/src/acl-chain.ts\<close>: the append-only, hash-linked log of signed access
  control changes. The signature scheme, SHA-256, the serializers and the adapter of
  the access control state are parameters, the fields of a configuration; a callback
  that throws returns \<open>None\<close>. The public operations run one at a time in the mutation
  queue of the chain, so a run is a sequence of operations. Messages of errors are
  not modelled, their reasons and indices are.
\<close>


section \<open>Definitions\<close>

datatype ACLChainVerifyError =
    BadSignature
  | UnauthorizedSigner
  | ParentHashMismatch
  | SequenceOutOfOrder
  | UnknownSignerKey
  | MalformedEntry

text \<open>The result \<open>{ ok: false, reason, index }\<close> is \<open>Inl (reason, index)\<close>.\<close>

type_synonym ACLChainVerifyResult = "ACLChainVerifyError \<times> nat + unit"

record 'c ACLEntry =
  sequenceNumber :: js_number
  entryTimestamp :: js_number
  parentHash :: "bytes option"
  entryChange :: 'c
  signerKeyId :: bytes
  entrySignature :: bytes

text \<open>
  A change that is itself a byte array has a length before it is serialized:
  \<open>changeByteLength\<close> is that length, and \<open>None\<close> for any other value.
\<close>

record ('c, 'k, 'p, 's) ACLChainConfig =
  authSign :: "bytes \<Rightarrow> 'p \<Rightarrow> bytes option"
  authVerify :: "bytes \<Rightarrow> 'k \<Rightarrow> bytes \<Rightarrow> bool option"
  serializeKey :: "'k \<Rightarrow> bytes option"
  opsEmptyState :: "'s option"
  opsApplyChange :: "'s \<Rightarrow> 'c \<Rightarrow> 's option"
  opsIsWriter :: "'s \<Rightarrow> 'k \<Rightarrow> bool option"
  genesisAuthorizedKeys :: "'k list"
  serializeChange :: "'c \<Rightarrow> bytes option"
  changeByteLength :: "'c \<Rightarrow> nat option"
  sha256 :: "bytes \<Rightarrow> bytes option"

subsection \<open>The canonical payload\<close>

text \<open>\<open>n >>> 0\<close> and the argument conversion of \<open>setUint32\<close>.\<close>

definition toUint32 :: "js_number \<Rightarrow> int" where
  "toUint32 n = (case n of Fin r \<Rightarrow> (if 0 \<le> r then \<lfloor>r\<rfloor> else - \<lfloor>- r\<rfloor>) mod 4294967296 | _ \<Rightarrow> 0)"

definition mathFloor :: "js_number \<Rightarrow> js_number" where
  "mathFloor n = (case n of Fin r \<Rightarrow> Fin (of_int \<lfloor>r\<rfloor>) | _ \<Rightarrow> n)"

definition divideHigh :: "js_number \<Rightarrow> js_number" where
  "divideHigh n = (case n of Fin r \<Rightarrow> Fin (r / 4294967296) | _ \<Rightarrow> n)"

definition lengthPrefix :: "bytes \<Rightarrow> bytes" where
  "lengthPrefix b = bigEndian 4 (int (length b) mod 4294967296)"

definition canonicalEntryPayloadFromBytes :: "'c ACLEntry \<Rightarrow> bytes \<Rightarrow> bytes" where
  "canonicalEntryPayloadFromBytes e changeBytes =
     (let parent = (case parentHash e of None \<Rightarrow> [] | Some h \<Rightarrow> h)
      in bigEndian 4 (toUint32 (sequenceNumber e)) @
         bigEndian 4 (toUint32 (mathFloor (divideHigh (entryTimestamp e)))) @
         bigEndian 4 (toUint32 (entryTimestamp e)) @
         lengthPrefix parent @ parent @
         lengthPrefix (signerKeyId e) @ signerKeyId e @
         lengthPrefix changeBytes @ changeBytes)"

definition canonicalEntryPayload :: "('c, 'k, 'p, 's) ACLChainConfig \<Rightarrow> 'c ACLEntry \<Rightarrow> bytes option" where
  "canonicalEntryPayload cfg e = map_option (canonicalEntryPayloadFromBytes e) (serializeChange cfg (entryChange e))"

definition computeEntryHash :: "('c, 'k, 'p, 's) ACLChainConfig \<Rightarrow> 'c ACLEntry \<Rightarrow> bytes option" where
  "computeEntryHash cfg e = Option.bind (canonicalEntryPayload cfg e) (sha256 cfg)"

subsection \<open>Shape\<close>

definition MAX_PARENT_HASH_BYTES :: nat where
  "MAX_PARENT_HASH_BYTES = 64"

definition MAX_SIGNER_KEY_BYTES :: nat where
  "MAX_SIGNER_KEY_BYTES = 256"

definition MAX_CHANGE_BYTES :: int where
  "MAX_CHANGE_BYTES = 1048576"

datatype shape_error = BadSequenceNumber | BadTimestamp | BadSignerKeyId | BadSignatureLength | BadParentHash

definition validateEntryShape :: "'c ACLEntry \<Rightarrow> shape_error option" where
  "validateEntryShape e =
     (if (case asInteger (sequenceNumber e) of None \<Rightarrow> True | Some n \<Rightarrow> n < 0 \<or> n > 4294967295) then Some BadSequenceNumber
      else if (case asInteger (entryTimestamp e) of None \<Rightarrow> True | Some n \<Rightarrow> n < 0 \<or> n > MAX_SAFE_INTEGER) then Some BadTimestamp
      else if length (signerKeyId e) = 0 \<or> length (signerKeyId e) > MAX_SIGNER_KEY_BYTES then Some BadSignerKeyId
      else if length (entrySignature e) = 0 \<or> int (length (entrySignature e)) > 1024 then Some BadSignatureLength
      else if (case parentHash e of None \<Rightarrow> False | Some h \<Rightarrow> length h = 0 \<or> length h > MAX_PARENT_HASH_BYTES) then Some BadParentHash
      else None)"

subsection \<open>The chain\<close>

record ('c, 's) ACLChain =
  chainEntries :: "'c ACLEntry list"
  chainHashes :: "bytes list"
  chainState :: "'s option"

definition newACLChain :: "('c, 's) ACLChain" where
  "newACLChain = \<lparr>chainEntries = [], chainHashes = [], chainState = None\<rparr>"

definition headHash :: "('c, 's) ACLChain \<Rightarrow> bytes option" where
  "headHash c = (if chainHashes c = [] then None else Some (last (chainHashes c)))"

fun bootstrapScan :: "('k \<Rightarrow> bytes option) \<Rightarrow> bytes \<Rightarrow> 'k list \<Rightarrow> bool option" where
  "bootstrapScan ser candidate [] = Some False"
| "bootstrapScan ser candidate (k # ks) =
     (case ser k of
        None \<Rightarrow> None
      | Some b \<Rightarrow> if equalBytes candidate b then Some True else bootstrapScan ser candidate ks)"

definition isInBootstrapSet :: "('c, 'k, 'p, 's) ACLChainConfig \<Rightarrow> 'k \<Rightarrow> bool option" where
  "isInBootstrapSet cfg candidate =
     Option.bind (serializeKey cfg candidate) (\<lambda>b. bootstrapScan (serializeKey cfg) b (genesisAuthorizedKeys cfg))"

definition checkParent :: "bytes option \<Rightarrow> bytes option \<Rightarrow> bool" where
  "checkParent head parent =
     (case head of
        None \<Rightarrow> parent = None
      | Some h \<Rightarrow> (case parent of None \<Rightarrow> False | Some p \<Rightarrow> equalBytes h p))"

text \<open>Steps 5 to 7: signature, authorization, application.\<close>

definition applyEntry ::
    "('c, 'k, 'p, 's) ACLChainConfig \<Rightarrow> ('c, 's) ACLChain \<Rightarrow> 'c ACLEntry \<Rightarrow> 'k \<Rightarrow> bytes \<Rightarrow> bytes
      \<Rightarrow> ACLChainVerifyResult \<times> ('c, 's) ACLChain" where
  "applyEntry cfg c e key payload hash =
     (let index = length (chainEntries c)
      in if authVerify cfg payload key (entrySignature e) \<noteq> Some True then (Inl (BadSignature, index), c)
         else
           (case (case chainState c of None \<Rightarrow> opsEmptyState cfg | Some s \<Rightarrow> Some s) of
              None \<Rightarrow> (Inl (MalformedEntry, index), c)
            | Some prior \<Rightarrow>
                (case (if index = 0 then isInBootstrapSet cfg key else opsIsWriter cfg prior key) of
                   None \<Rightarrow> (Inl (MalformedEntry, index), c)
                 | Some False \<Rightarrow> (Inl (UnauthorizedSigner, index), c)
                 | Some True \<Rightarrow>
                     (case opsApplyChange cfg prior (entryChange e) of
                        None \<Rightarrow> (Inl (MalformedEntry, index), c)
                      | Some s \<Rightarrow>
                          (Inr (), c\<lparr>chainEntries := chainEntries c @ [e], chainHashes := chainHashes c @ [hash],
                            chainState := Some s\<rparr>)))))"

definition ingestEntryInternal ::
    "('c, 'k, 'p, 's) ACLChainConfig \<Rightarrow> ('c, 's) ACLChain \<Rightarrow> 'c ACLEntry \<Rightarrow> 'k
      \<Rightarrow> ACLChainVerifyResult \<times> ('c, 's) ACLChain" where
  "ingestEntryInternal cfg c e key =
     (let index = length (chainEntries c)
      in if validateEntryShape e \<noteq> None then (Inl (MalformedEntry, index), c)
         else
           (case serializeKey cfg key of
              None \<Rightarrow> (Inl (MalformedEntry, index), c)
            | Some actual \<Rightarrow>
                if \<not> equalBytes (signerKeyId e) actual then (Inl (UnknownSignerKey, index), c)
                else if sequenceNumber e \<noteq> js_int (int index) then (Inl (SequenceOutOfOrder, index), c)
                else if \<not> checkParent (headHash c) (parentHash e) then (Inl (ParentHashMismatch, index), c)
                else if (case changeByteLength cfg (entryChange e) of None \<Rightarrow> False | Some n \<Rightarrow> int n > MAX_CHANGE_BYTES)
                then (Inl (MalformedEntry, index), c)
                else
                  (case serializeChange cfg (entryChange e) of
                     None \<Rightarrow> (Inl (MalformedEntry, index), c)
                   | Some changeBytes \<Rightarrow>
                       if int (length changeBytes) > MAX_CHANGE_BYTES then (Inl (MalformedEntry, index), c)
                       else
                         (let payload = canonicalEntryPayloadFromBytes e changeBytes
                          in if int (length payload) > MAX_CHANGE_BYTES + 1024 then (Inl (MalformedEntry, index), c)
                             else
                               (case sha256 cfg payload of
                                  None \<Rightarrow> (Inl (MalformedEntry, index), c)
                                | Some hash \<Rightarrow> applyEntry cfg c e key payload hash)))))"

definition ingestEntry ::
    "('c, 'k, 'p, 's) ACLChainConfig \<Rightarrow> ('c, 's) ACLChain \<Rightarrow> 'c ACLEntry \<Rightarrow> 'k
      \<Rightarrow> ACLChainVerifyResult \<times> ('c, 's) ACLChain" where
  "ingestEntry cfg c e key = ingestEntryInternal cfg c e key"

datatype author_error = SerializerThrew | SignThrew | Refused ACLChainVerifyError nat

definition authorAndAppend ::
    "('c, 'k, 'p, 's) ACLChainConfig \<Rightarrow> ('c, 's) ACLChain \<Rightarrow> 'c \<Rightarrow> 'k \<Rightarrow> 'p \<Rightarrow> js_number
      \<Rightarrow> (author_error + 'c ACLEntry) \<times> ('c, 's) ACLChain" where
  "authorAndAppend cfg c change key secret timestamp =
     (case serializeKey cfg key of
        None \<Rightarrow> (Inl SerializerThrew, c)
      | Some keyId \<Rightarrow>
          (let unsigned_entry = \<lparr>sequenceNumber = js_int (int (length (chainEntries c))), entryTimestamp = timestamp,
                 parentHash = headHash c, entryChange = change, signerKeyId = keyId, entrySignature = []\<rparr>
           in case canonicalEntryPayload cfg unsigned_entry of
                None \<Rightarrow> (Inl SerializerThrew, c)
              | Some encoded \<Rightarrow>
                  (case authSign cfg encoded secret of
                     None \<Rightarrow> (Inl SignThrew, c)
                   | Some sig \<Rightarrow>
                       (let e = unsigned_entry\<lparr>entrySignature := sig\<rparr>
                        in case ingestEntryInternal cfg c e key of
                             (Inl (reason, i), c') \<Rightarrow> (Inl (Refused reason i), c')
                           | (Inr _, c') \<Rightarrow> (Inr e, c')))))"

text \<open>\<open>resolveKey\<close> throws (\<open>None\<close>), finds no key (\<open>Some None\<close>) or a key.\<close>

fun replayLoop ::
    "('c, 'k, 'p, 's) ACLChainConfig \<Rightarrow> (bytes \<Rightarrow> 'k option option) \<Rightarrow> nat \<Rightarrow> 'c ACLEntry list \<Rightarrow> ('c, 's) ACLChain
      \<Rightarrow> ACLChainVerifyResult \<times> ('c, 's) ACLChain" where
  "replayLoop cfg resolveKey i [] c = (Inr (), c)"
| "replayLoop cfg resolveKey i (e # es) c =
     (if validateEntryShape e \<noteq> None then (Inl (MalformedEntry, i), c)
      else
        (case resolveKey (signerKeyId e) of
           None \<Rightarrow> (Inl (UnknownSignerKey, i), c)
         | Some None \<Rightarrow> (Inl (UnknownSignerKey, i), c)
         | Some (Some key) \<Rightarrow>
             (case ingestEntryInternal cfg c e key of
                (Inl r, c') \<Rightarrow> (Inl r, c')
              | (Inr _, c') \<Rightarrow> replayLoop cfg resolveKey (Suc i) es c')))"

definition replayChain ::
    "('c, 'k, 'p, 's) ACLChainConfig \<Rightarrow> ('c, 's) ACLChain \<Rightarrow> 'c ACLEntry list \<Rightarrow> (bytes \<Rightarrow> 'k option option)
      \<Rightarrow> ACLChainVerifyResult \<times> ('c, 's) ACLChain" where
  "replayChain cfg c es resolveKey =
     replayLoop cfg resolveKey 0 es (c\<lparr>chainEntries := [], chainHashes := [], chainState := None\<rparr>)"

subsection \<open>Runs\<close>

datatype ('c, 'k, 'p) chain_op =
    OpAuthor 'c 'k 'p js_number
  | OpIngest "'c ACLEntry" 'k
  | OpReplay "'c ACLEntry list" "bytes \<Rightarrow> 'k option option"

fun chainStep :: "('c, 'k, 'p, 's) ACLChainConfig \<Rightarrow> ('c, 'k, 'p) chain_op \<Rightarrow> ('c, 's) ACLChain \<Rightarrow> ('c, 's) ACLChain" where
  "chainStep cfg (OpAuthor change key secret t) c = snd (authorAndAppend cfg c change key secret t)"
| "chainStep cfg (OpIngest e key) c = snd (ingestEntry cfg c e key)"
| "chainStep cfg (OpReplay es resolveKey) c = snd (replayChain cfg c es resolveKey)"

definition runChain :: "('c, 'k, 'p, 's) ACLChainConfig \<Rightarrow> ('c, 'k, 'p) chain_op list \<Rightarrow> ('c, 's) ACLChain" where
  "runChain cfg ops = fold (chainStep cfg) ops newACLChain"

text \<open>What the history of a chain means: the state after its changes.\<close>

fun stateAfter :: "('c, 'k, 'p, 's) ACLChainConfig \<Rightarrow> 's \<Rightarrow> 'c ACLEntry list \<Rightarrow> 's option" where
  "stateAfter cfg s [] = Some s"
| "stateAfter cfg s (e # es) = Option.bind (opsApplyChange cfg s (entryChange e)) (\<lambda>s'. stateAfter cfg s' es)"


section \<open>The payload determines the entry\<close>

lemma bigEndian4_append:
  assumes "bigEndian 4 m @ r = bigEndian 4 n @ s" "0 \<le> m" "m < 4294967296" "0 \<le> n" "n < 4294967296"
  shows "m = n \<and> r = s"
  using bigEndian_append [OF assms(1,2) _ assms(4)] assms(3,5) by simp

lemma lengthPrefix_append:
  assumes "lengthPrefix x @ x @ r = lengthPrefix y @ y @ s" "int (length x) < 4294967296" "int (length y) < 4294967296"
  shows "x = y \<and> r = s"
proof -
  have "int (length x) = int (length y) \<and> x @ r = y @ s"
    using assms by (intro bigEndian4_append) (simp_all add: lengthPrefix_def)
  then show ?thesis by auto
qed

lemma toUint32_int: "0 \<le> n \<Longrightarrow> toUint32 (js_int n) = n mod 4294967296"
  by (simp add: toUint32_def js_int_def)

lemma timestamp_words:
  "0 \<le> t \<Longrightarrow> toUint32 (mathFloor (divideHigh (js_int t))) = (t div 4294967296) mod 4294967296"
proof -
  assume "0 \<le> t"
  have "\<lfloor>(of_int t :: rat) / 4294967296\<rfloor> = t div 4294967296" using floor_divide_of_int_eq [of t 4294967296, where 'a = rat] by simp
  then show ?thesis using \<open>0 \<le> t\<close> toUint32_int [of "t div 4294967296"]
    by (simp add: mathFloor_def divideHigh_def js_int_def)
qed

lemma shape_ok:
  assumes "validateEntryShape e = None"
  obtains n t where "sequenceNumber e = js_int n" "0 \<le> n" "n < 4294967296" "entryTimestamp e = js_int t" "0 \<le> t" "t \<le> MAX_SAFE_INTEGER"
    "length (signerKeyId e) \<le> 256" "\<forall>h. parentHash e = Some h \<longrightarrow> h \<noteq> [] \<and> length h \<le> 64"
proof -
  obtain n where n: "asInteger (sequenceNumber e) = Some n" using assms by (auto simp: validateEntryShape_def split: if_splits option.splits)
  obtain t where t: "asInteger (entryTimestamp e) = Some t" using assms by (auto simp: validateEntryShape_def split: if_splits option.splits)
  have "0 \<le> n" "n < 4294967296" "0 \<le> t" "t \<le> MAX_SAFE_INTEGER" "length (signerKeyId e) \<le> 256"
    "\<forall>h. parentHash e = Some h \<longrightarrow> h \<noteq> [] \<and> length h \<le> 64"
    using assms n t by (auto simp: validateEntryShape_def MAX_SIGNER_KEY_BYTES_def MAX_PARENT_HASH_BYTES_def split: if_splits option.splits)
  then show thesis using that asInteger_Some [OF n] asInteger_Some [OF t] by blast
qed

lemma payload_inj:
  assumes eq: "canonicalEntryPayloadFromBytes e b = canonicalEntryPayloadFromBytes e' b'"
    and ok: "validateEntryShape e = None" "validateEntryShape e' = None"
    and len: "int (length b) < 4294967296" "int (length b') < 4294967296"
  shows "sequenceNumber e = sequenceNumber e' \<and> entryTimestamp e = entryTimestamp e' \<and> parentHash e = parentHash e' \<and>
    signerKeyId e = signerKeyId e' \<and> b = b'"
proof -
  obtain n t where e: "sequenceNumber e = js_int n" "0 \<le> n" "n < 4294967296" "entryTimestamp e = js_int t" "0 \<le> t" "t \<le> MAX_SAFE_INTEGER"
    "length (signerKeyId e) \<le> 256" "\<forall>h. parentHash e = Some h \<longrightarrow> h \<noteq> [] \<and> length h \<le> 64" by (rule shape_ok [OF ok(1)])
  obtain n' t' where e': "sequenceNumber e' = js_int n'" "0 \<le> n'" "n' < 4294967296" "entryTimestamp e' = js_int t'" "0 \<le> t'" "t' \<le> MAX_SAFE_INTEGER"
    "length (signerKeyId e') \<le> 256" "\<forall>h. parentHash e' = Some h \<longrightarrow> h \<noteq> [] \<and> length h \<le> 64" by (rule shape_ok [OF ok(2)])
  define p where "p = (case parentHash e of None \<Rightarrow> [] | Some h \<Rightarrow> h)"
  define p' where "p' = (case parentHash e' of None \<Rightarrow> [] | Some h \<Rightarrow> h)"
  have pl: "int (length p) < 4294967296" "int (length p') < 4294967296" "int (length (signerKeyId e)) < 4294967296"
    "int (length (signerKeyId e')) < 4294967296"
    using e(7,8) e'(7,8) by (auto simp: p_def p'_def split: option.splits)
  let ?r = "lengthPrefix p @ p @ lengthPrefix (signerKeyId e) @ signerKeyId e @ lengthPrefix b @ b"
  let ?r' = "lengthPrefix p' @ p' @ lengthPrefix (signerKeyId e') @ signerKeyId e' @ lengthPrefix b' @ b'"
  have "bigEndian 4 n @ bigEndian 4 (t div 4294967296) @ bigEndian 4 (t mod 4294967296) @ ?r =
      bigEndian 4 n' @ bigEndian 4 (t' div 4294967296) @ bigEndian 4 (t' mod 4294967296) @ ?r'"
    using eq e(1-6) e'(1-6) unfolding canonicalEntryPayloadFromBytes_def Let_def p_def [symmetric] p'_def [symmetric]
    by (simp add: toUint32_int timestamp_words)
  note 1 = bigEndian4_append [OF this e(2,3) e'(2,3)]
  have hi: "0 \<le> t div 4294967296" "t div 4294967296 < 4294967296" "0 \<le> t' div 4294967296" "t' div 4294967296 < 4294967296"
    using e(5,6) e'(5,6) by auto
  note 2 = bigEndian4_append [OF conjunct2 [OF 1] hi]
  have lo: "0 \<le> t mod 4294967296" "t mod 4294967296 < 4294967296" "0 \<le> t' mod 4294967296" "t' mod 4294967296 < 4294967296" by simp_all
  note 3 = bigEndian4_append [OF conjunct2 [OF 2] lo]
  note 4 = lengthPrefix_append [OF conjunct2 [OF 3] pl(1,2)]
  note 5 = lengthPrefix_append [OF conjunct2 [OF 4] pl(3,4)]
  have 6: "b = b'" using lengthPrefix_append [of b "[]" b' "[]"] 5 len by simp
  have "t = t'" using 2 3 by (metis div_mult_mod_eq)
  moreover have "parentHash e = parentHash e'" using 4 e(8) e'(8) by (auto simp: p_def p'_def split: option.splits)
  ultimately show ?thesis using 1 5 6 e(1,4) e'(1,4) by simp
qed


section \<open>The invariant\<close>

definition sizes_fit :: "('c, 'k, 'p, 's) ACLChainConfig \<Rightarrow> 'c ACLEntry \<Rightarrow> bool" where
  "sizes_fit cfg e \<longleftrightarrow> (case changeByteLength cfg (entryChange e) of None \<Rightarrow> True | Some n \<Rightarrow> int n \<le> MAX_CHANGE_BYTES) \<and>
     (\<exists>b. serializeChange cfg (entryChange e) = Some b \<and> int (length b) \<le> MAX_CHANGE_BYTES \<and>
        int (length (canonicalEntryPayloadFromBytes e b)) \<le> MAX_CHANGE_BYTES + 1024)"

text \<open>The signer of an entry was entitled to write after the entries before it.\<close>

definition signer_authorized :: "('c, 'k, 'p, 's) ACLChainConfig \<Rightarrow> 'c ACLEntry list \<Rightarrow> 'k \<Rightarrow> bool" where
  "signer_authorized cfg earlier key \<longleftrightarrow>
     (if earlier = [] then isInBootstrapSet cfg key = Some True
      else \<exists>s0 s. opsEmptyState cfg = Some s0 \<and> stateAfter cfg s0 earlier = Some s \<and> opsIsWriter cfg s key = Some True)"

definition entry_valid :: "('c, 'k, 'p, 's) ACLChainConfig \<Rightarrow> 'c ACLEntry list \<Rightarrow> bytes option \<Rightarrow> 'c ACLEntry \<Rightarrow> bytes \<Rightarrow> bool" where
  "entry_valid cfg earlier head e h \<longleftrightarrow> validateEntryShape e = None \<and> sizes_fit cfg e \<and>
     sequenceNumber e = js_int (int (length earlier)) \<and> parentHash e = head \<and> computeEntryHash cfg e = Some h \<and>
     (\<exists>key payload. serializeKey cfg key = Some (signerKeyId e) \<and> canonicalEntryPayload cfg e = Some payload \<and>
        authVerify cfg payload key (entrySignature e) = Some True \<and> signer_authorized cfg earlier key)"

definition last_hash :: "bytes list \<Rightarrow> bytes option" where
  "last_hash hs = (if hs = [] then None else Some (last hs))"

definition chain_state_of :: "('c, 'k, 'p, 's) ACLChainConfig \<Rightarrow> 'c ACLEntry list \<Rightarrow> 's option" where
  "chain_state_of cfg es = (if es = [] then None else Option.bind (opsEmptyState cfg) (\<lambda>s. stateAfter cfg s es))"

definition chain_valid :: "('c, 'k, 'p, 's) ACLChainConfig \<Rightarrow> ('c, 's) ACLChain \<Rightarrow> bool" where
  "chain_valid cfg c \<longleftrightarrow> length (chainHashes c) = length (chainEntries c) \<and>
     (\<forall>i < length (chainEntries c). entry_valid cfg (take i (chainEntries c)) (last_hash (take i (chainHashes c)))
        (chainEntries c ! i) (chainHashes c ! i)) \<and>
     chainState c = chain_state_of cfg (chainEntries c) \<and> (chainEntries c \<noteq> [] \<longrightarrow> chainState c \<noteq> None)"

lemma stateAfter_append: "stateAfter cfg s (xs @ ys) = Option.bind (stateAfter cfg s xs) (\<lambda>s'. stateAfter cfg s' ys)"
proof (induction xs arbitrary: s)
  case (Cons e xs)
  then show ?case by (cases "opsApplyChange cfg s (entryChange e)") simp_all
qed simp

lemma checkParent_iff [simp]: "checkParent head parent \<longleftrightarrow> parent = head"
  by (auto simp: checkParent_def split: option.splits)

definition appended :: "('c, 's) ACLChain \<Rightarrow> 'c ACLEntry \<Rightarrow> bytes \<Rightarrow> 's \<Rightarrow> ('c, 's) ACLChain" where
  "appended c e h s = c\<lparr>chainEntries := chainEntries c @ [e], chainHashes := chainHashes c @ [h], chainState := Some s\<rparr>"

lemma applyEntry_Inr: "applyEntry cfg c e key payload h = (Inr u, c') \<longleftrightarrow>
    authVerify cfg payload key (entrySignature e) = Some True \<and>
    (\<exists>prior s. (case chainState c of None \<Rightarrow> opsEmptyState cfg | Some s \<Rightarrow> Some s) = Some prior \<and>
      (if chainEntries c = [] then isInBootstrapSet cfg key else opsIsWriter cfg prior key) = Some True \<and>
      opsApplyChange cfg prior (entryChange e) = Some s \<and> c' = appended c e h s)"
  by (auto simp: applyEntry_def Let_def appended_def split: option.splits bool.splits if_splits)

lemma applyEntry_Inl: "applyEntry cfg c e key payload h = (Inl x, c') \<Longrightarrow> c' = c"
  by (auto simp: applyEntry_def Let_def split: option.splits bool.splits if_splits)

lemma ingest_Inl: "ingestEntryInternal cfg c e key = (Inl x, c') \<Longrightarrow> c' = c"
  by (auto simp: ingestEntryInternal_def Let_def dest: applyEntry_Inl split: option.splits if_splits)

lemma ingest_Inr: "ingestEntryInternal cfg c e key = (Inr u, c') \<longleftrightarrow>
    validateEntryShape e = None \<and> serializeKey cfg key = Some (signerKeyId e) \<and>
    sequenceNumber e = js_int (int (length (chainEntries c))) \<and> parentHash e = headHash c \<and> sizes_fit cfg e \<and>
    (\<exists>payload h. canonicalEntryPayload cfg e = Some payload \<and> sha256 cfg payload = Some h \<and>
      applyEntry cfg c e key payload h = (Inr u, c'))"
  by (auto simp: ingestEntryInternal_def Let_def sizes_fit_def canonicalEntryPayload_def split: option.splits if_splits)


lemma headHash_last: "headHash c = last_hash (chainHashes c)"
  by (simp add: headHash_def last_hash_def)

lemma valid_state:
  assumes "chain_valid cfg c" "chainEntries c \<noteq> []"
  obtains s0 s where "opsEmptyState cfg = Some s0" "stateAfter cfg s0 (chainEntries c) = Some s" "chainState c = Some s"
proof -
  have c: "chainState c = chain_state_of cfg (chainEntries c)" "chainState c \<noteq> None"
    using assms unfolding chain_valid_def by blast+
  then obtain s where s: "chainState c = Some s" by blast
  then show thesis using c(1) assms(2) that by (auto simp: chain_state_of_def Option.bind_eq_Some_conv)
qed

lemma valid_prior:
  assumes "chain_valid cfg c" "(case chainState c of None \<Rightarrow> opsEmptyState cfg | Some s \<Rightarrow> Some s) = Some prior"
  shows "\<exists>s0. opsEmptyState cfg = Some s0 \<and> stateAfter cfg s0 (chainEntries c) = Some prior"
proof (cases "chainEntries c = []")
  case True
  then show ?thesis using assms by (simp add: chain_valid_def chain_state_of_def)
next
  case False
  show ?thesis using valid_state [OF assms(1) False] assms(2) by (metis option.simps(5))
qed

lemma appended_valid:
  assumes "chain_valid cfg c" "entry_valid cfg (chainEntries c) (headHash c) e h"
    and "opsEmptyState cfg = Some s0" "stateAfter cfg s0 (chainEntries c) = Some prior" "opsApplyChange cfg prior (entryChange e) = Some s"
  shows "chain_valid cfg (appended c e h s)"
proof -
  have l: "length (chainHashes c) = length (chainEntries c)" using assms(1) by (simp add: chain_valid_def)
  have "entry_valid cfg (take i (chainEntries c @ [e])) (last_hash (take i (chainHashes c @ [h])))
      ((chainEntries c @ [e]) ! i) ((chainHashes c @ [h]) ! i)" if i: "i < Suc (length (chainEntries c))" for i
  proof (cases "i = length (chainEntries c)")
    case True
    then show ?thesis using l assms(2) by (simp add: headHash_last nth_append)
  next
    case False
    then have "i < length (chainEntries c)" using i by simp
    then show ?thesis using assms(1) l by (simp add: chain_valid_def nth_append)
  qed
  then show ?thesis using l assms(3-5)
    by (simp add: chain_valid_def appended_def chain_state_of_def stateAfter_append)
qed

lemma ingest_valid:
  assumes v: "chain_valid cfg c" and g: "ingestEntryInternal cfg c e key = (r, c')"
  shows "chain_valid cfg c'"
proof (cases r)
  case (Inl x)
  have "c' = c" using g [unfolded Inl] by (rule ingest_Inl)
  then show ?thesis using v by simp
next
  case (Inr u)
  from g [unfolded Inr ingest_Inr] obtain payload h where
    i: "validateEntryShape e = None" "serializeKey cfg key = Some (signerKeyId e)"
      "sequenceNumber e = js_int (int (length (chainEntries c)))" "parentHash e = headHash c" "sizes_fit cfg e"
      "canonicalEntryPayload cfg e = Some payload" "sha256 cfg payload = Some h" "applyEntry cfg c e key payload h = (Inr u, c')" by blast
  from i(8) [unfolded applyEntry_Inr] obtain prior s where
    a: "authVerify cfg payload key (entrySignature e) = Some True"
      "(case chainState c of None \<Rightarrow> opsEmptyState cfg | Some s \<Rightarrow> Some s) = Some prior"
      "(if chainEntries c = [] then isInBootstrapSet cfg key else opsIsWriter cfg prior key) = Some True"
      "opsApplyChange cfg prior (entryChange e) = Some s" "c' = appended c e h s" by blast
  obtain s0 where s0: "opsEmptyState cfg = Some s0" "stateAfter cfg s0 (chainEntries c) = Some prior" using valid_prior [OF v a(2)] by blast
  have "signer_authorized cfg (chainEntries c) key" using a(3) s0 by (auto simp: signer_authorized_def split: if_splits)
  then have "entry_valid cfg (chainEntries c) (headHash c) e h"
    using i a(1) by (auto simp: entry_valid_def computeEntryHash_def)
  then show ?thesis unfolding a(5) by (rule appended_valid [OF v _ s0 a(4)])
qed

lemma author_valid: "chain_valid cfg c \<Longrightarrow> chain_valid cfg (snd (authorAndAppend cfg c change key secret t))"
  by (auto simp: authorAndAppend_def Let_def dest: ingest_valid split: option.splits prod.splits sum.splits)

lemma new_valid: "chain_valid cfg newACLChain"
  by (simp add: chain_valid_def newACLChain_def chain_state_of_def)

lemma replayLoop_valid: "chain_valid cfg c \<Longrightarrow> chain_valid cfg (snd (replayLoop cfg resolveKey i es c))"
proof (induction es arbitrary: i c)
  case (Cons e es)
  then show ?case by (auto dest: ingest_valid split: option.splits prod.splits sum.splits)
qed simp

lemma reset_is_new: "c\<lparr>chainEntries := [], chainHashes := [], chainState := None\<rparr> = (newACLChain :: ('c, 's) ACLChain)"
  for c :: "('c, 's) ACLChain"
  by (simp add: newACLChain_def)

lemma chainStep_valid: "chain_valid cfg c \<Longrightarrow> chain_valid cfg (chainStep cfg op c)"
proof (cases op)
  case (OpIngest e key)
  then show "chain_valid cfg c \<Longrightarrow> ?thesis" using ingest_valid by (cases "ingestEntryInternal cfg c e key") (auto simp: ingestEntry_def)
qed (auto simp: author_valid replayChain_def reset_is_new intro: replayLoop_valid new_valid)

interpretation acl: step_invariant "chainStep cfg" "chain_valid cfg" for cfg
  by unfold_locales (rule chainStep_valid)

lemma runChain_valid: "chain_valid cfg (runChain cfg ops)"
  unfolding runChain_def by (rule acl.run_inv [OF new_valid])


section \<open>Histories with one head are one history\<close>

definition unsigned_entry :: "'c ACLEntry \<Rightarrow> 'c ACLEntry" where
  "unsigned_entry e = e\<lparr>entrySignature := []\<rparr>"

definition history_valid :: "('c, 'k, 'p, 's) ACLChainConfig \<Rightarrow> 'c ACLEntry list \<Rightarrow> bytes list \<Rightarrow> bool" where
  "history_valid cfg es hs \<longleftrightarrow> length hs = length es \<and>
     (\<forall>i < length es. entry_valid cfg (take i es) (last_hash (take i hs)) (es ! i) (hs ! i))"

lemma history_snoc:
  assumes "history_valid cfg (es @ [e]) (hs @ [h])"
  shows "history_valid cfg es hs" "entry_valid cfg es (last_hash hs) e h"
proof -
  have l: "length hs = length es" using assms by (simp add: history_valid_def)
  have all: "\<forall>i < Suc (length es). entry_valid cfg (take i (es @ [e])) (last_hash (take i (hs @ [h]))) ((es @ [e]) ! i) ((hs @ [h]) ! i)"
    using assms unfolding history_valid_def length_append_singleton by blast
  show "history_valid cfg es hs" unfolding history_valid_def
  proof (intro conjI allI impI)
    fix i assume i: "i < length es"
    then show "entry_valid cfg (take i es) (last_hash (take i hs)) (es ! i) (hs ! i)"
      using all [rule_format, of i] l by (simp add: nth_append)
  qed (rule l)
  show "entry_valid cfg es (last_hash hs) e h" using all [rule_format, of "length es"] l by (simp add: nth_append)
qed

lemma entry_payload_inj:
  assumes coll: "\<And>x y h. sha256 cfg x = Some h \<Longrightarrow> sha256 cfg y = Some h \<Longrightarrow> x = y"
    and ser: "\<And>c c' b. serializeChange cfg c = Some b \<Longrightarrow> serializeChange cfg c' = Some b \<Longrightarrow> c = c'"
    and e: "entry_valid cfg es p e h" and e': "entry_valid cfg es' p' e' h"
  shows "unsigned_entry e = unsigned_entry e' \<and> length es = length es' \<and> p = p'"
proof -
  obtain b where b: "serializeChange cfg (entryChange e) = Some b" "int (length b) \<le> MAX_CHANGE_BYTES"
    using e by (auto simp: entry_valid_def sizes_fit_def)
  obtain b' where b': "serializeChange cfg (entryChange e') = Some b'" "int (length b') \<le> MAX_CHANGE_BYTES"
    using e' by (auto simp: entry_valid_def sizes_fit_def)
  have "sha256 cfg (canonicalEntryPayloadFromBytes e b) = Some h" "sha256 cfg (canonicalEntryPayloadFromBytes e' b') = Some h"
    using e e' b b' by (simp_all add: entry_valid_def computeEntryHash_def canonicalEntryPayload_def)
  then have "canonicalEntryPayloadFromBytes e b = canonicalEntryPayloadFromBytes e' b'" by (rule coll)
  then have f: "sequenceNumber e = sequenceNumber e'" "entryTimestamp e = entryTimestamp e'" "parentHash e = parentHash e'"
    "signerKeyId e = signerKeyId e'" "b = b'"
    using payload_inj [of e b e' b'] e e' b(2) b'(2) by (auto simp: entry_valid_def MAX_CHANGE_BYTES_def)
  moreover have "entryChange e = entryChange e'" using ser b(1) b'(1) f(5) by blast
  ultimately show ?thesis using e e' by (auto simp: unsigned_entry_def entry_valid_def intro: ACLEntry.equality)
qed

lemma same_head_same_history:
  assumes coll: "\<And>x y h. sha256 cfg x = Some h \<Longrightarrow> sha256 cfg y = Some h \<Longrightarrow> x = y"
    and ser: "\<And>c c' b. serializeChange cfg c = Some b \<Longrightarrow> serializeChange cfg c' = Some b \<Longrightarrow> c = c'"
  shows "history_valid cfg es hs \<Longrightarrow> history_valid cfg es' hs' \<Longrightarrow> last_hash hs = last_hash hs' \<Longrightarrow>
    map unsigned_entry es = map unsigned_entry es' \<and> hs = hs'"
proof (induction es arbitrary: hs es' hs' rule: rev_induct)
  case Nil
  then show ?case by (auto simp: history_valid_def last_hash_def split: if_splits)
next
  case (snoc e es)
  obtain hs1 h where hs: "hs = hs1 @ [h]" using snoc.prems(1) by (cases hs rule: rev_cases) (auto simp: history_valid_def)
  obtain hs1' h' where hs': "hs' = hs1' @ [h']" using snoc.prems(3) hs by (cases hs' rule: rev_cases) (auto simp: last_hash_def)
  obtain es1 e' where es': "es' = es1 @ [e']" using snoc.prems(2) hs' by (cases es' rule: rev_cases) (auto simp: history_valid_def)
  have h: "h' = h" using snoc.prems(3) hs hs' by (simp add: last_hash_def)
  note a = history_snoc [OF snoc.prems(1) [unfolded hs]] and b = history_snoc [OF snoc.prems(2) [unfolded hs' es' h]]
  have p: "unsigned_entry e = unsigned_entry e'" "last_hash hs1 = last_hash hs1'"
    using entry_payload_inj [OF coll ser a(2) b(2)] by auto
  show ?case using snoc.IH [OF a(1) b(1) p(2)] p(1) hs hs' h es' by simp
qed

lemma stateAfter_unsigned: "map unsigned_entry es = map unsigned_entry es' \<Longrightarrow> stateAfter cfg s es = stateAfter cfg s es'"
proof (induction es arbitrary: s es')
  case (Cons e es)
  then obtain e' es1 where es': "es' = e' # es1" "unsigned_entry e = unsigned_entry e'" "map unsigned_entry es = map unsigned_entry es1"
    by (cases es') auto
  have "entryChange (unsigned_entry e) = entryChange (unsigned_entry e')" using es'(2) by simp
  then have "entryChange e = entryChange e'" by (simp add: unsigned_entry_def)
  then show ?case using Cons.IH [OF es'(3)] es'(1) by simp
qed simp


section \<open>Replaying a chain\<close>

lemma ingest_next:
  assumes v: "chain_valid cfg c" and k: "k < length (chainEntries c)"
    and key: "serializeKey cfg key = Some (signerKeyId (chainEntries c ! k))"
    and same: "\<And>key'. serializeKey cfg key' = Some (signerKeyId (chainEntries c ! k)) \<Longrightarrow> key' = key"
  defines "prefix \<equiv> \<lambda>n. \<lparr>chainEntries = take n (chainEntries c), chainHashes = take n (chainHashes c),
     chainState = chain_state_of cfg (take n (chainEntries c))\<rparr>"
  shows "ingestEntryInternal cfg (prefix k) (chainEntries c ! k) key = (Inr (), prefix (Suc k))"
proof -
  let ?es = "chainEntries c" and ?hs = "chainHashes c"
  let ?e = "?es ! k"
  have l: "length ?hs = length ?es" using v by (simp add: chain_valid_def)
  have e: "entry_valid cfg (take k ?es) (last_hash (take k ?hs)) ?e (?hs ! k)" using v k by (simp add: chain_valid_def)
  obtain payload where p: "canonicalEntryPayload cfg ?e = Some payload" "authVerify cfg payload key (entrySignature ?e) = Some True"
    "signer_authorized cfg (take k ?es) key" using e same by (auto simp: entry_valid_def)
  have h: "sha256 cfg payload = Some (?hs ! k)" using e p(1) by (simp add: entry_valid_def computeEntryHash_def)
  have ne: "?es \<noteq> []" using k by auto
  obtain s0 fin where s0: "opsEmptyState cfg = Some s0" "stateAfter cfg s0 ?es = Some fin" by (rule valid_state [OF v ne])
  have split: "?es = take k ?es @ ?e # drop (Suc k) ?es" using k by (simp add: id_take_nth_drop)
  have "Option.bind (stateAfter cfg s0 (take k ?es)) (\<lambda>s. stateAfter cfg s (?e # drop (Suc k) ?es)) = Some fin"
    unfolding stateAfter_append [symmetric] split [symmetric] by (rule s0(2))
  then obtain prior where prior: "stateAfter cfg s0 (take k ?es) = Some prior" and rest: "stateAfter cfg prior (?e # drop (Suc k) ?es) = Some fin"
    unfolding Option.bind_eq_Some_conv by blast
  obtain s where s: "opsApplyChange cfg prior (entryChange ?e) = Some s" using rest by (auto simp: Option.bind_eq_Some_conv)
  have take_Suc: "take (Suc k) ?es = take k ?es @ [?e]" "take (Suc k) ?hs = take k ?hs @ [?hs ! k]"
    using k l by (simp_all add: take_Suc_conv_app_nth)
  have next_state: "chain_state_of cfg (take (Suc k) ?es) = Some s"
    using s0(1) prior s by (simp add: chain_state_of_def take_Suc(1) stateAfter_append)
  have empty: "take k ?es = [] \<longleftrightarrow> k = 0" using ne by auto
  have "applyEntry cfg (prefix k) ?e key payload (?hs ! k) = (Inr (), prefix (Suc k))"
    unfolding applyEntry_Inr
  proof (intro conjI exI)
    show "authVerify cfg payload key (entrySignature ?e) = Some True" by (rule p(2))
    show "(case chainState (prefix k) of None \<Rightarrow> opsEmptyState cfg | Some s \<Rightarrow> Some s) = Some prior"
      using prior s0(1) by (auto simp: prefix_def chain_state_of_def)
    show "(if chainEntries (prefix k) = [] then isInBootstrapSet cfg key else opsIsWriter cfg prior key) = Some True"
      using p(3) prior s0(1) by (auto simp: prefix_def signer_authorized_def split: if_splits)
    show "opsApplyChange cfg prior (entryChange ?e) = Some s" by (rule s)
    show "prefix (Suc k) = appended (prefix k) ?e (?hs ! k) s" using next_state by (simp add: prefix_def appended_def take_Suc)
  qed
  then show ?thesis unfolding ingest_Inr using e key p(1) h by (auto simp: entry_valid_def prefix_def headHash_last)
qed


lemma replayLoop_prefix:
  assumes v: "chain_valid cfg c" and res: "\<And>key b. serializeKey cfg key = Some b \<Longrightarrow> resolveKey b = Some (Some key)"
    and k: "k \<le> length (chainEntries c)"
  defines "prefix \<equiv> \<lambda>n. \<lparr>chainEntries = take n (chainEntries c), chainHashes = take n (chainHashes c),
     chainState = chain_state_of cfg (take n (chainEntries c))\<rparr>"
  shows "replayLoop cfg resolveKey k (drop k (chainEntries c)) (prefix k) = (Inr (), prefix (length (chainEntries c)))"
  using k
proof (induction "length (chainEntries c) - k" arbitrary: k)
  case 0
  then show ?case by simp
next
  case (Suc n)
  then have lt: "k < length (chainEntries c)" by simp
  let ?e = "chainEntries c ! k"
  have "entry_valid cfg (take k (chainEntries c)) (last_hash (take k (chainHashes c))) ?e (chainHashes c ! k)"
    using v lt by (simp add: chain_valid_def)
  then obtain key where shape: "validateEntryShape ?e = None" and key: "serializeKey cfg key = Some (signerKeyId ?e)" by (auto simp: entry_valid_def)
  have r: "resolveKey (signerKeyId ?e) = Some (Some key)" by (rule res [OF key])
  have "ingestEntryInternal cfg (prefix k) ?e key = (Inr (), prefix (Suc k))"
    unfolding prefix_def using res [of _ "signerKeyId ?e"] r by (intro ingest_next [OF v lt key]) simp
  moreover have "replayLoop cfg resolveKey (Suc k) (drop (Suc k) (chainEntries c)) (prefix (Suc k)) = (Inr (), prefix (length (chainEntries c)))"
    using Suc lt by (intro Suc.hyps(1)) simp_all
  moreover have "drop k (chainEntries c) = ?e # drop (Suc k) (chainEntries c)" using lt by (rule Cons_nth_drop_Suc [symmetric])
  ultimately show ?case using shape r by simp
qed


section \<open>Properties\<close>

definition sample_acl :: "(8 word, 8 word, 8 word, 8 word list) ACLChainConfig" where
  "sample_acl = \<lparr>authSign = \<lambda>m p. Some [p], authVerify = \<lambda>m k s. Some (s = [k]), serializeKey = \<lambda>k. Some [k],
     opsEmptyState = Some [], opsApplyChange = \<lambda>s c. Some (c # s), opsIsWriter = \<lambda>s k. Some (k \<in> set s),
     genesisAuthorizedKeys = [1], serializeChange = \<lambda>c. Some [c], changeByteLength = \<lambda>_. None, sha256 = Some\<rparr>"

definition sample_acl_ops :: "(8 word, 8 word, 8 word) chain_op list" where
  "sample_acl_ops = [OpAuthor 2 1 1 (js_int 5), OpAuthor 3 2 2 (js_int 6)]"

lemma sample_acl_length: "length (chainEntries (runChain sample_acl sample_acl_ops)) = 2"
  by code_simp

text \<open>C26: Every entry of a chain, however it got there, was signed over its canonical payload by a key that could
  write in the state produced by the entries before it, or by a founding key for the first entry; entries
  are numbered from zero and each names the hash of its predecessor, and the state of the chain is what its
  changes produce.\<close>

theorem acl_chain_authorized:
  assumes "c = runChain cfg ops" "i < length (chainEntries c)" "e = chainEntries c ! i"
  shows "(\<exists>key payload. serializeKey cfg key = Some (signerKeyId e) \<and> canonicalEntryPayload cfg e = Some payload \<and>
      authVerify cfg payload key (entrySignature e) = Some True \<and>
      (if i = 0 then isInBootstrapSet cfg key = Some True
       else \<exists>s0 s. opsEmptyState cfg = Some s0 \<and> stateAfter cfg s0 (take i (chainEntries c)) = Some s \<and> opsIsWriter cfg s key = Some True)) \<and>
    sequenceNumber e = js_int (int i) \<and>
    parentHash e = (if i = 0 then None else computeEntryHash cfg (chainEntries c ! (i - 1))) \<and>
    chainState c = Option.bind (opsEmptyState cfg) (\<lambda>s. stateAfter cfg s (chainEntries c))"
proof -
  have v: "chain_valid cfg c" unfolding assms(1) by (rule runChain_valid)
  have e: "entry_valid cfg (take i (chainEntries c)) (last_hash (take i (chainHashes c))) e (chainHashes c ! i)"
    using v assms(2) unfolding assms(3) by (simp add: chain_valid_def)
  have parent: "last_hash (take i (chainHashes c)) = (if i = 0 then None else computeEntryHash cfg (chainEntries c ! (i - 1)))"
  proof (cases i)
    case (Suc j)
    have l: "length (chainHashes c) = length (chainEntries c)" using v by (simp add: chain_valid_def)
    have "entry_valid cfg (take j (chainEntries c)) (last_hash (take j (chainHashes c))) (chainEntries c ! j) (chainHashes c ! j)"
      using v assms(2) Suc by (simp add: chain_valid_def)
    moreover have "take i (chainHashes c) = take j (chainHashes c) @ [chainHashes c ! j]"
      using Suc assms(2) l by (simp add: take_Suc_conv_app_nth)
    ultimately show ?thesis using Suc by (simp add: entry_valid_def last_hash_def)
  qed (simp add: last_hash_def)
  have ne: "chainEntries c \<noteq> []" "take i (chainEntries c) = [] \<longleftrightarrow> i = 0" using assms(2) by auto
  have len: "length (take i (chainEntries c)) = i" using assms(2) by simp
  have "chainState c = Option.bind (opsEmptyState cfg) (\<lambda>s. stateAfter cfg s (chainEntries c))"
    using v ne(1) by (simp add: chain_valid_def chain_state_of_def)
  moreover have "\<exists>key payload. serializeKey cfg key = Some (signerKeyId e) \<and> canonicalEntryPayload cfg e = Some payload \<and>
      authVerify cfg payload key (entrySignature e) = Some True \<and>
      (if i = 0 then isInBootstrapSet cfg key = Some True
       else \<exists>s0 s. opsEmptyState cfg = Some s0 \<and> stateAfter cfg s0 (take i (chainEntries c)) = Some s \<and> opsIsWriter cfg s key = Some True)"
    using e unfolding entry_valid_def signer_authorized_def ne(2) by blast
  ultimately show ?thesis using e unfolding entry_valid_def len parent by blast
qed

theorem acl_chain_authorized_witness:
  "1 < length (chainEntries (runChain sample_acl sample_acl_ops)) \<and>
   sequenceNumber (chainEntries (runChain sample_acl sample_acl_ops) ! 1) = js_int 1"
  using acl_chain_authorized [OF refl _ refl, of 1 sample_acl sample_acl_ops] sample_acl_length by simp

text \<open>C27: The head hash commits to the whole history. If SHA-256 has no collision and the serializer of changes
  is injective, two chains with the same head have the same entries up to their signatures, and the same
  state.\<close>

theorem acl_head_commits:
  assumes "\<And>x y h. sha256 cfg x = Some h \<Longrightarrow> sha256 cfg y = Some h \<Longrightarrow> x = y"
    and "\<And>a b bs. serializeChange cfg a = Some bs \<Longrightarrow> serializeChange cfg b = Some bs \<Longrightarrow> a = b"
    and "headHash (runChain cfg ops1) = headHash (runChain cfg ops2)"
  shows "map unsigned_entry (chainEntries (runChain cfg ops1)) = map unsigned_entry (chainEntries (runChain cfg ops2)) \<and>
    chainState (runChain cfg ops1) = chainState (runChain cfg ops2)"
proof -
  let ?a = "runChain cfg ops1" and ?b = "runChain cfg ops2"
  have h: "history_valid cfg (chainEntries (runChain cfg ops)) (chainHashes (runChain cfg ops))" for ops
    using runChain_valid [of cfg ops] by (simp add: chain_valid_def history_valid_def)
  have es: "map unsigned_entry (chainEntries ?a) = map unsigned_entry (chainEntries ?b)"
    by (rule conjunct1 [OF same_head_same_history [OF assms(1,2) h h assms(3) [unfolded headHash_last]]])
  then have "chainEntries ?a = [] \<longleftrightarrow> chainEntries ?b = []" by (metis map_is_Nil_conv)
  then have "chain_state_of cfg (chainEntries ?a) = chain_state_of cfg (chainEntries ?b)"
    using stateAfter_unsigned [OF es, of cfg] by (simp add: chain_state_of_def)
  then show ?thesis using es runChain_valid [of cfg ops1] runChain_valid [of cfg ops2] by (simp add: chain_valid_def)
qed

theorem acl_head_commits_witness:
  "chainState (runChain sample_acl sample_acl_ops) =
   chainState (runChain sample_acl [OpAuthor 2 1 1 (js_int 5), OpAuthor 9 7 7 (js_int 6), OpAuthor 3 2 2 (js_int 6)])"
proof -
  have "headHash (runChain sample_acl sample_acl_ops) =
      headHash (runChain sample_acl [OpAuthor 2 1 1 (js_int 5), OpAuthor 9 7 7 (js_int 6), OpAuthor 3 2 2 (js_int 6)])" by code_simp
  then show ?thesis using acl_head_commits [of sample_acl sample_acl_ops] by (simp add: sample_acl_def)
qed

text \<open>C28: Replaying the entries of a chain into any chain, with a resolver that finds the key of every serialized
  key, succeeds and reproduces the chain: entries, hashes and state.\<close>

theorem acl_replay_roundtrip:
  assumes "\<And>key b. serializeKey cfg key = Some b \<Longrightarrow> resolveKey b = Some (Some key)"
  shows "replayChain cfg other (chainEntries (runChain cfg ops)) resolveKey = (Inr (), runChain cfg ops)"
proof -
  let ?c = "runChain cfg ops"
  have v: "chain_valid cfg ?c" by (rule runChain_valid)
  have "?c = \<lparr>chainEntries = chainEntries ?c, chainHashes = chainHashes ?c, chainState = chain_state_of cfg (chainEntries ?c)\<rparr>"
    using v by (simp add: chain_valid_def)
  moreover have "replayLoop cfg resolveKey 0 (drop 0 (chainEntries ?c)) \<lparr>chainEntries = take 0 (chainEntries ?c),
      chainHashes = take 0 (chainHashes ?c), chainState = chain_state_of cfg (take 0 (chainEntries ?c))\<rparr> =
    (Inr (), \<lparr>chainEntries = take (length (chainEntries ?c)) (chainEntries ?c), chainHashes = take (length (chainEntries ?c)) (chainHashes ?c),
      chainState = chain_state_of cfg (take (length (chainEntries ?c)) (chainEntries ?c))\<rparr>)"
    by (rule replayLoop_prefix [OF v]) (simp_all add: assms)
  moreover have "length (chainHashes ?c) = length (chainEntries ?c)" using v by (simp add: chain_valid_def)
  ultimately show ?thesis
    unfolding replayChain_def reset_is_new by (simp add: newACLChain_def chain_state_of_def [of cfg "[]"])
qed

theorem acl_replay_roundtrip_witness:
  "replayChain sample_acl newACLChain (chainEntries (runChain sample_acl sample_acl_ops)) (\<lambda>b. Some (Some (hd b))) =
   (Inr (), runChain sample_acl sample_acl_ops)"
  by (rule acl_replay_roundtrip) (auto simp: sample_acl_def)

end
