(* ===== verification/Change_Tree.thy ===== *)
theory Change_Tree
  imports Js_Prelude
begin

text \<open>
  \<open>packages/core/src/change-tree-walk.ts\<close> with \<open>crdt-change-node.ts\<close> and
  \<open>policy/work-budget.ts\<close>: the walk that validates, bounds and detaches a change tree
  before anything else looks at it. Its input is a graph of mutable objects, which can
  share nodes and contain cycles, so it is a heap here; its output is a plain tree.
  Shown: the iterative walk returns on every heap, and it computes exactly the
  recursive unrolling within its bounds. Accessor properties, proxies and unknown own
  fields of nodes have no counterpart.
\<close>


section \<open>Definitions\<close>

datatype CRDTChangeNodeKind = DocumentChange | WriterChange | ReaderChange

datatype 'n changeChildren = NoChildren | DeferredChildren | Children "(string \<times> 'n) list"

datatype 'c CRDTChangeNode =
  ChangeNode (nodeKind: CRDTChangeNodeKind) (nodeChange: "'c option") (nodeChildren: "'c CRDTChangeNode changeChildren")

text \<open>
  What a caller passes in: a reference to an object or another value, and for each object
  the fields the walk reads. An unknown \<open>kind\<close> is \<open>None\<close>; a children map lists its entries
  in enumeration order.
\<close>

datatype objectRef = NotAnObject | Ref nat

datatype objectChildren = AbsentChildren | FalseChildren | InvalidChildren | ChildMap "(string \<times> objectRef) list"

record 'c NodeObject =
  objKind :: "CRDTChangeNodeKind option"
  objKeyId :: bool
  objChange :: "'c option"
  objChildren :: objectChildren

datatype change_tree_error =
    NotCanonicalCid
  | TooDeep
  | NodeNotAnObject
  | ObjectCycle
  | TooManyNodes
  | InvalidKind
  | KeyIdField
  | DeferredNode
  | ChildrenNotAnObject
  | TooManyEdges

definition MAX_CHANGE_TREE_NODES :: nat where
  "MAX_CHANGE_TREE_NODES = 32768"

definition MAX_CHANGE_TREE_EDGES :: int where
  "MAX_CHANGE_TREE_EDGES = 131072"

definition MAX_CHANGE_TREE_DEPTH :: nat where
  "MAX_CHANGE_TREE_DEPTH = 512"

definition consumeWorkBudget :: "int \<Rightarrow> int \<Rightarrow> int \<Rightarrow> int" where
  "consumeWorkBudget used amount limit = (if amount > limit - used then -1 else used + amount)"

record BoundedChangeTreeOptions =
  rejectDeferred :: bool
  stopBelowNodeIds :: "string \<Rightarrow> bool"
  canonicalizeNodeId :: "(string \<Rightarrow> string option) option"

definition defaultOptions :: BoundedChangeTreeOptions where
  "defaultOptions = \<lparr>rejectDeferred = False, stopBelowNodeIds = (\<lambda>_. False), canonicalizeNodeId = None\<rparr>"

text \<open>A canonicalizer that throws returns \<open>None\<close>.\<close>

definition assertCanonicalCID :: "BoundedChangeTreeOptions \<Rightarrow> string option \<Rightarrow> change_tree_error + unit" where
  "assertCanonicalCID options nodeId =
     (case (nodeId, canonicalizeNodeId options) of
        (Some v, Some canonicalize) \<Rightarrow> require (canonicalize v = Some v) NotCanonicalCid
      | _ \<Rightarrow> Inr ())"

type_synonym 'c changeEntry = "string option \<times> CRDTChangeNodeKind \<times> 'c option"

text \<open>
  The state of the walk: the entries so far, the nodes on the current path, the edges
  counted, and the copies of the open nodes with the children already attached,
  innermost first.
\<close>

record 'c walk =
  wkEntries :: "'c changeEntry list"
  wkActive :: "nat list"
  wkEdges :: int
  wkOpen :: "(string option \<times> CRDTChangeNodeKind \<times> 'c option \<times> (string \<times> 'c CRDTChangeNode) list) list"
  wkRoot :: "'c CRDTChangeNode option"

datatype walkTask = EnterNode "string option" objectRef nat | LeaveNode nat

text \<open>A finished copy becomes a child of the innermost open node, or the root.\<close>

definition attachCopy :: "string option \<Rightarrow> 'c CRDTChangeNode \<Rightarrow> 'c walk \<Rightarrow> 'c walk" where
  "attachCopy nodeId copy w =
     (case wkOpen w of
        [] \<Rightarrow> w\<lparr>wkRoot := Some copy\<rparr>
      | (i, k, c, cs) # open_nodes \<Rightarrow> w\<lparr>wkOpen := (i, k, c, cs @ [(the nodeId, copy)]) # open_nodes\<rparr>)"

definition leaveNode :: "nat \<Rightarrow> 'c walk \<Rightarrow> 'c walk" where
  "leaveNode a w =
     (case wkOpen w of
        [] \<Rightarrow> w
      | (i, k, c, cs) # open_nodes \<Rightarrow>
          attachCopy i (ChangeNode k c (Children cs)) (w\<lparr>wkActive := filter (\<lambda>b. b \<noteq> a) (wkActive w), wkOpen := open_nodes\<rparr>))"

definition enterNode ::
    "BoundedChangeTreeOptions \<Rightarrow> (nat \<Rightarrow> 'c NodeObject) \<Rightarrow> string option \<Rightarrow> objectRef \<Rightarrow> nat \<Rightarrow> 'c walk
      \<Rightarrow> change_tree_error + walkTask list \<times> 'c walk" where
  "enterNode options heap nodeId ref depth w =
     sbind (assertCanonicalCID options nodeId) (\<lambda>_.
     if depth > MAX_CHANGE_TREE_DEPTH then Inl TooDeep
     else case ref of NotAnObject \<Rightarrow> Inl NodeNotAnObject
     | Ref a \<Rightarrow>
       if a \<in> set (wkActive w) then Inl ObjectCycle
       else if length (wkEntries w) \<ge> MAX_CHANGE_TREE_NODES then Inl TooManyNodes
       else let node = heap a in case objKind node of None \<Rightarrow> Inl InvalidKind
       | Some kind \<Rightarrow>
         if objKeyId node then Inl KeyIdField
         else
           let change = objChange node; w = w\<lparr>wkEntries := wkEntries w @ [(nodeId, kind, change)]\<rparr>
           in case objChildren node of
             AbsentChildren \<Rightarrow> Inr ([], attachCopy nodeId (ChangeNode kind change NoChildren) w)
           | FalseChildren \<Rightarrow>
               if rejectDeferred options then Inl DeferredNode
               else Inr ([], attachCopy nodeId (ChangeNode kind change DeferredChildren) w)
           | InvalidChildren \<Rightarrow> Inl ChildrenNotAnObject
           | ChildMap children \<Rightarrow>
               let edges = consumeWorkBudget (wkEdges w) (int (length children)) MAX_CHANGE_TREE_EDGES
               in if edges = -1 then Inl TooManyEdges
                  else if (case nodeId of None \<Rightarrow> False | Some i \<Rightarrow> stopBelowNodeIds options i)
                  then Inr ([], attachCopy nodeId (ChangeNode kind change DeferredChildren) (w\<lparr>wkEdges := edges\<rparr>))
                  else Inr (map (\<lambda>(childId, child). EnterNode (Some childId) child (Suc depth)) children @ [LeaveNode a],
                            w\<lparr>wkEdges := edges, wkActive := a # wkActive w, wkOpen := (nodeId, kind, change, []) # wkOpen w\<rparr>))"

lemma attachCopy_sel [simp]:
  "wkEntries (attachCopy i t w) = wkEntries w" "wkActive (attachCopy i t w) = wkActive w" "wkEdges (attachCopy i t w) = wkEdges w"
  by (auto simp: attachCopy_def split: list.splits)

lemma leaveNode_entries [simp]: "wkEntries (leaveNode a w) = wkEntries w"
  by (auto simp: leaveNode_def split: list.splits)

lemma enterNode_entries:
  "enterNode options heap nodeId ref depth w = Inr (ts, w') \<Longrightarrow>
    length (wkEntries w') = Suc (length (wkEntries w)) \<and> length (wkEntries w) < MAX_CHANGE_TREE_NODES"
  by (auto simp: enterNode_def sbind_Inr_iff Let_def split: if_splits objectRef.splits option.splits objectChildren.splits)

text \<open>The loop over the stack of tasks; its top is the head of the list.\<close>

function collectLoop ::
    "BoundedChangeTreeOptions \<Rightarrow> (nat \<Rightarrow> 'c NodeObject) \<Rightarrow> walkTask list \<Rightarrow> 'c walk \<Rightarrow> change_tree_error + 'c walk" where
  "collectLoop options heap [] w = Inr w"
| "collectLoop options heap (LeaveNode a # tasks) w = collectLoop options heap tasks (leaveNode a w)"
| "collectLoop options heap (EnterNode nodeId ref depth # tasks) w =
     (case enterNode options heap nodeId ref depth w of
        Inl e \<Rightarrow> Inl e
      | Inr r \<Rightarrow> collectLoop options heap (fst r @ tasks) (snd r))"
  by pat_completeness auto

termination
  by (relation "measures [\<lambda>(options, heap, tasks, w). MAX_CHANGE_TREE_NODES - length (wkEntries w), \<lambda>(options, heap, tasks, w). length tasks]")
    (auto dest: enterNode_entries)

definition newWalk :: "'c walk" where
  "newWalk = \<lparr>wkEntries = [], wkActive = [], wkEdges = 0, wkOpen = [], wkRoot = None\<rparr>"

definition snapshotBoundedChangeTree ::
    "BoundedChangeTreeOptions \<Rightarrow> (nat \<Rightarrow> 'c NodeObject) \<Rightarrow> string option \<Rightarrow> objectRef
      \<Rightarrow> change_tree_error + 'c changeEntry list \<times> 'c CRDTChangeNode" where
  "snapshotBoundedChangeTree options heap rootId rootNode =
     sbind (collectLoop options heap [EnterNode rootId rootNode 1] newWalk) (\<lambda>w. Inr (wkEntries w, the (wkRoot w)))"

definition collectBoundedChangeTree ::
    "BoundedChangeTreeOptions \<Rightarrow> (nat \<Rightarrow> 'c NodeObject) \<Rightarrow> string option \<Rightarrow> objectRef \<Rightarrow> change_tree_error + 'c changeEntry list" where
  "collectBoundedChangeTree options heap rootId rootNode =
     sbind (collectLoop options heap [EnterNode rootId rootNode 1] newWalk) (\<lambda>w. Inr (wkEntries w))"

section \<open>The reference: recursive unrolling\<close>

definition node_ok :: "BoundedChangeTreeOptions \<Rightarrow> 'c NodeObject \<Rightarrow> string option \<Rightarrow> bool" where
  "node_ok options node i \<longleftrightarrow> assertCanonicalCID options i = Inr () \<and> objKind node \<noteq> None \<and> \<not> objKeyId node \<and>
     (rejectDeferred options \<longrightarrow> objChildren node \<noteq> FalseChildren) \<and> objChildren node \<noteq> InvalidChildren"

definition stopped :: "BoundedChangeTreeOptions \<Rightarrow> string option \<Rightarrow> bool" where
  "stopped options i \<longleftrightarrow> (\<exists>v. i = Some v \<and> stopBelowNodeIds options v)"

text \<open>
  The tree below an object, at most \<open>n\<close> levels deep and never through a node of the
  path to it: its entries in preorder, the edges seen, and the copy.
\<close>

primrec unroll ::
    "nat \<Rightarrow> BoundedChangeTreeOptions \<Rightarrow> (nat \<Rightarrow> 'c NodeObject) \<Rightarrow> nat list \<Rightarrow> string option \<Rightarrow> objectRef
      \<Rightarrow> ('c changeEntry list \<times> int \<times> 'c CRDTChangeNode) option" where
  "unroll 0 options heap path i ref = None"
| "unroll (Suc n) options heap path i ref =
     (case ref of NotAnObject \<Rightarrow> None
      | Ref a \<Rightarrow>
          let node = heap a; kind = the (objKind node); entry = (i, kind, objChange node); copy = ChangeNode kind (objChange node)
          in if a \<in> set path \<or> \<not> node_ok options node i then None
             else case objChildren node of
               ChildMap cs \<Rightarrow>
                 if stopped options i then Some ([entry], int (length cs), copy DeferredChildren)
                 else (case those (map (\<lambda>(k, r). unroll n options heap (a # path) (Some k) r) cs) of
                         None \<Rightarrow> None
                       | Some rs \<Rightarrow> Some (entry # concat (map fst rs), int (length cs) + sum_list (map (\<lambda>r. fst (snd r)) rs),
                           copy (Children (zip (map fst cs) (map (\<lambda>r. snd (snd r)) rs)))))
             | FalseChildren \<Rightarrow> Some ([entry], 0, copy DeferredChildren)
             | _ \<Rightarrow> Some ([entry], 0, copy NoChildren))"

lemma those_unroll_nonneg:
  assumes "\<And>path i r es k t. unroll n options heap path i r = Some (es, k, t) \<Longrightarrow> 0 \<le> k"
  shows "those (map (\<lambda>(k, r). unroll n options heap path (Some k) r) cs) = Some rs \<Longrightarrow> 0 \<le> sum_list (map (\<lambda>r. fst (snd r)) rs)"
proof (induction cs arbitrary: rs)
  case (Cons c cs)
  obtain es k t rs' where r: "unroll n options heap path (Some (fst c)) (snd c) = Some (es, k, t)"
    "those (map (\<lambda>(k, r). unroll n options heap path (Some k) r) cs) = Some rs'" "rs = (es, k, t) # rs'"
    using Cons.prems by (cases c) (auto split: option.splits)
  show ?case using Cons.IH [OF r(2)] assms [OF r(1)] r(3) by simp
qed simp

lemma unroll_edges_nonneg: "unroll n options heap path i r = Some (es, k, t) \<Longrightarrow> 0 \<le> k"
proof (induction n arbitrary: path i r es k t)
  case (Suc n)
  have sum: "0 \<le> sum_list (map (\<lambda>r. fst (snd r)) rs)"
    if "those (map (\<lambda>(k, r). unroll n options heap path (Some k) r) cs) = Some rs" for path cs rs
    by (rule those_unroll_nonneg [OF _ that]) (rule Suc.IH)
  show ?case using Suc.prems
    by (auto simp: Let_def split: objectRef.splits objectChildren.splits if_splits option.splits dest!: sum)
qed simp

section \<open>The walk computes the unrolling\<close>

definition extend :: "'c walk \<Rightarrow> 'c changeEntry list \<Rightarrow> int \<Rightarrow> 'c walk" where
  "extend w es k = w\<lparr>wkEntries := wkEntries w @ es, wkEdges := wkEdges w + k\<rparr>"

definition fits :: "'c walk \<Rightarrow> 'c changeEntry list \<Rightarrow> int \<Rightarrow> bool" where
  "fits w es k \<longleftrightarrow> length (wkEntries w) + length es \<le> MAX_CHANGE_TREE_NODES \<and> wkEdges w + k \<le> MAX_CHANGE_TREE_EDGES"

text \<open>What entering one node and finishing everything below it amounts to.\<close>

definition enters ::
    "BoundedChangeTreeOptions \<Rightarrow> (nat \<Rightarrow> 'c NodeObject) \<Rightarrow> string option \<Rightarrow> objectRef \<Rightarrow> nat \<Rightarrow> nat \<Rightarrow> bool" where
  "enters options heap i r depth n \<longleftrightarrow> (\<forall>w tasks fin. 0 \<le> wkEdges w \<longrightarrow> wkEdges w \<le> MAX_CHANGE_TREE_EDGES \<longrightarrow> distinct (wkActive w) \<longrightarrow>
     (collectLoop options heap (EnterNode i r depth # tasks) w = Inr fin \<longleftrightarrow>
       (\<exists>es k t. unroll n options heap (wkActive w) i r = Some (es, k, t) \<and> fits w es k \<and>
          collectLoop options heap tasks (attachCopy i t (extend w es k)) = Inr fin)))"

lemma extend_sel [simp]:
  "wkEntries (extend w es k) = wkEntries w @ es" "wkEdges (extend w es k) = wkEdges w + k" "wkActive (extend w es k) = wkActive w"
  "wkOpen (extend w es k) = wkOpen w" "wkRoot (extend w es k) = wkRoot w"
  by (simp_all add: extend_def)

lemma extend_extend [simp]: "extend (extend w es k) fs m = extend w (es @ fs) (k + m)"
  by (simp add: extend_def)

lemma extend_open: "extend (w\<lparr>wkOpen := x\<rparr>) es k = (extend w es k)\<lparr>wkOpen := x\<rparr>"
  by (simp add: extend_def)

lemma children_unroll:
  assumes each: "\<forall>(k, r) \<in> set cs. enters options heap (Some k) r depth n"
    and w: "0 \<le> wkEdges w" "wkEdges w \<le> MAX_CHANGE_TREE_EDGES" "distinct (wkActive w)" "wkOpen w = (i, kd, c, acc) # os"
    and bound: "length (wkEntries w) \<le> MAX_CHANGE_TREE_NODES"
  shows "collectLoop options heap (map (\<lambda>(k, r). EnterNode (Some k) r depth) cs @ tasks) w = Inr fin \<longleftrightarrow>
    (\<exists>rs. those (map (\<lambda>(k, r). unroll n options heap (wkActive w) (Some k) r) cs) = Some rs \<and>
       fits w (concat (map fst rs)) (sum_list (map (\<lambda>r. fst (snd r)) rs)) \<and>
       collectLoop options heap tasks ((extend w (concat (map fst rs)) (sum_list (map (\<lambda>r. fst (snd r)) rs)))
         \<lparr>wkOpen := (i, kd, c, acc @ zip (map fst cs) (map (\<lambda>r. snd (snd r)) rs)) # os\<rparr>) = Inr fin)"
  using each w bound
proof (induction cs arbitrary: w acc)
  case Nil
  have same: "(extend w [] 0)\<lparr>wkOpen := (i, kd, c, acc) # os\<rparr> = w" using Nil.prems(5) by (simp add: extend_def)
  show ?case using Nil.prems by (simp add: fits_def same)
next
  case (Cons kr cs)
  obtain k r where kr: "kr = (k, r)" by force
  let ?rest = "map (\<lambda>(k, r). EnterNode (Some k) r depth) cs @ tasks"
  let ?next = "\<lambda>es m t. attachCopy (Some k) t (extend w es m)"
  have nxt: "?next es m t = (extend w es m)\<lparr>wkOpen := (i, kd, c, acc @ [(k, t)]) # os\<rparr>" for es m t
    using Cons.prems(5) by (simp add: attachCopy_def)
  have step: "collectLoop options heap (EnterNode (Some k) r depth # ?rest) w = Inr fin \<longleftrightarrow>
      (\<exists>es m t. unroll n options heap (wkActive w) (Some k) r = Some (es, m, t) \<and> fits w es m \<and>
         collectLoop options heap ?rest (?next es m t) = Inr fin)"
    using Cons.prems(1-4) kr unfolding enters_def by auto
  have rest: "collectLoop options heap ?rest (?next es m t) = Inr fin \<longleftrightarrow>
      (\<exists>rs. those (map (\<lambda>(k, r). unroll n options heap (wkActive w) (Some k) r) cs) = Some rs \<and>
         fits (extend w es m) (concat (map fst rs)) (sum_list (map (\<lambda>r. fst (snd r)) rs)) \<and>
         collectLoop options heap tasks ((extend w (es @ concat (map fst rs)) (m + sum_list (map (\<lambda>r. fst (snd r)) rs)))
           \<lparr>wkOpen := (i, kd, c, acc @ (k, t) # zip (map fst cs) (map (\<lambda>r. snd (snd r)) rs)) # os\<rparr>) = Inr fin)"
    if "unroll n options heap (wkActive w) (Some k) r = Some (es, m, t)" "fits w es m" for es m t
  proof -
    have "0 \<le> m" using unroll_edges_nonneg [OF that(1)] .
    then show ?thesis unfolding nxt using that(2) Cons.prems
      by (subst Cons.IH) (auto simp: fits_def extend_open)
  qed
  have nonneg: "0 \<le> sum_list (map (\<lambda>r. fst (snd r)) rs)"
    if "those (map (\<lambda>(k, r). unroll n options heap (wkActive w) (Some k) r) cs) = Some rs" for rs
    by (rule those_unroll_nonneg [OF _ that]) (rule unroll_edges_nonneg)
  show ?case
  proof (cases "unroll n options heap (wkActive w) (Some k) r")
    case None
    then show ?thesis using step kr by simp
  next
    case (Some p)
    obtain es m t where p: "p = (es, m, t)" by (cases p) auto
    have "collectLoop options heap (map (\<lambda>(k, r). EnterNode (Some k) r depth) (kr # cs) @ tasks) w = Inr fin \<longleftrightarrow>
        fits w es m \<and> (\<exists>rs. those (map (\<lambda>(k, r). unroll n options heap (wkActive w) (Some k) r) cs) = Some rs \<and>
         fits (extend w es m) (concat (map fst rs)) (sum_list (map (\<lambda>r. fst (snd r)) rs)) \<and>
         collectLoop options heap tasks ((extend w (es @ concat (map fst rs)) (m + sum_list (map (\<lambda>r. fst (snd r)) rs)))
           \<lparr>wkOpen := (i, kd, c, acc @ (k, t) # zip (map fst cs) (map (\<lambda>r. snd (snd r)) rs)) # os\<rparr>) = Inr fin)"
      using step rest [of es m t] Some p kr by auto
    then show ?thesis using Some p kr by (auto simp: fits_def algebra_simps dest: nonneg)

  qed
qed


lemma budget_taken:
  "0 \<le> used \<Longrightarrow> 0 \<le> amount \<Longrightarrow> consumeWorkBudget used amount limit = (if used + amount \<le> limit then used + amount else -1)"
  by (simp add: consumeWorkBudget_def)

lemma filter_fresh: "a \<notin> set xs \<Longrightarrow> filter (\<lambda>b. b \<noteq> a) xs = xs"
  by (induction xs) auto

text \<open>Entering an object that passes its checks, in terms of the reference.\<close>

lemma enterNode_cases:
  assumes "depth \<le> MAX_CHANGE_TREE_DEPTH" "0 \<le> wkEdges w"
  shows "enterNode options heap i r depth w = Inr q \<longleftrightarrow>
    (\<exists>a. r = Ref a \<and> a \<notin> set (wkActive w) \<and> node_ok options (heap a) i \<and> length (wkEntries w) < MAX_CHANGE_TREE_NODES \<and>
      (let node = heap a; kind = the (objKind node); w' = extend w [(i, kind, objChange node)] 0
       in q = (case objChildren node of
           ChildMap cs \<Rightarrow>
             (if stopped options i then ([], attachCopy i (ChangeNode kind (objChange node) DeferredChildren) (extend w' [] (int (length cs))))
              else (map (\<lambda>(k, r). EnterNode (Some k) r (Suc depth)) cs @ [LeaveNode a],
                (extend w' [] (int (length cs)))\<lparr>wkActive := a # wkActive w, wkOpen := (i, kind, objChange node, []) # wkOpen w\<rparr>))
         | FalseChildren \<Rightarrow> ([], attachCopy i (ChangeNode kind (objChange node) DeferredChildren) w')
         | _ \<Rightarrow> ([], attachCopy i (ChangeNode kind (objChange node) NoChildren) w')) \<and>
        (case objChildren node of ChildMap cs \<Rightarrow> wkEdges w + int (length cs) \<le> MAX_CHANGE_TREE_EDGES | _ \<Rightarrow> True)))"
proof (cases r)
  case (Ref a)
  have st: "(case i of None \<Rightarrow> False | Some j \<Rightarrow> stopBelowNodeIds options j) = stopped options i"
    by (auto simp: stopped_def split: option.splits)
  have e0: "w\<lparr>wkEntries := wkEntries w @ [x]\<rparr> = extend w [x] 0" for x by (simp add: extend_def)
  have e1: "(extend w [x] 0)\<lparr>wkEdges := wkEdges w + n\<rparr> = extend w [x] n" for x n by (simp add: extend_def)
  show ?thesis
    using assms Ref
    by (cases "objChildren (heap a)"; cases "objKind (heap a)")
      (auto simp: enterNode_def sbind_Inr_iff node_ok_def Let_def e0 e1 st budget_taken)
qed (simp add: enterNode_def sbind_Inr_iff assms)

lemma enter_unroll:
  fixes heap :: "nat \<Rightarrow> 'c NodeObject"
  shows "depth + n = Suc MAX_CHANGE_TREE_DEPTH \<Longrightarrow> enters options heap i r depth n"
proof (induction n arbitrary: i r depth)
  case 0
  then have "enterNode options heap i r depth w \<noteq> Inr q" for w q by (auto simp: enterNode_def sbind_Inr_iff)
  then have "collectLoop options heap (EnterNode i r depth # tasks) w \<noteq> Inr fin" for w tasks fin
    by (cases "enterNode options heap i r depth w") auto
  then show ?case by (simp add: enters_def)
next
  case (Suc n)
  have depth: "depth \<le> MAX_CHANGE_TREE_DEPTH" using Suc.prems by simp
  have each: "enters options heap (Some k) r' (Suc depth) n" for k r' using Suc by (intro Suc.IH) simp
  show ?case unfolding enters_def
  proof (intro allI impI)
    fix w :: "'c walk" and tasks fin
    assume w: "0 \<le> wkEdges w" "wkEdges w \<le> MAX_CHANGE_TREE_EDGES" "distinct (wkActive w)"
    let ?goal = "\<exists>es k t. unroll (Suc n) options heap (wkActive w) i r = Some (es, k, t) \<and> fits w es k \<and>
       collectLoop options heap tasks (attachCopy i t (extend w es k)) = Inr fin"
    have loop: "collectLoop options heap (EnterNode i r depth # tasks) w = Inr fin \<longleftrightarrow>
        (\<exists>q. enterNode options heap i r depth w = Inr q \<and> collectLoop options heap (fst q @ tasks) (snd q) = Inr fin)"
      by (auto split: sum.splits)
    show "collectLoop options heap (EnterNode i r depth # tasks) w = Inr fin \<longleftrightarrow> ?goal"
    proof (cases "\<exists>a. r = Ref a \<and> a \<notin> set (wkActive w) \<and> node_ok options (heap a) i")
      case False
      then have "\<not> ?goal" by (auto simp: Let_def split: objectRef.splits)
      then show ?thesis unfolding loop enterNode_cases [OF depth w(1)] using False by blast
    next
      case True
      then obtain a where a: "r = Ref a" "a \<notin> set (wkActive w)" "node_ok options (heap a) i" by blast
      let ?e = "(i, the (objKind (heap a)), objChange (heap a))"
      show ?thesis
      proof (cases "\<exists>cs. objChildren (heap a) = ChildMap cs \<and> \<not> stopped options i")
        case False
        then show ?thesis unfolding loop enterNode_cases [OF depth w(1)] using a w(2)
          by (cases "objChildren (heap a)") (auto simp: Let_def fits_def Suc_le_eq node_ok_def)
      next
        case True
        then obtain cs where cs: "objChildren (heap a) = ChildMap cs" "\<not> stopped options i" by blast
        let ?w = "(extend w [?e] (int (length cs)))\<lparr>wkActive := a # wkActive w,
            wkOpen := (i, the (objKind (heap a)), objChange (heap a), []) # wkOpen w\<rparr>"
        have leave: "leaveNode a ((extend ?w es k)\<lparr>wkOpen := (i, kd, c, ch) # wkOpen w\<rparr>) =
            attachCopy i (ChangeNode kd c (Children ch)) (extend w (?e # es) (int (length cs) + k))" for es k kd c ch
          using a(2) by (simp add: leaveNode_def filter_fresh extend_def add.assoc)
        show ?thesis
        proof (cases "length (wkEntries w) < MAX_CHANGE_TREE_NODES \<and> wkEdges w + int (length cs) \<le> MAX_CHANGE_TREE_EDGES")
          case fit: True
          have "collectLoop options heap (EnterNode i r depth # tasks) w = Inr fin \<longleftrightarrow>
              collectLoop options heap (map (\<lambda>(k, r). EnterNode (Some k) r (Suc depth)) cs @ LeaveNode a # tasks) ?w = Inr fin"
            unfolding loop enterNode_cases [OF depth w(1)] using a cs fit by (simp add: Let_def)
          also have "\<dots> \<longleftrightarrow> (\<exists>rs. those (map (\<lambda>(k, r). unroll n options heap (a # wkActive w) (Some k) r) cs) = Some rs \<and>
             fits ?w (concat (map fst rs)) (sum_list (map (\<lambda>r. fst (snd r)) rs)) \<and>
             collectLoop options heap (LeaveNode a # tasks) ((extend ?w (concat (map fst rs)) (sum_list (map (\<lambda>r. fst (snd r)) rs)))
               \<lparr>wkOpen := (i, the (objKind (heap a)), objChange (heap a), [] @ zip (map fst cs) (map (\<lambda>r. snd (snd r)) rs)) # wkOpen w\<rparr>) = Inr fin)"
            using each a(2) w fit by (subst children_unroll) auto
          also have "\<dots> \<longleftrightarrow> ?goal"
            unfolding collectLoop.simps append_Nil leave using a cs by (auto simp: Let_def fits_def algebra_simps split: option.splits)
          finally show ?thesis .
        next
          case nofit: False
          have nonneg: "0 \<le> sum_list (map (\<lambda>r. fst (snd r)) rs)"
            if "those (map (\<lambda>(k, r). unroll n options heap (a # wkActive w) (Some k) r) cs) = Some rs" for rs
            by (rule those_unroll_nonneg [OF _ that]) (rule unroll_edges_nonneg)
          have "\<not> ?goal" using nofit a cs by (auto simp: Let_def fits_def split: option.splits dest!: nonneg)
          then show ?thesis unfolding loop enterNode_cases [OF depth w(1)] using a cs nofit by (auto simp: Let_def)
        qed
      qed
    qed
  qed
qed


section \<open>Properties\<close>

declare collectLoop.simps(3) [simp del]

lemma walk_unroll:
  fixes heap :: "nat \<Rightarrow> 'c NodeObject"
  shows "collectLoop options heap [EnterNode i r 1] newWalk = Inr w \<longleftrightarrow>
    (\<exists>es k t. unroll MAX_CHANGE_TREE_DEPTH options heap [] i r = Some (es, k, t) \<and> length es \<le> MAX_CHANGE_TREE_NODES \<and>
       k \<le> MAX_CHANGE_TREE_EDGES \<and> w = \<lparr>wkEntries = es, wkActive = [], wkEdges = k, wkOpen = [], wkRoot = Some t\<rparr>)"
proof -
  have e: "enters options heap i r 1 MAX_CHANGE_TREE_DEPTH" by (rule enter_unroll) simp
  have new: "wkEdges newWalk = 0" "wkActive newWalk = []" "wkEntries newWalk = []" by (simp_all add: newWalk_def)
  have att: "attachCopy i t (extend newWalk es k) = \<lparr>wkEntries = es, wkActive = [], wkEdges = k, wkOpen = [], wkRoot = Some t\<rparr>" for es k t
    by (simp add: newWalk_def extend_def attachCopy_def)
  have start: "0 \<le> wkEdges (newWalk :: 'c walk)" "wkEdges (newWalk :: 'c walk) \<le> MAX_CHANGE_TREE_EDGES" "distinct (wkActive (newWalk :: 'c walk))"
    by (simp_all add: new MAX_CHANGE_TREE_EDGES_def)
  show ?thesis using e [unfolded enters_def, rule_format, OF start, of "[]" w] unfolding att fits_def new by auto
qed

text \<open>
  C17: on every graph of objects, shared or cyclic, the stack walk returns, and it
  succeeds exactly when the recursive unrolling of the graph does and stays within
  32768 nodes and 131072 edges at a depth of at most 512; its entries are the preorder of
  the tree and its copy is that tree.
\<close>

theorem snapshotBoundedChangeTree_exact:
  "snapshotBoundedChangeTree options heap i r = Inr (es, t) \<longleftrightarrow>
    (\<exists>k. unroll MAX_CHANGE_TREE_DEPTH options heap [] i r = Some (es, k, t) \<and> length es \<le> MAX_CHANGE_TREE_NODES \<and> k \<le> MAX_CHANGE_TREE_EDGES)"
  unfolding snapshotBoundedChangeTree_def sbind_Inr_iff walk_unroll by auto

end
