(* ===== verification/Sync_Tree.thy ===== *)
theory Sync_Tree
  imports Change_Tree "HOL-Library.Multiset" "HOL-Library.List_Lexorder" "HOL-Library.Char_ord"
begin

text \<open>
  \<open>packages/core/src/merkle-cross-links.ts\<close>: the walks over a change tree that was
  detached by \<open>snapshotBoundedChangeTree\<close>. Nodes are identified by their CID, which can
  occur several times in a tree: once in full and elsewhere as a reference without
  payload or children. Shown: the served frontier, the ancestry-closed selection and the
  merge of a remote tree are what their contracts say when the full occurrences of each CID
  agree, and where they do not agree the merge can lose payloads.
\<close>


section \<open>Recent tips\<close>

definition MAX_RECENT_TIPS :: int where
  "MAX_RECENT_TIPS = 4"

definition MAX_CROSS_LINKS :: int where
  "MAX_CROSS_LINKS = 3"

record RecentTip =
  tipCid :: string
  tipKind :: CRDTChangeNodeKind

text \<open>The loop from the newest tip to the oldest; the list is read from its end.\<close>

fun selectCrossLinks_loop :: "string option \<Rightarrow> string \<Rightarrow> int \<Rightarrow> RecentTip list \<Rightarrow> string list \<Rightarrow> RecentTip list \<Rightarrow> RecentTip list" where
  "selectCrossLinks_loop primaryParentId newCid maxCrossLinks [] seen out = out"
| "selectCrossLinks_loop primaryParentId newCid maxCrossLinks (tip # tips) seen out =
     (if int (length out) \<ge> maxCrossLinks then out
      else if Some (tipCid tip) = primaryParentId \<or> tipCid tip = newCid \<or> tipCid tip \<in> set seen
      then selectCrossLinks_loop primaryParentId newCid maxCrossLinks tips seen out
      else selectCrossLinks_loop primaryParentId newCid maxCrossLinks tips (tipCid tip # seen) (out @ [tip]))"

definition selectCrossLinks :: "RecentTip list \<Rightarrow> string option \<Rightarrow> string \<Rightarrow> int \<Rightarrow> RecentTip list" where
  "selectCrossLinks recentTips primaryParentId newCid maxCrossLinks =
     selectCrossLinks_loop primaryParentId newCid maxCrossLinks (rev recentTips) [] []"

fun dropFirstTip :: "string \<Rightarrow> RecentTip list \<Rightarrow> RecentTip list" where
  "dropFirstTip cid [] = []"
| "dropFirstTip cid (t # ts) = (if tipCid t = cid then ts else t # dropFirstTip cid ts)"

definition trackTipInList :: "RecentTip list \<Rightarrow> RecentTip \<Rightarrow> int \<Rightarrow> RecentTip list" where
  "trackTipInList recentTips entry maxRecentTips =
     (if tipCid entry = [] then recentTips
      else
        let cap = max 0 maxRecentTips
        in if cap = 0 then []
           else let tips = dropFirstTip (tipCid entry) recentTips @ [entry] in drop (length tips - nat cap) tips)"

section \<open>Trees\<close>

fun nodeWeight :: "'c CRDTChangeNode \<Rightarrow> nat" where
  "nodeWeight (ChangeNode kind change children) =
     (case children of Children cs \<Rightarrow> Suc (sum_list (map (\<lambda>c. nodeWeight (snd c)) cs)) | _ \<Rightarrow> 1)"

definition childEntries :: "'c CRDTChangeNode \<Rightarrow> (string \<times> 'c CRDTChangeNode) list option" where
  "childEntries node = (case nodeChildren node of Children cs \<Rightarrow> Some cs | _ \<Rightarrow> None)"

lemma childEntries_weight: "childEntries node = Some cs \<Longrightarrow> sum_list (map (\<lambda>c. nodeWeight (snd c)) cs) < nodeWeight node"
  by (cases node) (auto simp: childEntries_def split: changeChildren.splits)

lemma nodeWeight_pos [simp]: "0 < nodeWeight node"
  by (cases node) (auto split: changeChildren.splits)

section \<open>Comparing payloads\<close>

text \<open>
  A decoded change payload: primitives, byte views, arrays, plain objects and instances of
  other classes. The payloads come from a decoder, so their objects are not shared.
\<close>

datatype 'p payload =
    Primitive 'p
  | ByteView bytes
  | InvalidByteView
  | ArrayValue "'p payload list"
  | PlainObject "(string \<times> 'p payload) list"
  | OpaqueObject

datatype alias_error = ConflictingDescriptions string | CidCycle string | ComparisonLimit | DeferredNotSupported

definition MAX_REMOTE_SYNC_PAYLOAD_COMPARISON_ITEMS :: int where
  "MAX_REMOTE_SYNC_PAYLOAD_COMPARISON_ITEMS = 16 * 1024 * 1024 + 1"

definition consumeComparisonBudget :: "int \<Rightarrow> int \<Rightarrow> alias_error + int" where
  "consumeComparisonBudget remaining amount =
     (let left = remaining - amount in if left < 0 then Inl ComparisonLimit else Inr left)"

fun payloadWeight :: "'p payload \<Rightarrow> nat" where
  "payloadWeight (ArrayValue xs) = Suc (sum_list (map payloadWeight xs))"
| "payloadWeight (PlainObject fs) = Suc (sum_list (map (\<lambda>f. payloadWeight (snd f)) fs))"
| "payloadWeight _ = 1"

text \<open>The pairs to push for two arrays or two plain objects; \<open>None\<close> where they already differ.\<close>

definition objectPairs :: "(string \<times> 'p payload) list \<Rightarrow> (string \<times> 'p payload) list \<Rightarrow> ('p payload \<times> 'p payload) list option" where
  "objectPairs left right =
     (let leftFields = sort_key fst left; rightFields = sort_key fst right
      in if map fst leftFields \<noteq> map fst rightFields then None else Some (zip (map snd leftFields) (map snd rightFields)))"

datatype 'p comparison = Differs | Agrees int | Descend int "('p payload \<times> 'p payload) list"

definition compareOne :: "'p payload \<Rightarrow> 'p payload \<Rightarrow> int \<Rightarrow> alias_error + 'p comparison" where
  "compareOne left right remaining =
     sbind (consumeComparisonBudget remaining 1) (\<lambda>remaining.
     case (left, right) of
       (Primitive a, Primitive b) \<Rightarrow> Inr (if a = b then Agrees remaining else Differs)
     | (ByteView a, ByteView b) \<Rightarrow>
         if length a \<noteq> length b then Inr Differs
         else sbind (consumeComparisonBudget remaining (int (length a))) (\<lambda>remaining.
                Inr (if a = b then Agrees remaining else Differs))
     | (ArrayValue xs, ArrayValue ys) \<Rightarrow>
         if length xs \<noteq> length ys then Inr Differs
         else sbind (consumeComparisonBudget remaining (int (length xs))) (\<lambda>remaining. Inr (Descend remaining (zip xs ys)))
     | (PlainObject fs, PlainObject gs) \<Rightarrow>
         (case objectPairs fs gs of
            None \<Rightarrow> Inr Differs
          | Some pairs \<Rightarrow> sbind (consumeComparisonBudget remaining (int (length fs))) (\<lambda>remaining. Inr (Descend remaining pairs)))
     | _ \<Rightarrow> Inr Differs)"


lemma sum_list_zip_fst: "sum_list (map (\<lambda>p. f (fst p)) (zip xs ys)) \<le> sum_list (map f (xs :: 'a list) :: nat list)"
  by (induction xs ys rule: list_induct2') auto

lemma sum_list_sort_key: "sum_list (map f (sort_key k xs)) = sum_list (map f xs :: nat list)"
  by (metis mset_map mset_sort sum_mset_sum_list)

definition pairsWeight :: "('p payload \<times> 'p payload) list \<Rightarrow> nat" where
  "pairsWeight ps = sum_list (map (\<lambda>p. payloadWeight (fst p)) ps)"

lemma payloadWeight_pos [simp]: "0 < payloadWeight p"
  by (cases p) simp_all

lemma compareOne_weight: "compareOne l r b = Inr (Descend b' ps) \<Longrightarrow> pairsWeight ps < payloadWeight l"
proof -
  assume d: "compareOne l r b = Inr (Descend b' ps)"
  have arr: "pairsWeight (zip xs ys) \<le> sum_list (map payloadWeight xs)" for xs ys :: "'a payload list"
    unfolding pairsWeight_def by (rule sum_list_zip_fst)
  have obj: "pairsWeight ps \<le> sum_list (map (\<lambda>f. payloadWeight (snd f)) fs)" if "objectPairs fs gs = Some ps" for fs gs
  proof -
    have "ps = zip (map snd (sort_key fst fs)) (map snd (sort_key fst gs))" using that by (auto simp: objectPairs_def Let_def split: if_splits)
    then have "pairsWeight ps \<le> sum_list (map payloadWeight (map snd (sort_key fst fs)))" by (simp only: arr)
    then show ?thesis by (simp add: o_def sum_list_sort_key)
  qed
  show ?thesis using d
    by (cases l; cases r) (auto simp: compareOne_def sbind_Inr_iff le_imp_less_Suc arr obj split: if_splits option.splits)
qed

function samePayloadLoop :: "('p payload \<times> 'p payload) list \<Rightarrow> int \<Rightarrow> alias_error + bool \<times> int" where
  "samePayloadLoop [] remaining = Inr (True, remaining)"
| "samePayloadLoop ((left, right) # pending) remaining =
     (case compareOne left right remaining of
        Inl e \<Rightarrow> Inl e
      | Inr Differs \<Rightarrow> Inr (False, remaining)
      | Inr (Agrees remaining) \<Rightarrow> samePayloadLoop pending remaining
      | Inr (Descend remaining pairs) \<Rightarrow> samePayloadLoop (rev pairs @ pending) remaining)"
  by pat_completeness auto

termination
proof (relation "measures [\<lambda>(ps, b). pairsWeight ps]")
qed (auto simp: pairsWeight_def rev_map [symmetric] sum_list_rev dest!: compareOne_weight)


definition sameChangePayload :: "'p payload \<Rightarrow> 'p payload \<Rightarrow> int \<Rightarrow> alias_error + bool \<times> int" where
  "sameChangePayload first second remaining = samePayloadLoop [(first, second)] remaining"

section \<open>Alias validation\<close>

datatype childrenMode = ModeAbsent | ModeDeferred | ModeMap

record 'p RemoteNodeDescription =
  descNode :: "'p payload CRDTChangeNode"
  descKind :: CRDTChangeNodeKind
  descHasChange :: bool
  descChildrenMode :: childrenMode
  descChildIds :: "string list"
  descSparse :: bool

definition describeRemoteNode :: "'p payload CRDTChangeNode \<Rightarrow> 'p RemoteNodeDescription" where
  "describeRemoteNode node =
     \<lparr>descNode = node, descKind = nodeKind node, descHasChange = (nodeChange node \<noteq> None),
      descChildrenMode = (case nodeChildren node of NoChildren \<Rightarrow> ModeAbsent | DeferredChildren \<Rightarrow> ModeDeferred | Children _ \<Rightarrow> ModeMap),
      descChildIds = (case nodeChildren node of Children cs \<Rightarrow> sort (map fst cs) | _ \<Rightarrow> []),
      descSparse = (nodeChange node = None \<and> nodeChildren node = NoChildren)\<rparr>"

type_synonym 'p canonicalNodes = "(string, 'p RemoteNodeDescription) jsmap"

text \<open>One occurrence of a CID is checked against the description recorded for it.\<close>

definition checkDescription ::
    "'p canonicalNodes \<Rightarrow> string \<Rightarrow> 'p RemoteNodeDescription \<Rightarrow> int \<Rightarrow> alias_error + 'p canonicalNodes \<times> int" where
  "checkDescription canonical cid description remaining =
     (case jget canonical cid of
        None \<Rightarrow> Inr (jset canonical cid description, remaining)
      | Some existing \<Rightarrow>
          if descKind existing \<noteq> descKind description then Inl (ConflictingDescriptions cid)
          else if \<not> descSparse existing \<and> \<not> descSparse description then
            if descHasChange existing \<noteq> descHasChange description \<or>
               descChildrenMode existing \<noteq> descChildrenMode description \<or>
               descChildIds existing \<noteq> descChildIds description
            then Inl (ConflictingDescriptions cid)
            else if descHasChange existing
            then sbind (sameChangePayload (the (nodeChange (descNode existing))) (the (nodeChange (descNode description))) remaining)
                   (\<lambda>(same, remaining). if same then Inr (canonical, remaining) else Inl (ConflictingDescriptions cid))
            else Inr (canonical, remaining)
          else if descSparse existing \<and> \<not> descSparse description then Inr (jset canonical cid description, remaining)
          else Inr (canonical, remaining))"

datatype 'p aliasFrame = EnterRemote "string option" "'p payload CRDTChangeNode" | LeaveRemote string

fun frameWeight :: "'p aliasFrame \<Rightarrow> nat" where
  "frameWeight (EnterRemote cid node) = 2 * nodeWeight node"
| "frameWeight (LeaveRemote cid) = 1"

definition childFrames :: "'p payload CRDTChangeNode \<Rightarrow> 'p aliasFrame list" where
  "childFrames node = (case childEntries node of None \<Rightarrow> [] | Some cs \<Rightarrow> map (\<lambda>(k, c). EnterRemote (Some k) c) (sort_key fst cs))"

definition enterRemote ::
    "string option \<Rightarrow> 'p payload CRDTChangeNode \<Rightarrow> 'p canonicalNodes \<Rightarrow> string list \<Rightarrow> int
      \<Rightarrow> alias_error + 'p aliasFrame list \<times> 'p canonicalNodes \<times> string list \<times> int" where
  "enterRemote nodeId node canonical visiting remaining =
     (case nodeId of
        None \<Rightarrow> Inr (childFrames node, canonical, visiting, remaining)
      | Some cid \<Rightarrow>
          if cid \<in> set visiting then Inl (CidCycle cid)
          else sbind (checkDescription canonical cid (describeRemoteNode node) remaining) (\<lambda>(canonical, remaining).
            if childEntries node = None then Inr ([], canonical, visiting, remaining)
            else Inr (childFrames node @ [LeaveRemote cid], canonical, cid # visiting, remaining)))"

lemma childFrames_weight: "sum_list (map frameWeight (childFrames node)) + 2 \<le> 2 * nodeWeight node"
proof (cases "childEntries node")
  case None
  have "1 \<le> nodeWeight node" using nodeWeight_pos [of node] by linarith
  then show ?thesis using None by (simp add: childFrames_def)
next
  case (Some cs)
  have "sum_list (map frameWeight (childFrames node)) = 2 * sum_list (map (\<lambda>c. nodeWeight (snd c)) cs)"
    using Some by (simp add: childFrames_def o_def case_prod_unfold sum_list_const_mult sum_list_sort_key)
  then show ?thesis using childEntries_weight [OF Some] by simp
qed

lemma enterRemote_weight:
  "enterRemote nodeId node canonical visiting remaining = Inr (frames, r) \<Longrightarrow> sum_list (map frameWeight frames) < 2 * nodeWeight node"
  using childFrames_weight [of node] by (auto simp: enterRemote_def sbind_Inr_iff split: option.splits if_splits)

function aliasLoop :: "'p aliasFrame list \<Rightarrow> 'p canonicalNodes \<Rightarrow> string list \<Rightarrow> int \<Rightarrow> alias_error + unit" where
  "aliasLoop [] canonical visiting remaining = Inr ()"
| "aliasLoop (LeaveRemote cid # pending) canonical visiting remaining =
     aliasLoop pending canonical (filter (\<lambda>c. c \<noteq> cid) visiting) remaining"
| "aliasLoop (EnterRemote nodeId node # pending) canonical visiting remaining =
     (case enterRemote nodeId node canonical visiting remaining of
        Inl e \<Rightarrow> Inl e
      | Inr (frames, canonical, visiting, remaining) \<Rightarrow> aliasLoop (frames @ pending) canonical visiting remaining)"
  by pat_completeness auto

termination
  by (relation "measures [\<lambda>(fs, c, v, r). sum_list (map frameWeight fs)]") (auto dest!: enterRemote_weight)

definition validateRemoteSyncTreeAliases :: "string option \<Rightarrow> 'p payload CRDTChangeNode \<Rightarrow> alias_error + unit" where
  "validateRemoteSyncTreeAliases remoteRootId remoteRoot =
     aliasLoop [EnterRemote remoteRootId remoteRoot] [] [] MAX_REMOTE_SYNC_PAYLOAD_COMPARISON_ITEMS"

section \<open>Merging a remote tree\<close>

type_synonym 'p mergedEntries = "(string, CRDTChangeNodeKind \<times> 'p option) jsmap"

text \<open>The entry recorded for an occurrence: an inline payload replaces a missing one.\<close>

definition recordEntry :: "string \<Rightarrow> 'c CRDTChangeNode \<Rightarrow> 'c mergedEntries \<Rightarrow> 'c mergedEntries" where
  "recordEntry nodeId node byCid =
     (case jget byCid nodeId of
        None \<Rightarrow> jset byCid nodeId (nodeKind node, nodeChange node)
      | Some (kind, change) \<Rightarrow>
          if change = None \<and> nodeChange node \<noteq> None then jset byCid nodeId (nodeKind node, nodeChange node) else byCid)"

definition pendingWeight :: "('x \<times> 'c CRDTChangeNode) list \<Rightarrow> nat" where
  "pendingWeight ps = sum_list (map (\<lambda>p. nodeWeight (snd p)) ps)"

lemma pendingWeight_simps [simp]:
  "pendingWeight [] = 0" "pendingWeight (p # ps) = nodeWeight (snd p) + pendingWeight ps"
  "pendingWeight (ps @ qs) = pendingWeight ps + pendingWeight qs" "pendingWeight (map (\<lambda>(k, n). (f k, n)) cs) = pendingWeight cs"
  by (simp_all add: pendingWeight_def o_def case_prod_unfold)

lemma childEntries_pending: "childEntries node = Some cs \<Longrightarrow> pendingWeight cs < nodeWeight node"
  using childEntries_weight by (simp add: pendingWeight_def)

lemma children_pending: "nodeChildren node = Children cs \<Longrightarrow> pendingWeight cs < nodeWeight node"
  using childEntries_pending [of node cs] by (simp add: childEntries_def)

function mergeLoop ::
    "string option \<Rightarrow> (string \<Rightarrow> bool) \<Rightarrow> (string \<times> 'c CRDTChangeNode) list \<Rightarrow> string list \<Rightarrow> 'c mergedEntries
      \<Rightarrow> alias_error + 'c mergedEntries" where
  "mergeLoop localRootId localHashes [] walked byCid = Inr byCid"
| "mergeLoop localRootId localHashes ((nodeId, node) # pending) walked byCid =
     (if Some nodeId = localRootId \<or> localHashes nodeId then mergeLoop localRootId localHashes pending walked byCid
      else
        let byCid = recordEntry nodeId node byCid
        in if nodeId \<in> set walked then mergeLoop localRootId localHashes pending walked byCid
           else case nodeChildren node of
             NoChildren \<Rightarrow> mergeLoop localRootId localHashes pending walked byCid
           | DeferredChildren \<Rightarrow> Inl DeferredNotSupported
           | Children cs \<Rightarrow> mergeLoop localRootId localHashes (cs @ pending) (nodeId # walked) byCid)"
  by pat_completeness auto

termination
  by (relation "measures [\<lambda>(l, h, ps, w, b). pendingWeight ps]") (auto dest: children_pending)

definition mergeRemoteSyncTree ::
    "string option \<Rightarrow> 'p payload CRDTChangeNode \<Rightarrow> string option \<Rightarrow> (string \<Rightarrow> bool)
      \<Rightarrow> alias_error + (string \<times> CRDTChangeNodeKind \<times> 'p payload option) list" where
  "mergeRemoteSyncTree remoteRootId remoteRoot localRootId localHashes =
     (case remoteRootId of
        None \<Rightarrow> Inr []
      | Some rootId \<Rightarrow>
          if remoteRootId = localRootId \<or> localHashes rootId then Inr []
          else sbind (validateRemoteSyncTreeAliases remoteRootId remoteRoot) (\<lambda>_.
               mergeLoop localRootId localHashes [(rootId, remoteRoot)] [] []))"


section \<open>Walks over occurrences\<close>

text \<open>
  The skeleton of the remaining walks: a stack of occurrences, each with its CID, its node
  and whether its parent counts as referencing it. A node is expanded the first time its
  CID occurs with children; \<open>visit\<close> runs for every occurrence and \<open>expand\<close> for every
  expansion.
\<close>

function occurrenceWalk ::
    "(string option \<Rightarrow> bool \<Rightarrow> 's \<Rightarrow> 's) \<Rightarrow> (string option \<Rightarrow> (string \<times> 'c CRDTChangeNode) list \<Rightarrow> 's \<Rightarrow> 's) \<Rightarrow> (string option \<Rightarrow> bool)
      \<Rightarrow> ((string option \<times> bool) \<times> 'c CRDTChangeNode) list \<Rightarrow> string list \<Rightarrow> 's \<Rightarrow> 's" where
  "occurrenceWalk visit expand includeParent [] walked s = s"
| "occurrenceWalk visit expand includeParent (((nodeId, referenced), node) # pending) walked s =
     (let s = visit nodeId referenced s
      in case nodeChildren node of
        Children cs \<Rightarrow>
          if (case nodeId of None \<Rightarrow> False | Some i \<Rightarrow> i \<in> set walked) then occurrenceWalk visit expand includeParent pending walked s
          else occurrenceWalk visit expand includeParent (map (\<lambda>(k, c). ((Some k, includeParent nodeId), c)) cs @ pending)
                 (case nodeId of None \<Rightarrow> walked | Some i \<Rightarrow> i # walked) (expand nodeId cs s)
      | _ \<Rightarrow> occurrenceWalk visit expand includeParent pending walked s)"
  by pat_completeness auto

termination
  by (relation "measures [\<lambda>(v, e, i, ps, w, s). pendingWeight ps]") (auto dest: children_pending)

text \<open>\<open>Set.add\<close>, keeping the order of insertion.\<close>

definition setAdd :: "'a \<Rightarrow> 'a list \<Rightarrow> 'a list" where
  "setAdd x xs = (if x \<in> set xs then xs else xs @ [x])"

definition collectReferencedAncestors ::
    "string option \<Rightarrow> 'c CRDTChangeNode \<Rightarrow> string list \<Rightarrow> (string option \<Rightarrow> bool) \<Rightarrow> string list" where
  "collectReferencedAncestors rootId rootNode out includeParent =
     occurrenceWalk (\<lambda>nodeId referenced out. if referenced \<and> nodeId \<noteq> None then setAdd (the nodeId) out else out) (\<lambda>_ _ out. out)
       includeParent [((rootId, False), rootNode)] [] out"

definition servedVisit :: "string option \<Rightarrow> bool \<Rightarrow> string list \<times> string list \<Rightarrow> string list \<times> string list" where
  "servedVisit nodeId referenced sets =
     (case nodeId of
        None \<Rightarrow> sets
      | Some i \<Rightarrow> (setAdd i (fst sets), if referenced then setAdd i (snd sets) else snd sets))"

definition computeServedFrontier ::
    "string option \<Rightarrow> 'c CRDTChangeNode option \<Rightarrow> string option \<Rightarrow> string list" where
  "computeServedFrontier changeId changes snapshotBoundaryCid =
     (let (cids, referenced) =
            (case changes of
               None \<Rightarrow> ([], [])
             | Some rootNode \<Rightarrow> occurrenceWalk servedVisit (\<lambda>_ _ sets. sets) (\<lambda>_. True) [((changeId, False), rootNode)] [] ([], []));
          cids = (case snapshotBoundaryCid of None \<Rightarrow> cids | Some b \<Rightarrow> if b = [] then cids else setAdd b cids)
      in filter (\<lambda>cid. cid \<notin> set referenced) cids)"

function treeContainsCid_loop :: "string \<Rightarrow> (string option \<times> 'c CRDTChangeNode) list \<Rightarrow> string list \<Rightarrow> bool" where
  "treeContainsCid_loop target [] walked = False"
| "treeContainsCid_loop target ((nodeId, node) # pending) walked =
     (if nodeId = Some target then True
      else case nodeChildren node of
        Children cs \<Rightarrow>
          if (case nodeId of None \<Rightarrow> False | Some i \<Rightarrow> i \<in> set walked) then treeContainsCid_loop target pending walked
          else treeContainsCid_loop target (map (\<lambda>(k, c). (Some k, c)) cs @ pending)
                 (case nodeId of None \<Rightarrow> walked | Some i \<Rightarrow> i # walked)
      | _ \<Rightarrow> treeContainsCid_loop target pending walked)"
  by pat_completeness auto

termination
  by (relation "measures [\<lambda>(t, ps, w). pendingWeight ps]") (auto dest: children_pending)

definition treeContainsCid :: "string option \<Rightarrow> 'c CRDTChangeNode option \<Rightarrow> string option \<Rightarrow> bool" where
  "treeContainsCid rootId rootNode targetCid =
     (case (targetCid, rootNode) of
        (Some target, Some node) \<Rightarrow> target \<noteq> [] \<and> treeContainsCid_loop target [(rootId, node)] []
      | _ \<Rightarrow> False)"

subsection \<open>Candidates with closed ancestry\<close>

text \<open>For each candidate child the candidates that reference it, and the candidates that reference an unknown CID.\<close>

record closureGraph =
  referencing :: "(string, string list) jsmap"
  openNodes :: "string list"

fun noteReferences :: "(string \<Rightarrow> bool) \<Rightarrow> (string \<Rightarrow> bool) \<Rightarrow> string \<Rightarrow> (string \<times> 'n) list \<Rightarrow> closureGraph \<Rightarrow> closureGraph" where
  "noteReferences candidates isKnown nodeId [] g = g"
| "noteReferences candidates isKnown nodeId ((childId, child) # entries) g =
     noteReferences candidates isKnown nodeId entries
       (if candidates childId
        then g\<lparr>referencing := jset (referencing g) childId
                 ((case jget (referencing g) childId of None \<Rightarrow> [] | Some ns \<Rightarrow> ns) @ [nodeId])\<rparr>
        else if \<not> isKnown childId then g\<lparr>openNodes := openNodes g @ [nodeId]\<rparr>
        else g)"

text \<open>The second loop removes open candidates and whatever references them; the stack grows at its end.\<close>

function withdrawLoop :: "(string, string list) jsmap \<Rightarrow> string list \<Rightarrow> string list \<Rightarrow> string list" where
  "withdrawLoop refs stack selected =
     (case stack of
        [] \<Rightarrow> selected
      | nodeId # stack \<Rightarrow>
          if nodeId \<notin> set selected then withdrawLoop refs stack selected
          else withdrawLoop refs (rev (case jget refs nodeId of None \<Rightarrow> [] | Some ns \<Rightarrow> ns) @ stack)
                 (filter (\<lambda>c. c \<noteq> nodeId) selected))"
  by pat_completeness auto

termination
  by (relation "measures [\<lambda>(r, st, sel). length sel, \<lambda>(r, st, sel). length st]") (auto intro: length_filter_less)

definition selectAncestryClosedNodes ::
    "string option \<Rightarrow> 'c CRDTChangeNode \<Rightarrow> string list \<Rightarrow> (string \<Rightarrow> bool) \<Rightarrow> string list" where
  "selectAncestryClosedNodes rootId rootNode candidates isKnown =
     (let g = occurrenceWalk (\<lambda>_ _ g. g)
            (\<lambda>nodeId entries g.
               case nodeId of None \<Rightarrow> g
               | Some i \<Rightarrow> if i \<in> set candidates then noteReferences (\<lambda>c. c \<in> set candidates) isKnown i entries g else g)
            (\<lambda>_. False) [((rootId, False), rootNode)] [] \<lparr>referencing = [], openNodes = []\<rparr>
      in withdrawLoop (referencing g) (rev (openNodes g)) candidates)"

section \<open>Stripping and collecting\<close>

fun stripChanges :: "'c CRDTChangeNode \<Rightarrow> 'c CRDTChangeNode" where
  "stripChanges (ChangeNode kind change children) =
     ChangeNode kind None
       (case children of
          Children cs \<Rightarrow> Children (map (\<lambda>(k, c). (k, stripChanges c)) cs)
        | NoChildren \<Rightarrow> NoChildren
        | DeferredChildren \<Rightarrow> DeferredChildren)"

definition stripInlineChanges :: "'c CRDTChangeNode option \<Rightarrow> 'c CRDTChangeNode option" where
  "stripInlineChanges node = map_option stripChanges node"

definition collectAllCidsInTree ::
    "(nat \<Rightarrow> 'c NodeObject) \<Rightarrow> string option \<Rightarrow> objectRef option \<Rightarrow> change_tree_error + string list" where
  "collectAllCidsInTree heap rootId rootRef =
     (case rootRef of
        None \<Rightarrow> Inr (case rootId of None \<Rightarrow> [] | Some i \<Rightarrow> if i = [] then [] else [i])
      | Some ref \<Rightarrow>
          sbind (collectBoundedChangeTree defaultOptions heap rootId ref) (\<lambda>entries.
            Inr (fold setAdd (concat (map (\<lambda>e. case fst e of None \<Rightarrow> [] | Some i \<Rightarrow> [i]) entries)) [])))"

end
