(* ===== verification/Sync_Tree_Proofs.thy ===== *)
theory Sync_Tree_Proofs
  imports Sync_Tree
begin

text \<open>
  What the walks over a change tree compute. All of them share one log of occurrences:
  which occurrence is visited, and which is expanded. When the occurrences of a CID that
  carry children agree on them, the log is complete, and the frontier, the selection and
  the merge are sets defined by the tree alone.
\<close>


section \<open>Occurrences\<close>

inductive occurs :: "string option \<Rightarrow> 'c CRDTChangeNode \<Rightarrow> string option \<Rightarrow> 'c CRDTChangeNode \<Rightarrow> bool"
  for i0 :: "string option" and n0 :: "'c CRDTChangeNode"
where
  here: "occurs i0 n0 i0 n0"
| child: "occurs i0 n0 i n \<Longrightarrow> nodeChildren n = Children cs \<Longrightarrow> (k, c) \<in> set cs \<Longrightarrow> occurs i0 n0 (Some k) c"

text \<open>An occurrence that is reached without passing through a skipped CID.\<close>

inductive reached :: "(string option \<Rightarrow> bool) \<Rightarrow> string option \<Rightarrow> 'c CRDTChangeNode \<Rightarrow> string option \<Rightarrow> 'c CRDTChangeNode \<Rightarrow> bool"
  for skip :: "string option \<Rightarrow> bool" and i0 :: "string option" and n0 :: "'c CRDTChangeNode"
where
  reached_here: "\<not> skip i0 \<Longrightarrow> reached skip i0 n0 i0 n0"
| reached_child: "reached skip i0 n0 i n \<Longrightarrow> nodeChildren n = Children cs \<Longrightarrow> (k, c) \<in> set cs \<Longrightarrow> \<not> skip (Some k) \<Longrightarrow>
    reached skip i0 n0 (Some k) c"

lemma reached_all: "reached (\<lambda>_. False) i0 n0 i n \<longleftrightarrow> occurs i0 n0 i n"
proof
  show "reached (\<lambda>_. False) i0 n0 i n \<Longrightarrow> occurs i0 n0 i n" by (induction rule: reached.induct) (auto intro: occurs.intros)
  show "occurs i0 n0 i n \<Longrightarrow> reached (\<lambda>_. False) i0 n0 i n" by (induction rule: occurs.induct) (auto intro: reached.intros)
qed

text \<open>The occurrences of a CID with children have the same children.\<close>

definition one_expansion :: "(string option \<Rightarrow> bool) \<Rightarrow> string option \<Rightarrow> 'c CRDTChangeNode \<Rightarrow> bool" where
  "one_expansion skip i0 n0 \<longleftrightarrow> (\<forall>k n m cs ds. reached skip i0 n0 (Some k) n \<and> nodeChildren n = Children cs \<and>
     reached skip i0 n0 (Some k) m \<and> nodeChildren m = Children ds \<longrightarrow> cs = ds)"

section \<open>The log of a walk\<close>

type_synonym 'c occurrence = "(string option \<times> bool) \<times> 'c CRDTChangeNode"

definition seen :: "string option \<Rightarrow> string list \<Rightarrow> bool" where
  "seen i walked \<longleftrightarrow> (case i of None \<Rightarrow> False | Some k \<Rightarrow> k \<in> set walked)"

definition mark :: "string option \<Rightarrow> string list \<Rightarrow> string list" where
  "mark i walked = (case i of None \<Rightarrow> walked | Some k \<Rightarrow> k # walked)"

function walkLog ::
    "(string option \<Rightarrow> bool) \<Rightarrow> (string option \<Rightarrow> bool) \<Rightarrow> 'c occurrence list \<Rightarrow> string list \<Rightarrow> ('c occurrence \<times> bool) list" where
  "walkLog skip flag [] walked = []"
| "walkLog skip flag (((i, b), n) # pending) walked =
     (if skip i then walkLog skip flag pending walked
      else case nodeChildren n of
        Children cs \<Rightarrow>
          if seen i walked then (((i, b), n), False) # walkLog skip flag pending walked
          else (((i, b), n), True) # walkLog skip flag (map (\<lambda>(k, c). ((Some k, flag i), c)) cs @ pending) (mark i walked)
      | _ \<Rightarrow> (((i, b), n), False) # walkLog skip flag pending walked)"
  by pat_completeness auto

termination
  by (relation "measures [\<lambda>(s, f, ps, w). pendingWeight ps]") (auto dest: children_pending)

text \<open>The children an occurrence is expanded to, if it is expanded, and the rules of the log over them.\<close>

definition expansion :: "string option \<Rightarrow> 'c CRDTChangeNode \<Rightarrow> string list \<Rightarrow> (string \<times> 'c CRDTChangeNode) list option" where
  "expansion i n walked = (case nodeChildren n of Children cs \<Rightarrow> if seen i walked then None else Some cs | _ \<Rightarrow> None)"

definition childOccurrences :: "bool \<Rightarrow> (string \<times> 'c CRDTChangeNode) list \<Rightarrow> 'c occurrence list" where
  "childOccurrences b cs = map (\<lambda>(k, c). ((Some k, b), c)) cs"

lemma expansion_Some: "expansion i n walked = Some cs \<longleftrightarrow> nodeChildren n = Children cs \<and> \<not> seen i walked"
  by (auto simp: expansion_def split: changeChildren.splits)

lemma expansion_None: "expansion i n walked = None \<longleftrightarrow> (\<forall>cs. nodeChildren n = Children cs \<longrightarrow> seen i walked)"
  by (auto simp: expansion_def split: changeChildren.splits)

lemma childOccurrences_mem: "(((i, b), c) \<in> set (childOccurrences b' cs)) \<longleftrightarrow> b = b' \<and> (\<exists>k. i = Some k \<and> (k, c) \<in> set cs)"
  by (auto simp: childOccurrences_def)

lemma walkLog_skip: "skip i \<Longrightarrow> walkLog skip flag (((i, b), n) # ps) walked = walkLog skip flag ps walked"
  by simp

lemma walkLog_stay: "\<not> skip i \<Longrightarrow> expansion i n walked = None \<Longrightarrow>
    walkLog skip flag (((i, b), n) # ps) walked = (((i, b), n), False) # walkLog skip flag ps walked"
  by (auto simp: expansion_def split: changeChildren.splits if_splits)

lemma walkLog_expand: "\<not> skip i \<Longrightarrow> expansion i n walked = Some cs \<Longrightarrow>
    walkLog skip flag (((i, b), n) # ps) walked = (((i, b), n), True) # walkLog skip flag (childOccurrences (flag i) cs @ ps) (mark i walked)"
  by (auto simp: expansion_Some childOccurrences_def)

lemma walkLog_Nil: "walkLog skip flag [] walked = []"
  by simp

declare walkLog.simps [simp del]

lemmas walk_log = walkLog_Nil walkLog_skip walkLog_stay walkLog_expand

lemma walk_induct [case_names Nil skip stay expand]:
  assumes "\<And>walked. P [] walked"
    and "\<And>i b n ps walked. skip i \<Longrightarrow> P ps walked \<Longrightarrow> P (((i, b), n) # ps) walked"
    and "\<And>i b n ps walked. \<not> skip i \<Longrightarrow> expansion i n walked = None \<Longrightarrow> P ps walked \<Longrightarrow> P (((i, b), n) # ps) walked"
    and "\<And>i b n ps walked cs. \<not> skip i \<Longrightarrow> expansion i n walked = Some cs \<Longrightarrow> P (childOccurrences (flag i) cs @ ps) (mark i walked) \<Longrightarrow>
      P (((i, b), n) # ps) walked"
  shows "P ps walked"
proof (induction "pendingWeight ps" arbitrary: ps walked rule: less_induct)
  case (less ps walked)
  show ?case
  proof (cases ps)
    case Nil
    then show ?thesis using assms(1) by simp
  next
    case (Cons x rest)
    obtain i b n where x: "x = ((i, b), n)" by (cases x) auto
    have rest: "P rest w" for w using less [of rest] Cons x nodeWeight_pos [of n] by simp
    show ?thesis
    proof (cases "skip i")
      case True
      then show ?thesis using assms(2) rest Cons x by simp
    next
      case False
      show ?thesis
      proof (cases "expansion i n walked")
        case None
        then show ?thesis using assms(3) False rest Cons x by simp
      next
        case (Some cs)
        have "pendingWeight (childOccurrences (flag i) cs @ rest) < pendingWeight ps"
          using children_pending [of n cs] Some Cons x by (simp add: expansion_Some childOccurrences_def pendingWeight_def o_def case_prod_unfold)
        then show ?thesis using assms(4) [OF False Some] less Cons x by simp
      qed
    qed
  qed
qed

section \<open>The log is complete\<close>

lemma walkLog_pending: "x \<in> set ps \<Longrightarrow> \<not> skip (fst (fst x)) \<Longrightarrow> x \<in> fst ` set (walkLog skip flag ps walked)"
  by (induction ps walked rule: walk_induct [where skip = skip and flag = flag]) (auto simp: walk_log)

lemma walkLog_expanded:
  "(((i, b), n), True) \<in> set (walkLog skip flag ps walked) \<Longrightarrow> \<exists>cs. nodeChildren n = Children cs \<and>
    (\<forall>(k, c) \<in> set cs. \<not> skip (Some k) \<longrightarrow> ((Some k, flag i), c) \<in> fst ` set (walkLog skip flag ps walked))"
proof (induction ps walked rule: walk_induct [where skip = skip and flag = flag])
  case (expand j b' m ps walked cs)
  let ?next = "childOccurrences (flag j) cs @ ps"
  have kids: "\<forall>(k, c) \<in> set cs. \<not> skip (Some k) \<longrightarrow> ((Some k, flag j), c) \<in> fst ` set (walkLog skip flag ?next (mark j walked))"
    using walkLog_pending [of _ ?next skip flag "mark j walked"] by (force simp: childOccurrences_def)
  have cs: "nodeChildren m = Children cs" using expand.hyps(2) by (simp add: expansion_Some)
  from expand.prems consider "i = j" "n = m" | "(((i, b), n), True) \<in> set (walkLog skip flag ?next (mark j walked))"
    by (auto simp: walkLog_expand [where skip = skip and flag = flag, OF expand.hyps(1,2)])
  then show ?case
  proof cases
    case 1
    then show ?thesis using kids cs by (auto simp: walkLog_expand [where skip = skip and flag = flag, OF expand.hyps(1,2)])
  next
    case 2
    then show ?thesis using expand.IH by (auto simp: walkLog_expand [where skip = skip and flag = flag, OF expand.hyps(1,2)])
  qed
qed (auto simp: walk_log)

lemma walkLog_stays:
  "(((i, b), n), False) \<in> set (walkLog skip flag ps walked) \<Longrightarrow> nodeChildren n = Children cs \<Longrightarrow>
    \<exists>k. i = Some k \<and> (k \<in> set walked \<or> (\<exists>b' m. (((Some k, b'), m), True) \<in> set (walkLog skip flag ps walked)))"
proof (induction ps walked rule: walk_induct [where skip = skip and flag = flag])
  case (stay j b' m ps walked)
  then show ?case by (cases i) (fastforce simp: walk_log expansion_None seen_def split: option.splits)+
next
  case (expand j b' m ps walked ds)
  let ?next = "walkLog skip flag (childOccurrences (flag j) ds @ ps) (mark j walked)"
  note step = walkLog_expand [where skip = skip and flag = flag, OF expand.hyps(1,2)]
  have "(((i, b), n), False) \<in> set ?next" using expand.prems(1) by (simp add: step)
  then obtain k where k: "i = Some k" "k \<in> set (mark j walked) \<or> (\<exists>b' m. (((Some k, b'), m), True) \<in> set ?next)"
    using expand.IH expand.prems(2) by blast
  have "k \<in> set (mark j walked) \<Longrightarrow> k \<in> set walked \<or> j = Some k" by (cases j) (auto simp: mark_def)
  then have "k \<in> set walked \<or> (\<exists>b'' m'. (((Some k, b''), m'), True) \<in> insert (((j, b'), m), True) (set ?next))" using k(2) by blast
  then show ?case using k(1) by (simp add: step)
qed (auto simp: walk_log)

lemma walkLog_sound:
  assumes "\<forall>x \<in> set ps. \<not> skip (fst (fst x)) \<longrightarrow> reached skip i0 n0 (fst (fst x)) (snd x)"
    and "x \<in> fst ` set (walkLog skip flag ps walked)"
  shows "reached skip i0 n0 (fst (fst x)) (snd x) \<and> \<not> skip (fst (fst x))"
  using assms
proof (induction ps walked rule: walk_induct [where skip = skip and flag = flag])
  case (expand j b m ps walked cs)
  have "reached skip i0 n0 j m" using expand.prems(1) expand.hyps(1) by auto
  then have "\<forall>y \<in> set (childOccurrences (flag j) cs). \<not> skip (fst (fst y)) \<longrightarrow> reached skip i0 n0 (fst (fst y)) (snd y)"
    using expand.hyps(2) by (auto simp: childOccurrences_def expansion_Some intro: reached_child)
  then show ?case using expand by (auto simp: walkLog_expand [where skip = skip and flag = flag, OF expand.hyps(1,2)])
qed (auto simp: walk_log)

lemma walkLog_complete:
  assumes "one_expansion skip i0 n0" "reached skip i0 n0 i n"
  shows "\<exists>b. ((i, b), n) \<in> fst ` set (walkLog skip flag [((i0, b0), n0)] [])"
    and "nodeChildren n = Children cs \<Longrightarrow> (k, c) \<in> set cs \<Longrightarrow> \<not> skip (Some k) \<Longrightarrow>
      ((Some k, flag i), c) \<in> fst ` set (walkLog skip flag [((i0, b0), n0)] [])"
proof -
  let ?log = "walkLog skip flag [((i0, b0), n0)] []"
  have sound: "reached skip i0 n0 j m" if "(((j, b), m), e) \<in> set ?log" for j b m e
    using walkLog_sound [of "[((i0, b0), n0)]" skip i0 n0 "((j, b), m)" flag "[]"] that by (force intro: reached_here)
  have kids: "((Some k, flag j), c) \<in> fst ` set ?log"
    if a: "((j, b), m) \<in> fst ` set ?log" "nodeChildren m = Children cs" "(k, c) \<in> set cs" "\<not> skip (Some k)" for j b m cs k c
  proof -
    obtain x where x: "x \<in> set ?log" "((j, b), m) = fst x" using a(1) by blast
    obtain e where e: "(((j, b), m), e) \<in> set ?log" using x by (metis surjective_pairing)
    have "\<exists>b' m'. (((j, b'), m'), True) \<in> set ?log \<and> nodeChildren m' = Children cs"
    proof (cases e)
      case True
      then show ?thesis using e that(2) by auto
    next
      case False
      then obtain l b' m' where l: "j = Some l" "(((Some l, b'), m'), True) \<in> set ?log"
        using walkLog_stays [of j b m skip flag "[((i0, b0), n0)]" "[]" cs] e a(2) by auto
      obtain ds where ds: "nodeChildren m' = Children ds" using walkLog_expanded [OF l(2)] by blast
      have "ds = cs" using assms(1) sound [OF l(2)] sound [OF e] l(1) ds that(2) unfolding one_expansion_def by blast
      then show ?thesis using l ds by auto
    qed
    then show ?thesis using walkLog_expanded that(2-4) by fastforce
  qed
  have mem: "\<exists>b. ((i, b), n) \<in> fst ` set ?log" using assms(2)
  proof (induction rule: reached.induct)
    case reached_here
    then show ?case using walkLog_pending [of "((i0, b0), n0)" "[((i0, b0), n0)]" skip flag "[]"] by auto
  next
    case (reached_child i n cs k c)
    then show ?case using kids by blast
  qed
  then show "\<exists>b. ((i, b), n) \<in> fst ` set ?log" .
  show "nodeChildren n = Children cs \<Longrightarrow> (k, c) \<in> set cs \<Longrightarrow> \<not> skip (Some k) \<Longrightarrow> ((Some k, flag i), c) \<in> fst ` set ?log"
    using mem kids by blast
qed


section \<open>The frontier\<close>

definition kidsOf :: "'c CRDTChangeNode \<Rightarrow> (string \<times> 'c CRDTChangeNode) list" where
  "kidsOf n = (case nodeChildren n of Children cs \<Rightarrow> cs | _ \<Rightarrow> [])"

definition logStep ::
    "(string option \<Rightarrow> bool \<Rightarrow> 's \<Rightarrow> 's) \<Rightarrow> (string option \<Rightarrow> (string \<times> 'c CRDTChangeNode) list \<Rightarrow> 's \<Rightarrow> 's) \<Rightarrow> ('c occurrence \<times> bool) \<Rightarrow> 's \<Rightarrow> 's" where
  "logStep visit expand x s =
     (case x of (((i, b), n), e) \<Rightarrow> if e then expand i (kidsOf n) (visit i b s) else visit i b s)"

lemma occurrenceWalk_log: "occurrenceWalk visit expand flag ps walked s = fold (logStep visit expand) (walkLog (\<lambda>_. False) flag ps walked) s"
proof (induction ps walked arbitrary: s rule: walk_induct [where skip = "\<lambda>_. False" and flag = flag])
  case (stay i b n ps walked)
  have "occurrenceWalk visit expand flag (((i, b), n) # ps) walked s = occurrenceWalk visit expand flag ps walked (visit i b s)"
    using stay.hyps by (cases "nodeChildren n"; cases i) (auto simp: expansion_None seen_def)
  then show ?case using stay by (simp add: walkLog_stay logStep_def)
next
  case (expand i b n ps walked cs)
  have "occurrenceWalk visit expand flag (((i, b), n) # ps) walked s =
      occurrenceWalk visit expand flag (childOccurrences (flag i) cs @ ps) (mark i walked) (expand i cs (visit i b s))"
    using expand.hyps by (cases i) (auto simp: expansion_Some seen_def childOccurrences_def mark_def)
  moreover have "kidsOf n = cs" using expand.hyps(2) by (simp add: expansion_Some kidsOf_def)
  ultimately show ?case using expand by (simp add: walkLog_expand [where skip = "\<lambda>_. False" and flag = flag, OF expand.hyps(1,2)] logStep_def)
qed (simp_all add: walk_log)

lemma set_setAdd [simp]: "set (setAdd x xs) = insert x (set xs)"
  by (auto simp: setAdd_def)

lemma served_log:
  "set (fst (fold (logStep servedVisit (\<lambda>_ _ sets. sets)) l (a, b))) = set a \<union> {k. \<exists>f n e. (((Some k, f), n), e) \<in> set l} \<and>
   set (snd (fold (logStep servedVisit (\<lambda>_ _ sets. sets)) l (a, b))) = set b \<union> {k. \<exists>n e. (((Some k, True), n), e) \<in> set l}"
proof (induction l arbitrary: a b)
  case (Cons x l)
  obtain i f n e where x: "x = (((i, f), n), e)" by (metis surj_pair)
  show ?case
  proof (cases i)
    case None
    then show ?thesis using Cons x by (simp add: logStep_def servedVisit_def)
  next
    case (Some k)
    have "logStep servedVisit (\<lambda>_ _ sets. sets) x (a, b) = (setAdd k a, if f then setAdd k b else b)"
      using Some x by (simp add: logStep_def servedVisit_def)
    then show ?thesis using Cons [of "setAdd k a" "if f then setAdd k b else b"] Some x by auto
  qed
qed simp

text \<open>The CIDs that some node of the tree has as a child.\<close>

definition childCids :: "string option \<Rightarrow> 'c CRDTChangeNode \<Rightarrow> string set" where
  "childCids i0 n0 = {k. \<exists>i n cs c. occurs i0 n0 i n \<and> nodeChildren n = Children cs \<and> (k, c) \<in> set cs}"

definition visited :: "(string option \<Rightarrow> bool) \<Rightarrow> (string option \<Rightarrow> bool) \<Rightarrow> 'c occurrence list \<Rightarrow> string list \<Rightarrow> 'c occurrence set" where
  "visited skip flag ps walked = fst ` set (walkLog skip flag ps walked)"

lemma visited_iff: "x \<in> visited skip flag ps walked \<longleftrightarrow> (\<exists>e. (x, e) \<in> set (walkLog skip flag ps walked))"
  by (force simp: visited_def image_iff)

lemma visited_simps:
  "visited skip flag [] walked = {}"
  "skip i \<Longrightarrow> visited skip flag (((i, b), n) # ps) walked = visited skip flag ps walked"
  "\<not> skip i \<Longrightarrow> expansion i n walked = None \<Longrightarrow> visited skip flag (((i, b), n) # ps) walked = insert ((i, b), n) (visited skip flag ps walked)"
  "\<not> skip i \<Longrightarrow> expansion i n walked = Some cs \<Longrightarrow> visited skip flag (((i, b), n) # ps) walked =
    insert ((i, b), n) (visited skip flag (childOccurrences (flag i) cs @ ps) (mark i walked))"
  by (simp_all add: visited_def walk_log walkLog_expand [where skip = skip and flag = flag])

definition child_of :: "(string option \<Rightarrow> bool) \<Rightarrow> 'c occurrence set \<Rightarrow> 'c occurrence \<Rightarrow> bool" where
  "child_of flag V x \<longleftrightarrow> (\<exists>i b n cs k c. ((i, b), n) \<in> V \<and> nodeChildren n = Children cs \<and> (k, c) \<in> set cs \<and> x = ((Some k, flag i), c))"

lemma child_of_mono: "V \<subseteq> W \<Longrightarrow> child_of flag V x \<Longrightarrow> child_of flag W x"
  unfolding child_of_def by blast

lemma visited_origin: "x \<in> visited skip flag ps walked \<Longrightarrow> x \<in> set ps \<or> child_of flag (visited skip flag ps walked) x"
proof (induction ps walked rule: walk_induct [where skip = skip and flag = flag])
  case (expand j b' m ps walked cs)
  let ?x = "((j, b'), m)" and ?V = "visited skip flag (childOccurrences (flag j) cs @ ps) (mark j walked)"
  have V: "visited skip flag (((j, b'), m) # ps) walked = insert ?x ?V" using expand.hyps by (rule visited_simps)
  have kid: "child_of flag (insert ?x ?V) y" if a: "y \<in> set (childOccurrences (flag j) cs)" for y
  proof -
    obtain k c where "y = ((Some k, flag j), c)" "(k, c) \<in> set cs" using a by (auto simp: childOccurrences_def)
    then show ?thesis using expand.hyps(2) unfolding child_of_def expansion_Some by blast
  qed
  consider "x = ?x" | "x \<in> ?V" using expand.prems V by blast
  then show ?case
  proof cases
    case 2
    have "x \<in> set (childOccurrences (flag j) cs) \<or> x \<in> set ps \<or> child_of flag ?V x" using expand.IH [OF 2] by auto
    then show ?thesis unfolding V using kid child_of_mono [OF subset_insertI] by (metis list.set_intros(2))
  qed simp
qed (auto simp: visited_simps dest: child_of_mono [rotated])

lemma visited_member:
  assumes "((i, b), n) \<in> visited (\<lambda>_. False) flag [((i0, b0), n0)] []"
  shows "occurs i0 n0 i n" "(i = i0 \<and> b = b0) \<or> (\<exists>k j. i = Some k \<and> b = flag j \<and> k \<in> childCids i0 n0)"
proof -
  have sound: "occurs i0 n0 j m" if "((j, f), m) \<in> visited (\<lambda>_. False) flag [((i0, b0), n0)] []" for j f m
    using walkLog_sound [of "[((i0, b0), n0)]" "\<lambda>_. False" i0 n0 "((j, f), m)" flag "[]"] that
    by (auto intro: here simp: reached_all visited_def)
  show "occurs i0 n0 i n" using sound [OF assms] .
  from visited_origin [OF assms] show "(i = i0 \<and> b = b0) \<or> (\<exists>k j. i = Some k \<and> b = flag j \<and> k \<in> childCids i0 n0)"
  proof
    assume "child_of flag (visited (\<lambda>_. False) flag [((i0, b0), n0)] []) ((i, b), n)"
    then obtain j f m cs k where "((j, f), m) \<in> visited (\<lambda>_. False) flag [((i0, b0), n0)] []" "nodeChildren m = Children cs"
      "(k, n) \<in> set cs" "i = Some k" "b = flag j" by (auto simp: child_of_def)
    then show ?thesis using sound unfolding childCids_def by blast
  qed simp
qed

lemma visited_complete:
  assumes "one_expansion skip i0 n0"
  shows "reached skip i0 n0 i n \<Longrightarrow> \<exists>b. ((i, b), n) \<in> visited skip flag [((i0, bi), n0)] []"
    and "reached skip i0 n0 i n \<Longrightarrow> nodeChildren n = Children cs \<Longrightarrow> (k, c) \<in> set cs \<Longrightarrow> \<not> skip (Some k) \<Longrightarrow>
      ((Some k, flag i), c) \<in> visited skip flag [((i0, bi), n0)] []"
  unfolding visited_def using walkLog_complete [OF assms] by blast+

lemma full_log:
  assumes "one_expansion (\<lambda>_. False) i0 n0"
  defines "V \<equiv> visited (\<lambda>_. False) (\<lambda>_. True) [((i0, False), n0)] []"
  shows "{k. \<exists>f n. ((Some k, f), n) \<in> V} = set_option i0 \<union> childCids i0 n0" and "{k. \<exists>n. ((Some k, True), n) \<in> V} = childCids i0 n0"
proof -
  have kid: "\<exists>c. ((Some k, True), c) \<in> V" if a: "k \<in> childCids i0 n0" for k
  proof -
    obtain i n cs c where n: "occurs i0 n0 i n" "nodeChildren n = Children cs" "(k, c) \<in> set cs"
      using a unfolding childCids_def by blast
    have "((Some k, True), c) \<in> V"
      unfolding V_def using visited_complete(2) [OF assms(1), unfolded reached_all, OF n, where flag = "\<lambda>_. True" and bi = False] by simp
    then show ?thesis by blast
  qed
  have root: "((i0, False), n0) \<in> V"
    using walkLog_pending [of "((i0, False), n0)" "[((i0, False), n0)]" "\<lambda>_. False"] by (simp add: V_def visited_def)
  have any: "(Some k = i0 \<and> \<not> f) \<or> (k \<in> childCids i0 n0 \<and> f)" if "((Some k, f), n) \<in> V" for k f n
    using visited_member(2) [OF that [unfolded V_def]] by auto
  show "{k. \<exists>n. ((Some k, True), n) \<in> V} = childCids i0 n0" using kid any by blast
  show "{k. \<exists>f n. ((Some k, f), n) \<in> V} = set_option i0 \<union> childCids i0 n0"
  proof (intro equalityI subsetI)
    fix k assume "k \<in> {k. \<exists>f n. ((Some k, f), n) \<in> V}"
    then obtain f n where "((Some k, f), n) \<in> V" by blast
    then show "k \<in> set_option i0 \<union> childCids i0 n0" using any [of k f n] by auto
  next
    fix k assume "k \<in> set_option i0 \<union> childCids i0 n0"
    then consider "i0 = Some k" | "k \<in> childCids i0 n0" by auto
    then show "k \<in> {k. \<exists>f n. ((Some k, f), n) \<in> V}" using root kid by cases blast+
  qed
qed

lemma frontier_set:
  "set (computeServedFrontier i (Some t) boundary) =
    (let r = fold (logStep servedVisit (\<lambda>_ _ sets. sets)) (walkLog (\<lambda>_. False) (\<lambda>_. True) [((i, False), t)] []) ([], [])
     in (set (fst r) \<union> {b. boundary = Some b \<and> b \<noteq> []}) - set (snd r))"
  by (cases boundary) (auto simp: computeServedFrontier_def occurrenceWalk_log Let_def case_prod_unfold)

text \<open>
  C21: if the occurrences of a CID that carry children carry the same children
  (\<open>one_expansion\<close>), the frontier computed for a served tree is its root and the
  snapshot boundary, except those that the tree references as a child. Without that condition
  a child of an occurrence that the walk does not expand may stay on the frontier.
\<close>

theorem computeServedFrontier_exact:
  assumes "one_expansion (\<lambda>_. False) i t"
  shows "set (computeServedFrontier i (Some t) boundary) = (set_option i \<union> {b. boundary = Some b \<and> b \<noteq> []}) - childCids i t"
proof -
  let ?r = "fold (logStep servedVisit (\<lambda>_ _ sets. sets)) (walkLog (\<lambda>_. False) (\<lambda>_. True) [((i, False), t)] []) ([], [])"
  note log = served_log [of "walkLog (\<lambda>_. False) (\<lambda>_. True) [((i, False), t)] []" "[]" "[]"]
  have "set (fst ?r) = set_option i \<union> childCids i t" "set (snd ?r) = childCids i t"
    unfolding conjunct1 [OF log] conjunct2 [OF log] using full_log [OF assms] by (simp_all only: visited_iff list.set Un_empty_left)
  then show ?thesis unfolding frontier_set Let_def by auto
qed


section \<open>The merge\<close>

definition localCid :: "string option \<Rightarrow> (string \<Rightarrow> bool) \<Rightarrow> string option \<Rightarrow> bool" where
  "localCid localRootId localHashes i \<longleftrightarrow> i = localRootId \<or> (\<exists>k. i = Some k \<and> localHashes k)"

definition recordLog :: "('c occurrence \<times> bool) \<Rightarrow> 'c mergedEntries \<Rightarrow> 'c mergedEntries" where
  "recordLog x m = (case x of (((i, b), n), e) \<Rightarrow> recordEntry (the i) n m)"

lemma recordLog_Some: "i = Some k \<Longrightarrow> recordLog (((i, b), n), e) m = recordEntry k n m"
  by (simp add: recordLog_def)

lemma mergeLoop_log:
  assumes "\<forall>x \<in> set ps. \<exists>k n. x = ((Some k, False), n)"
    and "\<forall>x \<in> visited (localCid l h) (\<lambda>_. False) ps walked. nodeChildren (snd x) \<noteq> DeferredChildren"
  shows "mergeLoop l h (map (\<lambda>x. (the (fst (fst x)), snd x)) ps) walked m = Inr (fold recordLog (walkLog (localCid l h) (\<lambda>_. False) ps walked) m)"
  using assms
proof (induction ps walked arbitrary: m rule: walk_induct [where skip = "localCid l h" and flag = "\<lambda>_. False"])
  case (skip i b n ps walked)
  then show ?case by (auto simp: walk_log visited_simps localCid_def)
next
  case (stay i b n ps walked)
  obtain k where k: "i = Some k" using stay.prems(1) by auto
  have loc: "\<not> (Some k = l \<or> h k)" using stay.hyps(1) k by (auto simp: localCid_def)
  have d: "nodeChildren n \<noteq> DeferredChildren" and rest: "\<forall>x \<in> visited (localCid l h) (\<lambda>_. False) ps walked. nodeChildren (snd x) \<noteq> DeferredChildren"
    using stay.prems(2) unfolding visited_simps(3) [where skip = "localCid l h" and flag = "\<lambda>_. False", OF stay.hyps(1,2)] by simp_all
  have "mergeLoop l h (map (\<lambda>x. (the (fst (fst x)), snd x)) (((i, b), n) # ps)) walked m =
      mergeLoop l h (map (\<lambda>x. (the (fst (fst x)), snd x)) ps) walked (recordEntry k n m)"
    using stay.hyps(2) k loc d by (cases "nodeChildren n") (auto simp: Let_def expansion_None seen_def)
  also have "\<dots> = Inr (fold recordLog (walkLog (localCid l h) (\<lambda>_. False) ps walked) (recordEntry k n m))"
    using stay.prems(1) rest by (intro stay.IH) auto
  finally show ?case by (simp add: walkLog_stay [where skip = "localCid l h" and flag = "\<lambda>_. False", OF stay.hyps(1,2)] recordLog_Some [OF k])
next
  case (expand i b n ps walked cs)
  obtain k where k: "i = Some k" using expand.prems(1) by auto
  have loc: "\<not> (Some k = l \<or> h k)" using expand.hyps(1) k by (auto simp: localCid_def)
  have rest: "\<forall>x \<in> visited (localCid l h) (\<lambda>_. False) (childOccurrences False cs @ ps) (mark i walked). nodeChildren (snd x) \<noteq> DeferredChildren"
    using expand.prems(2) unfolding visited_simps(4) [where skip = "localCid l h" and flag = "\<lambda>_. False", OF expand.hyps(1,2)] by simp
  have kids: "map (\<lambda>x. (the (fst (fst x)), snd x)) (childOccurrences False cs @ ps) = cs @ map (\<lambda>x. (the (fst (fst x)), snd x)) ps"
    by (simp add: childOccurrences_def o_def case_prod_unfold)
  have "mergeLoop l h (map (\<lambda>x. (the (fst (fst x)), snd x)) (((i, b), n) # ps)) walked m =
      mergeLoop l h (map (\<lambda>x. (the (fst (fst x)), snd x)) (childOccurrences False cs @ ps)) (mark i walked) (recordEntry k n m)"
    unfolding kids using expand.hyps(2) loc k by (auto simp: Let_def expansion_Some seen_def mark_def)
  also have "\<dots> = Inr (fold recordLog (walkLog (localCid l h) (\<lambda>_. False) (childOccurrences False cs @ ps) (mark i walked)) (recordEntry k n m))"
    using expand.prems(1) rest by (intro expand.IH) (auto simp: childOccurrences_def)
  finally show ?case
    by (simp add: walkLog_expand [where skip = "localCid l h" and flag = "\<lambda>_. False", OF expand.hyps(1,2)] recordLog_Some [OF k])
qed (simp add: walk_log)

text \<open>The entry recorded for a CID after a list of its occurrences.\<close>

definition entry_of :: "'c mergedEntries \<Rightarrow> (string \<times> 'c CRDTChangeNode) list \<Rightarrow> string \<Rightarrow> CRDTChangeNodeKind \<times> 'c option \<Rightarrow> bool" where
  "entry_of m l k e \<longleftrightarrow> (jget m k = Some e \<or> (\<exists>n. (k, n) \<in> set l \<and> e = (nodeKind n, nodeChange n))) \<and>
     (snd e = None \<longrightarrow> (\<forall>e'. jget m k = Some e' \<longrightarrow> snd e' = None) \<and> (\<forall>n. (k, n) \<in> set l \<longrightarrow> nodeChange n = None))"

lemma jwf_recordEntry: "jwf m \<Longrightarrow> jwf (recordEntry k n m)"
  by (auto simp: recordEntry_def jwf_jset split: option.splits)

lemma recordEntry_keys: "jget (recordEntry k n m) k' \<noteq> None \<longleftrightarrow> k' = k \<or> jget m k' \<noteq> None"
  by (auto simp: recordEntry_def jget_jset split: option.splits)

lemma recordEntry_one: "jget (recordEntry k n m) k' = Some e \<Longrightarrow> entry_of m [(k, n)] k' e"
  by (auto simp: recordEntry_def jget_jset entry_of_def split: option.splits if_splits)

lemma entry_of_Cons:
  assumes m': "jget m' k = Some e'" and one: "entry_of m [x] k e'" and rest: "entry_of m' l k e"
  shows "entry_of m (x # l) k e"
  unfolding entry_of_def
proof (intro conjI impI)
  have "jget m' k = Some e \<or> (\<exists>n. (k, n) \<in> set l \<and> e = (nodeKind n, nodeChange n))" using rest by (simp add: entry_of_def)
  then show "jget m k = Some e \<or> (\<exists>n. (k, n) \<in> set (x # l) \<and> e = (nodeKind n, nodeChange n))"
  proof
    assume "jget m' k = Some e"
    then have "entry_of m [x] k e" using m' one by simp
    then have "jget m k = Some e \<or> (\<exists>n. (k, n) \<in> set [x] \<and> e = (nodeKind n, nodeChange n))" unfolding entry_of_def by (rule conjunct1)
    then show ?thesis by fastforce
  next
    assume "\<exists>n. (k, n) \<in> set l \<and> e = (nodeKind n, nodeChange n)"
    then show ?thesis by fastforce
  qed
  assume "snd e = None"
  then have "snd e' = None" and l: "\<forall>n. (k, n) \<in> set l \<longrightarrow> nodeChange n = None" using rest m' unfolding entry_of_def by blast+
  then have o: "\<forall>e'. jget m k = Some e' \<longrightarrow> snd e' = None" "\<forall>n. (k, n) \<in> set [x] \<longrightarrow> nodeChange n = None"
    using one unfolding entry_of_def by blast+
  show "\<forall>e'. jget m k = Some e' \<longrightarrow> snd e' = None" by (rule o(1))
  show "\<forall>n. (k, n) \<in> set (x # l) \<longrightarrow> nodeChange n = None" using o(2) l by auto
qed

lemma fold_record:
  defines "f \<equiv> \<lambda>x. recordEntry (fst x) (snd x)"
  shows "jwf m \<Longrightarrow> jwf (fold f l m)" "jget (fold f l m) k \<noteq> None \<longleftrightarrow> k \<in> fst ` set l \<or> jget m k \<noteq> None"
    "jget (fold f l m) k = Some e \<Longrightarrow> entry_of m l k e"
proof (induction l arbitrary: m)
  case Nil
  { case 1 then show ?case by simp next case 2 then show ?case by simp next case 3 then show ?case by (simp add: entry_of_def) }
next
  case (Cons x l)
  { case 1
    then show ?case using Cons.IH(1) [OF jwf_recordEntry [OF 1]] by (simp add: f_def)
  next
    case (2 m)
    let ?m = "recordEntry (fst x) (snd x) m"
    have f: "fold f (x # l) m = fold f l ?m" by (simp add: f_def)
    show ?case unfolding f Cons.IH(2) recordEntry_keys by auto
  next
    case (3 m)
    let ?m = "recordEntry (fst x) (snd x) m"
    have e: "entry_of ?m l k e" using Cons.IH(3) [of ?m] 3 by (simp add: f_def)
    have one: "jget ?m k = Some e' \<Longrightarrow> entry_of m [x] k e'" for e' using recordEntry_one [of "fst x" "snd x" m k e'] by simp
    have known: "jget m k = Some e' \<Longrightarrow> \<exists>e''. jget ?m k = Some e''" for e' using recordEntry_keys [of "fst x" "snd x" m k] by auto
    have here: "k = fst x \<Longrightarrow> \<exists>e''. jget ?m k = Some e''" using recordEntry_keys [of "fst x" "snd x" m k] by auto
    show ?case
    proof (cases "jget ?m k")
      case None
      then show ?thesis using e known here by (cases x) (auto simp: entry_of_def)
    next
      case (Some e')
      show ?thesis using entry_of_Cons [OF Some one [OF Some] e] .
    qed
  }
qed


lemma visited_reached:
  assumes "one_expansion skip (Some r) t"
  shows "x \<in> visited skip (\<lambda>_. False) [((Some r, False), t)] [] \<longleftrightarrow> (\<exists>k n. x = ((Some k, False), n) \<and> reached skip (Some r) t (Some k) n)"
proof
  let ?V = "visited skip (\<lambda>_. False) [((Some r, False), t)] []"
  assume x: "x \<in> ?V"
  have "x = ((Some r, False), t) \<or> child_of (\<lambda>_. False) ?V x" using visited_origin [OF x] by simp
  then obtain k n where k: "x = ((Some k, False), n)" by (auto simp: child_of_def)
  have "reached skip (Some r) t (fst (fst x)) (snd x)"
    using walkLog_sound [of "[((Some r, False), t)]" skip "Some r" t x "\<lambda>_. False" "[]"] x by (auto intro: reached_here simp: visited_def)
  then show "\<exists>k n. x = ((Some k, False), n) \<and> reached skip (Some r) t (Some k) n" using k by simp
next
  let ?V = "visited skip (\<lambda>_. False) [((Some r, False), t)] []"
  assume "\<exists>k n. x = ((Some k, False), n) \<and> reached skip (Some r) t (Some k) n"
  then obtain k n where k: "x = ((Some k, False), n)" "reached skip (Some r) t (Some k) n" by blast
  obtain b where b: "((Some k, b), n) \<in> ?V" using visited_complete(1) [OF assms k(2)] by blast
  then have "((Some k, b), n) = ((Some r, False), t) \<or> child_of (\<lambda>_. False) ?V ((Some k, b), n)" using visited_origin [OF b] by simp
  then have "\<not> b" by (auto simp: child_of_def)
  then show "x \<in> ?V" using b k(1) by simp
qed

lemma recordLog_pairs: "fold recordLog l m = fold (\<lambda>x. recordEntry (fst x) (snd x)) (map (\<lambda>x. (the (fst (fst (fst x))), snd (fst x))) l) m"
proof (induction l arbitrary: m)
  case (Cons x l)
  obtain i b n e where "x = (((i, b), n), e)" by (metis surj_pair)
  then show ?case using Cons by (simp add: recordLog_def)
qed simp

text \<open>
  C18: merging a validated remote tree of which the occurrences of each CID that carry
  children carry the same children (\<open>one_expansion\<close>) and of which no part that is new
  to the receiver has deferred children returns one entry for each CID that is reached without
  passing through what the receiver already has; the entry has the kind and the payload of
  an occurrence of the CID, and lacks the payload only if every such occurrence does.
  Validation alone does not give this: without \<open>one_expansion\<close> the merge depends on
  the order of the traversal (\<open>mergeRemoteSyncTree_order_dependent\<close>).
\<close>

theorem mergeRemoteSyncTree_exact:
  assumes agree: "one_expansion (localCid l h) (Some r) t" and valid: "validateRemoteSyncTreeAliases (Some r) t = Inr ()"
    and now: "\<forall>k n. reached (localCid l h) (Some r) t (Some k) n \<longrightarrow> nodeChildren n \<noteq> DeferredChildren"
  shows "\<exists>es. mergeRemoteSyncTree (Some r) t l h = Inr es \<and> distinct (map fst es) \<and>
    fst ` set es = {k. \<exists>n. reached (localCid l h) (Some r) t (Some k) n} \<and>
    (\<forall>(k, kind, change) \<in> set es. (\<exists>n. reached (localCid l h) (Some r) t (Some k) n \<and> nodeKind n = kind \<and> nodeChange n = change) \<and>
      (change = None \<longrightarrow> (\<forall>n. reached (localCid l h) (Some r) t (Some k) n \<longrightarrow> nodeChange n = None)))"
proof (cases "localCid l h (Some r)")
  case True
  have "\<not> reached (localCid l h) (Some r) t i n" for i n
  proof
    assume "reached (localCid l h) (Some r) t i n"
    then show False by (induction rule: reached.induct) (use True in auto)
  qed
  moreover have "mergeRemoteSyncTree (Some r) t l h = Inr []" using True by (auto simp: mergeRemoteSyncTree_def localCid_def)
  ultimately show ?thesis by auto
next
  case False
  let ?skip = "localCid l h"
  let ?log = "walkLog ?skip (\<lambda>_. False) [((Some r, False), t)] []"
  define pairs where "pairs = map (\<lambda>x. (the (fst (fst (fst x))), snd (fst x))) ?log"
  define es where "es = fold (\<lambda>x. recordEntry (fst x) (snd x)) pairs []"
  have mem: "(k, n) \<in> set pairs \<longleftrightarrow> reached ?skip (Some r) t (Some k) n" for k n
  proof -
    have "(k, n) \<in> set pairs \<longleftrightarrow> (\<exists>x \<in> visited ?skip (\<lambda>_. False) [((Some r, False), t)] []. k = the (fst (fst x)) \<and> n = snd x)"
      by (auto simp: pairs_def visited_def)
    also have "\<dots> \<longleftrightarrow> (\<exists>x k' n'. x = ((Some k', False), n') \<and> reached ?skip (Some r) t (Some k') n' \<and> k = the (fst (fst x)) \<and> n = snd x)"
      unfolding Bex_def visited_reached [OF agree] by blast
    finally show ?thesis by (auto simp: ex_bool_eq)
  qed
  have "mergeLoop l h (map (\<lambda>x. (the (fst (fst x)), snd x)) [((Some r, False), t)]) [] [] = Inr (fold recordLog ?log [])"
    using now visited_reached [OF agree] by (intro mergeLoop_log) auto
  then have merged: "mergeRemoteSyncTree (Some r) t l h = Inr es"
    using False valid by (simp add: mergeRemoteSyncTree_def localCid_def es_def pairs_def recordLog_pairs)
  have wf: "jwf es" unfolding es_def by (rule fold_record(1)) simp
  have keys: "jget es k \<noteq> None \<longleftrightarrow> k \<in> fst ` set pairs" for k
    unfolding es_def fold_record(2) by simp
  have entry: "entry_of [] pairs k e" if "(k, e) \<in> set es" for k e
    using that wf unfolding es_def by (intro fold_record(3)) (simp add: jget_eq_Some_iff)
  have here: "k \<in> fst ` set es \<longleftrightarrow> (\<exists>n. reached ?skip (Some r) t (Some k) n)" for k
  proof -
    have "k \<in> fst ` set es \<longleftrightarrow> k \<in> fst ` set pairs" using keys [of k] unfolding jget_None_iff by blast
    also have "\<dots> \<longleftrightarrow> (\<exists>n. (k, n) \<in> set pairs)" by force
    finally show ?thesis unfolding mem .
  qed
  have each: "(\<exists>n. reached ?skip (Some r) t (Some k) n \<and> nodeKind n = kind \<and> nodeChange n = change) \<and>
      (change = None \<longrightarrow> (\<forall>n. reached ?skip (Some r) t (Some k) n \<longrightarrow> nodeChange n = None))"
    if a: "(k, kind, change) \<in> set es" for k kind change
    using entry [OF a] unfolding entry_of_def mem by (simp add: jget_def) blast
  have d: "distinct (map fst es)" using wf by (simp add: jwf_def jkeys_def)
  show ?thesis
  proof (intro exI [of _ es] conjI)
    show "fst ` set es = {k. \<exists>n. reached ?skip (Some r) t (Some k) n}" using here by blast
    show "\<forall>(k, kind, change) \<in> set es. (\<exists>n. reached ?skip (Some r) t (Some k) n \<and> nodeKind n = kind \<and> nodeChange n = change) \<and>
      (change = None \<longrightarrow> (\<forall>n. reached ?skip (Some r) t (Some k) n \<longrightarrow> nodeChange n = None))"
      using each by blast
  qed (rule merged, rule d)
qed

end
