(* ===== verification/Sync_Tree_Theorems.thy ===== *)
theory Sync_Tree_Theorems
  imports Sync_Tree_Proofs
begin

text \<open>
  The selection of nodes whose ancestry is available, concrete trees for the theorems on
  the walks, and a tree that passes the validation while the merge loses payloads of it.
\<close>


section \<open>Candidates with closed ancestry\<close>

definition parentOf :: "string option \<Rightarrow> 'c CRDTChangeNode \<Rightarrow> string \<Rightarrow> string \<Rightarrow> bool" where
  "parentOf i0 n0 p k \<longleftrightarrow> (\<exists>n cs. occurs i0 n0 (Some p) n \<and> nodeChildren n = Children cs \<and> k \<in> fst ` set cs)"

lemma kidsOf_Children: "nodeChildren n = Children cs \<Longrightarrow> kidsOf n = cs"
  by (simp add: kidsOf_def)

lemma expanded_parents:
  assumes "one_expansion (\<lambda>_. False) i0 n0"
  shows "(\<exists>b n. (((Some p, b), n), True) \<in> set (walkLog (\<lambda>_. False) flag [((i0, b0), n0)] []) \<and> k \<in> fst ` set (kidsOf n)) \<longleftrightarrow>
    parentOf i0 n0 p k"
proof -
  let ?log = "walkLog (\<lambda>_. False) flag [((i0, b0), n0)] []"
  have sound: "occurs i0 n0 j m" if "(((j, b), m), e) \<in> set ?log" for j b m e
    using walkLog_sound [of "[((i0, b0), n0)]" "\<lambda>_. False" i0 n0 "((j, b), m)" flag "[]"] that by (force intro: here simp: reached_all)
  show ?thesis
  proof
    assume "\<exists>b n. (((Some p, b), n), True) \<in> set ?log \<and> k \<in> fst ` set (kidsOf n)"
    then obtain b n where e: "(((Some p, b), n), True) \<in> set ?log" "k \<in> fst ` set (kidsOf n)" by blast
    obtain cs where "nodeChildren n = Children cs" using walkLog_expanded [OF e(1)] by blast
    then show "parentOf i0 n0 p k" using sound [OF e(1)] e(2) kidsOf_Children unfolding parentOf_def by metis
  next
    assume "parentOf i0 n0 p k"
    then obtain n cs where n: "occurs i0 n0 (Some p) n" "nodeChildren n = Children cs" "k \<in> fst ` set cs" by (auto simp: parentOf_def)
    obtain b where "((Some p, b), n) \<in> fst ` set ?log" using walkLog_complete(1) [OF assms] n(1) unfolding reached_all by blast
    then obtain e where e: "(((Some p, b), n), e) \<in> set ?log" by force
    show "\<exists>b n. (((Some p, b), n), True) \<in> set ?log \<and> k \<in> fst ` set (kidsOf n)"
    proof (cases e)
      case True
      then have "(((Some p, b), n), True) \<in> set ?log" using e by simp
      then show ?thesis using n(3) unfolding kidsOf_Children [OF n(2), symmetric] by blast
    next
      case False
      then obtain b' m where m: "(((Some p, b'), m), True) \<in> set ?log"
        using walkLog_stays [of "Some p" b n "\<lambda>_. False" flag "[((i0, b0), n0)]" "[]" cs] e n(2) by auto
      obtain ds where ds: "nodeChildren m = Children ds" using walkLog_expanded [OF m] by blast
      have "ds = cs" using assms sound [OF m] n(1,2) ds unfolding one_expansion_def reached_all by blast
      then have "k \<in> fst ` set (kidsOf m)" using n(3) kidsOf_Children [OF ds] by simp
      then show ?thesis using m by blast
    qed
  qed
qed

definition refsOf :: "closureGraph \<Rightarrow> string \<Rightarrow> string list" where
  "refsOf g k = (case jget (referencing g) k of None \<Rightarrow> [] | Some ns \<Rightarrow> ns)"

lemma noteReferences_sets:
  "set (refsOf (noteReferences cand known p cs g) k) = set (refsOf g k) \<union> {q. q = p \<and> cand k \<and> k \<in> fst ` set cs} \<and>
   set (openNodes (noteReferences cand known p cs g)) =
     set (openNodes g) \<union> {q. q = p \<and> (\<exists>c \<in> fst ` set cs. \<not> cand c \<and> \<not> known c)}"
proof (induction cs arbitrary: g)
  case (Cons x cs)
  obtain c n where x: "x = (c, n)" by (cases x)
  let ?g = "if cand c then g\<lparr>referencing := jset (referencing g) c (refsOf g c @ [p])\<rparr>
        else if \<not> known c then g\<lparr>openNodes := openNodes g @ [p]\<rparr> else g"
  have step: "noteReferences cand known p (x # cs) g = noteReferences cand known p cs ?g" by (simp add: x refsOf_def)
  have refs: "set (refsOf ?g k) = set (refsOf g k) \<union> {q. q = p \<and> cand k \<and> k = c}" by (auto simp: refsOf_def jget_jset)
  have opens: "set (openNodes ?g) = set (openNodes g) \<union> {q. q = p \<and> \<not> cand c \<and> \<not> known c}" by simp
  show ?case unfolding step conjunct1 [OF Cons.IH] conjunct2 [OF Cons.IH] refs opens by (auto simp: x)
qed simp

text \<open>What removing the open nodes and everything that references a removed node leaves.\<close>

declare withdrawLoop.simps [simp del]

definition leaves_closed :: "(string \<Rightarrow> string set) \<Rightarrow> string set \<Rightarrow> string set \<Rightarrow> string set \<Rightarrow> bool" where
  "leaves_closed refs st sel w \<longleftrightarrow> w \<subseteq> sel - st \<and> (\<forall>k \<in> sel - w. refs k \<inter> w = {}) \<and>
     (\<forall>S. S \<subseteq> sel - st \<longrightarrow> (\<forall>k \<in> sel. refs k \<inter> S \<noteq> {} \<longrightarrow> k \<in> S) \<longrightarrow> S \<subseteq> w)"

lemma leaves_closed_Nil: "leaves_closed refs {} sel sel"
  by (simp add: leaves_closed_def)

lemma leaves_closed_other: "n \<notin> sel \<Longrightarrow> leaves_closed refs st sel w \<Longrightarrow> leaves_closed refs (insert n st) sel w"
  by (simp add: leaves_closed_def)

lemma leaves_closed_remove:
  assumes "leaves_closed refs (refs n \<union> st) (sel - {n}) w" "n \<in> sel"
  shows "leaves_closed refs (insert n st) sel w"
  unfolding leaves_closed_def
proof (intro conjI ballI allI impI)
  have w: "w \<subseteq> sel - {n} - (refs n \<union> st)" and k: "\<And>k. k \<in> sel - {n} - w \<Longrightarrow> refs k \<inter> w = {}"
    and S: "\<And>S. S \<subseteq> sel - {n} - (refs n \<union> st) \<Longrightarrow> \<forall>k \<in> sel - {n}. refs k \<inter> S \<noteq> {} \<longrightarrow> k \<in> S \<Longrightarrow> S \<subseteq> w"
    using assms(1) unfolding leaves_closed_def by blast+
  show "w \<subseteq> sel - insert n st" using w by blast
  show "refs k \<inter> w = {}" if "k \<in> sel - w" for k using k [of k] w that by (cases "k = n") auto
  show "S \<subseteq> w" if a: "S \<subseteq> sel - insert n st" "\<forall>k \<in> sel. refs k \<inter> S \<noteq> {} \<longrightarrow> k \<in> S" for S
  proof (rule S)
    have "refs n \<inter> S = {}" using a assms(2) by blast
    then show "S \<subseteq> sel - {n} - (refs n \<union> st)" using a(1) by blast
    show "\<forall>k \<in> sel - {n}. refs k \<inter> S \<noteq> {} \<longrightarrow> k \<in> S" using a(2) by blast
  qed
qed

lemma withdrawLoop_closed:
  "leaves_closed (\<lambda>k. set (case jget refs k of None \<Rightarrow> [] | Some ns \<Rightarrow> ns)) (set stack) (set selected) (set (withdrawLoop refs stack selected))"
proof (induction refs stack selected rule: withdrawLoop.induct)
  case (1 refs stack selected)
  show ?case
  proof (cases stack)
    case Nil
    then show ?thesis by (simp add: withdrawLoop.simps leaves_closed_Nil)
  next
    case (Cons n rest)
    show ?thesis
    proof (cases "n \<in> set selected")
      case False
      then show ?thesis using leaves_closed_other [OF False 1(1) [OF Cons False]] Cons by (simp add: withdrawLoop.simps [of refs "n # rest"])
    next
      case True
      have "set (filter (\<lambda>c. c \<noteq> n) selected) = set selected - {n}" by auto
      then show ?thesis using leaves_closed_remove [OF _ True] 1(2) [OF Cons] True Cons
        by (simp add: withdrawLoop.simps [of refs "n # rest"])
    qed
  qed
qed

definition expandClosure :: "string list \<Rightarrow> (string \<Rightarrow> bool) \<Rightarrow> string option \<Rightarrow> (string \<times> 'n) list \<Rightarrow> closureGraph \<Rightarrow> closureGraph" where
  "expandClosure candidates isKnown nodeId entries g =
     (case nodeId of None \<Rightarrow> g
      | Some i \<Rightarrow> if i \<in> set candidates then noteReferences (\<lambda>c. c \<in> set candidates) isKnown i entries g else g)"

definition expandedIn :: "('c occurrence \<times> bool) list \<Rightarrow> string \<Rightarrow> string \<Rightarrow> bool" where
  "expandedIn l p k \<longleftrightarrow> (\<exists>b n. (((Some p, b), n), True) \<in> set l \<and> k \<in> fst ` set (kidsOf n))"

lemma expandedIn_Cons: "expandedIn ((((i, b), n), e) # l) p k \<longleftrightarrow> (i = Some p \<and> e \<and> k \<in> fst ` set (kidsOf n)) \<or> expandedIn l p k"
  unfolding expandedIn_def by (simp only: list.set insert_iff prod.inject) blast

definition closureStep :: "string list \<Rightarrow> (string \<Rightarrow> bool) \<Rightarrow> ('c occurrence \<times> bool) \<Rightarrow> closureGraph \<Rightarrow> closureGraph" where
  "closureStep cands known = logStep (\<lambda>_ _ g. g) (expandClosure cands known)"

lemma closureStep_sets:
  assumes "x = (((i, b), n), e)"
  shows "set (refsOf (closureStep cands known x g) k) =
      set (refsOf g k) \<union> {p \<in> set cands. k \<in> set cands \<and> i = Some p \<and> e \<and> k \<in> fst ` set (kidsOf n)}"
    "set (openNodes (closureStep cands known x g)) =
      set (openNodes g) \<union> {p \<in> set cands. i = Some p \<and> e \<and> (\<exists>c. c \<notin> set cands \<and> \<not> known c \<and> c \<in> fst ` set (kidsOf n))}"
  using noteReferences_sets [of "\<lambda>c. c \<in> set cands" known _ "kidsOf n" g k]
  by (cases i; auto simp: assms closureStep_def logStep_def expandClosure_def)+

lemma closure_log:
  "set (refsOf (fold (closureStep cands known) l g) k) = set (refsOf g k) \<union> {p \<in> set cands. k \<in> set cands \<and> expandedIn l p k} \<and>
   set (openNodes (fold (closureStep cands known) l g)) =
     set (openNodes g) \<union> {p \<in> set cands. \<exists>c. c \<notin> set cands \<and> \<not> known c \<and> expandedIn l p c}"
proof (induction l arbitrary: g)
  case Nil
  then show ?case by (simp add: expandedIn_def)
next
  case (Cons x l)
  obtain i b n e where x: "x = (((i, b), n), e)" by (metis surj_pair)
  show ?case
    unfolding fold.simps o_apply conjunct1 [OF Cons.IH] conjunct2 [OF Cons.IH] closureStep_sets [OF x]
    unfolding x expandedIn_Cons by blast
qed

definition ancestry_closed :: "string option \<Rightarrow> 'c CRDTChangeNode \<Rightarrow> string set \<Rightarrow> (string \<Rightarrow> bool) \<Rightarrow> string set \<Rightarrow> bool" where
  "ancestry_closed i t cands known S \<longleftrightarrow> (\<forall>p \<in> S. \<forall>k. parentOf i t p k \<longrightarrow> k \<in> S \<or> (k \<notin> cands \<and> known k))"

text \<open>
  C20: if the occurrences of a CID that carry children carry the same children
  (\<open>one_expansion\<close>), the nodes selected for application are the greatest set of
  candidates in which every child of a member is a member too or is already known and not
  itself a candidate. Without that condition the selection may keep a node with an unknown
  child, since the walk expands one occurrence of a CID only.
\<close>

theorem selectAncestryClosedNodes_greatest:
  assumes agree: "one_expansion (\<lambda>_. False) i t"
  shows "let R = set (selectAncestryClosedNodes i t cands known) in R \<subseteq> set cands \<and> ancestry_closed i t (set cands) known R \<and>
    (\<forall>S. S \<subseteq> set cands \<and> ancestry_closed i t (set cands) known S \<longrightarrow> S \<subseteq> R)"
proof -
  define R where "R = set (selectAncestryClosedNodes i t cands known)"
  let ?log = "walkLog (\<lambda>_. False) (\<lambda>_. False) [((i, False), t)] []"
  define g where "g = fold (closureStep cands known) ?log \<lparr>referencing = [], openNodes = []\<rparr>"
  have R: "R = set (withdrawLoop (referencing g) (rev (openNodes g)) cands)"
    unfolding R_def g_def selectAncestryClosedNodes_def Let_def occurrenceWalk_log closureStep_def by (simp add: expandClosure_def [abs_def])
  have refs: "set (refsOf g k) = {p \<in> set cands. k \<in> set cands \<and> parentOf i t p k}" for k
    unfolding g_def conjunct1 [OF closure_log] expandedIn_def expanded_parents [OF agree] by (simp add: refsOf_def jget_def)
  have opens: "set (openNodes g) = {p \<in> set cands. \<exists>c. c \<notin> set cands \<and> \<not> known c \<and> parentOf i t p c}"
    unfolding g_def conjunct2 [OF closure_log] expandedIn_def expanded_parents [OF agree] by simp
  have closed: "leaves_closed (\<lambda>k. set (refsOf g k)) (set (openNodes g)) (set cands) R"
    using withdrawLoop_closed [of "referencing g" "rev (openNodes g)" cands] by (simp add: R refsOf_def)
  then have sub: "R \<subseteq> set cands - set (openNodes g)" and out: "\<And>k. k \<in> set cands - R \<Longrightarrow> set (refsOf g k) \<inter> R = {}"
    and max: "\<And>S. S \<subseteq> set cands - set (openNodes g) \<Longrightarrow> \<forall>k \<in> set cands. set (refsOf g k) \<inter> S \<noteq> {} \<longrightarrow> k \<in> S \<Longrightarrow> S \<subseteq> R"
    unfolding leaves_closed_def by blast+
  have "ancestry_closed i t (set cands) known R"
    unfolding ancestry_closed_def using sub out unfolding opens refs by blast
  moreover have "S \<subseteq> R" if "S \<subseteq> set cands" "ancestry_closed i t (set cands) known S" for S
    using that unfolding ancestry_closed_def by (intro max) (unfold opens refs, blast+)
  ultimately show ?thesis using sub unfolding Let_def R_def [symmetric] by blast
qed

section \<open>Concrete trees\<close>

text \<open>All occurrences in a tree, to check a hypothesis about them by evaluation.\<close>

fun occurrences :: "string option \<Rightarrow> 'c CRDTChangeNode \<Rightarrow> (string option \<times> 'c CRDTChangeNode) list" where
  "occurrences i (ChangeNode kind change children) =
     (i, ChangeNode kind change children) #
     (case children of Children cs \<Rightarrow> concat (map (\<lambda>(k, c). occurrences (Some k) c) cs) | _ \<Rightarrow> [])"

lemma occurrences_self: "(i, n) \<in> set (occurrences i n)"
  by (cases n) simp

lemma occurrences_children:
  "(j, m) \<in> set (occurrences i n) \<Longrightarrow> nodeChildren m = Children ds \<Longrightarrow> (k, c) \<in> set ds \<Longrightarrow> (Some k, c) \<in> set (occurrences i n)"
proof (induction i n rule: occurrences.induct)
  case (1 i kind change children)
  show ?case
  proof (cases "(j, m) = (i, ChangeNode kind change children)")
    case True
    then show ?thesis using "1.prems" occurrences_self by fastforce
  next
    case False
    then obtain cs k' c' where cs: "children = Children cs" "(k', c') \<in> set cs" "(j, m) \<in> set (occurrences (Some k') c')"
      using "1.prems"(1) by (auto split: changeChildren.splits)
    have "(Some k, c) \<in> set (occurrences (Some k') c')" using "1.IH" [OF cs(1) cs(2) refl cs(3) "1.prems"(2,3)] .
    then show ?thesis using cs(1,2) by (auto intro!: bexI [of _ "(k', c')"])
  qed
qed

lemma reached_occurrences: "reached skip i0 n0 i n \<Longrightarrow> (i, n) \<in> set (occurrences i0 n0)"
  by (induction rule: reached.induct) (auto intro: occurrences_self occurrences_children)

definition expansions :: "string option \<Rightarrow> 'c CRDTChangeNode \<Rightarrow> (string option \<times> (string \<times> 'c CRDTChangeNode) list) list" where
  "expansions i t = concat (map (\<lambda>(j, n). case nodeChildren n of Children cs \<Rightarrow> [(j, cs)] | _ \<Rightarrow> []) (occurrences i t))"

lemma one_expansion_distinct:
  assumes "distinct (map fst (expansions i t))"
  shows "one_expansion skip i t"
proof -
  have "(Some k, cs) \<in> set (expansions i t)" if "reached skip i t (Some k) n" "nodeChildren n = Children cs" for k n cs
    using reached_occurrences [OF that(1)] that(2) by (force simp: expansions_def)
  then show ?thesis unfolding one_expansion_def using eq_key_imp_eq_value [OF assms] by blast
qed

definition sampleTree :: "int payload CRDTChangeNode" where
  "sampleTree = ChangeNode DocumentChange (Some (Primitive 1)) (Children
     [(''a'', ChangeNode DocumentChange (Some (Primitive 2)) (Children [(''b'', ChangeNode WriterChange None NoChildren)])),
      (''b'', ChangeNode WriterChange (Some (Primitive 3)) (Children []))])"

lemma sampleTree_expansions: "map fst (expansions (Some ''r'') sampleTree) = [Some ''r'', Some ''a'', Some ''b'']"
  by (simp add: expansions_def sampleTree_def)

lemma sampleTree_one_expansion: "one_expansion skip (Some ''r'') sampleTree"
  by (rule one_expansion_distinct) (simp add: sampleTree_expansions)

lemma computeServedFrontier_exact_witness:
  "set (computeServedFrontier (Some ''r'') (Some sampleTree) (Some ''s'')) =
    (set_option (Some ''r'') \<union> {b. Some ''s'' = Some b \<and> b \<noteq> []}) - childCids (Some ''r'') sampleTree"
  by (rule computeServedFrontier_exact [OF sampleTree_one_expansion])

lemma selectAncestryClosedNodes_greatest_witness:
  "set (selectAncestryClosedNodes (Some ''r'') sampleTree [''a'', ''r''] (\<lambda>c. c = ''b'')) \<subseteq> set [''a'', ''r'']"
  using selectAncestryClosedNodes_greatest [OF sampleTree_one_expansion, of "[''a'', ''r'']" "\<lambda>c. c = ''b''"]
  by (simp only: Let_def)

lemma sampleTree_valid: "validateRemoteSyncTreeAliases (Some ''r'') sampleTree = Inr ()"
  by code_simp

lemma sampleTree_payloads: "(i, n) \<in> set (occurrences (Some ''r'') sampleTree) \<Longrightarrow> nodeChildren n \<noteq> DeferredChildren"
  by (auto simp: sampleTree_def)

lemma mergeRemoteSyncTree_exact_witness:
  "\<exists>es. mergeRemoteSyncTree (Some ''r'') sampleTree None (\<lambda>_. False) = Inr es \<and> distinct (map fst es)"
  using mergeRemoteSyncTree_exact [OF sampleTree_one_expansion sampleTree_valid, of None "\<lambda>_. False"] sampleTree_payloads reached_occurrences by blast

text \<open>
  A tree in which \<open>A\<close> occurs twice in full, first with a reference to \<open>X\<close> and then with \<open>X\<close>
  itself.
\<close>

definition fullX :: "int payload CRDTChangeNode" where
  "fullX = ChangeNode DocumentChange (Some (Primitive 3)) (Children [(''Y'', ChangeNode DocumentChange (Some (Primitive 4)) (Children []))])"

definition nodeA :: "int payload CRDTChangeNode \<Rightarrow> int payload CRDTChangeNode" where
  "nodeA x = ChangeNode DocumentChange (Some (Primitive 2)) (Children [(''X'', x)])"

definition lossyTree :: "int payload CRDTChangeNode" where
  "lossyTree = ChangeNode DocumentChange (Some (Primitive 1)) (Children
     [(''A'', nodeA (ChangeNode DocumentChange None NoChildren)),
      (''B'', ChangeNode DocumentChange (Some (Primitive 5)) (Children [(''A'', nodeA fullX)]))])"

definition swappedTree :: "int payload CRDTChangeNode" where
  "swappedTree = ChangeNode DocumentChange (Some (Primitive 1)) (Children
     [(''B'', ChangeNode DocumentChange (Some (Primitive 5)) (Children [(''A'', nodeA fullX)])),
      (''A'', nodeA (ChangeNode DocumentChange None NoChildren))])"

text \<open>
  The merge depends on the order of traversal. Of two trees that differ only in the
  order of the root's children, both accepted by the validation, the merge of one returns
  every payload and that of the other neither the payload of \<open>X\<close> nor an entry for its
  child \<open>Y\<close>.
\<close>

theorem mergeRemoteSyncTree_order_dependent:
  "mergeRemoteSyncTree (Some ''r'') lossyTree None (\<lambda>_. False) = Inr
     [(''r'', DocumentChange, Some (Primitive 1)), (''A'', DocumentChange, Some (Primitive 2)), (''X'', DocumentChange, None),
      (''B'', DocumentChange, Some (Primitive 5))] \<and>
   mergeRemoteSyncTree (Some ''r'') swappedTree None (\<lambda>_. False) = Inr
     [(''r'', DocumentChange, Some (Primitive 1)), (''B'', DocumentChange, Some (Primitive 5)), (''A'', DocumentChange, Some (Primitive 2)),
      (''X'', DocumentChange, Some (Primitive 3)), (''Y'', DocumentChange, Some (Primitive 4))]"
  by code_simp

text \<open>
  The validation accepts \<open>lossyTree\<close>, although two occurrences of \<open>A\<close> disagree below
  their children. On it the selection keeps \<open>X\<close>, whose child \<open>Y\<close> is neither a candidate
  nor known, and \<open>Y\<close> stays on the frontier although the tree references it: the
  hypothesis \<open>one_expansion\<close> of the two properties cannot be dropped.
\<close>

theorem lossyTree_reads:
  "validateRemoteSyncTreeAliases (Some ''r'') lossyTree = Inr () \<and>
   selectAncestryClosedNodes (Some ''r'') lossyTree [''A'', ''X''] (\<lambda>_. False) = [''A'', ''X''] \<and>
   ''Y'' \<in> set (computeServedFrontier (Some ''r'') (Some lossyTree) (Some ''Y''))"
  by code_simp

end
