(* ===== verification/Sync_Alias.thy ===== *)
theory Sync_Alias
  imports Sync_Tree_Theorems
begin

text \<open>
  What the validation of a remote tree establishes: the occurrences of each CID have one
  kind, and those that carry content have the same children, payloads that are equal up to
  the order of object fields, and the same presence of both.
\<close>


section \<open>Payloads up to field order\<close>

fun canonicalPayload :: "'p payload \<Rightarrow> 'p payload" where
  "canonicalPayload (ArrayValue xs) = ArrayValue (map canonicalPayload xs)"
| "canonicalPayload (PlainObject fs) = PlainObject (sort_key fst (map (\<lambda>f. (fst f, canonicalPayload (snd f))) fs))"
| "canonicalPayload p = p"

lemma insort_key_map: "insort_key fst (fst x, g (snd x)) (map (\<lambda>f. (fst f, g (snd f))) xs) = map (\<lambda>f. (fst f, g (snd f))) (insort_key fst x xs)"
  by (induction xs) auto

lemma sort_key_map_snd: "sort_key fst (map (\<lambda>f. (fst f, g (snd f))) fs) = map (\<lambda>f. (fst f, g (snd f))) (sort_key fst fs)"
  by (induction fs) (simp_all add: insort_key_map)

lemma zip_map_eq: "length xs = length ys \<Longrightarrow> \<forall>p \<in> set (zip xs ys). f (fst p) = f (snd p) \<Longrightarrow> map f xs = map f ys"
  by (induction xs ys rule: list_induct2) auto

lemma objectPairs_canonical:
  assumes "objectPairs fs gs = Some ps" "\<forall>p \<in> set ps. canonicalPayload (fst p) = canonicalPayload (snd p)"
  shows "canonicalPayload (PlainObject fs) = canonicalPayload (PlainObject gs)"
proof -
  let ?f = "sort_key fst fs" and ?g = "sort_key fst gs" and ?c = "\<lambda>f. (fst f, canonicalPayload (snd f))"
  have keys: "map fst ?f = map fst ?g" and ps: "ps = zip (map snd ?f) (map snd ?g)"
    using assms(1) by (auto simp: objectPairs_def Let_def split: if_splits)
  have len: "length ?f = length ?g" using arg_cong [OF keys, of length] by simp
  have "map canonicalPayload (map snd ?f) = map canonicalPayload (map snd ?g)"
    using assms(2) len unfolding ps by (intro zip_map_eq) simp_all
  then have "zip (map fst ?f) (map canonicalPayload (map snd ?f)) = zip (map fst ?g) (map canonicalPayload (map snd ?g))"
    using keys by simp
  moreover have "zip (map fst xs) (map canonicalPayload (map snd xs)) = map ?c xs" for xs :: "(string \<times> 'a payload) list"
    by (induction xs) simp_all
  ultimately have "map ?c ?f = map ?c ?g" by simp
  then show ?thesis by (simp only: canonicalPayload.simps sort_key_map_snd)
qed

lemma compareOne_agrees: "compareOne l r b = Inr (Agrees b') \<Longrightarrow> l = r"
  by (cases l; cases r) (auto simp: compareOne_def sbind_Inr_iff split: if_splits option.splits)

lemma compareOne_descend:
  assumes "compareOne l r b = Inr (Descend b' ps)" "\<forall>p \<in> set ps. canonicalPayload (fst p) = canonicalPayload (snd p)"
  shows "canonicalPayload l = canonicalPayload r"
proof -
  consider xs ys where "l = ArrayValue xs" "r = ArrayValue ys" "length xs = length ys" "ps = zip xs ys"
    | fs gs where "l = PlainObject fs" "r = PlainObject gs" "objectPairs fs gs = Some ps"
    using assms(1) by (cases l; cases r) (auto simp: compareOne_def sbind_Inr_iff split: if_splits option.splits)
  then show ?thesis
  proof cases
    case 1
    then show ?thesis using zip_map_eq [of xs ys canonicalPayload] assms(2) by simp
  next
    case 2
    then show ?thesis using objectPairs_canonical [OF 2(3) assms(2)] by simp
  qed
qed

lemma samePayloadLoop_sound:
  "samePayloadLoop ps b = Inr (True, b') \<Longrightarrow> p \<in> set ps \<Longrightarrow> canonicalPayload (fst p) = canonicalPayload (snd p)"
proof (induction ps b arbitrary: p rule: samePayloadLoop.induct)
  case (2 left right pending remaining)
  show ?case
  proof (cases "compareOne left right remaining")
    case (Inl e)
    then show ?thesis using 2 by simp
  next
    case (Inr c)
    show ?thesis
    proof (cases c)
      case Differs
      then show ?thesis using 2 Inr by simp
    next
      case (Agrees r)
      have "left = right" using compareOne_agrees Inr Agrees by blast
      then show ?thesis using 2(1) [OF Inr Agrees, of p] 2(3,4) Inr Agrees by auto
    next
      case (Descend r pairs)
      have loop: "samePayloadLoop (rev pairs @ pending) r = Inr (True, b')" using 2(3) Inr Descend by simp
      have all: "\<forall>q \<in> set (rev pairs @ pending). canonicalPayload (fst q) = canonicalPayload (snd q)" using 2(2) [OF Inr Descend loop] by blast
      then have "canonicalPayload left = canonicalPayload right" using compareOne_descend [of left right remaining r pairs] Inr Descend by simp
      then show ?thesis using all 2(4) by auto
    qed
  qed
qed simp

lemma sameChangePayload_sound: "sameChangePayload a b r = Inr (True, r') \<Longrightarrow> canonicalPayload a = canonicalPayload b"
  unfolding sameChangePayload_def using samePayloadLoop_sound [of "[(a, b)]" r r' "(a, b)"] by simp

section \<open>Aliases\<close>

text \<open>Two descriptions of the same full node, and an occurrence covered by a recorded description.\<close>

definition sameContent :: "'p RemoteNodeDescription \<Rightarrow> 'p RemoteNodeDescription \<Rightarrow> bool" where
  "sameContent d e \<longleftrightarrow> descChildrenMode d = descChildrenMode e \<and> descChildIds d = descChildIds e \<and>
     map_option canonicalPayload (nodeChange (descNode d)) = map_option canonicalPayload (nodeChange (descNode e))"

definition covers :: "'p canonicalNodes \<Rightarrow> string \<Rightarrow> 'p payload CRDTChangeNode \<Rightarrow> bool" where
  "covers m cid node \<longleftrightarrow> (\<exists>d. jget m cid = Some d \<and> descKind d = nodeKind node \<and>
     (\<not> descSparse (describeRemoteNode node) \<longrightarrow> \<not> descSparse d \<and> sameContent d (describeRemoteNode node)))"

definition extends :: "'p canonicalNodes \<Rightarrow> 'p canonicalNodes \<Rightarrow> bool" where
  "extends m m' \<longleftrightarrow> (\<forall>k d. jget m k = Some d \<longrightarrow> (\<exists>d'. jget m' k = Some d' \<and> descKind d' = descKind d \<and> (\<not> descSparse d \<longrightarrow> d' = d)))"

lemma extends_refl: "extends m m"
  by (simp add: extends_def)

lemma extends_trans: "extends a b \<Longrightarrow> extends b c \<Longrightarrow> extends a c"
  unfolding extends_def by metis

lemma covers_extends: "covers m k n \<Longrightarrow> extends m m' \<Longrightarrow> covers m' k n"
  unfolding covers_def extends_def by metis

definition honest :: "'p canonicalNodes \<Rightarrow> bool" where
  "honest m \<longleftrightarrow> (\<forall>k d. jget m k = Some d \<longrightarrow> d = describeRemoteNode (descNode d))"

lemma describe_self: "descNode (describeRemoteNode n) = n" "descKind (describeRemoteNode n) = nodeKind n"
    "descHasChange (describeRemoteNode n) = (nodeChange n \<noteq> None)"
  by (simp_all add: describeRemoteNode_def)

lemma checkDescription_sound:
  assumes "checkDescription m k (describeRemoteNode n) r = Inr (m', r')" "honest m"
  shows "extends m m'" "covers m' k n" "honest m'"
proof -
  let ?d = "describeRemoteNode n"
  have "extends m m' \<and> covers m' k n \<and> honest m'"
  proof (cases "jget m k")
    case None
    then have "m' = jset m k ?d" using assms(1) by (simp add: checkDescription_def)
    then show ?thesis using None assms(2) by (auto simp: extends_def covers_def honest_def jget_jset describe_self sameContent_def)
  next
    case (Some e)
    have e: "e = describeRemoteNode (descNode e)" using assms(2) Some by (simp add: honest_def)
    then have change: "descHasChange e = (nodeChange (descNode e) \<noteq> None)" by (metis describe_self(3))
    have kind: "descKind e = nodeKind n" using assms(1) Some by (auto simp: checkDescription_def describe_self split: if_splits)
    consider "m' = m" "descSparse ?d" | "m' = jset m k ?d" "descSparse e" "\<not> descSparse ?d" | "m' = m" "\<not> descSparse e" "\<not> descSparse ?d"
      using assms(1) Some by (auto simp: checkDescription_def sbind_Inr_iff split: if_splits)
    then show ?thesis
    proof cases
      case 1
      then show ?thesis using Some kind assms(2) by (auto simp: extends_refl covers_def)
    next
      case 2
      then show ?thesis using Some kind assms(2) by (auto simp: extends_def covers_def honest_def jget_jset describe_self sameContent_def)
    next
      case 3
      have same: "descChildrenMode e = descChildrenMode ?d" "descChildIds e = descChildIds ?d" "descHasChange e = descHasChange ?d"
        using assms(1) Some 3 kind by (auto simp: checkDescription_def describe_self split: if_splits)
      have "map_option canonicalPayload (nodeChange (descNode e)) = map_option canonicalPayload (nodeChange n)"
      proof (cases "descHasChange e")
        case True
        then obtain x y where xy: "nodeChange (descNode e) = Some x" "nodeChange n = Some y"
          using change same(3) describe_self(3) [of n] by auto
        have "\<exists>q. sameChangePayload x y r = Inr (True, q)"
          using assms(1) Some 3 kind same True xy by (auto simp: checkDescription_def sbind_Inr_iff describe_self split: if_splits)
        then show ?thesis using xy sameChangePayload_sound by auto
      next
        case False
        then show ?thesis using change same(3) describe_self(3) [of n] by auto
      qed
      then show ?thesis using Some 3 kind same assms(2) by (auto simp: extends_refl covers_def sameContent_def describe_self)
    qed
  qed
  then show "extends m m'" "covers m' k n" "honest m'" by blast+
qed

fun frameOccurrences :: "'p aliasFrame \<Rightarrow> (string option \<times> 'p payload CRDTChangeNode) set" where
  "frameOccurrences (EnterRemote i n) = set (occurrences i n)"
| "frameOccurrences (LeaveRemote k) = {}"

lemma childFrames_occurrences: "set (occurrences i n) = insert (i, n) (\<Union> (frameOccurrences ` set (childFrames n)))"
proof (cases n)
  case (ChangeNode kind change children)
  then show ?thesis by (cases children) (auto simp: childFrames_def childEntries_def)
qed

lemma enterRemote_sound:
  assumes "enterRemote i n m v r = Inr (fs, m', v', r')" "honest m"
  shows "extends m m'" "honest m'" "i = Some k \<Longrightarrow> covers m' k n" "set (occurrences i n) \<subseteq> insert (i, n) (\<Union> (frameOccurrences ` set fs))"
proof -
  have "extends m m' \<and> honest m' \<and> (\<forall>k. i = Some k \<longrightarrow> covers m' k n) \<and> (fs = childFrames n \<or> fs = childFrames n @ [LeaveRemote (the i)] \<or> (fs = [] \<and> childFrames n = []))"
  proof (cases i)
    case None
    then show ?thesis using assms by (simp add: enterRemote_def extends_refl)
  next
    case (Some k)
    then obtain r'' where c: "checkDescription m k (describeRemoteNode n) r = Inr (m', r'')"
      and fs: "fs = childFrames n @ [LeaveRemote k] \<or> (fs = [] \<and> childFrames n = [])"
      using assms(1) by (auto simp: enterRemote_def sbind_Inr_iff childFrames_def split: if_splits)
    show ?thesis using checkDescription_sound [OF c assms(2)] fs Some by simp
  qed
  then show "extends m m'" "honest m'" "i = Some k \<Longrightarrow> covers m' k n" "set (occurrences i n) \<subseteq> insert (i, n) (\<Union> (frameOccurrences ` set fs))"
    unfolding childFrames_occurrences by auto
qed

definition coversAll :: "'p canonicalNodes \<Rightarrow> (string option \<times> 'p payload CRDTChangeNode) set \<Rightarrow> bool" where
  "coversAll m os \<longleftrightarrow> (\<forall>k n. (Some k, n) \<in> os \<longrightarrow> covers m k n)"

lemma aliasLoop_sound:
  "aliasLoop fs m v r = Inr () \<Longrightarrow> honest m \<Longrightarrow> \<exists>M. extends m M \<and> coversAll M (\<Union> (frameOccurrences ` set fs))"
proof (induction fs m v r rule: aliasLoop.induct)
  case (1 m v r)
  show ?case by (intro exI [of _ m]) (simp add: extends_refl coversAll_def)
next
  case (2 k pending m v r)
  then show ?case by simp
next
  case (3 i n pending m v r)
  obtain fs m' v' r' where e: "enterRemote i n m v r = Inr (fs, m', v', r')"
    using "3.prems"(1) by (cases "enterRemote i n m v r") auto
  note sound = enterRemote_sound [OF e "3.prems"(2)]
  have "aliasLoop (fs @ pending) m' v' r' = Inr ()" using "3.prems"(1) e by simp
  then obtain M where M: "extends m' M" "coversAll M (\<Union> (frameOccurrences ` set (fs @ pending)))"
    using "3.IH" [OF e refl refl refl] sound(2) by blast
  have "coversAll M (\<Union> (frameOccurrences ` set (EnterRemote i n # pending)))"
    unfolding coversAll_def
  proof (intro allI impI)
    fix k c assume "(Some k, c) \<in> \<Union> (frameOccurrences ` set (EnterRemote i n # pending))"
    then consider "i = Some k" "c = n" | "(Some k, c) \<in> \<Union> (frameOccurrences ` set (fs @ pending))" using sound(4) by auto
    then show "covers M k c"
    proof cases
      case 1
      then show ?thesis using covers_extends [OF sound(3) M(1)] by simp
    next
      case 2
      then show ?thesis using M(2) unfolding coversAll_def by blast
    qed
  qed
  then show ?case using extends_trans [OF sound(1) M(1)] by blast
qed

text \<open>
  C19: in a remote tree that passes the validation all occurrences of a CID have the same
  kind, and any two that carry content have the same children mode and the same child
  CIDs, and both no payload or payloads that are equal up to the order of object fields.
\<close>

theorem validateRemoteSyncTreeAliases_sound:
  assumes valid: "validateRemoteSyncTreeAliases i t = Inr ()" and "occurs i t (Some k) n" "occurs i t (Some k) m"
  shows "nodeKind n = nodeKind m \<and>
    (\<not> descSparse (describeRemoteNode n) \<longrightarrow> \<not> descSparse (describeRemoteNode m) \<longrightarrow>
      descChildrenMode (describeRemoteNode n) = descChildrenMode (describeRemoteNode m) \<and>
      descChildIds (describeRemoteNode n) = descChildIds (describeRemoteNode m) \<and>
      map_option canonicalPayload (nodeChange n) = map_option canonicalPayload (nodeChange m))"
proof -
  obtain M where M: "coversAll M (\<Union> (frameOccurrences ` set [EnterRemote i t]))"
    using aliasLoop_sound [OF valid [unfolded validateRemoteSyncTreeAliases_def]] by (auto simp: honest_def jget_def)
  have "(Some k, n) \<in> set (occurrences i t)" "(Some k, m) \<in> set (occurrences i t)"
    using assms(2,3) reached_occurrences unfolding reached_all [symmetric] by blast+
  then have "covers M k n" "covers M k m" using M unfolding coversAll_def by simp_all
  then show ?thesis by (auto simp: covers_def sameContent_def describe_self)
qed

lemma sampleTree_occurrences:
  "occurs (Some ''r'') sampleTree (Some ''b'') (ChangeNode WriterChange None NoChildren)"
  "occurs (Some ''r'') sampleTree (Some ''b'') (ChangeNode WriterChange (Some (Primitive 3)) (Children []))"
proof -
  have a: "occurs (Some ''r'') sampleTree (Some ''a'')
      (ChangeNode DocumentChange (Some (Primitive 2)) (Children [(''b'', ChangeNode WriterChange None NoChildren)]))"
    by (rule occurs.child [OF occurs.here], simp add: sampleTree_def) simp
  show "occurs (Some ''r'') sampleTree (Some ''b'') (ChangeNode WriterChange None NoChildren)"
    by (rule occurs.child [OF a], simp) simp
  show "occurs (Some ''r'') sampleTree (Some ''b'') (ChangeNode WriterChange (Some (Primitive 3)) (Children []))"
    by (rule occurs.child [OF occurs.here], simp add: sampleTree_def) simp
qed

lemma validateRemoteSyncTreeAliases_sound_witness:
  "nodeKind (ChangeNode WriterChange None NoChildren :: int payload CRDTChangeNode) =
   nodeKind (ChangeNode WriterChange (Some (Primitive (3 :: int))) (Children []))"
  using validateRemoteSyncTreeAliases_sound [OF sampleTree_valid sampleTree_occurrences] by (rule conjunct1)

end
