(* ===== verification/Block_Gc.thy ===== *)
theory Block_Gc
  imports Sync_Tree
begin

text \<open>
  Garbage collection of change blocks: \<open>packages/core/src/policy/graph-reachability.ts\<close>,
  \<open>policy/retention.ts\<close>, \<open>blockstore-gc.ts\<close> and the collector of
  \<open>peerborne-document.ts\<close> (\<open>_gcPrunedBlocks\<close>). The collector runs beside the document:
  it captures a lease, then deletes one block in each slot of the mutation queue and
  checks the lease before and after every wait. Shown: the collected CIDs of a tree are
  exactly those that occur in it, and no block is deleted that the current tree, the
  snapshot boundary or a recent tip needs, whatever happens between the slots.
\<close>


section \<open>Reachability\<close>

record CidEdge =
  edgeFrom :: string
  edgeTo :: string

fun adjacencyLoop :: "CidEdge list \<Rightarrow> (string, string list) jsmap \<Rightarrow> (string, string list) jsmap" where
  "adjacencyLoop [] adjacency = adjacency"
| "adjacencyLoop (edge # edges) adjacency =
     adjacencyLoop edges (jset adjacency (edgeFrom edge)
       ((case jget adjacency (edgeFrom edge) of None \<Rightarrow> [] | Some children \<Rightarrow> children) @ [edgeTo edge]))"

definition adjacent :: "(string, string list) jsmap \<Rightarrow> string \<Rightarrow> string list" where
  "adjacent adjacency node = (case jget adjacency node of None \<Rightarrow> [] | Some children \<Rightarrow> children)"

definition openWork :: "(string, string list) jsmap \<Rightarrow> string list \<Rightarrow> nat" where
  "openWork adjacency seen = sum_list (map (\<lambda>(k, cs). if k \<in> set seen then 0 else length cs) adjacency)"

lemma openWork_seen: "node \<notin> set seen \<Longrightarrow> openWork adjacency (seen @ [node]) + length (adjacent adjacency node) \<le> openWork adjacency seen"
proof (induction adjacency)
  case (Cons kc adjacency)
  obtain k cs where kc: "kc = (k, cs)" by force
  have mono: "openWork adjacency (seen @ [node]) \<le> openWork adjacency seen" for adjacency
    by (induction adjacency) (auto simp: openWork_def)
  show ?case
  proof (cases "k = node")
    case True
    then show ?thesis using Cons.prems mono [of adjacency] kc by (simp add: openWork_def adjacent_def jget_def)
  next
    case False
    then show ?thesis using Cons kc by (simp add: openWork_def adjacent_def jget_def)
  qed
qed (simp add: openWork_def adjacent_def jget_def)

function reachLoop :: "(string, string list) jsmap \<Rightarrow> string list \<Rightarrow> string list \<Rightarrow> string list" where
  "reachLoop adjacency [] seen = seen"
| "reachLoop adjacency (node # queue) seen =
     (if node \<in> set seen then reachLoop adjacency queue seen
      else reachLoop adjacency (queue @ adjacent adjacency node) (seen @ [node]))"
  by pat_completeness auto

termination
proof (relation "measure (\<lambda>(adjacency, queue, seen). length queue + openWork adjacency seen)")
  show "((adjacency, queue @ adjacent adjacency node, seen @ [node]), adjacency, node # queue, seen)
      \<in> measure (\<lambda>(adjacency, queue, seen). length queue + openWork adjacency seen)" if "node \<notin> set seen" for adjacency queue node seen
    using openWork_seen [OF that, of adjacency] by simp
qed simp_all

definition reachableCids :: "CidEdge list \<Rightarrow> string \<Rightarrow> string list" where
  "reachableCids edges rootCid = reachLoop (adjacencyLoop edges []) [rootCid] []"

fun selectDeletable_loop :: "string list \<Rightarrow> string list \<Rightarrow> string list \<Rightarrow> string list \<Rightarrow> string list" where
  "selectDeletable_loop [] retained protectedCids result = result"
| "selectDeletable_loop (cid # candidates) retained protectedCids result =
     selectDeletable_loop candidates retained protectedCids
       (if cid \<notin> set retained \<and> cid \<notin> set protectedCids then setAdd cid result else result)"

definition selectDeletableCids :: "string list \<Rightarrow> string list \<Rightarrow> string list \<Rightarrow> string list" where
  "selectDeletableCids candidates retained protectedCids = selectDeletable_loop candidates retained protectedCids []"

definition canRetainGcCandidate :: "bool \<Rightarrow> int \<Rightarrow> int \<Rightarrow> bool" where
  "canRetainGcCandidate known size_before len \<longleftrightarrow> len \<ge> 1 \<and> len \<le> 512 \<and> (known \<or> size_before < 32768)"

definition gcLeaseIsCurrent :: "bool \<Rightarrow> bool \<Rightarrow> bool \<Rightarrow> bool \<Rightarrow> bool" where
  "gcLeaseIsCurrent sameTree sameSnapshot sameTips active \<longleftrightarrow> sameTree \<and> sameSnapshot \<and> sameTips \<and> active"

datatype BlockGcPhase = GcReady | GcChecking | GcDeleting | GcSettled | GcAborted

datatype BlockGcAction = GcCheck | GcDelete | GcSettle | GcAbort

definition advanceBlockGc :: "BlockGcPhase \<Rightarrow> BlockGcAction \<Rightarrow> bool \<Rightarrow> bool \<Rightarrow> BlockGcPhase" where
  "advanceBlockGc phase action leaseCurrent unpinned =
     (if phase = GcReady \<and> action = GcCheck \<and> leaseCurrent then GcChecking
      else if phase = GcChecking \<and> action = GcDelete \<and> leaseCurrent \<and> unpinned then GcDeleting
      else if phase = GcDeleting \<and> action = GcSettle then GcSettled
      else GcAborted)"

section \<open>The CIDs of a tree\<close>

function treeEdgesLoop :: "(string \<times> 'c CRDTChangeNode) list \<Rightarrow> string list \<Rightarrow> CidEdge list \<Rightarrow> string list \<times> CidEdge list" where
  "treeEdgesLoop [] nodes edges = (nodes, edges)"
| "treeEdgesLoop ((from, node) # pending) nodes edges =
     (case nodeChildren node of
        Children cs \<Rightarrow>
          treeEdgesLoop (cs @ pending) (nodes @ [from])
            (edges @ rev (map (\<lambda>c. \<lparr>edgeFrom = from, edgeTo = fst c\<rparr>) cs))
      | _ \<Rightarrow> treeEdgesLoop pending (nodes @ [from]) edges)"
  by pat_completeness auto

termination
  by (relation "measure (\<lambda>(ps, ns, es). pendingWeight ps)") (auto dest: children_pending)

definition collectTreeCIDs :: "(nat \<Rightarrow> 'c NodeObject) \<Rightarrow> string \<Rightarrow> objectRef \<Rightarrow> change_tree_error + string list" where
  "collectTreeCIDs heap rootCID rootRef =
     sbind (snapshotBoundedChangeTree defaultOptions heap (Some rootCID) rootRef) (\<lambda>(entries, stable).
       Inr (reachableCids (snd (treeEdgesLoop [(rootCID, stable)] [] [])) rootCID))"

definition filterDeletableCIDs ::
    "(nat \<Rightarrow> 'c NodeObject) \<Rightarrow> string list \<Rightarrow> string option \<Rightarrow> objectRef option \<Rightarrow> string list \<Rightarrow> change_tree_error + string list" where
  "filterDeletableCIDs heap candidates retainedRootCID retainedRoot protectedCIDs =
     sbind (case (retainedRootCID, retainedRoot) of
              (Some cid, Some ref) \<Rightarrow> if cid = [] then Inr [] else collectTreeCIDs heap cid ref
            | _ \<Rightarrow> Inr []) (\<lambda>reachable.
       Inr (selectDeletableCids candidates reachable protectedCIDs))"

text \<open>Loading a block: what the fetch does is given, an absent block is told apart from other errors.\<close>

datatype ('c, 'e) fetch_result = Fetched 'c | NotFound 'e | FetchFailed 'e

datatype 'e load_block_error = InvalidCid | FetchError 'e

definition loadChangeBlock ::
    "string \<Rightarrow> string list \<Rightarrow> (string \<Rightarrow> 'cid option) \<Rightarrow> ('cid \<Rightarrow> ('c, 'e) fetch_result) \<Rightarrow> 'e load_block_error + 'c option" where
  "loadChangeBlock cid knownHashes parseCID fetch =
     (if cid \<notin> set knownHashes then Inr None
      else case parseCID cid of
        None \<Rightarrow> Inl InvalidCid
      | Some parsedCID \<Rightarrow>
          (case fetch parsedCID of
             Fetched change \<Rightarrow> Inr (Some change)
           | NotFound e \<Rightarrow> Inr None
           | FetchFailed e \<Rightarrow> Inl (FetchError e)))"


section \<open>The collector\<close>

text \<open>
  What the collector reads of a document. Messages and snapshots are objects that are
  replaced as a whole, so their identity is part of their value here. The blockstore is
  shared and may gain blocks at any time.
\<close>

record GcMessage =
  gmIdentity :: nat
  gmChangeId :: "string option"
  gmChanges :: "objectRef option"

record GcSnapshot =
  gsIdentity :: nat
  gsBoundary :: string

record GcDocument =
  dgMessage :: "GcMessage option"
  dgSnapshot :: "GcSnapshot option"
  dgTips :: "RecentTip list"
  dgClosed :: bool
  dgBlocked :: bool
  dgLifecycle :: nat
  dgCandidates :: "string list"
  dgRequested :: bool
  dgBlocks :: "string list"

record GcLease =
  leaseCandidates :: "string list"
  leaseMessage :: "GcMessage option"
  leaseRoot :: "objectRef option"
  leaseSnapshot :: "GcSnapshot option"
  leaseBoundary :: "string option"
  leaseTips :: "RecentTip list"
  leaseLifecycle :: nat

definition messageRoot :: "GcMessage option \<Rightarrow> objectRef option" where
  "messageRoot message = Option.bind message gmChanges"

definition protectedCids :: "string option \<Rightarrow> RecentTip list \<Rightarrow> string list" where
  "protectedCids boundary tips = (case boundary of None \<Rightarrow> [] | Some b \<Rightarrow> if b = [] then [] else [b]) @ map tipCid tips"

definition captureLease :: "(nat \<Rightarrow> 'c NodeObject) \<Rightarrow> nat \<Rightarrow> GcDocument \<Rightarrow> change_tree_error + GcLease" where
  "captureLease heap lifecycle doc =
     (let message = dgMessage doc; snapshot = dgSnapshot doc; rootRef = messageRoot message; boundary = map_option gsBoundary snapshot
      in sbind (case (Option.bind message gmChangeId, rootRef, snapshot) of
                  (Some changeId, Some ref, Some sn) \<Rightarrow>
                    if changeId = [] then Inr []
                    else filterDeletableCIDs heap (dgCandidates doc) (Some changeId) (Some ref) (protectedCids boundary (dgTips doc))
                | _ \<Rightarrow> Inr []) (\<lambda>selected.
           Inr \<lparr>leaseCandidates = selected, leaseMessage = message, leaseRoot = rootRef, leaseSnapshot = snapshot,
             leaseBoundary = boundary, leaseTips = dgTips doc, leaseLifecycle = lifecycle\<rparr>))"

definition leaseIsCurrent :: "GcLease \<Rightarrow> GcDocument \<Rightarrow> bool" where
  "leaseIsCurrent lease doc =
     gcLeaseIsCurrent (dgMessage doc = leaseMessage lease \<and> messageRoot (leaseMessage lease) = leaseRoot lease)
       (dgSnapshot doc = leaseSnapshot lease \<and> map_option gsBoundary (leaseSnapshot lease) = leaseBoundary lease)
       (dgTips doc = leaseTips lease)
       (\<not> dgClosed doc \<and> dgLifecycle doc = leaseLifecycle lease \<and> \<not> dgBlocked doc)"

text \<open>Where the single run of the collector stands, with the number of its pass and its lifecycle.\<close>

datatype gcProgress =
    GcIdle
  | AwaitCapture nat nat
  | Sweeping nat nat GcLease "string list"
  | AwaitPin nat nat GcLease string "string list"
  | AwaitRemoval nat nat GcLease string "string list"

type_synonym gcState = "GcDocument \<times> gcProgress"

definition startPass :: "nat \<Rightarrow> nat \<Rightarrow> GcDocument \<Rightarrow> gcState" where
  "startPass pass lifecycle doc =
     (if pass \<ge> 2 \<or> dgClosed doc \<or> lifecycle \<noteq> dgLifecycle doc then (doc, GcIdle)
      else (doc\<lparr>dgRequested := False\<rparr>, AwaitCapture pass lifecycle))"

definition endPass :: "nat \<Rightarrow> nat \<Rightarrow> GcDocument \<Rightarrow> gcState" where
  "endPass pass lifecycle doc =
     (if \<not> dgRequested doc \<or> dgCandidates doc = [] then (doc, GcIdle) else startPass (Suc pass) lifecycle doc)"

fun admitCandidates :: "string list \<Rightarrow> string list \<Rightarrow> string list option" where
  "admitCandidates [] nextCandidates = Some nextCandidates"
| "admitCandidates (cid # cids) nextCandidates =
     (if canRetainGcCandidate (cid \<in> set nextCandidates) (int (length nextCandidates)) (int (length cid))
      then admitCandidates cids (setAdd cid nextCandidates)
      else None)"

definition gcPrunedBlocks :: "string list \<Rightarrow> nat \<Rightarrow> gcState \<Rightarrow> gcState" where
  "gcPrunedBlocks prunedCIDs lifecycle s =
     (let doc = fst s
      in if dgClosed doc \<or> lifecycle \<noteq> dgLifecycle doc then s
         else if prunedCIDs = [] \<and> dgCandidates doc = [] then s
         else if length prunedCIDs > MAX_CHANGE_TREE_NODES then s
         else case admitCandidates prunedCIDs (dgCandidates doc) of
           None \<Rightarrow> s
         | Some nextCandidates \<Rightarrow>
             let doc = doc\<lparr>dgCandidates := nextCandidates\<rparr>
             in if snd s \<noteq> GcIdle then (doc\<lparr>dgRequested := True\<rparr>, snd s) else startPass 0 lifecycle doc)"

text \<open>What ends a slot without a deletion: the sweep goes on while the lease is current.\<close>

definition afterSlot :: "nat \<Rightarrow> nat \<Rightarrow> GcLease \<Rightarrow> string list \<Rightarrow> bool \<Rightarrow> GcDocument \<Rightarrow> gcState" where
  "afterSlot pass lifecycle lease rest current doc =
     (if current then (doc, Sweeping pass lifecycle lease rest) else endPass pass lifecycle doc)"

definition captureSlot :: "(nat \<Rightarrow> 'c NodeObject) \<Rightarrow> gcState \<Rightarrow> gcState" where
  "captureSlot heap s =
     (case snd s of
        AwaitCapture pass lifecycle \<Rightarrow>
          (case captureLease heap lifecycle (fst s) of
             Inl e \<Rightarrow> (fst s, GcIdle)
           | Inr lease \<Rightarrow> (fst s, Sweeping pass lifecycle lease (leaseCandidates lease)))
      | _ \<Rightarrow> s)"

definition nextSlot :: "gcState \<Rightarrow> gcState" where
  "nextSlot s =
     (case snd s of
        Sweeping pass lifecycle lease rest \<Rightarrow>
          (case rest of
             [] \<Rightarrow> endPass pass lifecycle (fst s)
           | cid # rest \<Rightarrow>
               if advanceBlockGc GcReady GcCheck (leaseIsCurrent lease (fst s)) False \<noteq> GcChecking
               then endPass pass lifecycle (fst s)
               else (fst s, AwaitPin pass lifecycle lease cid rest))
      | _ \<Rightarrow> s)"

text \<open>The observation of the pin: \<open>None\<close> when it throws or is no boolean.\<close>

definition pinObserved :: "bool option \<Rightarrow> gcState \<Rightarrow> gcState" where
  "pinObserved observation s =
     (case snd s of
        AwaitPin pass lifecycle lease cid rest \<Rightarrow>
          (let leaseCurrent = leaseIsCurrent lease (fst s)
           in case observation of
                None \<Rightarrow> afterSlot pass lifecycle lease rest leaseCurrent (fst s)
              | Some pinned \<Rightarrow>
                  if advanceBlockGc GcChecking GcDelete leaseCurrent (\<not> pinned) \<noteq> GcDeleting
                  then afterSlot pass lifecycle lease rest leaseCurrent (fst s)
                  else (fst s, AwaitRemoval pass lifecycle lease cid rest))
      | _ \<Rightarrow> s)"

text \<open>A removal that fails may or may not have removed the block.\<close>

datatype removal = Removed | RemovalFailed bool

definition dropBlock :: "string \<Rightarrow> GcDocument \<Rightarrow> GcDocument" where
  "dropBlock cid doc = doc\<lparr>dgBlocks := filter (\<lambda>c. c \<noteq> cid) (dgBlocks doc)\<rparr>"

definition removalSettled :: "removal \<Rightarrow> gcState \<Rightarrow> gcState" where
  "removalSettled outcome s =
     (case snd s of
        AwaitRemoval pass lifecycle lease cid rest \<Rightarrow>
          (case outcome of
             Removed \<Rightarrow>
               let doc = dropBlock cid (fst s); doc = doc\<lparr>dgCandidates := filter (\<lambda>c. c \<noteq> cid) (dgCandidates doc)\<rparr>
               in afterSlot pass lifecycle lease rest (advanceBlockGc GcDeleting GcSettle False False = GcSettled) doc
           | RemovalFailed gone \<Rightarrow>
               let doc = if gone then dropBlock cid (fst s) else fst s
               in afterSlot pass lifecycle lease rest (leaseIsCurrent lease doc) doc)
      | _ \<Rightarrow> s)"

text \<open>
  Everything else that can happen. A mutation of the document owns the mutation queue, so
  it cannot run while a slot of the collector does; closing and new blocks need no slot.
\<close>

definition slotTaken :: "gcProgress \<Rightarrow> bool" where
  "slotTaken progress = (case progress of AwaitPin _ _ _ _ _ \<Rightarrow> True | AwaitRemoval _ _ _ _ _ \<Rightarrow> True | _ \<Rightarrow> False)"

datatype gcEvent =
    PrunedBlocks "string list" nat
  | CaptureSlot
  | NextSlot
  | PinObserved "bool option"
  | RemovalSettled removal
  | Mutation "GcMessage option" "GcSnapshot option" "RecentTip list" bool
  | BlocksAdded "string list"
  | CloseDocument

definition gcStep :: "(nat \<Rightarrow> 'c NodeObject) \<Rightarrow> gcEvent \<Rightarrow> gcState \<Rightarrow> gcState" where
  "gcStep heap event s =
     (case event of
        PrunedBlocks prunedCIDs lifecycle \<Rightarrow> gcPrunedBlocks prunedCIDs lifecycle s
      | CaptureSlot \<Rightarrow> captureSlot heap s
      | NextSlot \<Rightarrow> nextSlot s
      | PinObserved observation \<Rightarrow> pinObserved observation s
      | RemovalSettled outcome \<Rightarrow> removalSettled outcome s
      | Mutation message snapshot tips blocked \<Rightarrow>
          if slotTaken (snd s) then s
          else ((fst s)\<lparr>dgMessage := message, dgSnapshot := snapshot, dgTips := tips, dgBlocked := blocked\<rparr>, snd s)
      | BlocksAdded cids \<Rightarrow> ((fst s)\<lparr>dgBlocks := dgBlocks (fst s) @ cids\<rparr>, snd s)
      | CloseDocument \<Rightarrow> ((fst s)\<lparr>dgClosed := True, dgLifecycle := Suc (dgLifecycle (fst s))\<rparr>, snd s))"

definition gcRun :: "(nat \<Rightarrow> 'c NodeObject) \<Rightarrow> gcEvent list \<Rightarrow> gcState \<Rightarrow> gcState" where
  "gcRun heap events s = fold (gcStep heap) events s"

end
