(* ===== verification/Block_Gc_Proofs.thy ===== *)
theory Block_Gc_Proofs
  imports Block_Gc Sync_Tree_Theorems
begin

text \<open>
  The traversal computes the reflexive transitive closure of the edges, the CIDs of a tree
  are those that occur in it, and the collector never removes a block that is needed.
\<close>


section \<open>Reachability\<close>

lemma adjacent_loop: "set (adjacent (adjacencyLoop edges m) k) = set (adjacent m k) \<union> {b. \<exists>e \<in> set edges. edgeFrom e = k \<and> edgeTo e = b}"
  by (induction edges arbitrary: m) (auto simp: adjacent_def jget_jset split: option.splits)

lemma reachLoop_closed:
  "set queue \<union> set done \<subseteq> set (reachLoop m queue done) \<and>
   (\<forall>x \<in> set (reachLoop m queue done) - set done. set (adjacent m x) \<subseteq> set (reachLoop m queue done)) \<and>
   (\<forall>S. set queue \<union> set done \<subseteq> S \<longrightarrow> (\<forall>x \<in> S. set (adjacent m x) \<subseteq> S) \<longrightarrow> set (reachLoop m queue done) \<subseteq> S)"
proof (induction m queue "done" rule: reachLoop.induct)
  case (1 m d)
  then show ?case by simp
next
  case (2 m node queue d)
  show ?case
  proof (cases "node \<in> set d")
    case True
    have "node \<in> set (reachLoop m queue d)" using 2(1) [OF True] True by blast
    then show ?thesis using 2(1) [OF True] True by simp
  next
    case False
    have next_eq: "reachLoop m (node # queue) d = reachLoop m (queue @ adjacent m node) (d @ [node])" using False by simp
    show ?thesis unfolding next_eq
    proof (intro conjI ballI allI impI)
      note IH = 2(2) [OF False]
      show "set (node # queue) \<union> set d \<subseteq> set (reachLoop m (queue @ adjacent m node) (d @ [node]))" using conjunct1 [OF IH] by auto
      show "set (adjacent m x) \<subseteq> set (reachLoop m (queue @ adjacent m node) (d @ [node]))"
        if "x \<in> set (reachLoop m (queue @ adjacent m node) (d @ [node])) - set d" for x
        using IH that by (cases "x = node") auto
      show "set (reachLoop m (queue @ adjacent m node) (d @ [node])) \<subseteq> S"
        if a: "set (node # queue) \<union> set d \<subseteq> S" "\<forall>x \<in> S. set (adjacent m x) \<subseteq> S" for S
      proof -
        have "set (queue @ adjacent m node) \<union> set (d @ [node]) \<subseteq> S" using a by auto
        then show ?thesis using IH a(2) by blast
      qed
    qed
  qed
qed

definition edgeRelation :: "CidEdge list \<Rightarrow> (string \<times> string) set" where
  "edgeRelation edges = {(edgeFrom e, edgeTo e) | e. e \<in> set edges}"

lemma reachableCids_closure: "set (reachableCids edges r) = {k. (r, k) \<in> (edgeRelation edges)\<^sup>*}"
proof -
  let ?m = "adjacencyLoop edges []" and ?F = "set (reachableCids edges r)" and ?R = "{k. (r, k) \<in> (edgeRelation edges)\<^sup>*}"
  have adj: "set (adjacent ?m x) = {b. (x, b) \<in> edgeRelation edges}" for x
    unfolding adjacent_loop by (auto simp: adjacent_def jget_def edgeRelation_def)
  note closed = reachLoop_closed [of "[r]" "[]" ?m, folded reachableCids_def]
  have "k \<in> ?F" if "(r, k) \<in> (edgeRelation edges)\<^sup>*" for k
    using that
  proof (induction rule: rtrancl_induct)
    case base
    then show ?case using closed by simp
  next
    case (step x y)
    then show ?case using closed adj by auto
  qed
  moreover have "?F \<subseteq> ?R"
  proof -
    have "\<forall>x \<in> ?R. set (adjacent ?m x) \<subseteq> ?R" unfolding adj by (auto intro: rtrancl_into_rtrancl)
    then show ?thesis using closed by auto
  qed
  ultimately show ?thesis by blast
qed

section \<open>The CIDs of a tree\<close>

definition pendingEdge :: "(string \<times> 'c CRDTChangeNode) list \<Rightarrow> string \<Rightarrow> string \<Rightarrow> bool" where
  "pendingEdge ps a b \<longleftrightarrow> (\<exists>k n. (k, n) \<in> set ps \<and> parentOf (Some k) n a b)"

lemma pendingEdge_simps:
  "\<not> pendingEdge [] a b" "pendingEdge ((k, n) # ps) a b \<longleftrightarrow> parentOf (Some k) n a b \<or> pendingEdge ps a b"
  "pendingEdge (ps @ qs) a b \<longleftrightarrow> pendingEdge ps a b \<or> pendingEdge qs a b"
  unfolding pendingEdge_def by (simp, simp, blast) (simp, blast)

lemma occurs_child: "nodeChildren n0 = Children cs \<Longrightarrow> (k, c) \<in> set cs \<Longrightarrow> occurs (Some k) c i n \<Longrightarrow> occurs i0 n0 i n"
proof (rotate_tac 2, induction rule: occurs.induct)
  case here
  then show ?case by (rule occurs.child [OF occurs.here])
next
  case (child i n cs' k' c')
  then show ?case by (blast intro: occurs.child)
qed

lemma occurs_cases: "occurs i0 n0 i n \<longleftrightarrow> (i = i0 \<and> n = n0) \<or> (\<exists>cs k c. nodeChildren n0 = Children cs \<and> (k, c) \<in> set cs \<and> occurs (Some k) c i n)"
proof
  assume "occurs i0 n0 i n"
  then show "(i = i0 \<and> n = n0) \<or> (\<exists>cs k c. nodeChildren n0 = Children cs \<and> (k, c) \<in> set cs \<and> occurs (Some k) c i n)"
  proof (induction rule: occurs.induct)
    case (child i n cs k c)
    then show ?case by (metis occurs.child occurs.here)
  qed simp
qed (auto intro: occurs.here occurs_child)

lemma parentOf_cases:
  "parentOf (Some k) n a b \<longleftrightarrow> (\<exists>cs. nodeChildren n = Children cs \<and> ((a = k \<and> b \<in> fst ` set cs) \<or> pendingEdge cs a b))"
  unfolding parentOf_def pendingEdge_def occurs_cases [of "Some k" n] option.inject by (rule iffI) (elim exE conjE disjE, blast+)

lemma treeEdgesLoop_edges:
  "edgeRelation (snd (treeEdgesLoop ps ns es)) = edgeRelation es \<union> {(a, b). pendingEdge ps a b}"
proof (induction ps ns es rule: treeEdgesLoop.induct)
  case (1 ns es)
  then show ?case by (simp add: pendingEdge_def)
next
  case (2 k n ps ns es)
  show ?case
  proof (cases "nodeChildren n")
    case (Children cs)
    have split: "edgeRelation (es @ rev (map (\<lambda>c. \<lparr>edgeFrom = k, edgeTo = fst c\<rparr>) cs)) = edgeRelation es \<union> {(a, b). a = k \<and> b \<in> fst ` set cs}"
      by (force simp: edgeRelation_def)
    have "{(a, b). pendingEdge ((k, n) # ps) a b} = {(a, b). a = k \<and> b \<in> fst ` set cs} \<union> {(a, b). pendingEdge (cs @ ps) a b}"
      using Children by (auto simp only: pendingEdge_simps parentOf_cases [of k n] changeChildren.inject)
    then show ?thesis using 2(3) [OF Children] Children split by auto
  next
    case NoChildren
    then have "pendingEdge ((k, n) # ps) a b \<longleftrightarrow> pendingEdge ps a b" for a b by (simp add: pendingEdge_simps parentOf_cases [of k n])
    then show ?thesis using 2(1) [OF NoChildren] NoChildren by simp
  next
    case DeferredChildren
    then have "pendingEdge ((k, n) # ps) a b \<longleftrightarrow> pendingEdge ps a b" for a b by (simp add: pendingEdge_simps parentOf_cases [of k n])
    then show ?thesis using 2(2) [OF DeferredChildren] DeferredChildren by simp
  qed
qed

text \<open>The CIDs that occur in a tree, and the tree of an object.\<close>

definition treeCids :: "string \<Rightarrow> 'c CRDTChangeNode \<Rightarrow> string set" where
  "treeCids r t = {k. \<exists>n. occurs (Some r) t (Some k) n}"

lemma treeCids_edges: "{k. (r, k) \<in> {(a, b). parentOf (Some r) t a b}\<^sup>*} = treeCids r t"
proof -
  have "k \<in> treeCids r t" if "(r, k) \<in> {(a, b). parentOf (Some r) t a b}\<^sup>*" for k
    using that
  proof (induction rule: rtrancl_induct)
    case base
    then show ?case unfolding treeCids_def by (blast intro: occurs.here)
  next
    case (step x y)
    obtain n cs where "occurs (Some r) t (Some x) n" "nodeChildren n = Children cs" "y \<in> fst ` set cs"
      using step(2) by (auto simp: parentOf_def)
    then show ?case unfolding treeCids_def by (force intro: occurs.child)
  qed
  moreover have "\<forall>k. i = Some k \<longrightarrow> (r, k) \<in> {(a, b). parentOf (Some r) t a b}\<^sup>*" if "occurs (Some r) t i n" for i n
    using that
  proof (induction rule: occurs.induct)
    case (child i n cs k c)
    obtain j where j: "i = Some j"
      using child(1) by (induction rule: occurs.induct) auto
    have "parentOf (Some r) t j k" using child j unfolding parentOf_def by force
    then show ?case using child.IH j by (auto intro: rtrancl_into_rtrancl)
  qed simp
  ultimately show ?thesis by (auto simp: treeCids_def)
qed

lemma collectTreeCIDs_tree:
  assumes "snapshotBoundedChangeTree defaultOptions heap (Some r) ref = Inr (es, t)"
  shows "\<exists>cids. collectTreeCIDs heap r ref = Inr cids \<and> set cids = treeCids r t"
proof -
  have "edgeRelation (snd (treeEdgesLoop [(r, t)] [] [])) = {(a, b). parentOf (Some r) t a b}"
    unfolding treeEdgesLoop_edges by (auto simp: pendingEdge_simps edgeRelation_def)
  then show ?thesis using assms treeCids_edges [of r t] by (simp add: collectTreeCIDs_def reachableCids_closure)
qed

lemma selectDeletable_set:
  "set (selectDeletable_loop cands retained prot res) = set res \<union> {c \<in> set cands. c \<notin> set retained \<and> c \<notin> set prot}"
  by (induction cands arbitrary: res) auto

lemma selectDeletableCids_set: "set (selectDeletableCids cands retained prot) = set cands - set retained - set prot"
  unfolding selectDeletableCids_def selectDeletable_set by auto

section \<open>The collector\<close>

text \<open>
  A CID is needed by a document if it occurs in its tree, or the tree is refused by the
  bounded walk, or it is the snapshot boundary or a recent tip.
\<close>

definition treeNeeds :: "(nat \<Rightarrow> 'c NodeObject) \<Rightarrow> GcMessage option \<Rightarrow> string \<Rightarrow> bool" where
  "treeNeeds heap message k \<longleftrightarrow> (\<exists>c ref. Option.bind message gmChangeId = Some c \<and> messageRoot message = Some ref \<and>
     (case snapshotBoundedChangeTree defaultOptions heap (Some c) ref of Inl e \<Rightarrow> True | Inr r \<Rightarrow> k \<in> treeCids c (snd r)))"

definition needs :: "(nat \<Rightarrow> 'c NodeObject) \<Rightarrow> GcDocument \<Rightarrow> string \<Rightarrow> bool" where
  "needs heap doc k \<longleftrightarrow> treeNeeds heap (dgMessage doc) k \<or>
     k \<in> set (protectedCids (map_option gsBoundary (dgSnapshot doc)) (dgTips doc))"

definition leaseNeeds :: "(nat \<Rightarrow> 'c NodeObject) \<Rightarrow> GcLease \<Rightarrow> string \<Rightarrow> bool" where
  "leaseNeeds heap lease k \<longleftrightarrow> treeNeeds heap (leaseMessage lease) k \<or>
     k \<in> set (protectedCids (map_option gsBoundary (leaseSnapshot lease)) (leaseTips lease))"

lemma filterDeletable_needs:
  assumes "filterDeletableCIDs heap cands (Some c) (Some ref) prot = Inr sel" "c \<noteq> []"
  shows "\<exists>es t. snapshotBoundedChangeTree defaultOptions heap (Some c) ref = Inr (es, t) \<and> set sel = set cands - treeCids c t - set prot"
proof (cases "snapshotBoundedChangeTree defaultOptions heap (Some c) ref")
  case (Inl e)
  then show ?thesis using assms by (simp add: filterDeletableCIDs_def collectTreeCIDs_def)
next
  case (Inr r)
  obtain es t where r: "r = (es, t)" by force
  obtain cids where cids: "collectTreeCIDs heap c ref = Inr cids" "set cids = treeCids c t"
    using collectTreeCIDs_tree Inr r by blast
  then have "sel = selectDeletableCids cands cids prot" using assms by (simp add: filterDeletableCIDs_def)
  then show ?thesis using Inr r cids(2) by (simp add: selectDeletableCids_set)
qed

lemma captureLease_spares:
  assumes "captureLease heap lc doc = Inr lease" "k \<in> set (leaseCandidates lease)"
  shows "\<not> leaseNeeds heap lease k"
proof -
  obtain c ref sn where parts: "Option.bind (dgMessage doc) gmChangeId = Some c" "messageRoot (dgMessage doc) = Some ref" "dgSnapshot doc = Some sn" "c \<noteq> []"
    and sel: "filterDeletableCIDs heap (dgCandidates doc) (Some c) (Some ref) (protectedCids (Some (gsBoundary sn)) (dgTips doc)) = Inr (leaseCandidates lease)"
    and lease: "leaseMessage lease = dgMessage doc" "leaseSnapshot lease = dgSnapshot doc" "leaseTips lease = dgTips doc"
    using assms by (auto simp: captureLease_def Let_def sbind_Inr_iff split: option.splits if_splits)
  obtain es t where t: "snapshotBoundedChangeTree defaultOptions heap (Some c) ref = Inr (es, t)"
    "set (leaseCandidates lease) = set (dgCandidates doc) - treeCids c t - set (protectedCids (Some (gsBoundary sn)) (dgTips doc))"
    using filterDeletable_needs [OF sel parts(4)] by blast
  then show ?thesis using assms(2) parts lease by (simp add: leaseNeeds_def treeNeeds_def)
qed

definition gc_ok :: "(nat \<Rightarrow> 'c NodeObject) \<Rightarrow> gcState \<Rightarrow> bool" where
  "gc_ok heap s \<longleftrightarrow>
     (case snd s of
        Sweeping p l lease rest \<Rightarrow> (\<forall>k \<in> set rest. \<not> leaseNeeds heap lease k)
      | AwaitPin p l lease cid rest \<Rightarrow> \<not> leaseNeeds heap lease cid \<and> (\<forall>k \<in> set rest. \<not> leaseNeeds heap lease k)
      | AwaitRemoval p l lease cid rest \<Rightarrow> \<not> needs heap (fst s) cid \<and> \<not> leaseNeeds heap lease cid \<and> (\<forall>k \<in> set rest. \<not> leaseNeeds heap lease k)
      | _ \<Rightarrow> True)"

lemma gc_ok_simps:
  "gc_ok heap (doc, GcIdle)" "gc_ok heap (doc, AwaitCapture p l)"
  "gc_ok heap (doc, Sweeping p l lease rest) \<longleftrightarrow> (\<forall>k \<in> set rest. \<not> leaseNeeds heap lease k)"
  "gc_ok heap (doc, AwaitPin p l lease cid rest) \<longleftrightarrow> \<not> leaseNeeds heap lease cid \<and> (\<forall>k \<in> set rest. \<not> leaseNeeds heap lease k)"
  "gc_ok heap (doc, AwaitRemoval p l lease cid rest) \<longleftrightarrow> \<not> needs heap doc cid \<and> \<not> leaseNeeds heap lease cid \<and> (\<forall>k \<in> set rest. \<not> leaseNeeds heap lease k)"
  by (simp_all add: gc_ok_def)

lemma current_needs: "leaseIsCurrent lease doc \<Longrightarrow> needs heap doc k \<longleftrightarrow> leaseNeeds heap lease k"
  by (simp add: leaseIsCurrent_def gcLeaseIsCurrent_def needs_def leaseNeeds_def)

lemma startPass_ok: "gc_ok heap (startPass p l doc)"
  by (simp add: startPass_def gc_ok_simps)

lemma endPass_ok: "gc_ok heap (endPass p l doc)"
  by (auto simp: endPass_def startPass_ok gc_ok_simps)

lemma afterSlot_ok: "\<forall>k \<in> set rest. \<not> leaseNeeds heap lease k \<Longrightarrow> gc_ok heap (afterSlot p l lease rest b doc)"
  by (simp add: afterSlot_def endPass_ok gc_ok_simps)

lemma gc_ok_fields: "needs heap doc' = needs heap doc \<Longrightarrow> gc_ok heap (doc', pc) \<longleftrightarrow> gc_ok heap (doc, pc)"
  by (auto simp: gc_ok_def split: gcProgress.splits)

lemma needs_update [simp]:
  "needs heap (doc\<lparr>dgBlocks := b\<rparr>) = needs heap doc" "needs heap (doc\<lparr>dgCandidates := c\<rparr>) = needs heap doc"
  "needs heap (doc\<lparr>dgRequested := r\<rparr>) = needs heap doc" "needs heap (doc\<lparr>dgClosed := x, dgLifecycle := y\<rparr>) = needs heap doc"
  by (simp_all add: needs_def fun_eq_iff)

lemma prunedBlocks_ok:
  assumes "gc_ok heap s"
  shows "gc_ok heap (gcPrunedBlocks cids l s)"
proof -
  obtain doc pc where s: "s = (doc, pc)" by force
  have "gc_ok heap (doc\<lparr>dgCandidates := c, dgRequested := True\<rparr>, pc)" for c
    using assms gc_ok_fields [of heap "doc\<lparr>dgCandidates := c, dgRequested := True\<rparr>" doc pc] unfolding s by (simp add: needs_def fun_eq_iff)
  then show ?thesis using assms unfolding s by (simp add: gcPrunedBlocks_def Let_def startPass_ok split: option.split)
qed

lemma gcStep_ok:
  assumes ok: "gc_ok heap s"
  shows "gc_ok heap (gcStep heap e s)"
proof -
  obtain doc pc where s: "s = (doc, pc)" by force
  show ?thesis
  proof (cases e)
    case (PrunedBlocks cids l)
    then show ?thesis using prunedBlocks_ok [OF ok] by (simp add: gcStep_def)
  next
    case CaptureSlot
    then show ?thesis using ok unfolding s
      by (auto simp: gcStep_def captureSlot_def gc_ok_simps split: gcProgress.splits sum.splits dest: captureLease_spares)
  next
    case NextSlot
    then show ?thesis using ok unfolding s
      by (auto simp: gcStep_def nextSlot_def endPass_ok gc_ok_simps split: gcProgress.splits list.splits)
  next
    case (PinObserved observation)
    then show ?thesis using ok unfolding s
      by (auto simp: gcStep_def pinObserved_def Let_def afterSlot_ok advanceBlockGc_def current_needs gc_ok_simps split: gcProgress.splits option.splits)
  next
    case (RemovalSettled outcome)
    then show ?thesis using ok unfolding s
      by (auto simp: gcStep_def removalSettled_def Let_def afterSlot_ok gc_ok_simps split: gcProgress.splits removal.splits)
  next
    case (Mutation m sn tips b)
    then show ?thesis using ok unfolding s by (auto simp: gcStep_def slotTaken_def gc_ok_simps split: gcProgress.splits)
  next
    case (BlocksAdded cids)
    then show ?thesis using ok gc_ok_fields [of heap "doc\<lparr>dgBlocks := dgBlocks doc @ cids\<rparr>" doc pc] unfolding s by (simp add: gcStep_def)
  next
    case CloseDocument
    then show ?thesis using ok gc_ok_fields [of heap "doc\<lparr>dgClosed := True, dgLifecycle := Suc (dgLifecycle doc)\<rparr>" doc pc]
      unfolding s by (simp add: gcStep_def)
  qed
qed

lemma gcRun_ok: "gc_ok heap s \<Longrightarrow> gc_ok heap (gcRun heap es s)"
  by (induction es arbitrary: s) (simp_all add: gcRun_def gcStep_ok)

lemma fst_pass [simp]: "dgBlocks (fst (startPass p l doc)) = dgBlocks doc" "dgBlocks (fst (endPass p l doc)) = dgBlocks doc"
    "dgBlocks (fst (afterSlot p l lease rest b doc)) = dgBlocks doc"
  by (simp_all add: startPass_def endPass_def afterSlot_def)

lemma prunedBlocks_blocks [simp]: "dgBlocks (fst (gcPrunedBlocks cids l s)) = dgBlocks (fst s)"
  by (simp add: gcPrunedBlocks_def Let_def split: option.split)

lemma captureSlot_blocks [simp]: "dgBlocks (fst (captureSlot heap s)) = dgBlocks (fst s)"
  by (cases "snd s") (simp_all add: captureSlot_def split: sum.split)

lemma nextSlot_blocks [simp]: "dgBlocks (fst (nextSlot s)) = dgBlocks (fst s)"
  by (cases "snd s") (simp_all add: nextSlot_def split: list.split)

lemma pinObserved_blocks [simp]: "dgBlocks (fst (pinObserved b s)) = dgBlocks (fst s)"
  by (cases "snd s") (simp_all add: pinObserved_def Let_def split: option.split)

lemma removal_blocks:
  "k \<in> set (dgBlocks (fst s)) \<Longrightarrow> k \<in> set (dgBlocks (fst (removalSettled r s))) \<or> (\<exists>p l lease rest. snd s = AwaitRemoval p l lease k rest)"
  by (cases "snd s"; cases r) (auto simp: removalSettled_def dropBlock_def Let_def)

text \<open>Only the removal of the awaited block takes a block away.\<close>

lemma gcStep_blocks:
  "k \<in> set (dgBlocks (fst s)) \<Longrightarrow> k \<in> set (dgBlocks (fst (gcStep heap e s))) \<or> (\<exists>p l lease rest. snd s = AwaitRemoval p l lease k rest)"
  using removal_blocks [of k s] by (cases e) (auto simp: gcStep_def)

text \<open>
  The collector never removes a needed block. After every sequence of collector steps,
  mutations between its slots, new blocks and closings, a further step keeps each stored
  block that occurs in the current tree or is the snapshot boundary or a recent tip.
\<close>

theorem gc_keeps_needed:
  assumes "snd s = GcIdle" "k \<in> set (dgBlocks (fst (gcRun heap es s)))" "needs heap (fst (gcRun heap es s)) k"
  shows "k \<in> set (dgBlocks (fst (gcStep heap e (gcRun heap es s))))"
proof (rule ccontr)
  assume "\<not> ?thesis"
  then obtain p l lease rest where pc: "snd (gcRun heap es s) = AwaitRemoval p l lease k rest"
    using gcStep_blocks [OF assms(2)] by blast
  have "gc_ok heap s" using assms(1) by (simp add: gc_ok_def)
  then have "gc_ok heap (gcRun heap es s)" by (rule gcRun_ok)
  then show False using pc assms(3) by (simp add: gc_ok_def)
qed

section \<open>An undisturbed pass\<close>

text \<open>The events of a pass in which every wait succeeds and nothing else happens.\<close>

fun sweepEvents :: "(string \<Rightarrow> bool) \<Rightarrow> string list \<Rightarrow> gcEvent list" where
  "sweepEvents pins [] = [NextSlot]"
| "sweepEvents pins (cid # rest) =
     NextSlot # PinObserved (Some (pins cid)) # (if pins cid then [] else [RemovalSettled Removed]) @ sweepEvents pins rest"

definition swept :: "string list \<Rightarrow> GcDocument \<Rightarrow> GcDocument" where
  "swept cids doc = doc\<lparr>dgBlocks := filter (\<lambda>c. c \<notin> set cids) (dgBlocks doc), dgCandidates := filter (\<lambda>c. c \<notin> set cids) (dgCandidates doc)\<rparr>"

lemma swept_current [simp]: "leaseIsCurrent lease (swept cids doc) = leaseIsCurrent lease doc"
  by (simp add: swept_def leaseIsCurrent_def)

lemma swept_Nil [simp]: "swept [] doc = doc"
  by (simp add: swept_def)

lemma swept_swept: "swept cids (swept [c] doc) = swept (c # cids) doc"
  by (simp add: swept_def conj_commute)

lemma gcRun_Cons: "gcRun heap (e # es) s = gcRun heap es (gcStep heap e s)" "gcRun heap [] s = s"
  by (simp_all add: gcRun_def)

lemma sweep_slot:
  assumes "leaseIsCurrent lease doc"
  shows "gcStep heap NextSlot (doc, Sweeping p l lease (cid # rest)) = (doc, AwaitPin p l lease cid rest)"
    "gcStep heap (PinObserved (Some True)) (doc, AwaitPin p l lease cid rest) = (doc, Sweeping p l lease rest)"
    "gcStep heap (PinObserved (Some False)) (doc, AwaitPin p l lease cid rest) = (doc, AwaitRemoval p l lease cid rest)"
    "gcStep heap (RemovalSettled Removed) (doc, AwaitRemoval p l lease cid rest) = (swept [cid] doc, Sweeping p l lease rest)"
  using assms
  by (simp_all add: gcStep_def nextSlot_def pinObserved_def removalSettled_def advanceBlockGc_def afterSlot_def dropBlock_def swept_def)

lemma sweep_run:
  "leaseIsCurrent lease doc \<Longrightarrow>
    gcRun heap (sweepEvents pins rest) (doc, Sweeping p l lease rest) = endPass p l (swept (filter (\<lambda>c. \<not> pins c) rest) doc)"
proof (induction rest arbitrary: doc)
  case Nil
  then show ?case by (simp add: gcRun_Cons gcStep_def nextSlot_def)
next
  case (Cons cid rest)
  have "leaseIsCurrent lease (swept [cid] doc)" using Cons.prems by simp
  then show ?case using Cons.IH [of doc] Cons.IH [of "swept [cid] doc"] Cons.prems
    by (simp add: gcRun_Cons sweep_slot swept_swept)
qed

text \<open>
  A pass that nothing disturbs removes exactly the candidates that are neither needed
  nor pinned, if the document has a tree the bounded walk accepts and a snapshot.
\<close>

theorem gc_pass_collects:
  assumes doc: "\<not> dgClosed doc" "\<not> dgBlocked doc" "dgSnapshot doc = Some sn" "dgMessage doc = Some m"
    and tree: "gmChangeId m = Some c" "c \<noteq> []" "gmChanges m = Some ref" "snapshotBoundedChangeTree defaultOptions heap (Some c) ref = Inr (es, t)"
  shows "\<exists>cids. set cids = {k \<in> set (dgCandidates doc). \<not> needs heap doc k} \<and>
    set (dgBlocks (fst (gcRun heap (CaptureSlot # sweepEvents pins cids) (doc, AwaitCapture p (dgLifecycle doc))))) =
      set (dgBlocks doc) - {k \<in> set (dgCandidates doc). \<not> needs heap doc k \<and> \<not> pins k}"
proof -
  obtain tree_cids where cids: "collectTreeCIDs heap c ref = Inr tree_cids" "set tree_cids = treeCids c t"
    using collectTreeCIDs_tree [OF tree(4)] by blast
  let ?prot = "protectedCids (Some (gsBoundary sn)) (dgTips doc)"
  define sel where "sel = selectDeletableCids (dgCandidates doc) tree_cids ?prot"
  define lease where "lease = \<lparr>leaseCandidates = sel, leaseMessage = dgMessage doc, leaseRoot = Some ref, leaseSnapshot = dgSnapshot doc,
     leaseBoundary = Some (gsBoundary sn), leaseTips = dgTips doc, leaseLifecycle = dgLifecycle doc\<rparr>"
  have capture: "captureLease heap (dgLifecycle doc) doc = Inr lease"
    using assms cids by (simp add: captureLease_def messageRoot_def filterDeletableCIDs_def sel_def lease_def Let_def)
  have sel: "set sel = {k \<in> set (dgCandidates doc). \<not> needs heap doc k}"
    using assms cids by (auto simp: sel_def selectDeletableCids_set needs_def treeNeeds_def messageRoot_def)
  have "leaseIsCurrent lease doc" using assms by (simp add: leaseIsCurrent_def gcLeaseIsCurrent_def lease_def messageRoot_def)
  moreover have "gcStep heap CaptureSlot (doc, AwaitCapture p (dgLifecycle doc)) = (doc, Sweeping p (dgLifecycle doc) lease sel)"
    using capture by (simp add: gcStep_def captureSlot_def lease_def)
  ultimately have "gcRun heap (CaptureSlot # sweepEvents pins sel) (doc, AwaitCapture p (dgLifecycle doc)) =
      endPass p (dgLifecycle doc) (swept (filter (\<lambda>c. \<not> pins c) sel) doc)"
    by (simp add: gcRun_Cons sweep_run)
  then show ?thesis using sel by (intro exI [of _ sel]) (auto simp: swept_def)
qed

section \<open>A concrete document\<close>

definition gcHeap :: "nat \<Rightarrow> int NodeObject" where
  "gcHeap a = \<lparr>objKind = Some DocumentChange, objKeyId = False, objChange = None,
     objChildren = (if a = 0 then ChildMap [(''kept'', Ref 1)] else AbsentChildren)\<rparr>"

definition gcDocument :: GcDocument where
  "gcDocument = \<lparr>dgMessage = Some \<lparr>gmIdentity = 1, gmChangeId = Some ''head'', gmChanges = Some (Ref 0)\<rparr>,
     dgSnapshot = Some \<lparr>gsIdentity = 1, gsBoundary = ''head''\<rparr>, dgTips = [], dgClosed = False, dgBlocked = False, dgLifecycle = 0,
     dgCandidates = [], dgRequested = False, dgBlocks = [''head'', ''kept'', ''old'']\<rparr>"

lemma gcHeap_tree: "snapshotBoundedChangeTree defaultOptions gcHeap (Some ''head'') (Ref 0) =
    Inr ([(Some ''head'', DocumentChange, None), (Some ''kept'', DocumentChange, None)],
      ChangeNode DocumentChange None (Children [(''kept'', ChangeNode DocumentChange None NoChildren)]))"
  by (simp add: snapshotBoundedChangeTree_def collectLoop.simps enterNode_def leaveNode_def attachCopy_def newWalk_def gcHeap_def defaultOptions_def assertCanonicalCID_def
      MAX_CHANGE_TREE_NODES_def MAX_CHANGE_TREE_EDGES_def MAX_CHANGE_TREE_DEPTH_def consumeWorkBudget_def Let_def)

lemma gcDocument_pruned:
  "gcRun gcHeap [PrunedBlocks [''head'', ''kept'', ''old''] 0] (gcDocument, GcIdle) =
    (gcDocument\<lparr>dgCandidates := [''head'', ''kept'', ''old'']\<rparr>, AwaitCapture 0 0)"
  by (simp add: gcRun_Cons gcStep_def gcPrunedBlocks_def startPass_def canRetainGcCandidate_def setAdd_def gcDocument_def MAX_CHANGE_TREE_NODES_def)

lemma gc_keeps_needed_witness:
  "''head'' \<in> set (dgBlocks (fst (gcStep gcHeap CaptureSlot (gcRun gcHeap [PrunedBlocks [''head'', ''kept'', ''old''] 0] (gcDocument, GcIdle)))))"
  by (rule gc_keeps_needed) (simp_all only: gcDocument_pruned, simp_all add: gcDocument_def needs_def protectedCids_def)

lemma gc_pass_collects_witness:
  "\<exists>cids. set cids = {k \<in> set (dgCandidates (gcDocument\<lparr>dgCandidates := [''old'']\<rparr>)). \<not> needs gcHeap (gcDocument\<lparr>dgCandidates := [''old'']\<rparr>) k}"
proof -
  let ?doc = "gcDocument\<lparr>dgCandidates := [''old'']\<rparr>"
  have "\<not> dgClosed ?doc" "\<not> dgBlocked ?doc" "dgSnapshot ?doc = Some \<lparr>gsIdentity = 1, gsBoundary = ''head''\<rparr>"
    "dgMessage ?doc = Some \<lparr>gmIdentity = 1, gmChangeId = Some ''head'', gmChanges = Some (Ref 0)\<rparr>"
    by (simp_all add: gcDocument_def)
  from gc_pass_collects [OF this _ _ _ gcHeap_tree, of "\<lambda>_. False" 0] show ?thesis by (simp only: GcMessage.simps) blast
qed

end
