(* ===== verification/Prune_Proofs.thy ===== *)
theory Prune_Proofs
  imports Prune_Tree Block_Gc_Proofs
begin

text \<open>
  What pruning keeps. Each step of the traversal replaces the children of one node; the
  contents of the tree change by what was below it and by the leaves that are attached.
\<close>


section \<open>The contents of a tree\<close>

definition contents :: "string option \<Rightarrow> 'c CRDTChangeNode \<Rightarrow> (string option \<times> CRDTChangeNodeKind \<times> 'c option) set" where
  "contents i t = {(j, nodeKind n, nodeChange n) | j n. occurs i t j n}"

definition childContents :: "(string \<times> 'c CRDTChangeNode) list \<Rightarrow> (string option \<times> CRDTChangeNodeKind \<times> 'c option) set" where
  "childContents cs = (\<Union>x \<in> set cs. contents (Some (fst x)) (snd x))"

lemma childContents_simps [simp]:
  "childContents [] = {}" "childContents (x # cs) = contents (Some (fst x)) (snd x) \<union> childContents cs"
  "childContents (xs @ ys) = childContents xs \<union> childContents ys"
  by (auto simp: childContents_def)

lemma contents_rec: "contents i t = insert (i, nodeKind t, nodeChange t) (childContents (kidsOf t))"
proof -
  have "(j, nodeKind n, nodeChange n) \<in> insert (i, nodeKind t, nodeChange t) (childContents (kidsOf t))" if a: "occurs i t j n" for j n
  proof -
    consider "j = i" "n = t" | cs k c where "nodeChildren t = Children cs" "(k, c) \<in> set cs" "occurs (Some k) c j n"
      using a unfolding occurs_cases [of i t] by blast
    then show ?thesis
    proof cases
      case 2
      then have "(j, nodeKind n, nodeChange n) \<in> contents (Some k) c" unfolding contents_def by blast
      then show ?thesis using 2 by (force simp: childContents_def kidsOf_Children)
    qed simp
  qed
  moreover have "x \<in> contents i t" if a: "x \<in> childContents (kidsOf t)" for x
  proof -
    obtain k c where c: "(k, c) \<in> set (kidsOf t)" "x \<in> contents (Some k) c" using a by (force simp: childContents_def)
    then have "nodeChildren t = Children (kidsOf t)" by (auto simp: kidsOf_def split: changeChildren.splits)
    then show ?thesis using c occurs_child unfolding contents_def by blast
  qed
  moreover have "(i, nodeKind t, nodeChange t) \<in> contents i t" unfolding contents_def by (blast intro: occurs.here)
  ultimately show ?thesis unfolding contents_def by blast
qed

section \<open>The preserved nodes\<close>

definition aclOut :: "'c preservedNodes \<Rightarrow> bool" where
  "aclOut out \<longleftrightarrow> jwf out \<and> (\<forall>k n. jget out k = Some n \<longrightarrow> isACLKind (nodeKind n) \<and> nodeChildren n = NoChildren)"

definition keptIn :: "'c preservedNodes \<Rightarrow> string \<Rightarrow> 'c option \<Rightarrow> bool" where
  "keptIn out k change \<longleftrightarrow> (\<exists>n. jget out k = Some n \<and> (change \<noteq> None \<longrightarrow> nodeChange n \<noteq> None))"

lemma preserveACL_ok:
  assumes "aclOut out" "isACLKind (nodeKind n)"
  shows "aclOut (preserveACL k n out)" "keptIn (preserveACL k n out) k (nodeChange n)"
    "keptIn out k' c \<Longrightarrow> keptIn (preserveACL k n out) k' c"
    "jget (preserveACL k n out) k' = Some m \<Longrightarrow> jget out k' = Some m \<or> (k' = k \<and> nodeKind m = nodeKind n \<and> nodeChange m = nodeChange n)"
  using assms by (auto simp: aclOut_def keptIn_def preserveACL_def jget_jset jwf_jset split: option.splits if_splits)

lemma collectACLNodes_ok:
  assumes "collectACLNodes ps out pruned = (out', pruned')" "aclOut out"
  shows "aclOut out' \<and> set pruned' = set pruned \<union> {k. \<exists>kd c. (Some k, kd, c) \<in> childContents ps \<and> \<not> isACLKind kd} \<and>
    (\<forall>k c. keptIn out k c \<longrightarrow> keptIn out' k c) \<and>
    (\<forall>k kd c. (Some k, kd, c) \<in> childContents ps \<longrightarrow> isACLKind kd \<longrightarrow> keptIn out' k c) \<and>
    (\<forall>k m. jget out' k = Some m \<longrightarrow> jget out k = Some m \<or> (Some k, nodeKind m, nodeChange m) \<in> childContents ps)"
  using assms
proof (induction ps out pruned arbitrary: out' pruned' rule: collectACLNodes.induct)
  case (1 out pruned)
  then show ?case by simp
next
  case (2 k n ps out pruned)
  let ?acl = "isACLKind (nodeKind n)"
  define o1 where "o1 = (if ?acl then preserveACL k n out else out)"
  define p1 where "p1 = (if ?acl then pruned else setAdd k pruned)"
  have o1: "aclOut o1" "?acl \<Longrightarrow> keptIn o1 k (nodeChange n)" "\<And>k' c. keptIn out k' c \<Longrightarrow> keptIn o1 k' c"
    "\<And>k' m. jget o1 k' = Some m \<Longrightarrow> jget out k' = Some m \<or> (?acl \<and> k' = k \<and> nodeKind m = nodeKind n \<and> nodeChange m = nodeChange n)"
    using preserveACL_ok [OF "2.prems"(2)] "2.prems"(2) unfolding o1_def by (auto split: if_splits)
  have p1: "set p1 = set pruned \<union> {k'. k' = k \<and> \<not> ?acl}" by (auto simp: p1_def)
  have rest: "collectACLNodes (kidsOf n @ ps) o1 p1 = (out', pruned')"
    using "2.prems"(1) by (cases "nodeChildren n") (auto simp: Let_def o1_def p1_def kidsOf_def)
  have IH: "aclOut out' \<and> set pruned' = set p1 \<union> {k. \<exists>kd c. (Some k, kd, c) \<in> childContents (kidsOf n @ ps) \<and> \<not> isACLKind kd} \<and>
    (\<forall>k c. keptIn o1 k c \<longrightarrow> keptIn out' k c) \<and>
    (\<forall>k kd c. (Some k, kd, c) \<in> childContents (kidsOf n @ ps) \<longrightarrow> isACLKind kd \<longrightarrow> keptIn out' k c) \<and>
    (\<forall>k m. jget out' k = Some m \<longrightarrow> jget o1 k = Some m \<or> (Some k, nodeKind m, nodeChange m) \<in> childContents (kidsOf n @ ps))"
  proof (cases "nodeChildren n")
    case (Children cs)
    have kids: "kidsOf n = cs" using Children by (rule kidsOf_Children)
    show ?thesis using "2.IH"(3) [OF refl o1_def p1_def Children] rest o1(1) unfolding kids by blast
  next
    case NoChildren
    then have kids: "kidsOf n = []" by (simp add: kidsOf_def)
    show ?thesis using "2.IH"(1) [OF refl o1_def p1_def NoChildren] rest o1(1) unfolding kids append_Nil by blast
  next
    case DeferredChildren
    then have kids: "kidsOf n = []" by (simp add: kidsOf_def)
    show ?thesis using "2.IH"(2) [OF refl o1_def p1_def DeferredChildren] rest o1(1) unfolding kids append_Nil by blast
  qed
  have whole: "childContents ((k, n) # ps) = insert (Some k, nodeKind n, nodeChange n) (childContents (kidsOf n @ ps))"
    by (simp add: contents_rec [of "Some k" n])
  show ?case
  proof (intro conjI allI impI)
    show "aclOut out'" using IH by blast
    show "set pruned' = set pruned \<union> {k'. \<exists>kd c. (Some k', kd, c) \<in> childContents ((k, n) # ps) \<and> \<not> isACLKind kd}"
      unfolding whole using IH p1 by auto
    show "keptIn out' k' c" if "keptIn out k' c" for k' c using IH o1(3) that by blast
    show "keptIn out' k' c" if "(Some k', kd, c) \<in> childContents ((k, n) # ps)" "isACLKind kd" for k' kd c
      using that IH o1(2) unfolding whole by auto
    show "jget out k' = Some m \<or> (Some k', nodeKind m, nodeChange m) \<in> childContents ((k, n) # ps)" if "jget out' k' = Some m" for k' m
    proof -
      have "jget o1 k' = Some m \<or> (Some k', nodeKind m, nodeChange m) \<in> childContents (kidsOf n @ ps)" using IH that by blast
      then show ?thesis using o1(4) [of k' m] unfolding whole by blast
    qed
  qed
qed

section \<open>Replacing the children of one node\<close>

fun nodeAt :: "nat list \<Rightarrow> 'c CRDTChangeNode \<Rightarrow> 'c CRDTChangeNode option" where
  "nodeAt [] node = Some node"
| "nodeAt (j # path) node = (if j < length (kidsOf node) then nodeAt path (snd (kidsOf node ! j)) else None)"

lemma kidsOf_Cons: "j < length (kidsOf n) \<Longrightarrow> nodeChildren n = Children (kidsOf n)"
  by (auto simp: kidsOf_def split: changeChildren.splits)

lemma setChildrenAt_Cons: "j < length (kidsOf n) \<Longrightarrow> setChildrenAt (j # p) ch n =
    ChangeNode (nodeKind n) (nodeChange n) (Children ((kidsOf n)[j := (fst (kidsOf n ! j), setChildrenAt p ch (snd (kidsOf n ! j)))]))"
  by (simp add: kidsOf_Cons)

lemma kidsOf_node [simp]: "kidsOf (ChangeNode k c (Children cs)) = cs"
  by (simp add: kidsOf_def)

lemma nodeAt_parallel: "parallel p q \<Longrightarrow> nodeAt q (setChildrenAt p ch t) = nodeAt q t"
proof (induction p arbitrary: q t)
  case (Cons j p)
  obtain l q' where q: "q = l # q'" using Cons.prems by (cases q) auto
  show ?case
  proof (cases "j < length (kidsOf t)")
    case True
    show ?thesis
    proof (cases "j = l")
      case True
      then have "parallel p q'" using Cons.prems q by (auto simp: parallel_def)
      then show ?thesis using Cons.IH [of q'] True q \<open>j < length (kidsOf t)\<close> by (simp add: setChildrenAt_Cons del: setChildrenAt.simps)
    next
      case False
      then show ?thesis using q True by (simp add: setChildrenAt_Cons del: setChildrenAt.simps)
    qed
  next
    case False
    then have "setChildrenAt (j # p) ch t = t" by (auto simp: kidsOf_def split: changeChildren.splits)
    then show ?thesis by simp
  qed
qed simp

lemma childContents_update:
  "j < length cs \<Longrightarrow> childContents cs \<union> contents (Some (fst (cs ! j))) m = childContents (cs[j := (fst (cs ! j), m)]) \<union> contents (Some (fst (cs ! j))) (snd (cs ! j))"
proof (induction cs arbitrary: j)
  case (Cons x cs)
  then show ?case by (cases j) auto
qed simp

definition replaced :: "('a set) \<Rightarrow> 'a set \<Rightarrow> 'a set \<Rightarrow> 'a set \<Rightarrow> bool" where
  "replaced old below new now \<longleftrightarrow> old \<subseteq> now \<union> below \<and> new \<subseteq> now \<and> now \<subseteq> old \<union> new"

lemma setChildrenAt_contents:
  "nodeAt p t = Some n \<Longrightarrow> replaced (contents i t) (childContents (kidsOf n)) (childContents (kidsOf (ChangeNode k c ch))) (contents i (setChildrenAt p ch t))"
proof (induction p arbitrary: i t)
  case Nil
  have "kidsOf (ChangeNode (nodeKind t) (nodeChange t) ch) = kidsOf (ChangeNode k c ch)" by (simp add: kidsOf_def)
  then show ?case using Nil contents_rec [of i t] contents_rec [of i "ChangeNode (nodeKind t) (nodeChange t) ch"] by (auto simp: replaced_def)
next
  case (Cons j p)
  have j: "j < length (kidsOf t)" "nodeAt p (snd (kidsOf t ! j)) = Some n" using Cons.prems by (auto split: if_splits)
  let ?k = "Some (fst (kidsOf t ! j))" and ?m = "setChildrenAt p ch (snd (kidsOf t ! j))"
  have IH: "replaced (contents ?k (snd (kidsOf t ! j))) (childContents (kidsOf n)) (childContents (kidsOf (ChangeNode k c ch))) (contents ?k ?m)"
    using Cons.IH [OF j(2)] .
  have kid: "contents ?k (snd (kidsOf t ! j)) \<subseteq> childContents (kidsOf t)" using j(1) nth_mem [OF j(1)] unfolding childContents_def by blast
  have kid': "contents ?k ?m \<subseteq> childContents ((kidsOf t)[j := (fst (kidsOf t ! j), ?m)])"
    using j(1) set_update_memI [OF j(1), of "(fst (kidsOf t ! j), ?m)"] by (force simp: childContents_def)
  have now: "contents i (setChildrenAt (j # p) ch t) = insert (i, nodeKind t, nodeChange t) (childContents ((kidsOf t)[j := (fst (kidsOf t ! j), ?m)]))"
    using contents_rec [of i "setChildrenAt (j # p) ch t"] j(1) by (simp add: setChildrenAt_Cons del: setChildrenAt.simps)
  show ?case unfolding now contents_rec [of i t] replaced_def
    using IH kid kid' childContents_update [OF j(1), of ?m] unfolding replaced_def by blast
qed

section \<open>The traversal\<close>

definition queue_ok :: "(nat list \<times> 'c CRDTChangeNode) list \<Rightarrow> 'c CRDTChangeNode \<Rightarrow> bool" where
  "queue_ok queue t \<longleftrightarrow> sorted_wrt parallel (map fst queue) \<and> (\<forall>(p, n) \<in> set queue. nodeAt p t = Some n)"

lemma positions_parallel:
  "sorted_wrt parallel (map fst (childPositions p cs))" "q \<in> set (map fst (childPositions p cs)) \<Longrightarrow> \<exists>j. q = p @ [j]"
proof -
  have keys: "map fst (childPositions p cs) = map (\<lambda>j. p @ [j]) [0..<length cs]"
    by (rule nth_equalityI) (simp_all add: childPositions_def)
  have "parallel (p @ [i]) (p @ [j])" if "i < j" for i j using that by (intro parallelI) auto
  then show "sorted_wrt parallel (map fst (childPositions p cs))" unfolding keys sorted_wrt_iff_nth_less by simp
  show "q \<in> set (map fst (childPositions p cs)) \<Longrightarrow> \<exists>j. q = p @ [j]" unfolding keys by auto
qed

lemma positions_nodes: "(q, c) \<in> set (childPositions p cs) \<Longrightarrow> \<exists>j < length cs. q = p @ [j] \<and> c = snd (cs ! j)"
  by (auto simp: childPositions_def in_set_zip)

lemma nodeAt_append: "nodeAt p t = Some n \<Longrightarrow> nodeAt (p @ q) t = nodeAt q n"
  by (induction p arbitrary: t) (auto split: if_splits)

lemma queue_ok_expand:
  assumes "queue_ok ((p, n) # queue) t" "nodeChildren n = Children cs"
  shows "queue_ok (queue @ childPositions p cs) t"
  unfolding queue_ok_def
proof (intro conjI ballI)
  have par: "\<forall>q \<in> set (map fst queue). parallel p q" "sorted_wrt parallel (map fst queue)" and at: "nodeAt p t = Some n"
    "\<forall>(p, n) \<in> set queue. nodeAt p t = Some n" using assms(1) by (auto simp: queue_ok_def)
  have "parallel q r" if a: "q \<in> set (map fst queue)" "r \<in> set (map fst (childPositions p cs))" for q r
  proof -
    obtain j where r: "r = p @ [j]" using positions_parallel(2) [OF a(2)] by blast
    have "parallel q p" using par(1) a(1) by (auto simp: parallel_def)
    then show ?thesis using parallel_append [of q p "[]" "[j]"] r by simp
  qed
  then show "sorted_wrt parallel (map fst (queue @ childPositions p cs))"
    using par positions_parallel(1) [of p cs] by (simp add: sorted_wrt_append)
  fix x assume x: "x \<in> set (queue @ childPositions p cs)"
  show "case x of (p, n) \<Rightarrow> nodeAt p t = Some n"
  proof (cases "x \<in> set queue")
    case True
    then show ?thesis using at(2) by blast
  next
    case False
    then obtain q c where "x = (q, c)" "(q, c) \<in> set (childPositions p cs)" using x by (cases x) auto
    then obtain j where "x = (p @ [j], snd (cs ! j))" "j < length cs" using positions_nodes by blast
    then show ?thesis using nodeAt_append [OF at(1), of "[j]"] assms(2) by (simp add: kidsOf_Children)
  qed
qed

lemma queue_ok_replace:
  assumes "queue_ok ((p, n) # queue) t"
  shows "queue_ok queue (setChildrenAt p ch t)"
  unfolding queue_ok_def
proof (intro conjI ballI)
  show "sorted_wrt parallel (map fst queue)" using assms by (simp add: queue_ok_def)
  fix x assume x: "x \<in> set queue"
  obtain q m where q: "x = (q, m)" by (cases x)
  have "q \<in> set (map fst queue)" using x q by force
  then have "parallel p q" "nodeAt q t = Some m" using assms x q by (auto simp: queue_ok_def)
  then have "nodeAt q (setChildrenAt p ch t) = Some m" using nodeAt_parallel [of p q ch t] by simp
  then show "case x of (q, n) \<Rightarrow> nodeAt q (setChildrenAt p ch t) = Some n" using q by simp
qed

lemma queue_ok_tail: "queue_ok (x # queue) t \<Longrightarrow> queue_ok queue t"
  by (simp add: queue_ok_def)

text \<open>What pruning may do to a tree and the list of pruned CIDs.\<close>

definition prunes :: "string option \<Rightarrow> 'c CRDTChangeNode \<Rightarrow> string list \<Rightarrow> 'c CRDTChangeNode \<Rightarrow> string list \<Rightarrow> bool" where
  "prunes i t pruned t' pruned' \<longleftrightarrow> nodeKind t' = nodeKind t \<and> nodeChange t' = nodeChange t \<and> contents i t' \<subseteq> contents i t \<and>
     (\<forall>k kd c. (Some k, kd, c) \<in> contents i t \<and> isACLKind kd \<longrightarrow>
        (\<exists>kd' c'. (Some k, kd', c') \<in> contents i t' \<and> isACLKind kd' \<and> (c \<noteq> None \<longrightarrow> c' \<noteq> None))) \<and>
     (\<forall>k kd c. (Some k, kd, c) \<in> contents i t \<and> \<not> isACLKind kd \<longrightarrow> k \<in> set pruned' \<or> (Some k, kd, c) \<in> contents i t') \<and>
     set pruned \<subseteq> set pruned' \<and> set pruned' \<subseteq> set pruned \<union> {k. \<exists>kd c. (Some k, kd, c) \<in> contents i t \<and> \<not> isACLKind kd}"

lemma prunes_refl: "prunes i t pruned t pruned"
  by (auto simp: prunes_def)

lemma prunes_trans:
  assumes tu: "prunes i t p0 u p1" and uv: "prunes i u p1 v p2"
  shows "prunes i t p0 v p2"
proof -
  note tu = tu [unfolded prunes_def] and uv = uv [unfolded prunes_def]
  have acl: "\<exists>kd' c'. (Some k, kd', c') \<in> contents i v \<and> isACLKind kd' \<and> (c \<noteq> None \<longrightarrow> c' \<noteq> None)"
    if a: "(Some k, kd, c) \<in> contents i t" "isACLKind kd" for k kd c
  proof -
    obtain kd' c' where b: "(Some k, kd', c') \<in> contents i u" "isACLKind kd'" "c \<noteq> None \<longrightarrow> c' \<noteq> None" using tu a by blast
    then obtain kd'' c'' where "(Some k, kd'', c'') \<in> contents i v" "isACLKind kd''" "c' \<noteq> None \<longrightarrow> c'' \<noteq> None" using uv by blast
    then show ?thesis using b(3) by blast
  qed
  have doc: "k \<in> set p2 \<or> (Some k, kd, c) \<in> contents i v" if a: "(Some k, kd, c) \<in> contents i t" "\<not> isACLKind kd" for k kd c
  proof -
    have "k \<in> set p1 \<or> (Some k, kd, c) \<in> contents i u" using tu a by blast
    then show ?thesis using uv a(2) by blast
  qed
  have sub: "contents i v \<subseteq> contents i u" "contents i u \<subseteq> contents i t" "set p0 \<subseteq> set p1" "set p1 \<subseteq> set p2"
    and p: "set p1 \<subseteq> set p0 \<union> {k. \<exists>kd c. (Some k, kd, c) \<in> contents i t \<and> \<not> isACLKind kd}"
      "set p2 \<subseteq> set p1 \<union> {k. \<exists>kd c. (Some k, kd, c) \<in> contents i u \<and> \<not> isACLKind kd}" using tu uv by (simp_all only: simp_thms)
  have "{k. \<exists>kd c. (Some k, kd, c) \<in> contents i u \<and> \<not> isACLKind kd} \<subseteq> {k. \<exists>kd c. (Some k, kd, c) \<in> contents i t \<and> \<not> isACLKind kd}"
    using sub(2) by blast
  then have pruned: "set p2 \<subseteq> set p0 \<union> {k. \<exists>kd c. (Some k, kd, c) \<in> contents i t \<and> \<not> isACLKind kd}" using p by blast
  have same: "nodeKind v = nodeKind t" "nodeChange v = nodeChange t" using tu uv by simp_all
  show ?thesis
    unfolding prunes_def
  proof (intro conjI allI impI)
    show "contents i v \<subseteq> contents i t" using sub(1,2) by blast
    show "set p0 \<subseteq> set p2" using sub(3,4) by blast
  qed (rule same, rule same, use acl in blast, use doc in blast, rule pruned)
qed

lemma setChildrenAt_self: "nodeKind (setChildrenAt p ch t) = nodeKind t" "nodeChange (setChildrenAt p ch t) = nodeChange t"
  by (cases p; auto split: changeChildren.splits)+

lemma leaf_contents: "aclOut out \<Longrightarrow> childContents out = {(Some k, nodeKind n, nodeChange n) | k n. jget out k = Some n}"
proof -
  assume ok: "aclOut out"
  have leaf: "contents (Some k) n = {(Some k, nodeKind n, nodeChange n)}" if "(k, n) \<in> set out" for k n
  proof -
    have "nodeChildren n = NoChildren" using ok that by (auto simp: aclOut_def jget_eq_Some_iff)
    then have "kidsOf n = []" by (simp add: kidsOf_def)
    then show ?thesis using contents_rec [of "Some k" n] by simp
  qed
  have "childContents out = (\<Union>(k, n) \<in> set out. {(Some k, nodeKind n, nodeChange n)})"
    unfolding childContents_def using leaf by (intro SUP_cong) auto
  then show ?thesis using ok by (auto simp: aclOut_def jget_eq_Some_iff)
qed

lemma prune_step:
  assumes at: "nodeAt p t = Some n" and cs: "nodeChildren n = Children cs" and collect: "collectACLNodes cs [] pruned = (out, pruned')"
  shows "prunes i t pruned (setChildrenAt p (if out = [] then NoChildren else Children out) t) pruned'"
proof -
  let ?ch = "if out = [] then NoChildren else Children out"
  let ?t = "setChildrenAt p ?ch t"
  have out: "aclOut out" and pruned: "set pruned' = set pruned \<union> {k. \<exists>kd c. (Some k, kd, c) \<in> childContents cs \<and> \<not> isACLKind kd}"
    and kept: "\<And>k kd c. (Some k, kd, c) \<in> childContents cs \<Longrightarrow> isACLKind kd \<Longrightarrow> keptIn out k c"
    and from_tree: "\<And>k m. jget out k = Some m \<Longrightarrow> (Some k, nodeKind m, nodeChange m) \<in> childContents cs"
    using collectACLNodes_ok [OF collect] by (auto simp: aclOut_def)
  have kids: "kidsOf (ChangeNode DocumentChange None ?ch) = out" by (simp add: kidsOf_def)
  have "replaced (contents i t) (childContents cs) (childContents out) (contents i ?t)"
    using setChildrenAt_contents [OF at, where i = i and ch = ?ch and k = DocumentChange and c = None] unfolding kids kidsOf_Children [OF cs] .
  then have old: "contents i t \<subseteq> contents i ?t \<union> childContents cs" and new: "childContents out \<subseteq> contents i ?t"
    and now: "contents i ?t \<subseteq> contents i t \<union> childContents out" by (simp_all add: replaced_def)
  have below: "childContents cs \<subseteq> contents i t"
  proof -
    have "childContents (kidsOf n) \<subseteq> contents i t" using at
    proof (induction p arbitrary: i t)
      case Nil
      then show ?case using contents_rec [of i t] by auto
    next
      case (Cons j p)
      have j: "j < length (kidsOf t)" "nodeAt p (snd (kidsOf t ! j)) = Some n" using Cons.prems by (auto split: if_splits)
      have "childContents (kidsOf n) \<subseteq> contents (Some (fst (kidsOf t ! j))) (snd (kidsOf t ! j))" using Cons.IH [OF j(2)] .
      also have "\<dots> \<subseteq> childContents (kidsOf t)" using nth_mem [OF j(1)] unfolding childContents_def by blast
      finally show ?case using contents_rec [of i t] by auto
    qed
    then show ?thesis using kidsOf_Children [OF cs] by simp
  qed
  have leaves: "childContents out \<subseteq> childContents cs" unfolding leaf_contents [OF out] using from_tree by blast
  have acl: "\<exists>kd' c'. (Some k, kd', c') \<in> contents i ?t \<and> isACLKind kd' \<and> (c \<noteq> None \<longrightarrow> c' \<noteq> None)"
    if a: "(Some k, kd, c) \<in> contents i t" "isACLKind kd" for k kd c
  proof (cases "(Some k, kd, c) \<in> contents i ?t")
    case True
    then show ?thesis using a(2) by blast
  next
    case False
    then have "keptIn out k c" using kept old a by blast
    then obtain m where m: "jget out k = Some m" "c \<noteq> None \<longrightarrow> nodeChange m \<noteq> None" by (auto simp: keptIn_def)
    then have "(Some k, nodeKind m, nodeChange m) \<in> contents i ?t" using new unfolding leaf_contents [OF out] by blast
    moreover have "isACLKind (nodeKind m)" using m(1) out by (simp add: aclOut_def)
    ultimately show ?thesis using m(2) by blast
  qed
  show ?thesis
    unfolding prunes_def setChildrenAt_self
  proof (intro conjI allI impI)
    show "contents i ?t \<subseteq> contents i t" using now leaves below by blast
    show "set pruned \<subseteq> set pruned'" unfolding pruned by blast
    show "set pruned' \<subseteq> set pruned \<union> {k. \<exists>kd c. (Some k, kd, c) \<in> contents i t \<and> \<not> isACLKind kd}" unfolding pruned using below by blast
    show "k \<in> set pruned' \<or> (Some k, kd, c) \<in> contents i ?t" if "(Some k, kd, c) \<in> contents i t \<and> \<not> isACLKind kd" for k kd c
      using that old unfolding pruned by blast
  qed (rule refl, rule refl, use acl in blast)
qed

lemma pruneLoop_prunes:
  "queue_ok queue t \<Longrightarrow> pruneLoop keep queue v t pruned = (t', pruned') \<Longrightarrow> prunes i t pruned t' pruned'"
proof (induction keep queue v t pruned rule: pruneLoop.induct)
  case (1 keep v t pruned)
  then show ?case by (simp add: prunes_refl)
next
  case (2 keep p n queue v t pruned)
  let ?acl = "isACLKind (nodeKind n)"
  let ?v = "if ?acl then v else v + 1"
  have tail: "queue_ok queue t" and at: "nodeAt p t = Some n" using "2.prems"(1) by (auto simp: queue_ok_def)
  show ?case
  proof (cases "nodeChildren n")
    case NoChildren
    then show ?thesis using "2.IH"(1) [OF refl refl NoChildren tail] "2.prems"(2) by (simp add: Let_def)
  next
    case DeferredChildren
    then show ?thesis using "2.IH"(2) [OF refl refl DeferredChildren tail] "2.prems"(2) by (simp add: Let_def)
  next
    case (Children cs)
    show ?thesis
    proof (cases "shouldPruneDocumentChildren ?acl ?v keep")
      case False
      then show ?thesis using "2.IH"(4) [OF refl refl Children False queue_ok_expand [OF "2.prems"(1) Children]] "2.prems"(2) Children
        by (simp add: Let_def)
    next
      case True
      obtain out mid where collect: "collectACLNodes cs [] pruned = (out, mid)" by force
      let ?t = "setChildrenAt p (if out = [] then NoChildren else Children out) t"
      have run: "pruneLoop keep queue ?v ?t mid = (t', pruned')" using "2.prems"(2) Children True collect by (simp add: Let_def)
      have "prunes i ?t mid t' pruned'"
        using "2.IH"(3) [OF refl refl Children True collect [symmetric] refl queue_ok_replace [OF "2.prems"(1)] run] .
      then show ?thesis using prunes_trans [OF prune_step [OF at Children collect]] by blast
    qed
  qed
qed

section \<open>Pruning\<close>

lemma pruneChanges_Inr:
  assumes "pruneChanges heap canonicalize keep (Some cid) (Some ref) = Inr (Some t', pruned)"
  shows "\<exists>es t. snapshotBoundedChangeTree (defaultOptions\<lparr>canonicalizeNodeId := Some canonicalize\<rparr>) heap (Some cid) ref = Inr (es, t) \<and>
    prunes (Some cid) t [] t' pruned"
proof -
  obtain es t where t: "snapshotBoundedChangeTree (defaultOptions\<lparr>canonicalizeNodeId := Some canonicalize\<rparr>) heap (Some cid) ref = Inr (es, t)"
    "pruneLoop keep [([], t)] 0 t [] = (t', pruned)"
    using assms by (auto simp: pruneChanges_def split: if_splits sum.splits prod.splits)
  have "queue_ok [([], t)] t" by (simp add: queue_ok_def)
  then show ?thesis using t pruneLoop_prunes by blast
qed

text \<open>
  Pruning loses no change of an access control list. If it succeeds, the tree it
  leaves has the root of the tree the walk accepted and only nodes of it; every CID of an
  access control change is still there, with a payload if the occurrence had one; and
  every CID of a document change is still there or reported as pruned, and only those are
  reported.
\<close>

theorem pruneChanges_preserves:
  assumes pruned: "pruneChanges heap canonicalize keep (Some cid) (Some ref) = Inr (Some t', pruned)"
    and tree: "snapshotBoundedChangeTree (defaultOptions\<lparr>canonicalizeNodeId := Some canonicalize\<rparr>) heap (Some cid) ref = Inr (es, t)"
  shows "nodeKind t' = nodeKind t \<and> nodeChange t' = nodeChange t \<and> contents (Some cid) t' \<subseteq> contents (Some cid) t \<and>
    (\<forall>k kd c. (Some k, kd, c) \<in> contents (Some cid) t \<and> isACLKind kd \<longrightarrow>
      (\<exists>kd' c'. (Some k, kd', c') \<in> contents (Some cid) t' \<and> isACLKind kd' \<and> (c \<noteq> None \<longrightarrow> c' \<noteq> None))) \<and>
    (\<forall>k kd c. (Some k, kd, c) \<in> contents (Some cid) t \<and> \<not> isACLKind kd \<longrightarrow> k \<in> set pruned \<or> (Some k, kd, c) \<in> contents (Some cid) t') \<and>
    set pruned \<subseteq> {k. \<exists>kd c. (Some k, kd, c) \<in> contents (Some cid) t \<and> \<not> isACLKind kd}"
proof -
  have "prunes (Some cid) t [] t' pruned" using pruneChanges_Inr [OF pruned] tree by auto
  then show ?thesis unfolding prunes_def by simp
qed

definition pruneHeap :: "nat \<Rightarrow> int payload NodeObject" where
  "pruneHeap a = \<lparr>objKind = Some (if a = 2 then WriterChange else DocumentChange), objKeyId = False, objChange = Some (Primitive (int a)),
     objChildren = (if a = 0 then ChildMap [(''old'', Ref 1)] else if a = 1 then ChildMap [(''acl'', Ref 2)] else AbsentChildren)\<rparr>"

definition prunedTree :: "int payload CRDTChangeNode" where
  "prunedTree = ChangeNode DocumentChange (Some (Primitive 0)) (Children [(''old'', ChangeNode DocumentChange (Some (Primitive 1))
     (Children [(''acl'', ChangeNode WriterChange (Some (Primitive 2)) NoChildren)]))])"

lemma pruneHeap_tree: "snapshotBoundedChangeTree (defaultOptions\<lparr>canonicalizeNodeId := Some Some\<rparr>) pruneHeap (Some ''head'') (Ref 0) =
    Inr ([(Some ''head'', DocumentChange, Some (Primitive 0)), (Some ''old'', DocumentChange, Some (Primitive 1)), (Some ''acl'', WriterChange, Some (Primitive 2))], prunedTree)"
  by (simp add: snapshotBoundedChangeTree_def collectLoop.simps enterNode_def leaveNode_def attachCopy_def newWalk_def pruneHeap_def prunedTree_def defaultOptions_def
      assertCanonicalCID_def require_def MAX_CHANGE_TREE_NODES_def MAX_CHANGE_TREE_EDGES_def MAX_CHANGE_TREE_DEPTH_def consumeWorkBudget_def Let_def)

lemma prunedTree_valid: "validateRemoteSyncTreeAliases (Some ''head'') prunedTree = Inr ()"
  by code_simp

lemma pruneHeap_pruned: "pruneChanges pruneHeap Some 1 (Some ''head'') (Some (Ref 0)) =
    Inr (Some (ChangeNode DocumentChange (Some (Primitive 0)) (Children [(''acl'', ChangeNode WriterChange (Some (Primitive 2)) NoChildren)])), [''old''])"
proof -
  have "pruneLoop 1 [([], prunedTree)] 0 prunedTree [] =
      (ChangeNode DocumentChange (Some (Primitive 0)) (Children [(''acl'', ChangeNode WriterChange (Some (Primitive 2)) NoChildren)]), [''old''])"
    by (simp add: prunedTree_def shouldPruneDocumentChildren_def isACLKind_def preserveACL_def setAdd_def jget_def Let_def)
  then show ?thesis by (simp add: pruneChanges_def pruneHeap_tree prunedTree_valid)
qed

lemma pruneChanges_preserves_witness:
  "contents (Some ''head'') (ChangeNode DocumentChange (Some (Primitive 0)) (Children [(''acl'', ChangeNode WriterChange (Some (Primitive 2)) NoChildren)]))
    \<subseteq> contents (Some ''head'') prunedTree"
  using pruneChanges_preserves [OF pruneHeap_pruned pruneHeap_tree] by (elim conjE)

end
