(* ===== verification/Spec2Isabelle.thy ===== *)
theory Spec2Isabelle
  imports Load_Quorum Tree_Index Invitation_Replay Welcome_Buffer Sync_Request
    Lru_Cache Replay_Recovery Store_Binding Acl_Chain Sync_Alias Prune_Proofs
begin

text \<open>
  Peerborne is a library for local-first documents that peers share without a trusted
  server. Documents are CRDTs; every change is signed, encrypted for the members of the
  document and exchanged over libp2p. This library models the parts of
  \<open>packages/core/src\<close> that decide: what a peer accepts, stores, forgets, answers and
  recovers. File names below are relative to that directory.

  \<^bold>\<open>How the parts fit.\<close> A peer that opens a document asks several others for the digest
  of its state and loads from a cohort that agrees (load quorum). New members enter by
  a signed public invitation that can be used once (invitation envelopes and replay
  guard). Membership keys live in a ratchet tree (tree index arithmetic); a Welcome
  that arrives before the readers' list waits in a bounded buffer. Peers repair gaps
  with signed sync requests. Document content travels in binary frames, and what a
  peer accepted is kept in a write-ahead journal that survives crashes and detects
  rollback. The private group state, one-time KeyPackages and the outbox are kept by a
  transactional store whose values are sealed envelopes. Changes of the access control
  list form a hash-linked chain of signatures. The changes themselves form a Merkle
  graph that is exchanged as trees, in which a node is sent in full once and elsewhere
  as a reference.

  \<^bold>\<open>Theories, in import order.\<close>

  \<^item> \<open>Js_Prelude\<close>: numbers and safe integers, insertion-ordered maps, byte strings, hex,
    constant-time comparison and the error monad \<open>sbind\<close>, with their laws.
  \<^item> \<open>Quorum_Policy\<close> (\<open>policy/quorum.ts\<close>, \<open>policy/authority-votes.ts\<close>) and \<open>Load_Quorum\<close>
    (\<open>load-quorum.ts\<close>, \<open>load-quorum-orchestrator.ts\<close>, \<open>tips-hash.ts\<close>): the tally and the
    whole round. Shown: a digest is returned exactly when Q authorities signed it and
    no rival reaches Q, fewer than Q faulty authorities cannot change it, thresholds.
  \<^item> \<open>Tree_Index\<close> (\<open>policy/tree-index.ts\<close>, \<open>beekem/tree-math.ts\<close>): copaths partition the
    other leaves, direct paths are the ancestors, every argument terminates.
  \<^item> \<open>Json_Text\<close>: \<open>JSON.stringify\<close> on what the code writes and \<open>JSON.parse\<close> on every
    text, numbers rounded to doubles; what was written is read back.
  \<^item> \<open>Invitation_Wire\<close> (\<open>invitation-wire.ts\<close>, \<open>policy/invitation-time.ts\<close>): the three
    envelopes with their checks, canonical tuples, strict decoders, signing and
    verification. Decoding is the exact inverse of encoding, the signing bytes determine
    the kind and the fields, and what is signed verifies.
  \<^item> \<open>Invitation_Replay\<close> (\<open>policy/replay-admission.ts\<close>, \<open>invitation-replay-guard.ts\<close>): the
    guard as a state machine over interleaved calls; one join and one acceptance per
    offer, consistent bounded indexes.
  \<^item> \<open>Welcome_Buffer\<close> (\<open>policy/welcome-admission.ts\<close>, \<open>policy/maintenance.ts\<close>,
    \<open>pending-welcome-buffer.ts\<close>): bounds, exact accounting, authenticated Welcomes are
    stored and never displaced by unauthenticated ones.
  \<^item> \<open>Sync_Request\<close> (\<open>policy/sync-request.ts\<close>, \<open>sync-request.ts\<close> and the handlers of
    \<open>peerborne-document.ts\<close>): each request is answered at most once, to a member, by a
    writer, at most every two seconds.
  \<^item> \<open>Lru_Cache\<close> (\<open>lru-cache.ts\<close>): refines a list of the most recent entries.
  \<^item> \<open>Text_Encoding\<close> (\<open>internal/canonical-encoding.ts\<close>), \<open>Document_Binary\<close>
    (\<open>policy/frame-layout.ts\<close>, \<open>internal/document-binary.ts\<close>,
    \<open>document-security-wire.ts\<close>): UTF-8 sizes, bounded writer and reader, frames and
    envelopes with their round trips.
  \<^item> \<open>Journal_Store\<close> and \<open>Journal_Refinement\<close> (\<open>policy/journal-store.ts\<close>,
    \<open>policy/journal-index.ts\<close>, \<open>document-journal-store.ts\<close>): the in-memory and the
    IndexedDB journal refine one abstract journal; commits happen once; every
    reachable journal reads back within its bounds.
  \<^item> \<open>Journal_Item\<close>, \<open>Replay_Journal\<close>, \<open>Replay_Recovery\<close> (\<open>policy/document-journal.ts\<close>,
    \<open>document-replay-journal.ts\<close>): the encrypted journal on the IndexedDB store with its
    rollback anchor. A restore after any operations and crashes succeeds and returns
    exactly what was committed, and it never adopts a rolled back store.
  \<^item> \<open>Group_Envelope\<close> (\<open>group-security-provider.ts\<close>): sealed group states and KeyPackages,
    their serialization, and the canonical membership delta.
  \<^item> \<open>Group_State_Store\<close>, \<open>Group_State_Proofs\<close>, \<open>Group_State_Theorems\<close>
    (\<open>group-state-store.ts\<close>, \<open>policy/store-budget.ts\<close>, \<open>policy/package-partition.ts\<close>):
    every operation of the transactional store. A transaction callback is a tree of
    calls that sees each result. Transactions are atomic, the incremental byte count is
    the full recount, every reachable store can be read and reopened, and a consumed
    KeyPackage stays consumed.
  \<^item> \<open>Store_Commitment\<close> and \<open>Store_Binding\<close> (\<open>group-security-store-commitment.ts\<close>): the
    canonical encoding of a stored snapshot binds its content up to the order of the
    arrays, and every snapshot of a reachable store has one.
  \<^item> \<open>Acl_Chain\<close> (\<open>acl-chain.ts\<close>): every entry of a chain was authorized by the entries
    before it, the head hash commits to the history, and replay reproduces a chain.
  \<^item> \<open>Change_Tree\<close> (\<open>change-tree-walk.ts\<close>, \<open>crdt-change-node.ts\<close>,
    \<open>policy/work-budget.ts\<close>): the walk that detaches a tree from a heap of objects
    computes its recursive unrolling within the bounds, whatever the heap.
  \<^item> \<open>Sync_Tree\<close>, \<open>Sync_Tree_Proofs\<close>, \<open>Sync_Tree_Theorems\<close>, \<open>Sync_Alias\<close>
    (\<open>merkle-cross-links.ts\<close>): the validation of aliases makes the occurrences of a CID
    consistent; the merge, the served frontier and the selection of nodes with closed
    ancestry are sets defined by the tree, if the occurrences with children agree. A
    concrete pair of trees shows that without this the merge depends on their order.
  \<^item> \<open>Block_Gc\<close>, \<open>Block_Gc_Proofs\<close> (\<open>policy/graph-reachability.ts\<close>, \<open>policy/retention.ts\<close>,
    \<open>blockstore-gc.ts\<close>, the collector of \<open>peerborne-document.ts\<close>): the collector as a state
    machine beside the document. No block is deleted that the current tree, the snapshot
    boundary or a recent tip needs, and an undisturbed pass deletes every other candidate
    that is not pinned.
  \<^item> \<open>Prune_Tree\<close>, \<open>Prune_Proofs\<close> (\<open>_pruneChanges\<close> of \<open>peerborne-document.ts\<close>): pruning
    keeps every change of an access control list and reports exactly the document changes
    it may drop.

  \<^bold>\<open>Conventions.\<close> A handler is a function on an explicit state that returns a result, an
  \<open>Inl\<close> of an error datatype for every throw of the source, and the new state. Code
  that awaits is split at the points where other code or a crash can intervene, and
  runs are lists of the resulting steps. Interfaces that several parts rely on are
  locales (byte readers, journal stores, ordered maps and others), interpreted on the
  definitions of the component that provides them.

  \<^bold>\<open>Parameters.\<close> WebCrypto (AES-GCM, SHA-256, signatures), the Base64 package, the
  protector of group state, the blockstore, callbacks of the application and random values
  are parameters. What a property needs of them (decryption inverts encryption, no
  collision of SHA-256, a key is determined by its serialization, Base64 decodes what it
  encoded) is a hypothesis of that property, and a witness instantiates it.

  \<^bold>\<open>Bounds.\<close> No fuel is used: recursions are total, and the loops of the tree
  arithmetic are partial functions that are proved to return. Limits of the source
  (entry counts, byte budgets, safe integers) are definitions with its values.

  \<^bold>\<open>Not modelled.\<close> The document runtime and the membership coordinator
  (\<open>peerborne-document.ts\<close> apart from sync requests, pruning and block collection,
  \<open>group-security-coordinator.ts\<close>),
  BeeKEM key derivation, UCAN delegation, the serialization of blocks,
  and the durable-acceptance and transition records of the group protocol are left for
  later. The CRDT providers, user interface bindings, relay process, query index and
  networking are adapters around external libraries. Defences against hostile
  JavaScript objects (accessor properties, shared buffers, patched prototypes) and the
  texts of error messages have no counterpart in the model: values are plain data.
\<close>

end
